(* ===== verification/Nx_Prelude.thy ===== *)
theory Nx_Prelude
  imports Main "HOL-Library.Word" "HOL-Library.Code_Target_Nat"
begin

text \<open>
  Shared vocabulary of the NANOX development: names for the fixed-width integers of the C
  sources, the collections of rewrite rules the component theories extend, and the facts on
  words, lists and finite counts that several components use.
\<close>

unbundle bit_operations_syntax

section \<open>Machine integers\<close>

type_synonym u8 = "8 word"
type_synonym u16 = "16 word"
type_synonym u32 = "32 word"
type_synonym u64 = "64 word"

type_synonym bytes = "u8 list"

text \<open>
  \<open>word_to_nat\<close> moves a statement on unsigned words to natural numbers; \<open>wrap_free\<close> holds the
  facts that a sum or a product of words does not wrap under its side condition.
\<close>

named_theorems word_to_nat
named_theorems evals
named_theorems wrap_free

declare word_less_nat_alt [word_to_nat]
declare word_le_nat_alt [word_to_nat]

lemma unat_add_small [wrap_free]:
  fixes a b :: "'a::len word"
  assumes "unat a + unat b < 2 ^ LENGTH('a)"
  shows "unat (a + b) = unat a + unat b"
  using assms by (simp add: unat_word_ariths)

lemma unat_u64_less: "unat (x :: u64) < 18446744073709551616"
  using unsigned_less [of x, where ?'a = nat] by simp

lemma unat_u32_less: "unat (x :: u32) < 4294967296"
  using unsigned_less [of x, where ?'a = nat] by simp

lemma unat_mult_small [wrap_free]:
  fixes a b :: "'a::len word"
  assumes "unat a * unat b < 2 ^ LENGTH('a)"
  shows "unat (a * b) = unat a * unat b"
  using assms by (simp add: unat_word_ariths)

lemma unat_sub_small:
  fixes a b :: "'a::len word"
  assumes "b \<le> a"
  shows "unat (a - b) = unat a - unat b"
  using assms by (rule unat_sub)

lemma unat_max_sub: "unat (- 1 - x :: u64) = 18446744073709551615 - unat x"
proof -
  have "unat (- 1 :: u64) = 18446744073709551615"
    by (simp add: unsigned_minus_1_eq_mask mask_eq_exp_minus_1)
  then show ?thesis by (subst unat_sub) simp_all
qed

lemma and_mask_mod:
  fixes x :: "'a::len word"
  shows "x AND mask n = x mod 2 ^ n"
  by (simp flip: take_bit_eq_mask add: take_bit_eq_mod)

lemma and_4095_mod: "(x :: u64) AND 4095 = x mod 4096"
  using and_mask_mod [of x 12] by (simp add: mask_eq_exp_minus_1)

lemma unat_and_4095: "unat ((x :: u64) AND 4095) = unat x mod 4096"
  by (simp add: and_4095_mod unat_mod)

lemma and_4095_zero: "((x :: u64) AND 4095 = 0) = (unat x mod 4096 = 0)"
  by (metis unat_and_4095 unat_eq_zero)

lemma and_not_mask_sub:
  fixes x :: "'a::len word"
  shows "x AND NOT (mask n) = x - x mod 2 ^ n"
proof -
  have "(x AND NOT (mask n)) + (x AND mask n) = (x AND NOT (mask n)) OR (x AND mask n)"
    by (rule disjunctive_add) (auto simp: bit_simps)
  also have "\<dots> = x"
    by (rule bit_word_eqI) (auto simp: bit_simps)
  finally show ?thesis by (simp add: and_mask_mod algebra_simps)
qed

lemma unat_align_down_4096: "unat ((x :: u64) AND NOT 4095) = unat x - unat x mod 4096"
proof -
  have "x AND NOT 4095 = x - x mod 4096"
    using and_not_mask_sub [of x 12] by (simp add: mask_eq_exp_minus_1)
  moreover have "x mod 4096 \<le> x"
    by (simp add: word_le_nat_alt unat_mod)
  ultimately show ?thesis by (simp add: unat_sub_small unat_mod)
qed

lemma unat_div_4096: "unat ((x :: u64) div 4096) = unat x div 4096"
  by (simp add: unat_div)

lemma page_room:
  assumes "unat (x :: u64) mod 4096 = 0"
  shows "unat x + 4095 < 18446744073709551616"
proof -
  obtain k where k: "unat x = 4096 * k" using assms by (metis mod_0_imp_dvd dvd_def)
  then have "k < 4503599627370496" using unat_u64_less [of x] by simp
  then show ?thesis using k by linarith
qed

section \<open>Finite counts\<close>

lemma card_filter_upt:
  "card {i. i < n \<and> P i} = length (filter P [0..<n])"
proof -
  have "set (filter P [0..<n]) = {i. i < n \<and> P i}" by auto
  moreover have "distinct (filter P [0..<n])" by simp
  ultimately show ?thesis by (metis distinct_card)
qed

lemma card_drop_one:
  assumes "k < n" and "P k" and "\<And>i. Q i = (P i \<and> i \<noteq> k)"
  shows "card {i. i < n \<and> Q i} = card {i. i < (n::nat) \<and> P i} - 1"
proof -
  have "{i. i < n \<and> Q i} = {i. i < n \<and> P i} - {k}" using assms(3) by auto
  moreover have "k \<in> {i. i < n \<and> P i}" using assms by simp
  ultimately show ?thesis by simp
qed

lemma card_add_one:
  assumes "k < n" and "\<not> P k" and "\<And>i. Q i = (P i \<or> i = k)"
  shows "card {i. i < n \<and> Q i} = card {i. i < (n::nat) \<and> P i} + 1"
proof -
  have "{i. i < n \<and> Q i} = insert k {i. i < n \<and> P i}" using assms by auto
  moreover have "k \<notin> {i. i < n \<and> P i}" using assms by simp
  ultimately show ?thesis by simp
qed

lemma card_upto_le: "card {i. i < n \<and> P i} \<le> (n::nat)"
proof -
  have "card {i. i < n \<and> P i} \<le> card {..<n}" by (rule card_mono) auto
  then show ?thesis by simp
qed

lemma ex_count_positive: "(0 < card {i. i < n \<and> P i}) = (\<exists>i < (n::nat). P i)"
proof
  assume "0 < card {i. i < n \<and> P i}"
  then have "{i. i < n \<and> P i} \<noteq> {}" by (metis card.empty less_irrefl)
  then show "\<exists>i<n. P i" by auto
next
  assume "\<exists>i<n. P i"
  then have "{i. i < n \<and> P i} \<noteq> {}" by auto
  then show "0 < card {i. i < n \<and> P i}" by (simp add: card_gt_0_iff)
qed

section \<open>Searching an index range\<close>

lemma find_upt_None: "List.find P [0..<n] = None \<longleftrightarrow> (\<forall>i<n. \<not> P i)"
  by (auto simp: find_None_iff)

lemma find_upt_Some:
  "List.find P [0..<n] = Some k \<longleftrightarrow> k < n \<and> P k \<and> (\<forall>j<k. \<not> P j)"
proof -
  have "(List.find P [0..<n] = Some k) =
     (\<exists>i<length [0..<n]. P ([0..<n] ! i) \<and> k = [0..<n] ! i \<and> (\<forall>j<i. \<not> P ([0..<n] ! j)))"
    by (rule find_Some_iff)
  then show ?thesis by auto
qed

lemma word_of_unat: "of_nat (unat w) = (w :: 'a::len word)"
  by simp

lemma unat_ucast_up:
  fixes x :: "'a::len word"
  assumes "LENGTH('a) \<le> LENGTH('b::len)"
  shows "unat (ucast x :: 'b word) = unat x"
proof -
  have "unat x < 2 ^ LENGTH('a)" by (rule unsigned_less)
  also have "(2 :: nat) ^ LENGTH('a) \<le> 2 ^ LENGTH('b)" using assms by (intro power_increasing) auto
  finally show ?thesis by (simp add: unsigned_ucast_eq take_bit_nat_eq_self)
qed

lemma unat_ucast_up_simps [simp]:
  "unat (ucast (a :: u32) :: u64) = unat a" "unat (ucast (b :: u16) :: u64) = unat b"
  "unat (ucast (b :: u16) :: u32) = unat b" "unat (ucast (c :: u8) :: u64) = unat c"
  "unat (ucast (c :: u8) :: u32) = unat c" "unat (ucast (c :: u8) :: u16) = unat c"
  by (rule unat_ucast_up, simp)+

lemma unat_ucast_down:
  fixes x :: "'a::len word"
  assumes "unat x < 2 ^ LENGTH('b::len)"
  shows "unat (ucast x :: 'b word) = unat x"
  using assms by (simp add: unsigned_ucast_eq take_bit_nat_eq_self)

section \<open>Cutting a list into chunks\<close>

lemma concat_chunks:
  "length d = n * k \<Longrightarrow> concat (map (\<lambda>i. take k (drop (i * k) d)) [0..<n]) = d"
proof (induction n arbitrary: d)
  case (Suc n)
  have "map (\<lambda>i. take k (drop (i * k) d)) [0..<Suc n]
      = take k d # map (\<lambda>i. take k (drop (i * k) (drop k d))) [0..<n]"
    by (simp add: upt_conv_Cons map_Suc_upt [symmetric] add.commute del: upt_Suc)
  then show ?case using Suc.IH [of "drop k d"] Suc.prems by simp
qed simp

section \<open>Evaluation by rewriting\<close>

text \<open>
  Rules that let the simplifier run list code on numeral indices; with them a concrete state is
  evaluated by \<open>simp add: evals\<close> and the unfolded definitions.
\<close>

lemma replicate_numeral [evals]: "replicate (numeral k) x = x # replicate (pred_numeral k) x"
  by (simp add: numeral_eq_Suc)

lemma list_update_numeral [evals]: "(x # xs)[numeral k := y] = x # xs[pred_numeral k := y]"
  by (simp add: numeral_eq_Suc)

lemma find_upt_numeral [evals]:
  "List.find P [numeral i..<numeral j] =
     (if (numeral i :: nat) < numeral j
      then if P (numeral i) then Some (numeral i)
           else List.find P [numeral (Num.inc i)..<numeral j]
      else None)"
  by (simp add: upt_conv_Cons numeral_inc)

lemma find_upt_0 [evals]:
  "List.find P [0..<numeral j] = (if P 0 then Some 0 else List.find P [1..<numeral j])"
  by (simp add: upt_conv_Cons)

lemma find_upt_1 [evals]:
  "List.find P [Suc 0..<numeral j] =
     (if (1 :: nat) < numeral j
      then if P 1 then Some 1 else List.find P [2..<numeral j] else None)"
  by (simp add: upt_conv_Cons numeral_2_eq_2)

declare upt_rec_numeral [evals]

end
