(* ===== verification/Boot_Abi.thy ===== *)
theory Boot_Abi
  imports Nx_Prelude
begin

text \<open>
  The boot-info ABI shared by the UEFI loader, the boot-info validator and the page allocator
  (abi/nanox/bootinfo.h): the memory region type codes, a memory region, and the boot-info
  structure with the fields of versions 1.0 and 1.1.
\<close>

abbreviation NX_MEM_USABLE :: u32 where "NX_MEM_USABLE \<equiv> 1"
abbreviation NX_MEM_RESERVED :: u32 where "NX_MEM_RESERVED \<equiv> 2"
abbreviation NX_MEM_ACPI_RECLAIMABLE :: u32 where "NX_MEM_ACPI_RECLAIMABLE \<equiv> 3"
abbreviation NX_MEM_ACPI_NVS :: u32 where "NX_MEM_ACPI_NVS \<equiv> 4"
abbreviation NX_MEM_MMIO :: u32 where "NX_MEM_MMIO \<equiv> 5"
abbreviation NX_MEM_BOOT_RECLAIMABLE :: u32 where "NX_MEM_BOOT_RECLAIMABLE \<equiv> 6"
abbreviation NX_MEM_KERNEL_IMAGE :: u32 where "NX_MEM_KERNEL_IMAGE \<equiv> 7"
abbreviation NX_MEM_KERNEL_STACK :: u32 where "NX_MEM_KERNEL_STACK \<equiv> 8"
abbreviation NX_MEM_BOOT_INFO :: u32 where "NX_MEM_BOOT_INFO \<equiv> 9"
abbreviation NX_MEM_FIRMWARE_RUNTIME :: u32 where "NX_MEM_FIRMWARE_RUNTIME \<equiv> 10"
abbreviation NX_MEM_INITRD :: u32 where "NX_MEM_INITRD \<equiv> 11"
abbreviation NX_MEM_TYPE_MIN :: u32 where "NX_MEM_TYPE_MIN \<equiv> 1"
abbreviation NX_MEM_TYPE_MAX_V1_0 :: u32 where "NX_MEM_TYPE_MAX_V1_0 \<equiv> 10"
abbreviation NX_MEM_TYPE_MAX :: u32 where "NX_MEM_TYPE_MAX \<equiv> 11"
abbreviation NX_PAGE_SIZE :: u64 where "NX_PAGE_SIZE \<equiv> 4096"

record nx_mem_region =
  mr_base :: u64
  mr_length :: u64
  mr_type :: u32
  mr_flags :: u32

record nx_boot_info =
  bi_magic :: u64
  bi_version_major :: u16
  bi_version_minor :: u16
  bi_size :: u32
  bi_flags :: u64
  bi_mmap_phys :: u64
  bi_mmap_count :: u32
  bi_mmap_entry_size :: u32
  bi_kernel_phys_base :: u64
  bi_kernel_phys_size :: u64
  bi_kernel_entry :: u64
  bi_stack_phys_base :: u64
  bi_stack_size :: u64
  bi_cmdline_phys :: u64
  bi_cmdline_len :: u32
  bi_reserved0 :: u32
  bi_initrd_phys :: u64
  bi_initrd_size :: u64
  bi_acpi_rsdp_phys :: u64
  bi_fb_phys :: u64
  bi_fb_size :: u64
  bi_fb_width :: u32
  bi_fb_height :: u32
  bi_fb_pitch :: u32
  bi_fb_format :: u32
  bi_uefi_system_table_phys :: u64
  bi_kernel_sha256 :: bytes
  bi_initrd_sha256 :: bytes

text \<open>
  The address range of a region as natural numbers, and what the validator promises of a memory
  map: page aligned, non-empty, no wrap-around, ascending and disjoint.
\<close>

definition mr_lo :: "nx_mem_region \<Rightarrow> nat" where
  "mr_lo r = unat (mr_base r)"

definition mr_hi :: "nx_mem_region \<Rightarrow> nat" where
  "mr_hi r = unat (mr_base r) + unat (mr_length r)"

definition region_wf :: "nx_mem_region \<Rightarrow> bool" where
  "region_wf r \<longleftrightarrow> mr_lo r mod 4096 = 0 \<and> unat (mr_length r) mod 4096 = 0
     \<and> mr_lo r < mr_hi r \<and> mr_hi r < 2 ^ 64"

definition region_before :: "nx_mem_region \<Rightarrow> nx_mem_region \<Rightarrow> bool" where
  "region_before a b \<longleftrightarrow> mr_hi a \<le> mr_lo b"

definition regions_wf :: "nx_mem_region list \<Rightarrow> bool" where
  "regions_wf rs \<longleftrightarrow> (\<forall>r \<in> set rs. region_wf r) \<and> sorted_wrt region_before rs"

lemma region_end_word:
  assumes "region_wf r"
  shows "unat (mr_base r + mr_length r) = mr_hi r"
  using assms by (simp add: region_wf_def mr_hi_def unat_add_small)

lemma regions_wf_Cons [simp]:
  "regions_wf (r # rs) \<longleftrightarrow>
     region_wf r \<and> (\<forall>x \<in> set rs. region_before r x) \<and> regions_wf rs"
  by (auto simp: regions_wf_def)

lemma regions_wf_Nil [simp]: "regions_wf []"
  by (simp add: regions_wf_def)

lemma regions_wf_member: "regions_wf rs \<Longrightarrow> r \<in> set rs \<Longrightarrow> region_wf r"
  by (simp add: regions_wf_def)

end
