(* ===== verification/Bitmap.thy ===== *)
theory Bitmap
  imports Nx_Prelude
begin

text \<open>
  The bit arrays of the page allocator (kernel/mm/pmm.c: bit, set_bit, clear_bit). A bitmap is
  the byte array the C code indexes; bit \<open>i\<close> is bit \<open>i & 7\<close> of byte \<open>i >> 3\<close>. The locale
  \<open>bit_array\<close> is the contract the allocator relies on; its interpretation on the byte-level
  code is at the end. The block store has its own copy of the same three lines of C.
\<close>

definition bm_get :: "bytes \<Rightarrow> nat \<Rightarrow> bool" where
  "bm_get m i = ((drop_bit (i mod 8) (m ! (i div 8))) AND 1 = 1)"

definition bm_set :: "bytes \<Rightarrow> nat \<Rightarrow> bytes" where
  "bm_set m i = m[i div 8 := (m ! (i div 8)) OR push_bit (i mod 8) 1]"

definition bm_clear :: "bytes \<Rightarrow> nat \<Rightarrow> bytes" where
  "bm_clear m i = m[i div 8 := (m ! (i div 8)) AND NOT (push_bit (i mod 8) 1)]"

lemma bm_get_bit: "bm_get m i = bit (m ! (i div 8)) (i mod 8)"
  by (simp add: bm_get_def bit_iff_odd_drop_bit and_one_eq mod2_eq_if)

lemma length_bm_set [simp]: "length (bm_set m i) = length m"
  by (simp add: bm_set_def)

lemma length_bm_clear [simp]: "length (bm_clear m i) = length m"
  by (simp add: bm_clear_def)

lemma bit_or_single: "b < 8 \<Longrightarrow> bit ((x :: u8) OR push_bit a 1) b = (bit x b \<or> a = b)"
  by (auto simp: bit_or_iff bit_push_bit_iff bit_1_iff bit_exp_iff)

lemma bit_and_not_single: "b < 8 \<Longrightarrow> bit ((x :: u8) AND NOT (push_bit a 1)) b = (bit x b \<and> a \<noteq> b)"
  by (auto simp: bit_and_iff bit_not_iff bit_push_bit_iff bit_1_iff bit_exp_iff)

lemma index_split: "(i = j) = (i div 8 = j div 8 \<and> i mod 8 = j mod (8::nat))"
  by (metis div_mult_mod_eq)

lemma bm_get_set:
  assumes "i div 8 < length m"
  shows "bm_get (bm_set m i) j = (i = j \<or> bm_get m j)"
  using assms bit_or_single [of "j mod 8" "m ! (j div 8)" "i mod 8"] index_split [of i j]
  by (cases "i div 8 = j div 8") (simp_all add: bm_get_bit bm_set_def disj_commute)

lemma bm_get_clear:
  assumes "i div 8 < length m"
  shows "bm_get (bm_clear m i) j = (i \<noteq> j \<and> bm_get m j)"
  using assms bit_and_not_single [of "j mod 8" "m ! (j div 8)" "i mod 8"] index_split [of i j]
  by (cases "i div 8 = j div 8") (simp_all add: bm_get_bit bm_clear_def conj_commute)

lemma bm_get_replicate_0: "i div 8 < n \<Longrightarrow> \<not> bm_get (replicate n 0) i"
  by (simp add: bm_get_bit)

lemma bm_get_replicate_FF: "i div 8 < n \<Longrightarrow> bm_get (replicate n 0xFF) i"
proof -
  have "(0xFF :: u8) = - 1" by simp
  moreover have "i mod 8 < 8" by simp
  ultimately have "bit (0xFF :: u8) (i mod 8)" by (simp only: bit_minus_1_iff) simp
  moreover assume "i div 8 < n"
  ultimately show ?thesis by (simp add: bm_get_bit)
qed

text \<open>The byte count \<open>(n + 7) / 8\<close> of the C code covers every index below \<open>n\<close>.\<close>

lemma bytes_cover: "i < n \<Longrightarrow> i div 8 < (n + 7) div (8::nat)"
  using div_le_mono [of "i + 8" "n + 7" 8] by simp

locale bit_array =
  fixes get :: "'m \<Rightarrow> nat \<Rightarrow> bool"
    and setb :: "'m \<Rightarrow> nat \<Rightarrow> 'm"
    and clr :: "'m \<Rightarrow> nat \<Rightarrow> 'm"
    and covers :: "'m \<Rightarrow> nat \<Rightarrow> bool"
  assumes get_set: "covers m i \<Longrightarrow> get (setb m i) j = (i = j \<or> get m j)"
    and get_clr: "covers m i \<Longrightarrow> get (clr m i) j = (i \<noteq> j \<and> get m j)"
    and covers_set: "covers (setb m i) j = covers m j"
    and covers_clr: "covers (clr m i) j = covers m j"
begin

lemma count_set:
  assumes "covers m k" "k < n" "\<not> get m k"
  shows "card {i. i < n \<and> get (setb m k) i} = card {i. i < n \<and> get m i} + 1"
  by (rule card_add_one) (use assms in \<open>auto simp: get_set\<close>)

lemma get_fold_set:
  assumes "\<forall>i \<in> set is. covers m i"
  shows "get (fold (\<lambda>i m. setb m i) is m) j = (j \<in> set is \<or> get m j)"
  using assms
  by (induction "is" arbitrary: m) (auto simp: get_set covers_set)

lemma covers_fold_set: "covers (fold (\<lambda>i m. setb m i) is m) j = covers m j"
  by (induction "is" arbitrary: m) (auto simp: covers_set)

end

interpretation bm: bit_array bm_get bm_set bm_clear "\<lambda>m i. i div 8 < length m"
  by unfold_locales (simp_all add: bm_get_set bm_get_clear)

end
