(* ===== verification/Page_Source.thy ===== *)
theory Page_Source
  imports Nx_Prelude
begin

text \<open>
  The contract between the physical page allocator and its clients (page tables, VM objects,
  kernel stacks): pages come out of an available set into an owned set and go back, an address
  is never in both, and the address 0 only ever means "out of memory". The theory proves once,
  for every provider of the contract, what an arbitrary sequence of allocations and releases
  does and what the allocate-n-or-roll-back loop of the clients does.
\<close>

datatype page_op = Op_Alloc | Op_Free u64

fun run_ops ::
    "('s \<Rightarrow> u64 \<times> 's) \<Rightarrow> ('s \<Rightarrow> u64 \<Rightarrow> 's \<times> 'e) \<Rightarrow> 'e \<Rightarrow> page_op list \<Rightarrow> 's \<times> u64 list \<Rightarrow> 's \<times> u64 list"
where
  "run_ops alloc free ok [] (s, held) = (s, held)"
| "run_ops alloc free ok (Op_Alloc # ops) (s, held) =
     (let (a, t) = alloc s in run_ops alloc free ok ops (t, if a = 0 then held else a # held))"
| "run_ops alloc free ok (Op_Free a # ops) (s, held) =
     (let (t, st) = free s a
      in run_ops alloc free ok ops (t, if st = ok then remove1 a held else held))"

text \<open>
  The allocation loop of the clients: \<open>n\<close> more pages behind the ones in \<open>got\<close>, or None with
  everything taken so far given back, oldest first.
\<close>

fun free_all :: "('s \<Rightarrow> u64 \<Rightarrow> 's \<times> 'e) \<Rightarrow> u64 list \<Rightarrow> 's \<Rightarrow> 's" where
  "free_all free [] s = s"
| "free_all free (a # as) s = free_all free as (fst (free s a))"

fun take_pages ::
    "('s \<Rightarrow> u64 \<times> 's) \<Rightarrow> ('s \<Rightarrow> u64 \<Rightarrow> 's \<times> 'e) \<Rightarrow> nat \<Rightarrow> u64 list \<Rightarrow> 's \<Rightarrow> u64 list option \<times> 's"
where
  "take_pages alloc free 0 got s = (Some got, s)"
| "take_pages alloc free (Suc n) got s =
     (let (a, t) = alloc s
      in if a = 0 then (None, free_all free got t) else take_pages alloc free n (got @ [a]) t)"

locale page_source =
  fixes alloc :: "'s \<Rightarrow> u64 \<times> 's"
    and free :: "'s \<Rightarrow> u64 \<Rightarrow> 's \<times> 'e"
    and ok :: 'e
    and inv :: "'s \<Rightarrow> bool"
    and avail :: "'s \<Rightarrow> u64 set"
    and owned :: "'s \<Rightarrow> u64 set"
  assumes alloc_none: "inv s \<Longrightarrow> avail s = {} \<Longrightarrow> alloc s = (0, s)"
    and alloc_some: "inv s \<Longrightarrow> avail s \<noteq> {} \<Longrightarrow> alloc s = (a, t) \<Longrightarrow>
          a \<in> avail s \<and> inv t \<and> avail t = avail s - {a} \<and> owned t = insert a (owned s)"
    and free_owned: "inv s \<Longrightarrow> a \<in> owned s \<Longrightarrow> free s a = (t, st) \<Longrightarrow>
          st = ok \<and> inv t \<and> avail t = insert a (avail s) \<and> owned t = owned s - {a}"
    and free_other: "inv s \<Longrightarrow> a \<notin> owned s \<Longrightarrow> free s a = (t, st) \<Longrightarrow> st \<noteq> ok \<and> t = s"
    and null_page: "inv s \<Longrightarrow> 0 \<notin> avail s"
    and apart: "inv s \<Longrightarrow> avail s \<inter> owned s = {}"
begin

lemma finite_avail: "finite (avail s)" "finite (owned s)"
  by simp_all

lemma alloc_zero: "inv s \<Longrightarrow> alloc s = (0, t) \<Longrightarrow> avail s = {} \<and> t = s"
  using alloc_none [of s] alloc_some [of s 0 t] null_page [of s] by fastforce

lemma alloc_page:
  assumes "inv s" and "alloc s = (a, t)" and "a \<noteq> 0"
  shows "a \<in> avail s" and "a \<notin> owned s" and "inv t" and "avail t = avail s - {a}"
    and "owned t = insert a (owned s)"
  using assms alloc_none [of s] alloc_some [of s a t] apart [of s] by auto

lemma run_ops_inv:
  assumes "inv s" and "distinct held" and "set held = owned s"
    and "run_ops alloc free ok ops (s, held) = (t, held')"
  shows "inv t \<and> distinct held' \<and> set held' = owned t
    \<and> avail t \<union> owned t = avail s \<union> owned s"
  using assms
proof (induction ops arbitrary: s held)
  case (Cons oper ops)
  show ?case
  proof (cases oper)
    case Op_Alloc
    obtain a u where au: "alloc s = (a, u)" by fastforce
    show ?thesis
    proof (cases "a = 0")
      case True
      then show ?thesis using Cons au Op_Alloc alloc_zero [of s u] by auto
    next
      case False
      note pg = alloc_page [OF Cons.prems(1) au False]
      have "inv t \<and> distinct held' \<and> set held' = owned t \<and> avail t \<union> owned t = avail u \<union> owned u"
        by (rule Cons.IH [of u "a # held"]) (use Cons.prems pg au Op_Alloc False in auto)
      then show ?thesis using pg by auto
    qed
  next
    case (Op_Free a)
    obtain u st where fu: "free s a = (u, st)" by fastforce
    show ?thesis
    proof (cases "a \<in> owned s")
      case True
      note fr = free_owned [OF Cons.prems(1) True fu]
      have "inv t \<and> distinct held' \<and> set held' = owned t \<and> avail t \<union> owned t = avail u \<union> owned u"
        by (rule Cons.IH [of u "remove1 a held"]) (use Cons.prems fr fu Op_Free in auto)
      then show ?thesis using fr True by auto
    next
      case False
      then show ?thesis
        using Cons.IH [of s held] Cons.prems fu Op_Free free_other [of s a u st] by auto
    qed
  qed
qed simp

lemma run_ops_conserve:
  assumes "inv s" and "distinct held" and "set held = owned s"
    and "run_ops alloc free ok ops (s, held) = (t, held')"
  shows "card (avail t) + length held' = card (avail s) + length held"
proof -
  note r = run_ops_inv [OF assms]
  have "card (avail s \<union> owned s) = card (avail s) + length held"
    using apart [OF assms(1)] distinct_card [OF assms(2)] assms(3)
    by (subst card_Un_disjoint) simp_all
  moreover have "card (avail t \<union> owned t) = card (avail t) + length held'"
    using apart [of t] r distinct_card [of held'] by (subst card_Un_disjoint) auto
  ultimately show ?thesis using r by simp
qed

lemma free_all_back:
  assumes "inv s" and "distinct as" and "set as \<subseteq> owned s"
  shows "inv (free_all free as s)"
    and "avail (free_all free as s) = avail s \<union> set as"
    and "owned (free_all free as s) = owned s - set as"
proof -
  have "inv (free_all free as s) \<and> avail (free_all free as s) = avail s \<union> set as
    \<and> owned (free_all free as s) = owned s - set as"
    using assms
  proof (induction as arbitrary: s)
    case (Cons a as)
    obtain u st where fu: "free s a = (u, st)" by fastforce
    have fr: "inv u" "avail u = insert a (avail s)" "owned u = owned s - {a}"
      using free_owned [OF Cons.prems(1) _ fu] Cons.prems(3) by auto
    then show ?case using Cons.IH [of u] Cons.prems fu by auto
  qed simp
  then show "inv (free_all free as s)"
    and "avail (free_all free as s) = avail s \<union> set as"
    and "owned (free_all free as s) = owned s - set as" by simp_all
qed

lemma take_pages_ok:
  assumes "inv s" and "distinct got" and "set got \<subseteq> owned s"
    and "take_pages alloc free n got s = (Some pages, t)"
  shows "\<exists>new. pages = got @ new \<and> length new = n \<and> distinct new \<and> set new \<subseteq> avail s
    \<and> inv t \<and> avail t = avail s - set new \<and> owned t = owned s \<union> set new"
  using assms
proof (induction n arbitrary: got s)
  case (Suc n)
  obtain a u where au: "alloc s = (a, u)" by fastforce
  with Suc.prems(4) have a: "a \<noteq> 0" and rest: "take_pages alloc free n (got @ [a]) u = (Some pages, t)"
    by (auto split: if_splits)
  note pg = alloc_page [OF Suc.prems(1) au a]
  obtain new where "pages = (got @ [a]) @ new" "length new = n" "distinct new" "set new \<subseteq> avail u"
    "inv t" "avail t = avail u - set new" "owned t = owned u \<union> set new"
    using Suc.IH [OF pg(3) _ _ rest] Suc.prems pg by auto
  then show ?case using pg by (intro exI [of _ "a # new"]) auto
qed simp

lemma take_pages_fail:
  assumes "inv s" and "distinct got" and "set got \<subseteq> owned s"
    and "take_pages alloc free n got s = (None, t)"
  shows "card (avail s) < n \<and> inv t \<and> avail t = avail s \<union> set got \<and> owned t = owned s - set got"
  using assms
proof (induction n arbitrary: got s)
  case (Suc n)
  obtain a u where au: "alloc s = (a, u)" by fastforce
  show ?case
  proof (cases "a = 0")
    case True
    then have "avail s = {}" "t = free_all free got s"
      using Suc.prems(1,4) au alloc_zero [of s u] by auto
    then show ?thesis
      using free_all_back [OF Suc.prems(1-3)] by simp
  next
    case False
    note pg = alloc_page [OF Suc.prems(1) au False]
    have "take_pages alloc free n (got @ [a]) u = (None, t)"
      using Suc.prems(4) au False by simp
    then have "card (avail u) < n \<and> inv t \<and> avail t = avail u \<union> set (got @ [a])
      \<and> owned t = owned u - set (got @ [a])"
      by (rule Suc.IH [OF pg(3), rotated 2]) (use Suc.prems(2,3) pg in auto)
    moreover have "card (avail s) = Suc (card (avail u))"
      using pg card_Suc_Diff1 [of "avail s" a] by simp
    moreover have "avail s \<union> set got = avail u \<union> set (got @ [a])"
      and "owned s - set got = owned u - set (got @ [a])"
      using pg by auto
    ultimately show ?thesis by simp
  qed
qed simp

end

end
