(* ===== verification/Pmm.thy ===== *)
theory Pmm
  imports Boot_Abi Bitmap Page_Source
begin

text \<open>
  The physical page allocator (kernel/mm/pmm.c, pmm.h): two bitmaps over the pages of the
  physical address space, a free counter and a next-fit hint. The record holds the bytes that
  the pointers \<open>used\<close> and \<open>managed\<close> reach and, separately, the addresses through which they are
  reached, since \<open>nx_pmm_relocate\<close> changes only the latter. Loops over an index range are folds
  or searches over that range; all struct fields are 64-bit words with C's wrap-around.
\<close>

abbreviation NX_PMM_MIN_PHYS :: u64 where "NX_PMM_MIN_PHYS \<equiv> 0x100000"

datatype nx_pmm_status =
    NX_PMM_OK
  | NX_PMM_E_ALIGN
  | NX_PMM_E_UNMANAGED
  | NX_PMM_E_DOUBLE_FREE
  | NX_PMM_E_STORAGE
  | NX_PMM_E_EMPTY

record nx_pmm =
  pm_used :: bytes
  pm_managed :: bytes
  pm_used_at :: u64
  pm_managed_at :: u64
  pm_npages :: u64
  pm_managed_pages :: u64
  pm_free_pages :: u64
  pm_next :: u64
  pm_storage_first :: u64
  pm_storage_last :: u64

definition manageable :: "u32 \<Rightarrow> bool" where
  "manageable ty \<longleftrightarrow> ty = NX_MEM_USABLE \<or> ty = NX_MEM_BOOT_RECLAIMABLE
     \<or> ty = NX_MEM_KERNEL_STACK \<or> ty = NX_MEM_INITRD \<or> ty = NX_MEM_ACPI_RECLAIMABLE"

fun span_end :: "nx_mem_region list \<Rightarrow> u64 \<Rightarrow> u64" where
  "span_end [] e = e"
| "span_end (r # rs) e =
     span_end rs (if manageable (mr_type r) \<and> mr_base r + mr_length r > e
                  then mr_base r + mr_length r else e)"

definition nx_pmm_span_pages :: "nx_mem_region list \<Rightarrow> u64" where
  "nx_pmm_span_pages rg = span_end rg 0 div 4096"

definition bitmap_bytes :: "u64 \<Rightarrow> u64" where
  "bitmap_bytes npages = (npages + 7) div 8"

definition nx_pmm_storage_bytes :: "u64 \<Rightarrow> u64" where
  "nx_pmm_storage_bytes npages = (2 * bitmap_bytes npages + 4096 - 1) AND NOT (4096 - 1)"

fun nx_pmm_find_storage :: "nx_mem_region list \<Rightarrow> u64 \<Rightarrow> u64" where
  "nx_pmm_find_storage [] bytes = 0"
| "nx_pmm_find_storage (r # rs) bytes =
     (if mr_type r \<noteq> NX_MEM_USABLE then nx_pmm_find_storage rs bytes
      else let base = (if mr_base r < NX_PMM_MIN_PHYS then NX_PMM_MIN_PHYS else mr_base r);
               fin = mr_base r + mr_length r
           in if base < fin \<and> fin - base \<ge> bytes then base
              else nx_pmm_find_storage rs bytes)"

definition add_page :: "nat \<Rightarrow> nx_pmm \<times> u64 \<Rightarrow> nx_pmm \<times> u64" where
  "add_page i pa = (case pa of (p, added) \<Rightarrow>
     if bm_get (pm_managed p) i
        \<or> (i \<ge> unat (pm_storage_first p) \<and> i < unat (pm_storage_last p))
     then (p, added)
     else (p\<lparr>pm_managed := bm_set (pm_managed p) i, pm_used := bm_clear (pm_used p) i\<rparr>,
           added + 1))"

definition add_pages :: "nx_pmm \<Rightarrow> u64 \<Rightarrow> u64 \<Rightarrow> nx_pmm \<times> u64" where
  "add_pages p base0 fin =
     (let base = (if base0 < NX_PMM_MIN_PHYS then NX_PMM_MIN_PHYS else base0);
          first = (base + 4096 - 1) div 4096;
          last0 = fin div 4096;
          last = (if last0 > pm_npages p then pm_npages p else last0);
          (q, added) = fold add_page [unat first..<unat last] (p, 0)
      in (q\<lparr>pm_managed_pages := pm_managed_pages q + added,
            pm_free_pages := pm_free_pages q + added\<rparr>, added))"

fun add_type_loop :: "nx_pmm \<Rightarrow> nx_mem_region list \<Rightarrow> u32 \<Rightarrow> u64 \<Rightarrow> nx_pmm \<times> u64" where
  "add_type_loop p [] ty added = (p, added)"
| "add_type_loop p (r # rs) ty added =
     (if mr_type r = ty \<and> manageable ty
      then let (q, n) = add_pages p (mr_base r) (mr_base r + mr_length r)
           in add_type_loop q rs ty (added + n)
      else add_type_loop p rs ty added)"

definition nx_pmm_add_type ::
    "nx_pmm \<Rightarrow> nx_mem_region list \<Rightarrow> u32 \<Rightarrow> nx_pmm \<times> u64 \<times> nx_pmm_status" where
  "nx_pmm_add_type p rg ty = (let (q, added) = add_type_loop p rg ty 0 in (q, added, NX_PMM_OK))"

definition nx_pmm_init ::
    "nx_pmm \<Rightarrow> nx_mem_region list \<Rightarrow> u64 \<Rightarrow> u64 \<Rightarrow> u64 \<Rightarrow> nx_pmm \<times> nx_pmm_status" where
  "nx_pmm_init p0 rg storage storage_phys storage_bytes =
     (let p = p0\<lparr>pm_npages := nx_pmm_span_pages rg\<rparr> in
      if pm_npages p = 0 then (p, NX_PMM_E_EMPTY)
      else let one = bitmap_bytes (pm_npages p) in
      if storage = 0 \<or> storage_phys AND (4096 - 1) \<noteq> 0 \<or> storage_bytes < 2 * one
         \<or> storage_phys > - 1 - storage_bytes - 4096
      then (p, NX_PMM_E_STORAGE)
      else let p1 = p\<lparr>pm_used_at := storage, pm_managed_at := storage + one,
                      pm_used := replicate (unat one) 0xFF,
                      pm_managed := replicate (unat one) 0,
                      pm_managed_pages := 0, pm_free_pages := 0, pm_next := 0,
                      pm_storage_first := storage_phys div 4096,
                      pm_storage_last := (storage_phys + storage_bytes + 4096 - 1) div 4096\<rparr>;
               (p2, added, st) = nx_pmm_add_type p1 rg NX_MEM_USABLE
           in (p2, if pm_managed_pages p2 \<noteq> 0 then NX_PMM_OK else NX_PMM_E_EMPTY))"

definition nx_pmm_relocate :: "nx_pmm \<Rightarrow> u64 \<Rightarrow> nx_pmm" where
  "nx_pmm_relocate p storage =
     p\<lparr>pm_used_at := storage, pm_managed_at := storage + bitmap_bytes (pm_npages p)\<rparr>"

definition alloc_index :: "nx_pmm \<Rightarrow> nat \<Rightarrow> u64" where
  "alloc_index p k = (pm_next p + of_nat k) mod pm_npages p"

definition nx_pmm_alloc :: "nx_pmm \<Rightarrow> u64 \<times> nx_pmm" where
  "nx_pmm_alloc p =
     (if pm_free_pages p = 0 then (0, p)
      else case List.find (\<lambda>k. bm_get (pm_managed p) (unat (alloc_index p k))
                              \<and> \<not> bm_get (pm_used p) (unat (alloc_index p k)))
                         [0..<unat (pm_npages p)] of
             None \<Rightarrow> (0, p)
           | Some k \<Rightarrow>
               (let i = alloc_index p k
                in (i * 4096,
                    p\<lparr>pm_used := bm_set (pm_used p) (unat i),
                      pm_free_pages := pm_free_pages p - 1,
                      pm_next := (i + 1) mod pm_npages p\<rparr>)))"

definition nx_pmm_free :: "nx_pmm \<Rightarrow> u64 \<Rightarrow> nx_pmm \<times> nx_pmm_status" where
  "nx_pmm_free p phys =
     (if phys AND (4096 - 1) \<noteq> 0 then (p, NX_PMM_E_ALIGN)
      else let i = phys div 4096 in
      if i \<ge> pm_npages p \<or> \<not> bm_get (pm_managed p) (unat i) then (p, NX_PMM_E_UNMANAGED)
      else if \<not> bm_get (pm_used p) (unat i) then (p, NX_PMM_E_DOUBLE_FREE)
      else (p\<lparr>pm_used := bm_clear (pm_used p) (unat i),
              pm_free_pages := pm_free_pages p + 1\<rparr>, NX_PMM_OK))"

definition nx_pmm_is_free :: "nx_pmm \<Rightarrow> u64 \<Rightarrow> bool" where
  "nx_pmm_is_free p phys =
     (let i = phys div 4096
      in i < pm_npages p \<and> bm_get (pm_managed p) (unat i) \<and> \<not> bm_get (pm_used p) (unat i))"

definition nx_pmm_strerror :: "int \<Rightarrow> string" where
  "nx_pmm_strerror st =
     (if st < 0 \<or> st \<ge> 6 then ''E_UNKNOWN''
      else [''ok'', ''E_ALIGN'', ''E_UNMANAGED'', ''E_DOUBLE_FREE'', ''E_STORAGE'', ''E_EMPTY'']
           ! nat st)"

section \<open>The allocator invariant\<close>

text \<open>
  \<open>pmm_lag p n\<close> is the invariant with the two page counters behind the bitmaps by \<open>n\<close> pages,
  the situation inside the loop of \<open>add_pages\<close>; \<open>pmm_inv\<close> is the invariant between calls.
\<close>

abbreviation np :: "nx_pmm \<Rightarrow> nat" where
  "np p \<equiv> unat (pm_npages p)"

definition in_storage :: "nx_pmm \<Rightarrow> nat \<Rightarrow> bool" where
  "in_storage p i \<longleftrightarrow> unat (pm_storage_first p) \<le> i \<and> i < unat (pm_storage_last p)"

definition page_free :: "nx_pmm \<Rightarrow> nat \<Rightarrow> bool" where
  "page_free p i \<longleftrightarrow> bm_get (pm_managed p) i \<and> \<not> bm_get (pm_used p) i"

definition pmm_lag :: "nx_pmm \<Rightarrow> nat \<Rightarrow> bool" where
  "pmm_lag p n \<longleftrightarrow>
     length (pm_used p) = (np p + 7) div 8 \<and> length (pm_managed p) = (np p + 7) div 8
     \<and> np p \<le> 2 ^ 52 \<and> unat (pm_next p) < np p
     \<and> (\<forall>i < np p. \<not> bm_get (pm_managed p) i \<longrightarrow> bm_get (pm_used p) i)
     \<and> (\<forall>i < np p. bm_get (pm_managed p) i \<longrightarrow> 256 \<le> i \<and> \<not> in_storage p i)
     \<and> unat (pm_managed_pages p) + n = card {i. i < np p \<and> bm_get (pm_managed p) i}
     \<and> unat (pm_free_pages p) + n = card {i. i < np p \<and> page_free p i}"

definition pmm_inv :: "nx_pmm \<Rightarrow> bool" where
  "pmm_inv p \<longleftrightarrow> pmm_lag p 0"

lemma bitmap_bytes_nat:
  assumes "unat n \<le> 2 ^ 52"
  shows "unat (bitmap_bytes n) = (unat n + 7) div 8"
proof -
  have "unat (n + 7) = unat n + 7"
    using assms by (subst unat_add_small) auto
  then show ?thesis by (simp add: bitmap_bytes_def unat_div)
qed

lemma lag_covers:
  assumes "pmm_lag p n" and "i < np p"
  shows "i div 8 < length (pm_used p)" and "i div 8 < length (pm_managed p)"
  using assms bytes_cover [of i "np p"] by (auto simp: pmm_lag_def)

lemmas bm_step_simps = bm.get_set bm.get_clr

subsection \<open>Handing page ranges to the allocator\<close>

definition same_layout :: "nx_pmm \<Rightarrow> nx_pmm \<Rightarrow> bool" where
  "same_layout p q \<longleftrightarrow> pm_npages q = pm_npages p \<and> pm_next q = pm_next p
     \<and> pm_storage_first q = pm_storage_first p \<and> pm_storage_last q = pm_storage_last p
     \<and> pm_used_at q = pm_used_at p \<and> pm_managed_at q = pm_managed_at p"

lemma same_layout_refl [simp]: "same_layout p p"
  by (simp add: same_layout_def)

lemma same_layout_trans: "same_layout p q \<Longrightarrow> same_layout q r \<Longrightarrow> same_layout p r"
  by (simp add: same_layout_def)

lemma same_layout_storage: "same_layout p q \<Longrightarrow> in_storage q i = in_storage p i"
  by (simp add: same_layout_def in_storage_def)

text \<open>One page: it becomes managed and free unless it already was managed or holds the bitmaps.\<close>

definition adds_page :: "nx_pmm \<Rightarrow> nat \<Rightarrow> bool" where
  "adds_page p i \<longleftrightarrow> \<not> bm_get (pm_managed p) i \<and> \<not> in_storage p i"

lemma add_page_eq:
  "add_page i (p, added) =
     (if adds_page p i
      then (p\<lparr>pm_managed := bm_set (pm_managed p) i, pm_used := bm_clear (pm_used p) i\<rparr>, added + 1)
      else (p, added))"
  by (simp add: add_page_def adds_page_def in_storage_def)

lemma add_page_lag:
  assumes lag: "pmm_lag p n" and i: "i < np p" "256 \<le> i" and adds: "adds_page p i"
  defines "q \<equiv> p\<lparr>pm_managed := bm_set (pm_managed p) i, pm_used := bm_clear (pm_used p) i\<rparr>"
  shows "pmm_lag q (n + 1)"
proof -
  note cov = lag_covers [OF lag i(1)]
  have m: "bm_get (pm_managed q) j = (i = j \<or> bm_get (pm_managed p) j)"
    and u: "bm_get (pm_used q) j = (i \<noteq> j \<and> bm_get (pm_used p) j)" for j
    using cov by (simp_all add: q_def bm_step_simps)
  have free: "page_free q j = (page_free p j \<or> j = i)" for j
    using lag i adds by (auto simp: page_free_def m u pmm_lag_def adds_page_def)
  have [simp]: "np q = np p" "in_storage q j = in_storage p j" for j
    by (simp_all add: q_def in_storage_def)
  have "card {j. j < np p \<and> bm_get (pm_managed q) j} = card {j. j < np p \<and> bm_get (pm_managed p) j} + 1"
    by (rule card_add_one) (use i adds m in \<open>auto simp: adds_page_def\<close>)
  moreover have "card {j. j < np p \<and> page_free q j} = card {j. j < np p \<and> page_free p j} + 1"
    by (rule card_add_one) (use i adds free in \<open>auto simp: adds_page_def page_free_def\<close>)
  moreover have "pm_next q = pm_next p" "pm_managed_pages q = pm_managed_pages p"
    "pm_free_pages q = pm_free_pages p" "length (pm_used q) = length (pm_used p)"
    "length (pm_managed q) = length (pm_managed p)"
    by (simp_all add: q_def)
  ultimately show ?thesis
    using lag i adds by (simp add: pmm_lag_def m u adds_page_def)
qed

lemma add_page_free:
  assumes lag: "pmm_lag p n" and i: "i < np p" and adds: "adds_page p i"
  defines "q \<equiv> p\<lparr>pm_managed := bm_set (pm_managed p) i, pm_used := bm_clear (pm_used p) i\<rparr>"
  shows "page_free q j = (page_free p j \<or> j = i)"
    and "bm_get (pm_managed q) j = (bm_get (pm_managed p) j \<or> j = i)"
  using lag_covers [OF lag i] lag i adds
  by (auto simp: q_def page_free_def bm_step_simps pmm_lag_def adds_page_def)

definition grown :: "nx_pmm \<Rightarrow> nat set \<Rightarrow> nx_pmm \<Rightarrow> bool" where
  "grown p S q \<longleftrightarrow> same_layout p q
     \<and> (\<forall>j. bm_get (pm_managed q) j = (bm_get (pm_managed p) j \<or> j \<in> S \<and> \<not> in_storage p j))
     \<and> (\<forall>j. page_free q j = (page_free p j \<or> j \<in> S \<and> adds_page p j))"

lemma grown_empty [simp]: "grown p {} p"
  by (simp add: grown_def)

lemma grown_trans:
  assumes "grown p S q" and "grown q R r"
  shows "grown p (S \<union> R) r"
  using assms same_layout_trans [of p q r] same_layout_storage [of p q]
  by (auto simp: grown_def adds_page_def page_free_def)

lemma grown_step:
  assumes "pmm_lag p n" and "i < np p" and "adds_page p i"
  shows "grown p {i} (p\<lparr>pm_managed := bm_set (pm_managed p) i, pm_used := bm_clear (pm_used p) i\<rparr>)"
  using add_page_free [OF assms] assms(3)
  by (auto simp: grown_def same_layout_def adds_page_def)

lemma fold_add_page:
  assumes "pmm_lag p n" and "\<forall>i \<in> set is. i < np p \<and> 256 \<le> i"
  shows "\<exists>q m. fold add_page is (p, of_nat n) = (q, of_nat m) \<and> pmm_lag q m \<and> grown p (set is) q
     \<and> pm_managed_pages q = pm_managed_pages p \<and> pm_free_pages q = pm_free_pages p"
  using assms
proof (induction "is" arbitrary: p n)
  case Nil
  then show ?case by auto
next
  case (Cons i "is")
  show ?case
  proof (cases "adds_page p i")
    case False
    then have "add_page i (p, of_nat n) = (p, of_nat n)" by (simp add: add_page_eq)
    moreover obtain q m where "fold add_page is (p, of_nat n) = (q, of_nat m)" "pmm_lag q m"
      "grown p (set is) q" "pm_managed_pages q = pm_managed_pages p"
      "pm_free_pages q = pm_free_pages p"
      using Cons.IH [of p n] Cons.prems by auto
    moreover have "grown p (set (i # is)) q"
      using \<open>grown p (set is) q\<close> False by (auto simp: grown_def adds_page_def)
    ultimately show ?thesis by auto
  next
    case True
    define p1 where
      "p1 = p\<lparr>pm_managed := bm_set (pm_managed p) i, pm_used := bm_clear (pm_used p) i\<rparr>"
    have step: "add_page i (p, of_nat n) = (p1, of_nat (n + 1))"
      using True by (simp add: add_page_eq p1_def add.commute)
    have lag1: "pmm_lag p1 (n + 1)"
      using add_page_lag Cons.prems True by (simp add: p1_def)
    have g1: "grown p {i} p1"
      using grown_step Cons.prems True by (simp add: p1_def)
    have "np p1 = np p" by (simp add: p1_def)
    then obtain q m where q: "fold add_page is (p1, of_nat (n + 1)) = (q, of_nat m)" "pmm_lag q m"
      "grown p1 (set is) q" "pm_managed_pages q = pm_managed_pages p1"
      "pm_free_pages q = pm_free_pages p1"
      using Cons.IH [OF lag1] Cons.prems by auto
    have "grown p (set (i # is)) q"
      using grown_trans [OF g1 q(3)] by simp
    with q step show ?thesis by (auto simp: p1_def)
  qed
qed

definition page_in :: "nat \<Rightarrow> nat \<Rightarrow> nat \<Rightarrow> bool" where
  "page_in lo hi j \<longleftrightarrow> lo \<le> j * 4096 \<and> (j + 1) * 4096 \<le> hi"

definition range_pages :: "nx_pmm \<Rightarrow> nat \<Rightarrow> nat \<Rightarrow> nat set" where
  "range_pages p lo hi = {j. j < np p \<and> 256 \<le> j \<and> page_in lo hi j}"

lemma same_layout_np: "same_layout p q \<Longrightarrow> np q = np p"
  by (simp add: same_layout_def)

lemma lag_settle:
  assumes "pmm_lag q m"
  shows "pmm_inv (q\<lparr>pm_managed_pages := pm_managed_pages q + of_nat m,
                    pm_free_pages := pm_free_pages q + of_nat m\<rparr>)" (is "pmm_inv ?r")
proof -
  have le: "card {i. i < np q \<and> P i} \<le> 2 ^ 52" for P
    using assms card_upto_le [of "np q" P] by (simp add: pmm_lag_def)
  have mle: "m \<le> 2 ^ 52"
    using assms le [of "bm_get (pm_managed q)"] by (simp add: pmm_lag_def)
  then have um: "unat (of_nat m :: u64) = m"
    by (simp add: unat_of_nat)
  have "unat (pm_managed_pages q + of_nat m) = unat (pm_managed_pages q) + m"
    using assms le [of "bm_get (pm_managed q)"] um
    by (subst unat_add_small) (auto simp: pmm_lag_def)
  moreover have "unat (pm_free_pages q + of_nat m) = unat (pm_free_pages q) + m"
    using assms le [of "page_free q"] um
    by (subst unat_add_small) (auto simp: pmm_lag_def)
  ultimately show ?thesis
    using assms by (auto simp: pmm_inv_def pmm_lag_def page_free_def in_storage_def)
qed

lemma range_pages_upt:
  fixes fin :: u64
  assumes al: "unat base mod 4096 = 0" and npb: "np p \<le> 2 ^ 52"
  defines "b \<equiv> (if base < NX_PMM_MIN_PHYS then NX_PMM_MIN_PHYS else base)"
  defines "l \<equiv> (if fin div 4096 > pm_npages p then pm_npages p else fin div 4096)"
  shows "set [unat ((b + 4096 - 1) div 4096)..<unat l] = range_pages p (unat base) (unat fin)"
proof -
  have bal: "unat b mod 4096 = 0" using al by (simp add: b_def)
  have "unat b + 4095 < 2 ^ 64"
    using page_room [OF bal] by simp
  then have "unat (b + 4095) = unat b + 4095"
    by (subst unat_add_small) auto
  then have first: "unat ((b + 4096 - 1) div 4096) = (unat b + 4095) div 4096"
    by (simp add: unat_div_4096 add.commute)
  have b: "unat b = max 0x100000 (unat base)"
    by (auto simp: b_def word_less_nat_alt max_def)
  have l: "unat l = min (np p) (unat fin div 4096)"
    by (auto simp: l_def word_less_nat_alt unat_div min_def)
  have lo: "((unat b + 4095) div 4096 \<le> j) = (256 \<le> j \<and> unat base \<le> j * 4096)" for j
    using bal b by (auto simp: max_def split: if_splits)
  have hi: "(j < unat fin div 4096) = ((j + 1) * 4096 \<le> unat fin)" for j
    by (metis Suc_eq_plus1 less_eq_Suc_le less_eq_div_iff_mult_less_eq zero_less_numeral)
  show ?thesis
    unfolding first l range_pages_def page_in_def by (auto simp: lo hi)
qed

lemma add_pages_spec:
  assumes inv: "pmm_inv p" and al: "unat base mod 4096 = 0"
  shows "\<exists>q m. add_pages p base fin = (q, of_nat m) \<and> pmm_inv q
     \<and> grown p (range_pages p (unat base) (unat fin)) q
     \<and> unat (pm_free_pages q) = unat (pm_free_pages p) + m
     \<and> unat (pm_managed_pages q) = unat (pm_managed_pages p) + m"
proof -
  define b where "b = (if base < NX_PMM_MIN_PHYS then NX_PMM_MIN_PHYS else base)"
  define l where "l = (if fin div 4096 > pm_npages p then pm_npages p else fin div 4096)"
  let ?is = "[unat ((b + 4096 - 1) div 4096)..<unat l]"
  have lag: "pmm_lag p 0" and npb: "np p \<le> 2 ^ 52"
    using inv by (auto simp: pmm_inv_def pmm_lag_def)
  have set: "set ?is = range_pages p (unat base) (unat fin)"
    unfolding b_def l_def by (rule range_pages_upt [OF al npb])
  then have "\<forall>i \<in> set ?is. i < np p \<and> 256 \<le> i"
    unfolding set by (simp add: range_pages_def)
  from fold_add_page [OF lag this] obtain q m where q: "fold add_page ?is (p, 0) = (q, of_nat m)"
    "pmm_lag q m" "grown p (set ?is) q" "pm_managed_pages q = pm_managed_pages p"
    "pm_free_pages q = pm_free_pages p"
    by auto
  define r where "r = q\<lparr>pm_managed_pages := pm_managed_pages q + of_nat m,
                         pm_free_pages := pm_free_pages q + of_nat m\<rparr>"
  have res: "add_pages p base fin = (r, of_nat m)"
    using q(1) by (simp add: add_pages_def Let_def b_def l_def r_def)
  have "grown p (set ?is) r"
    using q(3) by (auto simp: grown_def r_def same_layout_def page_free_def)
  moreover have rinv: "pmm_inv r"
    using lag_settle [OF q(2)] by (simp add: r_def)
  moreover have "unat (pm_free_pages r) = unat (pm_free_pages p) + m"
    "unat (pm_managed_pages r) = unat (pm_managed_pages p) + m"
    using rinv q(2,4,5) by (simp_all add: pmm_inv_def pmm_lag_def) (simp_all add: r_def page_free_def)
  ultimately show ?thesis using res set by auto
qed

definition type_pages :: "nx_pmm \<Rightarrow> nx_mem_region list \<Rightarrow> u32 \<Rightarrow> nat set" where
  "type_pages p rs ty =
     {j. \<exists>r \<in> set rs. mr_type r = ty \<and> manageable ty \<and> j \<in> range_pages p (mr_lo r) (mr_hi r)}"

lemma type_pages_layout: "same_layout p q \<Longrightarrow> type_pages q rs ty = type_pages p rs ty"
  by (simp add: type_pages_def range_pages_def same_layout_def)

lemma type_pages_Cons:
  "type_pages p (r # rs) ty =
     (if mr_type r = ty \<and> manageable ty then range_pages p (mr_lo r) (mr_hi r) else {})
     \<union> type_pages p rs ty"
  by (auto simp: type_pages_def)

lemma grown_layout: "grown p S q \<Longrightarrow> same_layout p q"
  by (simp add: grown_def)

lemma add_type_loop_spec:
  assumes "pmm_inv p" and "\<forall>r \<in> set rs. region_wf r"
  shows "\<exists>q m. add_type_loop p rs ty (of_nat a) = (q, of_nat (a + m)) \<and> pmm_inv q
     \<and> grown p (type_pages p rs ty) q
     \<and> unat (pm_free_pages q) = unat (pm_free_pages p) + m
     \<and> unat (pm_managed_pages q) = unat (pm_managed_pages p) + m"
  using assms
proof (induction rs arbitrary: p a)
  case Nil
  then show ?case by (auto simp: type_pages_def intro!: exI [of _ "0::nat"])
next
  case (Cons r rs)
  show ?case
  proof (cases "mr_type r = ty \<and> manageable ty")
    case False
    then show ?thesis using Cons by (auto simp: type_pages_Cons)
  next
    case True
    have rwf: "region_wf r" using Cons.prems by simp
    then have al: "unat (mr_base r) mod 4096 = 0" by (simp add: region_wf_def mr_lo_def)
    obtain q m where q: "add_pages p (mr_base r) (mr_base r + mr_length r) = (q, of_nat m)"
      "pmm_inv q" "grown p (range_pages p (mr_lo r) (mr_hi r)) q"
      "unat (pm_free_pages q) = unat (pm_free_pages p) + m"
      "unat (pm_managed_pages q) = unat (pm_managed_pages p) + m"
      using add_pages_spec [OF Cons.prems(1) al, of "mr_base r + mr_length r"]
      by (auto simp: region_end_word [OF rwf] mr_lo_def)
    obtain q' m' where q': "add_type_loop q rs ty (of_nat (a + m)) = (q', of_nat (a + m + m'))"
      "pmm_inv q'" "grown q (type_pages q rs ty) q'"
      "unat (pm_free_pages q') = unat (pm_free_pages q) + m'"
      "unat (pm_managed_pages q') = unat (pm_managed_pages q) + m'"
      using Cons.IH [OF q(2), of "a + m"] Cons.prems(2) by auto
    have "add_type_loop p (r # rs) ty (of_nat a) = (q', of_nat (a + (m + m')))"
      using True q(1) q'(1) by (simp add: add.assoc)
    moreover have "grown p (type_pages p (r # rs) ty) q'"
      using grown_trans [OF q(3) q'(3)] True
      by (simp add: type_pages_Cons type_pages_layout [OF grown_layout [OF q(3)]])
    ultimately show ?thesis using q q' by auto
  qed
qed

subsection \<open>Initialisation\<close>

lemma span_end_mono: "e \<le> span_end rs e"
proof (induction rs arbitrary: e)
  case Nil
  then show ?case by simp
next
  case (Cons r rs)
  let ?e = "if manageable (mr_type r) \<and> mr_base r + mr_length r > e
            then mr_base r + mr_length r else e"
  have "e \<le> ?e" by auto
  also have "?e \<le> span_end rs ?e" by (rule Cons.IH)
  finally show ?case by simp
qed

lemma span_end_region:
  assumes "r \<in> set rs" and "manageable (mr_type r)"
  shows "mr_base r + mr_length r \<le> span_end rs e"
  using assms(1)
proof (induction rs arbitrary: e)
  case Nil
  then show ?case by simp
next
  case (Cons x rs)
  show ?case
  proof (cases "r = x")
    case True
    let ?e = "if manageable (mr_type x) \<and> mr_base x + mr_length x > e
              then mr_base x + mr_length x else e"
    have "mr_base r + mr_length r \<le> ?e" using True assms(2) by auto
    also have "?e \<le> span_end rs ?e" by (rule span_end_mono)
    finally show ?thesis by simp
  next
    case False
    then show ?thesis using Cons by auto
  qed
qed

lemma span_covers_page:
  assumes "r \<in> set rg" "region_wf r" "manageable (mr_type r)" "page_in (mr_lo r) (mr_hi r) j"
  shows "j < unat (nx_pmm_span_pages rg)"
proof -
  have "mr_hi r \<le> unat (span_end rg 0)"
    using span_end_region [OF assms(1,3)] region_end_word [OF assms(2)]
    by (simp add: word_le_nat_alt)
  then have "(j + 1) * 4096 \<le> unat (span_end rg 0)"
    using assms(4) by (simp add: page_in_def)
  then have "j + 1 \<le> unat (span_end rg 0) div 4096"
    by (simp add: less_eq_div_iff_mult_less_eq)
  then show ?thesis by (simp add: nx_pmm_span_pages_def unat_div_4096)
qed

lemma span_pages_bound: "unat (nx_pmm_span_pages rg) \<le> 2 ^ 52"
  using unat_u64_less [of "span_end rg 0"]
  by (simp add: nx_pmm_span_pages_def unat_div_4096)

lemma fresh_pmm_inv:
  assumes "pm_npages p \<noteq> 0" and "np p \<le> 2 ^ 52"
    and "pm_used p = replicate (unat (bitmap_bytes (pm_npages p))) 0xFF"
    and "pm_managed p = replicate (unat (bitmap_bytes (pm_npages p))) 0"
    and "pm_managed_pages p = 0" and "pm_free_pages p = 0" and "pm_next p = 0"
  shows "pmm_inv p" and "\<And>j. j < np p \<Longrightarrow> \<not> bm_get (pm_managed p) j"
proof -
  have one: "unat (bitmap_bytes (pm_npages p)) = (np p + 7) div 8"
    by (rule bitmap_bytes_nat) (rule assms(2))
  show m: "\<not> bm_get (pm_managed p) j" if "j < np p" for j
    using that bytes_cover [of j "np p"] assms(4) one by (simp add: bm_get_replicate_0)
  have u: "bm_get (pm_used p) j" if "j < np p" for j
    using that bytes_cover [of j "np p"] assms(3) one by (simp add: bm_get_replicate_FF)
  have "{i. i < np p \<and> bm_get (pm_managed p) i} = {}" "{i. i < np p \<and> page_free p i} = {}"
    using m by (auto simp: page_free_def)
  then show "pmm_inv p"
    using assms one m u by (auto simp: pmm_inv_def pmm_lag_def unat_gt_0)
qed

definition overlaps_page :: "nat \<Rightarrow> nat \<Rightarrow> nat \<Rightarrow> bool" where
  "overlaps_page lo len j \<longleftrightarrow> lo < (j + 1) * 4096 \<and> j * 4096 < lo + len"

lemma init_storage_pages:
  fixes sp sb :: u64
  assumes "sp AND 4095 = 0" and "sb \<le> - 1 - 4096" and "sp \<le> - 1 - sb - 4096" and "sb \<noteq> 0"
  shows "(unat (sp div 4096) \<le> j \<and> j < unat ((sp + sb + 4096 - 1) div 4096))
     = overlaps_page (unat sp) (unat sb) j"
proof -
  have al: "unat sp mod 4096 = 0" using assms(1) by (simp add: and_4095_zero)
  have "unat sb \<le> 18446744073709547519" using assms(2) by (simp add: word_le_nat_alt)
  moreover have "unat (- 1 - sb - 4096 :: u64) = 18446744073709547519 - unat sb"
  proof -
    have "- 1 - sb - 4096 = - 1 - 4096 - sb" by simp
    moreover have "unat (- 1 - 4096 - sb) = unat (- 1 - 4096 :: u64) - unat sb"
      using assms(2) by (rule unat_sub_small)
    ultimately show ?thesis by simp
  qed
  ultimately have sum: "unat sp + unat sb + 4096 < 18446744073709551616"
    using assms(3) by (simp add: word_le_nat_alt)
  have e1: "unat (sp + sb) = unat sp + unat sb"
    using sum by (subst unat_add_small) auto
  have "unat (sp + sb + 4095) = unat sp + unat sb + 4095"
    using sum e1 by (subst unat_add_small) auto
  then have last: "unat ((sp + sb + 4096 - 1) div 4096) = (unat sp + unat sb + 4095) div 4096"
    by (simp add: unat_div_4096 algebra_simps)
  have "unat sb \<noteq> 0" using assms(4) by (simp add: unat_eq_zero)
  then show ?thesis
    using al unfolding overlaps_page_def last unat_div_4096 [of sp] by auto
qed

definition usable_pages :: "nx_mem_region list \<Rightarrow> nat set" where
  "usable_pages rg =
     {j. 256 \<le> j \<and> (\<exists>r \<in> set rg. mr_type r = NX_MEM_USABLE \<and> page_in (mr_lo r) (mr_hi r) j)}"

lemma type_pages_usable:
  assumes "\<forall>r \<in> set rg. region_wf r" and "pm_npages p = nx_pmm_span_pages rg"
  shows "type_pages p rg NX_MEM_USABLE = usable_pages rg"
  using assms span_covers_page [of _ rg]
  by (auto simp: type_pages_def usable_pages_def range_pages_def manageable_def)

lemma nx_pmm_init_ok:
  assumes wf: "\<forall>r \<in> set rg. region_wf r"
    and ok: "nx_pmm_init p0 rg st sp sb = (p, NX_PMM_OK)"
    and sb: "sb \<le> - 1 - 4096"
  shows "pmm_inv p"
    and "{j. j < np p \<and> page_free p j} = usable_pages rg - {j. overlaps_page (unat sp) (unat sb) j}"
    and "\<And>j. j < np p \<Longrightarrow> bm_get (pm_managed p) j = page_free p j"
proof -
  define one where "one = bitmap_bytes (nx_pmm_span_pages rg)"
  define p1 where "p1 = p0\<lparr>pm_npages := nx_pmm_span_pages rg,
      pm_used_at := st, pm_managed_at := st + one,
      pm_used := replicate (unat one) 0xFF, pm_managed := replicate (unat one) 0,
      pm_managed_pages := 0, pm_free_pages := 0, pm_next := 0,
      pm_storage_first := sp div 4096,
      pm_storage_last := (sp + sb + 4096 - 1) div 4096\<rparr>"
  have g: "nx_pmm_span_pages rg \<noteq> 0" "sp AND 4095 = 0" "\<not> sb < 2 * one" "sp \<le> - 1 - sb - 4096"
    and fin: "add_type_loop p1 rg NX_MEM_USABLE 0 = (p, snd (add_type_loop p1 rg NX_MEM_USABLE 0))"
    using ok
    by (auto simp: nx_pmm_init_def nx_pmm_add_type_def Let_def p1_def one_def
             split: if_splits prod.splits)
  have np1: "np p1 = unat (nx_pmm_span_pages rg)" "pm_npages p1 = nx_pmm_span_pages rg"
    by (simp_all add: p1_def)
  have fresh: "pmm_inv p1" "\<And>j. j < np p1 \<Longrightarrow> \<not> bm_get (pm_managed p1) j"
    by (rule fresh_pmm_inv; use g span_pages_bound [of rg] in \<open>simp add: p1_def one_def\<close>)+
  obtain m where q: "pmm_inv p" "grown p1 (type_pages p1 rg NX_MEM_USABLE) p"
    using add_type_loop_spec [OF fresh(1) wf, of NX_MEM_USABLE 0] fin by (auto simp: of_nat_0)
  show "pmm_inv p" by (rule q(1))
  have npp: "np p = np p1" using same_layout_np grown_layout [OF q(2)] by blast
  have "unat one \<noteq> 0"
    using g(1) span_pages_bound [of rg] bitmap_bytes_nat [of "nx_pmm_span_pages rg"]
      bytes_cover [of 0 "unat (nx_pmm_span_pages rg)"]
    by (simp add: one_def unat_gt_0)
  then have "sb \<noteq> 0 \<or> 2 * one = 0" using g(3) by (metis word_gt_0)
  moreover have "2 * one \<noteq> 0"
  proof -
    have "unat one \<le> 2 ^ 52"
      using span_pages_bound [of rg] bitmap_bytes_nat [of "nx_pmm_span_pages rg"]
      by (simp add: one_def)
    then have "unat (2 * one) = 2 * unat one" by (subst unat_mult_small) auto
    with \<open>unat one \<noteq> 0\<close> show ?thesis by (metis mult_eq_0_iff unat_0 zero_neq_numeral)
  qed
  ultimately have "sb \<noteq> 0" by simp
  then have st: "in_storage p1 j = overlaps_page (unat sp) (unat sb) j" for j
    using init_storage_pages [OF g(2) sb g(4)] by (simp add: in_storage_def p1_def)
  have tp: "type_pages p1 rg NX_MEM_USABLE = usable_pages rg"
    by (rule type_pages_usable [OF wf np1(2)])
  have free: "page_free p j = (j \<in> usable_pages rg \<and> \<not> overlaps_page (unat sp) (unat sb) j)"
    and man: "bm_get (pm_managed p) j = page_free p j" if "j < np p" for j
    using that q(2) fresh(2) [of j] npp
    by (auto simp: grown_def tp adds_page_def st page_free_def)
  show "\<And>j. j < np p \<Longrightarrow> bm_get (pm_managed p) j = page_free p j" by (rule man)
  have "j < np p" if "j \<in> usable_pages rg" for j
    using that span_covers_page [of _ rg j] wf npp np1 by (auto simp: usable_pages_def manageable_def)
  then show "{j. j < np p \<and> page_free p j} = usable_pages rg - {j. overlaps_page (unat sp) (unat sb) j}"
    using free by auto
qed

subsection \<open>Allocation and release\<close>

lemma alloc_index_nat:
  assumes "pmm_inv p" and "k < np p"
  shows "unat (alloc_index p k) = (unat (pm_next p) + k) mod np p"
proof -
  have b: "np p \<le> 2 ^ 52" "unat (pm_next p) < np p"
    using assms by (auto simp: pmm_inv_def pmm_lag_def)
  have k: "unat (of_nat k :: u64) = k" using assms(2) b by (simp add: unat_of_nat)
  have "unat (pm_next p + of_nat k) = unat (pm_next p) + k"
    using b assms(2) k by (subst unat_add_small) auto
  then show ?thesis by (simp add: alloc_index_def unat_mod)
qed

lemma next_fit_reaches:
  assumes "n < (N::nat)" and "i < N"
  obtains k where "k < N" and "(n + k) mod N = i"
proof
  show "(N - n + i) mod N < N" using assms by simp
  have "(n + (N - n + i) mod N) mod N = (n + (N - n + i)) mod N" by (simp add: mod_add_right_eq)
  also have "\<dots> = i" using assms by simp
  finally show "(n + (N - n + i) mod N) mod N = i" .
qed

text \<open>
  The page found by the next-fit search: the first free one at or after the hint, cyclically.
\<close>

definition next_free :: "nx_pmm \<Rightarrow> nat \<Rightarrow> bool" where
  "next_free p i \<longleftrightarrow> (\<exists>k < np p. i = (unat (pm_next p) + k) mod np p \<and> page_free p i
     \<and> (\<forall>j < k. \<not> page_free p ((unat (pm_next p) + j) mod np p)))"

lemma nx_pmm_alloc_none:
  assumes "pmm_inv p" and "\<not> (\<exists>i < np p. page_free p i)"
  shows "nx_pmm_alloc p = (0, p)"
proof -
  have "{i. i < np p \<and> page_free p i} = {}" using assms(2) by auto
  then have "unat (pm_free_pages p) = 0" using assms(1) by (auto simp: pmm_inv_def pmm_lag_def)
  then show ?thesis by (simp add: nx_pmm_alloc_def unat_eq_zero)
qed

lemma nx_pmm_alloc_found:
  assumes inv: "pmm_inv p" and ex: "\<exists>i < np p. page_free p i"
  obtains i where "i < np p" "next_free p i"
    "nx_pmm_alloc p = (of_nat i * 4096,
       p\<lparr>pm_used := bm_set (pm_used p) i, pm_free_pages := pm_free_pages p - 1,
         pm_next := (of_nat i + 1) mod pm_npages p\<rparr>)"
proof -
  have cnt: "0 < unat (pm_free_pages p)"
    using ex inv ex_count_positive [of "np p" "page_free p"] by (simp add: pmm_inv_def pmm_lag_def)
  have nx: "unat (pm_next p) < np p" using inv by (simp add: pmm_inv_def pmm_lag_def)
  let ?P = "\<lambda>k. bm_get (pm_managed p) (unat (alloc_index p k)) \<and> \<not> bm_get (pm_used p) (unat (alloc_index p k))"
  have P: "?P k = page_free p ((unat (pm_next p) + k) mod np p)" if "k < np p" for k
    using alloc_index_nat [OF inv that] by (simp add: page_free_def)
  obtain i0 where "i0 < np p" "page_free p i0" using ex by blast
  with nx obtain k0 where "k0 < np p" "page_free p ((unat (pm_next p) + k0) mod np p)"
    by (metis next_fit_reaches)
  then have "List.find ?P [0..<np p] \<noteq> None"
    using P [of k0] by (auto simp del: not_None_eq simp: find_upt_None)
  then obtain k where k: "List.find ?P [0..<np p] = Some k" by blast
  then have kk: "k < np p" "?P k" "\<forall>j<k. \<not> ?P j" by (simp_all add: find_upt_Some)
  define i where "i = (unat (pm_next p) + k) mod np p"
  have ilt: "i < np p" using nx by (simp add: i_def)
  have idx: "alloc_index p k = of_nat i"
    using alloc_index_nat [OF inv kk(1)] word_of_unat [of "alloc_index p k"] by (simp only: i_def)
  have ui: "unat (of_nat i :: u64) = i"
    using idx alloc_index_nat [OF inv kk(1)] by (simp add: i_def)
  have "next_free p i"
    unfolding next_free_def
  proof (intro exI conjI allI impI)
    show "page_free p i" using kk(2) P [OF kk(1)] by (simp add: i_def)
    show "\<not> page_free p ((unat (pm_next p) + j) mod np p)" if "j < k" for j
      using kk(1,3) P [of j] that by auto
  qed (use kk(1) i_def in auto)
  moreover have "nx_pmm_alloc p = (of_nat i * 4096,
       p\<lparr>pm_used := bm_set (pm_used p) i, pm_free_pages := pm_free_pages p - 1,
         pm_next := (of_nat i + 1) mod pm_npages p\<rparr>)"
    using cnt k idx ui by (auto simp: nx_pmm_alloc_def Let_def)
  ultimately show thesis using that ilt by blast
qed

lemma mark_used_inv:
  assumes inv: "pmm_inv p" and i: "i < np p" "page_free p i"
  defines "q \<equiv> p\<lparr>pm_used := bm_set (pm_used p) i, pm_free_pages := pm_free_pages p - 1,
                 pm_next := (of_nat i + 1) mod pm_npages p\<rparr>"
  shows "pmm_inv q" and "\<And>j. page_free q j = (page_free p j \<and> j \<noteq> i)"
proof -
  have lag: "pmm_lag p 0" using inv by (simp add: pmm_inv_def)
  have u: "bm_get (pm_used q) j = (i = j \<or> bm_get (pm_used p) j)" for j
    using lag_covers [OF lag i(1)] by (simp add: q_def bm_step_simps)
  show free: "page_free q j = (page_free p j \<and> j \<noteq> i)" for j
    using u by (auto simp: page_free_def q_def)
  have "0 < card {j. j < np p \<and> page_free p j}"
    using i ex_count_positive by blast
  then have "0 < unat (pm_free_pages p)" using lag by (simp add: pmm_lag_def)
  then have dec: "unat (pm_free_pages p - 1) = unat (pm_free_pages p) - 1"
    by (subst unat_sub_small) (auto simp: word_le_nat_alt)
  have card: "card {j. j < np p \<and> page_free q j} = card {j. j < np p \<and> page_free p j} - 1"
    by (rule card_drop_one) (use i free in auto)
  have "0 < np p" using i by simp
  then have "unat ((of_nat i + 1) mod pm_npages p) < np p"
    by (simp add: unat_mod)
  moreover have "np q = np p" "in_storage q j = in_storage p j" "pm_managed q = pm_managed p"
    "pm_managed_pages q = pm_managed_pages p" "pm_free_pages q = pm_free_pages p - 1"
    "length (pm_used q) = length (pm_used p)" "pm_next q = (of_nat i + 1) mod pm_npages p" for j
    by (simp_all add: q_def in_storage_def)
  ultimately show "pmm_inv q"
    using lag dec card by (simp add: pmm_inv_def pmm_lag_def u)
qed

lemma mark_free_inv:
  assumes inv: "pmm_inv p" and i: "i < np p" "bm_get (pm_managed p) i" "bm_get (pm_used p) i"
  defines "q \<equiv> p\<lparr>pm_used := bm_clear (pm_used p) i, pm_free_pages := pm_free_pages p + 1\<rparr>"
  shows "pmm_inv q" and "\<And>j. page_free q j = (page_free p j \<or> j = i)"
proof -
  have lag: "pmm_lag p 0" using inv by (simp add: pmm_inv_def)
  have u: "bm_get (pm_used q) j = (i \<noteq> j \<and> bm_get (pm_used p) j)" for j
    using lag_covers [OF lag i(1)] by (simp add: q_def bm_step_simps)
  show free: "page_free q j = (page_free p j \<or> j = i)" for j
    using u i by (auto simp: page_free_def q_def)
  have card: "card {j. j < np p \<and> page_free q j} = card {j. j < np p \<and> page_free p j} + 1"
    by (rule card_add_one) (use i free in \<open>auto simp: page_free_def\<close>)
  have "card {j. j < np p \<and> page_free p j} \<le> 2 ^ 52"
    using card_upto_le [of "np p" "page_free p"] lag by (simp add: pmm_lag_def)
  then have "unat (pm_free_pages p + 1) = unat (pm_free_pages p) + 1"
    using lag by (subst unat_add_small) (auto simp: pmm_lag_def)
  moreover have "np q = np p" "in_storage q j = in_storage p j" "pm_managed q = pm_managed p"
    "pm_managed_pages q = pm_managed_pages p" "pm_free_pages q = pm_free_pages p + 1"
    "length (pm_used q) = length (pm_used p)" "pm_next q = pm_next p" for j
    by (simp_all add: q_def in_storage_def)
  ultimately show "pmm_inv q"
    using lag card i by (auto simp: pmm_inv_def pmm_lag_def u)
qed

subsection \<open>The allocator as a source of pages\<close>

definition pg_aligned :: "u64 \<Rightarrow> bool" where
  "pg_aligned a \<longleftrightarrow> unat a mod 4096 = 0"

definition pgno :: "u64 \<Rightarrow> nat" where
  "pgno a = unat a div 4096"

definition pmm_avail :: "nx_pmm \<Rightarrow> u64 set" where
  "pmm_avail p = {a. pg_aligned a \<and> pgno a < np p \<and> page_free p (pgno a)}"

definition pmm_owned :: "nx_pmm \<Rightarrow> u64 set" where
  "pmm_owned p = {a. pg_aligned a \<and> pgno a < np p
     \<and> bm_get (pm_managed p) (pgno a) \<and> bm_get (pm_used p) (pgno a)}"

lemma pg_addr:
  assumes "i < 2 ^ 52"
  shows "pg_aligned (of_nat i * 4096)" and "pgno (of_nat i * 4096) = i"
  using assms by (simp_all add: pg_aligned_def pgno_def unat_of_nat unat_mult_small)

lemma pg_unique:
  assumes "pg_aligned a" and "pgno a = i"
  shows "a = of_nat i * 4096"
proof -
  have "unat a = i * 4096" using assms by (auto simp: pg_aligned_def pgno_def)
  then have "a = of_nat (i * 4096)" using word_of_unat [of a] by simp
  then show ?thesis by simp
qed

lemma pmm_inv_bounds:
  assumes "pmm_inv p"
  shows "np p \<le> 2 ^ 52" and "\<And>i. i < np p \<Longrightarrow> bm_get (pm_managed p) i \<Longrightarrow> 256 \<le> i"
  using assms by (auto simp: pmm_inv_def pmm_lag_def)

lemma pmm_avail_ex: "pmm_inv p \<Longrightarrow> pmm_avail p \<noteq> {} \<longleftrightarrow> (\<exists>i < np p. page_free p i)"
proof -
  assume inv: "pmm_inv p"
  have "of_nat i * 4096 \<in> pmm_avail p" if "i < np p" "page_free p i" for i
    using that pmm_inv_bounds(1) [OF inv] pg_addr [of i] by (simp add: pmm_avail_def)
  then show ?thesis by (auto simp: pmm_avail_def)
qed

lemma pmm_alloc_law:
  assumes inv: "pmm_inv p" and ne: "pmm_avail p \<noteq> {}" and al: "nx_pmm_alloc p = (a, q)"
  shows "a \<in> pmm_avail p \<and> pmm_inv q \<and> pmm_avail q = pmm_avail p - {a}
    \<and> pmm_owned q = insert a (pmm_owned p)"
proof -
  obtain i where i: "i < np p" "next_free p i" and e: "nx_pmm_alloc p = (of_nat i * 4096,
       p\<lparr>pm_used := bm_set (pm_used p) i, pm_free_pages := pm_free_pages p - 1,
         pm_next := (of_nat i + 1) mod pm_npages p\<rparr>)"
    using nx_pmm_alloc_found inv ne pmm_avail_ex by metis
  have fr: "page_free p i" using i(2) by (auto simp: next_free_def)
  note m = mark_used_inv [OF inv i(1) fr]
  have q: "q = p\<lparr>pm_used := bm_set (pm_used p) i, pm_free_pages := pm_free_pages p - 1,
         pm_next := (of_nat i + 1) mod pm_npages p\<rparr>" and a: "a = of_nat i * 4096"
    using al e by simp_all
  have an: "pg_aligned a" "pgno a = i"
    using a pg_addr [of i] i(1) pmm_inv_bounds(1) [OF inv] by simp_all
  have u: "bm_get (pm_used q) j = (i = j \<or> bm_get (pm_used p) j)" for j
    using lag_covers [of p 0 i] inv i(1) by (simp add: q pmm_inv_def bm_step_simps)
  have is_a: "b = a \<longleftrightarrow> pg_aligned b \<and> pgno b = i" for b
    using pg_unique [of b i] a an by blast
  have lay: "np q = np p" "pm_managed q = pm_managed p" by (simp_all add: q)
  have "pmm_avail q = pmm_avail p - {a}"
    by (rule set_eqI) (auto simp: pmm_avail_def is_a lay m(2) [folded q])
  moreover have "pmm_owned q = insert a (pmm_owned p)"
    using i(1) fr by (intro set_eqI) (auto simp: pmm_owned_def is_a lay u page_free_def)
  ultimately show ?thesis
    using m(1) [folded q] an i(1) fr by (simp add: pmm_avail_def)
qed

lemma pmm_alloc_inv: "pmm_inv p \<Longrightarrow> pmm_inv (snd (nx_pmm_alloc p))"
  using pmm_alloc_law [of p "fst (nx_pmm_alloc p)" "snd (nx_pmm_alloc p)"] pmm_avail_ex [of p]
    nx_pmm_alloc_none [of p]
  by (cases "pmm_avail p = {}") auto

lemma pmm_free_eq:
  "nx_pmm_free p a =
     (if \<not> pg_aligned a then (p, NX_PMM_E_ALIGN)
      else if np p \<le> pgno a \<or> \<not> bm_get (pm_managed p) (pgno a) then (p, NX_PMM_E_UNMANAGED)
      else if \<not> bm_get (pm_used p) (pgno a) then (p, NX_PMM_E_DOUBLE_FREE)
      else (p\<lparr>pm_used := bm_clear (pm_used p) (pgno a), pm_free_pages := pm_free_pages p + 1\<rparr>,
            NX_PMM_OK))"
  by (simp add: nx_pmm_free_def Let_def pg_aligned_def pgno_def and_4095_zero word_le_nat_alt
        unat_div_4096)

lemma pmm_free_law:
  assumes inv: "pmm_inv p" and own: "a \<in> pmm_owned p" and fr: "nx_pmm_free p a = (q, st)"
  shows "st = NX_PMM_OK \<and> pmm_inv q \<and> pmm_avail q = insert a (pmm_avail p)
    \<and> pmm_owned q = pmm_owned p - {a}"
proof -
  define i where "i = pgno a"
  have i: "pg_aligned a" "i < np p" "bm_get (pm_managed p) i" "bm_get (pm_used p) i"
    using own by (simp_all add: pmm_owned_def i_def)
  have q: "q = p\<lparr>pm_used := bm_clear (pm_used p) i, pm_free_pages := pm_free_pages p + 1\<rparr>"
    and st: "st = NX_PMM_OK"
    using fr i by (simp_all add: pmm_free_eq i_def)
  note m = mark_free_inv [OF inv i(2-4)]
  have u: "bm_get (pm_used q) j = (i \<noteq> j \<and> bm_get (pm_used p) j)" for j
    using lag_covers [of p 0 i] inv i(2) by (simp add: q pmm_inv_def bm_step_simps)
  have is_a: "b = a \<longleftrightarrow> pg_aligned b \<and> pgno b = i" for b
    using pg_unique [of b i] pg_unique [of a i] i(1) i_def by metis
  have lay: "np q = np p" "pm_managed q = pm_managed p" by (simp_all add: q)
  have "pmm_avail q = insert a (pmm_avail p)"
    using i(2) by (intro set_eqI) (auto simp: pmm_avail_def is_a lay m(2) [folded q])
  moreover have "pmm_owned q = pmm_owned p - {a}"
    by (rule set_eqI) (auto simp: pmm_owned_def is_a lay u)
  ultimately show ?thesis using st m(1) by (simp add: q)
qed

lemma pmm_free_refused:
  assumes "a \<notin> pmm_owned p" and "nx_pmm_free p a = (q, st)"
  shows "st \<noteq> NX_PMM_OK \<and> q = p"
  using assms by (auto simp: pmm_free_eq pmm_owned_def split: if_splits)

interpretation pmm: page_source nx_pmm_alloc nx_pmm_free NX_PMM_OK pmm_inv pmm_avail pmm_owned
proof
  show "nx_pmm_alloc p = (0, p)" if "pmm_inv p" "pmm_avail p = {}" for p
    using that pmm_avail_ex [of p] nx_pmm_alloc_none [of p] by blast
  show "0 \<notin> pmm_avail p" if "pmm_inv p" for p
    using pmm_inv_bounds(2) [OF that, of 0] by (auto simp: pmm_avail_def page_free_def pgno_def)
  show "pmm_avail p \<inter> pmm_owned p = {}" for p
    by (auto simp: pmm_avail_def pmm_owned_def page_free_def)
qed (use pmm_alloc_law pmm_free_law pmm_free_refused in blast)+

lemma card_pmm_avail:
  assumes "pmm_inv p"
  shows "card (pmm_avail p) = unat (pm_free_pages p)"
proof -
  have "bij_betw (\<lambda>i. of_nat i * 4096) {i. i < np p \<and> page_free p i} (pmm_avail p)"
    unfolding bij_betw_def
  proof
    show "inj_on (\<lambda>i. of_nat i * 4096 :: u64) {i. i < np p \<and> page_free p i}"
      by (rule inj_on_inverseI [of _ pgno]) (use pmm_inv_bounds(1) [OF assms] pg_addr in auto)
    show "(\<lambda>i. of_nat i * 4096) ` {i. i < np p \<and> page_free p i} = pmm_avail p"
      using pmm_inv_bounds(1) [OF assms] pg_addr pg_unique [OF _ refl]
      by (auto simp: pmm_avail_def image_iff)
  qed
  then show ?thesis
    using assms by (simp add: bij_betw_same_card pmm_inv_def pmm_lag_def)
qed

section \<open>Properties of the allocator\<close>

definition ex_map :: "nx_mem_region list" where
  "ex_map = [\<lparr>mr_base = 0, mr_length = 0x1000, mr_type = NX_MEM_USABLE, mr_flags = 0\<rparr>,
             \<lparr>mr_base = 0x100000, mr_length = 0x4000, mr_type = NX_MEM_USABLE, mr_flags = 0\<rparr>]"

definition pmm_blank :: nx_pmm where
  "pmm_blank = \<lparr>pm_used = [], pm_managed = [], pm_used_at = 0, pm_managed_at = 0, pm_npages = 0,
     pm_managed_pages = 0, pm_free_pages = 0, pm_next = 0, pm_storage_first = 0,
     pm_storage_last = 0\<rparr>"

definition ex_pmm :: nx_pmm where
  "ex_pmm = \<lparr>pm_used = replicate 32 0xFF @ [0xF1], pm_managed = replicate 32 0 @ [0x0E],
     pm_used_at = 0x100000, pm_managed_at = 0x100021, pm_npages = 260, pm_managed_pages = 3,
     pm_free_pages = 3, pm_next = 0, pm_storage_first = 256, pm_storage_last = 257\<rparr>"

lemmas pmm_eval = nx_pmm_init_def nx_pmm_span_pages_def bitmap_bytes_def nx_pmm_add_type_def
  add_pages_def add_page_def manageable_def nx_pmm_alloc_def alloc_index_def nx_pmm_free_def
  bm_get_def bm_set_def bm_clear_def evals

lemma ex_init: "nx_pmm_init pmm_blank ex_map 0x100000 0x100000 0x1000 = (ex_pmm, NX_PMM_OK)"
  by (simp add: ex_pmm_def ex_map_def pmm_blank_def pmm_eval)

lemma ex_map_wf: "\<forall>r \<in> set ex_map. region_wf r"
  by (simp add: ex_map_def region_wf_def mr_lo_def mr_hi_def)

text \<open>
  C12. Initialisation. When \<open>nx_pmm_init\<close> succeeds on a memory map of page-aligned, non-empty,
  non-wrapping regions, the allocator invariant holds and the free pages are exactly the pages at
  or above 1 MiB that lie wholly in a usable region and do not touch the bitmap storage.
\<close>

theorem pmm_init_correct:
  assumes "\<forall>r \<in> set rg. region_wf r" and "sb \<le> - 1 - 4096"
    and "nx_pmm_init p0 rg st sp sb = (p, NX_PMM_OK)"
  shows "pmm_inv p \<and> {j. j < np p \<and> page_free p j}
      = usable_pages rg - {j. overlaps_page (unat sp) (unat sb) j}"
  using nx_pmm_init_ok(1,2) [OF assms(1,3,2)] by simp

theorem pmm_init_correct_witness:
  "pmm_inv ex_pmm \<and> {j. j < np ex_pmm \<and> page_free ex_pmm j}
     = usable_pages ex_map - {j. overlaps_page 0x100000 0x1000 j}"
  using pmm_init_correct [OF ex_map_wf _ ex_init] by simp

lemma ex_pmm_inv: "pmm_inv ex_pmm"
  using nx_pmm_init_ok(1) [OF ex_map_wf ex_init] by simp

definition ex_pmm1 :: nx_pmm where
  "ex_pmm1 = ex_pmm\<lparr>pm_next := 256\<rparr>"

lemma ex_pmm1_inv: "pmm_inv ex_pmm1"
proof -
  have "pmm_inv (p\<lparr>pm_next := n\<rparr>)" if "pmm_inv p" "unat n < np p" for p n
    using that by (simp add: pmm_inv_def pmm_lag_def page_free_def in_storage_def)
  from this [OF ex_pmm_inv, of 256] show ?thesis by (simp add: ex_pmm1_def ex_pmm_def)
qed

definition ex_pmm2 :: nx_pmm where
  "ex_pmm2 = ex_pmm\<lparr>pm_used := replicate 32 0xFF @ [0xF3], pm_next := 258, pm_free_pages := 2\<rparr>"

lemma ex_alloc: "nx_pmm_alloc ex_pmm1 = (0x101000, ex_pmm2)"
  by (simp add: ex_pmm1_def ex_pmm2_def ex_pmm_def pmm_eval)

lemma ex_pmm2_inv: "pmm_inv ex_pmm2"
  using pmm_alloc_inv [OF ex_pmm1_inv] by (simp add: ex_alloc)

lemma pmm_held_pages:
  assumes "\<forall>r \<in> set rg. region_wf r" and "sb \<le> - 1 - 4096"
    and "nx_pmm_init p0 rg st sp sb = (p, NX_PMM_OK)"
    and "run_ops nx_pmm_alloc nx_pmm_free NX_PMM_OK ops (p, []) = (q, held)"
  shows "distinct held
    \<and> (\<forall>a \<in> set held. unat a mod 4096 = 0 \<and> unat a div 4096 \<in> usable_pages rg
         \<and> \<not> overlaps_page (unat sp) (unat sb) (unat a div 4096) \<and> \<not> nx_pmm_is_free q a)
    \<and> unat (pm_free_pages q) + length held = unat (pm_free_pages p)"
proof -
  note init = nx_pmm_init_ok [OF assms(1,3,2)]
  have none: "pmm_owned p = {}"
    using init(3) by (auto simp: pmm_owned_def page_free_def)
  note run = pmm.run_ops_inv [OF init(1) _ _ assms(4)]
  have r: "pmm_inv q" "distinct held" "set held = pmm_owned q"
    "pmm_avail q \<union> pmm_owned q = pmm_avail p"
    using run none by simp_all
  have "pg_aligned a \<and> pgno a \<in> usable_pages rg \<and> \<not> overlaps_page (unat sp) (unat sb) (pgno a)
      \<and> \<not> nx_pmm_is_free q a" if "a \<in> set held" for a
  proof -
    have "a \<in> pmm_owned q" "a \<in> pmm_avail p" using that r by auto
    then show ?thesis
      using init(2) by (auto simp: pmm_avail_def pmm_owned_def nx_pmm_is_free_def Let_def pgno_def
          unat_div_4096)
  qed
  moreover have "unat (pm_free_pages q) + length held = unat (pm_free_pages p)"
    using pmm.run_ops_conserve [OF init(1) _ _ assms(4)] none init(1) r(1)
    by (simp add: card_pmm_avail)
  ultimately show ?thesis using r(2) by (simp add: pg_aligned_def pgno_def)
qed

text \<open>
  C9. No page is handed out twice. Start from a freshly initialised allocator and run any
  sequence of allocations and releases, of arbitrary addresses. The pages a client holds (handed
  out and not successfully released since) are pairwise distinct, page-aligned, at or above
  1 MiB, in usable memory outside the bitmap storage and not free, and free pages plus held pages
  always add up to the initial number of free pages.
\<close>

theorem pmm_no_double_allocation:
  assumes "\<forall>r \<in> set rg. region_wf r" and "sb \<le> - 1 - 4096"
    and "nx_pmm_init p0 rg st sp sb = (p, NX_PMM_OK)"
    and "run_ops nx_pmm_alloc nx_pmm_free NX_PMM_OK ops (p, []) = (q, held)"
  shows "distinct held
    \<and> (\<forall>a \<in> set held. unat a mod 4096 = 0 \<and> unat a div 4096 \<in> usable_pages rg
         \<and> \<not> overlaps_page (unat sp) (unat sb) (unat a div 4096) \<and> \<not> nx_pmm_is_free q a)
    \<and> unat (pm_free_pages q) + length held = unat (pm_free_pages p)"
  using pmm_held_pages [OF assms] .

theorem pmm_no_double_allocation_witness:
  "\<exists>q a. run_ops nx_pmm_alloc nx_pmm_free NX_PMM_OK [Op_Free 0x101000, Op_Alloc] (ex_pmm, []) = (q, [a])
     \<and> unat a div 4096 \<in> usable_pages ex_map \<and> \<not> nx_pmm_is_free q a \<and> unat (pm_free_pages q) + 1 = 3"
proof -
  obtain a q where aq: "nx_pmm_alloc ex_pmm = (a, q)" by fastforce
  have "pmm_avail ex_pmm \<noteq> {}"
    using card_pmm_avail [OF ex_pmm_inv] by (auto simp: ex_pmm_def)
  then have "a \<noteq> 0" using pmm.alloc_zero [OF ex_pmm_inv, of q] aq by auto
  moreover have "nx_pmm_free ex_pmm 0x101000 = (ex_pmm, NX_PMM_E_DOUBLE_FREE)"
    by (simp add: ex_pmm_def pmm_eval)
  ultimately have r: "run_ops nx_pmm_alloc nx_pmm_free NX_PMM_OK [Op_Free 0x101000, Op_Alloc] (ex_pmm, [])
      = (q, [a])"
    using aq by simp
  show ?thesis
    using pmm_no_double_allocation [OF ex_map_wf _ ex_init r] r by (auto simp: ex_pmm_def)
qed

text \<open>
  C13. Allocation is next-fit and total. With the invariant, \<open>nx_pmm_alloc\<close> returns 0 exactly when
  no page is free, and then changes nothing. Otherwise it returns the address of the first free
  page at or cyclically after the hint, marks that page and no other, moves the hint just past
  it and keeps the invariant; its search never falls through the bottom of the loop.
\<close>

theorem pmm_alloc_next_fit:
  assumes "pmm_inv p" and "nx_pmm_alloc p = (a, q)"
  shows "pmm_inv q
    \<and> (a = 0 \<longleftrightarrow> (\<forall>i < np p. \<not> page_free p i)) \<and> (a = 0 \<longrightarrow> q = p)
    \<and> (a \<noteq> 0 \<longrightarrow> unat a mod 4096 = 0 \<and> next_free p (unat a div 4096)
         \<and> (\<forall>i. page_free q i \<longleftrightarrow> page_free p i \<and> i \<noteq> unat a div 4096)
         \<and> unat (pm_next q) = (unat a div 4096 + 1) mod np p)"
proof (cases "\<exists>i < np p. page_free p i")
  case False
  then show ?thesis using nx_pmm_alloc_none [OF assms(1)] assms by auto
next
  case True
  obtain i where i: "i < np p" "next_free p i" and e: "nx_pmm_alloc p = (of_nat i * 4096,
       p\<lparr>pm_used := bm_set (pm_used p) i, pm_free_pages := pm_free_pages p - 1,
         pm_next := (of_nat i + 1) mod pm_npages p\<rparr>)"
    using nx_pmm_alloc_found [OF assms(1) True] by blast
  have fr: "page_free p i" using i(2) by (auto simp: next_free_def)
  have "256 \<le> i" "i < 2 ^ 52"
    using i(1) fr pmm_inv_bounds [OF assms(1)] by (auto simp: page_free_def)
  then have a: "pgno a = i" "pg_aligned a" "a \<noteq> 0"
    using e assms(2) pg_addr [of i] by (auto simp: pgno_def)
  have "unat (of_nat i + 1 :: u64) = i + 1"
    using \<open>i < 2 ^ 52\<close> by (subst unat_add_small) (simp_all add: unat_of_nat)
  then have "unat (pm_next q) = (i + 1) mod np p"
    using e assms(2) by (auto simp: unat_mod)
  then show ?thesis
    unfolding pgno_def [symmetric] pg_aligned_def [symmetric] a(1)
    using mark_used_inv [OF assms(1) i(1) fr] a(2,3) e assms(2) i(2) True by auto
qed

theorem pmm_alloc_next_fit_witness:
  "nx_pmm_alloc ex_pmm1 = (0x101000, ex_pmm2) \<and> next_free ex_pmm1 257"
  using pmm_alloc_next_fit [OF ex_pmm1_inv ex_alloc] ex_alloc by simp

text \<open>
  C14. Release. \<open>nx_pmm_free\<close> accepts exactly the managed pages that are in use; every other
  address gets its own error (misaligned, unmanaged, already free) and changes nothing. An
  accepted release makes that page and no other free again and keeps the invariant.
\<close>

theorem pmm_free_exact:
  assumes "pmm_inv p" and "nx_pmm_free p a = (q, st)"
  shows "st = (if unat a mod 4096 \<noteq> 0 then NX_PMM_E_ALIGN
               else if np p \<le> unat a div 4096 \<or> \<not> bm_get (pm_managed p) (unat a div 4096)
                 then NX_PMM_E_UNMANAGED
               else if page_free p (unat a div 4096) then NX_PMM_E_DOUBLE_FREE
               else NX_PMM_OK)
    \<and> pmm_inv q \<and> (st \<noteq> NX_PMM_OK \<longrightarrow> q = p)
    \<and> (st = NX_PMM_OK \<longrightarrow> (\<forall>i. page_free q i \<longleftrightarrow> page_free p i \<or> i = unat a div 4096)
         \<and> pm_free_pages q = pm_free_pages p + 1)"
proof (cases "a \<in> pmm_owned p")
  case True
  then have c: "pg_aligned a" "pgno a < np p" "bm_get (pm_managed p) (pgno a)"
    "bm_get (pm_used p) (pgno a)"
    by (simp_all add: pmm_owned_def)
  have "st = NX_PMM_OK" "q = p\<lparr>pm_used := bm_clear (pm_used p) (pgno a),
      pm_free_pages := pm_free_pages p + 1\<rparr>"
    using assms(2) c by (simp_all add: pmm_free_eq)
  then show ?thesis
    unfolding pgno_def [symmetric] pg_aligned_def [symmetric]
    using mark_free_inv [OF assms(1) c(2-4)] c by (simp add: page_free_def [of p "pgno a"])
next
  case False
  then have "q = p" using pmm_free_refused [OF _ assms(2)] by blast
  with False show ?thesis
    unfolding pgno_def [symmetric] pg_aligned_def [symmetric]
    using assms by (auto simp: pmm_free_eq pmm_owned_def page_free_def)
qed

theorem pmm_free_exact_witness:
  "snd (nx_pmm_free ex_pmm2 0x101000) = NX_PMM_OK
   \<and> page_free (fst (nx_pmm_free ex_pmm2 0x101000)) 257"
proof -
  have "snd (nx_pmm_free ex_pmm2 0x101000) = NX_PMM_OK"
    by (simp add: ex_pmm2_def ex_pmm_def pmm_eval)
  then show ?thesis
    using pmm_free_exact [OF ex_pmm2_inv, of "0x101000"
        "fst (nx_pmm_free ex_pmm2 0x101000)" NX_PMM_OK]
    by (simp add: prod_eq_iff)
qed

end
