(* ===== verification/Codec.thy ===== *)
theory Codec
  imports Nx_Prelude
begin

text \<open>
  Fixed-size byte layouts. A C struct that is read from or written to a block device or a wire
  as raw memory (little endian, no padding) is a record together with a codec built from the
  codecs of its fields in declaration order. The locale \<open>byte_codec\<close> is what a client relies
  on: the encoding has the stated size and encoding and decoding are inverse on both sides.
\<close>

record 'a codec =
  cd_enc :: "'a \<Rightarrow> bytes"
  cd_dec :: "bytes \<Rightarrow> 'a"
  cd_size :: nat

locale byte_codec =
  fixes c :: "'a codec" and wf :: "'a \<Rightarrow> bool"
  assumes enc_len: "wf a \<Longrightarrow> length (cd_enc c a) = cd_size c"
    and dec_enc: "wf a \<Longrightarrow> cd_dec c (cd_enc c a) = a"
    and enc_dec: "length b = cd_size c \<Longrightarrow> cd_enc c (cd_dec c b) = b"
    and dec_wf: "length b = cd_size c \<Longrightarrow> wf (cd_dec c b)"
begin

lemma enc_inj: "wf a \<Longrightarrow> wf b \<Longrightarrow> cd_enc c a = cd_enc c b \<Longrightarrow> a = b"
  using dec_enc by metis

lemma dec_inj: "length a = cd_size c \<Longrightarrow> length b = cd_size c \<Longrightarrow> cd_dec c a = cd_dec c b \<Longrightarrow> a = b"
  using enc_dec by metis

end

subsection \<open>Little-endian integers\<close>

definition le_enc :: "nat \<Rightarrow> 'a::len word \<Rightarrow> bytes" where
  "le_enc n w = map (\<lambda>i. ucast (drop_bit (8 * i) w)) [0..<n]"

definition le_dec :: "bytes \<Rightarrow> 'a::len word" where
  "le_dec bs = foldr (\<lambda>b acc. ucast b OR push_bit 8 acc) bs 0"

lemma length_le_enc [simp]: "length (le_enc n w) = n"
  by (simp add: le_enc_def)

lemma bit_le_dec:
  "bit (le_dec bs :: 'a::len word) j \<longleftrightarrow>
     j < LENGTH('a) \<and> j div 8 < length bs \<and> bit (bs ! (j div 8)) (j mod 8)"
proof (induction bs arbitrary: j)
  case Nil
  then show ?case by (simp add: le_dec_def)
next
  case (Cons b bs)
  have "bit (le_dec (b # bs) :: 'a word) j \<longleftrightarrow>
      j < LENGTH('a) \<and> (bit b j \<or> 8 \<le> j \<and> bit (le_dec bs :: 'a word) (j - 8))"
    by (auto simp: le_dec_def bit_simps)
  also have "\<dots> \<longleftrightarrow> j < LENGTH('a) \<and> j div 8 < length (b # bs) \<and> bit ((b # bs) ! (j div 8)) (j mod 8)"
  proof (cases "j < 8")
    case True
    then show ?thesis by auto
  next
    case False
    then have "\<not> bit b j" by (auto dest: bit_imp_le_length)
    moreover have "j div 8 = Suc ((j - 8) div 8)" "j mod 8 = (j - 8) mod 8"
      using False by (simp_all add: le_div_geq le_mod_geq)
    ultimately show ?thesis using False Cons.IH [of "j - 8"] by auto
  qed
  finally show ?case .
qed

lemma le_dec_enc:
  assumes "LENGTH('a) = 8 * n"
  shows "le_dec (le_enc n (w :: 'a::len word)) = w"
proof (rule bit_word_eqI)
  fix j assume j: "j < LENGTH('a)"
  then have "j div 8 < n" using assms by auto
  moreover have "8 * (j div 8) + j mod 8 = j" by simp
  ultimately show "bit (le_dec (le_enc n w) :: 'a word) j = bit w j"
    using j by (simp add: bit_le_dec le_enc_def bit_simps)
qed

lemma le_enc_dec:
  assumes "LENGTH('a) = 8 * n" and "length bs = n"
  shows "le_enc n (le_dec bs :: 'a::len word) = bs"
proof (rule nth_equalityI)
  fix i assume "i < length (le_enc n (le_dec bs :: 'a word))"
  then have i: "i < n" by simp
  have "bit (ucast (drop_bit (8 * i) (le_dec bs :: 'a word)) :: u8) j = bit (bs ! i) j" if "j < 8" for j
  proof -
    have "(8 * i + j) div 8 = i" "(8 * i + j) mod 8 = j" "8 * i + j < LENGTH('a)"
      using that i assms by auto
    then show ?thesis using that i assms by (simp add: bit_simps bit_le_dec)
  qed
  then show "le_enc n (le_dec bs :: 'a word) ! i = bs ! i"
    using i by (intro bit_word_eqI) (simp add: le_enc_def)
qed (use assms in simp)

definition c_le :: "nat \<Rightarrow> 'a::len word codec" where
  "c_le n = \<lparr>cd_enc = le_enc n, cd_dec = le_dec, cd_size = n\<rparr>"

definition c_u8 :: "u8 codec" where "c_u8 = c_le 1"
definition c_u16 :: "u16 codec" where "c_u16 = c_le 2"
definition c_u32 :: "u32 codec" where "c_u32 = c_le 4"
definition c_u64 :: "u64 codec" where "c_u64 = c_le 8"

lemma codec_le: "LENGTH('a) = 8 * n \<Longrightarrow> byte_codec (c_le n :: 'a::len word codec) (\<lambda>_. True)"
  by unfold_locales (simp_all add: c_le_def le_dec_enc le_enc_dec)

lemma codec_u16: "byte_codec c_u16 (\<lambda>_. True)"
  and codec_u32: "byte_codec c_u32 (\<lambda>_. True)"
  and codec_u64: "byte_codec c_u64 (\<lambda>_. True)"
  unfolding c_u16_def c_u32_def c_u64_def by (simp_all add: codec_le)

subsection \<open>Byte arrays, arrays, sequences of fields\<close>

definition c_bytes :: "nat \<Rightarrow> bytes codec" where
  "c_bytes n = \<lparr>cd_enc = (\<lambda>b. b), cd_dec = (\<lambda>b. b), cd_size = n\<rparr>"

definition c_pair :: "'a codec \<Rightarrow> 'b codec \<Rightarrow> ('a \<times> 'b) codec" where
  "c_pair a b = \<lparr>cd_enc = (\<lambda>(x, y). cd_enc a x @ cd_enc b y),
                 cd_dec = (\<lambda>bs. (cd_dec a (take (cd_size a) bs), cd_dec b (drop (cd_size a) bs))),
                 cd_size = cd_size a + cd_size b\<rparr>"

definition c_array :: "nat \<Rightarrow> 'a codec \<Rightarrow> 'a list codec" where
  "c_array k a = \<lparr>cd_enc = (\<lambda>xs. concat (map (cd_enc a) xs)),
                  cd_dec = (\<lambda>bs. map (\<lambda>i. cd_dec a (take (cd_size a) (drop (i * cd_size a) bs))) [0..<k]),
                  cd_size = k * cd_size a\<rparr>"

definition c_map :: "('r \<Rightarrow> 't) \<Rightarrow> ('t \<Rightarrow> 'r) \<Rightarrow> 't codec \<Rightarrow> 'r codec" where
  "c_map f g a = \<lparr>cd_enc = cd_enc a \<circ> f, cd_dec = g \<circ> cd_dec a, cd_size = cd_size a\<rparr>"

lemma codec_bytes: "byte_codec (c_bytes n) (\<lambda>b. length b = n)"
  by unfold_locales (simp_all add: c_bytes_def)

lemma codec_pair:
  assumes "byte_codec a wa" and "byte_codec b wb"
  shows "byte_codec (c_pair a b) (\<lambda>(x, y). wa x \<and> wb y)"
  using assms unfolding byte_codec_def by (auto simp: c_pair_def)

lemma codec_map:
  assumes "byte_codec a wa" and "\<And>r. g (f r) = r" and "\<And>t. f (g t) = t"
  shows "byte_codec (c_map f g a) (\<lambda>r. wa (f r))"
  using assms unfolding byte_codec_def by (auto simp: c_map_def)

lemma codec_wf_cong:
  assumes "byte_codec a wa" and "\<And>x. wa x = wb x"
  shows "byte_codec a wb"
  using assms by (simp add: byte_codec_def)

lemma codec_array:
  assumes "byte_codec a wa"
  shows "byte_codec (c_array k a) (\<lambda>xs. length xs = k \<and> (\<forall>x \<in> set xs. wa x))"
proof -
  have len: "length (cd_enc a x) = cd_size a" if "wa x" for x
    using assms that by (simp add: byte_codec_def)
  have elem: "take (cd_size a) (drop (i * cd_size a) (concat (map (cd_enc a) xs))) = cd_enc a (xs ! i)"
    if "i < length xs" "\<forall>x \<in> set xs. wa x" for i xs
    using that
  proof (induction xs arbitrary: i)
    case (Cons x xs)
    then show ?case using len [of x] by (cases i) (simp_all add: add.commute)
  qed simp
  show ?thesis
  proof
    fix xs :: "'a list" assume xs: "length xs = k \<and> (\<forall>x \<in> set xs. wa x)"
    have "map (length \<circ> cd_enc a) xs = replicate (length xs) (cd_size a)"
      using xs len by (auto intro!: nth_equalityI)
    then have "sum_list (map (length \<circ> cd_enc a) xs) = length xs * cd_size a"
      by (simp add: sum_list_replicate)
    then show "length (cd_enc (c_array k a) xs) = cd_size (c_array k a)"
      using xs by (simp add: c_array_def length_concat comp_def)
    show "cd_dec (c_array k a) (cd_enc (c_array k a) xs) = xs"
      using xs elem assms by (auto simp: c_array_def byte_codec_def intro!: nth_equalityI)
  next
    fix b :: bytes assume b: "length b = cd_size (c_array k a)"
    have "length (take (cd_size a) (drop (i * cd_size a) b)) = cd_size a" if "i < k" for i
    proof -
      have "i * cd_size a + cd_size a \<le> k * cd_size a"
        using mult_le_mono1 [of "Suc i" k "cd_size a"] that by simp
      then show ?thesis using b by (simp add: c_array_def)
    qed
    then have parts: "cd_enc a (cd_dec a (take (cd_size a) (drop (i * cd_size a) b)))
          = take (cd_size a) (drop (i * cd_size a) b)"
        "wa (cd_dec a (take (cd_size a) (drop (i * cd_size a) b)))" if "i < k" for i
      using assms that by (auto simp: byte_codec_def)
    then have "map (\<lambda>i. cd_enc a (cd_dec a (take (cd_size a) (drop (i * cd_size a) b)))) [0..<k]
        = map (\<lambda>i. take (cd_size a) (drop (i * cd_size a) b)) [0..<k]"
      by simp
    then have "concat (map (\<lambda>i. cd_enc a (cd_dec a (take (cd_size a) (drop (i * cd_size a) b)))) [0..<k]) = b"
      using concat_chunks [of b k "cd_size a"] b by (simp only: c_array_def) simp
    then show "cd_enc (c_array k a) (cd_dec (c_array k a) b) = b"
      by (simp add: c_array_def comp_def)
    show "length (cd_dec (c_array k a) b) = k \<and> (\<forall>x \<in> set (cd_dec (c_array k a) b). wa x)"
      using parts by (auto simp: c_array_def)
  qed
qed

end
