(* ===== verification/Crc32.thy ===== *)
theory Crc32
  imports Nx_Prelude
begin

text \<open>
  The checksum of the block store (lib/crc32.c, lib/include/nanox/crc32.h): a nibble-table
  CRC-32. The theory relates the table routine to the bit-by-bit definition of the reflected
  polynomial 0xEDB88320, shows that chained calls checksum the concatenation, and that the
  checksum of a buffer determines any single byte of it.
\<close>

definition NIBBLE :: "u32 list" where
  "NIBBLE = [0x00000000, 0x1DB71064, 0x3B6E20C8, 0x26D930AC, 0x76DC4190, 0x6B6B51F4,
             0x4DB26158, 0x5005713C, 0xEDB88320, 0xF00F9344, 0xD6D6A3E8, 0xCB61B38C,
             0x9B64C2B0, 0x86D3D2D4, 0xA00AE278, 0xBDBDF21C]"

definition crc_nibble :: "u32 \<Rightarrow> u32" where
  "crc_nibble crc = drop_bit 4 crc XOR (NIBBLE ! unat (crc AND 15))"

definition crc_step :: "u8 \<Rightarrow> u32 \<Rightarrow> u32" where
  "crc_step b crc = crc_nibble (crc_nibble (crc XOR ucast b))"

definition nx_crc32_update :: "u32 \<Rightarrow> bytes \<Rightarrow> u32" where
  "nx_crc32_update crc data = NOT (fold crc_step data (NOT crc))"

definition nx_crc32 :: "bytes \<Rightarrow> u32" where
  "nx_crc32 data = nx_crc32_update 0 data"

subsection \<open>The bit-by-bit definition\<close>

definition crc_bit :: "u32 \<Rightarrow> u32" where
  "crc_bit c = (if bit c 0 then drop_bit 1 c XOR 0xEDB88320 else drop_bit 1 c)"

definition crc_ref_step :: "u8 \<Rightarrow> u32 \<Rightarrow> u32" where
  "crc_ref_step b c = (crc_bit ^^ 8) (c XOR ucast b)"

definition crc32_ref :: "bytes \<Rightarrow> u32" where
  "crc32_ref data = NOT (fold crc_ref_step data 0xFFFFFFFF)"

lemma crc_bit_xor: "crc_bit (a XOR b) = crc_bit a XOR crc_bit b"
  by (simp add: crc_bit_def bit_xor_iff ac_simps)

lemma crc_bits_xor: "(crc_bit ^^ n) (a XOR b) = (crc_bit ^^ n) a XOR (crc_bit ^^ n) b"
  by (induction n) (simp_all add: crc_bit_xor)

lemma crc_bits_high: "(\<forall>i < n. \<not> bit a i) \<Longrightarrow> (crc_bit ^^ n) a = drop_bit n a"
  by (induction n) (simp_all add: crc_bit_def bit_drop_bit_eq)

lemma and_15_nat: "unat ((x :: u32) AND 15) = unat x mod 16"
  using and_mask_mod [of x 4] by (simp add: mask_eq_exp_minus_1 unat_mod)

lemma funpow_4: "(f ^^ 4) x = f (f (f (f x)))"
  by (simp add: numeral_eq_Suc)

lemma crc_nibble_low:
  assumes "k < 16"
  shows "(crc_bit ^^ 4) (of_nat k) = NIBBLE ! k"
proof -
  have "k = 0 \<or> k = 1 \<or> k = 2 \<or> k = 3 \<or> k = 4 \<or> k = 5 \<or> k = 6 \<or> k = 7 \<or> k = 8 \<or> k = 9 \<or> k = 10
      \<or> k = 11 \<or> k = 12 \<or> k = 13 \<or> k = 14 \<or> k = 15"
    using assms by arith
  then show ?thesis
    by (elim disjE) (simp_all add: NIBBLE_def crc_bit_def funpow_4 bit_0)
qed

lemma crc_nibble_bits: "crc_nibble c = (crc_bit ^^ 4) c"
proof -
  have m: "(15 :: u32) = mask 4" by (simp add: mask_eq_exp_minus_1)
  define lo where "lo = c AND mask 4"
  define hi where "hi = c AND NOT (mask 4)"
  have c: "c = hi XOR lo"
    by (rule bit_word_eqI) (auto simp: hi_def lo_def bit_simps)
  have "\<not> bit hi i" if "i < 4" for i
    using that by (simp add: hi_def bit_simps)
  then have "(crc_bit ^^ 4) hi = drop_bit 4 hi" by (intro crc_bits_high) simp
  moreover have "drop_bit 4 hi = drop_bit 4 c"
    by (rule bit_word_eqI) (auto simp: hi_def bit_simps dest: bit_imp_le_length)
  moreover have "(crc_bit ^^ 4) lo = NIBBLE ! unat lo"
    using crc_nibble_low [of "unat lo"] word_of_unat [of lo] and_15_nat [of c]
    by (simp add: lo_def m)
  moreover have "(crc_bit ^^ 4) c = (crc_bit ^^ 4) hi XOR (crc_bit ^^ 4) lo"
    by (subst c) (rule crc_bits_xor)
  ultimately show ?thesis
    by (simp add: crc_nibble_def lo_def m)
qed

lemma crc_step_ref: "crc_step = crc_ref_step"
proof (intro ext)
  fix b c
  have "(crc_bit ^^ 8) x = (crc_bit ^^ 4) ((crc_bit ^^ 4) x)" for x
    using funpow_add [of 4 4 crc_bit] by simp
  then show "crc_step b c = crc_ref_step b c"
    by (simp add: crc_step_def crc_ref_step_def crc_nibble_bits)
qed

lemma nx_crc32_ref: "nx_crc32 data = crc32_ref data"
proof -
  have init: "(NOT 0 :: u32) = 0xFFFFFFFF" by code_simp
  show ?thesis
    by (simp only: nx_crc32_def nx_crc32_update_def crc32_ref_def crc_step_ref init)
qed

subsection \<open>Chaining\<close>

lemma nx_crc32_update_nil [simp]: "nx_crc32_update crc [] = crc"
  by (simp add: nx_crc32_update_def)

lemma nx_crc32_update_append:
  "nx_crc32_update crc (xs @ ys) = nx_crc32_update (nx_crc32_update crc xs) ys"
  by (simp add: nx_crc32_update_def)

subsection \<open>Injectivity\<close>

text \<open>
  A step of the checksum is injective in the register, since the top bit of the result tells
  which branch was taken, and in the data byte. Two buffers that differ in one byte therefore
  have different checksums.
\<close>

lemma xor_cancel: "((a :: 'a::len word) XOR k = b XOR k) = (a = b)"
proof
  assume "a XOR k = b XOR k"
  then have "(a XOR k) XOR k = (b XOR k) XOR k" by simp
  then show "a = b" by (simp only: xor.assoc xor_self_eq xor.right_neutral)
qed simp

lemma crc_bit_inj: "crc_bit a = crc_bit b \<Longrightarrow> a = b"
proof -
  assume eq: "crc_bit a = crc_bit b"
  have top: "bit (crc_bit c) 31 = bit c 0" for c
    by (auto simp: crc_bit_def bit_simps dest: bit_imp_le_length)
  have low: "bit a 0 = bit b 0" using top [of a] top [of b] eq by simp
  then have "drop_bit 1 a = drop_bit 1 b"
    using eq by (auto simp: crc_bit_def xor_cancel split: if_splits)
  then have "bit a (Suc i) = bit b (Suc i)" for i
    by (metis bit_drop_bit_eq comp_apply plus_1_eq_Suc)
  with low have "bit a i = bit b i" for i by (cases i) auto
  then show "a = b" by (intro bit_word_eqI) simp
qed

lemma crc_ref_step_inj: "crc_ref_step x a = crc_ref_step y b \<Longrightarrow> a XOR ucast x = b XOR ucast y"
proof -
  have "(crc_bit ^^ n) a = (crc_bit ^^ n) b \<Longrightarrow> a = b" for n a b
    by (induction n) (auto dest: crc_bit_inj)
  then show "crc_ref_step x a = crc_ref_step y b \<Longrightarrow> ?thesis" by (auto simp: crc_ref_step_def)
qed

lemma crc_fold_inj: "fold crc_step xs a = fold crc_step xs b \<Longrightarrow> a = b"
proof (induction xs arbitrary: a b)
  case (Cons x xs)
  from Cons.prems have "crc_step x a = crc_step x b" by (auto dest: Cons.IH)
  then have "a XOR ucast x = b XOR ucast x" by (auto simp: crc_step_ref dest: crc_ref_step_inj)
  then show ?case by (simp add: xor_cancel)
qed simp

lemma crc_byte_differs:
  assumes "x \<noteq> y"
  shows "nx_crc32 (us @ x # vs) \<noteq> nx_crc32 (us @ y # vs)"
proof
  assume "nx_crc32 (us @ x # vs) = nx_crc32 (us @ y # vs)"
  then have "NOT (fold crc_step vs (crc_step x (fold crc_step us (NOT 0))))
      = NOT (fold crc_step vs (crc_step y (fold crc_step us (NOT 0))))"
    by (simp add: nx_crc32_def nx_crc32_update_def)
  then have "crc_step x (fold crc_step us (NOT 0)) = crc_step y (fold crc_step us (NOT 0))"
    by (metis bit.double_compl crc_fold_inj)
  then have "fold crc_step us (NOT 0) XOR ucast x = fold crc_step us (NOT 0) XOR ucast y"
    by (auto simp: crc_step_ref dest: crc_ref_step_inj)
  then have "(ucast x :: u32) = ucast y"
    by (simp only: xor.commute [of "fold crc_step us (NOT 0)"] xor_cancel)
  then have "bit x i = bit y i" if "i < 8" for i
    using that bit_ucast_iff [of x i, where 'a = 32] bit_ucast_iff [of y i, where 'a = 32] by simp
  then have "x = y" by (intro bit_word_eqI) simp
  then show False using assms by simp
qed

end
