(* ===== verification/Store_Format.thy ===== *)
theory Store_Format
  imports Codec Crc32
begin

text \<open>
  The on-disk structures of the block store (lib/include/nanox/store.h) and the helpers on names
  (lib/store.c). A struct is a record; its 4096-byte image is given by a codec that lists the
  fields in the order of the declaration, so that the checksum is the last field of a block.

  C strings are byte lists; reading past the end of the list gives the terminating 0, and an
  array of characters is a list of the array's length. Characters are compared as unsigned bytes:
  where the C code compares a signed char with \<open><= ' '\<close> or with the letter ranges, bytes of 0x80 and
  above are rejected either way.
\<close>

abbreviation ST_BLOCK :: "'a::numeral" where "ST_BLOCK \<equiv> 4096"
abbreviation ST_VERSION :: u32 where "ST_VERSION \<equiv> 1"
abbreviation ST_SB_SLOTS :: nat where "ST_SB_SLOTS \<equiv> 2"
abbreviation ST_FIRST_DATA :: "'a::numeral" where "ST_FIRST_DATA \<equiv> 2"
abbreviation ST_MIN_BLOCKS :: u64 where "ST_MIN_BLOCKS \<equiv> 16"
abbreviation ST_MAX_BLOCKS :: u64 where "ST_MAX_BLOCKS \<equiv> 32768"
abbreviation ST_HIST_MAX :: "'a::numeral" where "ST_HIST_MAX \<equiv> 8"
abbreviation ST_PIN_MAX :: "'a::numeral" where "ST_PIN_MAX \<equiv> 4"
abbreviation ST_LOG_MAX :: "'a::numeral" where "ST_LOG_MAX \<equiv> 16"
abbreviation ST_OBJ_MAX :: "'a::numeral" where "ST_OBJ_MAX \<equiv> 49"
abbreviation ST_NAME_MAX :: nat where "ST_NAME_MAX \<equiv> 27"
abbreviation ST_PIN_NAME_MAX :: nat where "ST_PIN_NAME_MAX \<equiv> 15"
abbreviation ST_LABEL_MAX :: nat where "ST_LABEL_MAX \<equiv> 15"
abbreviation ST_OBJ_MAX_BYTES :: u32 where "ST_OBJ_MAX_BYTES \<equiv> 32768"
abbreviation ST_RETAIN_MIN :: u32 where "ST_RETAIN_MIN \<equiv> 2"
abbreviation ST_RETAIN_MAX :: u32 where "ST_RETAIN_MAX \<equiv> 9"
abbreviation ST_RESERVE_BLOCKS :: nat where "ST_RESERVE_BLOCKS \<equiv> 10"

definition ST_SUPER_MAGIC :: bytes where
  "ST_SUPER_MAGIC = [0x4E, 0x58, 0x53, 0x54, 0x53, 0x55, 0x50, 0x31]"

definition ST_ROOT_MAGIC :: bytes where
  "ST_ROOT_MAGIC = [0x4E, 0x58, 0x53, 0x54, 0x52, 0x4F, 0x4F, 0x54]"

record st_ref =
  sr_gen :: u64
  sr_blk :: u32
  sr_crc :: u32

record st_pin =
  sp_name :: bytes
  sp_ref :: st_ref

record st_log =
  sl_gen :: u64
  sl_boot_id :: u64
  sl_label :: bytes

record st_obj =
  so_oid :: u64
  so_mod_gen :: u64
  so_version :: u32
  so_blk :: u32
  so_len :: u32
  so_crc :: u32
  so_kind :: u16
  so_nblk :: u16
  so_name :: bytes

record st_super =
  su_magic :: bytes
  su_version :: u32
  su_block_size :: u32
  su_block_count :: u64
  su_store_id :: u64
  su_gen :: u64
  su_root_blk :: u32
  su_root_crc :: u32
  su_retain :: u32
  su_reserved0 :: u32
  su_boot_id :: u64
  su_zero :: bytes
  su_crc :: u32

record st_root =
  rt_magic :: bytes
  rt_gen :: u64
  rt_parent_gen :: u64
  rt_store_id :: u64
  rt_next_oid :: u64
  rt_boot_id :: u64
  rt_nobj :: u32
  rt_nhist :: u32
  rt_npin :: u32
  rt_nlog :: u32
  rt_retain :: u32
  rt_flags :: u32
  rt_label :: bytes
  rt_reserved :: bytes
  rt_hist :: "st_ref list"
  rt_pin :: "st_pin list"
  rt_log :: "st_log list"
  rt_obj :: "st_obj list"
  rt_pad :: bytes
  rt_crc :: u32

section \<open>Layout\<close>

definition c_ref :: "st_ref codec" where
  "c_ref = c_map (\<lambda>r. (sr_gen r, sr_blk r, sr_crc r))
     (\<lambda>(g, b, c). \<lparr>sr_gen = g, sr_blk = b, sr_crc = c\<rparr>)
     (c_pair c_u64 (c_pair c_u32 c_u32))"

definition c_pin :: "st_pin codec" where
  "c_pin = c_map (\<lambda>p. (sp_name p, sp_ref p)) (\<lambda>(n, r). \<lparr>sp_name = n, sp_ref = r\<rparr>)
     (c_pair (c_bytes 16) c_ref)"

definition c_log :: "st_log codec" where
  "c_log = c_map (\<lambda>l. (sl_gen l, sl_boot_id l, sl_label l))
     (\<lambda>(g, b, l). \<lparr>sl_gen = g, sl_boot_id = b, sl_label = l\<rparr>)
     (c_pair c_u64 (c_pair c_u64 (c_bytes 16)))"

definition c_obj :: "st_obj codec" where
  "c_obj = c_map
     (\<lambda>r. (so_oid r, so_mod_gen r, so_version r, so_blk r, so_len r, so_crc r, so_kind r,
           so_nblk r, so_name r))
     (\<lambda>(a, b, c, d, e, f, g, h, i). \<lparr>so_oid = a, so_mod_gen = b, so_version = c, so_blk = d,
        so_len = e, so_crc = f, so_kind = g, so_nblk = h, so_name = i\<rparr>)
     (c_pair c_u64 (c_pair c_u64 (c_pair c_u32 (c_pair c_u32 (c_pair c_u32 (c_pair c_u32
       (c_pair c_u16 (c_pair c_u16 (c_bytes 28)))))))))"

text \<open>The two block-sized structures: everything before the checksum, then the checksum.\<close>

definition c_super :: "st_super codec" where
  "c_super = c_map
     (\<lambda>s. ((su_magic s, su_version s, su_block_size s, su_block_count s, su_store_id s, su_gen s,
            su_root_blk s, su_root_crc s, su_retain s, su_reserved0 s, su_boot_id s, su_zero s),
           su_crc s))
     (\<lambda>((a, b, c, d, e, f, g, h, i, j, k, l), m). \<lparr>su_magic = a, su_version = b,
        su_block_size = c, su_block_count = d, su_store_id = e, su_gen = f, su_root_blk = g,
        su_root_crc = h, su_retain = i, su_reserved0 = j, su_boot_id = k, su_zero = l,
        su_crc = m\<rparr>)
     (c_pair (c_pair (c_bytes 8) (c_pair c_u32 (c_pair c_u32 (c_pair c_u64 (c_pair c_u64
       (c_pair c_u64 (c_pair c_u32 (c_pair c_u32 (c_pair c_u32 (c_pair c_u32 (c_pair c_u64
       (c_bytes 4028)))))))))))) c_u32)"

definition c_root :: "st_root codec" where
  "c_root = c_map
     (\<lambda>r. ((rt_magic r, rt_gen r, rt_parent_gen r, rt_store_id r, rt_next_oid r, rt_boot_id r,
            rt_nobj r, rt_nhist r, rt_npin r, rt_nlog r, rt_retain r, rt_flags r, rt_label r,
            rt_reserved r, rt_hist r, rt_pin r, rt_log r, rt_obj r, rt_pad r), rt_crc r))
     (\<lambda>((a, b, c, d, e, f, g, h, i, j, k, l, m, n, p, q, t, u, v), w). \<lparr>rt_magic = a,
        rt_gen = b, rt_parent_gen = c, rt_store_id = d, rt_next_oid = e, rt_boot_id = f,
        rt_nobj = g, rt_nhist = h, rt_npin = i, rt_nlog = j, rt_retain = k, rt_flags = l,
        rt_label = m, rt_reserved = n, rt_hist = p, rt_pin = q, rt_log = t, rt_obj = u,
        rt_pad = v, rt_crc = w\<rparr>)
     (c_pair (c_pair (c_bytes 8) (c_pair c_u64 (c_pair c_u64 (c_pair c_u64 (c_pair c_u64
       (c_pair c_u64 (c_pair c_u32 (c_pair c_u32 (c_pair c_u32 (c_pair c_u32 (c_pair c_u32
       (c_pair c_u32 (c_pair (c_bytes 16) (c_pair (c_bytes 40) (c_pair (c_array 8 c_ref)
       (c_pair (c_array 4 c_pin) (c_pair (c_array 16 c_log) (c_pair (c_array 49 c_obj)
       (c_bytes 60))))))))))))))))))) c_u32)"

definition block_crc :: "bytes \<Rightarrow> u32" where
  "block_crc blk = nx_crc32 (take (ST_BLOCK - 4) blk)"

text \<open>Array lengths of a struct value.\<close>

definition pin_wf :: "st_pin \<Rightarrow> bool" where
  "pin_wf p \<longleftrightarrow> length (sp_name p) = 16"

definition log_wf :: "st_log \<Rightarrow> bool" where
  "log_wf l \<longleftrightarrow> length (sl_label l) = 16"

definition obj_wf :: "st_obj \<Rightarrow> bool" where
  "obj_wf x \<longleftrightarrow> length (so_name x) = 28"

definition super_wf :: "st_super \<Rightarrow> bool" where
  "super_wf s \<longleftrightarrow> length (su_magic s) = 8 \<and> length (su_zero s) = 4028"

definition root_wf :: "st_root \<Rightarrow> bool" where
  "root_wf r \<longleftrightarrow> length (rt_magic r) = 8 \<and> length (rt_label r) = 16 \<and> length (rt_reserved r) = 40
     \<and> length (rt_hist r) = 8 \<and> length (rt_pin r) = 4 \<and> (\<forall>p \<in> set (rt_pin r). pin_wf p)
     \<and> length (rt_log r) = 16 \<and> (\<forall>l \<in> set (rt_log r). log_wf l)
     \<and> length (rt_obj r) = 49 \<and> (\<forall>x \<in> set (rt_obj r). obj_wf x) \<and> length (rt_pad r) = 60"

lemmas codec_fields = codec_pair codec_bytes codec_u16 codec_u32 codec_u64 codec_array

lemma codec_ref: "byte_codec c_ref (\<lambda>_. True)"
  unfolding c_ref_def by (rule codec_wf_cong, rule codec_map, (rule codec_fields)+, auto)

lemma codec_pin: "byte_codec c_pin pin_wf"
  unfolding c_pin_def
  by (rule codec_wf_cong, rule codec_map, (rule codec_fields codec_ref)+, auto simp: pin_wf_def)

lemma codec_log: "byte_codec c_log log_wf"
  unfolding c_log_def
  by (rule codec_wf_cong, rule codec_map, (rule codec_fields)+, auto simp: log_wf_def)

lemma codec_obj: "byte_codec c_obj obj_wf"
  unfolding c_obj_def
  by (rule codec_wf_cong, rule codec_map, (rule codec_fields)+, auto simp: obj_wf_def)

lemma codec_super: "byte_codec c_super super_wf"
  unfolding c_super_def
  by (rule codec_wf_cong, rule codec_map, (rule codec_fields)+, auto simp: super_wf_def)

lemma codec_root: "byte_codec c_root root_wf"
  unfolding c_root_def
  by (rule codec_wf_cong, rule codec_map,
      (rule codec_fields codec_ref codec_pin codec_log codec_obj)+, auto simp: root_wf_def)

interpretation ref: byte_codec c_ref "\<lambda>_. True" by (rule codec_ref)

interpretation pin: byte_codec c_pin pin_wf by (rule codec_pin)

interpretation log: byte_codec c_log log_wf by (rule codec_log)

interpretation obj: byte_codec c_obj obj_wf by (rule codec_obj)

interpretation super: byte_codec c_super super_wf by (rule codec_super)

interpretation root: byte_codec c_root root_wf by (rule codec_root)

lemma codec_sizes [simp]:
  "cd_size c_ref = 16" "cd_size c_pin = 32" "cd_size c_log = 32" "cd_size c_obj = 64"
  "cd_size c_super = 4096" "cd_size c_root = 4096"
proof -
  note d = c_map_def c_pair_def c_array_def c_u16_def c_u32_def c_u64_def c_le_def c_bytes_def
  show r: "cd_size c_ref = 16" by (simp add: c_ref_def d)
  show p: "cd_size c_pin = 32" using r by (simp add: c_pin_def d)
  show l: "cd_size c_log = 32" by (simp add: c_log_def d)
  show o: "cd_size c_obj = 64" by (simp add: c_obj_def d)
  show "cd_size c_super = 4096" by (simp add: c_super_def d)
  show "cd_size c_root = 4096" using r p l o by (simp add: c_root_def d)
qed

subsection \<open>Sealing a block with its checksum\<close>

text \<open>
  \<open>r->crc = block_crc(r)\<close>: the checksum covers everything but itself, so setting it makes the
  block verify and does not change what it covers.
\<close>

definition seal_root :: "st_root \<Rightarrow> st_root" where
  "seal_root r = r\<lparr>rt_crc := block_crc (cd_enc c_root r)\<rparr>"

definition seal_super :: "st_super \<Rightarrow> st_super" where
  "seal_super s = s\<lparr>su_crc := block_crc (cd_enc c_super s)\<rparr>"

lemma block_crc_root: "root_wf r \<Longrightarrow> block_crc (cd_enc c_root (r\<lparr>rt_crc := w\<rparr>)) = block_crc (cd_enc c_root r)"
proof -
  assume wf: "root_wf r"
  then have "length (cd_enc c_root r) = 4096" using root.enc_len by simp
  then have "take 4092 (cd_enc c_root (r\<lparr>rt_crc := w\<rparr>)) = take 4092 (cd_enc c_root r)"
    by (simp add: c_root_def c_map_def c_pair_def c_u32_def c_le_def)
  then show ?thesis by (simp add: block_crc_def)
qed

lemma block_crc_super:
  "super_wf s \<Longrightarrow> block_crc (cd_enc c_super (s\<lparr>su_crc := w\<rparr>)) = block_crc (cd_enc c_super s)"
proof -
  assume wf: "super_wf s"
  then have "length (cd_enc c_super s) = 4096" using super.enc_len by simp
  then have "take 4092 (cd_enc c_super (s\<lparr>su_crc := w\<rparr>)) = take 4092 (cd_enc c_super s)"
    by (simp add: c_super_def c_map_def c_pair_def c_u32_def c_le_def)
  then show ?thesis by (simp add: block_crc_def)
qed

lemma root_wf_crc [simp]: "root_wf (r\<lparr>rt_crc := w\<rparr>) = root_wf r"
  by (simp add: root_wf_def)

lemma super_wf_crc [simp]: "super_wf (s\<lparr>su_crc := w\<rparr>) = super_wf s"
  by (simp add: super_wf_def)

lemma seal_root_ok:
  assumes "root_wf r"
  shows "root_wf (seal_root r)" and "length (cd_enc c_root (seal_root r)) = 4096"
    and "cd_dec c_root (cd_enc c_root (seal_root r)) = seal_root r"
    and "block_crc (cd_enc c_root (seal_root r)) = rt_crc (seal_root r)"
  using assms root.enc_len [of "seal_root r"] root.dec_enc [of "seal_root r"] block_crc_root [of r]
  by (simp_all add: seal_root_def)

lemma seal_super_ok:
  assumes "super_wf s"
  shows "super_wf (seal_super s)" and "length (cd_enc c_super (seal_super s)) = 4096"
    and "cd_dec c_super (cd_enc c_super (seal_super s)) = seal_super s"
    and "block_crc (cd_enc c_super (seal_super s)) = su_crc (seal_super s)"
  using assms super.enc_len [of "seal_super s"] super.dec_enc [of "seal_super s"]
    block_crc_super [of s]
  by (simp_all add: seal_super_def)

section \<open>Strings and names\<close>

definition ch :: "bytes \<Rightarrow> nat \<Rightarrow> u8" where
  "ch s n = (if n < length s then s ! n else 0)"

definition cstr :: "bytes \<Rightarrow> bytes" where
  "cstr s = takeWhile (\<lambda>c. c \<noteq> 0) s"

function str_eq_from :: "bytes \<Rightarrow> bytes \<Rightarrow> nat \<Rightarrow> bool" where
  "str_eq_from a b n =
     (if ch a n \<noteq> 0 \<and> ch a n = ch b n then str_eq_from a b (n + 1) else ch a n = ch b n)"
  by pat_completeness auto
termination
  by (relation "measure (\<lambda>(a, b, n). length a - n)") (auto simp: ch_def split: if_splits)

definition str_eq :: "bytes \<Rightarrow> bytes \<Rightarrow> bool" where
  "str_eq a b = str_eq_from a b 0"

function str_nlen_from :: "bytes \<Rightarrow> nat \<Rightarrow> nat \<Rightarrow> nat" where
  "str_nlen_from s cap n = (if n < cap \<and> ch s n \<noteq> 0 then str_nlen_from s cap (n + 1) else n)"
  by pat_completeness auto
termination
  by (relation "measure (\<lambda>(s, cap, n). cap - n)") auto

definition str_nlen :: "bytes \<Rightarrow> nat \<Rightarrow> nat" where
  "str_nlen s cap = str_nlen_from s cap 0"

text \<open>The destination array of \<open>cap\<close> bytes is overwritten completely.\<close>

definition str_copy :: "nat \<Rightarrow> bytes \<Rightarrow> bytes" where
  "str_copy cap src =
     (let n = str_nlen src (cap - 1) in take n src @ replicate (cap - n) 0)"

definition name_char :: "u8 \<Rightarrow> bool" where
  "name_char c \<longleftrightarrow> (c \<ge> 0x61 \<and> c \<le> 0x7A) \<or> (c \<ge> 0x41 \<and> c \<le> 0x5A) \<or> (c \<ge> 0x30 \<and> c \<le> 0x39)
     \<or> c = 0x2E \<or> c = 0x5F \<or> c = 0x2D \<or> c = 0x2F"

definition pin_char :: "u8 \<Rightarrow> bool" where
  "pin_char c \<longleftrightarrow> (c \<ge> 0x61 \<and> c \<le> 0x7A) \<or> (c \<ge> 0x30 \<and> c \<le> 0x39) \<or> c = 0x5F \<or> c = 0x2D"

definition label_char :: "u8 \<Rightarrow> bool" where
  "label_char c \<longleftrightarrow> \<not> (c \<le> 0x20 \<or> c > 0x7E)"

text \<open>The loop shared by the three name checks: \<open>for (; name[n]; n++) if (n >= max || bad) return 0;\<close>\<close>

function name_scan :: "nat \<Rightarrow> (u8 \<Rightarrow> bool) \<Rightarrow> bytes \<Rightarrow> nat \<Rightarrow> bool" where
  "name_scan mx ok name n =
     (if ch name n \<noteq> 0
      then if n \<ge> mx \<or> \<not> ok (ch name n) then False else name_scan mx ok name (n + 1)
      else n > 0)"
  by pat_completeness auto
termination
  by (relation "measure (\<lambda>(mx, ok, name, n). length name - n)") (auto simp: ch_def split: if_splits)

declare str_eq_from.simps [simp del] str_nlen_from.simps [simp del] name_scan.simps [simp del]

definition st_name_ok :: "bytes \<Rightarrow> bool" where
  "st_name_ok name = name_scan ST_NAME_MAX name_char name 0"

definition st_pin_name_ok :: "bytes \<Rightarrow> bool" where
  "st_pin_name_ok name = name_scan ST_PIN_NAME_MAX pin_char name 0"

definition st_label_ok :: "bytes \<Rightarrow> bool" where
  "st_label_ok label = name_scan ST_LABEL_MAX label_char label 0"

subsection \<open>What the loops compute\<close>

lemma cstr_drop:
  "cstr (drop n s) = (if ch s n = 0 then [] else ch s n # cstr (drop (Suc n) s))"
proof (cases "n < length s")
  case True
  then have "drop n s = s ! n # drop (Suc n) s" by (simp add: Cons_nth_drop_Suc)
  then show ?thesis using True by (simp add: cstr_def ch_def)
qed (simp add: cstr_def ch_def)

lemma str_eq_from_cstr: "str_eq_from a b n = (cstr (drop n a) = cstr (drop n b))"
proof (induction a b n rule: str_eq_from.induct)
  case (1 a b n)
  then show ?case
    by (subst str_eq_from.simps, subst cstr_drop [of n a], subst cstr_drop [of n b]) auto
qed

lemma str_eq_cstr: "str_eq a b = (cstr a = cstr b)"
  by (simp add: str_eq_def str_eq_from_cstr)

lemma str_nlen_from_cstr: "n \<le> cap \<Longrightarrow> str_nlen_from s cap n = n + min (cap - n) (length (cstr (drop n s)))"
proof (induction s cap n rule: str_nlen_from.induct)
  case (1 s cap n)
  then show ?case
    by (subst str_nlen_from.simps, subst cstr_drop [of n s]) auto
qed

lemma str_nlen_cstr: "str_nlen s cap = min cap (length (cstr s))"
  by (simp add: str_nlen_def str_nlen_from_cstr)

lemma name_scan_cstr:
  "name_scan mx ok name n \<longleftrightarrow>
     (cstr (drop n name) = [] \<longrightarrow> 0 < n) \<and> (cstr (drop n name) \<noteq> [] \<longrightarrow> n + length (cstr (drop n name)) \<le> mx)
     \<and> (\<forall>c \<in> set (cstr (drop n name)). ok c)"
proof (induction mx ok name n rule: name_scan.induct)
  case (1 mx ok name n)
  then show ?case
    by (subst name_scan.simps, subst (1 2 3 4) cstr_drop [of n name]) (auto simp: Suc_le_eq)
qed

lemma name_scan_0:
  "name_scan mx ok name 0 \<longleftrightarrow>
     cstr name \<noteq> [] \<and> length (cstr name) \<le> mx \<and> (\<forall>c \<in> set (cstr name). ok c)"
  by (auto simp: name_scan_cstr)

lemmas names_ok_cstr = st_name_ok_def st_pin_name_ok_def st_label_ok_def name_scan_0

lemma cstr_str_copy: "length (cstr src) < cap \<Longrightarrow> cstr (str_copy cap src) = cstr src"
proof -
  assume "length (cstr src) < cap"
  then have n: "str_nlen src (cap - 1) = length (cstr src)" by (simp add: str_nlen_cstr)
  have "take (length (cstr src)) src = cstr src"
    by (simp add: cstr_def takeWhile_eq_take [symmetric])
  then have "str_copy cap src = cstr src @ replicate (cap - length (cstr src)) 0"
    using n by (simp add: str_copy_def Let_def)
  moreover have "\<forall>c \<in> set (cstr src). c \<noteq> 0" by (auto simp: cstr_def dest: set_takeWhileD)
  ultimately show ?thesis
    by (simp add: cstr_def takeWhile_append2 takeWhile_replicate)
qed

lemma length_str_copy [simp]: "0 < cap \<Longrightarrow> length (str_copy cap src) = cap"
proof -
  assume "0 < cap"
  moreover have "length (cstr src) \<le> length src" by (simp add: cstr_def length_takeWhile_le)
  ultimately show ?thesis by (simp add: str_copy_def str_nlen_cstr Let_def)
qed

end
