(* ===== verification/Store.thy ===== *)
theory Store
  imports Store_Format Bitmap
begin

text \<open>
  The block store nxstore (lib/store.c): every operation, over an arbitrary block device. The
  device is the struct of function pointers of store.h: functions on the device's own state
  \<open>'c\<close>, which they return updated; a failing read or write returns None or False. A store value
  carries the device it works on. The scratch areas \<open>tmp\<close>, \<open>buf\<close> and \<open>ext\<close> of struct store are
  values local to the operations, since no operation reads what an earlier one left in them.
\<close>

record 'c st_dev =
  dv_ctx :: 'c
  dv_blocks :: u64
  dv_read :: "'c \<Rightarrow> u64 \<Rightarrow> u32 \<Rightarrow> bytes option \<times> 'c"
  dv_write :: "'c \<Rightarrow> u64 \<Rightarrow> u32 \<Rightarrow> bytes \<Rightarrow> bool \<times> 'c"
  dv_flush :: "'c \<Rightarrow> bool \<times> 'c"

datatype st_error =
    ST_OK | ST_E_IO | ST_E_NOROOT | ST_E_NOSPC | ST_E_OBJFULL | ST_E_NOTFOUND | ST_E_TOOBIG
  | ST_E_NAME | ST_E_CORRUPT | ST_E_PRUNED | ST_E_STATE | ST_E_PINFULL | ST_E_EXISTS
  | ST_E_FORMAT | ST_E_UNKNOWN

datatype st_slot_state =
    ST_SLOT_EMPTY | ST_SLOT_BAD_CRC | ST_SLOT_BAD_HEADER | ST_SLOT_BAD_ROOT | ST_SLOT_BAD_DATA
  | ST_SLOT_CURRENT | ST_SLOT_OLDER

record st_mount_report =
  rp_slot_state :: "st_slot_state list"
  rp_slot_gen :: "u64 list"
  rp_slot :: int
  rp_gen :: u64
  rp_max_gen :: u64
  rp_fallback :: bool
  rp_rejected_gen :: u64
  rp_rejected_state :: st_slot_state
  rp_hist_damaged :: u32

abbreviation ST_TEST_NO_BARRIER :: u32 where "ST_TEST_NO_BARRIER \<equiv> 1"
abbreviation ST_TEST_NO_FINAL_FLUSH :: u32 where "ST_TEST_NO_FINAL_FLUSH \<equiv> 2"
abbreviation ST_TEST_NO_VERIFY :: u32 where "ST_TEST_NO_VERIFY \<equiv> 4"
abbreviation ST_TEST_SAME_SLOT :: u32 where "ST_TEST_SAME_SLOT \<equiv> 8"
abbreviation ST_TEST_IN_PLACE :: u32 where "ST_TEST_IN_PLACE \<equiv> 16"

record 'c store =
  s_dev :: "'c st_dev"
  s_flags :: u32
  s_mounted :: bool
  s_in_tx :: bool
  s_tx_prune :: bool
  s_tx_reserve :: bool
  s_cur_slot :: int
  s_cur_blk :: u32
  s_max_gen :: u64
  s_boot_id :: u64
  s_cur :: st_root
  s_work :: st_root
  s_used :: bytes
  s_txused :: bytes
  s_rep :: st_mount_report
  s_commits :: u64
  s_writes :: u64
  s_flushes :: u64
  s_reads :: u64

definition bit_set :: "bytes \<Rightarrow> nat \<Rightarrow> bytes" where
  "bit_set m b = m[b div 8 := (m ! (b div 8)) OR push_bit (b mod 8) 1]"

definition bit_get :: "bytes \<Rightarrow> nat \<Rightarrow> bool" where
  "bit_get m b = ((drop_bit (b mod 8) (m ! (b div 8))) AND 1 = 1)"

definition st_strerror :: "int \<Rightarrow> string" where
  "st_strerror err =
     (if - 14 \<le> err \<and> err \<le> 0
      then [''ok'', ''io_error'', ''no_valid_root'', ''no_space'', ''object_table_full'', ''not_found'',
            ''too_big'', ''bad_name'', ''corrupt'', ''pruned'', ''bad_state'', ''pin_table_full'',
            ''exists'', ''bad_device_size'', ''outcome_unknown''] ! nat (- err)
      else ''unknown_error'')"

definition st_slot_state_name :: "int \<Rightarrow> string" where
  "st_slot_state_name state =
     (if 0 \<le> state \<and> state \<le> 6
      then [''empty'', ''bad_crc'', ''bad_header'', ''bad_root'', ''bad_data'', ''current'', ''older'']
           ! nat state
      else ''?'')"

section \<open>Device access\<close>

definition set_ctx :: "'c store \<Rightarrow> 'c \<Rightarrow> 'c store" where
  "set_ctx s c = s\<lparr>s_dev := (s_dev s)\<lparr>dv_ctx := c\<rparr>\<rparr>"

definition dev_read :: "'c store \<Rightarrow> u64 \<Rightarrow> u32 \<Rightarrow> st_error \<times> bytes \<times> 'c store" where
  "dev_read s blk n =
     (if blk + ucast n > dv_blocks (s_dev s) \<or> blk + ucast n < blk then (ST_E_CORRUPT, [], s)
      else let s1 = s\<lparr>s_reads := s_reads s + 1\<rparr>;
               (r, c) = dv_read (s_dev s1) (dv_ctx (s_dev s1)) blk n
           in case r of
                Some data \<Rightarrow> (ST_OK, data, set_ctx s1 c)
              | None \<Rightarrow> (ST_E_IO, [], set_ctx s1 c))"

definition dev_write :: "'c store \<Rightarrow> u64 \<Rightarrow> u32 \<Rightarrow> bytes \<Rightarrow> st_error \<times> 'c store" where
  "dev_write s blk n buf =
     (if blk + ucast n > dv_blocks (s_dev s) \<or> blk + ucast n < blk then (ST_E_IO, s)
      else let s1 = s\<lparr>s_writes := s_writes s + 1\<rparr>;
               (ok, c) = dv_write (s_dev s1) (dv_ctx (s_dev s1)) blk n buf
           in (if ok then ST_OK else ST_E_IO, set_ctx s1 c))"

definition dev_flush :: "'c store \<Rightarrow> st_error \<times> 'c store" where
  "dev_flush s =
     (let s1 = s\<lparr>s_flushes := s_flushes s + 1\<rparr>;
          (ok, c) = dv_flush (s_dev s1) (dv_ctx (s_dev s1))
      in (if ok then ST_OK else ST_E_IO, set_ctx s1 c))"

section \<open>Structure checks\<close>

definition nblk_for :: "u32 \<Rightarrow> u32" where
  "nblk_for len = (len + ST_BLOCK - 1) div ST_BLOCK"

definition overlap :: "u32 \<Rightarrow> u32 \<Rightarrow> u32 \<Rightarrow> u32 \<Rightarrow> bool" where
  "overlap a an b bn \<longleftrightarrow> a < b + bn \<and> b < a + an"

definition hist_sane :: "st_root \<Rightarrow> u64 \<Rightarrow> bool" where
  "hist_sane r blocks \<longleftrightarrow> (\<forall>i < unat (rt_nhist r). let h = rt_hist r ! i in
     \<not> (sr_gen h \<ge> (if i \<noteq> 0 then sr_gen (rt_hist r ! (i - 1)) else rt_gen r) \<or> sr_gen h = 0
        \<or> sr_blk h < ST_FIRST_DATA \<or> ucast (sr_blk h) \<ge> blocks))"

definition pin_entry_sane :: "st_root \<Rightarrow> u64 \<Rightarrow> st_pin \<Rightarrow> bool" where
  "pin_entry_sane r blocks p \<longleftrightarrow>
     \<not> (str_nlen (sp_name p) 16 = 16 \<or> \<not> st_pin_name_ok (sp_name p) \<or> sr_gen (sp_ref p) = 0
        \<or> sr_gen (sp_ref p) \<ge> rt_gen r \<or> sr_blk (sp_ref p) < ST_FIRST_DATA
        \<or> ucast (sr_blk (sp_ref p)) \<ge> blocks)"

definition pin_sane :: "st_root \<Rightarrow> u64 \<Rightarrow> bool" where
  "pin_sane r blocks \<longleftrightarrow> (\<forall>i < unat (rt_npin r). pin_entry_sane r blocks (rt_pin r ! i)
     \<and> (\<forall>j < i. \<not> str_eq (sp_name (rt_pin r ! j)) (sp_name (rt_pin r ! i))))"

definition obj_entry_sane :: "st_root \<Rightarrow> u64 \<Rightarrow> st_obj \<Rightarrow> bool" where
  "obj_entry_sane r blocks x \<longleftrightarrow>
     \<not> (str_nlen (so_name x) 28 = 28 \<or> \<not> st_name_ok (so_name x) \<or> so_oid x = 0
        \<or> so_oid x \<ge> rt_next_oid r \<or> so_version x = 0 \<or> so_mod_gen x = 0
        \<or> so_mod_gen x > rt_gen r \<or> so_len x > ST_OBJ_MAX_BYTES
        \<or> ucast (so_nblk x) \<noteq> nblk_for (so_len x))
     \<and> \<not> (if so_nblk x \<noteq> 0
           then so_blk x < ST_FIRST_DATA \<or> (ucast (so_blk x) :: u64) + ucast (so_nblk x) > blocks
           else so_blk x \<noteq> 0)"

definition obj_clash :: "st_obj \<Rightarrow> st_obj \<Rightarrow> bool" where
  "obj_clash p x \<longleftrightarrow> str_eq (so_name p) (so_name x) \<or> so_oid p = so_oid x
     \<or> (so_nblk x \<noteq> 0 \<and> so_nblk p \<noteq> 0
        \<and> overlap (so_blk x) (ucast (so_nblk x)) (so_blk p) (ucast (so_nblk p)))"

definition obj_sane :: "st_root \<Rightarrow> u64 \<Rightarrow> bool" where
  "obj_sane r blocks \<longleftrightarrow> (\<forall>i < unat (rt_nobj r). obj_entry_sane r blocks (rt_obj r ! i)
     \<and> (\<forall>j < i. \<not> obj_clash (rt_obj r ! j) (rt_obj r ! i)))"

definition root_sane :: "st_root \<Rightarrow> u64 \<Rightarrow> bool" where
  "root_sane r blocks \<longleftrightarrow>
     \<not> (rt_magic r \<noteq> ST_ROOT_MAGIC \<or> rt_gen r = 0 \<or> rt_parent_gen r \<ge> rt_gen r
        \<or> rt_nobj r > ST_OBJ_MAX \<or> rt_nhist r > ST_HIST_MAX \<or> rt_npin r > ST_PIN_MAX
        \<or> rt_nlog r = 0 \<or> rt_nlog r > ST_LOG_MAX \<or> sl_gen (rt_log r ! 0) \<noteq> rt_gen r
        \<or> rt_retain r < ST_RETAIN_MIN \<or> rt_retain r > ST_RETAIN_MAX \<or> rt_next_oid r = 0)
     \<and> str_nlen (rt_label r) 16 \<noteq> 16
     \<and> hist_sane r blocks \<and> pin_sane r blocks \<and> obj_sane r blocks"

text \<open>\<open>out\<close> is the struct the caller passes: it is overwritten as soon as the block was read.\<close>

definition load_root ::
    "'c store \<Rightarrow> u32 \<Rightarrow> u64 \<Rightarrow> u32 \<Rightarrow> st_root \<Rightarrow> st_error \<times> st_root \<times> 'c store" where
  "load_root s blk gen crc out =
     (if blk < ST_FIRST_DATA \<or> ucast blk \<ge> dv_blocks (s_dev s) then (ST_E_CORRUPT, out, s)
      else let (st, data, s1) = dev_read s (ucast blk) 1 in
      if st \<noteq> ST_OK then (st, out, s1)
      else let r = cd_dec c_root data; c = block_crc data in
      if c \<noteq> rt_crc r \<or> (crc \<noteq> 0 \<and> c \<noteq> crc) \<or> (gen \<noteq> 0 \<and> rt_gen r \<noteq> gen)
         \<or> \<not> root_sane r (dv_blocks (s_dev s1))
      then (ST_E_CORRUPT, r, s1) else (ST_OK, r, s1))"

definition memcpy_at :: "bytes \<Rightarrow> nat \<Rightarrow> bytes \<Rightarrow> bytes" where
  "memcpy_at dst off src = take off dst @ src @ drop (off + length src) dst"

fun verify_blocks ::
    "'c store \<Rightarrow> st_obj \<Rightarrow> bytes option \<Rightarrow> u32 \<Rightarrow> nat list \<Rightarrow> u32 \<Rightarrow> u32
       \<Rightarrow> st_error \<times> bytes option \<times> 'c store" where
  "verify_blocks s x dst cap [] crc left =
     (if crc = so_crc x then ST_OK else ST_E_CORRUPT, dst, s)"
| "verify_blocks s x dst cap (i # is) crc left =
     (let (st, buf, s1) = dev_read s (ucast (so_blk x) + of_nat i) 1 in
      if st \<noteq> ST_OK then (st, dst, s1)
      else let n = (if left < ST_BLOCK then left else ST_BLOCK);
               off = of_nat i * ST_BLOCK;
               dst1 = (case dst of
                         None \<Rightarrow> None
                       | Some d \<Rightarrow>
                           Some (if off < cap
                                 then memcpy_at d (unat off)
                                        (take (unat (if cap - off < n then cap - off else n)) buf)
                                 else d))
           in verify_blocks s1 x dst1 cap is (nx_crc32_update crc (take (unat n) buf)) (left - n))"

definition verify_extent ::
    "'c store \<Rightarrow> st_obj \<Rightarrow> bytes option \<Rightarrow> u32 \<Rightarrow> st_error \<times> bytes option \<times> 'c store" where
  "verify_extent s x dst cap = verify_blocks s x dst cap [0..<unat (so_nblk x)] 0 (so_len x)"

definition mark_block :: "u64 \<Rightarrow> u64 \<Rightarrow> bytes \<Rightarrow> bytes" where
  "mark_block blocks b m = (if b < blocks then bit_set m (unat b) else m)"

definition mark_obj :: "u64 \<Rightarrow> st_obj \<Rightarrow> bytes \<Rightarrow> bytes" where
  "mark_obj blocks x m =
     fold (\<lambda>b. mark_block blocks (ucast (so_blk x) + of_nat b)) [0..<unat (so_nblk x)] m"

definition mark_root :: "bytes \<Rightarrow> st_root \<Rightarrow> u32 \<Rightarrow> u64 \<Rightarrow> bytes" where
  "mark_root m r blk blocks =
     fold (\<lambda>i. mark_obj blocks (rt_obj r ! i)) [0..<unat (rt_nobj r)] (mark_block blocks (ucast blk) m)"

definition kept_ref :: "st_root \<Rightarrow> nat \<Rightarrow> st_ref" where
  "kept_ref r i = (if i < unat (rt_nhist r) then rt_hist r ! i
                   else sp_ref (rt_pin r ! (i - unat (rt_nhist r))))"

definition mark_ref :: "nat \<Rightarrow> 'c store \<times> u32 \<Rightarrow> 'c store \<times> u32" where
  "mark_ref i sd = (case sd of (s, damaged) \<Rightarrow>
     (let ref = kept_ref (s_cur s) i;
          s1 = s\<lparr>s_used := mark_block (dv_blocks (s_dev s)) (ucast (sr_blk ref)) (s_used s)\<rparr>;
          (st, tmp, s2) = load_root s1 (sr_blk ref) (sr_gen ref) (sr_crc ref) (s_cur s)
      in if st \<noteq> ST_OK then (s2, damaged + 1)
         else (s2\<lparr>s_used := mark_root (s_used s2) tmp (sr_blk ref) (dv_blocks (s_dev s2))\<rparr>,
               damaged)))"

definition recompute_used :: "'c store \<Rightarrow> u32 \<times> 'c store" where
  "recompute_used s =
     (let m0 = bit_set (bit_set (replicate 4096 0) 0) 1;
          s1 = s\<lparr>s_used := mark_root m0 (s_cur s) (s_cur_blk s) (dv_blocks (s_dev s))\<rparr>;
          (s2, damaged) = fold mark_ref [0..<unat (rt_nhist (s_cur s) + rt_npin (s_cur s))] (s1, 0)
      in (damaged, s2))"

definition st_free_blocks :: "'c store \<Rightarrow> u32" where
  "st_free_blocks s =
     of_nat (length (filter (\<lambda>b. \<not> bit_get (s_used s) b) [2..<unat (dv_blocks (s_dev s))]))"

definition blk_free :: "'c store \<Rightarrow> nat \<Rightarrow> bool" where
  "blk_free s b \<longleftrightarrow> \<not> bit_get (s_txused s) b
     \<and> (s_flags s AND ST_TEST_IN_PLACE \<noteq> 0 \<or> \<not> bit_get (s_used s) b)"

fun find_run :: "(nat \<Rightarrow> bool) \<Rightarrow> nat \<Rightarrow> nat list \<Rightarrow> nat \<Rightarrow> nat option" where
  "find_run free n [] run = None"
| "find_run free n (b # bs) run =
     (let run1 = (if free b then run + 1 else 0)
      in if run1 = n then Some (b + 1 - n) else find_run free n bs run1)"

definition alloc :: "'c store \<Rightarrow> u32 \<Rightarrow> bool \<Rightarrow> u32 \<times> 'c store" where
  "alloc s n reserve_ok =
     (let data = [2..<unat (dv_blocks (s_dev s))];
          free_total = length (filter (blk_free s) data)
      in if free_total < unat n \<or> (\<not> reserve_ok \<and> free_total - unat n < ST_RESERVE_BLOCKS)
         then (0, s)
         else case find_run (blk_free s) (unat n) data 0 of
                None \<Rightarrow> (0, s)
              | Some first \<Rightarrow>
                  (of_nat first,
                   s\<lparr>s_txused := fold (\<lambda>i m. bit_set m (first + i)) [0..<unat n] (s_txused s)\<rparr>))"

section \<open>Format and mount\<close>

definition ref_zero :: st_ref where
  "ref_zero = \<lparr>sr_gen = 0, sr_blk = 0, sr_crc = 0\<rparr>"

definition pin_zero :: st_pin where
  "pin_zero = \<lparr>sp_name = replicate 16 0, sp_ref = ref_zero\<rparr>"

definition log_zero :: st_log where
  "log_zero = \<lparr>sl_gen = 0, sl_boot_id = 0, sl_label = replicate 16 0\<rparr>"

definition obj_zero :: st_obj where
  "obj_zero = \<lparr>so_oid = 0, so_mod_gen = 0, so_version = 0, so_blk = 0, so_len = 0, so_crc = 0,
     so_kind = 0, so_nblk = 0, so_name = replicate 28 0\<rparr>"

definition root_zero :: st_root where
  "root_zero = \<lparr>rt_magic = replicate 8 0, rt_gen = 0, rt_parent_gen = 0, rt_store_id = 0,
     rt_next_oid = 0, rt_boot_id = 0, rt_nobj = 0, rt_nhist = 0, rt_npin = 0, rt_nlog = 0,
     rt_retain = 0, rt_flags = 0, rt_label = replicate 16 0, rt_reserved = replicate 40 0,
     rt_hist = replicate 8 ref_zero, rt_pin = replicate 4 pin_zero,
     rt_log = replicate 16 log_zero, rt_obj = replicate 49 obj_zero, rt_pad = replicate 60 0,
     rt_crc = 0\<rparr>"

definition rep_zero :: st_mount_report where
  "rep_zero = \<lparr>rp_slot_state = [ST_SLOT_EMPTY, ST_SLOT_EMPTY], rp_slot_gen = [0, 0], rp_slot = 0,
     rp_gen = 0, rp_max_gen = 0, rp_fallback = False, rp_rejected_gen = 0,
     rp_rejected_state = ST_SLOT_EMPTY, rp_hist_damaged = 0\<rparr>"

text \<open>\<open>memset(s, 0, sizeof(*s)); s->dev = *dev;\<close>\<close>

definition store_zero :: "'c st_dev \<Rightarrow> 'c store" where
  "store_zero dev = \<lparr>s_dev = dev, s_flags = 0, s_mounted = False, s_in_tx = False,
     s_tx_prune = False, s_tx_reserve = False, s_cur_slot = 0, s_cur_blk = 0, s_max_gen = 0,
     s_boot_id = 0, s_cur = root_zero, s_work = root_zero, s_used = replicate 4096 0,
     s_txused = replicate 4096 0, s_rep = rep_zero, s_commits = 0, s_writes = 0, s_flushes = 0,
     s_reads = 0\<rparr>"

definition make_super :: "st_root \<Rightarrow> u32 \<Rightarrow> u64 \<Rightarrow> st_super" where
  "make_super r root_blk blocks = seal_super \<lparr>su_magic = ST_SUPER_MAGIC, su_version = ST_VERSION,
     su_block_size = ST_BLOCK, su_block_count = blocks, su_store_id = rt_store_id r,
     su_gen = rt_gen r, su_root_blk = root_blk, su_root_crc = rt_crc r, su_retain = rt_retain r,
     su_reserved0 = 0, su_boot_id = rt_boot_id r, su_zero = replicate 4028 0, su_crc = 0\<rparr>"

definition str_format :: bytes where
  "str_format = [0x66, 0x6F, 0x72, 0x6D, 0x61, 0x74]"

definition format_root :: "u64 \<Rightarrow> u32 \<Rightarrow> u64 \<Rightarrow> st_root" where
  "format_root store_id retain boot_id = seal_root (root_zero\<lparr>
     rt_magic := ST_ROOT_MAGIC, rt_gen := 1, rt_store_id := store_id, rt_next_oid := 1,
     rt_boot_id := boot_id, rt_retain := retain, rt_nlog := 1,
     rt_log := (rt_log root_zero)[0 := \<lparr>sl_gen = 1, sl_boot_id = boot_id,
                                         sl_label = str_copy 16 str_format\<rparr>],
     rt_label := str_copy 16 str_format\<rparr>)"

definition st_format ::
    "'c st_dev \<Rightarrow> u64 \<Rightarrow> u32 \<Rightarrow> u64 \<Rightarrow> st_error \<times> 'c store" where
  "st_format dev store_id retain boot_id =
     (let s = store_zero dev in
      if dv_blocks dev < ST_MIN_BLOCKS \<or> dv_blocks dev > ST_MAX_BLOCKS then (ST_E_FORMAT, s)
      else if retain < ST_RETAIN_MIN \<or> retain > ST_RETAIN_MAX then (ST_E_FORMAT, s)
      else let r = format_root store_id retain boot_id;
               s0 = s\<lparr>s_work := r\<rparr>;
               sb = make_super r ST_FIRST_DATA (dv_blocks dev);
               (st1, s1) = dev_write s0 ST_FIRST_DATA 1 (cd_enc c_root r);
               (st2, s2) = (if st1 = ST_OK then dev_write s1 1 1 (replicate 4096 0) else (st1, s1));
               (st3, s3) = (if st2 = ST_OK then dev_flush s2 else (st2, s2));
               (st4, s4) = (if st3 = ST_OK then dev_write s3 0 1 (cd_enc c_super sb) else (st3, s3))
           in if st4 = ST_OK then dev_flush s4 else (st4, s4))"

record slot_info =
  si_state :: st_slot_state
  si_gen :: u64
  si_store_id :: u64
  si_blocks :: u64
  si_root_blk :: u32
  si_root_crc :: u32

definition slot_zero :: slot_info where
  "slot_zero = \<lparr>si_state = ST_SLOT_EMPTY, si_gen = 0, si_store_id = 0, si_blocks = 0,
     si_root_blk = 0, si_root_crc = 0\<rparr>"

text \<open>\<open>slot_of\<close> is \<open>read_slot\<close> after the block \<open>data\<close> has been read.\<close>

definition slot_of :: "bytes \<Rightarrow> u64 \<Rightarrow> slot_info" where
  "slot_of data dev_blocks =
     (let sb = cd_dec c_super data in
      if su_magic sb \<noteq> ST_SUPER_MAGIC then slot_zero
      else if block_crc data \<noteq> su_crc sb then slot_zero\<lparr>si_state := ST_SLOT_BAD_CRC\<rparr>
      else let si = \<lparr>si_state = ST_SLOT_EMPTY, si_gen = su_gen sb, si_store_id = su_store_id sb,
                      si_blocks = su_block_count sb, si_root_blk = su_root_blk sb,
                      si_root_crc = su_root_crc sb\<rparr>
           in if su_version sb \<noteq> ST_VERSION \<or> su_block_size sb \<noteq> ST_BLOCK \<or> su_gen sb = 0
                 \<or> su_block_count sb < ST_MIN_BLOCKS \<or> su_block_count sb > dev_blocks
              then si\<lparr>si_state := ST_SLOT_BAD_HEADER\<rparr>
              else si\<lparr>si_state := ST_SLOT_OLDER\<rparr>)"

definition read_slot :: "'c store \<Rightarrow> u64 \<Rightarrow> slot_info \<times> 'c store" where
  "read_slot s slot =
     (let (r, c) = dv_read (s_dev s) (dv_ctx (s_dev s)) slot 1;
          s1 = set_ctx s c
      in case r of
           None \<Rightarrow> (slot_zero\<lparr>si_state := ST_SLOT_BAD_CRC\<rparr>, s1)
         | Some data \<Rightarrow> (slot_of data (dv_blocks (s_dev s1)), s1\<lparr>s_reads := s_reads s1 + 1\<rparr>))"

definition set_blocks :: "'c store \<Rightarrow> u64 \<Rightarrow> 'c store" where
  "set_blocks s n = s\<lparr>s_dev := (s_dev s)\<lparr>dv_blocks := n\<rparr>\<rparr>"

fun verify_objs :: "'c store \<Rightarrow> st_obj list \<Rightarrow> bool \<times> 'c store" where
  "verify_objs s [] = (True, s)"
| "verify_objs s (x # xs) =
     (let (st, d, s1) = verify_extent s x None 0
      in if st \<noteq> ST_OK then (False, s1) else verify_objs s1 xs)"

definition try_slot :: "'c store \<Rightarrow> slot_info \<Rightarrow> st_slot_state \<times> 'c store" where
  "try_slot s0 si =
     (let saved_blocks = dv_blocks (s_dev s0);
          s = set_blocks s0 (si_blocks si) in
      if s_flags s AND ST_TEST_NO_VERIFY \<noteq> 0 then
        (if si_root_blk si < ST_FIRST_DATA \<or> ucast (si_root_blk si) \<ge> dv_blocks (s_dev s)
         then (ST_SLOT_BAD_ROOT, set_blocks s saved_blocks)
         else let (st, data, s1) = dev_read s (ucast (si_root_blk si)) 1 in
         if st \<noteq> ST_OK then (ST_SLOT_BAD_ROOT, set_blocks s1 saved_blocks)
         else (ST_SLOT_CURRENT, s1\<lparr>s_cur := cd_dec c_root data\<rparr>))
      else let (st, r, s1) = load_root s (si_root_blk si) (si_gen si) (si_root_crc si) (s_cur s);
               s2 = s1\<lparr>s_cur := r\<rparr> in
      if st \<noteq> ST_OK \<or> rt_store_id r \<noteq> si_store_id si
      then (ST_SLOT_BAD_ROOT, set_blocks s2 saved_blocks)
      else let (ok, s3) = verify_objs s2 (take (unat (rt_nobj r)) (rt_obj r)) in
      if \<not> ok then (ST_SLOT_BAD_DATA, set_blocks s3 saved_blocks) else (ST_SLOT_CURRENT, s3))"

text \<open>The state of the loop over the two slots, newest candidate first.\<close>

record 'c mount_loop =
  ml_s :: "'c store"
  ml_si :: "slot_info list"
  ml_mounted :: int

definition mount_try :: "nat \<Rightarrow> 'c mount_loop \<Rightarrow> 'c mount_loop" where
  "mount_try i l =
     (if si_state (ml_si l ! i) \<noteq> ST_SLOT_OLDER then l
      else if ml_mounted l \<ge> 0 then l
      else let (st, s1) = try_slot (ml_s l) (ml_si l ! i);
               sis = (ml_si l)[i := (ml_si l ! i)\<lparr>si_state := st\<rparr>]
           in if st = ST_SLOT_CURRENT then \<lparr>ml_s = s1, ml_si = sis, ml_mounted = int i\<rparr>
              else \<lparr>ml_s = (if rp_fallback (s_rep s1) then s1
                             else s1\<lparr>s_rep := (s_rep s1)\<lparr>rp_fallback := True,
                                     rp_rejected_gen := si_gen (ml_si l ! i),
                                     rp_rejected_state := st\<rparr>\<rparr>),
                    ml_si = sis, ml_mounted = ml_mounted l\<rparr>)"

definition note_slot :: "nat \<Rightarrow> slot_info \<Rightarrow> 'c store \<Rightarrow> 'c store" where
  "note_slot i si s =
     (if si_state si = ST_SLOT_OLDER \<or> si_state si = ST_SLOT_BAD_HEADER
      then s\<lparr>s_rep := (s_rep s)\<lparr>rp_slot_gen := (rp_slot_gen (s_rep s))[i := si_gen si]\<rparr>,
             s_max_gen := (if si_gen si > s_max_gen s then si_gen si else s_max_gen s)\<rparr>
      else s)"

definition mount_order :: "slot_info \<Rightarrow> slot_info \<Rightarrow> nat \<times> nat" where
  "mount_order a b =
     (if si_state b = ST_SLOT_OLDER \<and> (si_state a \<noteq> ST_SLOT_OLDER \<or> si_gen b > si_gen a)
      then (1, 0) else (0, 1))"

definition mount_finish :: "'c mount_loop \<Rightarrow> st_error \<times> 'c store" where
  "mount_finish l =
     (let s = ml_s l;
          s1 = s\<lparr>s_rep := (s_rep s)\<lparr>rp_slot_state := map si_state (ml_si l),
                                  rp_max_gen := s_max_gen s\<rparr>\<rparr> in
      if ml_mounted l < 0 then (ST_E_NOROOT, s1\<lparr>s_rep := (s_rep s1)\<lparr>rp_slot := - 1\<rparr>\<rparr>)
      else let m = ml_mounted l;
               s2 = (if rp_fallback (s_rep s1) \<and> rp_rejected_gen (s_rep s1) < rt_gen (s_cur s1)
                     then s1\<lparr>s_rep := (s_rep s1)\<lparr>rp_fallback := False\<rparr>\<rparr> else s1);
               s3 = s2\<lparr>s_cur_slot := m, s_cur_blk := si_root_blk (ml_si l ! nat m),
                       s_rep := (s_rep s2)\<lparr>rp_slot := m, rp_gen := rt_gen (s_cur s2)\<rparr>\<rparr>;
               (damaged, s4) = recompute_used s3
           in (ST_OK, s4\<lparr>s_rep := (s_rep s4)\<lparr>rp_hist_damaged := damaged\<rparr>, s_mounted := True\<rparr>))"

definition st_mount :: "'c st_dev \<Rightarrow> u64 \<Rightarrow> u32 \<Rightarrow> st_error \<times> 'c store" where
  "st_mount dev boot_id flags =
     (let s = (store_zero dev)\<lparr>s_flags := flags, s_boot_id := boot_id\<rparr> in
      if dv_blocks dev < ST_MIN_BLOCKS then (ST_E_FORMAT, s)
      else let s0 = (if dv_blocks (s_dev s) > ST_MAX_BLOCKS then set_blocks s ST_MAX_BLOCKS else s);
               (a, s1) = read_slot s0 0; s2 = note_slot 0 a s1;
               (b, s3) = read_slot s2 1; s4 = note_slot 1 b s3;
               (i, j) = mount_order a b
           in mount_finish (mount_try j (mount_try i \<lparr>ml_s = s4, ml_si = [a, b], ml_mounted = - 1\<rparr>)))"

section \<open>Transactions\<close>

definition st_next_gen :: "'c store \<Rightarrow> u64" where
  "st_next_gen s = s_max_gen s + 1"

definition st_begin :: "'c store \<Rightarrow> st_error \<times> 'c store" where
  "st_begin s =
     (if \<not> s_mounted s \<or> s_in_tx s then (ST_E_STATE, s)
      else (ST_OK, s\<lparr>s_work := s_cur s, s_txused := replicate 4096 0, s_tx_prune := False,
                     s_tx_reserve := False, s_in_tx := True\<rparr>))"

definition st_abort :: "'c store \<Rightarrow> 'c store" where
  "st_abort s = s\<lparr>s_in_tx := False, s_tx_prune := False, s_tx_reserve := False,
                  s_txused := replicate 4096 0\<rparr>"

definition find_index :: "st_root \<Rightarrow> bytes \<Rightarrow> nat option" where
  "find_index r name = List.find (\<lambda>i. str_eq (so_name (rt_obj r ! i)) name) [0..<unat (rt_nobj r)]"

definition st_find :: "st_root \<Rightarrow> bytes \<Rightarrow> st_obj option" where
  "st_find r name = (case find_index r name of None \<Rightarrow> None | Some i \<Rightarrow> Some (rt_obj r ! i))"

text \<open>The data blocks of an object: the whole blocks in one write, then the zero-padded rest.\<close>

definition put_data :: "'c store \<Rightarrow> u32 \<Rightarrow> u32 \<Rightarrow> bytes \<Rightarrow> u32 \<Rightarrow> st_error \<times> 'c store" where
  "put_data s blk nblk data len =
     (let full = len div ST_BLOCK;
          (st1, s1) = (if full \<noteq> 0
                       then dev_write s (ucast blk) full (take (unat full * ST_BLOCK) data)
                       else (ST_OK, s))
      in if st1 = ST_OK \<and> full < nblk
         then let rest = take (unat (len - full * ST_BLOCK)) (drop (unat full * ST_BLOCK) data)
              in dev_write s1 (ucast blk + ucast full) 1 (rest @ replicate (ST_BLOCK - length rest) 0)
         else (st1, s1))"

definition put_record ::
    "'c store \<Rightarrow> nat option \<Rightarrow> bytes \<Rightarrow> u16 \<Rightarrow> u32 \<Rightarrow> u32 \<Rightarrow> bytes \<Rightarrow> u32 \<Rightarrow> 'c store" where
  "put_record s idx name kind blk nblk data len =
     (let w = s_work s;
          (i, x, w1) =
            (case idx of
               None \<Rightarrow> (unat (rt_nobj w),
                        obj_zero\<lparr>so_oid := rt_next_oid w, so_version := 1, so_name := str_copy 28 name\<rparr>,
                        w\<lparr>rt_nobj := rt_nobj w + 1, rt_next_oid := rt_next_oid w + 1\<rparr>)
             | Some i \<Rightarrow> (i, (rt_obj w ! i)\<lparr>so_version := so_version (rt_obj w ! i) + 1\<rparr>, w));
          x1 = x\<lparr>so_mod_gen := st_next_gen s, so_kind := kind, so_blk := blk, so_nblk := ucast nblk,
                 so_len := len, so_crc := nx_crc32 (take (unat len) data)\<rparr>
      in s\<lparr>s_work := w1\<lparr>rt_obj := (rt_obj w1)[i := x1]\<rparr>\<rparr>)"

definition st_put :: "'c store \<Rightarrow> bytes \<Rightarrow> u16 \<Rightarrow> bytes \<Rightarrow> u32 \<Rightarrow> st_error \<times> 'c store" where
  "st_put s name kind data len =
     (if \<not> s_mounted s \<or> \<not> s_in_tx s then (ST_E_STATE, s)
      else if \<not> st_name_ok name then (ST_E_NAME, s)
      else if len > ST_OBJ_MAX_BYTES then (ST_E_TOOBIG, s)
      else let idx = find_index (s_work s) name in
      if idx = None \<and> rt_nobj (s_work s) = ST_OBJ_MAX then (ST_E_OBJFULL, s)
      else let nblk = nblk_for len in
      if nblk \<noteq> 0 then
        (let (blk, s1) = alloc s nblk (s_tx_reserve s) in
         if blk = 0 then (ST_E_NOSPC, s1)
         else let (st, s2) = put_data s1 blk nblk data len in
         if st \<noteq> ST_OK then (st, s2)
         else (ST_OK, put_record s2 idx name kind blk nblk data len))
      else (ST_OK, put_record s idx name kind 0 nblk data len))"

definition st_del :: "'c store \<Rightarrow> bytes \<Rightarrow> st_error \<times> 'c store" where
  "st_del s name =
     (if \<not> s_mounted s \<or> \<not> s_in_tx s then (ST_E_STATE, s)
      else let w = s_work s in
      case find_index w name of
        None \<Rightarrow> (ST_E_NOTFOUND, s)
      | Some idx \<Rightarrow>
          (let n = unat (rt_nobj w);
               shifted = fold (\<lambda>i os. os[i := os ! (i + 1)]) [idx..<n - 1] (rt_obj w)
           in (ST_OK, s\<lparr>s_work := w\<lparr>rt_obj := shifted[n - 1 := obj_zero],
                                     rt_nobj := rt_nobj w - 1\<rparr>\<rparr>)))"

definition find_ref :: "'c store \<Rightarrow> u64 \<Rightarrow> st_ref option" where
  "find_ref s gen =
     (if gen = rt_gen (s_cur s)
      then Some \<lparr>sr_gen = rt_gen (s_cur s), sr_blk = s_cur_blk s, sr_crc = rt_crc (s_cur s)\<rparr>
      else case List.find (\<lambda>h. sr_gen h = gen) (take (unat (rt_nhist (s_cur s))) (rt_hist (s_cur s))) of
             Some h \<Rightarrow> Some h
           | None \<Rightarrow>
               (case List.find (\<lambda>p. sr_gen (sp_ref p) = gen)
                       (take (unat (rt_npin (s_cur s))) (rt_pin (s_cur s))) of
                  Some p \<Rightarrow> Some (sp_ref p)
                | None \<Rightarrow> None))"

definition st_is_retained :: "'c store \<Rightarrow> u64 \<Rightarrow> bool" where
  "st_is_retained s gen \<longleftrightarrow> s_mounted s \<and> find_ref s gen \<noteq> None"

definition pin_index :: "st_root \<Rightarrow> bytes \<Rightarrow> nat option" where
  "pin_index w pin = List.find (\<lambda>i. str_eq (sp_name (rt_pin w ! i)) pin) [0..<unat (rt_npin w)]"

definition st_pin :: "'c store \<Rightarrow> bytes \<Rightarrow> u64 \<Rightarrow> st_error \<times> 'c store" where
  "st_pin s pin gen =
     (if \<not> s_mounted s \<or> \<not> s_in_tx s then (ST_E_STATE, s)
      else if \<not> st_pin_name_ok pin then (ST_E_NAME, s)
      else let w = s_work s in
      if pin_index w pin \<noteq> None then (ST_E_EXISTS, s)
      else if rt_npin w = ST_PIN_MAX then (ST_E_PINFULL, s)
      else case find_ref s gen of
             None \<Rightarrow> (ST_E_PRUNED, s)
           | Some ref \<Rightarrow>
               (ST_OK, s\<lparr>s_work := w\<lparr>
                  rt_pin := (rt_pin w)[unat (rt_npin w) := \<lparr>sp_name = str_copy 16 pin, sp_ref = ref\<rparr>],
                  rt_npin := rt_npin w + 1\<rparr>\<rparr>))"

definition st_unpin :: "'c store \<Rightarrow> bytes \<Rightarrow> st_error \<times> 'c store" where
  "st_unpin s pin =
     (if \<not> s_mounted s \<or> \<not> s_in_tx s then (ST_E_STATE, s)
      else let w = s_work s in
      case pin_index w pin of
        None \<Rightarrow> (ST_E_NOTFOUND, s)
      | Some idx \<Rightarrow>
          (let n = unat (rt_npin w);
               shifted = fold (\<lambda>i ps. ps[i := ps ! (i + 1)]) [idx..<n - 1] (rt_pin w)
           in (ST_OK, s\<lparr>s_work := w\<lparr>rt_pin := shifted[n - 1 := pin_zero],
                                     rt_npin := rt_npin w - 1\<rparr>\<rparr>)))"

definition st_prune :: "'c store \<Rightarrow> 'c store" where
  "st_prune s = (if s_in_tx s then s\<lparr>s_tx_prune := True\<rparr> else s)"

definition st_allow_reserve :: "'c store \<Rightarrow> 'c store" where
  "st_allow_reserve s = (if s_in_tx s then s\<lparr>s_tx_reserve := True\<rparr> else s)"

text \<open>
  The history and log of a new root: entry 0 is the current generation (this commit), the rest
  is copied from the current root while there is room.
\<close>

definition commit_hist :: "'c store \<Rightarrow> st_ref list \<times> u32" where
  "commit_hist s =
     (let keep = (if s_tx_prune s then ST_RETAIN_MIN else rt_retain (s_cur s)) - 1
      in fold (\<lambda>i (h, n). if n < keep then (h[unat n := rt_hist (s_cur s) ! i], n + 1) else (h, n))
           [0..<unat (rt_nhist (s_cur s))]
           ((replicate 8 ref_zero)[0 := \<lparr>sr_gen = rt_gen (s_cur s), sr_blk = s_cur_blk s,
                                         sr_crc = rt_crc (s_cur s)\<rparr>], 1))"

definition commit_log :: "'c store \<Rightarrow> u64 \<Rightarrow> bytes \<Rightarrow> st_log list \<times> u32" where
  "commit_log s gen label =
     fold (\<lambda>i (l, n). if n < ST_LOG_MAX then (l[unat n := rt_log (s_cur s) ! i], n + 1) else (l, n))
       [0..<unat (rt_nlog (s_cur s))]
       ((replicate 16 log_zero)[0 := \<lparr>sl_gen = gen, sl_boot_id = s_boot_id s,
                                      sl_label = str_copy 16 label\<rparr>], 1)"

definition commit_root :: "'c store \<Rightarrow> bytes \<Rightarrow> st_root" where
  "commit_root s label =
     (let gen = st_next_gen s;
          (hist, nhist) = commit_hist s;
          (log, nlog) = commit_log s gen label
      in (s_work s)\<lparr>rt_gen := gen, rt_parent_gen := rt_gen (s_cur s), rt_boot_id := s_boot_id s,
           rt_flags := 0, rt_label := str_copy 16 label, rt_hist := hist, rt_nhist := nhist,
           rt_log := log, rt_nlog := nlog\<rparr>)"

definition st_commit :: "'c store \<Rightarrow> bytes \<Rightarrow> st_error \<times> u64 option \<times> 'c store" where
  "st_commit s label =
     (if \<not> s_mounted s \<or> \<not> s_in_tx s then (ST_E_STATE, None, s)
      else if \<not> st_label_ok label then (ST_E_NAME, None, st_abort s)
      else let gen = st_next_gen s;
               s0 = s\<lparr>s_work := commit_root s label\<rparr>;
               (blk, s1) = alloc s0 1 True in
      if blk = 0 then (ST_E_NOSPC, None, st_abort s1)
      else let w = seal_root (s_work s1);
               s2 = s1\<lparr>s_work := w\<rparr>;
               (st1, s3) = dev_write s2 (ucast blk) 1 (cd_enc c_root w);
               (st2, s4) = (if st1 = ST_OK \<and> s_flags s3 AND ST_TEST_NO_BARRIER = 0
                            then dev_flush s3 else (st1, s3)) in
      if st2 \<noteq> ST_OK then (ST_E_IO, None, st_abort s4)
      else let sb = make_super w blk (dv_blocks (s_dev s4));
               slot = (if s_flags s4 AND ST_TEST_SAME_SLOT \<noteq> 0 then 0 else 1 - s_cur_slot s4);
               (st3, s5) = dev_write s4 (of_int slot) 1 (cd_enc c_super sb);
               (st4, s6) = (if st3 = ST_OK \<and> s_flags s5 AND ST_TEST_NO_FINAL_FLUSH = 0
                            then dev_flush s5 else (st3, s5)) in
      if st4 \<noteq> ST_OK then (ST_E_UNKNOWN, None, (st_abort s6)\<lparr>s_mounted := False\<rparr>)
      else let s7 = s6\<lparr>s_cur := w, s_cur_blk := blk, s_cur_slot := slot, s_max_gen := gen,
                      s_in_tx := False, s_tx_prune := False, s_tx_reserve := False,
                      s_commits := s_commits s6 + 1, s_txused := replicate 4096 0\<rparr>;
               (damaged, s8) = recompute_used s7
           in (ST_OK, Some gen, s8))"

section \<open>Reading\<close>

definition st_root_of :: "'c store \<Rightarrow> u64 \<Rightarrow> st_root \<Rightarrow> st_error \<times> st_root \<times> 'c store" where
  "st_root_of s gen out =
     (if \<not> s_mounted s then (ST_E_STATE, out, s)
      else case find_ref s gen of
             None \<Rightarrow> (ST_E_PRUNED, out, s)
           | Some ref \<Rightarrow>
               (if gen = rt_gen (s_cur s) then (ST_OK, s_cur s, s)
                else load_root s (sr_blk ref) (sr_gen ref) (sr_crc ref) out))"

text \<open>
  \<open>st_read\<close> returns the status, the caller's buffer, and the values written through \<open>len\<close> and
  \<open>meta\<close> when those are reached.
\<close>

definition st_read ::
    "'c store \<Rightarrow> u64 \<Rightarrow> bytes \<Rightarrow> bytes \<Rightarrow> u32
       \<Rightarrow> st_error \<times> bytes \<times> u32 option \<times> st_obj option \<times> 'c store" where
  "st_read s gen name buf cap =
     (if \<not> s_mounted s then (ST_E_STATE, buf, None, None, s)
      else let (st, r, s1) = (if gen \<noteq> 0 \<and> gen \<noteq> rt_gen (s_cur s) then st_root_of s gen root_zero
                              else (ST_OK, s_cur s, s)) in
      if st \<noteq> ST_OK then (st, buf, None, None, s1)
      else case st_find r name of
             None \<Rightarrow> (ST_E_NOTFOUND, buf, None, None, s1)
           | Some x \<Rightarrow>
               (if so_len x > cap then (ST_E_TOOBIG, buf, Some (so_len x), Some x, s1)
                else let (st2, d, s2) = verify_extent s1 x (Some buf) cap
                     in (st2, case d of None \<Rightarrow> buf | Some b \<Rightarrow> b, Some (so_len x), Some x, s2)))"

end
