(* ===== verification/Store_Disk.thy ===== *)
theory Store_Disk
  imports Store
begin

text \<open>
  The block device of store.h as the store has to expect it: a write-back cache that persists
  unflushed writes in any order or not at all, may fail any operation, and may lose power at any
  moment. \<open>dk_log\<close> holds the writes since they were last settled, newest first, each with a flag
  that says whether the device accepted it; a failed write may or may not reach the medium, and
  a failed flush leaves the fate of every write before it open. The \<open>dk_plan\<close> decides which
  operations fail; a device that dies is a plan that fails everything from some point on, so a
  theorem for all plans covers a crash before, between and after any two device operations.
\<close>

datatype dev_outcome = Works nat | Fails

type_synonym disk_log = "(nat \<times> bytes \<times> bool) list"

record disk =
  dk_dur :: "nat \<Rightarrow> bytes"
  dk_log :: disk_log
  dk_plan :: "dev_outcome list"

definition next_outcome :: "disk \<Rightarrow> dev_outcome \<times> disk" where
  "next_outcome d = (case dk_plan d of
     [] \<Rightarrow> (Works 0, d) | w # ws \<Rightarrow> (w, d\<lparr>dk_plan := ws\<rparr>))"

text \<open>
  What a read returns: the newest write if it was accepted; otherwise the medium or any write of
  unknown fate, as the plan says.
\<close>

definition disk_view :: "disk \<Rightarrow> nat \<Rightarrow> nat \<Rightarrow> bytes" where
  "disk_view d k b =
     (case map_of (dk_log d) b of
        Some (c, True) \<Rightarrow> c
      | _ \<Rightarrow> let cands = dk_dur d b # map (fst \<circ> snd) (filter (\<lambda>w. fst w = b) (dk_log d))
             in cands ! (k mod length cands))"

definition disk_read :: "disk \<Rightarrow> u64 \<Rightarrow> u32 \<Rightarrow> bytes option \<times> disk" where
  "disk_read d blk n = (case next_outcome d of
     (Fails, d1) \<Rightarrow> (None, d1)
   | (Works k, d1) \<Rightarrow> (Some (concat (map (\<lambda>i. disk_view d k (unat blk + i)) [0..<unat n])), d1))"

definition write_entries :: "bool \<Rightarrow> nat \<Rightarrow> nat \<Rightarrow> bytes \<Rightarrow> disk_log" where
  "write_entries acc blk n buf =
     map (\<lambda>i. (blk + i, take ST_BLOCK (drop (i * ST_BLOCK) buf), acc)) [0..<n]"

definition disk_write :: "disk \<Rightarrow> u64 \<Rightarrow> u32 \<Rightarrow> bytes \<Rightarrow> bool \<times> disk" where
  "disk_write d blk n buf = (case next_outcome d of
     (Fails, d1) \<Rightarrow> (False, d1\<lparr>dk_log := write_entries False (unat blk) (unat n) buf @ dk_log d1\<rparr>)
   | (Works k, d1) \<Rightarrow> (True, d1\<lparr>dk_log := write_entries True (unat blk) (unat n) buf @ dk_log d1\<rparr>))"

fun settled :: "disk_log \<Rightarrow> nat \<Rightarrow> bytes option" where
  "settled [] b = None"
| "settled ((b', c, acc) # l) b = (if b' = b \<and> acc then Some c else settled l b)"

fun unsettled :: "disk_log \<Rightarrow> nat set \<Rightarrow> disk_log" where
  "unsettled [] seen = []"
| "unsettled ((b, c, acc) # l) seen =
     (if b \<in> seen then unsettled l seen
      else if acc then unsettled l (insert b seen)
      else (b, c, acc) # unsettled l seen)"

definition disk_flush :: "disk \<Rightarrow> bool \<times> disk" where
  "disk_flush d = (case next_outcome d of
     (Fails, d1) \<Rightarrow> (False, d1\<lparr>dk_log := map (\<lambda>(b, c, acc). (b, c, False)) (dk_log d1)\<rparr>)
   | (Works k, d1) \<Rightarrow>
       (True, d1\<lparr>dk_dur := (\<lambda>b. case settled (dk_log d1) b of Some c \<Rightarrow> c | None \<Rightarrow> dk_dur d1 b),
                 dk_log := unsettled (dk_log d1) {}\<rparr>))"

definition disk_dev :: "u64 \<Rightarrow> disk \<Rightarrow> disk st_dev" where
  "disk_dev blocks d = \<lparr>dv_ctx = d, dv_blocks = blocks, dv_read = disk_read, dv_write = disk_write,
                        dv_flush = disk_flush\<rparr>"

text \<open>
  What the medium may hold after a power loss: per block its settled content, any write in the
  log, or the remains of a torn write. A torn superblock is assumed to be detected by its
  checksum or magic; a torn block elsewhere may hold anything.
\<close>

definition super_bad :: "bytes \<Rightarrow> bool" where
  "super_bad x \<longleftrightarrow> su_magic (cd_dec c_super x) \<noteq> ST_SUPER_MAGIC \<or> block_crc x \<noteq> su_crc (cd_dec c_super x)"

definition crash_image :: "disk \<Rightarrow> (nat \<Rightarrow> bytes) \<Rightarrow> bool" where
  "crash_image d img \<longleftrightarrow> (\<forall>b. img b = dk_dur d b
     \<or> (\<exists>c acc. (b, c, acc) \<in> set (dk_log d)
          \<and> (img b = c \<or> length (img b) = 4096 \<and> (b < 2 \<longrightarrow> super_bad (img b)))))"

definition fresh_disk :: "(nat \<Rightarrow> bytes) \<Rightarrow> disk" where
  "fresh_disk img = \<lparr>dk_dur = img, dk_log = [], dk_plan = []\<rparr>"

section \<open>Blocks whose content is certain\<close>

definition newest :: "disk \<Rightarrow> nat \<Rightarrow> (bytes \<times> bool) option" where
  "newest d b = map_of (dk_log d) b"

definition stable :: "disk \<Rightarrow> nat \<Rightarrow> bool" where
  "stable d b \<longleftrightarrow> newest d b = None"

definition firm :: "disk \<Rightarrow> nat \<Rightarrow> bool" where
  "firm d b \<longleftrightarrow> (\<forall>c. newest d b \<noteq> Some (c, False))"

definition view :: "disk \<Rightarrow> nat \<Rightarrow> bytes" where
  "view d b = (case newest d b of None \<Rightarrow> dk_dur d b | Some (c, acc) \<Rightarrow> c)"

definition disk_ok :: "disk \<Rightarrow> bool" where
  "disk_ok d \<longleftrightarrow> (\<forall>b. length (dk_dur d b) = 4096) \<and> (\<forall>(b, c, acc) \<in> set (dk_log d). length c = 4096)"

lemma stable_firm [simp]: "stable d b \<Longrightarrow> firm d b"
  by (simp add: stable_def firm_def)

lemma stable_view [simp]: "stable d b \<Longrightarrow> view d b = dk_dur d b"
  by (simp add: stable_def view_def)

lemma stable_image: "stable d b \<Longrightarrow> crash_image d img \<Longrightarrow> img b = dk_dur d b"
proof -
  assume s: "stable d b" and "crash_image d img"
  then have "img b = dk_dur d b \<or> (\<exists>c acc. (b, c, acc) \<in> set (dk_log d))"
    by (auto simp: crash_image_def)
  moreover have "(b, c, acc) \<notin> set (dk_log d)" for c acc
    using s by (auto simp: stable_def newest_def map_of_eq_None_iff image_iff)
  ultimately show ?thesis by blast
qed

lemma firm_disk_view: "stable d b \<Longrightarrow> disk_view d k b = dk_dur d b"
proof -
  assume "stable d b"
  then have n: "map_of (dk_log d) b = None" by (simp add: stable_def newest_def)
  then have "filter (\<lambda>w. fst w = b) (dk_log d) = []"
    by (auto simp: map_of_eq_None_iff filter_empty_conv)
  then show ?thesis using n by (simp add: disk_view_def)
qed

lemma image_length: "disk_ok d \<Longrightarrow> crash_image d img \<Longrightarrow> length (img b) = 4096"
proof -
  assume ok: "disk_ok d" and "crash_image d img"
  then consider "img b = dk_dur d b" | c acc where "(b, c, acc) \<in> set (dk_log d)" "img b = c"
    | "length (img b) = 4096"
    unfolding crash_image_def by blast
  then show ?thesis using ok by cases (auto simp: disk_ok_def)
qed

section \<open>Effect of the device operations\<close>

lemma next_outcome_same:
  "next_outcome d = (w, d1) \<Longrightarrow> dk_dur d1 = dk_dur d \<and> dk_log d1 = dk_log d"
  by (auto simp: next_outcome_def split: list.splits)

lemma unsettled_seen: "b \<in> seen \<Longrightarrow> map_of (unsettled l seen) b = None"
  by (induction l seen rule: unsettled.induct) auto

lemma unsettled_None: "map_of l b = None \<Longrightarrow> map_of (unsettled l seen) b = None"
  by (induction l seen rule: unsettled.induct) (auto split: if_splits)

lemma unsettled_accepted: "map_of l b = Some (c, True) \<Longrightarrow> map_of (unsettled l seen) b = None"
  by (induction l seen rule: unsettled.induct) (auto simp: unsettled_seen split: if_splits)

lemma settled_accepted: "map_of l b = Some (c, True) \<Longrightarrow> settled l b = Some c"
  by (induction l b rule: settled.induct) (auto split: if_splits)

lemma settled_None: "map_of l b = None \<Longrightarrow> settled l b = None"
  by (induction l b rule: settled.induct) (auto split: if_splits)

lemma unsettled_subset: "set (unsettled l seen) \<subseteq> set l"
  by (induction l seen rule: unsettled.induct) auto

lemma settled_mem: "settled l b = Some c \<Longrightarrow> \<exists>acc. (b, c, acc) \<in> set l"
  by (induction l b rule: settled.induct) (auto split: if_splits)

lemma disk_flush_ok:
  assumes "disk_flush d = (True, d1)" and "disk_ok d"
  shows "disk_ok d1" and "\<And>b. firm d b \<Longrightarrow> stable d1 b \<and> dk_dur d1 b = view d b"
proof -
  obtain k e where e: "next_outcome d = (Works k, e)" "dk_dur e = dk_dur d" "dk_log e = dk_log d"
    and d1: "d1 = e\<lparr>dk_dur := (\<lambda>b. case settled (dk_log e) b of Some c \<Rightarrow> c | None \<Rightarrow> dk_dur e b),
                 dk_log := unsettled (dk_log e) {}\<rparr>"
    using assms(1) by (auto simp: disk_flush_def next_outcome_same split: prod.splits dev_outcome.splits)
  show "disk_ok d1"
    using assms(2) unsettled_subset [of "dk_log d" "{}"] settled_mem [of "dk_log d"] e
    by (fastforce simp: disk_ok_def d1 split: option.splits)
  fix b assume f: "firm d b"
  show "stable d1 b \<and> dk_dur d1 b = view d b"
  proof (cases "newest d b")
    case None
    then show ?thesis using e
      by (simp add: d1 stable_def newest_def view_def unsettled_None settled_None)
  next
    case (Some p)
    then obtain c where "newest d b = Some (c, True)" using f by (cases p) (auto simp: firm_def)
    then show ?thesis using e
      by (simp add: d1 stable_def newest_def view_def unsettled_accepted settled_accepted)
  qed
qed

lemma disk_flush_fail:
  assumes "disk_flush d = (False, d1)"
  shows "dk_dur d1 = dk_dur d" and "stable d1 b = stable d b" and "disk_ok d \<Longrightarrow> disk_ok d1"
    and "set (dk_log d1) = (\<lambda>(b, c, acc). (b, c, False)) ` set (dk_log d)"
proof -
  obtain e where e: "next_outcome d = (Fails, e)" "dk_dur e = dk_dur d" "dk_log e = dk_log d"
    and d1: "d1 = e\<lparr>dk_log := map (\<lambda>(b, c, acc). (b, c, False)) (dk_log e)\<rparr>"
    using assms(1) by (auto simp: disk_flush_def next_outcome_same split: prod.splits dev_outcome.splits)
  show "dk_dur d1 = dk_dur d" using e by (simp add: d1)
  show "set (dk_log d1) = (\<lambda>(b, c, acc). (b, c, False)) ` set (dk_log d)" using e by (simp add: d1)
  show "stable d1 b = stable d b"
    using e by (auto simp: d1 stable_def newest_def map_of_eq_None_iff image_iff split_beta)
  show "disk_ok d \<Longrightarrow> disk_ok d1" using e by (fastforce simp: d1 disk_ok_def)
qed

lemma map_of_write_entries:
  "map_of (write_entries acc blk n buf) b =
     (if blk \<le> b \<and> b < blk + n then Some (take 4096 (drop ((b - blk) * 4096) buf), acc) else None)"
proof -
  have "map_of (map (\<lambda>i. (blk + i, f i)) [0..<n]) b = (if blk \<le> b \<and> b < blk + n then Some (f (b - blk)) else None)"
    for f :: "nat \<Rightarrow> bytes \<times> bool"
    by (induction n) (auto simp: map_add_def split: option.splits)
  then show ?thesis by (simp add: write_entries_def)
qed

lemma disk_write_newest:
  assumes "disk_write d blk n buf = (ok, d1)"
  shows "newest d1 b = (if unat blk \<le> b \<and> b < unat blk + unat n
           then Some (take 4096 (drop ((b - unat blk) * 4096) buf), ok) else newest d b)"
    and "dk_dur d1 = dk_dur d"
    and "disk_ok d \<Longrightarrow> length buf = unat n * 4096 \<Longrightarrow> disk_ok d1"
    and "set (dk_log d1) = set (write_entries ok (unat blk) (unat n) buf) \<union> set (dk_log d)"
proof -
  obtain w e where e: "next_outcome d = (w, e)" "dk_dur e = dk_dur d" "dk_log e = dk_log d"
    by (metis next_outcome_same surj_pair)
  have d1: "d1 = e\<lparr>dk_log := write_entries ok (unat blk) (unat n) buf @ dk_log e\<rparr>"
    using assms e(1) by (cases w) (auto simp: disk_write_def)
  show "newest d1 b = (if unat blk \<le> b \<and> b < unat blk + unat n
           then Some (take 4096 (drop ((b - unat blk) * 4096) buf), ok) else newest d b)"
    using e by (simp add: d1 newest_def map_add_def map_of_write_entries)
  show "dk_dur d1 = dk_dur d" using e by (simp add: d1)
  show "set (dk_log d1) = set (write_entries ok (unat blk) (unat n) buf) \<union> set (dk_log d)"
    using e by (simp add: d1)
  show "disk_ok d1" if "disk_ok d" "length buf = unat n * 4096"
  proof -
    have "length (take 4096 (drop (i * 4096) buf)) = 4096" if "i < unat n" for i
      using that \<open>length buf = _\<close> by simp
    then show ?thesis
      using that e by (auto simp: disk_ok_def d1 write_entries_def)
  qed
qed

end
