(* ===== verification/Store_Verify.thy ===== *)
theory Store_Verify
  imports Store_Disk
begin

text \<open>
  The read side of the block store on the disk: what \<open>load_root\<close>, \<open>verify_extent\<close>, \<open>read_slot\<close>
  and \<open>st_mount\<close> compute from the content of the medium. On a disk without pending writes or
  faults (the state after a power cycle) they are functions of the image alone; while the store
  is mounted they see the durable content of every stable block.
\<close>

section \<open>Operations that touch only the device\<close>

abbreviation dsk :: "disk store \<Rightarrow> disk" where
  "dsk s \<equiv> dv_ctx (s_dev s)"

abbreviation nblks :: "'c store \<Rightarrow> nat" where
  "nblks s \<equiv> unat (dv_blocks (s_dev s))"

definition on_disk :: "disk store \<Rightarrow> bool" where
  "on_disk s \<longleftrightarrow> dv_read (s_dev s) = disk_read \<and> dv_write (s_dev s) = disk_write
     \<and> dv_flush (s_dev s) = disk_flush"

definition dev_only :: "'c store \<Rightarrow> 'c store \<Rightarrow> bool" where
  "dev_only s t \<longleftrightarrow> (\<exists>c r w f. t = s\<lparr>s_dev := (s_dev s)\<lparr>dv_ctx := c\<rparr>, s_reads := r, s_writes := w,
                                      s_flushes := f\<rparr>)"

lemma dev_onlyI: "t = s\<lparr>s_dev := (s_dev s)\<lparr>dv_ctx := c\<rparr>, s_reads := r, s_writes := w, s_flushes := f\<rparr> \<Longrightarrow> dev_only s t"
  by (auto simp: dev_only_def)

lemma dev_only_refl [simp]: "dev_only s s"
  by (rule dev_onlyI [where c = "dv_ctx (s_dev s)" and r = "s_reads s" and w = "s_writes s"
        and f = "s_flushes s"]) simp

lemma dev_only_set_ctx:
  "dev_only s (set_ctx (s\<lparr>s_reads := r\<rparr>) c)" "dev_only s (set_ctx (s\<lparr>s_writes := w\<rparr>) c)"
  "dev_only s (set_ctx (s\<lparr>s_flushes := f\<rparr>) c)"
  by (rule dev_onlyI [where c = c and r = r and w = "s_writes s" and f = "s_flushes s"],
      simp add: set_ctx_def)
    (rule dev_onlyI [where c = c and r = "s_reads s" and w = w and f = "s_flushes s"],
      simp add: set_ctx_def,
     rule dev_onlyI [where c = c and r = "s_reads s" and w = "s_writes s" and f = f],
      simp add: set_ctx_def)

lemma dev_only_trans: "dev_only s t \<Longrightarrow> dev_only t u \<Longrightarrow> dev_only s u"
  by (fastforce simp: dev_only_def)

lemma dev_only_fields:
  assumes "dev_only s t"
  shows "s_flags t = s_flags s" "s_mounted t = s_mounted s" "s_in_tx t = s_in_tx s"
    "s_tx_prune t = s_tx_prune s" "s_tx_reserve t = s_tx_reserve s" "s_cur_slot t = s_cur_slot s"
    "s_cur_blk t = s_cur_blk s" "s_max_gen t = s_max_gen s" "s_boot_id t = s_boot_id s"
    "s_cur t = s_cur s" "s_work t = s_work s" "s_used t = s_used s" "s_txused t = s_txused s"
    "s_rep t = s_rep s" "s_commits t = s_commits s"
    "dv_blocks (s_dev t) = dv_blocks (s_dev s)"
    "dv_read (s_dev t) = dv_read (s_dev s)" "dv_write (s_dev t) = dv_write (s_dev s)"
    "dv_flush (s_dev t) = dv_flush (s_dev s)"
  using assms by (auto simp: dev_only_def)

lemma dev_only_disk: "dev_only s t \<Longrightarrow> on_disk t = on_disk s"
  by (simp add: on_disk_def dev_only_fields)

definition same_media :: "disk \<Rightarrow> disk \<Rightarrow> bool" where
  "same_media d e \<longleftrightarrow> dk_dur e = dk_dur d \<and> dk_log e = dk_log d"

lemma same_media_refl [simp]: "same_media d d"
  by (simp add: same_media_def)

lemma same_media_trans: "same_media d e \<Longrightarrow> same_media e f \<Longrightarrow> same_media d f"
  by (simp add: same_media_def)

lemma same_media_stable: "same_media d e \<Longrightarrow> stable e b = stable d b"
  by (simp add: same_media_def stable_def newest_def)

text \<open>The two together: what every read does.\<close>

definition reads_only :: "disk store \<Rightarrow> disk store \<Rightarrow> bool" where
  "reads_only s t \<longleftrightarrow> dev_only s t \<and> same_media (dsk s) (dsk t)
     \<and> (dk_plan (dsk s) = [] \<longrightarrow> dk_plan (dsk t) = [])"

lemma reads_only_refl [simp]: "reads_only s s"
  by (simp add: reads_only_def)

lemma reads_only_trans [trans]: "reads_only s t \<Longrightarrow> reads_only t u \<Longrightarrow> reads_only s u"
  by (auto simp: reads_only_def intro: dev_only_trans same_media_trans)

lemma reads_only_stable: "reads_only s t \<Longrightarrow> stable (dsk t) b = stable (dsk s) b"
  by (simp add: reads_only_def same_media_stable)

lemma reads_only_dur: "reads_only s t \<Longrightarrow> dk_dur (dsk t) = dk_dur (dsk s)"
  by (simp add: reads_only_def same_media_def)

lemma reads_only_log: "reads_only s t \<Longrightarrow> dk_log (dsk t) = dk_log (dsk s)"
  by (simp add: reads_only_def same_media_def)

lemma reads_only_fields: "reads_only s t \<Longrightarrow> dev_only s t"
  by (simp add: reads_only_def)

lemmas reads_only_simps = reads_only_stable reads_only_dur reads_only_log
  dev_only_fields [OF reads_only_fields] dev_only_disk [OF reads_only_fields]

lemma dev_read_spec:
  assumes "on_disk s" and "dev_read s blk 1 = (st, data, t)"
  shows "reads_only s t" and "st = ST_OK \<or> st = ST_E_IO \<or> st = ST_E_CORRUPT"
    and "st = ST_OK \<Longrightarrow> stable (dsk s) (unat blk) \<Longrightarrow> data = dk_dur (dsk s) (unat blk)"
    and "dk_plan (dsk s) = [] \<Longrightarrow> unat blk < nblks s \<Longrightarrow> nblks s \<le> 2 ^ 32 \<Longrightarrow> st = ST_OK"
proof -
  obtain w e where e: "next_outcome (dsk s) = (w, e)" "same_media (dsk s) e"
    "dk_plan (dsk s) = [] \<Longrightarrow> w = Works 0 \<and> dk_plan e = []"
    by (cases "dk_plan (dsk s)") (auto simp: next_outcome_def same_media_def)
  have rd: "dv_read (s_dev s) = disk_read" using assms(1) by (simp add: on_disk_def)
  have "t = s \<or> t = set_ctx (s\<lparr>s_reads := s_reads s + 1\<rparr>) e"
    using assms(2) e(1) rd
    by (auto simp: dev_read_def disk_read_def Let_def split: if_splits dev_outcome.splits)
  moreover have "dsk (set_ctx u e) = e" for u by (simp add: set_ctx_def)
  ultimately show "reads_only s t"
    using e(2,3) dev_only_set_ctx(1) [of s "s_reads s + 1" e] by (auto simp: reads_only_def)
  show "st = ST_OK \<or> st = ST_E_IO \<or> st = ST_E_CORRUPT"
    using assms(2) by (auto simp: dev_read_def Let_def split: if_splits option.splits prod.splits)
  show "data = dk_dur (dsk s) (unat blk)" if "st = ST_OK" "stable (dsk s) (unat blk)"
    using assms(2) e(1) rd that
    by (auto simp: dev_read_def disk_read_def set_ctx_def Let_def firm_disk_view
        split: if_splits dev_outcome.splits)
  show "st = ST_OK" if "dk_plan (dsk s) = []" "unat blk < nblks s" "nblks s \<le> 2 ^ 32"
  proof -
    have "unat (blk + 1) = unat blk + 1" using that by (subst unat_add_small) auto
    then have "\<not> (blk + 1 > dv_blocks (s_dev s) \<or> blk + 1 < blk)"
      using that by (simp add: word_less_nat_alt)
    then show ?thesis
      using assms(2) e(1) e(3) [OF that(1)] rd
      by (auto simp: dev_read_def disk_read_def Let_def)
  qed
qed

section \<open>Roots\<close>

definition root_ok :: "(nat \<Rightarrow> bytes) \<Rightarrow> u64 \<Rightarrow> u32 \<Rightarrow> u64 \<Rightarrow> u32 \<Rightarrow> st_root \<Rightarrow> bool" where
  "root_ok img blocks blk gen crc r \<longleftrightarrow> 2 \<le> unat blk \<and> unat blk < unat blocks
     \<and> r = cd_dec c_root (img (unat blk)) \<and> block_crc (img (unat blk)) = rt_crc r
     \<and> (crc = 0 \<or> rt_crc r = crc) \<and> (gen = 0 \<or> rt_gen r = gen) \<and> root_sane r blocks"

lemma load_root_spec:
  assumes od: "on_disk s" and lr: "load_root s blk gen crc out = (st, r, t)"
  shows "reads_only s t"
    and "st = ST_OK \<Longrightarrow> stable (dsk s) (unat blk) \<Longrightarrow>
           root_ok (dk_dur (dsk s)) (dv_blocks (s_dev s)) blk gen crc r"
    and "dk_plan (dsk s) = [] \<Longrightarrow> nblks s \<le> 2 ^ 32 \<Longrightarrow> stable (dsk s) (unat blk) \<Longrightarrow>
           root_ok (dk_dur (dsk s)) (dv_blocks (s_dev s)) blk gen crc r' \<Longrightarrow> st = ST_OK \<and> r = r'"
proof -
  obtain st1 data s1 where rd: "dev_read s (ucast blk) 1 = (st1, data, s1)" by (metis prod_cases3)
  note sp = dev_read_spec [OF od rd]
  have rng: "blk < 2 \<longleftrightarrow> \<not> 2 \<le> unat blk" "(ucast blk :: u64) \<ge> dv_blocks (s_dev s) \<longleftrightarrow> \<not> unat blk < nblks s"
    by (auto simp: word_less_nat_alt word_le_nat_alt)
  have bl: "dv_blocks (s_dev s1) = dv_blocks (s_dev s)" using sp(1) by (simp add: reads_only_simps)
  show "reads_only s t"
    using lr sp(1) rd by (auto simp: load_root_def Let_def split: if_splits)
  show "root_ok (dk_dur (dsk s)) (dv_blocks (s_dev s)) blk gen crc r"
    if "st = ST_OK" "stable (dsk s) (unat blk)"
    using lr rd that sp(3) rng bl by (auto simp: load_root_def root_ok_def Let_def split: if_splits)
  show "st = ST_OK \<and> r = r'"
    if "dk_plan (dsk s) = []" "nblks s \<le> 2 ^ 32" "stable (dsk s) (unat blk)"
      "root_ok (dk_dur (dsk s)) (dv_blocks (s_dev s)) blk gen crc r'"
  proof -
    have "st1 = ST_OK" using sp(4) that by (simp add: root_ok_def)
    moreover then have "data = dk_dur (dsk s) (unat blk)" using sp(3) that by simp
    ultimately show ?thesis
      using lr rd that(4) rng bl by (auto simp: load_root_def root_ok_def Let_def split: if_splits)
  qed
qed

section \<open>Extents\<close>

definition ext_bytes :: "(nat \<Rightarrow> bytes) \<Rightarrow> st_obj \<Rightarrow> bytes" where
  "ext_bytes f x = concat (map f [unat (so_blk x)..<unat (so_blk x) + unat (so_nblk x)])"

definition obj_data :: "(nat \<Rightarrow> bytes) \<Rightarrow> st_obj \<Rightarrow> bytes" where
  "obj_data f x = take (unat (so_len x)) (ext_bytes f x)"

definition obj_blocks :: "st_obj \<Rightarrow> nat set" where
  "obj_blocks x = {unat (so_blk x)..<unat (so_blk x) + unat (so_nblk x)}"

definition ext_ok :: "(nat \<Rightarrow> bytes) \<Rightarrow> st_obj \<Rightarrow> bool" where
  "ext_ok f x \<longleftrightarrow> nx_crc32 (obj_data f x) = so_crc x"

text \<open>The shape of an extent that the structure check of the root guarantees.\<close>

definition ext_shape :: "u64 \<Rightarrow> st_obj \<Rightarrow> bool" where
  "ext_shape blocks x \<longleftrightarrow> unat (so_len x) \<le> 32768
     \<and> unat (so_nblk x) = (unat (so_len x) + 4095) div 4096
     \<and> (so_nblk x \<noteq> 0 \<longrightarrow> 2 \<le> unat (so_blk x)) \<and> (so_nblk x = 0 \<longrightarrow> so_blk x = 0)
     \<and> unat (so_blk x) + unat (so_nblk x) \<le> unat blocks"

lemma length_concat_blocks:
  assumes "\<And>b. b \<in> set bs \<Longrightarrow> length (f b) = 4096"
  shows "length (concat (map f bs)) = length bs * 4096"
  using assms by (induction bs) auto

lemma take_concat_block:
  assumes "\<And>b. b \<in> set bs \<Longrightarrow> length (f b) = 4096" and "i < length bs"
  shows "take 4096 (drop (i * 4096) (concat (map f bs))) = f (bs ! i)"
  using assms
proof (induction bs arbitrary: i)
  case (Cons b bs)
  then show ?case by (cases i) simp_all
qed simp

text \<open>One more block of an object: the bytes the loop of \<open>verify_extent\<close> adds in round \<open>i\<close>.\<close>

lemma obj_data_block:
  assumes sh: "ext_shape blocks x" and len: "\<forall>b \<in> obj_blocks x. length (f b) = 4096"
    and i: "i < unat (so_nblk x)"
  shows "take ((i + 1) * 4096) (obj_data f x)
     = take (i * 4096) (obj_data f x)
       @ take (min (unat (so_len x) - i * 4096) 4096) (f (unat (so_blk x) + i))"
    and "i * 4096 < unat (so_len x)"
proof -
  let ?bs = "[unat (so_blk x)..<unat (so_blk x) + unat (so_nblk x)]"
  have nb: "unat (so_nblk x) = (unat (so_len x) + 4095) div 4096" using sh by (simp add: ext_shape_def)
  show lt: "i * 4096 < unat (so_len x)" using i nb by linarith
  have blk: "take 4096 (drop (i * 4096) (ext_bytes f x)) = f (unat (so_blk x) + i)"
    unfolding ext_bytes_def
    using take_concat_block [of ?bs f i] len i by (simp add: obj_blocks_def)
  have "take ((i + 1) * 4096) (obj_data f x)
      = take (i * 4096) (obj_data f x) @ take 4096 (drop (i * 4096) (obj_data f x))"
    by (simp add: take_add [symmetric] add.commute)
  also have "take 4096 (drop (i * 4096) (obj_data f x))
      = take (min (unat (so_len x) - i * 4096) 4096) (f (unat (so_blk x) + i))"
    by (simp add: obj_data_def drop_take blk [symmetric] min.commute)
  finally show "take ((i + 1) * 4096) (obj_data f x)
     = take (i * 4096) (obj_data f x)
       @ take (min (unat (so_len x) - i * 4096) 4096) (f (unat (so_blk x) + i))" .
qed

lemma obj_data_length:
  assumes "ext_shape blocks x" and "\<forall>b \<in> obj_blocks x. length (f b) = 4096"
  shows "length (obj_data f x) = unat (so_len x)"
proof -
  have "length (ext_bytes f x) = unat (so_nblk x) * 4096"
    unfolding ext_bytes_def using assms(2) by (subst length_concat_blocks) (auto simp: obj_blocks_def)
  moreover have "unat (so_len x) \<le> unat (so_nblk x) * 4096"
    using assms(1) by (simp add: ext_shape_def)
  ultimately show ?thesis by (simp add: obj_data_def)
qed

definition ext_stable :: "disk store \<Rightarrow> st_obj \<Rightarrow> bool" where
  "ext_stable s x \<longleftrightarrow> ext_shape (dv_blocks (s_dev s)) x \<and> nblks s \<le> 32768
     \<and> (\<forall>b \<in> obj_blocks x. stable (dsk s) b \<and> length (dk_dur (dsk s) b) = 4096)"

lemma ext_stable_reads: "reads_only s t \<Longrightarrow> ext_stable t x = ext_stable s x"
  by (simp add: ext_stable_def reads_only_simps)

text \<open>The destination buffer after the first \<open>n\<close> bytes of the object have been copied into \<open>d\<close>.\<close>

definition filled :: "bytes \<Rightarrow> nat \<Rightarrow> bytes \<Rightarrow> bytes" where
  "filled D n d = take n D @ drop (min n (length D)) d"

lemma filled_step:
  assumes "n \<le> length D" and "length D \<le> length d" and "m = min (length D - n) k"
    and "take (n + k) D = take n D @ piece" and "length piece = m"
  shows "memcpy_at (filled D n d) n piece = filled D (n + k) d"
proof -
  have a: "take n (filled D n d) = take n D" using assms(1) by (simp add: filled_def)
  have b: "drop (n + m) (filled D n d) = drop (n + m) d"
    using assms(1) by (simp add: filled_def add.commute)
  have c: "min (n + k) (length D) = n + m" using assms(1,3) by auto
  show ?thesis
    unfolding memcpy_at_def assms(5) a b using c assms(4) by (simp add: filled_def)
qed

lemma verify_round:
  assumes es: "ext_stable s x" and i: "i < unat (so_nblk x)"
  shows "unat (ucast (so_blk x) + of_nat i :: u64) = unat (so_blk x) + i"
    and "unat (so_blk x) + i < nblks s" and "unat (of_nat i * 4096 :: u32) = i * 4096"
    and "unat (so_blk x) + i \<in> obj_blocks x"
proof -
  have b: "unat (so_blk x) + unat (so_nblk x) \<le> nblks s" "nblks s \<le> 32768"
    "unat (so_nblk x) \<le> 8"
    using es by (auto simp: ext_stable_def ext_shape_def)
  then show "unat (so_blk x) + i < nblks s" "unat (so_blk x) + i \<in> obj_blocks x"
    using i by (auto simp: obj_blocks_def)
  have "unat (of_nat i :: u64) = i" "unat (of_nat i :: u32) = i"
    using i b by (simp_all add: unat_of_nat)
  then show "unat (ucast (so_blk x) + of_nat i :: u64) = unat (so_blk x) + i"
    "unat (of_nat i * 4096 :: u32) = i * 4096"
    using i b by (simp_all add: unat_add_small unat_mult_small)
qed

lemma verify_blocks_spec:
  assumes "on_disk s" and "ext_stable s x" and "i \<le> unat (so_nblk x)"
    and "unat left = unat (so_len x) - i * 4096"
    and "verify_blocks s x dst cap [i..<unat (so_nblk x)]
           (nx_crc32 (take (i * 4096) (obj_data (dk_dur (dsk s)) x))) left = (st, d, t)"
  shows "reads_only s t \<and> (st = ST_OK \<longrightarrow> ext_ok (dk_dur (dsk s)) x)
    \<and> (dk_plan (dsk s) = [] \<longrightarrow> ext_ok (dk_dur (dsk s)) x \<longrightarrow> st = ST_OK)
    \<and> (\<forall>d0. st = ST_OK \<longrightarrow> so_len x \<le> cap \<longrightarrow> unat cap \<le> length d0
          \<longrightarrow> dst = Some (filled (obj_data (dk_dur (dsk s)) x) (i * 4096) d0)
          \<longrightarrow> d = Some (filled (obj_data (dk_dur (dsk s)) x) (unat (so_len x)) d0))"
  using assms
proof (induction "unat (so_nblk x) - i" arbitrary: i s dst left)
  case 0
  let ?D = "obj_data (dk_dur (dsk s)) x"
  have shp: "ext_shape (dv_blocks (s_dev s)) x" and
    ln: "length ?D = unat (so_len x)"
    using 0 obj_data_length [of "dv_blocks (s_dev s)" x "dk_dur (dsk s)"] by (auto simp: ext_stable_def)
  have "i = unat (so_nblk x)" using 0 by simp
  moreover have "unat (so_len x) \<le> unat (so_nblk x) * 4096" using shp by (simp add: ext_shape_def)
  ultimately have "take (i * 4096) ?D = ?D" "filled ?D (i * 4096) d0 = filled ?D (unat (so_len x)) d0" for d0
    using ln by (simp_all add: filled_def)
  then show ?case
    using 0 \<open>i = _\<close> by (auto simp: ext_ok_def split: if_splits)
next
  case (Suc k)
  let ?f = "dk_dur (dsk s)" let ?D = "obj_data ?f x"
  have i: "i < unat (so_nblk x)" using Suc.hyps(2) by simp
  note rd = verify_round [OF Suc.prems(2) i]
  have shp: "ext_shape (dv_blocks (s_dev s)) x" and
    len: "\<forall>b \<in> obj_blocks x. length (?f b) = 4096"
    using Suc.prems(2) by (auto simp: ext_stable_def)
  note blk = obj_data_block [OF shp len i]
  have ln: "length ?D = unat (so_len x)" by (rule obj_data_length [OF shp len])
  have upt: "[i..<unat (so_nblk x)] = i # [i + 1..<unat (so_nblk x)]" using i by (simp add: upt_conv_Cons)
  obtain st1 buf s1 where r: "dev_read s (ucast (so_blk x) + of_nat i) 1 = (st1, buf, s1)"
    by (metis prod_cases3)
  note sp = dev_read_spec [OF Suc.prems(1) r]
  have nb: "nblks s \<le> 32768" using Suc.prems(2) by (simp add: ext_stable_def)
  show ?case
  proof (cases "st1 = ST_OK")
    case False
    then have "dk_plan (dsk s) \<noteq> []" using sp(4) rd nb by auto
    then show ?thesis
      using Suc.prems(5) False r sp(1) by (auto simp: upt simp del: upt_Suc)
  next
    case True
    have buf: "buf = ?f (unat (so_blk x) + i)"
      using sp(3) [OF True] rd Suc.prems(2) by (auto simp: ext_stable_def)
    define n where "n = (if left < 4096 then left else 4096)"
    have n: "unat n = min (unat (so_len x) - i * 4096) 4096"
      using Suc.prems(4) by (auto simp: n_def word_less_nat_alt)
    have left: "unat (left - n) = unat (so_len x) - (i + 1) * 4096"
      using Suc.prems(4) n by (subst unat_sub_small) (auto simp: word_le_nat_alt)
    have crc: "nx_crc32_update (nx_crc32 (take (i * 4096) ?D)) (take (unat n) buf)
        = nx_crc32 (take ((i + 1) * 4096) ?D)"
      unfolding blk(1) n buf nx_crc32_def by (rule nx_crc32_update_append [symmetric])
    have piece: "length (take (unat n) buf) = min (length ?D - i * 4096) 4096"
      using len rd(4) ln n by (simp add: buf)
    define dst1 where "dst1 = (case dst of None \<Rightarrow> None | Some d \<Rightarrow>
        Some (if of_nat i * 4096 < cap
              then memcpy_at d (unat (of_nat i * 4096 :: u32))
                     (take (unat (if cap - of_nat i * 4096 < n then cap - of_nat i * 4096 else n)) buf)
              else d))"
    have rec: "verify_blocks s1 x dst1 cap [i + 1..<unat (so_nblk x)]
        (nx_crc32 (take ((i + 1) * 4096) ?D)) (left - n) = (st, d, t)"
      unfolding crc [symmetric] dst1_def using Suc.prems(5) r True
      by (simp add: upt n_def [symmetric] Let_def del: upt_Suc split del: if_split)
    have s1: "on_disk s1" "ext_stable s1 x" "dk_dur (dsk s1) = ?f"
      using sp(1) Suc.prems(1,2) by (simp_all add: reads_only_simps ext_stable_reads)
    have "dst1 = Some (filled ?D ((i + 1) * 4096) d0)"
      if cap: "so_len x \<le> cap" "unat cap \<le> length d0" and d0: "dst = Some (filled ?D (i * 4096) d0)" for d0
    proof -
      have lc: "unat (so_len x) \<le> unat cap" using cap(1) by (simp add: word_le_nat_alt)
      then have lt: "(of_nat i * 4096 :: u32) < cap" using blk(2) rd(3) by (simp add: word_less_nat_alt)
      then have "unat (cap - of_nat i * 4096) = unat cap - i * 4096"
        using rd(3) by (subst unat_sub_small) auto
      then have "\<not> cap - of_nat i * 4096 < n" using n lc by (simp add: word_less_nat_alt)
      then have "dst1 = Some (memcpy_at (filled ?D (i * 4096) d0) (i * 4096) (take (unat n) buf))"
        using lt rd(3) d0 by (simp add: dst1_def)
      moreover have "memcpy_at (filled ?D (i * 4096) d0) (i * 4096) (take (unat n) buf)
          = filled ?D (i * 4096 + 4096) d0"
        by (rule filled_step [OF _ _ refl _ piece])
           (use ln blk lc cap(2) n buf in \<open>simp_all add: add.commute\<close>)
      ultimately show ?thesis by (simp add: add.commute)
    qed
    moreover have "reads_only s1 t \<and> (st = ST_OK \<longrightarrow> ext_ok ?f x)
        \<and> (dk_plan (dsk s1) = [] \<longrightarrow> ext_ok ?f x \<longrightarrow> st = ST_OK)
        \<and> (\<forall>d0. st = ST_OK \<longrightarrow> so_len x \<le> cap \<longrightarrow> unat cap \<le> length d0
              \<longrightarrow> dst1 = Some (filled ?D ((i + 1) * 4096) d0)
              \<longrightarrow> d = Some (filled ?D (unat (so_len x)) d0))"
      using Suc.hyps(1) [OF _ s1(1,2) _ left, of dst1] rec Suc.hyps(2) i unfolding s1(3) by simp
    ultimately show ?thesis
      using sp(1) reads_only_trans [OF sp(1)] by (simp add: reads_only_def)
  qed
qed

lemma verify_extent_spec:
  assumes "on_disk s" and "ext_stable s x" and "verify_extent s x dst cap = (st, d, t)"
  shows "reads_only s t" and "st = ST_OK \<Longrightarrow> ext_ok (dk_dur (dsk s)) x"
    and "dk_plan (dsk s) = [] \<Longrightarrow> ext_ok (dk_dur (dsk s)) x \<Longrightarrow> st = ST_OK"
    and "st = ST_OK \<Longrightarrow> so_len x \<le> cap \<Longrightarrow> unat cap \<le> length d0 \<Longrightarrow> dst = Some d0 \<Longrightarrow>
           d = Some (obj_data (dk_dur (dsk s)) x @ drop (unat (so_len x)) d0)"
proof -
  have f0: "filled D 0 d0 = d0" for D d0 by (simp add: filled_def)
  have "nx_crc32 [] = 0" by (simp add: nx_crc32_def)
  then have "verify_blocks s x dst cap [0..<unat (so_nblk x)]
      (nx_crc32 (take (0 * 4096) (obj_data (dk_dur (dsk s)) x))) (so_len x) = (st, d, t)"
    using assms(3) by (simp add: verify_extent_def)
  note sp = verify_blocks_spec [OF assms(1,2) _ _ this, simplified f0 mult_0 diff_zero]
  show "reads_only s t" "st = ST_OK \<Longrightarrow> ext_ok (dk_dur (dsk s)) x"
    "dk_plan (dsk s) = [] \<Longrightarrow> ext_ok (dk_dur (dsk s)) x \<Longrightarrow> st = ST_OK"
    using sp by simp_all
  show "d = Some (obj_data (dk_dur (dsk s)) x @ drop (unat (so_len x)) d0)"
    if "st = ST_OK" "so_len x \<le> cap" "unat cap \<le> length d0" "dst = Some d0"
    using sp that obj_data_length [of "dv_blocks (s_dev s)" x "dk_dur (dsk s)"] assms(2)
    by (simp add: filled_def ext_stable_def)
qed

lemma verify_objs_spec:
  assumes "on_disk s" and "\<forall>x \<in> set xs. ext_stable s x" and "verify_objs s xs = (ok, t)"
  shows "reads_only s t \<and> (ok \<longrightarrow> (\<forall>x \<in> set xs. ext_ok (dk_dur (dsk s)) x))
    \<and> (dk_plan (dsk s) = [] \<longrightarrow> (\<forall>x \<in> set xs. ext_ok (dk_dur (dsk s)) x) \<longrightarrow> ok)"
  using assms
proof (induction xs arbitrary: s)
  case (Cons x xs)
  obtain st d s1 where v: "verify_extent s x None 0 = (st, d, s1)" by (metis prod_cases3)
  note sp = verify_extent_spec [OF Cons.prems(1) _ v]
  have s1: "reads_only s s1" "on_disk s1" "\<forall>y \<in> set xs. ext_stable s1 y" "dk_dur (dsk s1) = dk_dur (dsk s)"
    using sp(1) Cons.prems by (simp_all add: reads_only_simps ext_stable_reads)
  show ?case
    using Cons.IH [OF s1(2,3)] Cons.prems(2,3) v sp(2,3) s1(1,4) reads_only_trans [OF s1(1)]
    by (auto simp: reads_only_def split: if_splits)
qed simp

end
