(* ===== verification/Store_Mount.thy ===== *)
theory Store_Mount
  imports Store_Verify
begin

text \<open>
  What a verified generation is, which blocks it occupies, what the allocation map marks, and
  what \<open>st_mount\<close> returns on the disk after a power cycle.
\<close>

section \<open>Generations on the medium\<close>

definition objs :: "st_root \<Rightarrow> st_obj list" where
  "objs r = take (unat (rt_nobj r)) (rt_obj r)"

definition gen_blocks :: "st_root \<Rightarrow> nat \<Rightarrow> nat set" where
  "gen_blocks r blk = insert blk (\<Union>x \<in> set (objs r). obj_blocks x)"

definition gen_ok :: "(nat \<Rightarrow> bytes) \<Rightarrow> u64 \<Rightarrow> u32 \<Rightarrow> st_root \<Rightarrow> bool" where
  "gen_ok f blocks blk r \<longleftrightarrow> root_wf r \<and> root_ok f blocks blk (rt_gen r) (rt_crc r) r
     \<and> (\<forall>x \<in> set (objs r). ext_ok f x)"

lemma nblk_for_nat: "unat len \<le> 32768 \<Longrightarrow> unat (nblk_for len) = (unat len + 4095) div 4096"
proof -
  assume "unat len \<le> 32768"
  then have "unat (len + 4096) = unat len + 4096" by (subst unat_add_small) auto
  then have "unat (len + 4096 - 1) = unat len + 4095"
    by (subst unat_sub_small) (auto simp: word_le_nat_alt)
  then show ?thesis by (simp add: nblk_for_def unat_div)
qed

lemma objs_nth: "root_wf r \<Longrightarrow> rt_nobj r \<le> 49 \<Longrightarrow> length (objs r) = unat (rt_nobj r)"
  by (simp add: objs_def root_wf_def word_le_nat_alt)

lemma objs_index:
  assumes "root_wf r" and "rt_nobj r \<le> 49"
  shows "x \<in> set (objs r) \<longleftrightarrow> (\<exists>i < unat (rt_nobj r). x = rt_obj r ! i)"
proof -
  have "length (rt_obj r) = 49" "unat (rt_nobj r) \<le> 49"
    using assms by (simp_all add: root_wf_def word_le_nat_alt)
  then show ?thesis by (auto simp: objs_def in_set_conv_nth)
qed

lemma entry_sane_shape:
  assumes s: "obj_entry_sane r blocks x" and "unat blocks \<le> 32768"
  shows "ext_shape blocks x"
proof -
  have a: "so_len x \<le> 32768" "ucast (so_nblk x) = nblk_for (so_len x)"
    using s by (auto simp: obj_entry_sane_def)
  have l: "unat (so_len x) \<le> 32768" using a(1) by (simp add: word_le_nat_alt)
  have "unat (so_nblk x) = unat (ucast (so_nblk x) :: u32)" by simp
  then have n: "unat (so_nblk x) = (unat (so_len x) + 4095) div 4096"
    using a(2) nblk_for_nat [OF l] by simp
  have sum: "unat ((ucast (so_blk x) :: u64) + ucast (so_nblk x)) = unat (so_blk x) + unat (so_nblk x)"
    using unat_u32_less [of "so_blk x"] n l by (subst unat_add_small) auto
  show ?thesis
  proof (cases "so_nblk x = 0")
    case True
    then show ?thesis using s l n by (simp add: ext_shape_def obj_entry_sane_def)
  next
    case False
    then have "\<not> so_blk x < 2" "\<not> (ucast (so_blk x) :: u64) + ucast (so_nblk x) > blocks"
      using s by (auto simp: obj_entry_sane_def)
    then show ?thesis
      using sum l n False by (simp add: ext_shape_def word_less_nat_alt)
  qed
qed

lemma obj_sane_shape:
  assumes "root_wf r" and "rt_nobj r \<le> 49" and "obj_sane r blocks" and "unat blocks \<le> 32768"
    and "x \<in> set (objs r)"
  shows "ext_shape blocks x"
  using assms by (auto simp: objs_index obj_sane_def intro: entry_sane_shape)

lemma gen_ok_shape:
  "gen_ok f blocks blk r \<Longrightarrow> unat blocks \<le> 32768 \<Longrightarrow> x \<in> set (objs r) \<Longrightarrow> ext_shape blocks x"
  by (rule obj_sane_shape) (auto simp: gen_ok_def root_ok_def root_sane_def)

lemma gen_blocks_bound:
  assumes "gen_ok f blocks blk r" and "unat blocks \<le> 32768" and "b \<in> gen_blocks r (unat blk)"
  shows "2 \<le> b" and "b < unat blocks"
proof -
  consider "b = unat blk" | x where "x \<in> set (objs r)" "b \<in> obj_blocks x"
    using assms(3) by (auto simp: gen_blocks_def)
  then have "2 \<le> b \<and> b < unat blocks"
  proof cases
    case 1
    then show ?thesis using assms(1) by (simp add: gen_ok_def root_ok_def)
  next
    case 2
    then show ?thesis
      using gen_ok_shape [OF assms(1,2) 2(1)] by (auto simp: ext_shape_def obj_blocks_def)
  qed
  then show "2 \<le> b" "b < unat blocks" by auto
qed

text \<open>A generation depends only on the blocks it occupies.\<close>

lemma obj_data_cong: "(\<And>b. b \<in> obj_blocks x \<Longrightarrow> f b = g b) \<Longrightarrow> obj_data f x = obj_data g x"
  unfolding obj_data_def ext_bytes_def obj_blocks_def
  by (intro arg_cong [of _ _ "take _"] arg_cong [of _ _ concat] map_cong) auto

lemma gen_ok_cong:
  assumes "gen_ok f blocks blk r" and "\<And>b. b \<in> gen_blocks r (unat blk) \<Longrightarrow> g b = f b"
  shows "gen_ok g blocks blk r"
proof -
  have "obj_data g x = obj_data f x" if "x \<in> set (objs r)" for x
    using that assms(2) by (intro obj_data_cong) (auto simp: gen_blocks_def)
  then show ?thesis
    using assms by (auto simp: gen_ok_def root_ok_def ext_ok_def gen_blocks_def)
qed

section \<open>The allocation map\<close>

lemma bit_map_eq: "bit_get = bm_get" "bit_set = bm_set"
  by (simp_all add: fun_eq_iff bit_get_def bm_get_def bit_set_def bm_set_def)

lemma length_bit_set [simp]: "length (bit_set m b) = length m"
  by (simp add: bit_set_def)

lemma bit_get_set: "b div 8 < length m \<Longrightarrow> bit_get (bit_set m b) i = (b = i \<or> bit_get m i)"
  by (simp add: bit_map_eq bm.get_set)

lemma bit_get_zero: "i < 32768 \<Longrightarrow> \<not> bit_get (replicate 4096 0) i"
  by (simp add: bit_map_eq bm_get_replicate_0)

lemma length_mark_block [simp]: "length (mark_block blocks b m) = length m"
  by (simp add: mark_block_def)

lemma length_fold_keep: "(\<And>i m. length (g i m) = length (m :: bytes)) \<Longrightarrow> length (fold g is m) = length m"
  by (induction "is" arbitrary: m) simp_all

lemma length_mark_obj [simp]: "length (mark_obj blocks x m) = length m"
  by (simp add: mark_obj_def length_fold_keep)

lemma length_mark_root [simp]: "length (mark_root m r blk blocks) = length m"
  by (simp add: mark_root_def length_fold_keep)

lemma bit_mark_block:
  "length m = 4096 \<Longrightarrow> unat blocks \<le> 32768 \<Longrightarrow>
    bit_get (mark_block blocks b m) i = (bit_get m i \<or> i = unat b \<and> i < unat blocks)"
  by (auto simp: mark_block_def bit_get_set word_less_nat_alt div_less_iff_less_mult)

lemma bit_fold_mark:
  assumes "unat blocks \<le> 32768" and "length m = 4096"
  shows "bit_get (fold (\<lambda>b. mark_block blocks (f b)) is m) i
      = (bit_get m i \<or> (\<exists>b \<in> set is. i = unat (f b)) \<and> i < unat blocks)"
  using assms(2)
proof (induction "is" arbitrary: m)
  case (Cons b bs)
  then show ?case
    using Cons.IH [of "mark_block blocks (f b) m"] bit_mark_block [OF Cons.prems assms(1), of "f b" i]
    by auto
qed simp

lemma obj_block_addr: "b < unat (so_nblk x) \<Longrightarrow> unat (ucast (so_blk x) + of_nat b :: u64) = unat (so_blk x) + b"
proof -
  assume b: "b < unat (so_nblk x)"
  have "unat (so_nblk x) < 65536" using unsigned_less [of "so_nblk x", where 'a = nat] by simp
  then have "b < 65536" using b by linarith
  then show ?thesis using unat_u32_less [of "so_blk x"]
    by (subst unat_add_small) (simp_all add: unat_of_nat)
qed

lemma bit_mark_obj:
  assumes "length m = 4096" and "unat blocks \<le> 32768"
  shows "bit_get (mark_obj blocks x m) i = (bit_get m i \<or> i \<in> obj_blocks x \<and> i < unat blocks)"
proof -
  have "(\<exists>b \<in> set [0..<unat (so_nblk x)]. i = unat (ucast (so_blk x) + of_nat b :: u64))
      \<longleftrightarrow> (\<exists>b < unat (so_nblk x). i = unat (so_blk x) + b)"
    by (auto simp: obj_block_addr Bex_def)
  also have "\<dots> \<longleftrightarrow> i \<in> obj_blocks x"
    unfolding obj_blocks_def atLeastLessThan_iff using le_Suc_ex by fastforce
  finally show ?thesis
    unfolding mark_obj_def bit_fold_mark [OF assms(2,1)] by simp
qed

lemma mark_root_mono:
  assumes "length m = 4096" and "unat blocks \<le> 32768" and "bit_get m b"
  shows "bit_get (mark_root m r blk blocks) b"
proof -
  have fl: "bit_get (fold (\<lambda>i. mark_obj blocks (f i)) is m) b"
    if "length m = 4096" "bit_get m b" for f "is" and m :: bytes
    using that assms(2) by (induction "is" arbitrary: m) (auto simp: bit_mark_obj)
  show ?thesis unfolding mark_root_def
    by (rule fl) (use assms in \<open>simp_all add: bit_mark_block\<close>)
qed

lemma bit_mark_root:
  assumes "length m = 4096" and "unat blocks \<le> 32768" and "root_wf r" and "rt_nobj r \<le> 49"
  shows "bit_get (mark_root m r blk blocks) i
     = (bit_get m i \<or> i \<in> gen_blocks r (unat blk) \<and> i < unat blocks)"
proof -
  have "bit_get (fold (\<lambda>i. mark_obj blocks (rt_obj r ! i)) is m) i
      = (bit_get m i \<or> (\<exists>k \<in> set is. i \<in> obj_blocks (rt_obj r ! k)) \<and> i < unat blocks)"
    if "length m = 4096" for "is" m
    using that assms(2) by (induction "is" arbitrary: m) (auto simp: bit_mark_obj)
  moreover have "set (objs r) = (\<lambda>k. rt_obj r ! k) ` set [0..<unat (rt_nobj r)]"
    using objs_index [OF assms(3,4)] by auto
  ultimately show ?thesis
    using assms(1,2) by (auto simp: mark_root_def bit_mark_block gen_blocks_def)
qed

text \<open>Operations that read the device and add marks to the allocation map.\<close>

definition marks_only :: "disk store \<Rightarrow> disk store \<Rightarrow> bool" where
  "marks_only s t \<longleftrightarrow> (\<exists>s1 u. reads_only s s1 \<and> t = s1\<lparr>s_used := u\<rparr> \<and> length u = 4096
     \<and> (\<forall>b. bit_get (s_used s) b \<longrightarrow> bit_get u b))"

lemma reads_only_used:
  "reads_only s t \<Longrightarrow> reads_only (s\<lparr>s_used := u\<rparr>) (t\<lparr>s_used := u\<rparr>)"
  "reads_only s t \<Longrightarrow> reads_only (s\<lparr>s_cur := r\<rparr>) (t\<lparr>s_cur := r\<rparr>)"
proof -
  assume ro: "reads_only s t"
  then obtain c a w f where t: "t = s\<lparr>s_dev := (s_dev s)\<lparr>dv_ctx := c\<rparr>, s_reads := a, s_writes := w,
      s_flushes := f\<rparr>"
    by (auto simp: reads_only_def dev_only_def)
  have "dev_only (s\<lparr>s_used := u\<rparr>) (t\<lparr>s_used := u\<rparr>)" "dev_only (s\<lparr>s_cur := r\<rparr>) (t\<lparr>s_cur := r\<rparr>)"
    by (rule dev_onlyI [where c = c and r = a and w = w and f = f], simp add: t)+
  then show "reads_only (s\<lparr>s_used := u\<rparr>) (t\<lparr>s_used := u\<rparr>)"
    "reads_only (s\<lparr>s_cur := r\<rparr>) (t\<lparr>s_cur := r\<rparr>)"
    using ro by (simp_all add: reads_only_def)
qed

lemma marks_only_refl: "length (s_used s) = 4096 \<Longrightarrow> marks_only s s"
  unfolding marks_only_def by (intro exI [of _ s] exI [of _ "s_used s"]) simp

lemma marks_only_trans:
  assumes "marks_only s t" and "marks_only t u"
  shows "marks_only s u"
proof -
  obtain s1 m where s1: "reads_only s s1" "t = s1\<lparr>s_used := m\<rparr>"
    and m: "length m = 4096" "\<forall>b. bit_get (s_used s) b \<longrightarrow> bit_get m b"
    using assms(1) by (auto simp: marks_only_def)
  obtain t1 n where t1: "reads_only t t1" "u = t1\<lparr>s_used := n\<rparr>"
    and n: "length n = 4096" "\<forall>b. bit_get m b \<longrightarrow> bit_get n b"
    using assms(2) s1(2) by (auto simp: marks_only_def)
  have "reads_only s1 (t1\<lparr>s_used := s_used s1\<rparr>)"
    using reads_only_used(1) [OF t1(1), of "s_used s1"] s1(2) by simp
  then have "reads_only s (t1\<lparr>s_used := s_used s1\<rparr>)" using s1(1) by (rule reads_only_trans [rotated])
  then show ?thesis
    unfolding marks_only_def t1(2) using n m(2)
    by (intro exI [of _ "t1\<lparr>s_used := s_used s1\<rparr>"] exI [of _ n]) simp
qed

lemma marks_only_fields:
  assumes "marks_only s t"
  shows "s_flags t = s_flags s" "s_mounted t = s_mounted s" "s_in_tx t = s_in_tx s"
    "s_tx_prune t = s_tx_prune s" "s_tx_reserve t = s_tx_reserve s" "s_cur_slot t = s_cur_slot s"
    "s_cur_blk t = s_cur_blk s" "s_max_gen t = s_max_gen s" "s_boot_id t = s_boot_id s"
    "s_cur t = s_cur s" "s_work t = s_work s" "s_txused t = s_txused s"
    "dv_blocks (s_dev t) = dv_blocks (s_dev s)" "on_disk t = on_disk s"
    "dk_dur (dsk t) = dk_dur (dsk s)" "dk_log (dsk t) = dk_log (dsk s)"
    "dk_plan (dsk s) = [] \<Longrightarrow> dk_plan (dsk t) = []" "length (s_used t) = 4096"
    "bit_get (s_used s) b \<Longrightarrow> bit_get (s_used t) b" "stable (dsk t) b = stable (dsk s) b"
proof -
  obtain s1 u where "reads_only s s1" "t = s1\<lparr>s_used := u\<rparr>" "length u = 4096"
    "\<forall>b. bit_get (s_used s) b \<longrightarrow> bit_get u b"
    using assms by (auto simp: marks_only_def)
  then show "s_flags t = s_flags s" "s_mounted t = s_mounted s" "s_in_tx t = s_in_tx s"
    "s_tx_prune t = s_tx_prune s" "s_tx_reserve t = s_tx_reserve s" "s_cur_slot t = s_cur_slot s"
    "s_cur_blk t = s_cur_blk s" "s_max_gen t = s_max_gen s" "s_boot_id t = s_boot_id s"
    "s_cur t = s_cur s" "s_work t = s_work s" "s_txused t = s_txused s"
    "dv_blocks (s_dev t) = dv_blocks (s_dev s)" "on_disk t = on_disk s"
    "dk_dur (dsk t) = dk_dur (dsk s)" "dk_log (dsk t) = dk_log (dsk s)"
    "dk_plan (dsk s) = [] \<Longrightarrow> dk_plan (dsk t) = []" "length (s_used t) = 4096"
    "bit_get (s_used s) b \<Longrightarrow> bit_get (s_used t) b" "stable (dsk t) b = stable (dsk s) b"
    by (simp_all add: reads_only_simps on_disk_def) (simp_all add: reads_only_def)
qed

lemma mark_ref_spec:
  assumes "on_disk s" and "nblks s \<le> 32768" and "length (s_used s) = 4096"
    and "mark_ref i (s, n) = (t, n')"
  shows "marks_only s t"
proof -
  define ref where "ref = kept_ref (s_cur s) i"
  define s1 where "s1 = s\<lparr>s_used := mark_block (dv_blocks (s_dev s)) (ucast (sr_blk ref)) (s_used s)\<rparr>"
  obtain st r s2 where lr: "load_root s1 (sr_blk ref) (sr_gen ref) (sr_crc ref) (s_cur s) = (st, r, s2)"
    by (metis prod_cases3)
  have m1: "marks_only s s1"
    unfolding marks_only_def s1_def using assms(2,3) bit_mark_block [OF assms(3,2)]
    by (intro exI [of _ s]) auto
  have "on_disk s1" using assms(1) by (simp add: s1_def on_disk_def)
  from load_root_spec(1) [OF this lr] have r2: "reads_only s1 s2" .
  have u: "s_used s2 = s_used s1" "length (s_used s1) = 4096" "dv_blocks (s_dev s2) = dv_blocks (s_dev s)"
    using r2 assms(3) by (simp_all add: reads_only_simps) (simp_all add: s1_def)
  have mono: "bit_get m b \<Longrightarrow> bit_get (mark_root m r' blk bl) b"
    if "length m = 4096" "unat bl \<le> 32768" for m r' blk bl b
    using that mark_root_mono [of m bl] by blast
  have "t = s2 \<or> t = s2\<lparr>s_used := mark_root (s_used s2) r (sr_blk ref) (dv_blocks (s_dev s2))\<rparr>"
    using assms(4) lr by (auto simp: mark_ref_def Let_def ref_def [symmetric] s1_def [symmetric] split: if_splits)
  then have "marks_only s1 t"
  proof
    assume "t = s2"
    then show ?thesis unfolding marks_only_def using r2 u
      by (intro exI [of _ s2] exI [of _ "s_used s2"]) simp
  next
    assume "t = s2\<lparr>s_used := mark_root (s_used s2) r (sr_blk ref) (dv_blocks (s_dev s2))\<rparr>"
    then show ?thesis unfolding marks_only_def using r2 u assms(2) mono
      by (intro exI [of _ s2]) auto
  qed
  then show ?thesis using m1 marks_only_trans by blast
qed

text \<open>A retained reference is covered when all blocks of the root it names are marked.\<close>

definition ref_covered :: "disk store \<Rightarrow> st_ref \<Rightarrow> bool" where
  "ref_covered s ref \<longleftrightarrow> (\<forall>r. root_wf r \<longrightarrow>
     root_ok (dk_dur (dsk s)) (dv_blocks (s_dev s)) (sr_blk ref) (sr_gen ref) (sr_crc ref) r \<longrightarrow>
     (\<forall>b \<in> gen_blocks r (unat (sr_blk ref)). b < nblks s \<longrightarrow> bit_get (s_used s) b))"

lemma ref_covered_mono: "marks_only s t \<Longrightarrow> ref_covered s ref \<Longrightarrow> ref_covered t ref"
  by (simp add: ref_covered_def marks_only_fields)

lemma mark_ref_covers:
  assumes od: "on_disk s" and nb: "nblks s \<le> 32768" and ul: "length (s_used s) = 4096"
    and mr: "mark_ref i (s, n) = (t, n')" and plan: "dk_plan (dsk s) = []"
    and st: "stable (dsk s) (unat (sr_blk (kept_ref (s_cur s) i)))"
  shows "ref_covered t (kept_ref (s_cur s) i)"
  unfolding ref_covered_def
proof (intro allI impI ballI)
  fix r b
  define ref where "ref = kept_ref (s_cur s) i"
  define s1 where "s1 = s\<lparr>s_used := mark_block (dv_blocks (s_dev s)) (ucast (sr_blk ref)) (s_used s)\<rparr>"
  note mo = marks_only_fields [OF mark_ref_spec [OF od nb ul mr]]
  assume "root_wf r" and "root_ok (dk_dur (dsk t)) (dv_blocks (s_dev t)) (sr_blk (kept_ref (s_cur s) i))
      (sr_gen (kept_ref (s_cur s) i)) (sr_crc (kept_ref (s_cur s) i)) r"
    and b: "b \<in> gen_blocks r (unat (sr_blk (kept_ref (s_cur s) i)))" "b < nblks t"
  then have ro: "root_ok (dk_dur (dsk s1)) (dv_blocks (s_dev s1)) (sr_blk ref) (sr_gen ref) (sr_crc ref) r"
    and wf: "root_wf r" "rt_nobj r \<le> 49"
    by (auto simp: mo s1_def ref_def root_ok_def root_sane_def)
  obtain st' r' s2 where lr: "load_root s1 (sr_blk ref) (sr_gen ref) (sr_crc ref) (s_cur s) = (st', r', s2)"
    by (metis prod_cases3)
  have s1: "on_disk s1" "dk_plan (dsk s1) = []" "nblks s1 \<le> 2 ^ 32" "stable (dsk s1) (unat (sr_blk ref))"
    using od plan nb st by (simp_all add: s1_def on_disk_def ref_def)
  have "st' = ST_OK \<and> r' = r" by (rule load_root_spec(3) [OF s1(1) lr s1(2-4) ro])
  then have t: "t = s2\<lparr>s_used := mark_root (s_used s2) r (sr_blk ref) (dv_blocks (s_dev s2))\<rparr>"
    using mr lr by (auto simp: mark_ref_def Let_def ref_def [symmetric] s1_def [symmetric])
  have "length (s_used s2) = 4096" "dv_blocks (s_dev s2) = dv_blocks (s_dev s)"
    using load_root_spec(1) [OF s1(1) lr] ul by (simp_all add: reads_only_simps) (simp_all add: s1_def)
  then show "bit_get (s_used t) b"
    using b nb wf bit_mark_root [of "s_used s2" "dv_blocks (s_dev s)" r] by (simp add: t ref_def)
qed

definition used_start :: "'c store \<Rightarrow> bytes" where
  "used_start s = mark_root (bit_set (bit_set (replicate 4096 0) 0) 1) (s_cur s) (s_cur_blk s)
                    (dv_blocks (s_dev s))"

lemma recompute_used_none:
  "rt_nhist (s_cur s) = 0 \<Longrightarrow> rt_npin (s_cur s) = 0 \<Longrightarrow> recompute_used s = (0, s\<lparr>s_used := used_start s\<rparr>)"
  unfolding recompute_used_def Let_def used_start_def [symmetric] by simp

lemma fold_mark_ref:
  assumes "on_disk s" and "nblks s \<le> 32768" and "length (s_used s) = 4096"
    and "fold mark_ref is (s, n) = (t, n')"
  shows "marks_only s t \<and> (dk_plan (dsk s) = [] \<longrightarrow>
      (\<forall>i \<in> set is. stable (dsk s) (unat (sr_blk (kept_ref (s_cur s) i)))
         \<longrightarrow> ref_covered t (kept_ref (s_cur s) i)))"
  using assms
proof (induction "is" arbitrary: s n)
  case Nil
  then show ?case by (auto intro: marks_only_refl)
next
  case (Cons i "is")
  obtain s1 n1 where m: "mark_ref i (s, n) = (s1, n1)" by fastforce
  note mo = mark_ref_spec [OF Cons.prems(1-3) m]
  note f = marks_only_fields [OF mo]
  have rest: "marks_only s1 t" "dk_plan (dsk s1) = [] \<Longrightarrow>
      \<forall>i \<in> set is. stable (dsk s1) (unat (sr_blk (kept_ref (s_cur s1) i)))
         \<longrightarrow> ref_covered t (kept_ref (s_cur s1) i)"
    using Cons.IH [of s1 n1] Cons.prems m f by auto
  show ?case
    using rest f mark_ref_covers [OF Cons.prems(1-3) m] ref_covered_mono [OF rest(1)]
      marks_only_trans [OF mo rest(1)]
    by auto
qed

lemma recompute_used_spec:
  assumes "on_disk s" and "nblks s \<le> 32768" and "recompute_used s = (n, t)"
  shows "marks_only (s\<lparr>s_used := used_start s\<rparr>) t"
    and "dk_plan (dsk s) = [] \<Longrightarrow> i < unat (rt_nhist (s_cur s) + rt_npin (s_cur s)) \<Longrightarrow>
      stable (dsk s) (unat (sr_blk (kept_ref (s_cur s) i))) \<Longrightarrow> ref_covered t (kept_ref (s_cur s) i)"
proof -
  define s1 where "s1 = s\<lparr>s_used := used_start s\<rparr>"
  have s1: "on_disk s1" "nblks s1 \<le> 32768" "length (s_used s1) = 4096"
    using assms(1,2) by (simp_all add: s1_def on_disk_def used_start_def)
  have "fold mark_ref [0..<unat (rt_nhist (s_cur s) + rt_npin (s_cur s))] (s1, 0) = (t, n)"
    using assms(3) by (auto simp: recompute_used_def s1_def used_start_def Let_def split: prod.splits)
  note f = fold_mark_ref [OF s1 this]
  show "marks_only (s\<lparr>s_used := used_start s\<rparr>) t" using f by (simp add: s1_def)
  show "ref_covered t (kept_ref (s_cur s) i)"
    if "dk_plan (dsk s) = []" "i < unat (rt_nhist (s_cur s) + rt_npin (s_cur s))"
      "stable (dsk s) (unat (sr_blk (kept_ref (s_cur s) i)))"
    using f that by (simp add: s1_def)
qed

lemma used_start_bits:
  assumes "root_wf (s_cur s)" and "rt_nobj (s_cur s) \<le> 49" and "nblks s \<le> 32768" and "i < 32768"
  shows "bit_get (used_start s) i = (i < 2 \<or> i \<in> gen_blocks (s_cur s) (unat (s_cur_blk s)) \<and> i < nblks s)"
proof -
  have "bit_get (bit_set (bit_set (replicate 4096 0) 0) 1) i = (i < 2)"
    using assms(4) bit_get_zero [of i] by (auto simp: bit_get_set)
  then show ?thesis using assms by (simp add: used_start_def bit_mark_root)
qed

section \<open>Mounting after a power cycle\<close>

definition slot_valid :: "(nat \<Rightarrow> bytes) \<Rightarrow> slot_info \<Rightarrow> st_root \<Rightarrow> bool" where
  "slot_valid img si r \<longleftrightarrow> gen_ok img (si_blocks si) (si_root_blk si) r \<and> si_gen si = rt_gen r
     \<and> (si_root_crc si = 0 \<or> si_root_crc si = rt_crc r) \<and> si_store_id si = rt_store_id r"

definition fresh :: "disk store \<Rightarrow> (nat \<Rightarrow> bytes) \<Rightarrow> bool" where
  "fresh s img \<longleftrightarrow> on_disk s \<and> dk_plan (dsk s) = [] \<and> dk_log (dsk s) = [] \<and> dk_dur (dsk s) = img
     \<and> (\<forall>b. length (img b) = 4096)"

lemma fresh_stable: "fresh s img \<Longrightarrow> stable (dsk s) b"
  by (simp add: fresh_def stable_def newest_def)

lemma fresh_reads: "fresh s img \<Longrightarrow> reads_only s t \<Longrightarrow> fresh t img"
  by (simp add: fresh_def reads_only_simps) (simp add: reads_only_def)

lemma set_blocks_simps [simp]:
  "s_flags (set_blocks s n) = s_flags s" "s_cur (set_blocks s n) = s_cur s"
  "dv_blocks (s_dev (set_blocks s n)) = n" "dv_ctx (s_dev (set_blocks s n)) = dv_ctx (s_dev s)"
  "s_mounted (set_blocks s n) = s_mounted s" "s_in_tx (set_blocks s n) = s_in_tx s"
  "s_max_gen (set_blocks s n) = s_max_gen s" "s_boot_id (set_blocks s n) = s_boot_id s"
  "s_txused (set_blocks s n) = s_txused s" "s_rep (set_blocks s n) = s_rep s"
  by (simp_all add: set_blocks_def)

lemma fresh_set_blocks [simp]: "fresh (set_blocks s n) img = fresh s img"
  by (simp add: fresh_def on_disk_def set_blocks_def)

lemma fresh_cur [simp]: "fresh (s\<lparr>s_cur := r\<rparr>) img = fresh s img"
  by (simp add: fresh_def on_disk_def)

lemma try_slot_valid:
  assumes fr: "fresh s img" and fl: "s_flags s = 0" and nb: "unat (si_blocks si) \<le> 32768"
    and sv: "slot_valid img si r"
  shows "\<exists>t. try_slot s si = (ST_SLOT_CURRENT, t) \<and> reads_only ((set_blocks s (si_blocks si))\<lparr>s_cur := r\<rparr>) t"
proof -
  define s1 where "s1 = set_blocks s (si_blocks si)"
  have f1: "fresh s1 img" using fr by (simp add: s1_def)
  have ge: "gen_ok img (si_blocks si) (si_root_blk si) r" using sv by (simp add: slot_valid_def)
  obtain st r' s2 where lr: "load_root s1 (si_root_blk si) (si_gen si) (si_root_crc si) (s_cur s1) = (st, r', s2)"
    by (metis prod_cases3)
  have ro: "root_ok (dk_dur (dsk s1)) (dv_blocks (s_dev s1)) (si_root_blk si) (si_gen si) (si_root_crc si) r"
    using sv f1 by (auto simp: slot_valid_def gen_ok_def root_ok_def fresh_def s1_def)
  have od: "on_disk s1" and pl: "dk_plan (dsk s1) = []" using f1 by (simp_all add: fresh_def)
  have nb1: "nblks s1 \<le> 2 ^ 32" using nb by (simp add: s1_def)
  have ok: "st = ST_OK" "r' = r"
    using load_root_spec(3) [OF od lr pl nb1 fresh_stable [OF f1] ro] by simp_all
  define s3 where "s3 = s2\<lparr>s_cur := r\<rparr>"
  have r3: "reads_only (s1\<lparr>s_cur := r\<rparr>) s3"
    unfolding s3_def by (rule reads_only_used(2) [OF load_root_spec(1) [OF od lr]])
  have f3: "fresh s3 img" using fresh_reads [OF _ r3] f1 by simp
  have b3: "dv_blocks (s_dev s3) = si_blocks si" using r3 by (simp add: reads_only_simps) (simp add: s1_def)
  obtain vok s4 where v: "verify_objs s3 (objs r) = (vok, s4)" by fastforce
  have es: "\<forall>x \<in> set (objs r). ext_stable s3 x"
    using gen_ok_shape [OF ge nb] nb b3 f3 fresh_stable [OF f3]
    by (auto simp: ext_stable_def fresh_def)
  have od3: "on_disk s3" "dk_plan (dsk s3) = []" "dk_dur (dsk s3) = img" using f3 by (simp_all add: fresh_def)
  have vs: "reads_only s3 s4" "vok"
    using verify_objs_spec [OF od3(1) es v] od3 ge by (simp_all add: gen_ok_def)
  have "try_slot s si = (ST_SLOT_CURRENT, s4)"
    using fl lr ok v vs(2) sv
    by (simp add: try_slot_def Let_def s1_def [symmetric] s3_def [symmetric] objs_def [symmetric]
        slot_valid_def) (simp add: s1_def)
  then show ?thesis using r3 vs(1) reads_only_trans by (auto simp: s1_def)
qed

lemma read_slot_fresh:
  assumes "fresh s img"
  shows "\<exists>t. read_slot s (of_nat i) = (slot_of (img (unat (of_nat i :: u64))) (dv_blocks (s_dev s)), t) \<and> reads_only s t"
proof -
  have d: "dv_read (s_dev s) = disk_read" "next_outcome (dsk s) = (Works 0, dsk s)"
    using assms by (auto simp: fresh_def on_disk_def next_outcome_def)
  have "disk_view (dsk s) 0 b = img b" for b
    using firm_disk_view [OF fresh_stable [OF assms]] assms by (simp add: fresh_def)
  then have "dv_read (s_dev s) (dsk s) (of_nat i) 1 = (Some (img (unat (of_nat i :: u64))), dsk s)"
    using d by (simp add: disk_read_def)
  then have "read_slot s (of_nat i) = (slot_of (img (unat (of_nat i :: u64))) (dv_blocks (s_dev s)),
      s\<lparr>s_reads := s_reads s + 1\<rparr>)"
    by (simp add: read_slot_def set_ctx_def)
  moreover have "reads_only s (s\<lparr>s_reads := s_reads s + 1\<rparr>)"
    using dev_only_set_ctx(1) [of s "s_reads s + 1" "dsk s"] by (simp add: reads_only_def set_ctx_def)
  ultimately show ?thesis by blast
qed

lemma note_slot_simps [simp]:
  "s_flags (note_slot i si s) = s_flags s" "s_dev (note_slot i si s) = s_dev s"
  "s_in_tx (note_slot i si s) = s_in_tx s" "s_boot_id (note_slot i si s) = s_boot_id s"
  "s_txused (note_slot i si s) = s_txused s" "s_mounted (note_slot i si s) = s_mounted s"
  by (simp_all add: note_slot_def)

definition slot_gen :: "slot_info \<Rightarrow> u64" where
  "slot_gen si = (if si_state si = ST_SLOT_OLDER \<or> si_state si = ST_SLOT_BAD_HEADER then si_gen si else 0)"

lemma note_slot_max: "s_max_gen (note_slot i si s) = max (s_max_gen s) (slot_gen si)"
  by (auto simp: note_slot_def slot_gen_def max_def)

lemma slot_older_blocks:
  "si_state (slot_of data n) = ST_SLOT_OLDER \<Longrightarrow> 16 \<le> unat (si_blocks (slot_of data n))
     \<and> unat (si_blocks (slot_of data n)) \<le> unat n"
  by (auto simp: slot_of_def slot_zero_def Let_def word_less_nat_alt split: if_splits)

definition eff_blocks :: "u64 \<Rightarrow> u64" where
  "eff_blocks n = (if n > 32768 then 32768 else n)"

text \<open>The store after a successful mount of generation \<open>r\<close> from slot \<open>i\<close>.\<close>

definition used_only :: "bytes \<Rightarrow> st_root \<Rightarrow> nat \<Rightarrow> bool" where
  "used_only used r blk \<longleftrightarrow> (\<forall>b < 32768. bit_get used b \<longrightarrow> b < 2 \<or> b \<in> gen_blocks r blk)"

definition mounted_on :: "disk store \<Rightarrow> (nat \<Rightarrow> bytes) \<Rightarrow> nat \<Rightarrow> slot_info \<Rightarrow> st_root \<Rightarrow> bool" where
  "mounted_on m img i si r \<longleftrightarrow> fresh m img \<and> s_mounted m \<and> \<not> s_in_tx m \<and> s_flags m = 0
     \<and> s_cur m = r \<and> s_cur_slot m = int i \<and> s_cur_blk m = si_root_blk si
     \<and> dv_blocks (s_dev m) = si_blocks si \<and> length (s_used m) = 4096
     \<and> s_txused m = replicate 4096 0
     \<and> (\<forall>b. b < 2 \<or> b \<in> gen_blocks r (unat (si_root_blk si)) \<longrightarrow> bit_get (s_used m) b)
     \<and> (\<forall>k < unat (rt_nhist r + rt_npin r). ref_covered m (kept_ref r k))
     \<and> (rt_nhist r = 0 \<and> rt_npin r = 0 \<longrightarrow> used_only (s_used m) r (unat (si_root_blk si)))"

lemma used_start_only:
  assumes "root_wf (s_cur s)" and "rt_nobj (s_cur s) \<le> 49" and "nblks s \<le> 32768"
  shows "used_only (used_start s) (s_cur s) (unat (s_cur_blk s))"
  unfolding used_only_def by (intro allI impI) (simp only: used_start_bits [OF assms], elim disjE conjE, simp_all only: simp_thms)

lemma mount_finish_spec:
  assumes l: "ml_mounted l = int i" "ml_si l ! i = si" and fr: "fresh (ml_s l) img"
    and f: "s_flags (ml_s l) = 0" "\<not> s_in_tx (ml_s l)" "s_txused (ml_s l) = replicate 4096 0"
      "dv_blocks (s_dev (ml_s l)) = si_blocks si" "s_cur (ml_s l) = r"
    and ge: "gen_ok img (si_blocks si) (si_root_blk si) r" and nb: "unat (si_blocks si) \<le> 32768"
  shows "\<exists>m. mount_finish l = (ST_OK, m) \<and> mounted_on m img i si r
    \<and> s_max_gen m = s_max_gen (ml_s l) \<and> s_boot_id m = s_boot_id (ml_s l)"
proof -
  define s1 where "s1 = (ml_s l)\<lparr>s_rep := (s_rep (ml_s l))\<lparr>rp_slot_state := map si_state (ml_si l),
      rp_max_gen := s_max_gen (ml_s l)\<rparr>\<rparr>"
  define s2 where "s2 = (if rp_fallback (s_rep s1) \<and> rp_rejected_gen (s_rep s1) < rt_gen (s_cur s1)
      then s1\<lparr>s_rep := (s_rep s1)\<lparr>rp_fallback := False\<rparr>\<rparr> else s1)"
  define s3 where "s3 = s2\<lparr>s_cur_slot := int i, s_cur_blk := si_root_blk si,
      s_rep := (s_rep s2)\<lparr>rp_slot := int i, rp_gen := rt_gen (s_cur s2)\<rparr>\<rparr>"
  obtain n t where rc: "recompute_used s3 = (n, t)" by fastforce
  have s3: "s_dev s3 = s_dev (ml_s l)" "s_cur s3 = r" "s_cur_blk s3 = si_root_blk si"
    "s_cur_slot s3 = int i" "s_flags s3 = 0" "\<not> s_in_tx s3" "s_txused s3 = replicate 4096 0"
    "s_max_gen s3 = s_max_gen (ml_s l)" "s_boot_id s3 = s_boot_id (ml_s l)"
    using f by (simp_all add: s3_def s2_def s1_def)
  have od: "on_disk s3" "nblks s3 \<le> 32768" "dk_plan (dsk s3) = []"
    using fr f nb s3(1) by (simp_all add: fresh_def on_disk_def)
  note rs = recompute_used_spec [OF od(1,2) rc]
  note mf = marks_only_fields [OF rs(1)]
  define m where "m = t\<lparr>s_rep := (s_rep t)\<lparr>rp_hist_damaged := n\<rparr>, s_mounted := True\<rparr>"
  have wf: "root_wf r" "rt_nobj r \<le> 49" using ge by (auto simp: gen_ok_def root_ok_def root_sane_def)
  have "bit_get (s_used t) b" if "b < 2 \<or> b \<in> gen_blocks r (unat (si_root_blk si))" for b
  proof (rule mf(19))
    have "b < nblks s3 \<or> b < 2" "b < 32768"
      using that gen_blocks_bound [OF ge nb, of b] nb f(4) s3(1) by auto
    then show "bit_get (s_used (s3\<lparr>s_used := used_start s3\<rparr>)) b"
      using used_start_bits [of s3 b] wf s3 od(2) that by auto
  qed
  moreover have "ref_covered t (kept_ref r k)" if "k < unat (rt_nhist r + rt_npin r)" for k
    using rs(2) [of k] that s3(2) od(3) fr s3(1) by (simp add: stable_def newest_def fresh_def)
  moreover have "used_only (s_used t) r (unat (si_root_blk si))" if "rt_nhist r = 0" "rt_npin r = 0"
  proof -
    have "s_used t = used_start s3"
      using recompute_used_none [of s3] that rc by (simp add: s3(2))
    then show ?thesis using used_start_only [of s3] wf od(2) by (simp only: s3(2,3))
  qed
  moreover have "fresh t img"
    using fr s3(1) mf(14-17) od by (simp add: fresh_def on_disk_def)
  ultimately have "mounted_on m img i si r"
    using mf(1-18) s3 f(4) od
    by (simp add: mounted_on_def m_def fresh_def on_disk_def ref_covered_def)
  moreover have "mount_finish l = (ST_OK, m)"
    using l rc unfolding m_def s3_def s2_def s1_def
    by (simp add: mount_finish_def Let_def split del: if_split)
  ultimately show ?thesis using mf s3 by (simp add: m_def)
qed

lemma mount_newest:
  assumes len: "\<forall>b. length (img b) = 4096" and N: "16 \<le> N"
    and a: "a = slot_of (img 0) (eff_blocks N)" and b: "b = slot_of (img 1) (eff_blocks N)"
    and ord: "mount_order a b = (i, j)" and old: "si_state ([a, b] ! i) = ST_SLOT_OLDER"
    and sv: "slot_valid img ([a, b] ! i) r"
  shows "\<exists>m. st_mount (disk_dev N (fresh_disk img)) boot 0 = (ST_OK, m) \<and> mounted_on m img i ([a, b] ! i) r
    \<and> s_max_gen m = max (slot_gen a) (slot_gen b) \<and> s_boot_id m = boot"
proof -
  define s where "s = (store_zero (disk_dev N (fresh_disk img)))\<lparr>s_flags := 0, s_boot_id := boot\<rparr>"
  define s0 where "s0 = (if dv_blocks (s_dev s) > 32768 then set_blocks s 32768 else s)"
  have f0: "fresh s0 img"
    using len by (simp add: s0_def s_def store_zero_def disk_dev_def fresh_disk_def fresh_def on_disk_def set_blocks_def)
  have s0: "s_flags s0 = 0" "dv_blocks (s_dev s0) = eff_blocks N" "\<not> s_in_tx s0" "s_boot_id s0 = boot"
    "s_txused s0 = replicate 4096 0" "s_max_gen s0 = 0"
    by (simp_all add: s0_def s_def store_zero_def disk_dev_def eff_blocks_def)
  obtain s1 where r1: "read_slot s0 0 = (a, s1)" "reads_only s0 s1"
    using read_slot_fresh [OF f0, of 0] a s0 by auto
  define s2 where "s2 = note_slot 0 a s1"
  have f2: "fresh s2 img" using fresh_reads [OF f0 r1(2)] by (simp add: s2_def fresh_def on_disk_def)
  have "dv_blocks (s_dev s2) = eff_blocks N" using r1(2) s0 by (simp add: s2_def reads_only_simps)
  then obtain s3 where r2: "read_slot s2 1 = (b, s3)" "reads_only s2 s3"
    using read_slot_fresh [OF f2, of 1] b by auto
  define s4 where "s4 = note_slot 1 b s3"
  have f4: "fresh s4 img" using fresh_reads [OF f2 r2(2)] by (simp add: s4_def fresh_def on_disk_def)
  have s4: "s_flags s4 = 0" "\<not> s_in_tx s4" "s_boot_id s4 = boot" "s_txused s4 = replicate 4096 0"
    "s_max_gen s4 = max (slot_gen a) (slot_gen b)"
    using r1(2) r2(2) s0 by (simp_all add: s4_def s2_def reads_only_simps note_slot_max)
  define si where "si = [a, b] ! i"
  have ij: "i < 2" "i + j = 1" using ord by (auto simp: mount_order_def split: if_splits)
  have "unat (eff_blocks N) \<le> 32768" by (simp add: eff_blocks_def word_le_nat_alt word_less_nat_alt)
  moreover have "unat (si_blocks si) \<le> unat (eff_blocks N)"
    using old a b ij slot_older_blocks [of "img 0" "eff_blocks N"]
      slot_older_blocks [of "img 1" "eff_blocks N"]
    by (cases i) (auto simp: si_def)
  ultimately have nb: "unat (si_blocks si) \<le> 32768" by linarith
  obtain t where t: "try_slot s4 si = (ST_SLOT_CURRENT, t)" "reads_only ((set_blocks s4 (si_blocks si))\<lparr>s_cur := r\<rparr>) t"
    using try_slot_valid [OF f4 s4(1) nb] sv by (auto simp: si_def)
  define l where "l = \<lparr>ml_s = t, ml_si = [a, b][i := si\<lparr>si_state := ST_SLOT_CURRENT\<rparr>], ml_mounted = int i\<rparr>"
  have l1: "mount_try i \<lparr>ml_s = s4, ml_si = [a, b], ml_mounted = - 1\<rparr> = l"
    using old t(1) by (simp add: mount_try_def si_def [symmetric] l_def)
  have l2: "mount_try j l = l" by (simp add: mount_try_def l_def)
  define si' where "si' = si\<lparr>si_state := ST_SLOT_CURRENT\<rparr>"
  have ft: "fresh t img" using fresh_reads [OF _ t(2)] f4 by simp
  have ge: "gen_ok img (si_blocks si') (si_root_blk si') r" using sv by (simp add: slot_valid_def si_def si'_def)
  have "\<exists>m. mount_finish l = (ST_OK, m) \<and> mounted_on m img i si' r
      \<and> s_max_gen m = s_max_gen (ml_s l) \<and> s_boot_id m = s_boot_id (ml_s l)"
    by (rule mount_finish_spec [OF _ _ _ _ _ _ _ _ ge])
       (use t(2) ft s4 nb ij in \<open>simp_all add: l_def si'_def reads_only_simps del: list_update.simps\<close>)
  moreover have "mounted_on m img i si' r = mounted_on m img i si r" for m
    by (simp add: mounted_on_def si'_def)
  moreover have "st_mount (disk_dev N (fresh_disk img)) boot 0 = mount_finish l"
  proof -
    have "\<not> dv_blocks (disk_dev N (fresh_disk img)) < 16" using N by (simp add: disk_dev_def not_less)
    then show ?thesis
      using r1(1) r2(1) ord l1 l2 unfolding st_mount_def Let_def s4_def s2_def s0_def s_def
      by (simp split del: if_split)
  qed
  ultimately show ?thesis
    using t(2) s4 by (auto simp: si_def l_def reads_only_simps)
qed

end
