(* ===== verification/Store_Tx.thy ===== *)
theory Store_Tx
  imports Store_Mount
begin

text \<open>
  The write side of the block store: what writes and flushes do to the disk, the invariant of a
  mounted store, the invariant of an open transaction, and that every operation of a transaction
  keeps both. The allocator only hands out blocks that neither the retained generations nor the
  open transaction use, so whatever a transaction scribbles never touches a durable generation.
\<close>

section \<open>Writes and flushes\<close>

definition writes_only :: "disk store \<Rightarrow> disk store \<Rightarrow> nat set \<Rightarrow> bool" where
  "writes_only s t S \<longleftrightarrow> dev_only s t \<and> dk_dur (dsk t) = dk_dur (dsk s) \<and> disk_ok (dsk t)
     \<and> (\<forall>b. b \<notin> S \<longrightarrow> newest (dsk t) b = newest (dsk s) b)"

lemma writes_only_refl: "disk_ok (dsk s) \<Longrightarrow> writes_only s s S"
  by (simp add: writes_only_def)

lemma writes_only_trans: "writes_only s t S \<Longrightarrow> writes_only t u S \<Longrightarrow> writes_only s u S"
  by (auto simp: writes_only_def intro: dev_only_trans)

lemma writes_only_mono: "writes_only s t S \<Longrightarrow> S \<subseteq> R \<Longrightarrow> writes_only s t R"
  by (auto simp: writes_only_def)

lemma writes_only_fields: "writes_only s t S \<Longrightarrow> dev_only s t"
  by (simp add: writes_only_def)

lemmas writes_only_simps = dev_only_fields [OF writes_only_fields] dev_only_disk [OF writes_only_fields]

lemma writes_only_disk:
  assumes "writes_only s t S"
  shows "disk_ok (dsk t)" and "dk_dur (dsk t) = dk_dur (dsk s)"
    and "b \<notin> S \<Longrightarrow> newest (dsk t) b = newest (dsk s) b"
    and "b \<notin> S \<Longrightarrow> stable (dsk t) b = stable (dsk s) b"
    and "b \<notin> S \<Longrightarrow> firm (dsk t) b = firm (dsk s) b"
    and "b \<notin> S \<Longrightarrow> view (dsk t) b = view (dsk s) b"
  using assms by (simp_all add: writes_only_def stable_def firm_def view_def cong: option.case_cong)

lemma dev_write_spec:
  assumes od: "on_disk s" and ok: "disk_ok (dsk s)" and len: "length buf = unat n * 4096"
    and w: "dev_write s blk n buf = (st, t)"
  shows "writes_only s t {unat blk..<unat blk + unat n}" and "st = ST_OK \<or> st = ST_E_IO"
    and "st = ST_OK \<Longrightarrow> i < unat n \<Longrightarrow>
      newest (dsk t) (unat blk + i) = Some (take 4096 (drop (i * 4096) buf), True)"
proof -
  show "st = ST_OK \<or> st = ST_E_IO"
    using w by (auto simp: dev_write_def Let_def split: if_splits prod.splits)
  show "writes_only s t {unat blk..<unat blk + unat n}"
  proof (cases "t = s")
    case True
    then show ?thesis using ok by (simp add: writes_only_refl)
  next
    case False
    obtain r d where d: "disk_write (dsk s) blk n buf = (r, d)" by fastforce
    have "t = set_ctx (s\<lparr>s_writes := s_writes s + 1\<rparr>) d"
      using w False d od by (auto simp: dev_write_def Let_def on_disk_def split: if_splits)
    moreover then have "dsk t = d" by (simp add: set_ctx_def)
    ultimately show ?thesis
      using dev_only_set_ctx(2) [of s "s_writes s + 1" d] disk_write_newest [OF d] ok len
      by (simp add: writes_only_def)
  qed
  show "newest (dsk t) (unat blk + i) = Some (take 4096 (drop (i * 4096) buf), True)"
    if "st = ST_OK" "i < unat n"
  proof -
    obtain r d where d: "disk_write (dsk s) blk n buf = (r, d)" by fastforce
    then have "r \<and> dsk t = d"
      using w that(1) od by (auto simp: dev_write_def Let_def on_disk_def set_ctx_def split: if_splits)
    then show ?thesis using disk_write_newest(1) [OF d, of "unat blk + i"] that(2) by simp
  qed
qed

lemma dev_flush_spec:
  assumes od: "on_disk s" and ok: "disk_ok (dsk s)" and f: "dev_flush s = (st, t)"
  shows "dev_only s t" and "disk_ok (dsk t)" and "st = ST_OK \<or> st = ST_E_IO"
    and "st = ST_OK \<Longrightarrow> firm (dsk s) b \<Longrightarrow> stable (dsk t) b \<and> dk_dur (dsk t) b = view (dsk s) b"
    and "st \<noteq> ST_OK \<Longrightarrow> dk_dur (dsk t) = dk_dur (dsk s) \<and> stable (dsk t) b = stable (dsk s) b"
proof -
  obtain r d where d: "disk_flush (dsk s) = (r, d)" by fastforce
  have t: "t = set_ctx (s\<lparr>s_flushes := s_flushes s + 1\<rparr>) d" "st = (if r then ST_OK else ST_E_IO)"
    using f d od by (auto simp: dev_flush_def Let_def on_disk_def)
  have dt: "dsk t = d" by (simp add: t set_ctx_def)
  show "dev_only s t" by (simp add: t dev_only_set_ctx)
  show "st = ST_OK \<or> st = ST_E_IO" by (simp add: t)
  show "disk_ok (dsk t)"
    using d ok disk_flush_ok(1) [of "dsk s" d] disk_flush_fail(3) [of "dsk s" d] dt by (cases r) auto
  show "stable (dsk t) b \<and> dk_dur (dsk t) b = view (dsk s) b" if "st = ST_OK" "firm (dsk s) b"
    using that d t(2) dt disk_flush_ok(2) [OF _ ok, of d b] by (cases r) auto
  show "dk_dur (dsk t) = dk_dur (dsk s) \<and> stable (dsk t) b = stable (dsk s) b" if "st \<noteq> ST_OK"
    using that d t(2) dt disk_flush_fail(1,2) [of "dsk s" d] by (cases r) auto
qed

section \<open>Allocation\<close>

lemma find_run_spec:
  assumes "find_run free n [lo..<hi] run = Some f" and "0 < n" and "run < n" and "run + 2 \<le> lo"
    and "\<forall>b. lo \<le> b + run \<and> b < lo \<longrightarrow> free b"
  shows "2 \<le> f \<and> f + n \<le> hi \<and> (\<forall>b \<in> {f..<f + n}. free b)"
  using assms
proof (induction "hi - lo" arbitrary: lo run)
  case 0
  then show ?case by simp
next
  case (Suc k)
  then have lt: "lo < hi" by simp
  define run1 where "run1 = (if free lo then run + 1 else 0)"
  have step: "find_run free n [lo..<hi] run
      = (if run1 = n then Some (lo + 1 - n) else find_run free n [lo + 1..<hi] run1)"
    using lt by (simp add: upt_conv_Cons run1_def)
  show ?case
  proof (cases "run1 = n")
    case True
    then have "free lo" "run + 1 = n" "f = lo + 1 - n"
      using Suc.prems(1,2) step by (auto simp: run1_def split: if_splits)
    moreover then have "free b" if "b \<in> {f..<f + n}" for b
      using Suc.prems(4,5) that by (cases "b = lo") auto
    ultimately show ?thesis using Suc.prems(4) lt by auto
  next
    case False
    have "free b" if "lo + 1 \<le> b + run1" "b < lo + 1" for b
      using Suc.prems(5) that by (cases "b = lo") (auto simp: run1_def split: if_splits)
    then have "\<forall>b. lo + 1 \<le> b + run1 \<and> b < lo + 1 \<longrightarrow> free b" by blast
    moreover have "run1 < n" "run1 + 2 \<le> lo + 1"
      using False Suc.prems(3,4) by (auto simp: run1_def split: if_splits)
    ultimately show ?thesis
      using Suc.hyps(1) [of "lo + 1" run1] Suc.hyps(2) Suc.prems(1,2) step False by simp
  qed
qed

lemma fold_bit_set:
  assumes "length m = 4096" and "\<forall>i \<in> set is. f i < 32768"
  shows "length (fold (\<lambda>i m. bit_set m (f i)) is m) = 4096"
    and "bit_get (fold (\<lambda>i m. bit_set m (f i)) is m) b = (bit_get m b \<or> b \<in> f ` set is)"
proof -
  have "length (fold (\<lambda>i m. bit_set m (f i)) is m) = 4096
    \<and> bit_get (fold (\<lambda>i m. bit_set m (f i)) is m) b = (bit_get m b \<or> b \<in> f ` set is)"
    using assms
  proof (induction "is" arbitrary: m)
    case (Cons i "is")
    then have "f i div 8 < length m" by (simp add: div_less_iff_less_mult)
    then show ?case using Cons by (auto simp: bit_get_set)
  qed simp
  then show "length (fold (\<lambda>i m. bit_set m (f i)) is m) = 4096"
    and "bit_get (fold (\<lambda>i m. bit_set m (f i)) is m) b = (bit_get m b \<or> b \<in> f ` set is)" by simp_all
qed

lemma alloc_spec:
  assumes al: "alloc s n res = (blk, t)" and n: "n \<noteq> 0" and nb: "nblks s \<le> 32768"
    and tl: "length (s_txused s) = 4096"
  shows "blk = 0 \<Longrightarrow> t = s"
    and "blk \<noteq> 0 \<Longrightarrow> \<exists>u. t = s\<lparr>s_txused := u\<rparr> \<and> length u = 4096 \<and> 2 \<le> unat blk
      \<and> unat blk + unat n \<le> nblks s \<and> (\<forall>b \<in> {unat blk..<unat blk + unat n}. blk_free s b)
      \<and> (\<forall>b. bit_get u b = (bit_get (s_txused s) b \<or> b \<in> {unat blk..<unat blk + unat n}))"
proof -
  have n0: "0 < unat n" using n by (simp add: unat_gt_0)
  have "alloc s n res = (0, s) \<or> (\<exists>first. find_run (blk_free s) (unat n) [2..<nblks s] 0 = Some first
      \<and> alloc s n res = (of_nat first,
            s\<lparr>s_txused := fold (\<lambda>i m. bit_set m (first + i)) [0..<unat n] (s_txused s)\<rparr>))"
    unfolding alloc_def Let_def
    by (cases "find_run (blk_free s) (unat n) [2..<nblks s] 0") simp_all
  then consider "blk = 0" "t = s" | first where "find_run (blk_free s) (unat n) [2..<nblks s] 0 = Some first"
      "blk = of_nat first" "t = s\<lparr>s_txused := fold (\<lambda>i m. bit_set m (first + i)) [0..<unat n] (s_txused s)\<rparr>"
    using al by fastforce
  then have "(blk = 0 \<longrightarrow> t = s) \<and> (blk \<noteq> 0 \<longrightarrow> (\<exists>u. t = s\<lparr>s_txused := u\<rparr> \<and> length u = 4096 \<and> 2 \<le> unat blk
      \<and> unat blk + unat n \<le> nblks s \<and> (\<forall>b \<in> {unat blk..<unat blk + unat n}. blk_free s b)
      \<and> (\<forall>b. bit_get u b = (bit_get (s_txused s) b \<or> b \<in> {unat blk..<unat blk + unat n}))))"
  proof cases
    case 2
    have f: "2 \<le> first" "first + unat n \<le> nblks s" "\<forall>b \<in> {first..<first + unat n}. blk_free s b"
      using find_run_spec [OF 2(1) n0 n0] by (simp_all add: not_less [symmetric])
    have u: "unat blk = first" using f nb 2(2) by (simp add: unat_of_nat)
    then have "blk \<noteq> 0" using f by auto
    have im: "(\<lambda>i. first + i) ` set [0..<unat n] = {first..<first + unat n}"
      by (simp add: image_add_atLeastLessThan add.commute)
    have rng: "\<forall>i \<in> set [0..<unat n]. first + i < 32768" using f nb by auto
    define w where "w = fold (\<lambda>i m. bit_set m (first + i)) [0..<unat n] (s_txused s)"
    have "length w = 4096" "bit_get w b = (bit_get (s_txused s) b \<or> b \<in> {first..<first + unat n})" for b
      using fold_bit_set [OF tl rng] unfolding w_def im by simp_all
    then show ?thesis
      using f u 2(3) \<open>blk \<noteq> 0\<close> unfolding w_def [symmetric] by (intro conjI impI exI [of _ w]) simp_all
  qed simp
  then show "blk = 0 \<Longrightarrow> t = s" and "blk \<noteq> 0 \<Longrightarrow> \<exists>u. t = s\<lparr>s_txused := u\<rparr> \<and> length u = 4096 \<and> 2 \<le> unat blk
      \<and> unat blk + unat n \<le> nblks s \<and> (\<forall>b \<in> {unat blk..<unat blk + unat n}. blk_free s b)
      \<and> (\<forall>b. bit_get u b = (bit_get (s_txused s) b \<or> b \<in> {unat blk..<unat blk + unat n}))"
    by simp_all
qed

section \<open>The invariant of a mounted store\<close>

definition cur_si :: "u64 \<Rightarrow> disk store \<Rightarrow> slot_info" where
  "cur_si N s = slot_of (dk_dur (dsk s) (nat (s_cur_slot s))) (eff_blocks N)"

definition other_si :: "u64 \<Rightarrow> disk store \<Rightarrow> slot_info" where
  "other_si N s = slot_of (dk_dur (dsk s) (nat (1 - s_cur_slot s))) (eff_blocks N)"

text \<open>The other slot never wins against the current one at a mount.\<close>

definition slot_loses :: "slot_info \<Rightarrow> disk store \<Rightarrow> bool" where
  "slot_loses si s \<longleftrightarrow> si_state si \<noteq> ST_SLOT_OLDER \<or> si_gen si < rt_gen (s_cur s)
     \<or> (si_gen si = rt_gen (s_cur s) \<and> s_cur_slot s = 0)"

text \<open>The superblocks and the blocks of the current generation are settled on the medium.\<close>

definition live_stable :: "disk store \<Rightarrow> bool" where
  "live_stable s \<longleftrightarrow>
     (\<forall>b. b < 2 \<or> b \<in> gen_blocks (s_cur s) (unat (s_cur_blk s)) \<longrightarrow> stable (dsk s) b)"

definition used_covers :: "disk store \<Rightarrow> bool" where
  "used_covers s \<longleftrightarrow>
     (\<forall>b. b < 2 \<or> b \<in> gen_blocks (s_cur s) (unat (s_cur_blk s)) \<longrightarrow> bit_get (s_used s) b)"

text \<open>\<open>N\<close> is the size of the device as it is offered to \<open>st_mount\<close>.\<close>

definition st_inv :: "u64 \<Rightarrow> disk store \<Rightarrow> bool" where
  "st_inv N s \<longleftrightarrow> 16 \<le> N \<and> on_disk s \<and> s_mounted s \<and> s_flags s = 0 \<and> disk_ok (dsk s)
     \<and> (s_cur_slot s = 0 \<or> s_cur_slot s = 1) \<and> 16 \<le> nblks s \<and> nblks s \<le> 32768
     \<and> si_state (cur_si N s) = ST_SLOT_OLDER \<and> si_blocks (cur_si N s) = dv_blocks (s_dev s)
     \<and> si_root_blk (cur_si N s) = s_cur_blk s
     \<and> slot_valid (dk_dur (dsk s)) (cur_si N s) (s_cur s)
     \<and> slot_loses (other_si N s) s \<and> rt_gen (s_cur s) \<le> s_max_gen s
     \<and> slot_gen (other_si N s) \<le> s_max_gen s
     \<and> length (s_used s) = 4096 \<and> length (s_txused s) = 4096
     \<and> used_covers s \<and> live_stable s"

lemma st_inv_gen:
  assumes "st_inv N s"
  shows "gen_ok (dk_dur (dsk s)) (dv_blocks (s_dev s)) (s_cur_blk s) (s_cur s)"
    and "root_wf (s_cur s)" and "root_sane (s_cur s) (dv_blocks (s_dev s))"
  using assms by (auto simp: st_inv_def slot_valid_def gen_ok_def root_ok_def)

lemma st_inv_stable:
  assumes "st_inv N s"
  shows "b < 2 \<Longrightarrow> stable (dsk s) b"
    and "b \<in> gen_blocks (s_cur s) (unat (s_cur_blk s)) \<Longrightarrow> stable (dsk s) b"
  using assms by (auto simp: st_inv_def live_stable_def)

text \<open>
  The invariant says which generation a power cycle brings back: on every image the disk may
  leave behind, \<open>st_mount\<close> succeeds and mounts the current generation, from the same slot.
\<close>

lemma mount_order_wins:
  assumes "si_state c = ST_SLOT_OLDER"
  shows "si_state b \<noteq> ST_SLOT_OLDER \<or> si_gen b \<le> si_gen c \<Longrightarrow> mount_order c b = (0, 1)"
    and "si_state b \<noteq> ST_SLOT_OLDER \<or> si_gen b < si_gen c \<Longrightarrow> mount_order b c = (1, 0)"
  using assms by (auto simp: mount_order_def)

lemma image_mounts:
  assumes len: "\<forall>b. length (img b) = 4096" and N: "16 \<le> N" and k: "k = 0 \<or> k = 1"
    and c: "c = slot_of (img k) (eff_blocks N)" and old: "si_state c = ST_SLOT_OLDER"
    and sv: "slot_valid img c r"
    and other: "bx = slot_of (img (1 - k)) (eff_blocks N)"
    and lose: "si_state bx \<noteq> ST_SLOT_OLDER \<or> si_gen bx < rt_gen r \<or> si_gen bx = rt_gen r \<and> k = 0"
  shows "\<exists>m. st_mount (disk_dev N (fresh_disk img)) boot 0 = (ST_OK, m) \<and> mounted_on m img k c r
    \<and> s_max_gen m = max (slot_gen c) (slot_gen bx) \<and> s_boot_id m = boot"
proof -
  have g: "si_gen c = rt_gen r" using sv by (simp add: slot_valid_def)
  show ?thesis
  proof (cases "k = 0")
    case True
    have "si_state bx \<noteq> ST_SLOT_OLDER \<or> si_gen bx \<le> si_gen c" using lose g by auto
    then have "mount_order c bx = (0, 1)" by (rule mount_order_wins(1) [OF old])
    then show ?thesis
      using mount_newest [OF len N, of c bx 0 1 r boot] c old sv other True by simp
  next
    case False
    then have k1: "k = 1" using k by simp
    have "mount_order bx c = (1, 0)" using mount_order_wins(2) [OF old, of bx] lose g False by auto
    then show ?thesis
      using mount_newest [OF len N, of bx c 1 0 r boot] c old sv other k1
      by (simp add: max.commute)
  qed
qed

lemma crash_current:
  assumes inv: "st_inv N s" and im: "crash_image (dsk s) img"
  shows "\<exists>m. st_mount (disk_dev N (fresh_disk img)) boot 0 = (ST_OK, m)
    \<and> mounted_on m img (nat (s_cur_slot s)) (cur_si N s) (s_cur s)
    \<and> s_max_gen m = max (slot_gen (cur_si N s)) (slot_gen (other_si N s)) \<and> s_boot_id m = boot"
proof -
  define k where "k = nat (s_cur_slot s)"
  have sl: "s_cur_slot s = 0 \<or> s_cur_slot s = 1" using inv by (simp add: st_inv_def)
  then have k: "k = 0 \<or> k = 1" "nat (1 - s_cur_slot s) = 1 - k" "(s_cur_slot s = 0) = (k = 0)"
    by (auto simp: k_def)
  have dk: "disk_ok (dsk s)" using inv by (simp add: st_inv_def)
  have eq: "img b = dk_dur (dsk s) b" if "b < 2 \<or> b \<in> gen_blocks (s_cur s) (unat (s_cur_blk s))" for b
    using that st_inv_stable [OF inv] stable_image [OF _ im] by blast
  have si: "cur_si N s = slot_of (img k) (eff_blocks N)" "other_si N s = slot_of (img (1 - k)) (eff_blocks N)"
    using eq k by (auto simp: cur_si_def other_si_def k_def)
  have "gen_ok img (dv_blocks (s_dev s)) (s_cur_blk s) (s_cur s)"
    by (rule gen_ok_cong [OF st_inv_gen(1) [OF inv]]) (simp add: eq)
  then have sv: "slot_valid img (cur_si N s) (s_cur s)"
    using inv by (simp add: st_inv_def slot_valid_def)
  show ?thesis
    unfolding k_def [symmetric]
    by (rule image_mounts [OF _ _ k(1) si(1) _ sv si(2)])
       (use inv image_length [OF dk im] k(3) in \<open>auto simp: st_inv_def slot_loses_def\<close>)
qed

text \<open>Conversely, a store mounted on a fresh image satisfies the invariant.\<close>

lemma mounted_inv:
  assumes mo: "mounted_on m img k c r" and k: "k = 0 \<or> k = 1" and N: "16 \<le> N"
    and c: "c = slot_of (img k) (eff_blocks N)" and old: "si_state c = ST_SLOT_OLDER"
    and sv: "slot_valid img c r"
    and other: "bx = slot_of (img (1 - k)) (eff_blocks N)"
    and lose: "si_state bx \<noteq> ST_SLOT_OLDER \<or> si_gen bx < rt_gen r \<or> si_gen bx = rt_gen r \<and> k = 0"
    and mg: "s_max_gen m = max (slot_gen c) (slot_gen bx)"
  shows "st_inv N m"
proof -
  have f: "fresh m img" using mo by (simp add: mounted_on_def)
  have st: "stable (dsk m) b" for b using fresh_stable [OF f] .
  have dur: "dk_dur (dsk m) = img" "on_disk m" "disk_ok (dsk m)"
    using f by (simp_all add: fresh_def disk_ok_def)
  have sl: "nat (s_cur_slot m) = k" "nat (1 - s_cur_slot m) = 1 - k" "(s_cur_slot m = 0) = (k = 0)"
    "s_cur_slot m = 0 \<or> s_cur_slot m = 1"
    using mo k by (auto simp: mounted_on_def)
  have si: "cur_si N m = c" "other_si N m = bx"
    using sl dur c other by (simp_all add: cur_si_def other_si_def)
  have "unat (eff_blocks N) \<le> 32768" by (simp add: eff_blocks_def word_less_nat_alt)
  then have "16 \<le> unat (si_blocks c)" "unat (si_blocks c) \<le> 32768"
    using slot_older_blocks [of "img k" "eff_blocks N"] old c by simp_all
  moreover have "rt_gen r \<le> s_max_gen m" "slot_gen bx \<le> s_max_gen m"
    using mg sv old by (simp_all add: slot_valid_def slot_gen_def)
  ultimately show ?thesis
    using mo N dur sl si old sv lose st
    by (simp add: st_inv_def mounted_on_def slot_loses_def used_covers_def live_stable_def)
qed

lemma crash_remounts:
  assumes inv: "st_inv N s" and im: "crash_image (dsk s) img"
  shows "\<exists>m. st_mount (disk_dev N (fresh_disk img)) boot 0 = (ST_OK, m) \<and> st_inv N m
    \<and> s_cur m = s_cur s \<and> dk_dur (dsk m) = img \<and> dk_plan (dsk m) = [] \<and> \<not> s_in_tx m
    \<and> s_max_gen m \<le> s_max_gen s \<and> (\<forall>b \<in> gen_blocks (s_cur s) (unat (s_cur_blk s)). img b = dk_dur (dsk s) b)"
proof -
  obtain m where m: "st_mount (disk_dev N (fresh_disk img)) boot 0 = (ST_OK, m)"
    "mounted_on m img (nat (s_cur_slot s)) (cur_si N s) (s_cur s)"
    "s_max_gen m = max (slot_gen (cur_si N s)) (slot_gen (other_si N s))"
    using crash_current [OF assms] by blast
  have eq: "img b = dk_dur (dsk s) b" if "b < 2 \<or> b \<in> gen_blocks (s_cur s) (unat (s_cur_blk s))" for b
    using that st_inv_stable [OF inv] stable_image [OF _ im] by blast
  have "gen_ok img (dv_blocks (s_dev s)) (s_cur_blk s) (s_cur s)"
    by (rule gen_ok_cong [OF st_inv_gen(1) [OF inv]]) (simp add: eq)
  then have sv: "slot_valid img (cur_si N s) (s_cur s)"
    using inv by (simp add: st_inv_def slot_valid_def)
  have sl: "s_cur_slot s = 0 \<or> s_cur_slot s = 1" using inv by (simp add: st_inv_def)
  have "st_inv N m"
    by (rule mounted_inv [OF m(2) _ _ _ _ sv _ _ m(3)])
       (use inv sl eq in \<open>auto simp: st_inv_def cur_si_def other_si_def slot_loses_def\<close>)
  moreover have "slot_gen (cur_si N s) \<le> s_max_gen s" "slot_gen (other_si N s) \<le> s_max_gen s"
    using inv by (simp_all add: st_inv_def slot_valid_def slot_gen_def)
  ultimately show ?thesis
    using m eq by (auto simp: mounted_on_def fresh_def)
qed

end
