(* ===== verification/Store_Ops.thy ===== *)
theory Store_Ops
  imports Store_Tx
begin

text \<open>
  The operations of an open transaction (\<open>st_begin\<close>, \<open>st_put\<close>, \<open>st_del\<close>, \<open>st_pin\<close>, \<open>st_unpin\<close>,
  \<open>st_prune\<close>, \<open>st_allow_reserve\<close>, \<open>st_abort\<close>): they keep the invariant of the mounted store and
  of the transaction, and their effect on the objects is that of a map update.
\<close>

section \<open>The object and pin tables as lists\<close>

definition pins :: "st_root \<Rightarrow> st_pin list" where
  "pins r = take (unat (rt_npin r)) (rt_pin r)"

lemma obj_clash_sym: "obj_clash p x = obj_clash x p"
  by (auto simp: obj_clash_def overlap_def str_eq_cstr)

lemma obj_sane_objs:
  assumes "root_wf r" and "rt_nobj r \<le> 49"
  shows "obj_sane r blocks \<longleftrightarrow>
     (\<forall>x \<in> set (objs r). obj_entry_sane r blocks x) \<and> sorted_wrt (\<lambda>p x. \<not> obj_clash p x) (objs r)"
proof -
  have l: "length (objs r) = unat (rt_nobj r)" by (rule objs_nth [OF assms])
  have n: "objs r ! i = rt_obj r ! i" if "i < unat (rt_nobj r)" for i
    using that by (simp add: objs_def)
  show ?thesis
    unfolding obj_sane_def sorted_wrt_iff_nth_less all_set_conv_all_nth l
    using n by (auto simp: less_trans)
qed

lemma pins_length: "root_wf r \<Longrightarrow> rt_npin r \<le> 4 \<Longrightarrow> length (pins r) = unat (rt_npin r)"
  by (simp add: pins_def root_wf_def word_le_nat_alt)

lemma pin_sane_pins:
  assumes "root_wf r" and "rt_npin r \<le> 4"
  shows "pin_sane r blocks \<longleftrightarrow> (\<forall>p \<in> set (pins r). pin_entry_sane r blocks p)
     \<and> sorted_wrt (\<lambda>p q. cstr (sp_name p) \<noteq> cstr (sp_name q)) (pins r)"
proof -
  have l: "length (pins r) = unat (rt_npin r)" by (rule pins_length [OF assms])
  have n: "pins r ! i = rt_pin r ! i" if "i < unat (rt_npin r)" for i
    using that by (simp add: pins_def)
  show ?thesis
    unfolding pin_sane_def sorted_wrt_iff_nth_less all_set_conv_all_nth l
    using n by (auto simp: str_eq_cstr)
qed

lemma overlap_nat:
  assumes "ext_shape blocks x" and "ext_shape blocks p" and "unat blocks \<le> 32768"
    and "so_nblk x \<noteq> 0" and "so_nblk p \<noteq> 0"
  shows "overlap (so_blk x) (ucast (so_nblk x)) (so_blk p) (ucast (so_nblk p))
    \<longleftrightarrow> obj_blocks x \<inter> obj_blocks p \<noteq> {}"
proof -
  have s: "unat (so_blk y + ucast (so_nblk y)) = unat (so_blk y) + unat (so_nblk y)"
    if "ext_shape blocks y" for y
    using that assms(3) by (subst unat_add_small) (auto simp: ext_shape_def)
  have nz: "0 < unat (so_nblk x)" "0 < unat (so_nblk p)" using assms(4,5) by (simp_all add: unat_gt_0)
  show ?thesis
    using s [OF assms(1)] s [OF assms(2)] nz
    by (auto simp: overlap_def obj_blocks_def word_less_nat_alt)
qed

lemma sorted_wrt_replace:
  assumes "sorted_wrt P xs" and "\<And>a b. P a b = P b a" and "i < length xs"
    and "\<And>j. j < length xs \<Longrightarrow> j \<noteq> i \<Longrightarrow> P (xs ! j) y"
  shows "sorted_wrt P (xs[i := y])"
  unfolding sorted_wrt_iff_nth_less
proof (intro allI impI)
  fix a b assume "a < b" "b < length (xs[i := y])"
  then show "P (xs[i := y] ! a) (xs[i := y] ! b)"
    using assms by (auto simp: nth_list_update sorted_wrt_iff_nth_less)
qed

lemma sorted_wrt_remove:
  assumes "sorted_wrt P xs"
  shows "sorted_wrt P (take i xs @ drop (Suc i) xs)"
proof -
  have "sorted_wrt P (take i xs @ drop i xs)" using assms by simp
  then have "\<forall>x \<in> set (take i xs). \<forall>y \<in> set (drop i xs). P x y" unfolding sorted_wrt_append by blast
  moreover have "set (drop (Suc i) xs) \<subseteq> set (drop i xs)" by (rule set_drop_subset_set_drop) simp
  ultimately show ?thesis
    using assms by (auto simp: sorted_wrt_append sorted_wrt_take sorted_wrt_drop)
qed

lemma shift_down:
  assumes "i < n" and "n \<le> length xs"
  shows "fold (\<lambda>k ys. ys[k := ys ! (k + 1)]) [i..<n - 1] xs
    = take i xs @ take (n - 1 - i) (drop (i + 1) xs) @ drop (n - 1) xs"
  using assms
proof (induction "n - 1 - i" arbitrary: i xs)
  case 0
  then have "i = n - 1" by simp
  then show ?case by simp
next
  case (Suc k)
  have i: "i < n - 1" using Suc.hyps(2) by simp
  define ys where "ys = xs[i := xs ! (i + 1)]"
  have "fold (\<lambda>k ys. ys[k := ys ! (k + 1)]) [i..<n - 1] xs
      = fold (\<lambda>k ys. ys[k := ys ! (k + 1)]) [i + 1..<n - 1] ys"
    using i by (simp add: upt_conv_Cons ys_def)
  also have "\<dots> = take (i + 1) ys @ take (n - 1 - (i + 1)) (drop (i + 2) ys) @ drop (n - 1) ys"
    using Suc.hyps(1) [of "i + 1" ys] Suc.hyps(2) Suc.prems i by (simp add: ys_def)
  also have "take (i + 1) ys = take i xs @ [xs ! (i + 1)]"
    using Suc.prems by (simp add: ys_def take_Suc_conv_app_nth)
  also have "drop (i + 2) ys = drop (i + 2) xs" using i by (simp add: ys_def)
  also have "drop (n - 1) ys = drop (n - 1) xs" using i by (simp add: ys_def)
  also have "(take i xs @ [xs ! (i + 1)]) @ take (n - 1 - (i + 1)) (drop (i + 2) xs) @ drop (n - 1) xs
      = take i xs @ take (n - 1 - i) (drop (i + 1) xs) @ drop (n - 1) xs"
  proof -
    have "drop (i + 1) xs = xs ! (i + 1) # drop (i + 2) xs"
      using i Suc.prems by (simp add: Cons_nth_drop_Suc)
    moreover have "n - 1 - i = Suc (n - 1 - (i + 1))" using i by simp
    ultimately show ?thesis by simp
  qed
  finally show ?case .
qed

lemma find_index_spec:
  assumes "root_wf r" and "rt_nobj r \<le> 49"
  shows "find_index r name = None \<Longrightarrow> x \<in> set (objs r) \<Longrightarrow> cstr (so_name x) \<noteq> cstr name"
    and "find_index r name = Some i \<Longrightarrow>
      i < length (objs r) \<and> cstr (so_name (objs r ! i)) = cstr name"
proof -
  have l: "length (objs r) = unat (rt_nobj r)" by (rule objs_nth [OF assms])
  show "cstr (so_name x) \<noteq> cstr name" if "find_index r name = None" "x \<in> set (objs r)"
    using that objs_index [OF assms, of x] by (auto simp: find_index_def find_upt_None str_eq_cstr)
  show "i < length (objs r) \<and> cstr (so_name (objs r ! i)) = cstr name" if "find_index r name = Some i"
    using that l by (auto simp: find_index_def find_upt_Some str_eq_cstr objs_def)
qed

section \<open>The invariant of an open transaction\<close>

definition obj_safe :: "disk store \<Rightarrow> st_obj \<Rightarrow> bool" where
  "obj_safe s x \<longleftrightarrow> (\<forall>b \<in> obj_blocks x. (bit_get (s_used s) b \<or> bit_get (s_txused s) b) \<and> firm (dsk s) b)
     \<and> ext_ok (view (dsk s)) x"

definition tx_ok :: "disk store \<Rightarrow> bool" where
  "tx_ok s \<longleftrightarrow> (let w = s_work s; w' = w\<lparr>rt_gen := st_next_gen s\<rparr> in
     root_wf w \<and> rt_nobj w \<le> 49 \<and> rt_npin w \<le> 4 \<and> rt_magic w = ST_ROOT_MAGIC
     \<and> rt_store_id w = rt_store_id (s_cur s) \<and> rt_retain w = rt_retain (s_cur s) \<and> rt_next_oid w \<noteq> 0
     \<and> obj_sane w' (dv_blocks (s_dev s)) \<and> pin_sane w' (dv_blocks (s_dev s))
     \<and> (\<forall>x \<in> set (objs w). obj_safe s x))"

text \<open>No counter is about to wrap: \<open>n\<close> more operations are possible.\<close>

definition root_room :: "nat \<Rightarrow> st_root \<Rightarrow> bool" where
  "root_room n r \<longleftrightarrow> unat (rt_next_oid r) + n < 2 ^ 64 \<and> (\<forall>x \<in> set (objs r). unat (so_version x) + n < 2 ^ 32)"

definition st_room :: "nat \<Rightarrow> disk store \<Rightarrow> bool" where
  "st_room n s \<longleftrightarrow> unat (s_max_gen s) + n < 2 ^ 64 \<and> root_room n (s_cur s) \<and> (s_in_tx s \<longrightarrow> root_room n (s_work s))"

lemma root_room_mono: "root_room n r \<Longrightarrow> m \<le> n \<Longrightarrow> root_room m r"
  by (fastforce simp: root_room_def)

lemma st_room_mono: "st_room n s \<Longrightarrow> m \<le> n \<Longrightarrow> st_room m s"
  by (auto simp: st_room_def intro: root_room_mono)

lemma next_gen_nat: "unat (s_max_gen s) + 1 < 2 ^ 64 \<Longrightarrow> unat (st_next_gen s) = unat (s_max_gen s) + 1"
  unfolding st_next_gen_def by (subst unat_add_small) auto

lemma next_gen_gt: "st_inv N s \<Longrightarrow> unat (s_max_gen s) + 1 < 2 ^ 64 \<Longrightarrow> rt_gen (s_cur s) < st_next_gen s"
  using next_gen_nat [of s] by (simp add: st_inv_def word_less_nat_alt word_le_nat_alt)

lemma root_wf_upd [simp]:
  "root_wf (w\<lparr>rt_gen := g\<rparr>) = root_wf w" "objs (w\<lparr>rt_gen := g\<rparr>) = objs w" "pins (w\<lparr>rt_gen := g\<rparr>) = pins w"
  by (simp_all add: root_wf_def objs_def pins_def)

lemma sane_next_gen:
  assumes "root_sane r blocks" and "root_wf r" and "rt_gen r < g"
  shows "obj_sane (r\<lparr>rt_gen := g\<rparr>) blocks" and "pin_sane (r\<lparr>rt_gen := g\<rparr>) blocks"
proof -
  have n: "rt_nobj r \<le> 49" "rt_npin r \<le> 4" "obj_sane r blocks" "pin_sane r blocks"
    using assms(1) by (auto simp: root_sane_def)
  have "obj_entry_sane (r\<lparr>rt_gen := g\<rparr>) blocks x" if "obj_entry_sane r blocks x" for x
    using that assms(3) by (auto simp: obj_entry_sane_def)
  then show "obj_sane (r\<lparr>rt_gen := g\<rparr>) blocks"
    using n assms(2) by (simp add: obj_sane_objs)
  have "pin_entry_sane (r\<lparr>rt_gen := g\<rparr>) blocks p" if "pin_entry_sane r blocks p" for p
    using that assms(3) by (auto simp: pin_entry_sane_def)
  then show "pin_sane (r\<lparr>rt_gen := g\<rparr>) blocks"
    using n assms(2) by (simp add: pin_sane_pins)
qed

text \<open>The invariant of the mounted store does not mention the transaction.\<close>

definition tx_only :: "disk store \<Rightarrow> disk store \<Rightarrow> bool" where
  "tx_only s t \<longleftrightarrow> (\<exists>i p v w u. t = s\<lparr>s_in_tx := i, s_tx_prune := p, s_tx_reserve := v, s_work := w, s_txused := u\<rparr>
     \<and> (length (s_txused s) = 4096 \<longrightarrow> length u = 4096))"

lemma tx_onlyI:
  "t = s\<lparr>s_in_tx := i, s_tx_prune := p, s_tx_reserve := v, s_work := w, s_txused := u\<rparr> \<Longrightarrow>
    (length (s_txused s) = 4096 \<Longrightarrow> length u = 4096) \<Longrightarrow> tx_only s t"
  unfolding tx_only_def by blast

lemma tx_only_refl [simp]: "tx_only s s"
  by (rule tx_onlyI [where i = "s_in_tx s" and p = "s_tx_prune s" and v = "s_tx_reserve s"
        and w = "s_work s" and u = "s_txused s"]) simp_all

lemma st_inv_tx_only:
  assumes "st_inv N s" and "tx_only s t"
  shows "st_inv N t"
proof -
  obtain i p v w u where "t = s\<lparr>s_in_tx := i, s_tx_prune := p, s_tx_reserve := v, s_work := w, s_txused := u\<rparr>"
    "length (s_txused s) = 4096 \<longrightarrow> length u = 4096"
    using assms(2) unfolding tx_only_def by blast
  then show ?thesis
    using assms(1)
    by (simp add: st_inv_def cur_si_def other_si_def slot_loses_def used_covers_def
        live_stable_def on_disk_def)
qed

lemma st_inv_writes:
  assumes inv: "st_inv N s" and w: "writes_only s t S" and S: "\<forall>b \<in> S. \<not> bit_get (s_used s) b"
  shows "st_inv N t"
proof -
  note f = writes_only_simps [OF w]
  note d = writes_only_disk [OF w]
  have "live_stable t"
    using inv S d(4) by (auto simp: st_inv_def live_stable_def used_covers_def f)
  moreover have "slot_valid (dk_dur (dsk t)) (cur_si N s) (s_cur s)"
    using inv by (simp add: st_inv_def d(2))
  ultimately show ?thesis
    using inv d(1,2) f
    by (simp add: st_inv_def cur_si_def other_si_def slot_loses_def used_covers_def)
qed

lemma tx_ok_writes:
  assumes tx: "tx_ok s" and w: "writes_only s t S"
    and S: "\<forall>b \<in> S. \<not> bit_get (s_used s) b \<and> \<not> bit_get (s_txused s) b"
  shows "tx_ok t"
proof -
  note f = writes_only_simps [OF w]
  note d = writes_only_disk [OF w]
  have "obj_safe t x" if "obj_safe s x" for x
  proof -
    have off: "b \<notin> S" if "b \<in> obj_blocks x" for b
      using \<open>obj_safe s x\<close> that S by (auto simp: obj_safe_def)
    then have "obj_data (view (dsk t)) x = obj_data (view (dsk s)) x"
      by (intro obj_data_cong) (simp add: d(6))
    then show ?thesis using that off d(5) f by (simp add: obj_safe_def ext_ok_def)
  qed
  then show ?thesis using tx f by (simp add: tx_ok_def Let_def st_next_gen_def)
qed

lemma tx_ok_txused:
  assumes "tx_ok s" and "\<And>b. bit_get (s_txused s) b \<Longrightarrow> bit_get u b"
  shows "tx_ok (s\<lparr>s_txused := u\<rparr>)"
  using assms by (auto simp: tx_ok_def obj_safe_def Let_def st_next_gen_def)

section \<open>Begin and abort\<close>

lemma st_begin_inv:
  assumes inv: "st_inv N s" and room: "st_room 1 s" and b: "st_begin s = (st, t)"
  shows "st_inv N t" and "st = ST_OK \<Longrightarrow> tx_ok t \<and> s_in_tx t \<and> s_work t = s_cur s"
    and "st \<noteq> ST_OK \<Longrightarrow> t = s" and "s_cur t = s_cur s \<and> dsk t = dsk s"
proof -
  have e: "st = ST_OK \<Longrightarrow> t = s\<lparr>s_work := s_cur s, s_txused := replicate 4096 0, s_tx_prune := False,
      s_tx_reserve := False, s_in_tx := True\<rparr>" "st \<noteq> ST_OK \<Longrightarrow> t = s"
    using b by (auto simp: st_begin_def split: if_splits)
  have "tx_only s t"
  proof (cases "st = ST_OK")
    case True
    show ?thesis
      by (rule tx_onlyI [where i = True and p = False and v = False and w = "s_cur s"
            and u = "replicate 4096 0"]) (simp_all add: e(1) [OF True])
  qed (simp add: e(2))
  then show "st_inv N t" using inv by (rule st_inv_tx_only [rotated])
  show "st \<noteq> ST_OK \<Longrightarrow> t = s" by (rule e(2))
  show "s_cur t = s_cur s \<and> dsk t = dsk s" using e by (cases "st = ST_OK") simp_all
  show "tx_ok t \<and> s_in_tx t \<and> s_work t = s_cur s" if "st = ST_OK"
  proof -
    note g = st_inv_gen [OF inv]
    have gt: "rt_gen (s_cur s) < st_next_gen s"
      using next_gen_gt [OF inv] room by (simp add: st_room_def)
    have "obj_safe t x" if "x \<in> set (objs (s_cur s))" for x
    proof -
      have sub: "b \<in> gen_blocks (s_cur s) (unat (s_cur_blk s))" if "b \<in> obj_blocks x" for b
        using that \<open>x \<in> _\<close> by (auto simp: gen_blocks_def)
      have "obj_data (view (dsk s)) x = obj_data (dk_dur (dsk s)) x"
        by (rule obj_data_cong) (use sub st_inv_stable(2) [OF inv] in simp)
      then show ?thesis
        using sub st_inv_stable(2) [OF inv] inv g(1) \<open>x \<in> _\<close> e(1) [OF \<open>st = ST_OK\<close>]
        by (auto simp: obj_safe_def st_inv_def used_covers_def gen_ok_def ext_ok_def)
    qed
    then show ?thesis
      using sane_next_gen [OF g(3,2) gt] g e(1) [OF that]
      by (auto simp: tx_ok_def Let_def st_next_gen_def root_sane_def)
  qed
qed

section \<open>Put\<close>

definition padded :: "bytes \<Rightarrow> nat \<Rightarrow> nat \<Rightarrow> bytes" where
  "padded data len nblk = take len data @ replicate (nblk * 4096 - len) 0"

lemma padded_full:
  assumes "i < len div 4096" and "len \<le> length data"
  shows "take 4096 (drop (i * 4096) (take (len div 4096 * 4096) data))
    = take 4096 (drop (i * 4096) (padded data len nblk))"
proof -
  have le: "i * 4096 + 4096 \<le> len div 4096 * 4096"
    using mult_le_mono1 [of "Suc i" "len div 4096" 4096] assms(1) by simp
  have le2: "len div 4096 * 4096 \<le> len" by (simp add: div_times_less_eq_dividend)
  have "take 4096 (drop (i * 4096) (take (len div 4096 * 4096) data)) = take 4096 (drop (i * 4096) data)"
    using le by (simp add: drop_take min_def)
  moreover have "take 4096 (drop (i * 4096) (padded data len nblk)) = take 4096 (drop (i * 4096) data)"
    using le le2 assms(2) by (simp add: padded_def drop_take min_def)
  ultimately show ?thesis by simp
qed

lemma padded_rest:
  assumes "len \<le> length data" and "len < (f + 1) * 4096" and "f * 4096 \<le> len"
    and "rest = take (len - f * 4096) (drop (f * 4096) data)"
  shows "rest @ replicate (4096 - length rest) 0 = take 4096 (drop (f * 4096) (padded data len (f + 1)))"
proof -
  have "length rest = len - f * 4096" using assms by simp
  moreover have "drop (f * 4096) (padded data len (f + 1)) = rest @ replicate ((f + 1) * 4096 - len) 0"
    using assms by (simp add: padded_def drop_take)
  ultimately show ?thesis using assms(2,3) by simp
qed

lemma put_data_spec:
  assumes od: "on_disk s" and dk: "disk_ok (dsk s)" and nb: "nblks s \<le> 32768"
    and blk: "unat blk + unat nblk \<le> nblks s" and nblk: "nblk = nblk_for len"
    and len: "unat len \<le> 32768" "unat len \<le> length data"
    and pd: "put_data s blk nblk data len = (st, t)"
  shows "writes_only s t {unat blk..<unat blk + unat nblk}" and "st = ST_OK \<or> st = ST_E_IO"
    and "st = ST_OK \<Longrightarrow> i < unat nblk \<Longrightarrow> newest (dsk t) (unat blk + i)
      = Some (take 4096 (drop (i * 4096) (padded data (unat len) (unat nblk))), True)"
proof -
  define full where "full = len div 4096"
  define f where "f = unat len div 4096"
  have uf: "unat full = f" by (simp add: full_def f_def unat_div)
  have un: "unat nblk = (unat len + 4095) div 4096" using nblk nblk_for_nat [OF len(1)] by simp
  have fl: "f * 4096 \<le> unat len" "unat len < (f + 1) * 4096" by (auto simp: f_def)
  have cases: "unat nblk = f \<or> unat nblk = f + 1" "f \<le> 8" "full < nblk \<longleftrightarrow> unat nblk = f + 1"
    using un len(1) uf by (auto simp: f_def word_less_nat_alt)
  define buf where "buf = take (unat full * 4096) data"
  have lb: "length buf = unat full * 4096" using len(2) fl(1) by (simp add: buf_def uf)
  obtain st1 s1 where w1: "(if full \<noteq> 0 then dev_write s (ucast blk) full buf else (ST_OK, s)) = (st1, s1)"
    by fastforce
  have wo1: "writes_only s s1 {unat blk..<unat blk + f}" "st1 = ST_OK \<or> st1 = ST_E_IO"
    and n1: "\<And>i. st1 = ST_OK \<Longrightarrow> i < f \<Longrightarrow>
      newest (dsk s1) (unat blk + i) = Some (take 4096 (drop (i * 4096) buf), True)"
    using w1 dev_write_spec [OF od dk lb, of "ucast blk" st1 s1] uf dk
    by (auto simp: writes_only_refl unat_eq_zero split: if_splits)
  have chunk: "take 4096 (drop (i * 4096) buf) = take 4096 (drop (i * 4096) (padded data (unat len) n))"
    if "i < f" for i n
    using padded_full [of i "unat len" data n] that len(2) by (simp add: buf_def uf f_def)
  define rest where "rest = take (unat (len - full * 4096)) (drop (f * 4096) data)"
  have lr: "unat (len - full * 4096) = unat len - f * 4096"
  proof -
    have "unat (full * 4096) = f * 4096" using uf cases(2) by (subst unat_mult_small) auto
    then show ?thesis using fl(1) by (subst unat_sub_small) (auto simp: word_le_nat_alt)
  qed
  have pr: "rest @ replicate (4096 - length rest) 0 = take 4096 (drop (f * 4096) (padded data (unat len) (f + 1)))"
    by (rule padded_rest [OF len(2) fl(2,1)]) (simp add: rest_def lr)
  have res: "(st, t) = (if st1 = ST_OK \<and> full < nblk
      then dev_write s1 (ucast blk + ucast full) 1 (rest @ replicate (4096 - length rest) 0) else (st1, s1))"
    using pd w1 unfolding put_data_def Let_def full_def [symmetric] buf_def rest_def uf
    by (simp split del: if_split)
  have ua: "unat (ucast blk + ucast full :: u64) = unat blk + f"
    using blk nb uf cases by (subst unat_add_small) auto
  have s1: "on_disk s1" "disk_ok (dsk s1)"
    using wo1(1) od by (simp_all add: writes_only_simps writes_only_disk)
  have lp: "length (rest @ replicate (4096 - length rest) 0) = unat (1 :: u32) * 4096"
    using fl len(2) lr by (simp add: rest_def)
  have sub: "{unat blk..<unat blk + f} \<subseteq> {unat blk..<unat blk + unat nblk}" using cases(1) by auto
  show "writes_only s t {unat blk..<unat blk + unat nblk}" "st = ST_OK \<or> st = ST_E_IO"
  proof (atomize (full), cases "st1 = ST_OK \<and> full < nblk")
    case True
    then have w2: "dev_write s1 (ucast blk + ucast full) 1 (rest @ replicate (4096 - length rest) 0) = (st, t)"
      using res by simp
    note sp = dev_write_spec [OF s1 lp w2]
    have "writes_only s1 t {unat blk..<unat blk + unat nblk}"
      by (rule writes_only_mono [OF sp(1)]) (use ua True cases in auto)
    then show "writes_only s t {unat blk..<unat blk + unat nblk} \<and> (st = ST_OK \<or> st = ST_E_IO)"
      using sp(2) writes_only_trans [OF writes_only_mono [OF wo1(1) sub]] by blast
  next
    case False
    then have "st = st1" "t = s1" using res by (auto split: if_splits)
    then show "writes_only s t {unat blk..<unat blk + unat nblk} \<and> (st = ST_OK \<or> st = ST_E_IO)"
      using wo1 writes_only_mono [OF _ sub] by blast
  qed
  show "newest (dsk t) (unat blk + i)
      = Some (take 4096 (drop (i * 4096) (padded data (unat len) (unat nblk))), True)"
    if "st = ST_OK" "i < unat nblk"
  proof (cases "full < nblk")
    case True
    then have ok1: "st1 = ST_OK" and
      w2: "dev_write s1 (ucast blk + ucast full) 1 (rest @ replicate (4096 - length rest) 0) = (st, t)"
      using res that(1) by (auto split: if_splits)
    note sp = dev_write_spec [OF s1 lp w2]
    have n: "unat nblk = f + 1" using True cases by simp
    show ?thesis
    proof (cases "i = f")
      case True
      then show ?thesis using sp(3) [OF that(1), of 0] ua pr n by simp
    next
      case False
      then have i: "i < f" using that(2) n by simp
      then have "newest (dsk t) (unat blk + i) = newest (dsk s1) (unat blk + i)"
        using writes_only_disk(3) [OF sp(1), of "unat blk + i"] ua by simp
      then show ?thesis using n1 [OF ok1 i] chunk [OF i] by simp
    qed
  next
    case False
    then have "t = s1" "st1 = ST_OK" "i < f" using res that cases by auto
    then show ?thesis using n1 chunk by simp
  qed
qed

text \<open>The record that \<open>st_put\<close> writes, and where.\<close>

definition put_obj :: "disk store \<Rightarrow> nat option \<Rightarrow> bytes \<Rightarrow> u16 \<Rightarrow> u32 \<Rightarrow> bytes \<Rightarrow> u32 \<Rightarrow> st_obj" where
  "put_obj s idx name kind blk data len =
     (case idx of
        None \<Rightarrow> obj_zero\<lparr>so_oid := rt_next_oid (s_work s), so_version := 1, so_name := str_copy 28 name\<rparr>
      | Some i \<Rightarrow> (objs (s_work s) ! i)\<lparr>so_version := so_version (objs (s_work s) ! i) + 1\<rparr>)
     \<lparr>so_mod_gen := st_next_gen s, so_kind := kind, so_blk := blk, so_nblk := ucast (nblk_for len),
      so_len := len, so_crc := nx_crc32 (take (unat len) data)\<rparr>"

definition put_effect :: "st_root \<Rightarrow> nat option \<Rightarrow> st_obj \<Rightarrow> st_root \<Rightarrow> bool" where
  "put_effect w idx x w' \<longleftrightarrow>
     objs w' = (case idx of None \<Rightarrow> objs w @ [x] | Some i \<Rightarrow> (objs w)[i := x])
     \<and> rt_nobj w' \<le> 49 \<and> root_wf w' \<and> pins w' = pins w \<and> rt_npin w' = rt_npin w
     \<and> rt_next_oid w' = (if idx = None then rt_next_oid w + 1 else rt_next_oid w)
     \<and> rt_magic w' = rt_magic w \<and> rt_store_id w' = rt_store_id w \<and> rt_retain w' = rt_retain w"

lemma obj_table_update:
  "root_wf w \<Longrightarrow> obj_wf x \<Longrightarrow> root_wf (w\<lparr>rt_nobj := n, rt_next_oid := k, rt_obj := (rt_obj w)[i := x]\<rparr>)"
  using set_update_subset_insert [of "rt_obj w" i x] by (auto simp: root_wf_def)

lemma put_effect_new:
  assumes wf: "root_wf w" and n: "rt_nobj w \<le> 49" "rt_nobj w \<noteq> 49" and x: "obj_wf x"
  shows "put_effect w None x (w\<lparr>rt_nobj := rt_nobj w + 1, rt_next_oid := rt_next_oid w + 1,
    rt_obj := (rt_obj w)[unat (rt_nobj w) := x]\<rparr>)"
proof -
  have "rt_nobj w < 49" using n by simp
  then have lt: "unat (rt_nobj w) < 49" by (simp add: word_less_nat_alt)
  then have u: "unat (rt_nobj w + 1) = unat (rt_nobj w) + 1" by (subst unat_add_small) auto
  have l: "length (rt_obj w) = 49" using wf by (simp add: root_wf_def)
  have "objs (w\<lparr>rt_nobj := rt_nobj w + 1, rt_next_oid := rt_next_oid w + 1,
      rt_obj := (rt_obj w)[unat (rt_nobj w) := x]\<rparr>) = objs w @ [x]"
    using lt u l by (simp add: objs_def take_Suc_conv_app_nth)
  then show ?thesis
    using obj_table_update [OF wf x] u lt by (simp add: put_effect_def pins_def word_le_nat_alt)
qed

lemma put_effect_old:
  assumes wf: "root_wf w" and n: "rt_nobj w \<le> 49" and x: "obj_wf x"
  shows "put_effect w (Some i) x (w\<lparr>rt_obj := (rt_obj w)[i := x]\<rparr>)"
  using obj_table_update [OF wf x, where n = "rt_nobj w" and k = "rt_next_oid w" and i = i] n
  by (simp add: put_effect_def pins_def objs_def take_update_swap)

lemma put_record_effect:
  assumes wf: "root_wf (s_work s)" and n: "rt_nobj (s_work s) \<le> 49"
    and idx: "idx = find_index (s_work s) name" and full: "idx = None \<longrightarrow> rt_nobj (s_work s) \<noteq> 49"
  shows "\<exists>w'. put_record s idx name kind blk (nblk_for len) data len = s\<lparr>s_work := w'\<rparr>
    \<and> put_effect (s_work s) idx (put_obj s idx name kind blk data len) w'"
proof (cases idx)
  case None
  define x where "x = put_obj s idx name kind blk data len"
  have x: "obj_wf x" using None by (simp add: x_def put_obj_def obj_wf_def)
  have "put_record s idx name kind blk (nblk_for len) data len
      = s\<lparr>s_work := (s_work s)\<lparr>rt_nobj := rt_nobj (s_work s) + 1, rt_next_oid := rt_next_oid (s_work s) + 1,
          rt_obj := (rt_obj (s_work s))[unat (rt_nobj (s_work s)) := x]\<rparr>\<rparr>"
    using None by (simp add: put_record_def Let_def x_def put_obj_def)
  then show ?thesis
    using put_effect_new [OF wf n _ x] full None unfolding x_def by blast
next
  case (Some i)
  define x where "x = put_obj s idx name kind blk data len"
  have i: "i < unat (rt_nobj (s_work s))" "objs (s_work s) ! i = rt_obj (s_work s) ! i"
    using find_index_spec(2) [OF wf n] idx Some objs_nth [OF wf n] by (auto simp: objs_def)
  have "i < length (rt_obj (s_work s))" using i(1) wf n by (simp add: root_wf_def word_le_nat_alt)
  then have "obj_wf (rt_obj (s_work s) ! i)" using wf by (simp add: root_wf_def)
  then have x: "obj_wf x" using Some i(2) by (simp add: x_def put_obj_def obj_wf_def)
  have "put_record s idx name kind blk (nblk_for len) data len
      = s\<lparr>s_work := (s_work s)\<lparr>rt_obj := (rt_obj (s_work s))[i := x]\<rparr>\<rparr>"
    using Some i(2) by (simp add: put_record_def Let_def x_def put_obj_def)
  then show ?thesis
    using put_effect_old [OF wf n x] Some unfolding x_def by blast
qed

lemma no_clash:
  assumes "cstr (so_name y) \<noteq> cstr (so_name x)" and "so_oid y \<noteq> so_oid x"
    and "ext_shape blocks x" and "ext_shape blocks y" and "unat blocks \<le> 32768"
    and "obj_blocks y \<inter> obj_blocks x = {}"
  shows "\<not> obj_clash y x"
  using assms overlap_nat [OF assms(3,4,5)] by (auto simp: obj_clash_def str_eq_cstr)

lemma put_obj_fields:
  "so_mod_gen (put_obj s idx name kind blk data len) = st_next_gen s"
  "so_kind (put_obj s idx name kind blk data len) = kind"
  "so_blk (put_obj s idx name kind blk data len) = blk"
  "so_nblk (put_obj s idx name kind blk data len) = ucast (nblk_for len)"
  "so_len (put_obj s idx name kind blk data len) = len"
  "so_crc (put_obj s idx name kind blk data len) = nx_crc32 (take (unat len) data)"
  by (simp_all add: put_obj_def)

lemma nblk_u16: "unat len \<le> 32768 \<Longrightarrow> unat (ucast (nblk_for len) :: u16) = unat (nblk_for len)"
  by (rule unat_ucast_down) (simp add: nblk_for_nat)

text \<open>The identity fields of the new record: a fresh name and oid, or those of the old record.\<close>

lemma put_obj_ident:
  assumes wf: "root_wf (s_work s)" and n: "rt_nobj (s_work s) \<le> 49"
    and idx: "idx = find_index (s_work s) name" and nm: "st_name_ok name"
    and ent: "\<forall>y \<in> set (objs (s_work s)). obj_entry_sane w blocks y" "rt_next_oid w = rt_next_oid (s_work s)"
    and oid: "rt_next_oid (s_work s) \<noteq> 0" and room: "root_room 1 (s_work s)"
    and x: "x = put_obj s idx name kind blk data len"
  shows "cstr (so_name x) = cstr name" and "so_version x \<noteq> 0" and "so_oid x \<noteq> 0"
    and "idx = None \<Longrightarrow> so_oid x = rt_next_oid (s_work s)"
    and "idx = Some i \<Longrightarrow> so_oid x = so_oid (objs (s_work s) ! i) \<and> so_oid x < rt_next_oid (s_work s)"
proof -
  have len27: "length (cstr name) \<le> 27" using nm by (simp add: names_ok_cstr)
  show "idx = None \<Longrightarrow> so_oid x = rt_next_oid (s_work s)" by (simp add: x put_obj_def)
  have old: "cstr (so_name x) = cstr name \<and> so_version x \<noteq> 0 \<and> so_oid x \<noteq> 0
      \<and> so_oid x = so_oid (objs (s_work s) ! i) \<and> so_oid x < rt_next_oid (s_work s)" if "idx = Some i" for i
  proof -
    have i: "i < length (objs (s_work s))" "cstr (so_name (objs (s_work s) ! i)) = cstr name"
      using find_index_spec(2) [OF wf n, of name i] idx that by simp_all
    define y where "y = objs (s_work s) ! i"
    have y: "y \<in> set (objs (s_work s))" using i(1) by (simp add: y_def)
    then have "unat (so_version y) + 1 < 2 ^ 32" using room by (simp add: root_room_def)
    then have "unat (so_version y + 1) = unat (so_version y) + 1" by (subst unat_add_small) auto
    then have "so_version y + 1 \<noteq> 0" by (metis add_is_0 unat_0 zero_neq_one)
    moreover have "so_oid y \<noteq> 0" "so_oid y < rt_next_oid (s_work s)"
      using ent y by (auto simp: obj_entry_sane_def)
    ultimately show ?thesis using that i(2) by (simp add: x put_obj_def y_def [symmetric])
  qed
  show "cstr (so_name x) = cstr name"
    using old cstr_str_copy [of name 28] len27 by (cases idx) (simp_all add: x put_obj_def)
  show "so_version x \<noteq> 0" "so_oid x \<noteq> 0"
    using old oid by (cases idx; simp add: x put_obj_def)+
  show "idx = Some i \<Longrightarrow> so_oid x = so_oid (objs (s_work s) ! i) \<and> so_oid x < rt_next_oid (s_work s)"
    using old by blast
qed

lemma put_entry_sane:
  assumes id: "cstr (so_name x) = cstr name" "so_version x \<noteq> 0" "so_oid x \<noteq> 0" "so_oid x < rt_next_oid w"
    and nm: "st_name_ok name" and g: "so_mod_gen x = rt_gen w" "rt_gen w \<noteq> 0"
    and sh: "ext_shape blocks x" and nb: "unat blocks \<le> 32768" and nblk: "so_nblk x = ucast (nblk_for (so_len x))"
  shows "obj_entry_sane w blocks x"
proof -
  have len: "unat (so_len x) \<le> 32768" using sh by (simp add: ext_shape_def)
  then have "unat (ucast (so_nblk x) :: u32) = unat (nblk_for (so_len x))"
    using nblk nblk_u16 [OF len] by simp
  then have nn: "ucast (so_nblk x) = nblk_for (so_len x)" by (metis word_of_unat)
  have sum: "unat ((ucast (so_blk x) :: u64) + ucast (so_nblk x)) = unat (so_blk x) + unat (so_nblk x)"
    using sh nb by (subst unat_add_small) (auto simp: ext_shape_def)
  have "length (cstr (so_name x)) \<le> 27" "st_name_ok (so_name x)"
    using nm id(1) by (simp_all add: names_ok_cstr)
  then show ?thesis
    using id g nn len sh sum
    by (auto simp: obj_entry_sane_def str_nlen_cstr ext_shape_def word_less_nat_alt word_le_nat_alt)
qed

lemma put_tx_ok:
  assumes tx: "tx_ok s" and nb: "nblks s \<le> 32768" and room: "st_room 1 s" "s_in_tx s"
    and nm: "st_name_ok name" and idx: "idx = find_index (s_work s) name"
    and x: "x = put_obj s idx name kind blk data len" and eff: "put_effect (s_work s) idx x w'"
    and sh: "ext_shape (dv_blocks (s_dev s)) x" and safe: "obj_safe s x"
    and apart: "\<forall>y \<in> set (objs (s_work s)). obj_blocks y \<inter> obj_blocks x = {}"
  shows "tx_ok (s\<lparr>s_work := w'\<rparr>)"
proof -
  define w where "w = s_work s"
  define B where "B = dv_blocks (s_dev s)"
  define W where "W = w\<lparr>rt_gen := st_next_gen s\<rparr>"
  define W' where "W' = w'\<lparr>rt_gen := st_next_gen s\<rparr>"
  have w: "root_wf w" "rt_nobj w \<le> 49" "rt_npin w \<le> 4" "rt_next_oid w \<noteq> 0" "obj_sane W B" "pin_sane W B"
    "\<forall>y \<in> set (objs w). obj_safe s y" "root_room 1 w"
    using tx room by (simp_all add: tx_ok_def Let_def w_def W_def B_def st_room_def)
  have w': "root_wf w'" "rt_nobj w' \<le> 49" "pins w' = pins w" "rt_npin w' = rt_npin w"
    "objs w' = (case idx of None \<Rightarrow> objs w @ [x] | Some i \<Rightarrow> (objs w)[i := x])"
    using eff [folded w_def] by (simp_all add: put_effect_def)
  have idx': "idx = find_index w name" using idx by (simp add: w_def)
  have oldW: "\<forall>y \<in> set (objs w). obj_entry_sane W B y" "sorted_wrt (\<lambda>p q. \<not> obj_clash p q) (objs w)"
    using w(5) obj_sane_objs [of W B] w(1,2) by (simp_all add: W_def)
  have gnz: "st_next_gen s \<noteq> 0"
    using next_gen_nat [of s] room by (metis One_nat_def add_is_0 st_room_def unat_0 zero_neq_one)
  have oid': "unat (rt_next_oid w + 1) = unat (rt_next_oid w) + 1"
    using w(8) by (subst unat_add_small) (auto simp: root_room_def)
  have mono: "rt_next_oid w \<le> rt_next_oid w'"
    using eff oid' by (cases "idx = None") (simp_all add: put_effect_def w_def word_le_nat_alt)
  have oldS: "\<forall>y \<in> set (objs (s_work s)). obj_entry_sane W B y" "rt_next_oid W = rt_next_oid (s_work s)"
    using oldW(1) by (simp_all add: w_def W_def)
  note id = put_obj_ident [OF w(1,2) [unfolded w_def] idx nm oldS w(4) [unfolded w_def] w(8) [unfolded w_def] x,
      folded w_def]
  have oidx: "so_oid x < rt_next_oid W'"
    using id(4,5) mono eff oid' by (cases idx) (auto simp: W'_def put_effect_def w_def word_less_nat_alt)
  have newx: "obj_entry_sane W' B x"
    by (rule put_entry_sane [OF id(1-3) oidx nm _ _ sh [folded B_def]])
       (use gnz nb in \<open>simp_all add: W'_def x put_obj_fields B_def\<close>)
  have oldx: "obj_entry_sane W' B y" if "y \<in> set (objs w)" for y
    using oldW(1) that mono by (auto simp: obj_entry_sane_def W_def W'_def)
  have ncl: "\<not> obj_clash (objs w ! j) x" if "j < length (objs w)" "idx \<noteq> Some j" for j
  proof (rule no_clash [OF _ _ sh [folded B_def] _ _])
    define y where "y = objs w ! j"
    have y: "y \<in> set (objs w)" using that by (simp add: y_def)
    show "cstr (so_name (objs w ! j)) \<noteq> cstr (so_name x)" "so_oid (objs w ! j) \<noteq> so_oid x"
    proof (atomize (full), cases idx)
      case None
      then show "cstr (so_name (objs w ! j)) \<noteq> cstr (so_name x) \<and> so_oid (objs w ! j) \<noteq> so_oid x"
        using find_index_spec(1) [OF w(1,2), of name y] idx' y id(1,4) oldW(1)
        by (auto simp: obj_entry_sane_def W_def y_def [symmetric])
    next
      case (Some i)
      have i: "i < length (objs w)" "cstr (so_name (objs w ! i)) = cstr name"
        using find_index_spec(2) [OF w(1,2), of name i] idx' Some by simp_all
      have "\<not> obj_clash y (objs w ! i)"
        using oldW(2) that i Some obj_clash_sym
        by (cases "j < i") (auto simp: sorted_wrt_iff_nth_less y_def neq_iff)
      then show "cstr (so_name (objs w ! j)) \<noteq> cstr (so_name x) \<and> so_oid (objs w ! j) \<noteq> so_oid x"
        using id(1,5) Some i(2) by (simp add: obj_clash_def str_eq_cstr y_def)
    qed
    show "ext_shape B (objs w ! j)"
      using entry_sane_shape [of W B y] oldW(1) y nb by (simp add: B_def y_def)
    show "obj_blocks (objs w ! j) \<inter> obj_blocks x = {}" using apart y by (simp add: w_def y_def)
  qed (use nb in \<open>simp add: B_def\<close>)
  have set': "set (objs w') \<subseteq> insert x (set (objs w))"
    using w'(5) set_update_subset_insert [of "objs w"] by (cases idx) auto
  have srt: "sorted_wrt (\<lambda>p q. \<not> obj_clash p q) (objs w')"
  proof (cases idx)
    case None
    then have "\<not> obj_clash p x" if "p \<in> set (objs w)" for p
      using that ncl by (auto simp: in_set_conv_nth)
    then show ?thesis using None w'(5) oldW(2) by (simp add: sorted_wrt_append)
  next
    case (Some i)
    have "i < length (objs w)" using find_index_spec(2) [OF w(1,2), of name i] idx' Some by simp
    then have "sorted_wrt (\<lambda>p q. \<not> obj_clash p q) ((objs w)[i := x])"
      by (intro sorted_wrt_replace oldW(2)) (use ncl Some obj_clash_sym in auto)
    then show ?thesis using Some w'(5) by simp
  qed
  have "obj_sane W' B"
    using obj_sane_objs [of W' B] w'(1,2) srt set' newx oldx by (auto simp: W'_def)
  moreover have "pin_sane W' B"
    using w(6) pin_sane_pins [of W B] pin_sane_pins [of W' B] w(1,3) w'(1,3,4)
    by (simp add: W_def W'_def pin_entry_sane_def)
  moreover have "obj_safe (s\<lparr>s_work := w'\<rparr>) y" if "y \<in> set (objs w')" for y
    using that set' safe w(7) by (auto simp: obj_safe_def)
  moreover have "rt_next_oid w' \<noteq> 0" using mono w(4) by (auto simp: word_le_nat_alt unat_eq_zero)
  ultimately show ?thesis
    using tx w' eff by (simp add: tx_ok_def Let_def W'_def B_def st_next_gen_def put_effect_def)
qed

section \<open>A root as a map from names to contents\<close>

definition root_alist :: "(nat \<Rightarrow> bytes) \<Rightarrow> st_root \<Rightarrow> (bytes \<times> u16 \<times> bytes) list" where
  "root_alist f r = map (\<lambda>x. (cstr (so_name x), so_kind x, obj_data f x)) (objs r)"

definition root_map :: "(nat \<Rightarrow> bytes) \<Rightarrow> st_root \<Rightarrow> bytes \<rightharpoonup> u16 \<times> bytes" where
  "root_map f r = map_of (root_alist f r)"

lemma root_map_cong:
  "objs r = objs r' \<Longrightarrow> (\<And>x. x \<in> set (objs r) \<Longrightarrow> obj_data f x = obj_data g x) \<Longrightarrow> root_map f r = root_map g r'"
  by (simp add: root_map_def root_alist_def cong: map_cong)

lemma map_of_snoc: "k \<notin> fst ` set xs \<Longrightarrow> map_of (xs @ [(k, v)]) = (map_of xs)(k \<mapsto> v)"
  by (induction xs) (auto simp: fun_eq_iff)

lemma map_of_replace:
  "distinct (map fst xs) \<Longrightarrow> i < length xs \<Longrightarrow> fst (xs ! i) = k \<Longrightarrow> map_of (xs[i := (k, v)]) = (map_of xs)(k \<mapsto> v)"
proof (induction xs arbitrary: i)
  case (Cons p xs)
  show ?case
  proof (cases i)
    case 0
    then show ?thesis using Cons.prems by (cases p) auto
  next
    case (Suc j)
    have "map_of (xs[j := (k, v)]) = (map_of xs)(k \<mapsto> v)"
      by (rule Cons.IH) (use Cons.prems Suc in simp_all)
    moreover have "fst p \<noteq> k" using Cons.prems Suc by (auto simp: image_iff)
    ultimately show ?thesis using Suc by (cases p) (auto simp: fun_eq_iff)
  qed
qed simp

lemma map_of_delete:
  "distinct (map fst xs) \<Longrightarrow> i < length xs \<Longrightarrow>
    map_of (take i xs @ drop (Suc i) xs) = (map_of xs)(fst (xs ! i) := None)"
proof (induction xs arbitrary: i)
  case (Cons p xs)
  show ?case
  proof (cases i)
    case 0
    then have "map_of xs (fst p) = None" using Cons.prems by (auto simp: map_of_eq_None_iff)
    then show ?thesis using 0 by (cases p) auto
  next
    case (Suc j)
    have "map_of (take j xs @ drop (Suc j) xs) = (map_of xs)(fst (xs ! j) := None)"
      by (rule Cons.IH) (use Cons.prems Suc in simp_all)
    moreover have "fst p \<noteq> fst (xs ! j)" using Cons.prems Suc by (auto simp: image_iff)
    ultimately show ?thesis using Suc by (cases p) (auto simp: fun_eq_iff)
  qed
qed simp

lemma names_distinct:
  "sorted_wrt (\<lambda>p q. \<not> obj_clash p q) xs \<Longrightarrow> distinct (map (\<lambda>x. cstr (so_name x)) xs)"
  by (induction xs) (auto simp: obj_clash_def str_eq_cstr)

lemma tx_ok_distinct: "tx_ok s \<Longrightarrow> distinct (map fst (root_alist f (s_work s)))"
proof -
  assume tx: "tx_ok s"
  then have "sorted_wrt (\<lambda>p q. \<not> obj_clash p q) (objs (s_work s))"
    using obj_sane_objs [of "(s_work s)\<lparr>rt_gen := st_next_gen s\<rparr>" "dv_blocks (s_dev s)"]
    by (simp add: tx_ok_def Let_def)
  from names_distinct [OF this] show ?thesis by (simp add: root_alist_def comp_def)
qed

lemma put_effect_map:
  assumes tx: "tx_ok s" and idx: "idx = find_index (s_work s) name"
    and eff: "put_effect (s_work s) idx x w'" and nm: "cstr (so_name x) = cstr name"
    and dat: "\<forall>y \<in> set (objs (s_work s)). obj_data g y = obj_data f y"
  shows "root_map g w' = (root_map f (s_work s))(cstr name \<mapsto> (so_kind x, obj_data g x))"
proof -
  define w where "w = s_work s"
  have wf: "root_wf w" "rt_nobj w \<le> 49" using tx by (simp_all add: tx_ok_def Let_def w_def)
  have al: "root_alist g w = root_alist f w" using dat by (simp add: root_alist_def w_def)
  have o': "objs w' = (case idx of None \<Rightarrow> objs w @ [x] | Some i \<Rightarrow> (objs w)[i := x])"
    using eff [folded w_def] by (simp add: put_effect_def)
  show ?thesis
  proof (cases idx)
    case None
    then have "cstr name \<notin> fst ` set (root_alist f w)"
      using find_index_spec(1) [OF wf, of name] idx by (fastforce simp: root_alist_def w_def)
    moreover have "root_alist g w' = root_alist f w @ [(cstr name, so_kind x, obj_data g x)]"
      using o' None nm al by (simp add: root_alist_def)
    ultimately show ?thesis by (simp add: root_map_def map_of_snoc w_def del: map_of_append)
  next
    case (Some i)
    have i: "i < length (objs w)" "cstr (so_name (objs w ! i)) = cstr name"
      using find_index_spec(2) [OF wf, of name i] idx Some by (simp_all add: w_def)
    have "root_alist g w' = (root_alist g w)[i := (cstr name, so_kind x, obj_data g x)]"
      using o' Some nm by (simp add: root_alist_def map_update)
    then have "root_alist g w' = (root_alist f w)[i := (cstr name, so_kind x, obj_data g x)]"
      using al by simp
    then show ?thesis
      using map_of_replace [OF tx_ok_distinct [OF tx, of f], of i "cstr name" "(so_kind x, obj_data g x)"] i
      by (simp add: root_map_def root_alist_def w_def)
  qed
qed

subsection \<open>The whole operation\<close>

text \<open>
  What every operation inside a transaction leaves alone: the mounted generation, the slots and
  the durable content of the disk.
\<close>

definition tx_frame :: "disk store \<Rightarrow> disk store \<Rightarrow> bool" where
  "tx_frame s t \<longleftrightarrow> s_cur t = s_cur s \<and> s_cur_blk t = s_cur_blk s \<and> s_cur_slot t = s_cur_slot s
     \<and> s_max_gen t = s_max_gen s \<and> s_boot_id t = s_boot_id s \<and> s_used t = s_used s
     \<and> dv_blocks (s_dev t) = dv_blocks (s_dev s) \<and> dk_dur (dsk t) = dk_dur (dsk s)"

lemma tx_frame_refl [simp]: "tx_frame s s"
  by (simp add: tx_frame_def)

lemma tx_frame_trans: "tx_frame s t \<Longrightarrow> tx_frame t u \<Longrightarrow> tx_frame s u"
  by (simp add: tx_frame_def)

lemma tx_frame_writes: "writes_only s t S \<Longrightarrow> tx_frame s t"
  by (simp add: tx_frame_def writes_only_simps writes_only_disk)

text \<open>After the data of a put has been written: the blocks are allocated, firm and hold the data.\<close>

lemma put_written:
  assumes inv: "st_inv N s" and tx: "tx_ok s" and al: "alloc s nblk res = (blk, s1)" "blk \<noteq> 0"
    and nblk: "nblk = nblk_for len" "nblk \<noteq> 0" and len: "unat len \<le> 32768" "unat len \<le> length data"
    and pd: "put_data s1 blk nblk data len = (st, s2)"
  shows "st_inv N s2" and "tx_ok s2" and "tx_frame s s2" and "s_work s2 = s_work s" and "s_in_tx s2 = s_in_tx s"
    and "2 \<le> unat blk" and "unat blk + unat nblk \<le> nblks s"
    and "b \<in> {unat blk..<unat blk + unat nblk} \<Longrightarrow> \<not> bit_get (s_used s) b \<and> \<not> bit_get (s_txused s) b
      \<and> bit_get (s_txused s2) b"
    and "b \<notin> {unat blk..<unat blk + unat nblk} \<Longrightarrow> view (dsk s2) b = view (dsk s) b"
    and "st = ST_OK \<Longrightarrow> i < unat nblk \<Longrightarrow> firm (dsk s2) (unat blk + i)
      \<and> view (dsk s2) (unat blk + i) = take 4096 (drop (i * 4096) (padded data (unat len) (unat nblk)))"
    and "st = ST_OK \<or> st = ST_E_IO"
proof -
  let ?R = "{unat blk..<unat blk + unat nblk}"
  have b: "on_disk s" "disk_ok (dsk s)" "nblks s \<le> 32768" "length (s_txused s) = 4096" "s_flags s = 0"
    using inv by (simp_all add: st_inv_def)
  obtain u where u: "s1 = s\<lparr>s_txused := u\<rparr>" "length u = 4096" and blk: "2 \<le> unat blk" "unat blk + unat nblk \<le> nblks s"
    and fr: "\<forall>b \<in> ?R. blk_free s b" and ub: "\<forall>b. bit_get u b = (bit_get (s_txused s) b \<or> b \<in> ?R)"
    using alloc_spec(2) [OF al(1) nblk(2) b(3,4) al(2)] by blast
  have free: "\<not> bit_get (s_used s) b \<and> \<not> bit_get (s_txused s) b" if "b \<in> ?R" for b
    using fr that b(5) by (auto simp: blk_free_def)
  have s1: "on_disk s1" "disk_ok (dsk s1)" "nblks s1 \<le> 32768" "unat blk + unat nblk \<le> nblks s1"
    "dsk s1 = dsk s" "s_used s1 = s_used s" "s_txused s1 = u"
    using b blk by (simp_all add: u on_disk_def)
  note sp = put_data_spec [OF s1(1-4) nblk(1) len pd]
  have fr2: "s_txused s2 = u" "s_work s2 = s_work s" "s_in_tx s2 = s_in_tx s"
    using writes_only_simps [OF sp(1)] by (simp_all add: u)
  show "2 \<le> unat blk" "unat blk + unat nblk \<le> nblks s" by (rule blk)+
  show "s_work s2 = s_work s" "s_in_tx s2 = s_in_tx s" by (rule fr2)+
  have inv1: "st_inv N s1"
    by (rule st_inv_tx_only [OF inv tx_onlyI [where i = "s_in_tx s" and p = "s_tx_prune s"
          and v = "s_tx_reserve s" and w = "s_work s" and u = u]]) (simp_all add: u)
  show "st_inv N s2" by (rule st_inv_writes [OF inv1 sp(1)]) (use free s1 in simp)
  have "tx_ok s2"
  proof -
    have sw: "writes_only s (s2\<lparr>s_txused := s_txused s\<rparr>) ?R"
    proof -
      obtain c r w f where "s2 = s1\<lparr>s_dev := (s_dev s1)\<lparr>dv_ctx := c\<rparr>, s_reads := r, s_writes := w, s_flushes := f\<rparr>"
        using sp(1) by (auto simp: writes_only_def dev_only_def)
      then have "s2\<lparr>s_txused := s_txused s\<rparr> = s\<lparr>s_dev := (s_dev s)\<lparr>dv_ctx := c\<rparr>, s_reads := r, s_writes := w, s_flushes := f\<rparr>"
        by (simp add: u)
      then have "dev_only s (s2\<lparr>s_txused := s_txused s\<rparr>)" by (rule dev_onlyI)
      then show ?thesis using sp(1) s1(5) by (simp add: writes_only_def)
    qed
    have "tx_ok (s2\<lparr>s_txused := s_txused s\<rparr>)" by (rule tx_ok_writes [OF tx sw]) (use free in blast)
    then have "tx_ok (s2\<lparr>s_txused := s_txused s, s_txused := u\<rparr>)"
      by (rule tx_ok_txused) (use ub in simp)
    moreover have "s2\<lparr>s_txused := u\<rparr> = s2" using fr2(1) by (cases s2) simp
    ultimately show ?thesis by simp
  qed
  then show "tx_ok s2" .
  show "tx_frame s s2" using tx_frame_writes [OF sp(1)] by (simp add: tx_frame_def u)
  show "\<not> bit_get (s_used s) b \<and> \<not> bit_get (s_txused s) b \<and> bit_get (s_txused s2) b" if "b \<in> ?R"
    using free that ub fr2(1) by auto
  show "view (dsk s2) b = view (dsk s) b" if "b \<notin> ?R"
    using writes_only_disk(6) [OF sp(1) that] s1(5) by simp
  show "firm (dsk s2) (unat blk + i)
      \<and> view (dsk s2) (unat blk + i) = take 4096 (drop (i * 4096) (padded data (unat len) (unat nblk)))"
    if "st = ST_OK" "i < unat nblk"
    using sp(3) [OF that] by (simp add: firm_def view_def)
  show "st = ST_OK \<or> st = ST_E_IO" by (rule sp(2))
qed

lemma put_obj_data:
  assumes len: "unat len \<le> 32768" "unat len \<le> length data"
    and x: "so_blk x = blk" "so_nblk x = ucast (nblk_for len)" "so_len x = len"
    and f: "\<And>i. i < unat (nblk_for len) \<Longrightarrow>
      f (unat blk + i) = take 4096 (drop (i * 4096) (padded data (unat len) (unat (nblk_for len))))"
  shows "obj_data f x = take (unat len) data"
proof -
  let ?n = "unat (nblk_for len)"
  have n: "?n = (unat len + 4095) div 4096" by (rule nblk_for_nat [OF len(1)])
  have le: "unat len \<le> ?n * 4096" using n by linarith
  have "[unat blk..<unat blk + ?n] = map (\<lambda>i. unat blk + i) [0..<?n]" by (simp add: map_add_upt add.commute)
  then have "ext_bytes f x = concat (map (\<lambda>i. f (unat blk + i)) [0..<?n])"
    using x nblk_u16 [OF len(1)] by (simp add: ext_bytes_def comp_def)
  also have "\<dots> = concat (map (\<lambda>i. take 4096 (drop (i * 4096) (padded data (unat len) ?n))) [0..<?n])"
    using f by (intro arg_cong [of _ _ concat] map_cong) auto
  also have "\<dots> = padded data (unat len) ?n"
    by (rule concat_chunks) (use le len(2) in \<open>simp add: padded_def\<close>)
  finally show ?thesis using len(2) x(3) by (simp add: obj_data_def padded_def)
qed

lemma put_shape:
  assumes len: "unat len \<le> 32768" and x: "so_blk x = blk" "so_nblk x = ucast (nblk_for len)" "so_len x = len"
    and blk: "nblk_for len = 0 \<longrightarrow> blk = 0" "nblk_for len \<noteq> 0 \<longrightarrow> 2 \<le> unat blk"
      "unat blk + unat (nblk_for len) \<le> unat blocks"
  shows "ext_shape blocks x" and "obj_blocks x = {unat blk..<unat blk + unat (nblk_for len)}"
proof -
  have n: "unat (so_nblk x) = unat (nblk_for len)" using x nblk_u16 [OF len] by simp
  then have z: "so_nblk x = 0 \<longleftrightarrow> nblk_for len = 0" by (metis unat_eq_zero)
  then show "ext_shape blocks x"
    using n nblk_for_nat [OF len] len x blk by (auto simp: ext_shape_def)
  show "obj_blocks x = {unat blk..<unat blk + unat (nblk_for len)}"
    using n x by (simp add: obj_blocks_def)
qed

text \<open>
  \<open>st_put\<close>: the invariants are kept in every case, nothing durable changes, and success means that
  the object now maps to the data.
\<close>

lemma put_done:
  assumes inv: "st_inv N s" and tx: "tx_ok s" and room: "st_room 1 s" "s_in_tx s"
    and nm: "st_name_ok name" and idx: "idx = find_index (s_work s) name"
    and full: "idx = None \<longrightarrow> rt_nobj (s_work s) \<noteq> 49"
    and len: "unat len \<le> 32768" "unat len \<le> length data"
    and blk: "nblk_for len = 0 \<longrightarrow> blk = 0" "nblk_for len \<noteq> 0 \<longrightarrow> 2 \<le> unat blk"
      "unat blk + unat (nblk_for len) \<le> nblks s"
    and wr: "\<And>i. i < unat (nblk_for len) \<Longrightarrow> firm (dsk s) (unat blk + i) \<and> bit_get (s_txused s) (unat blk + i)
      \<and> view (dsk s) (unat blk + i) = take 4096 (drop (i * 4096) (padded data (unat len) (unat (nblk_for len))))"
    and ap: "\<forall>y \<in> set (objs (s_work s)). obj_blocks y \<inter> {unat blk..<unat blk + unat (nblk_for len)} = {}"
    and t: "t = put_record s idx name kind blk (nblk_for len) data len"
  shows "st_inv N t" and "tx_ok t" and "tx_frame s t" and "s_in_tx t"
    and "dsk t = dsk s"
    and "root_map (view (dsk t)) (s_work t) = (root_map (view (dsk s)) (s_work s))(cstr name \<mapsto> (kind, take (unat len) data))"
proof -
  define x where "x = put_obj s idx name kind blk data len"
  have wf: "root_wf (s_work s)" "rt_nobj (s_work s) \<le> 49" using tx by (simp_all add: tx_ok_def Let_def)
  obtain w' where w': "t = s\<lparr>s_work := w'\<rparr>" "put_effect (s_work s) idx x w'"
    using put_record_effect [OF wf idx full] t unfolding x_def by blast
  note xf = put_obj_fields [of s idx name kind blk data len, folded x_def]
  note sh = put_shape [OF len(1) xf(3,4,5) blk]
  have dat: "obj_data (view (dsk s)) x = take (unat len) data"
    by (rule put_obj_data [OF len xf(3,4,5)]) (use wr in blast)
  have "firm (dsk s) b \<and> bit_get (s_txused s) b" if "b \<in> obj_blocks x" for b
    using wr [of "b - unat blk"] that sh(2) by auto
  then have safe: "obj_safe s x"
    using dat xf(6) by (simp add: obj_safe_def ext_ok_def)
  have nb: "nblks s \<le> 32768" using inv by (simp add: st_inv_def)
  have ap': "\<forall>y \<in> set (objs (s_work s)). obj_blocks y \<inter> obj_blocks x = {}" using ap sh(2) by simp
  show "tx_ok t"
    unfolding w'(1) by (rule put_tx_ok [OF tx nb room nm idx x_def w'(2) sh(1) safe ap'])
  show "st_inv N t"
    by (rule st_inv_tx_only [OF inv tx_onlyI [where i = "s_in_tx s" and p = "s_tx_prune s"
          and v = "s_tx_reserve s" and w = w' and u = "s_txused s"]]) (simp_all add: w'(1))
  show "tx_frame s t" "s_in_tx t" "dsk t = dsk s" using room(2) by (simp_all add: w'(1) tx_frame_def)
  have ent: "\<forall>y \<in> set (objs (s_work s)). obj_entry_sane ((s_work s)\<lparr>rt_gen := st_next_gen s\<rparr>) (dv_blocks (s_dev s)) y"
    and oid: "rt_next_oid (s_work s) \<noteq> 0"
    using tx obj_sane_objs [of "(s_work s)\<lparr>rt_gen := st_next_gen s\<rparr>" "dv_blocks (s_dev s)"]
    by (simp_all add: tx_ok_def Let_def)
  have rr: "root_room 1 (s_work s)" using room by (simp add: st_room_def)
  have "cstr (so_name x) = cstr name"
    by (rule put_obj_ident(1) [OF wf idx nm ent _ oid rr x_def]) simp
  then show "root_map (view (dsk t)) (s_work t) = (root_map (view (dsk s)) (s_work s))(cstr name \<mapsto> (kind, take (unat len) data))"
    using put_effect_map [OF tx idx w'(2), of "view (dsk s)" "view (dsk s)"] dat xf(2) by (simp add: w'(1))
qed

lemma root_map_off:
  assumes tx: "tx_ok s" and off: "\<And>b. bit_get (s_used s) b \<or> bit_get (s_txused s) b \<Longrightarrow> g b = view (dsk s) b"
  shows "root_map g (s_work s) = root_map (view (dsk s)) (s_work s)"
    and "\<forall>y \<in> set (objs (s_work s)). obj_data g y = obj_data (view (dsk s)) y"
proof -
  show d: "\<forall>y \<in> set (objs (s_work s)). obj_data g y = obj_data (view (dsk s)) y"
    using tx off by (auto simp: tx_ok_def Let_def obj_safe_def intro!: obj_data_cong)
  then show "root_map g (s_work s) = root_map (view (dsk s)) (s_work s)"
    by (intro root_map_cong) auto
qed

lemma put_room:
  assumes wf: "root_wf (s_work s)" "rt_nobj (s_work s) \<le> 49" and idx: "idx = find_index (s_work s) name"
    and eff: "put_effect (s_work s) idx (put_obj s idx name kind blk data len) w'"
    and room: "root_room (Suc n) (s_work s)" and small: "n < 2 ^ 32 - 1"
  shows "root_room n w'"
proof -
  define x where "x = put_obj s idx name kind blk data len"
  have "unat (rt_next_oid (s_work s)) + 1 < 2 ^ 64" using room by (simp add: root_room_def)
  then have "unat (rt_next_oid (s_work s) + 1) = unat (rt_next_oid (s_work s)) + 1"
    by (subst unat_add_small) auto
  then have "unat (rt_next_oid w') + n < 2 ^ 64"
    using eff room by (auto simp: put_effect_def root_room_def split: if_splits)
  moreover have "unat (so_version x) + n < 2 ^ 32"
  proof (cases idx)
    case None
    then show ?thesis using small by (simp add: x_def put_obj_def)
  next
    case (Some i)
    have "objs (s_work s) ! i \<in> set (objs (s_work s))"
      using find_index_spec(2) [OF wf] idx Some by simp
    then have v: "unat (so_version (objs (s_work s) ! i)) + Suc n < 2 ^ 32"
      using room by (simp add: root_room_def)
    then have "unat (so_version (objs (s_work s) ! i) + 1) = unat (so_version (objs (s_work s) ! i)) + 1"
      by (subst unat_add_small) auto
    then show ?thesis using v Some by (simp add: x_def put_obj_def)
  qed
  moreover have "set (objs w') \<subseteq> insert x (set (objs (s_work s)))"
    using eff set_update_subset_insert [of "objs (s_work s)" _ x]
    by (auto simp: put_effect_def x_def split: option.splits)
  ultimately show ?thesis using room by (fastforce simp: root_room_def)
qed

definition tx_keeps :: "u64 \<Rightarrow> disk store \<Rightarrow> disk store \<Rightarrow> bool" where
  "tx_keeps N s t \<longleftrightarrow> st_inv N t \<and> (s_in_tx t \<longrightarrow> tx_ok t) \<and> tx_frame s t
     \<and> (\<forall>n. n < 2 ^ 32 - 1 \<longrightarrow> st_room (Suc n) s \<longrightarrow> st_room n t)"

lemma tx_keeps_refl: "st_inv N s \<Longrightarrow> (s_in_tx s \<longrightarrow> tx_ok s) \<Longrightarrow> tx_keeps N s s"
  by (auto simp: tx_keeps_def intro: st_room_mono)

lemma put_room_store:
  assumes "tx_ok s" and "idx = find_index (s_work s) name" and "idx = None \<longrightarrow> rt_nobj (s_work s) \<noteq> 49"
    and "t = put_record s idx name kind blk (nblk_for len) data len"
    and "n < 2 ^ 32 - 1" and "st_room (Suc n) s" and "s_in_tx s"
  shows "st_room n t"
proof -
  have wf: "root_wf (s_work s)" "rt_nobj (s_work s) \<le> 49" using assms(1) by (simp_all add: tx_ok_def Let_def)
  obtain w' where w': "t = s\<lparr>s_work := w'\<rparr>" "put_effect (s_work s) idx (put_obj s idx name kind blk data len) w'"
    using put_record_effect [OF wf assms(2,3)] assms(4) by blast
  have "root_room n w'"
    by (rule put_room [OF wf assms(2) w'(2) _ assms(5)]) (use assms(6,7) in \<open>simp add: st_room_def\<close>)
  then show ?thesis
    using assms(6) root_room_mono [of "Suc n" "s_cur s" n] by (simp add: w'(1) st_room_def)
qed

lemma st_room_cong:
  "s_cur t = s_cur s \<Longrightarrow> s_max_gen t = s_max_gen s \<Longrightarrow> s_work t = s_work s \<Longrightarrow> s_in_tx t = s_in_tx s
    \<Longrightarrow> st_room n t = st_room n s"
  by (simp add: st_room_def)

lemma put_branch:
  assumes inv: "st_inv N s" and tx: "tx_ok s" and room: "st_room 1 s" "s_in_tx s" and nm: "st_name_ok name"
    and idx: "idx = find_index (s_work s) name" and full: "idx = None \<longrightarrow> rt_nobj (s_work s) \<noteq> 49"
    and len: "unat len \<le> 32768" "unat len \<le> length data" and nz: "nblk_for len \<noteq> 0"
    and s2: "st_inv N s2" "tx_ok s2" "tx_frame s s2" "s_work s2 = s_work s" "s_in_tx s2 = s_in_tx s"
      "2 \<le> unat blk" "unat blk + unat (nblk_for len) \<le> nblks s"
    and free: "\<And>b. b \<in> {unat blk..<unat blk + unat (nblk_for len)} \<Longrightarrow> \<not> bit_get (s_used s) b
      \<and> \<not> bit_get (s_txused s) b \<and> bit_get (s_txused s2) b"
    and off: "\<And>b. b \<notin> {unat blk..<unat blk + unat (nblk_for len)} \<Longrightarrow> view (dsk s2) b = view (dsk s) b"
    and wr: "\<And>i. e = ST_OK \<Longrightarrow> i < unat (nblk_for len) \<Longrightarrow> firm (dsk s2) (unat blk + i)
      \<and> view (dsk s2) (unat blk + i) = take 4096 (drop (i * 4096) (padded data (unat len) (unat (nblk_for len))))"
    and e: "e = ST_OK \<or> e = ST_E_IO"
  shows "tx_keeps N s s2" and "root_map (view (dsk s2)) (s_work s2) = root_map (view (dsk s)) (s_work s)"
    and "e = ST_OK \<Longrightarrow> t = put_record s2 idx name kind blk (nblk_for len) data len \<Longrightarrow>
      tx_keeps N s t \<and> s_in_tx t \<and> root_map (view (dsk t)) (s_work t)
         = (root_map (view (dsk s)) (s_work s))(cstr name \<mapsto> (kind, take (unat len) data))"
proof -
  have rm: "st_room n s2 = st_room n s" for n
    using s2(3,4,5) by (intro st_room_cong) (simp_all add: tx_frame_def)
  show "tx_keeps N s s2" using s2(1,2,3) rm by (simp add: tx_keeps_def st_room_mono)
  show m: "root_map (view (dsk s2)) (s_work s2) = root_map (view (dsk s)) (s_work s)"
    unfolding s2(4) by (rule root_map_off(1) [OF tx]) (use free off in blast)
  have ap: "\<forall>y \<in> set (objs (s_work s2)). obj_blocks y \<inter> {unat blk..<unat blk + unat (nblk_for len)} = {}"
    using tx free unfolding s2(4) by (fastforce simp: tx_ok_def Let_def obj_safe_def)
  show "tx_keeps N s t \<and> s_in_tx t \<and> root_map (view (dsk t)) (s_work t)
         = (root_map (view (dsk s)) (s_work s))(cstr name \<mapsto> (kind, take (unat len) data))"
    if ok: "e = ST_OK" and t: "t = put_record s2 idx name kind blk (nblk_for len) data len"
  proof -
    have h: "st_room 1 s2" "s_in_tx s2" "idx = find_index (s_work s2) name"
      "idx = None \<longrightarrow> rt_nobj (s_work s2) \<noteq> 49" "unat blk + unat (nblk_for len) \<le> nblks s2"
      using room idx full rm s2(3,4,5,7) by (simp_all add: tx_frame_def)
    have wr': "firm (dsk s2) (unat blk + i) \<and> bit_get (s_txused s2) (unat blk + i)
      \<and> view (dsk s2) (unat blk + i) = take 4096 (drop (i * 4096) (padded data (unat len) (unat (nblk_for len))))"
      if "i < unat (nblk_for len)" for i
      using wr [OF ok that] free [of "unat blk + i"] that by simp
    note d = put_done [OF s2(1,2) h(1,2) nm h(3,4) len _ _ h(5) wr' ap t]
    have "st_room n t" if "n < 2 ^ 32 - 1" "st_room (Suc n) s" for n
      by (rule put_room_store [OF s2(2) h(3,4) t that(1) _ h(2)]) (use rm that(2) in simp)
    then show ?thesis
      using d nz s2(3,6) m tx_frame_trans [of s s2 t] by (simp add: tx_keeps_def)
  qed
qed

lemma st_put_spec:
  assumes inv: "st_inv N s" and tx: "s_in_tx s \<longrightarrow> tx_ok s" and room: "st_room 1 s"
    and len: "unat len \<le> length data" and p: "st_put s name kind data len = (st, t)"
  shows "tx_keeps N s t" and "s_in_tx t = s_in_tx s"
    and "st = ST_OK \<Longrightarrow> s_in_tx s \<and> root_map (view (dsk t)) (s_work t)
      = (root_map (view (dsk s)) (s_work s))(cstr name \<mapsto> (kind, take (unat len) data))"
    and "st \<noteq> ST_OK \<Longrightarrow> s_in_tx s \<Longrightarrow> s_work t = s_work s
      \<and> root_map (view (dsk t)) (s_work t) = root_map (view (dsk s)) (s_work s)"
proof -
  have g: "tx_keeps N s t \<and> s_in_tx t = s_in_tx s
    \<and> (st = ST_OK \<longrightarrow> s_in_tx s \<and> root_map (view (dsk t)) (s_work t)
         = (root_map (view (dsk s)) (s_work s))(cstr name \<mapsto> (kind, take (unat len) data)))
    \<and> (st \<noteq> ST_OK \<longrightarrow> s_in_tx s \<longrightarrow> s_work t = s_work s
         \<and> root_map (view (dsk t)) (s_work t) = root_map (view (dsk s)) (s_work s))"
  proof (cases "st \<noteq> ST_OK \<and> t = s")
    case True
    then show ?thesis using tx_keeps_refl [OF inv tx] by simp
  next
    case False
    define idx where "idx = find_index (s_work s) name"
    define nblk where "nblk = nblk_for len"
    have c: "s_in_tx s" "st_name_ok name" "unat len \<le> 32768" "idx = None \<longrightarrow> rt_nobj (s_work s) \<noteq> 49"
      using p False by (auto simp: st_put_def idx_def Let_def word_less_nat_alt split: if_splits)
    have tx': "tx_ok s" using tx c(1) by simp
    show ?thesis
    proof (cases "nblk = 0")
      case True
      then have st: "st = ST_OK" "t = put_record s idx name kind 0 (nblk_for len) data len"
        using p c inv by (auto simp: st_put_def Let_def idx_def nblk_def st_inv_def word_less_nat_alt)
      note d = put_done [OF inv tx' room c(1,2) idx_def c(4) c(3) len _ _ _ _ _ st(2)]
      show ?thesis
        using d True c(1) st(1) put_room_store [OF tx' idx_def c(4) st(2)]
        by (simp add: nblk_def tx_keeps_def)
    next
      case False
      obtain blk s1 where al: "alloc s nblk (s_tx_reserve s) = (blk, s1)" by fastforce
      obtain e s2 where pd: "put_data s1 blk nblk data len = (e, s2)" by fastforce
      have r: "(if blk = 0 then (ST_E_NOSPC, s1) else if e \<noteq> ST_OK then (e, s2)
          else (ST_OK, put_record s2 idx name kind blk nblk data len)) = (st, t)"
        using p c inv False al pd
        by (simp add: st_put_def Let_def idx_def [symmetric] nblk_def [symmetric] st_inv_def word_less_nat_alt
            split del: if_split) (auto simp: idx_def nblk_def)
      have "blk \<noteq> 0"
        using r False \<open>\<not> (st \<noteq> ST_OK \<and> t = s)\<close> alloc_spec(1) [OF al False] inv by (auto simp: st_inv_def)
      note w = put_written [OF inv tx' al this nblk_def False c(3) len pd]
      note b = put_branch [OF inv tx' room c(1,2) idx_def c(4,3) len False [unfolded nblk_def] w [unfolded nblk_def]]
      show ?thesis
      proof (cases "e = ST_OK")
        case True
        then show ?thesis using r \<open>blk \<noteq> 0\<close> b(3) [of t kind] c(1) by (simp add: nblk_def)
      next
        case False
        then show ?thesis using r \<open>blk \<noteq> 0\<close> b(1,2) c(1) w(4,5) by auto
      qed
    qed
  qed
  show "tx_keeps N s t" "s_in_tx t = s_in_tx s"
    "st = ST_OK \<Longrightarrow> s_in_tx s \<and> root_map (view (dsk t)) (s_work t)
      = (root_map (view (dsk s)) (s_work s))(cstr name \<mapsto> (kind, take (unat len) data))"
    "st \<noteq> ST_OK \<Longrightarrow> s_in_tx s \<Longrightarrow> s_work t = s_work s
      \<and> root_map (view (dsk t)) (s_work t) = root_map (view (dsk s)) (s_work s)"
    using g by blast+
qed

end
