(* ===== verification/Store_Edit.thy ===== *)
theory Store_Edit
  imports Store_Ops
begin

text \<open>
  The remaining operations of an open transaction: \<open>st_del\<close>, \<open>st_pin\<close>, \<open>st_unpin\<close>, \<open>st_prune\<close>,
  \<open>st_allow_reserve\<close> and \<open>st_abort\<close>.  None of them touches the device.
\<close>

section \<open>Deleting a row of a table\<close>

lemma shift_remove:
  assumes "i < n" and "n \<le> length xs"
  shows "take (n - 1) ((fold (\<lambda>k ys. ys[k := ys ! (k + 1)]) [i..<n - 1] xs)[n - 1 := z])
      = take i (take n xs) @ drop (Suc i) (take n xs)"
    and "length ((fold (\<lambda>k ys. ys[k := ys ! (k + 1)]) [i..<n - 1] xs)[n - 1 := z]) = length xs"
proof -
  show "take (n - 1) ((fold (\<lambda>k ys. ys[k := ys ! (k + 1)]) [i..<n - 1] xs)[n - 1 := z])
      = take i (take n xs) @ drop (Suc i) (take n xs)"
    using assms unfolding shift_down [OF assms] by (simp add: take_drop min_def) (metis diff_Suc_1 le_antisym less_Suc_eq_le Suc_pred less_nat_zero_code not_gr_zero)
  show "length ((fold (\<lambda>k ys. ys[k := ys ! (k + 1)]) [i..<n - 1] xs)[n - 1 := z]) = length xs"
    using assms unfolding shift_down [OF assms] by simp
qed

lemma set_remove_row: "set (take i xs @ drop (Suc i) xs) \<subseteq> set xs"
  by (auto dest: in_set_takeD in_set_dropD)

lemma set_shift_remove:
  assumes "i < n" and "n \<le> length xs"
  shows "set ((fold (\<lambda>k ys. ys[k := ys ! (k + 1)]) [i..<n - 1] xs)[n - 1 := z]) \<subseteq> insert z (set xs)"
proof -
  have "set (fold (\<lambda>k ys. ys[k := ys ! (k + 1)]) [i..<n - 1] xs) \<subseteq> set xs"
    unfolding shift_down [OF assms] by (auto dest: in_set_takeD in_set_dropD)
  then show ?thesis using set_update_subset_insert by fastforce
qed

section \<open>Changing the tables of the working root\<close>

lemma tx_edit:
  assumes inv: "st_inv N s" and tx: "tx_ok s" and i: "s_in_tx s" and t: "t = s\<lparr>s_work := w'\<rparr>"
    and wf: "root_wf w'" "rt_nobj w' \<le> 49" "rt_npin w' \<le> 4"
    and same: "rt_magic w' = rt_magic (s_work s)" "rt_store_id w' = rt_store_id (s_work s)"
      "rt_retain w' = rt_retain (s_work s)" "rt_next_oid w' = rt_next_oid (s_work s)"
    and os: "set (objs w') \<subseteq> set (objs (s_work s))" "sorted_wrt (\<lambda>p x. \<not> obj_clash p x) (objs w')"
    and ps: "\<forall>p \<in> set (pins w'). pin_entry_sane (w'\<lparr>rt_gen := st_next_gen s\<rparr>) (dv_blocks (s_dev s)) p"
      "sorted_wrt (\<lambda>p q. cstr (sp_name p) \<noteq> cstr (sp_name q)) (pins w')"
  shows "tx_keeps N s t" and "s_in_tx t" and "dsk t = dsk s"
proof -
  define w where "w = s_work s"
  define g where "g = st_next_gen s"
  have g: "st_next_gen t = g" by (simp add: t g_def st_next_gen_def)
  have oe: "\<forall>x \<in> set (objs w). obj_entry_sane (w\<lparr>rt_gen := g\<rparr>) (dv_blocks (s_dev s)) x"
    using tx obj_sane_objs [of "w\<lparr>rt_gen := g\<rparr>" "dv_blocks (s_dev s)"]
    by (simp add: tx_ok_def Let_def w_def g_def)
  have "obj_sane (w'\<lparr>rt_gen := g\<rparr>) (dv_blocks (s_dev s))"
  proof -
    have "obj_entry_sane (w'\<lparr>rt_gen := g\<rparr>) (dv_blocks (s_dev s)) x
        = obj_entry_sane (w\<lparr>rt_gen := g\<rparr>) (dv_blocks (s_dev s)) x" for x
      using same(4) by (simp add: obj_entry_sane_def w_def)
    then show ?thesis
      using oe os wf by (subst obj_sane_objs) (auto simp: w_def)
  qed
  moreover have "pin_sane (w'\<lparr>rt_gen := g\<rparr>) (dv_blocks (s_dev s))"
    using ps wf by (subst pin_sane_pins) (auto simp: g_def)
  moreover have "\<forall>x \<in> set (objs w'). obj_safe t x"
    using tx os(1) by (auto simp: tx_ok_def Let_def obj_safe_def t)
  ultimately have "tx_ok t"
    using tx wf same unfolding tx_ok_def Let_def g by (simp add: t)
  moreover have "st_inv N t"
    by (rule st_inv_tx_only [OF inv], rule tx_onlyI
        [where i = "s_in_tx s" and p = "s_tx_prune s" and v = "s_tx_reserve s" and u = "s_txused s"])
      (simp_all add: t)
  moreover have "st_room n t" if "st_room (Suc n) s" for n
    using st_room_mono [OF that, of n] os(1) same(4) i by (auto simp: t st_room_def root_room_def)
  ultimately show "tx_keeps N s t" "s_in_tx t" "dsk t = dsk s"
    using i by (simp_all add: tx_keeps_def t tx_frame_def)
qed

lemma tx_ok_tables:
  assumes "tx_ok s"
  shows "root_wf (s_work s)" and "rt_nobj (s_work s) \<le> 49" and "rt_npin (s_work s) \<le> 4"
    and "sorted_wrt (\<lambda>p x. \<not> obj_clash p x) (objs (s_work s))"
    and "\<forall>p \<in> set (pins (s_work s)). pin_entry_sane ((s_work s)\<lparr>rt_gen := st_next_gen s\<rparr>) (dv_blocks (s_dev s)) p"
    and "sorted_wrt (\<lambda>p q. cstr (sp_name p) \<noteq> cstr (sp_name q)) (pins (s_work s))"
proof -
  show wf: "root_wf (s_work s)" "rt_nobj (s_work s) \<le> 49" "rt_npin (s_work s) \<le> 4"
    using assms by (simp_all add: tx_ok_def Let_def)
  show "sorted_wrt (\<lambda>p x. \<not> obj_clash p x) (objs (s_work s))"
    using assms wf obj_sane_objs [of "(s_work s)\<lparr>rt_gen := st_next_gen s\<rparr>" "dv_blocks (s_dev s)"]
    by (simp add: tx_ok_def Let_def)
  have "pins ((s_work s)\<lparr>rt_gen := st_next_gen s\<rparr>) = pins (s_work s)" by (simp add: pins_def)
  then show "\<forall>p \<in> set (pins (s_work s)). pin_entry_sane ((s_work s)\<lparr>rt_gen := st_next_gen s\<rparr>) (dv_blocks (s_dev s)) p"
    "sorted_wrt (\<lambda>p q. cstr (sp_name p) \<noteq> cstr (sp_name q)) (pins (s_work s))"
    using assms wf pin_sane_pins [of "(s_work s)\<lparr>rt_gen := st_next_gen s\<rparr>" "dv_blocks (s_dev s)"]
    by (simp_all add: tx_ok_def Let_def)
qed

lemma st_del_edit:
  assumes wf: "root_wf w" "rt_nobj w \<le> 49" and i: "find_index w name = Some i"
    and w': "w' = w\<lparr>rt_obj := (fold (\<lambda>i os. os[i := os ! (i + 1)]) [i..<unat (rt_nobj w) - 1] (rt_obj w))
        [unat (rt_nobj w) - 1 := obj_zero], rt_nobj := rt_nobj w - 1\<rparr>"
  shows "root_wf w'" and "rt_nobj w' \<le> 49" and "objs w' = take i (objs w) @ drop (Suc i) (objs w)"
proof -
  have n: "i < unat (rt_nobj w)" "unat (rt_nobj w) \<le> length (rt_obj w)"
    using find_index_spec(2) [OF wf i] objs_nth [OF wf] wf by (simp_all add: root_wf_def word_le_nat_alt)
  have "rt_nobj w \<noteq> 0" using n(1) by auto
  then have m: "unat (rt_nobj w - 1) = unat (rt_nobj w) - 1" by (rule unat_minus_one)
  have "set (rt_obj w') \<subseteq> insert obj_zero (set (rt_obj w))"
    using set_shift_remove [OF n, of obj_zero] by (simp add: w')
  moreover have "obj_wf obj_zero" by (simp add: obj_wf_def obj_zero_def)
  ultimately have "\<forall>x \<in> set (rt_obj w'). obj_wf x"
    using wf(1) unfolding root_wf_def by blast
  moreover have "length (rt_obj w') = 49" using shift_remove(2) [OF n] wf(1) by (simp add: w' root_wf_def)
  ultimately show "root_wf w'" using wf(1) by (simp add: w' root_wf_def)
  show "rt_nobj w' \<le> 49" using m wf(2) by (simp add: w' word_le_nat_alt)
  show "objs w' = take i (objs w) @ drop (Suc i) (objs w)"
    using shift_remove(1) [OF n] m by (simp add: w' objs_def)
qed

lemma st_del_spec:
  assumes inv: "st_inv N s" and tx: "s_in_tx s \<longrightarrow> tx_ok s" and d: "st_del s name = (st, t)"
  shows "tx_keeps N s t \<and> s_in_tx t = s_in_tx s \<and> dsk t = dsk s
    \<and> (st = ST_OK \<longrightarrow> s_in_tx s \<and> root_map f (s_work t) = (root_map f (s_work s))(cstr name := None))
    \<and> (st \<noteq> ST_OK \<longrightarrow> t = s)"
proof (cases "st \<noteq> ST_OK \<and> t = s")
  case True
  then show ?thesis using tx_keeps_refl [OF inv tx] by simp
next
  case False
  define w where "w = s_work s"
  have intx: "s_in_tx s" using d False by (cases "s_in_tx s") (auto simp: st_del_def)
  then obtain i where i: "find_index w name = Some i"
    using d False inv by (cases "find_index w name") (auto simp: st_del_def w_def st_inv_def)
  have tx': "tx_ok s" using tx intx by simp
  note tb = tx_ok_tables [OF tx', folded w_def]
  define w' where "w' = w\<lparr>rt_obj := (fold (\<lambda>i os. os[i := os ! (i + 1)]) [i..<unat (rt_nobj w) - 1] (rt_obj w))
        [unat (rt_nobj w) - 1 := obj_zero], rt_nobj := rt_nobj w - 1\<rparr>"
  have t: "st = ST_OK" "t = s\<lparr>s_work := w'\<rparr>"
    using d i intx inv by (simp_all add: st_del_def Let_def w_def [symmetric] w'_def st_inv_def)
  note e = st_del_edit [OF tb(1,2) i w'_def]
  have same: "rt_magic w' = rt_magic w" "rt_store_id w' = rt_store_id w" "rt_retain w' = rt_retain w"
    "rt_next_oid w' = rt_next_oid w" "pins w' = pins w" "rt_npin w' \<le> 4"
    using tb(3) by (simp_all add: w'_def pins_def)
  have os: "set (objs w') \<subseteq> set (objs (s_work s))" "sorted_wrt (\<lambda>p x. \<not> obj_clash p x) (objs w')"
    unfolding e(3) using set_remove_row [of i "objs w"] sorted_wrt_remove [OF tb(4), of i] by (simp_all add: w_def)
  have ps: "\<forall>p \<in> set (pins w'). pin_entry_sane (w'\<lparr>rt_gen := st_next_gen s\<rparr>) (dv_blocks (s_dev s)) p"
    "sorted_wrt (\<lambda>p q. cstr (sp_name p) \<noteq> cstr (sp_name q)) (pins w')"
    using tb(5,6) unfolding same(5) by (simp_all add: pin_entry_sane_def)
  note k = tx_edit [OF inv tx' intx t(2) e(1,2) same(6) same(1-4) [unfolded w_def] os ps]
  have ix: "i < length (objs w)" "cstr (so_name (objs w ! i)) = cstr name"
    using find_index_spec(2) [OF tb(1,2) i] by simp_all
  have "root_alist f w' = take i (root_alist f w) @ drop (Suc i) (root_alist f w)"
    unfolding root_alist_def e(3) by (simp add: take_map drop_map)
  moreover have "i < length (root_alist f w)" "fst (root_alist f w ! i) = cstr name"
    using ix by (simp_all add: root_alist_def)
  ultimately have "root_map f w' = (root_map f w)(cstr name := None)"
    using map_of_delete [OF tx_ok_distinct [OF tx', of f], folded w_def, of i] unfolding root_map_def by metis
  moreover have "s_work t = w'" by (simp add: t(2))
  ultimately show ?thesis using k intx t(1) by (simp add: w_def)
qed

section \<open>History and pins\<close>

lemma find_Some_mem: "List.find P xs = Some x \<Longrightarrow> x \<in> set xs \<and> P x"
  by (auto simp: find_Some_iff)

definition hists :: "st_root \<Rightarrow> st_ref list" where
  "hists r = take (unat (rt_nhist r)) (rt_hist r)"

definition ref_sane :: "u64 \<Rightarrow> st_ref \<Rightarrow> bool" where
  "ref_sane blocks h \<longleftrightarrow> sr_gen h \<noteq> 0 \<and> 2 \<le> sr_blk h \<and> ucast (sr_blk h) < blocks"

lemma hists_length: "root_wf r \<Longrightarrow> rt_nhist r \<le> 8 \<Longrightarrow> length (hists r) = unat (rt_nhist r)"
  by (simp add: hists_def root_wf_def word_le_nat_alt)

lemma hist_sane_hists:
  assumes "root_wf r" and "rt_nhist r \<le> 8"
  shows "hist_sane r blocks \<longleftrightarrow> (\<forall>h \<in> set (hists r). ref_sane blocks h)
    \<and> sorted_wrt (>) (rt_gen r # map sr_gen (hists r))"
proof -
  define g where "g = rt_gen r # map sr_gen (hists r)"
  have l: "length (hists r) = unat (rt_nhist r)" by (rule hists_length [OF assms])
  have n: "hists r ! i = rt_hist r ! i" if "i < unat (rt_nhist r)" for i
    using that by (simp add: hists_def)
  have "transp ((>) :: u64 \<Rightarrow> _)" by (simp add: transp_def)
  then have so: "sorted_wrt (>) g \<longleftrightarrow> (\<forall>i < unat (rt_nhist r). g ! Suc i < g ! i)"
    unfolding sorted_wrt_iff_nth_Suc_transp [OF \<open>transp _\<close>] using l by (simp add: g_def)
  have re: "(\<forall>h \<in> set (hists r). ref_sane blocks h) \<longleftrightarrow> (\<forall>i < unat (rt_nhist r). ref_sane blocks (rt_hist r ! i))"
    using l n by (auto simp: all_set_conv_all_nth)
  have "(\<not> (sr_gen (rt_hist r ! i) \<ge> (if i \<noteq> 0 then sr_gen (rt_hist r ! (i - 1)) else rt_gen r)
        \<or> sr_gen (rt_hist r ! i) = 0 \<or> sr_blk (rt_hist r ! i) < 2 \<or> ucast (sr_blk (rt_hist r ! i)) \<ge> blocks))
      = (ref_sane blocks (rt_hist r ! i) \<and> g ! Suc i < g ! i)" if "i < unat (rt_nhist r)" for i
  proof -
    have "g ! Suc i = sr_gen (rt_hist r ! i)" "g ! i = (if i \<noteq> 0 then sr_gen (rt_hist r ! (i - 1)) else rt_gen r)"
      using that n l by (cases i; simp add: g_def)+
    then show ?thesis by (auto simp: ref_sane_def not_le not_less)
  qed
  then show ?thesis
    unfolding hist_sane_def Let_def g_def [symmetric] so re by blast
qed

lemma pin_entry_sane_ref:
  "pin_entry_sane r blocks p \<longleftrightarrow> str_nlen (sp_name p) 16 \<noteq> 16 \<and> st_pin_name_ok (sp_name p)
     \<and> ref_sane blocks (sp_ref p) \<and> sr_gen (sp_ref p) < rt_gen r"
  by (auto simp: pin_entry_sane_def ref_sane_def not_le not_less)

lemma root_sane_limits:
  assumes "root_sane r blocks"
  shows "rt_nobj r \<le> 49" and "rt_nhist r \<le> 8" and "rt_npin r \<le> 4" and "rt_nlog r \<noteq> 0" and "rt_nlog r \<le> 16"
    and "2 \<le> rt_retain r" and "rt_retain r \<le> 9"
  using assms by (auto simp: root_sane_def not_less)

lemma st_cur_blk_sane:
  assumes "st_inv N s"
  shows "2 \<le> s_cur_blk s" and "ucast (s_cur_blk s) < dv_blocks (s_dev s)" and "rt_gen (s_cur s) \<noteq> 0"
proof -
  show "rt_gen (s_cur s) \<noteq> 0" using st_inv_gen(3) [OF assms] by (simp add: root_sane_def)
  have "2 \<le> unat (s_cur_blk s)" "unat (s_cur_blk s) < nblks s"
    using st_inv_gen(1) [OF assms] by (simp_all add: gen_ok_def root_ok_def)
  then show "2 \<le> s_cur_blk s" "ucast (s_cur_blk s) < dv_blocks (s_dev s)"
    by (simp_all add: word_le_nat_alt word_less_nat_alt)
qed

lemma find_ref_sane:
  assumes inv: "st_inv N s" and f: "find_ref s gen = Some ref"
  shows "ref_sane (dv_blocks (s_dev s)) ref" and "sr_gen ref = gen" and "gen \<le> rt_gen (s_cur s)"
proof -
  note g = st_inv_gen(2,3) [OF inv]
  note lim = root_sane_limits [OF g(2)]
  have h: "ref_sane (dv_blocks (s_dev s)) h \<and> sr_gen h < rt_gen (s_cur s)" if "h \<in> set (hists (s_cur s))" for h
    using that g hist_sane_hists [OF g(1) lim(2)] by (auto simp: root_sane_def)
  have p: "ref_sane (dv_blocks (s_dev s)) (sp_ref p) \<and> sr_gen (sp_ref p) < rt_gen (s_cur s)"
    if "p \<in> set (pins (s_cur s))" for p
    using that g pin_sane_pins [OF g(1) lim(3)] by (auto simp: root_sane_def pin_entry_sane_ref)
  consider "gen = rt_gen (s_cur s)" "sr_gen ref = gen" "sr_blk ref = s_cur_blk s"
    | "ref \<in> set (hists (s_cur s))" "sr_gen ref = gen"
    | p where "p \<in> set (pins (s_cur s))" "ref = sp_ref p" "sr_gen ref = gen"
    using f unfolding find_ref_def hists_def [symmetric] pins_def [symmetric]
    by (auto split: if_splits option.splits dest!: find_Some_mem)
  then have "ref_sane (dv_blocks (s_dev s)) ref \<and> sr_gen ref = gen \<and> gen \<le> rt_gen (s_cur s)"
  proof cases
    case 1
    then show ?thesis using st_cur_blk_sane [OF inv] by (simp add: ref_sane_def)
  next
    case 2
    then show ?thesis using h [of ref] by (simp add: less_imp_le)
  next
    case (3 p)
    then show ?thesis using p [of p] by (simp add: less_imp_le)
  qed
  then show "ref_sane (dv_blocks (s_dev s)) ref" "sr_gen ref = gen" "gen \<le> rt_gen (s_cur s)" by simp_all
qed

lemma st_pin_spec:
  assumes inv: "st_inv N s" and tx: "s_in_tx s \<longrightarrow> tx_ok s" and room: "st_room 1 s"
    and p: "st_pin s pin gen = (st, t)"
  shows "tx_keeps N s t \<and> s_in_tx t = s_in_tx s \<and> dsk t = dsk s \<and> root_map f (s_work t) = root_map f (s_work s)
    \<and> (st \<noteq> ST_OK \<longrightarrow> t = s)"
proof (cases "t = s")
  case True
  then show ?thesis using tx_keeps_refl [OF inv tx] by simp
next
  case False
  define w where "w = s_work s"
  have c: "s_in_tx s" "st_pin_name_ok pin" "pin_index w pin = None" "rt_npin w \<noteq> 4"
    using p False by (auto simp: st_pin_def w_def Let_def split: if_splits)
  then obtain ref where ref: "find_ref s gen = Some ref"
    using p False by (cases "find_ref s gen") (auto simp: st_pin_def w_def Let_def split: if_splits)
  define x where "x = \<lparr>sp_name = str_copy 16 pin, sp_ref = ref\<rparr>"
  define w' where "w' = w\<lparr>rt_pin := (rt_pin w)[unat (rt_npin w) := x], rt_npin := rt_npin w + 1\<rparr>"
  have t: "st = ST_OK" "t = s\<lparr>s_work := w'\<rparr>"
    using p c ref inv by (simp_all add: st_pin_def Let_def w_def [symmetric] w'_def x_def st_inv_def)
  have tx': "tx_ok s" using tx c(1) by simp
  note tb = tx_ok_tables [OF tx', folded w_def]
  have n: "unat (rt_npin w) < 4" using tb(3) c(4) by (simp add: word_le_nat_alt word_unat_eq_iff)
  then have n1: "unat (rt_npin w + 1) = unat (rt_npin w) + 1" by (subst unat_add_small) auto
  have l4: "length (rt_pin w) = 4" using tb(1) by (simp add: root_wf_def)
  have pins': "pins w' = pins w @ [x]"
    using n n1 l4 by (simp add: pins_def w'_def take_Suc_conv_app_nth)
  have wf: "root_wf w'" "rt_nobj w' \<le> 49" "rt_npin w' \<le> 4"
    using tb(1,2) n n1 set_update_subset_insert [of "rt_pin w" "unat (rt_npin w)" x]
    by (auto simp: w'_def root_wf_def word_le_nat_alt pin_wf_def x_def)
  have nm: "cstr (str_copy 16 pin) = cstr pin" "length (cstr pin) \<le> 15"
    using c(2) by (auto simp: names_ok_cstr intro!: cstr_str_copy)
  have "cstr (sp_name q) \<noteq> cstr pin" if "q \<in> set (pins w)" for q
    using that c(3) pins_length [OF tb(1,3)]
    by (auto simp: pin_index_def find_upt_None str_eq_cstr pins_def in_set_conv_nth)
  then have so: "sorted_wrt (\<lambda>p q. cstr (sp_name p) \<noteq> cstr (sp_name q)) (pins w')"
    using tb(6) nm by (auto simp: pins' sorted_wrt_append x_def)
  note fr = find_ref_sane [OF inv ref]
  have "rt_gen (s_cur s) < st_next_gen s" using next_gen_gt [OF inv] room by (simp add: st_room_def)
  then have "pin_entry_sane (w'\<lparr>rt_gen := st_next_gen s\<rparr>) (dv_blocks (s_dev s)) x"
    using fr nm c(2) by (auto simp: pin_entry_sane_ref x_def str_nlen_cstr names_ok_cstr)
  then have ps: "\<forall>p \<in> set (pins w'). pin_entry_sane (w'\<lparr>rt_gen := st_next_gen s\<rparr>) (dv_blocks (s_dev s)) p"
    using tb(5) by (auto simp: pins' pin_entry_sane_def)
  have os: "objs w' = objs w" by (simp add: objs_def w'_def)
  have same: "rt_magic w' = rt_magic w" "rt_store_id w' = rt_store_id w" "rt_retain w' = rt_retain w"
    "rt_next_oid w' = rt_next_oid w" by (simp_all add: w'_def)
  have os': "set (objs w') \<subseteq> set (objs (s_work s))" "sorted_wrt (\<lambda>p x. \<not> obj_clash p x) (objs w')"
    unfolding os using tb(4) by (simp_all add: w_def)
  note k = tx_edit [OF inv tx' c(1) t(2) wf same [unfolded w_def] os' ps so]
  have "root_map f w' = root_map f w" by (simp add: root_map_def root_alist_def os)
  moreover have "s_work t = w'" by (simp add: t(2))
  ultimately show ?thesis using k c(1) t(1) by (simp add: w_def)
qed

lemma st_unpin_edit:
  assumes wf: "root_wf w" "rt_npin w \<le> 4" and i: "pin_index w pin = Some i"
    and w': "w' = w\<lparr>rt_pin := (fold (\<lambda>i ps. ps[i := ps ! (i + 1)]) [i..<unat (rt_npin w) - 1] (rt_pin w))
        [unat (rt_npin w) - 1 := pin_zero], rt_npin := rt_npin w - 1\<rparr>"
  shows "root_wf w'" and "rt_npin w' \<le> 4" and "pins w' = take i (pins w) @ drop (Suc i) (pins w)"
proof -
  have n: "i < unat (rt_npin w)" "unat (rt_npin w) \<le> length (rt_pin w)"
    using i wf by (auto simp: pin_index_def find_upt_Some root_wf_def word_le_nat_alt)
  have "rt_npin w \<noteq> 0" using n(1) by auto
  then have m: "unat (rt_npin w - 1) = unat (rt_npin w) - 1" by (rule unat_minus_one)
  have "set (rt_pin w') \<subseteq> insert pin_zero (set (rt_pin w))"
    using set_shift_remove [OF n, of pin_zero] by (simp add: w')
  moreover have "pin_wf pin_zero" by (simp add: pin_wf_def pin_zero_def)
  ultimately have "\<forall>x \<in> set (rt_pin w'). pin_wf x"
    using wf(1) unfolding root_wf_def by blast
  moreover have "length (rt_pin w') = 4" using shift_remove(2) [OF n] wf(1) by (simp add: w' root_wf_def)
  ultimately show "root_wf w'" using wf(1) by (simp add: w' root_wf_def)
  show "rt_npin w' \<le> 4" using m wf(2) by (simp add: w' word_le_nat_alt)
  show "pins w' = take i (pins w) @ drop (Suc i) (pins w)"
    using shift_remove(1) [OF n] m by (simp add: w' pins_def)
qed

lemma st_unpin_spec:
  assumes inv: "st_inv N s" and tx: "s_in_tx s \<longrightarrow> tx_ok s" and p: "st_unpin s pin = (st, t)"
  shows "tx_keeps N s t \<and> s_in_tx t = s_in_tx s \<and> dsk t = dsk s \<and> root_map f (s_work t) = root_map f (s_work s)
    \<and> (st \<noteq> ST_OK \<longrightarrow> t = s)"
proof (cases "t = s")
  case True
  then show ?thesis using tx_keeps_refl [OF inv tx] by simp
next
  case False
  define w where "w = s_work s"
  have c: "s_in_tx s" using p False by (cases "s_in_tx s") (auto simp: st_unpin_def)
  then obtain i where i: "pin_index w pin = Some i"
    using p False inv by (cases "pin_index w pin") (auto simp: st_unpin_def w_def st_inv_def)
  have tx': "tx_ok s" using tx c by simp
  note tb = tx_ok_tables [OF tx', folded w_def]
  define w' where "w' = w\<lparr>rt_pin := (fold (\<lambda>i ps. ps[i := ps ! (i + 1)]) [i..<unat (rt_npin w) - 1] (rt_pin w))
        [unat (rt_npin w) - 1 := pin_zero], rt_npin := rt_npin w - 1\<rparr>"
  have t: "st = ST_OK" "t = s\<lparr>s_work := w'\<rparr>"
    using p i c inv by (simp_all add: st_unpin_def Let_def w_def [symmetric] w'_def st_inv_def)
  note e = st_unpin_edit [OF tb(1,3) i w'_def]
  have same: "rt_magic w' = rt_magic w" "rt_store_id w' = rt_store_id w" "rt_retain w' = rt_retain w"
    "rt_next_oid w' = rt_next_oid w" "objs w' = objs w" "rt_nobj w' \<le> 49"
    using tb(2) by (simp_all add: w'_def objs_def)
  have os: "set (objs w') \<subseteq> set (objs (s_work s))" "sorted_wrt (\<lambda>p x. \<not> obj_clash p x) (objs w')"
    using tb(4) by (simp_all add: same(5) w_def)
  have ps: "\<forall>p \<in> set (pins w'). pin_entry_sane (w'\<lparr>rt_gen := st_next_gen s\<rparr>) (dv_blocks (s_dev s)) p"
    "sorted_wrt (\<lambda>p q. cstr (sp_name p) \<noteq> cstr (sp_name q)) (pins w')"
    using tb(5) sorted_wrt_remove [OF tb(6), of i] set_remove_row [of i "pins w"] unfolding e(3)
    by (auto simp: pin_entry_sane_def)
  note k = tx_edit [OF inv tx' c t(2) e(1) same(6) e(2) same(1-4) [unfolded w_def] os ps]
  have "root_map f w' = root_map f w" by (simp add: root_map_def root_alist_def same(5))
  moreover have "s_work t = w'" by (simp add: t(2))
  ultimately show ?thesis using k c t(1) by (simp add: w_def)
qed

end
