(* ===== verification/Store_Commit.thy ===== *)
theory Store_Commit
  imports Store_Edit
begin

text \<open>
  \<open>st_commit\<close>: the root it builds is sane, the barrier between the root and the superblock makes
  every block of the new generation durable before the superblock that names it is written, and so a
  power loss at any moment leaves a medium that mounts as the old or as the new generation.
\<close>

section \<open>The new root\<close>

text \<open>The copy loops of history and log: fill an array from position \<open>n\<close> while there is room.\<close>

lemma fill_spec:
  fixes n keep :: u32
  assumes "unat n \<le> unat keep" and "unat keep \<le> length h" and "k \<le> length xs"
    and "fold (\<lambda>i (h, n). if n < keep then (h[unat n := xs ! i], n + 1) else (h, n)) [0..<k] (h, n) = (h', n')"
  shows "length h' = length h \<and> unat n \<le> unat n' \<and> unat n' \<le> unat keep \<and> set h' \<subseteq> set h \<union> set xs
    \<and> (\<exists>m. m \<le> k \<and> take (unat n') h' = take (unat n) h @ take m xs \<and> (m < k \<longrightarrow> unat n' = unat keep))"
  using assms(3,4)
proof (induction k arbitrary: h' n')
  case 0
  then show ?case using assms(1) by (intro conjI exI [of _ 0]) auto
next
  case (Suc k)
  obtain h1 n1 where f: "fold (\<lambda>i (h, n). if n < keep then (h[unat n := xs ! i], n + 1) else (h, n)) [0..<k] (h, n)
      = (h1, n1)" by fastforce
  from Suc.IH [OF _ f] Suc.prems(1) obtain m where ih: "length h1 = length h" "unat n \<le> unat n1" "unat n1 \<le> unat keep"
    "set h1 \<subseteq> set h \<union> set xs" "m \<le> k" "take (unat n1) h1 = take (unat n) h @ take m xs" "m < k \<longrightarrow> unat n1 = unat keep"
    by auto
  show ?case
  proof (cases "n1 < keep")
    case True
    then have lt: "unat n1 < unat keep" by (simp add: word_less_nat_alt)
    then have mk: "m = k" using ih(5,7) by auto
    have n1: "unat (n1 + 1) = unat n1 + 1"
      using lt unat_u32_less [of keep] by (subst unat_add_small) auto
    have r: "h' = h1[unat n1 := xs ! k]" "n' = n1 + 1" using Suc.prems(2) f True by auto
    have "take (unat n') h' = take (unat n) h @ take (Suc m) xs"
      using ih(1,6) lt assms(2) n1 Suc.prems(1) by (simp add: r take_Suc_conv_app_nth mk)
    moreover have "set h' \<subseteq> set h \<union> set xs"
      using ih(4) Suc.prems(1) set_update_subset_insert [of h1 "unat n1" "xs ! k"] by (auto simp: r)
    ultimately show ?thesis
      using ih n1 lt mk by (intro conjI exI [of _ "Suc m"]) (auto simp: r)
  next
    case False
    then have "h' = h1" "n' = n1" "unat n1 = unat keep"
      using Suc.prems(2) f ih(3) by (auto simp: word_less_nat_alt)
    then show ?thesis using ih by (intro conjI exI [of _ m]) auto
  qed
qed

lemma take_first: "take (Suc 0) ((replicate (Suc k) z)[0 := e]) = [e]"
  by simp

lemma commit_hist_spec:
  assumes wf: "root_wf (s_cur s)" and sane: "root_sane (s_cur s) blocks" and h: "commit_hist s = (h, n)"
  shows "length h = 8" and "1 \<le> unat n" and "unat n \<le> 8"
    and "\<exists>m. take (unat n) h = \<lparr>sr_gen = rt_gen (s_cur s), sr_blk = s_cur_blk s, sr_crc = rt_crc (s_cur s)\<rparr>
            # take m (hists (s_cur s))"
proof -
  note lim = root_sane_limits [OF sane]
  define c where "c = \<lparr>sr_gen = rt_gen (s_cur s), sr_blk = s_cur_blk s, sr_crc = rt_crc (s_cur s)\<rparr>"
  define keep where "keep = (if s_tx_prune s then ST_RETAIN_MIN else rt_retain (s_cur s)) - 1"
  have "unat (rt_retain (s_cur s) - 1) = unat (rt_retain (s_cur s)) - 1"
    using lim(6) by (subst unat_sub_small) (auto simp: word_le_nat_alt)
  then have k: "1 \<le> unat keep" "unat keep \<le> 8"
    using lim(6,7) by (auto simp: keep_def word_le_nat_alt)
  define xs where "xs = rt_hist (s_cur s)"
  have xl: "unat (rt_nhist (s_cur s)) \<le> length xs"
    using wf lim(2) by (simp add: xs_def root_wf_def word_le_nat_alt)
  have "fold (\<lambda>i (h, n). if n < keep then (h[unat n := xs ! i], n + 1) else (h, n)) [0..<unat (rt_nhist (s_cur s))]
      ((replicate 8 ref_zero)[0 := c], 1) = (h, n)"
    using h unfolding commit_hist_def Let_def keep_def c_def xs_def .
  note f = fill_spec [OF _ _ xl this]
  then obtain m where m: "length h = 8" "1 \<le> unat n" "unat n \<le> unat keep"
    "m \<le> unat (rt_nhist (s_cur s))" "take (unat n) h = c # take m xs"
    using k take_first [of 7 ref_zero c] by auto
  then show "length h = 8" "1 \<le> unat n" "unat n \<le> 8" using k by auto
  have "take m xs = take m (hists (s_cur s))" using m(4) by (simp add: hists_def xs_def min_def)
  then show "\<exists>m. take (unat n) h = \<lparr>sr_gen = rt_gen (s_cur s), sr_blk = s_cur_blk s, sr_crc = rt_crc (s_cur s)\<rparr>
            # take m (hists (s_cur s))"
    using m(5) unfolding c_def by metis
qed

lemma commit_log_spec:
  assumes wf: "root_wf (s_cur s)" and sane: "root_sane (s_cur s) blocks" and l: "commit_log s gen label = (l, n)"
  shows "length l = 16" and "n \<noteq> 0" and "n \<le> 16" and "sl_gen (l ! 0) = gen" and "\<forall>x \<in> set l. log_wf x"
proof -
  note lim = root_sane_limits [OF sane]
  define e where "e = \<lparr>sl_gen = gen, sl_boot_id = s_boot_id s, sl_label = str_copy 16 label\<rparr>"
  define xs where "xs = rt_log (s_cur s)"
  have xl: "unat (rt_nlog (s_cur s)) \<le> length xs"
    using wf lim(5) by (simp add: xs_def root_wf_def word_le_nat_alt)
  have "fold (\<lambda>i (h, n). if n < ST_LOG_MAX then (h[unat n := xs ! i], n + 1) else (h, n)) [0..<unat (rt_nlog (s_cur s))]
      ((replicate 16 log_zero)[0 := e], 1) = (l, n)"
    using l unfolding commit_log_def e_def xs_def .
  note f = fill_spec [OF _ _ xl this]
  then obtain m where m: "length l = 16" "1 \<le> unat n" "unat n \<le> 16"
    "set l \<subseteq> set ((replicate 16 log_zero)[0 := e]) \<union> set xs" "take (unat n) l = e # take m xs"
    using take_first [of 15 log_zero e] by auto
  show "length l = 16" "n \<le> 16" using m(1,3) by (simp_all add: word_le_nat_alt)
  show "n \<noteq> 0" using m(2) by auto
  have "l ! 0 = take (unat n) l ! 0" using m(1,2) by simp
  then show "sl_gen (l ! 0) = gen" using m(5) by (simp add: e_def)
  have "log_wf e" "log_wf log_zero" by (simp_all add: log_wf_def e_def log_zero_def)
  moreover have "set ((replicate 16 log_zero)[0 := e]) \<subseteq> {e, log_zero}"
    using set_update_subset_insert [of "replicate 16 log_zero" 0 e] by auto
  ultimately show "\<forall>x \<in> set l. log_wf x"
    using m(4) wf by (auto simp: xs_def root_wf_def)
qed

lemma commit_fields:
  assumes "commit_hist s = (h, nh)" and "commit_log s (st_next_gen s) label = (l, nl)"
    and "w = seal_root (commit_root s label)"
  shows "rt_magic w = rt_magic (s_work s)" "rt_gen w = st_next_gen s" "rt_parent_gen w = rt_gen (s_cur s)"
    "rt_store_id w = rt_store_id (s_work s)" "rt_next_oid w = rt_next_oid (s_work s)"
    "rt_nobj w = rt_nobj (s_work s)" "rt_nhist w = nh" "rt_npin w = rt_npin (s_work s)" "rt_nlog w = nl"
    "rt_retain w = rt_retain (s_work s)" "rt_label w = str_copy 16 label" "rt_hist w = h"
    "rt_pin w = rt_pin (s_work s)" "rt_log w = l" "rt_obj w = rt_obj (s_work s)"
  using assms by (simp_all add: seal_root_def commit_root_def Let_def)

lemma commit_hist_sane:
  assumes inv: "st_inv N s" and room: "st_room 1 s" and h: "commit_hist s = (h, nh)"
    and w: "root_wf w" "rt_hist w = h" "rt_nhist w = nh" "rt_gen w = st_next_gen s"
  shows "hist_sane w (dv_blocks (s_dev s))"
proof -
  note g = st_inv_gen [OF inv]
  note hs = commit_hist_spec [OF g(2,3) h]
  have gt: "rt_gen (s_cur s) < st_next_gen s" using next_gen_gt [OF inv] room by (simp add: st_room_def)
  obtain m where m: "take (unat nh) h = \<lparr>sr_gen = rt_gen (s_cur s), sr_blk = s_cur_blk s, sr_crc = rt_crc (s_cur s)\<rparr>
            # take m (hists (s_cur s))" using hs(4) by blast
  have hw: "hists w = take (unat nh) h" by (simp add: w hists_def)
  have hc: "\<forall>x \<in> set (hists (s_cur s)). ref_sane (dv_blocks (s_dev s)) x"
    "sorted_wrt (>) (rt_gen (s_cur s) # map sr_gen (hists (s_cur s)))"
    using g(3) hist_sane_hists [OF g(2) root_sane_limits(2) [OF g(3)]] by (auto simp: root_sane_def)
  have "sorted_wrt (>) (take (Suc m) (rt_gen (s_cur s) # map sr_gen (hists (s_cur s))))"
    by (rule sorted_wrt_take [OF hc(2)])
  then have so: "sorted_wrt (>) (rt_gen w # map sr_gen (hists w))"
    using gt unfolding hw m w(4) by (auto simp: take_map dest: less_trans)
  have "ref_sane (dv_blocks (s_dev s)) x" if "x \<in> set (hists w)" for x
    using that hc(1) st_cur_blk_sane [OF inv] unfolding hw m by (auto simp: ref_sane_def dest: in_set_takeD)
  moreover have nw: "rt_nhist w \<le> 8" using hs(3) by (simp add: w word_le_nat_alt)
  ultimately show ?thesis using so by (subst hist_sane_hists [OF w(1) nw]) blast
qed

lemma commit_root_spec:
  assumes inv: "st_inv N s" and tx: "tx_ok s" and room: "st_room 1 s" and lab: "st_label_ok label"
    and w: "w = seal_root (commit_root s label)"
  shows "root_wf w" and "root_sane w (dv_blocks (s_dev s))" and "objs w = objs (s_work s)"
    and "rt_gen w = st_next_gen s" and "rt_store_id w = rt_store_id (s_cur s)" and "root_wf (commit_root s label)"
proof -
  note g = st_inv_gen [OF inv]
  note tb = tx_ok_tables [OF tx]
  obtain h nh where h: "commit_hist s = (h, nh)" by fastforce
  obtain l nl where l: "commit_log s (st_next_gen s) label = (l, nl)" by fastforce
  note hs = commit_hist_spec [OF g(2,3) h]
  note ls = commit_log_spec [OF g(2,3) l]
  note f = commit_fields [OF h l w]
  show wf0: "root_wf (commit_root s label)"
    using tb(1) hs(1) ls(1,5) by (simp add: commit_root_def Let_def h l root_wf_def)
  show wf: "root_wf w" using seal_root_ok(1) [OF wf0] by (simp add: w)
  show "objs w = objs (s_work s)" "rt_gen w = st_next_gen s" by (simp_all add: objs_def f)
  show "rt_store_id w = rt_store_id (s_cur s)" using tx by (simp add: f tx_ok_def Let_def)
  have gt: "rt_gen (s_cur s) < st_next_gen s" using next_gen_gt [OF inv] room by (simp add: st_room_def)
  have nm: "str_nlen (str_copy 16 label) 16 \<noteq> 16"
    using lab by (subst str_nlen_cstr, subst cstr_str_copy) (auto simp: names_ok_cstr)
  have hist: "hist_sane w (dv_blocks (s_dev s))" by (rule commit_hist_sane [OF inv room h wf f(12,7,2)])
  have pin: "pin_sane w (dv_blocks (s_dev s))"
    using tx by (simp add: tx_ok_def Let_def pin_sane_def pin_entry_sane_def f)
  have obj: "obj_sane w (dv_blocks (s_dev s))"
  proof -
    have "obj_entry_sane w (dv_blocks (s_dev s)) x
        = obj_entry_sane ((s_work s)\<lparr>rt_gen := st_next_gen s\<rparr>) (dv_blocks (s_dev s)) x" for x
      by (simp add: obj_entry_sane_def f)
    then show ?thesis using tx by (simp add: tx_ok_def Let_def obj_sane_def f)
  qed
  have nz: "st_next_gen s \<noteq> 0" using gt by auto
  have nh: "nh \<le> 8" using hs(3) by (simp add: word_le_nat_alt)
  have r: "rt_magic (s_work s) = ST_ROOT_MAGIC" "rt_nobj (s_work s) \<le> 49" "rt_npin (s_work s) \<le> 4"
    "rt_retain (s_work s) = rt_retain (s_cur s)" "rt_next_oid (s_work s) \<noteq> 0"
    using tx by (simp_all add: tx_ok_def Let_def)
  show "root_sane w (dv_blocks (s_dev s))"
    unfolding root_sane_def f using hist pin obj nm gt nz nh r ls(2-4) root_sane_limits(6,7) [OF g(3)]
    by (simp add: not_less not_le)
qed

section \<open>The barrier\<close>

definition live :: "disk store \<Rightarrow> nat \<Rightarrow> bool" where
  "live s b \<longleftrightarrow> b < 2 \<or> b \<in> gen_blocks (s_cur s) (unat (s_cur_blk s))"

text \<open>The invariant survives whatever happens to the other blocks of the device.\<close>

lemma st_inv_dev:
  assumes inv: "st_inv N s" and d: "dev_only s t" "disk_ok (dsk t)"
    and l: "\<And>b. live s b \<Longrightarrow> stable (dsk t) b \<and> dk_dur (dsk t) b = dk_dur (dsk s) b"
  shows "st_inv N t"
proof -
  note f = dev_only_fields [OF d(1)] dev_only_disk [OF d(1)]
  have sl: "s_cur_slot s = 0 \<or> s_cur_slot s = 1" using inv by (simp add: st_inv_def)
  have "cur_si N t = cur_si N s" "other_si N t = other_si N s"
    using sl l by (auto simp: cur_si_def other_si_def f live_def)
  moreover have "gen_ok (dk_dur (dsk t)) (dv_blocks (s_dev s)) (s_cur_blk s) (s_cur s)"
    by (rule gen_ok_cong [OF st_inv_gen(1) [OF inv]]) (use l in \<open>simp add: live_def\<close>)
  ultimately show ?thesis
    using inv d(2) l
    by (simp add: st_inv_def slot_valid_def slot_loses_def used_covers_def live_stable_def f live_def)
qed

lemma flush_live:
  assumes inv: "st_inv N s" and f: "dev_flush s = (st, t)" and b: "live s b"
  shows "stable (dsk t) b \<and> dk_dur (dsk t) b = dk_dur (dsk s) b"
proof -
  have od: "on_disk s" "disk_ok (dsk s)" using inv by (simp_all add: st_inv_def)
  have st: "stable (dsk s) b" using st_inv_stable [OF inv] b by (auto simp: live_def)
  show ?thesis
    using dev_flush_spec(4,5) [OF od f, of b] st by (cases "st = ST_OK") simp_all
qed

definition gen_ready :: "disk store \<Rightarrow> u32 \<Rightarrow> st_root \<Rightarrow> bool" where
  "gen_ready s blk w \<longleftrightarrow> gen_ok (dk_dur (dsk s)) (dv_blocks (s_dev s)) blk w
     \<and> (\<forall>b \<in> gen_blocks w (unat blk). stable (dsk s) b)"

lemma commit_barrier:
  assumes inv: "st_inv N s" and w: "root_wf w0" "w = seal_root w0" "root_sane w (dv_blocks (s_dev s))"
    and blk: "\<not> bit_get (s_used s) (unat blk)" "2 \<le> unat blk" "unat blk < nblks s"
    and safe: "\<forall>x \<in> set (objs w). \<forall>b \<in> obj_blocks x. b \<noteq> unat blk \<and> firm (dsk s) b"
      "\<forall>x \<in> set (objs w). ext_ok (view (dsk s)) x"
    and wr: "dev_write s (ucast blk) 1 (cd_enc c_root w) = (st1, s3)"
    and fl: "(if st1 = ST_OK then dev_flush s3 else (st1, s3)) = (st2, s4)"
  shows "st_inv N s4" and "dev_only s s4" and "st2 = ST_OK \<or> st2 = ST_E_IO"
    and "live s b \<Longrightarrow> dk_dur (dsk s4) b = dk_dur (dsk s) b"
    and "st2 = ST_OK \<Longrightarrow> gen_ready s4 blk w"
    and "st2 = ST_OK \<Longrightarrow> x \<in> set (objs w) \<Longrightarrow> obj_data (dk_dur (dsk s4)) x = obj_data (view (dsk s)) x"
proof -
  have od: "on_disk s" "disk_ok (dsk s)" using inv by (simp_all add: st_inv_def)
  note so = seal_root_ok [OF w(1), folded w(2)]
  have len: "length (cd_enc c_root w) = unat (1 :: u32) * 4096" using so(2) by simp
  note ws = dev_write_spec [OF od len wr]
  have S: "{unat (ucast blk :: u64)..<unat (ucast blk :: u64) + unat (1 :: u32)} = {unat blk}" by auto
  note wo = ws(1) [unfolded S]
  have inv3: "st_inv N s3" by (rule st_inv_writes [OF inv wo]) (use blk in simp)
  note wd = writes_only_disk [OF wo]
  note wf = writes_only_simps [OF wo]
  have live3: "live s3 = live s" by (simp add: live_def fun_eq_iff wf)
  have od3: "on_disk s3" "disk_ok (dsk s3)" using inv3 by (simp_all add: st_inv_def)
  show st2: "st2 = ST_OK \<or> st2 = ST_E_IO"
    using fl ws(2) dev_flush_spec(3) [OF od3] by (auto split: if_splits)
  have d4: "dev_only s3 s4 \<and> disk_ok (dsk s4)"
    using fl dev_flush_spec(1,2) [OF od3] od3 by (auto split: if_splits)
  show "dev_only s s4" using d4 writes_only_fields [OF wo] dev_only_trans by blast
  have l4: "stable (dsk s4) b \<and> dk_dur (dsk s4) b = dk_dur (dsk s3) b" if "live s b" for b
    using fl flush_live [OF inv3, of st2 s4 b] st_inv_stable [OF inv3, of b] that
    by (auto simp: live3 wf live_def split: if_splits)
  show "st_inv N s4" by (rule st_inv_dev [OF inv3]) (use d4 l4 in \<open>simp_all add: live3\<close>)
  show "live s b \<Longrightarrow> dk_dur (dsk s4) b = dk_dur (dsk s) b" using l4 [of b] wd(2) by simp
  have ok: "stable (dsk s4) b \<and> dk_dur (dsk s4) b = view (dsk s3) b" if "st2 = ST_OK" "firm (dsk s3) b" for b
    using fl that dev_flush_spec(4) [OF od3, of st2 s4 b] by (auto split: if_splits)
  have ob: "stable (dsk s4) b \<and> dk_dur (dsk s4) b = view (dsk s) b"
    if "st2 = ST_OK" "x \<in> set (objs w)" "b \<in> obj_blocks x" for x b
    using ok [OF that(1), of b] safe(1) that(2,3) wd(5,6) [of b] by simp
  show od: "obj_data (dk_dur (dsk s4)) x = obj_data (view (dsk s)) x" if "st2 = ST_OK" "x \<in> set (objs w)" for x
    by (rule obj_data_cong) (use ob that in blast)
  show "gen_ready s4 blk w" if "st2 = ST_OK"
  proof -
    have "st1 = ST_OK" using fl that by (auto split: if_splits)
    then have n: "newest (dsk s3) (unat blk) = Some (cd_enc c_root w, True)"
      using ws(3) [of 0] so(2) by simp
    then have b: "stable (dsk s4) (unat blk)" "dk_dur (dsk s4) (unat blk) = cd_enc c_root w"
      using ok [OF that, of "unat blk"] by (simp_all add: firm_def view_def)
    have bl: "dv_blocks (s_dev s4) = dv_blocks (s_dev s)"
      using d4 by (simp add: dev_only_fields [of s3 s4] wf)
    have "gen_ok (dk_dur (dsk s4)) (dv_blocks (s_dev s4)) blk w"
      unfolding gen_ok_def root_ok_def using so w(3) blk b bl safe(2) od [OF that] by (simp add: ext_ok_def)
    moreover have "\<forall>b \<in> gen_blocks w (unat blk). stable (dsk s4) b"
      using b ob [OF that] by (auto simp: gen_blocks_def)
    ultimately show ?thesis by (simp add: gen_ready_def)
  qed
qed

section \<open>The superblock\<close>

lemma dev_write_log:
  assumes "on_disk s" and "dev_write s blk n buf = (st, t)"
  shows "set (dk_log (dsk t)) \<subseteq> (\<Union>acc. set (write_entries acc (unat blk) (unat n) buf)) \<union> set (dk_log (dsk s))"
proof -
  obtain r d where d: "disk_write (dsk s) blk n buf = (r, d)" by fastforce
  then have "t = s \<or> dsk t = d"
    using assms by (auto simp: dev_write_def Let_def on_disk_def set_ctx_def split: if_splits)
  then show ?thesis using disk_write_newest(4) [OF d] by auto
qed

lemma dev_flush_log:
  assumes "on_disk s" and "dev_flush s = (st, t)" and "st \<noteq> ST_OK"
  shows "set (dk_log (dsk t)) = (\<lambda>(b, c, acc). (b, c, False)) ` set (dk_log (dsk s))"
proof -
  obtain r d where d: "disk_flush (dsk s) = (r, d)" by fastforce
  then have "dsk t = d" "\<not> r" using assms by (auto simp: dev_flush_def Let_def on_disk_def set_ctx_def)
  then show ?thesis using disk_flush_fail(4) [of "dsk s" d] d by simp
qed

lemma super_phase:
  assumes od: "on_disk s" "disk_ok (dsk s)" and k: "k < 2" "stable (dsk s) k" and len: "length buf = 4096"
    and wr: "dev_write s (of_nat k) 1 buf = (st3, s5)"
    and fl: "(if st3 = ST_OK then dev_flush s5 else (st3, s5)) = (st4, s6)"
  shows "dev_only s s6" and "disk_ok (dsk s6)"
    and "b \<noteq> k \<Longrightarrow> stable (dsk s) b \<Longrightarrow> stable (dsk s6) b \<and> dk_dur (dsk s6) b = dk_dur (dsk s) b"
    and "st4 = ST_OK \<Longrightarrow> stable (dsk s6) k \<and> dk_dur (dsk s6) k = buf"
    and "st4 \<noteq> ST_OK \<Longrightarrow> crash_image (dsk s6) img \<Longrightarrow>
      img k = dk_dur (dsk s) k \<or> img k = buf \<or> super_bad (img k)"
proof -
  have uk: "unat (of_nat k :: u64) = k" using k(1) by (simp add: unat_of_nat)
  note ws = dev_write_spec [OF od _ wr, unfolded uk]
  have wo: "writes_only s s5 {k}" using ws(1) len by simp
  note wd = writes_only_disk [OF wo]
  have od5: "on_disk s5" "disk_ok (dsk s5)" using wd(1) od(1) by (simp_all add: writes_only_simps [OF wo])
  note fs = dev_flush_spec [OF od5]
  have d6: "dev_only s5 s6 \<and> disk_ok (dsk s6)" using fl fs(1,2) od5 by (auto split: if_splits)
  show "dev_only s s6" using d6 writes_only_fields [OF wo] dev_only_trans by blast
  show "disk_ok (dsk s6)" using d6 by simp
  show "stable (dsk s6) b \<and> dk_dur (dsk s6) b = dk_dur (dsk s) b" if "b \<noteq> k" "stable (dsk s) b"
    using fl fs(4,5) [of st4 s6 b] that wd(2) wd(4,6) [of b] by (cases "st4 = ST_OK") (auto split: if_splits)
  show "stable (dsk s6) k \<and> dk_dur (dsk s6) k = buf" if "st4 = ST_OK"
  proof -
    have "st3 = ST_OK" "dev_flush s5 = (ST_OK, s6)" using fl that by (auto split: if_splits)
    moreover then have "newest (dsk s5) k = Some (buf, True)" using ws(3) [of 0] len by simp
    ultimately show ?thesis using fs(4) [of ST_OK s6 k] by (simp add: firm_def view_def)
  qed
  show "img k = dk_dur (dsk s) k \<or> img k = buf \<or> super_bad (img k)"
    if bad: "st4 \<noteq> ST_OK" and im: "crash_image (dsk s6) img"
  proof -
    have none: "(k, c, acc) \<notin> set (dk_log (dsk s))" for c acc
      using k(2) by (auto simp: stable_def newest_def map_of_eq_None_iff image_iff)
    have l5: "c = buf" if "(k, c, acc) \<in> set (dk_log (dsk s5))" for c acc
      using dev_write_log [OF od(1) wr, unfolded uk] that none len by (auto simp: write_entries_def)
    have "c = buf" if "(k, c, acc) \<in> set (dk_log (dsk s6))" for c acc
      using fl bad that l5 dev_flush_log [OF od5(1), of st4 s6] by (auto split: if_splits)
    moreover have "dk_dur (dsk s6) = dk_dur (dsk s)"
      using fl bad fs(5) [of st4 s6] wd(2) by (auto split: if_splits)
    ultimately show ?thesis using im k(1) unfolding crash_image_def by metis
  qed
qed

lemma super_bad_loses: "super_bad x \<Longrightarrow> si_state (slot_of x n) \<noteq> ST_SLOT_OLDER"
  by (auto simp: super_bad_def slot_of_def slot_zero_def Let_def)

lemma super_bad_gen: "super_bad x \<Longrightarrow> slot_gen (slot_of x n) = 0"
  by (auto simp: super_bad_def slot_of_def slot_zero_def slot_gen_def Let_def)

lemma super_slot:
  assumes "rt_gen w \<noteq> 0" and "16 \<le> blocks" and "blocks \<le> n"
  shows "slot_of (cd_enc c_super (make_super w blk blocks)) n
     = \<lparr>si_state = ST_SLOT_OLDER, si_gen = rt_gen w, si_store_id = rt_store_id w, si_blocks = blocks,
        si_root_blk = blk, si_root_crc = rt_crc w\<rparr>"
    and "length (cd_enc c_super (make_super w blk blocks)) = 4096"
proof -
  define s0 where "s0 = \<lparr>su_magic = ST_SUPER_MAGIC, su_version = ST_VERSION,
     su_block_size = ST_BLOCK, su_block_count = blocks, su_store_id = rt_store_id w,
     su_gen = rt_gen w, su_root_blk = blk, su_root_crc = rt_crc w, su_retain = rt_retain w,
     su_reserved0 = 0, su_boot_id = rt_boot_id w, su_zero = replicate 4028 0, su_crc = 0\<rparr>"
  have ms: "make_super w blk blocks = seal_super s0" by (simp add: make_super_def s0_def)
  have "super_wf s0" by (simp add: super_wf_def s0_def ST_SUPER_MAGIC_def)
  note so = seal_super_ok [OF this, folded ms]
  show "length (cd_enc c_super (make_super w blk blocks)) = 4096" by (rule so(2))
  have f: "su_magic (make_super w blk blocks) = ST_SUPER_MAGIC" "su_version (make_super w blk blocks) = ST_VERSION"
    "su_block_size (make_super w blk blocks) = ST_BLOCK" "su_block_count (make_super w blk blocks) = blocks"
    "su_store_id (make_super w blk blocks) = rt_store_id w" "su_gen (make_super w blk blocks) = rt_gen w"
    "su_root_blk (make_super w blk blocks) = blk" "su_root_crc (make_super w blk blocks) = rt_crc w"
    by (simp_all add: ms seal_super_def s0_def)
  show "slot_of (cd_enc c_super (make_super w blk blocks)) n
     = \<lparr>si_state = ST_SLOT_OLDER, si_gen = rt_gen w, si_store_id = rt_store_id w, si_blocks = blocks,
        si_root_blk = blk, si_root_crc = rt_crc w\<rparr>"
    unfolding slot_of_def Let_def so(3) so(4) f using assms by (simp add: not_less)
qed

section \<open>The whole commit\<close>

lemma image_remounts:
  assumes len: "\<forall>b. length (img b) = 4096" and N: "16 \<le> N" and k: "k = 0 \<or> k = 1"
    and c: "c = slot_of (img k) (eff_blocks N)" and old: "si_state c = ST_SLOT_OLDER"
    and sv: "slot_valid img c r"
    and other: "bx = slot_of (img (1 - k)) (eff_blocks N)"
    and lose: "si_state bx \<noteq> ST_SLOT_OLDER \<or> si_gen bx < rt_gen r \<or> si_gen bx = rt_gen r \<and> k = 0"
  shows "\<exists>m. st_mount (disk_dev N (fresh_disk img)) boot 0 = (ST_OK, m) \<and> st_inv N m \<and> s_cur m = r
    \<and> dk_dur (dsk m) = img \<and> \<not> s_in_tx m \<and> s_max_gen m = max (slot_gen c) (slot_gen bx)
    \<and> mounted_on m img k c r"
proof -
  obtain m where m: "st_mount (disk_dev N (fresh_disk img)) boot 0 = (ST_OK, m)" "mounted_on m img k c r"
    "s_max_gen m = max (slot_gen c) (slot_gen bx)"
    using image_mounts [OF assms] by blast
  then show ?thesis
    using mounted_inv [OF m(2) k N c old sv other lose m(3)] by (auto simp: mounted_on_def fresh_def)
qed

lemma blocks_le_eff: "st_inv N s \<Longrightarrow> 16 \<le> dv_blocks (s_dev s) \<and> dv_blocks (s_dev s) \<le> eff_blocks N"
  using slot_older_blocks [of "dk_dur (dsk s) (nat (s_cur_slot s))" "eff_blocks N"]
  by (auto simp: st_inv_def cur_si_def word_le_nat_alt)

text \<open>The generation that a superblock in slot \<open>k\<close> names, when the other slot is the old current one.\<close>

lemma new_slot_valid:
  assumes inv: "st_inv N s" and w: "gen_ready s blk w" "rt_gen (s_cur s) < rt_gen w"
    and im: "\<And>b. b \<in> gen_blocks w (unat blk) \<Longrightarrow> img b = dk_dur (dsk s) b"
    and k: "img (nat (1 - s_cur_slot s)) = cd_enc c_super (make_super w blk (dv_blocks (s_dev s)))"
  shows "si_state (slot_of (img (nat (1 - s_cur_slot s))) (eff_blocks N)) = ST_SLOT_OLDER"
    and "slot_valid img (slot_of (img (nat (1 - s_cur_slot s))) (eff_blocks N)) w"
    and "si_blocks (slot_of (img (nat (1 - s_cur_slot s))) (eff_blocks N)) = dv_blocks (s_dev s)"
    and "si_root_blk (slot_of (img (nat (1 - s_cur_slot s))) (eff_blocks N)) = blk"
proof -
  have nz: "rt_gen w \<noteq> 0" using w(2) by auto
  note sl = super_slot(1) [OF nz, of "dv_blocks (s_dev s)" "eff_blocks N" blk]
  have "gen_ok img (dv_blocks (s_dev s)) blk w"
    by (rule gen_ok_cong [of "dk_dur (dsk s)"]) (use w(1) im in \<open>simp_all add: gen_ready_def\<close>)
  then show "si_state (slot_of (img (nat (1 - s_cur_slot s))) (eff_blocks N)) = ST_SLOT_OLDER"
    "slot_valid img (slot_of (img (nat (1 - s_cur_slot s))) (eff_blocks N)) w"
    "si_blocks (slot_of (img (nat (1 - s_cur_slot s))) (eff_blocks N)) = dv_blocks (s_dev s)"
    "si_root_blk (slot_of (img (nat (1 - s_cur_slot s))) (eff_blocks N)) = blk"
    using sl blocks_le_eff [OF inv] by (simp_all add: k slot_valid_def)
qed

lemma cur_slot_older:
  assumes "st_inv N s" and "img (nat (s_cur_slot s)) = dk_dur (dsk s) (nat (s_cur_slot s))"
  shows "si_state (slot_of (img (nat (s_cur_slot s))) (eff_blocks N)) = ST_SLOT_OLDER"
    and "si_gen (slot_of (img (nat (s_cur_slot s))) (eff_blocks N)) = rt_gen (s_cur s)"
  using assms by (simp_all add: st_inv_def cur_si_def slot_valid_def)

lemma commit_unknown:
  assumes inv: "st_inv N s" and w: "gen_ready s blk w" "rt_gen (s_cur s) < rt_gen w"
    and k: "k = nat (1 - s_cur_slot s)" and buf: "buf = cd_enc c_super (make_super w blk (dv_blocks (s_dev s)))"
    and wr: "dev_write s (of_nat k) 1 buf = (st3, s5)"
    and fl: "(if st3 = ST_OK then dev_flush s5 else (st3, s5)) = (st4, s6)" and bad: "st4 \<noteq> ST_OK"
    and im: "crash_image (dsk s6) img"
  shows "\<exists>m. st_mount (disk_dev N (fresh_disk img)) boot 0 = (ST_OK, m) \<and> st_inv N m \<and> \<not> s_in_tx m
    \<and> dk_dur (dsk m) = img \<and> s_max_gen m \<le> max (s_max_gen s) (rt_gen w)
    \<and> (s_cur m = s_cur s \<and> (\<forall>b \<in> gen_blocks (s_cur s) (unat (s_cur_blk s)). img b = dk_dur (dsk s) b)
       \<or> s_cur m = w \<and> (\<forall>b \<in> gen_blocks w (unat blk). img b = dk_dur (dsk s) b))"
proof -
  define j where "j = nat (s_cur_slot s)"
  have sl: "s_cur_slot s = 0 \<or> s_cur_slot s = 1" and N: "16 \<le> N" and od: "on_disk s" "disk_ok (dsk s)"
    and nb: "nblks s \<le> 32768" using inv by (simp_all add: st_inv_def)
  have kj: "k < 2" "j < 2" "k \<noteq> j" "1 - j = k" "1 - k = j" "j = 0 \<or> j = 1" "k = 0 \<or> k = 1" "(s_cur_slot s = 0) = (j = 0)"
    using sl by (auto simp: k j_def)
  note st = st_inv_stable [OF inv]
  have nz: "rt_gen w \<noteq> 0" using w(2) by auto
  have buf_len: "length buf = 4096"
    using super_slot(2) [OF nz, of "dv_blocks (s_dev s)" "eff_blocks N" blk] blocks_le_eff [OF inv] by (simp add: buf)
  note sp = super_phase [OF od kj(1) st(1) [OF kj(1)] buf_len wr fl]
  have eq: "img b = dk_dur (dsk s) b" if "b \<noteq> k" "stable (dsk s) b" for b
    using sp(3) [OF that] stable_image [OF _ im, of b] by simp
  have len: "\<forall>b. length (img b) = 4096" using image_length [OF sp(2) im] by simp
  have g2: "2 \<le> b" if "b \<in> gen_blocks (s_cur s) (unat (s_cur_blk s))" for b
    using gen_blocks_bound(1) [OF st_inv_gen(1) [OF inv] nb that] .
  have cur: "\<forall>b \<in> gen_blocks (s_cur s) (unat (s_cur_blk s)). img b = dk_dur (dsk s) b"
    using eq st(2) g2 kj(1) by fastforce
  have "2 \<le> b" if "b \<in> gen_blocks w (unat blk)" for b
    using gen_blocks_bound(1) [of "dk_dur (dsk s)", OF _ nb that] w(1) by (simp add: gen_ready_def)
  then have new: "\<forall>b \<in> gen_blocks w (unat blk). img b = dk_dur (dsk s) b"
    using eq w(1) kj(1) unfolding gen_ready_def by fastforce
  have ij: "img j = dk_dur (dsk s) j" using eq [of j] st(1) [of j] kj by simp
  note cs = cur_slot_older [OF inv, of img, folded j_def, OF ij]
  have gj: "slot_gen (slot_of (img j) (eff_blocks N)) \<le> s_max_gen s"
    using cs inv by (simp add: slot_gen_def st_inv_def)
  show ?thesis
  proof (cases "img k = buf")
    case True
    note ns = new_slot_valid [OF inv w, of img, folded k, unfolded buf [symmetric], OF _ True]
    have "\<exists>m. st_mount (disk_dev N (fresh_disk img)) boot 0 = (ST_OK, m) \<and> st_inv N m \<and> s_cur m = w
        \<and> dk_dur (dsk m) = img \<and> \<not> s_in_tx m \<and> s_max_gen m
          = max (slot_gen (slot_of (img k) (eff_blocks N))) (slot_gen (slot_of (img (1 - k)) (eff_blocks N)))
        \<and> mounted_on m img k (slot_of (img k) (eff_blocks N)) w"
      by (rule image_remounts [OF len N kj(7) refl ns(1,2) refl]) (use new kj(5) cs w(2) in simp_all)
    moreover have "slot_gen (slot_of (img k) (eff_blocks N)) = rt_gen w"
      using ns(1,2) new by (simp add: slot_gen_def slot_valid_def)
    ultimately show ?thesis using new gj kj(5) by (auto simp: max_def)
  next
    case False
    then have bx: "slot_loses (slot_of (img k) (eff_blocks N)) s"
      using sp(5) [OF bad im] super_bad_loses [of "img k" "eff_blocks N"] inv
      by (auto simp: slot_loses_def st_inv_def other_si_def k)
    have "gen_ok img (dv_blocks (s_dev s)) (s_cur_blk s) (s_cur s)"
      by (rule gen_ok_cong [OF st_inv_gen(1) [OF inv]]) (simp add: cur)
    then have sv: "slot_valid img (slot_of (img j) (eff_blocks N)) (s_cur s)"
      using inv ij by (simp add: st_inv_def slot_valid_def cur_si_def j_def)
    have "\<exists>m. st_mount (disk_dev N (fresh_disk img)) boot 0 = (ST_OK, m) \<and> st_inv N m \<and> s_cur m = s_cur s
        \<and> dk_dur (dsk m) = img \<and> \<not> s_in_tx m \<and> s_max_gen m
          = max (slot_gen (slot_of (img j) (eff_blocks N))) (slot_gen (slot_of (img (1 - j)) (eff_blocks N)))
        \<and> mounted_on m img j (slot_of (img j) (eff_blocks N)) (s_cur s)"
      by (rule image_remounts [OF len N kj(6) refl cs(1) sv refl]) (use kj bx in \<open>simp add: slot_loses_def\<close>)
    moreover have "slot_gen (slot_of (img k) (eff_blocks N)) \<le> s_max_gen s"
      using sp(5) [OF bad im] False super_bad_gen [of "img k" "eff_blocks N"] inv
      by (auto simp: st_inv_def other_si_def k)
    ultimately show ?thesis using cur gj kj(4) by (auto simp: le_max_iff_disj)
  qed
qed

lemma commit_success:
  assumes inv: "st_inv N s" and w: "gen_ready s blk w" "rt_gen (s_cur s) < rt_gen w"
    and k: "k = nat (1 - s_cur_slot s)" and buf: "buf = cd_enc c_super (make_super w blk (dv_blocks (s_dev s)))"
    and wr: "dev_write s (of_nat k) 1 buf = (st3, s5)"
    and fl: "(if st3 = ST_OK then dev_flush s5 else (st3, s5)) = (ST_OK, s6)"
    and s7: "s7 = s6\<lparr>s_cur := w, s_cur_blk := blk, s_cur_slot := 1 - s_cur_slot s, s_max_gen := rt_gen w,
                      s_in_tx := False, s_tx_prune := False, s_tx_reserve := False,
                      s_commits := c, s_txused := replicate 4096 0\<rparr>"
    and rc: "recompute_used s7 = (n, t)"
  shows "st_inv N t \<and> s_cur t = w \<and> s_cur_blk t = blk \<and> \<not> s_in_tx t \<and> s_max_gen t = rt_gen w
    \<and> (\<forall>b \<in> gen_blocks w (unat blk). dk_dur (dsk t) b = dk_dur (dsk s) b)"
proof -
  have sl: "s_cur_slot s = 0 \<or> s_cur_slot s = 1" and od: "on_disk s" "disk_ok (dsk s)"
    and nb: "nblks s \<le> 32768" using inv by (simp_all add: st_inv_def)
  have kj: "k < 2" "k \<noteq> nat (s_cur_slot s)" "nat (s_cur_slot s) < 2" using sl by (auto simp: k)
  note st = st_inv_stable [OF inv]
  have nz: "rt_gen w \<noteq> 0" using w(2) by auto
  have buf_len: "length buf = 4096"
    using super_slot(2) [OF nz, of "dv_blocks (s_dev s)" "eff_blocks N" blk] blocks_le_eff [OF inv] by (simp add: buf)
  note sp = super_phase [OF od kj(1) st(1) [OF kj(1)] buf_len wr fl]
  note f6 = dev_only_fields [OF sp(1)] dev_only_disk [OF sp(1)]
  have ge: "gen_ok (dk_dur (dsk s)) (dv_blocks (s_dev s)) blk w" using w(1) by (simp add: gen_ready_def)
  have g2: "2 \<le> b" "b < nblks s" if "b \<in> gen_blocks w (unat blk)" for b
    using gen_blocks_bound [OF ge nb that] by simp_all
  have new: "stable (dsk s6) b \<and> dk_dur (dsk s6) b = dk_dur (dsk s) b" if "b \<in> gen_blocks w (unat blk)" for b
    using sp(3) [of b] g2 [OF that] w(1) that kj(1) by (auto simp: gen_ready_def)
  have low: "stable (dsk s6) b" if "b < 2" for b
    using that sp(3) [of b] sp(4) st(1) by (cases "b = k") auto
  have old: "dk_dur (dsk s6) (nat (s_cur_slot s)) = dk_dur (dsk s) (nat (s_cur_slot s))"
    using sp(3) [of "nat (s_cur_slot s)"] kj st(1) by auto
  have d7: "dsk s7 = dsk s6" "on_disk s7" "nblks s7 \<le> 32768" "dv_blocks (s_dev s7) = dv_blocks (s_dev s)"
    using od nb by (simp_all add: s7 f6 on_disk_def)
  note m = marks_only_fields [OF recompute_used_spec(1) [OF d7(2,3) rc]]
  note ns = new_slot_valid [OF inv w, of "dk_dur (dsk s6)", folded k, unfolded buf [symmetric]]
  note cs = cur_slot_older [OF inv, of "dk_dur (dsk s6)", OF old]
  have ci: "cur_si N t = slot_of (dk_dur (dsk s6) k) (eff_blocks N)"
    "other_si N t = slot_of (dk_dur (dsk s6) (nat (s_cur_slot s))) (eff_blocks N)"
    by (simp_all add: cur_si_def other_si_def m d7 s7 k)
  have wf: "root_wf w" "rt_nobj w \<le> 49" using ge by (auto simp: gen_ok_def root_ok_def root_sane_def)
  have "used_covers t"
    unfolding used_covers_def
  proof (intro allI impI)
    fix b assume b: "b < 2 \<or> b \<in> gen_blocks (s_cur t) (unat (s_cur_blk t))"
    then have b': "b < 2 \<or> b \<in> gen_blocks w (unat blk)" by (simp add: m s7)
    then have "b < 32768" using g2 nb by fastforce
    then show "bit_get (s_used t) b"
      using used_start_bits [of s7 b] wf d7 b' g2 by (intro m(19)) (auto simp: s7)
  qed
  moreover have "live_stable t" using new low by (auto simp: live_stable_def m d7 s7)
  moreover have "slot_loses (other_si N t) t" using cs(2) w(2) by (simp add: slot_loses_def ci m s7)
  moreover have "slot_gen (other_si N t) \<le> s_max_gen t" using cs w(2) by (simp add: slot_gen_def ci m s7)
  moreover have "16 \<le> N" "16 \<le> nblks s" "s_mounted s" "s_flags s = 0" using inv by (simp_all add: st_inv_def)
  moreover have "disk_ok (dsk t)" using sp(2) m(15,16) d7(1) by (simp add: disk_ok_def)
  moreover have "on_disk t" using d7(2) m(14) by (simp add: on_disk_def)
  moreover have "s_mounted t = s_mounted s" "s_flags t = s_flags s" "s_cur_slot t = 1 - s_cur_slot s"
    "dv_blocks (s_dev t) = dv_blocks (s_dev s)" "s_cur t = w" "s_cur_blk t = blk" "rt_gen (s_cur t) \<le> s_max_gen t"
    "length (s_used t) = 4096" "length (s_txused t) = 4096" "dk_dur (dsk t) = dk_dur (dsk s6)"
    using d7 by (simp_all add: m s7 f6)
  moreover have "si_state (cur_si N t) = ST_SLOT_OLDER" "si_blocks (cur_si N t) = dv_blocks (s_dev s)"
    "si_root_blk (cur_si N t) = blk" "slot_valid (dk_dur (dsk s6)) (cur_si N t) w"
    unfolding ci using ns sp(4) new by simp_all
  moreover have "1 - s_cur_slot s = 0 \<or> 1 - s_cur_slot s = 1" using sl by auto
  ultimately have "st_inv N t" using nb unfolding st_inv_def by simp
  then show ?thesis using new by (simp add: m s7 d7 f6)
qed

lemma root_map_blocks:
  assumes "\<And>b. b \<in> gen_blocks r blk \<Longrightarrow> f b = g b"
  shows "root_map f r = root_map g r"
  by (rule root_map_cong) (use assms in \<open>auto simp: gen_blocks_def intro!: obj_data_cong\<close>)

text \<open>An aborted transaction: nothing but the transaction state is gone.\<close>

lemma abort_keeps:
  assumes "st_inv N s"
  shows "st_inv N (st_abort s)" and "dsk (st_abort s) = dsk s" and "s_cur (st_abort s) = s_cur s"
    and "\<not> s_in_tx (st_abort s)" and "s_cur_blk (st_abort s) = s_cur_blk s" and "s_max_gen (st_abort s) = s_max_gen s"
proof -
  have "tx_only s (st_abort s)"
    by (rule tx_onlyI [where i = False and p = False and v = False and w = "s_work s" and u = "replicate 4096 0"])
       (simp_all add: st_abort_def)
  then show "st_inv N (st_abort s)" using assms st_inv_tx_only by blast
  show "dsk (st_abort s) = dsk s" "s_cur (st_abort s) = s_cur s" "\<not> s_in_tx (st_abort s)"
    "s_cur_blk (st_abort s) = s_cur_blk s" "s_max_gen (st_abort s) = s_max_gen s"
    by (simp_all add: st_abort_def)
qed

lemma alloc_one:
  assumes al: "alloc s 1 res = (blk, t)" and nz: "blk \<noteq> 0" and nb: "nblks s \<le> 32768" and tl: "length (s_txused s) = 4096"
  shows "\<exists>u. t = s\<lparr>s_txused := u\<rparr> \<and> length u = 4096 \<and> 2 \<le> unat blk \<and> unat blk < nblks s \<and> blk_free s (unat blk)"
proof -
  have "(1 :: u32) \<noteq> 0" by simp
  from alloc_spec(2) [OF al this nb tl nz] obtain u where u: "t = s\<lparr>s_txused := u\<rparr>" "length u = 4096" "2 \<le> unat blk"
    "unat blk + unat (1 :: u32) \<le> nblks s" "\<forall>b \<in> {unat blk..<unat blk + unat (1 :: u32)}. blk_free s b" by blast
  then show ?thesis by (intro exI [of _ u]) simp
qed

text \<open>The steps of a commit that gets past its checks.\<close>

lemma commit_steps:
  assumes inv: "st_inv N s" and tx: "tx_ok s" and i: "s_in_tx s" and room: "st_room 1 s"
    and lab: "st_label_ok label" and al: "alloc (s\<lparr>s_work := commit_root s label\<rparr>) 1 True = (blk, s1)" "blk \<noteq> 0"
    and w: "w = seal_root (s_work s1)" and wr: "dev_write (s1\<lparr>s_work := w\<rparr>) (ucast blk) 1 (cd_enc c_root w) = (st1, s3)"
    and fl: "(if st1 = ST_OK then dev_flush s3 else (st1, s3)) = (st2, s4)"
  shows "st_inv N s4" and "s_cur s4 = s_cur s" and "s_cur_blk s4 = s_cur_blk s" and "s_max_gen s4 = s_max_gen s"
    and "s_cur_slot s4 = s_cur_slot s" and "s_boot_id s4 = s_boot_id s"
    and "b \<in> gen_blocks (s_cur s) (unat (s_cur_blk s)) \<Longrightarrow> dk_dur (dsk s4) b = dk_dur (dsk s) b"
    and "st2 = ST_OK \<Longrightarrow> gen_ready s4 blk w \<and> root_map (dk_dur (dsk s4)) w = root_map (view (dsk s)) (s_work s)"
    and "rt_gen w = st_next_gen s" and "objs w = objs (s_work s)" and "rt_next_oid w = rt_next_oid (s_work s)"
proof -
  have nb: "nblks s \<le> 32768" "length (s_txused s) = 4096" "s_flags s = 0" using inv by (simp_all add: st_inv_def)
  obtain u where u: "s1 = s\<lparr>s_work := commit_root s label, s_txused := u\<rparr>" "length u = 4096" "2 \<le> unat blk"
    "unat blk < nblks s" "blk_free (s\<lparr>s_work := commit_root s label\<rparr>) (unat blk)"
    using alloc_one [OF al] nb by auto
  have w': "w = seal_root (commit_root s label)" by (simp add: w u(1))
  note cr = commit_root_spec [OF inv tx room lab w']
  define s2 where "s2 = s1\<lparr>s_work := w\<rparr>"
  have s2: "s2 = s\<lparr>s_work := w, s_txused := u\<rparr>" by (simp add: s2_def u(1))
  have inv2: "st_inv N s2"
    by (rule st_inv_tx_only [OF inv], rule tx_onlyI
        [where i = "s_in_tx s" and p = "s_tx_prune s" and v = "s_tx_reserve s" and w = w and u = u])
      (simp_all add: s2 u(2))
  have free: "\<not> bit_get (s_used s) (unat blk)" "\<not> bit_get (s_txused s) (unat blk)"
    using u(5) nb(3) by (simp_all add: blk_free_def)
  have f2: "dv_blocks (s_dev s2) = dv_blocks (s_dev s)" "s_used s2 = s_used s" "dsk s2 = dsk s" by (simp_all add: s2)
  have os: "\<forall>x \<in> set (objs (s_work s)). obj_safe s x" using tx by (simp add: tx_ok_def Let_def)
  have safe: "\<forall>x \<in> set (objs w). \<forall>b \<in> obj_blocks x. b \<noteq> unat blk \<and> firm (dsk s2) b"
    using os free unfolding cr(3) f2 obj_safe_def by blast
  have eok: "\<forall>x \<in> set (objs w). ext_ok (view (dsk s2)) x"
    using os unfolding cr(3) f2 obj_safe_def by blast
  note cb = commit_barrier [OF inv2 cr(6) w' _ _ u(3) _ safe eok wr [folded s2_def] fl, unfolded f2, OF cr(2) free(1) u(4)]
  note f = dev_only_fields [OF cb(2)]
  show "st_inv N s4" by (rule cb(1))
  show "s_cur s4 = s_cur s" "s_cur_blk s4 = s_cur_blk s" "s_max_gen s4 = s_max_gen s"
    "s_cur_slot s4 = s_cur_slot s" "s_boot_id s4 = s_boot_id s" by (simp_all add: f s2)
  show "b \<in> gen_blocks (s_cur s) (unat (s_cur_blk s)) \<Longrightarrow> dk_dur (dsk s4) b = dk_dur (dsk s) b"
    using cb(4) [of b] by (simp add: live_def s2)
  show "gen_ready s4 blk w \<and> root_map (dk_dur (dsk s4)) w = root_map (view (dsk s)) (s_work s)" if "st2 = ST_OK"
    using cb(5,6) [OF that] cr(3) by (auto intro: root_map_cong)
  show "rt_gen w = st_next_gen s" "objs w = objs (s_work s)" by (rule cr)+
  obtain h nh l nl where "commit_hist s = (h, nh)" "commit_log s (st_next_gen s) label = (l, nl)" by fastforce
  then show "rt_next_oid w = rt_next_oid (s_work s)" by (rule commit_fields(5) [OF _ _ w'])
qed

text \<open>The ways a commit can end, in terms of its steps.\<close>

lemma commit_cases:
  assumes inv: "st_inv N s" and i: "s_in_tx s" and c: "st_commit s label = (st, g, t)"
  obtains (label) "\<not> st_label_ok label" "st = ST_E_NAME" "t = st_abort s"
  | (nospace) "st = ST_E_NOSPC" "t = st_abort (s\<lparr>s_work := commit_root s label\<rparr>)"
  | (io) blk s1 w st1 s3 st2 s4 where "st_label_ok label" "alloc (s\<lparr>s_work := commit_root s label\<rparr>) 1 True = (blk, s1)" "blk \<noteq> 0"
      "w = seal_root (s_work s1)" "dev_write (s1\<lparr>s_work := w\<rparr>) (ucast blk) 1 (cd_enc c_root w) = (st1, s3)"
      "(if st1 = ST_OK then dev_flush s3 else (st1, s3)) = (st2, s4)" "st2 \<noteq> ST_OK" "st = ST_E_IO" "t = st_abort s4"
  | (super) blk s1 w st1 s3 s4 st3 s5 st4 s6 where "st_label_ok label"
      "alloc (s\<lparr>s_work := commit_root s label\<rparr>) 1 True = (blk, s1)" "blk \<noteq> 0"
      "w = seal_root (s_work s1)" "dev_write (s1\<lparr>s_work := w\<rparr>) (ucast blk) 1 (cd_enc c_root w) = (st1, s3)"
      "(if st1 = ST_OK then dev_flush s3 else (st1, s3)) = (ST_OK, s4)"
      "dev_write s4 (of_int (1 - s_cur_slot s4)) 1 (cd_enc c_super (make_super w blk (dv_blocks (s_dev s4)))) = (st3, s5)"
      "(if st3 = ST_OK then dev_flush s5 else (st3, s5)) = (st4, s6)"
      "st4 \<noteq> ST_OK \<Longrightarrow> st = ST_E_UNKNOWN \<and> dsk t = dsk s6 \<and> \<not> s_mounted t"
      "st4 = ST_OK \<Longrightarrow> st = ST_OK \<and> g = Some (st_next_gen s) \<and> (\<exists>n c. recompute_used (s6\<lparr>s_cur := w, s_cur_blk := blk,
          s_cur_slot := 1 - s_cur_slot s4, s_max_gen := st_next_gen s, s_in_tx := False, s_tx_prune := False,
          s_tx_reserve := False, s_commits := c, s_txused := replicate 4096 0\<rparr>) = (n, t))"
proof (cases "st_label_ok label")
  case False
  then show thesis using c inv i label by (simp add: st_commit_def st_inv_def)
next
  case lab: True
  define s0 where "s0 = s\<lparr>s_work := commit_root s label\<rparr>"
  obtain blk s1 where al: "alloc s0 1 True = (blk, s1)" by fastforce
  have fl0: "s_flags s = 0" "s_mounted s" "nblks s0 \<le> 32768" "length (s_txused s0) = 4096"
    using inv by (simp_all add: st_inv_def s0_def)
  show thesis
  proof (cases "blk = 0")
    case True
    then have "s1 = s0" using alloc_spec(1) [OF al _ fl0(3,4)] by simp
    then show thesis
      using nospace True c lab i fl0 al by (simp add: st_commit_def Let_def s0_def [symmetric])
  next
    case nz: False
    define w where "w = seal_root (s_work s1)"
    obtain st1 s3 where wr: "dev_write (s1\<lparr>s_work := w\<rparr>) (ucast blk) 1 (cd_enc c_root w) = (st1, s3)" by fastforce
    obtain st2 s4 where bf: "(if st1 = ST_OK then dev_flush s3 else (st1, s3)) = (st2, s4)" by fastforce
    have f1: "s_flags s1 = 0" using alloc_one [OF al nz fl0(3,4)] fl0(1) by (auto simp: s0_def)
    have f3: "s_flags s3 = 0"
      using wr f1 by (auto simp: dev_write_def Let_def set_ctx_def split: if_splits prod.splits)
    have f4: "s_flags s4 = 0"
      using bf f3 by (auto simp: dev_flush_def Let_def set_ctx_def split: if_splits prod.splits)
    show thesis
    proof (cases "st2 = ST_OK")
      case False
      have "st = ST_E_IO" "t = st_abort s4"
        using c lab i fl0 al nz wr bf f3 False
        by (simp_all add: st_commit_def Let_def s0_def [symmetric] w_def [symmetric])
      then show thesis using io lab al nz wr bf False unfolding s0_def by (metis w_def)
    next
      case True
      obtain st3 s5 where w3: "dev_write s4 (of_int (1 - s_cur_slot s4)) 1
          (cd_enc c_super (make_super w blk (dv_blocks (s_dev s4)))) = (st3, s5)" by fastforce
      obtain st4 s6 where b6: "(if st3 = ST_OK then dev_flush s5 else (st3, s5)) = (st4, s6)" by fastforce
      have f5: "s_flags s5 = 0"
        using w3 f4 by (auto simp: dev_write_def Let_def set_ctx_def split: if_splits prod.splits)
      note rest = c lab i fl0 al nz wr bf f3 f4 f5 True w3 b6
      have "st4 \<noteq> ST_OK \<Longrightarrow> st = ST_E_UNKNOWN \<and> dsk t = dsk s6 \<and> \<not> s_mounted t"
        using rest by (auto simp add: st_commit_def Let_def s0_def [symmetric] w_def [symmetric] st_abort_def)
      moreover have "st4 = ST_OK \<Longrightarrow> st = ST_OK \<and> g = Some (st_next_gen s) \<and> (\<exists>n c. recompute_used (s6\<lparr>s_cur := w, s_cur_blk := blk,
          s_cur_slot := 1 - s_cur_slot s4, s_max_gen := st_next_gen s, s_in_tx := False, s_tx_prune := False,
          s_tx_reserve := False, s_commits := c, s_txused := replicate 4096 0\<rparr>) = (n, t))"
        using rest by (auto simp add: st_commit_def Let_def s0_def [symmetric] w_def [symmetric] split: prod.splits)
      ultimately show thesis
        using super [OF lab al [unfolded s0_def] nz w_def wr bf [unfolded True] w3 b6] by blast
    qed
  qed
qed

definition commit_result :: "u64 \<Rightarrow> disk store \<Rightarrow> st_error \<Rightarrow> disk store \<Rightarrow> bool" where
  "commit_result N s st t \<longleftrightarrow>
     (st \<noteq> ST_OK \<and> st \<noteq> ST_E_UNKNOWN \<longrightarrow> st_inv N t \<and> s_cur t = s_cur s \<and> \<not> s_in_tx t \<and> s_max_gen t = s_max_gen s
        \<and> root_map (dk_dur (dsk t)) (s_cur s) = root_map (dk_dur (dsk s)) (s_cur s))
   \<and> (st = ST_OK \<longrightarrow> st_inv N t \<and> \<not> s_in_tx t \<and> s_max_gen t = st_next_gen s \<and> rt_gen (s_cur t) = st_next_gen s
        \<and> objs (s_cur t) = objs (s_work s) \<and> rt_next_oid (s_cur t) = rt_next_oid (s_work s)
        \<and> root_map (dk_dur (dsk t)) (s_cur t) = root_map (view (dsk s)) (s_work s))
   \<and> (st = ST_E_UNKNOWN \<longrightarrow> \<not> s_mounted t \<and> (\<forall>img boot. crash_image (dsk t) img \<longrightarrow>
        (\<exists>m. st_mount (disk_dev N (fresh_disk img)) boot 0 = (ST_OK, m) \<and> st_inv N m \<and> \<not> s_in_tx m
          \<and> dk_dur (dsk m) = img \<and> s_max_gen m \<le> st_next_gen s
          \<and> (s_cur m = s_cur s \<and> root_map img (s_cur m) = root_map (dk_dur (dsk s)) (s_cur s)
             \<or> objs (s_cur m) = objs (s_work s) \<and> rt_next_oid (s_cur m) = rt_next_oid (s_work s)
               \<and> root_map img (s_cur m) = root_map (view (dsk s)) (s_work s)))))"

lemma commit_late:
  assumes inv: "st_inv N s" and room: "st_room 1 s" and i: "st_inv N s4"
    and cs: "s_cur s4 = s_cur s" "s_cur_blk s4 = s_cur_blk s" "s_max_gen s4 = s_max_gen s"
      "\<And>b. b \<in> gen_blocks (s_cur s) (unat (s_cur_blk s)) \<Longrightarrow> dk_dur (dsk s4) b = dk_dur (dsk s) b"
    and rdy: "gen_ready s4 blk w" "root_map (dk_dur (dsk s4)) w = root_map (view (dsk s)) (s_work s)"
    and w: "rt_gen w = st_next_gen s" "objs w = objs (s_work s)" "rt_next_oid w = rt_next_oid (s_work s)"
    and wr: "dev_write s4 (of_int (1 - s_cur_slot s4)) 1 (cd_enc c_super (make_super w blk (dv_blocks (s_dev s4)))) = (st3, s5)"
    and fl: "(if st3 = ST_OK then dev_flush s5 else (st3, s5)) = (st4, s6)"
    and bad: "st4 \<noteq> ST_OK \<Longrightarrow> st = ST_E_UNKNOWN \<and> dsk t = dsk s6 \<and> \<not> s_mounted t"
    and ok: "st4 = ST_OK \<Longrightarrow> st = ST_OK \<and> (\<exists>n c. recompute_used (s6\<lparr>s_cur := w, s_cur_blk := blk,
          s_cur_slot := 1 - s_cur_slot s4, s_max_gen := st_next_gen s, s_in_tx := False, s_tx_prune := False,
          s_tx_reserve := False, s_commits := c, s_txused := replicate 4096 0\<rparr>) = (n, t))"
  shows "commit_result N s st t"
proof (cases "st4 = ST_OK")
  case True
  have gt: "rt_gen (s_cur s4) < rt_gen w" using next_gen_gt [OF inv] room by (simp add: cs w st_room_def)
  have sl: "(of_int (1 - s_cur_slot s4) :: u64) = of_nat (nat (1 - s_cur_slot s4))" using i by (auto simp: st_inv_def)
  obtain n c where "recompute_used (s6\<lparr>s_cur := w, s_cur_blk := blk, s_cur_slot := 1 - s_cur_slot s4,
        s_max_gen := rt_gen w, s_in_tx := False, s_tx_prune := False,
        s_tx_reserve := False, s_commits := c, s_txused := replicate 4096 0\<rparr>) = (n, t)" using ok [OF True] w(1) by auto
  note su = commit_success [OF i rdy(1) gt refl refl wr [unfolded sl] fl [unfolded True] refl this]
  have "root_map (dk_dur (dsk t)) w = root_map (dk_dur (dsk s4)) w"
    by (rule root_map_blocks [of w "unat blk"]) (use su in blast)
  then show ?thesis using su rdy(2) w ok [OF True] by (simp add: commit_result_def)
next
  case False
  have gt: "rt_gen (s_cur s4) < rt_gen w" using next_gen_gt [OF inv] room by (simp add: cs w st_room_def)
  have sl: "(of_int (1 - s_cur_slot s4) :: u64) = of_nat (nat (1 - s_cur_slot s4))" using i by (auto simp: st_inv_def)
  have mg: "max (s_max_gen s4) (rt_gen w) = st_next_gen s"
    using next_gen_nat [of s] room by (simp add: cs w st_room_def max_def word_le_nat_alt)
  have old: "root_map (dk_dur (dsk s4)) (s_cur s) = root_map (dk_dur (dsk s)) (s_cur s)"
    by (rule root_map_blocks) (rule cs(4))
  have "\<exists>m. st_mount (disk_dev N (fresh_disk img)) boot 0 = (ST_OK, m) \<and> st_inv N m \<and> \<not> s_in_tx m
          \<and> dk_dur (dsk m) = img \<and> s_max_gen m \<le> st_next_gen s
          \<and> (s_cur m = s_cur s \<and> root_map img (s_cur m) = root_map (dk_dur (dsk s)) (s_cur s)
             \<or> objs (s_cur m) = objs (s_work s) \<and> rt_next_oid (s_cur m) = rt_next_oid (s_work s)
               \<and> root_map img (s_cur m) = root_map (view (dsk s)) (s_work s))"
    if im: "crash_image (dsk s6) img" for img boot
  proof -
    from commit_unknown [OF i rdy(1) gt refl refl wr [unfolded sl] fl False im, of boot] obtain m where
      m: "st_mount (disk_dev N (fresh_disk img)) boot 0 = (ST_OK, m)" "st_inv N m" "\<not> s_in_tx m" "dk_dur (dsk m) = img"
        "s_max_gen m \<le> st_next_gen s"
        "s_cur m = s_cur s4 \<and> (\<forall>b \<in> gen_blocks (s_cur s4) (unat (s_cur_blk s4)). img b = dk_dur (dsk s4) b)
         \<or> s_cur m = w \<and> (\<forall>b \<in> gen_blocks w (unat blk). img b = dk_dur (dsk s4) b)"
      unfolding mg by blast
    have "s_cur m = s_cur s \<and> root_map img (s_cur s) = root_map (dk_dur (dsk s4)) (s_cur s)
        \<or> s_cur m = w \<and> root_map img w = root_map (dk_dur (dsk s4)) w"
      using m(6) root_map_blocks [of "s_cur s" "unat (s_cur_blk s)" img "dk_dur (dsk s4)"]
        root_map_blocks [of w "unat blk" img "dk_dur (dsk s4)"] unfolding cs(1,2) by blast
    then show ?thesis using m(1-5) old rdy(2) w(2,3) by auto
  qed
  then show ?thesis using bad [OF False] by (simp add: commit_result_def)
qed

lemma st_commit_spec:
  assumes inv: "st_inv N s" and tx: "tx_ok s" and i: "s_in_tx s" and room: "st_room 1 s"
    and c: "st_commit s label = (st, g, t)"
  shows "commit_result N s st t"
  using inv i c
proof (cases rule: commit_cases)
  case label
  then show ?thesis using abort_keeps [OF inv] by (simp add: commit_result_def)
next
  case nospace
  have "st_inv N (s\<lparr>s_work := commit_root s label\<rparr>)"
    by (rule st_inv_tx_only [OF inv], rule tx_onlyI
        [where i = "s_in_tx s" and p = "s_tx_prune s" and v = "s_tx_reserve s" and w = "commit_root s label" and u = "s_txused s"])
      simp_all
  then show ?thesis using abort_keeps nospace by (simp add: commit_result_def)
next
  case (io blk s1 w st1 s3 st2 s4)
  note cs = commit_steps [OF inv tx i room io(1-6)]
  have "root_map (dk_dur (dsk s4)) (s_cur s) = root_map (dk_dur (dsk s)) (s_cur s)"
    by (rule root_map_blocks) (rule cs(7))
  then show ?thesis using abort_keeps [OF cs(1)] cs io(8,9) by (simp add: commit_result_def)
next
  case (super blk s1 w st1 s3 s4 st3 s5 st4 s6)
  note cs = commit_steps [OF inv tx i room super(1-6)]
  show ?thesis
    by (rule commit_late [OF inv room cs(1,2,3,4,7) _ _ cs(9-11) super(7,8)]) (use cs(8) super(9,10) in auto)
qed

end
