(* ===== verification/Store_Crash.thy ===== *)
theory Store_Crash
  imports Store_Commit
begin

text \<open>
  The block store as a whole: what \<open>st_format\<close> leaves on the disk, the operations as steps of one
  transition system together with failing devices and power losses, an abstract store that is a map
  from names to contents, and that the C code refines it.
\<close>

section \<open>Formatting\<close>

lemma format_root_ok:
  assumes "2 \<le> retain" and "retain \<le> 9" and "r = format_root sid retain boot"
  shows "root_wf r" and "root_sane r blocks" and "objs r = []" and "rt_gen r = 1" and "rt_next_oid r = 1"
    and "rt_store_id r = sid" and "cd_dec c_root (cd_enc c_root r) = r" and "length (cd_enc c_root r) = 4096"
    and "block_crc (cd_enc c_root r) = rt_crc r" and "rt_nhist r = 0" and "rt_npin r = 0"
proof -
  define r0 where "r0 = root_zero\<lparr>
     rt_magic := ST_ROOT_MAGIC, rt_gen := 1, rt_store_id := sid, rt_next_oid := 1,
     rt_boot_id := boot, rt_retain := retain, rt_nlog := 1,
     rt_log := (rt_log root_zero)[0 := \<lparr>sl_gen = 1, sl_boot_id = boot, sl_label = str_copy 16 str_format\<rparr>],
     rt_label := str_copy 16 str_format\<rparr>"
  have r: "r = seal_root r0" by (simp add: assms(3) format_root_def r0_def)
  have "set ((replicate 16 log_zero)[0 := x]) \<subseteq> {x, log_zero}" for x
    using set_update_subset_insert [of "replicate 16 log_zero" 0 x] by auto
  then have lw: "\<forall>l \<in> set (rt_log r0). log_wf l"
    by (force simp: r0_def root_zero_def log_wf_def log_zero_def)
  have wf: "root_wf r0"
    using lw by (simp add: root_wf_def r0_def root_zero_def pin_zero_def obj_zero_def pin_wf_def obj_wf_def ST_ROOT_MAGIC_def)
  note so = seal_root_ok [OF wf, folded r]
  show "root_wf r" "cd_dec c_root (cd_enc c_root r) = r" "length (cd_enc c_root r) = 4096"
    "block_crc (cd_enc c_root r) = rt_crc r" using so by simp_all
  have f: "rt_magic r = ST_ROOT_MAGIC" "rt_gen r = 1" "rt_parent_gen r = 0" "rt_nobj r = 0" "rt_nhist r = 0" "rt_npin r = 0"
    "rt_nlog r = 1" "sl_gen (rt_log r ! 0) = 1" "rt_retain r = retain" "rt_next_oid r = 1" "rt_label r = str_copy 16 str_format"
    by (simp_all add: r seal_root_def r0_def root_zero_def)
  have "str_nlen (str_copy 16 str_format) 16 \<noteq> 16"
    by (subst str_nlen_cstr, subst cstr_str_copy) (simp_all add: str_format_def cstr_def)
  then show "root_sane r blocks"
    unfolding root_sane_def f using assms(1,2) by (simp add: hist_sane_def pin_sane_def obj_sane_def f not_less)
  show "objs r = []" by (simp add: objs_def f)
  show "rt_gen r = 1" "rt_next_oid r = 1" "rt_nhist r = 0" "rt_npin r = 0" by (simp_all add: f)
  show "rt_store_id r = sid" by (simp add: r seal_root_def r0_def)
qed

lemma zero_slot: "si_state (slot_of (replicate 4096 0) n) \<noteq> ST_SLOT_OLDER \<and> slot_gen (slot_of (replicate 4096 0) n) = 0"
proof -
  have "su_magic (cd_dec c_super (replicate 4096 0)) = replicate 8 0"
    by (simp add: c_super_def c_map_def c_pair_def c_bytes_def split_beta)
  moreover have "hd (replicate 8 0) \<noteq> hd ST_SUPER_MAGIC" by (simp add: ST_SUPER_MAGIC_def)
  ultimately have "su_magic (cd_dec c_super (replicate 4096 0)) \<noteq> ST_SUPER_MAGIC" by metis
  then show ?thesis by (simp add: slot_of_def slot_zero_def slot_gen_def Let_def)
qed

text \<open>A write and a flush that both succeed.\<close>

lemma write_ok:
  assumes "on_disk s" and "disk_ok (dsk s)" and "length buf = 4096" and "dev_write s blk 1 buf = (ST_OK, t)"
  shows "dev_only s t" and "disk_ok (dsk t)" and "newest (dsk t) (unat blk) = Some (buf, True)"
    and "b \<noteq> unat blk \<Longrightarrow> newest (dsk t) b = newest (dsk s) b" and "dk_dur (dsk t) = dk_dur (dsk s)" and "on_disk t"
proof -
  note ws = dev_write_spec [OF assms(1,2) _ assms(4)]
  have wo: "writes_only s t {unat blk}" using ws(1) assms(3) by simp
  show "dev_only s t" "disk_ok (dsk t)" "b \<noteq> unat blk \<Longrightarrow> newest (dsk t) b = newest (dsk s) b" "dk_dur (dsk t) = dk_dur (dsk s)"
    using wo by (simp_all add: writes_only_def)
  then show "on_disk t" using assms(1) dev_only_disk by blast
  show "newest (dsk t) (unat blk) = Some (buf, True)" using ws(3) [of 0] assms(3) by simp
qed

lemma st_format_disk:
  assumes ok: "disk_ok d" and f: "st_format (disk_dev N d) sid retain boot = (ST_OK, t)"
    and r_def: "r = format_root sid retain boot"
  shows "16 \<le> N" and "N \<le> 32768" and "2 \<le> retain" and "retain \<le> 9" and "disk_ok (dsk t)"
    and "b < 3 \<Longrightarrow> stable (dsk t) b" and "dk_dur (dsk t) 2 = cd_enc c_root r" and "dk_dur (dsk t) 1 = replicate 4096 0"
    and "dk_dur (dsk t) 0 = cd_enc c_super (make_super r 2 N)"
proof -
  define s0 where "s0 = (store_zero (disk_dev N d))\<lparr>s_work := r\<rparr>"
  have lim: "16 \<le> N \<and> N \<le> 32768 \<and> 2 \<le> retain \<and> retain \<le> 9"
    using f by (auto simp: st_format_def disk_dev_def Let_def not_less split: if_splits)
  then show rg: "16 \<le> N" "N \<le> 32768" "2 \<le> retain" "retain \<le> 9" by simp_all
  note fr = format_root_ok [OF rg(3,4) r_def]
  define sb where "sb = cd_enc c_super (make_super r 2 N)"
  have sbl: "length sb = 4096" using super_slot(2) [of r N N] rg fr(4) by (simp add: sb_def)
  have od0: "on_disk s0" "disk_ok (dsk s0)" using ok by (simp_all add: s0_def store_zero_def disk_dev_def on_disk_def)
  have st: "dv_blocks (disk_dev N d) = N" by (simp add: disk_dev_def)
  obtain s1 s2 s3 s4 where w1: "dev_write s0 2 1 (cd_enc c_root r) = (ST_OK, s1)"
    and w2: "dev_write s1 1 1 (replicate 4096 0) = (ST_OK, s2)" and w3: "dev_flush s2 = (ST_OK, s3)"
    and w4: "dev_write s3 0 1 sb = (ST_OK, s4)" and w5: "dev_flush s4 = (ST_OK, t)"
    using f lim unfolding st_format_def Let_def st r_def [symmetric] s0_def [symmetric] sb_def [symmetric]
    by (auto simp: not_less split: if_splits prod.splits)
  note a1 = write_ok [OF od0 fr(8) w1]
  have l2: "length (replicate 4096 (0 :: u8)) = 4096" by simp
  note a2 = write_ok [OF a1(6,2) l2 w2]
  note f3 = dev_flush_spec [OF a2(6,2) w3]
  have od3: "on_disk s3" using a2(6) dev_only_disk [OF f3(1)] by simp
  note a4 = write_ok [OF od3 f3(2) sbl w4]
  note f5 = dev_flush_spec [OF a4(6,2) w5]
  show "disk_ok (dsk t)" by (rule f5(2))
  have n2: "newest (dsk s2) 2 = Some (cd_enc c_root r, True)" "newest (dsk s2) 1 = Some (replicate 4096 0, True)"
    using a1(3) a2(3) a2(4) [of 2] by simp_all
  have d3: "stable (dsk s3) 2 \<and> dk_dur (dsk s3) 2 = cd_enc c_root r" "stable (dsk s3) 1 \<and> dk_dur (dsk s3) 1 = replicate 4096 0"
    using f3(4) [of 2] f3(4) [of 1] n2 by (simp_all add: firm_def view_def)
  have d4: "stable (dsk s4) b \<and> dk_dur (dsk s4) b = dk_dur (dsk s3) b" if "stable (dsk s3) b" "b \<noteq> 0" for b
    using that a4(4) [of b] a4(5) by (simp add: stable_def)
  have d5: "stable (dsk t) b \<and> dk_dur (dsk t) b = dk_dur (dsk s3) b" if "stable (dsk s3) b" "b \<noteq> 0" for b
    using d4 [OF that] f5(4) [of b] by simp
  have d0: "stable (dsk t) 0 \<and> dk_dur (dsk t) 0 = sb"
    using a4(3) f5(4) [of 0] by (simp add: firm_def view_def)
  show "dk_dur (dsk t) 2 = cd_enc c_root r" "dk_dur (dsk t) 1 = replicate 4096 0"
    using d3 d5 [of 2] d5 [of 1] by simp_all
  show "dk_dur (dsk t) 0 = cd_enc c_super (make_super r 2 N)" using d0 by (simp add: sb_def)
  show "stable (dsk t) b" if "b < 3"
  proof -
    have "b = 0 \<or> b = 1 \<or> b = 2" using that by auto
    then show ?thesis using d0 d3 d5 [of 1] d5 [of 2] by auto
  qed
qed

text \<open>A formatted disk mounts as the empty store, also after a power loss right after the format.\<close>

lemma st_format_mounts:
  assumes ok: "disk_ok d" and f: "st_format (disk_dev N d) sid retain boot = (ST_OK, t)"
    and im: "crash_image (dsk t) img"
  shows "\<exists>m. st_mount (disk_dev N (fresh_disk img)) boot' 0 = (ST_OK, m) \<and> st_inv N m \<and> \<not> s_in_tx m
    \<and> dk_dur (dsk m) = img \<and> objs (s_cur m) = [] \<and> s_max_gen m = 1 \<and> rt_next_oid (s_cur m) = 1
    \<and> (\<forall>b < 32768. bit_get (s_used m) b \<longrightarrow> b < 3) \<and> dk_plan (dsk m) = [] \<and> s_txused m = replicate 4096 0
    \<and> dv_blocks (s_dev m) = N"
proof -
  define r where "r = format_root sid retain boot"
  note fd = st_format_disk [OF ok f r_def]
  note fr = format_root_ok [OF fd(3,4) r_def]
  have ib: "img 0 = cd_enc c_super (make_super r 2 N)" "img 1 = replicate 4096 0" "img 2 = cd_enc c_root r"
    using stable_image [OF fd(6) im] fd(7-9) by simp_all
  have eb: "eff_blocks N = N" using fd(2) by (auto simp: eff_blocks_def)
  have len: "\<forall>b. length (img b) = 4096" using image_length [OF fd(5) im] by simp
  have nz: "rt_gen r \<noteq> 0" by (simp add: fr)
  note sl = super_slot(1) [OF nz fd(1) order_refl, of 2]
  have "gen_ok img N 2 r"
    unfolding gen_ok_def root_ok_def using fr fd(1) by (simp add: ib word_le_nat_alt)
  then have sv: "slot_valid img (slot_of (img 0) N) r" by (simp add: slot_valid_def ib sl)
  have "\<exists>m. st_mount (disk_dev N (fresh_disk img)) boot' 0 = (ST_OK, m) \<and> st_inv N m \<and> s_cur m = r
    \<and> dk_dur (dsk m) = img \<and> \<not> s_in_tx m
    \<and> s_max_gen m = max (slot_gen (slot_of (img 0) (eff_blocks N))) (slot_gen (slot_of (img (1 - 0)) (eff_blocks N)))
    \<and> mounted_on m img 0 (slot_of (img 0) (eff_blocks N)) r"
    by (rule image_remounts [OF len fd(1) _ refl _ _ refl]) (use sl sv zero_slot ib eb in simp_all)
  moreover have "max (slot_gen (slot_of (img 0) (eff_blocks N))) (slot_gen (slot_of (img (1 - 0)) (eff_blocks N))) = 1"
  proof -
    have "slot_gen (slot_of (img 0) N) = 1" by (simp add: ib sl fr slot_gen_def)
    moreover have "slot_gen (slot_of (img 1) N) = 0" unfolding ib(2) using zero_slot by simp
    ultimately show ?thesis by (simp add: eb)
  qed
  moreover have "b < 3" if "mounted_on m img 0 (slot_of (img 0) (eff_blocks N)) r" "b < 32768" "bit_get (s_used m) b" for m b
    using that fr(3,10,11) by (auto simp: mounted_on_def used_only_def gen_blocks_def ib eb sl)
  moreover have "dk_plan (dsk m) = []" "s_txused m = replicate 4096 0" "dv_blocks (s_dev m) = N"
    if "mounted_on m img 0 (slot_of (img 0) (eff_blocks N)) r" for m
    using that by (simp_all add: mounted_on_def fresh_def ib eb sl)
  ultimately show ?thesis using fr(3,5) by metis
qed

section \<open>The store as a transition system\<close>

datatype st_op =
    Op_begin
  | Op_put bytes u16 bytes u32
  | Op_del bytes
  | Op_pin bytes u64
  | Op_unpin bytes
  | Op_prune
  | Op_reserve
  | Op_abort
  | Op_commit bytes

text \<open>The buffer of a put holds at least as many bytes as the caller says.\<close>

fun op_wf :: "st_op \<Rightarrow> bool" where
  "op_wf (Op_put name kind data len) \<longleftrightarrow> unat len \<le> length data"
| "op_wf _ \<longleftrightarrow> True"

fun st_do :: "st_op \<Rightarrow> 'c store \<Rightarrow> st_error \<times> 'c store" where
  "st_do Op_begin s = st_begin s"
| "st_do (Op_put name kind data len) s = st_put s name kind data len"
| "st_do (Op_del name) s = st_del s name"
| "st_do (Op_pin pin gen) s = st_pin s pin gen"
| "st_do (Op_unpin pin) s = st_unpin s pin"
| "st_do Op_prune s = (ST_OK, st_prune s)"
| "st_do Op_reserve s = (ST_OK, st_allow_reserve s)"
| "st_do Op_abort s = (ST_OK, st_abort s)"
| "st_do (Op_commit label) s = (case st_commit s label of (st, g, t) \<Rightarrow> (st, t))"

text \<open>
  The abstract store: the committed contents, the contents of the open transaction, and the contents
  that may have become durable in a commit whose outcome is unknown.
\<close>

type_synonym contents = "bytes \<rightharpoonup> u16 \<times> bytes"

record astore =
  a_com :: contents
  a_work :: "contents option"
  a_maybe :: "contents option"

fun a_do :: "st_op \<Rightarrow> st_error \<Rightarrow> astore \<Rightarrow> astore" where
  "a_do Op_begin st a = (if st = ST_OK then a\<lparr>a_work := Some (a_com a)\<rparr> else a)"
| "a_do (Op_put name kind data len) st a =
     (if st = ST_OK then a\<lparr>a_work := map_option (\<lambda>w. w(cstr name \<mapsto> (kind, take (unat len) data))) (a_work a)\<rparr> else a)"
| "a_do (Op_del name) st a = (if st = ST_OK then a\<lparr>a_work := map_option (\<lambda>w. w(cstr name := None)) (a_work a)\<rparr> else a)"
| "a_do Op_abort st a = a\<lparr>a_work := None\<rparr>"
| "a_do (Op_commit label) st a =
     (if st = ST_OK then a\<lparr>a_com := the (a_work a), a_work := None\<rparr>
      else if st = ST_E_UNKNOWN then a\<lparr>a_work := None, a_maybe := a_work a\<rparr>
      else if st = ST_E_STATE then a
      else a\<lparr>a_work := None\<rparr>)"
| "a_do _ st a = a"

definition allowed :: "astore \<Rightarrow> contents set" where
  "allowed a = insert (a_com a) (set_option (a_maybe a))"

text \<open>From some moment on the device follows another plan of failures.\<close>

definition set_plan :: "dev_outcome list \<Rightarrow> disk store \<Rightarrow> disk store" where
  "set_plan p s = set_ctx s ((dsk s)\<lparr>dk_plan := p\<rparr>)"

text \<open>
  A store that was formatted and mounted, then went through \<open>n\<close> operations on a device that fails
  as it likes, with power losses in between. After a power loss the store is mounted from any image
  the medium may hold, and the abstract store starts from what that mount finds.
\<close>

inductive st_reach :: "u64 \<Rightarrow> nat \<Rightarrow> disk store \<Rightarrow> astore \<Rightarrow> bool" for N where
  start: "disk_ok d \<Longrightarrow> st_format (disk_dev N d) sid retain boot = (ST_OK, f) \<Longrightarrow> crash_image (dsk f) img
    \<Longrightarrow> st_mount (disk_dev N (fresh_disk img)) boot' 0 = (st, m)
    \<Longrightarrow> st_reach N 0 (set_plan p m) \<lparr>a_com = Map.empty, a_work = None, a_maybe = None\<rparr>"
| op: "st_reach N n s a \<Longrightarrow> op_wf x \<Longrightarrow> st_do x s = (st, t) \<Longrightarrow> st_reach N (Suc n) t (a_do x st a)"
| power: "st_reach N n s a \<Longrightarrow> crash_image (dsk s) img
    \<Longrightarrow> st_mount (disk_dev N (fresh_disk img)) boot 0 = (st, m)
    \<Longrightarrow> st_reach N n (set_plan p m) \<lparr>a_com = root_map img (s_cur m), a_work = None, a_maybe = None\<rparr>"

section \<open>The simulation\<close>

abbreviation st_limit :: nat where "st_limit \<equiv> 2 ^ 32 - 1"

definition sim_up :: "u64 \<Rightarrow> nat \<Rightarrow> disk store \<Rightarrow> astore \<Rightarrow> bool" where
  "sim_up N k s a \<longleftrightarrow> st_inv N s \<and> (s_in_tx s \<longrightarrow> tx_ok s) \<and> st_room k s \<and> a_maybe a = None
     \<and> a_com a = root_map (dk_dur (dsk s)) (s_cur s)
     \<and> a_work a = (if s_in_tx s then Some (root_map (view (dsk s)) (s_work s)) else None)"

text \<open>After a commit of unknown outcome the store is not mounted and only a power cycle helps.\<close>

definition sim_down :: "u64 \<Rightarrow> nat \<Rightarrow> disk store \<Rightarrow> astore \<Rightarrow> bool" where
  "sim_down N k s a \<longleftrightarrow> \<not> s_mounted s \<and> (\<forall>img boot. crash_image (dsk s) img \<longrightarrow>
     (\<exists>m. st_mount (disk_dev N (fresh_disk img)) boot 0 = (ST_OK, m) \<and> st_inv N m \<and> \<not> s_in_tx m
        \<and> dk_dur (dsk m) = img \<and> st_room k m \<and> root_map img (s_cur m) \<in> allowed a))"

lemma set_plan_fields [simp]:
  "s_cur (set_plan p s) = s_cur s" "s_in_tx (set_plan p s) = s_in_tx s" "s_work (set_plan p s) = s_work s"
  "s_max_gen (set_plan p s) = s_max_gen s" "dk_dur (dsk (set_plan p s)) = dk_dur (dsk s)"
  by (simp_all add: set_plan_def set_ctx_def)

lemma set_plan_inv: "st_inv N s \<Longrightarrow> st_inv N (set_plan p s)"
proof (rule st_inv_dev)
  assume inv: "st_inv N s"
  show "dev_only s (set_plan p s)"
    by (rule dev_onlyI [where c = "(dsk s)\<lparr>dk_plan := p\<rparr>" and r = "s_reads s" and w = "s_writes s" and f = "s_flushes s"])
       (simp add: set_plan_def set_ctx_def)
  show "disk_ok (dsk (set_plan p s))" using inv by (simp add: st_inv_def disk_ok_def set_plan_def set_ctx_def)
  show "stable (dsk (set_plan p s)) b \<and> dk_dur (dsk (set_plan p s)) b = dk_dur (dsk s) b" if "live s b" for b
    using st_inv_stable [OF inv, of b] that by (auto simp: live_def stable_def newest_def set_plan_def set_ctx_def)
qed

lemma mounted_sim:
  assumes "st_inv N m" and "\<not> s_in_tx m" and "st_room k m" and "dk_dur (dsk m) = img"
  shows "sim_up N k (set_plan p m) \<lparr>a_com = root_map img (s_cur m), a_work = None, a_maybe = None\<rparr>"
  using assms set_plan_inv by (simp add: sim_up_def st_room_def)

lemma up_remounts:
  assumes "sim_up N k s a" and "crash_image (dsk s) img"
  shows "\<exists>m. st_mount (disk_dev N (fresh_disk img)) boot 0 = (ST_OK, m) \<and> st_inv N m \<and> \<not> s_in_tx m
        \<and> dk_dur (dsk m) = img \<and> dk_plan (dsk m) = [] \<and> st_room k m \<and> root_map img (s_cur m) \<in> allowed a"
proof -
  have inv: "st_inv N s" and room: "st_room k s" using assms(1) by (simp_all add: sim_up_def)
  obtain m where m: "st_mount (disk_dev N (fresh_disk img)) boot 0 = (ST_OK, m)" "st_inv N m" "s_cur m = s_cur s"
    "dk_dur (dsk m) = img" "\<not> s_in_tx m" "s_max_gen m \<le> s_max_gen s"
    "\<forall>b \<in> gen_blocks (s_cur s) (unat (s_cur_blk s)). img b = dk_dur (dsk s) b" "dk_plan (dsk m) = []"
    using crash_remounts [OF inv assms(2), of boot] by blast
  have "root_map img (s_cur s) = root_map (dk_dur (dsk s)) (s_cur s)"
    by (rule root_map_blocks) (use m(7) in blast)
  then have "root_map img (s_cur m) \<in> allowed a" using assms(1) m(3) by (simp add: sim_up_def allowed_def)
  moreover have "st_room k m" using room m(3,5,6) by (simp add: st_room_def word_le_nat_alt)
  ultimately show ?thesis using m by blast
qed

text \<open>An operation inside a transaction that keeps the invariants.\<close>

lemma sim_keeps:
  assumes "sim_up N (Suc k) s a" and "k < st_limit" and "tx_keeps N s t" and "s_in_tx t = s_in_tx s"
    and "a' = a\<lparr>a_work := (if s_in_tx s then Some (root_map (view (dsk t)) (s_work t)) else None)\<rparr>"
  shows "sim_up N k t a'"
  using assms by (auto simp: sim_up_def tx_keeps_def tx_frame_def)

lemma sim_put:
  assumes up: "sim_up N (Suc k) s a" and k: "k < st_limit" and len: "unat len \<le> length data"
    and p: "st_put s name kind data len = (st, t)"
  shows "sim_up N k t (a_do (Op_put name kind data len) st a)"
proof (rule sim_keeps [OF up k])
  have h: "st_inv N s" "s_in_tx s \<longrightarrow> tx_ok s" "st_room 1 s"
    using up by (auto simp: sim_up_def intro: st_room_mono)
  note sp = st_put_spec [OF h len p]
  show "tx_keeps N s t" "s_in_tx t = s_in_tx s" by (rule sp)+
  show "a_do (Op_put name kind data len) st a
      = a\<lparr>a_work := (if s_in_tx s then Some (root_map (view (dsk t)) (s_work t)) else None)\<rparr>"
    using sp(3,4) up by (cases "st = ST_OK") (auto simp: sim_up_def)
qed

lemma sim_edit:
  assumes up: "sim_up N (Suc k) s a" and k: "k < st_limit" and x: "x = Op_del n \<or> x = Op_pin n g \<or> x = Op_unpin n"
    and d: "st_do x s = (st, t)"
  shows "sim_up N k t (a_do x st a)"
proof (rule sim_keeps [OF up k])
  have h: "st_inv N s" "s_in_tx s \<longrightarrow> tx_ok s" "st_room 1 s"
    using up by (auto simp: sim_up_def intro: st_room_mono)
  have a: "a_work a = (if s_in_tx s then Some (root_map (view (dsk s)) (s_work s)) else None)"
    using up by (simp add: sim_up_def)
  have r: "tx_keeps N s t \<and> s_in_tx t = s_in_tx s \<and> a_do x st a
      = a\<lparr>a_work := (if s_in_tx s then Some (root_map (view (dsk t)) (s_work t)) else None)\<rparr>"
    using x
  proof (elim disjE)
    assume x: "x = Op_del n"
    show ?thesis
      using st_del_spec [OF h(1,2), of n st t "view (dsk s)"] d a by (cases "st = ST_OK") (auto simp: x)
  next
    assume x: "x = Op_pin n g"
    show ?thesis
      using st_pin_spec [OF h, of n g st t "view (dsk s)"] d a by (auto simp: x)
  next
    assume x: "x = Op_unpin n"
    show ?thesis
      using st_unpin_spec [OF h(1,2), of n st t "view (dsk s)"] d a by (auto simp: x)
  qed
  then show "tx_keeps N s t" "s_in_tx t = s_in_tx s" "a_do x st a
      = a\<lparr>a_work := (if s_in_tx s then Some (root_map (view (dsk t)) (s_work t)) else None)\<rparr>" by simp_all
qed

lemma sim_begin:
  assumes up: "sim_up N (Suc k) s a" and b: "st_begin s = (st, t)"
  shows "sim_up N k t (a_do Op_begin st a)"
proof -
  have h: "st_inv N s" "st_room 1 s" "st_room k s" using up by (auto simp: sim_up_def intro: st_room_mono)
  note sp = st_begin_inv [OF h(1,2) b]
  show ?thesis
  proof (cases "st = ST_OK")
    case True
    have nt: "\<not> s_in_tx s" "s_max_gen t = s_max_gen s" using b True by (auto simp: st_begin_def split: if_splits)
    have "root_map (view (dsk s)) (s_cur s) = root_map (dk_dur (dsk s)) (s_cur s)"
      by (rule root_map_blocks [where blk = "unat (s_cur_blk s)"]) (use st_inv_stable(2) [OF h(1)] in simp)
    then show ?thesis
      using True up sp h(3) nt by (simp add: sim_up_def st_room_def)
  next
    case False
    then show ?thesis using sp(3) up h(3) by (simp add: sim_up_def)
  qed
qed

lemma sim_flags:
  assumes up: "sim_up N (Suc k) s a" and x: "x = Op_prune \<or> x = Op_reserve \<or> x = Op_abort"
    and d: "st_do x s = (st, t)"
  shows "sim_up N k t (a_do x st a)"
proof -
  have h: "st_inv N s" "st_room k s" using up by (auto simp: sim_up_def intro: st_room_mono)
  show ?thesis
  proof (cases "x = Op_abort")
    case True
    then show ?thesis using abort_keeps [OF h(1)] up h(2) d by (auto simp: sim_up_def st_room_def)
  next
    case False
    define p v where "p = s_tx_prune t" and "v = s_tx_reserve t"
    have t: "t = s\<lparr>s_tx_prune := p, s_tx_reserve := v\<rparr>" "a_do x st a = a"
      using x d False by (auto simp: st_prune_def st_allow_reserve_def p_def v_def)
    have "tx_only s t"
      by (rule tx_onlyI [where i = "s_in_tx s" and p = p and v = v and w = "s_work s" and u = "s_txused s"]) (simp_all add: t)
    then have "st_inv N t" using h(1) st_inv_tx_only by blast
    moreover have "tx_ok t = tx_ok s" by (simp add: t tx_ok_def Let_def obj_safe_def st_next_gen_def)
    ultimately show ?thesis using up h(2) t by (simp add: sim_up_def st_room_def)
  qed
qed

lemma sim_commit:
  assumes up: "sim_up N (Suc k) s a" and c: "st_commit s label = (st, g, t)"
  shows "sim_up N k t (a_do (Op_commit label) st a) \<or> sim_down N k t (a_do (Op_commit label) st a)"
proof (cases "s_in_tx s")
  case False
  then have "st = ST_E_STATE" "t = s" using c by (simp_all add: st_commit_def)
  then show ?thesis using up by (auto simp: sim_up_def intro: st_room_mono)
next
  case True
  have h: "st_inv N s" "tx_ok s" "st_room 1 s" "st_room (Suc k) s"
    using up True by (auto simp: sim_up_def intro: st_room_mono)
  have r: "commit_result N s st t" by (rule st_commit_spec [OF h(1,2) True h(3) c])
  have ng: "unat (st_next_gen s) = unat (s_max_gen s) + 1" using h(3) by (simp add: st_room_def next_gen_nat)
  have room: "root_room k (s_cur s)" "root_room k (s_work s)" "unat (s_max_gen s) + Suc k < 2 ^ 64"
    using h(4) True by (auto simp: st_room_def intro: root_room_mono)
  have rr: "root_room k q" if "objs q = objs (s_work s)" "rt_next_oid q = rt_next_oid (s_work s)" for q
    using room(2) that by (simp add: root_room_def)
  have st: "st \<noteq> ST_E_STATE"
    using h(1) True c
  proof (cases rule: commit_cases)
    case (super blk s1 w st1 s3 s4 st3 s5 st4 s6)
    then show ?thesis by (cases "st4 = ST_OK") auto
  qed simp_all
  consider "st = ST_OK" | "st = ST_E_UNKNOWN" | "st \<noteq> ST_OK" "st \<noteq> ST_E_UNKNOWN" by blast
  then show ?thesis
  proof cases
    case 1
    then show ?thesis
      using r up True rr [of "s_cur t"] ng room(3) by (simp add: commit_result_def sim_up_def st_room_def)
  next
    case 2
    have "sim_down N k t (a_do (Op_commit label) st a)"
      unfolding sim_down_def
    proof (intro conjI allI impI)
      show "\<not> s_mounted t" using r 2 by (simp add: commit_result_def)
      fix img boot assume "crash_image (dsk t) img"
      then obtain m where m: "st_mount (disk_dev N (fresh_disk img)) boot 0 = (ST_OK, m)" "st_inv N m" "\<not> s_in_tx m"
        "dk_dur (dsk m) = img" "s_max_gen m \<le> st_next_gen s"
        "s_cur m = s_cur s \<and> root_map img (s_cur m) = root_map (dk_dur (dsk s)) (s_cur s)
             \<or> objs (s_cur m) = objs (s_work s) \<and> rt_next_oid (s_cur m) = rt_next_oid (s_work s)
               \<and> root_map img (s_cur m) = root_map (view (dsk s)) (s_work s)"
        using r 2 unfolding commit_result_def by blast
      have "st_room k m"
        using m(3,5,6) room rr [of "s_cur m"] ng by (auto simp: st_room_def word_le_nat_alt)
      moreover have "root_map img (s_cur m) \<in> allowed (a_do (Op_commit label) st a)"
        using m(6) up True 2 by (auto simp: allowed_def sim_up_def)
      ultimately show "\<exists>m. st_mount (disk_dev N (fresh_disk img)) boot 0 = (ST_OK, m) \<and> st_inv N m \<and> \<not> s_in_tx m
        \<and> dk_dur (dsk m) = img \<and> st_room k m \<and> root_map img (s_cur m) \<in> allowed (a_do (Op_commit label) st a)"
        using m by blast
    qed
    then show ?thesis by blast
  next
    case 3
    then show ?thesis
      using r up True st room by (simp add: commit_result_def sim_up_def st_room_def)
  qed
qed

lemma sim_down_step:
  assumes d: "sim_down N k s a" and x: "st_do x s = (st, t)"
  shows "sim_down N k t (a_do x st a)"
proof -
  have m: "\<not> s_mounted s" using d by (simp add: sim_down_def)
  have "\<not> s_mounted t \<and> dsk t = dsk s \<and> allowed (a_do x st a) = allowed a"
    using x m
    by (cases x) (auto simp: st_begin_def st_put_def st_del_def st_pin_def st_unpin_def st_prune_def
        st_allow_reserve_def st_abort_def st_commit_def allowed_def split: if_splits)
  then show ?thesis using d by (simp add: sim_down_def)
qed

lemma sim_step:
  assumes s: "sim_up N (Suc k) s a \<or> sim_down N (Suc k) s a" and k: "k < st_limit" and wf: "op_wf x"
    and d: "st_do x s = (st, t)"
  shows "sim_up N k t (a_do x st a) \<or> sim_down N k t (a_do x st a)"
proof (cases "sim_up N (Suc k) s a")
  case True
  show ?thesis
  proof (cases x)
    case (Op_put n kd dt l)
    then show ?thesis using sim_put [OF True k] wf d by simp
  next
    case (Op_commit l)
    obtain g where "st_commit s l = (st, g, t)" using d Op_commit by (cases "st_commit s l") auto
    then show ?thesis unfolding Op_commit by (rule sim_commit [OF True])
  qed (use sim_begin [OF True] sim_edit [OF True k _ d] sim_flags [OF True _ d] d in auto)
next
  case False
  then have "sim_down N (Suc k) s a" using s by simp
  then have "sim_down N k s a" unfolding sim_down_def by (meson Suc_n_not_le_n nat_le_linear st_room_mono)
  then show ?thesis using sim_down_step [OF _ d] by blast
qed

lemma reach_sim:
  assumes "st_reach N n s a" and "n \<le> st_limit"
  shows "sim_up N (st_limit - n) s a \<or> sim_down N (st_limit - n) s a"
  using assms
proof (induction rule: st_reach.induct)
  case (start d sid retain boot f img boot' st m p)
  obtain m' where m': "st_mount (disk_dev N (fresh_disk img)) boot' 0 = (ST_OK, m')" "st_inv N m'" "\<not> s_in_tx m'"
    "dk_dur (dsk m') = img" "objs (s_cur m') = []" "s_max_gen m' = 1" "rt_next_oid (s_cur m') = 1"
    using st_format_mounts [OF start(1-3), of boot'] by blast
  have mm: "m' = m" using m'(1) start(4) by simp
  have "st_room (st_limit - 0) m'" using m'(3,5-7) by (simp add: st_room_def root_room_def)
  moreover have "root_map img (s_cur m') = Map.empty" using m'(5) by (simp add: root_map_def root_alist_def)
  ultimately show ?case using mounted_sim [OF m'(2,3) _ m'(4), of _ p] unfolding mm by metis
next
  case (op n s a x st t)
  define k where "k = st_limit - Suc n"
  have k: "st_limit - n = Suc k" "k < st_limit" using op.prems by (simp_all add: k_def Suc_diff_Suc)
  have "sim_up N (Suc k) s a \<or> sim_down N (Suc k) s a" using op.IH op.prems unfolding k(1) by simp
  then show ?case using sim_step [OF _ k(2) op.hyps(2,3)] unfolding k_def by blast
next
  case (power n s a img boot st m p)
  have "\<exists>m. st_mount (disk_dev N (fresh_disk img)) boot 0 = (ST_OK, m) \<and> st_inv N m \<and> \<not> s_in_tx m
        \<and> dk_dur (dsk m) = img \<and> st_room (st_limit - n) m \<and> root_map img (s_cur m) \<in> allowed a"
    using power.IH [OF power.prems] up_remounts [OF _ power.hyps(2)] power.hyps(2) unfolding sim_down_def by blast
  then show ?case using mounted_sim power.hyps(3) by fastforce
qed

section \<open>A healthy device\<close>

definition healthy :: "disk store \<Rightarrow> bool" where
  "healthy s \<longleftrightarrow> on_disk s \<and> dk_plan (dsk s) = []"

lemma healthy_write:
  assumes "healthy s" and "unat blk + unat n \<le> nblks s"
  shows "\<exists>t. dev_write s blk n buf = (ST_OK, t) \<and> healthy t \<and> nblks t = nblks s"
proof -
  have "unat (blk + ucast n) = unat blk + unat n"
    using assms(2) unat_u64_less [of "dv_blocks (s_dev s)"] by (subst unat_add_small) auto
  then have g: "\<not> (blk + ucast n > dv_blocks (s_dev s) \<or> blk + ucast n < blk)"
    using assms(2) by (simp add: word_less_nat_alt)
  obtain d where d: "disk_write (dsk s) blk n buf = (True, d)" "dk_plan d = []"
    using assms(1) by (simp add: healthy_def disk_write_def next_outcome_def)
  have "dv_write (s_dev s) = disk_write" using assms(1) by (simp add: healthy_def on_disk_def)
  then show ?thesis
    using g d assms(1) unfolding dev_write_def Let_def by (auto simp: healthy_def on_disk_def set_ctx_def)
qed

lemma healthy_flush:
  assumes "healthy s"
  shows "\<exists>t. dev_flush s = (ST_OK, t) \<and> healthy t \<and> nblks t = nblks s"
proof -
  obtain d where d: "disk_flush (dsk s) = (True, d)" "dk_plan d = []"
    using assms by (simp add: healthy_def disk_flush_def next_outcome_def)
  have "dv_flush (s_dev s) = disk_flush" using assms by (simp add: healthy_def on_disk_def)
  then show ?thesis
    using d assms unfolding dev_flush_def Let_def by (auto simp: healthy_def on_disk_def set_ctx_def)
qed

lemma format_succeeds:
  assumes pl: "dk_plan d = []" and N: "16 \<le> N" "N \<le> 32768" and r: "2 \<le> retain" "retain \<le> 9"
  shows "\<exists>t. st_format (disk_dev N d) sid retain boot = (ST_OK, t)"
proof -
  define s0 where "s0 = (store_zero (disk_dev N d))\<lparr>s_work := format_root sid retain boot\<rparr>"
  have h0: "healthy s0" "nblks s0 = unat N" using pl by (simp_all add: healthy_def s0_def store_zero_def disk_dev_def on_disk_def)
  have n: "16 \<le> unat N" using N(1) by (simp add: word_le_nat_alt)
  obtain s1 where s1: "dev_write s0 2 1 (cd_enc c_root (format_root sid retain boot)) = (ST_OK, s1)" "healthy s1" "nblks s1 = unat N"
    using healthy_write [OF h0(1), of 2 1] n h0(2) by auto
  obtain s2 where s2: "dev_write s1 1 1 (replicate 4096 0) = (ST_OK, s2)" "healthy s2" "nblks s2 = unat N"
    using healthy_write [OF s1(2), of 1 1] n s1(3) by auto
  obtain s3 where s3: "dev_flush s2 = (ST_OK, s3)" "healthy s3" "nblks s3 = unat N"
    using healthy_flush [OF s2(2)] s2(3) by auto
  obtain s4 where s4: "dev_write s3 0 1 (cd_enc c_super (make_super (format_root sid retain boot) 2 N)) = (ST_OK, s4)" "healthy s4"
    using healthy_write [OF s3(2), of 0 1] n s3(3) by auto
  obtain t where "dev_flush s4 = (ST_OK, t)" using healthy_flush [OF s4(2)] by auto
  then have "st_format (disk_dev N d) sid retain boot = (ST_OK, t)"
    unfolding st_format_def Let_def s0_def [symmetric]
    using N r s1(1) s2(1) s3(1) s4(1) by (simp add: disk_dev_def not_less [symmetric])
  then show ?thesis by blast
qed

text \<open>On a healthy device a commit succeeds as soon as there is a free block for the new root.\<close>

lemma find_run_one: "find_run free 1 bs 0 = List.find free bs"
  by (induction bs) auto

lemma alloc_one_succeeds:
  assumes b: "2 \<le> b" "b < nblks s" "blk_free s b" and nb: "nblks s \<le> 32768"
  shows "\<exists>blk t. alloc s 1 True = (blk, t) \<and> blk \<noteq> 0"
proof -
  have "b \<in> set (filter (blk_free s) [2..<nblks s])" using b by simp
  then have n: "\<not> length (filter (blk_free s) [2..<nblks s]) < 1" by (metis length_pos_if_in_set less_one not_less_iff_gr_or_eq less_nat_zero_code)
  obtain f where f: "List.find (blk_free s) [2..<nblks s] = Some f"
    using b by (cases "List.find (blk_free s) [2..<nblks s]") (auto simp: find_None_iff)
  then have "2 \<le> f" "f < nblks s" by (auto dest!: find_Some_mem)
  then have "(of_nat f :: u32) \<noteq> 0" using nb by (simp add: word_unat_eq_iff unat_of_nat)
  then show ?thesis
    using n f find_run_one [of "blk_free s"] by (auto simp: alloc_def Let_def)
qed

lemma commit_succeeds:
  assumes inv: "st_inv N s" and h: "healthy s" and i: "s_in_tx s" and lab: "st_label_ok label"
    and b: "2 \<le> b" "b < nblks s" "\<not> bit_get (s_used s) b" "\<not> bit_get (s_txused s) b"
    and c: "st_commit s label = (st, g, t)"
  shows "st = ST_OK"
proof -
  define s0 where "s0 = s\<lparr>s_work := commit_root s label\<rparr>"
  have nb: "nblks s0 \<le> 32768" "length (s_txused s0) = 4096" "16 \<le> nblks s" "s_mounted s" "s_flags s = 0"
    using inv by (simp_all add: st_inv_def s0_def)
  have "2 \<le> b" "b < nblks s0" "blk_free s0 b" using b by (simp_all add: s0_def blk_free_def)
  then obtain blk s1 where al: "alloc s0 1 True = (blk, s1)" "blk \<noteq> 0" using alloc_one_succeeds nb(1) by blast
  obtain u where u: "s1 = s0\<lparr>s_txused := u\<rparr>" "unat blk < nblks s" using alloc_one [OF al nb(1,2)] by (auto simp: s0_def)
  define w where "w = seal_root (s_work s1)"
  define s2 where "s2 = s1\<lparr>s_work := w\<rparr>"
  have h2: "healthy s2" "nblks s2 = nblks s" "s_flags s2 = 0" "s_cur_slot s2 = s_cur_slot s"
    using h nb by (simp_all add: s2_def u(1) s0_def healthy_def on_disk_def)
  obtain s3 where s3: "dev_write s2 (ucast blk) 1 (cd_enc c_root w) = (ST_OK, s3)" "healthy s3" "nblks s3 = nblks s"
    using healthy_write [OF h2(1), of "ucast blk" 1] h2(2) u(2) by auto
  obtain s4 where s4: "dev_flush s3 = (ST_OK, s4)" "healthy s4" "nblks s4 = nblks s"
    using healthy_flush [OF s3(2)] s3(3) by auto
  have f: "s_flags s3 = 0" "s_cur_slot s3 = s_cur_slot s"
    using s3(1) h2 by (auto simp: dev_write_def Let_def set_ctx_def split: if_splits prod.splits)
  have f4: "s_flags s4 = 0" "s_cur_slot s4 = s_cur_slot s"
    using s4(1) f by (auto simp: dev_flush_def Let_def set_ctx_def split: if_splits prod.splits)
  have sl: "unat (of_int (1 - s_cur_slot s4) :: u64) + unat (1 :: u32) \<le> nblks s4"
    using inv f4 s4(3) nb(3) by (auto simp: st_inv_def)
  obtain s5 where s5: "dev_write s4 (of_int (1 - s_cur_slot s4)) 1 (cd_enc c_super (make_super w blk (dv_blocks (s_dev s4)))) = (ST_OK, s5)"
    "healthy s5" using healthy_write [OF s4(2) sl] by auto
  have f5: "s_flags s5 = 0"
    using s5(1) f4 by (auto simp: dev_write_def Let_def set_ctx_def split: if_splits prod.splits)
  obtain s6 where s6: "dev_flush s5 = (ST_OK, s6)" using healthy_flush [OF s5(2)] by auto
  show ?thesis
    using c unfolding st_commit_def Let_def s0_def [symmetric]
    by (simp add: i nb lab al w_def [symmetric] s2_def [symmetric] s3(1) s4(1) f f4 f5
        s5(1) [unfolded of_int_diff of_int_1 f4(2)] s6 split: prod.splits)
qed

section \<open>What the store promises\<close>


definition blank_disk :: disk where
  "blank_disk = fresh_disk (\<lambda>_. replicate 4096 0)"

lemma blank_reach: "\<exists>s a. st_reach 16 1 s a \<and> s_in_tx s \<and> a_com a = Map.empty \<and> s_mounted s \<and> healthy s
    \<and> 3 \<in> {2..<nblks s} \<and> \<not> bit_get (s_used s) 3 \<and> \<not> bit_get (s_txused s) 3
    \<and> \<not> bit_get (s_used s) 4 \<and> s_txused s = replicate 4096 0 \<and> rt_nobj (s_work s) = 0"
proof -
  have ok: "disk_ok blank_disk" "dk_plan blank_disk = []" by (simp_all add: disk_ok_def blank_disk_def fresh_disk_def)
  obtain f where f: "st_format (disk_dev 16 blank_disk) 1 2 1 = (ST_OK, f)"
    using format_succeeds [OF ok(2), of 16 2 1 1] by auto
  have im: "crash_image (dsk f) (dk_dur (dsk f))" by (simp add: crash_image_def)
  obtain m where m: "st_mount (disk_dev 16 (fresh_disk (dk_dur (dsk f)))) 1 0 = (ST_OK, m)" "st_inv 16 m" "\<not> s_in_tx m"
    "\<forall>b < 32768. bit_get (s_used m) b \<longrightarrow> b < 3" "dv_blocks (s_dev m) = 16" "objs (s_cur m) = []"
    using st_format_mounts [OF ok(1) f im, of 1] by blast
  define m' where "m' = set_plan [] m"
  have r: "st_reach 16 0 m' \<lparr>a_com = Map.empty, a_work = None, a_maybe = None\<rparr>"
    unfolding m'_def by (rule st_reach.start [OF ok(1) f im m(1)])
  have m': "s_mounted m'" "\<not> s_in_tx m'" "on_disk m'" "dk_plan (dsk m') = []" "s_used m' = s_used m" "dv_blocks (s_dev m') = 16"
    using m(2,3,5) by (simp_all add: m'_def set_plan_def set_ctx_def st_inv_def on_disk_def)
  define t where "t = m'\<lparr>s_work := s_cur m', s_txused := replicate 4096 0, s_tx_prune := False,
                     s_tx_reserve := False, s_in_tx := True\<rparr>"
  have t: "st_do Op_begin m' = (ST_OK, t)" using m'(1,2) by (simp add: st_begin_def t_def)
  have "rt_nobj (s_cur m) \<le> 49" using st_inv_gen(3) [OF m(2)] by (simp add: root_sane_def not_less)
  then have "rt_nobj (s_cur m) = 0" using objs_nth [OF st_inv_gen(2) [OF m(2)]] m(6) by (simp add: unat_eq_0)
  then have n: "rt_nobj (s_work t) = 0" by (simp add: t_def m'_def)
  have "\<not> bit_get (s_used m') 3" "\<not> bit_get (s_used m') 4"
    using m(4) [rule_format, of 3] m(4) [rule_format, of 4] m'(5) by auto
  moreover have "\<not> bit_get (replicate 4096 0) 3" by (rule bit_get_zero) simp
  ultimately have "s_in_tx t" "s_mounted t" "healthy t" "3 \<in> {2..<nblks t}" "\<not> bit_get (s_used t) 3" "\<not> bit_get (s_txused t) 3"
    "\<not> bit_get (s_used t) 4" "s_txused t = replicate 4096 0"
    using m' by (simp_all add: t_def healthy_def on_disk_def)
  then show ?thesis using st_reach.op [OF r _ t] n by fastforce
qed


text \<open>
  C2. Committed data is durable and commits make progress. In every reachable state with an open
  transaction, on a device that works, a commit with a valid label succeeds as soon as one block is
  free for the new root. Afterwards every image the medium may hold mounts as exactly the contents
  of that transaction.
\<close>

theorem store_commit_durable:
  assumes "st_reach N n s a" and "n < 2 ^ 32 - 1" and "s_mounted s" and "s_in_tx s" and "healthy s"
    and "st_label_ok label" and "b \<in> {2..<nblks s}" and "\<not> bit_get (s_used s) b" and "\<not> bit_get (s_txused s) b"
  shows "\<exists>g t. st_commit s label = (ST_OK, g, t) \<and> (\<forall>img. crash_image (dsk t) img \<longrightarrow>
    (\<exists>m. st_mount (disk_dev N (fresh_disk img)) boot 0 = (ST_OK, m) \<and> Some (root_map img (s_cur m)) = a_work a))"
proof -
  define k where "k = st_limit - Suc n"
  have k: "st_limit - n = Suc k" using assms(2) by (simp add: k_def Suc_diff_Suc)
  have up: "sim_up N (Suc k) s a"
    using reach_sim [OF assms(1)] assms(2,3) unfolding k by (auto simp: sim_down_def)
  then have inv: "st_inv N s" by (simp add: sim_up_def)
  obtain st g t where c: "st_commit s label = (st, g, t)" by (metis prod_cases3)
  have ok: "st = ST_OK" by (rule commit_succeeds [OF inv assms(5,4,6) _ _ assms(8,9) c]) (use assms(7) in auto)
  have h: "tx_ok s" "st_room 1 s" using up assms(4) by (auto simp: sim_up_def intro: st_room_mono)
  have "st_inv N t" "\<not> s_in_tx t" using st_commit_spec [OF inv h(1) assms(4) h(2) c] ok by (simp_all add: commit_result_def)
  moreover have "a_do (Op_commit label) ST_OK a = a\<lparr>a_com := the (a_work a), a_work := None\<rparr>" by simp
  ultimately have "sim_up N k t (a\<lparr>a_com := the (a_work a), a_work := None\<rparr>)"
    using sim_commit [OF up c] ok by (auto simp: sim_down_def st_inv_def)
  then have "\<exists>m. st_mount (disk_dev N (fresh_disk img)) boot 0 = (ST_OK, m) \<and> root_map img (s_cur m) = the (a_work a)"
    if "crash_image (dsk t) img" for img
    using up_remounts [OF _ that, of N k _ boot] up by (fastforce simp: allowed_def sim_up_def)
  moreover have "a_work a \<noteq> None" using up assms(4) by (simp add: sim_up_def)
  ultimately show ?thesis using c ok by (metis option.exhaust_sel)
qed

theorem store_commit_durable_witness:
  "\<exists>s a g t m. st_reach 16 1 s a \<and> s_in_tx s \<and> healthy s \<and> st_commit s [98, 111, 111, 116, 0] = (ST_OK, g, t)
    \<and> st_mount (disk_dev 16 (fresh_disk (dk_dur (dsk t)))) 5 0 = (ST_OK, m)
    \<and> Some (root_map (dk_dur (dsk t)) (s_cur m)) = a_work a"
proof -
  obtain s a where r: "st_reach 16 1 s a" "s_mounted s" "s_in_tx s" "healthy s"
    "3 \<in> {2..<nblks s}" "\<not> bit_get (s_used s) 3" "\<not> bit_get (s_txused s) 3" using blank_reach by blast
  have l: "st_label_ok [98, 111, 111, 116, 0]" by code_simp
  obtain g t where c: "st_commit s [98, 111, 111, 116, 0] = (ST_OK, g, t)"
    "\<forall>img. crash_image (dsk t) img \<longrightarrow>
      (\<exists>m. st_mount (disk_dev 16 (fresh_disk img)) 5 0 = (ST_OK, m) \<and> Some (root_map img (s_cur m)) = a_work a)"
    using store_commit_durable [OF r(1) _ r(2-4) l r(5-7), of 5] by auto
  have "crash_image (dsk t) (dk_dur (dsk t))" by (simp add: crash_image_def)
  with c(2) obtain m where "st_mount (disk_dev 16 (fresh_disk (dk_dur (dsk t)))) 5 0 = (ST_OK, m)"
    "Some (root_map (dk_dur (dsk t)) (s_cur m)) = a_work a" by blast
  with r(1,3,4) c(1) show ?thesis by blast
qed

end
