(* ===== verification/Store_Read.thy ===== *)
theory Store_Read
  imports Store_Crash
begin

text \<open>
  Reading objects back (\<open>st_read\<close> of lib/store.c): what a read of the current generation returns in a
  state of the invariant, and what follows for a put that was committed before a power loss.
\<close>

lemma inv_ext:
  assumes "st_inv N s" and "x \<in> set (objs (s_cur s))"
  shows "ext_stable s x" and "ext_ok (dk_dur (dsk s)) x"
    and "length (obj_data (dk_dur (dsk s)) x) = unat (so_len x)"
proof -
  note g = st_inv_gen(1) [OF assms(1)]
  have nb: "nblks s \<le> 32768" and len: "\<forall>b. length (dk_dur (dsk s) b) = 4096"
    using assms(1) by (auto simp: st_inv_def disk_ok_def)
  have sh: "ext_shape (dv_blocks (s_dev s)) x" by (rule gen_ok_shape [OF g nb assms(2)])
  have "stable (dsk s) b" if "b \<in> obj_blocks x" for b
    using st_inv_stable(2) [OF assms(1)] that assms(2) by (auto simp: gen_blocks_def)
  then show "ext_stable s x" using sh nb len by (simp add: ext_stable_def)
  show "ext_ok (dk_dur (dsk s)) x" using g assms(2) by (simp add: gen_ok_def)
  show "length (obj_data (dk_dur (dsk s)) x) = unat (so_len x)"
    by (rule obj_data_length [OF sh]) (simp add: len)
qed

text \<open>Looking a name up in the object table is looking it up in the contents.\<close>

lemma find_root_map:
  assumes "root_sane r blocks" and "root_wf r"
  shows "root_map f r (cstr name) = map_option (\<lambda>x. (so_kind x, obj_data f x)) (st_find r name)"
    and "st_find r name = Some x \<Longrightarrow> x \<in> set (objs r)"
proof -
  have n49: "rt_nobj r \<le> 49" using assms(1) by (simp add: root_sane_def not_less)
  note fi = find_index_spec [OF assms(2) n49, of name]
  have l: "length (objs r) = unat (rt_nobj r)" by (rule objs_nth [OF assms(2) n49])
  have nth: "rt_obj r ! i = objs r ! i" if "i < length (objs r)" for i using that l by (simp add: objs_def)
  have "sorted_wrt (\<lambda>p q. \<not> obj_clash p q) (objs r)"
    using obj_sane_objs assms by (auto simp: root_sane_def)
  then have d: "distinct (map fst (root_alist f r))"
    using names_distinct by (simp add: root_alist_def comp_def)
  have "root_map f r (cstr name) = Some (so_kind (objs r ! i), obj_data f (objs r ! i))"
    if "find_index r name = Some i" for i
    unfolding root_map_def using fi(2) [OF that] d
    by (intro map_of_is_SomeI) (auto simp: root_alist_def image_iff intro!: bexI [of _ "objs r ! i"])
  moreover have "root_map f r (cstr name) = None" if "find_index r name = None"
    unfolding root_map_def map_of_eq_None_iff using fi(1) [OF that] by (fastforce simp: root_alist_def)
  ultimately show "root_map f r (cstr name) = map_option (\<lambda>x. (so_kind x, obj_data f x)) (st_find r name)"
    using fi(2) nth by (auto simp: st_find_def split: option.splits)
  show "x \<in> set (objs r)" if "st_find r name = Some x"
    using that fi(2) nth by (auto simp: st_find_def split: option.splits)
qed

lemma st_read_cases:
  assumes inv: "st_inv N s" and cap: "unat cap \<le> length buf"
    and r: "st_read s 0 name buf cap = (st, out, len, meta, t)"
  shows "root_map (dk_dur (dsk s)) (s_cur s) (cstr name) = None \<Longrightarrow> st = ST_E_NOTFOUND \<and> out = buf \<and> t = s"
    and "root_map (dk_dur (dsk s)) (s_cur s) (cstr name) = Some (kind, d) \<Longrightarrow> length d \<le> 32768
      \<and> len = Some (of_nat (length d)) \<and> map_option so_kind meta = Some kind
      \<and> (unat cap < length d \<longrightarrow> st = ST_E_TOOBIG \<and> out = buf \<and> t = s)
      \<and> (length d \<le> unat cap \<longrightarrow> (healthy s \<longrightarrow> st = ST_OK) \<and> (st = ST_OK \<longrightarrow> out = d @ drop (length d) buf))"
    and "reads_only s t"
proof -
  have mt: "s_mounted s" and od: "on_disk s" using inv by (simp_all add: st_inv_def)
  note fr = find_root_map(1) [OF st_inv_gen(3,2) [OF inv], of "dk_dur (dsk s)" name]
    find_root_map(2) [OF st_inv_gen(3,2) [OF inv], of name]
  have g: "reads_only s t \<and> (case st_find (s_cur s) name of None \<Rightarrow> st = ST_E_NOTFOUND \<and> out = buf \<and> t = s
    | Some x \<Rightarrow> len = Some (so_len x) \<and> meta = Some x \<and> (cap < so_len x \<longrightarrow> st = ST_E_TOOBIG \<and> out = buf \<and> t = s)
        \<and> (so_len x \<le> cap \<longrightarrow> (healthy s \<longrightarrow> st = ST_OK)
             \<and> (st = ST_OK \<longrightarrow> out = obj_data (dk_dur (dsk s)) x @ drop (unat (so_len x)) buf)))"
  proof (cases "st_find (s_cur s) name")
    case None
    then show ?thesis using r mt by (simp add: st_read_def)
  next
    case (Some x)
    note e = inv_ext [OF inv fr(2) [OF Some]]
    obtain st2 dd s2 where v: "verify_extent s x (Some buf) cap = (st2, dd, s2)" by (metis prod_cases3)
    note vs = verify_extent_spec [OF od e(1) v]
    show ?thesis
    proof (cases "cap < so_len x")
      case True
      then have "st = ST_E_TOOBIG" "out = buf" "len = Some (so_len x)" "meta = Some x" "t = s"
        using r mt Some by (simp_all add: st_read_def)
      then show ?thesis using Some True by (auto simp: not_le [symmetric])
    next
      case False
      then have "st = st2" "out = (case dd of None \<Rightarrow> buf | Some b \<Rightarrow> b)" "len = Some (so_len x)" "meta = Some x" "t = s2"
        using r mt Some v by (simp_all add: st_read_def)
      then show ?thesis
        using Some False vs(1,3) e(2) vs(4) [OF _ _ cap refl] by (auto simp: healthy_def not_less)
    qed
  qed
  show "reads_only s t" using g by simp
  show "st = ST_E_NOTFOUND \<and> out = buf \<and> t = s" if "root_map (dk_dur (dsk s)) (s_cur s) (cstr name) = None"
    using g that fr(1) by (simp split: option.splits)
  assume m: "root_map (dk_dur (dsk s)) (s_cur s) (cstr name) = Some (kind, d)"
  then obtain x where x: "st_find (s_cur s) name = Some x" "kind = so_kind x" "d = obj_data (dk_dur (dsk s)) x"
    using fr(1) by auto
  note e = inv_ext [OF inv fr(2) [OF x(1)]]
  have l: "length d = unat (so_len x)" using e(3) x(3) by simp
  have "length d \<le> 32768" using e(1) l by (simp add: ext_stable_def ext_shape_def)
  then show "length d \<le> 32768
      \<and> len = Some (of_nat (length d)) \<and> map_option so_kind meta = Some kind
      \<and> (unat cap < length d \<longrightarrow> st = ST_E_TOOBIG \<and> out = buf \<and> t = s)
      \<and> (length d \<le> unat cap \<longrightarrow> (healthy s \<longrightarrow> st = ST_OK) \<and> (st = ST_OK \<longrightarrow> out = d @ drop (length d) buf))"
    using g x l by (simp add: word_less_nat_alt word_le_nat_alt)
qed

text \<open>
  C11. Reads are exact. In every reachable mounted state, for every name, a read of the current
  generation into a buffer of at least \<open>cap\<close> bytes reports NOTFOUND exactly for names the last commit
  did not hold, TOOBIG for objects longer than \<open>cap\<close>, and otherwise, on a working device, fills the
  buffer with exactly the committed bytes. On a failing device it may report an error but never returns
  other bytes. It changes nothing but the device's read state.
\<close>

theorem store_read_exact:
  assumes "st_reach N n s a" and "n \<le> 2 ^ 32 - 1" and "s_mounted s" and "unat cap \<le> length buf"
    and "st_read s 0 name buf cap = (st, out, len, meta, t)"
  shows "reads_only s t \<and> (case a_com a (cstr name) of
      None \<Rightarrow> st = ST_E_NOTFOUND \<and> out = buf
    | Some (kind, d) \<Rightarrow> len = Some (of_nat (length d)) \<and> map_option so_kind meta = Some kind
        \<and> (if unat cap < length d then st = ST_E_TOOBIG \<and> out = buf
           else (healthy s \<longrightarrow> st = ST_OK) \<and> (st = ST_OK \<longrightarrow> out = d @ drop (length d) buf)))"
proof -
  have "sim_up N (st_limit - n) s a" using reach_sim [OF assms(1,2)] assms(3) by (auto simp: sim_down_def)
  then have inv: "st_inv N s" and m: "a_com a = root_map (dk_dur (dsk s)) (s_cur s)" by (simp_all add: sim_up_def)
  note c = st_read_cases [OF inv assms(4,5), folded m]
  show ?thesis
  proof (cases "a_com a (cstr name)")
    case None
    then show ?thesis using c(1,3) by simp
  next
    case (Some kd)
    then show ?thesis using c(2) [of "fst kd" "snd kd"] c(3) by (cases kd) auto
  qed
qed

theorem store_read_exact_witness:
  "\<exists>s a out len meta t. st_reach 16 1 s a \<and> s_mounted s \<and> st_read s 0 [120, 0] [7] 1 = (ST_E_NOTFOUND, out, len, meta, t)
    \<and> out = [7] \<and> reads_only s t"
proof -
  obtain s a where r: "st_reach 16 1 s a" "s_mounted s" "a_com a = Map.empty" using blank_reach by blast
  obtain st out len meta t where d: "st_read s 0 [120, 0] [7] 1 = (st, out, len, meta, t)" by (metis prod_cases5)
  show ?thesis using store_read_exact [OF r(1) _ r(2) _ d] r d by auto
qed

text \<open>
  C10. What is stored can be read back across a power loss. From every reachable state, when a put and
  then a commit report success, every image the medium may hold after a power loss at that point mounts,
  and reading the name from the mounted store returns the bytes, the length and the kind that were put.
\<close>

theorem store_roundtrip:
  assumes "st_reach N n s a" and "n < 2 ^ 32 - 2" and "s_mounted s" and "unat len \<le> length data"
    and "st_put s name kind data len = (ST_OK, s1)" and "st_commit s1 label = (ST_OK, g, s2)"
    and "crash_image (dsk s2) img" and "len \<le> cap" and "unat cap \<le> length buf"
  shows "\<exists>m x t. st_mount (disk_dev N (fresh_disk img)) boot 0 = (ST_OK, m)
    \<and> st_read m 0 name buf cap = (ST_OK, take (unat len) data @ drop (unat len) buf, Some len, Some x, t)
    \<and> so_kind x = kind"
proof -
  define k where "k = st_limit - Suc (Suc n)"
  have k: "st_limit - n = Suc (Suc k)" "Suc k < st_limit" using assms(2) by (auto simp: k_def)
  have up: "sim_up N (Suc (Suc k)) s a"
    using reach_sim [OF assms(1)] assms(2,3) unfolding k(1) by (auto simp: sim_down_def)
  then have h: "st_inv N s" "s_in_tx s \<longrightarrow> tx_ok s" "st_room 1 s" by (auto simp: sim_up_def intro: st_room_mono)
  note sp = st_put_spec [OF h assms(4,5)]
  have tx: "s_in_tx s" "s_in_tx s1" using sp(2,3) by auto
  define w where "w = (root_map (view (dsk s)) (s_work s))(cstr name \<mapsto> (kind, take (unat len) data))"
  have up1: "sim_up N (Suc k) s1 (a\<lparr>a_work := Some w\<rparr>)"
    using sim_keeps [OF up k(2) sp(1,2) refl] tx(1) sp(3) by (simp add: w_def)
  have h1: "st_inv N s1" "tx_ok s1" "st_room 1 s1" using up1 tx(2) by (auto simp: sim_up_def intro: st_room_mono)
  have "s_mounted s2" using st_commit_spec [OF h1(1,2) tx(2) h1(3) assms(6)] by (simp add: commit_result_def st_inv_def)
  then have "sim_up N k s2 (a\<lparr>a_com := w, a_work := None\<rparr>)"
    using sim_commit [OF up1 assms(6)] by (simp add: sim_down_def)
  then obtain m where m: "st_mount (disk_dev N (fresh_disk img)) boot 0 = (ST_OK, m)" "st_inv N m"
    "dk_dur (dsk m) = img" "dk_plan (dsk m) = []" "root_map img (s_cur m) = w"
    using up_remounts [OF _ assms(7), of N k _ boot] up by (fastforce simp: allowed_def sim_up_def)
  obtain st out l meta t where d: "st_read m 0 name buf cap = (st, out, l, meta, t)" by (metis prod_cases5)
  have hm: "healthy m" using m(2,4) by (simp add: healthy_def st_inv_def)
  have "length (take (unat len) data) = unat len" using assms(4) by simp
  then show ?thesis
    using st_read_cases(2) [OF m(2) assms(9) d, of kind "take (unat len) data"] m(1,3,5) hm assms(8) d
    by (auto simp: w_def word_le_nat_alt)
qed

text \<open>A one-byte put into a transaction that may use the reserve, on a working device.\<close>

lemma put_byte_succeeds:
  assumes h: "healthy s" "s_mounted s" "s_in_tx s" "s_tx_reserve s" and nm: "st_name_ok name"
    and n: "rt_nobj (s_work s) = 0" and b: "2 \<le> b" "b < nblks s" "blk_free s b" and nb: "nblks s \<le> 32768"
    and tl: "length (s_txused s) = 4096"
  shows "\<exists>t blk. st_put s name kind [v] 1 = (ST_OK, t) \<and> healthy t \<and> nblks t = nblks s \<and> s_used t = s_used s
    \<and> (\<forall>i. bit_get (s_txused t) i \<longrightarrow> i = blk \<or> bit_get (s_txused s) i)"
proof -
  have l: "nblk_for 1 = 1" "(1 :: u32) div 4096 = 0" by (simp_all add: nblk_for_def)
  obtain blk s1 where al: "alloc s 1 True = (blk, s1)" "blk \<noteq> 0" using alloc_one_succeeds [OF b nb] by blast
  obtain u where u: "s1 = s\<lparr>s_txused := u\<rparr>" "unat blk + unat (1 :: u32) \<le> nblks s"
    "\<forall>i. bit_get u i = (bit_get (s_txused s) i \<or> i \<in> {unat blk..<unat blk + unat (1 :: u32)})"
    using alloc_spec(2) [OF al(1) _ nb tl al(2)] by auto
  have ub: "bit_get u i = (bit_get (s_txused s) i \<or> i = unat blk)" for i using u(3) by auto
  obtain s2 where s2: "dev_write s1 (ucast blk) 1 (v # replicate 4095 0) = (ST_OK, s2)" "healthy s2" "nblks s2 = nblks s"
    using healthy_write [of s1 "ucast blk" 1] h(1) u(1,2) by (auto simp: healthy_def on_disk_def)
  have f2: "s_used s2 = s_used s" "s_txused s2 = u"
    using s2(1) u(1) by (auto simp: dev_write_def Let_def set_ctx_def split: if_splits prod.splits)
  have d: "put_data s1 blk 1 [v] 1 = (ST_OK, s2)" using s2(1) l(2) by (simp add: put_data_def Let_def)
  define t where "t = put_record s2 (find_index (s_work s) name) name kind blk 1 [v] 1"
  have "\<exists>w. t = s2\<lparr>s_work := w\<rparr>"
    unfolding t_def put_record_def Let_def by (cases "find_index (s_work s) name") (simp_all only: option.simps prod.simps, blast+)
  then obtain w where w: "t = s2\<lparr>s_work := w\<rparr>" by blast
  have "st_put s name kind [v] 1 = (ST_OK, t)"
    using h nm n al d by (simp add: st_put_def l t_def)
  moreover have "healthy t" "nblks t = nblks s" "s_used t = s_used s" "s_txused t = u"
    using s2(2,3) f2 w by (simp_all add: healthy_def on_disk_def)
  ultimately show ?thesis using ub by (intro exI [of _ t] exI [of _ "unat blk"]) auto
qed

theorem store_roundtrip_witness:
  "\<exists>s a s1 g s2 m x t. st_reach 16 2 s a \<and> s_mounted s \<and> st_put s [120, 0] 7 [42] 1 = (ST_OK, s1)
    \<and> st_commit s1 [98, 0] = (ST_OK, g, s2) \<and> st_mount (disk_dev 16 (fresh_disk (dk_dur (dsk s2)))) 5 0 = (ST_OK, m)
    \<and> st_read m 0 [120, 0] [0, 0] 2 = (ST_OK, [42, 0], Some 1, Some x, t) \<and> so_kind x = 7"
proof -
  obtain s a where r: "st_reach 16 1 s a" "s_in_tx s" "s_mounted s" "healthy s" "3 \<in> {2..<nblks s}"
    "\<not> bit_get (s_used s) 3" "\<not> bit_get (s_used s) 4" "s_txused s = replicate 4096 0" "rt_nobj (s_work s) = 0"
    using blank_reach by blast
  define s' where "s' = s\<lparr>s_tx_reserve := True\<rparr>"
  have "st_do Op_reserve s = (ST_OK, s')" using r(2) by (simp add: st_allow_reserve_def s'_def)
  from st_reach.op [OF r(1) _ this] have r': "st_reach 16 2 s' (a_do Op_reserve ST_OK a)" by (simp add: numeral_2_eq_2)
  have up: "sim_up 16 (st_limit - 2) s' (a_do Op_reserve ST_OK a)"
    using reach_sim [OF r'] r(3) by (auto simp: sim_down_def s'_def)
  then have inv: "st_inv 16 s'" "tx_ok s'" "st_room 1 s'"
    using r(2) by (auto simp: sim_up_def s'_def intro: st_room_mono)
  have h: "healthy s'" "s_mounted s'" "s_in_tx s'" "s_tx_reserve s'"
    using r(2-4) by (simp_all add: s'_def healthy_def on_disk_def)
  have nm: "st_name_ok [120, 0]" "st_label_ok [98, 0]" by code_simp+
  have z: "\<not> bit_get (replicate 4096 0) 3" "\<not> bit_get (replicate 4096 0) 4" by (rule bit_get_zero, simp)+
  have nb: "nblks s' \<le> 32768" "16 \<le> nblks s'" "length (s_txused s') = 4096" using inv(1) by (simp_all add: st_inv_def)
  have bf: "blk_free s' 3" using r(6,8) z by (simp add: blk_free_def s'_def)
  obtain s1 blk where p: "st_put s' [120, 0] 7 [42] 1 = (ST_OK, s1)" "healthy s1" "nblks s1 = nblks s'" "s_used s1 = s_used s'"
    "\<forall>i. bit_get (s_txused s1) i \<longrightarrow> i = blk \<or> bit_get (s_txused s') i"
    using put_byte_succeeds [OF h nm(1) _ _ _ bf nb(1,3), of 7 42] r(5,9) by (auto simp: s'_def)
  note sp = st_put_spec [OF inv(1) _ inv(3) _ p(1)]
  have i1: "st_inv 16 s1" "s_in_tx s1" using sp(1,2) inv(2) r(2) by (simp_all add: tx_keeps_def s'_def)
  define b :: nat where "b = (if blk = 3 then 4 else 3)"
  have b: "2 \<le> b" "b < nblks s1" "\<not> bit_get (s_used s1) b" "\<not> bit_get (s_txused s1) b"
    using p(3,4,5) nb(2) r(6-8) z by (auto simp: b_def s'_def)
  obtain st g s2 where c: "st_commit s1 [98, 0] = (st, g, s2)" by (metis prod_cases3)
  have ok: "st = ST_OK" by (rule commit_succeeds [OF i1(1) p(2) i1(2) nm(2) b c])
  have "crash_image (dsk s2) (dk_dur (dsk s2))" by (simp add: crash_image_def)
  from store_roundtrip [OF r' _ _ _ p(1) c [unfolded ok] this, of 2 "[0, 0]" 5] r(3) r' p(1) c ok
  show ?thesis by (auto simp: s'_def)
qed

end
