(* ===== verification/Bootinfo_Check.thy ===== *)
theory Bootinfo_Check
  imports Boot_Abi Codec
begin

text \<open>
  The boot-info validator (kernel/bootinfo_check.c). Physical memory is reached only through the
  callback \<open>map\<close>, here a function from an address and a length to the bytes there, or None; the
  structures are read from those bytes at the offsets of the ABI header.
\<close>

abbreviation NX_BOOTINFO_MAGIC :: u64 where "NX_BOOTINFO_MAGIC \<equiv> 0x49425F584F4E414E"
abbreviation NX_BOOTINFO_VERSION_MAJOR :: u16 where "NX_BOOTINFO_VERSION_MAJOR \<equiv> 1"
abbreviation NX_BOOTINFO_VERSION_MINOR :: u16 where "NX_BOOTINFO_VERSION_MINOR \<equiv> 1"
abbreviation NX_BOOTINFO_V1_SIZE :: u32 where "NX_BOOTINFO_V1_SIZE \<equiv> 192"
abbreviation NX_BOOTINFO_V1_1_SIZE :: u32 where "NX_BOOTINFO_V1_1_SIZE \<equiv> 224"
abbreviation NX_BOOTINFO_MAX_SIZE :: u32 where "NX_BOOTINFO_MAX_SIZE \<equiv> 4096"
abbreviation NX_BI_HAS_ACPI_RSDP :: u64 where "NX_BI_HAS_ACPI_RSDP \<equiv> 1"
abbreviation NX_BI_HAS_FRAMEBUFFER :: u64 where "NX_BI_HAS_FRAMEBUFFER \<equiv> 2"
abbreviation NX_BI_HAS_INITRD :: u64 where "NX_BI_HAS_INITRD \<equiv> 4"
abbreviation NX_BI_KNOWN_FLAGS_V1_0 :: u64 where "NX_BI_KNOWN_FLAGS_V1_0 \<equiv> 3"
abbreviation NX_BI_KNOWN_FLAGS_V1_1 :: u64 where "NX_BI_KNOWN_FLAGS_V1_1 \<equiv> 7"
abbreviation NX_MMAP_MAX_ENTRIES :: u32 where "NX_MMAP_MAX_ENTRIES \<equiv> 4096"
abbreviation NX_CMDLINE_MAX :: u32 where "NX_CMDLINE_MAX \<equiv> 4095"
abbreviation NX_FB_NONE :: u32 where "NX_FB_NONE \<equiv> 0"
abbreviation NX_FB_RGBX8888 :: u32 where "NX_FB_RGBX8888 \<equiv> 1"
abbreviation NX_FB_BGRX8888 :: u32 where "NX_FB_BGRX8888 \<equiv> 2"
abbreviation BI_PAGE_MASK :: u64 where "BI_PAGE_MASK \<equiv> 0xFFF"

datatype nx_bi_error =
    NX_BI_OK | NX_BI_E_NULL | NX_BI_E_MAGIC | NX_BI_E_VERSION | NX_BI_E_SIZE | NX_BI_E_FLAGS
  | NX_BI_E_RESERVED | NX_BI_E_MMAP_PTR | NX_BI_E_MMAP_ENTRY_SIZE | NX_BI_E_MMAP_COUNT
  | NX_BI_E_MMAP_EMPTY | NX_BI_E_MMAP_ALIGN | NX_BI_E_MMAP_OVERFLOW | NX_BI_E_MMAP_TYPE
  | NX_BI_E_MMAP_FLAGS | NX_BI_E_MMAP_ORDER | NX_BI_E_MMAP_OVERLAP | NX_BI_E_MMAP_NO_USABLE
  | NX_BI_E_KERNEL_RANGE | NX_BI_E_KERNEL_ENTRY | NX_BI_E_KERNEL_SELF | NX_BI_E_STACK_RANGE
  | NX_BI_E_BOOTINFO_RANGE | NX_BI_E_CMDLINE | NX_BI_E_RSDP | NX_BI_E_FRAMEBUFFER | NX_BI_E_INITRD

record nx_bi_check =
  bc_map :: "u64 \<Rightarrow> u64 \<Rightarrow> bytes option"
  bc_bi_phys :: u64
  bc_image_start :: u64
  bc_image_end :: u64

record nx_bi_result =
  br_error :: nx_bi_error
  br_index :: u32
  br_bi :: "nx_boot_info option"
  br_regions :: "nx_mem_region list option"
  br_usable_bytes :: u64

definition fail :: "nx_bi_error \<Rightarrow> u32 \<Rightarrow> nx_bi_result" where
  "fail err index = \<lparr>br_error = err, br_index = index, br_bi = None, br_regions = None, br_usable_bytes = 0\<rparr>"

section \<open>Structures in memory\<close>

definition u16_at :: "bytes \<Rightarrow> nat \<Rightarrow> u16" where
  "u16_at b off = le_dec (take 2 (drop off b))"

definition u32_at :: "bytes \<Rightarrow> nat \<Rightarrow> u32" where
  "u32_at b off = le_dec (take 4 (drop off b))"

definition u64_at :: "bytes \<Rightarrow> nat \<Rightarrow> u64" where
  "u64_at b off = le_dec (take 8 (drop off b))"

definition boot_info_at :: "bytes \<Rightarrow> nx_boot_info" where
  "boot_info_at b = \<lparr>
     bi_magic = u64_at b 0, bi_version_major = u16_at b 8, bi_version_minor = u16_at b 10,
     bi_size = u32_at b 12, bi_flags = u64_at b 16, bi_mmap_phys = u64_at b 24,
     bi_mmap_count = u32_at b 32, bi_mmap_entry_size = u32_at b 36,
     bi_kernel_phys_base = u64_at b 40, bi_kernel_phys_size = u64_at b 48, bi_kernel_entry = u64_at b 56,
     bi_stack_phys_base = u64_at b 64, bi_stack_size = u64_at b 72, bi_cmdline_phys = u64_at b 80,
     bi_cmdline_len = u32_at b 88, bi_reserved0 = u32_at b 92, bi_initrd_phys = u64_at b 96,
     bi_initrd_size = u64_at b 104, bi_acpi_rsdp_phys = u64_at b 112, bi_fb_phys = u64_at b 120,
     bi_fb_size = u64_at b 128, bi_fb_width = u32_at b 136, bi_fb_height = u32_at b 140,
     bi_fb_pitch = u32_at b 144, bi_fb_format = u32_at b 148, bi_uefi_system_table_phys = u64_at b 152,
     bi_kernel_sha256 = take 32 (drop 160 b), bi_initrd_sha256 = take 32 (drop 192 b)\<rparr>"

definition region_at :: "bytes \<Rightarrow> nat \<Rightarrow> nx_mem_region" where
  "region_at b i = \<lparr>mr_base = u64_at b (24 * i), mr_length = u64_at b (24 * i + 8),
     mr_type = u32_at b (24 * i + 16), mr_flags = u32_at b (24 * i + 20)\<rparr>"

definition regions_at :: "bytes \<Rightarrow> u32 \<Rightarrow> nx_mem_region list" where
  "regions_at b n = map (region_at b) [0..<unat n]"

section \<open>The checks\<close>

definition TYPE_BIT :: "u32 \<Rightarrow> u32" where
  "TYPE_BIT t = (if t < 32 then push_bit (unat t) 1 else 0)"

definition range_ok :: "u64 \<Rightarrow> u64 \<Rightarrow> bool" where
  "range_ok start len \<longleftrightarrow> len \<noteq> 0 \<and> start \<le> - 1 - len"

fun covered_from :: "nx_mem_region list \<Rightarrow> u64 \<Rightarrow> u64 \<Rightarrow> u32 \<Rightarrow> bool" where
  "covered_from [] cur end' type = False"
| "covered_from (r # rg) cur end' type =
     (let r_end = mr_base r + mr_length r in
      if r_end \<le> cur then covered_from rg cur end' type
      else if mr_base r > cur \<or> mr_type r \<noteq> type then False
      else if r_end \<ge> end' then True
      else covered_from rg r_end end' type)"

definition covered_by :: "nx_mem_region list \<Rightarrow> u64 \<Rightarrow> u64 \<Rightarrow> u32 \<Rightarrow> bool" where
  "covered_by rg start len type =
     (if \<not> range_ok start len then False else covered_from rg start (start + len) type)"

definition overlaps_types :: "nx_mem_region list \<Rightarrow> u64 \<Rightarrow> u64 \<Rightarrow> u32 \<Rightarrow> bool" where
  "overlaps_types rg start len types = list_ex (\<lambda>r. types AND TYPE_BIT (mr_type r) \<noteq> 0
     \<and> mr_base r < start + len \<and> start < mr_base r + mr_length r) rg"

definition minor_size :: "u16 \<Rightarrow> u32" where
  "minor_size minor = (if minor = 0 then NX_BOOTINFO_V1_SIZE else NX_BOOTINFO_V1_1_SIZE)"

definition minor_flags :: "u16 \<Rightarrow> u64" where
  "minor_flags minor = (if minor = 0 then NX_BI_KNOWN_FLAGS_V1_0 else NX_BI_KNOWN_FLAGS_V1_1)"

definition minor_max_type :: "u16 \<Rightarrow> u32" where
  "minor_max_type minor = (if minor = 0 then NX_MEM_TYPE_MAX_V1_0 else NX_MEM_TYPE_MAX)"

definition check_initrd :: "nx_boot_info \<Rightarrow> nx_mem_region list \<Rightarrow> bool" where
  "check_initrd bi rg =
     (if bi_version_minor bi = 0 \<or> bi_flags bi AND NX_BI_HAS_INITRD = 0 then
        (if bi_initrd_phys bi \<noteq> 0 \<or> bi_initrd_size bi \<noteq> 0 then False
         else if bi_version_minor bi \<ge> 1 then list_all (\<lambda>b. b = 0) (bi_initrd_sha256 bi)
         else True)
      else if bi_initrd_phys bi = 0 \<or> bi_initrd_phys bi AND BI_PAGE_MASK \<noteq> 0 \<or> bi_initrd_size bi = 0
              \<or> bi_initrd_size bi > - 1 - BI_PAGE_MASK then False
      else covered_by rg (bi_initrd_phys bi) ((bi_initrd_size bi + BI_PAGE_MASK) AND NOT BI_PAGE_MASK)
             NX_MEM_INITRD)"

definition checksum_ok :: "bytes \<Rightarrow> bool" where
  "checksum_ok p \<longleftrightarrow> fold (\<lambda>b sum. sum + b) p 0 = 0"

definition rsdp_sig :: bytes where
  "rsdp_sig = [0x52, 0x53, 0x44, 0x20, 0x50, 0x54, 0x52, 0x20]"

definition check_rsdp :: "nx_bi_check \<Rightarrow> nx_boot_info \<Rightarrow> nx_mem_region list \<Rightarrow> bool" where
  "check_rsdp c bi rg =
     (if bi_flags bi AND NX_BI_HAS_ACPI_RSDP = 0 then bi_acpi_rsdp_phys bi = 0
      else let p = bi_acpi_rsdp_phys bi in
      if \<not> range_ok p 20 \<or> overlaps_types rg p 20 (TYPE_BIT NX_MEM_USABLE) then False
      else case bc_map c p 20 of None \<Rightarrow> False | Some v1 \<Rightarrow>
        (if take 8 v1 \<noteq> rsdp_sig then False
         else if \<not> checksum_ok (take 20 v1) then False
         else if v1 ! 15 \<ge> 2 then
           (case bc_map c p 36 of None \<Rightarrow> False | Some v2 \<Rightarrow>
              (let length = u32_at v2 20 in
               if length < 36 \<or> length > 4096 \<or> \<not> range_ok p (ucast length)
                  \<or> overlaps_types rg p (ucast length) (TYPE_BIT NX_MEM_USABLE) then False
               else case bc_map c p (ucast length) of
                      None \<Rightarrow> False
                    | Some full \<Rightarrow> checksum_ok (take (unat length) full)))
         else True))"

definition check_framebuffer :: "nx_boot_info \<Rightarrow> nx_mem_region list \<Rightarrow> bool" where
  "check_framebuffer bi rg =
     (if bi_flags bi AND NX_BI_HAS_FRAMEBUFFER = 0 then
        bi_fb_phys bi = 0 \<and> bi_fb_size bi = 0 \<and> bi_fb_width bi = 0 \<and> bi_fb_height bi = 0
        \<and> bi_fb_pitch bi = 0 \<and> bi_fb_format bi = NX_FB_NONE
      else if bi_fb_width bi = 0 \<or> bi_fb_height bi = 0 \<or> bi_fb_phys bi = 0 then False
      else if bi_fb_format bi \<noteq> NX_FB_RGBX8888 \<and> bi_fb_format bi \<noteq> NX_FB_BGRX8888 then False
      else if (ucast (bi_fb_pitch bi) :: u64) < ucast (bi_fb_width bi) * 4 then False
      else if bi_fb_size bi < ucast (bi_fb_pitch bi) * ucast (bi_fb_height bi)
              \<or> \<not> range_ok (bi_fb_phys bi) (bi_fb_size bi) then False
      else let ram = TYPE_BIT NX_MEM_USABLE OR TYPE_BIT NX_MEM_KERNEL_IMAGE OR TYPE_BIT NX_MEM_KERNEL_STACK
                     OR TYPE_BIT NX_MEM_BOOT_INFO OR TYPE_BIT NX_MEM_BOOT_RECLAIMABLE OR TYPE_BIT NX_MEM_INITRD
           in \<not> overlaps_types rg (bi_fb_phys bi) (bi_fb_size bi) ram)"

text \<open>
  The loop over the memory map, from entry \<open>i\<close> on; \<open>prev\<close> is entry \<open>i - 1\<close>. The result is an
  error with its index, or the number of usable bytes.
\<close>

fun mmap_scan ::
    "bool \<Rightarrow> u16 \<Rightarrow> u32 \<Rightarrow> nx_mem_region option \<Rightarrow> u64 \<Rightarrow> nx_mem_region list \<Rightarrow> nx_bi_error \<times> u32 + u64" where
  "mmap_scan newer minor i prev usable [] = Inr usable"
| "mmap_scan newer minor i prev usable (e # rg) =
     (if mr_length e = 0 then Inl (NX_BI_E_MMAP_EMPTY, i)
      else if mr_base e AND BI_PAGE_MASK \<noteq> 0 \<or> mr_length e AND BI_PAGE_MASK \<noteq> 0 then Inl (NX_BI_E_MMAP_ALIGN, i)
      else if mr_length e > - 1 - mr_base e then Inl (NX_BI_E_MMAP_OVERFLOW, i)
      else if mr_type e < NX_MEM_TYPE_MIN \<or> (\<not> newer \<and> mr_type e > minor_max_type minor)
        then Inl (NX_BI_E_MMAP_TYPE, i)
      else if mr_flags e \<noteq> 0 then Inl (NX_BI_E_MMAP_FLAGS, i)
      else if (case prev of None \<Rightarrow> False | Some p \<Rightarrow> mr_base e < mr_base p) then Inl (NX_BI_E_MMAP_ORDER, i)
      else if (case prev of None \<Rightarrow> False | Some p \<Rightarrow> mr_base e < mr_base p + mr_length p)
        then Inl (NX_BI_E_MMAP_OVERLAP, i)
      else mmap_scan newer minor (i + 1) (Some e)
             (if mr_type e = NX_MEM_USABLE then usable + mr_length e else usable) rg)"

text \<open>The checks after the memory map, on the map \<open>rg\<close> at \<open>bi_mmap_phys\<close>.\<close>

definition check_ranges ::
    "nx_bi_check \<Rightarrow> nx_boot_info \<Rightarrow> nx_mem_region list \<Rightarrow> u64 \<Rightarrow> nx_bi_error" where
  "check_ranges c bi rg mmap_bytes =
     (let k_end = bi_kernel_phys_base bi + bi_kernel_phys_size bi in
      if bi_kernel_phys_base bi AND BI_PAGE_MASK \<noteq> 0 \<or> bi_kernel_phys_size bi AND BI_PAGE_MASK \<noteq> 0
         \<or> \<not> covered_by rg (bi_kernel_phys_base bi) (bi_kernel_phys_size bi) NX_MEM_KERNEL_IMAGE
        then NX_BI_E_KERNEL_RANGE
      else if bi_kernel_entry bi < bi_kernel_phys_base bi \<or> bi_kernel_entry bi \<ge> k_end then NX_BI_E_KERNEL_ENTRY
      else if (bc_image_start c \<noteq> 0 \<or> bc_image_end c \<noteq> 0)
              \<and> (bc_image_start c \<ge> bc_image_end c \<or> bc_image_start c < bi_kernel_phys_base bi
                 \<or> bc_image_end c > k_end) then NX_BI_E_KERNEL_SELF
      else if bi_stack_phys_base bi AND BI_PAGE_MASK \<noteq> 0 \<or> bi_stack_size bi AND BI_PAGE_MASK \<noteq> 0
              \<or> \<not> covered_by rg (bi_stack_phys_base bi) (bi_stack_size bi) NX_MEM_KERNEL_STACK
        then NX_BI_E_STACK_RANGE
      else if \<not> covered_by rg (bc_bi_phys c) (ucast (bi_size bi)) NX_MEM_BOOT_INFO
              \<or> \<not> covered_by rg (bi_mmap_phys bi) mmap_bytes NX_MEM_BOOT_INFO then NX_BI_E_BOOTINFO_RANGE
      else if bi_cmdline_len bi > NX_CMDLINE_MAX
              \<or> \<not> covered_by rg (bi_cmdline_phys bi) (ucast (bi_cmdline_len bi) + 1) NX_MEM_BOOT_INFO
        then NX_BI_E_CMDLINE
      else case bc_map c (bi_cmdline_phys bi) (ucast (bi_cmdline_len bi) + 1) of
        None \<Rightarrow> NX_BI_E_CMDLINE
      | Some cl \<Rightarrow>
          (if cl ! unat (bi_cmdline_len bi) \<noteq> 0 then NX_BI_E_CMDLINE
           else if \<not> list_all (\<lambda>i. 0x20 \<le> cl ! i \<and> cl ! i \<le> 0x7E) [0..<unat (bi_cmdline_len bi)] then NX_BI_E_CMDLINE
           else if \<not> check_rsdp c bi rg then NX_BI_E_RSDP
           else if \<not> check_framebuffer bi rg then NX_BI_E_FRAMEBUFFER
           else if \<not> check_initrd bi rg then NX_BI_E_INITRD
           else NX_BI_OK))"

definition check_mmap :: "nx_bi_check \<Rightarrow> nx_boot_info \<Rightarrow> bool \<Rightarrow> nx_bi_result" where
  "check_mmap c bi newer =
     (if bi_mmap_entry_size bi \<noteq> 24 then fail NX_BI_E_MMAP_ENTRY_SIZE 0
      else let n = bi_mmap_count bi in
      if n = 0 \<or> n > NX_MMAP_MAX_ENTRIES then fail NX_BI_E_MMAP_COUNT 0
      else let mmap_bytes = (ucast n :: u64) * 24 in
      if bi_mmap_phys bi = 0 \<or> bi_mmap_phys bi AND 7 \<noteq> 0 \<or> \<not> range_ok (bi_mmap_phys bi) mmap_bytes
        then fail NX_BI_E_MMAP_PTR 0
      else case bc_map c (bi_mmap_phys bi) mmap_bytes of
        None \<Rightarrow> fail NX_BI_E_MMAP_PTR 0
      | Some b \<Rightarrow>
          (let rg = regions_at b n in
           case mmap_scan newer (bi_version_minor bi) 0 None 0 rg of
             Inl (e, i) \<Rightarrow> fail e i
           | Inr usable \<Rightarrow>
               if usable = 0 then fail NX_BI_E_MMAP_NO_USABLE 0
               else let e = check_ranges c bi rg mmap_bytes in
               if e \<noteq> NX_BI_OK then fail e 0
               else \<lparr>br_error = NX_BI_OK, br_index = 0, br_bi = Some bi, br_regions = Some rg,
                     br_usable_bytes = usable\<rparr>))"

definition nx_bootinfo_check :: "nx_bi_check \<Rightarrow> nx_bi_result" where
  "nx_bootinfo_check c =
     (if bc_bi_phys c = 0 \<or> \<not> range_ok (bc_bi_phys c) (ucast NX_BOOTINFO_V1_SIZE) then fail NX_BI_E_NULL 0
      else case bc_map c (bc_bi_phys c) 16 of
        None \<Rightarrow> fail NX_BI_E_NULL 0
      | Some h \<Rightarrow>
          (let hdr = boot_info_at h in
           if bi_magic hdr \<noteq> NX_BOOTINFO_MAGIC then fail NX_BI_E_MAGIC 0
           else if bi_version_major hdr \<noteq> NX_BOOTINFO_VERSION_MAJOR then fail NX_BI_E_VERSION 0
           else let newer = bi_version_minor hdr > NX_BOOTINFO_VERSION_MINOR in
           if bi_size hdr > NX_BOOTINFO_MAX_SIZE \<or> (\<not> newer \<and> bi_size hdr \<noteq> minor_size (bi_version_minor hdr))
              \<or> (newer \<and> bi_size hdr < NX_BOOTINFO_V1_1_SIZE) then fail NX_BI_E_SIZE 0
           else case bc_map c (bc_bi_phys c) (ucast (bi_size hdr)) of
             None \<Rightarrow> fail NX_BI_E_NULL 0
           | Some b \<Rightarrow>
               (let bi = boot_info_at b in
                if \<not> newer \<and> bi_flags bi AND NOT (minor_flags (bi_version_minor bi)) \<noteq> 0 then fail NX_BI_E_FLAGS 0
                else if bi_reserved0 bi \<noteq> 0
                        \<or> (bi_version_minor bi = 0 \<and> (bi_initrd_phys bi \<noteq> 0 \<or> bi_initrd_size bi \<noteq> 0))
                  then fail NX_BI_E_RESERVED 0
                else check_mmap c bi newer)))"

definition nx_bi_strerror :: "int \<Rightarrow> string" where
  "nx_bi_strerror e =
     (if 0 \<le> e \<and> e < 27
      then [''ok'', ''E_NULL'', ''E_MAGIC'', ''E_VERSION'', ''E_SIZE'', ''E_FLAGS'', ''E_RESERVED'',
            ''E_MMAP_PTR'', ''E_MMAP_ENTRY_SIZE'', ''E_MMAP_COUNT'', ''E_MMAP_EMPTY'', ''E_MMAP_ALIGN'',
            ''E_MMAP_OVERFLOW'', ''E_MMAP_TYPE'', ''E_MMAP_FLAGS'', ''E_MMAP_ORDER'', ''E_MMAP_OVERLAP'',
            ''E_MMAP_NO_USABLE'', ''E_KERNEL_RANGE'', ''E_KERNEL_ENTRY'', ''E_KERNEL_SELF'',
            ''E_STACK_RANGE'', ''E_BOOTINFO_RANGE'', ''E_CMDLINE'', ''E_RSDP'', ''E_FRAMEBUFFER'',
            ''E_INITRD''] ! nat e
      else ''E_UNKNOWN'')"

section \<open>What the checks mean\<close>

definition in_region :: "nat \<Rightarrow> nx_mem_region \<Rightarrow> bool" where
  "in_region a r \<longleftrightarrow> mr_lo r \<le> a \<and> a < mr_hi r"

definition covers :: "nx_mem_region list \<Rightarrow> nat \<Rightarrow> nat \<Rightarrow> u32 \<Rightarrow> bool" where
  "covers rg lo hi ty \<longleftrightarrow> (\<forall>a. lo \<le> a \<and> a < hi \<longrightarrow> (\<exists>r \<in> set rg. mr_type r = ty \<and> in_region a r))"

lemma covers_skip: "mr_hi r \<le> lo \<Longrightarrow> covers (r # rg) lo hi ty = covers rg lo hi ty"
  by (auto simp: covers_def in_region_def)

lemma covers_first:
  assumes "region_wf r" and "\<forall>x \<in> set rg. region_before r x" and "lo < hi" and "lo < mr_hi r"
  shows "covers (r # rg) lo hi ty \<longleftrightarrow> mr_lo r \<le> lo \<and> mr_type r = ty \<and> (mr_hi r < hi \<longrightarrow> covers rg (mr_hi r) hi ty)"
proof
  assume c: "covers (r # rg) lo hi ty"
  obtain x where x: "x \<in> set (r # rg)" "mr_type x = ty" "in_region lo x"
    using c assms(3) by (auto simp: covers_def)
  have "x = r" using x assms(2,4) by (fastforce simp: in_region_def region_before_def)
  moreover have "covers rg (mr_hi r) hi ty"
    unfolding covers_def
  proof (intro allI impI)
    fix a assume a: "mr_hi r \<le> a \<and> a < hi"
    then have "lo \<le> a" using assms(4) by simp
    then obtain y where "y \<in> set (r # rg)" "mr_type y = ty" "in_region a y"
      using c a by (auto simp: covers_def)
    then show "\<exists>r \<in> set rg. mr_type r = ty \<and> in_region a r"
      using a by (auto simp: in_region_def)
  qed
  ultimately show "mr_lo r \<le> lo \<and> mr_type r = ty \<and> (mr_hi r < hi \<longrightarrow> covers rg (mr_hi r) hi ty)"
    using x by (simp add: in_region_def)
next
  assume "mr_lo r \<le> lo \<and> mr_type r = ty \<and> (mr_hi r < hi \<longrightarrow> covers rg (mr_hi r) hi ty)"
  then show "covers (r # rg) lo hi ty"
    unfolding covers_def in_region_def by (metis le_less_trans list.set_intros not_le order_trans)
qed

lemma covered_from_covers:
  assumes "regions_wf rg" and "cur < end'"
  shows "covered_from rg cur end' ty = covers rg (unat cur) (unat end') ty"
  using assms
proof (induction rg arbitrary: cur)
  case Nil
  then show ?case by (auto simp: covers_def word_less_nat_alt)
next
  case (Cons r rg)
  define e where "e = mr_base r + mr_length r"
  have e: "unat e = mr_hi r" using region_end_word Cons.prems(1) by (simp add: e_def)
  have wf: "region_wf r" "\<forall>x \<in> set rg. region_before r x" "regions_wf rg" using Cons.prems(1) by simp_all
  show ?case
  proof (cases "e \<le> cur")
    case True
    then show ?thesis
      using Cons.IH [OF wf(3) Cons.prems(2)] covers_skip [of r "unat cur"] e
      by (simp add: e_def [symmetric] word_le_nat_alt)
  next
    case False
    then have "covers (r # rg) (unat cur) (unat end') ty \<longleftrightarrow> mr_lo r \<le> unat cur \<and> mr_type r = ty
        \<and> (mr_hi r < unat end' \<longrightarrow> covers rg (mr_hi r) (unat end') ty)"
      using covers_first [OF wf(1,2)] Cons.prems(2) e by (simp add: word_less_nat_alt word_le_nat_alt)
    then show ?thesis
      using False Cons.IH [OF wf(3), of e] e
      by (auto simp: e_def [symmetric] word_less_nat_alt word_le_nat_alt mr_lo_def not_le)
  qed
qed

lemma range_ok_nat: "range_ok start len \<longleftrightarrow> 0 < unat len \<and> unat start + unat len < 2 ^ 64"
  using unat_u64_less [of len] unat_u64_less [of start]
  by (auto simp: range_ok_def word_le_nat_alt unat_max_sub unat_gt_0)

lemma covered_by_covers:
  assumes "regions_wf rg"
  shows "covered_by rg start len ty \<longleftrightarrow> 0 < unat len \<and> unat start + unat len < 2 ^ 64
    \<and> covers rg (unat start) (unat start + unat len) ty"
proof (cases "range_ok start len")
  case True
  then have r: "0 < unat len" "unat start + unat len < 2 ^ 64" by (simp_all add: range_ok_nat)
  then have u: "unat (start + len) = unat start + unat len" by (intro unat_add_small) simp
  then have "start < start + len" using r by (simp add: word_less_nat_alt)
  then show ?thesis
    using covered_from_covers [OF assms] True r u by (simp add: covered_by_def)
next
  case False
  then show ?thesis by (auto simp: covered_by_def range_ok_nat)
qed

text \<open>A covered range meets no region of another type.\<close>

lemma covers_disjoint:
  assumes "regions_wf rg" and "covers rg lo hi ty" and "r \<in> set rg" and "mr_type r \<noteq> ty"
    and "lo \<le> a" "a < hi"
  shows "\<not> in_region a r"
proof
  assume ar: "in_region a r"
  obtain x where x: "x \<in> set rg" "mr_type x = ty" "in_region a x" using assms by (auto simp: covers_def)
  have so: "sorted_wrt region_before rg" using assms(1) by (simp add: regions_wf_def)
  obtain i j where ij: "i < length rg" "j < length rg" "r = rg ! i" "x = rg ! j"
    using assms(3) x(1) by (metis in_set_conv_nth)
  have "i \<noteq> j" using x(2) assms(4) ij by auto
  then have "region_before (rg ! i) (rg ! j) \<or> region_before (rg ! j) (rg ! i)"
    using so ij by (metis nat_neq_iff sorted_wrt_nth_less)
  then show False using ar x(3) ij by (auto simp: in_region_def region_before_def)
qed

section \<open>The memory map\<close>

definition usable_bytes :: "nx_mem_region list \<Rightarrow> nat" where
  "usable_bytes rg = sum_list (map (\<lambda>r. if mr_type r = NX_MEM_USABLE then unat (mr_length r) else 0) rg)"

lemma mmap_entry_wf:
  assumes "mr_length e \<noteq> 0" and "\<not> (mr_base e AND BI_PAGE_MASK \<noteq> 0 \<or> mr_length e AND BI_PAGE_MASK \<noteq> 0)"
    and "\<not> mr_length e > - 1 - mr_base e"
  shows "region_wf e"
proof -
  have "0 < unat (mr_length e)" using assms(1) by (simp add: unat_gt_0)
  moreover have "unat (mr_length e) \<le> 18446744073709551615 - unat (mr_base e)"
    using assms(3) by (simp add: word_less_nat_alt unat_max_sub)
  ultimately show ?thesis
    using assms(2) unat_u64_less [of "mr_base e"]
    by (auto simp: region_wf_def mr_lo_def mr_hi_def and_4095_zero)
qed

lemma mmap_scan_ok:
  assumes "mmap_scan newer minor i prev u rg = Inr u'" and "case prev of None \<Rightarrow> True | Some p \<Rightarrow> region_wf p"
  shows "(\<forall>r \<in> set rg. region_wf r) \<and> sorted_wrt region_before (case prev of None \<Rightarrow> rg | Some p \<Rightarrow> p # rg)
    \<and> u' = u + of_nat (usable_bytes rg)"
  using assms
proof (induction rg arbitrary: i prev u)
  case Nil
  then show ?case by (auto simp: usable_bytes_def split: option.splits)
next
  case (Cons e rg)
  define u1 where "u1 = (if mr_type e = NX_MEM_USABLE then u + mr_length e else u)"
  have g: "mr_length e \<noteq> 0" "\<not> (mr_base e AND BI_PAGE_MASK \<noteq> 0 \<or> mr_length e AND BI_PAGE_MASK \<noteq> 0)"
    "\<not> mr_length e > - 1 - mr_base e"
    and pv: "\<And>p. prev = Some p \<Longrightarrow> \<not> mr_base e < mr_base p + mr_length p"
    and rec: "mmap_scan newer minor (i + 1) (Some e) u1 rg = Inr u'"
    using Cons.prems(1) by (auto simp: u1_def split: if_splits)
  note wf = mmap_entry_wf [OF g]
  have ih: "\<forall>r \<in> set rg. region_wf r" "sorted_wrt region_before (e # rg)" "u' = u1 + of_nat (usable_bytes rg)"
    using Cons.IH [OF rec] wf by simp_all
  have "u1 + of_nat (usable_bytes rg) = u + of_nat (usable_bytes (e # rg))"
    by (simp add: u1_def usable_bytes_def)
  moreover have "\<forall>x \<in> set (e # rg). region_before p x" if "prev = Some p" for p
  proof -
    have "region_before p e"
      using pv [OF that] region_end_word [of p] Cons.prems(2) that
      by (simp add: region_before_def word_less_nat_alt mr_lo_def)
    moreover have "region_before p x" if "x \<in> set rg" for x
      using that ih(2) \<open>region_before p e\<close> wf by (fastforce simp: region_before_def region_wf_def)
    ultimately show ?thesis by simp
  qed
  ultimately show ?case using ih wf by (auto split: option.splits)
qed

text \<open>The usable bytes of a well-formed map do not wrap.\<close>

lemma usable_bytes_bound:
  assumes "regions_wf rg" and "\<forall>r \<in> set rg. lo \<le> mr_lo r \<and> mr_hi r \<le> hi" and "lo \<le> hi"
  shows "usable_bytes rg \<le> hi - lo"
  using assms
proof (induction rg arbitrary: lo)
  case Nil
  then show ?case by (simp add: usable_bytes_def)
next
  case (Cons r rg)
  have "usable_bytes rg \<le> hi - mr_hi r"
    by (rule Cons.IH) (use Cons.prems in \<open>auto simp: region_before_def\<close>)
  moreover have "unat (mr_length r) = mr_hi r - mr_lo r" "mr_lo r \<le> mr_hi r" by (simp_all add: mr_lo_def mr_hi_def)
  moreover have "lo \<le> mr_lo r" "mr_hi r \<le> hi" using Cons.prems by simp_all
  ultimately have "unat (mr_length r) + usable_bytes rg \<le> hi - lo" by linarith
  then show ?case by (simp add: usable_bytes_def)
qed

lemma usable_bytes_word:
  assumes "regions_wf rg"
  shows "unat (of_nat (usable_bytes rg) :: u64) = usable_bytes rg"
proof -
  have "usable_bytes rg \<le> 2 ^ 64 - 1 - 0"
    by (rule usable_bytes_bound [OF assms])
      (use assms in \<open>auto simp: regions_wf_def region_wf_def\<close>)
  then show ?thesis by (simp add: unat_of_nat)
qed

section \<open>An accepted boot info\<close>

lemma check_ranges_ok:
  assumes "check_ranges c bi rg mb = NX_BI_OK"
  shows "covered_by rg (bi_kernel_phys_base bi) (bi_kernel_phys_size bi) NX_MEM_KERNEL_IMAGE"
    and "covered_by rg (bi_stack_phys_base bi) (bi_stack_size bi) NX_MEM_KERNEL_STACK"
    and "covered_by rg (bc_bi_phys c) (ucast (bi_size bi)) NX_MEM_BOOT_INFO"
    and "covered_by rg (bi_mmap_phys bi) mb NX_MEM_BOOT_INFO"
    and "covered_by rg (bi_cmdline_phys bi) (ucast (bi_cmdline_len bi) + 1) NX_MEM_BOOT_INFO"
    and "check_initrd bi rg"
    and "bi_kernel_phys_base bi \<le> bi_kernel_entry bi \<and> bi_kernel_entry bi < bi_kernel_phys_base bi + bi_kernel_phys_size bi"
  using assms unfolding check_ranges_def Let_def
  by (simp_all split: if_splits option.splits add: not_le not_less)

lemma bootinfo_stages:
  assumes "nx_bootinfo_check c = r" and "br_error r = NX_BI_OK"
  shows "\<exists>bi b newer u. r = \<lparr>br_error = NX_BI_OK, br_index = 0, br_bi = Some bi,
      br_regions = Some (regions_at b (bi_mmap_count bi)), br_usable_bytes = u\<rparr>
    \<and> bc_map c (bi_mmap_phys bi) (ucast (bi_mmap_count bi) * 24) = Some b
    \<and> mmap_scan newer (bi_version_minor bi) 0 None 0 (regions_at b (bi_mmap_count bi)) = Inr u \<and> u \<noteq> 0
    \<and> check_ranges c bi (regions_at b (bi_mmap_count bi)) (ucast (bi_mmap_count bi) * 24) = NX_BI_OK"
proof -
  have f: "br_error (fail e i) \<noteq> NX_BI_OK" if "e \<noteq> NX_BI_OK" for e i using that by (simp add: fail_def)
  obtain bi newer where m: "check_mmap c bi newer = r"
    using assms unfolding nx_bootinfo_check_def Let_def
    by (auto simp: f split: if_splits option.splits)
  have scan: "fst x \<noteq> NX_BI_OK" if "mmap_scan n v i p u rg = Inl x" for n v i p u rg x
    using that by (induction rg arbitrary: i p u) (auto split: if_splits)
  have "br_error (check_mmap c bi newer) = NX_BI_OK" using m assms(2) by simp
  then show ?thesis
    using m unfolding check_mmap_def Let_def
    by (auto simp: f split: if_splits option.splits sum.splits dest!: scan)
qed

text \<open>The ranges the kernel relies on after the check, each with the type its memory must have.\<close>

definition reserved_ranges :: "nx_bi_check \<Rightarrow> nx_boot_info \<Rightarrow> (u64 \<times> u64 \<times> u32) list" where
  "reserved_ranges c bi =
     [(bi_kernel_phys_base bi, bi_kernel_phys_size bi, NX_MEM_KERNEL_IMAGE),
      (bi_stack_phys_base bi, bi_stack_size bi, NX_MEM_KERNEL_STACK),
      (bc_bi_phys c, ucast (bi_size bi), NX_MEM_BOOT_INFO),
      (bi_mmap_phys bi, ucast (bi_mmap_count bi) * 24, NX_MEM_BOOT_INFO),
      (bi_cmdline_phys bi, ucast (bi_cmdline_len bi) + 1, NX_MEM_BOOT_INFO)]
     @ (if bi_version_minor bi = 0 \<or> bi_flags bi AND NX_BI_HAS_INITRD = 0 then []
        else [(bi_initrd_phys bi, (bi_initrd_size bi + BI_PAGE_MASK) AND NOT BI_PAGE_MASK, NX_MEM_INITRD)])"

definition range_covered :: "nx_mem_region list \<Rightarrow> u64 \<times> u64 \<times> u32 \<Rightarrow> bool" where
  "range_covered rg = (\<lambda>(start, len, ty). 0 < unat len \<and> unat start + unat len < 2 ^ 64
     \<and> covers rg (unat start) (unat start + unat len) ty)"

lemma check_ranges_covered:
  assumes "check_ranges c bi rg (ucast (bi_mmap_count bi) * 24) = NX_BI_OK" and "regions_wf rg"
  shows "list_all (range_covered rg) (reserved_ranges c bi)"
proof -
  note k = check_ranges_ok [OF assms(1)]
  have "covered_by rg (bi_initrd_phys bi) ((bi_initrd_size bi + BI_PAGE_MASK) AND NOT BI_PAGE_MASK) NX_MEM_INITRD"
    if "\<not> (bi_version_minor bi = 0 \<or> bi_flags bi AND NX_BI_HAS_INITRD = 0)"
    using k(6) that by (auto simp: check_initrd_def split: if_splits)
  then show ?thesis
    using k(1-5) by (auto simp: reserved_ranges_def range_covered_def covered_by_covers [OF assms(2)])
qed

lemma bootinfo_check_ok:
  assumes "nx_bootinfo_check c = r" and "br_error r = NX_BI_OK"
  obtains bi rg where "br_bi r = Some bi" and "br_regions r = Some rg" and "regions_wf rg"
    and "unat (br_usable_bytes r) = usable_bytes rg" and "0 < usable_bytes rg"
    and "list_all (range_covered rg) (reserved_ranges c bi)"
    and "bi_kernel_phys_base bi \<le> bi_kernel_entry bi \<and> bi_kernel_entry bi < bi_kernel_phys_base bi + bi_kernel_phys_size bi"
proof -
  obtain bi b newer u where s: "r = \<lparr>br_error = NX_BI_OK, br_index = 0, br_bi = Some bi,
      br_regions = Some (regions_at b (bi_mmap_count bi)), br_usable_bytes = u\<rparr>"
    "mmap_scan newer (bi_version_minor bi) 0 None 0 (regions_at b (bi_mmap_count bi)) = Inr u" "u \<noteq> 0"
    "check_ranges c bi (regions_at b (bi_mmap_count bi)) (ucast (bi_mmap_count bi) * 24) = NX_BI_OK"
    using bootinfo_stages [OF assms] by blast
  define rg where "rg = regions_at b (bi_mmap_count bi)"
  have m: "regions_wf rg" "u = of_nat (usable_bytes rg)"
    using mmap_scan_ok [OF s(2)] by (simp_all add: regions_wf_def rg_def)
  have u: "unat u = usable_bytes rg" using usable_bytes_word [OF m(1)] m(2) by simp
  have "0 < usable_bytes rg" using u s(3) unat_gt_0 [of u] by simp
  then show thesis
    by (intro that [of bi rg])
      (use s m(1) u check_ranges_covered [OF s(4)] check_ranges_ok(7) [OF s(4)]
        in \<open>auto simp: rg_def simp flip: rg_def\<close>)
qed

text \<open>
  C16. When the kernel accepts a boot info, the memory map it will use is well formed (aligned,
  non-empty, sorted, disjoint regions), the number of usable bytes reported is exactly the total
  length of its usable regions, without wrap-around and not zero, the entry point lies in the kernel
  image, and the image, the boot stack, the boot info, the map, the command line and the initrd are
  ranges that do not wrap and lie byte by byte in regions of their own type.
\<close>

theorem bootinfo_check_sound:
  assumes "br_error (nx_bootinfo_check c) = NX_BI_OK"
  shows "\<exists>bi rg. br_bi (nx_bootinfo_check c) = Some bi \<and> br_regions (nx_bootinfo_check c) = Some rg
    \<and> regions_wf rg \<and> unat (br_usable_bytes (nx_bootinfo_check c)) = usable_bytes rg \<and> 0 < usable_bytes rg
    \<and> list_all (range_covered rg) (reserved_ranges c bi)
    \<and> bi_kernel_phys_base bi \<le> bi_kernel_entry bi
    \<and> bi_kernel_entry bi < bi_kernel_phys_base bi + bi_kernel_phys_size bi"
  by (rule bootinfo_check_ok [OF refl assms]) blast

definition ex_boot_info :: bytes where
  "ex_boot_info =
    [78, 65, 78, 79, 88, 95, 66, 73, 1, 0, 0, 0, 192, 0, 0, 0, 0, 0, 0, 0, 0, 0, 0, 0, 0, 17, 0, 0,
     0, 0, 0, 0, 4, 0, 0, 0, 24, 0, 0, 0, 0, 32, 0, 0, 0, 0, 0, 0, 0, 16, 0, 0, 0, 0, 0, 0, 16, 32,
     0, 0, 0, 0, 0, 0, 0, 48, 0, 0, 0, 0, 0, 0, 0, 16, 0, 0, 0, 0, 0, 0, 0, 18, 0, 0, 0, 0, 0, 0, 0,
     0, 0, 0, 0, 0, 0, 0, 0, 0, 0, 0, 0, 0, 0, 0, 0, 0, 0, 0, 0, 0, 0, 0, 0, 0, 0, 0, 0, 0, 0, 0, 0,
     0, 0, 0, 0, 0, 0, 0, 0, 0, 0, 0, 0, 0, 0, 0, 0, 0, 0, 0, 0, 0, 0, 0, 0, 0, 0, 0, 0, 0, 0, 0, 0,
     0, 0, 0, 0, 0, 0, 0, 0, 0, 0, 0, 0, 0, 0, 0, 0, 0, 0, 0, 0, 0, 0, 0, 0, 0, 0, 0, 0, 0, 0, 0, 0,
     0, 0, 0, 0, 0, 0, 0]"

definition ex_boot_map :: bytes where
  "ex_boot_map =
    [0, 16, 0, 0, 0, 0, 0, 0, 0, 16, 0, 0, 0, 0, 0, 0, 9, 0, 0, 0, 0, 0, 0, 0, 0, 32, 0, 0, 0, 0, 0,
     0, 0, 16, 0, 0, 0, 0, 0, 0, 7, 0, 0, 0, 0, 0, 0, 0, 0, 48, 0, 0, 0, 0, 0, 0, 0, 16, 0, 0, 0, 0,
     0, 0, 8, 0, 0, 0, 0, 0, 0, 0, 0, 0, 16, 0, 0, 0, 0, 0, 0, 64, 0, 0, 0, 0, 0, 0, 1, 0, 0, 0, 0,
     0, 0, 0]"

definition ex_boot_check :: nx_bi_check where
  "ex_boot_check = \<lparr>bc_map = (\<lambda>p n. if p = 0x1000 then Some (take (unat n) ex_boot_info)
       else if p = 0x1100 then Some ex_boot_map else if p = 0x1200 then Some [0] else None),
     bc_bi_phys = 0x1000, bc_image_start = 0, bc_image_end = 0\<rparr>"

lemmas at_evals = u16_at_def u32_at_def u64_at_def le_dec_def

lemma ex_hdr:
  "bi_magic (boot_info_at (take 16 ex_boot_info)) = NX_BOOTINFO_MAGIC"
  "bi_version_major (boot_info_at (take 16 ex_boot_info)) = 1"
  "bi_version_minor (boot_info_at (take 16 ex_boot_info)) = 0"
  "bi_size (boot_info_at (take 16 ex_boot_info)) = 192"
  by (simp_all add: boot_info_at_def ex_boot_info_def at_evals)

lemma ex_bi:
  "boot_info_at ex_boot_info = \<lparr>
     bi_magic = NX_BOOTINFO_MAGIC, bi_version_major = 1, bi_version_minor = 0,
     bi_size = 192, bi_flags = 0, bi_mmap_phys = 0x1100,
     bi_mmap_count = 4, bi_mmap_entry_size = 24,
     bi_kernel_phys_base = 0x2000, bi_kernel_phys_size = 0x1000, bi_kernel_entry = 0x2010,
     bi_stack_phys_base = 0x3000, bi_stack_size = 0x1000, bi_cmdline_phys = 0x1200,
     bi_cmdline_len = 0, bi_reserved0 = 0, bi_initrd_phys = 0,
     bi_initrd_size = 0, bi_acpi_rsdp_phys = 0, bi_fb_phys = 0,
     bi_fb_size = 0, bi_fb_width = 0, bi_fb_height = 0,
     bi_fb_pitch = 0, bi_fb_format = 0, bi_uefi_system_table_phys = 0,
     bi_kernel_sha256 = replicate 32 0, bi_initrd_sha256 = []\<rparr>"
  by (simp add: boot_info_at_def ex_boot_info_def at_evals evals)

lemma upt_4: "[0..<4] = [0, 1, 2, 3 :: nat]"
  by (simp add: upt_rec)

lemma ex_regions:
  "regions_at ex_boot_map 4 =
     [\<lparr>mr_base = 0x1000, mr_length = 0x1000, mr_type = 9, mr_flags = 0\<rparr>,
      \<lparr>mr_base = 0x2000, mr_length = 0x1000, mr_type = 7, mr_flags = 0\<rparr>,
      \<lparr>mr_base = 0x3000, mr_length = 0x1000, mr_type = 8, mr_flags = 0\<rparr>,
      \<lparr>mr_base = 0x100000, mr_length = 0x4000, mr_type = 1, mr_flags = 0\<rparr>]"
  by (simp add: regions_at_def region_at_def ex_boot_map_def at_evals upt_4)

lemma ex_boot_accepted:
  "nx_bootinfo_check ex_boot_check = \<lparr>br_error = NX_BI_OK, br_index = 0, br_bi = Some (boot_info_at ex_boot_info),
     br_regions = Some (regions_at ex_boot_map 4), br_usable_bytes = 0x4000\<rparr>"
proof -
  have t: "take 192 ex_boot_info = ex_boot_info" by (simp add: ex_boot_info_def)
  have r: "check_ranges ex_boot_check (boot_info_at ex_boot_info) (regions_at ex_boot_map 4) 96 = NX_BI_OK"
    by (simp add: check_ranges_def ex_bi ex_regions ex_boot_check_def covered_by_def range_ok_def
        check_rsdp_def check_framebuffer_def check_initrd_def)
  have s: "mmap_scan False 0 0 None 0 (regions_at ex_boot_map 4) = Inr 0x4000"
    by (simp add: ex_regions minor_max_type_def)
  have f: "bi_mmap_entry_size (boot_info_at ex_boot_info) = 24" "bi_mmap_count (boot_info_at ex_boot_info) = 4"
    "bi_mmap_phys (boot_info_at ex_boot_info) = 0x1100" "bi_version_minor (boot_info_at ex_boot_info) = 0"
    "bi_reserved0 (boot_info_at ex_boot_info) = 0" "bi_flags (boot_info_at ex_boot_info) = 0"
    "bi_initrd_phys (boot_info_at ex_boot_info) = 0" "bi_initrd_size (boot_info_at ex_boot_info) = 0"
    by (simp_all add: ex_bi)
  have m: "bc_map ex_boot_check 0x1100 96 = Some ex_boot_map" "bc_bi_phys ex_boot_check = 0x1000"
    "bc_map ex_boot_check 0x1000 192 = Some ex_boot_info"
    "bc_map ex_boot_check 0x1000 16 = Some (take 16 ex_boot_info)"
    by (simp_all add: ex_boot_check_def t)
  have "check_mmap ex_boot_check (boot_info_at ex_boot_info) False = \<lparr>br_error = NX_BI_OK, br_index = 0,
      br_bi = Some (boot_info_at ex_boot_info), br_regions = Some (regions_at ex_boot_map 4), br_usable_bytes = 0x4000\<rparr>"
    using r s by (simp add: check_mmap_def f m range_ok_def Let_def)
  then show ?thesis
    by (simp add: nx_bootinfo_check_def ex_hdr minor_size_def range_ok_def m f Let_def minor_flags_def)
qed

lemma ex_boot_ok: "br_error (nx_bootinfo_check ex_boot_check) = NX_BI_OK"
  by (simp add: ex_boot_accepted)

theorem bootinfo_check_sound_witness:
  "\<exists>bi rg. br_bi (nx_bootinfo_check ex_boot_check) = Some bi \<and> br_regions (nx_bootinfo_check ex_boot_check) = Some rg
    \<and> regions_wf rg \<and> unat (br_usable_bytes (nx_bootinfo_check ex_boot_check)) = usable_bytes rg"
  using bootinfo_check_sound [OF ex_boot_ok] by blast

end
