(* ===== verification/Mmap_Convert.thy ===== *)
theory Mmap_Convert
  imports Bootinfo_Check "HOL-Library.Multiset"
begin

text \<open>
  The loader's conversion of the UEFI memory map into the boot-info memory map
  (boot/uefi/mmap_convert.c): translate every descriptor, sort in place by base address, reject
  overlaps and coalesce neighbours of the same type.
\<close>

datatype nx_mmap_error =
    NX_MMAP_OK | NX_MMAP_E_DESC_SIZE | NX_MMAP_E_ALIGN | NX_MMAP_E_OVERFLOW | NX_MMAP_E_CAPACITY
  | NX_MMAP_E_OVERLAP | NX_MMAP_E_EMPTY

abbreviation EfiLoaderCode :: u32 where "EfiLoaderCode \<equiv> 1"
abbreviation EfiLoaderData :: u32 where "EfiLoaderData \<equiv> 2"
abbreviation EfiBootServicesCode :: u32 where "EfiBootServicesCode \<equiv> 3"
abbreviation EfiBootServicesData :: u32 where "EfiBootServicesData \<equiv> 4"
abbreviation EfiRuntimeServicesCode :: u32 where "EfiRuntimeServicesCode \<equiv> 5"
abbreviation EfiRuntimeServicesData :: u32 where "EfiRuntimeServicesData \<equiv> 6"
abbreviation EfiConventionalMemory :: u32 where "EfiConventionalMemory \<equiv> 7"
abbreviation EfiACPIReclaimMemory :: u32 where "EfiACPIReclaimMemory \<equiv> 9"
abbreviation EfiACPIMemoryNVS :: u32 where "EfiACPIMemoryNVS \<equiv> 10"
abbreviation EfiMemoryMappedIO :: u32 where "EfiMemoryMappedIO \<equiv> 11"
abbreviation EfiMemoryMappedIOPortSpace :: u32 where "EfiMemoryMappedIOPortSpace \<equiv> 12"
abbreviation NX_EFI_TYPE_KERNEL_IMAGE :: u32 where "NX_EFI_TYPE_KERNEL_IMAGE \<equiv> 0x80000001"
abbreviation NX_EFI_TYPE_KERNEL_STACK :: u32 where "NX_EFI_TYPE_KERNEL_STACK \<equiv> 0x80000002"
abbreviation NX_EFI_TYPE_BOOT_INFO :: u32 where "NX_EFI_TYPE_BOOT_INFO \<equiv> 0x80000003"
abbreviation NX_EFI_TYPE_INITRD :: u32 where "NX_EFI_TYPE_INITRD \<equiv> 0x80000004"

record efi_memory_descriptor =
  ed_Type :: u32
  ed_PhysicalStart :: u64
  ed_VirtualStart :: u64
  ed_NumberOfPages :: u64
  ed_Attribute :: u64

definition descriptor_at :: "bytes \<Rightarrow> nat \<Rightarrow> efi_memory_descriptor" where
  "descriptor_at b off = \<lparr>ed_Type = u32_at b off, ed_PhysicalStart = u64_at b (off + 8),
     ed_VirtualStart = u64_at b (off + 16), ed_NumberOfPages = u64_at b (off + 24),
     ed_Attribute = u64_at b (off + 32)\<rparr>"

definition nx_mmap_translate_type :: "u32 \<Rightarrow> u32" where
  "nx_mmap_translate_type t =
     (if t = EfiConventionalMemory then NX_MEM_USABLE
      else if t = EfiLoaderCode \<or> t = EfiLoaderData \<or> t = EfiBootServicesCode \<or> t = EfiBootServicesData
        then NX_MEM_BOOT_RECLAIMABLE
      else if t = EfiRuntimeServicesCode \<or> t = EfiRuntimeServicesData then NX_MEM_FIRMWARE_RUNTIME
      else if t = EfiACPIReclaimMemory then NX_MEM_ACPI_RECLAIMABLE
      else if t = EfiACPIMemoryNVS then NX_MEM_ACPI_NVS
      else if t = EfiMemoryMappedIO \<or> t = EfiMemoryMappedIOPortSpace then NX_MEM_MMIO
      else if t = NX_EFI_TYPE_KERNEL_IMAGE then NX_MEM_KERNEL_IMAGE
      else if t = NX_EFI_TYPE_KERNEL_STACK then NX_MEM_KERNEL_STACK
      else if t = NX_EFI_TYPE_BOOT_INFO then NX_MEM_BOOT_INFO
      else if t = NX_EFI_TYPE_INITRD then NX_MEM_INITRD
      else NX_MEM_RESERVED)"

text \<open>The first loop, over the offsets still to visit: \<open>n\<close> entries of \<open>out\<close> are filled.\<close>

fun mmap_collect ::
    "bytes \<Rightarrow> u32 \<Rightarrow> nat list \<Rightarrow> nx_mem_region list \<Rightarrow> u32 \<Rightarrow> nx_mmap_error \<times> nx_mem_region list \<times> u32" where
  "mmap_collect b cap [] out n = (NX_MMAP_OK, out, n)"
| "mmap_collect b cap (off # offs) out n =
     (let d = descriptor_at b off in
      if ed_NumberOfPages d = 0 then mmap_collect b cap offs out n
      else if ed_PhysicalStart d AND (NX_PAGE_SIZE - 1) \<noteq> 0 then (NX_MMAP_E_ALIGN, out, n)
      else if ed_NumberOfPages d > (- 1 - ed_PhysicalStart d) div NX_PAGE_SIZE then (NX_MMAP_E_OVERFLOW, out, n)
      else if n = cap then (NX_MMAP_E_CAPACITY, out, n)
      else mmap_collect b cap offs
             (out[unat n := \<lparr>mr_base = ed_PhysicalStart d, mr_length = ed_NumberOfPages d * NX_PAGE_SIZE,
                             mr_type = nx_mmap_translate_type (ed_Type d), mr_flags = 0\<rparr>]) (n + 1))"

text \<open>The inner loop of the insertion sort: \<open>r\<close> sinks from position \<open>j\<close>.\<close>

fun mmap_sink :: "nx_mem_region list \<Rightarrow> nx_mem_region \<Rightarrow> nat \<Rightarrow> nx_mem_region list" where
  "mmap_sink out r 0 = out[0 := r]"
| "mmap_sink out r (Suc j) =
     (if mr_base (out ! j) > mr_base r then mmap_sink (out[Suc j := out ! j]) r j else out[Suc j := r])"

definition mmap_sort :: "nx_mem_region list \<Rightarrow> nat \<Rightarrow> nx_mem_region list" where
  "mmap_sort out n = fold (\<lambda>i out. mmap_sink out (out ! i) i) [1..<n] out"

text \<open>The last loop, from entry \<open>i\<close> on, with \<open>m\<close> entries of the result written.\<close>

fun mmap_merge :: "nat list \<Rightarrow> nx_mem_region list \<Rightarrow> nat \<Rightarrow> nx_mmap_error \<times> nx_mem_region list \<times> nat" where
  "mmap_merge [] out m = (NX_MMAP_OK, out, m)"
| "mmap_merge (i # is) out m =
     (if m > 0 \<and> mr_base (out ! i) < mr_base (out ! (m - 1)) + mr_length (out ! (m - 1))
        then (NX_MMAP_E_OVERLAP, out, m)
      else if m > 0 \<and> mr_base (out ! i) = mr_base (out ! (m - 1)) + mr_length (out ! (m - 1))
              \<and> mr_type (out ! i) = mr_type (out ! (m - 1))
        then mmap_merge is (out[m - 1 := (out ! (m - 1))\<lparr>mr_length :=
               mr_length (out ! (m - 1)) + mr_length (out ! i)\<rparr>]) m
      else mmap_merge is (out[m := out ! i]) (m + 1))"

definition nx_mmap_from_uefi ::
    "bytes \<Rightarrow> u64 \<Rightarrow> u64 \<Rightarrow> nx_mem_region list \<Rightarrow> u32 \<Rightarrow> nx_mmap_error \<times> nx_mem_region list \<times> u32" where
  "nx_mmap_from_uefi b map_size desc_size out cap =
     (if desc_size < 40 then (NX_MMAP_E_DESC_SIZE, out, 0)
      else let offs = map (\<lambda>i. i * unat desc_size) [0..<unat map_size div unat desc_size];
               (st, out1, n) = mmap_collect b cap offs out 0 in
      if st \<noteq> NX_MMAP_OK then (st, out1, 0)
      else if n = 0 then (NX_MMAP_E_EMPTY, out1, 0)
      else let (st, out2, m) = mmap_merge [0..<unat n] (mmap_sort out1 (unat n)) 0 in
      if st \<noteq> NX_MMAP_OK then (st, out2, 0) else (NX_MMAP_OK, out2, of_nat m))"

definition nx_mmap_strerror :: "int \<Rightarrow> string" where
  "nx_mmap_strerror err =
     (if 0 \<le> err \<and> err \<le> 6
      then [''ok'', ''descriptor size too small'', ''unaligned descriptor'', ''descriptor range overflows'',
            ''output capacity exceeded'', ''firmware descriptors overlap'', ''empty memory map''] ! nat err
      else ''unknown'')"

section \<open>Collecting\<close>

definition region_of :: "efi_memory_descriptor \<Rightarrow> nx_mem_region" where
  "region_of d = \<lparr>mr_base = ed_PhysicalStart d, mr_length = ed_NumberOfPages d * NX_PAGE_SIZE,
     mr_type = nx_mmap_translate_type (ed_Type d), mr_flags = 0\<rparr>"

definition descs :: "bytes \<Rightarrow> nat list \<Rightarrow> efi_memory_descriptor list" where
  "descs b offs = filter (\<lambda>d. ed_NumberOfPages d \<noteq> 0) (map (descriptor_at b) offs)"

definition desc_exact :: "efi_memory_descriptor \<Rightarrow> bool" where
  "desc_exact d \<longleftrightarrow> region_wf (region_of d) \<and> unat (mr_length (region_of d)) = unat (ed_NumberOfPages d) * 4096"

lemma region_of_wf:
  assumes "ed_NumberOfPages d \<noteq> 0" and "\<not> ed_PhysicalStart d AND (NX_PAGE_SIZE - 1) \<noteq> 0"
    and "\<not> ed_NumberOfPages d > (- 1 - ed_PhysicalStart d) div NX_PAGE_SIZE"
  shows "region_wf (region_of d)" and "unat (mr_length (region_of d)) = unat (ed_NumberOfPages d) * 4096"
proof -
  define p where "p = unat (ed_NumberOfPages d)"
  define a where "a = unat (ed_PhysicalStart d)"
  have "p \<le> (18446744073709551615 - a) div 4096"
    using assms(3) by (simp add: word_less_nat_alt unat_div unat_max_sub p_def a_def)
  then have m: "p * 4096 \<le> 18446744073709551615 - a" using div_times_less_eq_dividend mult_le_mono1 order_trans by blast
  have p0: "0 < p" using assms(1) by (simp add: p_def unat_gt_0)
  have "a < 18446744073709551616" using unat_u64_less a_def by simp
  then have l: "a + p * 4096 < 18446744073709551616" using m p0 by linarith
  show len: "unat (mr_length (region_of d)) = unat (ed_NumberOfPages d) * 4096"
    using l by (simp add: region_of_def unat_mult_small p_def)
  have "a mod 4096 = 0" using assms(2) by (simp add: a_def and_4095_zero)
  then show "region_wf (region_of d)"
    using l p0 len by (simp add: region_wf_def mr_lo_def mr_hi_def region_of_def a_def p_def)
qed

lemma mmap_collect_ok:
  assumes "mmap_collect b cap offs out n = (NX_MMAP_OK, out', n')"
    and "length out = unat cap" and "n \<le> cap"
  shows "length out' = unat cap \<and> n' \<le> cap
    \<and> take (unat n') out' = take (unat n) out @ map region_of (descs b offs)
    \<and> (\<forall>d \<in> set (descs b offs). desc_exact d)"
  using assms
proof (induction offs arbitrary: out n)
  case Nil
  then show ?case by (simp add: descs_def)
next
  case (Cons off offs)
  define d where "d = descriptor_at b off"
  show ?case
  proof (cases "ed_NumberOfPages d = 0")
    case True
    then show ?thesis using Cons by (simp add: d_def descs_def)
  next
    case False
    have g: "\<not> ed_PhysicalStart d AND (NX_PAGE_SIZE - 1) \<noteq> 0"
      "\<not> ed_NumberOfPages d > (- 1 - ed_PhysicalStart d) div NX_PAGE_SIZE" "n \<noteq> cap"
      "mmap_collect b cap offs (out[unat n := region_of d]) (n + 1) = (NX_MMAP_OK, out', n')"
      using Cons.prems(1) False by (simp_all add: d_def Let_def region_of_def split: if_splits)
    have lt: "n < cap" using g(3) Cons.prems(3) by simp
    then have n1: "unat (n + 1) = unat n + 1"
      using unat_u32_less [of cap] by (subst unat_add_small) (auto simp: word_less_nat_alt)
    have "take (unat (n + 1)) (out[unat n := region_of d]) = take (unat n) out @ [region_of d]"
      using lt Cons.prems(2) by (simp add: n1 word_less_nat_alt take_Suc_conv_app_nth)
    moreover have "descs b (off # offs) = d # descs b offs" using False by (simp add: descs_def d_def)
    moreover have "n + 1 \<le> cap" using lt n1 by (simp add: word_less_nat_alt word_le_nat_alt)
    ultimately show ?thesis
      using Cons.IH [OF g(4)] Cons.prems(2) region_of_wf [OF False g(1,2)] by (auto simp: desc_exact_def)
  qed
qed

section \<open>Sorting\<close>

definition by_base :: "nx_mem_region list \<Rightarrow> bool" where
  "by_base xs \<longleftrightarrow> sorted_wrt (\<lambda>a b. mr_base a \<le> mr_base b) xs"

lemma mmap_sink_spec:
  assumes "j < length out" and "by_base (take j out)"
  shows "length (mmap_sink out r j) = length out \<and> drop (Suc j) (mmap_sink out r j) = drop (Suc j) out
    \<and> mset (take (Suc j) (mmap_sink out r j)) = mset (take j out) + {#r#}
    \<and> by_base (take (Suc j) (mmap_sink out r j))"
  using assms
proof (induction j arbitrary: out)
  case 0
  then show ?case by (cases out) (simp_all add: by_base_def)
next
  case (Suc j)
  have t: "take (Suc j) out = take j out @ [out ! j]" using Suc.prems(1) by (simp add: take_Suc_conv_app_nth)
  have so: "by_base (take j out)" "\<forall>x \<in> set (take j out). mr_base x \<le> mr_base (out ! j)"
    using Suc.prems(2) by (simp_all add: by_base_def t sorted_wrt_append)
  show ?case
  proof (cases "mr_base (out ! j) > mr_base r")
    case True
    define o1 where "o1 = out[Suc j := out ! j]"
    define q where "q = mmap_sink o1 r j"
    have ih: "length q = length out" "drop (Suc j) q = drop (Suc j) o1"
      "mset (take (Suc j) q) = mset (take j out) + {#r#}" "by_base (take (Suc j) q)"
      using Suc.IH [of o1] Suc.prems(1) so(1) by (simp_all add: o1_def q_def)
    have d: "drop (Suc j) q = out ! j # drop (Suc (Suc j)) out"
      using ih(2) Suc.prems(1) by (simp add: o1_def Cons_nth_drop_Suc [symmetric])
    have nth: "q ! Suc j = out ! j" using d ih(1) Suc.prems(1) by (metis hd_drop_conv_nth list.sel(1))
    then have tq: "take (Suc (Suc j)) q = take (Suc j) q @ [out ! j]"
      using ih(1) Suc.prems(1) by (simp add: take_Suc_conv_app_nth)
    have "set (take (Suc j) q) = insert r (set (take j out))"
      using ih(3) by (metis set_mset_add_mset_insert set_mset_mset union_mset_add_mset_right add_0_right)
    then have "by_base (take (Suc (Suc j)) q)"
      using ih(4) so(2) True by (auto simp: by_base_def tq sorted_wrt_append)
    moreover have "mset (take (Suc (Suc j)) q) = mset (take (Suc j) out) + {#r#}" using ih(3) by (simp add: tq t)
    moreover have "drop (Suc (Suc j)) q = drop (Suc (Suc j)) out" using d by (metis drop_Suc list.sel(3) tl_drop)
    moreover have "mmap_sink out r (Suc j) = q" using True by (simp add: q_def o1_def)
    ultimately show ?thesis using ih(1) by simp
  next
    case False
    have "take (Suc (Suc j)) (out[Suc j := r]) = take (Suc j) out @ [r]"
      using Suc.prems(1) by (simp add: take_Suc_conv_app_nth)
    then show ?thesis
      using False so(2) Suc.prems by (auto simp: by_base_def t sorted_wrt_append)
  qed
qed

lemma mmap_sort_spec:
  assumes "n \<le> length out" and "0 < n"
  shows "length (mmap_sort out n) = length out \<and> mset (take n (mmap_sort out n)) = mset (take n out)
    \<and> by_base (take n (mmap_sort out n))"
proof -
  have "length (mmap_sort out k) = length out \<and> drop k (mmap_sort out k) = drop k out
      \<and> mset (take k (mmap_sort out k)) = mset (take k out) \<and> by_base (take k (mmap_sort out k))"
    if "0 < k" "k \<le> n" for k
    using that
  proof (induction k)
    case (Suc k)
    show ?case
    proof (cases "k = 0")
      case True
      then show ?thesis using assms by (cases out) (simp_all add: mmap_sort_def by_base_def)
    next
      case False
      define q where "q = mmap_sort out k"
      have ih: "length q = length out" "drop k q = drop k out" "mset (take k q) = mset (take k out)" "by_base (take k q)"
        using Suc False by (simp_all add: q_def)
      have k: "k < length out" using Suc.prems assms by simp
      have nth: "q ! k = out ! k"
        using ih(2) hd_drop_conv_nth [of k q] hd_drop_conv_nth [OF k] ih(1) k by simp
      have "mmap_sort out (Suc k) = mmap_sink q (q ! k) k" using False by (simp add: mmap_sort_def q_def)
      then show ?thesis
        using mmap_sink_spec [of k q "q ! k"] ih k nth arg_cong [OF ih(2), of tl]
        by (simp add: take_Suc_conv_app_nth [OF k] tl_drop [symmetric] drop_Suc)
    qed
  qed simp
  then show ?thesis using assms by simp
qed

section \<open>Merging\<close>

text \<open>The last loop on lists: \<open>p\<close> is the result so far.\<close>

fun merge_list :: "nx_mem_region list \<Rightarrow> nx_mem_region list \<Rightarrow> nx_mmap_error \<times> nx_mem_region list" where
  "merge_list p [] = (NX_MMAP_OK, p)"
| "merge_list p (r # rs) =
     (if p \<noteq> [] \<and> mr_base r < mr_base (last p) + mr_length (last p) then (NX_MMAP_E_OVERLAP, p)
      else if p \<noteq> [] \<and> mr_base r = mr_base (last p) + mr_length (last p) \<and> mr_type r = mr_type (last p)
        then merge_list (butlast p @ [(last p)\<lparr>mr_length := mr_length (last p) + mr_length r\<rparr>]) rs
      else merge_list (p @ [r]) rs)"

lemma mmap_merge_list:
  assumes "mmap_merge [i..<n] out m = (st, out', m')" and "m \<le> i" and "i \<le> n" and "n \<le> length out"
  shows "merge_list (take m out) (drop i (take n out)) = (st, take m' out') \<and> m' \<le> n"
  using assms
proof (induction "n - i" arbitrary: i out m)
  case 0
  then show ?case by simp
next
  case (Suc k)
  have i: "i < n" using Suc.hyps(2) by simp
  have up: "[i..<n] = i # [Suc i..<n]" using i by (simp add: upt_conv_Cons)
  have dr: "drop i (take n out) = out ! i # drop (Suc i) (take n out)"
    using i Suc.prems(4) by (simp add: Cons_nth_drop_Suc [symmetric])
  have la: "last (take m out) = out ! (m - 1) \<and> take m out \<noteq> []" if "m > 0"
    using that Suc.prems i by (cases m) (simp_all add: take_Suc_conv_app_nth)
  have ne: "(take m out \<noteq> []) = (m > 0)" using Suc.prems i by (cases out) auto
  have ih: "merge_list (take m1 o1) (drop (Suc i) (take n o1)) = (st, take m' out') \<and> m' \<le> n"
    if "mmap_merge [Suc i..<n] o1 m1 = (st, out', m')" "m1 \<le> Suc i" "length o1 = length out" for o1 m1
    by (rule Suc.hyps(1)) (use that Suc.hyps(2) Suc.prems i in auto)
  consider (ov) "m > 0" "mr_base (out ! i) < mr_base (out ! (m - 1)) + mr_length (out ! (m - 1))"
    | (mg) "m > 0" "\<not> mr_base (out ! i) < mr_base (out ! (m - 1)) + mr_length (out ! (m - 1))"
        "mr_base (out ! i) = mr_base (out ! (m - 1)) + mr_length (out ! (m - 1)) \<and> mr_type (out ! i) = mr_type (out ! (m - 1))"
    | (ap) "\<not> (m > 0 \<and> mr_base (out ! i) < mr_base (out ! (m - 1)) + mr_length (out ! (m - 1)))"
        "\<not> (m > 0 \<and> mr_base (out ! i) = mr_base (out ! (m - 1)) + mr_length (out ! (m - 1)) \<and> mr_type (out ! i) = mr_type (out ! (m - 1)))"
    by blast
  then show ?case
  proof cases
    case ov
    then show ?thesis using Suc.prems i la up dr by simp
  next
    case mg
    define o1 where "o1 = out[m - 1 := (out ! (m - 1))\<lparr>mr_length := mr_length (out ! (m - 1)) + mr_length (out ! i)\<rparr>]"
    have t: "take m o1 = butlast (take m out) @ [(out ! (m - 1))\<lparr>mr_length := mr_length (out ! (m - 1)) + mr_length (out ! i)\<rparr>]"
      using mg(1) Suc.prems i by (cases m) (simp_all add: o1_def take_Suc_conv_app_nth)
    have d: "drop (Suc i) (take n o1) = drop (Suc i) (take n out)"
      using mg(1) Suc.prems by (simp add: o1_def take_update_swap)
    have "mmap_merge [Suc i..<n] o1 m = (st, out', m')" using Suc.prems(1) mg up by (simp add: o1_def)
    then show ?thesis using ih [of o1 m] mg la t d Suc.prems dr by (simp add: o1_def)
  next
    case ap
    define o1 where "o1 = out[m := out ! i]"
    have t: "take (m + 1) o1 = take m out @ [out ! i]"
      using Suc.prems i by (simp add: o1_def take_Suc_conv_app_nth)
    have d: "drop (Suc i) (take n o1) = drop (Suc i) (take n out)"
      using Suc.prems by (simp add: o1_def take_update_swap)
    have "mmap_merge [Suc i..<n] o1 (m + 1) = (st, out', m')" using Suc.prems(1) ap up by (auto simp: o1_def)
    then show ?thesis using ih [of o1 "m + 1"] ap la ne t d Suc.prems dr by (auto simp: o1_def)
  qed
qed

text \<open>The addresses of the regions of a type.\<close>

definition type_addrs :: "nx_mem_region list \<Rightarrow> u32 \<Rightarrow> nat set" where
  "type_addrs rs ty = {a. \<exists>r \<in> set rs. mr_type r = ty \<and> in_region a r}"

definition coalesced :: "nx_mem_region list \<Rightarrow> bool" where
  "coalesced rs \<longleftrightarrow> sorted_wrt (\<lambda>a b. \<not> (mr_hi a = mr_lo b \<and> mr_type a = mr_type b)) rs"

lemma regions_wf_snoc: "regions_wf (p @ [r]) \<longleftrightarrow> regions_wf p \<and> region_wf r \<and> (\<forall>x \<in> set p. region_before x r)"
  by (auto simp: regions_wf_def sorted_wrt_append)

lemma merge_two:
  assumes "region_wf x" and "region_wf r" and "mr_base r = mr_base x + mr_length x"
  defines "y \<equiv> x\<lparr>mr_length := mr_length x + mr_length r\<rparr>"
  shows "region_wf y" and "mr_lo y = mr_lo x" and "mr_hi y = mr_hi r" and "mr_lo r = mr_hi x"
proof -
  have e: "mr_lo r = mr_hi x" using region_end_word [OF assms(1)] assms(3) by (simp add: mr_lo_def)
  then show "mr_lo r = mr_hi x" .
  have l: "unat (mr_length x + mr_length r) = unat (mr_length x) + unat (mr_length r)"
    using assms(1,2) e by (intro unat_add_small) (simp add: region_wf_def mr_lo_def mr_hi_def)
  show "mr_lo y = mr_lo x" by (simp add: y_def mr_lo_def)
  show "mr_hi y = mr_hi r" using l e by (simp add: y_def mr_hi_def mr_lo_def)
  then show "region_wf y"
    using assms(1,2) l e by (simp add: region_wf_def y_def mr_lo_def mr_hi_def mod_eq_0_iff_dvd)
qed

lemma type_addrs_append: "type_addrs (p @ q) ty = type_addrs p ty \<union> type_addrs q ty"
  by (auto simp: type_addrs_def)

lemma type_addrs_cong: "set p = set q \<Longrightarrow> type_addrs p = type_addrs q"
  by (simp add: type_addrs_def fun_eq_iff)

lemma merge_snoc:
  assumes "regions_wf (p @ [x])" and "coalesced (p @ [x])" and "region_wf r" and "mr_hi x \<le> mr_lo r"
    and "\<not> (mr_hi x = mr_lo r \<and> mr_type x = mr_type r)"
  shows "regions_wf (p @ [x, r])" and "coalesced (p @ [x, r])"
proof -
  have w: "\<forall>y \<in> set p. mr_hi y \<le> mr_lo x" "mr_lo x < mr_hi x"
    using assms(1) by (auto simp: regions_wf_snoc region_before_def region_wf_def mr_lo_def mr_hi_def)
  then show "regions_wf (p @ [x, r])"
    using assms(1,3,4) regions_wf_snoc [of "p @ [x]" r] by (auto simp: region_before_def)
  show "coalesced (p @ [x, r])"
    using assms(2,4,5) w by (force simp: coalesced_def sorted_wrt_append)
qed

lemma merge_join:
  assumes "regions_wf (p @ [x])" and "coalesced (p @ [x])" and "region_wf r"
    and "mr_base r = mr_base x + mr_length x" and "mr_type r = mr_type x"
  defines "y \<equiv> x\<lparr>mr_length := mr_length x + mr_length r\<rparr>"
  shows "regions_wf (p @ [y])" and "coalesced (p @ [y])" and "type_addrs (p @ [y]) ty = type_addrs (p @ [x, r]) ty"
proof -
  have x: "region_wf x" using assms(1) by (simp add: regions_wf_snoc)
  note m = merge_two [OF x assms(3,4), folded y_def]
  have t: "mr_type y = mr_type x" by (simp add: y_def)
  show "regions_wf (p @ [y])" using assms(1) m by (simp add: regions_wf_snoc region_before_def)
  show "coalesced (p @ [y])" using assms(2) m(2) t by (simp add: coalesced_def sorted_wrt_append)
  have "mr_lo x \<le> mr_hi x" "mr_lo r \<le> mr_hi r" by (simp_all add: mr_hi_def mr_lo_def)
  then have "in_region a y \<longleftrightarrow> in_region a x \<or> in_region a r" for a
    using m by (auto simp: in_region_def)
  then show "type_addrs (p @ [y]) ty = type_addrs (p @ [x, r]) ty"
    using t assms(5) by (auto simp: type_addrs_def)
qed

lemma merge_list_ok:
  assumes "merge_list p rs = (NX_MMAP_OK, q)" and "regions_wf p" and "coalesced p" and "\<forall>r \<in> set rs. region_wf r"
  shows "regions_wf q \<and> coalesced q \<and> (\<forall>ty. type_addrs q ty = type_addrs (p @ rs) ty)"
  using assms
proof (induction rs arbitrary: p)
  case Nil
  then show ?case by simp
next
  case (Cons r rs)
  have r: "region_wf r" using Cons.prems(4) by simp
  show ?case
  proof (cases p rule: rev_cases)
    case Nil
    then have "merge_list [r] rs = (NX_MMAP_OK, q)" using Cons.prems(1) by simp
    from Cons.IH [OF this] show ?thesis
      using r Cons.prems(4) Nil by (simp add: regions_wf_def coalesced_def)
  next
    case (snoc p' x)
    have x: "region_wf x" using Cons.prems(2) snoc by (simp add: regions_wf_snoc)
    have e: "unat (mr_base x + mr_length x) = mr_hi x" using region_end_word [OF x] .
    have ge: "\<not> mr_base r < mr_base x + mr_length x" using Cons.prems(1) snoc by (auto split: if_splits)
    show ?thesis
    proof (cases "mr_base r = mr_base x + mr_length x \<and> mr_type r = mr_type x")
      case True
      note j = merge_join [OF Cons.prems(2,3) [unfolded snoc] r conjunct1 [OF True] conjunct2 [OF True]]
      have "merge_list (p' @ [x\<lparr>mr_length := mr_length x + mr_length r\<rparr>]) rs = (NX_MMAP_OK, q)"
        using Cons.prems(1) snoc True ge by simp
      from Cons.IH [OF this j(1,2)] show ?thesis
        using Cons.prems(4) snoc j(3)
          type_addrs_append [of "p' @ [x\<lparr>mr_length := mr_length x + mr_length r\<rparr>]" rs]
          type_addrs_append [of "p' @ [x, r]" rs] by simp
    next
      case False
      have h: "mr_hi x \<le> mr_lo r" "\<not> (mr_hi x = mr_lo r \<and> mr_type x = mr_type r)"
        using ge False e by (auto simp: word_less_nat_alt mr_lo_def word_unat_eq_iff)
      have "merge_list (p' @ [x, r]) rs = (NX_MMAP_OK, q)"
        using Cons.prems(1) snoc False ge by (auto split: if_splits)
      from Cons.IH [OF this merge_snoc [OF Cons.prems(2,3) [unfolded snoc] r h]] show ?thesis
        using Cons.prems(4) snoc by simp
    qed
  qed
qed

section \<open>The whole conversion\<close>

definition efi_descs :: "bytes \<Rightarrow> u64 \<Rightarrow> u64 \<Rightarrow> efi_memory_descriptor set" where
  "efi_descs b map_size desc_size =
     {descriptor_at b (i * unat desc_size) | i. i < unat map_size div unat desc_size}"

lemma merge_list_nonempty: "merge_list p rs = (st, q) \<Longrightarrow> p \<noteq> [] \<or> rs \<noteq> [] \<Longrightarrow> q \<noteq> []"
  by (induction p rs rule: merge_list.induct) (auto split: if_splits)

lemma from_uefi_ok:
  assumes "nx_mmap_from_uefi b map_size desc_size out cap = (NX_MMAP_OK, out', n)" and "length out = unat cap"
  obtains rs where "set rs = region_of ` {d \<in> efi_descs b map_size desc_size. ed_NumberOfPages d \<noteq> 0}"
    and "\<forall>d \<in> efi_descs b map_size desc_size. ed_NumberOfPages d \<noteq> 0 \<longrightarrow> desc_exact d" and "rs \<noteq> []"
    and "merge_list [] rs = (NX_MMAP_OK, take (unat n) out')" and "n \<le> cap"
proof -
  define offs where "offs = map (\<lambda>i. i * unat desc_size) [0..<unat map_size div unat desc_size]"
  obtain st1 out1 n1 where c: "mmap_collect b cap offs out 0 = (st1, out1, n1)" by (cases "mmap_collect b cap offs out 0") auto
  obtain st2 out2 m where g: "mmap_merge [0..<unat n1] (mmap_sort out1 (unat n1)) 0 = (st2, out2, m)"
    by (cases "mmap_merge [0..<unat n1] (mmap_sort out1 (unat n1)) 0") auto
  have ok: "st1 = NX_MMAP_OK" "n1 \<noteq> 0" "st2 = NX_MMAP_OK" "out' = out2" "n = of_nat m"
    using assms(1) c g by (simp_all add: nx_mmap_from_uefi_def Let_def offs_def split: if_splits)
  have col: "length out1 = unat cap" "n1 \<le> cap" "take (unat n1) out1 = map region_of (descs b offs)"
    "\<forall>d \<in> set (descs b offs). desc_exact d"
    using mmap_collect_ok [OF c [unfolded ok(1)] assms(2)] by simp_all
  have le: "unat n1 \<le> length out1" using col by (simp add: word_le_nat_alt)
  define rs where "rs = take (unat n1) (mmap_sort out1 (unat n1))"
  have srt: "length (mmap_sort out1 (unat n1)) = length out1" "mset rs = mset (map region_of (descs b offs))"
    using mmap_sort_spec [OF le] ok(2) col(3) by (simp_all add: rs_def unat_gt_0)
  have mg: "merge_list [] rs = (NX_MMAP_OK, take m out2)" "m \<le> unat n1"
    using mmap_merge_list [OF g [unfolded ok(3)]] le srt(1) by (simp_all add: rs_def)
  have m: "unat (of_nat m :: u32) = m" using mg(2) unat_u32_less [of n1] by (simp add: unat_of_nat take_bit_nat_eq_self)
  have sd: "set (descs b offs) = {d \<in> efi_descs b map_size desc_size. ed_NumberOfPages d \<noteq> 0}"
    by (auto simp: descs_def efi_descs_def offs_def)
  have "set rs = set (map region_of (descs b offs))" using srt(2) by (metis set_mset_mset)
  then have s: "set rs = region_of ` {d \<in> efi_descs b map_size desc_size. ed_NumberOfPages d \<noteq> 0}"
    by (simp add: sd)
  show thesis
  proof (rule that [OF s])
    show "\<forall>d \<in> efi_descs b map_size desc_size. ed_NumberOfPages d \<noteq> 0 \<longrightarrow> desc_exact d"
      using col(4) sd by simp
    show "rs \<noteq> []" using ok(2) le srt(1) by (auto simp: rs_def unat_eq_zero)
    show "merge_list [] rs = (NX_MMAP_OK, take (unat n) out')" using mg m ok by simp
    show "n \<le> cap" using mg(2) m ok(5) col(2) by (simp add: word_le_nat_alt)
  qed
qed

lemma region_of_addrs:
  assumes "desc_exact d"
  shows "in_region a (region_of d) \<longleftrightarrow>
    unat (ed_PhysicalStart d) \<le> a \<and> a < unat (ed_PhysicalStart d) + unat (ed_NumberOfPages d) * 4096"
  using assms by (simp add: desc_exact_def in_region_def mr_lo_def mr_hi_def region_of_def)

lemma type_addrs_image:
  "type_addrs rs ty = {a. \<exists>d. d \<in> D \<and> nx_mmap_translate_type (ed_Type d) = ty
      \<and> unat (ed_PhysicalStart d) \<le> a \<and> a < unat (ed_PhysicalStart d) + unat (ed_NumberOfPages d) * 4096}"
  if "set rs = region_of ` {d \<in> D. ed_NumberOfPages d \<noteq> 0}" and "\<forall>d \<in> D. ed_NumberOfPages d \<noteq> 0 \<longrightarrow> desc_exact d"
proof -
  have t: "mr_type (region_of d) = nx_mmap_translate_type (ed_Type d)" for d by (simp add: region_of_def)
  have z: "ed_NumberOfPages d \<noteq> 0" if "unat (ed_PhysicalStart d) \<le> a"
    "a < unat (ed_PhysicalStart d) + unat (ed_NumberOfPages d) * 4096" for a d
    using that by auto
  have "type_addrs rs ty = {a. \<exists>d. d \<in> D \<and> ed_NumberOfPages d \<noteq> 0 \<and> nx_mmap_translate_type (ed_Type d) = ty
      \<and> in_region a (region_of d)}"
    unfolding type_addrs_def that(1) using t by auto
  also have "\<dots> = {a. \<exists>d. d \<in> D \<and> ed_NumberOfPages d \<noteq> 0 \<and> nx_mmap_translate_type (ed_Type d) = ty
      \<and> unat (ed_PhysicalStart d) \<le> a \<and> a < unat (ed_PhysicalStart d) + unat (ed_NumberOfPages d) * 4096}"
    using that(2) region_of_addrs by blast
  finally show ?thesis using z by blast
qed

text \<open>
  C17. When the conversion of a firmware memory map succeeds, the output is a well formed NXBP map
  (aligned, non-empty, sorted, disjoint regions) that fits the buffer and is fully coalesced, and it
  says the same about every address as the firmware map: an address is in an output region of a type
  exactly when some non-empty firmware descriptor that translates to this type contains it.
\<close>

theorem mmap_convert_exact:
  assumes "nx_mmap_from_uefi b map_size desc_size out cap = (NX_MMAP_OK, out', n)" and "length out = unat cap"
  shows "0 < n \<and> n \<le> cap \<and> regions_wf (take (unat n) out') \<and> coalesced (take (unat n) out')
    \<and> (\<forall>ty. type_addrs (take (unat n) out') ty =
         {a. \<exists>d. d \<in> efi_descs b map_size desc_size \<and> nx_mmap_translate_type (ed_Type d) = ty
               \<and> unat (ed_PhysicalStart d) \<le> a
               \<and> a < unat (ed_PhysicalStart d) + unat (ed_NumberOfPages d) * 4096})"
proof -
  obtain rs where rs: "set rs = region_of ` {d \<in> efi_descs b map_size desc_size. ed_NumberOfPages d \<noteq> 0}"
    "\<forall>d \<in> efi_descs b map_size desc_size. ed_NumberOfPages d \<noteq> 0 \<longrightarrow> desc_exact d" "rs \<noteq> []"
    "merge_list [] rs = (NX_MMAP_OK, take (unat n) out')" "n \<le> cap"
    by (rule from_uefi_ok [OF assms])
  have "\<forall>r \<in> set rs. region_wf r" using rs(1,2) by (auto simp: desc_exact_def)
  then have m: "regions_wf (take (unat n) out')" "coalesced (take (unat n) out')"
    "\<forall>ty. type_addrs (take (unat n) out') ty = type_addrs rs ty"
    using merge_list_ok [OF rs(4)] by (simp_all add: regions_wf_def coalesced_def)
  have "0 < n" using merge_list_nonempty [OF rs(4)] rs(3) by (auto simp: word_gt_0)
  then show ?thesis using m rs(5) type_addrs_image [OF rs(1,2)] by simp
qed

definition ex_efi_map :: bytes where
  "ex_efi_map =
    [7, 0, 0, 0, 0, 0, 0, 0, 0, 80, 0, 0, 0, 0, 0, 0, 0, 0, 0, 0, 0, 0, 0, 0, 2, 0, 0, 0, 0, 0, 0, 0,
     0, 0, 0, 0, 0, 0, 0, 0, 7, 0, 0, 0, 0, 0, 0, 0, 0, 48, 0, 0, 0, 0, 0, 0, 0, 0, 0, 0, 0, 0, 0, 0,
     2, 0, 0, 0, 0, 0, 0, 0, 0, 0, 0, 0, 0, 0, 0, 0, 4, 0, 0, 0, 0, 0, 0, 0, 0, 16, 0, 0, 0, 0, 0, 0,
     0, 0, 0, 0, 0, 0, 0, 0, 1, 0, 0, 0, 0, 0, 0, 0, 0, 0, 0, 0, 0, 0, 0, 0, 7, 0, 0, 0, 0, 0, 0, 0,
     0, 32, 0, 0, 0, 0, 0, 0, 0, 0, 0, 0, 0, 0, 0, 0, 0, 0, 0, 0, 0, 0, 0, 0, 0, 0, 0, 0, 0, 0, 0, 0]"

lemma sink_numeral: "mmap_sink out r (numeral k) =
    (if mr_base (out ! pred_numeral k) > mr_base r
     then mmap_sink (out[numeral k := out ! pred_numeral k]) r (pred_numeral k) else out[numeral k := r])"
  by (simp add: numeral_eq_Suc)

lemma sink_1: "mmap_sink out r (Suc 0) = (if mr_base (out ! 0) > mr_base r then out[Suc 0 := out ! 0, 0 := r] else out[Suc 0 := r])"
  by simp

lemma ex_efi_ok:
  "\<exists>out' n. nx_mmap_from_uefi ex_efi_map 160 40 (replicate 4 \<lparr>mr_base = 0, mr_length = 0, mr_type = 0, mr_flags = 0\<rparr>) 4
     = (NX_MMAP_OK, out', n)"
proof -
  have d: "map (descriptor_at ex_efi_map) [0, 40, 80, 120] =
     [\<lparr>ed_Type = 7, ed_PhysicalStart = 0x5000, ed_VirtualStart = 0, ed_NumberOfPages = 2, ed_Attribute = 0\<rparr>,
      \<lparr>ed_Type = 7, ed_PhysicalStart = 0x3000, ed_VirtualStart = 0, ed_NumberOfPages = 2, ed_Attribute = 0\<rparr>,
      \<lparr>ed_Type = 4, ed_PhysicalStart = 0x1000, ed_VirtualStart = 0, ed_NumberOfPages = 1, ed_Attribute = 0\<rparr>,
      \<lparr>ed_Type = 7, ed_PhysicalStart = 0x2000, ed_VirtualStart = 0, ed_NumberOfPages = 0, ed_Attribute = 0\<rparr>]"
    by (simp add: descriptor_at_def ex_efi_map_def at_evals)
  have s: "[Suc 0..<3] = [1, 2]" "[0..<3] = [0, 1, 2 :: nat]" by (simp_all add: upt_rec)
  show ?thesis
    using d by (simp add: nx_mmap_from_uefi_def Let_def upt_4 evals nx_mmap_translate_type_def mmap_sort_def s sink_numeral
        sink_1)
qed

theorem mmap_convert_exact_witness:
  "\<exists>out' n. nx_mmap_from_uefi ex_efi_map 160 40 (replicate 4 \<lparr>mr_base = 0, mr_length = 0, mr_type = 0, mr_flags = 0\<rparr>) 4
     = (NX_MMAP_OK, out', n) \<and> 0 < n \<and> regions_wf (take (unat n) out') \<and> coalesced (take (unat n) out')"
proof -
  obtain out' n where "nx_mmap_from_uefi ex_efi_map 160 40
      (replicate 4 \<lparr>mr_base = 0, mr_length = 0, mr_type = 0, mr_flags = 0\<rparr>) 4 = (NX_MMAP_OK, out', n)"
    using ex_efi_ok by blast
  then show ?thesis using mmap_convert_exact [of ex_efi_map 160 40 _ 4 out' n] by auto
qed

end
