(* ===== verification/Phys_Mem.thy ===== *)
theory Phys_Mem
  imports Codec
begin

text \<open>
  Physical memory: a byte for every 64-bit address, as the kernel reaches it through the physmap.
  Page-table entries are little-endian 64-bit words in it. The lemmas say what a write leaves alone.
\<close>

type_synonym pmem = "u64 \<Rightarrow> u8"

definition rdq :: "pmem \<Rightarrow> u64 \<Rightarrow> u64" where
  "rdq m a = le_dec (map (\<lambda>i. m (a + of_nat i)) [0..<8])"

definition wrq :: "pmem \<Rightarrow> u64 \<Rightarrow> u64 \<Rightarrow> pmem" where
  "wrq m a v = (\<lambda>x. if unat (x - a) < 8 then le_enc 8 v ! unat (x - a) else m x)"

definition wr_bytes :: "pmem \<Rightarrow> u64 \<Rightarrow> bytes \<Rightarrow> pmem" where
  "wr_bytes m a bs = (\<lambda>x. if unat (x - a) < length bs then bs ! unat (x - a) else m x)"

definition rd_bytes :: "pmem \<Rightarrow> u64 \<Rightarrow> nat \<Rightarrow> bytes" where
  "rd_bytes m a n = map (\<lambda>i. m (a + of_nat i)) [0..<n]"

text \<open>The page of an address, and a page set to zero.\<close>

definition page_of :: "u64 \<Rightarrow> u64" where
  "page_of a = a AND NOT 4095"

definition zero_page :: "pmem \<Rightarrow> u64 \<Rightarrow> pmem" where
  "zero_page m p = wr_bytes m p (replicate 4096 0)"

definition page_base :: "u64 \<Rightarrow> bool" where
  "page_base p \<longleftrightarrow> p AND 4095 = 0"

lemma rdq_wrq_same [simp]: "rdq (wrq m a v) a = v"
proof -
  have "unat (of_nat i :: u64) = i" if "i < 8" for i using that by (simp add: unat_of_nat take_bit_nat_eq_self)
  then have "map (\<lambda>i. wrq m a v (a + of_nat i)) [0..<8] = le_enc 8 v"
    by (intro nth_equalityI) (simp_all add: wrq_def)
  then show ?thesis by (simp add: rdq_def le_dec_enc)
qed

lemma wrq_elsewhere: "8 \<le> unat (x - a) \<Longrightarrow> wrq m a v x = m x"
  by (simp add: wrq_def)

section \<open>Addresses inside a page\<close>

definition at_off :: "u64 \<Rightarrow> nat \<Rightarrow> u64" where
  "at_off p n = p + of_nat n"

lemma page_base_nat: "page_base p \<longleftrightarrow> unat p mod 4096 = 0"
  by (simp add: page_base_def and_4095_zero)

lemma unat_page_of: "unat (page_of a) = unat a - unat a mod 4096"
  unfolding page_of_def by (rule unat_align_down_4096)

lemma page_add:
  assumes "page_base p" and "n < 4096"
  shows "unat (at_off p n) = unat p + n" and "page_of (at_off p n) = p"
proof -
  have n: "unat (of_nat n :: u64) = n" using assms(2) by (simp add: unat_of_nat take_bit_nat_eq_self)
  obtain k where k: "unat p = 4096 * k" using assms(1) unfolding page_base_nat mod_eq_0_iff_dvd by (rule dvdE)
  have "unat p + 4095 < 18446744073709551616" using page_room assms(1) unfolding page_base_nat .
  then have "unat p + unat (of_nat n :: u64) < 2 ^ LENGTH(64)" using n assms(2) by simp
  then have "unat (p + of_nat n) = unat p + unat (of_nat n :: u64)" by (rule unat_add_small)
  then show u: "unat (at_off p n) = unat p + n" unfolding n at_off_def .
  have "unat (page_of (at_off p n)) = unat p" unfolding unat_page_of u k using assms(2) by simp
  then show "page_of (at_off p n) = p" by (rule word_unat_eq_iff [THEN iffD2])
qed

lemma page_eq:
  assumes "page_base p" and "page_base q" and "n < 4096" and "k < 4096" and "at_off p n = at_off q k"
  shows "p = q" and "n = k"
proof -
  show e: "p = q" using page_add(2) [OF assms(1,3)] page_add(2) [OF assms(2,4)] unfolding assms(5) by (rule trans [OF sym])
  have "unat p + n = unat q + k" using page_add(1) [OF assms(1,3)] page_add(1) [OF assms(2,4)] unfolding assms(5) by (rule trans [OF sym])
  then show "n = k" unfolding e by (rule add_left_imp_eq)
qed

lemma page_of_base: "page_base (page_of a)"
  unfolding page_base_nat unat_page_of by (simp add: minus_mod_eq_mult_div)

lemma page_split: "a = at_off (page_of a) (unat a mod 4096)"
proof -
  have "unat (at_off (page_of a) (unat a mod 4096)) = unat a"
    using page_add(1) [OF page_of_base, of "unat a mod 4096" a] unfolding unat_page_of by simp
  then show ?thesis by (rule word_unat_eq_iff [THEN iffD2, symmetric])
qed

text \<open>Entry \<open>i\<close> of the table in page \<open>t\<close>.\<close>

definition pte :: "u64 \<Rightarrow> nat \<Rightarrow> u64" where
  "pte t i = t + 8 * of_nat i"

lemma pte_byte: "pte t i + of_nat k = at_off t (8 * i + k)"
  by (simp add: pte_def at_off_def algebra_simps)

lemma at_off_add: "at_off t n + of_nat k = at_off t (n + k)"
  by (simp add: at_off_def algebra_simps)

definition page_same :: "pmem \<Rightarrow> pmem \<Rightarrow> u64 \<Rightarrow> bool" where
  "page_same m m' p \<longleftrightarrow> (\<forall>n < 4096. m' (at_off p n) = m (at_off p n))"

lemma page_same_refl [simp]: "page_same m m p"
  by (simp add: page_same_def)

lemma page_same_trans: "page_same m m' p \<Longrightarrow> page_same m' m'' p \<Longrightarrow> page_same m m'' p"
  by (simp add: page_same_def)

lemma rdq_cong: "(\<And>k. k < 8 \<Longrightarrow> m' (a + of_nat k) = m (a + of_nat k)) \<Longrightarrow> rdq m' a = rdq m a"
  unfolding rdq_def by (intro arg_cong [where f = le_dec] map_cong) auto

lemma rdq_page_same: "page_same m m' t \<Longrightarrow> i < 512 \<Longrightarrow> rdq m' (pte t i) = rdq m (pte t i)"
  by (rule rdq_cong) (simp add: pte_byte page_same_def)

lemma wrq_hit: "unat (x - a) < 8 \<Longrightarrow> \<exists>d < 8. x = a + of_nat d"
  by (intro exI [of _ "unat (x - a)"]) (simp add: word_of_unat)

lemma wrq_page:
  assumes "page_base t" and "page_base p" and "t \<noteq> p" and "i < 512"
  shows "page_same m (wrq m (pte t i) v) p"
  unfolding page_same_def
proof (intro allI impI)
  fix n :: nat assume n: "n < 4096"
  have "\<not> unat (at_off p n - pte t i) < 8"
  proof
    assume "unat (at_off p n - pte t i) < 8"
    then obtain d where d: "d < 8" "at_off p n = at_off t (8 * i + d)" using wrq_hit pte_byte by metis
    then have "8 * i + d < 4096" using assms(4) by simp
    then show False using page_eq(1) [OF assms(2,1) n _ d(2)] assms(3) by simp
  qed
  then show "wrq m (pte t i) v (at_off p n) = m (at_off p n)" by (simp add: wrq_def)
qed

lemma wrq_other_entry:
  assumes "page_base t" and "i < 512" and "j < 512" and "i \<noteq> j"
  shows "rdq (wrq m (pte t i) v) (pte t j) = rdq m (pte t j)"
proof (rule rdq_cong)
  fix k :: nat assume k: "k < 8"
  have "\<not> unat (pte t j + of_nat k - pte t i) < 8"
  proof
    assume "unat (pte t j + of_nat k - pte t i) < 8"
    then obtain d where d: "d < 8" "at_off t (8 * j + k) = at_off t (8 * i + d)" using wrq_hit pte_byte by metis
    then have "8 * j + k = 8 * i + d" using page_eq(2) [OF assms(1,1) _ _ d(2)] assms(2,3) k by simp
    then show False using assms(4) k d(1) by simp
  qed
  then show "wrq m (pte t i) v (pte t j + of_nat k) = m (pte t j + of_nat k)" by (simp add: wrq_def)
qed

lemma rdq_wrq:
  assumes "page_base t" and "page_base u" and "i < 512" and "j < 512"
  shows "rdq (wrq m (pte t i) v) (pte u j) = (if t = u \<and> i = j then v else rdq m (pte u j))"
proof (cases "t = u")
  case True
  then show ?thesis using wrq_other_entry [OF assms(1,3,4)] by auto
next
  case False
  then show ?thesis using rdq_page_same [OF wrq_page [OF assms(1,2) False assms(3)] assms(4)] by simp
qed

lemma wr_bytes_page:
  assumes "page_base t" and "page_base p" and "t \<noteq> p" and "n + length bs \<le> 4096"
  shows "page_same m (wr_bytes m (at_off t n) bs) p"
  unfolding page_same_def
proof (intro allI impI)
  fix k :: nat assume k: "k < 4096"
  have "\<not> unat (at_off p k - at_off t n) < length bs"
  proof
    define d where "d = unat (at_off p k - at_off t n)"
    assume "unat (at_off p k - at_off t n) < length bs"
    then have nd: "n + d < 4096" using assms(4) by (simp add: d_def)
    have e: "at_off p k = at_off t (n + d)" by (simp add: d_def word_of_unat flip: at_off_add)
    show False using page_eq(1) [OF assms(2,1) k nd e] assms(3) by simp
  qed
  then show "wr_bytes m (at_off t n) bs (at_off p k) = m (at_off p k)" by (simp add: wr_bytes_def)
qed

lemma zero_page_other: "page_base t \<Longrightarrow> page_base p \<Longrightarrow> t \<noteq> p \<Longrightarrow> page_same m (zero_page m t) p"
  using wr_bytes_page [of t p 0 "replicate 4096 0" m] by (simp add: zero_page_def at_off_def)

lemma zero_page_byte: "n < 4096 \<Longrightarrow> zero_page m p (at_off p n) = 0"
  by (simp add: zero_page_def wr_bytes_def at_off_def unat_of_nat take_bit_nat_eq_self)

lemma rdq_zero_page: "i < 512 \<Longrightarrow> rdq (zero_page m t) (pte t i) = 0"
proof -
  assume "i < 512"
  then have "map (\<lambda>k. zero_page m t (pte t i + of_nat k)) [0..<8] = map (\<lambda>k. 0) [0..<8]"
    by (intro map_cong) (auto simp: pte_byte zero_page_byte)
  also have "\<dots> = replicate 8 0" by (simp add: map_replicate_const)
  finally show ?thesis by (simp add: rdq_def le_dec_def replicate_numeral)
qed

end
