(* ===== verification/Page_Table.thy ===== *)
theory Page_Table
  imports Phys_Mem Page_Source
begin

text \<open>
  The page-table builder (kernel/mm/pt.c). The callbacks of \<open>struct nx_pt_env\<close> are arguments: the
  page source \<open>alloc\<close> and \<open>free\<close> on its own state; \<open>virt\<close> is the identity on physical memory. A
  pointer to an entry is its physical address.
\<close>

abbreviation ENTRIES :: nat where "ENTRIES \<equiv> 512"
abbreviation NX_PTE_P :: u64 where "NX_PTE_P \<equiv> 0x1"
abbreviation NX_PTE_W :: u64 where "NX_PTE_W \<equiv> 0x2"
abbreviation NX_PTE_U :: u64 where "NX_PTE_U \<equiv> 0x4"
abbreviation NX_PTE_PWT :: u64 where "NX_PTE_PWT \<equiv> 0x8"
abbreviation NX_PTE_PCD :: u64 where "NX_PTE_PCD \<equiv> 0x10"
abbreviation NX_PTE_PS :: u64 where "NX_PTE_PS \<equiv> 0x80"
abbreviation NX_PTE_G :: u64 where "NX_PTE_G \<equiv> 0x100"
abbreviation NX_PTE_OWNED :: u64 where "NX_PTE_OWNED \<equiv> 0x200"
abbreviation NX_PTE_NX :: u64 where "NX_PTE_NX \<equiv> 0x8000000000000000"
abbreviation NX_PTE_ADDR :: u64 where "NX_PTE_ADDR \<equiv> 0x000FFFFFFFFFF000"

definition NX_PT_LEAF_FLAGS :: u64 where
  "NX_PT_LEAF_FLAGS = NX_PTE_W OR NX_PTE_U OR NX_PTE_PWT OR NX_PTE_PCD OR NX_PTE_G OR NX_PTE_OWNED OR NX_PTE_NX"

abbreviation NX_PAGE_4K :: u64 where "NX_PAGE_4K \<equiv> 0x1000"
abbreviation NX_PAGE_2M :: u64 where "NX_PAGE_2M \<equiv> 0x200000"
abbreviation NX_PAGE_1G :: u64 where "NX_PAGE_1G \<equiv> 0x40000000"
abbreviation NX_PHYS_MAX :: u64 where "NX_PHYS_MAX \<equiv> 0x10000000000000"

datatype nx_pt_status =
    NX_PT_OK | NX_PT_E_ALIGN | NX_PT_E_NONCANONICAL | NX_PT_E_EXISTS | NX_PT_E_NOMEM | NX_PT_E_NOT_MAPPED
  | NX_PT_E_FLAGS | NX_PT_E_SIZE | NX_PT_E_RANGE

text \<open>Level 3 is the PML4, level 0 the page table.\<close>

definition index_of :: "u64 \<Rightarrow> nat \<Rightarrow> nat" where
  "index_of va level = unat (drop_bit (12 + 9 * level) va AND 511)"

definition nx_pt_is_canonical :: "u64 \<Rightarrow> bool" where
  "nx_pt_is_canonical va \<longleftrightarrow> drop_bit 47 va = 0 \<or> drop_bit 47 va = 0x1FFFF"

definition new_table :: "('s \<Rightarrow> u64 \<times> 's) \<Rightarrow> pmem \<times> 's \<Rightarrow> (nx_pt_status + u64) \<times> pmem \<times> 's" where
  "new_table alloc = (\<lambda>(m, s).
     let (p, s) = alloc s in
     if p = 0 \<or> p AND (NX_PAGE_4K - 1) \<noteq> 0 then (Inl NX_PT_E_NOMEM, m, s)
     else (Inr p, fold (\<lambda>i m. wrq m (pte p i) 0) [0..<ENTRIES] m, s))"

definition nx_pt_new_root :: "('s \<Rightarrow> u64 \<times> 's) \<Rightarrow> pmem \<times> 's \<Rightarrow> (nx_pt_status + u64) \<times> pmem \<times> 's" where
  "nx_pt_new_root alloc = new_table alloc"

text \<open>The loop of \<open>walk_create\<close> from table \<open>t\<close>, \<open>k\<close> levels above the requested one.\<close>

fun walk_create_from ::
    "('s \<Rightarrow> u64 \<times> 's) \<Rightarrow> u64 \<Rightarrow> nat \<Rightarrow> u64 \<Rightarrow> nat \<Rightarrow> u64 \<Rightarrow> pmem \<times> 's \<Rightarrow> (nx_pt_status + u64) \<times> pmem \<times> 's" where
  "walk_create_from alloc va level user 0 t (m, s) = (Inr t, m, s)"
| "walk_create_from alloc va level user (Suc k) t (m, s) =
     (let a = pte t (index_of va (level + Suc k)); e = rdq m a in
      if e AND NX_PTE_P \<noteq> 0 then
        (if e AND NX_PTE_PS \<noteq> 0 then (Inl NX_PT_E_EXISTS, m, s)
         else walk_create_from alloc va level user k ((e OR user) AND NX_PTE_ADDR) (wrq m a (e OR user), s))
      else
        (case new_table alloc (m, s) of
           (Inl st, m, s) \<Rightarrow> (Inl st, m, s)
         | (Inr p, m, s) \<Rightarrow>
             let e = p OR NX_PTE_P OR NX_PTE_W OR user in
             walk_create_from alloc va level user k (e AND NX_PTE_ADDR) (wrq m a e, s)))"

definition walk_create ::
    "('s \<Rightarrow> u64 \<times> 's) \<Rightarrow> u64 \<Rightarrow> u64 \<Rightarrow> nat \<Rightarrow> u64 \<Rightarrow> pmem \<times> 's \<Rightarrow> (nx_pt_status + u64) \<times> pmem \<times> 's" where
  "walk_create alloc root va level user = walk_create_from alloc va level user (3 - level) root"

definition nx_pt_map ::
    "('s \<Rightarrow> u64 \<times> 's) \<Rightarrow> u64 \<Rightarrow> u64 \<Rightarrow> u64 \<Rightarrow> u64 \<Rightarrow> u64 \<Rightarrow> pmem \<times> 's \<Rightarrow> nx_pt_status \<times> pmem \<times> 's" where
  "nx_pt_map alloc root va pa sz flags = (\<lambda>(m, s).
     if sz \<noteq> NX_PAGE_4K \<and> sz \<noteq> NX_PAGE_2M then (NX_PT_E_SIZE, m, s)
     else if (va OR pa) AND (sz - 1) \<noteq> 0 then (NX_PT_E_ALIGN, m, s)
     else if \<not> nx_pt_is_canonical va then (NX_PT_E_NONCANONICAL, m, s)
     else if pa \<ge> NX_PHYS_MAX then (NX_PT_E_RANGE, m, s)
     else if flags AND NOT NX_PT_LEAF_FLAGS \<noteq> 0 then (NX_PT_E_FLAGS, m, s)
     else let level = (if sz = NX_PAGE_2M then 1 else 0) in
     case walk_create alloc root va level (flags AND NX_PTE_U) (m, s) of
       (Inl st, m, s) \<Rightarrow> (st, m, s)
     | (Inr t, m, s) \<Rightarrow>
         let a = pte t (index_of va level) in
         if rdq m a AND NX_PTE_P \<noteq> 0 then (NX_PT_E_EXISTS, m, s)
         else (NX_PT_OK, wrq m a (pa OR flags OR NX_PTE_P OR (if level = 1 then NX_PTE_PS else 0)), s))"

text \<open>The loop of \<open>nx_pt_map_range\<close>; not returning is None.\<close>

partial_function (option) map_range_loop ::
    "('s \<Rightarrow> u64 \<times> 's) \<Rightarrow> u64 \<Rightarrow> u64 \<Rightarrow> u64 \<Rightarrow> u64 \<Rightarrow> u64 \<Rightarrow> bool \<Rightarrow> pmem \<times> 's \<Rightarrow> (nx_pt_status \<times> pmem \<times> 's) option"
where
  "map_range_loop alloc root va pa len flags allow_2m ms =
     (if len = 0 then Some (NX_PT_OK, fst ms, snd ms)
      else let sz = (if allow_2m \<and> (va OR pa) AND (NX_PAGE_2M - 1) = 0 \<and> len \<ge> NX_PAGE_2M
                     then NX_PAGE_2M else NX_PAGE_4K);
               r = nx_pt_map alloc root va pa sz flags ms in
      if fst r \<noteq> NX_PT_OK then Some r
      else map_range_loop alloc root (va + sz) (pa + sz) (len - sz) flags allow_2m (snd r))"

definition nx_pt_map_range ::
    "('s \<Rightarrow> u64 \<times> 's) \<Rightarrow> u64 \<Rightarrow> u64 \<Rightarrow> u64 \<Rightarrow> u64 \<Rightarrow> u64 \<Rightarrow> bool \<Rightarrow> pmem \<times> 's \<Rightarrow> (nx_pt_status \<times> pmem \<times> 's) option"
where
  "nx_pt_map_range alloc root va pa len flags allow_2m ms =
     (if (va OR pa OR len) AND (NX_PAGE_4K - 1) \<noteq> 0 then Some (NX_PT_E_ALIGN, fst ms, snd ms)
      else if len \<noteq> 0 \<and> (va > - 1 - len \<or> pa > - 1 - len) then Some (NX_PT_E_RANGE, fst ms, snd ms)
      else map_range_loop alloc root va pa len flags allow_2m ms)"

text \<open>The loop of \<open>find_leaf\<close> from the level-\<open>l\<close> table \<open>t\<close>: the address and size of the leaf entry.\<close>

fun find_leaf_from :: "pmem \<Rightarrow> u64 \<Rightarrow> nat \<Rightarrow> u64 \<Rightarrow> nx_pt_status + u64 \<times> u64" where
  "find_leaf_from m va 0 t =
     (let a = pte t (index_of va 0) in
      if rdq m a AND NX_PTE_P = 0 then Inl NX_PT_E_NOT_MAPPED else Inr (a, NX_PAGE_4K))"
| "find_leaf_from m va (Suc l) t =
     (let a = pte t (index_of va (Suc l)); e = rdq m a in
      if e AND NX_PTE_P = 0 then Inl NX_PT_E_NOT_MAPPED
      else if e AND NX_PTE_PS \<noteq> 0 \<and> (Suc l = 1 \<or> Suc l = 2)
        then Inr (a, if Suc l = 1 then NX_PAGE_2M else NX_PAGE_1G)
      else find_leaf_from m va l (e AND NX_PTE_ADDR))"

definition find_leaf :: "pmem \<Rightarrow> u64 \<Rightarrow> u64 \<Rightarrow> nx_pt_status + u64 \<times> u64" where
  "find_leaf m root va =
     (if \<not> nx_pt_is_canonical va then Inl NX_PT_E_NONCANONICAL else find_leaf_from m va 3 root)"

text \<open>The physical base and the size of the removed leaf.\<close>

definition nx_pt_unmap :: "u64 \<Rightarrow> u64 \<Rightarrow> pmem \<Rightarrow> (nx_pt_status + u64 \<times> u64) \<times> pmem" where
  "nx_pt_unmap root va m =
     (case find_leaf m root va of
        Inl st \<Rightarrow> (Inl st, m)
      | Inr (a, sz) \<Rightarrow> (Inr (rdq m a AND NX_PTE_ADDR AND NOT (sz - 1), sz), wrq m a 0))"

text \<open>The physical address, the leaf flags and the size.\<close>

definition nx_pt_query :: "u64 \<Rightarrow> u64 \<Rightarrow> pmem \<Rightarrow> nx_pt_status + u64 \<times> u64 \<times> u64" where
  "nx_pt_query root va m =
     (case find_leaf m root va of
        Inl st \<Rightarrow> Inl st
      | Inr (a, sz) \<Rightarrow>
          Inr ((rdq m a AND NX_PTE_ADDR AND NOT (sz - 1)) + (va AND (sz - 1)), rdq m a AND NOT NX_PTE_ADDR, sz))"

text \<open>
  The teardown: the loops over a page table, a page directory and a page directory pointer table.
  The callbacks act on the page source only.
\<close>

definition destroy_pt :: "(u64 \<Rightarrow> u64 \<Rightarrow> u64 \<Rightarrow> 's \<Rightarrow> 's) \<Rightarrow> pmem \<Rightarrow> u64 \<Rightarrow> 's \<Rightarrow> 's" where
  "destroy_pt leaf m pt s = fold (\<lambda>l s.
     let e = rdq m (pte pt l) in
     if e AND NX_PTE_P \<noteq> 0 then leaf (e AND NX_PTE_ADDR) (e AND NOT NX_PTE_ADDR) NX_PAGE_4K s else s)
     [0..<ENTRIES] s"

definition destroy_pd ::
    "('s \<Rightarrow> u64 \<Rightarrow> 's) \<Rightarrow> (u64 \<Rightarrow> u64 \<Rightarrow> u64 \<Rightarrow> 's \<Rightarrow> 's) \<Rightarrow> pmem \<Rightarrow> u64 \<Rightarrow> 's \<Rightarrow> 's" where
  "destroy_pd free leaf m pd s = fold (\<lambda>k s.
     let e2 = rdq m (pte pd k) in
     if e2 AND NX_PTE_P = 0 then s
     else if e2 AND NX_PTE_PS \<noteq> 0
       then leaf (e2 AND NX_PTE_ADDR AND NOT (NX_PAGE_2M - 1)) (e2 AND NOT NX_PTE_ADDR) NX_PAGE_2M s
     else free (destroy_pt leaf m (e2 AND NX_PTE_ADDR) s) (e2 AND NX_PTE_ADDR)) [0..<ENTRIES] s"

definition destroy_pdpt ::
    "('s \<Rightarrow> u64 \<Rightarrow> 's) \<Rightarrow> (u64 \<Rightarrow> u64 \<Rightarrow> u64 \<Rightarrow> 's \<Rightarrow> 's) \<Rightarrow> pmem \<Rightarrow> u64 \<Rightarrow> 's \<Rightarrow> 's" where
  "destroy_pdpt free leaf m pdpt s = fold (\<lambda>j s.
     let e3 = rdq m (pte pdpt j) in
     if e3 AND NX_PTE_P = 0 then s
     else if e3 AND NX_PTE_PS \<noteq> 0
       then leaf (e3 AND NX_PTE_ADDR AND NOT (NX_PAGE_1G - 1)) (e3 AND NOT NX_PTE_ADDR) NX_PAGE_1G s
     else free (destroy_pd free leaf m (e3 AND NX_PTE_ADDR) s) (e3 AND NX_PTE_ADDR)) [0..<ENTRIES] s"

definition nx_pt_destroy_slots ::
    "('s \<Rightarrow> u64 \<Rightarrow> 's) \<Rightarrow> (u64 \<Rightarrow> u64 \<Rightarrow> u64 \<Rightarrow> 's \<Rightarrow> 's) \<Rightarrow> u64 \<Rightarrow> nat \<Rightarrow> nat \<Rightarrow> pmem \<times> 's \<Rightarrow> pmem \<times> 's" where
  "nx_pt_destroy_slots free leaf root first last' = fold (\<lambda>i (m, s).
     let e = rdq m (pte root i) in
     if e AND NX_PTE_P = 0 then (m, s)
     else (wrq m (pte root i) 0, free (destroy_pdpt free leaf m (e AND NX_PTE_ADDR) s) (e AND NX_PTE_ADDR)))
     [first..<min (last' + 1) ENTRIES]"

definition nx_pt_strerror :: "int \<Rightarrow> string" where
  "nx_pt_strerror st =
     (if 0 \<le> st \<and> st < 9
      then [''ok'', ''E_ALIGN'', ''E_NONCANONICAL'', ''E_EXISTS'', ''E_NOMEM'', ''E_NOT_MAPPED'', ''E_FLAGS'',
            ''E_SIZE'', ''E_RANGE''] ! nat st
      else ''E_UNKNOWN'')"

end
