(* ===== verification/Pt_Tree.thy ===== *)
theory Pt_Tree
  imports Page_Table "HOL-Library.Sublist"
begin

text \<open>
  The tables of an address space as a tree: paths of entry indices from the root, the table and the
  leaf a path leads to, and what a single write does to them as long as no table is reached by two
  paths. The memory is abstract (locale \<open>entry_store\<close>) and interpreted on the physical memory.
\<close>

definition is_link :: "u64 \<Rightarrow> bool" where
  "is_link e \<longleftrightarrow> e AND NX_PTE_P \<noteq> 0 \<and> e AND NX_PTE_PS = 0"

definition link :: "u64 \<Rightarrow> u64" where
  "link e = e AND NX_PTE_ADDR"

fun tb :: "('m \<Rightarrow> u64 \<Rightarrow> nat \<Rightarrow> u64) \<Rightarrow> 'm \<Rightarrow> u64 \<Rightarrow> nat list \<Rightarrow> u64 option" where
  "tb rd m t [] = Some t"
| "tb rd m t (i # p) = (if is_link (rd m t i) then tb rd m (link (rd m t i)) p else None)"

text \<open>The leaf of a path: its table, index, entry and level.\<close>

fun lk :: "('m \<Rightarrow> u64 \<Rightarrow> nat \<Rightarrow> u64) \<Rightarrow> 'm \<Rightarrow> u64 \<Rightarrow> nat list \<Rightarrow> (u64 \<times> nat \<times> u64 \<times> nat) option" where
  "lk rd m t [] = None"
| "lk rd m t (i # p) =
     (if rd m t i AND NX_PTE_P = 0 then None
      else if p = [] \<or> rd m t i AND NX_PTE_PS \<noteq> 0 \<and> (length p = 1 \<or> length p = 2)
        then Some (t, i, rd m t i, length p)
      else lk rd m (link (rd m t i)) p)"

definition path_ok :: "nat \<Rightarrow> nat list \<Rightarrow> bool" where
  "path_ok n p \<longleftrightarrow> length p \<le> n \<and> (\<forall>i \<in> set p. i < ENTRIES)"

lemma path_ok_append: "path_ok n (p @ q) \<Longrightarrow> path_ok n p \<and> path_ok n q"
  by (auto simp: path_ok_def)

definition tree_ok :: "('m \<Rightarrow> u64 \<Rightarrow> nat \<Rightarrow> u64) \<Rightarrow> (u64 \<Rightarrow> bool) \<Rightarrow> 'm \<Rightarrow> u64 \<Rightarrow> u64 set \<Rightarrow> bool" where
  "tree_ok rd base m root T \<longleftrightarrow>
     (\<forall>p t. path_ok 3 p \<and> tb rd m root p = Some t \<longrightarrow> t \<in> T \<and> base t)
     \<and> (\<forall>p q t. path_ok 3 p \<and> path_ok 3 q \<and> tb rd m root p = Some t \<and> tb rd m root q = Some t \<longrightarrow> p = q)
     \<and> (\<forall>i < ENTRIES. rd m root i AND NX_PTE_P \<noteq> 0 \<longrightarrow> rd m root i AND NX_PTE_PS = 0)"

lemma tb_append: "tb rd m t (p @ q) = (case tb rd m t p of None \<Rightarrow> None | Some u \<Rightarrow> tb rd m u q)"
  by (induction p arbitrary: t) auto

lemma lk_append: "tb rd m t p = Some u \<Longrightarrow> r \<noteq> [] \<Longrightarrow> lk rd m t (p @ r) = lk rd m u r"
  by (induction p arbitrary: t) (auto simp: is_link_def split: if_splits)

lemma tb_take: "tb rd m t p = Some u \<Longrightarrow> \<exists>v. tb rd m t (take n p) = Some v"
  by (metis append_take_drop_id option.exhaust option.simps(4) tb_append)

lemma tree_ok_table:
  assumes "tree_ok rd base m root T" and "path_ok 3 p" and "tb rd m root p = Some t"
  shows "t \<in> T" and "base t"
  using assms by (auto simp: tree_ok_def)

lemma tree_ok_root:
  assumes "tree_ok rd base m root T"
  shows "root \<in> T" and "base root"
  using tree_ok_table [OF assms, of "[]"] by (simp_all add: path_ok_def)

lemma tree_ok_cong:
  assumes "tree_ok rd base m root T" and "\<And>q. path_ok 3 q \<Longrightarrow> tb rd m' root q = tb rd m root q"
    and "\<And>i. i < ENTRIES \<Longrightarrow> rd m' root i AND NX_PTE_P \<noteq> 0 \<Longrightarrow> rd m' root i AND NX_PTE_PS = 0"
  shows "tree_ok rd base m' root T"
  unfolding tree_ok_def
proof (intro conjI allI impI)
  fix p t assume "path_ok 3 p \<and> tb rd m' root p = Some t"
  then show "t \<in> T" "base t" using tree_ok_table [OF assms(1)] assms(2) by auto
next
  fix p q t assume a: "path_ok 3 p \<and> path_ok 3 q \<and> tb rd m' root p = Some t \<and> tb rd m' root q = Some t"
  then have "tb rd m root p = Some t" "tb rd m root q = Some t" using assms(2) by auto
  then show "p = q" using a assms(1) unfolding tree_ok_def by blast
qed (use assms(3) in simp)

text \<open>A walk depends only on the entries it reads.\<close>

lemma walk_reads:
  assumes "tree_ok rd base m root T" and "path_ok 4 (q @ r)" and "tb rd m root q = Some u" and "length q \<le> 3 \<or> r = []"
    and "\<And>x j y w. q @ r = x @ j # y \<Longrightarrow> length q \<le> length x \<Longrightarrow> tb rd m root x = Some w \<Longrightarrow> rd m' w j = rd m w j"
  shows "lk rd m' u r = lk rd m u r \<and> (length (q @ r) \<le> 3 \<longrightarrow> tb rd m' u r = tb rd m u r)"
  using assms(2-5)
proof (induction r arbitrary: q u)
  case (Cons j r)
  have q: "path_ok 3 q" "j < ENTRIES" using Cons.prems(1,3) by (auto simp: path_ok_def)
  have rd: "rd m' u j = rd m u j" using Cons.prems(4) [of q j r] Cons.prems(2) by simp
  have link_ok: "is_link (rd m u j) \<longrightarrow> tb rd m root (q @ [j]) = Some (link (rd m u j))"
    using Cons.prems(2) by (simp add: tb_append)
  have top: "is_link (rd m u j)" if "rd m u j AND NX_PTE_P \<noteq> 0" "r \<noteq> []"
      "\<not> (rd m u j AND NX_PTE_PS \<noteq> 0 \<and> (length r = 1 \<or> length r = 2))"
  proof (cases "length r = 1 \<or> length r = 2")
    case True
    then show ?thesis using that by (simp add: is_link_def)
  next
    case False
    moreover have "0 < length r" using that(2) by simp
    moreover have "length q + length r \<le> 3" using Cons.prems(1) by (simp add: path_ok_def)
    ultimately have "length q = 0" by linarith
    then have "q = []" by simp
    then show ?thesis using assms(1) that(1) q(2) Cons.prems(2) by (auto simp: tree_ok_def is_link_def)
  qed
  have l: "r = [] \<or> length q \<le> 2" using Cons.prems(1) by (cases r) (auto simp: path_ok_def)
  have ih: "lk rd m' (link (rd m u j)) r = lk rd m (link (rd m u j)) r
      \<and> (length ((q @ [j]) @ r) \<le> 3 \<longrightarrow> tb rd m' (link (rd m u j)) r = tb rd m (link (rd m u j)) r)"
    if "is_link (rd m u j)"
    by (rule Cons.IH [of "q @ [j]"]) (use that link_ok l Cons.prems in \<open>auto simp: path_ok_def\<close>)
  show ?case using ih rd top by (auto simp: is_link_def)
qed simp

lemma walk_mem:
  assumes "tree_ok rd base m root T" and "\<And>u j. u \<in> T \<Longrightarrow> base u \<Longrightarrow> j < ENTRIES \<Longrightarrow> rd m' u j = rd m u j"
  shows "path_ok 4 r \<Longrightarrow> lk rd m' root r = lk rd m root r"
    and "path_ok 3 r \<Longrightarrow> tb rd m' root r = tb rd m root r"
    and "tree_ok rd base m' root T"
proof -
  have w: "lk rd m' root r = lk rd m root r \<and> (length r \<le> 3 \<longrightarrow> tb rd m' root r = tb rd m root r)" if "path_ok 4 r" for r
  proof (rule walk_reads [of rd base m root T "[]" r root m', simplified])
    fix x j y w assume e: "r = x @ j # y" "tb rd m root x = Some w"
    then have "path_ok 3 x" "j < ENTRIES" using that by (auto simp: path_ok_def)
    then show "rd m' w j = rd m w j" using assms(2) tree_ok_table [OF assms(1)] e(2) by blast
  qed (use assms(1) that in auto)
  then show "path_ok 4 r \<Longrightarrow> lk rd m' root r = lk rd m root r" by simp
  show tbs: "tb rd m' root r = tb rd m root r" if "path_ok 3 r" for r using w [of r] that by (simp add: path_ok_def)
  show "tree_ok rd base m' root T"
    using assms tree_ok_root [OF assms(1)] by (intro tree_ok_cong [OF assms(1) tbs]) (auto simp: tree_ok_def)
qed

locale entry_store =
  fixes rd :: "'m \<Rightarrow> u64 \<Rightarrow> nat \<Rightarrow> u64"
    and wr :: "'m \<Rightarrow> u64 \<Rightarrow> nat \<Rightarrow> u64 \<Rightarrow> 'm"
    and base :: "u64 \<Rightarrow> bool"
  assumes rd_wr: "base t \<Longrightarrow> base u \<Longrightarrow> i < ENTRIES \<Longrightarrow> j < ENTRIES
      \<Longrightarrow> rd (wr m t i v) u j = (if t = u \<and> i = j then v else rd m u j)"
    and link_base: "base (link e)"
begin

text \<open>A write to entry \<open>i\<close> of the table at path \<open>p\<close> is seen only by walks through that entry.\<close>

lemma walk_frame:
  assumes "tree_ok rd base m root T" and p: "path_ok 3 p" "tb rd m root p = Some t" "i < ENTRIES"
    and "path_ok 4 (q @ r)" and "tb rd m root q = Some u" and "length q \<le> 3 \<or> r = []"
    and "length p < length q \<or> \<not> prefix (p @ [i]) (q @ r)"
  shows "lk rd (wr m t i v) u r = lk rd m u r \<and> (length (q @ r) \<le> 3 \<longrightarrow> tb rd (wr m t i v) u r = tb rd m u r)"
proof (rule walk_reads [OF assms(1,5,6,7)])
  fix x j y w assume x: "q @ r = x @ j # y" "length q \<le> length x" "tb rd m root x = Some w"
  have v: "path_ok 3 x" "j < ENTRIES" using assms(5) unfolding x(1) by (auto simp: path_ok_def)
  have "\<not> (t = w \<and> i = j)"
  proof
    assume a: "t = w \<and> i = j"
    then have "p = x" using assms(1) p v(1) x(3) by (auto simp: tree_ok_def)
    then show False using a x(1,2) assms(8) by (simp add: prefix_def)
  qed
  then show "rd (wr m t i v) w j = rd m w j"
    using rd_wr [OF tree_ok_table(2) [OF assms(1) p(1,2)] tree_ok_table(2) [OF assms(1) v(1) x(3)] p(3) v(2)] by auto
qed

lemma table_kept:
  assumes "tree_ok rd base m root T" and "path_ok 3 p" "tb rd m root p = Some t" "i < ENTRIES"
  shows "tb rd (wr m t i v) root p = Some t" and "rd (wr m t i v) t i = v"
proof -
  have "path_ok 4 p" using assms(2) by (auto simp: path_ok_def)
  then show "tb rd (wr m t i v) root p = Some t"
    using walk_frame [OF assms, of "[]" p root v] assms(2,3) by (auto simp: path_ok_def prefix_def)
  have "base t" using assms by (auto simp: tree_ok_def)
  then show "rd (wr m t i v) t i = v" using rd_wr assms(4) by simp
qed

lemma tb_write:
  assumes "tree_ok rd base m root T" and "path_ok 3 p" "tb rd m root p = Some t" "i < ENTRIES" and "path_ok 3 q"
  shows "tb rd (wr m t i v) root q =
    (if prefix (p @ [i]) q then (if is_link v then tb rd (wr m t i v) (link v) (drop (Suc (length p)) q) else None)
     else tb rd m root q)"
proof (cases "prefix (p @ [i]) q")
  case True
  then obtain r where "q = p @ i # r" by (auto simp: prefix_def)
  then show ?thesis using table_kept [OF assms(1-4)] by (simp add: tb_append)
next
  case False
  then show ?thesis
    using walk_frame [OF assms(1-4), of "[]" q root v] assms(5) by (auto simp: path_ok_def)
qed

lemma lk_write:
  assumes "tree_ok rd base m root T" and "path_ok 3 p" "tb rd m root p = Some t" "i < ENTRIES" and "path_ok 4 q"
  shows "lk rd (wr m t i v) root q =
    (if prefix (p @ [i]) q then lk rd (wr m t i v) t (drop (length p) q) else lk rd m root q)"
proof (cases "prefix (p @ [i]) q")
  case True
  then obtain r where "q = p @ i # r" by (auto simp: prefix_def)
  then show ?thesis using lk_append [OF table_kept(1) [OF assms(1-4)]] by simp
next
  case False
  then show ?thesis using walk_frame [OF assms(1-4), of "[]" q root v] assms(5) by auto
qed

text \<open>The subtree below the written entry is not affected by the write.\<close>

lemma subtree_kept:
  assumes "tree_ok rd base m root T" and "path_ok 3 p" "tb rd m root p = Some t" "i < ENTRIES"
    and "is_link (rd m t i)" and "path_ok 4 (p @ i # r)" and "length p \<le> 2 \<or> r = []"
  shows "lk rd (wr m t i v) (link (rd m t i)) r = lk rd m (link (rd m t i)) r
    \<and> (length (p @ i # r) \<le> 3 \<longrightarrow> tb rd (wr m t i v) (link (rd m t i)) r = tb rd m (link (rd m t i)) r)"
proof -
  have "tb rd m root (p @ [i]) = Some (link (rd m t i))" using assms(3,5) by (simp add: tb_append)
  then show ?thesis using walk_frame [OF assms(1-4), of "p @ [i]" r] assms(6,7) by auto
qed

section \<open>Setting flags in a link\<close>

lemma flags_write:
  assumes "tree_ok rd base m root T" and "path_ok 2 p" "tb rd m root p = Some t" "i < ENTRIES"
    and "is_link (rd m t i)" and v: "is_link v" "link v = link (rd m t i)"
  shows "tree_ok rd base (wr m t i v) root T" and "path_ok 4 q \<Longrightarrow> length q = 4 \<Longrightarrow> lk rd (wr m t i v) root q = lk rd m root q"
    and "tb rd (wr m t i v) root (p @ [i]) = Some (link v)"
proof -
  have p3: "path_ok 3 p" using assms(2) by (auto simp: path_ok_def)
  note ok = assms(1) p3 assms(3,4)
  have tbs: "tb rd (wr m t i v) root q = tb rd m root q" if "path_ok 3 q" for q
  proof (cases "prefix (p @ [i]) q")
    case True
    then obtain r where q: "q = p @ i # r" by (auto simp: prefix_def)
    then show ?thesis
      using tb_write [OF ok that, of v] subtree_kept [OF ok assms(5), of r v] that v assms(2,3,5)
      by (auto simp: tb_append path_ok_def)
  qed (use tb_write [OF ok that, of v] in simp)
  have top: "rd (wr m t i v) root j AND NX_PTE_PS = 0" if "j < ENTRIES" "rd (wr m t i v) root j AND NX_PTE_P \<noteq> 0" for j
    using that rd_wr [of t root i j m v] assms(1,4) v(1) tree_ok_root [OF assms(1)] tree_ok_table [OF ok(1-3)]
    by (auto simp: tree_ok_def is_link_def split: if_splits)
  show "tree_ok rd base (wr m t i v) root T" using tree_ok_cong [OF assms(1) tbs top] by blast
  show "lk rd (wr m t i v) root q = lk rd m root q" if q: "path_ok 4 q" "length q = 4" for q
  proof (cases "prefix (p @ [i]) q")
    case True
    then obtain r where e: "q = p @ i # r" by (auto simp: prefix_def)
    have r: "r \<noteq> []" using e q(2) assms(2) by (auto simp: path_ok_def)
    have "lk rd m root q = lk rd m t (i # r)" using e lk_append [OF assms(3)] by simp
    then show ?thesis
      using lk_write [OF ok q(1), of v] e r subtree_kept [OF ok assms(5), of r v] q(1) assms(2,5) v
        table_kept(2) [OF ok, of v] by (auto simp: is_link_def path_ok_def)
  qed (use lk_write [OF ok q(1), of v] in simp)
  show "tb rd (wr m t i v) root (p @ [i]) = Some (link v)"
    using table_kept [OF ok, of v] v(1) by (simp add: tb_append)
qed

section \<open>Adding an empty table\<close>

lemma tb_empty_table: "(\<And>j. j < ENTRIES \<Longrightarrow> rd m n j = 0) \<Longrightarrow> path_ok 4 r \<Longrightarrow> tb rd m n r = (if r = [] then Some n else None)"
  by (cases r) (auto simp: is_link_def path_ok_def)

lemma lk_empty_table: "(\<And>j. j < ENTRIES \<Longrightarrow> rd m n j = 0) \<Longrightarrow> path_ok 4 r \<Longrightarrow> lk rd m n r = None"
  by (cases r) (auto simp: path_ok_def)

lemma table_write:
  assumes "tree_ok rd base m root T" and "path_ok 2 p" "tb rd m root p = Some t" "i < ENTRIES"
    and "rd m t i AND NX_PTE_P = 0" and v: "is_link v" "link v = n" and "n \<notin> T"
    and zero: "\<And>j. j < ENTRIES \<Longrightarrow> rd m n j = 0"
  shows "tree_ok rd base (wr m t i v) root (insert n T)"
    and "path_ok 4 q \<Longrightarrow> length q = 4 \<Longrightarrow> lk rd (wr m t i v) root q = lk rd m root q"
    and "tb rd (wr m t i v) root (p @ [i]) = Some n"
proof -
  have p3: "path_ok 3 p" using assms(2) by (auto simp: path_ok_def)
  note ok = assms(1) p3 assms(3,4)
  have bt: "base t" "t \<noteq> n" "base n"
    using tree_ok_table [OF ok(1-3)] assms(8) link_base [of v] v(2) by auto
  have zero': "rd (wr m t i v) n j = 0" if "j < ENTRIES" for j
    using rd_wr [OF bt(1,3) assms(4) that] bt(2) zero that by simp
  have tbs: "tb rd (wr m t i v) root q = (if q = p @ [i] then Some n else tb rd m root q)" if q: "path_ok 3 q" for q
  proof (cases "prefix (p @ [i]) q")
    case True
    then obtain r where e: "q = p @ i # r" by (auto simp: prefix_def)
    have "path_ok 4 r" using q e by (auto simp: path_ok_def)
    moreover have "tb rd m root q = None" using e assms(3,5) by (simp add: tb_append is_link_def)
    ultimately show ?thesis
      using tb_write [OF ok q, of v] True e v tb_empty_table [OF zero'] by auto
  qed (use tb_write [OF ok q, of v] in auto)
  have top: "rd (wr m t i v) root j AND NX_PTE_PS = 0" if "j < ENTRIES" "rd (wr m t i v) root j AND NX_PTE_P \<noteq> 0" for j
    using that rd_wr [of t root i j m v] assms(1,4) v(1) tree_ok_root [OF assms(1)] bt(1)
    by (auto simp: tree_ok_def is_link_def split: if_splits)
  have inj: "q = q'" if "path_ok 3 q" "path_ok 3 q'" "tb rd (wr m t i v) root q = Some u" "tb rd (wr m t i v) root q' = Some u"
    for q q' u
    using that tbs [OF that(1)] tbs [OF that(2)] tree_ok_table(1) [OF assms(1)] assms(1,8)
    by (auto simp: tree_ok_def split: if_splits)
  have mem: "u \<in> insert n T \<and> base u" if "path_ok 3 q" "tb rd (wr m t i v) root q = Some u" for q u
    using that tbs [OF that(1)] tree_ok_table [OF assms(1) that(1)] bt(3) by (auto split: if_splits)
  show "tree_ok rd base (wr m t i v) root (insert n T)"
    unfolding tree_ok_def using top inj mem by blast
  show "lk rd (wr m t i v) root q = lk rd m root q" if q: "path_ok 4 q" "length q = 4" for q
  proof (cases "prefix (p @ [i]) q")
    case True
    then obtain r where e: "q = p @ i # r" by (auto simp: prefix_def)
    have r: "r \<noteq> []" "path_ok 4 r" using e q assms(2) by (auto simp: path_ok_def)
    have "lk rd m root q = None" using e lk_append [OF assms(3)] assms(5) by simp
    then show ?thesis
      using lk_write [OF ok q(1), of v] e r v lk_empty_table [OF zero' r(2)] table_kept(2) [OF ok, of v]
      by (auto simp: is_link_def)
  qed (use lk_write [OF ok q(1), of v] in simp)
  show "tb rd (wr m t i v) root (p @ [i]) = Some n"
    using table_kept [OF ok, of v] v by (simp add: tb_append)
qed

section \<open>Writing a leaf\<close>

text \<open>The old entry was no link and the new one is none (an entry of a page table never is).\<close>

lemma leaf_write:
  assumes "tree_ok rd base m root T" and "path_ok 3 p" "tb rd m root p = Some t" "i < ENTRIES" and "p \<noteq> []"
    and "length p = 3 \<or> \<not> is_link (rd m t i) \<and> \<not> is_link v"
  shows "tree_ok rd base (wr m t i v) root T"
    and "path_ok 4 q \<Longrightarrow> \<not> prefix (p @ [i]) q \<Longrightarrow> lk rd (wr m t i v) root q = lk rd m root q"
    and "path_ok 4 q \<Longrightarrow> q = p @ i # r \<Longrightarrow> v AND NX_PTE_P = 0 \<Longrightarrow> lk rd (wr m t i v) root q = None"
    and "path_ok 4 q \<Longrightarrow> q = p @ i # r \<Longrightarrow> v AND NX_PTE_P \<noteq> 0 \<Longrightarrow>
      length r = 0 \<or> v AND NX_PTE_PS \<noteq> 0 \<and> length r = 1 \<Longrightarrow> lk rd (wr m t i v) root q = Some (t, i, v, length r)"
proof -
  note ok = assms(1-4)
  have tbs: "tb rd (wr m t i v) root q = tb rd m root q" if q: "path_ok 3 q" for q
  proof (cases "prefix (p @ [i]) q")
    case True
    then obtain r where e: "q = p @ i # r" by (auto simp: prefix_def)
    then have "\<not> is_link (rd m t i)" "\<not> is_link v" using assms(6) q by (auto simp: path_ok_def)
    then show ?thesis using tb_write [OF ok q, of v] True e assms(3) by (simp add: tb_append)
  qed (use tb_write [OF ok q, of v] in auto)
  have "t \<noteq> root"
  proof
    assume "t = root"
    then have "tb rd m root [] = Some t" "path_ok 3 []" by (simp_all add: path_ok_def)
    then show False using assms(1,2,3,5) unfolding tree_ok_def by blast
  qed
  then have "rd (wr m t i v) root j = rd m root j" if "j < ENTRIES" for j
    using rd_wr [of t root i j m v] that assms(4) tree_ok_root [OF assms(1)] tree_ok_table [OF ok(1-3)] by auto
  then show "tree_ok rd base (wr m t i v) root T"
    using assms(1) by (intro tree_ok_cong [OF assms(1) tbs]) (auto simp: tree_ok_def)
  show "path_ok 4 q \<Longrightarrow> \<not> prefix (p @ [i]) q \<Longrightarrow> lk rd (wr m t i v) root q = lk rd m root q"
    using lk_write [OF ok] by simp
  have "lk rd (wr m t i v) root q = lk rd (wr m t i v) t (i # r)" if "path_ok 4 q" "q = p @ i # r"
    using lk_append [OF table_kept(1) [OF ok]] that by simp
  then show "path_ok 4 q \<Longrightarrow> q = p @ i # r \<Longrightarrow> v AND NX_PTE_P = 0 \<Longrightarrow> lk rd (wr m t i v) root q = None"
    and "path_ok 4 q \<Longrightarrow> q = p @ i # r \<Longrightarrow> v AND NX_PTE_P \<noteq> 0 \<Longrightarrow>
      length r = 0 \<or> v AND NX_PTE_PS \<noteq> 0 \<and> length r = 1 \<Longrightarrow> lk rd (wr m t i v) root q = Some (t, i, v, length r)"
    using table_kept(2) [OF ok, of v] by auto
qed

end

abbreviation rdp :: "pmem \<Rightarrow> u64 \<Rightarrow> nat \<Rightarrow> u64" where
  "rdp m t i \<equiv> rdq m (pte t i)"

abbreviation wrp :: "pmem \<Rightarrow> u64 \<Rightarrow> nat \<Rightarrow> u64 \<Rightarrow> pmem" where
  "wrp m t i v \<equiv> wrq m (pte t i) v"

lemma link_page_base: "page_base (link e)"
  by (simp add: page_base_def link_def and.assoc)

interpretation pm: entry_store rdp wrp page_base
  by unfold_locales (simp_all add: rdq_wrq link_page_base)

end
