(* ===== verification/Pt_Map.thy ===== *)
theory Pt_Map
  imports Pt_Tree Pmm
begin

text \<open>
  What the page-table operations do to the translation of addresses: walks, mapping, unmapping and
  queries in terms of the tree of tables, for any page source whose pages can be linked
  (locale \<open>table_source\<close>), interpreted on the physical page allocator.
\<close>

section \<open>Queries\<close>

fun idxs :: "u64 \<Rightarrow> nat \<Rightarrow> nat list" where
  "idxs va 0 = [index_of va 0]"
| "idxs va (Suc l) = index_of va (Suc l) # idxs va l"

definition level_size :: "nat \<Rightarrow> u64" where
  "level_size k = (if k = 0 then NX_PAGE_4K else if k = 1 then NX_PAGE_2M else NX_PAGE_1G)"

lemma index_of_less: "index_of va l < ENTRIES"
proof -
  have "unat (x AND 511) < 512" for x :: u64
    using and_mask_mod [of x 9] by (simp add: mask_eq_exp_minus_1 unat_mod)
  then show ?thesis by (simp add: index_of_def)
qed

lemma length_idxs [simp]: "length (idxs va l) = Suc l"
  by (induction l) auto

lemma idxs_ok: "i \<in> set (idxs va l) \<Longrightarrow> i < ENTRIES"
  by (induction l) (auto simp: index_of_less)

lemma idxs_path: "path_ok 4 (idxs va 3)"
  using idxs_ok by (auto simp: path_ok_def)

lemma lk_entry: "lk rdp m t p = Some (u, i, e, k) \<Longrightarrow> e = rdp m u i \<and> k < length p"
  by (induction p arbitrary: t) (auto split: if_splits intro: less_SucI)

lemma find_leaf_from_lk:
  "l \<le> 3 \<Longrightarrow> find_leaf_from m va l t =
     (case lk rdp m t (idxs va l) of None \<Rightarrow> Inl NX_PT_E_NOT_MAPPED | Some (u, i, e, k) \<Rightarrow> Inr (pte u i, level_size k))"
proof (induction l arbitrary: t)
  case (Suc l)
  have "idxs va l \<noteq> []" by (cases l) auto
  then show ?case using Suc by (auto simp: Let_def link_def level_size_def)
qed (auto simp: Let_def level_size_def)

definition xl :: "pmem \<Rightarrow> u64 \<Rightarrow> u64 \<Rightarrow> (u64 \<times> nat \<times> u64 \<times> nat) option" where
  "xl m root va = lk rdp m root (idxs va 3)"

definition leaf_result :: "u64 \<Rightarrow> u64 \<Rightarrow> nat \<Rightarrow> u64 \<times> u64 \<times> u64" where
  "leaf_result va e k = ((link e AND NOT (level_size k - 1)) + (va AND (level_size k - 1)), e AND NOT NX_PTE_ADDR, level_size k)"

lemma find_leaf_xl:
  "find_leaf m root va = (if \<not> nx_pt_is_canonical va then Inl NX_PT_E_NONCANONICAL
     else case xl m root va of None \<Rightarrow> Inl NX_PT_E_NOT_MAPPED | Some (u, i, e, k) \<Rightarrow> Inr (pte u i, level_size k))"
  by (simp add: find_leaf_def find_leaf_from_lk xl_def)

lemma nx_pt_query_xl:
  "nx_pt_query root va m = (if \<not> nx_pt_is_canonical va then Inl NX_PT_E_NONCANONICAL
     else case xl m root va of None \<Rightarrow> Inl NX_PT_E_NOT_MAPPED | Some (u, i, e, k) \<Rightarrow> Inr (leaf_result va e k))"
  by (auto simp: nx_pt_query_def find_leaf_xl leaf_result_def link_def xl_def and.assoc dest: lk_entry split: option.splits)

section \<open>Creating tables\<close>

lemma fold_zero_entries:
  assumes "page_base p" and "n \<le> ENTRIES"
  shows "j < ENTRIES \<Longrightarrow> rdp (fold (\<lambda>i m. wrp m p i 0) [0..<n] m) p j = (if j < n then 0 else rdp m p j)"
    and "page_base u \<Longrightarrow> u \<noteq> p \<Longrightarrow> page_same m (fold (\<lambda>i m. wrp m p i 0) [0..<n] m) u"
  using assms(2)
proof (induction n)
  case (Suc n)
  { case 1 with Suc show ?case using rdq_wrq [OF assms(1,1), of n j] by (simp add: less_Suc_eq) }
  { case 2 with Suc show ?case using page_same_trans wrq_page [OF assms(1), of u n] by simp }
qed simp_all

definition pt_grown ::
    "('s \<Rightarrow> bool) \<Rightarrow> ('s \<Rightarrow> u64 set) \<Rightarrow> ('s \<Rightarrow> u64 set) \<Rightarrow> u64 \<Rightarrow> pmem \<times> 's \<times> u64 set \<Rightarrow> pmem \<times> 's \<times> u64 set \<Rightarrow> bool" where
  "pt_grown I avail owned root = (\<lambda>(m, s, T) (m', s', T').
     I s' \<and> tree_ok rdp page_base m' root T' \<and> T \<subseteq> T'
     \<and> owned s' = owned s \<union> T' \<and> T' \<inter> owned s = T \<and> avail s' = avail s - T'
     \<and> (\<forall>q. path_ok 4 q \<and> length q = 4 \<longrightarrow> lk rdp m' root q = lk rdp m root q)
     \<and> (\<forall>u. page_base u \<and> u \<notin> T' \<longrightarrow> page_same m m' u))"

lemma pt_grown_trans:
  assumes "pt_grown I avail owned root (m, s, T) (m1, s1, T1)" and "pt_grown I avail owned root (m1, s1, T1) (m2, s2, T2)"
  shows "pt_grown I avail owned root (m, s, T) (m2, s2, T2)"
proof -
  have "owned s2 = owned s \<union> T2" "T2 \<inter> owned s = T" "avail s2 = avail s - T2"
    using assms by (auto simp: pt_grown_def)
  moreover have "page_same m m2 u" if "page_base u" "u \<notin> T2" for u
  proof (rule page_same_trans)
    have "u \<notin> T1" using assms(2) that(2) by (auto simp: pt_grown_def)
    then show "page_same m m1 u" using assms(1) that(1) by (simp add: pt_grown_def)
    show "page_same m1 m2 u" using assms(2) that by (simp add: pt_grown_def)
  qed
  ultimately show ?thesis using assms by (auto simp: pt_grown_def)
qed

fun steps :: "u64 \<Rightarrow> nat \<Rightarrow> nat \<Rightarrow> nat list" where
  "steps va level 0 = []"
| "steps va level (Suc k) = index_of va (level + Suc k) # steps va level k"

lemma link_or: "link (a OR b) = link a OR link b"
  by (simp add: link_def bit.conj_disj_distrib2)

lemma and_or_zero: "(a OR b) AND c = (a AND c) OR (b AND c)" for a b c :: u64
  by (simp add: bit.conj_disj_distrib2)

lemma and_single: "x AND 2 ^ n = (if bit x n then 2 ^ n else 0)" for x :: "'a::len word"
  by (auto intro!: bit_word_eqI simp: bit_simps bit_exp_iff)

lemma and_user: "x AND NX_PTE_U = 0 \<or> x AND NX_PTE_U = NX_PTE_U"
  using and_single [of x 2] by auto

lemma link_low:
  assumes "link a = a"
  shows "a AND NX_PTE_P = 0" and "a AND NX_PTE_PS = 0"
proof -
  have "link a AND NX_PTE_P = 0" "link a AND NX_PTE_PS = 0" unfolding link_def and.assoc by simp_all
  then show "a AND NX_PTE_P = 0" "a AND NX_PTE_PS = 0" unfolding assms .
qed

locale table_source = page_source alloc free ok inv avail owned
  for alloc :: "'s \<Rightarrow> u64 \<times> 's"
    and free :: "'s \<Rightarrow> u64 \<Rightarrow> 's \<times> 'e"
    and ok :: 'e
    and inv :: "'s \<Rightarrow> bool"
    and avail :: "'s \<Rightarrow> u64 set"
    and owned :: "'s \<Rightarrow> u64 set" +
  assumes table_page: "inv s \<Longrightarrow> a \<in> avail s \<Longrightarrow> page_base a \<and> link a = a"
begin

lemma new_table_spec:
  assumes "inv s" and "new_table alloc (m, s) = (r, m', s')"
  shows "(r = Inl NX_PT_E_NOMEM \<and> avail s = {} \<and> m' = m \<and> s' = s)
    \<or> (\<exists>p. r = Inr p \<and> p \<in> avail s \<and> inv s' \<and> avail s' = avail s - {p} \<and> owned s' = insert p (owned s)
         \<and> (\<forall>j < ENTRIES. rdp m' p j = 0) \<and> (\<forall>u. page_base u \<and> u \<noteq> p \<longrightarrow> page_same m m' u))"
proof -
  obtain p t where a: "alloc s = (p, t)" by fastforce
  show ?thesis
  proof (cases "p = 0")
    case True
    then show ?thesis using assms a alloc_zero [of s t] by (auto simp: new_table_def)
  next
    case False
    note al = alloc_page [OF assms(1) a False]
    have "page_base p" using table_page [OF assms(1) al(1)] by simp
    then have "p AND 4095 = 0" by (simp add: page_base_def)
    then show ?thesis
      using assms(2) a al False fold_zero_entries [OF \<open>page_base p\<close>, of ENTRIES] by (auto simp: new_table_def)
  qed
qed

lemma add_table:
  assumes "inv s" and "tree_ok rdp page_base m root T" and "T \<subseteq> owned s"
    and p: "path_ok 2 p" "tb rdp m root p = Some t" "i < ENTRIES" and "rdp m t i AND NX_PTE_P = 0"
    and n: "new_table alloc (m, s) = (Inr n, m1, s1)" and user: "user = 0 \<or> user = NX_PTE_U"
  defines "v \<equiv> n OR NX_PTE_P OR NX_PTE_W OR user"
  shows "pt_grown inv avail owned root (m, s, T) (wrp m1 t i v, s1, insert n T)"
    and "tb rdp (wrp m1 t i v) root (p @ [i]) = Some n" and "link v = n"
proof -
  have na: "n \<in> avail s" "inv s1" "avail s1 = avail s - {n}" "owned s1 = insert n (owned s)"
    and zero: "\<And>j. j < ENTRIES \<Longrightarrow> rdp m1 n j = 0"
    and same: "\<And>u. page_base u \<Longrightarrow> u \<noteq> n \<Longrightarrow> page_same m m1 u"
    using new_table_spec [OF assms(1) n] by auto
  have nT: "n \<notin> T" "n \<notin> owned s" using na(1) apart [OF assms(1)] assms(3) by auto
  have nl: "page_base n" "link n = n" using table_page [OF assms(1) na(1)] by auto
  show lv: "link v = n" using user nl(2) by (auto simp: v_def link_or) (auto simp: link_def)
  have iv: "is_link v" using user link_low [OF nl(2)] by (auto simp: v_def is_link_def and_or_zero)
  have rds: "rdp m1 u j = rdp m u j" if "u \<in> T" "page_base u" "j < ENTRIES" for u j
    using rdq_page_same [OF same] that nT(1) by auto
  note w0 = walk_mem [of rdp page_base m root T m1, OF assms(2)]
  have w1: "\<And>q. path_ok 4 q \<Longrightarrow> lk rdp m1 root q = lk rdp m root q" "\<And>q. path_ok 3 q \<Longrightarrow> tb rdp m1 root q = tb rdp m root q"
    "tree_ok rdp page_base m1 root T"
    using w0 rds by blast+
  have p3: "path_ok 3 p" using p(1) by (auto simp: path_ok_def)
  have t1: "tb rdp m1 root p = Some t" "rdp m1 t i AND NX_PTE_P = 0"
    using w1(2) [OF p3] p(2) rds tree_ok_table [OF assms(2) p3 p(2)] p(3) assms(7) by simp_all
  note tw = pm.table_write [OF w1(3) p(1) t1(1) p(3) t1(2) iv lv nT(1) zero]
  show "tb rdp (wrp m1 t i v) root (p @ [i]) = Some n" by (rule tw(3))
  have "page_same m (wrp m1 t i v) u" if "page_base u" "u \<notin> insert n T" for u
  proof (rule page_same_trans)
    show "page_same m m1 u" using same that by simp
    show "page_same m1 (wrp m1 t i v) u"
      using wrq_page [OF tree_ok_table(2) [OF assms(2) p3 p(2)] that(1) _ p(3)] tree_ok_table(1) [OF assms(2) p3 p(2)] that(2) by auto
  qed
  then show "pt_grown inv avail owned root (m, s, T) (wrp m1 t i v, s1, insert n T)"
    using na nT assms(3) tw(1,2) w1(1) apart [OF assms(1)] by (auto simp: pt_grown_def)
qed

lemma keep_table:
  assumes "inv s" and "tree_ok rdp page_base m root T" and "T \<subseteq> owned s"
    and p: "path_ok 2 p" "tb rdp m root p = Some t" "i < ENTRIES" and "is_link (rdp m t i)"
    and user: "user = 0 \<or> user = NX_PTE_U"
  defines "v \<equiv> rdp m t i OR user"
  shows "pt_grown inv avail owned root (m, s, T) (wrp m t i v, s, T)"
    and "tb rdp (wrp m t i v) root (p @ [i]) = Some (link v)"
proof -
  have p3: "path_ok 3 p" using p(1) by (auto simp: path_ok_def)
  have v: "is_link v" "link v = link (rdp m t i)"
    using assms(7) user by (auto simp: v_def is_link_def link_or and_or_zero) (auto simp: link_def)
  note fw = pm.flags_write [OF assms(2) p assms(7) v]
  show "tb rdp (wrp m t i v) root (p @ [i]) = Some (link v)" by (rule fw(3))
  have "page_same m (wrp m t i v) u" if "page_base u" "u \<notin> T" for u
    using wrq_page [OF tree_ok_table(2) [OF assms(2) p3 p(2)] that(1) _ p(3)] tree_ok_table(1) [OF assms(2) p3 p(2)] that(2) by auto
  then show "pt_grown inv avail owned root (m, s, T) (wrp m t i v, s, T)"
    using assms(1,3) fw(1,2) apart [OF assms(1)] by (auto simp: pt_grown_def)
qed

lemma pt_grown_refl:
  assumes "inv s" and "tree_ok rdp page_base m root T" and "T \<subseteq> owned s"
  shows "pt_grown inv avail owned root (m, s, T) (m, s, T)"
  using assms apart [OF assms(1)] by (auto simp: pt_grown_def)

lemma step_on:
  assumes "pt_grown inv avail owned root (m, s, T) (m1, s1, T1)"
    and "\<exists>T'. pt_grown inv avail owned root (m1, s1, T1) (m', s', T') \<and> A \<and> (B \<longrightarrow> xl m1 root va \<noteq> None) \<and> C"
  shows "\<exists>T'. pt_grown inv avail owned root (m, s, T) (m', s', T') \<and> A \<and> (B \<longrightarrow> xl m root va \<noteq> None) \<and> C"
proof -
  have "xl m1 root va = xl m root va" using assms(1) idxs_path [of va] by (simp add: pt_grown_def xl_def)
  then show ?thesis using pt_grown_trans [OF assms(1)] assms(2) by auto
qed

lemma walk_create_from_spec:
  assumes "inv s" and "tree_ok rdp page_base m root T" and "T \<subseteq> owned s"
    and "level + k \<le> 3" and "idxs va 3 = p @ steps va level k @ z" and "length p = 3 - (level + k)" and "z \<noteq> []"
    and "tb rdp m root p = Some t" and user: "user = 0 \<or> user = NX_PTE_U"
    and "walk_create_from alloc va level user k t (m, s) = (r, m', s')"
  shows "\<exists>T'. pt_grown inv avail owned root (m, s, T) (m', s', T')
    \<and> (\<forall>t'. r = Inr t' \<longrightarrow> tb rdp m' root (p @ steps va level k) = Some t')
    \<and> (r = Inl NX_PT_E_EXISTS \<longrightarrow> xl m root va \<noteq> None)
    \<and> (r \<in> range Inr \<or> r = Inl NX_PT_E_EXISTS \<or> r = Inl NX_PT_E_NOMEM)"
  using assms(1-8,10)
proof (induction k arbitrary: p t m s T)
  case 0
  then show ?case using pt_grown_refl [of s m root T] by auto
next
  case (Suc k)
  define i where "i = index_of va (level + Suc k)"
  have i: "i < ENTRIES" by (simp add: i_def index_of_less)
  have p2: "path_ok 2 p" using Suc.prems(4,5,6) idxs_ok [of _ va 3] by (auto simp: path_ok_def)
  then have p3: "path_ok 3 p" by (auto simp: path_ok_def)
  have ix: "idxs va 3 = (p @ [i]) @ steps va level k @ z" using Suc.prems(5) by (simp add: i_def)
  have lp: "level + k \<le> 3" "length (p @ [i]) = 3 - (level + k)" using Suc.prems(4,6) by simp_all
  define e where "e = rdp m t i"
  note old = Suc.prems(1-3) p2 Suc.prems(8) i
  consider (ps) "e AND NX_PTE_P \<noteq> 0" "e AND NX_PTE_PS \<noteq> 0" | (lnk) "is_link e" | (new) "e AND NX_PTE_P = 0"
    by (auto simp: is_link_def)
  then show ?case
  proof cases
    case ps
    have r: "r = Inl NX_PT_E_EXISTS" "m' = m" "s' = s" using Suc.prems(9) ps by (auto simp: e_def i_def Let_def)
    have "p \<noteq> []"
    proof
      assume "p = []"
      then show False using ps Suc.prems(2,8) i by (auto simp: tree_ok_def e_def)
    qed
    moreover have "length p + 1 + length (steps va level k @ z) = 4" using arg_cong [OF ix, of length] by simp
    moreover have "0 < length (steps va level k @ z)" using Suc.prems(7) by simp
    ultimately have "length (steps va level k @ z) = 1 \<or> length (steps va level k @ z) = 2"
      unfolding length_greater_0_conv [symmetric] by linarith
    moreover have "steps va level k @ z \<noteq> []" using Suc.prems(7) by simp
    ultimately have "xl m root va \<noteq> None"
      using lk_append [OF Suc.prems(8), of "i # steps va level k @ z"] ix ps by (auto simp: xl_def e_def)
    then show ?thesis using r pt_grown_refl [OF Suc.prems(1-3)] by auto
  next
    case lnk
    define v where "v = e OR user"
    note g = keep_table [OF old _ user, folded e_def v_def, OF lnk]
    have w: "walk_create_from alloc va level user k (link v) (wrp m t i v, s) = (r, m', s')"
      using Suc.prems(9) lnk by (auto simp: e_def i_def v_def is_link_def link_def Let_def)
    have "tree_ok rdp page_base (wrp m t i v) root T" using g(1) by (simp add: pt_grown_def)
    from step_on [OF g(1) Suc.IH [OF Suc.prems(1) this Suc.prems(3) lp(1) ix lp(2) Suc.prems(7) g(2) w]]
    show ?thesis by (simp add: i_def)
  next
    case new
    show ?thesis
    proof (cases "fst (new_table alloc (m, s))")
      case (Inl st)
      then obtain m1 s1 where n: "new_table alloc (m, s) = (Inl st, m1, s1)" by (metis prod.collapse)
      then have "r = Inl NX_PT_E_NOMEM" "m' = m" "s' = s"
        using new_table_spec [OF Suc.prems(1) n] Suc.prems(9) new by (auto simp: e_def i_def Let_def)
      then show ?thesis using pt_grown_refl [OF Suc.prems(1-3)] by auto
    next
      case (Inr n)
      then obtain m1 s1 where n: "new_table alloc (m, s) = (Inr n, m1, s1)" by (metis prod.collapse)
      define v where "v = n OR NX_PTE_P OR NX_PTE_W OR user"
      note g = add_table [OF old _ n user, folded e_def v_def, OF new]
      have w: "walk_create_from alloc va level user k n (wrp m1 t i v, s1) = (r, m', s')"
        using Suc.prems(9) new n g(3) by (auto simp: e_def i_def v_def link_def Let_def)
      have g1: "inv s1" "tree_ok rdp page_base (wrp m1 t i v) root (insert n T)" "insert n T \<subseteq> owned s1"
        using g(1) by (auto simp: pt_grown_def)
      from step_on [OF g(1) Suc.IH [OF g1 lp(1) ix lp(2) Suc.prems(7) g(2) w]]
      show ?thesis by (simp add: i_def)
    qed
  qed
qed

lemma walk_create_spec:
  assumes "inv s" and "tree_ok rdp page_base m root T" and "T \<subseteq> owned s" and "level \<le> 2"
    and "user = 0 \<or> user = NX_PTE_U" and "walk_create alloc root va level user (m, s) = (r, m', s')"
  shows "\<exists>T'. pt_grown inv avail owned root (m, s, T) (m', s', T')
    \<and> (\<forall>t'. r = Inr t' \<longrightarrow> tb rdp m' root (take (3 - level) (idxs va 3)) = Some t')
    \<and> (r = Inl NX_PT_E_EXISTS \<longrightarrow> xl m root va \<noteq> None)
    \<and> (r \<in> range Inr \<or> r = Inl NX_PT_E_EXISTS \<or> r = Inl NX_PT_E_NOMEM)"
proof -
  have st: "idxs va 3 = steps va level (3 - level) @ idxs va level" "length (steps va level (3 - level)) = 3 - level"
    using assms(4) by (auto simp: numeral_3_eq_3 numeral_2_eq_2 le_Suc_eq)
  have z: "idxs va level \<noteq> []" by (cases level) auto
  have tk: "steps va level (3 - level) = take (3 - level) (idxs va 3)" using st by simp
  show ?thesis
    using walk_create_from_spec [OF assms(1-3), of level "3 - level" va "[]" "idxs va level" root user r m' s'] st z assms(4-6)
    unfolding tk by (simp add: walk_create_def)
qed

end

section \<open>Addresses of one leaf\<close>

lemma all_low: "k \<le> N \<Longrightarrow> (\<forall>n < N. (A n \<and> n < k) = (B n \<and> n < k)) \<longleftrightarrow> (\<forall>j < (k :: nat). A j = B j)"
  by (meson order_less_le_trans)

lemma index_of_eq: "index_of a l = index_of b l \<longleftrightarrow> (\<forall>j < 9. bit a (12 + 9 * l + j) = bit b (12 + 9 * l + j))"
proof -
  have m: "(511 :: u64) = mask 9" by (simp add: mask_eq_exp_minus_1)
  have "index_of a l = index_of b l \<longleftrightarrow> drop_bit (12 + 9 * l) a AND mask 9 = drop_bit (12 + 9 * l) b AND mask 9"
    by (simp add: index_of_def m word_unat_eq_iff)
  also have "\<dots> \<longleftrightarrow> (\<forall>n < 64. (bit a (12 + 9 * l + n) \<and> n < 9) = (bit b (12 + 9 * l + n) \<and> n < 9))"
    unfolding bit_eq_iff by (simp add: bit_simps)
  finally show ?thesis using all_low [of 9 64] by simp
qed

lemma canonical_bits: "nx_pt_is_canonical a \<longleftrightarrow> (\<forall>j < 17. bit a (47 + j) = bit a 47)"
proof -
  have m: "(0x1FFFF :: u64) = mask 17" by (simp add: mask_eq_exp_minus_1)
  have hi: "n < 17" if "bit a (47 + n)" for n using bit_imp_le_length [OF that] by simp
  have "drop_bit 47 a = 0 \<longleftrightarrow> (\<forall>n < 64. \<not> bit a (47 + n))"
    unfolding bit_eq_iff by (simp add: bit_simps)
  then have z: "drop_bit 47 a = 0 \<longleftrightarrow> (\<forall>j < 17. \<not> bit a (47 + j))" using hi by force
  have "drop_bit 47 a = mask 17 \<longleftrightarrow> (\<forall>n < 64. bit a (47 + n) = (n < 17))"
    unfolding bit_eq_iff by (simp add: bit_simps)
  then have o: "drop_bit 47 a = mask 17 \<longleftrightarrow> (\<forall>j < 17. bit a (47 + j))" using hi by force
  have "\<not> bit a 47" if "\<forall>j < 17. \<not> bit a (47 + j)" using that [rule_format, of 0] by simp
  moreover have "bit a 47" if "\<forall>j < 17. bit a (47 + j)" using that [rule_format, of 0] by simp
  ultimately show ?thesis unfolding nx_pt_is_canonical_def m z o by blast
qed

text \<open>
  Two addresses are translated by the same entry of level \<open>k\<close> when they agree from bit 12 + 9 k on.
\<close>

definition agree :: "nat \<Rightarrow> u64 \<Rightarrow> u64 \<Rightarrow> bool" where
  "agree n a b \<longleftrightarrow> (\<forall>j < 64. n \<le> j \<longrightarrow> bit a j = bit b j)"

lemma level_size_mask: "k \<le> 2 \<Longrightarrow> level_size k - 1 = mask (12 + 9 * k)"
proof -
  assume "k \<le> 2"
  then have "k = 0 \<or> k = 1 \<or> k = 2" by linarith
  then show ?thesis by (auto simp: level_size_def mask_eq_exp_minus_1)
qed

lemma agree_mask:
  assumes "va AND mask n = 0"
  shows "agree n va va' \<longleftrightarrow> va' AND NOT (mask n) = (va :: u64)"
proof -
  have low: "\<not> bit va j" if "j < n" for j
    using assms that bit_imp_le_length [of va j] unfolding bit_eq_iff by (auto simp: bit_simps)
  have "va' AND NOT (mask n) = va \<longleftrightarrow> (\<forall>j < 64. (bit va' j \<and> n \<le> j) = bit va j)"
    unfolding bit_eq_iff by (auto simp: bit_simps not_less)
  also have "\<dots> \<longleftrightarrow> agree n va va'" unfolding agree_def using low by (metis not_le_imp_less)
  finally show ?thesis by simp
qed

lemma idxs_3: "idxs va 3 = [index_of va 3, index_of va 2, index_of va 1, index_of va 0]"
  by (simp add: numeral_3_eq_3 numeral_2_eq_2)

lemma take_idxs_eq:
  "k \<le> 2 \<Longrightarrow> take (4 - k) (idxs va 3) = take (4 - k) (idxs va' 3) \<longleftrightarrow> (\<forall>l. k \<le> l \<and> l \<le> 3 \<longrightarrow> index_of va l = index_of va' l)"
proof -
  assume "k \<le> 2"
  then have k: "k = 0 \<or> k = 1 \<or> k = 2" by linarith
  have l: "k \<le> l \<and> l \<le> 3 \<longleftrightarrow> (l = 0 \<and> k = 0) \<or> (l = 1 \<and> k \<le> 1) \<or> l = 2 \<or> l = 3" for l using k by linarith
  have t: "take 4 (idxs va 3) = [index_of va 3, index_of va 2, index_of va 1, index_of va 0]"
    "take 3 (idxs va 3) = [index_of va 3, index_of va 2, index_of va 1]"
    "take 2 (idxs va 3) = [index_of va 3, index_of va 2]" for va
    by (simp_all add: idxs_3 take_Cons')
  show ?thesis using k unfolding l by (elim disjE) (auto simp: t)
qed

lemma same_leaf:
  assumes "nx_pt_is_canonical va" and "k \<le> 2"
  shows "nx_pt_is_canonical va' \<and> take (4 - k) (idxs va 3) = take (4 - k) (idxs va' 3) \<longleftrightarrow> agree (12 + 9 * k) va va'"
proof
  assume a: "nx_pt_is_canonical va' \<and> take (4 - k) (idxs va 3) = take (4 - k) (idxs va' 3)"
  have ix: "bit va (12 + 9 * l + j) = bit va' (12 + 9 * l + j)" if "k \<le> l" "l \<le> 3" "j < 9" for l j
    using a take_idxs_eq [OF assms(2)] that index_of_eq [of va l va'] by blast
  have b47: "bit va 47 = bit va' 47" using ix [of 3 8] assms(2) by simp
  show "agree (12 + 9 * k) va va'"
    unfolding agree_def
  proof (intro allI impI)
    fix j :: nat assume j: "j < 64" "12 + 9 * k \<le> j"
    show "bit va j = bit va' j"
    proof (cases "j < 48")
      case True
      define l where "l = (j - 12) div 9"
      have "j = 12 + 9 * l + (j - 12) mod 9" "k \<le> l" "l \<le> 3"
        using True j div_mult_mod_eq [of "j - 12" 9] by (simp_all add: l_def)
      then show ?thesis using ix [of l "(j - 12) mod 9"] by simp
    next
      case False
      then have e: "47 + (j - 47) = j" "j - 47 < 17" using j(1) by simp_all
      have "bit va j = bit va 47" using assms(1) [unfolded canonical_bits, rule_format, OF e(2)] unfolding e(1) .
      moreover have "bit va' j = bit va' 47" using conjunct1 [OF a, unfolded canonical_bits, rule_format, OF e(2)] unfolding e(1) .
      ultimately show ?thesis using b47 by simp
    qed
  qed
next
  assume g: "agree (12 + 9 * k) va va'"
  have "index_of va l = index_of va' l" if "k \<le> l" "l \<le> 3" for l
    unfolding index_of_eq
  proof (intro allI impI)
    fix j :: nat assume "j < 9"
    then show "bit va (12 + 9 * l + j) = bit va' (12 + 9 * l + j)"
      using g [unfolded agree_def, rule_format, of "12 + 9 * l + j"] that by linarith
  qed
  moreover have "nx_pt_is_canonical va'"
    unfolding canonical_bits
  proof (intro allI impI)
    fix j :: nat assume j: "j < 17"
    have "bit va (47 + j) = bit va' (47 + j)" "bit va 47 = bit va' 47"
      using g [unfolded agree_def, rule_format, of "47 + j"] g [unfolded agree_def, rule_format, of 47] j assms(2) by linarith+
    then show "bit va' (47 + j) = bit va' 47" using assms(1) [unfolded canonical_bits, rule_format, OF j] by simp
  qed
  ultimately show "nx_pt_is_canonical va' \<and> take (4 - k) (idxs va 3) = take (4 - k) (idxs va' 3)"
    using take_idxs_eq [OF assms(2)] by blast
qed

section \<open>Leaf entries\<close>

lemma link_phys:
  assumes "pa < NX_PHYS_MAX" and "page_base pa"
  shows "link pa = pa"
proof -
  have m: "NX_PTE_ADDR = mask 52 AND NOT (mask 12)" by (simp add: mask_eq_exp_minus_1)
  have "pa AND mask 52 = pa"
    using assms(1) by (simp add: and_mask_mod word_unat_eq_iff unat_mod word_less_nat_alt)
  moreover have "pa AND NOT (mask 12) = pa"
    using assms(2) and_not_mask_sub [of pa 12] and_mask_mod [of pa 12] by (simp add: page_base_def mask_eq_exp_minus_1)
  ultimately show ?thesis unfolding link_def m and.assoc [symmetric] by simp
qed

lemma and_split: "(x AND a) OR (x AND NOT a) = x" for x a :: u64
  by (rule bit_word_eqI) (auto simp: bit_simps)

lemma sub_flags:
  fixes flags L x :: u64
  assumes "flags AND NOT L = 0" and "L AND x = 0"
  shows "flags AND x = 0"
proof -
  have "flags AND L = flags" using and_split [of flags L] assms(1) by simp
  then have "flags AND x = flags AND (L AND x)" by (simp flip: and.assoc)
  then show ?thesis using assms(2) by simp
qed

definition leaf_bits :: "u64 \<Rightarrow> u64" where
  "leaf_bits sz = (if sz = NX_PAGE_2M then NX_PTE_PS else 0)"

lemma leaf_value:
  fixes sz :: u64
  assumes "pa < NX_PHYS_MAX" and "page_base pa" and "flags AND NOT NX_PT_LEAF_FLAGS = 0"
  defines "v \<equiv> pa OR flags OR NX_PTE_P OR leaf_bits sz"
  shows "link v = pa" and "v AND NOT NX_PTE_ADDR = flags OR NX_PTE_P OR leaf_bits sz" and "v AND NX_PTE_P \<noteq> 0"
    and "v AND NX_PTE_PS = leaf_bits sz"
proof -
  note lp = link_phys [OF assms(1,2)]
  have f: "flags AND NX_PTE_ADDR = 0" "flags AND NX_PTE_P = 0" "flags AND NX_PTE_PS = 0"
    by (rule sub_flags [OF assms(3)]; simp add: NX_PT_LEAF_FLAGS_def)+
  have "(pa AND NX_PTE_ADDR) AND NOT NX_PTE_ADDR = 0" by (simp only: and.assoc bit.conj_cancel_right and_zero_eq)
  then have pa: "pa AND NOT NX_PTE_ADDR = 0" using lp unfolding link_def by simp
  have fl: "flags AND NOT NX_PTE_ADDR = flags" using and_split [of flags NX_PTE_ADDR] f(1) by simp
  show "link v = pa" using f(1) lp by (auto simp: v_def link_or leaf_bits_def) (auto simp: link_def)
  show "v AND NOT NX_PTE_ADDR = flags OR NX_PTE_P OR leaf_bits sz"
    using pa fl by (simp add: v_def and_or_zero leaf_bits_def)
  show "v AND NX_PTE_P \<noteq> 0" using f(2) link_low(1) [OF lp] by (simp add: v_def and_or_zero leaf_bits_def)
  show "v AND NX_PTE_PS = leaf_bits sz" using f(3) link_low(2) [OF lp] by (simp add: v_def and_or_zero leaf_bits_def)
qed

end
