(* ===== verification/Pt_Exact.thy ===== *)
theory Pt_Exact
  imports Pt_Map
begin

text \<open>
  The exact effect of mapping and unmapping on the translation, proved for every page source and
  then stated for the kernel's page tables over the physical page allocator.
\<close>

definition pt_step ::
    "('s \<Rightarrow> bool) \<Rightarrow> ('s \<Rightarrow> u64 set) \<Rightarrow> ('s \<Rightarrow> u64 set) \<Rightarrow> u64 \<Rightarrow> pmem \<times> 's \<times> u64 set \<Rightarrow> pmem \<times> 's \<times> u64 set \<Rightarrow> bool" where
  "pt_step I avail owned root = (\<lambda>(m, s, T) (m', s', T').
     I s' \<and> tree_ok rdp page_base m' root T' \<and> T \<subseteq> T'
     \<and> owned s' = owned s \<union> T' \<and> T' \<inter> owned s = T \<and> avail s' = avail s - T'
     \<and> (\<forall>u. page_base u \<and> u \<notin> T' \<longrightarrow> page_same m m' u))"

lemma grown_step_query:
  assumes "pt_grown I avail owned root (m, s, T) (m', s', T')"
  shows "pt_step I avail owned root (m, s, T) (m', s', T')" and "xl m' root va = xl m root va"
    and "nx_pt_query root va m' = nx_pt_query root va m"
proof -
  show "pt_step I avail owned root (m, s, T) (m', s', T')" using assms by (simp add: pt_grown_def pt_step_def)
  show x: "xl m' root va = xl m root va" using assms idxs_path [of va] by (simp add: pt_grown_def xl_def)
  show "nx_pt_query root va m' = nx_pt_query root va m" by (simp add: nx_pt_query_xl x)
qed

lemma query_mapped: "nx_pt_is_canonical va \<Longrightarrow> xl m root va \<noteq> None \<Longrightarrow> \<exists>e. nx_pt_query root va m = Inr e"
  by (cases "leaf_result va (fst (snd (snd (the (xl m root va))))) (snd (snd (snd (the (xl m root va)))))")
    (auto simp: nx_pt_query_xl)

definition leaf_at :: "u64 \<Rightarrow> u64 \<Rightarrow> u64 \<Rightarrow> u64 \<Rightarrow> u64 \<times> u64 \<times> u64" where
  "leaf_at pa sz flags va = (pa + (va AND (sz - 1)), flags OR NX_PTE_P OR leaf_bits sz, sz)"

text \<open>The address \<open>va'\<close> lies in the page of size \<open>sz\<close> at \<open>va\<close>.\<close>

definition in_leaf :: "u64 \<Rightarrow> u64 \<Rightarrow> u64 \<Rightarrow> bool" where
  "in_leaf va sz va' \<longleftrightarrow> va' AND NOT (sz - 1) = va"

lemma in_leaf_iff:
  assumes "nx_pt_is_canonical va" and "k \<le> 2" and "va AND (level_size k - 1) = 0"
  shows "in_leaf va (level_size k) va' \<longleftrightarrow>
    nx_pt_is_canonical va' \<and> take (4 - k) (idxs va 3) = take (4 - k) (idxs va' 3)"
proof -
  have m: "level_size k - 1 = mask (12 + 9 * k)" using assms(2) by (rule level_size_mask)
  show ?thesis
    using agree_mask [of va "12 + 9 * k" va'] assms(3) same_leaf [OF assms(1,2), of va'] unfolding m in_leaf_def by simp
qed

lemma take_nth_split:
  assumes "length xs = 4" and "length ys = 4" and "k \<le> 2"
  shows "prefix (take (3 - k) xs @ [xs ! (3 - k)]) ys \<longleftrightarrow> take (4 - k) xs = take (4 - k) ys"
    and "take (4 - k) xs = take (4 - k) ys \<Longrightarrow> ys = take (3 - k) xs @ xs ! (3 - k) # drop (4 - k) ys"
proof -
  have "Suc (3 - k) = 4 - k" using assms(3) by simp
  then have t: "take (3 - k) xs @ [xs ! (3 - k)] = take (4 - k) xs"
    using assms(1,3) take_Suc_conv_app_nth [of "3 - k" xs] by simp
  show "prefix (take (3 - k) xs @ [xs ! (3 - k)]) ys \<longleftrightarrow> take (4 - k) xs = take (4 - k) ys"
    unfolding t prefix_def using assms by (auto simp: append_eq_conv_conj) (metis append_take_drop_id)
  assume e: "take (4 - k) xs = take (4 - k) ys"
  have "ys = take (4 - k) xs @ drop (4 - k) ys" unfolding e by simp
  then show "ys = take (3 - k) xs @ xs ! (3 - k) # drop (4 - k) ys" unfolding t [symmetric] by simp
qed

lemma idxs_nth: "k \<le> 2 \<Longrightarrow> idxs va 3 ! (3 - k) = index_of va k"
proof -
  assume "k \<le> 2"
  then have "k = 0 \<or> k = 1 \<or> k = 2" by linarith
  then show ?thesis by (auto simp: idxs_3 numeral_3_eq_3 numeral_2_eq_2)
qed

lemma length_idxs_3: "length (idxs va 3) = 4"
  by simp

text \<open>
  What a call of \<open>nx_pt_map\<close> does to the translation: nothing when it fails; otherwise exactly the
  addresses of the new page, none of which was mapped, are now translated to the given frame.
\<close>

definition map_effect :: "u64 \<Rightarrow> u64 \<Rightarrow> u64 \<Rightarrow> u64 \<Rightarrow> u64 \<Rightarrow> nx_pt_status \<Rightarrow> pmem \<Rightarrow> pmem \<Rightarrow> bool" where
  "map_effect root va pa sz flags st m m' \<longleftrightarrow>
     (st \<noteq> NX_PT_OK \<longrightarrow> (\<forall>va'. nx_pt_query root va' m' = nx_pt_query root va' m))
     \<and> (st = NX_PT_OK \<longrightarrow> (\<forall>va'. nx_pt_query root va' m' =
           (if in_leaf va sz va' then Inr (leaf_at pa sz flags va') else nx_pt_query root va' m)
         \<and> (in_leaf va sz va' \<longrightarrow> nx_pt_query root va' m = Inl NX_PT_E_NOT_MAPPED)))
     \<and> (st = NX_PT_E_EXISTS \<and> sz = NX_PAGE_4K \<longrightarrow> (\<exists>r. nx_pt_query root va m = Inr r))"

context table_source
begin

lemma map_leaf:
  assumes "tree_ok rdp page_base m root T" and "k \<le> 1" and "nx_pt_is_canonical va" and "va AND (level_size k - 1) = 0"
    and t: "tb rdp m root (take (3 - k) (idxs va 3)) = Some t" and "rdp m t (index_of va k) AND NX_PTE_P = 0"
    and pa: "pa < NX_PHYS_MAX" "pa AND (level_size k - 1) = 0" and flags: "flags AND NOT NX_PT_LEAF_FLAGS = 0"
  defines "v \<equiv> pa OR flags OR NX_PTE_P OR leaf_bits (level_size k)"
  shows "tree_ok rdp page_base (wrp m t (index_of va k) v) root T" and "t \<in> T" and "page_base t"
    and "in_leaf va (level_size k) va' \<Longrightarrow> nx_pt_query root va' (wrp m t (index_of va k) v) = Inr (leaf_at pa (level_size k) flags va')
      \<and> nx_pt_query root va' m = Inl NX_PT_E_NOT_MAPPED"
    and "\<not> in_leaf va (level_size k) va' \<Longrightarrow> nx_pt_query root va' (wrp m t (index_of va k) v) = nx_pt_query root va' m"
proof -
  define p where "p = take (3 - k) (idxs va 3)"
  define i where "i = index_of va k"
  have p: "path_ok 3 p" "length p = 3 - k" using idxs_ok [of _ va 3] by (auto simp: p_def path_ok_def dest: in_set_takeD)
  have t': "tb rdp m root p = Some t" "i < ENTRIES" using t index_of_less by (simp_all add: p_def i_def)
  show "t \<in> T" "page_base t" using tree_ok_table [OF assms(1) p(1) t'(1)] by auto
  have pb: "page_base pa"
  proof -
    have "pa AND 4095 = (pa AND (level_size k - 1)) AND 4095"
      using assms(2) by (cases k) (simp_all add: level_size_def and.assoc)
    then show ?thesis using pa(2) by (simp add: page_base_def)
  qed
  note lv = leaf_value [OF pa(1) pb flags, of "level_size k", folded v_def]
  have nl: "length p = 3 \<or> \<not> is_link (rdp m t i) \<and> \<not> is_link v"
    using assms(2,6) p(2) lv(4) by (cases k) (auto simp: is_link_def i_def leaf_bits_def level_size_def)
  have p0: "p \<noteq> []" using p(2) assms(2) by auto
  note lw = pm.leaf_write [OF assms(1) p(1) t' p0 nl]
  show "tree_ok rdp page_base (wrp m t (index_of va k) v) root T" using lw(1) by (simp add: i_def)
  have k2: "k \<le> 2" using assms(2) by simp
  note il = in_leaf_iff [OF assms(3) this assms(4), of va']
  note sp = take_nth_split [OF length_idxs_3 length_idxs_3 k2, of va va', unfolded idxs_nth [OF k2], folded p_def i_def]
  show "nx_pt_query root va' (wrp m t (index_of va k) v) = nx_pt_query root va' m" if "\<not> in_leaf va (level_size k) va'"
    using lw(2) [OF idxs_path] that il sp(1) by (auto simp: nx_pt_query_xl xl_def i_def)
  assume "in_leaf va (level_size k) va'"
  then have c: "nx_pt_is_canonical va'" and r: "idxs va' 3 = p @ i # drop (4 - k) (idxs va' 3)" using il sp(2) by auto
  have lr: "length (drop (4 - k) (idxs va' 3)) = k" using assms(2) by simp
  then have "xl (wrp m t i v) root va' = Some (t, i, v, k)"
    using lw(4) [OF idxs_path r lv(3)] lv(4) assms(2) by (cases k) (auto simp: xl_def leaf_bits_def level_size_def)
  moreover have "xl m root va' = None"
    using lk_append [OF t'(1), of "i # drop (4 - k) (idxs va' 3)"] r assms(6) by (simp add: xl_def i_def)
  moreover have "link v AND NOT (level_size k - 1) = pa" using and_split [of pa "level_size k - 1"] pa(2) lv(1) by simp
  ultimately show "nx_pt_query root va' (wrp m t (index_of va k) v) = Inr (leaf_at pa (level_size k) flags va')
      \<and> nx_pt_query root va' m = Inl NX_PT_E_NOT_MAPPED"
    using c lv(2) by (simp add: nx_pt_query_xl i_def leaf_result_def leaf_at_def)
qed

lemma map_walked:
  assumes "inv s" and "T \<subseteq> owned s" and g: "pt_grown inv avail owned root (m, s, T) (m1, s1, T1)"
    and t: "tb rdp m1 root (take (3 - k) (idxs va 3)) = Some t" and "k \<le> 1" and ca: "nx_pt_is_canonical va"
    and al: "va AND (level_size k - 1) = 0" "pa AND (level_size k - 1) = 0" and "pa < NX_PHYS_MAX"
    and "flags AND NOT NX_PT_LEAF_FLAGS = 0" and "sz = level_size k"
  defines "i \<equiv> index_of va k"
  defines "v \<equiv> pa OR flags OR NX_PTE_P OR leaf_bits (level_size k)"
  defines "r \<equiv> (if rdp m1 t i AND NX_PTE_P \<noteq> 0 then (NX_PT_E_EXISTS, m1) else (NX_PT_OK, wrp m1 t i v))"
  shows "pt_step inv avail owned root (m, s, T) (snd r, s1, T1) \<and> map_effect root va pa sz flags (fst r) m (snd r)"
proof (cases "rdp m1 t i AND NX_PTE_P \<noteq> 0")
  case True
  have "\<exists>e. nx_pt_query root va m = Inr e" if "sz = NX_PAGE_4K"
  proof -
    have k: "k = 0" using that assms(5,11) by (cases k) (auto simp: level_size_def)
    have k2: "k \<le> 2" using k by simp
    have "xl m1 root va \<noteq> None"
      using lk_append [OF t, of "[i]"] True take_nth_split(2) [OF length_idxs_3 length_idxs_3 k2 refl, of va] idxs_nth [OF k2, of va] k
      by (auto simp: xl_def i_def)
    then show ?thesis using grown_step_query(2) [OF g, of va] query_mapped [OF ca] by simp
  qed
  then show ?thesis using True grown_step_query [OF g] by (simp add: r_def map_effect_def)
next
  case False
  have ok1: "tree_ok rdp page_base m1 root T1" using g by (simp add: pt_grown_def)
  note ml = map_leaf [OF ok1 assms(5) ca al(1) t _ assms(9) al(2) assms(10), folded i_def v_def]
  have st: "pt_step inv avail owned root (m, s, T) (m1, s1, T1)" by (rule grown_step_query(1) [OF g])
  have "page_same m (wrp m1 t i v) u" if "page_base u" "u \<notin> T1" for u
    using page_same_trans [of m m1 u] st wrq_page [of t u i m1 v] ml(2,3) False that index_of_less [of va k]
    by (auto simp: pt_step_def i_def)
  then have "pt_step inv avail owned root (m, s, T) (wrp m1 t i v, s1, T1)" using st ml(1) False by (simp add: pt_step_def)
  then show ?thesis
    using ml(4,5) False grown_step_query(3) [OF g] by (simp add: r_def map_effect_def assms(11))
qed

lemma nx_pt_map_spec:
  assumes "inv s" and "tree_ok rdp page_base m root T" and "T \<subseteq> owned s"
    and "nx_pt_map alloc root va pa sz flags (m, s) = (st, m', s')"
  shows "\<exists>T'. pt_step inv avail owned root (m, s, T) (m', s', T') \<and> map_effect root va pa sz flags st m m'"
proof -
  define k :: nat where "k = (if sz = NX_PAGE_2M then 1 else 0)"
  define bad where "bad \<longleftrightarrow> sz \<noteq> NX_PAGE_4K \<and> sz \<noteq> NX_PAGE_2M \<or> (va OR pa) AND (sz - 1) \<noteq> 0
    \<or> \<not> nx_pt_is_canonical va \<or> pa \<ge> NX_PHYS_MAX \<or> flags AND NOT NX_PT_LEAF_FLAGS \<noteq> 0"
  show ?thesis
  proof (cases bad)
    case True
    then have "st \<notin> {NX_PT_OK, NX_PT_E_EXISTS}" "m' = m" "s' = s"
      using assms(4) by (auto simp: nx_pt_map_def bad_def split: if_splits)
    then show ?thesis using grown_step_query(1) [OF pt_grown_refl [OF assms(1-3)]] by (auto simp: map_effect_def)
  next
    case False
    then have sz: "sz = level_size k" "k \<le> 1" and ca: "nx_pt_is_canonical va" and fl: "flags AND NOT NX_PT_LEAF_FLAGS = 0"
      and pl: "pa < NX_PHYS_MAX" and or0: "(va OR pa) AND (sz - 1) = 0"
      by (auto simp: bad_def k_def level_size_def)
    have al: "va AND (level_size k - 1) = 0" "pa AND (level_size k - 1) = 0"
      using or0 unfolding sz(1) and_or_zero by (simp_all add: or_eq_0_iff)
    obtain r m1 s1 where w: "walk_create alloc root va k (flags AND NX_PTE_U) (m, s) = (r, m1, s1)"
      by (metis prod.collapse)
    have "k \<le> 2" using sz(2) by simp
    from walk_create_spec [OF assms(1-3) this and_user w] obtain T1 where
      g: "pt_grown inv avail owned root (m, s, T) (m1, s1, T1)"
      and tt: "\<And>t. r = Inr t \<Longrightarrow> tb rdp m1 root (take (3 - k) (idxs va 3)) = Some t"
      and ex: "r = Inl NX_PT_E_EXISTS \<Longrightarrow> xl m root va \<noteq> None"
      and rr: "r \<in> range Inr \<or> r = Inl NX_PT_E_EXISTS \<or> r = Inl NX_PT_E_NOMEM"
      by blast
    have lb: "(if k = 1 then NX_PTE_PS else 0) = leaf_bits (level_size k)" by (auto simp: leaf_bits_def level_size_def)
    have run: "(st, m', s') = (case r of Inl st \<Rightarrow> (st, m1, s1)
        | Inr t \<Rightarrow> if rdp m1 t (index_of va k) AND NX_PTE_P \<noteq> 0 then (NX_PT_E_EXISTS, m1, s1)
            else (NX_PT_OK, wrp m1 t (index_of va k) (pa OR flags OR NX_PTE_P OR leaf_bits (level_size k)), s1))"
    proof -
      have "nx_pt_map alloc root va pa sz flags (m, s) = (case walk_create alloc root va k (flags AND NX_PTE_U) (m, s) of
          (Inl st, m, s) \<Rightarrow> (st, m, s)
        | (Inr t, m, s) \<Rightarrow> if rdp m t (index_of va k) AND NX_PTE_P \<noteq> 0 then (NX_PT_E_EXISTS, m, s)
            else (NX_PT_OK, wrp m t (index_of va k) (pa OR flags OR NX_PTE_P OR (if k = 1 then NX_PTE_PS else 0)), s))"
        using False unfolding nx_pt_map_def bad_def k_def Let_def by (auto split: sum.split prod.split)
      then show ?thesis unfolding assms(4) w lb by (cases r) simp_all
    qed
    show ?thesis
    proof (cases r)
      case (Inl e)
      then show ?thesis
        using run rr ex grown_step_query [OF g] query_mapped [OF ca, of m root] by (auto simp: map_effect_def)
    next
      case (Inr t)
      then show ?thesis
        using map_walked [OF assms(1,3) g tt [OF Inr] sz(2) ca al pl fl sz(1)] run by (auto split: if_splits)
    qed
  qed
qed

end

section \<open>Mapping a range\<close>

text \<open>
  The first \<open>n\<close> bytes of a range have been mapped: they were unmapped before, and each is now
  translated to the byte at the same offset; every other address is translated as before.
\<close>

definition range_effect :: "u64 \<Rightarrow> u64 \<Rightarrow> u64 \<Rightarrow> nat \<Rightarrow> u64 \<Rightarrow> pmem \<Rightarrow> pmem \<Rightarrow> bool" where
  "range_effect root va pa n flags m m' \<longleftrightarrow> (\<forall>va'.
     if unat va \<le> unat va' \<and> unat va' < unat va + n
     then nx_pt_query root va' m = Inl NX_PT_E_NOT_MAPPED
       \<and> (\<exists>sz \<in> {NX_PAGE_4K, NX_PAGE_2M}. nx_pt_query root va' m' =
            Inr (pa + (va' - va), flags OR NX_PTE_P OR leaf_bits sz, sz))
     else nx_pt_query root va' m' = nx_pt_query root va' m)"

lemma div_range:
  fixes a c d :: nat
  assumes "0 < d"
  shows "a div d * d = d * c \<longleftrightarrow> d * c \<le> a \<and> a < d * c + d"
proof
  assume "a div d * d = d * c"
  then show "d * c \<le> a \<and> a < d * c + d"
    using div_mult_mod_eq [of a d] mod_less_divisor [OF assms, of a] by linarith
next
  assume "d * c \<le> a \<and> a < d * c + d"
  then have "a div d = c" by (intro div_nat_eqI) (simp_all add: algebra_simps)
  then show "a div d * d = d * c" by simp
qed

lemma in_leaf_range:
  assumes "va AND (sz - 1) = 0" and "sz = NX_PAGE_4K \<or> sz = NX_PAGE_2M"
  shows "in_leaf va sz va' \<longleftrightarrow> unat va \<le> unat va' \<and> unat va' < unat va + unat sz"
    and "in_leaf va sz va' \<Longrightarrow> va' AND (sz - 1) = va' - va"
proof -
  obtain n where n: "sz - 1 = mask n" "unat sz = 2 ^ n" and pw: "unat (2 ^ n :: u64) = 2 ^ n"
    using assms(2) by (elim disjE) (force simp: mask_eq_exp_minus_1 intro: that [of 12] that [of 21])+
  have v: "2 ^ n dvd unat va"
    using assms(1) n by (simp add: and_mask_mod word_unat_eq_iff unat_mod pw mod_eq_0_iff_dvd)
  have s: "va' = (va' AND NOT (mask n)) + (va' AND mask n)" by (simp add: and_not_mask_sub and_mask_mod)
  show "va' AND (sz - 1) = va' - va" if "in_leaf va sz va'"
    using that s unfolding in_leaf_def n(1) by (metis add_diff_cancel_left')
  have "unat (va' AND NOT (mask n)) = unat va' div 2 ^ n * 2 ^ n"
    unfolding and_not_mask_sub
    by (subst unat_sub) (simp_all add: word_le_nat_alt unat_mod pw minus_mod_eq_div_mult)
  then have "in_leaf va sz va' \<longleftrightarrow> unat va' div 2 ^ n * 2 ^ n = unat va"
    unfolding in_leaf_def n(1) by (simp add: word_unat_eq_iff)
  also have "\<dots> \<longleftrightarrow> unat va \<le> unat va' \<and> unat va' < unat va + 2 ^ n"
    using div_range [of "2 ^ n" "unat va'"] v by (auto elim!: dvdE)
  finally show "in_leaf va sz va' \<longleftrightarrow> unat va \<le> unat va' \<and> unat va' < unat va + unat sz" using n(2) by simp
qed

lemma pt_step_trans:
  assumes "pt_step I avail owned root (m, s, T) (m1, s1, T1)" and "pt_step I avail owned root (m1, s1, T1) (m2, s2, T2)"
    and "T \<subseteq> owned s" and "T1 \<inter> owned s = T"
  shows "pt_step I avail owned root (m, s, T) (m2, s2, T2)"
  using assms page_same_trans [of m m1 _ m2] unfolding pt_step_def by auto

lemma map_ok_aligned:
  "nx_pt_map alloc root va pa sz flags ms = (NX_PT_OK, r) \<Longrightarrow> va AND (sz - 1) = 0 \<and> (sz = NX_PAGE_4K \<or> sz = NX_PAGE_2M)"
  by (cases ms) (auto simp: nx_pt_map_def and_or_zero or_eq_0_iff split: if_splits)

lemma map_effect_range:
  assumes "map_effect root va pa sz flags NX_PT_OK m m'" and "va AND (sz - 1) = 0" and "sz = NX_PAGE_4K \<or> sz = NX_PAGE_2M"
  shows "range_effect root va pa (unat sz) flags m m'"
  using assms(1,3) in_leaf_range [OF assms(2,3)] by (auto simp: map_effect_def range_effect_def leaf_at_def)

lemma range_effect_none: "(\<And>v. nx_pt_query root v m' = nx_pt_query root v m) \<Longrightarrow> range_effect root va pa 0 flags m m'"
  by (auto simp: range_effect_def)

lemma range_effect_append:
  assumes "range_effect root va pa (unat sz) flags m m1" and "range_effect root (va + sz) (pa + sz) n flags m1 m2"
    and "unat (va + sz) = unat va + unat sz"
  shows "range_effect root va pa (unat sz + n) flags m m2"
  unfolding range_effect_def
proof
  fix v
  note a = assms(1) [unfolded range_effect_def, THEN spec, of v] assms(2) [unfolded range_effect_def, THEN spec, of v]
  have e: "pa + sz + (v - (va + sz)) = pa + (v - va)" by simp
  show "if unat va \<le> unat v \<and> unat v < unat va + (unat sz + n)
     then nx_pt_query root v m = Inl NX_PT_E_NOT_MAPPED
       \<and> (\<exists>sz \<in> {NX_PAGE_4K, NX_PAGE_2M}. nx_pt_query root v m2 = Inr (pa + (v - va), flags OR NX_PTE_P OR leaf_bits sz, sz))
     else nx_pt_query root v m2 = nx_pt_query root v m"
    using a unfolding e assms(3) by (cases "unat v < unat va + unat sz"; cases "unat va \<le> unat v") (simp_all split: if_splits)
qed

context table_source
begin

lemma map_range_loop_spec:
  assumes "inv s" and "tree_ok rdp page_base m root T" and "T \<subseteq> owned s" and "unat len mod 4096 = 0"
    and "unat va + unat len < 2 ^ 64"
  shows "\<exists>st m' s' T' n. map_range_loop alloc root va pa len flags large (m, s) = Some (st, m', s')
    \<and> pt_step inv avail owned root (m, s, T) (m', s', T') \<and> n \<le> unat len \<and> (st = NX_PT_OK \<longrightarrow> n = unat len)
    \<and> range_effect root va pa n flags m m'"
  using assms
proof (induction "unat len" arbitrary: len va pa m s T rule: less_induct)
  case less
  have re: "pt_step inv avail owned root (m, s, T) (m, s, T)" "range_effect root va pa 0 flags m m"
    using grown_step_query(1) [OF pt_grown_refl [OF less.prems(1-3)]] by (simp_all add: range_effect_none)
  show ?case
  proof (cases "len = 0")
    case True
    then show ?thesis using re by (subst map_range_loop.simps) auto
  next
    case False
    define sz :: u64 where "sz = (if large \<and> (va OR pa) AND (NX_PAGE_2M - 1) = 0 \<and> len \<ge> NX_PAGE_2M then NX_PAGE_2M else NX_PAGE_4K)"
    have sz: "sz = NX_PAGE_4K \<or> sz = NX_PAGE_2M" "0 < unat sz" by (simp_all add: sz_def)
    have "4096 dvd unat len" "0 < unat len" using less.prems(4) False by (auto simp: mod_eq_0_iff_dvd unat_gt_0)
    then have le: "unat sz \<le> unat len" using dvd_imp_le by (auto simp: sz_def word_le_nat_alt)
    obtain st m1 s1 where r: "nx_pt_map alloc root va pa sz flags (m, s) = (st, m1, s1)" by (metis prod.collapse)
    from nx_pt_map_spec [OF less.prems(1-3) r] obtain T1 where
      st1: "pt_step inv avail owned root (m, s, T) (m1, s1, T1)" and me: "map_effect root va pa sz flags st m m1" by blast
    have loop: "map_range_loop alloc root va pa len flags large (m, s) =
      (if st \<noteq> NX_PT_OK then Some (st, m1, s1) else map_range_loop alloc root (va + sz) (pa + sz) (len - sz) flags large (m1, s1))"
      by (subst map_range_loop.simps) (simp only: Let_def sz_def [symmetric] False if_False r fst_conv snd_conv)
    show ?thesis
    proof (cases "st = NX_PT_OK")
      case False
      then have "range_effect root va pa 0 flags m m1" using me by (intro range_effect_none) (simp add: map_effect_def)
      then show ?thesis unfolding loop using False st1 by (auto intro!: exI [of _ T1] exI [of _ 0])
    next
      case True
      note al = map_ok_aligned [OF r [unfolded True]]
      note ef = map_effect_range [OF me [unfolded True] conjunct1 [OF al] sz(1)]
      have u: "unat (len - sz) = unat len - unat sz" "unat (va + sz) = unat va + unat sz"
        using le less.prems(5) by (simp_all add: unat_sub word_le_nat_alt unat_word_ariths)
      have md: "unat (len - sz) mod 4096 = 0" using sz(1) less.prems(4) le unfolding u(1) by (auto simp: mod_eq_0_iff_dvd intro: dvd_diff_nat)
      have i1: "inv s1" "tree_ok rdp page_base m1 root T1" "T1 \<subseteq> owned s1" "T1 \<inter> owned s = T" using st1 by (auto simp: pt_step_def)
      have "unat (len - sz) < unat len" "unat (va + sz) + unat (len - sz) < 2 ^ 64" using u le sz(2) less.prems(5) by auto
      from less.hyps [OF this(1) i1(1-3) md this(2), of "pa + sz"] obtain st2 m2 s2 T2 n where
        n: "map_range_loop alloc root (va + sz) (pa + sz) (len - sz) flags large (m1, s1) = Some (st2, m2, s2)"
          "pt_step inv avail owned root (m1, s1, T1) (m2, s2, T2)" "n \<le> unat (len - sz)" "st2 = NX_PT_OK \<longrightarrow> n = unat (len - sz)"
          "range_effect root (va + sz) (pa + sz) n flags m1 m2" by blast
      have "range_effect root va pa (unat sz + n) flags m m2" by (rule range_effect_append [OF ef n(5) u(2)])
      then show ?thesis
        using n(1,3,4) pt_step_trans [OF st1 n(2) less.prems(3) i1(4)] True le u(1) unfolding loop
        by (intro exI [of _ st2] exI [of _ m2] exI [of _ s2] exI [of _ T2] exI [of _ "unat sz + n"]) auto
    qed
  qed
qed

end

section \<open>Unmapping\<close>

lemma lk_split:
  "lk rdp m t q = Some (u, i, e, k) \<Longrightarrow> length q \<le> 3 \<Longrightarrow>
     \<exists>p r. q = p @ i # r \<and> tb rdp m t p = Some u \<and> length r = k \<and> (k = 0 \<or> \<not> is_link e)"
proof (induction q arbitrary: t)
  case (Cons j q)
  have len: "q = [] \<or> length q = 1 \<or> length q = 2" using Cons.prems(2) by (cases q; cases "tl q") auto
  show ?case
  proof (cases "q = [] \<or> rdp m t j AND NX_PTE_PS \<noteq> 0")
    case True
    then have "u = t" "i = j" "length q = k" "k = 0 \<or> \<not> is_link e"
      using Cons.prems len by (auto simp: is_link_def split: if_splits)
    then show ?thesis by (intro exI [of _ "[]"] exI [of _ q]) simp
  next
    case False
    then have l: "is_link (rdp m t j)" "lk rdp m (link (rdp m t j)) q = Some (u, i, e, k)"
      using Cons.prems by (auto simp: is_link_def split: if_splits)
    then obtain p r where "q = p @ i # r" "tb rdp m (link (rdp m t j)) p = Some u" "length r = k" "k = 0 \<or> \<not> is_link e"
      using Cons.IH Cons.prems(2) by fastforce
    then show ?thesis using l(1) by (intro exI [of _ "j # p"] exI [of _ r]) simp
  qed
qed simp

lemma xl_split:
  assumes "tree_ok rdp page_base m root T" and "xl m root va = Some (u, i, e, k)"
  shows "k \<le> 2" and "i = index_of va k" and "tb rdp m root (take (3 - k) (idxs va 3)) = Some u"
    and "k = 0 \<or> \<not> is_link (rdp m u i)"
proof -
  define j where "j = index_of va 3"
  have q: "idxs va 3 = j # idxs va 2" by (simp add: j_def numeral_3_eq_3 numeral_2_eq_2)
  have "rdp m root j AND NX_PTE_P \<noteq> 0 \<longrightarrow> rdp m root j AND NX_PTE_PS = 0"
    using assms(1) index_of_less [of va 3] by (simp add: tree_ok_def j_def)
  moreover have "length (idxs va 2) = 3" "idxs va 2 \<noteq> []" by (simp_all flip: length_0_conv)
  ultimately have l: "is_link (rdp m root j)" "lk rdp m (link (rdp m root j)) (idxs va 2) = Some (u, i, e, k)"
    using assms(2) unfolding xl_def q by (auto simp: is_link_def split: if_splits)
  obtain p r where s: "idxs va 2 = p @ i # r" "tb rdp m (link (rdp m root j)) p = Some u" "length r = k" "k = 0 \<or> \<not> is_link e"
    using lk_split [OF l(2)] by auto
  have len: "length p + k = 2" using arg_cong [OF s(1), of length] s(3) by simp
  then show k: "k \<le> 2" by simp
  have p: "idxs va 3 = (j # p) @ i # r" using q s(1) by simp
  have n: "length (j # p) = 3 - k" using len by simp
  show "i = index_of va k" using idxs_nth [OF k, of va] unfolding p n [symmetric] nth_append by simp
  show "tb rdp m root (take (3 - k) (idxs va 3)) = Some u" using l(1) s(2) unfolding p n [symmetric] by simp
  show "k = 0 \<or> \<not> is_link (rdp m u i)" using s(4) lk_entry [OF l(2)] by simp
qed

text \<open>
  What a call of \<open>nx_pt_unmap\<close> does to the translation: nothing when it fails; otherwise it reports the
  page of the address, and exactly the addresses of that page are no longer translated.
\<close>

definition unmap_effect :: "u64 \<Rightarrow> u64 \<Rightarrow> nx_pt_status + u64 \<times> u64 \<Rightarrow> pmem \<Rightarrow> pmem \<Rightarrow> bool" where
  "unmap_effect root va r m m' \<longleftrightarrow> (case r of
       Inl st \<Rightarrow> m' = m \<and> nx_pt_query root va m = Inl st
     | Inr (pa, sz) \<Rightarrow>
         (\<exists>flags. nx_pt_query root va m = Inr (pa + (va AND (sz - 1)), flags, sz))
         \<and> (\<forall>va'. nx_pt_query root va' m' =
              (if in_leaf (va AND NOT (sz - 1)) sz va' then Inl NX_PT_E_NOT_MAPPED else nx_pt_query root va' m)))"

lemma unmap_leaf:
  assumes "tree_ok rdp page_base m root T" and x: "xl m root va = Some (u, i, e, k)" and ca: "nx_pt_is_canonical va"
  shows "tree_ok rdp page_base (wrp m u i 0) root T" and "u \<in> T" and "page_base u" and "i < ENTRIES"
    and "nx_pt_query root va' (wrp m u i 0) =
      (if in_leaf (va AND NOT (level_size k - 1)) (level_size k) va' then Inl NX_PT_E_NOT_MAPPED else nx_pt_query root va' m)"
proof -
  note xs = xl_split [OF assms(1) x]
  define p where "p = take (3 - k) (idxs va 3)"
  have p: "path_ok 3 p" "length p = 3 - k" using idxs_ok [of _ va 3] by (auto simp: p_def path_ok_def dest: in_set_takeD)
  have t: "tb rdp m root p = Some u" using xs(3) by (simp add: p_def)
  show i: "i < ENTRIES" using xs(2) index_of_less by simp
  show "u \<in> T" "page_base u" using tree_ok_table [OF assms(1) p(1) t] by auto
  have p0: "p \<noteq> []" using p(2) xs(1) by auto
  have nl: "length p = 3 \<or> \<not> is_link (rdp m u i) \<and> \<not> is_link 0" using p(2) xs(4) by (auto simp: is_link_def)
  note lw = pm.leaf_write [OF assms(1) p(1) t i p0 nl]
  show "tree_ok rdp page_base (wrp m u i 0) root T" by (rule lw(1))
  define b where "b = va AND NOT (level_size k - 1)"
  have m: "level_size k - 1 = mask (12 + 9 * k)" by (rule level_size_mask [OF xs(1)])
  have "agree (12 + 9 * k) b va" using agree_mask [of b "12 + 9 * k" va] by (simp add: b_def m and.assoc)
  then have ag: "agree (12 + 9 * k) b va' \<longleftrightarrow> agree (12 + 9 * k) va va'" by (auto simp: agree_def)
  have il: "in_leaf b (level_size k) va' \<longleftrightarrow> nx_pt_is_canonical va' \<and> take (4 - k) (idxs va 3) = take (4 - k) (idxs va' 3)"
    using agree_mask [of b "12 + 9 * k" va'] ag same_leaf [OF ca xs(1), of va']
    by (simp add: in_leaf_def m b_def and.assoc)
  note sp = take_nth_split [OF length_idxs_3 length_idxs_3 xs(1), of va va', unfolded idxs_nth [OF xs(1)], folded p_def xs(2)]
  show "nx_pt_query root va' (wrp m u i 0) =
      (if in_leaf (va AND NOT (level_size k - 1)) (level_size k) va' then Inl NX_PT_E_NOT_MAPPED else nx_pt_query root va' m)"
  proof (cases "in_leaf b (level_size k) va'")
    case True
    then have r: "idxs va' 3 = p @ i # drop (4 - k) (idxs va' 3)" using sp(2) il by blast
    have "lk rdp (wrp m u i 0) root (idxs va' 3) = None" by (rule lw(3) [OF idxs_path r]) simp
    then show ?thesis using True il by (simp add: b_def nx_pt_query_xl xl_def)
  next
    case False
    then show ?thesis using lw(2) [OF idxs_path] il sp(1) by (auto simp: b_def [symmetric] nx_pt_query_xl xl_def)
  qed
qed

lemma nx_pt_unmap_spec:
  assumes "tree_ok rdp page_base m root T" and "nx_pt_unmap root va m = (r, m')"
  shows "tree_ok rdp page_base m' root T" and "unmap_effect root va r m m'"
    and "page_base v \<Longrightarrow> v \<notin> T \<Longrightarrow> page_same m m' v"
proof -
  have "tree_ok rdp page_base m' root T \<and> unmap_effect root va r m m' \<and> (page_base v \<and> v \<notin> T \<longrightarrow> page_same m m' v)"
  proof (cases "find_leaf m root va")
    case (Inl st)
    then have "r = Inl st" "m' = m" using assms(2) by (simp_all add: nx_pt_unmap_def)
    then show ?thesis using assms(1) Inl by (simp add: unmap_effect_def nx_pt_query_def)
  next
    case (Inr l)
    then have ca: "nx_pt_is_canonical va" by (auto simp: find_leaf_xl split: if_splits)
    with Inr obtain u i e k where x: "xl m root va = Some (u, i, e, k)" and l: "l = (pte u i, level_size k)"
      by (auto simp: find_leaf_xl split: option.splits)
    have e: "e = rdp m u i" using x lk_entry by (auto simp: xl_def)
    have r: "r = Inr (link e AND NOT (level_size k - 1), level_size k)" and m': "m' = wrp m u i 0"
      using assms(2) Inr by (simp_all add: nx_pt_unmap_def l e link_def and.assoc)
    note ul = unmap_leaf [OF assms(1) x ca]
    have "nx_pt_query root va m = Inr (leaf_result va e k)" using ca x by (simp add: nx_pt_query_xl)
    then have "unmap_effect root va r m m'" using ul(5) by (simp add: unmap_effect_def r m' leaf_result_def)
    moreover have "page_same m m' v" if "page_base v" "v \<notin> T"
      using wrq_page [OF ul(3) that(1) _ ul(4), of m 0] that(2) ul(2) m' by auto
    ultimately show ?thesis using ul(1) m' by simp
  qed
  then show "tree_ok rdp page_base m' root T" "unmap_effect root va r m m'"
    "page_base v \<Longrightarrow> v \<notin> T \<Longrightarrow> page_same m m' v" by auto
qed

section \<open>Page tables over the page allocator\<close>

text \<open>Page tables are linked by physical addresses of 52 bits, so the allocator's span ends below them.\<close>

definition pt_pmm :: "nx_pmm \<Rightarrow> bool" where
  "pt_pmm p \<longleftrightarrow> pmm_inv p \<and> np p \<le> 2 ^ 40"

lemma alloc_span: "pm_npages (snd (nx_pmm_alloc p)) = pm_npages p"
  by (auto simp: nx_pmm_alloc_def Let_def split: option.splits)

lemma free_span: "pm_npages (fst (nx_pmm_free p a)) = pm_npages p"
  by (simp add: pmm_free_eq)

lemma avail_page:
  assumes "pt_pmm p" and "a \<in> pmm_avail p"
  shows "page_base a" and "a < NX_PHYS_MAX"
proof -
  have a: "pg_aligned a" "unat a div 4096 < 2 ^ 40" using assms by (auto simp: pt_pmm_def pmm_avail_def pgno_def)
  show "page_base a" using a(1) by (simp add: pg_aligned_def page_base_def and_4095_zero)
  have "unat a < 2 ^ 40 * 4096" using a(2) by (simp add: div_less_iff_less_mult)
  then show "a < NX_PHYS_MAX" by (simp add: word_less_nat_alt)
qed

interpretation ptm: table_source nx_pmm_alloc nx_pmm_free NX_PMM_OK pt_pmm pmm_avail pmm_owned
proof
  fix p a q and st :: nx_pmm_status
  show "pt_pmm p \<Longrightarrow> pmm_avail p = {} \<Longrightarrow> nx_pmm_alloc p = (0, p)" using pmm.alloc_none by (simp add: pt_pmm_def)
  show "pt_pmm p \<Longrightarrow> pmm_avail p \<noteq> {} \<Longrightarrow> nx_pmm_alloc p = (a, q) \<Longrightarrow>
      a \<in> pmm_avail p \<and> pt_pmm q \<and> pmm_avail q = pmm_avail p - {a} \<and> pmm_owned q = insert a (pmm_owned p)"
    using pmm.alloc_some [of p a q] alloc_span [of p] by (simp add: pt_pmm_def)
  show "pt_pmm p \<Longrightarrow> a \<in> pmm_owned p \<Longrightarrow> nx_pmm_free p a = (q, st) \<Longrightarrow>
      st = NX_PMM_OK \<and> pt_pmm q \<and> pmm_avail q = insert a (pmm_avail p) \<and> pmm_owned q = pmm_owned p - {a}"
    using pmm.free_owned [of p a q st] free_span [of p a] by (simp add: pt_pmm_def)
  show "pt_pmm p \<Longrightarrow> a \<notin> pmm_owned p \<Longrightarrow> nx_pmm_free p a = (q, st) \<Longrightarrow> st \<noteq> NX_PMM_OK \<and> q = p"
    using pmm.free_other [of p a q st] by (simp add: pt_pmm_def)
  show "pt_pmm p \<Longrightarrow> 0 \<notin> pmm_avail p" using pmm.null_page by (simp add: pt_pmm_def)
  show "pt_pmm p \<Longrightarrow> pmm_avail p \<inter> pmm_owned p = {}" using pmm.apart by (simp add: pt_pmm_def)
  show "pt_pmm p \<Longrightarrow> a \<in> pmm_avail p \<Longrightarrow> page_base a \<and> link a = a" using avail_page link_phys by blast
qed

lemma map_range_guard:
  fixes va pa len :: u64
  assumes "\<not> (len \<noteq> 0 \<and> (va > - 1 - len \<or> pa > - 1 - len))"
  shows "unat va + unat len < 2 ^ 64"
proof (cases "len = 0")
  case False
  then have "unat va \<le> 18446744073709551615 - unat len" using assms unat_max_sub [of len] by (simp add: word_less_nat_alt)
  then show ?thesis using unat_u64_less [of len] by simp
qed (simp add: unat_u64_less)

text \<open>
  C22. Mapping one page. For a page-table tree whose tables are pages held from the allocator, a call
  of \<open>nx_pt_map\<close> keeps the tree well-formed, takes new tables only from the free pages and writes
  no page outside the tree. When it fails no translation changes, and the failure EXISTS for a small
  page means the address was mapped. When it succeeds exactly the addresses of the page change: they
  were unmapped and are now translated to the given frame with the given flags.
\<close>

theorem pt_map_exact:
  assumes "pt_pmm p" and "tree_ok rdp page_base m root T" and "T \<subseteq> pmm_owned p"
    and "nx_pt_map nx_pmm_alloc root va pa sz flags (m, p) = (st, m', p')"
  shows "\<exists>T'. pt_step pt_pmm pmm_avail pmm_owned root (m, p, T) (m', p', T') \<and> map_effect root va pa sz flags st m m'"
  by (rule ptm.nx_pt_map_spec [OF assms])

text \<open>
  C23. Mapping a range returns for every input. Afterwards a prefix of the range has been mapped to the
  consecutive frames, the whole range exactly when the call succeeds; every other address is
  translated as before, and the tree and the ownership of its tables are kept.
\<close>

theorem pt_map_range_exact:
  assumes "pt_pmm p" and "tree_ok rdp page_base m root T" and "T \<subseteq> pmm_owned p"
  shows "\<exists>st m' p' T' n. nx_pt_map_range nx_pmm_alloc root va pa len flags large (m, p) = Some (st, m', p')
    \<and> pt_step pt_pmm pmm_avail pmm_owned root (m, p, T) (m', p', T')
    \<and> n \<le> unat len \<and> (st = NX_PT_OK \<longrightarrow> n = unat len) \<and> range_effect root va pa n flags m m'"
proof -
  have same: "pt_step pt_pmm pmm_avail pmm_owned root (m, p, T) (m, p, T)" "range_effect root va pa 0 flags m m"
    using grown_step_query(1) [OF ptm.pt_grown_refl [OF assms]] by (simp_all add: range_effect_none)
  consider "(va OR pa OR len) AND (NX_PAGE_4K - 1) \<noteq> 0"
    | "(va OR pa OR len) AND (NX_PAGE_4K - 1) = 0" "len \<noteq> 0 \<and> (va > - 1 - len \<or> pa > - 1 - len)"
    | "(va OR pa OR len) AND (NX_PAGE_4K - 1) = 0" "\<not> (len \<noteq> 0 \<and> (va > - 1 - len \<or> pa > - 1 - len))"
    by blast
  then show ?thesis
  proof cases
    case 3
    have "len AND 4095 = 0" using 3(1) by (simp add: and_or_zero or_eq_0_iff)
    then have "unat len mod 4096 = 0" by (simp add: and_4095_zero)
    from ptm.map_range_loop_spec [OF assms this map_range_guard [OF 3(2)], of pa flags large] show ?thesis
      unfolding nx_pt_map_range_def using 3 by (simp only: if_False not_True_eq_False simp_thms)
  qed (use same in \<open>auto simp: nx_pt_map_range_def intro!: exI [of _ T] exI [of _ 0]\<close>)
qed

text \<open>
  C24. Unmapping. A call of \<open>nx_pt_unmap\<close> keeps the tree and writes no page outside it. When it fails
  nothing changes and the address was not translated. When it succeeds it reports the frame and the
  size of the page of the address (1 GiB pages included), and exactly the addresses of that page are
  no longer translated.
\<close>

theorem pt_unmap_exact:
  assumes "tree_ok rdp page_base m root T" and "nx_pt_unmap root va m = (r, m')"
  shows "tree_ok rdp page_base m' root T \<and> unmap_effect root va r m m'
    \<and> (\<forall>u. page_base u \<and> u \<notin> T \<longrightarrow> page_same m m' u)"
  using nx_pt_unmap_spec [OF assms] by blast

section \<open>Witnesses\<close>

definition ex_root :: u64 where
  "ex_root = fst (nx_pmm_alloc ex_pmm)"

definition ex_pt :: nx_pmm where
  "ex_pt = snd (nx_pmm_alloc ex_pmm)"

lemma rdp_zero: "rdp (\<lambda>_. 0) t i = 0"
proof -
  have "le_dec (replicate n (0 :: u8)) = (0 :: u64)" for n by (induction n) (simp_all add: le_dec_def)
  then show ?thesis by (simp add: rdq_def map_replicate_const)
qed

lemma ex_pt_ok: "pt_pmm ex_pt" "tree_ok rdp page_base (\<lambda>_. 0) ex_root {ex_root}" "{ex_root} \<subseteq> pmm_owned ex_pt"
proof -
  have p: "pt_pmm ex_pmm" using ex_pmm_inv by (simp add: pt_pmm_def ex_pmm_def)
  have "pmm_avail ex_pmm \<noteq> {}" using card_pmm_avail [OF ex_pmm_inv] by (auto simp: ex_pmm_def)
  note a = ptm.alloc_some [OF p this, of ex_root ex_pt]
  have e: "nx_pmm_alloc ex_pmm = (ex_root, ex_pt)" by (simp add: ex_root_def ex_pt_def)
  show "pt_pmm ex_pt" "{ex_root} \<subseteq> pmm_owned ex_pt" using a [OF e] by simp_all
  have b: "page_base ex_root" using ptm.table_page [OF p] a [OF e] by blast
  have "tb rdp (\<lambda>_. 0) ex_root q = Some t \<Longrightarrow> q = [] \<and> t = ex_root" for q t
    by (cases q) (simp_all add: rdp_zero is_link_def)
  then show "tree_ok rdp page_base (\<lambda>_. 0) ex_root {ex_root}" using b by (auto simp: tree_ok_def rdp_zero)
qed

theorem pt_map_exact_witness:
  "\<exists>st m' p'. nx_pt_map nx_pmm_alloc ex_root 0x400000 0x7000 NX_PAGE_4K NX_PTE_U (\<lambda>_. 0, ex_pt) = (st, m', p')
     \<and> pt_pmm p' \<and> map_effect ex_root 0x400000 0x7000 NX_PAGE_4K NX_PTE_U st (\<lambda>_. 0) m'"
proof -
  obtain st m' p' where r: "nx_pt_map nx_pmm_alloc ex_root 0x400000 0x7000 NX_PAGE_4K NX_PTE_U (\<lambda>_. 0, ex_pt) = (st, m', p')"
    by (metis prod.collapse)
  show ?thesis using pt_map_exact [OF ex_pt_ok r] r by (auto simp: pt_step_def)
qed

theorem pt_map_range_exact_witness:
  "\<exists>st m' p'. nx_pt_map_range nx_pmm_alloc ex_root 0x400000 0x7000 0x3000 NX_PTE_U True (\<lambda>_. 0, ex_pt) = Some (st, m', p') \<and> pt_pmm p'"
  using pt_map_range_exact [OF ex_pt_ok, of "0x400000" "0x7000" "0x3000" NX_PTE_U True] by (auto simp: pt_step_def)

theorem pt_unmap_exact_witness:
  "\<exists>m'. nx_pt_unmap ex_root 0x400000 (\<lambda>_. 0) = (Inl NX_PT_E_NOT_MAPPED, m') \<and> tree_ok rdp page_base m' ex_root {ex_root}"
proof -
  have "idxs 0x400000 3 \<noteq> []" by (simp flip: length_0_conv)
  then have "xl (\<lambda>_. 0) ex_root 0x400000 = None" by (cases "idxs 0x400000 3") (simp_all add: xl_def rdp_zero)
  then have "find_leaf (\<lambda>_. 0) ex_root 0x400000 = Inl NX_PT_E_NOT_MAPPED"
    by (simp add: find_leaf_xl nx_pt_is_canonical_def drop_bit_eq_div)
  then have r: "nx_pt_unmap ex_root 0x400000 (\<lambda>_. 0) = (Inl NX_PT_E_NOT_MAPPED, \<lambda>_. 0)" by (simp add: nx_pt_unmap_def)
  show ?thesis using pt_unmap_exact [OF ex_pt_ok(2) r] r by auto
qed

end
