(* ===== verification/Kobj.thy ===== *)
theory Kobj
  imports Nx_Prelude
begin

text \<open>
  The vocabulary of the kernel's system-call layer: error codes and handle rights
  (abi/nanox/syscall.h), object types and the object header (kernel/obj/handle.h). A pointer to
  a kernel object is a name of the pool and the index in it; the destroy function pointer of an
  object header names the function.
\<close>

datatype nx_error =
    NX_OK | NX_ENOSYS | NX_EINVAL | NX_EFAULT | NX_EBADHANDLE | NX_EWRONGTYPE | NX_EACCESS
  | NX_ENOMEM | NX_EFULL | NX_EEXISTS | NX_ERANGE | NX_EDEAD | NX_ENOENT | NX_EIO | NX_ENOLINK
  | NX_ENODEV

fun nx_errno :: "nx_error \<Rightarrow> int" where
  "nx_errno NX_OK = 0"
| "nx_errno NX_ENOSYS = 1"
| "nx_errno NX_EINVAL = 2"
| "nx_errno NX_EFAULT = 3"
| "nx_errno NX_EBADHANDLE = 4"
| "nx_errno NX_EWRONGTYPE = 5"
| "nx_errno NX_EACCESS = 6"
| "nx_errno NX_ENOMEM = 7"
| "nx_errno NX_EFULL = 8"
| "nx_errno NX_EEXISTS = 9"
| "nx_errno NX_ERANGE = 10"
| "nx_errno NX_EDEAD = 11"
| "nx_errno NX_ENOENT = 12"
| "nx_errno NX_EIO = 13"
| "nx_errno NX_ENOLINK = 14"
| "nx_errno NX_ENODEV = 15"

abbreviation NX_USER_BASE :: u64 where "NX_USER_BASE \<equiv> 0x0000008000000000"
abbreviation NX_USER_TOP :: u64 where "NX_USER_TOP \<equiv> 0x0000800000000000"
abbreviation NX_USER_STACK_TOP :: u64 where "NX_USER_STACK_TOP \<equiv> 0x00007FFFFFFF0000"
abbreviation NX_USER_STACK_PAGES :: u64 where "NX_USER_STACK_PAGES \<equiv> 16"

abbreviation NX_RIGHT_READ :: u32 where "NX_RIGHT_READ \<equiv> 0x1"
abbreviation NX_RIGHT_WRITE :: u32 where "NX_RIGHT_WRITE \<equiv> 0x2"
abbreviation NX_RIGHT_MAP :: u32 where "NX_RIGHT_MAP \<equiv> 0x4"
abbreviation NX_RIGHT_TRANSFER :: u32 where "NX_RIGHT_TRANSFER \<equiv> 0x8"
abbreviation NX_RIGHT_DUPLICATE :: u32 where "NX_RIGHT_DUPLICATE \<equiv> 0x10"
abbreviation NX_RIGHT_SEND :: u32 where "NX_RIGHT_SEND \<equiv> 0x20"
abbreviation NX_RIGHT_RECV :: u32 where "NX_RIGHT_RECV \<equiv> 0x40"
abbreviation NX_RIGHT_INSPECT :: u32 where "NX_RIGHT_INSPECT \<equiv> 0x80"
abbreviation NX_RIGHT_MANAGE :: u32 where "NX_RIGHT_MANAGE \<equiv> 0x100"
abbreviation NX_RIGHT_SOVEREIGN :: u32 where "NX_RIGHT_SOVEREIGN \<equiv> 0x200"
abbreviation NX_RIGHTS_ALL :: u32 where "NX_RIGHTS_ALL \<equiv> 0x3FF"

abbreviation NX_OBJ_ANY :: u32 where "NX_OBJ_ANY \<equiv> 0"
abbreviation NX_OBJ_TASK :: u32 where "NX_OBJ_TASK \<equiv> 1"
abbreviation NX_OBJ_ENDPOINT :: u32 where "NX_OBJ_ENDPOINT \<equiv> 2"
abbreviation NX_OBJ_VMO :: u32 where "NX_OBJ_VMO \<equiv> 3"
abbreviation NX_OBJ_SOVEREIGN :: u32 where "NX_OBJ_SOVEREIGN \<equiv> 4"
abbreviation NX_OBJ_CHANNEL :: u32 where "NX_OBJ_CHANNEL \<equiv> 5"
abbreviation NX_OBJ_BLOCKDEV :: u32 where "NX_OBJ_BLOCKDEV \<equiv> 6"
abbreviation NX_OBJ_NETDEV :: u32 where "NX_OBJ_NETDEV \<equiv> 7"

text \<open>\<open>Static_obj 0\<close> is the sovereign object, 1 the channel, 2 the block and 3 the network device.\<close>

datatype optr = Task_obj nat | Ep_obj nat | Vmo_obj nat | Static_obj nat

datatype destroy_fn = No_destroy | Release_slot | Vmo_destroy | Ep_destroy

record nx_object =
  ob_type :: u32
  ob_refs :: u32
  ob_destroy :: destroy_fn

end
