(* ===== verification/Ipc.thy ===== *)
theory Ipc
  imports Kobj
begin

text \<open>
  The message queue of an IPC endpoint (kernel/obj/ipc.c): a ring of \<open>NX_IPC_QUEUE\<close> messages.
  The locale \<open>bounded_fifo\<close> is what the system-call layer relies on; it is interpreted on the
  ring, whose abstraction is the list of queued messages, oldest first.
\<close>

abbreviation NX_IPC_QUEUE :: u32 where "NX_IPC_QUEUE \<equiv> 8"
abbreviation NX_IPC_MSG_MAX :: u32 where "NX_IPC_MSG_MAX \<equiv> 128"

record nx_ipc_msg =
  im_len :: u32
  im_sender_task :: u32
  im_obj :: "optr option"
  im_rights :: u32
  im_data :: bytes

record nx_endpoint =
  ep_base :: nx_object
  ep_q :: "nx_ipc_msg list"
  ep_head :: u32
  ep_count :: u32
  ep_waiter :: "nat option"

definition nx_ep_init :: "nx_endpoint \<Rightarrow> nx_endpoint" where
  "nx_ep_init ep = ep\<lparr>ep_head := 0, ep_count := 0, ep_waiter := None\<rparr>"

definition nx_ep_push :: "nx_endpoint \<Rightarrow> nx_ipc_msg \<Rightarrow> nx_error \<times> nx_endpoint" where
  "nx_ep_push ep m =
     (if im_len m > NX_IPC_MSG_MAX then (NX_EINVAL, ep)
      else if ep_count ep = NX_IPC_QUEUE then (NX_EFULL, ep)
      else (NX_OK, ep\<lparr>ep_q := (ep_q ep)[unat ((ep_head ep + ep_count ep) mod NX_IPC_QUEUE) := m],
                      ep_count := ep_count ep + 1\<rparr>))"

definition nx_ep_peek :: "nx_endpoint \<Rightarrow> nx_ipc_msg option" where
  "nx_ep_peek ep = (if ep_count ep \<noteq> 0 then Some (ep_q ep ! unat (ep_head ep)) else None)"

definition nx_ep_pop :: "nx_endpoint \<Rightarrow> nx_endpoint" where
  "nx_ep_pop ep =
     (if ep_count ep = 0 then ep
      else ep\<lparr>ep_head := (ep_head ep + 1) mod NX_IPC_QUEUE, ep_count := ep_count ep - 1\<rparr>)"

section \<open>The ring as a list\<close>

definition ep_inv :: "nx_endpoint \<Rightarrow> bool" where
  "ep_inv ep \<longleftrightarrow> length (ep_q ep) = 8 \<and> unat (ep_head ep) < 8 \<and> unat (ep_count ep) \<le> 8"

definition ep_msgs :: "nx_endpoint \<Rightarrow> nx_ipc_msg list" where
  "ep_msgs ep = map (\<lambda>i. ep_q ep ! ((unat (ep_head ep) + i) mod 8)) [0..<unat (ep_count ep)]"

lemma unat_mod8: "unat ((x :: u32) mod 8) = unat x mod 8"
  by (simp add: unat_mod)

lemma length_ep_msgs [simp]: "length (ep_msgs ep) = unat (ep_count ep)"
  by (simp add: ep_msgs_def)

lemma ep_init_inv: "length (ep_q ep) = 8 \<Longrightarrow> ep_inv (nx_ep_init ep) \<and> ep_msgs (nx_ep_init ep) = []"
  by (simp add: ep_inv_def nx_ep_init_def ep_msgs_def)

lemma ep_push_spec:
  assumes inv: "ep_inv ep" and p: "nx_ep_push ep m = (st, ep')"
  shows "ep_inv ep'" and "ep_base ep' = ep_base ep" and "ep_waiter ep' = ep_waiter ep"
    and "st = (if 128 < unat (im_len m) then NX_EINVAL
               else if length (ep_msgs ep) = 8 then NX_EFULL else NX_OK)"
    and "ep_msgs ep' = (if st = NX_OK then ep_msgs ep @ [m] else ep_msgs ep)"
proof -
  define h where "h = unat (ep_head ep)"
  define n where "n = unat (ep_count ep)"
  have b: "length (ep_q ep) = 8" "h < 8" "n \<le> 8" using inv by (simp_all add: ep_inv_def h_def n_def)
  have c8: "(ep_count ep = 8) = (n = 8)" by (simp add: word_unat_eq_iff n_def)
  have e: "(im_len m > 128) = (128 < unat (im_len m))" by (simp add: word_less_nat_alt)
  show st: "st = (if 128 < unat (im_len m) then NX_EINVAL
               else if length (ep_msgs ep) = 8 then NX_EFULL else NX_OK)"
    using p by (auto simp: nx_ep_push_def e c8 n_def split: if_splits)
  show "ep_base ep' = ep_base ep" "ep_waiter ep' = ep_waiter ep"
    using p by (auto simp: nx_ep_push_def split: if_splits)
  have "ep_inv ep' \<and> ep_msgs ep' = (if st = NX_OK then ep_msgs ep @ [m] else ep_msgs ep)"
  proof (cases "st = NX_OK")
    case False
    then show ?thesis using p inv by (auto simp: nx_ep_push_def split: if_splits)
  next
    case True
    then have n: "n < 8" using st b(3) by (auto simp: n_def split: if_splits)
    have s: "unat (ep_head ep + ep_count ep) = h + n" "unat (ep_count ep + 1) = n + 1"
      using b(2) n by (subst unat_add_small; simp add: h_def n_def)+
    have ep': "ep' = ep\<lparr>ep_q := (ep_q ep)[(h + n) mod 8 := m], ep_count := ep_count ep + 1\<rparr>"
      using p True by (auto simp: nx_ep_push_def unat_mod8 s(1) split: if_splits)
    have ne: "(h + n) mod 8 \<noteq> (h + i) mod 8" if "i < n" for i
    proof
      assume "(h + n) mod 8 = (h + i) mod 8"
      then have "8 dvd (h + n) - (h + i)" using that by (simp add: mod_eq_dvd_iff_nat)
      then show False using that n by (auto dest: dvd_imp_le)
    qed
    have "ep_msgs ep' = map (\<lambda>i. (ep_q ep)[(h + n) mod 8 := m] ! ((h + i) mod 8)) [0..<Suc n]"
      by (simp add: ep_msgs_def ep' s(2) h_def)
    also have "\<dots> = ep_msgs ep @ [m]"
      using ne b(1) by (auto simp: ep_msgs_def h_def [symmetric] n_def [symmetric])
    finally show ?thesis using True b n by (simp add: ep_inv_def ep' s(2) h_def)
  qed
  then show "ep_inv ep'" "ep_msgs ep' = (if st = NX_OK then ep_msgs ep @ [m] else ep_msgs ep)" by simp_all
qed

lemma ep_count_0: "(ep_count ep = 0) = (ep_msgs ep = [])"
  by (simp add: ep_msgs_def unat_eq_0)

lemma ep_msgs_Cons:
  assumes "ep_inv ep" and "ep_count ep \<noteq> 0"
  shows "ep_msgs ep = ep_q ep ! unat (ep_head ep) # ep_msgs (nx_ep_pop ep)" and "ep_inv (nx_ep_pop ep)"
proof -
  define h where "h = unat (ep_head ep)"
  obtain n where n: "unat (ep_count ep) = Suc n"
    using assms(2) by (metis not0_implies_Suc unat_eq_zero)
  have b: "length (ep_q ep) = 8" "h < 8" "n < 8" using assms(1) n by (simp_all add: ep_inv_def h_def)
  have s: "unat (ep_head ep + 1) = h + 1" using b(2) by (subst unat_add_small) (simp_all add: h_def)
  have c: "unat (ep_count ep - 1) = n" using assms(2) n by (simp add: unat_minus_one)
  have pop: "nx_ep_pop ep = ep\<lparr>ep_head := (ep_head ep + 1) mod 8, ep_count := ep_count ep - 1\<rparr>"
    using assms(2) by (simp add: nx_ep_pop_def)
  have "((h + 1) mod 8 + i) mod 8 = (h + Suc i) mod 8" for i by (simp add: mod_simps)
  then show "ep_msgs ep = ep_q ep ! unat (ep_head ep) # ep_msgs (nx_ep_pop ep)"
    using b(2) by (simp add: ep_msgs_def n pop c unat_mod8 s upt_conv_Cons map_Suc_upt [symmetric]
        h_def [symmetric] del: upt_Suc)
  show "ep_inv (nx_ep_pop ep)" using b by (simp add: ep_inv_def pop c unat_mod8 s)
qed

lemma ep_pop_inv: "ep_inv ep \<Longrightarrow> ep_inv (nx_ep_pop ep)"
  using ep_msgs_Cons(2) [of ep] by (cases "ep_count ep = 0") (simp_all add: nx_ep_pop_def)

lemma ep_pop_msgs: "ep_inv ep \<Longrightarrow> ep_msgs (nx_ep_pop ep) = tl (ep_msgs ep)"
  using ep_msgs_Cons(1) [of ep] by (cases "ep_count ep = 0") (simp_all add: nx_ep_pop_def ep_count_0)

lemma ep_peek_msgs: "ep_inv ep \<Longrightarrow> nx_ep_peek ep = (case ep_msgs ep of [] \<Rightarrow> None | m # _ \<Rightarrow> Some m)"
  using ep_msgs_Cons(1) [of ep] by (cases "ep_count ep = 0") (simp_all add: nx_ep_peek_def ep_count_0)

lemma ep_pop_frame [simp]: "ep_base (nx_ep_pop ep) = ep_base ep" "ep_waiter (nx_ep_pop ep) = ep_waiter ep"
  by (simp_all add: nx_ep_pop_def)

section \<open>The contract of the queue\<close>

text \<open>
  A run of sends and receives: the messages accepted by \<open>push\<close> and the ones handed out by
  \<open>peek\<close> and removed by \<open>pop\<close>, in order.
\<close>

datatype 'm queue_op = Q_send 'm | Q_recv

fun run_queue ::
    "('q \<Rightarrow> 'm \<Rightarrow> 'e \<times> 'q) \<Rightarrow> ('q \<Rightarrow> 'm option) \<Rightarrow> ('q \<Rightarrow> 'q) \<Rightarrow> 'e \<Rightarrow> 'm queue_op list
       \<Rightarrow> 'q \<times> 'm list \<times> 'm list \<Rightarrow> 'q \<times> 'm list \<times> 'm list"
where
  "run_queue push peek pop ok [] (q, sent, got) = (q, sent, got)"
| "run_queue push peek pop ok (Q_send m # ops) (q, sent, got) =
     (let (st, q') = push q m
      in run_queue push peek pop ok ops (q', if st = ok then sent @ [m] else sent, got))"
| "run_queue push peek pop ok (Q_recv # ops) (q, sent, got) =
     (case peek q of
        None \<Rightarrow> run_queue push peek pop ok ops (q, sent, got)
      | Some m \<Rightarrow> run_queue push peek pop ok ops (pop q, sent, got @ [m]))"

locale bounded_fifo =
  fixes push :: "'q \<Rightarrow> 'm \<Rightarrow> 'e \<times> 'q"
    and peek :: "'q \<Rightarrow> 'm option"
    and pop :: "'q \<Rightarrow> 'q"
    and ok :: 'e
    and fits :: "'m \<Rightarrow> bool"
    and cap :: nat
    and inv :: "'q \<Rightarrow> bool"
    and abs :: "'q \<Rightarrow> 'm list"
  assumes push_inv: "inv q \<Longrightarrow> push q m = (st, q') \<Longrightarrow> inv q'"
    and push_ok: "inv q \<Longrightarrow> push q m = (st, q') \<Longrightarrow> (st = ok) = (fits m \<and> length (abs q) < cap)"
    and push_abs: "inv q \<Longrightarrow> push q m = (st, q') \<Longrightarrow> abs q' = (if st = ok then abs q @ [m] else abs q)"
    and peek_abs: "inv q \<Longrightarrow> peek q = (case abs q of [] \<Rightarrow> None | m # _ \<Rightarrow> Some m)"
    and pop_abs: "inv q \<Longrightarrow> abs (pop q) = tl (abs q)"
    and pop_inv: "inv q \<Longrightarrow> inv (pop q)"
begin

lemma run_queue_fifo:
  assumes "inv q" and "sent = got @ abs q" and "length (abs q) \<le> cap"
    and "run_queue push peek pop ok ops (q, sent, got) = (q', sent', got')"
  shows "inv q' \<and> sent' = got' @ abs q' \<and> length (abs q') \<le> cap"
  using assms
proof (induction ops arbitrary: q sent got)
  case (Cons oper ops)
  show ?case
  proof (cases oper)
    case (Q_send m)
    obtain st r where p: "push q m = (st, r)" by fastforce
    note f = push_inv [OF Cons.prems(1) p] push_ok [OF Cons.prems(1) p] push_abs [OF Cons.prems(1) p]
    show ?thesis
      by (rule Cons.IH [of r "if st = ok then sent @ [m] else sent" got])
        (use Cons.prems f p Q_send in \<open>auto split: if_splits\<close>)
  next
    case Q_recv
    show ?thesis
    proof (cases "abs q")
      case Nil
      then show ?thesis using Cons Q_recv by (simp add: peek_abs)
    next
      case (Cons m ms)
      show ?thesis
        by (rule Cons.IH [of "pop q" sent "got @ [m]"])
          (use Cons.prems Cons Q_recv in \<open>auto simp: peek_abs pop_abs pop_inv\<close>)
    qed
  qed
qed simp

end

interpretation epq: bounded_fifo nx_ep_push nx_ep_peek nx_ep_pop NX_OK "\<lambda>m. unat (im_len m) \<le> 128" 8 ep_inv ep_msgs
proof
  fix q m st q'
  assume i: "ep_inv q" and p: "nx_ep_push q m = (st, q')"
  note s = ep_push_spec [OF i p]
  show "ep_inv q'" by (rule s)
  show "(st = NX_OK) = (unat (im_len m) \<le> 128 \<and> length (ep_msgs q) < 8)"
    using s(4) i by (auto simp: ep_inv_def)
  show "ep_msgs q' = (if st = NX_OK then ep_msgs q @ [m] else ep_msgs q)" by (rule s)
qed (simp_all add: ep_peek_msgs ep_pop_msgs ep_pop_inv)


definition ex_msg :: "u32 \<Rightarrow> nx_ipc_msg" where
  "ex_msg n = \<lparr>im_len = n, im_sender_task = 1, im_obj = None, im_rights = 0, im_data = replicate 128 0\<rparr>"

definition ex_ep :: nx_endpoint where
  "ex_ep = \<lparr>ep_base = \<lparr>ob_type = NX_OBJ_ENDPOINT, ob_refs = 1, ob_destroy = Ep_destroy\<rparr>,
     ep_q = replicate 8 (ex_msg 0), ep_head = 3, ep_count = 5, ep_waiter = None\<rparr>"


end
