(* ===== verification/Evlog.thy ===== *)
theory Evlog
  imports Nx_Prelude
begin

text \<open>
  The kernel's event log (kernel/obj/event.c): a ring of the last \<open>NX_EVLOG_SIZE\<close> events with
  gapless sequence numbers. The history of every event pushed since initialisation is the
  abstract state; the ring represents its tail.
\<close>

abbreviation NX_EVLOG_SIZE :: u64 where "NX_EVLOG_SIZE \<equiv> 128"

record nx_event =
  ev_seq :: u64
  ev_tick :: u64
  ev_type :: u32
  ev_task :: u32
  ev_arg :: u64

record nx_evlog =
  el_ev :: "nx_event list"
  el_next :: u64
  el_disabled :: bool

definition nx_evlog_init :: "nx_evlog \<Rightarrow> nx_evlog" where
  "nx_evlog_init l = l\<lparr>el_next := 1, el_disabled := False\<rparr>"

definition nx_evlog_push :: "nx_evlog \<Rightarrow> u64 \<Rightarrow> u32 \<Rightarrow> u32 \<Rightarrow> u64 \<Rightarrow> u64 \<times> nx_evlog" where
  "nx_evlog_push l tick type task arg =
     (if el_disabled l then (0, l)
      else (el_next l,
            l\<lparr>el_ev := (el_ev l)[unat (el_next l mod NX_EVLOG_SIZE) :=
                \<lparr>ev_seq = el_next l, ev_tick = tick, ev_type = type, ev_task = task, ev_arg = arg\<rparr>],
              el_next := el_next l + 1\<rparr>))"

definition nx_evlog_oldest :: "nx_evlog \<Rightarrow> u64" where
  "nx_evlog_oldest l = (if el_next l > NX_EVLOG_SIZE + 1 then el_next l - NX_EVLOG_SIZE else 1)"

text \<open>The copy loop of \<open>nx_evlog_read\<close>: at most \<open>cap\<close> rounds, the events copied so far in \<open>out\<close>.\<close>

fun evlog_copy :: "nx_evlog \<Rightarrow> nat \<Rightarrow> u64 \<Rightarrow> nx_event list" where
  "evlog_copy l 0 seq = []"
| "evlog_copy l (Suc n) seq =
     (if seq < el_next l
      then el_ev l ! unat (seq mod NX_EVLOG_SIZE) # evlog_copy l n (seq + 1) else [])"

definition nx_evlog_read :: "nx_evlog \<Rightarrow> u64 \<Rightarrow> u32 \<Rightarrow> nx_event list" where
  "nx_evlog_read l since cap =
     evlog_copy l (unat cap) (if since < nx_evlog_oldest l then nx_evlog_oldest l else since)"

section \<open>The log represents its history\<close>

text \<open>\<open>evlog_of l h\<close>: \<open>h\<close> is the history, oldest first, event number \<open>i + 1\<close> at position \<open>i\<close>.\<close>

definition evlog_of :: "nx_evlog \<Rightarrow> nx_event list \<Rightarrow> bool" where
  "evlog_of l h \<longleftrightarrow> length (el_ev l) = 128 \<and> unat (el_next l) = length h + 1
     \<and> (\<forall>i < length h. unat (ev_seq (h ! i)) = i + 1)
     \<and> (\<forall>i < length h. length h < i + 129 \<longrightarrow> el_ev l ! ((i + 1) mod 128) = h ! i)"

lemma evlog_init_of: "length (el_ev l) = 128 \<Longrightarrow> evlog_of (nx_evlog_init l) []"
  by (simp add: evlog_of_def nx_evlog_init_def)

lemma mod128_window: "i < n \<Longrightarrow> n < i + 128 \<Longrightarrow> n mod 128 \<noteq> i mod (128::nat)"
proof
  assume w: "i < n" "n < i + 128" and "n mod 128 = i mod 128"
  then have "128 dvd n - i" by (simp add: mod_eq_dvd_iff_nat)
  then show False using w by (auto dest: dvd_imp_le)
qed

lemma evlog_push_of:
  assumes "evlog_of l h" and "\<not> el_disabled l" and "length h + 2 < 2 ^ 64"
    and "nx_evlog_push l tick ty task arg = (r, l')"
  shows "evlog_of l' (h @ [\<lparr>ev_seq = el_next l, ev_tick = tick, ev_type = ty, ev_task = task, ev_arg = arg\<rparr>])"
    and "unat r = length h + 1" and "el_disabled l' = el_disabled l"
proof -
  define e where "e = \<lparr>ev_seq = el_next l, ev_tick = tick, ev_type = ty, ev_task = task, ev_arg = arg\<rparr>"
  have n: "unat (el_next l) = length h + 1" using assms(1) by (simp add: evlog_of_def)
  have l': "l' = l\<lparr>el_ev := (el_ev l)[(length h + 1) mod 128 := e], el_next := el_next l + 1\<rparr>" "r = el_next l"
    using assms(2,4) by (auto simp: nx_evlog_push_def e_def unat_mod n)
  have n': "unat (el_next l + 1) = length h + 2"
    using assms(3) n by (subst unat_add_small) auto
  have "el_ev l' ! ((i + 1) mod 128) = (h @ [e]) ! i" if "i < length h + 1" "length h + 1 < i + 129" for i
  proof (cases "i = length h")
    case True
    then show ?thesis using assms(1) by (simp add: l' evlog_of_def)
  next
    case False
    then have "(length h + 1) mod 128 \<noteq> (i + 1) mod 128"
      using mod128_window [of "i + 1" "length h + 1"] that by simp
    then show ?thesis using assms(1) that False by (simp add: l' evlog_of_def nth_append)
  qed
  then show "evlog_of l' (h @ [\<lparr>ev_seq = el_next l, ev_tick = tick, ev_type = ty, ev_task = task, ev_arg = arg\<rparr>])"
    using assms(1) n n' unfolding evlog_of_def e_def [symmetric]
    by (auto simp: l' nth_append e_def less_Suc_eq)
  show "unat r = length h + 1" "el_disabled l' = el_disabled l" by (simp_all add: l' n)
qed

lemma evlog_oldest_of: "evlog_of l h \<Longrightarrow> unat (nx_evlog_oldest l) = (if 128 < length h then length h - 127 else 1)"
  by (auto simp: evlog_of_def nx_evlog_oldest_def word_less_nat_alt unat_sub word_le_nat_alt)

lemma evlog_copy_of:
  assumes "evlog_of l h" and "length h + 1 < 2 ^ 64" and "1 \<le> unat seq" and "length h < unat seq + 128"
  shows "evlog_copy l n seq = take n (drop (unat seq - 1) h)"
  using assms(3,4)
proof (induction n arbitrary: seq)
  case (Suc n)
  have nx: "unat (el_next l) = length h + 1" using assms(1) by (simp add: evlog_of_def)
  show ?case
  proof (cases "unat seq - 1 < length h")
    case True
    then have s: "seq < el_next l" using nx Suc.prems by (simp add: word_less_nat_alt)
    have s1: "unat (seq + 1) = unat seq + 1"
      using True Suc.prems assms(2) by (subst unat_add_small) auto
    obtain i where i: "unat seq = Suc i" using Suc.prems(1) by (cases "unat seq") auto
    have "el_ev l ! ((i + 1) mod 128) = h ! i"
      using assms(1) True Suc.prems i unfolding evlog_of_def by simp
    then show ?thesis
      using s s1 True Suc.IH [of "seq + 1"] Suc.prems i
      by (simp add: unat_mod Cons_nth_drop_Suc [symmetric])
  next
    case False
    then show ?thesis using nx Suc.prems by (simp add: word_less_nat_alt not_less)
  qed
qed simp

section \<open>Reading\<close>

text \<open>A run of pushes from a freshly initialised log; each push is (tick, type, task, arg).\<close>

fun evlog_run :: "nx_evlog \<Rightarrow> (u64 \<times> u32 \<times> u32 \<times> u64) list \<Rightarrow> nx_evlog" where
  "evlog_run l [] = l"
| "evlog_run l ((tick, ty, task, arg) # es) = evlog_run (snd (nx_evlog_push l tick ty task arg)) es"

definition event_no :: "nat \<Rightarrow> u64 \<times> u32 \<times> u32 \<times> u64 \<Rightarrow> nx_event" where
  "event_no n e = (case e of (tick, ty, task, arg) \<Rightarrow>
     \<lparr>ev_seq = of_nat n, ev_tick = tick, ev_type = ty, ev_task = task, ev_arg = arg\<rparr>)"

definition events_of :: "nat \<Rightarrow> (u64 \<times> u32 \<times> u32 \<times> u64) list \<Rightarrow> nx_event list" where
  "events_of k es = map (\<lambda>i. event_no (k + i + 1) (es ! i)) [0..<length es]"

lemma events_of_Cons: "events_of k (e # es) = event_no (k + 1) e # events_of (k + 1) es"
  by (simp add: events_of_def upt_conv_Cons map_Suc_upt [symmetric] del: upt_Suc)

lemma evlog_run_of:
  assumes "evlog_of l h" and "\<not> el_disabled l" and "length h + length es + 1 < 2 ^ 64"
  shows "evlog_of (evlog_run l es) (h @ events_of (length h) es)"
  using assms
proof (induction es arbitrary: l h)
  case Nil
  then show ?case by (simp add: events_of_def)
next
  case (Cons e es)
  obtain tick ty task arg where e: "e = (tick, ty, task, arg)" by (metis prod_cases4)
  obtain r l' where p: "nx_evlog_push l tick ty task arg = (r, l')" by fastforce
  note q = evlog_push_of [OF Cons.prems(1,2) _ p]
  have "of_nat (length h + 1) = el_next l"
    using Cons.prems(1) by (metis evlog_of_def word_of_unat)
  then have "h @ [event_no (length h + 1) e]
      = h @ [\<lparr>ev_seq = el_next l, ev_tick = tick, ev_type = ty, ev_task = task, ev_arg = arg\<rparr>]"
    by (simp add: event_no_def e)
  then show ?case
    using q Cons.prems Cons.IH [of l' "h @ [event_no (length h + 1) e]"] by (simp add: e p events_of_Cons)
qed

text \<open>
  C21. Reading the event log returns exactly the requested events that are still stored: after
  any pushes on a fresh log, the events numbered from the requested one on (from the oldest of
  the last 128 when that has been overwritten), oldest first, at most \<open>cap\<close> of them, each with its
  own sequence number and the data pushed.
\<close>

theorem evlog_read_exact:
  assumes "length (el_ev l) = 128" and "length es + 1 < 2 ^ 64"
  shows "nx_evlog_read (evlog_run (nx_evlog_init l) es) since cap
    = take (unat cap) (drop (max (unat since - 1) (length es - 128)) (events_of 0 es))"
proof -
  define t where "t = evlog_run (nx_evlog_init l) es"
  have of: "evlog_of t (events_of 0 es)"
    using evlog_run_of [OF evlog_init_of [OF assms(1)]] assms(2) by (simp add: t_def nx_evlog_init_def)
  have len: "length (events_of 0 es) = length es" by (simp add: events_of_def)
  define seq where "seq = (if since < nx_evlog_oldest t then nx_evlog_oldest t else since)"
  have o: "unat (nx_evlog_oldest t) = (if 128 < length es then length es - 127 else 1)"
    using evlog_oldest_of [OF of] len by simp
  have sq: "unat seq = max (unat since) (unat (nx_evlog_oldest t))"
    by (simp add: seq_def word_less_nat_alt)
  have "nx_evlog_read t since cap = evlog_copy t (unat cap) seq"
    by (simp add: nx_evlog_read_def seq_def)
  also have "\<dots> = take (unat cap) (drop (unat seq - 1) (events_of 0 es))"
    by (rule evlog_copy_of [OF of]) (use sq o len assms(2) in auto)
  also have "unat seq - 1 = max (unat since - 1) (length es - 128)"
    using sq o by (auto simp: max_def)
  finally show ?thesis by (simp add: t_def)
qed

theorem evlog_read_exact_witness:
  "nx_evlog_read (evlog_run (nx_evlog_init \<lparr>el_ev = replicate 128 \<lparr>ev_seq = 0, ev_tick = 0, ev_type = 0,
       ev_task = 0, ev_arg = 0\<rparr>, el_next = 7, el_disabled = True\<rparr>) (replicate 130 (5, 1, 2, 3))) 0 1
     = [event_no 3 (5, 1, 2, 3)]"
proof -
  define l where "l = \<lparr>el_ev = replicate 128 \<lparr>ev_seq = 0, ev_tick = 0, ev_type = 0,
       ev_task = 0, ev_arg = 0\<rparr>, el_next = 7, el_disabled = True\<rparr>"
  have "length (el_ev l) = 128" by (simp add: l_def)
  moreover have "take 1 (drop 2 (events_of 0 (replicate 130 (5, 1, 2, 3)))) = [event_no 3 (5, 1, 2, 3)]"
    by (simp add: events_of_def drop_map drop_upt take_Suc_conv_app_nth numeral_3_eq_3)
  ultimately show ?thesis
    using evlog_read_exact [of l "replicate 130 (5, 1, 2, 3)" 0 1] by (simp add: l_def)
qed

end
