(* ===== verification/Printf.thy ===== *)
theory Printf
  imports Nx_Prelude "HOL-Library.Char_ord"
begin

text \<open>
  Formatted output to the serial line (lib/printf.c and the output half of lib/serial.c). The
  characters sent are a list; the transmit loop of the UART is hardware and sends each character once.
  The variable arguments are a list of tagged values, and reading an argument that is missing or of
  another kind is undefined behaviour, None.
\<close>

definition nx_serial_putc :: "char \<Rightarrow> string" where
  "nx_serial_putc c = (if c = CHR 0x0A then [CHR 0x0D, c] else [c])"

definition nx_serial_write :: "string \<Rightarrow> string" where
  "nx_serial_write s = concat (map nx_serial_putc s)"

definition digits :: "bool \<Rightarrow> string" where
  "digits upper = (if upper then ''0123456789ABCDEF'' else ''0123456789abcdef'')"

text \<open>The digit loop of \<open>put_uint\<close> with room for \<open>n\<close> characters, least significant digit first.\<close>

fun uint_loop :: "nat \<Rightarrow> u64 \<Rightarrow> u64 \<Rightarrow> string \<Rightarrow> string" where
  "uint_loop 0 v base ds = []"
| "uint_loop (Suc n) v base ds =
     ds ! unat (v mod base) # (if v div base \<noteq> 0 then uint_loop n (v div base) base ds else [])"

definition put_uint :: "u64 \<Rightarrow> u64 \<Rightarrow> bool \<Rightarrow> nat \<Rightarrow> char \<Rightarrow> string" where
  "put_uint v base upper width pad =
     (let buf = uint_loop 24 v base (digits upper) in
      nx_serial_write (replicate (width - length buf) pad @ rev buf))"

datatype pf_arg = A_str "string option" | A_char char | A_int u32 | A_long u64

text \<open>\<open>NEXT_UNSIGNED\<close> and the signed fetch of \<open>%d\<close>.\<close>

definition next_unsigned :: "nat \<Rightarrow> pf_arg list \<Rightarrow> (u64 \<times> pf_arg list) option" where
  "next_unsigned lng args =
     (case args of
        A_int v # r \<Rightarrow> if lng = 0 then Some (ucast v, r) else None
      | A_long v # r \<Rightarrow> if lng \<noteq> 0 then Some (v, r) else None
      | _ \<Rightarrow> None)"

definition next_signed :: "nat \<Rightarrow> pf_arg list \<Rightarrow> (u64 \<times> pf_arg list) option" where
  "next_signed lng args =
     (case args of
        A_int v # r \<Rightarrow> if lng = 0 then Some (scast v, r) else None
      | A_long v # r \<Rightarrow> if lng \<noteq> 0 then Some (v, r) else None
      | _ \<Rightarrow> None)"

fun scan_width :: "nat \<Rightarrow> string \<Rightarrow> nat \<times> string" where
  "scan_width w [] = (w, [])"
| "scan_width w (c # fmt) =
     (if CHR ''0'' \<le> c \<and> c \<le> CHR ''9'' then scan_width (w * 10 + (of_char c - of_char (CHR ''0''))) fmt else (w, c # fmt))"

fun scan_long :: "nat \<Rightarrow> string \<Rightarrow> nat \<times> string" where
  "scan_long l [] = (l, [])"
| "scan_long l (c # fmt) = (if c = CHR ''l'' \<and> l < 2 then scan_long (l + 1) fmt else (l, c # fmt))"

text \<open>The conversion \<open>c\<close> with its padding, width and length: the output and the remaining arguments.\<close>

definition pf_conv :: "char \<Rightarrow> char \<Rightarrow> nat \<Rightarrow> nat \<Rightarrow> pf_arg list \<Rightarrow> (string \<times> pf_arg list) option" where
  "pf_conv c pad width lng args =
     (if c = CHR ''s'' then
        (case args of A_str s # r \<Rightarrow> Some (nx_serial_write (case s of None \<Rightarrow> ''(null)'' | Some s \<Rightarrow> s), r) | _ \<Rightarrow> None)
      else if c = CHR ''c'' then (case args of A_char a # r \<Rightarrow> Some (nx_serial_putc a, r) | _ \<Rightarrow> None)
      else if c = CHR ''d'' then
        (case next_signed lng args of None \<Rightarrow> None
         | Some (v, r) \<Rightarrow> Some (if v <s 0 then nx_serial_putc (CHR ''-'') @ put_uint (0 - v) 10 False width pad
                               else put_uint v 10 False width pad, r))
      else if c = CHR ''u'' then map_option (\<lambda>(v, r). (put_uint v 10 False width pad, r)) (next_unsigned lng args)
      else if c = CHR ''x'' \<or> c = CHR ''X'' then
        map_option (\<lambda>(v, r). (put_uint v 16 (c = CHR ''X'') width pad, r)) (next_unsigned lng args)
      else if c = CHR ''p'' then
        (case args of A_long v # r \<Rightarrow> Some (nx_serial_write ''0x'' @ put_uint v 16 False 16 (CHR ''0''), r) | _ \<Rightarrow> None)
      else if c = CHR ''%'' then Some (nx_serial_putc (CHR ''%''), args)
      else Some (nx_serial_putc (CHR ''?''), args))"

lemma scan_width_len: "length (snd (scan_width w fmt)) \<le> length fmt"
  by (induction w fmt rule: scan_width.induct) auto

lemma scan_long_len: "length (snd (scan_long l fmt)) \<le> length fmt"
  by (induction l fmt rule: scan_long.induct) auto

function nx_vprintf :: "string \<Rightarrow> pf_arg list \<Rightarrow> string option" where
  "nx_vprintf [] args = Some []"
| "nx_vprintf (c # fmt) args =
     (if c \<noteq> CHR ''%'' then map_option (\<lambda>s. nx_serial_putc c @ s) (nx_vprintf fmt args)
      else let zero = (fmt \<noteq> [] \<and> hd fmt = CHR ''0'');
               pad = (if zero then CHR ''0'' else CHR '' '');
               w = scan_width 0 (if zero then tl fmt else fmt);
               l = scan_long 0 (snd w) in
      case snd l of
        [] \<Rightarrow> Some []
      | d # rest \<Rightarrow>
          (case pf_conv d pad (fst w) (fst l) args of None \<Rightarrow> None
           | Some (s, args) \<Rightarrow> map_option (\<lambda>t. s @ t) (nx_vprintf rest args)))"
  by pat_completeness auto
termination
proof (relation "measure (\<lambda>(fmt, args). length fmt)")
  fix c :: char and fmt :: string and args :: "pf_arg list" and zero pad w l d rest p s args'
  assume "zero = (fmt \<noteq> [] \<and> hd fmt = CHR ''0'')" "w = scan_width 0 (if zero then tl fmt else fmt)" "l = scan_long 0 (snd w)"
    and "snd l = d # rest"
  then have "length (d # rest) \<le> length fmt"
    using scan_long_len [of 0 "snd w"] scan_width_len [of 0 "if zero then tl fmt else fmt"] by (auto split: if_splits)
  then show "((rest, args'), (c # fmt, args)) \<in> measure (\<lambda>(fmt, args). length fmt)" by simp
qed auto

definition nx_print_hex_bytes :: "bytes \<Rightarrow> string" where
  "nx_print_hex_bytes p = concat (map (\<lambda>b. nx_serial_putc (digits False ! unat (drop_bit 4 b))
     @ nx_serial_putc (digits False ! unat (b AND 15))) p)"

definition nx_printf :: "string \<Rightarrow> pf_arg list \<Rightarrow> string option" where
  "nx_printf fmt args = nx_vprintf fmt args"

section \<open>Numbers are printed exactly\<close>

text \<open>The number a string of digits denotes, most significant digit first.\<close>

definition radix :: "nat \<Rightarrow> bool \<Rightarrow> string \<Rightarrow> nat" where
  "radix base upper s = foldl (\<lambda>n c. n * base + length (takeWhile (\<lambda>d. d \<noteq> c) (digits upper))) 0 s"

lemma digit_index:
  assumes "i < 16"
  shows "length (takeWhile (\<lambda>d. d \<noteq> digits upper ! i) (digits upper)) = i"
proof -
  have d: "distinct (digits upper)" "length (digits upper) = 16" by (simp_all add: digits_def)
  have "takeWhile (\<lambda>d. d \<noteq> digits upper ! i) (take i (digits upper) @ drop i (digits upper)) = take i (digits upper)"
    using d assms
    by (subst takeWhile_append2) (auto simp: in_set_conv_nth nth_eq_iff_index_eq Cons_nth_drop_Suc [symmetric])
  then show ?thesis using d assms by simp
qed

lemma uint_loop_value:
  assumes "2 \<le> unat base" "unat base \<le> 16" and "unat v < unat base ^ n" and "0 < n"
  shows "radix (unat base) upper (rev (uint_loop n v base (digits upper))) = unat v
    \<and> uint_loop n v base (digits upper) \<noteq> []
    \<and> set (uint_loop n v base (digits upper)) \<subseteq> set (take (unat base) (digits upper))
    \<and> (v \<noteq> 0 \<longrightarrow> hd (rev (uint_loop n v base (digits upper))) \<noteq> CHR ''0'')"
  using assms(3,4)
proof (induction n arbitrary: v)
  case (Suc n)
  define r where "r = (if v div base \<noteq> 0 then uint_loop n (v div base) base (digits upper) else [])"
  have b: "unat (v mod base) = unat v mod unat base" "unat (v div base) = unat v div unat base"
    by (simp_all add: unat_mod unat_div)
  have m1: "unat v mod unat base < unat base" using assms(1) by simp
  then have m: "unat v mod unat base < unat base" "unat v mod unat base < 16" using assms(2) by linarith+
  have r: "radix (unat base) upper (rev r) = unat v div unat base"
    "set r \<subseteq> set (take (unat base) (digits upper))" "v div base \<noteq> 0 \<longrightarrow> r \<noteq> [] \<and> hd (rev r) \<noteq> CHR ''0''"
  proof -
    have "unat (v div base) < unat base ^ n" using Suc.prems(1) assms(1) by (simp add: b(2) div_less_iff_less_mult mult.commute)
    moreover have "0 < n" if "v div base \<noteq> 0" using that calculation by (cases n) (auto simp: unat_eq_zero)
    ultimately show "radix (unat base) upper (rev r) = unat v div unat base"
      "set r \<subseteq> set (take (unat base) (digits upper))" "v div base \<noteq> 0 \<longrightarrow> r \<noteq> [] \<and> hd (rev r) \<noteq> CHR ''0''"
      using Suc.IH [of "v div base"] b(2) by (auto simp: r_def radix_def unat_eq_zero)
  qed
  have e: "uint_loop (Suc n) v base (digits upper) = digits upper ! (unat v mod unat base) # r" by (simp add: r_def b(1))
  have dv: "digits upper ! (unat v mod unat base) \<in> set (take (unat base) (digits upper))"
    using m assms(2) by (auto simp: in_set_conv_nth digits_def intro!: exI [of _ "unat v mod unat base"])
  have h0: "digits upper ! i \<noteq> CHR ''0''" if "0 < i" "i < 16" for i
    using digit_index [OF that(2), of upper] digit_index [of 0 upper] that by (auto simp: digits_def split: if_splits)
  have "hd (rev r @ [digits upper ! (unat v mod unat base)]) \<noteq> CHR ''0''" if "v \<noteq> 0"
  proof (cases "v div base = 0")
    case True
    then have "r = []" "unat v mod unat base \<noteq> 0"
      using that b(2) div_mult_mod_eq [of "unat v" "unat base"] by (auto simp: r_def unat_eq_zero)
    then show ?thesis using h0 m(2) by simp
  qed (use r(3) in \<open>auto simp: hd_append\<close>)
  then show ?case
    unfolding e using r(1,2) digit_index [OF m(2), of upper] dv div_mult_mod_eq [of "unat v" "unat base"]
    by (auto simp: radix_def)
qed simp

lemma serial_write_plain: "CHR 0x0A \<notin> set s \<Longrightarrow> nx_serial_write s = s"
  by (induction s) (auto simp: nx_serial_write_def nx_serial_putc_def)

lemma uint_loop_zero: "uint_loop 24 0 base ds = [ds ! 0]"
  by (simp add: numeral_eq_Suc)

text \<open>
  C36. Numbers are printed exactly: the output of \<open>put_uint\<close> is the padding up to the width followed by
  a string of digits of the base that denotes the number, without a superfluous leading zero, for every
  64-bit number; the digits never run out of the 24-byte buffer.
\<close>

theorem put_uint_exact:
  "\<exists>ds. put_uint v (if hex then 16 else 10) upper width (if zero then CHR ''0'' else CHR '' '') =
       replicate (width - length ds) (if zero then CHR ''0'' else CHR '' '') @ ds
     \<and> radix (if hex then 16 else 10) upper ds = unat v \<and> ds \<noteq> []
     \<and> set ds \<subseteq> set (take (if hex then 16 else 10) (digits upper)) \<and> (hd ds = CHR ''0'') = (v = 0)"
proof -
  define base :: u64 where "base = (if hex then 16 else 10)"
  define ds where "ds = rev (uint_loop 24 v base (digits upper))"
  have b: "2 \<le> unat base" "unat base \<le> 16" "unat base = (if hex then 16 else 10)" by (simp_all add: base_def)
  have "unat v < unat base ^ 24" using unat_u64_less [of v] by (simp add: b(3))
  note v = uint_loop_value [OF b(1,2) this, of upper]
  have dg: "CHR 0x0A \<notin> set (take n (digits upper))" for n using set_take_subset [of n "digits upper"] by (auto simp: digits_def)
  have "set ds \<subseteq> set (take (unat base) (digits upper))" using v by (simp add: ds_def)
  then have "CHR 0x0A \<notin> set (replicate (width - length ds) (if zero then CHR ''0'' else CHR '' '') @ ds)" using dg by auto
  then have "put_uint v base upper width (if zero then CHR ''0'' else CHR '' '') =
      replicate (width - length ds) (if zero then CHR ''0'' else CHR '' '') @ ds"
    using serial_write_plain by (simp add: put_uint_def Let_def ds_def)
  moreover have "(hd ds = CHR ''0'') = (v = 0)"
    using v by (cases "v = 0") (auto simp: ds_def uint_loop_zero digits_def)
  moreover have "radix (unat base) upper ds = unat v" "ds \<noteq> []" "set ds \<subseteq> set (take (unat base) (digits upper))"
    using v by (simp_all add: ds_def)
  ultimately show ?thesis unfolding base_def [symmetric] b(3) [symmetric] by blast
qed

end
