(* ===== verification/Elf_Plan.thy ===== *)
theory Elf_Plan
  imports Kobj "HOL-Library.Monad_Syntax"
begin

text \<open>
  The ELF64 load plan (lib/elf_plan.c), used by the boot loader for the kernel image and by the
  kernel for user programs. The image is hostile input: a read of byte \<open>i\<close> of the image is None
  when \<open>i\<close> lies outside it, and None as the result of the planner means that it made such a read.
\<close>

abbreviation EHDR_SIZE :: u64 where "EHDR_SIZE \<equiv> 64"
abbreviation PHDR_SIZE :: u64 where "PHDR_SIZE \<equiv> 56"
abbreviation PT_LOAD :: u32 where "PT_LOAD \<equiv> 1"
abbreviation PF_X :: u32 where "PF_X \<equiv> 1"
abbreviation PF_W :: u32 where "PF_W \<equiv> 2"
abbreviation PAGE_MASK :: u64 where "PAGE_MASK \<equiv> 0xFFF"
abbreviation NX_ELF_MAX_SEGMENTS :: u32 where "NX_ELF_MAX_SEGMENTS \<equiv> 16"
abbreviation NX_KERNEL_LOAD_MIN :: u64 where "NX_KERNEL_LOAD_MIN \<equiv> 0x00100000"
abbreviation NX_KERNEL_LOAD_MAX :: u64 where "NX_KERNEL_LOAD_MAX \<equiv> 0x40000000"
abbreviation NX_KERNEL_SPAN_MAX :: u64 where "NX_KERNEL_SPAN_MAX \<equiv> 0x4000000"
abbreviation NX_USER_SPAN_MAX :: u64 where "NX_USER_SPAN_MAX \<equiv> 0x4000000"

record nx_elf_segment =
  sg_file_offset :: u64
  sg_file_size :: u64
  sg_addr :: u64
  sg_mem_size :: u64
  sg_flags :: u32

record nx_elf_plan =
  pl_entry :: u64
  pl_span_base :: u64
  pl_span_end :: u64
  pl_segment_count :: u32
  pl_segments :: "nx_elf_segment list"

record nx_elf_rules =
  ru_min_addr :: u64
  ru_max_addr :: u64
  ru_span_max :: u64
  ru_require_identity :: bool
  ru_forbid_wx :: bool

datatype nx_elf_error =
    NX_ELF_OK | NX_ELF_E_TRUNCATED | NX_ELF_E_IDENT | NX_ELF_E_TYPE | NX_ELF_E_PHDR
  | NX_ELF_E_SEG_BOUNDS | NX_ELF_E_SEG_ADDR | NX_ELF_E_SEG_ORDER | NX_ELF_E_NO_LOAD
  | NX_ELF_E_ENTRY | NX_ELF_E_SPAN | NX_ELF_E_WX

definition rd8 :: "bytes \<Rightarrow> nat \<Rightarrow> u8 option" where
  "rd8 p i = (if i < length p then Some (p ! i) else None)"

definition rd16 :: "bytes \<Rightarrow> nat \<Rightarrow> u16 option" where
  "rd16 p i = do { a \<leftarrow> rd8 p i; b \<leftarrow> rd8 p (i + 1); Some (ucast a OR push_bit 8 (ucast b)) }"

definition rd32 :: "bytes \<Rightarrow> nat \<Rightarrow> u32 option" where
  "rd32 p i = do { a \<leftarrow> rd16 p i; b \<leftarrow> rd16 p (i + 2); Some (ucast a OR push_bit 16 (ucast b)) }"

definition rd64 :: "bytes \<Rightarrow> nat \<Rightarrow> u64 option" where
  "rd64 p i = do { a \<leftarrow> rd32 p i; b \<leftarrow> rd32 p (i + 4); Some (ucast a OR push_bit 32 (ucast b)) }"

text \<open>
  One round of the loop over the program headers: \<open>Inl\<close> an error, \<open>Inr\<close> the plan and \<open>prev_end\<close>
  after the round. \<open>elf_check\<close> is the round once the fields of a \<open>PT_LOAD\<close> header are read; \<open>ph\<close>
  is the offset of the header.
\<close>

definition elf_check ::
    "u64 \<Rightarrow> nx_elf_rules \<Rightarrow> nx_elf_plan \<Rightarrow> u64 \<Rightarrow> u32 \<Rightarrow> u64 \<Rightarrow> u64 \<Rightarrow> u64 \<Rightarrow> u64 \<Rightarrow> u64
       \<Rightarrow> nx_elf_error + nx_elf_plan \<times> u64" where
  "elf_check sz rules plan prev_end flags off vaddr paddr filesz memsz =
     (if memsz = 0 then Inr (plan, prev_end)
      else if filesz > memsz \<or> off > sz \<or> filesz > sz - off then Inl NX_ELF_E_SEG_BOUNDS
      else if (ru_require_identity rules \<and> vaddr \<noteq> paddr) \<or> vaddr > - 1 - memsz
              \<or> vaddr < ru_min_addr rules \<or> vaddr + memsz > ru_max_addr rules then Inl NX_ELF_E_SEG_ADDR
      else if ru_forbid_wx rules \<and> flags AND PF_W \<noteq> 0 \<and> flags AND PF_X \<noteq> 0 then Inl NX_ELF_E_WX
      else if pl_segment_count plan \<noteq> 0 \<and> vaddr < prev_end then Inl NX_ELF_E_SEG_ORDER
      else if pl_segment_count plan = NX_ELF_MAX_SEGMENTS then Inl NX_ELF_E_NO_LOAD
      else Inr (plan\<lparr>pl_segments := (pl_segments plan)[unat (pl_segment_count plan) :=
                      \<lparr>sg_file_offset = off, sg_file_size = filesz, sg_addr = vaddr,
                       sg_mem_size = memsz, sg_flags = flags\<rparr>],
                     pl_segment_count := pl_segment_count plan + 1\<rparr>, vaddr + memsz))"

definition elf_segment ::
    "bytes \<Rightarrow> u64 \<Rightarrow> nx_elf_rules \<Rightarrow> nat \<Rightarrow> nx_elf_plan \<Rightarrow> u64 \<Rightarrow> (nx_elf_error + nx_elf_plan \<times> u64) option" where
  "elf_segment img sz rules ph plan prev_end = do {
     ty \<leftarrow> rd32 img ph;
     if ty \<noteq> PT_LOAD then Some (Inr (plan, prev_end)) else do {
     flags \<leftarrow> rd32 img (ph + 4);
     off \<leftarrow> rd64 img (ph + 8);
     vaddr \<leftarrow> rd64 img (ph + 16);
     paddr \<leftarrow> rd64 img (ph + 24);
     filesz \<leftarrow> rd64 img (ph + 32);
     memsz \<leftarrow> rd64 img (ph + 40);
     Some (elf_check sz rules plan prev_end flags off vaddr paddr filesz memsz) } }"

fun elf_segments ::
    "bytes \<Rightarrow> u64 \<Rightarrow> nx_elf_rules \<Rightarrow> nat \<Rightarrow> nat list \<Rightarrow> nx_elf_plan \<Rightarrow> u64
       \<Rightarrow> (nx_elf_error \<times> nx_elf_plan \<times> u64) option" where
  "elf_segments img sz rules phoff [] plan prev_end = Some (NX_ELF_OK, plan, prev_end)"
| "elf_segments img sz rules phoff (i # is) plan prev_end = do {
     r \<leftarrow> elf_segment img sz rules (phoff + i * 56) plan prev_end;
     (case r of
        Inl e \<Rightarrow> Some (e, plan, prev_end)
      | Inr (plan1, prev1) \<Rightarrow> elf_segments img sz rules phoff is plan1 prev1) }"

definition elf_entry_ok :: "u64 \<Rightarrow> nx_elf_plan \<Rightarrow> bool" where
  "elf_entry_ok entry plan \<longleftrightarrow> list_ex (\<lambda>i. let s = pl_segments plan ! i in
     sg_flags s AND PF_X \<noteq> 0 \<and> entry \<ge> sg_addr s \<and> entry - sg_addr s < sg_mem_size s)
     [0..<unat (pl_segment_count plan)]"

definition elf_finish :: "nx_elf_rules \<Rightarrow> u64 \<Rightarrow> nx_elf_plan \<Rightarrow> u64 \<Rightarrow> nx_elf_error \<times> nx_elf_plan" where
  "elf_finish rules entry plan prev_end =
     (if pl_segment_count plan = 0 then (NX_ELF_E_NO_LOAD, plan)
      else if \<not> elf_entry_ok entry plan then (NX_ELF_E_ENTRY, plan)
      else let p = plan\<lparr>pl_entry := entry,
                        pl_span_base := sg_addr (pl_segments plan ! 0) AND NOT PAGE_MASK,
                        pl_span_end := (prev_end + PAGE_MASK) AND NOT PAGE_MASK\<rparr>
           in (if pl_span_end p - pl_span_base p > ru_span_max rules then NX_ELF_E_SPAN else NX_ELF_OK, p))"

definition nx_elf_plan_rules ::
    "bytes \<Rightarrow> u64 \<Rightarrow> nx_elf_rules \<Rightarrow> nx_elf_plan \<Rightarrow> (nx_elf_error \<times> nx_elf_plan) option" where
  "nx_elf_plan_rules img sz rules plan0 =
     (let plan = plan0\<lparr>pl_segment_count := 0\<rparr> in
      if sz < EHDR_SIZE then Some (NX_ELF_E_TRUNCATED, plan) else do {
      i0 \<leftarrow> rd8 img 0; i1 \<leftarrow> rd8 img 1; i2 \<leftarrow> rd8 img 2; i3 \<leftarrow> rd8 img 3;
      i4 \<leftarrow> rd8 img 4; i5 \<leftarrow> rd8 img 5; i6 \<leftarrow> rd8 img 6;
      if i0 \<noteq> 0x7F \<or> i1 \<noteq> 0x45 \<or> i2 \<noteq> 0x4C \<or> i3 \<noteq> 0x46 \<or> i4 \<noteq> 2 \<or> i5 \<noteq> 1 \<or> i6 \<noteq> 1
      then Some (NX_ELF_E_IDENT, plan) else do {
      ty \<leftarrow> rd16 img 16; mach \<leftarrow> rd16 img 18; ver \<leftarrow> rd32 img 20;
      if ty \<noteq> 2 \<or> mach \<noteq> 62 \<or> ver \<noteq> 1 then Some (NX_ELF_E_TYPE, plan) else do {
      entry \<leftarrow> rd64 img 24; phoff \<leftarrow> rd64 img 32;
      ehsize \<leftarrow> rd16 img 52; phentsize \<leftarrow> rd16 img 54; phnum \<leftarrow> rd16 img 56;
      if ehsize \<noteq> 64 \<or> phentsize \<noteq> 56 \<or> phnum = 0 \<or> phnum > 64 then Some (NX_ELF_E_PHDR, plan)
      else if phoff > sz \<or> ucast phnum * PHDR_SIZE > sz - phoff then Some (NX_ELF_E_PHDR, plan) else do {
      (st, plan1, prev_end) \<leftarrow> elf_segments img sz rules (unat phoff) [0..<unat phnum] plan 0;
      if st \<noteq> NX_ELF_OK then Some (st, plan1)
      else Some (elf_finish rules entry plan1 prev_end) } } } })"

definition elf_kernel_rules :: nx_elf_rules where
  "elf_kernel_rules = \<lparr>ru_min_addr = NX_KERNEL_LOAD_MIN, ru_max_addr = NX_KERNEL_LOAD_MAX,
     ru_span_max = NX_KERNEL_SPAN_MAX, ru_require_identity = True, ru_forbid_wx = False\<rparr>"

definition elf_user_rules :: nx_elf_rules where
  "elf_user_rules = \<lparr>ru_min_addr = NX_USER_BASE,
     ru_max_addr = NX_USER_STACK_TOP - (NX_USER_STACK_PAGES + 1) * 0x1000,
     ru_span_max = NX_USER_SPAN_MAX, ru_require_identity = False, ru_forbid_wx = True\<rparr>"

definition nx_elf_plan_kernel :: "bytes \<Rightarrow> u64 \<Rightarrow> nx_elf_plan \<Rightarrow> (nx_elf_error \<times> nx_elf_plan) option" where
  "nx_elf_plan_kernel img sz plan = nx_elf_plan_rules img sz elf_kernel_rules plan"

definition nx_elf_plan_user :: "bytes \<Rightarrow> u64 \<Rightarrow> nx_elf_plan \<Rightarrow> (nx_elf_error \<times> nx_elf_plan) option" where
  "nx_elf_plan_user img sz plan = nx_elf_plan_rules img sz elf_user_rules plan"

definition nx_elf_strerror :: "int \<Rightarrow> string" where
  "nx_elf_strerror err =
     (if 0 \<le> err \<and> err \<le> 11
      then [''ok'', ''truncated header'', ''bad ident (magic/class/data/version)'', ''not an x86-64 ET_EXEC'',
            ''bad program header table'', ''segment outside file or filesz > memsz'',
            ''segment address invalid or outside load window'', ''PT_LOAD segments unsorted or overlapping'',
            ''no loadable segments or too many'', ''entry point not in an executable segment'',
            ''span too large'', ''segment both writable and executable''] ! nat err
      else ''unknown'')"

section \<open>No read outside the image\<close>

lemma rd8_Some: "i < length p \<Longrightarrow> \<exists>v. rd8 p i = Some v"
  by (simp add: rd8_def)

lemma rd16_Some: "i + 2 \<le> length p \<Longrightarrow> \<exists>v. rd16 p i = Some v"
  by (simp add: rd16_def rd8_def)

lemma rd32_Some: "i + 4 \<le> length p \<Longrightarrow> \<exists>v. rd32 p i = Some v"
  using rd16_Some [of i p] rd16_Some [of "i + 2" p] by (auto simp: rd32_def)

lemma rd64_Some: "i + 8 \<le> length p \<Longrightarrow> \<exists>v. rd64 p i = Some v"
  using rd32_Some [of i p] rd32_Some [of "i + 4" p] by (auto simp: rd64_def)

lemma elf_segment_Some:
  assumes "ph + 56 \<le> length img"
  shows "\<exists>r. elf_segment img sz rules ph plan prev_end = Some r"
proof -
  obtain ty flags where "rd32 img ph = Some ty" "rd32 img (ph + 4) = Some flags"
    using rd32_Some [of ph img] rd32_Some [of "ph + 4" img] assms by auto
  moreover obtain a b c d e where "rd64 img (ph + 8) = Some a" "rd64 img (ph + 16) = Some b"
    "rd64 img (ph + 24) = Some c" "rd64 img (ph + 32) = Some d" "rd64 img (ph + 40) = Some e"
    using rd64_Some [of "ph + 8" img] rd64_Some [of "ph + 16" img] rd64_Some [of "ph + 24" img]
      rd64_Some [of "ph + 32" img] rd64_Some [of "ph + 40" img] assms by auto
  ultimately show ?thesis unfolding elf_segment_def by (cases "ty = PT_LOAD") simp_all
qed

lemma elf_segments_Some:
  assumes "\<forall>i \<in> set is. phoff + i * 56 + 56 \<le> length img"
  shows "\<exists>r. elf_segments img sz rules phoff is plan prev_end = Some r"
  using assms
proof (induction "is" arbitrary: plan prev_end)
  case (Cons i "is")
  obtain r where r: "elf_segment img sz rules (phoff + i * 56) plan prev_end = Some r"
    using elf_segment_Some Cons.prems by (metis list.set_intros(1))
  show ?case
  proof (cases r)
    case (Inr q)
    then show ?thesis using r Cons.IH [of "fst q" "snd q"] Cons.prems by (cases q) auto
  qed (use r in simp)
qed simp

lemma phdr_room:
  assumes "phoff \<le> sz" and "\<not> (ucast phnum * 56 :: u64) > sz - phoff" and "unat (phnum :: u16) \<le> 64"
    and "i < unat phnum"
  shows "unat phoff + i * 56 + 56 \<le> unat sz"
proof -
  have "unat (ucast phnum * 56 :: u64) = unat phnum * 56"
    using assms(3) by (subst unat_mult_small) auto
  then have "unat phnum * 56 \<le> unat sz - unat phoff"
    using assms(1,2) by (simp add: word_less_nat_alt unat_sub)
  moreover have "(i + 1) * 56 \<le> unat phnum * 56" using assms(4) by (intro mult_right_mono) auto
  ultimately show ?thesis using assms(1) by (simp add: word_le_nat_alt)
qed

lemma elf_rules_total:
  assumes sz: "unat sz = length img"
  shows "\<exists>r. nx_elf_plan_rules img sz rules plan = Some r"
proof (cases "sz < EHDR_SIZE")
  case True
  then show ?thesis by (simp add: nx_elf_plan_rules_def)
next
  case False
  then have l: "64 \<le> length img" using sz by (simp add: word_less_nat_alt)
  have r8: "rd8 img i = Some (img ! i)" if "i < 64" for i using that l by (simp add: rd8_def)
  obtain ty mach ver where a: "rd16 img 16 = Some ty" "rd16 img 18 = Some mach" "rd32 img 20 = Some ver"
    using rd16_Some [of 16 img] rd16_Some [of 18 img] rd32_Some [of 20 img] l by auto
  obtain en ph eh pe pn where b: "rd64 img 24 = Some en" "rd64 img 32 = Some ph" "rd16 img 52 = Some eh"
    "rd16 img 54 = Some pe" "rd16 img 56 = Some pn"
    using rd64_Some [of 24 img] rd64_Some [of 32 img] rd16_Some [of 52 img] rd16_Some [of 54 img]
      rd16_Some [of 56 img] l by auto
  define k where "k = (\<lambda>(st, plan1, prev_end). if st \<noteq> NX_ELF_OK then Some (st, plan1)
      else Some (elf_finish rules en plan1 prev_end))"
  have c: "\<exists>x y. elf_segments img sz rules (unat ph) [0..<unat pn] (plan\<lparr>pl_segment_count := 0\<rparr>) 0 \<bind> k = Some (x, y)"
    if h: "ph \<le> sz" "\<not> (ucast pn * 56 :: u64) > sz - ph" "\<not> pn > 64"
  proof -
    obtain st p1 pe where
      "elf_segments img sz rules (unat ph) [0..<unat pn] (plan\<lparr>pl_segment_count := 0\<rparr>) 0 = Some (st, p1, pe)"
      using elf_segments_Some [of "[0..<unat pn]" "unat ph" img sz rules "plan\<lparr>pl_segment_count := 0\<rparr>" 0]
        phdr_room [OF h(1,2)] h(3) sz by (auto simp: word_less_nat_alt)
    then show ?thesis by (cases "elf_finish rules en p1 pe") (simp add: k_def)
  qed
  show ?thesis
    using False c [unfolded k_def] unfolding nx_elf_plan_rules_def
    by (simp add: Let_def r8 a b not_less)
qed

section \<open>What an accepted plan promises\<close>

definition segs :: "nx_elf_plan \<Rightarrow> nx_elf_segment list" where
  "segs p = take (unat (pl_segment_count p)) (pl_segments p)"

definition sg_end :: "nx_elf_segment \<Rightarrow> nat" where
  "sg_end s = unat (sg_addr s) + unat (sg_mem_size s)"

definition seg_ok :: "bytes \<Rightarrow> nx_elf_rules \<Rightarrow> nx_elf_segment \<Rightarrow> bool" where
  "seg_ok img ru s \<longleftrightarrow> unat (sg_file_offset s) + unat (sg_file_size s) \<le> length img
     \<and> sg_file_size s \<le> sg_mem_size s \<and> 0 < unat (sg_mem_size s)
     \<and> ru_min_addr ru \<le> sg_addr s \<and> sg_end s \<le> unat (ru_max_addr ru)
     \<and> \<not> (ru_forbid_wx ru \<and> sg_flags s AND PF_W \<noteq> 0 \<and> sg_flags s AND PF_X \<noteq> 0)"

definition segs_ok :: "bytes \<Rightarrow> nx_elf_rules \<Rightarrow> nx_elf_plan \<Rightarrow> bool" where
  "segs_ok img ru p \<longleftrightarrow> length (pl_segments p) = 16 \<and> unat (pl_segment_count p) \<le> 16
     \<and> (\<forall>s \<in> set (segs p). seg_ok img ru s)
     \<and> sorted_wrt (\<lambda>a b. sg_end a \<le> unat (sg_addr b)) (segs p)"

definition ends_at :: "nx_elf_plan \<Rightarrow> u64 \<Rightarrow> bool" where
  "ends_at p e \<longleftrightarrow> (segs p \<noteq> [] \<longrightarrow> unat e = sg_end (last (segs p)))"

lemma segs_append:
  assumes "length (pl_segments p) = 16" and "unat (pl_segment_count p) < 16"
  shows "segs (p\<lparr>pl_segments := (pl_segments p)[unat (pl_segment_count p) := s],
      pl_segment_count := pl_segment_count p + 1\<rparr>) = segs p @ [s]"
    and "unat (pl_segment_count p + 1) = unat (pl_segment_count p) + 1"
proof -
  show c: "unat (pl_segment_count p + 1) = unat (pl_segment_count p) + 1"
    using assms(2) by (subst unat_add_small) auto
  show "segs (p\<lparr>pl_segments := (pl_segments p)[unat (pl_segment_count p) := s],
      pl_segment_count := pl_segment_count p + 1\<rparr>) = segs p @ [s]"
    using assms c by (simp add: segs_def take_Suc_conv_app_nth)
qed

lemma sorted_last_le:
  assumes "sorted_wrt (\<lambda>a b. sg_end a \<le> unat (sg_addr b)) xs" and "x \<in> set xs"
    and "\<forall>s \<in> set xs. 0 < unat (sg_mem_size s)"
  shows "sg_end x \<le> sg_end (last xs)"
proof -
  obtain ys y where xs: "xs = ys @ [y]" using assms(2) by (metis append_butlast_last_id empty_iff empty_set)
  have "x = y \<or> (x \<in> set ys \<and> sg_end x \<le> unat (sg_addr y))"
    using assms xs by (auto simp: sorted_wrt_append)
  then show ?thesis by (auto simp: xs sg_end_def)
qed

lemma segs_ok_append:
  assumes ok: "segs_ok img ru p" "ends_at p e" and n: "unat (pl_segment_count p) < 16"
    and s: "seg_ok img ru s" and ord: "pl_segment_count p = 0 \<or> e \<le> sg_addr s"
    and e': "unat e' = sg_end s"
    and q: "q = p\<lparr>pl_segments := (pl_segments p)[unat (pl_segment_count p) := s],
      pl_segment_count := pl_segment_count p + 1\<rparr>"
  shows "segs_ok img ru q" and "ends_at q e'"
proof -
  have len: "length (pl_segments p) = 16" using ok(1) by (simp add: segs_ok_def)
  note a = segs_append(1) [OF len n, of s, folded q] segs_append(2) [OF len n]
  have pos: "\<forall>s \<in> set (segs p). 0 < unat (sg_mem_size s)" using ok(1) by (simp add: segs_ok_def seg_ok_def)
  have le: "sg_end x \<le> unat (sg_addr s)" if "x \<in> set (segs p)" for x
  proof -
    have "segs p \<noteq> []" using that by auto
    then have "pl_segment_count p \<noteq> 0" by (auto simp: segs_def)
    then show ?thesis
      using sorted_last_le [OF _ that pos] ok ord \<open>segs p \<noteq> []\<close>
      by (auto simp: segs_ok_def ends_at_def word_le_nat_alt)
  qed
  show "segs_ok img ru q"
    using ok(1) s le a n by (auto simp: segs_ok_def q sorted_wrt_append)
  show "ends_at q e'" using a e' by (simp add: ends_at_def)
qed

lemma elf_check_ok:
  assumes sz: "unat sz = length img" and ok: "segs_ok img ru p" "ends_at p e"
    and r: "elf_check sz ru p e fl off va pa fs ms = Inr (q, e')"
  shows "segs_ok img ru q \<and> ends_at q e'"
proof (cases "ms = 0")
  case True
  then show ?thesis using r ok by (simp add: elf_check_def)
next
  case False
  define s where "s = \<lparr>sg_file_offset = off, sg_file_size = fs, sg_addr = va, sg_mem_size = ms, sg_flags = fl\<rparr>"
  have sg: "\<not> (fs > ms \<or> off > sz \<or> fs > sz - off)"
    "\<not> (va > - 1 - ms \<or> va < ru_min_addr ru \<or> va + ms > ru_max_addr ru)"
    "\<not> (ru_forbid_wx ru \<and> fl AND PF_W \<noteq> 0 \<and> fl AND PF_X \<noteq> 0)" "\<not> (pl_segment_count p \<noteq> 0 \<and> va < e)"
    "pl_segment_count p \<noteq> 16" "e' = va + ms"
    "q = p\<lparr>pl_segments := (pl_segments p)[unat (pl_segment_count p) := s],
        pl_segment_count := pl_segment_count p + 1\<rparr>"
    using r False by (simp_all add: elf_check_def s_def split: if_splits)
  have "unat va \<le> 18446744073709551615 - unat ms"
    using sg(2) by (simp add: word_less_nat_alt unat_max_sub)
  then have nw: "unat (va + ms) = unat va + unat ms"
    using unat_u64_less [of ms] by (subst unat_add_small) auto
  have "unat (sz - off) = unat sz - unat off" using sg(1) by (intro unat_sub) auto
  then have so: "seg_ok img ru s"
    using sg(1,2,3) False nw sz
    by (auto simp: seg_ok_def s_def sg_end_def word_le_nat_alt word_less_nat_alt unat_gt_0)
  have n: "unat (pl_segment_count p) < 16"
    using ok(1) sg(5) by (auto simp: segs_ok_def word_unat_eq_iff)
  show ?thesis
    using segs_ok_append [OF ok n so _ _ sg(7)] sg(4,6) nw by (auto simp: s_def sg_end_def not_less)
qed

lemma elf_segment_ok:
  assumes "unat sz = length img" and "segs_ok img ru p" "ends_at p e"
    and "elf_segment img sz ru ph p e = Some (Inr (q, e'))"
  shows "segs_ok img ru q \<and> ends_at q e'"
  using assms(2-4) elf_check_ok [OF assms(1-3)]
  by (auto simp: elf_segment_def bind_eq_Some_conv split: if_splits)

lemma elf_segment_not_ok: "elf_segment img sz ru ph p e \<noteq> Some (Inl NX_ELF_OK)"
  by (auto simp: elf_segment_def elf_check_def bind_eq_Some_conv)

lemma elf_segments_ok:
  assumes "unat sz = length img" and "segs_ok img ru p" "ends_at p e"
    and "elf_segments img sz ru phoff is p e = Some (NX_ELF_OK, q, e')"
  shows "segs_ok img ru q \<and> ends_at q e'"
  using assms(2-4)
proof (induction "is" arbitrary: p e)
  case (Cons i "is")
  obtain r where r: "elf_segment img sz ru (phoff + i * 56) p e = Some r"
    using Cons.prems(3) by (auto simp: bind_eq_Some_conv)
  show ?case
  proof (cases r)
    case (Inl x)
    then have "x = NX_ELF_OK" using Cons.prems(3) r by simp
    then show ?thesis using r Inl elf_segment_not_ok by blast
  next
    case (Inr b)
    obtain p1 e1 where b: "b = (p1, e1)" by fastforce
    have "segs_ok img ru p1 \<and> ends_at p1 e1"
      by (rule elf_segment_ok [OF assms(1) Cons.prems(1,2)]) (use r Inr b in simp)
    then show ?thesis using Cons.IH [of p1 e1] Cons.prems(3) r Inr b by simp
  qed
qed simp

lemma elf_segments_start: "length (pl_segments p) = 16 \<Longrightarrow> segs_ok img ru (p\<lparr>pl_segment_count := 0\<rparr>)
    \<and> ends_at (p\<lparr>pl_segment_count := 0\<rparr>) 0"
  by (simp add: segs_ok_def ends_at_def segs_def)

lemma elf_rules_stages:
  assumes "nx_elf_plan_rules img sz ru plan = Some (NX_ELF_OK, p)"
  shows "\<exists>entry phoff is p1 e. elf_segments img sz ru phoff is (plan\<lparr>pl_segment_count := 0\<rparr>) 0 = Some (NX_ELF_OK, p1, e)
    \<and> elf_finish ru entry p1 e = (NX_ELF_OK, p)"
  using assms unfolding nx_elf_plan_rules_def Let_def
  by (auto simp: bind_eq_Some_conv split: if_splits) blast+

text \<open>The page rounding of the span.\<close>

lemma page_round:
  assumes "unat e \<le> 18446744073709547520"
  shows "unat ((e + PAGE_MASK) AND NOT PAGE_MASK) mod 4096 = 0"
    and "unat e \<le> unat ((e + PAGE_MASK) AND NOT PAGE_MASK)"
    and "unat (x AND NOT PAGE_MASK) \<le> unat (x :: u64)" and "unat (x AND NOT PAGE_MASK) mod 4096 = 0"
proof -
  have d: "unat (y AND NOT PAGE_MASK) = 4096 * (unat (y :: u64) div 4096)" for y
    using unat_align_down_4096 [of y] by (simp add: minus_mod_eq_mult_div)
  have "unat (e + 4095) = unat e + 4095" using assms by (subst unat_add_small) auto
  then show "unat e \<le> unat ((e + PAGE_MASK) AND NOT PAGE_MASK)"
    unfolding d using div_mult_mod_eq [of "unat e + 4095" 4096] mod_less_divisor [of 4096 "unat e + 4095"] by linarith
  show "unat ((e + PAGE_MASK) AND NOT PAGE_MASK) mod 4096 = 0" "unat (x AND NOT PAGE_MASK) mod 4096 = 0"
    unfolding d by simp_all
  show "unat (x AND NOT PAGE_MASK) \<le> unat (x :: u64)" unfolding d by simp
qed

definition plan_span_ok :: "nx_elf_rules \<Rightarrow> nx_elf_plan \<Rightarrow> bool" where
  "plan_span_ok ru p \<longleftrightarrow> unat (pl_span_base p) mod 4096 = 0 \<and> unat (pl_span_end p) mod 4096 = 0
     \<and> (\<forall>s \<in> set (segs p). unat (pl_span_base p) \<le> unat (sg_addr s) \<and> sg_end s \<le> unat (pl_span_end p))
     \<and> unat (pl_span_end p) - unat (pl_span_base p) \<le> unat (ru_span_max ru)"

definition plan_entry_ok :: "nx_elf_plan \<Rightarrow> bool" where
  "plan_entry_ok p \<longleftrightarrow> (\<exists>s \<in> set (segs p). sg_flags s AND PF_X \<noteq> 0
     \<and> unat (sg_addr s) \<le> unat (pl_entry p) \<and> unat (pl_entry p) < sg_end s)"

lemma segs_first:
  assumes "sorted_wrt (\<lambda>a b. sg_end a \<le> unat (sg_addr b)) xs" and "x \<in> set xs"
  shows "unat (sg_addr (xs ! 0)) \<le> unat (sg_addr x)"
  using assms by (cases xs) (auto simp: sg_end_def intro: order_trans [rotated])

lemma elf_finish_ok:
  assumes ok: "segs_ok img ru p1" "ends_at p1 e" and mx: "unat (ru_max_addr ru) \<le> 18446744073709547520"
    and f: "elf_finish ru entry p1 e = (NX_ELF_OK, p)"
  shows "segs p \<noteq> []" and "segs_ok img ru p" and "plan_entry_ok p" and "plan_span_ok ru p"
proof -
  have p: "pl_segment_count p1 \<noteq> 0" "elf_entry_ok entry p1"
    "p = p1\<lparr>pl_entry := entry, pl_span_base := sg_addr (pl_segments p1 ! 0) AND NOT PAGE_MASK,
        pl_span_end := (e + PAGE_MASK) AND NOT PAGE_MASK\<rparr>"
    "\<not> pl_span_end p - pl_span_base p > ru_span_max ru"
    using f by (auto simp: elf_finish_def Let_def split: if_splits)
  have sg: "segs p = segs p1" by (simp add: p(3) segs_def)
  have len: "length (segs p1) = unat (pl_segment_count p1)" using ok(1) by (simp add: segs_def segs_ok_def)
  then show ne: "segs p \<noteq> []" using p(1) sg by (metis length_0_conv unat_eq_zero)
  show "segs_ok img ru p" using ok(1) sg by (simp add: segs_ok_def p(3))
  obtain i where i: "i < unat (pl_segment_count p1)" "sg_flags (pl_segments p1 ! i) AND PF_X \<noteq> 0"
    "entry \<ge> sg_addr (pl_segments p1 ! i)" "entry - sg_addr (pl_segments p1 ! i) < sg_mem_size (pl_segments p1 ! i)"
    using p(2) by (auto simp: elf_entry_ok_def list_ex_iff Let_def)
  have "pl_segments p1 ! i \<in> set (segs p1)" using i(1) len by (metis nth_mem nth_take segs_def)
  moreover have "pl_entry p = entry" by (simp add: p(3))
  ultimately show "plan_entry_ok p"
    using i unfolding plan_entry_ok_def sg
    by (auto simp: sg_end_def word_le_nat_alt word_less_nat_alt unat_sub intro!: bexI [of _ "pl_segments p1 ! i"])
  have so: "sorted_wrt (\<lambda>a b. sg_end a \<le> unat (sg_addr b)) (segs p1)"
    "\<forall>s \<in> set (segs p1). 0 < unat (sg_mem_size s)"
    using ok(1) by (simp_all add: segs_ok_def seg_ok_def)
  have e: "unat e = sg_end (last (segs p1))" using ok(2) ne sg by (simp add: ends_at_def)
  have "sg_end (last (segs p1)) \<le> unat (ru_max_addr ru)"
    using ok(1) ne sg by (simp add: segs_ok_def seg_ok_def)
  then have em: "unat e \<le> 18446744073709547520" using e mx by simp
  have z: "pl_segments p1 ! 0 = segs p1 ! 0" using p(1) by (simp add: segs_def unat_gt_0)
  have b: "unat (pl_span_base p) \<le> unat (sg_addr s) \<and> sg_end s \<le> unat (pl_span_end p)" if "s \<in> set (segs p1)" for s
    using page_round(3) [OF em, of "sg_addr (pl_segments p1 ! 0)"] segs_first [OF so(1) that] z
      page_round(2) [OF em] sorted_last_le [OF so(1) that so(2)] e by (simp add: p(3))
  have "unat (pl_span_base p) \<le> unat (pl_span_end p)"
    using b [of "segs p1 ! 0"] ne sg by (fastforce simp: sg_end_def)
  then have "unat (pl_span_end p - pl_span_base p) = unat (pl_span_end p) - unat (pl_span_base p)"
    by (simp add: unat_sub word_le_nat_alt)
  then show "plan_span_ok ru p"
    using b p(4) page_round(1,4) [OF em] by (auto simp: plan_span_ok_def sg word_less_nat_alt) (simp_all add: p(3))
qed

text \<open>
  C19. No image makes the ELF planner read outside it: for every byte string, every set of rules
  and every previous content of the plan, the planner returns a verdict.
\<close>

theorem elf_plan_no_out_of_bounds:
  assumes "unat sz = length img"
  shows "nx_elf_plan_rules img sz ru plan \<noteq> None"
  using elf_rules_total [OF assms] by fastforce

theorem elf_plan_no_out_of_bounds_witness:
  "unat (3 :: u64) = length [0x7F, 0x45, 0x4C :: u8] \<and>
   nx_elf_plan_rules [0x7F, 0x45, 0x4C] 3 elf_user_rules
     \<lparr>pl_entry = 0, pl_span_base = 0, pl_span_end = 0, pl_segment_count = 9, pl_segments = []\<rparr> \<noteq> None"
  using elf_plan_no_out_of_bounds [of 3 "[0x7F, 0x45, 0x4C]" elf_user_rules] by simp

text \<open>
  C18. An accepted image is safe to load: every planned segment is non-empty, reads its file bytes
  from inside the image, lies in the permitted address window, is not both writable and
  executable where that is forbidden; the segments are in ascending order and disjoint; the entry
  point lies in an executable segment; and the page-aligned span covers all segments and obeys
  the size limit. The precondition on the window is the one stated in the code.
\<close>

theorem elf_plan_sound:
  assumes "unat sz = length img" and "length (pl_segments plan) = 16"
    and "unat (ru_max_addr ru) \<le> 2 ^ 64 - 4096"
    and "nx_elf_plan_rules img sz ru plan = Some (NX_ELF_OK, p)"
  shows "segs p \<noteq> [] \<and> segs_ok img ru p \<and> plan_entry_ok p \<and> plan_span_ok ru p"
proof -
  obtain entry phoff "is" p1 e where
    "elf_segments img sz ru phoff is (plan\<lparr>pl_segment_count := 0\<rparr>) 0 = Some (NX_ELF_OK, p1, e)"
    and f: "elf_finish ru entry p1 e = (NX_ELF_OK, p)"
    using elf_rules_stages [OF assms(4)] by blast
  then have "segs_ok img ru p1" "ends_at p1 e"
    using elf_segments_ok [OF assms(1)] elf_segments_start [OF assms(2), of img ru] by blast+
  then show ?thesis using elf_finish_ok [OF _ _ _ f] assms(3) by simp
qed

definition ex_elf :: bytes where
  "ex_elf =
    [127, 69, 76, 70, 2, 1, 1, 0, 0, 0, 0, 0, 0, 0, 0, 0, 2, 0, 62, 0, 1, 0, 0, 0, 16, 16, 0, 0,
     128, 0, 0, 0, 64, 0, 0, 0, 0, 0, 0, 0, 0, 0, 0, 0, 0, 0, 0, 0, 0, 0, 0, 0, 64, 0, 56, 0, 1, 0,
     0, 0, 0, 0, 0, 0, 1, 0, 0, 0, 5, 0, 0, 0, 16, 0, 0, 0, 0, 0, 0, 0, 0, 16, 0, 0, 128, 0, 0, 0,
     0, 0, 0, 0, 0, 0, 0, 0, 100, 0, 0, 0, 0, 0, 0, 0, 0, 32, 0, 0, 0, 0, 0, 0, 0, 16, 0, 0, 0, 0,
     0, 0]"

definition ex_plan :: nx_elf_plan where
  "ex_plan = \<lparr>pl_entry = 0, pl_span_base = 0, pl_span_end = 0, pl_segment_count = 0,
     pl_segments = replicate 16 \<lparr>sg_file_offset = 0, sg_file_size = 0, sg_addr = 0, sg_mem_size = 0, sg_flags = 0\<rparr>\<rparr>"

theorem elf_plan_sound_witness:
  "\<exists>p. nx_elf_plan_user ex_elf 120 ex_plan = Some (NX_ELF_OK, p) \<and> segs p \<noteq> []
     \<and> segs_ok ex_elf elf_user_rules p \<and> plan_entry_ok p \<and> plan_span_ok elf_user_rules p"
proof -
  have l: "unat (120 :: u64) = length ex_elf" "length (pl_segments ex_plan) = 16"
    "unat (ru_max_addr elf_user_rules) \<le> 2 ^ 64 - 4096"
    by (simp_all add: ex_elf_def ex_plan_def elf_user_rules_def)
  have "\<exists>p. nx_elf_plan_rules ex_elf 120 elf_user_rules ex_plan = Some (NX_ELF_OK, p)"
    by (simp add: nx_elf_plan_rules_def rd8_def rd16_def rd32_def rd64_def ex_elf_def ex_plan_def
        elf_segment_def elf_check_def elf_user_rules_def elf_finish_def elf_entry_ok_def Let_def evals)
  then obtain p where p: "nx_elf_plan_rules ex_elf 120 elf_user_rules ex_plan = Some (NX_ELF_OK, p)" ..
  show ?thesis
    using elf_plan_sound [OF l p] p by (intro exI [of _ p]) (simp add: nx_elf_plan_user_def)
qed

end
