(* ===== verification/Initramfs.thy ===== *)
theory Initramfs
  imports Nx_Prelude "HOL-Library.Monad_Syntax"
begin

text \<open>
  The initramfs reader (kernel/initramfs.c): cpio archives in a byte buffer. A pointer into the
  archive is an offset. Every read is an option, None an access outside the buffer, and the walks
  over the archive are partial functions, so that not returning is None as well.
\<close>

abbreviation NX_CPIO_HEADER_SIZE :: u64 where "NX_CPIO_HEADER_SIZE \<equiv> 110"
abbreviation NX_CPIO_NAME_MAX :: u32 where "NX_CPIO_NAME_MAX \<equiv> 4096"
abbreviation NX_CPIO_MODE_TYPE :: u32 where "NX_CPIO_MODE_TYPE \<equiv> 0xF000"
abbreviation NX_CPIO_MODE_DIR :: u32 where "NX_CPIO_MODE_DIR \<equiv> 0x4000"
abbreviation NX_CPIO_MODE_REG :: u32 where "NX_CPIO_MODE_REG \<equiv> 0x8000"

datatype nx_cpio_status =
    NX_CPIO_OK | NX_CPIO_END | NX_CPIO_E_TRUNCATED | NX_CPIO_E_MAGIC | NX_CPIO_E_HEX | NX_CPIO_E_NAME
  | NX_CPIO_E_BOUNDS | NX_CPIO_E_TYPE | NX_CPIO_E_NO_TRAILER | NX_CPIO_E_NOT_FOUND

record nx_cpio_entry =
  ce_name :: u64
  ce_name_len :: u32
  ce_mode :: u32
  ce_data :: u64
  ce_size :: u64

definition TRAILER :: bytes where
  "TRAILER = [0x54, 0x52, 0x41, 0x49, 0x4C, 0x45, 0x52, 0x21, 0x21, 0x21, 0]"

definition byte_at :: "bytes \<Rightarrow> nat \<Rightarrow> u8 option" where
  "byte_at b i = (if i < length b then Some (b ! i) else None)"

definition hex_digit :: "u8 \<Rightarrow> u32 option" where
  "hex_digit c =
     (if 0x30 \<le> c \<and> c \<le> 0x39 then Some (ucast c - 0x30)
      else if 0x61 \<le> c \<and> c \<le> 0x66 then Some (ucast c - 0x61 + 10)
      else if 0x41 \<le> c \<and> c \<le> 0x46 then Some (ucast c - 0x41 + 10)
      else None)"

fun hex_loop :: "bytes \<Rightarrow> nat \<Rightarrow> nat \<Rightarrow> u32 \<Rightarrow> u32 option option" where
  "hex_loop b p 0 v = Some (Some v)"
| "hex_loop b p (Suc k) v =
     do {
       c \<leftarrow> byte_at b p;
       case hex_digit c of None \<Rightarrow> Some None | Some d \<Rightarrow> hex_loop b (p + 1) k (push_bit 4 v OR d)
     }"

definition parse_hex8 :: "bytes \<Rightarrow> nat \<Rightarrow> u32 option option" where
  "parse_hex8 b p = hex_loop b p 8 0"

definition align4 :: "u64 \<Rightarrow> u64" where
  "align4 v = (v + 3) AND NOT 3"

text \<open>The comparison from character \<open>i\<close> on, \<open>k\<close> characters of the entry's name left.\<close>

fun name_eq_from :: "bytes \<Rightarrow> nat \<Rightarrow> nat \<Rightarrow> bytes \<Rightarrow> nat \<Rightarrow> bool option" where
  "name_eq_from base a 0 s i = do { c \<leftarrow> byte_at s i; Some (c = 0) }"
| "name_eq_from base a (Suc k) s i =
     do {
       c \<leftarrow> byte_at s i;
       if c = 0 then Some False
       else do { x \<leftarrow> byte_at base (a + i); if x \<noteq> c then Some False else name_eq_from base a k s (i + 1) }
     }"

definition name_eq :: "bytes \<Rightarrow> nat \<Rightarrow> u32 \<Rightarrow> bytes \<Rightarrow> bool option" where
  "name_eq base a alen s = name_eq_from base a (unat alen) s 0"

fun magic_ok :: "bytes \<Rightarrow> nat \<Rightarrow> bytes \<Rightarrow> bool option" where
  "magic_ok b h [] = Some True"
| "magic_ok b h (m # ms) = do { c \<leftarrow> byte_at b h; if c \<noteq> m then Some False else magic_ok b (h + 1) ms }"

fun cpio_fields :: "bytes \<Rightarrow> nat \<Rightarrow> nat \<Rightarrow> u32 list option option" where
  "cpio_fields b p 0 = Some (Some [])"
| "cpio_fields b p (Suc k) =
     do {
       v \<leftarrow> parse_hex8 b p;
       case v of None \<Rightarrow> Some None
       | Some x \<Rightarrow> do { r \<leftarrow> cpio_fields b (p + 8) k; Some (map_option (\<lambda>xs. x # xs) r) }
     }"

fun has_nul :: "bytes \<Rightarrow> nat \<Rightarrow> nat \<Rightarrow> bool option" where
  "has_nul b p 0 = Some False"
| "has_nul b p (Suc k) = do { c \<leftarrow> byte_at b p; if c = 0 then Some True else has_nul b (p + 1) k }"

text \<open>The checks on the name of \<open>namesize\<close> bytes at \<open>p\<close>.\<close>

definition name_bad :: "bytes \<Rightarrow> nat \<Rightarrow> u32 \<Rightarrow> bool option" where
  "name_bad b p namesize =
     do {
       l \<leftarrow> byte_at b (p + (unat namesize - 1));
       if l \<noteq> 0 then Some True
       else do { f \<leftarrow> byte_at b p; if f = 0x2F then Some True else has_nul b p (unat namesize - 1) }
     }"

text \<open>
  The status of the header at \<open>off\<close> and, once every check up to the data's bounds has passed, the
  offset and entry that are then written to the caller.
\<close>

definition cpio_parse :: "bytes \<Rightarrow> u64 \<Rightarrow> u64 \<Rightarrow> (nx_cpio_status \<times> (u64 \<times> nx_cpio_entry) option) option" where
  "cpio_parse base len off =
     (if off > len \<or> len - off < NX_CPIO_HEADER_SIZE then Some (NX_CPIO_E_TRUNCATED, None)
      else do {
        m \<leftarrow> magic_ok base (unat off) [0x30, 0x37, 0x30, 0x37, 0x30, 0x31];
        if \<not> m then Some (NX_CPIO_E_MAGIC, None)
        else do {
          f \<leftarrow> cpio_fields base (unat off + 6) 13;
          case f of None \<Rightarrow> Some (NX_CPIO_E_HEX, None)
          | Some f \<Rightarrow>
              let mode = f ! 1; filesize = f ! 6; namesize = f ! 11; name_off = off + NX_CPIO_HEADER_SIZE in
              if namesize < 2 \<or> namesize > NX_CPIO_NAME_MAX then Some (NX_CPIO_E_NAME, None)
              else if len - name_off < ucast namesize then Some (NX_CPIO_E_TRUNCATED, None)
              else do {
                bad \<leftarrow> name_bad base (unat name_off) namesize;
                if bad then Some (NX_CPIO_E_NAME, None)
                else let data_off = align4 (name_off + ucast namesize) in
                if data_off > len \<or> len - data_off < ucast filesize then Some (NX_CPIO_E_BOUNDS, None)
                else let e' = \<lparr>ce_name = name_off, ce_name_len = namesize - 1, ce_mode = mode,
                               ce_data = data_off, ce_size = ucast filesize\<rparr>;
                         off' = align4 (data_off + ucast filesize) in
                do {
                  t \<leftarrow> name_eq base (unat name_off) (namesize - 1) TRAILER;
                  if t then Some (NX_CPIO_END, Some (off', e'))
                  else if mode AND NX_CPIO_MODE_TYPE \<noteq> NX_CPIO_MODE_REG
                          \<and> mode AND NX_CPIO_MODE_TYPE \<noteq> NX_CPIO_MODE_DIR then Some (NX_CPIO_E_TYPE, Some (off', e'))
                  else Some (NX_CPIO_OK, Some (off', e'))
                }
              }
        }
      })"

definition nx_cpio_next ::
    "bytes \<Rightarrow> u64 \<Rightarrow> u64 \<Rightarrow> nx_cpio_entry \<Rightarrow> (nx_cpio_status \<times> u64 \<times> nx_cpio_entry) option" where
  "nx_cpio_next base len off e =
     map_option (\<lambda>(st, out). case out of None \<Rightarrow> (st, off, e) | Some (off', e') \<Rightarrow> (st, off', e')) (cpio_parse base len off)"

text \<open>The local entry of the walk before its first assignment; its content is never used.\<close>

definition ce_blank :: nx_cpio_entry where
  "ce_blank = \<lparr>ce_name = 0, ce_name_len = 0, ce_mode = 0, ce_data = 0, ce_size = 0\<rparr>"

text \<open>The result is the status, the number of entries and the bad offset where it is set.\<close>

partial_function (option) cpio_walk ::
    "bytes \<Rightarrow> u64 \<Rightarrow> u64 \<Rightarrow> u32 \<Rightarrow> (nx_cpio_status \<times> u32 \<times> u64 option) option" where
  "cpio_walk base len off n =
     (if off \<ge> len then Some (NX_CPIO_E_NO_TRAILER, n, Some off)
      else Option.bind (nx_cpio_next base len off ce_blank) (\<lambda>r.
        if fst r = NX_CPIO_END then Some (NX_CPIO_OK, n, None)
        else if fst r \<noteq> NX_CPIO_OK then Some (fst r, n, Some off)
        else cpio_walk base len (fst (snd r)) (n + 1)))"

definition nx_cpio_validate :: "bytes \<Rightarrow> u64 \<Rightarrow> (nx_cpio_status \<times> u32 \<times> u64 option) option" where
  "nx_cpio_validate base len = cpio_walk base len 0 0"

partial_function (option) cpio_search ::
    "bytes \<Rightarrow> u64 \<Rightarrow> bytes \<Rightarrow> u64 \<Rightarrow> nx_cpio_entry \<Rightarrow> (nx_cpio_status \<times> nx_cpio_entry) option" where
  "cpio_search base len name off e =
     (if off < len then
        Option.bind (nx_cpio_next base len off e) (\<lambda>r.
          if fst r = NX_CPIO_END then Some (NX_CPIO_E_NOT_FOUND, snd (snd r))
          else if fst r \<noteq> NX_CPIO_OK then Some (fst r, snd (snd r))
          else Option.bind (name_eq base (unat (ce_name (snd (snd r)))) (ce_name_len (snd (snd r))) name) (\<lambda>eq.
            if eq then Some (NX_CPIO_OK, snd (snd r))
            else cpio_search base len name (fst (snd r)) (snd (snd r))))
      else Some (NX_CPIO_E_NOT_FOUND, e))"

definition nx_cpio_find ::
    "bytes \<Rightarrow> u64 \<Rightarrow> bytes \<Rightarrow> nx_cpio_entry \<Rightarrow> (nx_cpio_status \<times> nx_cpio_entry) option" where
  "nx_cpio_find base len name e = cpio_search base len name 0 e"

definition nx_cpio_strerror :: "int \<Rightarrow> string" where
  "nx_cpio_strerror st =
     (if 0 \<le> st \<and> st < 10
      then [''ok'', ''end'', ''E_TRUNCATED'', ''E_MAGIC'', ''E_HEX'', ''E_NAME'', ''E_BOUNDS'', ''E_TYPE'',
            ''E_NO_TRAILER'', ''E_NOT_FOUND''] ! nat st
      else ''E_UNKNOWN'')"

section \<open>No read leaves the archive\<close>

lemma byte_at_Some [simp]: "i < length b \<Longrightarrow> byte_at b i = Some (b ! i)"
  by (simp add: byte_at_def)

lemma hex_loop_Some: "p + k \<le> length b \<Longrightarrow> \<exists>r. hex_loop b p k v = Some r"
  by (induction k arbitrary: p v) (auto split: option.split)

lemma parse_hex8_Some: "p + 8 \<le> length b \<Longrightarrow> \<exists>r. parse_hex8 b p = Some r"
  by (simp add: parse_hex8_def hex_loop_Some)

lemma magic_ok_Some: "h + length ms \<le> length b \<Longrightarrow> \<exists>r. magic_ok b h ms = Some r"
  by (induction ms arbitrary: h) auto

lemma cpio_fields_Some: "p + 8 * k \<le> length b \<Longrightarrow> \<exists>r. cpio_fields b p k = Some r"
proof (induction k arbitrary: p)
  case (Suc k)
  obtain v where "parse_hex8 b p = Some v" using parse_hex8_Some [of p b] Suc.prems by auto
  moreover obtain r where "cpio_fields b (p + 8) k = Some r" using Suc.IH [of "p + 8"] Suc.prems by auto
  ultimately show ?case by (auto split: option.split)
qed simp

lemma cpio_fields_length: "cpio_fields b p k = Some (Some f) \<Longrightarrow> length f = k"
  by (induction k arbitrary: p f) (auto split: option.splits simp: bind_eq_Some_conv)

lemma has_nul_spec: "p + k \<le> length b \<Longrightarrow> has_nul b p k = Some (0 \<in> set (take k (drop p b)))"
proof (induction k arbitrary: p)
  case (Suc k)
  then have "drop p b = b ! p # drop (p + 1) b" by (simp add: Cons_nth_drop_Suc)
  then show ?case using Suc by auto
qed simp

lemma name_bad_spec:
  assumes "1 \<le> unat n" and "p + unat n \<le> length b"
  shows "name_bad b p n = Some (b ! (p + unat n - 1) \<noteq> 0 \<or> b ! p = 0x2F \<or> 0 \<in> set (take (unat n - 1) (drop p b)))"
  using assms has_nul_spec [of p "unat n - 1" b] by (auto simp: name_bad_def)

text \<open>
  The comparison decides equality of the entry's name with the string before the terminator of \<open>s\<close>.
\<close>

lemma name_eq_from_spec:
  assumes "a + i + k \<le> length base" and "0 \<notin> set (take k (drop (a + i) base))" and "0 \<in> set (drop i s)"
  shows "name_eq_from base a k s i = Some (take k (drop (a + i) base) = takeWhile (\<lambda>c. c \<noteq> 0) (drop i s))"
  using assms
proof (induction k arbitrary: i)
  case 0
  then have "i < length s" by (metis drop_eq_Nil2 empty_iff list.set(1) not_le)
  then have "drop i s = s ! i # drop (Suc i) s" by (simp add: Cons_nth_drop_Suc)
  then show ?case using \<open>i < length s\<close> by simp
next
  case (Suc k)
  then have i: "i < length s" by (metis drop_eq_Nil2 empty_iff list.set(1) not_le)
  then have ds: "drop i s = s ! i # drop (Suc i) s" by (simp add: Cons_nth_drop_Suc)
  have db: "drop (a + i) base = base ! (a + i) # drop (a + Suc i) base"
    using Suc.prems(1) by (simp add: Cons_nth_drop_Suc)
  show ?case
  proof (cases "s ! i = 0 \<or> base ! (a + i) \<noteq> s ! i")
    case True
    then show ?thesis using i ds db Suc.prems by auto
  next
    case False
    then show ?thesis using i ds db Suc.prems Suc.IH [of "Suc i"] by simp
  qed
qed

definition entry_name :: "bytes \<Rightarrow> nx_cpio_entry \<Rightarrow> bytes" where
  "entry_name base e = take (unat (ce_name_len e)) (drop (unat (ce_name e)) base)"

definition entry_data :: "bytes \<Rightarrow> nx_cpio_entry \<Rightarrow> bytes" where
  "entry_data base e = take (unat (ce_size e)) (drop (unat (ce_data e)) base)"

definition c_string :: "bytes \<Rightarrow> bytes" where
  "c_string s = takeWhile (\<lambda>c. c \<noteq> 0) s"

text \<open>An entry whose name and data lie inside the archive behind the header at \<open>off\<close>.\<close>

definition entry_ok :: "bytes \<Rightarrow> u64 \<Rightarrow> nx_cpio_entry \<Rightarrow> bool" where
  "entry_ok base off e \<longleftrightarrow> unat (ce_name e) = unat off + 110 \<and> 1 \<le> unat (ce_name_len e)
     \<and> unat (ce_name e) + unat (ce_name_len e) < unat (ce_data e)
     \<and> unat (ce_data e) + unat (ce_size e) \<le> length base
     \<and> unat (ce_data e) mod 4 = 0
     \<and> 0 \<notin> set (entry_name base e) \<and> hd (entry_name base e) \<noteq> 0x2F
     \<and> base ! (unat (ce_name e) + unat (ce_name_len e)) = 0"

lemma name_eq_spec:
  assumes "entry_ok base off e" and "0 \<in> set s"
  shows "name_eq base (unat (ce_name e)) (ce_name_len e) s = Some (entry_name base e = c_string s)"
  using name_eq_from_spec [of "unat (ce_name e)" 0 "unat (ce_name_len e)" base s] assms
  by (auto simp: name_eq_def entry_ok_def entry_name_def c_string_def)

lemma unat_align4:
  assumes "unat v \<le> 2 ^ 64 - 4"
  shows "unat (align4 v) mod 4 = 0" and "unat v \<le> unat (align4 v)" and "unat (align4 v) \<le> unat v + 3"
proof -
  have a: "unat (v + 3) = unat v + 3" using assms by (subst unat_add_small) auto
  have m: "x AND NOT 3 = x - x mod 4" for x :: u64 using and_not_mask_sub [of x 2] by (simp add: mask_eq_exp_minus_1)
  have "unat (x - x mod 4) = unat x - unat x mod 4" for x :: u64
    by (subst unat_sub_small) (simp_all add: word_le_nat_alt unat_mod)
  then have e: "unat (align4 v) = (unat v + 3) - (unat v + 3) mod 4"
    unfolding align4_def m using a by simp
  show "unat (align4 v) mod 4 = 0" by (simp add: e minus_mod_eq_mult_div)
  show "unat v \<le> unat (align4 v)" "unat (align4 v) \<le> unat v + 3"
    using e mod_less_divisor [of 4 "unat v + 3"] by linarith+
qed

text \<open>
  One step of the walk on any bytes: it returns, and whenever it accepts a header (also the trailer
  or an entry of a foreign type) the entry is well formed and the offset moves past it.
\<close>

definition next_ok :: "bytes \<Rightarrow> u64 \<Rightarrow> nx_cpio_entry \<Rightarrow> nx_cpio_status \<times> u64 \<times> nx_cpio_entry \<Rightarrow> bool" where
  "next_ok base off e = (\<lambda>(st, off', e').
     (st \<in> {NX_CPIO_OK, NX_CPIO_END, NX_CPIO_E_TYPE} \<and> entry_ok base off e'
        \<and> unat (ce_data e') + unat (ce_size e') \<le> unat off'
        \<and> unat off' \<le> unat (ce_data e') + unat (ce_size e') + 3 \<and> unat off' mod 4 = 0
        \<and> (st = NX_CPIO_END \<longleftrightarrow> entry_name base e' = c_string TRAILER)
        \<and> (st = NX_CPIO_OK \<longrightarrow> ce_mode e' AND NX_CPIO_MODE_TYPE = NX_CPIO_MODE_REG
              \<or> ce_mode e' AND NX_CPIO_MODE_TYPE = NX_CPIO_MODE_DIR))
     \<or> (st \<in> {NX_CPIO_E_TRUNCATED, NX_CPIO_E_MAGIC, NX_CPIO_E_HEX, NX_CPIO_E_NAME, NX_CPIO_E_BOUNDS}
        \<and> off' = off \<and> e' = e))"

lemma entry_built:
  assumes len: "unat len = length base" "length base \<le> 2 ^ 64 - 8"
    and "unat off + 110 + unat (n :: u32) \<le> length base" and "2 \<le> unat n"
    and bad: "name_bad base (unat off + 110) n = Some False"
    and "unat (d :: u64) = unat (align4 (off + 110 + ucast n))" and "unat d + unat (fs :: u32) \<le> length base"
  shows "entry_ok base off \<lparr>ce_name = off + 110, ce_name_len = n - 1, ce_mode = m, ce_data = d, ce_size = ucast fs\<rparr>"
proof -
  have o: "unat (off + 110) = unat off + 110" using assms(2,3) by (subst unat_add_small) auto
  have s: "unat (off + 110 + ucast n) = unat off + 110 + unat n"
    using assms(2,3) o by (subst unat_add_small) auto
  have n1: "unat (n - 1) = unat n - 1" using assms(4) by (subst unat_sub_small) (auto simp: word_le_nat_alt)
  have dd: "unat d mod 4 = 0" "unat off + 110 + unat n \<le> unat d"
    using unat_align4 [of "off + 110 + ucast n"] s assms(2,3,6) by simp_all
  have "hd (take (unat n - 1) (drop (unat off + 110) base)) = base ! (unat off + 110)"
    using assms(3,4) by (simp add: hd_drop_conv_nth)
  then show ?thesis
    using name_bad_spec [of n "unat off + 110" base] bad assms(3,4,7) dd o n1
    by (auto simp: entry_ok_def entry_name_def)
qed

lemma cpio_next_entry:
  fixes off :: u64 and fs :: "u32 list"
  assumes "unat len = length base" and "length base \<le> 2 ^ 64 - 8"
    and hdr: "\<not> (off > len \<or> len - off < 110)" "magic_ok base (unat off) [0x30, 0x37, 0x30, 0x37, 0x30, 0x31] = Some True"
      "cpio_fields base (unat off + 6) 13 = Some (Some fs)"
    and n: "\<not> (n < 2 \<or> n > 4096 \<or> len - (off + 110) < ucast n)" "2 \<le> unat n" "unat off + 110 + unat n \<le> length base"
      "name_bad base (unat off + 110) n = Some False"
    and good: "\<not> (d > len \<or> len - d < ucast sz)"
    and n_def: "n = fs ! 11" and sz_def: "sz = fs ! 6" and d_def: "d = align4 (off + 110 + ucast n)"
  shows "\<exists>r. nx_cpio_next base len off e = Some r \<and> next_ok base off e r"
proof -
  define e' where "e' = \<lparr>ce_name = off + 110, ce_name_len = n - 1, ce_mode = fs ! Suc 0, ce_data = d, ce_size = ucast sz\<rparr>"
  define off' where "off' = align4 (d + ucast sz)"
  have o: "unat (off + 110) = unat off + 110" using n(3) assms(2) by (subst unat_add_small) auto
  have dl: "unat d + unat sz \<le> length base"
    using good assms(1) by (auto simp: word_less_nat_alt not_less unat_sub_small word_le_nat_alt)
  then have ds: "unat (d + ucast sz) = unat d + unat sz" using assms(2) by (subst unat_add_small) auto
  have eok: "entry_ok base off e'"
    using entry_built [OF assms(1,2) n(3,2), of d sz "fs ! Suc 0"] n(4) dl by (simp add: e'_def d_def)
  have t: "name_eq base (unat (off + 110)) (n - 1) TRAILER = Some (entry_name base e' = c_string TRAILER)"
    using name_eq_spec [OF eok, of TRAILER] by (simp add: e'_def TRAILER_def)
  have al: "unat off' mod 4 = 0" "unat d + unat sz \<le> unat off'" "unat off' \<le> unat d + unat sz + 3"
    using unat_align4 [of "d + ucast sz"] ds dl assms(2) by (simp_all add: off'_def)
  have "nx_cpio_next base len off e = (if entry_name base e' = c_string TRAILER then Some (NX_CPIO_END, off', e')
      else if fs ! 1 AND NX_CPIO_MODE_TYPE \<noteq> NX_CPIO_MODE_REG \<and> fs ! 1 AND NX_CPIO_MODE_TYPE \<noteq> NX_CPIO_MODE_DIR
      then Some (NX_CPIO_E_TYPE, off', e') else Some (NX_CPIO_OK, off', e'))"
    using hdr n good o t
    by (simp add: nx_cpio_next_def cpio_parse_def Let_def n_def [symmetric] sz_def [symmetric] d_def [symmetric]
        e'_def [symmetric] off'_def [symmetric])
  then show ?thesis using eok al by (auto simp: next_ok_def e'_def)
qed

lemma cpio_next_ok:
  assumes "unat len = length base" and "length base \<le> 2 ^ 64 - 8"
  shows "\<exists>r. nx_cpio_next base len off e = Some r \<and> next_ok base off e r"
proof (cases "off > len \<or> len - off < 110")
  case True
  then show ?thesis by (auto simp: nx_cpio_next_def cpio_parse_def next_ok_def)
next
  case room: False
  have r: "unat off + 110 \<le> length base"
    using room assms(1) by (auto simp: word_less_nat_alt unat_sub_small word_le_nat_alt not_less)
  obtain m where m: "magic_ok base (unat off) [0x30, 0x37, 0x30, 0x37, 0x30, 0x31] = Some m"
    using magic_ok_Some [of "unat off" "[0x30, 0x37, 0x30, 0x37, 0x30, 0x31]" base] r by auto
  obtain f where f: "cpio_fields base (unat off + 6) 13 = Some f"
    using cpio_fields_Some [of "unat off + 6" 13 base] r by auto
  show ?thesis
  proof (cases "m \<and> f \<noteq> None")
    case False
    then show ?thesis using room m f by (auto simp: nx_cpio_next_def cpio_parse_def next_ok_def split: option.splits)
  next
    case True
    then obtain fs where fs: "f = Some fs" and mt: "m" by auto
    have o: "unat (off + 110) = unat off + 110" using r assms(2) by (subst unat_add_small) auto
    have le: "unat (len - (off + 110)) = length base - (unat off + 110)"
      using o r assms(1) by (subst unat_sub_small) (auto simp: word_le_nat_alt)
    note ev = nx_cpio_next_def cpio_parse_def next_ok_def Let_def
    show ?thesis
    proof (cases "fs ! 11 < 2 \<or> fs ! 11 > 4096 \<or> len - (off + 110) < ucast (fs ! 11)")
      case True
      then show ?thesis using room m f fs mt by (auto simp: ev)
    next
      case False
      then have n: "2 \<le> unat (fs ! 11)" "unat off + 110 + unat (fs ! 11) \<le> length base"
        using le r by (auto simp: word_less_nat_alt not_less)
      obtain bad where bad: "name_bad base (unat off + 110) (fs ! 11) = Some bad"
        using name_bad_spec [of "fs ! 11" "unat off + 110" base] n by auto
      define d where "d = align4 (off + 110 + ucast (fs ! 11))"
      show ?thesis
      proof (cases "bad \<or> d > len \<or> len - d < ucast (fs ! 6)")
        case True
        then show ?thesis using room m f fs mt False bad o by (auto simp: ev d_def)
      next
        case good: False
        then show ?thesis using cpio_next_entry [OF assms room _ _ False n _ _ refl refl d_def] m f fs mt bad by simp
      qed
    qed
  qed
qed

section \<open>Walks over the archive\<close>

text \<open>The entries an archive holds from an offset on, up to the trailer.\<close>

inductive archive :: "bytes \<Rightarrow> u64 \<Rightarrow> u64 \<Rightarrow> nx_cpio_entry list \<Rightarrow> bool" for base len where
  stop: "off < len \<Longrightarrow> nx_cpio_next base len off ce_blank = Some (NX_CPIO_END, off', e) \<Longrightarrow> archive base len off []"
| more: "off < len \<Longrightarrow> nx_cpio_next base len off ce_blank = Some (NX_CPIO_OK, off', e) \<Longrightarrow> archive base len off' es
    \<Longrightarrow> archive base len off (e # es)"

inductive_simps archive_at: "archive base len off es"

text \<open>The kernel has accepted headers up to \<open>off\<close>: an induction on the bytes left.\<close>

lemma next_forward:
  assumes "next_ok base off e (st, off', e')" and "st = NX_CPIO_OK" and "unat len = length base"
  shows "length base - unat off' < length base - unat off"
  using assms by (auto simp: next_ok_def entry_ok_def)

lemma next_same:
  assumes "unat len = length base" and "length base \<le> 2 ^ 64 - 8"
    and "nx_cpio_next base len off e1 = Some (st, off', e')" and "st \<in> {NX_CPIO_OK, NX_CPIO_END, NX_CPIO_E_TYPE}"
  shows "nx_cpio_next base len off e2 = Some (st, off', e')"
proof -
  have "next_ok base off e1 (st, off', e')" using cpio_next_ok [OF assms(1,2), of off e1] assms(3) by simp
  then have "unat off < unat off'" using assms(4) by (auto simp: next_ok_def entry_ok_def)
  then show ?thesis using assms(3) by (auto simp: nx_cpio_next_def split: option.splits prod.splits)
qed

lemma archive_step:
  assumes "off < len" and "nx_cpio_next base len off ce_blank = Some (st, off', e')"
  shows "archive base len off es \<longleftrightarrow>
    (if st = NX_CPIO_OK then \<exists>es'. es = e' # es' \<and> archive base len off' es' else st = NX_CPIO_END \<and> es = [])"
  using assms by (subst archive_at) auto

text \<open>What a walk means: every walk ends, with a status that is exact for the archive.\<close>

lemma cpio_walk_spec:
  assumes "unat len = length base" and "length base \<le> 2 ^ 64 - 8"
  shows "\<exists>st k bad. cpio_walk base len off n = Some (st, k, bad)
    \<and> (st = NX_CPIO_OK \<longleftrightarrow> (\<exists>es. archive base len off es \<and> k = n + of_nat (length es)))
    \<and> (st \<noteq> NX_CPIO_OK \<longrightarrow> (\<forall>es. \<not> archive base len off es) \<and> bad \<noteq> None)"
proof (induction "length base - unat off" arbitrary: off n rule: less_induct)
  case less
  show ?case
  proof (cases "off \<ge> len")
    case True
    then have "\<not> archive base len off es" for es by (subst archive_at) (simp add: leD)
    then show ?thesis using True by (subst cpio_walk.simps) simp
  next
    case False
    obtain st off' e' where r: "nx_cpio_next base len off ce_blank = Some (st, off', e')" "next_ok base off ce_blank (st, off', e')"
      using cpio_next_ok [OF assms, of off ce_blank] by auto
    have a: "archive base len off es \<longleftrightarrow>
      (if st = NX_CPIO_OK then \<exists>es'. es = e' # es' \<and> archive base len off' es' else st = NX_CPIO_END \<and> es = [])" for es
      using archive_step [OF _ r(1)] False by simp
    have w: "cpio_walk base len off n = (if st = NX_CPIO_END then Some (NX_CPIO_OK, n, None)
        else if st \<noteq> NX_CPIO_OK then Some (st, n, Some off) else cpio_walk base len off' (n + 1))"
      using False r(1) by (subst cpio_walk.simps) simp
    show ?thesis
    proof (cases "st = NX_CPIO_OK")
      case True
      obtain st' k bad where h: "cpio_walk base len off' (n + 1) = Some (st', k, bad)"
        "st' = NX_CPIO_OK \<longleftrightarrow> (\<exists>es. archive base len off' es \<and> k = n + 1 + of_nat (length es))"
        "st' \<noteq> NX_CPIO_OK \<longrightarrow> (\<forall>es. \<not> archive base len off' es) \<and> bad \<noteq> None"
        using less [OF next_forward [OF r(2) True assms(1)], of "n + 1"] by blast
      have "(\<exists>es. archive base len off es \<and> k = n + of_nat (length es))
          \<longleftrightarrow> (\<exists>es. archive base len off' es \<and> k = n + 1 + of_nat (length es))"
        using True by (auto simp: a add.assoc)
      moreover have "st' \<noteq> NX_CPIO_OK \<longrightarrow> (\<forall>es. \<not> archive base len off es)" using h(3) True by (simp add: a)
      moreover have "cpio_walk base len off n = Some (st', k, bad)" using h(1) w True by simp
      ultimately show ?thesis using h(2,3) by blast
    next
      case no: False
      show ?thesis using w no by (auto simp: a)
    qed
  qed
qed

lemma cpio_search_total:
  assumes "unat len = length base" and "length base \<le> 2 ^ 64 - 8" and "0 \<in> set name"
  shows "\<exists>r. cpio_search base len name off e = Some r"
proof (induction "length base - unat off" arbitrary: off e rule: less_induct)
  case less
  obtain st off' e' where r: "nx_cpio_next base len off e = Some (st, off', e')" "next_ok base off e (st, off', e')"
    using cpio_next_ok [OF assms(1,2), of off e] by auto
  show ?case
  proof (cases "off < len \<and> st = NX_CPIO_OK")
    case True
    then have n: "name_eq base (unat (ce_name e')) (ce_name_len e') name = Some (entry_name base e' = c_string name)"
      using r(2) name_eq_spec [OF _ assms(3)] by (auto simp: next_ok_def)
    show ?thesis
      using less [OF next_forward [OF r(2) conjunct2 [OF True] assms(1)]] True r(1) n by (subst cpio_search.simps) auto
  next
    case False
    then show ?thesis using r(1) by (subst cpio_search.simps) auto
  qed
qed

lemma cpio_search_spec:
  assumes "unat len = length base" and "length base \<le> 2 ^ 64 - 8" and "0 \<in> set name"
    and "archive base len off es"
  shows "\<exists>f. cpio_search base len name off e =
    Some (case List.find (\<lambda>x. entry_name base x = c_string name) es of
            Some x \<Rightarrow> (NX_CPIO_OK, x) | None \<Rightarrow> (NX_CPIO_E_NOT_FOUND, f))"
  using assms(4)
proof (induction arbitrary: e)
  case (stop off off' x)
  then show ?case using next_same [OF assms(1,2) stop(2), of e] by (subst cpio_search.simps) auto
next
  case (more off off' x es)
  have r: "nx_cpio_next base len off e = Some (NX_CPIO_OK, off', x)" using next_same [OF assms(1,2) more(2), of e] by simp
  then have "entry_ok base off x" using cpio_next_ok [OF assms(1,2), of off e] by (auto simp: next_ok_def)
  note n = name_eq_spec [OF this assms(3)]
  show ?case using more.IH [of x] more(1) r n by (subst cpio_search.simps) auto
qed

section \<open>Properties of the reader\<close>

lemma archive_entries:
  assumes "unat len = length base" and "length base \<le> 2 ^ 64 - 8" and "archive base len off es"
  shows "list_all (\<lambda>e. \<exists>o'. entry_ok base o' e) es"
  using assms(3)
proof induction
  case (more off off' e es)
  then show ?case using cpio_next_ok [OF assms(1,2), of off ce_blank] by (auto simp: next_ok_def)
qed simp

text \<open>On a foreign entry type the offset is not left at the bad header but moved past the entry.\<close>

lemma cpio_foreign_type_moves:
  assumes "unat len = length base" and "length base \<le> 2 ^ 64 - 8"
    and "nx_cpio_next base len off e = Some (NX_CPIO_E_TYPE, off', e')"
  shows "off < off'"
  using cpio_next_ok [OF assms(1,2), of off e] assms(3)
  by (auto simp: next_ok_def entry_ok_def word_less_nat_alt)



definition ex_cpio :: bytes where
  "ex_cpio =
    [48, 55, 48, 55, 48, 49, 48, 48, 48, 48, 48, 48, 48, 49, 48, 48, 48, 48, 56, 49, 65, 52, 48, 48,
     48, 48, 48, 48, 48, 48, 48, 48, 48, 48, 48, 48, 48, 48, 48, 48, 48, 48, 48, 48, 48, 49, 48, 48,
     48, 48, 48, 48, 48, 48, 48, 48, 48, 48, 48, 48, 48, 51, 48, 48, 48, 48, 48, 48, 48, 48, 48, 48,
     48, 48, 48, 48, 48, 48, 48, 48, 48, 48, 48, 48, 48, 48, 48, 48, 48, 48, 48, 48, 48, 48, 48, 48,
     48, 48, 48, 48, 48, 50, 48, 48, 48, 48, 48, 48, 48, 48, 97, 0, 120, 121, 122, 0, 48, 55, 48, 55,
     48, 49, 48, 48, 48, 48, 48, 48, 48, 49, 48, 48, 48, 48, 48, 48, 48, 48, 48, 48, 48, 48, 48, 48,
     48, 48, 48, 48, 48, 48, 48, 48, 48, 48, 48, 48, 48, 48, 48, 48, 48, 49, 48, 48, 48, 48, 48, 48,
     48, 48, 48, 48, 48, 48, 48, 48, 48, 48, 48, 48, 48, 48, 48, 48, 48, 48, 48, 48, 48, 48, 48, 48,
     48, 48, 48, 48, 48, 48, 48, 48, 48, 48, 48, 48, 48, 48, 48, 48, 48, 48, 48, 48, 48, 48, 48, 48,
     48, 66, 48, 48, 48, 48, 48, 48, 48, 48, 84, 82, 65, 73, 76, 69, 82, 33, 33, 33, 0, 0, 0, 0]"

lemma unroll_numeral:
  "hex_loop b p (numeral k) v = do { c \<leftarrow> byte_at b p;
     case hex_digit c of None \<Rightarrow> Some None | Some d \<Rightarrow> hex_loop b (p + 1) (pred_numeral k) (push_bit 4 v OR d) }"
  "cpio_fields b p (numeral k) = do { v \<leftarrow> parse_hex8 b p;
     case v of None \<Rightarrow> Some None
     | Some x \<Rightarrow> do { r \<leftarrow> cpio_fields b (p + 8) (pred_numeral k); Some (map_option (\<lambda>xs. x # xs) r) } }"
  "has_nul b p (numeral k) = do { c \<leftarrow> byte_at b p; if c = 0 then Some True else has_nul b (p + 1) (pred_numeral k) }"
  "name_eq_from b a (numeral k) s i = do { c \<leftarrow> byte_at s i;
     if c = 0 then Some False
     else do { x \<leftarrow> byte_at b (a + i); if x \<noteq> c then Some False else name_eq_from b a (pred_numeral k) s (i + 1) } }"
  by (simp_all only: numeral_eq_Suc hex_loop.simps cpio_fields.simps has_nul.simps name_eq_from.simps)

lemmas cpio_evals = cpio_parse_def parse_hex8_def hex_digit_def name_bad_def name_eq_def align4_def TRAILER_def
  byte_at_def ex_cpio_def Let_def unroll_numeral

lemma ex_parse:
  "cpio_parse ex_cpio 240 0 = Some (NX_CPIO_OK, Some (116,
     \<lparr>ce_name = 110, ce_name_len = 1, ce_mode = 0x81A4, ce_data = 112, ce_size = 3\<rparr>))"
  "cpio_parse ex_cpio 240 116 = Some (NX_CPIO_END, Some (240,
     \<lparr>ce_name = 226, ce_name_len = 10, ce_mode = 0, ce_data = 240, ce_size = 0\<rparr>))"
  by (simp_all add: cpio_evals)

lemma ex_cpio_ok: "nx_cpio_validate ex_cpio 240 = Some (NX_CPIO_OK, 1, None)"
  by (simp add: nx_cpio_validate_def cpio_walk.simps nx_cpio_next_def ex_parse)



end
