(* ===== verification/Kernel_State.thy ===== *)
theory Kernel_State
  imports Uaccess Ipc Evlog Printf Elf_Plan Initramfs
begin

text \<open>
  The state of the kernel: the task table (kernel/task.h), the object pools (kernel/obj/vmo.h), the
  handle tables (kernel/obj/handle.h), the page allocator and physical memory, the event log and the
  static variables of kernel/task.c, kernel/syscall.c and kernel/mm/vmm.c. Pointers to tasks, memory
  objects and endpoints are indices into the pools.

  A task that is not running has saved its kernel stack; what it executes when it is switched to again
  is its continuation, one constructor per place in the modelled code that calls the scheduler.
  Operations return an option: None means that the kernel panics or that the code does not return.
\<close>

abbreviation NX_HANDLE_SLOTS :: nat where "NX_HANDLE_SLOTS \<equiv> 32"
abbreviation NX_HANDLE_GEN_MAX :: u32 where "NX_HANDLE_GEN_MAX \<equiv> 0x7FFFFF"
abbreviation NX_VMO_POOL :: nat where "NX_VMO_POOL \<equiv> 32"
abbreviation NX_EP_POOL :: nat where "NX_EP_POOL \<equiv> 16"
abbreviation NX_VMO_MAX_PAGES :: u32 where "NX_VMO_MAX_PAGES \<equiv> 64"
abbreviation NX_TASK_MAX :: nat where "NX_TASK_MAX \<equiv> 32"
abbreviation NX_TASK_NAME :: nat where "NX_TASK_NAME \<equiv> 16"
abbreviation NX_TASK_MAPS :: nat where "NX_TASK_MAPS \<equiv> 8"
abbreviation NX_SCHED_SLICE :: u32 where "NX_SCHED_SLICE \<equiv> 2"
abbreviation NX_KSTACK_BASE :: u64 where "NX_KSTACK_BASE \<equiv> 0xFFFFFE0000000000"
abbreviation NX_KSTACK_PAGES :: nat where "NX_KSTACK_PAGES \<equiv> 4"
abbreviation NX_KSTACK_STRIDE :: u64 where "NX_KSTACK_STRIDE \<equiv> 0x8000"
abbreviation NX_PHYSMAP_BASE :: u64 where "NX_PHYSMAP_BASE \<equiv> 0xFFFF800000000000"
abbreviation NX_AS_USER_SLOT_FIRST :: nat where "NX_AS_USER_SLOT_FIRST \<equiv> 1"
abbreviation NX_AS_USER_SLOT_LAST :: nat where "NX_AS_USER_SLOT_LAST \<equiv> 255"

datatype nx_task_state =
  NX_TASK_FREE | NX_TASK_READY | NX_TASK_RUNNING | NX_TASK_BLOCKED | NX_TASK_DEAD | NX_TASK_REAPED

fun task_state_code :: "nx_task_state \<Rightarrow> u32" where
  "task_state_code NX_TASK_FREE = 0"
| "task_state_code NX_TASK_READY = 1"
| "task_state_code NX_TASK_RUNNING = 2"
| "task_state_code NX_TASK_BLOCKED = 3"
| "task_state_code NX_TASK_DEAD = 4"
| "task_state_code NX_TASK_REAPED = 5"

datatype nx_task_end = NX_END_NONE | NX_END_EXIT | NX_END_FAULT | NX_END_KILLED | NX_END_KERNEL

fun task_end_code :: "nx_task_end \<Rightarrow> u32" where
  "task_end_code NX_END_NONE = 0"
| "task_end_code NX_END_EXIT = 1"
| "task_end_code NX_END_FAULT = 2"
| "task_end_code NX_END_KILLED = 3"
| "task_end_code NX_END_KERNEL = 4"

abbreviation NX_EV_TASK_CREATED :: u32 where "NX_EV_TASK_CREATED \<equiv> 1"
abbreviation NX_EV_TASK_STARTED :: u32 where "NX_EV_TASK_STARTED \<equiv> 2"
abbreviation NX_EV_TASK_EXITED :: u32 where "NX_EV_TASK_EXITED \<equiv> 3"
abbreviation NX_EV_TASK_KILLED :: u32 where "NX_EV_TASK_KILLED \<equiv> 4"
abbreviation NX_EV_TASK_FAULTED :: u32 where "NX_EV_TASK_FAULTED \<equiv> 5"
abbreviation NX_EV_TASK_REAPED :: u32 where "NX_EV_TASK_REAPED \<equiv> 6"

record nx_handle_entry =
  he_obj :: "optr option"
  he_rights :: u32
  he_gen :: u32

type_synonym nx_handle_table = "nx_handle_entry list"

record nx_task_map =
  mp_vmo :: "nat option"
  mp_va :: u64
  mp_pages :: u32

record nx_trap_frame =
  tf_r15 :: u64
  tf_r14 :: u64
  tf_r13 :: u64
  tf_r12 :: u64
  tf_r11 :: u64
  tf_r10 :: u64
  tf_r9 :: u64
  tf_r8 :: u64
  tf_rbp :: u64
  tf_rdi :: u64
  tf_rsi :: u64
  tf_rdx :: u64
  tf_rcx :: u64
  tf_rbx :: u64
  tf_rax :: u64
  tf_vector :: u64
  tf_error :: u64
  tf_rip :: u64
  tf_cs :: u64
  tf_rflags :: u64
  tf_rsp :: u64
  tf_ss :: u64

text \<open>\<open>void *blocked_on\<close>: nothing, an endpoint, or the sleep token.\<close>

datatype blocked_ptr = On_none | On_ep nat | On_sleep

text \<open>
  Where a task continues: in user mode; at the return of a system call with its result; in the loops of
  \<open>sys_ipc_recv\<close>, \<open>sys_chan_read\<close> and \<open>sys_net_recv\<close> after a wake-up; in the idle loop; in the reaper
  loop; in other kernel-thread code; after the last schedule of a dead task.
\<close>

datatype kcont =
    K_User
  | K_Ret int
  | K_Recv u64 u64 u64 u64
  | K_Chan_read u64 u64 u64 u64 u64
  | K_Net_recv u64 u64 u64 u64 u64
  | K_Idle
  | K_Reaper
  | K_Thread
  | K_Dead

record nx_task =
  tk_base :: nx_object
  tk_id :: u32
  tk_slot :: nat
  tk_name :: bytes
  tk_state :: nx_task_state
  tk_user :: bool
  tk_cr3 :: u64
  tk_entry :: u64
  tk_kstack_top :: u64
  tk_cont :: kcont
  tk_frame :: nx_trap_frame
  tk_slice :: u32
  tk_ticks :: u64
  tk_preempted :: u64
  tk_syscalls :: u64
  tk_yields :: u64
  tk_writes :: u64
  tk_first_write_seq :: u64
  tk_last_write_seq :: u64
  tk_waiter :: "nat option"
  tk_blocked_on :: blocked_ptr
  tk_handles :: nx_handle_table
  tk_maps :: "nx_task_map list"
  tk_end :: nx_task_end
  tk_exit_code :: u64
  tk_fault_vector :: u64
  tk_fault_error :: u64
  tk_fault_rip :: u64
  tk_fault_cr2 :: u64
  tk_killer_id :: u32
  tk_rev :: u64
  tk_created_tick :: u64
  tk_ended_tick :: u64
  tk_wake_tick :: u64
  tk_started :: bool

record nx_vmo =
  vm_base :: nx_object
  vm_used :: bool
  vm_pages :: u32
  vm_phys :: "u64 list"

record nx_ep_slot =
  es_ep :: nx_endpoint
  es_used :: bool

record kernel =
  k_tasks :: "nx_task list"
  k_vmos :: "nx_vmo list"
  k_eps :: "nx_ep_slot list"
  k_static :: "nx_object list"
  k_pmm :: nx_pmm
  k_mem :: pmem
  k_root :: u64
  k_tables :: u64
  k_events :: nx_evlog
  k_ticks :: u64
  k_current :: nat
  k_idle :: "nat option"
  k_reaper :: "nat option"
  k_next_id :: u32
  k_preempt :: bool
  k_wd_deadline :: u64
  k_wd_what :: string
  k_switches :: u64
  k_preemptions :: u64
  k_debug_seq :: u64
  k_boot_id :: u64
  k_serial :: string
  k_initramfs :: "bytes option"
  k_inj_uaccess :: bool
  k_inj_overgrant :: bool
  k_inj_kill :: bool
  k_trace_ipc :: bool

section \<open>Access to the state\<close>

abbreviation task :: "kernel \<Rightarrow> nat \<Rightarrow> nx_task" where
  "task k i \<equiv> k_tasks k ! i"

definition upd_task :: "nat \<Rightarrow> (nx_task \<Rightarrow> nx_task) \<Rightarrow> kernel \<Rightarrow> kernel" where
  "upd_task i f k = k\<lparr>k_tasks := (k_tasks k)[i := f (task k i)]\<rparr>"

definition upd_vmo :: "nat \<Rightarrow> (nx_vmo \<Rightarrow> nx_vmo) \<Rightarrow> kernel \<Rightarrow> kernel" where
  "upd_vmo i f k = k\<lparr>k_vmos := (k_vmos k)[i := f (k_vmos k ! i)]\<rparr>"

definition upd_ep :: "nat \<Rightarrow> (nx_ep_slot \<Rightarrow> nx_ep_slot) \<Rightarrow> kernel \<Rightarrow> kernel" where
  "upd_ep i f k = k\<lparr>k_eps := (k_eps k)[i := f (k_eps k ! i)]\<rparr>"

text \<open>The header of an object and its update through a pointer.\<close>

fun obj :: "kernel \<Rightarrow> optr \<Rightarrow> nx_object" where
  "obj k (Task_obj i) = tk_base (task k i)"
| "obj k (Ep_obj i) = ep_base (es_ep (k_eps k ! i))"
| "obj k (Vmo_obj i) = vm_base (k_vmos k ! i)"
| "obj k (Static_obj i) = k_static k ! i"

fun upd_obj :: "optr \<Rightarrow> (nx_object \<Rightarrow> nx_object) \<Rightarrow> kernel \<Rightarrow> kernel" where
  "upd_obj (Task_obj i) f k = upd_task i (tk_base_update f) k"
| "upd_obj (Ep_obj i) f k = upd_ep i (es_ep_update (ep_base_update f)) k"
| "upd_obj (Vmo_obj i) f k = upd_vmo i (vm_base_update f) k"
| "upd_obj (Static_obj i) f k = k\<lparr>k_static := (k_static k)[i := f (k_static k ! i)]\<rparr>"

text \<open>A C string in a byte array, and a literal as one.\<close>

definition c_str :: "bytes \<Rightarrow> string" where
  "c_str bs = map (\<lambda>b. char_of (unat b)) (takeWhile (\<lambda>b. b \<noteq> 0) bs)"

definition c_lit :: "string \<Rightarrow> bytes" where
  "c_lit s = map (\<lambda>c. of_nat (of_char c)) s @ [0]"

abbreviation NL :: string where "NL \<equiv> [CHR 0x0A]"

definition kprintf :: "string \<Rightarrow> pf_arg list \<Rightarrow> kernel \<Rightarrow> kernel option" where
  "kprintf fmt args k = map_option (\<lambda>s. k\<lparr>k_serial := k_serial k @ s\<rparr>) (nx_printf fmt args)"

end
