(* ===== verification/Vmm.thy ===== *)
theory Vmm
  imports Kernel_State
begin

text \<open>
  The kernel's address spaces (kernel/mm/vmm.c): the page-table environment over the page allocator,
  the kernel tables built at start, and the address spaces of tasks. The addresses the linker script
  defines are a parameter. TLB invalidation, control registers and CPU feature tests are hardware.
\<close>

section \<open>The page-table environment\<close>

text \<open>The environment works on the allocator and the count \<open>tables_allocated\<close>.\<close>

definition env_alloc :: "nx_pmm \<times> u64 \<Rightarrow> u64 \<times> nx_pmm \<times> u64" where
  "env_alloc = (\<lambda>(p, n). let (a, p) = nx_pmm_alloc p in (a, p, if a \<noteq> 0 then n + 1 else n))"

text \<open>\<open>nx_page_free\<close> panics when the allocator refuses the page.\<close>

definition page_free_or_panic :: "nx_pmm \<Rightarrow> u64 \<Rightarrow> nx_pmm option" where
  "page_free_or_panic p a = (let (p, st) = nx_pmm_free p a in if st \<noteq> NX_PMM_OK then None else Some p)"

definition env_free :: "(nx_pmm \<times> u64) option \<Rightarrow> u64 \<Rightarrow> (nx_pmm \<times> u64) option" where
  "env_free s a = do { (p, n) \<leftarrow> s; p \<leftarrow> page_free_or_panic p a; Some (p, n - 1) }"

definition nx_page_free :: "u64 \<Rightarrow> kernel \<Rightarrow> kernel option" where
  "nx_page_free a k = do { p \<leftarrow> page_free_or_panic (k_pmm k) a; Some (k\<lparr>k_pmm := p\<rparr>) }"

definition nx_page_alloc :: "kernel \<Rightarrow> (u64 \<times> kernel) option" where
  "nx_page_alloc k =
     (let (a, p) = nx_pmm_alloc (k_pmm k) in if a = 0 then None else Some (a, k\<lparr>k_pmm := p\<rparr>))"

text \<open>\<open>nx_pmm_alloc (&nx_pmm)\<close>.\<close>

definition kpage_alloc :: "kernel \<Rightarrow> u64 \<times> kernel" where
  "kpage_alloc k = (let (a, p) = nx_pmm_alloc (k_pmm k) in (a, k\<lparr>k_pmm := p\<rparr>))"

text \<open>Runs a page-table operation on the kernel's memory.\<close>

abbreviation vm_get :: "kernel \<Rightarrow> pmem \<times> nx_pmm \<times> u64" where
  "vm_get k \<equiv> (k_mem k, k_pmm k, k_tables k)"

definition vm_put :: "pmem \<times> nx_pmm \<times> u64 \<Rightarrow> kernel \<Rightarrow> kernel" where
  "vm_put s k = k\<lparr>k_mem := fst s, k_pmm := fst (snd s), k_tables := snd (snd s)\<rparr>"

definition nx_vmm_map_page_in :: "u64 \<Rightarrow> u64 \<Rightarrow> u64 \<Rightarrow> u64 \<Rightarrow> kernel \<Rightarrow> nx_pt_status \<times> kernel" where
  "nx_vmm_map_page_in root va pa flags k =
     (let (st, s) = nx_pt_map env_alloc root va pa NX_PAGE_4K flags (vm_get k) in (st, vm_put s k))"

definition nx_vmm_map_page :: "u64 \<Rightarrow> u64 \<Rightarrow> u64 \<Rightarrow> kernel \<Rightarrow> nx_pt_status \<times> kernel" where
  "nx_vmm_map_page va pa flags k =
     (let (st, s) = nx_pt_map env_alloc (k_root k) va pa NX_PAGE_4K flags (vm_get k) in (st, vm_put s k))"

definition nx_vmm_unmap_page_in :: "u64 \<Rightarrow> u64 \<Rightarrow> kernel \<Rightarrow> (nx_pt_status + u64) \<times> kernel" where
  "nx_vmm_unmap_page_in root va k =
     (let (r, m) = nx_pt_unmap root va (k_mem k) in (map_sum id fst r, k\<lparr>k_mem := m\<rparr>))"

definition nx_vmm_unmap_page :: "u64 \<Rightarrow> kernel \<Rightarrow> (nx_pt_status + u64) \<times> kernel" where
  "nx_vmm_unmap_page va k = nx_vmm_unmap_page_in (k_root k) va k"

definition nx_vmm_query :: "u64 \<Rightarrow> kernel \<Rightarrow> nx_pt_status + u64 \<times> u64 \<times> u64" where
  "nx_vmm_query va k = nx_pt_query (k_root k) va (k_mem k)"

definition nx_vmm_query_in :: "u64 \<Rightarrow> u64 \<Rightarrow> kernel \<Rightarrow> nx_pt_status + u64 \<times> u64 \<times> u64" where
  "nx_vmm_query_in root va k = nx_pt_query root va (k_mem k)"

section \<open>Address spaces of tasks\<close>

text \<open>The new root, 0 when there is no page for it.\<close>

definition nx_as_create :: "kernel \<Rightarrow> u64 \<times> kernel" where
  "nx_as_create k =
     (case nx_pt_new_root env_alloc (vm_get k) of
        (Inl st, s) \<Rightarrow> (0, vm_put s k)
      | (Inr root, m, s) \<Rightarrow>
          let copy = (\<lambda>i m. wrq m (pte root i) (rdq m (pte (k_root k) i))) in
          (root, vm_put (fold copy [256..<512] (copy 0 m), s) k))"

definition nx_as_destroy :: "u64 \<Rightarrow> (u64 \<Rightarrow> u64 \<Rightarrow> u64 \<Rightarrow> nx_pmm \<Rightarrow> nx_pmm option) \<Rightarrow> kernel \<Rightarrow> kernel option" where
  "nx_as_destroy root leaf k = do {
     let leaf' = (\<lambda>pa flags sz s. do { (p, n) \<leftarrow> s; p \<leftarrow> leaf pa flags sz p; Some (p, n) });
     let (m, s) = nx_pt_destroy_slots env_free leaf' root NX_AS_USER_SLOT_FIRST NX_AS_USER_SLOT_LAST
                    (k_mem k, Some (k_pmm k, k_tables k));
     (p, n) \<leftarrow> s;
     p \<leftarrow> page_free_or_panic p root;
     Some (vm_put (m, p, n - 1) k) }"

definition nx_vmm_tables :: "kernel \<Rightarrow> u64" where
  "nx_vmm_tables k = k_tables k"

text \<open>Maps one page of device memory uncached into the physmap; the result is its address.\<close>

definition nx_vmm_map_mmio :: "u64 \<Rightarrow> kernel \<Rightarrow> (u64 \<times> kernel) option" where
  "nx_vmm_map_mmio phys k =
     (let va = NX_PHYSMAP_BASE + phys in
      case nx_vmm_query va k of
        Inr r \<Rightarrow> Some (va, k)
      | Inl e \<Rightarrow>
          (case nx_vmm_map_page va phys (NX_PTE_W OR NX_PTE_NX OR NX_PTE_G OR NX_PTE_PCD OR NX_PTE_PWT) k of
             (st, k) \<Rightarrow> if st \<noteq> NX_PT_OK then None else Some (va, k)))"

section \<open>Start-up\<close>

definition nx_pmm_setup :: "nx_mem_region list \<Rightarrow> kernel \<Rightarrow> kernel option" where
  "nx_pmm_setup rg k = do {
     let npages = nx_pmm_span_pages rg;
     let bs = nx_pmm_storage_bytes npages;
     let phys = nx_pmm_find_storage rg bs;
     if phys = 0 then None else do {
     let (p, st) = nx_pmm_init (k_pmm k) rg phys phys bs;
     if st \<noteq> NX_PMM_OK then None
     else kprintf (''NANOX: pmm ok span_pages=%lu managed=%lu free=%lu bitmaps=0x%lx+%lu'' @ NL)
       [A_long (pm_npages p), A_long (pm_managed_pages p), A_long (pm_free_pages p), A_long phys, A_long bs]
       (k\<lparr>k_pmm := p\<rparr>) } }"

text \<open>The sections and stacks of the kernel image, as the linker script places them.\<close>

record nx_image =
  im_text :: "u64 \<times> u64"
  im_rodata :: "u64 \<times> u64"
  im_kdata :: "u64 \<times> u64"
  im_stacks :: "(u64 \<times> u64) list"
  im_guards :: "u64 list"
  im_kernel_start :: u64

definition map_or_panic :: "u64 \<Rightarrow> u64 \<Rightarrow> u64 \<Rightarrow> u64 \<Rightarrow> bool \<Rightarrow> kernel \<Rightarrow> kernel option" where
  "map_or_panic va pa len flags large k = do {
     (st, s) \<leftarrow> nx_pt_map_range env_alloc (k_root k) va pa len flags large (vm_get k);
     if st \<noteq> NX_PT_OK then None else Some (vm_put s k) }"

definition expect_mapping :: "u64 \<Rightarrow> bool \<Rightarrow> u64 \<Rightarrow> u64 \<Rightarrow> kernel \<Rightarrow> bool" where
  "expect_mapping va mapped must_set must_clear k =
     (case nx_pt_query (k_root k) va (k_mem k) of
        Inl st \<Rightarrow> \<not> mapped \<and> st = NX_PT_E_NOT_MAPPED
      | Inr (pa, flags, sz) \<Rightarrow> mapped \<and> flags AND must_set = must_set \<and> flags AND must_clear = 0)"

definition physmap_type :: "u32 \<Rightarrow> bool" where
  "physmap_type t \<longleftrightarrow> t = NX_MEM_USABLE \<or> t = NX_MEM_BOOT_RECLAIMABLE \<or> t = NX_MEM_KERNEL_STACK
     \<or> t = NX_MEM_BOOT_INFO \<or> t = NX_MEM_ACPI_RECLAIMABLE \<or> t = NX_MEM_ACPI_NVS
     \<or> t = NX_MEM_FIRMWARE_RUNTIME \<or> t = NX_MEM_INITRD"

text \<open>A loop whose body may panic.\<close>

fun kfor :: "('a \<Rightarrow> kernel \<Rightarrow> kernel option) \<Rightarrow> 'a list \<Rightarrow> kernel \<Rightarrow> kernel option" where
  "kfor f [] k = Some k"
| "kfor f (x # xs) k = do { k \<leftarrow> f x k; kfor f xs k }"

definition map_section :: "u64 \<Rightarrow> u64 \<times> u64 \<Rightarrow> kernel \<Rightarrow> kernel option" where
  "map_section flags = (\<lambda>(lo, hi). map_or_panic lo lo (hi - lo) flags False)"

text \<open>Every higher-half slot of the root gets its table.\<close>

definition kernel_slot :: "u64 \<Rightarrow> nat \<Rightarrow> kernel \<Rightarrow> kernel option" where
  "kernel_slot root i k = do {
     let (pdpt, s) = env_alloc (k_pmm k, k_tables k);
     if pdpt = 0 then None else do {
     let m = fold (\<lambda>j m. wrq m (pte pdpt j) 0) [0..<512] (k_mem k);
     Some (vm_put (wrq m (pte root i) (pdpt OR NX_PTE_P OR NX_PTE_W), s) k) } }"

definition map_physmap :: "nx_mem_region \<Rightarrow> kernel \<Rightarrow> kernel option" where
  "map_physmap r k =
     (if \<not> physmap_type (mr_type r) then Some k
      else map_or_panic (NX_PHYSMAP_BASE + mr_base r) (mr_base r) (mr_length r)
             (NX_PTE_G OR NX_PTE_W OR NX_PTE_NX) True k)"

text \<open>The checks after the switch to the new tables.\<close>

definition vmm_expected :: "nx_image \<Rightarrow> kernel \<Rightarrow> bool" where
  "vmm_expected im k \<longleftrightarrow>
     expect_mapping (fst (im_text im)) True 0 (NX_PTE_W OR NX_PTE_NX) k
     \<and> expect_mapping (fst (im_rodata im)) True NX_PTE_NX NX_PTE_W k
     \<and> expect_mapping (fst (im_kdata im)) True (NX_PTE_W OR NX_PTE_NX) 0 k
     \<and> list_all (\<lambda>g. expect_mapping g False 0 0 k) (im_guards im)
     \<and> expect_mapping 0 False 0 0 k
     \<and> expect_mapping 0xDEAD0000 False 0 0 k
     \<and> expect_mapping (NX_PHYSMAP_BASE + im_kernel_start im) False 0 0 k"

text \<open>\<open>cpu_nx\<close> tells whether the CPU supports execute-disable.\<close>

definition nx_vmm_init :: "bool \<Rightarrow> nx_image \<Rightarrow> nx_mem_region list \<Rightarrow> kernel \<Rightarrow> kernel option" where
  "nx_vmm_init cpu_nx im rg k =
     (if \<not> cpu_nx then None
      else case nx_pt_new_root env_alloc (vm_get k) of
        (Inl st, s) \<Rightarrow> None
      | (Inr root, s) \<Rightarrow> do {
          let k = (vm_put s k)\<lparr>k_root := root\<rparr>;
          k \<leftarrow> map_section NX_PTE_G (im_text im) k;
          k \<leftarrow> map_section (NX_PTE_G OR NX_PTE_NX) (im_rodata im) k;
          k \<leftarrow> map_section (NX_PTE_G OR NX_PTE_W OR NX_PTE_NX) (im_kdata im) k;
          k \<leftarrow> kfor (map_section (NX_PTE_G OR NX_PTE_W OR NX_PTE_NX)) (im_stacks im) k;
          k \<leftarrow> kfor (kernel_slot root) [256..<512] k;
          k \<leftarrow> kfor map_physmap rg k;
          let k = k\<lparr>k_pmm := nx_pmm_relocate (k_pmm k) (NX_PHYSMAP_BASE + pm_used_at (k_pmm k))\<rparr>;
          if \<not> vmm_expected im k then None
          else kprintf (''NANOX: vmm ok root=0x%lx physmap=0x%016lx ram_mapped=%luKiB tables=%lu'' @
                 '' text=r-x rodata=r-- data=rw- guards=4 null=unmapped'' @ NL)
                 [A_long root, A_long NX_PHYSMAP_BASE,
                  A_long (sum_list (map mr_length (filter (\<lambda>r. physmap_type (mr_type r)) rg)) div 1024), A_long (k_tables k)] k })"

end
