(* ===== verification/Kobjects.thy ===== *)
theory Kobjects
  imports Vmm
begin

text \<open>
  Reference-counted kernel objects and handle tables (kernel/obj/handle.c, kernel/obj/objects.c, the
  drain of kernel/obj/ipc.c and the destroy function of task slots in kernel/task.c). Dropping the last
  reference of an endpoint drains its queue, which drops further references: the recursion has fuel,
  and running out of fuel is None like a panic.
\<close>

section \<open>References\<close>

definition nx_obj_ref :: "optr \<Rightarrow> kernel \<Rightarrow> kernel" where
  "nx_obj_ref p = upd_obj p (\<lambda>b. b\<lparr>ob_refs := ob_refs b + 1\<rparr>)"

definition release_slot :: "nat \<Rightarrow> kernel \<Rightarrow> kernel" where
  "release_slot i = upd_task i (\<lambda>t. t\<lparr>tk_state := NX_TASK_FREE\<rparr>)"

definition vmo_destroy :: "nat \<Rightarrow> kernel \<Rightarrow> kernel option" where
  "vmo_destroy i k = do {
     k \<leftarrow> kfor nx_page_free (take (unat (vm_pages (k_vmos k ! i))) (vm_phys (k_vmos k ! i))) k;
     Some (upd_vmo i (\<lambda>v. v\<lparr>vm_pages := 0, vm_used := False\<rparr>) k) }"

fun unref_loop :: "nat \<Rightarrow> optr \<Rightarrow> kernel \<Rightarrow> kernel option"
  and drain_loop :: "nat \<Rightarrow> nat \<Rightarrow> kernel \<Rightarrow> kernel option" where
  "unref_loop 0 p k = None"
| "unref_loop (Suc n) p k =
     (if ob_refs (obj k p) = 0 then Some k
      else let k = upd_obj p (\<lambda>b. b\<lparr>ob_refs := ob_refs b - 1\<rparr>) k in
      if ob_refs (obj k p) \<noteq> 0 then Some k
      else case (ob_destroy (obj k p), p) of
        (Release_slot, Task_obj i) \<Rightarrow> Some (release_slot i k)
      | (Vmo_destroy, Vmo_obj i) \<Rightarrow> vmo_destroy i k
      | (Ep_destroy, Ep_obj i) \<Rightarrow>
          do { k \<leftarrow> drain_loop n i k; Some (upd_ep i (\<lambda>s. s\<lparr>es_used := False\<rparr>) k) }
      | (No_destroy, _) \<Rightarrow> Some k
      | _ \<Rightarrow> None)"
| "drain_loop 0 i k = None"
| "drain_loop (Suc n) i k =
     (case nx_ep_peek (es_ep (k_eps k ! i)) of
        None \<Rightarrow> Some k
      | Some m \<Rightarrow> do {
          k \<leftarrow> (case im_obj m of None \<Rightarrow> Some k | Some p \<Rightarrow> unref_loop n p k);
          drain_loop n i (upd_ep i (\<lambda>s. s\<lparr>es_ep := nx_ep_pop (es_ep s)\<rparr>) k) })"

text \<open>An endpoint queues at most eight messages and no endpoint is ever queued, so 16 rounds are enough.\<close>

definition nx_obj_unref :: "optr \<Rightarrow> kernel \<Rightarrow> kernel option" where
  "nx_obj_unref = unref_loop 16"

definition nx_ep_drain :: "nat \<Rightarrow> kernel \<Rightarrow> kernel option" where
  "nx_ep_drain = drain_loop 15"

section \<open>Handle tables\<close>

definition encode :: "nat \<Rightarrow> u32 \<Rightarrow> u32" where
  "encode index gen = push_bit 8 gen OR (of_nat index + 1)"

definition bump :: "nx_handle_entry \<Rightarrow> nx_handle_entry" where
  "bump e = e\<lparr>he_gen := (if he_gen e \<ge> NX_HANDLE_GEN_MAX then 1 else he_gen e + 1)\<rparr>"

definition nx_ht_init :: nx_handle_table where
  "nx_ht_init = replicate NX_HANDLE_SLOTS \<lparr>he_obj = None, he_rights = 0, he_gen = 1\<rparr>"

definition upd_handle :: "nat \<Rightarrow> nat \<Rightarrow> (nx_handle_entry \<Rightarrow> nx_handle_entry) \<Rightarrow> kernel \<Rightarrow> kernel" where
  "upd_handle t i f = upd_task t (\<lambda>x. x\<lparr>tk_handles := (tk_handles x)[i := f (tk_handles x ! i)]\<rparr>)"

text \<open>The handle tables are those of tasks; \<open>t\<close> is the task whose table it is.\<close>

definition nx_ht_install :: "nat \<Rightarrow> optr \<Rightarrow> u32 \<Rightarrow> kernel \<Rightarrow> (nx_error + u32) \<times> kernel" where
  "nx_ht_install t p rights k =
     (if rights AND NOT NX_RIGHTS_ALL \<noteq> 0 then (Inl NX_EINVAL, k)
      else case find (\<lambda>i. he_obj (tk_handles (task k t) ! i) = None) [0..<NX_HANDLE_SLOTS] of
        None \<Rightarrow> (Inl NX_ENOMEM, k)
      | Some i \<Rightarrow>
          (Inr (encode i (he_gen (tk_handles (task k t) ! i))),
           upd_handle t i (\<lambda>e. e\<lparr>he_obj := Some p, he_rights := rights\<rparr>) (nx_obj_ref p k)))"

text \<open>\<open>entry\<close>: the slot of a handle, None when there is no such handle.\<close>

definition ht_entry :: "nx_handle_table \<Rightarrow> u32 \<Rightarrow> nat option" where
  "ht_entry t h =
     (let slot = h AND 0xFF; gen = drop_bit 8 h in
      if slot = 0 \<or> slot > of_nat NX_HANDLE_SLOTS \<or> drop_bit 31 h \<noteq> 0 then None
      else if he_obj (t ! unat (slot - 1)) = None \<or> he_gen (t ! unat (slot - 1)) \<noteq> gen then None
      else Some (unat (slot - 1)))"

definition nx_ht_lookup :: "nat \<Rightarrow> u32 \<Rightarrow> u32 \<Rightarrow> u32 \<Rightarrow> kernel \<Rightarrow> nx_error + optr \<times> u32" where
  "nx_ht_lookup t h type need k =
     (case ht_entry (tk_handles (task k t)) h of
        None \<Rightarrow> Inl NX_EBADHANDLE
      | Some i \<Rightarrow>
          let e = tk_handles (task k t) ! i; p = the (he_obj e) in
          if type \<noteq> NX_OBJ_ANY \<and> ob_type (obj k p) \<noteq> type then Inl NX_EWRONGTYPE
          else if he_rights e AND need \<noteq> need then Inl NX_EACCESS
          else Inr (p, he_rights e))"

definition clear_entry :: "nx_handle_entry \<Rightarrow> nx_handle_entry" where
  "clear_entry e = bump (e\<lparr>he_obj := None, he_rights := 0\<rparr>)"

definition nx_ht_close :: "nat \<Rightarrow> u32 \<Rightarrow> kernel \<Rightarrow> (nx_error \<times> kernel) option" where
  "nx_ht_close t h k =
     (case ht_entry (tk_handles (task k t)) h of
        None \<Rightarrow> Some (NX_EBADHANDLE, k)
      | Some i \<Rightarrow> do {
          let p = the (he_obj (tk_handles (task k t) ! i));
          k \<leftarrow> nx_obj_unref p (upd_handle t i clear_entry k);
          Some (NX_OK, k) })"

definition nx_ht_dup :: "nat \<Rightarrow> u32 \<Rightarrow> u32 \<Rightarrow> kernel \<Rightarrow> (nx_error + u32) \<times> kernel" where
  "nx_ht_dup t h rights k =
     (case nx_ht_lookup t h NX_OBJ_ANY NX_RIGHT_DUPLICATE k of
        Inl st \<Rightarrow> (Inl st, k)
      | Inr (p, have) \<Rightarrow>
          if rights AND NOT have \<noteq> 0 then (Inl NX_EACCESS, k) else nx_ht_install t p rights k)"

definition nx_ht_take :: "nat \<Rightarrow> u32 \<Rightarrow> u32 \<Rightarrow> kernel \<Rightarrow> (nx_error + optr) \<times> kernel" where
  "nx_ht_take t h rights k =
     (case nx_ht_lookup t h NX_OBJ_ANY NX_RIGHT_TRANSFER k of
        Inl st \<Rightarrow> (Inl st, k)
      | Inr (p, have) \<Rightarrow>
          if rights AND NOT have \<noteq> 0 then (Inl NX_EACCESS, k)
          else case ht_entry (tk_handles (task k t)) h of
            None \<Rightarrow> (Inl NX_EBADHANDLE, k)
          | Some i \<Rightarrow> (Inr p, upd_handle t i clear_entry k))"

definition nx_ht_clear :: "nat \<Rightarrow> kernel \<Rightarrow> kernel option" where
  "nx_ht_clear t = kfor (\<lambda>i k.
     if he_obj (tk_handles (task k t) ! i) = None then Some k
     else map_option snd (nx_ht_close t (encode i (he_gen (tk_handles (task k t) ! i))) k)) [0..<NX_HANDLE_SLOTS]"

definition nx_ht_count :: "nx_handle_table \<Rightarrow> nat" where
  "nx_ht_count t = length (filter (\<lambda>i. he_obj (t ! i) \<noteq> None) [0..<NX_HANDLE_SLOTS])"

section \<open>Object pools\<close>

definition obj_header :: "u32 \<Rightarrow> destroy_fn \<Rightarrow> nx_object" where
  "obj_header type destroy = \<lparr>ob_type = type, ob_refs = 1, ob_destroy = destroy\<rparr>"

text \<open>The page loop of \<open>nx_vmo_create\<close> with \<open>n\<close> pages to go; False when a page is missing.\<close>

fun vmo_fill :: "nat \<Rightarrow> nat \<Rightarrow> kernel \<Rightarrow> bool \<times> kernel" where
  "vmo_fill 0 i k = (True, k)"
| "vmo_fill (Suc n) i k =
     (let (pa, k) = kpage_alloc k in
      if pa = 0 then (False, k)
      else vmo_fill n i (upd_vmo i (\<lambda>v. v\<lparr>vm_phys := (vm_phys v)[unat (vm_pages v) := pa], vm_pages := vm_pages v + 1\<rparr>)
             (k\<lparr>k_mem := zero_page (k_mem k) pa\<rparr>)))"

definition nx_vmo_create :: "u32 \<Rightarrow> kernel \<Rightarrow> ((nx_error + nat) \<times> kernel) option" where
  "nx_vmo_create pages k =
     (if pages = 0 \<or> pages > NX_VMO_MAX_PAGES then Some (Inl NX_EINVAL, k)
      else case find (\<lambda>i. \<not> vm_used (k_vmos k ! i)) [0..<NX_VMO_POOL] of
        None \<Rightarrow> Some (Inl NX_ENOMEM, k)
      | Some i \<Rightarrow>
          (case vmo_fill (unat pages) i (upd_vmo i (\<lambda>_. \<lparr>vm_base = obj_header NX_OBJ_VMO Vmo_destroy, vm_used = True,
                  vm_pages = 0, vm_phys = replicate (unat NX_VMO_MAX_PAGES) 0\<rparr>) k) of
             (True, k) \<Rightarrow> Some (Inr i, k)
           | (False, k) \<Rightarrow> do { k \<leftarrow> vmo_destroy i k; Some (Inl NX_ENOMEM, k) }))"

definition msg_zero :: nx_ipc_msg where
  "msg_zero = \<lparr>im_len = 0, im_sender_task = 0, im_obj = None, im_rights = 0,
     im_data = replicate (unat NX_IPC_MSG_MAX) 0\<rparr>"

definition nx_ep_create :: "kernel \<Rightarrow> nat option \<times> kernel" where
  "nx_ep_create k =
     (case find (\<lambda>i. \<not> es_used (k_eps k ! i)) [0..<NX_EP_POOL] of
        None \<Rightarrow> (None, k)
      | Some i \<Rightarrow>
          (Some i, upd_ep i (\<lambda>_. \<lparr>es_ep = nx_ep_init \<lparr>ep_base = obj_header NX_OBJ_ENDPOINT Ep_destroy,
              ep_q = replicate (unat NX_IPC_QUEUE) msg_zero, ep_head = 0, ep_count = 0, ep_waiter = None\<rparr>,
              es_used = True\<rparr>) k))"

definition nx_sovereign :: optr where
  "nx_sovereign = Static_obj 0"

definition nx_vmo_live :: "kernel \<Rightarrow> nat" where
  "nx_vmo_live k = length (filter (\<lambda>i. vm_used (k_vmos k ! i)) [0..<NX_VMO_POOL])"

definition nx_ep_live :: "kernel \<Rightarrow> nat" where
  "nx_ep_live k = length (filter (\<lambda>i. es_used (k_eps k ! i)) [0..<NX_EP_POOL])"

end
