(* ===== verification/Sched.thy ===== *)
theory Sched
  imports Kobjects
begin

text \<open>
  The task table and the scheduler (kernel/task.c). The kernel is not preemptible, so every function is
  one step on the state; interrupts are disabled throughout and the interrupt flag is not modelled.
  A caller of the scheduler passes the continuation it has when the call returns.
\<close>

section \<open>Task slots\<close>

text \<open>Lifecycle event of a user task; bumps its revision.\<close>

definition task_event :: "nat \<Rightarrow> u32 \<Rightarrow> u64 \<Rightarrow> kernel \<Rightarrow> kernel" where
  "task_event t type arg k =
     (if \<not> tk_user (task k t) then k
      else let k = upd_task t (\<lambda>x. x\<lparr>tk_rev := tk_rev x + 1\<rparr>) k in
      k\<lparr>k_events := snd (nx_evlog_push (k_events k) (k_ticks k) type (tk_id (task k t)) arg)\<rparr>)"

definition frame_zero :: nx_trap_frame where
  "frame_zero = \<lparr>tf_r15 = 0, tf_r14 = 0, tf_r13 = 0, tf_r12 = 0, tf_r11 = 0, tf_r10 = 0, tf_r9 = 0, tf_r8 = 0,
     tf_rbp = 0, tf_rdi = 0, tf_rsi = 0, tf_rdx = 0, tf_rcx = 0, tf_rbx = 0, tf_rax = 0, tf_vector = 0, tf_error = 0,
     tf_rip = 0, tf_cs = 0, tf_rflags = 0, tf_rsp = 0, tf_ss = 0\<rparr>"

definition map_zero :: nx_task_map where
  "map_zero = \<lparr>mp_vmo = None, mp_va = 0, mp_pages = 0\<rparr>"

text \<open>The name copied into the slot: at most 15 characters and a NUL, zero up to 16 bytes.\<close>

definition task_name :: "bytes \<Rightarrow> bytes" where
  "task_name name =
     (let s = take (NX_TASK_NAME - 1) (takeWhile (\<lambda>c. c \<noteq> 0) name) in s @ replicate (NX_TASK_NAME - length s) 0)"

text \<open>A slot as \<open>alloc_task\<close> leaves it.\<close>

definition fresh_task :: "u32 \<Rightarrow> nat \<Rightarrow> bytes \<Rightarrow> nx_task" where
  "fresh_task tid slot name =
     \<lparr>tk_base = obj_header NX_OBJ_TASK Release_slot, tk_id = tid, tk_slot = slot, tk_name = task_name name,
      tk_state = NX_TASK_BLOCKED, tk_user = False, tk_cr3 = 0, tk_entry = 0, tk_kstack_top = 0, tk_cont = K_Thread,
      tk_frame = frame_zero, tk_slice = 0, tk_ticks = 0, tk_preempted = 0, tk_syscalls = 0, tk_yields = 0,
      tk_writes = 0, tk_first_write_seq = 0, tk_last_write_seq = 0, tk_waiter = None, tk_blocked_on = On_none,
      tk_handles = nx_ht_init, tk_maps = replicate NX_TASK_MAPS map_zero, tk_end = NX_END_NONE, tk_exit_code = 0,
      tk_fault_vector = 0, tk_fault_error = 0, tk_fault_rip = 0, tk_fault_cr2 = 0, tk_killer_id = 0, tk_rev = 0,
      tk_created_tick = 0, tk_ended_tick = 0, tk_wake_tick = 0, tk_started = False\<rparr>"

definition alloc_task :: "bytes \<Rightarrow> kernel \<Rightarrow> nat option \<times> kernel" where
  "alloc_task name k =
     (case find (\<lambda>s. tk_state (task k s) = NX_TASK_FREE) [0..<NX_TASK_MAX] of
        None \<Rightarrow> (None, k)
      | Some s \<Rightarrow> (Some s, (upd_task s (\<lambda>_. fresh_task (k_next_id k) s name) k)\<lparr>k_next_id := k_next_id k + 1\<rparr>))"

section \<open>Kernel stacks\<close>

definition kstack_bottom :: "nx_task \<Rightarrow> u64" where
  "kstack_bottom t = NX_KSTACK_BASE + of_nat (tk_slot t) * NX_KSTACK_STRIDE + NX_PAGE_4K"

definition kstack_free :: "nat \<Rightarrow> kernel \<Rightarrow> kernel option" where
  "kstack_free t k = do {
     k \<leftarrow> kfor (\<lambda>i k. case nx_vmm_unmap_page (kstack_bottom (task k t) + of_nat i * NX_PAGE_4K) k of
                (Inr pa, k) \<Rightarrow> nx_page_free pa k
              | (Inl e, k) \<Rightarrow> Some k) [0..<NX_KSTACK_PAGES] k;
     Some (upd_task t (\<lambda>x. x\<lparr>tk_kstack_top := 0\<rparr>) k) }"

text \<open>The page loop of \<open>kstack_alloc\<close> from page \<open>i\<close>, \<open>n\<close> pages to go.\<close>

fun kstack_fill :: "nat \<Rightarrow> nat \<Rightarrow> nat \<Rightarrow> kernel \<Rightarrow> (nx_error \<times> kernel) option" where
  "kstack_fill 0 i t k = Some (NX_OK, k)"
| "kstack_fill (Suc n) i t k = do {
     let (pa, k) = kpage_alloc k;
     let (st, k) = (if pa = 0 then (NX_PT_E_NOMEM, k)
                    else nx_vmm_map_page (kstack_bottom (task k t) + of_nat i * NX_PAGE_4K) pa
                           (NX_PTE_W OR NX_PTE_NX OR NX_PTE_G) k);
     if st \<noteq> NX_PT_OK then do {
       k \<leftarrow> (if pa \<noteq> 0 then nx_page_free pa k else Some k);
       k \<leftarrow> kstack_free t (upd_task t (\<lambda>x. x\<lparr>tk_kstack_top := 1\<rparr>) k);
       Some (NX_ENOMEM, k) }
     else kstack_fill n (Suc i) t (k\<lparr>k_mem := zero_page (k_mem k) pa\<rparr>) }"

definition kstack_alloc :: "nat \<Rightarrow> kernel \<Rightarrow> (nx_error \<times> kernel) option" where
  "kstack_alloc t k = do {
     (st, k) \<leftarrow> kstack_fill NX_KSTACK_PAGES 0 t k;
     if st \<noteq> NX_OK then Some (st, k)
     else Some (NX_OK, upd_task t (\<lambda>x. x\<lparr>tk_kstack_top := kstack_bottom x + of_nat NX_KSTACK_PAGES * NX_PAGE_4K\<rparr>) k) }"

definition nx_task_stack_readable :: "u64 \<Rightarrow> kernel \<Rightarrow> bool" where
  "nx_task_stack_readable rbp k \<longleftrightarrow>
     k_root k \<noteq> 0 \<and> rbp \<ge> NX_KSTACK_BASE \<and> rbp < NX_KSTACK_BASE + of_nat NX_TASK_MAX * NX_KSTACK_STRIDE
     \<and> \<not> isl (nx_vmm_query rbp k) \<and> \<not> isl (nx_vmm_query (rbp + 15) k)"

definition nx_task_guard_of :: "u64 \<Rightarrow> kernel \<Rightarrow> bytes option" where
  "nx_task_guard_of addr k =
     (if addr < NX_KSTACK_BASE \<or> addr \<ge> NX_KSTACK_BASE + of_nat NX_TASK_MAX * NX_KSTACK_STRIDE then None
      else let off = (addr - NX_KSTACK_BASE) mod NX_KSTACK_STRIDE;
               t = task k (unat ((addr - NX_KSTACK_BASE) div NX_KSTACK_STRIDE)) in
      if off < NX_PAGE_4K \<and> tk_state t \<noteq> NX_TASK_FREE then Some (tk_name t) else None)"

section \<open>Scheduling\<close>

text \<open>The next task, None for the null pointer (before the idle thread exists).\<close>

definition pick_next :: "kernel \<Rightarrow> nat option" where
  "pick_next k =
     (let start = tk_slot (task k (k_current k)) in
      case find (\<lambda>t. tk_state (task k t) = NX_TASK_READY \<and> Some t \<noteq> k_idle k)
             (map (\<lambda>i. (start + i) mod NX_TASK_MAX) [1..<NX_TASK_MAX + 1]) of
        Some t \<Rightarrow> Some t
      | None \<Rightarrow>
          if tk_state (task k (k_current k)) = NX_TASK_RUNNING \<and> Some (k_current k) \<noteq> k_idle k
          then Some (k_current k) else k_idle k)"

definition nx_schedule :: "kcont \<Rightarrow> kernel \<Rightarrow> kernel option" where
  "nx_schedule c k = do {
     let prev = k_current k;
     next \<leftarrow> pick_next k;
     let k = upd_task prev (\<lambda>t. t\<lparr>tk_cont := c\<rparr>) k;
     if next = prev then Some (upd_task prev (\<lambda>t. t\<lparr>tk_slice := NX_SCHED_SLICE\<rparr>) k)
     else do {
     let k = (if tk_state (task k prev) = NX_TASK_RUNNING
              then upd_task prev (\<lambda>t. t\<lparr>tk_state := NX_TASK_READY\<rparr>) k else k);
     let k = upd_task next (\<lambda>t. t\<lparr>tk_state := NX_TASK_RUNNING, tk_slice := NX_SCHED_SLICE\<rparr>) k;
     Some (k\<lparr>k_current := next, k_switches := k_switches k + 1\<rparr>) } }"

definition other_ready :: "kernel \<Rightarrow> bool" where
  "other_ready k \<longleftrightarrow> list_ex (\<lambda>s. tk_state (task k s) = NX_TASK_READY \<and> Some s \<noteq> k_idle k \<and> s \<noteq> k_current k) [0..<NX_TASK_MAX]"

definition nx_sched_watchdog :: "u64 \<Rightarrow> string \<Rightarrow> kernel \<Rightarrow> kernel" where
  "nx_sched_watchdog ticks what k =
     k\<lparr>k_wd_what := what, k_wd_deadline := (if ticks \<noteq> 0 then k_ticks k + ticks else 0)\<rparr>"

definition nx_task_wake :: "nat \<Rightarrow> kernel \<Rightarrow> kernel" where
  "nx_task_wake t k =
     (if tk_state (task k t) = NX_TASK_BLOCKED
      then upd_task t (\<lambda>x. x\<lparr>tk_state := NX_TASK_READY, tk_blocked_on := On_none\<rparr>) k else k)"

definition wake_sleepers :: "kernel \<Rightarrow> kernel" where
  "wake_sleepers = fold (\<lambda>s k.
     if tk_state (task k s) = NX_TASK_BLOCKED \<and> tk_blocked_on (task k s) = On_sleep \<and> k_ticks k \<ge> tk_wake_tick (task k s)
     then nx_task_wake s k else k) [0..<NX_TASK_MAX]"

text \<open>The timer interrupt; an expired watchdog stops the machine. \<open>c\<close> is where the interrupted task continues.\<close>

definition sched_tick :: "kcont \<Rightarrow> kernel \<Rightarrow> kernel option" where
  "sched_tick c k =
     (let cur = k_current k;
          k = upd_task cur (\<lambda>t. t\<lparr>tk_ticks := tk_ticks t + 1, tk_slice := (if tk_slice t \<noteq> 0 then tk_slice t - 1 else 0)\<rparr>) k;
          k = wake_sleepers k in
      if k_wd_deadline k \<noteq> 0 \<and> k_ticks k \<ge> k_wd_deadline k then None
      else if \<not> k_preempt k \<and> Some cur \<noteq> k_idle k then Some (upd_task cur (\<lambda>t. t\<lparr>tk_cont := c\<rparr>) k)
      else if (Some cur = k_idle k \<or> tk_slice (task k cur) = 0) \<and> other_ready k then
        nx_schedule c
          (if Some cur \<noteq> k_idle k
           then (upd_task cur (\<lambda>t. t\<lparr>tk_preempted := tk_preempted t + 1\<rparr>) k)\<lparr>k_preemptions := k_preemptions k + 1\<rparr>
           else k)
      else Some (upd_task cur (\<lambda>t. t\<lparr>tk_cont := c\<rparr>) k))"

definition on_periodic :: "kcont \<Rightarrow> kernel \<Rightarrow> kernel option" where
  "on_periodic c k = sched_tick c (k\<lparr>k_ticks := k_ticks k + 1\<rparr>)"

definition nx_yield :: "kcont \<Rightarrow> kernel \<Rightarrow> kernel option" where
  "nx_yield c k = nx_schedule c (upd_task (k_current k) (\<lambda>t. t\<lparr>tk_slice := 0\<rparr>) k)"

definition nx_task_block :: "blocked_ptr \<Rightarrow> kcont \<Rightarrow> kernel \<Rightarrow> kernel option" where
  "nx_task_block on c k =
     nx_schedule c (upd_task (k_current k) (\<lambda>t. t\<lparr>tk_state := NX_TASK_BLOCKED, tk_blocked_on := on\<rparr>) k)"

definition nx_task_sleep :: "u64 \<Rightarrow> kcont \<Rightarrow> kernel \<Rightarrow> kernel option" where
  "nx_task_sleep ticks c k =
     nx_task_block On_sleep c (upd_task (k_current k) (\<lambda>t. t\<lparr>tk_wake_tick := k_ticks k + ticks\<rparr>) k)"

text \<open>One round of the idle loop, after the interrupt that ended \<open>hlt\<close>.\<close>

definition idle_round :: "kernel \<Rightarrow> kernel option" where
  "idle_round = nx_schedule K_Idle"

end
