(* ===== verification/Tasks.thy ===== *)
theory Tasks
  imports Sched
begin

text \<open>
  Creating, ending and reaping tasks (kernel/task.c). The contents of a new kernel stack are the
  continuation and the trap frame of the task.
\<close>

section \<open>Kernel threads\<close>

definition nx_kthread_create :: "bytes \<Rightarrow> kcont \<Rightarrow> kernel \<Rightarrow> (nat option \<times> kernel) option" where
  "nx_kthread_create name fn k =
     (case alloc_task name k of
        (None, k) \<Rightarrow> Some (None, k)
      | (Some t, k) \<Rightarrow> do {
          (st, k) \<leftarrow> kstack_alloc t k;
          if st \<noteq> NX_OK then Some (None, upd_task t (\<lambda>x. x\<lparr>tk_state := NX_TASK_FREE\<rparr>) k)
          else Some (Some t, upd_task t (\<lambda>x. x\<lparr>tk_cr3 := k_root k, tk_cont := fn\<rparr>) k) })"

text \<open>\<open>boot_stack_top\<close> is the linker symbol of the boot stack.\<close>

definition nx_sched_init :: "u64 \<Rightarrow> bool \<Rightarrow> kernel \<Rightarrow> kernel option" where
  "nx_sched_init boot_stack_top preempt k =
     (case alloc_task (c_lit ''kmain'') k of
        (None, k) \<Rightarrow> None
      | (Some t, k) \<Rightarrow> do {
          let k = upd_task t (\<lambda>x. x\<lparr>tk_state := NX_TASK_RUNNING, tk_cr3 := k_root k, tk_kstack_top := boot_stack_top,
                                    tk_slice := NX_SCHED_SLICE\<rparr>) k;
          (i, k) \<leftarrow> nx_kthread_create (c_lit ''idle'') K_Idle (k\<lparr>k_current := t\<rparr>);
          idle \<leftarrow> i;
          let k = upd_task idle (\<lambda>x. x\<lparr>tk_state := NX_TASK_READY\<rparr>) k;
          kprintf (''NANOX: sched ok tasks=kmain#%u,idle#%u preempt=%s slice_ticks=%u hz=%u'' @
                   '' user_fpu=off gdt_user=0x1b/0x23 syscall_vector=0x%x'' @ NL)
            [A_int (tk_id (task k t)), A_int (tk_id (task k idle)), A_str (Some (if preempt then ''on'' else ''off'')),
             A_int NX_SCHED_SLICE, A_int 100, A_int 0x80]
            (k\<lparr>k_idle := Some idle, k_preempt := preempt\<rparr>) })"

section \<open>User tasks\<close>

definition free_owned_leaf :: "u64 \<Rightarrow> u64 \<Rightarrow> u64 \<Rightarrow> nx_pmm \<Rightarrow> nx_pmm option" where
  "free_owned_leaf pa flags sz p =
     (if flags AND NX_PTE_OWNED \<noteq> 0 \<and> sz = NX_PAGE_4K then page_free_or_panic p pa else Some p)"

definition map_new_page :: "u64 \<Rightarrow> u64 \<Rightarrow> u64 \<Rightarrow> kernel \<Rightarrow> ((nx_error + u64) \<times> kernel) option" where
  "map_new_page root va flags k = do {
     let (pa, k) = kpage_alloc k;
     if pa = 0 then Some (Inl NX_ENOMEM, k) else do {
     let (st, k) = nx_vmm_map_page_in root va pa (flags OR NX_PTE_U OR NX_PTE_OWNED) (k\<lparr>k_mem := zero_page (k_mem k) pa\<rparr>);
     if st \<noteq> NX_PT_OK then do {
       k \<leftarrow> nx_page_free pa k;
       Some (Inl (if st = NX_PT_E_NOMEM then NX_ENOMEM else NX_EINVAL), k) }
     else Some (Inr pa, k) } }"

text \<open>A loop over page indices whose body has a status; it stops at the first error.\<close>

fun kwhile_ok :: "('a \<Rightarrow> kernel \<Rightarrow> (nx_error \<times> kernel) option) \<Rightarrow> 'a list \<Rightarrow> kernel \<Rightarrow> (nx_error \<times> kernel) option" where
  "kwhile_ok f [] k = Some (NX_OK, k)"
| "kwhile_ok f (x # xs) k = do { (st, k) \<leftarrow> f x k; if st \<noteq> NX_OK then Some (st, k) else kwhile_ok f xs k }"

text \<open>Reading \<open>n\<close> bytes of the image from offset \<open>off\<close>; None outside it.\<close>

definition img_slice :: "bytes \<Rightarrow> u64 \<Rightarrow> u64 \<Rightarrow> bytes option" where
  "img_slice elf off n =
     (if unat off + unat n \<le> length elf then Some (take (unat n) (drop (unat off) elf)) else None)"

definition load_page :: "u64 \<Rightarrow> bytes \<Rightarrow> nx_elf_segment \<Rightarrow> u64 \<Rightarrow> kernel \<Rightarrow> (nx_error \<times> kernel) option" where
  "load_page root elf s va k = do {
     let flags = (if sg_flags s AND 2 \<noteq> 0 then NX_PTE_W else 0) OR (if sg_flags s AND 1 \<noteq> 0 then 0 else NX_PTE_NX);
     (r, k) \<leftarrow> map_new_page root va flags k;
     (case r of
        Inl st \<Rightarrow> Some (st, k)
      | Inr pa \<Rightarrow> do {
          let lo = (if va > sg_addr s then va else sg_addr s);
          let hi = sg_addr s + sg_file_size s;
          let hi = (if hi > va + NX_PAGE_4K then va + NX_PAGE_4K else hi);
          if lo < hi then do {
            bs \<leftarrow> img_slice elf (sg_file_offset s + (lo - sg_addr s)) (hi - lo);
            Some (NX_OK, k\<lparr>k_mem := wr_bytes (k_mem k) (pa + (lo - va)) bs\<rparr>) }
          else Some (NX_OK, k) }) }"

text \<open>The page addresses of a segment, the loop \<open>for (va = first; va < end; va += NX_PAGE_4K)\<close>.\<close>

definition seg_pages :: "nx_elf_segment \<Rightarrow> u64 list" where
  "seg_pages s =
     (let first = sg_addr s AND NOT (NX_PAGE_4K - 1);
          end' = (sg_addr s + sg_mem_size s + NX_PAGE_4K - 1) AND NOT (NX_PAGE_4K - 1) in
      if first < end' then map (\<lambda>i. first + of_nat i * NX_PAGE_4K) [0..<unat ((end' - first) div NX_PAGE_4K)] else [])"

definition elf_plan_zero :: nx_elf_plan where
  "elf_plan_zero = \<lparr>pl_entry = 0, pl_span_base = 0, pl_span_end = 0, pl_segment_count = 0,
     pl_segments = replicate (unat NX_ELF_MAX_SEGMENTS)
       \<lparr>sg_file_offset = 0, sg_file_size = 0, sg_addr = 0, sg_mem_size = 0, sg_flags = 0\<rparr>\<rparr>"

definition load_elf :: "u64 \<Rightarrow> bytes \<Rightarrow> u64 \<Rightarrow> kernel \<Rightarrow> ((nx_error \<times> u64) \<times> kernel) option" where
  "load_elf root elf sz k = do {
     (st, plan) \<leftarrow> nx_elf_plan_user elf sz elf_plan_zero;
     if st \<noteq> NX_ELF_OK then Some ((NX_EINVAL, 0), k) else do {
     (st, k) \<leftarrow> kwhile_ok (\<lambda>s. kwhile_ok (load_page root elf s) (seg_pages s))
                 (take (unat (pl_segment_count plan)) (pl_segments plan)) k;
     Some ((st, if st = NX_OK then pl_entry plan else 0), k) } }"

definition map_stack_page :: "u64 \<Rightarrow> nat \<Rightarrow> kernel \<Rightarrow> (nx_error \<times> kernel) option" where
  "map_stack_page root i k = do {
     (r, k) \<leftarrow> map_new_page root (NX_USER_STACK_TOP - (of_nat i + 1) * NX_PAGE_4K) (NX_PTE_W OR NX_PTE_NX) k;
     Some ((case r of Inl st \<Rightarrow> st | Inr pa \<Rightarrow> NX_OK), k) }"

abbreviation NX_SEL_UDATA :: u64 where "NX_SEL_UDATA \<equiv> 0x1B"
abbreviation NX_SEL_UCODE :: u64 where "NX_SEL_UCODE \<equiv> 0x23"

definition user_frame_init :: "u64 \<Rightarrow> u64 list \<Rightarrow> nx_trap_frame" where
  "user_frame_init ent args = frame_zero\<lparr>tf_rdi := args ! 0, tf_rsi := args ! 1, tf_rdx := args ! 2, tf_rcx := args ! 3,
     tf_rip := ent, tf_cs := NX_SEL_UCODE, tf_rflags := 0x202, tf_rsp := NX_USER_STACK_TOP, tf_ss := NX_SEL_UDATA\<rparr>"

text \<open>The address space of a new task: its image and its stack.\<close>

definition utask_space :: "nat \<Rightarrow> bytes \<Rightarrow> u64 \<Rightarrow> kernel \<Rightarrow> ((nx_error \<times> u64) \<times> kernel) option" where
  "utask_space t elf sz k = do {
     let (cr3, k) = nx_as_create k;
     let k = upd_task t (\<lambda>x. x\<lparr>tk_cr3 := cr3\<rparr>) k;
     if cr3 = 0 then Some ((NX_ENOMEM, 0), k) else do {
     ((st, ent), k) \<leftarrow> load_elf cr3 elf sz k;
     if st \<noteq> NX_OK then Some ((st, ent), k) else do {
     (st, k) \<leftarrow> kwhile_ok (map_stack_page cr3) [0..<unat NX_USER_STACK_PAGES] k;
     Some ((st, ent), k) } } }"

definition nx_utask_create :: "bytes \<Rightarrow> bytes \<Rightarrow> u64 \<Rightarrow> u64 list \<Rightarrow> kernel \<Rightarrow> ((nx_error + nat) \<times> kernel) option" where
  "nx_utask_create name elf sz args k =
     (case alloc_task name k of
        (None, k) \<Rightarrow> Some (Inl NX_ENOMEM, k)
      | (Some t, k) \<Rightarrow> do {
          (st, k) \<leftarrow> kstack_alloc t k;
          if st \<noteq> NX_OK then Some (Inl st, upd_task t (\<lambda>x. x\<lparr>tk_state := NX_TASK_FREE\<rparr>) k) else do {
          ((st, ent), k) \<leftarrow> utask_space t elf sz (upd_task t (\<lambda>x. x\<lparr>tk_user := True\<rparr>) k);
          if st \<noteq> NX_OK then do {
            k \<leftarrow> (if tk_cr3 (task k t) \<noteq> 0 then nx_as_destroy (tk_cr3 (task k t)) free_owned_leaf k else Some k);
            k \<leftarrow> kstack_free t k;
            Some (Inl st, upd_task t (\<lambda>x. x\<lparr>tk_state := NX_TASK_FREE\<rparr>) k) }
          else
            Some (Inr t, task_event t NX_EV_TASK_CREATED 0
              (upd_task t (\<lambda>x. x\<lparr>tk_entry := ent, tk_frame := user_frame_init ent args, tk_cont := K_User,
                                 tk_created_tick := k_ticks k\<rparr>) k)) } })"

definition nx_task_set_arg :: "nat \<Rightarrow> nat \<Rightarrow> u64 \<Rightarrow> kernel \<Rightarrow> kernel" where
  "nx_task_set_arg t index v = upd_task t (\<lambda>x. x\<lparr>tk_frame :=
     (if index = 0 then (tk_frame x)\<lparr>tf_rdi := v\<rparr> else if index = 1 then (tk_frame x)\<lparr>tf_rsi := v\<rparr>
      else if index = 2 then (tk_frame x)\<lparr>tf_rdx := v\<rparr> else if index = 3 then (tk_frame x)\<lparr>tf_rcx := v\<rparr>
      else tk_frame x)\<rparr>)"

definition nx_task_start :: "nat \<Rightarrow> kernel \<Rightarrow> kernel" where
  "nx_task_start t k =
     (if tk_state (task k t) = NX_TASK_BLOCKED \<and> tk_blocked_on (task k t) = On_none \<and> \<not> tk_started (task k t)
      then task_event t NX_EV_TASK_STARTED 0 (upd_task t (\<lambda>x. x\<lparr>tk_state := NX_TASK_READY, tk_started := True\<rparr>) k)
      else k)"

section \<open>Ending and reaping\<close>

definition end_task :: "nat \<Rightarrow> nx_task_end \<Rightarrow> kernel \<Rightarrow> kernel" where
  "end_task t how k =
     (let k = (case tk_blocked_on (task k t) of
                 On_ep e \<Rightarrow> if tk_state (task k t) = NX_TASK_BLOCKED \<and> ep_waiter (es_ep (k_eps k ! e)) = Some t
                           then upd_ep e (\<lambda>s. s\<lparr>es_ep := (es_ep s)\<lparr>ep_waiter := None\<rparr>\<rparr>) k else k
               | _ \<Rightarrow> k);
          k = upd_task t (\<lambda>x. x\<lparr>tk_blocked_on := On_none, tk_end := how, tk_state := NX_TASK_DEAD,
                                tk_ended_tick := k_ticks k\<rparr>) k;
          k = (case how of
                 NX_END_EXIT \<Rightarrow> task_event t NX_EV_TASK_EXITED (tk_exit_code (task k t)) k
               | NX_END_FAULT \<Rightarrow> task_event t NX_EV_TASK_FAULTED (tk_fault_vector (task k t)) k
               | _ \<Rightarrow> task_event t NX_EV_TASK_KILLED (ucast (tk_killer_id (task k t))) k) in
      case tk_waiter (task k t) of
        Some w \<Rightarrow> nx_task_wake w k
      | None \<Rightarrow> (case k_reaper k of Some r \<Rightarrow> nx_task_wake r k | None \<Rightarrow> k))"

definition nx_task_exit_current :: "u64 \<Rightarrow> kernel \<Rightarrow> kernel option" where
  "nx_task_exit_current code k =
     (let t = k_current k in
      nx_schedule K_Dead (end_task t NX_END_EXIT (upd_task t (\<lambda>x. x\<lparr>tk_exit_code := code\<rparr>) k)))"

text \<open>The first component of the result: the call does not return, the current task has ended.\<close>

definition nx_task_terminate :: "nat \<Rightarrow> nx_task_end \<Rightarrow> u32 \<Rightarrow> kernel \<Rightarrow> (bool \<times> kernel) option" where
  "nx_task_terminate t how killer k =
     (if tk_state (task k t) \<in> {NX_TASK_FREE, NX_TASK_DEAD, NX_TASK_REAPED} then Some (False, k)
      else let k = end_task t how (upd_task t (\<lambda>x. x\<lparr>tk_killer_id := killer\<rparr>) k) in
      if t = k_current k then do { k \<leftarrow> nx_schedule K_Dead k; Some (True, k) } else Some (False, k))"

text \<open>\<open>cr2\<close> is the fault address register. The task cannot be resumed.\<close>

definition nx_user_trap :: "nx_trap_frame \<Rightarrow> u64 \<Rightarrow> kernel \<Rightarrow> kernel option" where
  "nx_user_trap f cr2 k = do {
     let t = k_current k;
     (gone, k) \<leftarrow> nx_task_terminate t NX_END_FAULT 0
       (upd_task t (\<lambda>x. x\<lparr>tk_fault_vector := tf_vector f, tk_fault_error := tf_error f, tk_fault_rip := tf_rip f,
                          tk_fault_cr2 := cr2\<rparr>) k);
     if gone then Some k else None }"

definition nx_exception_mnemonic :: "u64 \<Rightarrow> string" where
  "nx_exception_mnemonic vector =
     (if vector < 32 then
        [''#DE'', ''#DB'', ''NMI'', ''#BP'', ''#OF'', ''#BR'', ''#UD'', ''#NM'', ''#DF'', ''CSO'', ''#TS'',
         ''#NP'', ''#SS'', ''#GP'', ''#PF'', ''RES'', ''#MF'', ''#AC'', ''#MC'', ''#XM'', ''#VE'', ''#CP'',
         ''RES'', ''RES'', ''RES'', ''RES'', ''RES'', ''RES'', ''#HV'', ''#VC'', ''#SX'', ''RES''] ! unat vector
      else ''IRQ'')"

definition print_end :: "nx_task \<Rightarrow> kernel \<Rightarrow> kernel option" where
  "print_end t =
     (case tk_end t of
        NX_END_EXIT \<Rightarrow> kprintf (''NANOX: task %s#%u exited code=%lu ticks=%lu preempted=%lu syscalls=%lu'' @ NL)
          [A_str (Some (c_str (tk_name t))), A_int (tk_id t), A_long (tk_exit_code t), A_long (tk_ticks t),
           A_long (tk_preempted t), A_long (tk_syscalls t)]
      | NX_END_FAULT \<Rightarrow> kprintf (''NANOX: task %s#%u killed: user fault %s vector=%lu error=0x%lx rip=0x%016lx cr2=0x%016lx'' @ NL)
          [A_str (Some (c_str (tk_name t))), A_int (tk_id t), A_str (Some (nx_exception_mnemonic (tk_fault_vector t))),
           A_long (tk_fault_vector t), A_long (tk_fault_error t), A_long (tk_fault_rip t), A_long (tk_fault_cr2 t)]
      | NX_END_KILLED \<Rightarrow> kprintf (''NANOX: task %s#%u killed: by task #%u through a task handle'' @ NL)
          [A_str (Some (c_str (tk_name t))), A_int (tk_id t), A_int (tk_killer_id t)]
      | _ \<Rightarrow> kprintf (''NANOX: task %s#%u terminated by the kernel'' @ NL) [A_str (Some (c_str (tk_name t))), A_int (tk_id t)])"

text \<open>Drops the reference of mapping \<open>i\<close>.\<close>

definition unref_map :: "nat \<Rightarrow> nat \<Rightarrow> kernel \<Rightarrow> kernel option" where
  "unref_map t i k =
     (case mp_vmo (tk_maps (task k t) ! i) of
        None \<Rightarrow> Some k
      | Some v \<Rightarrow> do {
          k \<leftarrow> nx_obj_unref (Vmo_obj v) k;
          Some (upd_task t (\<lambda>x. x\<lparr>tk_maps := (tk_maps x)[i := (tk_maps x ! i)\<lparr>mp_vmo := None\<rparr>]\<rparr>) k) })"

definition reap :: "nat \<Rightarrow> kernel \<Rightarrow> kernel option" where
  "reap t k = do {
     k \<leftarrow> print_end (task k t) k;
     k \<leftarrow> nx_ht_clear t k;
     k \<leftarrow> (if tk_user (task k t) then nx_as_destroy (tk_cr3 (task k t)) free_owned_leaf k else Some k);
     k \<leftarrow> kfor (unref_map t) [0..<NX_TASK_MAPS] k;
     k \<leftarrow> kstack_free t k;
     let k = task_event t NX_EV_TASK_REAPED 0 (upd_task t (\<lambda>x. x\<lparr>tk_state := NX_TASK_REAPED\<rparr>) k);
     nx_obj_unref (Task_obj t) k }"

text \<open>
  One round of the loop of \<open>nx_task_wait_reap\<close> in a kernel thread: None as the first component means that
  the thread has blocked and runs the round again when it is woken; otherwise it is the result.
\<close>

definition wait_reap_round :: "nat \<Rightarrow> kernel \<Rightarrow> (u64 option \<times> kernel) option" where
  "wait_reap_round t k =
     (if tk_state (task k t) \<noteq> NX_TASK_DEAD \<and> tk_state (task k t) \<noteq> NX_TASK_REAPED
      then do { k \<leftarrow> nx_task_block On_none K_Thread (upd_task t (\<lambda>x. x\<lparr>tk_waiter := Some (k_current k)\<rparr>) k);
                Some (None, k) }
      else do {
        let k = upd_task t (\<lambda>x. x\<lparr>tk_waiter := None\<rparr>) k;
        let code = (if tk_end (task k t) = NX_END_FAULT then - tk_fault_vector (task k t) else tk_exit_code (task k t));
        k \<leftarrow> (if tk_state (task k t) = NX_TASK_DEAD then reap t k else Some k);
        Some (Some code, k) })"

definition nx_task_by_id :: "u32 \<Rightarrow> kernel \<Rightarrow> nat option" where
  "nx_task_by_id tid k = find (\<lambda>s. tk_state (task k s) \<noteq> NX_TASK_FREE \<and> tk_id (task k s) = tid) [0..<NX_TASK_MAX]"

definition nx_task_live_count :: "kernel \<Rightarrow> u32" where
  "nx_task_live_count k =
     of_nat (length (filter (\<lambda>s. tk_state (task k s) \<noteq> NX_TASK_FREE \<and> tk_state (task k s) \<noteq> NX_TASK_REAPED) [0..<NX_TASK_MAX]))"

section \<open>The reaper and task information\<close>

definition reaper_round :: "kernel \<Rightarrow> kernel option" where
  "reaper_round k = do {
     k \<leftarrow> kfor (\<lambda>s k. if tk_state (task k s) = NX_TASK_DEAD \<and> tk_waiter (task k s) = None then reap s k else Some k)
            [0..<NX_TASK_MAX] k;
     nx_task_block On_none K_Reaper k }"

definition nx_reaper_start :: "kernel \<Rightarrow> kernel option" where
  "nx_reaper_start k = do {
     (r, k) \<leftarrow> nx_kthread_create (c_lit ''reaper'') K_Reaper k;
     t \<leftarrow> r;
     Some (nx_task_start t (k\<lparr>k_reaper := Some t\<rparr>)) }"

text \<open>\<open>struct nx_task_info\<close> as it is copied to the user, little endian.\<close>

definition nx_task_fill_info :: "nx_task \<Rightarrow> bytes" where
  "nx_task_fill_info t =
     le_enc 4 (tk_id t) @ le_enc 4 (task_state_code (tk_state t)) @ le_enc 4 (task_end_code (tk_end t))
     @ le_enc 4 (if tk_user t then 1 else 0 :: u32) @ le_enc 8 (tk_exit_code t) @ le_enc 8 (tk_ticks t)
     @ le_enc 8 (tk_syscalls t) @ le_enc 8 (tk_rev t) @ le_enc 8 (tk_created_tick t) @ le_enc 8 (tk_ended_tick t)
     @ le_enc 4 (tk_killer_id t) @ le_enc 4 (0 :: u32)
     @ (let s = take NX_TASK_NAME (takeWhile (\<lambda>c. c \<noteq> 0) (tk_name t)) in s @ replicate (16 - length s) 0)"

text \<open>The information of the allocated slots; its length is the number \<open>nx_task_list\<close> returns.\<close>

definition nx_task_list :: "kernel \<Rightarrow> bytes list" where
  "nx_task_list k = map (\<lambda>s. nx_task_fill_info (task k s)) (filter (\<lambda>s. tk_state (task k s) \<noteq> NX_TASK_FREE) [0..<NX_TASK_MAX])"

definition nx_task_next_id :: "kernel \<Rightarrow> u32" where
  "nx_task_next_id k = k_next_id k"

end
