(* ===== verification/Kernel_Frame.thy ===== *)
theory Kernel_Frame
  imports Tasks
begin

text \<open>
  What the operations of the kernel leave alone. \<open>mem_only\<close>: the memory management operations change
  only physical memory, the page allocator and the count of page tables.
\<close>

section \<open>Task updates\<close>

lemma upd_task_fields [simp]:
  "length (k_tasks (upd_task i f k)) = length (k_tasks k)" "k_vmos (upd_task i f k) = k_vmos k"
  "k_eps (upd_task i f k) = k_eps k" "k_static (upd_task i f k) = k_static k" "k_pmm (upd_task i f k) = k_pmm k"
  "k_mem (upd_task i f k) = k_mem k" "k_root (upd_task i f k) = k_root k" "k_tables (upd_task i f k) = k_tables k"
  "k_events (upd_task i f k) = k_events k" "k_ticks (upd_task i f k) = k_ticks k"
  "k_current (upd_task i f k) = k_current k" "k_idle (upd_task i f k) = k_idle k"
  "k_reaper (upd_task i f k) = k_reaper k" "k_next_id (upd_task i f k) = k_next_id k"
  "k_preempt (upd_task i f k) = k_preempt k" "k_wd_deadline (upd_task i f k) = k_wd_deadline k"
  "k_serial (upd_task i f k) = k_serial k" "k_inj_overgrant (upd_task i f k) = k_inj_overgrant k"
  "k_inj_uaccess (upd_task i f k) = k_inj_uaccess k" "k_trace_ipc (upd_task i f k) = k_trace_ipc k"
  by (simp_all add: upd_task_def)

lemma upd_task_nth [simp]:
  "i < length (k_tasks k) \<Longrightarrow> task (upd_task i f k) j = (if j = i then f (task k i) else task k j)"
  by (simp add: upd_task_def nth_list_update)

lemma upd_task_other [simp]: "j \<noteq> i \<Longrightarrow> task (upd_task i f k) j = task k j"
  by (simp add: upd_task_def)

lemma upd_ep_fields [simp]:
  "k_tasks (upd_ep i f k) = k_tasks k" "k_vmos (upd_ep i f k) = k_vmos k" "k_static (upd_ep i f k) = k_static k"
  "k_current (upd_ep i f k) = k_current k" "k_idle (upd_ep i f k) = k_idle k" "k_reaper (upd_ep i f k) = k_reaper k"
  "k_preempt (upd_ep i f k) = k_preempt k" "k_ticks (upd_ep i f k) = k_ticks k" "k_mem (upd_ep i f k) = k_mem k"
  "k_wd_deadline (upd_ep i f k) = k_wd_deadline k" "k_inj_overgrant (upd_ep i f k) = k_inj_overgrant k" "length (k_eps (upd_ep i f k)) = length (k_eps k)"
  by (simp_all add: upd_ep_def)

lemma upd_vmo_fields [simp]:
  "k_tasks (upd_vmo i f k) = k_tasks k" "k_eps (upd_vmo i f k) = k_eps k" "k_static (upd_vmo i f k) = k_static k"
  "k_current (upd_vmo i f k) = k_current k" "k_idle (upd_vmo i f k) = k_idle k" "k_reaper (upd_vmo i f k) = k_reaper k"
  "k_preempt (upd_vmo i f k) = k_preempt k" "k_ticks (upd_vmo i f k) = k_ticks k" "k_mem (upd_vmo i f k) = k_mem k"
  "k_wd_deadline (upd_vmo i f k) = k_wd_deadline k" "k_inj_overgrant (upd_vmo i f k) = k_inj_overgrant k" "length (k_vmos (upd_vmo i f k)) = length (k_vmos k)"
  by (simp_all add: upd_vmo_def)

section \<open>Memory management\<close>

definition mem_only :: "kernel \<Rightarrow> kernel \<Rightarrow> bool" where
  "mem_only k k' \<longleftrightarrow> (\<exists>m p n. k' = k\<lparr>k_mem := m, k_pmm := p, k_tables := n\<rparr>)"

lemma mem_onlyI: "k' = k\<lparr>k_mem := m, k_pmm := p, k_tables := n\<rparr> \<Longrightarrow> mem_only k k'"
  unfolding mem_only_def by blast

lemma mem_only_fields:
  assumes "mem_only k k'"
  shows "k_tasks k' = k_tasks k" "k_vmos k' = k_vmos k" "k_eps k' = k_eps k" "k_static k' = k_static k"
    "k_root k' = k_root k" "k_events k' = k_events k" "k_ticks k' = k_ticks k" "k_current k' = k_current k"
    "k_idle k' = k_idle k" "k_reaper k' = k_reaper k" "k_next_id k' = k_next_id k" "k_preempt k' = k_preempt k"
    "k_wd_deadline k' = k_wd_deadline k" "k_serial k' = k_serial k" "k_inj_overgrant k' = k_inj_overgrant k"
proof -
  obtain m p n where "k' = k\<lparr>k_mem := m, k_pmm := p, k_tables := n\<rparr>" using assms unfolding mem_only_def by blast
  then show "k_tasks k' = k_tasks k" "k_vmos k' = k_vmos k" "k_eps k' = k_eps k" "k_static k' = k_static k"
    "k_root k' = k_root k" "k_events k' = k_events k" "k_ticks k' = k_ticks k" "k_current k' = k_current k"
    "k_idle k' = k_idle k" "k_reaper k' = k_reaper k" "k_next_id k' = k_next_id k" "k_preempt k' = k_preempt k"
    "k_wd_deadline k' = k_wd_deadline k" "k_serial k' = k_serial k" "k_inj_overgrant k' = k_inj_overgrant k" by simp_all
qed

lemma mem_only_trans:
  assumes "mem_only k k'" and "mem_only k' k''"
  shows "mem_only k k''"
proof -
  obtain m p n where "k' = k\<lparr>k_mem := m, k_pmm := p, k_tables := n\<rparr>" using assms(1) unfolding mem_only_def by blast
  moreover obtain m' p' n' where "k'' = k'\<lparr>k_mem := m', k_pmm := p', k_tables := n'\<rparr>" using assms(2) unfolding mem_only_def by blast
  ultimately show ?thesis by (intro mem_onlyI [where m = m' and p = p' and n = n']) simp
qed

lemma mem_only_refl [simp]: "mem_only k k"
  by (rule mem_onlyI [where m = "k_mem k" and p = "k_pmm k" and n = "k_tables k"]) simp

lemma mem_only_put [simp]: "mem_only k (vm_put s k)"
  by (rule mem_onlyI [where m = "fst s" and p = "fst (snd s)" and n = "snd (snd s)"]) (simp add: vm_put_def)

lemma mem_only_mem [simp]: "mem_only k (k\<lparr>k_mem := m\<rparr>)"
  by (rule mem_onlyI [where m = m and p = "k_pmm k" and n = "k_tables k"]) simp

lemma mem_only_pmm [simp]: "mem_only k (k\<lparr>k_pmm := p\<rparr>)"
  by (rule mem_onlyI [where m = "k_mem k" and p = p and n = "k_tables k"]) simp

lemma mem_only_kpage_alloc: "kpage_alloc k = (a, k') \<Longrightarrow> mem_only k k'"
  by (auto simp: kpage_alloc_def split: prod.splits)

lemma mem_only_page_free: "nx_page_free a k = Some k' \<Longrightarrow> mem_only k k'"
  by (auto simp: nx_page_free_def split: Option.bind_splits)

lemma mem_only_map_in: "nx_vmm_map_page_in root va pa flags k = (st, k') \<Longrightarrow> mem_only k k'"
  by (auto simp: nx_vmm_map_page_in_def split: prod.splits)

lemma mem_only_map: "nx_vmm_map_page va pa flags k = (st, k') \<Longrightarrow> mem_only k k'"
  by (auto simp: nx_vmm_map_page_def split: prod.splits)

lemma mem_only_unmap_in: "nx_vmm_unmap_page_in root va k = (r, k') \<Longrightarrow> mem_only k k'"
  by (auto simp: nx_vmm_unmap_page_in_def split: prod.splits)

lemma mem_only_unmap: "nx_vmm_unmap_page va k = (r, k') \<Longrightarrow> mem_only k k'"
  by (auto simp: nx_vmm_unmap_page_def mem_only_unmap_in)

lemma mem_only_as_create: "nx_as_create k = (root, k') \<Longrightarrow> mem_only k k'"
  by (auto simp: nx_as_create_def Let_def simp del: upt_rec_numeral split: prod.splits sum.splits)

lemma mem_only_as_destroy:
  assumes "nx_as_destroy root leaf k = Some k'"
  shows "mem_only k k'"
proof -
  have "\<exists>x. k' = vm_put x k" using assms unfolding nx_as_destroy_def Let_def
    by (simp split: prod.splits Option.bind_splits add: bind_eq_Some_conv) blast
  then show ?thesis by auto
qed

lemma mem_only_kfor:
  assumes "\<And>x k k'. f x k = Some k' \<Longrightarrow> mem_only k k'" and "kfor f xs k = Some k'"
  shows "mem_only k k'"
  using assms(2)
proof (induction xs arbitrary: k)
  case (Cons x xs)
  then obtain k1 where "f x k = Some k1" "kfor f xs k1 = Some k'" by (auto split: Option.bind_splits)
  then show ?case using Cons.IH assms(1) mem_only_trans by blast
qed simp

lemma mem_only_new_page:
  assumes "map_new_page root va flags k = Some (r, k')"
  shows "mem_only k k'"
proof -
  obtain pa k1 where a: "kpage_alloc k = (pa, k1)" by fastforce
  define k2 where "k2 = k1\<lparr>k_mem := zero_page (k_mem k1) pa\<rparr>"
  obtain st k3 where m: "nx_vmm_map_page_in root va pa (flags OR NX_PTE_U OR NX_PTE_OWNED) k2 = (st, k3)" by fastforce
  have k1: "mem_only k k1" using a by (rule mem_only_kpage_alloc)
  have "mem_only k1 k2" by (simp add: k2_def)
  then have k3: "mem_only k k3" using k1 mem_only_map_in [OF m] mem_only_trans by blast
  have "k' = k1 \<or> k' = k3 \<or> nx_page_free pa k3 = Some k'"
    using assms a m by (auto simp: map_new_page_def k2_def split: if_splits Option.bind_splits)
  then show ?thesis using k1 k3 mem_only_page_free mem_only_trans by blast
qed

lemma mem_only_kwhile:
  assumes "\<And>x k st k'. f x k = Some (st, k') \<Longrightarrow> mem_only k k'" and "kwhile_ok f xs k = Some (st, k')"
  shows "mem_only k k'"
  using assms(2)
proof (induction xs arbitrary: k)
  case (Cons x xs)
  then obtain st1 k1 where "f x k = Some (st1, k1)" "k' = k1 \<or> kwhile_ok f xs k1 = Some (st, k')"
    by (auto split: Option.bind_splits if_splits)
  then show ?case using Cons.IH assms(1) mem_only_trans by blast
qed simp

lemma mem_only_load_page:
  assumes "load_page root elf s va k = Some (st, k')"
  shows "mem_only k k'"
proof -
  define fl where "fl = (if sg_flags s AND 2 \<noteq> 0 then NX_PTE_W else 0) OR (if sg_flags s AND 1 \<noteq> 0 then 0 else NX_PTE_NX)"
  obtain r k1 where k1: "map_new_page root va fl k = Some (r, k1)" "mem_only k1 k'"
    using assms unfolding load_page_def Let_def fl_def [symmetric]
    by (auto split: Option.bind_splits sum.splits if_splits)
  have "mem_only k k1" by (rule mem_only_new_page [OF k1(1)])
  then show ?thesis using k1(2) by (rule mem_only_trans)
qed

lemma mem_only_load_elf:
  assumes "load_elf root elf sz k = Some (r, k')"
  shows "mem_only k k'"
proof -
  obtain st plan where p: "nx_elf_plan_user elf sz elf_plan_zero = Some (st, plan)"
    using assms by (auto simp: load_elf_def split: Option.bind_splits)
  show ?thesis
  proof (cases "st = NX_ELF_OK")
    case True
    then obtain st' where "kwhile_ok (\<lambda>s. kwhile_ok (load_page root elf s) (seg_pages s))
        (take (unat (pl_segment_count plan)) (pl_segments plan)) k = Some (st', k')"
      using assms p by (auto simp: load_elf_def split: Option.bind_splits)
    then show ?thesis by (rule mem_only_kwhile [rotated]) (erule mem_only_kwhile [rotated], erule mem_only_load_page)
  qed (use assms p in \<open>auto simp: load_elf_def\<close>)
qed

lemmas mem_only_ops = mem_only_kpage_alloc mem_only_page_free mem_only_map_in mem_only_map mem_only_unmap_in
  mem_only_unmap mem_only_as_create mem_only_as_destroy

end
