(* ===== verification/Syscalls.thy ===== *)
theory Syscalls
  imports Tasks
begin

text \<open>
  The system calls on tasks, memory objects, endpoints and the sovereign object (kernel/syscall.c). A
  call either returns a number or has switched to another task, in which case the continuation of the
  caller says how it goes on. \<open>t\<close> is the calling task.
\<close>

abbreviation NX_DEBUG_WRITE_MAX :: u64 where "NX_DEBUG_WRITE_MAX \<equiv> 256"
abbreviation NX_SLEEP_MAX :: u64 where "NX_SLEEP_MAX \<equiv> 1000"
abbreviation NX_SPAWN_PATH_MAX :: u64 where "NX_SPAWN_PATH_MAX \<equiv> 64"
abbreviation NX_PROT_READ :: u64 where "NX_PROT_READ \<equiv> 1"
abbreviation NX_PROT_WRITE :: u64 where "NX_PROT_WRITE \<equiv> 2"
abbreviation TASK_READ_MAX :: u64 where "TASK_READ_MAX \<equiv> 4096"
abbreviation EVENT_READ_MAX :: u64 where "EVENT_READ_MAX \<equiv> 32"

definition SOV_TASK_RIGHTS :: u32 where
  "SOV_TASK_RIGHTS = NX_RIGHT_INSPECT OR NX_RIGHT_MANAGE OR NX_RIGHT_DUPLICATE OR NX_RIGHT_TRANSFER"

datatype sysres = S_ret int | S_switch

definition sys_fail :: "nx_error \<Rightarrow> kernel \<Rightarrow> (sysres \<times> kernel) option" where
  "sys_fail st k = Some (S_ret (- nx_errno st), k)"

definition sys_ok :: "int \<Rightarrow> kernel \<Rightarrow> (sysres \<times> kernel) option" where
  "sys_ok r k = Some (S_ret r, k)"

section \<open>User memory\<close>

text \<open>The broken variant reads through the virtual address as the CPU does in supervisor mode.\<close>

fun raw_read :: "nat \<Rightarrow> u64 \<Rightarrow> u64 \<Rightarrow> kernel \<Rightarrow> bytes option" where
  "raw_read 0 root va k = Some []"
| "raw_read (Suc n) root va k =
     (case nx_pt_query root va (k_mem k) of
        Inl st \<Rightarrow> None
      | Inr (pa, flags, sz) \<Rightarrow> do { bs \<leftarrow> raw_read n root (va + 1) k; Some (k_mem k pa # bs) })"

definition copy_in :: "nat \<Rightarrow> u64 \<Rightarrow> u64 \<Rightarrow> kernel \<Rightarrow> (nx_error \<times> bytes) option" where
  "copy_in t va len k =
     (if k_inj_uaccess k then do { bs \<leftarrow> raw_read (unat len) (tk_cr3 (task k t)) va k; Some (NX_OK, bs) }
      else nx_uaccess_copy_in (tk_cr3 (task k t)) va len (k_mem k))"

definition copy_out :: "nat \<Rightarrow> u64 \<Rightarrow> bytes \<Rightarrow> kernel \<Rightarrow> (nx_error \<times> kernel) option" where
  "copy_out t va src k = do {
     (st, m) \<leftarrow> nx_uaccess_copy_out (tk_cr3 (task k t)) va src (of_nat (length src)) (k_mem k);
     Some (st, k\<lparr>k_mem := m\<rparr>) }"

definition check_out :: "nat \<Rightarrow> u64 \<Rightarrow> u64 \<Rightarrow> kernel \<Rightarrow> nx_error option" where
  "check_out t va len k = nx_uaccess_check (tk_cr3 (task k t)) va len True (k_mem k)"

text \<open>Resolving a 64-bit handle argument.\<close>

definition ht_lookup64 :: "nat \<Rightarrow> u64 \<Rightarrow> u32 \<Rightarrow> u32 \<Rightarrow> kernel \<Rightarrow> nx_error + optr \<times> u32" where
  "ht_lookup64 t h type need k =
     (if h > 0xFFFFFFFF then Inl NX_EBADHANDLE else nx_ht_lookup t (ucast h) type need k)"

text \<open>Copies a structure out and returns 0.\<close>

definition copy_struct :: "nat \<Rightarrow> u64 \<Rightarrow> bytes \<Rightarrow> kernel \<Rightarrow> (sysres \<times> kernel) option" where
  "copy_struct t va src k = do {
     (st, k) \<leftarrow> copy_out t va src k;
     if st = NX_OK then sys_ok 0 k else sys_fail st k }"

section \<open>Debug output\<close>

text \<open>The line loop at index \<open>i\<close> with \<open>n\<close> rounds to go; \<open>hdr\<close> is the printed prefix of a line.\<close>

definition debug_char :: "u8 \<Rightarrow> char" where
  "debug_char b = (if b \<ge> 0x20 \<and> b < 0x7F then char_of (unat b) else CHR ''?'')"

fun debug_lines :: "string \<Rightarrow> bytes \<Rightarrow> nat \<Rightarrow> nat \<Rightarrow> nat \<Rightarrow> string" where
  "debug_lines hdr tmp start 0 i = []"
| "debug_lines hdr tmp start (Suc n) i =
     (if i < length tmp \<and> tmp ! i \<noteq> 10 then debug_lines hdr tmp start n (i + 1)
      else if i = length tmp \<and> start = length tmp then []
      else hdr @ nx_serial_write (map debug_char (take (i - start) (drop start tmp))) @ nx_serial_putc (CHR 0x0A)
           @ debug_lines hdr tmp (i + 1) n (i + 1))"

definition sys_debug_write :: "nat \<Rightarrow> u64 \<Rightarrow> u64 \<Rightarrow> kernel \<Rightarrow> (sysres \<times> kernel) option" where
  "sys_debug_write t buf len k =
     (if len > NX_DEBUG_WRITE_MAX then sys_fail NX_EINVAL k else do {
      (st, tmp) \<leftarrow> copy_in t buf len k;
      if st \<noteq> NX_OK then sys_fail st k else do {
      hdr \<leftarrow> nx_printf ''NANOX: USER %s#%u: '' [A_str (Some (c_str (tk_name (task k t)))), A_int (tk_id (task k t))];
      let k = k\<lparr>k_serial := k_serial k @ debug_lines hdr tmp 0 (unat len + 1) 0, k_debug_seq := k_debug_seq k + 1\<rparr>;
      let k = upd_task t (\<lambda>x. x\<lparr>tk_writes := tk_writes x + 1,
                tk_first_write_seq := (if tk_first_write_seq x = 0 then k_debug_seq k else tk_first_write_seq x),
                tk_last_write_seq := k_debug_seq k\<rparr>) k;
      sys_ok (int (unat len)) k } })"

section \<open>Memory objects\<close>

definition sys_vmo_create :: "nat \<Rightarrow> u64 \<Rightarrow> kernel \<Rightarrow> (sysres \<times> kernel) option" where
  "sys_vmo_create t pages k =
     (if pages = 0 \<or> pages > 64 then sys_fail NX_EINVAL k else do {
      (r, k) \<leftarrow> nx_vmo_create (ucast pages) k;
      (case r of
         Inl st \<Rightarrow> sys_fail st k
       | Inr v \<Rightarrow> do {
           let (h, k) = nx_ht_install t (Vmo_obj v)
             (NX_RIGHT_READ OR NX_RIGHT_WRITE OR NX_RIGHT_MAP OR NX_RIGHT_TRANSFER OR NX_RIGHT_DUPLICATE) k;
           k \<leftarrow> nx_obj_unref (Vmo_obj v) k;
           (case h of Inr h \<Rightarrow> sys_ok (int (unat h)) k | Inl st \<Rightarrow> sys_fail st k) }) })"

text \<open>The mapping loop of \<open>sys_vmo_map\<close> over the frames from page \<open>i\<close>; on failure the pages mapped so far are unmapped.\<close>

fun vmo_map_loop :: "u64 \<Rightarrow> u64 \<Rightarrow> u64 \<Rightarrow> nat \<Rightarrow> u64 list \<Rightarrow> kernel \<Rightarrow> bool \<times> kernel" where
  "vmo_map_loop root va flags i [] k = (True, k)"
| "vmo_map_loop root va flags i (pa # pas) k =
     (case nx_vmm_map_page_in root (va + of_nat i * NX_PAGE_4K) pa flags k of
        (st, k) \<Rightarrow>
          if st \<noteq> NX_PT_OK
          then (False, fold (\<lambda>j k. snd (nx_vmm_unmap_page_in root (va + of_nat j * NX_PAGE_4K) k)) [0..<i] k)
          else vmo_map_loop root va flags (Suc i) pas k)"

definition sys_vmo_map :: "nat \<Rightarrow> u64 \<Rightarrow> u64 \<Rightarrow> u64 \<Rightarrow> kernel \<Rightarrow> (sysres \<times> kernel) option" where
  "sys_vmo_map t h va prot k =
     (if prot = 0 \<or> prot AND NOT (NX_PROT_READ OR NX_PROT_WRITE) \<noteq> 0 then sys_fail NX_EINVAL k
      else let need = NX_RIGHT_MAP OR NX_RIGHT_READ OR (if prot AND NX_PROT_WRITE \<noteq> 0 then NX_RIGHT_WRITE else 0) in
      case ht_lookup64 t h NX_OBJ_VMO need k of
        Inr (Vmo_obj vi, _) \<Rightarrow>
          let v = k_vmos k ! vi; len = ucast (vm_pages v) * NX_PAGE_4K; cr3 = tk_cr3 (task k t);
              phys = take (unat (vm_pages v)) (vm_phys v) in
          if va AND (NX_PAGE_4K - 1) \<noteq> 0 then sys_fail NX_EINVAL k
          else if \<not> nx_user_range_ok va len then sys_fail NX_ERANGE k
          else (case find (\<lambda>i. mp_vmo (tk_maps (task k t) ! i) = None) [0..<NX_TASK_MAPS] of
            None \<Rightarrow> sys_fail NX_ENOMEM k
          | Some slot \<Rightarrow>
              if list_ex (\<lambda>i. \<not> isl (nx_vmm_query_in cr3 (va + of_nat i * NX_PAGE_4K) k)) [0..<unat (vm_pages v)]
              then sys_fail NX_EEXISTS k
              else (case vmo_map_loop cr3 va (NX_PTE_U OR NX_PTE_NX OR (if prot AND NX_PROT_WRITE \<noteq> 0 then NX_PTE_W else 0))
                           0 phys k of
                 (False, k) \<Rightarrow> sys_fail NX_ENOMEM k
               | (True, k) \<Rightarrow>
                   sys_ok 0 (upd_task t (\<lambda>x. x\<lparr>tk_maps := (tk_maps x)[slot := \<lparr>mp_vmo = Some vi, mp_va = va,
                       mp_pages = vm_pages v\<rparr>]\<rparr>) (nx_obj_ref (Vmo_obj vi) k))))
      | Inr _ \<Rightarrow> None
      | Inl st \<Rightarrow> sys_fail st k)"

section \<open>Messages\<close>

text \<open>The transferred handle of a message: the object and the rights of the message.\<close>

definition ipc_take :: "nat \<Rightarrow> u64 \<Rightarrow> u64 \<Rightarrow> kernel \<Rightarrow> (nx_error + (optr \<times> u32 \<times> u32)) \<times> kernel" where
  "ipc_take t h rights k =
     (if h > 0xFFFFFFFF then (Inl NX_EBADHANDLE, k)
      else if rights > 0xFFFFFFFF then (Inl NX_EACCESS, k)
      else case nx_ht_lookup t (ucast h) NX_OBJ_ANY NX_RIGHT_TRANSFER k of
        Inl st \<Rightarrow> (Inl st, k)
      | Inr (xo, have) \<Rightarrow>
          if ucast rights AND NOT have \<noteq> 0 then (Inl NX_EACCESS, k)
          else if ob_type (obj k xo) \<noteq> NX_OBJ_VMO \<and> ob_type (obj k xo) \<noteq> NX_OBJ_TASK then (Inl NX_EINVAL, k)
          else case nx_ht_take t (ucast h) (ucast rights) k of
            (Inl st, k) \<Rightarrow> (Inl st, k)
          | (Inr xo, k) \<Rightarrow> (Inr (xo, have, if k_inj_overgrant k then have else ucast rights), k))"

text \<open>The push and the wake-up at the end of \<open>sys_ipc_send\<close>.\<close>

definition ipc_deliver :: "nat \<Rightarrow> nx_ipc_msg \<Rightarrow> kernel \<Rightarrow> kernel" where
  "ipc_deliver e m k =
     (let k = upd_ep e (\<lambda>s. s\<lparr>es_ep := snd (nx_ep_push (es_ep s) m)\<rparr>) k in
      case ep_waiter (es_ep (k_eps k ! e)) of
        None \<Rightarrow> k
      | Some w \<Rightarrow> nx_task_wake w (upd_ep e (\<lambda>s. s\<lparr>es_ep := (es_ep s)\<lparr>ep_waiter := None\<rparr>\<rparr>) k))"

definition trace_send :: "nat \<Rightarrow> u32 \<Rightarrow> (optr \<times> u32 \<times> u32) option \<Rightarrow> u64 \<Rightarrow> kernel \<Rightarrow> kernel option" where
  "trace_send t len x rights k =
     (if \<not> k_trace_ipc k then Some k
      else case x of
        None \<Rightarrow> kprintf (''NANOX: ipc send by %s#%u len=%u handle=none'' @ NL)
          [A_str (Some (c_str (tk_name (task k t)))), A_int (tk_id (task k t)), A_int len] k
      | Some (xo, have, queued) \<Rightarrow>
          kprintf (''NANOX: ipc send by %s#%u len=%u handle=%s sender_rights=0x%x requested=0x%x queued=0x%x'' @ NL)
          [A_str (Some (c_str (tk_name (task k t)))), A_int (tk_id (task k t)), A_int len,
           A_str (Some (if ob_type (obj k xo) = NX_OBJ_VMO then ''vmo'' else ''task'')),
           A_int have, A_int (ucast rights), A_int queued] k)"

definition sys_ipc_send :: "nat \<Rightarrow> u64 \<Rightarrow> u64 \<Rightarrow> u64 \<Rightarrow> u64 \<Rightarrow> u64 \<Rightarrow> kernel \<Rightarrow> (sysres \<times> kernel) option" where
  "sys_ipc_send t eh buf len h rights k =
     (case ht_lookup64 t eh NX_OBJ_ENDPOINT NX_RIGHT_SEND k of
        Inr (Ep_obj e, _) \<Rightarrow>
          if len > 128 then sys_fail NX_EINVAL k
          else if ep_count (es_ep (k_eps k ! e)) = NX_IPC_QUEUE then sys_fail NX_EFULL k
          else do {
            (st, bs) \<leftarrow> copy_in t buf len k;
            if st \<noteq> NX_OK then sys_fail st k else do {
            let m = msg_zero\<lparr>im_len := ucast len, im_sender_task := tk_id (task k t),
                      im_data := bs @ replicate (unat NX_IPC_MSG_MAX - length bs) 0\<rparr>;
            if h \<noteq> 0 then
              (case ipc_take t h rights k of
                 (Inl st, k) \<Rightarrow> sys_fail st k
               | (Inr (xo, have, q), k) \<Rightarrow> do {
                   k \<leftarrow> trace_send t (ucast len) (Some (xo, have, q)) rights k;
                   sys_ok 0 (ipc_deliver e (m\<lparr>im_obj := Some xo, im_rights := q\<rparr>) k) })
            else do {
              k \<leftarrow> trace_send t (ucast len) None rights k;
              sys_ok 0 (ipc_deliver e m k) } } }
      | Inr _ \<Rightarrow> None
      | Inl st \<Rightarrow> sys_fail st k)"

text \<open>Taking the message \<open>m\<close> off the endpoint once the receiver's buffers are checked.\<close>

definition ipc_accept :: "nat \<Rightarrow> nat \<Rightarrow> nx_ipc_msg \<Rightarrow> u64 \<Rightarrow> u64 \<Rightarrow> kernel \<Rightarrow> (sysres \<times> kernel) option" where
  "ipc_accept t e m buf info_va k = do {
     (r, k) \<leftarrow> (case im_obj m of
         None \<Rightarrow> Some (Inr (0, 0), k)
       | Some p \<Rightarrow>
           (case nx_ht_install t p (im_rights m) k of
              (Inl st, k) \<Rightarrow> Some (Inl st, k)
            | (Inr h, k) \<Rightarrow> do { k \<leftarrow> nx_obj_unref p k; Some (Inr (h, im_rights m), k) }));
     (case r of
        Inl st \<Rightarrow> sys_fail st k
      | Inr (h, rights) \<Rightarrow> do {
          (_, k) \<leftarrow> copy_out t buf (take (unat (im_len m)) (im_data m)) k;
          (_, k) \<leftarrow> copy_out t info_va (le_enc 4 (im_len m) @ le_enc 4 h @ le_enc 4 rights @ le_enc 4 (im_sender_task m)) k;
          k \<leftarrow> (if k_trace_ipc k
                then kprintf (''NANOX: ipc recv by %s#%u len=%u from=#%u handle=0x%x rights=0x%x'' @ NL)
                  [A_str (Some (c_str (tk_name (task k t)))), A_int (tk_id (task k t)), A_int (im_len m),
                   A_int (im_sender_task m), A_int h, A_int rights] k
                else Some k);
          sys_ok (int (unat (im_len m))) (upd_ep e (\<lambda>s. s\<lparr>es_ep := nx_ep_pop (es_ep s)\<rparr>) k) }) }"

text \<open>One round of the loop of \<open>sys_ipc_recv\<close>; a blocked receiver runs it again when it is woken.\<close>

definition sys_ipc_recv :: "nat \<Rightarrow> u64 \<Rightarrow> u64 \<Rightarrow> u64 \<Rightarrow> u64 \<Rightarrow> kernel \<Rightarrow> (sysres \<times> kernel) option" where
  "sys_ipc_recv t eh buf cap info_va k =
     (case ht_lookup64 t eh NX_OBJ_ENDPOINT NX_RIGHT_RECV k of
        Inr (Ep_obj e, _) \<Rightarrow>
          (case nx_ep_peek (es_ep (k_eps k ! e)) of
             None \<Rightarrow>
               (case ep_waiter (es_ep (k_eps k ! e)) of
                  Some w \<Rightarrow> if w \<noteq> t then sys_fail NX_EFULL k
                            else do { k \<leftarrow> nx_task_block (On_ep e) (K_Recv eh buf cap info_va) k; Some (S_switch, k) }
                | None \<Rightarrow> do {
                    k \<leftarrow> nx_task_block (On_ep e) (K_Recv eh buf cap info_va)
                          (upd_ep e (\<lambda>s. s\<lparr>es_ep := (es_ep s)\<lparr>ep_waiter := Some t\<rparr>\<rparr>) k);
                    Some (S_switch, k) })
           | Some m \<Rightarrow>
               if ucast (im_len m) > cap then sys_fail NX_EINVAL k
               else do {
                 st \<leftarrow> check_out t buf (ucast (im_len m)) k;
                 st \<leftarrow> (if st = NX_OK then check_out t info_va 16 k else Some st);
                 if st \<noteq> NX_OK then sys_fail st k else ipc_accept t e m buf info_va k })
      | Inr _ \<Rightarrow> None
      | Inl st \<Rightarrow> sys_fail st k)"

section \<open>Tasks through handles\<close>

definition open_task :: "nat \<Rightarrow> u64 \<Rightarrow> u32 \<Rightarrow> kernel \<Rightarrow> (nx_error + nat) option" where
  "open_task t h need k =
     (case ht_lookup64 t h NX_OBJ_TASK need k of
        Inl st \<Rightarrow> Some (Inl st)
      | Inr (Task_obj i, _) \<Rightarrow>
          Some (if tk_state (task k i) = NX_TASK_DEAD \<or> tk_state (task k i) = NX_TASK_REAPED then Inl NX_EDEAD else Inr i)
      | Inr _ \<Rightarrow> None)"

definition sys_sov_task_open :: "nat \<Rightarrow> u64 \<Rightarrow> u64 \<Rightarrow> kernel \<Rightarrow> (sysres \<times> kernel) option" where
  "sys_sov_task_open t sh tid k =
     (case ht_lookup64 t sh NX_OBJ_SOVEREIGN NX_RIGHT_SOVEREIGN k of
        Inl st \<Rightarrow> sys_fail st k
      | Inr _ \<Rightarrow>
          (case (if tid \<le> 0xFFFFFFFF then nx_task_by_id (ucast tid) k else None) of
             None \<Rightarrow> sys_fail NX_EINVAL k
           | Some i \<Rightarrow>
               if \<not> tk_user (task k i) then sys_fail NX_EINVAL k
               else if tk_state (task k i) = NX_TASK_DEAD \<or> tk_state (task k i) = NX_TASK_REAPED then sys_fail NX_EDEAD k
               else (case nx_ht_install t (Task_obj i) SOV_TASK_RIGHTS k of
                       (Inr h, k) \<Rightarrow> sys_ok (int (unat h)) k | (Inl st, k) \<Rightarrow> sys_fail st k)))"

definition sys_task_read :: "nat \<Rightarrow> u64 \<Rightarrow> u64 \<Rightarrow> u64 \<Rightarrow> u64 \<Rightarrow> kernel \<Rightarrow> (sysres \<times> kernel) option" where
  "sys_task_read t th va buf len k = do {
     r \<leftarrow> open_task t th NX_RIGHT_INSPECT k;
     (case r of
        Inl st \<Rightarrow> sys_fail st k
      | Inr target \<Rightarrow>
          if len > TASK_READ_MAX then sys_fail NX_EINVAL k else do {
          st \<leftarrow> check_out t buf len k;
          if st \<noteq> NX_OK then sys_fail st k else do {
          (st, bs) \<leftarrow> nx_uaccess_copy_in (tk_cr3 (task k target)) va len (k_mem k);
          if st \<noteq> NX_OK then sys_fail st k else do {
          (_, k) \<leftarrow> copy_out t buf bs k;
          sys_ok (int (unat len)) k } } }) }"

definition sys_task_kill :: "nat \<Rightarrow> u64 \<Rightarrow> kernel \<Rightarrow> (sysres \<times> kernel) option" where
  "sys_task_kill t th k = do {
     r \<leftarrow> open_task t th NX_RIGHT_MANAGE k;
     (case r of
        Inl st \<Rightarrow> sys_fail st k
      | Inr target \<Rightarrow>
          if k_inj_kill k then sys_ok 0 k else do {
          (gone, k) \<leftarrow> nx_task_terminate target NX_END_KILLED (tk_id (task k t)) k;
          if gone then Some (S_switch, k) else sys_ok 0 k }) }"

section \<open>The control interface\<close>

definition sovereign_check :: "nat \<Rightarrow> u64 \<Rightarrow> kernel \<Rightarrow> nx_error" where
  "sovereign_check t sh k =
     (case ht_lookup64 t sh NX_OBJ_SOVEREIGN NX_RIGHT_SOVEREIGN k of Inl st \<Rightarrow> st | Inr _ \<Rightarrow> NX_OK)"

definition sys_sleep :: "u64 \<Rightarrow> kernel \<Rightarrow> (sysres \<times> kernel) option" where
  "sys_sleep ticks k =
     (if ticks > NX_SLEEP_MAX then sys_fail NX_EINVAL k
      else do { k \<leftarrow> (if ticks = 0 then nx_yield (K_Ret 0) k else nx_task_sleep ticks (K_Ret 0) k); Some (S_switch, k) })"

definition sys_info_bytes :: "kernel \<Rightarrow> bytes" where
  "sys_info_bytes k =
     le_enc 8 (k_boot_id k) @ le_enc 8 (k_ticks k) @ le_enc 4 (100 :: u32) @ le_enc 4 (nx_task_live_count k)
     @ le_enc 8 (pm_free_pages (k_pmm k)) @ le_enc 8 (pm_managed_pages (k_pmm k)) @ le_enc 8 (nx_vmm_tables k)
     @ le_enc 8 (el_next (k_events k)) @ le_enc 4 (nx_task_next_id k) @ le_enc 4 (0 :: u32)"

definition sys_sys_info :: "nat \<Rightarrow> u64 \<Rightarrow> kernel \<Rightarrow> (sysres \<times> kernel) option" where
  "sys_sys_info t va k = copy_struct t va (sys_info_bytes k) k"

definition spawn_path_ok :: "bytes \<Rightarrow> bool" where
  "spawn_path_ok path \<longleftrightarrow> take 4 path = [0x62, 0x69, 0x6E, 0x2F]
     \<and> list_all (\<lambda>c. (0x61 \<le> c \<and> c \<le> 0x7A) \<or> (0x30 \<le> c \<and> c \<le> 0x39) \<or> c = 0x2D \<or> c = 0x5F) (drop 4 path)"

text \<open>The regular file of the initramfs with the given path.\<close>

definition spawn_find :: "bytes \<Rightarrow> kernel \<Rightarrow> (bytes option) option" where
  "spawn_find path k =
     (case k_initramfs k of
        None \<Rightarrow> Some None
      | Some base \<Rightarrow> do {
          (st, e) \<leftarrow> nx_cpio_find base (of_nat (length base)) (path @ [0]) ce_blank;
          if st \<noteq> NX_CPIO_OK \<or> ce_mode e AND NX_CPIO_MODE_TYPE \<noteq> NX_CPIO_MODE_REG then Some None
          else Some (Some (take (unat (ce_size e)) (drop (unat (ce_data e)) base))) })"

definition sys_sov_task_spawn :: "nat \<Rightarrow> u64 \<Rightarrow> u64 \<Rightarrow> u64 \<Rightarrow> u64 \<Rightarrow> kernel \<Rightarrow> (sysres \<times> kernel) option" where
  "sys_sov_task_spawn t sh path_va path_len args_va k =
     (let st = sovereign_check t sh k in
      if st \<noteq> NX_OK then sys_fail st k
      else if path_len < 5 \<or> path_len > NX_SPAWN_PATH_MAX then sys_fail NX_EINVAL k else do {
      (st, path) \<leftarrow> copy_in t path_va path_len k;
      (st, args) \<leftarrow> (if st = NX_OK \<and> args_va \<noteq> 0 then copy_in t args_va 32 k else Some (st, replicate 32 0));
      if st \<noteq> NX_OK then sys_fail st k
      else if \<not> spawn_path_ok path then sys_fail NX_EINVAL k else do {
      file \<leftarrow> spawn_find path k;
      (case file of
         None \<Rightarrow> sys_fail NX_ENOENT k
       | Some elf \<Rightarrow>
           if nx_ht_count (tk_handles (task k t)) \<ge> NX_HANDLE_SLOTS then sys_fail NX_ENOMEM k else do {
           (r, k) \<leftarrow> nx_utask_create (drop 4 path @ [0]) elf (of_nat (length elf))
                      (map (\<lambda>i. le_dec (take 8 (drop (8 * i) args))) [0..<4]) k;
           (case r of
              Inl st \<Rightarrow> sys_fail st k
            | Inr n \<Rightarrow>
                (case nx_ht_install t (Task_obj n) SOV_TASK_RIGHTS k of
                   (Inl st, k) \<Rightarrow> None
                 | (Inr h, k) \<Rightarrow> sys_ok (int (unat h)) (nx_task_start n k))) }) } })"

definition sys_task_info :: "nat \<Rightarrow> u64 \<Rightarrow> u64 \<Rightarrow> kernel \<Rightarrow> (sysres \<times> kernel) option" where
  "sys_task_info t th va k =
     (case ht_lookup64 t th NX_OBJ_TASK NX_RIGHT_INSPECT k of
        Inl st \<Rightarrow> sys_fail st k
      | Inr (Task_obj i, _) \<Rightarrow> copy_struct t va (nx_task_fill_info (task k i)) k
      | Inr _ \<Rightarrow> None)"

definition sys_sov_task_list :: "nat \<Rightarrow> u64 \<Rightarrow> u64 \<Rightarrow> u64 \<Rightarrow> kernel \<Rightarrow> (sysres \<times> kernel) option" where
  "sys_sov_task_list t sh va cap k =
     (let st = sovereign_check t sh k in
      if st \<noteq> NX_OK then sys_fail st k
      else if cap > of_nat NX_TASK_MAX then sys_fail NX_EINVAL k
      else do {
        let list = nx_task_list k;
        let n = length list;
        let copy = (if n < unat cap then n else unat cap);
        (st, k) \<leftarrow> (if copy \<noteq> 0 then copy_out t va (concat (take copy list)) k else Some (NX_OK, k));
        if st = NX_OK then sys_ok (int n) k else sys_fail st k })"

definition event_bytes :: "nx_event \<Rightarrow> bytes" where
  "event_bytes e = le_enc 8 (ev_seq e) @ le_enc 8 (ev_tick e) @ le_enc 4 (ev_type e) @ le_enc 4 (ev_task e) @ le_enc 8 (ev_arg e)"

definition sys_sov_event_read :: "nat \<Rightarrow> u64 \<Rightarrow> u64 \<Rightarrow> u64 \<Rightarrow> u64 \<Rightarrow> kernel \<Rightarrow> (sysres \<times> kernel) option" where
  "sys_sov_event_read t sh since va cap k =
     (let st = sovereign_check t sh k in
      if st \<noteq> NX_OK then sys_fail st k
      else if cap = 0 \<or> cap > EVENT_READ_MAX then sys_fail NX_EINVAL k else do {
      st \<leftarrow> check_out t va (cap * 32) k;
      if st \<noteq> NX_OK then sys_fail st k else do {
      let ev = nx_evlog_read (k_events k) since (ucast cap);
      (_, k) \<leftarrow> (if ev \<noteq> [] then copy_out t va (concat (map event_bytes ev)) k else Some (NX_OK, k));
      sys_ok (int (length ev)) k } })"

end
