(* ===== verification/Blk.thy ===== *)
theory Blk
  imports Vmm
begin

text \<open>
  The block device object and its crash-test layer (kernel/dev/blk.c) over the virtio-blk driver, whose
  requests are the parameters \<open>vread\<close>, \<open>vwrite\<close> and \<open>vflush\<close> on a device state. Blocks of the emulated
  volatile cache live in pages of physical memory. An operation that is the crash point stops the machine:
  its result is then the device as the crash leaves it.
\<close>

abbreviation NX_BLK_SIZE :: nat where "NX_BLK_SIZE \<equiv> 4096"
abbreviation NX_BLK_IO_MAX :: u32 where "NX_BLK_IO_MAX \<equiv> 8"
abbreviation NX_BLK_CACHE_PAGES :: nat where "NX_BLK_CACHE_PAGES \<equiv> 128"
abbreviation SECTORS_PER_BLOCK :: u64 where "SECTORS_PER_BLOCK \<equiv> 8"

datatype nx_blk_lose = NX_LOSE_ALL | NX_LOSE_NONE | NX_LOSE_TORN | NX_LOSE_REORDER

text \<open>
  \<open>vread\<close> reads whole sectors (None: the request failed), \<open>vwrite\<close> writes the given bytes and \<open>vflush\<close>
  flushes (False: it failed).
\<close>

record 'd nx_vblk =
  vb_read :: "u64 \<Rightarrow> u32 \<Rightarrow> 'd \<Rightarrow> bytes option \<times> 'd"
  vb_write :: "u64 \<Rightarrow> bytes \<Rightarrow> 'd \<Rightarrow> bool \<times> 'd"
  vb_flush :: "'d \<Rightarrow> bool \<times> 'd"

text \<open>
  The device object, the test layer and its cache. \<open>bl_cache\<close> holds the first \<open>cache_n\<close> entries of the
  cache array and \<open>bl_free\<close> the first \<open>free_n\<close> entries of the stack of free pages.
\<close>

record nx_blk =
  bl_blocks :: u64
  bl_reads :: u64
  bl_writes :: u64
  bl_flushes :: u64
  bl_read_only :: bool
  bl_has_flush :: bool
  bl_serial :: bytes
  bl_enabled :: bool
  bl_volatile_cache :: bool
  bl_flush_noop :: bool
  bl_crash_at :: u32
  bl_lose :: nx_blk_lose
  bl_ops :: u32
  bl_cache :: "(u64 \<times> u64) list"
  bl_free :: "u64 list"
  bl_pool_ready :: bool

definition nx_blk_lose_name :: "nx_blk_lose \<Rightarrow> string" where
  "nx_blk_lose_name l =
     (case l of NX_LOSE_ALL \<Rightarrow> ''all'' | NX_LOSE_NONE \<Rightarrow> ''none'' | NX_LOSE_TORN \<Rightarrow> ''torn'' | NX_LOSE_REORDER \<Rightarrow> ''reorder'')"

definition nx_blk_pending :: "nx_blk \<Rightarrow> nat" where
  "nx_blk_pending b = length (bl_cache b)"

text \<open>The state of an operation: the device object, the kernel (memory and allocator) and the device.\<close>

type_synonym 'd blk_state = "nx_blk \<times> kernel \<times> 'd"

fun blk_setup_loop :: "nat \<Rightarrow> nx_blk \<Rightarrow> kernel \<Rightarrow> (nx_blk \<times> kernel) option" where
  "blk_setup_loop 0 b k = Some (b, k)"
| "blk_setup_loop (Suc n) b k = do {
     (pa, k) \<leftarrow> nx_page_alloc k;
     blk_setup_loop n (b\<lparr>bl_free := bl_free b @ [pa]\<rparr>) k }"

definition nx_blk_test_setup :: "nx_blk \<Rightarrow> kernel \<Rightarrow> (nx_blk \<times> kernel) option" where
  "nx_blk_test_setup b k =
     (if bl_pool_ready b then Some (b, k) else do {
      (b, k) \<leftarrow> blk_setup_loop NX_BLK_CACHE_PAGES b k;
      Some (b\<lparr>bl_pool_ready := True\<rparr>, k) })"

section \<open>Device access\<close>

text \<open>\<open>dev_write\<close> and \<open>dev_flush\<close> of blk.c.\<close>

definition blk_dev_write :: "'d nx_vblk \<Rightarrow> u64 \<Rightarrow> bytes \<Rightarrow> 'd \<Rightarrow> nx_error \<times> 'd" where
  "blk_dev_write hw blk src d = (let (ok, d) = vb_write hw (blk * SECTORS_PER_BLOCK) src d in (if ok then NX_OK else NX_EIO, d))"

definition blk_dev_flush :: "'d nx_vblk \<Rightarrow> 'd \<Rightarrow> nx_error \<times> 'd" where
  "blk_dev_flush hw d = (let (ok, d) = vb_flush hw d in (if ok then NX_OK else NX_EIO, d))"

definition cache_writeback :: "'d nx_vblk \<Rightarrow> nat \<Rightarrow> 'd blk_state \<Rightarrow> nx_error \<times> 'd" where
  "cache_writeback hw i = (\<lambda>(b, k, d).
     let (blk, pa) = bl_cache b ! i in blk_dev_write hw blk (rd_bytes (k_mem k) pa NX_BLK_SIZE) d)"

definition cache_evict_oldest :: "'d nx_vblk \<Rightarrow> 'd blk_state \<Rightarrow> nx_error \<times> 'd blk_state" where
  "cache_evict_oldest hw = (\<lambda>(b, k, d).
     let (st, d) = cache_writeback hw 0 (b, k, d) in
     (st, b\<lparr>bl_free := bl_free b @ [snd (bl_cache b ! 0)], bl_cache := tl (bl_cache b)\<rparr>, k, d))"

section \<open>Crash point\<close>

text \<open>What reaches the device at a crash point before the machine stops.\<close>

definition crash_keeps :: "nx_blk_lose \<Rightarrow> bool \<Rightarrow> bool" where
  "crash_keeps l newest \<longleftrightarrow> l = NX_LOSE_NONE \<or> (l = NX_LOSE_TORN \<and> \<not> newest) \<or> (l = NX_LOSE_REORDER \<and> newest)"

definition blk_crash :: "'d nx_vblk \<Rightarrow> 'd blk_state \<Rightarrow> 'd" where
  "blk_crash hw = (\<lambda>(b, k, d).
     let d = fold (\<lambda>i d.
       let newest = (i + 1 = length (bl_cache b)) in
       if crash_keeps (bl_lose b) newest then snd (cache_writeback hw i (b, k, d))
       else if bl_lose b = NX_LOSE_TORN \<and> newest then
         (let (blk, pa) = bl_cache b ! i in
          snd (vb_write hw (blk * SECTORS_PER_BLOCK) (rd_bytes (k_mem k) pa (NX_BLK_SIZE div 2)) d))
       else d) [0..<length (bl_cache b)] d
     in if bl_has_flush b then snd (vb_flush hw d) else d)"

text \<open>Counts the operation; \<open>Inl d\<close> when it is the crash point, with the device as the crash leaves it.\<close>

definition count_op :: "'d nx_vblk \<Rightarrow> string \<Rightarrow> u64 \<Rightarrow> u32 \<Rightarrow> 'd blk_state \<Rightarrow> ('d + 'd blk_state) option" where
  "count_op hw op blk count = (\<lambda>(b, k, d).
     if \<not> bl_enabled b then Some (Inr (b, k, d))
     else let b = b\<lparr>bl_ops := bl_ops b + 1\<rparr> in
     if bl_crash_at b \<noteq> 0 \<and> bl_ops b = bl_crash_at b then Some (Inl (blk_crash hw (b, k, d)))
     else do {
       k \<leftarrow> (if count \<noteq> 0
             then kprintf (''NANOX: m4 io %u %s blk=%lu n=%u pending=%u'' @ NL)
               [A_int (bl_ops b), A_str (Some op), A_long blk, A_int count, A_int (of_nat (length (bl_cache b)))] k
             else kprintf (''NANOX: m4 io %u %s pending=%u%s'' @ NL)
               [A_int (bl_ops b), A_str (Some op), A_int (of_nat (length (bl_cache b))),
                A_str (Some (if bl_flush_noop b then '' noop'' else ''''))] k);
       Some (Inr (b, k, d)) })"

section \<open>Operations\<close>

definition blk_args_bad :: "nx_blk \<Rightarrow> u64 \<Rightarrow> u32 \<Rightarrow> bool" where
  "blk_args_bad b blk count \<longleftrightarrow> count = 0 \<or> count > NX_BLK_IO_MAX \<or> blk \<ge> bl_blocks b \<or> ucast count > bl_blocks b - blk"

text \<open>The newer data of the cache, oldest entry first.\<close>

definition cache_overlay :: "pmem \<Rightarrow> u64 \<Rightarrow> u32 \<Rightarrow> (u64 \<times> u64) list \<Rightarrow> bytes \<Rightarrow> bytes" where
  "cache_overlay m blk count = fold (\<lambda>(cb, pa) dst.
     if cb \<ge> blk \<and> cb < blk + ucast count
     then (let o' = unat (cb - blk) * NX_BLK_SIZE in take o' dst @ rd_bytes m pa NX_BLK_SIZE @ drop (o' + NX_BLK_SIZE) dst)
     else dst)"

definition nx_blk_read :: "'d nx_vblk \<Rightarrow> u64 \<Rightarrow> u32 \<Rightarrow> 'd blk_state \<Rightarrow> (nx_error \<times> bytes) \<times> 'd blk_state" where
  "nx_blk_read hw blk count = (\<lambda>(b, k, d).
     if blk_args_bad b blk count then ((NX_EINVAL, []), b, k, d)
     else case vb_read hw (blk * SECTORS_PER_BLOCK) (count * of_nat NX_BLK_SIZE) d of
       (None, d) \<Rightarrow> ((NX_EIO, []), b, k, d)
     | (Some dst, d) \<Rightarrow>
         ((NX_OK, cache_overlay (k_mem k) blk count (bl_cache b) dst), b\<lparr>bl_reads := bl_reads b + 1\<rparr>, k, d))"

text \<open>The cache loop of \<open>nx_blk_write\<close>: block \<open>blk\<close> and the following ones, one block of data each.\<close>

fun cache_put :: "'d nx_vblk \<Rightarrow> u64 \<Rightarrow> bytes list \<Rightarrow> 'd blk_state \<Rightarrow> nx_error \<times> 'd blk_state" where
  "cache_put hw blk [] s = (NX_OK, s)"
| "cache_put hw blk (x # xs) s =
     (let (st, b, k, d) = (if bl_free (fst s) = [] then cache_evict_oldest hw s else (NX_OK, s)) in
      if st \<noteq> NX_OK then (NX_EIO, b, k, d)
      else let pa = last (bl_free b) in
      cache_put hw (blk + 1) xs
        (b\<lparr>bl_free := butlast (bl_free b), bl_cache := bl_cache b @ [(blk, pa)]\<rparr>, k\<lparr>k_mem := wr_bytes (k_mem k) pa x\<rparr>, d))"

text \<open>The blocks of a buffer.\<close>

definition buf_blocks :: "u32 \<Rightarrow> bytes \<Rightarrow> bytes list" where
  "buf_blocks count src = map (\<lambda>i. take NX_BLK_SIZE (drop (i * NX_BLK_SIZE) src)) [0..<unat count]"

definition nx_blk_write :: "'d nx_vblk \<Rightarrow> u64 \<Rightarrow> u32 \<Rightarrow> bytes \<Rightarrow> 'd blk_state \<Rightarrow> ('d + nx_error \<times> 'd blk_state) option" where
  "nx_blk_write hw blk count src = (\<lambda>(b, k, d).
     if blk_args_bad b blk count then Some (Inr (NX_EINVAL, b, k, d))
     else if bl_read_only b then Some (Inr (NX_EIO, b, k, d))
     else do {
       r \<leftarrow> count_op hw ''write'' blk count (b, k, d);
       (case r of
          Inl d \<Rightarrow> Some (Inl d)
        | Inr (b, k, d) \<Rightarrow>
            let b = b\<lparr>bl_writes := bl_writes b + 1\<rparr> in
            if \<not> (bl_enabled b \<and> bl_volatile_cache b \<and> bl_pool_ready b)
            then (let (st, d) = blk_dev_write hw blk (take (unat count * NX_BLK_SIZE) src) d in Some (Inr (st, b, k, d)))
            else Some (Inr (cache_put hw blk (buf_blocks count src) (b, k, d)))) })"

fun flush_loop :: "'d nx_vblk \<Rightarrow> nat list \<Rightarrow> 'd blk_state \<Rightarrow> nx_error \<times> 'd" where
  "flush_loop hw [] (b, k, d) = (NX_OK, d)"
| "flush_loop hw (i # is) (b, k, d) =
     (let (st, d) = cache_writeback hw i (b, k, d) in if st \<noteq> NX_OK then (NX_EIO, d) else flush_loop hw is (b, k, d))"

definition nx_blk_flush :: "'d nx_vblk \<Rightarrow> 'd blk_state \<Rightarrow> ('d + nx_error \<times> 'd blk_state) option" where
  "nx_blk_flush hw s = do {
     r \<leftarrow> count_op hw ''flush'' 0 0 s;
     (case r of
        Inl d \<Rightarrow> Some (Inl d)
      | Inr (b, k, d) \<Rightarrow>
          let b = b\<lparr>bl_flushes := bl_flushes b + 1\<rparr> in
          if bl_enabled b \<and> bl_flush_noop b then Some (Inr (NX_OK, b, k, d))
          else if bl_enabled b \<and> bl_volatile_cache b then
            (case flush_loop hw [0..<length (bl_cache b)] (b, k, d) of
               (st, d) \<Rightarrow>
                 if st \<noteq> NX_OK then Some (Inr (NX_EIO, b, k, d))
                 else let b = b\<lparr>bl_free := bl_free b @ map snd (bl_cache b), bl_cache := []\<rparr>;
                          (st, d) = blk_dev_flush hw d in Some (Inr (st, b, k, d)))
          else (let (st, d) = blk_dev_flush hw d in Some (Inr (st, b, k, d)))) }"

end
