(* ===== verification/Civil.thy ===== *)
theory Civil
  imports Nx_Prelude "HOL-Library.Signed_Division"
begin

text \<open>
  Calendar dates as seconds since 1970 (lib/include/nanox/civil.h), used by the clock and by the
  certificate parser. Signed 64-bit numbers are integers, C division truncates; the 32-bit fields wrap.
  The reference counts the days of the years and months before the date.
\<close>

definition nx_days_from_civil :: "int \<Rightarrow> u32 \<Rightarrow> u32 \<Rightarrow> int" where
  "nx_days_from_civil y m d =
     (let y = y - (if m \<le> 2 then 1 else 0);
          era = (if y \<ge> 0 then y else y - 399) sdiv 400;
          yoe = word_of_int (y - era * 400) :: u32;
          doy = (153 * (if m > 2 then m - 3 else m + 9) + 2) div 5 + d - 1;
          doe = yoe * 365 + yoe div 4 - yoe div 100 + doy in
      era * 146097 + uint doe - 719468)"

definition nx_unix_time :: "int \<Rightarrow> u32 \<Rightarrow> u32 \<Rightarrow> u32 \<Rightarrow> u32 \<Rightarrow> u32 \<Rightarrow> int" where
  "nx_unix_time y mo d h mi s = nx_days_from_civil y mo d * 86400 + uint h * 3600 + uint mi * 60 + uint s"

section \<open>The calendar\<close>

definition leap :: "nat \<Rightarrow> bool" where
  "leap y \<longleftrightarrow> 4 dvd y \<and> (\<not> 100 dvd y \<or> 400 dvd y)"

definition month_days :: "nat \<Rightarrow> nat \<Rightarrow> nat" where
  "month_days y m = (if m = 2 then (if leap y then 29 else 28) else if m \<in> {4, 6, 9, 11} then 30 else 31)"

definition year_days :: "nat \<Rightarrow> nat" where
  "year_days y = (\<Sum>m \<leftarrow> [1..<13]. month_days y m)"

text \<open>Days from 1 January of year 1 to the given date.\<close>

definition calendar_days :: "nat \<Rightarrow> nat \<Rightarrow> nat \<Rightarrow> nat" where
  "calendar_days y m d = (\<Sum>i \<leftarrow> [1..<y]. year_days i) + (\<Sum>i \<leftarrow> [1..<m]. month_days y i) + (d - 1)"

lemma upt_13: "[1..<13] = [1, 2, 3, 4, 5, 6, 7, 8, 9, 10, 11, 12 :: nat]"
  by (simp add: upt_rec)

lemma year_days_leap: "year_days y = 365 + (if leap y then 1 else 0)"
  unfolding year_days_def upt_13 by (simp add: month_days_def)

lemma div_step:
  fixes y c :: int
  assumes "0 < c"
  shows "(y + 1) div c = y div c + (if c dvd y + 1 then 1 else 0)"
proof (cases "c dvd y + 1")
  case True
  then obtain k where k: "y + 1 = c * k" by (elim dvdE)
  then have y: "y = (c - 1) + c * (k - 1)" by (simp add: algebra_simps)
  have "y div c = k - 1" unfolding y using assms by (subst div_mult_self2) auto
  then show ?thesis using True k assms by simp
next
  case False
  have "(y mod c) + 1 < c"
  proof (rule ccontr)
    assume "\<not> (y mod c) + 1 < c"
    then have "y mod c + 1 = c" using pos_mod_bound [OF assms, of y] by simp
    then have "y + 1 = c * (y div c) + c" using mult_div_mod_eq [of c y] by linarith
    then show False using False by (metis dvd_add_triv_right_iff dvd_triv_left)
  qed
  then have "(y + 1) div c = y div c"
    using int_div_pos_eq [of "y + 1" c "y div c" "y mod c + 1"] mult_div_mod_eq [of c y] pos_mod_sign [OF assms, of y] by simp
  then show ?thesis using False by simp
qed

lemma leap_int: "leap (Suc y) \<longleftrightarrow> 4 dvd int y + 1 \<and> (\<not> 100 dvd int y + 1 \<or> 400 dvd int y + 1)"
proof -
  have "d dvd Suc y \<longleftrightarrow> int d dvd int y + 1" for d :: nat using int_dvd_int_iff [of d "Suc y"] by (simp add: add.commute)
  from this [of 4] this [of 100] this [of 400] show ?thesis by (simp add: leap_def)
qed

lemma leap_count:
  "int (if leap (Suc y) then 1 else 0) =
    (int y + 1) div 4 - (int y + 1) div 100 + (int y + 1) div 400 - (int y div 4 - int y div 100 + int y div 400)"
proof -
  have "100 dvd int y + 1 \<Longrightarrow> 4 dvd int y + 1" "400 dvd int y + 1 \<Longrightarrow> 100 dvd int y + 1"
    by (erule dvd_trans [rotated], simp)+
  then show ?thesis unfolding leap_int by (simp add: div_step)
qed

lemma years_closed: "int (\<Sum>i \<leftarrow> [1..<Suc y]. year_days i) = 365 * int y + int y div 4 - int y div 100 + int y div 400"
proof (induction y)
  case (Suc y)
  then show ?case using leap_count [of y] by (simp add: year_days_leap algebra_simps split: if_splits)
qed simp

lemma civil_era:
  fixes y :: int
  assumes "0 \<le> y"
  shows "(if y \<ge> 0 then y else y - 399) sdiv 400 = y div 400"
    and "y div 400 * 146097 + (y mod 400 * 365 + y mod 400 div 4 - y mod 400 div 100) = 365 * y + y div 4 - y div 100 + y div 400"
proof -
  show "(if y \<ge> 0 then y else y - 399) sdiv 400 = y div 400"
    using assms by (cases "y = 0") (simp_all add: signed_divide_int_def)
  define e where "e = y div 400"
  define r where "r = y mod 400"
  have y: "y = r + 4 * (100 * e)" "y = r + 100 * (4 * e)" using mult_div_mod_eq [of 400 y] by (simp_all add: e_def r_def)
  have "y div 4 = 100 * e + r div 4" by (subst y(1)) (simp only: div_mult_self2)
  moreover have "y div 100 = 4 * e + r div 100" by (subst y(2)) (simp only: div_mult_self2)
  ultimately show "y div 400 * 146097 + (y mod 400 * 365 + y mod 400 div 4 - y mod 400 div 100) = 365 * y + y div 4 - y div 100 + y div 400"
    using y(1) unfolding e_def [symmetric] r_def [symmetric] by simp
qed

text \<open>The fields in numbers: no intermediate result wraps.\<close>

lemma unat_small_add: "unat (a :: u32) + unat b < 4294967296 \<Longrightarrow> unat (a + b) = unat a + unat b"
  by (simp add: unat_word_ariths)

lemma unat_small_mult: "unat (a :: u32) * unat b < 4294967296 \<Longrightarrow> unat (a * b) = unat a * unat b"
  by (simp add: unat_word_ariths)

lemma unat_small_sub: "unat (b :: u32) \<le> unat a \<Longrightarrow> unat (a - b) = unat a - unat b"
  by (simp add: unat_sub word_le_nat_alt)

definition civil_doy :: "nat \<Rightarrow> nat \<Rightarrow> nat" where
  "civil_doy m d = (153 * (if m > 2 then m - 3 else m + 9) + 2) div 5 + d - 1"

lemma unat_doy:
  assumes "1 \<le> unat m" "unat m \<le> 12" and "1 \<le> unat d" "unat d \<le> 31"
  shows "unat ((153 * (if m > 2 then m - 3 else m + 9) + 2) div 5 + d - 1 :: u32) = civil_doy (unat m) (unat d)"
    and "civil_doy (unat m) (unat d) \<le> 400"
proof -
  define mp where "mp = (if m > 2 then m - 3 else m + 9)"
  define n where "n = (if unat m > 2 then unat m - 3 else unat m + 9)"
  have n: "unat mp = n" "n \<le> 11"
    using assms(1,2) by (auto simp: mp_def n_def word_less_nat_alt unat_small_sub unat_small_add)
  have p: "unat (153 * mp) = 153 * n" using n by (simp add: unat_small_mult)
  have q: "unat ((153 * mp + 2) div 5) = (153 * n + 2) div 5" using n(2) p by (simp add: unat_div unat_small_add)
  have b: "(153 * n + 2) div 5 \<le> 337" using n(2) by linarith
  have r: "unat ((153 * mp + 2) div 5 + d) = (153 * n + 2) div 5 + unat d" using q b assms(4) by (subst unat_small_add) simp_all
  show "unat ((153 * (if m > 2 then m - 3 else m + 9) + 2) div 5 + d - 1 :: u32) = civil_doy (unat m) (unat d)"
    unfolding mp_def [symmetric] civil_doy_def n_def [symmetric] using r assms(3) by (subst unat_small_sub) simp_all
  show "civil_doy (unat m) (unat d) \<le> 400" using b assms(4) by (simp add: civil_doy_def n_def [symmetric])
qed

lemma unat_doe:
  assumes "r < 400" and "unat (doy :: u32) \<le> 400"
  shows "unat (of_nat r * 365 + of_nat r div 4 - of_nat r div 100 + doy) = r * 365 + r div 4 - r div 100 + unat doy"
proof -
  have u: "unat (of_nat r :: u32) = r" using assms(1) by (simp add: unat_of_nat take_bit_nat_eq_self)
  have a: "unat (of_nat r * 365 :: u32) = r * 365" using assms(1) u by (subst unat_small_mult) simp_all
  have b: "unat (of_nat r * 365 + of_nat r div 4 :: u32) = r * 365 + r div 4"
    using assms(1) u a by (subst unat_small_add) (simp_all add: unat_div)
  have c: "unat (of_nat r * 365 + of_nat r div 4 - of_nat r div 100 :: u32) = r * 365 + r div 4 - r div 100"
    using u b by (subst unat_small_sub) (simp_all add: unat_div)
  have "r * 365 + r div 4 - r div 100 < 200000" using assms(1) by linarith
  then show ?thesis using assms(2) c by (subst unat_small_add) simp_all
qed

text \<open>Days before month \<open>m\<close> of a year: the formula of the code counts from March.\<close>

lemma months_closed:
  assumes "1 \<le> m" "m \<le> 12" "1 \<le> d"
  shows "m > 2 \<Longrightarrow> int (\<Sum>i \<leftarrow> [1..<m]. month_days y i) + int (d - 1) = int (civil_doy m d) + 59 + (if leap y then 1 else 0)"
    and "m \<le> 2 \<Longrightarrow> int (\<Sum>i \<leftarrow> [1..<m]. month_days y i) + int (d - 1) = int (civil_doy m d) - 306"
proof -
  have c: "m \<in> set [1..<13]" using assms(1,2) by auto
  have u: "[1..<m] = take (m - 1) [1..<13]" using assms(1,2) by (simp add: take_upt)
  show "m > 2 \<Longrightarrow> int (\<Sum>i \<leftarrow> [1..<m]. month_days y i) + int (d - 1) = int (civil_doy m d) + 59 + (if leap y then 1 else 0)"
    using c assms(3) unfolding u upt_13 by (auto simp: civil_doy_def month_days_def)
  show "m \<le> 2 \<Longrightarrow> int (\<Sum>i \<leftarrow> [1..<m]. month_days y i) + int (d - 1) = int (civil_doy m d) - 306"
    using c assms(3) unfolding u upt_13 by (auto simp: civil_doy_def month_days_def)
qed

definition leaps :: "int \<Rightarrow> int" where
  "leaps y = y div 4 - y div 100 + y div 400"

lemma leaps_step: "int (if leap (Suc y) then 1 else 0) = leaps (int y + 1) - leaps (int y)"
  unfolding leaps_def leap_count ..

lemma calendar_closed:
  assumes "1 \<le> y"
  shows "int (\<Sum>i \<leftarrow> [1..<y]. year_days i) = 365 * (int y - 1) + leaps (int y - 1)"
  using years_closed [of "y - 1"] assms by (simp add: of_nat_diff leaps_def)

lemma epoch_days: "int (calendar_days 1970 1 1) = 719162"
  using calendar_closed [of 1970] by (simp add: calendar_days_def leaps_def)

lemma days_from_civil_nat:
  assumes "y' = int y - (if unat m \<le> 2 then 1 else 0)" and "0 \<le> y'"
    and m: "1 \<le> unat m" "unat m \<le> 12" and d: "1 \<le> unat d" "unat d \<le> 31"
  shows "nx_days_from_civil (int y) m d = 365 * y' + leaps y' + int (civil_doy (unat m) (unat d)) - 719468"
proof -
  define r where "r = nat (y' mod 400)"
  have r: "r < 400" "int r = y' mod 400" by (simp_all add: r_def)
  define doy :: u32 where "doy = (153 * (if m > 2 then m - 3 else m + 9) + 2) div 5 + d - 1"
  have doy: "unat doy = civil_doy (unat m) (unat d)" "unat doy \<le> 400" using unat_doy [OF m d] by (simp_all add: doy_def)
  have y': "int y - (if m \<le> 2 then 1 else 0) = y'" using assms(1) by (simp add: word_le_nat_alt)
  have w: "y' - y' div 400 * 400 = int r" using r(2) by (simp add: minus_div_mult_eq_mod)
  have "r div 100 \<le> r * 365 + r div 4" by linarith
  then have "int (unat (of_nat r * 365 + of_nat r div 4 - of_nat r div 100 + doy :: u32)) =
      int r * 365 + int r div 4 - int r div 100 + int (unat doy)"
    unfolding unat_doe [OF r(1) doy(2)] by (simp add: of_nat_diff zdiv_int)
  then show ?thesis
    unfolding nx_days_from_civil_def Let_def y' civil_era(1) [OF assms(2)] w of_int_of_nat_eq doy_def [symmetric] uint_nat
    using civil_era(2) [OF assms(2)] doy(1) r(2) by (simp only: leaps_def)
qed

text \<open>
  C37. The clock's calendar is exact. For every valid date of the years 1 to 9999 the number of days the
  code computes in wrapping 32-bit arithmetic is the number of days the Gregorian calendar counts from
  1 January 1970, and the time of day is added in seconds.
\<close>

theorem unix_time_exact:
  assumes "1 \<le> y" "y \<le> 9999" and "1 \<le> unat m" "unat m \<le> 12" and "1 \<le> unat d" "unat d \<le> month_days y (unat m)"
  shows "nx_unix_time (int y) m d h mi s =
    (int (calendar_days y (unat m) (unat d)) - int (calendar_days 1970 1 1)) * 86400 + uint h * 3600 + uint mi * 60 + uint s"
proof -
  have d31: "unat d \<le> 31" using assms(6) by (auto simp: month_days_def split: if_splits)
  have "nx_days_from_civil (int y) m d = int (calendar_days y (unat m) (unat d)) - 719162"
  proof -
    define y' where "y' = int y - (if unat m \<le> 2 then 1 else 0)"
    have y0: "0 \<le> y'" using assms(1) by (simp add: y'_def)
    note days = days_from_civil_nat [OF y'_def y0 assms(3-5) d31]
    define S where "S = int (\<Sum>i \<leftarrow> [1..<unat m]. month_days y i) + int (unat d - 1)"
    have cal: "int (calendar_days y (unat m) (unat d)) =
        365 * (int y - 1) + leaps (int y - 1) + S"
      unfolding calendar_days_def of_nat_add calendar_closed [OF assms(1)] S_def by simp
    show ?thesis
    proof (cases "unat m \<le> 2")
      case True
      then have y': "y' = int y - 1" by (simp add: y'_def)
      show ?thesis using days cal months_closed(2) [OF assms(3-5) True, of y, folded S_def] unfolding y' by linarith
    next
      case False
      then have y': "y' = int y" and m2: "unat m > 2" by (simp_all add: y'_def)
      define l where "l = int (if leap y then 1 else 0)"
      obtain z where z: "y = Suc z" using assms(1) by (cases y) auto
      have "l = leaps (int y) - leaps (int y - 1)" unfolding l_def z using leaps_step [of z] by (simp only: of_nat_Suc add.commute add_diff_cancel_left')
      moreover have "S = int (civil_doy (unat m) (unat d)) + 59 + l"
        using months_closed(1) [OF assms(3-5) m2, of y] by (cases "leap y") (simp_all add: S_def l_def)
      ultimately show ?thesis using days cal unfolding y' by simp
    qed
  qed
  then show ?thesis unfolding nx_unix_time_def epoch_days by simp
qed

theorem unix_time_exact_witness:
  "nx_unix_time 2000 3 1 12 30 0 = (int (calendar_days 2000 3 1) - int (calendar_days 1970 1 1)) * 86400 + 45000"
  using unix_time_exact [of 2000 3 1 12 30 0] by (simp add: month_days_def)

end
