(* ===== verification/Devices.thy ===== *)
theory Devices
  imports Syscalls Blk Civil
begin

text \<open>
  The serial channel to the host (kernel/chan.c), the clock (kernel/dev/rtc.c), the system calls on
  devices and the dispatch of system calls (kernel/syscall.c). Port input and output and the virtio
  drivers are parameters on a device state: the virtio-net driver and the entropy source
  (kernel/dev/virtio_net.c) are represented by the operations the system calls use.
\<close>

record 'd nx_hw =
  hw_inb :: "u16 \<Rightarrow> 'd \<Rightarrow> u8 \<times> 'd"
  hw_outb :: "u16 \<Rightarrow> u8 \<Rightarrow> 'd \<Rightarrow> 'd"
  hw_vblk :: "'d nx_vblk"
  hw_net_info :: "'d \<Rightarrow> bytes \<times> 'd"
  hw_net_send :: "bytes \<Rightarrow> 'd \<Rightarrow> nx_error \<times> 'd"
  hw_net_poll :: "'d \<Rightarrow> bytes \<times> 'd"
  hw_rng_read :: "u32 \<Rightarrow> 'd \<Rightarrow> (nx_error \<times> bytes) \<times> 'd"

record 'd machine =
  mc_k :: kernel
  mc_chan_rx :: u64
  mc_chan_tx :: u64
  mc_blk :: nx_blk
  mc_base_unix :: u64
  mc_base_ticks :: u64
  mc_dev :: 'd

section \<open>The channel\<close>

abbreviation COM2 :: u16 where "COM2 \<equiv> 0x2F8"
abbreviation UART_DATA :: u16 where "UART_DATA \<equiv> 0"
abbreviation UART_IER :: u16 where "UART_IER \<equiv> 1"
abbreviation UART_FCR :: u16 where "UART_FCR \<equiv> 2"
abbreviation UART_LCR :: u16 where "UART_LCR \<equiv> 3"
abbreviation UART_MCR :: u16 where "UART_MCR \<equiv> 4"
abbreviation UART_LSR :: u16 where "UART_LSR \<equiv> 5"
abbreviation UART_SCR :: u16 where "UART_SCR \<equiv> 7"
abbreviation LSR_DR :: u8 where "LSR_DR \<equiv> 1"
abbreviation LSR_THRE :: u8 where "LSR_THRE \<equiv> 0x20"
abbreviation TX_SPIN_LIMIT :: nat where "TX_SPIN_LIMIT \<equiv> 1000000"

definition nx_chan_init :: "'d nx_hw \<Rightarrow> 'd \<Rightarrow> bool \<times> 'd" where
  "nx_chan_init hw d =
     (let (a, d) = hw_inb hw (COM2 + UART_SCR) (hw_outb hw (COM2 + UART_SCR) 0x5A d) in
      if a \<noteq> 0x5A then (False, d)
      else let (a, d) = hw_inb hw (COM2 + UART_SCR) (hw_outb hw (COM2 + UART_SCR) 0xA5 d) in
      if a \<noteq> 0xA5 then (False, d)
      else (True, fold (\<lambda>(r, v). hw_outb hw (COM2 + r) v)
             [(UART_IER, 0), (UART_LCR, 0x80), (UART_DATA, 1), (UART_IER, 0), (UART_LCR, 3), (UART_FCR, 7), (UART_MCR, 3)] d))"

fun chan_poll_loop :: "'d nx_hw \<Rightarrow> nat \<Rightarrow> 'd \<Rightarrow> bytes \<times> 'd" where
  "chan_poll_loop hw 0 d = ([], d)"
| "chan_poll_loop hw (Suc n) d =
     (let (lsr, d) = hw_inb hw (COM2 + UART_LSR) d in
      if lsr AND LSR_DR = 0 then ([], d)
      else let (b, d) = hw_inb hw (COM2 + UART_DATA) d; (bs, d) = chan_poll_loop hw n d in (b # bs, d))"

definition nx_chan_poll :: "'d nx_hw \<Rightarrow> u32 \<Rightarrow> 'd machine \<Rightarrow> bytes \<times> 'd machine" where
  "nx_chan_poll hw cap s =
     (let (bs, d) = chan_poll_loop hw (unat cap) (mc_dev s) in
      (bs, s\<lparr>mc_dev := d, mc_chan_rx := mc_chan_rx s + of_nat (length bs)\<rparr>))"

fun tx_wait :: "'d nx_hw \<Rightarrow> nat \<Rightarrow> 'd \<Rightarrow> 'd" where
  "tx_wait hw 0 d = d"
| "tx_wait hw (Suc n) d = (let (lsr, d) = hw_inb hw (COM2 + UART_LSR) d in if lsr AND LSR_THRE \<noteq> 0 then d else tx_wait hw n d)"

definition nx_chan_write :: "'d nx_hw \<Rightarrow> bytes \<Rightarrow> 'd machine \<Rightarrow> 'd machine" where
  "nx_chan_write hw buf s =
     s\<lparr>mc_dev := fold (\<lambda>b d. hw_outb hw (COM2 + UART_DATA) b (tx_wait hw TX_SPIN_LIMIT d)) buf (mc_dev s),
       mc_chan_tx := mc_chan_tx s + of_nat (length buf)\<rparr>"

section \<open>The clock\<close>

definition cmos :: "'d nx_hw \<Rightarrow> u8 \<Rightarrow> 'd \<Rightarrow> u8 \<times> 'd" where
  "cmos hw reg d = hw_inb hw 0x71 (hw_outb hw 0x70 reg d)"

definition from_bcd :: "u8 \<Rightarrow> bool \<Rightarrow> u32" where
  "from_bcd v binary = (if binary then ucast v else ucast (v AND 0x0F) + ucast (drop_bit 4 v) * 10)"

record rtc_regs =
  rg_s :: u8
  rg_mi :: u8
  rg_h :: u8
  rg_d :: u8
  rg_mo :: u8
  rg_y :: u8
  rg_c :: u8

fun rtc_wait :: "'d nx_hw \<Rightarrow> nat \<Rightarrow> 'd \<Rightarrow> 'd" where
  "rtc_wait hw 0 d = d"
| "rtc_wait hw (Suc n) d = (let (a, d) = cmos hw 0x0A d in if a AND 0x80 = 0 then d else rtc_wait hw n d)"

definition read_regs :: "'d nx_hw \<Rightarrow> 'd \<Rightarrow> rtc_regs \<times> 'd" where
  "read_regs hw d =
     (let d = rtc_wait hw 1000000 d;
          (s, d) = cmos hw 0x00 d; (mi, d) = cmos hw 0x02 d; (h, d) = cmos hw 0x04 d; (dd, d) = cmos hw 0x07 d;
          (mo, d) = cmos hw 0x08 d; (y, d) = cmos hw 0x09 d; (c, d) = cmos hw 0x32 d in
      (\<lparr>rg_s = s, rg_mi = mi, rg_h = h, rg_d = dd, rg_mo = mo, rg_y = y, rg_c = c\<rparr>, d))"

fun rtc_stable :: "'d nx_hw \<Rightarrow> nat \<Rightarrow> rtc_regs \<Rightarrow> 'd \<Rightarrow> rtc_regs \<times> 'd" where
  "rtc_stable hw 0 a d = (a, d)"
| "rtc_stable hw (Suc n) a d = (let (b, d) = read_regs hw d in if a = b then (a, d) else rtc_stable hw n b d)"

text \<open>The time the registers denote, 0 for an invalid date.\<close>

definition rtc_time :: "rtc_regs \<Rightarrow> u8 \<Rightarrow> u64" where
  "rtc_time a fmt =
     (let binary = (fmt AND 0x04 \<noteq> 0); h24 = (fmt AND 0x02 \<noteq> 0);
          pm = (\<not> h24 \<and> rg_h a AND 0x80 \<noteq> 0);
          hour = from_bcd (rg_h a AND 0x7F) binary;
          hour = (if \<not> h24 then hour mod 12 + (if pm then 12 else 0) else hour);
          year = from_bcd (rg_y a) binary + (if rg_c a \<noteq> 0 then from_bcd (rg_c a) binary * 100 else 2000);
          mo = from_bcd (rg_mo a) binary; dd = from_bcd (rg_d a) binary;
          mi = from_bcd (rg_mi a) binary; s = from_bcd (rg_s a) binary in
      if mo < 1 \<or> mo > 12 \<or> dd < 1 \<or> dd > 31 \<or> hour > 23 \<or> mi > 59 \<or> s > 60 \<or> year < 1970 then 0
      else word_of_int (nx_unix_time (uint year) mo dd hour mi s))"

definition nx_rtc_read :: "'d nx_hw \<Rightarrow> 'd \<Rightarrow> u64 \<times> 'd" where
  "nx_rtc_read hw d =
     (let (a, d) = read_regs hw d; (a, d) = rtc_stable hw 8 a d; (fmt, d) = cmos hw 0x0B d in (rtc_time a fmt, d))"

definition nx_rtc_init :: "'d nx_hw \<Rightarrow> 'd machine \<Rightarrow> 'd machine" where
  "nx_rtc_init hw s =
     (let (u, d) = nx_rtc_read hw (mc_dev s) in s\<lparr>mc_base_unix := u, mc_base_ticks := k_ticks (mc_k s), mc_dev := d\<rparr>)"

definition nx_rtc_now :: "u64 \<Rightarrow> u32 \<Rightarrow> 'd machine \<Rightarrow> u64" where
  "nx_rtc_now ticks hz s =
     (if mc_base_unix s = 0 \<or> hz = 0 then 0 else mc_base_unix s + (ticks - mc_base_ticks s) div ucast hz)"

section \<open>System calls on devices\<close>

abbreviation NX_CHAN_IO_MAX :: u64 where "NX_CHAN_IO_MAX \<equiv> 512"
abbreviation NX_CHAN_TIMEOUT_MAX :: u64 where "NX_CHAN_TIMEOUT_MAX \<equiv> 6000"
abbreviation NX_NET_FRAME_MAX :: u64 where "NX_NET_FRAME_MAX \<equiv> 1514"
abbreviation NX_NET_FRAME_MIN :: u64 where "NX_NET_FRAME_MIN \<equiv> 14"
abbreviation NX_NET_TIMEOUT_MAX :: u64 where "NX_NET_TIMEOUT_MAX \<equiv> 6000"
abbreviation NX_ENTROPY_MAX :: u64 where "NX_ENTROPY_MAX \<equiv> 256"
abbreviation CHAN_SPIN_POLLS :: nat where "CHAN_SPIN_POLLS \<equiv> 20000"
abbreviation NET_SPIN_POLLS :: nat where "NET_SPIN_POLLS \<equiv> 2000"

type_synonym 'd sys_result = "(sysres \<times> 'd machine) option"

text \<open>A result of the kernel part of a call, and a failed call.\<close>

definition on_kernel :: "(kernel \<Rightarrow> (sysres \<times> kernel) option) \<Rightarrow> 'd machine \<Rightarrow> 'd sys_result" where
  "on_kernel f s = do { (r, k) \<leftarrow> f (mc_k s); Some (r, s\<lparr>mc_k := k\<rparr>) }"

definition dev_fail :: "nx_error \<Rightarrow> 'd machine \<Rightarrow> 'd sys_result" where
  "dev_fail st s = Some (S_ret (- nx_errno st), s)"

definition dev_lookup :: "nat \<Rightarrow> u64 \<Rightarrow> u32 \<Rightarrow> u32 \<Rightarrow> 'd machine \<Rightarrow> nx_error" where
  "dev_lookup t h type need s = (case ht_lookup64 t h type need (mc_k s) of Inl st \<Rightarrow> st | Inr _ \<Rightarrow> NX_OK)"

definition copy_ret :: "nat \<Rightarrow> u64 \<Rightarrow> bytes \<Rightarrow> int \<Rightarrow> 'd machine \<Rightarrow> 'd sys_result" where
  "copy_ret t va bs r s = do { (_, k) \<leftarrow> copy_out t va bs (mc_k s); Some (S_ret r, s\<lparr>mc_k := k\<rparr>) }"

fun chan_spin :: "'d nx_hw \<Rightarrow> nat \<Rightarrow> u32 \<Rightarrow> 'd machine \<Rightarrow> bytes \<times> 'd machine" where
  "chan_spin hw 0 cap s = ([], s)"
| "chan_spin hw (Suc n) cap s = (let (bs, s) = nx_chan_poll hw cap s in if bs \<noteq> [] then (bs, s) else chan_spin hw n cap s)"

text \<open>One round of the polling loop of \<open>sys_chan_read\<close>.\<close>

definition chan_read_round :: "'d nx_hw \<Rightarrow> nat \<Rightarrow> u64 \<Rightarrow> u64 \<Rightarrow> u64 \<Rightarrow> u64 \<Rightarrow> u64 \<Rightarrow> 'd machine \<Rightarrow> 'd sys_result" where
  "chan_read_round hw t ch va cap timeout waited s =
     (let st = dev_lookup t ch NX_OBJ_CHANNEL NX_RIGHT_READ s in
      if st \<noteq> NX_OK then dev_fail st s
      else let (bs, s) = chan_spin hw CHAN_SPIN_POLLS (ucast cap) s in
      if bs \<noteq> [] then copy_ret t va bs (int (length bs)) s
      else if waited \<ge> timeout then Some (S_ret 0, s)
      else do { k \<leftarrow> nx_task_sleep 1 (K_Chan_read ch va cap timeout (waited + 1)) (mc_k s); Some (S_switch, s\<lparr>mc_k := k\<rparr>) })"

definition sys_chan_read :: "'d nx_hw \<Rightarrow> nat \<Rightarrow> u64 \<Rightarrow> u64 \<Rightarrow> u64 \<Rightarrow> u64 \<Rightarrow> 'd machine \<Rightarrow> 'd sys_result" where
  "sys_chan_read hw t ch va cap timeout s =
     (let st = dev_lookup t ch NX_OBJ_CHANNEL NX_RIGHT_READ s in
      if st \<noteq> NX_OK then dev_fail st s
      else if cap = 0 \<or> cap > NX_CHAN_IO_MAX \<or> timeout > NX_CHAN_TIMEOUT_MAX then dev_fail NX_EINVAL s
      else do {
        st \<leftarrow> check_out t va cap (mc_k s);
        if st \<noteq> NX_OK then dev_fail st s else chan_read_round hw t ch va cap timeout 0 s })"

definition sys_chan_write :: "'d nx_hw \<Rightarrow> nat \<Rightarrow> u64 \<Rightarrow> u64 \<Rightarrow> u64 \<Rightarrow> 'd machine \<Rightarrow> 'd sys_result" where
  "sys_chan_write hw t ch va len s =
     (let st = dev_lookup t ch NX_OBJ_CHANNEL NX_RIGHT_WRITE s in
      if st \<noteq> NX_OK then dev_fail st s
      else if len > NX_CHAN_IO_MAX then dev_fail NX_EINVAL s
      else do {
        (st, bs) \<leftarrow> copy_in t va len (mc_k s);
        if st \<noteq> NX_OK then dev_fail st s else Some (S_ret (int (unat len)), nx_chan_write hw bs s) })"

definition blk_info_bytes :: "nx_blk \<Rightarrow> bytes" where
  "blk_info_bytes b =
     le_enc 8 (bl_blocks b) @ le_enc 4 (of_nat NX_BLK_SIZE :: u32)
     @ le_enc 4 ((if bl_read_only b then 1 else 0) OR (if bl_has_flush b then 2 else 0)
                 OR (if bl_enabled b \<and> bl_volatile_cache b then 4 else 0 :: u32))
     @ le_enc 8 (bl_reads b) @ le_enc 8 (bl_writes b) @ le_enc 8 (bl_flushes b)
     @ (let n = take 20 (takeWhile (\<lambda>c. c \<noteq> 0) (bl_serial b)) in n @ replicate (24 - length n) 0)"

definition sys_blk_info :: "nat \<Rightarrow> u64 \<Rightarrow> u64 \<Rightarrow> 'd machine \<Rightarrow> 'd sys_result" where
  "sys_blk_info t h va s =
     (let st = dev_lookup t h NX_OBJ_BLOCKDEV NX_RIGHT_READ s in
      if st \<noteq> NX_OK then dev_fail st s else on_kernel (copy_struct t va (blk_info_bytes (mc_blk s))) s)"

definition blk_range_bad :: "u64 \<Rightarrow> u64 \<Rightarrow> 'd machine \<Rightarrow> bool" where
  "blk_range_bad blk count s \<longleftrightarrow>
     count = 0 \<or> count > 8 \<or> blk \<ge> bl_blocks (mc_blk s) \<or> count > bl_blocks (mc_blk s) - blk"

definition sys_blk_read :: "'d nx_hw \<Rightarrow> nat \<Rightarrow> u64 \<Rightarrow> u64 \<Rightarrow> u64 \<Rightarrow> u64 \<Rightarrow> 'd machine \<Rightarrow> 'd sys_result" where
  "sys_blk_read hw t h blk count va s =
     (let st = dev_lookup t h NX_OBJ_BLOCKDEV NX_RIGHT_READ s in
      if st \<noteq> NX_OK then dev_fail st s
      else if blk_range_bad blk count s then dev_fail NX_EINVAL s
      else do {
        st \<leftarrow> check_out t va (count * of_nat NX_BLK_SIZE) (mc_k s);
        if st \<noteq> NX_OK then dev_fail st s else
        (case nx_blk_read (hw_vblk hw) blk (ucast count) (mc_blk s, mc_k s, mc_dev s) of
           ((st, bs), b, k, d) \<Rightarrow>
             let s = s\<lparr>mc_blk := b, mc_k := k, mc_dev := d\<rparr> in
             if st \<noteq> NX_OK then dev_fail st s else copy_ret t va bs (int (unat count)) s) })"

text \<open>The state after a block request; a crash point stops the machine.\<close>

definition blk_done :: "int \<Rightarrow> ('d + nx_error \<times> 'd blk_state) option \<Rightarrow> 'd machine \<Rightarrow> 'd sys_result" where
  "blk_done ok r s =
     (case r of
        Some (Inr (st, b, k, d)) \<Rightarrow>
          Some (S_ret (if st = NX_OK then ok else - nx_errno st), s\<lparr>mc_blk := b, mc_k := k, mc_dev := d\<rparr>)
      | _ \<Rightarrow> None)"

definition sys_blk_write :: "'d nx_hw \<Rightarrow> nat \<Rightarrow> u64 \<Rightarrow> u64 \<Rightarrow> u64 \<Rightarrow> u64 \<Rightarrow> 'd machine \<Rightarrow> 'd sys_result" where
  "sys_blk_write hw t h blk count va s =
     (let st = dev_lookup t h NX_OBJ_BLOCKDEV NX_RIGHT_WRITE s in
      if st \<noteq> NX_OK then dev_fail st s
      else if blk_range_bad blk count s then dev_fail NX_EINVAL s
      else do {
        (st, bs) \<leftarrow> copy_in t va (count * of_nat NX_BLK_SIZE) (mc_k s);
        if st \<noteq> NX_OK then dev_fail st s
        else blk_done (int (unat count)) (nx_blk_write (hw_vblk hw) blk (ucast count) bs (mc_blk s, mc_k s, mc_dev s)) s })"

definition sys_blk_flush :: "'d nx_hw \<Rightarrow> nat \<Rightarrow> u64 \<Rightarrow> 'd machine \<Rightarrow> 'd sys_result" where
  "sys_blk_flush hw t h s =
     (let st = dev_lookup t h NX_OBJ_BLOCKDEV NX_RIGHT_WRITE s in
      if st \<noteq> NX_OK then dev_fail st s
      else blk_done 0 (nx_blk_flush (hw_vblk hw) (mc_blk s, mc_k s, mc_dev s)) s)"

definition sys_net_info :: "'d nx_hw \<Rightarrow> nat \<Rightarrow> u64 \<Rightarrow> u64 \<Rightarrow> 'd machine \<Rightarrow> 'd sys_result" where
  "sys_net_info hw t h va s =
     (let st = dev_lookup t h NX_OBJ_NETDEV NX_RIGHT_READ s in
      if st \<noteq> NX_OK then dev_fail st s
      else let (info, d) = hw_net_info hw (mc_dev s) in on_kernel (copy_struct t va info) (s\<lparr>mc_dev := d\<rparr>))"

definition sys_net_send :: "'d nx_hw \<Rightarrow> nat \<Rightarrow> u64 \<Rightarrow> u64 \<Rightarrow> u64 \<Rightarrow> 'd machine \<Rightarrow> 'd sys_result" where
  "sys_net_send hw t h va len s =
     (let st = dev_lookup t h NX_OBJ_NETDEV NX_RIGHT_WRITE s in
      if st \<noteq> NX_OK then dev_fail st s
      else if len < NX_NET_FRAME_MIN \<or> len > NX_NET_FRAME_MAX then dev_fail NX_EINVAL s
      else do {
        (st, bs) \<leftarrow> copy_in t va len (mc_k s);
        if st \<noteq> NX_OK then dev_fail st s
        else let (st, d) = hw_net_send hw bs (mc_dev s) in
        Some (S_ret (if st = NX_OK then int (unat len) else - nx_errno st), s\<lparr>mc_dev := d\<rparr>) })"

fun net_spin :: "'d nx_hw \<Rightarrow> nat \<Rightarrow> 'd \<Rightarrow> bytes \<times> 'd" where
  "net_spin hw 0 d = ([], d)"
| "net_spin hw (Suc n) d = (let (bs, d) = hw_net_poll hw d in if bs \<noteq> [] then (bs, d) else net_spin hw n d)"

definition net_recv_round :: "'d nx_hw \<Rightarrow> nat \<Rightarrow> u64 \<Rightarrow> u64 \<Rightarrow> u64 \<Rightarrow> u64 \<Rightarrow> u64 \<Rightarrow> 'd machine \<Rightarrow> 'd sys_result" where
  "net_recv_round hw t h va cap timeout waited s =
     (let st = dev_lookup t h NX_OBJ_NETDEV NX_RIGHT_READ s in
      if st \<noteq> NX_OK then dev_fail st s
      else let (bs, d) = net_spin hw NET_SPIN_POLLS (mc_dev s); s = s\<lparr>mc_dev := d\<rparr> in
      if bs \<noteq> [] then copy_ret t va bs (int (length bs)) s
      else if waited \<ge> timeout then Some (S_ret 0, s)
      else do { k \<leftarrow> nx_task_sleep 1 (K_Net_recv h va cap timeout (waited + 1)) (mc_k s); Some (S_switch, s\<lparr>mc_k := k\<rparr>) })"

definition sys_net_recv :: "'d nx_hw \<Rightarrow> nat \<Rightarrow> u64 \<Rightarrow> u64 \<Rightarrow> u64 \<Rightarrow> u64 \<Rightarrow> 'd machine \<Rightarrow> 'd sys_result" where
  "sys_net_recv hw t h va cap timeout s =
     (let st = dev_lookup t h NX_OBJ_NETDEV NX_RIGHT_READ s in
      if st \<noteq> NX_OK then dev_fail st s
      else if cap < NX_NET_FRAME_MAX \<or> cap > 65536 \<or> timeout > NX_NET_TIMEOUT_MAX then dev_fail NX_EINVAL s
      else do {
        st \<leftarrow> check_out t va NX_NET_FRAME_MAX (mc_k s);
        if st \<noteq> NX_OK then dev_fail st s else net_recv_round hw t h va cap timeout 0 s })"

definition sys_entropy :: "'d nx_hw \<Rightarrow> nat \<Rightarrow> u64 \<Rightarrow> u64 \<Rightarrow> 'd machine \<Rightarrow> 'd sys_result" where
  "sys_entropy hw t va len s =
     (if len = 0 \<or> len > NX_ENTROPY_MAX then dev_fail NX_EINVAL s
      else do {
        st \<leftarrow> check_out t va len (mc_k s);
        if st \<noteq> NX_OK then dev_fail st s else
        (case hw_rng_read hw (ucast len) (mc_dev s) of
           ((st, bs), d) \<Rightarrow>
             let s = s\<lparr>mc_dev := d\<rparr> in
             if st \<noteq> NX_OK then dev_fail st s else copy_ret t va bs (int (unat len)) s) })"

definition sys_clock :: "nat \<Rightarrow> u64 \<Rightarrow> 'd machine \<Rightarrow> 'd sys_result" where
  "sys_clock t va s =
     (let ticks = k_ticks (mc_k s); unix = nx_rtc_now ticks 100 s in
      on_kernel (copy_struct t va (le_enc 8 unix @ le_enc 8 ticks @ le_enc 4 (100 :: u32)
        @ le_enc 4 (if unix \<noteq> 0 then 1 else 0 :: u32))) s)"

section \<open>Dispatch\<close>

definition sys_handle_close :: "nat \<Rightarrow> u64 \<Rightarrow> kernel \<Rightarrow> (sysres \<times> kernel) option" where
  "sys_handle_close t a k =
     (if a > 0xFFFFFFFF then sys_fail NX_EBADHANDLE k
      else do { (st, k) \<leftarrow> nx_ht_close t (ucast a) k; sys_fail st k })"

definition sys_handle_dup :: "nat \<Rightarrow> u64 \<Rightarrow> u64 \<Rightarrow> kernel \<Rightarrow> (sysres \<times> kernel) option" where
  "sys_handle_dup t a b k =
     (if a > 0xFFFFFFFF then sys_fail NX_EBADHANDLE k
      else if b > 0xFFFFFFFF then sys_fail NX_EACCESS k
      else case nx_ht_dup t (ucast a) (ucast b) k of (Inr h, k) \<Rightarrow> sys_ok (int (unat h)) k | (Inl st, k) \<Rightarrow> sys_fail st k)"

definition sys_yield :: "nat \<Rightarrow> kernel \<Rightarrow> (sysres \<times> kernel) option" where
  "sys_yield t k = do {
     k \<leftarrow> nx_yield (K_Ret 0) (upd_task t (\<lambda>x. x\<lparr>tk_yields := tk_yields x + 1\<rparr>) k);
     Some (S_switch, k) }"

definition sys_exit :: "u64 \<Rightarrow> kernel \<Rightarrow> (sysres \<times> kernel) option" where
  "sys_exit a k = do { k \<leftarrow> nx_task_exit_current a k; Some (S_switch, k) }"

definition sys_dispatch :: "'d nx_hw \<Rightarrow> nat \<Rightarrow> nat \<Rightarrow> u64 \<Rightarrow> u64 \<Rightarrow> u64 \<Rightarrow> u64 \<Rightarrow> u64 \<Rightarrow> 'd machine \<Rightarrow> 'd sys_result" where
  "sys_dispatch hw t nr a b c d e s =
     (if nr = 1 then on_kernel (sys_debug_write t a b) s
      else if nr = 2 then on_kernel (sys_exit a) s
      else if nr = 3 then on_kernel (sys_yield t) s
      else if nr = 4 then on_kernel (\<lambda>k. sys_ok (int (unat (tk_id (task k t)))) k) s
      else if nr = 5 then on_kernel (sys_handle_close t a) s
      else if nr = 6 then on_kernel (sys_handle_dup t a b) s
      else if nr = 7 then on_kernel (sys_vmo_create t a) s
      else if nr = 8 then on_kernel (sys_vmo_map t a b c) s
      else if nr = 9 then on_kernel (sys_ipc_send t a b c d e) s
      else if nr = 10 then on_kernel (sys_ipc_recv t a b c d) s
      else if nr = 11 then on_kernel (sys_sov_task_open t a b) s
      else if nr = 12 then on_kernel (sys_task_read t a b c d) s
      else if nr = 13 then on_kernel (sys_task_kill t a) s
      else if nr = 14 then on_kernel (sys_sleep a) s
      else if nr = 15 then on_kernel (sys_sys_info t a) s
      else if nr = 16 then on_kernel (sys_sov_task_spawn t a b c d) s
      else if nr = 17 then on_kernel (sys_task_info t a b) s
      else if nr = 18 then on_kernel (sys_sov_task_list t a b c) s
      else if nr = 19 then on_kernel (sys_sov_event_read t a b c d) s
      else if nr = 20 then sys_chan_read hw t a b c d s
      else if nr = 21 then sys_chan_write hw t a b c s
      else if nr = 22 then sys_blk_info t a b s
      else if nr = 23 then sys_blk_read hw t a b c d s
      else if nr = 24 then sys_blk_write hw t a b c d s
      else if nr = 25 then sys_blk_flush hw t a s
      else if nr = 26 then sys_net_info hw t a b s
      else if nr = 27 then sys_net_send hw t a b c s
      else if nr = 28 then sys_net_recv hw t a b c d s
      else if nr = 29 then sys_entropy hw t a b s
      else if nr = 30 then sys_clock t a s
      else dev_fail NX_ENOSYS s)"

text \<open>The end of a system call: the result goes to the frame of the task, which continues in user mode.\<close>

definition sys_finish :: "nat \<Rightarrow> 'd sys_result \<Rightarrow> 'd machine option" where
  "sys_finish t r = do {
     (res, s) \<leftarrow> r;
     (case res of
        S_switch \<Rightarrow> Some s
      | S_ret n \<Rightarrow> Some (s\<lparr>mc_k := upd_task t (\<lambda>x. x\<lparr>tk_frame := (tk_frame x)\<lparr>tf_rax := word_of_int n\<rparr>, tk_cont := K_User\<rparr>) (mc_k s)\<rparr>)) }"

definition nx_syscall :: "'d nx_hw \<Rightarrow> nx_trap_frame \<Rightarrow> 'd machine \<Rightarrow> 'd machine option" where
  "nx_syscall hw f s =
     (let t = k_current (mc_k s);
          s = s\<lparr>mc_k := upd_task t (\<lambda>x. x\<lparr>tk_frame := f, tk_syscalls := tk_syscalls x + 1\<rparr>) (mc_k s)\<rparr> in
      sys_finish t (sys_dispatch hw t (unat (tf_rax f)) (tf_rdi f) (tf_rsi f) (tf_rdx f) (tf_r10 f) (tf_r8 f) s))"

text \<open>A task that was switched to inside a system call goes on with it.\<close>

definition sys_resume :: "'d nx_hw \<Rightarrow> 'd machine \<Rightarrow> 'd machine option" where
  "sys_resume hw s =
     (let t = k_current (mc_k s) in
      case tk_cont (task (mc_k s) t) of
        K_Ret n \<Rightarrow> sys_finish t (Some (S_ret n, s))
      | K_Recv eh buf cap info \<Rightarrow> sys_finish t (on_kernel (sys_ipc_recv t eh buf cap info) s)
      | K_Chan_read ch va cap timeout waited \<Rightarrow> sys_finish t (chan_read_round hw t ch va cap timeout waited s)
      | K_Net_recv h va cap timeout waited \<Rightarrow> sys_finish t (net_recv_round hw t h va cap timeout waited s)
      | K_Idle \<Rightarrow> do { k \<leftarrow> idle_round (mc_k s); Some (s\<lparr>mc_k := k\<rparr>) }
      | K_Reaper \<Rightarrow> do { k \<leftarrow> reaper_round (mc_k s); Some (s\<lparr>mc_k := k\<rparr>) }
      | _ \<Rightarrow> None)"

end
