(* ===== verification/Authority.thy ===== *)
theory Authority
  imports Kernel_Frame Devices
begin

text \<open>
  Authority over kernel objects: the rights on objects that the handles of all tasks and the messages in
  all endpoint queues hold. No system call creates authority out of nothing: rights over an existing object
  only come from rights over it that were there before, except for task handles that the holder of the
  sovereign object opens.
\<close>

section \<open>Authority\<close>

definition ring :: "nx_ep_slot \<Rightarrow> nx_ipc_msg list \<times> u32 \<times> u32" where
  "ring s = (ep_q (es_ep s), ep_head (es_ep s), ep_count (es_ep s))"

text \<open>The part of the state that authority depends on, with the task it is exercised by.\<close>

definition cap_view :: "kernel \<Rightarrow> nx_handle_table list \<times> (nx_ipc_msg list \<times> u32 \<times> u32) list \<times> nat \<times> nat option \<times> bool" where
  "cap_view k = (map tk_handles (k_tasks k), map ring (k_eps k), k_current k, k_idle k, k_inj_overgrant k)"

definition in_tables :: "kernel \<Rightarrow> (optr \<times> u32) set" where
  "in_tables k = {(p, r). \<exists>tb \<in> set (fst (cap_view k)). \<exists>e \<in> set tb. he_obj e = Some p \<and> he_rights e = r}"

definition in_queues :: "kernel \<Rightarrow> (optr \<times> u32) set" where
  "in_queues k = {(p, r). \<exists>s \<in> set (k_eps k). \<exists>m \<in> set (ep_msgs (es_ep s)). im_obj m = Some p \<and> im_rights m = r}"

definition authority :: "kernel \<Rightarrow> (optr \<times> u32) set" where
  "authority k = in_tables k \<union> in_queues k"

definition caps_wf :: "kernel \<Rightarrow> bool" where
  "caps_wf k \<longleftrightarrow> length (k_tasks k) = NX_TASK_MAX \<and> length (k_eps k) = NX_EP_POOL
     \<and> (\<forall>t \<in> set (k_tasks k). length (tk_handles t) = NX_HANDLE_SLOTS) \<and> (\<forall>s \<in> set (k_eps k). ep_inv (es_ep s))
     \<and> k_current k < NX_TASK_MAX \<and> pred_option (\<lambda>i. i < NX_TASK_MAX) (k_idle k) \<and> \<not> k_inj_overgrant k"

definition ring_msgs :: "nx_ipc_msg list \<times> u32 \<times> u32 \<Rightarrow> nx_ipc_msg list" where
  "ring_msgs = (\<lambda>(q, h, c). map (\<lambda>i. q ! ((unat h + i) mod 8)) [0..<unat c])"

definition ring_inv :: "nx_ipc_msg list \<times> u32 \<times> u32 \<Rightarrow> bool" where
  "ring_inv = (\<lambda>(q, h, c). length q = 8 \<and> unat h < 8 \<and> unat c \<le> 8)"

lemma ring_ep: "ep_msgs (es_ep s) = ring_msgs (ring s)" "ep_inv (es_ep s) = ring_inv (ring s)"
  by (simp_all add: ring_def ep_msgs_def ep_inv_def ring_msgs_def ring_inv_def)

lemma in_queues_view:
  "in_queues k = {(p, r). \<exists>x \<in> set (fst (snd (cap_view k))). \<exists>m \<in> set (ring_msgs x). im_obj m = Some p \<and> im_rights m = r}"
  by (simp add: in_queues_def cap_view_def ring_ep)

lemma view_authority: "cap_view k' = cap_view k \<Longrightarrow> authority k' = authority k"
  by (simp add: authority_def in_tables_def in_queues_view)

lemma caps_wf_view:
  "caps_wf k \<longleftrightarrow> length (fst (cap_view k)) = NX_TASK_MAX \<and> length (fst (snd (cap_view k))) = NX_EP_POOL
     \<and> (\<forall>tb \<in> set (fst (cap_view k)). length tb = NX_HANDLE_SLOTS) \<and> (\<forall>x \<in> set (fst (snd (cap_view k))). ring_inv x)
     \<and> (case snd (snd (cap_view k)) of (c, i, g) \<Rightarrow> c < NX_TASK_MAX \<and> pred_option (\<lambda>i. i < NX_TASK_MAX) i \<and> \<not> g)"
  by (simp add: caps_wf_def cap_view_def ring_ep)

lemma view_caps_wf: "cap_view k' = cap_view k \<Longrightarrow> caps_wf k' = caps_wf k"
  by (simp add: caps_wf_view)

text \<open>Changes that keep the view.\<close>

lemma view_task:
  assumes "\<And>x. tk_handles (f x) = tk_handles x"
  shows "cap_view (upd_task t f k) = cap_view k"
proof (cases "t < length (k_tasks k)")
  case True
  then have "(map tk_handles (k_tasks k))[t := tk_handles (task k t)] = map tk_handles (k_tasks k)"
    by (metis list_update_id nth_map)
  then show ?thesis by (simp add: cap_view_def upd_task_def map_update assms)
qed (simp add: cap_view_def upd_task_def list_update_beyond not_less)

lemma view_ep:
  assumes "\<And>s. ring (f s) = ring s"
  shows "cap_view (upd_ep e f k) = cap_view k"
proof (cases "e < length (k_eps k)")
  case True
  then have "(map ring (k_eps k))[e := ring (k_eps k ! e)] = map ring (k_eps k)" by (metis list_update_id nth_map)
  then show ?thesis by (simp add: cap_view_def upd_ep_def map_update assms)
qed (simp add: cap_view_def upd_ep_def list_update_beyond not_less)

lemma view_mem: "mem_only k k' \<Longrightarrow> cap_view k' = cap_view k"
  using mem_only_fields(1,3,8,9,15) [of k k'] by (simp add: cap_view_def)

lemma view_fields: "k_tasks k' = k_tasks k \<Longrightarrow> k_eps k' = k_eps k \<Longrightarrow> k_current k' = k_current k \<Longrightarrow> k_idle k' = k_idle k
    \<Longrightarrow> k_inj_overgrant k' = k_inj_overgrant k \<Longrightarrow> cap_view k' = cap_view k"
  by (simp add: cap_view_def)

lemma view_vmo [simp]: "cap_view (upd_vmo v f k) = cap_view k"
  by (simp add: cap_view_def)

lemma view_obj [simp]: "cap_view (upd_obj p f k) = cap_view k"
proof (cases p)
  case (Static_obj i)
  then show ?thesis by (simp add: cap_view_def)
qed (simp_all add: view_task view_ep ring_def)

lemma view_kfor:
  assumes "\<And>x k k'. f x k = Some k' \<Longrightarrow> cap_view k' = cap_view k" and "kfor f xs k = Some k'"
  shows "cap_view k' = cap_view k"
  using assms(2)
proof (induction xs arbitrary: k)
  case (Cons x xs)
  then obtain k1 where "f x k = Some k1" "kfor f xs k1 = Some k'" by (auto split: Option.bind_splits)
  then show ?case using Cons.IH assms(1) by metis
qed simp

lemma view_kprintf: "kprintf fmt args k = Some k' \<Longrightarrow> cap_view k' = cap_view k"
  by (auto simp: kprintf_def intro: view_fields)

section \<open>Confinement\<close>

text \<open>
  \<open>conf S k k'\<close>: every authority after is part of an authority over the same object before, or over an
  object of \<open>S\<close>.
\<close>

definition conf :: "optr set \<Rightarrow> kernel \<Rightarrow> kernel \<Rightarrow> bool" where
  "conf S k k' \<longleftrightarrow> caps_wf k' \<and> (\<forall>p r. (p, r) \<in> authority k' \<longrightarrow> p \<in> S \<or> (\<exists>r0. (p, r0) \<in> authority k \<and> r AND NOT r0 = 0))"

lemma sub_refl: "(r :: u32) AND NOT r = 0"
  by (rule bit_word_eqI) (auto simp: bit_simps)

lemma sub_trans: "(a :: u32) AND NOT b = 0 \<Longrightarrow> b AND NOT c = 0 \<Longrightarrow> a AND NOT c = 0"
proof -
  assume "a AND NOT b = 0" and "b AND NOT c = 0"
  then have "bit (a AND NOT b) n = False" "bit (b AND NOT c) n = False" for n by simp_all
  then show ?thesis by (intro bit_word_eqI) (auto simp: bit_simps)
qed

lemma conf_sub: "caps_wf k' \<Longrightarrow> authority k' \<subseteq> authority k \<Longrightarrow> conf S k k'"
  using sub_refl by (auto simp: conf_def)

lemma conf_view: "caps_wf k \<Longrightarrow> cap_view k' = cap_view k \<Longrightarrow> conf S k k'"
  using view_authority [of k' k] view_caps_wf [of k' k] conf_sub [of k' k S] by simp

lemma conf_trans: "conf S k k' \<Longrightarrow> conf S k' k'' \<Longrightarrow> conf S k k''"
  unfolding conf_def using sub_trans by meson

lemma conf_mono: "conf S k k' \<Longrightarrow> S \<subseteq> T \<Longrightarrow> conf T k k'"
  unfolding conf_def by blast

lemma conf_wf: "conf S k k' \<Longrightarrow> caps_wf k'"
  by (simp add: conf_def)

section \<open>Handle tables\<close>

lemma set_update_cases: "x \<in> set (xs[i := y]) \<Longrightarrow> x = y \<or> x \<in> set xs"
  using set_update_subset_insert by fastforce

text \<open>An update of one entry of the table of a task.\<close>

lemma handle_update:
  assumes wf: "caps_wf k"
  shows "caps_wf (upd_handle t i f k)"
    and "authority (upd_handle t i f k) \<subseteq> authority k \<union> {(p, r). he_obj (f (tk_handles (task k t) ! i)) = Some p
           \<and> he_rights (f (tk_handles (task k t) ! i)) = r}"
proof -
  define tb where "tb = (tk_handles (task k t))[i := f (tk_handles (task k t) ! i)]"
  have v: "cap_view (upd_handle t i f k) = ((fst (cap_view k))[t := tb], snd (cap_view k))"
    by (simp add: upd_handle_def cap_view_def upd_task_def map_update tb_def)
  have tb: "fst (cap_view k) ! t = tk_handles (task k t)" if "t < length (k_tasks k)" using that by (simp add: cap_view_def)
  have lt: "length (fst (cap_view k)) = length (k_tasks k)" by (simp add: cap_view_def)
  have mem: "x \<in> set (fst (cap_view k)) \<or> x = tb \<and> t < length (k_tasks k)" if "x \<in> set ((fst (cap_view k))[t := tb])" for x
    using that lt by (cases "t < length (k_tasks k)") (auto simp: list_update_beyond dest: set_update_cases)
  have ltb: "length tb = 32" if "t < length (k_tasks k)"
    using wf that by (simp add: tb_def caps_wf_def)
  show "caps_wf (upd_handle t i f k)"
    using wf mem ltb unfolding caps_wf_view v by auto
  have "in_queues (upd_handle t i f k) = in_queues k" by (simp add: in_queues_view v)
  moreover have "in_tables (upd_handle t i f k) \<subseteq> in_tables k \<union> {(p, r). he_obj (f (tk_handles (task k t) ! i)) = Some p
           \<and> he_rights (f (tk_handles (task k t) ! i)) = r}"
  proof
    fix x assume "x \<in> in_tables (upd_handle t i f k)"
    then obtain p r y e where x: "x = (p, r)" "y \<in> set ((fst (cap_view k))[t := tb])" "e \<in> set y" "he_obj e = Some p" "he_rights e = r"
      by (auto simp: in_tables_def v)
    show "x \<in> in_tables k \<union> {(p, r). he_obj (f (tk_handles (task k t) ! i)) = Some p \<and> he_rights (f (tk_handles (task k t) ! i)) = r}"
    proof (cases "y \<in> set (fst (cap_view k))")
      case True
      then show ?thesis using x by (auto simp: in_tables_def)
    next
      case False
      then have y: "y = tb" "t < length (k_tasks k)" using mem x(2) by auto
      then have "e = f (tk_handles (task k t) ! i) \<or> e \<in> set (tk_handles (task k t))"
        using x(3) unfolding y(1) tb_def by (auto dest: set_update_cases)
      moreover have "tk_handles (task k t) \<in> set (fst (cap_view k))" using y(2) by (simp add: cap_view_def)
      ultimately show ?thesis using x by (auto simp: in_tables_def)
    qed
  qed
  ultimately show "authority (upd_handle t i f k) \<subseteq> authority k \<union> {(p, r). he_obj (f (tk_handles (task k t) ! i)) = Some p
           \<and> he_rights (f (tk_handles (task k t) ! i)) = r}"
    unfolding authority_def by blast
qed

lemma clear_conf: "caps_wf k \<Longrightarrow> conf S k (upd_handle t i clear_entry k)"
  using handle_update [of k t i clear_entry] by (intro conf_sub) (auto simp: clear_entry_def bump_def)

lemma ref_view [simp]: "cap_view (nx_obj_ref p k) = cap_view k"
  by (simp add: nx_obj_ref_def)

lemma install_conf:
  assumes wf: "caps_wf k" and i: "nx_ht_install t p r k = (res, k')" and p: "p \<in> S \<or> (\<exists>r0. (p, r0) \<in> authority k \<and> r AND NOT r0 = 0)"
  shows "conf S k k'"
proof (cases res)
  case (Inl e)
  then have "k' = k" using i by (auto simp: nx_ht_install_def split: if_splits option.splits)
  then show ?thesis using conf_view [OF wf] by simp
next
  case (Inr h)
  then obtain j where k': "k' = upd_handle t j (\<lambda>e. e\<lparr>he_obj := Some p, he_rights := r\<rparr>) (nx_obj_ref p k)"
    using i by (auto simp: nx_ht_install_def split: if_splits option.splits)
  have wf': "caps_wf (nx_obj_ref p k)" using wf view_caps_wf [OF ref_view [of p k]] by simp
  note u = handle_update [OF wf', of t j "\<lambda>e. e\<lparr>he_obj := Some p, he_rights := r\<rparr>"]
  have "authority k' \<subseteq> authority k \<union> {(p, r)}"
    using u(2) unfolding k' view_authority [OF ref_view [of p k]] by auto
  then show ?thesis using u(1) p sub_refl unfolding k' [symmetric] conf_def by blast
qed

lemma entry_authority:
  assumes wf: "caps_wf k" and t: "t < NX_TASK_MAX" and e: "ht_entry (tk_handles (task k t)) h = Some i"
  shows "i < NX_HANDLE_SLOTS" and "he_obj (tk_handles (task k t) ! i) \<noteq> None"
    and "(the (he_obj (tk_handles (task k t) ! i)), he_rights (tk_handles (task k t) ! i)) \<in> authority k"
proof -
  define s where "s = h AND 0xFF"
  have s: "s \<noteq> 0" "\<not> s > 32" "i = unat (s - 1)" and o: "he_obj (tk_handles (task k t) ! i) \<noteq> None"
    using e by (auto simp: ht_entry_def Let_def s_def split: if_splits)
  have "unat (s - 1) < unat s" using s(1) by (rule measure_unat)
  then show i: "i < NX_HANDLE_SLOTS" using s(2,3) by (simp add: word_less_nat_alt)
  show "he_obj (tk_handles (task k t) ! i) \<noteq> None" by (rule o)
  have l: "t < length (k_tasks k)" "length (tk_handles (task k t)) = 32" using wf t by (auto simp: caps_wf_def)
  have "tk_handles (task k t) \<in> set (fst (cap_view k))" using l(1) by (simp add: cap_view_def)
  moreover have "tk_handles (task k t) ! i \<in> set (tk_handles (task k t))" using l(2) i by simp
  ultimately show "(the (he_obj (tk_handles (task k t) ! i)), he_rights (tk_handles (task k t) ! i)) \<in> authority k"
    using o by (auto simp: authority_def in_tables_def)
qed

lemma lookup_authority:
  assumes "caps_wf k" and "t < NX_TASK_MAX" and "nx_ht_lookup t h type need k = Inr (p, hv)"
  shows "(p, hv) \<in> authority k" and "hv AND need = need" and "type \<noteq> NX_OBJ_ANY \<Longrightarrow> ob_type (obj k p) = type"
  using assms entry_authority(3) [OF assms(1,2)]
  by (auto simp: nx_ht_lookup_def Let_def split: option.splits if_splits)

lemma dup_conf:
  assumes "caps_wf k" and "t < NX_TASK_MAX" and "nx_ht_dup t h rights k = (res, k')"
  shows "conf S k k'"
proof (cases "nx_ht_lookup t h NX_OBJ_ANY NX_RIGHT_DUPLICATE k")
  case (Inl e)
  then show ?thesis using assms(3) conf_view [OF assms(1)] by (simp add: nx_ht_dup_def)
next
  case (Inr ph)
  obtain p hv where ph: "ph = (p, hv)" by fastforce
  note l = lookup_authority [OF assms(1,2) Inr [unfolded ph]]
  show ?thesis
  proof (cases "rights AND NOT hv = 0")
    case True
    then show ?thesis using assms(3) Inr ph l(1) by (intro install_conf [OF assms(1)]) (auto simp: nx_ht_dup_def)
  next
    case False
    then show ?thesis using assms(3) Inr ph conf_view [OF assms(1)] by (simp add: nx_ht_dup_def)
  qed
qed

section \<open>Queues\<close>

lemma ep_update:
  assumes wf: "caps_wf k" and inv: "ep_inv (es_ep (k_eps k ! e)) \<Longrightarrow> ep_inv (es_ep (f (k_eps k ! e)))"
    and ms: "ep_inv (es_ep (k_eps k ! e)) \<Longrightarrow> set (ep_msgs (es_ep (f (k_eps k ! e)))) \<subseteq> set (ep_msgs (es_ep (k_eps k ! e))) \<union> M"
  shows "caps_wf (upd_ep e f k)"
    and "authority (upd_ep e f k) \<subseteq> authority k \<union> {(p, r). \<exists>m \<in> M. im_obj m = Some p \<and> im_rights m = r}"
proof -
  have h: "in_tables (upd_ep e f k) = in_tables k" by (simp add: in_tables_def cap_view_def)
  have "caps_wf (upd_ep e f k) \<and> in_queues (upd_ep e f k) \<subseteq> in_queues k \<union> {(p, r). \<exists>m \<in> M. im_obj m = Some p \<and> im_rights m = r}"
  proof (cases "e < length (k_eps k)")
    case False
    then have "k_eps (upd_ep e f k) = k_eps k" by (simp add: upd_ep_def list_update_beyond not_less)
    then show ?thesis using wf by (simp add: caps_wf_def in_queues_def)
  next
    case True
    have ei: "ep_inv (es_ep (k_eps k ! e))" using wf True by (simp add: caps_wf_def)
    have q: "s = f (k_eps k ! e) \<or> s \<in> set (k_eps k)" if "s \<in> set (k_eps (upd_ep e f k))" for s
      using that set_update_cases by (auto simp: upd_ep_def dest: set_update_cases)
    have "caps_wf (upd_ep e f k)" using wf q inv [OF ei] by (auto simp: caps_wf_def)
    moreover have "k_eps k ! e \<in> set (k_eps k)" using True by simp
    ultimately show ?thesis using q ms [OF ei] unfolding in_queues_def by blast
  qed
  then show "caps_wf (upd_ep e f k)"
    "authority (upd_ep e f k) \<subseteq> authority k \<union> {(p, r). \<exists>m \<in> M. im_obj m = Some p \<and> im_rights m = r}"
    using h by (auto simp: authority_def)
qed

lemma in_set_tl: "x \<in> set (tl xs) \<Longrightarrow> x \<in> set xs"
  by (cases xs) auto

lemma pop_conf: "caps_wf k \<Longrightarrow> conf S k (upd_ep e (\<lambda>s. s\<lparr>es_ep := nx_ep_pop (es_ep s)\<rparr>) k)"
  using ep_update [of k e "\<lambda>s. s\<lparr>es_ep := nx_ep_pop (es_ep s)\<rparr>" "{}"]
  by (intro conf_sub) (auto simp: ep_pop_inv ep_pop_msgs dest: in_set_tl)

lemma vmo_destroy_view: "vmo_destroy i k = Some k' \<Longrightarrow> cap_view k' = cap_view k"
proof -
  assume "vmo_destroy i k = Some k'"
  then obtain k1 where "kfor nx_page_free (take (unat (vm_pages (k_vmos k ! i))) (vm_phys (k_vmos k ! i))) k = Some k1"
    "k' = upd_vmo i (\<lambda>v. v\<lparr>vm_pages := 0, vm_used := False\<rparr>) k1" by (auto simp: vmo_destroy_def split: Option.bind_splits)
  moreover from this(1) have "mem_only k k1" by (rule mem_only_kfor [of nx_page_free, rotated]) (rule mem_only_page_free)
  ultimately show ?thesis using view_mem by simp
qed

lemma unref_loop_cases:
  assumes "unref_loop (Suc n) p k = Some k'" and k1: "k1 = upd_obj p (\<lambda>b. b\<lparr>ob_refs := ob_refs b - 1\<rparr>) k"
  shows "k' = k \<or> k' = k1 \<or> (\<exists>i. p = Task_obj i \<and> k' = release_slot i k1) \<or> (\<exists>i. vmo_destroy i k1 = Some k')
    \<or> (\<exists>i k2. drain_loop n i k1 = Some k2 \<and> k' = upd_ep i (\<lambda>s. s\<lparr>es_used := False\<rparr>) k2)"
  using assms(1) unfolding unref_loop.simps Let_def k1 [symmetric]
  by (auto split: if_splits destroy_fn.splits optr.splits Option.bind_splits)

lemma drain_loop_cases:
  assumes "drain_loop (Suc n) i k = Some k'"
  shows "k' = k \<or> (\<exists>k1. (k1 = k \<or> (\<exists>p. unref_loop n p k = Some k1))
    \<and> drain_loop n i (upd_ep i (\<lambda>s. s\<lparr>es_ep := nx_ep_pop (es_ep s)\<rparr>) k1) = Some k')"
  using assms by (auto split: option.splits Option.bind_splits)

lemma unref_loop_conf:
  "(\<forall>p k k'. caps_wf k \<longrightarrow> unref_loop n p k = Some k' \<longrightarrow> conf S k k')
   \<and> (\<forall>i k k'. caps_wf k \<longrightarrow> drain_loop n i k = Some k' \<longrightarrow> conf S k k')"
proof (induction n)
  case (Suc n)
  have "conf S k k'" if wf: "caps_wf k" and u: "unref_loop (Suc n) p k = Some k'" for p k k'
  proof -
    define k1 where "k1 = upd_obj p (\<lambda>b. b\<lparr>ob_refs := ob_refs b - 1\<rparr>) k"
    have v: "cap_view k1 = cap_view k" by (simp add: k1_def)
    have c1: "conf S k k1" by (rule conf_view [OF wf v])
    note w1 = conf_wf [OF c1]
    have "conf S k1 (release_slot i k1)" for i by (rule conf_view [OF w1]) (simp add: release_slot_def view_task)
    moreover have "conf S k1 k'" if "vmo_destroy i k1 = Some k'" for i by (rule conf_view [OF w1 vmo_destroy_view [OF that]])
    moreover have "conf S k1 k'" if "drain_loop n i k1 = Some k2" "k' = upd_ep i (\<lambda>s. s\<lparr>es_used := False\<rparr>) k2" for i k2
    proof -
      have c2: "conf S k1 k2" using Suc that(1) w1 by blast
      have "cap_view k' = cap_view k2" unfolding that(2) by (rule view_ep) (simp add: ring_def)
      then show ?thesis using conf_trans [OF c2] conf_view [OF conf_wf [OF c2]] by blast
    qed
    moreover have "conf S k k" by (rule conf_view [OF wf refl])
    ultimately show ?thesis using unref_loop_cases [OF u k1_def] c1 conf_trans by blast
  qed
  moreover have "conf S k k'" if wf: "caps_wf k" and d: "drain_loop (Suc n) i k = Some k'" for i k k'
    using drain_loop_cases [OF d]
  proof (elim disjE exE conjE)
    fix k1 assume k1: "k1 = k" and d1: "drain_loop n i (upd_ep i (\<lambda>s. s\<lparr>es_ep := nx_ep_pop (es_ep s)\<rparr>) k1) = Some k'"
    show ?thesis using Suc d1 conf_trans pop_conf [OF wf] conf_wf unfolding k1 by blast
  next
    fix k1 p assume k1: "unref_loop n p k = Some k1" and d1: "drain_loop n i (upd_ep i (\<lambda>s. s\<lparr>es_ep := nx_ep_pop (es_ep s)\<rparr>) k1) = Some k'"
    have c1: "conf S k k1" using Suc k1 wf by blast
    show ?thesis using Suc d1 conf_trans [OF c1] conf_trans pop_conf [OF conf_wf [OF c1]] conf_wf by blast
  qed (simp add: conf_view [OF wf])
  ultimately show ?case by blast
qed simp

lemma unref_conf: "caps_wf k \<Longrightarrow> nx_obj_unref p k = Some k' \<Longrightarrow> conf S k k'"
  unfolding nx_obj_unref_def using unref_loop_conf by blast

lemma close_conf:
  assumes wf: "caps_wf k" and c: "nx_ht_close t h k = Some (st, k')"
  shows "conf S k k'"
proof (cases "ht_entry (tk_handles (task k t)) h")
  case None
  then show ?thesis using c conf_view [OF wf] by (simp add: nx_ht_close_def)
next
  case (Some i)
  then have u: "nx_obj_unref (the (he_obj (tk_handles (task k t) ! i))) (upd_handle t i clear_entry k) = Some k'"
    using c by (auto simp: nx_ht_close_def split: Option.bind_splits)
  have c1: "conf S k (upd_handle t i clear_entry k)" by (rule clear_conf [OF wf])
  show ?thesis by (rule conf_trans [OF c1 unref_conf [OF conf_wf [OF c1] u]])
qed

end
