(* ===== verification/Confinement.thy ===== *)
theory Confinement
  imports Authority
begin

text \<open>
  Confinement of authority by the operations of the kernel: every system call, its continuations, the timer
  interrupt, user faults and the reaper. A run of the machine never adds rights over an endpoint, a device or
  the sovereign object, whatever the tasks do.
\<close>

section \<open>Scheduling\<close>

lemma view_event [simp]: "cap_view (task_event t type arg k) = cap_view k"
proof -
  have "cap_view (k\<lparr>k_events := e\<rparr>) = cap_view k" for e k by (simp add: cap_view_def)
  then show ?thesis by (simp add: task_event_def Let_def view_task)
qed

lemma view_wake [simp]: "cap_view (nx_task_wake t k) = cap_view k"
  by (simp add: nx_task_wake_def view_task)

lemma view_end_task [simp]: "cap_view (end_task t how k) = cap_view k"
proof -
  define k1 where "k1 = (case tk_blocked_on (task k t) of
                 On_ep e \<Rightarrow> if tk_state (task k t) = NX_TASK_BLOCKED \<and> ep_waiter (es_ep (k_eps k ! e)) = Some t
                           then upd_ep e (\<lambda>s. s\<lparr>es_ep := (es_ep s)\<lparr>ep_waiter := None\<rparr>\<rparr>) k else k
               | _ \<Rightarrow> k)"
  have v1: "cap_view k1 = cap_view k"
    unfolding k1_def by (auto intro!: view_ep simp: ring_def split: blocked_ptr.splits)
  define k2 where "k2 = upd_task t (\<lambda>x. x\<lparr>tk_blocked_on := On_none, tk_end := how, tk_state := NX_TASK_DEAD,
                                tk_ended_tick := k_ticks k1\<rparr>) k1"
  have "cap_view k2 = cap_view k" unfolding k2_def v1 [symmetric] by (rule view_task) simp
  then show ?thesis unfolding end_task_def Let_def k1_def [symmetric] k2_def [symmetric]
    by (simp split: option.splits nx_task_end.splits)
qed

lemma conf_current:
  assumes wf: "caps_wf k" and n: "n < NX_TASK_MAX"
    and v: "cap_view k' = (fst (cap_view k), fst (snd (cap_view k)), n, snd (snd (snd (cap_view k))))"
  shows "conf S k k'"
proof (rule conf_sub)
  show "caps_wf k'" using wf n unfolding caps_wf_view v by (auto split: prod.splits)
  show "authority k' \<subseteq> authority k" by (simp add: authority_def in_tables_def in_queues_view v)
qed

lemma pick_next_slot:
  assumes wf: "caps_wf k" and p: "pick_next k = Some n"
  shows "n < NX_TASK_MAX"
proof (cases "find (\<lambda>t. tk_state (task k t) = NX_TASK_READY \<and> Some t \<noteq> k_idle k)
             (map (\<lambda>i. (tk_slot (task k (k_current k)) + i) mod NX_TASK_MAX) [1..<NX_TASK_MAX + 1])")
  case None
  then have "n = k_current k \<or> k_idle k = Some n" using p unfolding pick_next_def Let_def by (auto simp only: option.simps split: if_splits)
  then show ?thesis using wf by (auto simp: caps_wf_def)
next
  case (Some t)
  then have "n = t" using p unfolding pick_next_def Let_def by (simp only: option.simps)
  moreover have "t \<in> (\<lambda>i. (tk_slot (task k (k_current k)) + i) mod NX_TASK_MAX) ` set [1..<NX_TASK_MAX + 1]"
    using Some unfolding find_Some_iff by (metis in_set_conv_nth set_map)
  ultimately show ?thesis by auto
qed

lemma schedule_conf:
  assumes wf: "caps_wf k" and s: "nx_schedule c k = Some k'"
  shows "conf S k k'"
proof -
  obtain n where n: "pick_next k = Some n" using s by (auto simp: nx_schedule_def Let_def split: Option.bind_splits)
  define k1 where "k1 = upd_task (k_current k) (\<lambda>t. t\<lparr>tk_cont := c\<rparr>) k"
  have v1: "cap_view k1 = cap_view k" by (simp add: k1_def view_task)
  define k2 where "k2 = (if tk_state (task k1 (k_current k)) = NX_TASK_RUNNING
              then upd_task (k_current k) (\<lambda>t. t\<lparr>tk_state := NX_TASK_READY\<rparr>) k1 else k1)"
  have v2: "cap_view k2 = cap_view k" by (simp add: k2_def view_task v1)
  define k3 where "k3 = upd_task n (\<lambda>t. t\<lparr>tk_state := NX_TASK_RUNNING, tk_slice := NX_SCHED_SLICE\<rparr>) k2"
  have v3: "cap_view k3 = cap_view k" by (simp add: k3_def view_task v2)
  show ?thesis
  proof (cases "n = k_current k")
    case True
    then have "k' = upd_task (k_current k) (\<lambda>t. t\<lparr>tk_slice := NX_SCHED_SLICE\<rparr>) k1" using s n by (simp add: nx_schedule_def Let_def k1_def)
    then show ?thesis using v1 by (intro conf_view [OF wf]) (simp add: view_task)
  next
    case False
    then have k': "k' = k3\<lparr>k_current := n, k_switches := k_switches k3 + 1\<rparr>"
      using s n unfolding k3_def k2_def k1_def by (simp add: nx_schedule_def Let_def)
    have "cap_view k' = (fst (cap_view k3), fst (snd (cap_view k3)), n, snd (snd (snd (cap_view k3))))"
      by (simp add: k' cap_view_def)
    then show ?thesis unfolding v3 by (rule conf_current [OF wf pick_next_slot [OF wf n]])
  qed
qed

text \<open>Changes that keep the view before an operation.\<close>

lemma conf_after: "caps_wf k \<Longrightarrow> cap_view k1 = cap_view k \<Longrightarrow> (caps_wf k1 \<Longrightarrow> conf S k1 k') \<Longrightarrow> conf S k k'"
  by (meson conf_trans conf_view conf_wf)

lemma schedule_via: "nx_schedule c k1 = Some k' \<Longrightarrow> caps_wf k \<Longrightarrow> cap_view k1 = cap_view k \<Longrightarrow> conf S k k'"
  using conf_after schedule_conf by metis

lemma block_via: "nx_task_block on c k1 = Some k' \<Longrightarrow> caps_wf k \<Longrightarrow> cap_view k1 = cap_view k \<Longrightarrow> conf S k k'"
  unfolding nx_task_block_def by (erule schedule_via) (simp_all add: view_task)

lemma sleep_via: "nx_task_sleep n c k1 = Some k' \<Longrightarrow> caps_wf k \<Longrightarrow> cap_view k1 = cap_view k \<Longrightarrow> conf S k k'"
  unfolding nx_task_sleep_def by (erule block_via) (simp_all add: view_task)

lemma yield_via: "nx_yield c k1 = Some k' \<Longrightarrow> caps_wf k \<Longrightarrow> cap_view k1 = cap_view k \<Longrightarrow> conf S k k'"
  unfolding nx_yield_def by (erule schedule_via) (simp_all add: view_task)

lemma exit_conf: "nx_task_exit_current code k = Some k' \<Longrightarrow> caps_wf k \<Longrightarrow> conf S k k'"
  unfolding nx_task_exit_current_def Let_def by (erule schedule_via) (simp_all add: view_task)

lemma terminate_conf:
  assumes t: "nx_task_terminate t how killer k = Some (g, k')" and wf: "caps_wf k"
  shows "conf S k k'"
proof -
  define k1 where "k1 = end_task t how (upd_task t (\<lambda>x. x\<lparr>tk_killer_id := killer\<rparr>) k)"
  have v: "cap_view k1 = cap_view k" by (simp add: k1_def view_task)
  have "k' = k \<or> k' = k1 \<or> nx_schedule K_Dead k1 = Some k'"
    using t unfolding nx_task_terminate_def Let_def k1_def [symmetric] by (auto split: if_splits Option.bind_splits)
  then show ?thesis using conf_view [OF wf] v schedule_via [OF _ wf v] by auto
qed

lemma user_trap_conf:
  assumes t: "nx_user_trap f cr2 k = Some k'" and wf: "caps_wf k"
  shows "conf S k k'"
proof -
  define k1 where "k1 = upd_task (k_current k) (\<lambda>x. x\<lparr>tk_fault_vector := tf_vector f, tk_fault_error := tf_error f, tk_fault_rip := tf_rip f,
                          tk_fault_cr2 := cr2\<rparr>) k"
  have v: "cap_view k1 = cap_view k" by (simp add: k1_def view_task)
  obtain g where "nx_task_terminate (k_current k) NX_END_FAULT 0 k1 = Some (g, k')"
    using t unfolding nx_user_trap_def Let_def k1_def [symmetric] by (auto simp: bind_eq_Some_conv split: if_splits)
  then show ?thesis using conf_after [OF wf v] terminate_conf by blast
qed

lemma view_wake_sleepers [simp]: "cap_view (wake_sleepers k) = cap_view k"
proof -
  have "cap_view (fold (\<lambda>s k. if tk_state (task k s) = NX_TASK_BLOCKED \<and> tk_blocked_on (task k s) = On_sleep
      \<and> k_ticks k \<ge> tk_wake_tick (task k s) then nx_task_wake s k else k) xs k) = cap_view k" for xs
    by (induction xs arbitrary: k) simp_all
  then show ?thesis by (simp add: wake_sleepers_def del: upt_rec_numeral)
qed

lemma tick_conf:
  assumes s: "sched_tick c k = Some k'" and wf: "caps_wf k"
  shows "conf S k k'"
proof -
  define k1 where "k1 = wake_sleepers (upd_task (k_current k) (\<lambda>t. t\<lparr>tk_ticks := tk_ticks t + 1,
      tk_slice := (if tk_slice t \<noteq> 0 then tk_slice t - 1 else 0)\<rparr>) k)"
  have v1: "cap_view k1 = cap_view k" by (simp add: k1_def view_task)
  define k2 where "k2 = (upd_task (k_current k) (\<lambda>t. t\<lparr>tk_preempted := tk_preempted t + 1\<rparr>) k1)\<lparr>k_preemptions := k_preemptions k1 + 1\<rparr>"
  have "cap_view k2 = cap_view (upd_task (k_current k) (\<lambda>t. t\<lparr>tk_preempted := tk_preempted t + 1\<rparr>) k1)"
    by (simp add: k2_def cap_view_def upd_task_def)
  then have v2: "cap_view k2 = cap_view k" by (simp add: view_task v1)
  have v3: "cap_view (upd_task (k_current k) (\<lambda>t. t\<lparr>tk_cont := c\<rparr>) k1) = cap_view k" by (simp add: view_task v1)
  have "k' = upd_task (k_current k) (\<lambda>t. t\<lparr>tk_cont := c\<rparr>) k1 \<or> nx_schedule c k1 = Some k' \<or> nx_schedule c k2 = Some k'"
    using s unfolding sched_tick_def Let_def k1_def [symmetric] k2_def [symmetric] by (auto split: if_splits)
  then show ?thesis using conf_view [OF wf v3] schedule_via [OF _ wf v1] schedule_via [OF _ wf v2] by blast
qed

lemma periodic_conf: "on_periodic c k = Some k' \<Longrightarrow> caps_wf k \<Longrightarrow> conf S k k'"
proof -
  assume t: "on_periodic c k = Some k'" and wf: "caps_wf k"
  have v: "cap_view (k\<lparr>k_ticks := k_ticks k + 1\<rparr>) = cap_view k" by (rule view_fields) simp_all
  show ?thesis using t unfolding on_periodic_def by (intro conf_after [OF wf v]) (rule tick_conf)
qed

section \<open>Creating and ending tasks\<close>

lemma conf_keep: "conf S k k1 \<Longrightarrow> cap_view k2 = cap_view k1 \<Longrightarrow> conf S k k2"
  by (meson conf_trans conf_view conf_wf)

lemma view_kstack_free: "kstack_free t k = Some k' \<Longrightarrow> cap_view k' = cap_view k"
proof -
  assume "kstack_free t k = Some k'"
  then obtain k1 where k1: "kfor (\<lambda>i k. case nx_vmm_unmap_page (kstack_bottom (task k t) + of_nat i * NX_PAGE_4K) k of
                (Inr pa, k) \<Rightarrow> nx_page_free pa k | (Inl e, k) \<Rightarrow> Some k) [0..<NX_KSTACK_PAGES] k = Some k1"
    and k': "k' = upd_task t (\<lambda>x. x\<lparr>tk_kstack_top := 0\<rparr>) k1"
    unfolding kstack_free_def by (auto simp: bind_eq_Some_conv simp del: upt_rec_numeral)
  have "mem_only k k1" using k1
  proof (rule mem_only_kfor [rotated])
    fix i k k' assume b: "(case nx_vmm_unmap_page (kstack_bottom (task k t) + of_nat i * NX_PAGE_4K) k of
                (Inr pa, k) \<Rightarrow> nx_page_free pa k | (Inl e, k) \<Rightarrow> Some k) = Some k'"
    obtain r k2 where u: "nx_vmm_unmap_page (kstack_bottom (task k t) + of_nat i * NX_PAGE_4K) k = (r, k2)" by fastforce
    show "mem_only k k'" using b u mem_only_unmap [OF u] mem_only_page_free mem_only_trans by (cases r) auto
  qed
  then show ?thesis using view_mem by (simp add: k' view_task)
qed

lemma view_kstack_fill: "kstack_fill n i t k = Some (st, k') \<Longrightarrow> cap_view k' = cap_view k"
proof (induction n arbitrary: i k)
  case (Suc n)
  obtain pa k1 where a: "kpage_alloc k = (pa, k1)" by fastforce
  obtain st2 k2 where m: "(if pa = 0 then (NX_PT_E_NOMEM, k1)
                    else nx_vmm_map_page (kstack_bottom (task k1 t) + of_nat i * NX_PAGE_4K) pa
                           (NX_PTE_W OR NX_PTE_NX OR NX_PTE_G) k1) = (st2, k2)" by fastforce
  have "mem_only k1 k2" using m mem_only_map by (auto split: if_splits)
  then have v2: "cap_view k2 = cap_view k" using view_mem mem_only_kpage_alloc [OF a] by simp
  show ?case
  proof (cases "st2 = NX_PT_OK")
    case True
    have "cap_view (k2\<lparr>k_mem := zero_page (k_mem k2) pa\<rparr>) = cap_view k2" by (rule view_mem) simp
    then show ?thesis using True Suc a m v2 by simp
  next
    case False
    then obtain k3 where k3: "(if pa \<noteq> 0 then nx_page_free pa k2 else Some k2) = Some k3"
      "kstack_free t (upd_task t (\<lambda>x. x\<lparr>tk_kstack_top := 1\<rparr>) k3) = Some k'"
      using Suc.prems a m by (auto simp: bind_eq_Some_conv)
    have "mem_only k2 k3" using k3(1) mem_only_page_free by (auto split: if_splits)
    then show ?thesis using view_kstack_free [OF k3(2)] v2 view_mem by (simp add: view_task)
  qed
qed simp

lemma view_kstack_alloc: "kstack_alloc t k = Some (st, k') \<Longrightarrow> cap_view k' = cap_view k"
  unfolding kstack_alloc_def
  by (auto simp: bind_eq_Some_conv view_task simp del: kstack_fill.simps split: if_splits dest: view_kstack_fill)

lemma alloc_task_conf:
  assumes a: "alloc_task name k = (r, k')" and wf: "caps_wf k"
  shows "conf S k k'"
proof (cases "find (\<lambda>s. tk_state (task k s) = NX_TASK_FREE) [0..<NX_TASK_MAX]")
  case None
  then show ?thesis using a conf_view [OF wf] unfolding alloc_task_def by (simp only: option.simps prod.inject)
next
  case (Some s)
  then have k': "k' = (upd_task s (\<lambda>_. fresh_task (k_next_id k) s name) k)\<lparr>k_next_id := k_next_id k + 1\<rparr>"
    using a unfolding alloc_task_def by (simp only: option.simps prod.inject)
  have v: "cap_view k' = ((fst (cap_view k))[s := nx_ht_init], snd (cap_view k))"
    by (simp add: k' cap_view_def upd_task_def map_update fresh_task_def)
  have i: "he_obj e = None" if "e \<in> set nx_ht_init" for e using that by (auto simp: nx_ht_init_def)
  have m: "x = nx_ht_init \<or> x \<in> set (fst (cap_view k))" if "x \<in> set ((fst (cap_view k))[s := nx_ht_init])" for x
    using that by (rule set_update_cases)
  show ?thesis
  proof (rule conf_sub)
    have "length nx_ht_init = NX_HANDLE_SLOTS" by (simp add: nx_ht_init_def)
    then show "caps_wf k'" using wf m unfolding caps_wf_view v by (auto split: prod.splits)
    have "in_tables k' \<subseteq> in_tables k" using m i unfolding in_tables_def v by fastforce
    then show "authority k' \<subseteq> authority k" by (auto simp: authority_def in_queues_view v)
  qed
qed

lemma view_utask_space:
  assumes "utask_space t elf sz k = Some (r, k')"
  shows "cap_view k' = cap_view k"
proof -
  obtain cr3 k1 where c: "nx_as_create k = (cr3, k1)" by fastforce
  define k2 where "k2 = upd_task t (\<lambda>x. x\<lparr>tk_cr3 := cr3\<rparr>) k1"
  have v2: "cap_view k2 = cap_view k" using view_mem [OF mem_only_as_create [OF c]] by (simp add: k2_def view_task)
  have "k' = k2 \<or> (\<exists>r. load_elf cr3 elf sz k2 = Some (r, k'))
     \<or> (\<exists>r k3 st. load_elf cr3 elf sz k2 = Some (r, k3) \<and> kwhile_ok (map_stack_page cr3) [0..<unat NX_USER_STACK_PAGES] k3 = Some (st, k'))"
    using assms c unfolding utask_space_def Let_def
    by (auto simp: k2_def bind_eq_Some_conv split: if_splits)
  moreover have "mem_only k k'" if "map_stack_page root i k = Some (st, k')" for root i k st k'
    using that mem_only_new_page by (auto simp: map_stack_page_def bind_eq_Some_conv)
  then have "mem_only k3 k'" if "kwhile_ok (map_stack_page cr3) xs k3 = Some (st, k')" for k3 st xs
    using mem_only_kwhile [OF _ that] by blast
  ultimately have "mem_only k2 k'" using mem_only_load_elf mem_only_trans mem_only_refl by blast
  then show ?thesis using v2 view_mem by simp
qed

lemma utask_create_conf:
  assumes u: "nx_utask_create name elf sz args k = Some (r, k')" and wf: "caps_wf k"
  shows "conf S k k'"
proof -
  obtain a k1 where a: "alloc_task name k = (a, k1)" by fastforce
  note c1 = alloc_task_conf [OF a wf]
  show ?thesis
  proof (cases a)
    case None
    then show ?thesis using u a c1 by (simp add: nx_utask_create_def)
  next
    case (Some t)
    then obtain st k2 where s: "kstack_alloc t k1 = Some (st, k2)" using u a by (auto simp: nx_utask_create_def bind_eq_Some_conv)
    note v2 = view_kstack_alloc [OF s]
    show ?thesis
    proof (cases "st = NX_OK")
      case False
      then show ?thesis using u a s v2 Some by (intro conf_keep [OF c1]) (auto simp: nx_utask_create_def view_task)
    next
      case True
      then obtain st3 ent k3 where sp: "utask_space t elf sz (upd_task t (\<lambda>x. x\<lparr>tk_user := True\<rparr>) k2) = Some ((st3, ent), k3)"
        using u a s Some by (auto simp: nx_utask_create_def bind_eq_Some_conv)
      have v3: "cap_view k3 = cap_view k1" using view_utask_space [OF sp] v2 by (simp add: view_task)
      consider k4 k5 where "(if tk_cr3 (task k3 t) \<noteq> 0 then nx_as_destroy (tk_cr3 (task k3 t)) free_owned_leaf k3 else Some k3) = Some k4"
          "kstack_free t k4 = Some k5" "k' = upd_task t (\<lambda>x. x\<lparr>tk_state := NX_TASK_FREE\<rparr>) k5"
        | "cap_view k' = cap_view k3"
        using u a s Some True sp by (cases "st3 = NX_OK") (auto simp: nx_utask_create_def bind_eq_Some_conv view_task)
      then have "cap_view k' = cap_view k3"
      proof cases
        case 1
        have "mem_only k3 k4" using 1(1) mem_only_as_destroy by (auto split: if_splits)
        then show ?thesis using 1(3) view_kstack_free [OF 1(2)] view_mem by (simp add: view_task)
      qed
      then show ?thesis using v3 by (intro conf_keep [OF c1]) simp
    qed
  qed
qed

section \<open>Reaping\<close>

lemma conf_kfor:
  assumes "\<And>x k k'. f x k = Some k' \<Longrightarrow> caps_wf k \<Longrightarrow> conf S k k'" and "kfor f xs k = Some k'" and "caps_wf k"
  shows "conf S k k'"
  using assms(2,3)
proof (induction xs arbitrary: k)
  case (Cons x xs)
  then obtain k1 where k1: "f x k = Some k1" "kfor f xs k1 = Some k'" by (auto split: Option.bind_splits)
  have "conf S k k1" by (rule assms(1) [OF k1(1) Cons.prems(2)])
  then show ?case using Cons.IH [OF k1(2)] conf_trans conf_wf by blast
qed (simp add: conf_view)

lemma view_print_end: "print_end t k = Some k' \<Longrightarrow> cap_view k' = cap_view k"
  by (auto simp: print_end_def split: nx_task_end.splits dest: view_kprintf)

lemma unref_map_conf:
  assumes u: "unref_map t i k = Some k'" and wf: "caps_wf k"
  shows "conf S k k'"
proof (cases "mp_vmo (tk_maps (task k t) ! i)")
  case None
  then show ?thesis using u conf_view [OF wf] by (simp add: unref_map_def)
next
  case (Some v)
  then obtain k1 where k1: "nx_obj_unref (Vmo_obj v) k = Some k1"
    "k' = upd_task t (\<lambda>x. x\<lparr>tk_maps := (tk_maps x)[i := (tk_maps x ! i)\<lparr>mp_vmo := None\<rparr>]\<rparr>) k1"
    using u by (auto simp: unref_map_def bind_eq_Some_conv)
  show ?thesis unfolding k1(2) by (rule conf_keep [OF unref_conf [OF wf k1(1)]]) (simp add: view_task)
qed

lemma ht_clear_conf: "nx_ht_clear t k = Some k' \<Longrightarrow> caps_wf k \<Longrightarrow> conf S k k'"
  unfolding nx_ht_clear_def
  by (erule conf_kfor [rotated], assumption) (auto split: if_splits intro: close_conf conf_view)

lemma reap_conf:
  assumes r: "reap t k = Some k'" and wf: "caps_wf k"
  shows "conf S k k'"
proof -
  obtain k1 k2 k3 k4 k5 where k: "print_end (task k t) k = Some k1" "nx_ht_clear t k1 = Some k2"
      "(if tk_user (task k2 t) then nx_as_destroy (tk_cr3 (task k2 t)) free_owned_leaf k2 else Some k2) = Some k3"
      "kfor (unref_map t) [0..<NX_TASK_MAPS] k3 = Some k4" "kstack_free t k4 = Some k5"
      "nx_obj_unref (Task_obj t) (task_event t NX_EV_TASK_REAPED 0 (upd_task t (\<lambda>x. x\<lparr>tk_state := NX_TASK_REAPED\<rparr>) k5)) = Some k'"
    using r unfolding reap_def Let_def by (auto simp: bind_eq_Some_conv simp del: upt_rec_numeral kfor.simps)
  have c1: "conf S k k1" by (rule conf_view [OF wf view_print_end [OF k(1)]])
  have c2: "conf S k k2" by (rule conf_trans [OF c1 ht_clear_conf [OF k(2) conf_wf [OF c1]]])
  have "mem_only k2 k3" using k(3) mem_only_as_destroy by (auto split: if_splits)
  then have c3: "conf S k k3" by (rule conf_keep [OF c2 view_mem])
  have c4: "conf S k k4" by (rule conf_trans [OF c3 conf_kfor [OF unref_map_conf k(4) conf_wf [OF c3]]])
  define k6 where "k6 = task_event t NX_EV_TASK_REAPED 0 (upd_task t (\<lambda>x. x\<lparr>tk_state := NX_TASK_REAPED\<rparr>) k5)"
  have "cap_view k6 = cap_view k4" using view_kstack_free [OF k(5)] by (simp add: k6_def view_task)
  then have c6: "conf S k k6" by (rule conf_keep [OF c4])
  show ?thesis by (rule conf_trans [OF c6 unref_conf [OF conf_wf [OF c6] k(6) [folded k6_def]]])
qed

lemma reaper_conf:
  assumes r: "reaper_round k = Some k'" and wf: "caps_wf k"
  shows "conf S k k'"
proof -
  obtain k1 where k1: "kfor (\<lambda>s k. if tk_state (task k s) = NX_TASK_DEAD \<and> tk_waiter (task k s) = None then reap s k else Some k)
            [0..<NX_TASK_MAX] k = Some k1" "nx_task_block On_none K_Reaper k1 = Some k'"
    using r unfolding reaper_round_def by (auto simp: bind_eq_Some_conv simp del: upt_rec_numeral kfor.simps)
  have c: "conf S k k1" by (rule conf_kfor [OF _ k1(1) wf]) (auto split: if_splits intro: reap_conf conf_view)
  show ?thesis by (rule conf_trans [OF c block_via [OF k1(2) conf_wf [OF c] refl]])
qed

end
