(* ===== verification/Sched_Inv.thy ===== *)
theory Sched_Inv
  imports Kernel_Frame
begin

text \<open>
  The scheduler keeps one invariant: exactly the current task is running, and the idle thread is always
  there to run. Its consequences are that \<open>nx_schedule\<close> always finds a task, and that a task that is
  ready runs after a bounded number of timer ticks, whatever the other tasks do.
\<close>

section \<open>The invariant\<close>

abbreviation st_of :: "kernel \<Rightarrow> nat \<Rightarrow> nx_task_state" where
  "st_of k i \<equiv> tk_state (task k i)"

text \<open>Before \<open>nx_schedule\<close> the current task may have blocked or ended.\<close>

definition sched_pre :: "kernel \<Rightarrow> bool" where
  "sched_pre k \<longleftrightarrow> length (k_tasks k) = NX_TASK_MAX \<and> k_current k < NX_TASK_MAX
     \<and> (\<forall>i < NX_TASK_MAX. st_of k i \<noteq> NX_TASK_FREE \<longrightarrow> tk_slot (task k i) = i)
     \<and> st_of k (k_current k) \<notin> {NX_TASK_FREE, NX_TASK_READY}
     \<and> (\<forall>i < NX_TASK_MAX. st_of k i = NX_TASK_RUNNING \<longrightarrow> i = k_current k)
     \<and> (\<exists>i < NX_TASK_MAX. k_idle k = Some i \<and> (st_of k i = NX_TASK_READY \<or> st_of k i = NX_TASK_RUNNING))"

definition sched_inv :: "kernel \<Rightarrow> bool" where
  "sched_inv k \<longleftrightarrow> sched_pre k \<and> st_of k (k_current k) = NX_TASK_RUNNING"

lemma sched_invI:
  assumes "length (k_tasks k) = NX_TASK_MAX" and "k_current k < NX_TASK_MAX" and "st_of k (k_current k) = NX_TASK_RUNNING"
    and "\<forall>i < NX_TASK_MAX. st_of k i \<noteq> NX_TASK_FREE \<longrightarrow> tk_slot (task k i) = i"
    and "\<forall>i < NX_TASK_MAX. st_of k i = NX_TASK_RUNNING \<longrightarrow> i = k_current k"
    and "k_idle k = Some d" and "d < NX_TASK_MAX" and "st_of k d = NX_TASK_READY \<or> st_of k d = NX_TASK_RUNNING"
  shows "sched_inv k"
  unfolding sched_inv_def sched_pre_def
  by (intro conjI exI [of _ d]) (fact assms | simp only: assms(3) insert_iff empty_iff nx_task_state.distinct simp_thms)+

definition ready_task :: "kernel \<Rightarrow> nat \<Rightarrow> bool" where
  "ready_task k t \<longleftrightarrow> t < NX_TASK_MAX \<and> st_of k t = NX_TASK_READY \<and> k_idle k \<noteq> Some t"

text \<open>How far task \<open>t\<close> is behind task \<open>c\<close> in the order of the slots: 1 for the next slot, 32 for \<open>c\<close> itself.\<close>

definition behind :: "nat \<Rightarrow> nat \<Rightarrow> nat" where
  "behind c t = (if c < t then t - c else t + NX_TASK_MAX - c)"

section \<open>The choice of the next task\<close>

text \<open>The round-robin search finds the ready task that is the least far behind.\<close>

lemma find_map_upt_Some:
  assumes "find P (map f [a..<b]) = Some y"
  shows "\<exists>i. a \<le> i \<and> i < b \<and> y = f i \<and> P y \<and> (\<forall>j. a \<le> j \<and> j < i \<longrightarrow> \<not> P (f j))"
proof -
  obtain n where n: "n < b - a" "P (f (a + n))" "y = f (a + n)" "\<forall>j<n. \<not> P (f (a + j))"
    using assms by (auto simp: find_Some_iff)
  show ?thesis
  proof (intro exI [of _ "a + n"] conjI allI impI)
    fix j assume "a \<le> j \<and> j < a + n"
    then have "j - a < n" "a + (j - a) = j" by auto
    then show "\<not> P (f j)" using n(4) by metis
  qed (use n in auto)
qed

lemma behind_slot:
  assumes "c < NX_TASK_MAX" and "1 \<le> i" and "i \<le> NX_TASK_MAX"
  shows "behind c ((c + i) mod NX_TASK_MAX) = i"
  using assms by (auto simp: behind_def mod_if)

lemma slot_behind:
  assumes "c < NX_TASK_MAX" and "t < NX_TASK_MAX"
  shows "(c + behind c t) mod NX_TASK_MAX = t" and "1 \<le> behind c t" and "behind c t \<le> NX_TASK_MAX"
  using assms by (auto simp: behind_def)

lemma pick_next_ready:
  assumes pre: "sched_pre k" and r: "ready_task k t"
  obtains n where "pick_next k = Some n" and "ready_task k n" and "n = t \<or> behind (k_current k) n < behind (k_current k) t"
proof -
  define c where "c = k_current k"
  define P where "P = (\<lambda>t. st_of k t = NX_TASK_READY \<and> Some t \<noteq> k_idle k)"
  define f where "f = (\<lambda>i. (c + i) mod NX_TASK_MAX)"
  have c: "c < 32" "tk_slot (task k c) = c" using pre by (auto simp: sched_pre_def c_def)
  have sb: "f (behind c t) = t" "1 \<le> behind c t" "behind c t \<le> 32"
    using slot_behind [OF c(1)] r by (auto simp: f_def ready_task_def)
  have P: "P t" using r by (auto simp: P_def ready_task_def)
  have "behind c t \<in> set [1..<NX_TASK_MAX + 1]" using sb(2,3) by (simp only: set_upt) simp
  then have "t \<in> set (map f [1..<NX_TASK_MAX + 1])" using sb(1) by (metis image_eqI set_map)
  then have "find P (map f [1..<NX_TASK_MAX + 1]) \<noteq> None" using P by (metis find_None_iff)
  then obtain n where n: "find P (map f [1..<NX_TASK_MAX + 1]) = Some n" by blast
  then have pn: "pick_next k = Some n"
    unfolding pick_next_def Let_def c_def [symmetric] c(2) P_def [symmetric] f_def [symmetric]
    by (simp only: option.simps)
  obtain i where i: "1 \<le> i" "i < 33" "n = f i" "P n" "\<forall>j. 1 \<le> j \<and> j < i \<longrightarrow> \<not> P (f j)"
    using find_map_upt_Some [OF n] by auto
  have "i \<le> behind c t" using i(5) sb P by (metis not_le_imp_less)
  moreover have "behind c n = i" using behind_slot [OF c(1) i(1)] i(2,3) by (simp add: f_def)
  moreover have "n = t" if "i = behind c t" using that i(3) sb(1) by simp
  ultimately have "n = t \<or> behind c n < behind c t" by linarith
  moreover have "ready_task k n" using i by (auto simp: P_def f_def ready_task_def)
  ultimately show thesis using that pn by (simp add: c_def)
qed

lemma pick_next_total:
  assumes pre: "sched_pre k"
  obtains n where "pick_next k = Some n" and "n < NX_TASK_MAX"
    and "ready_task k n \<or> n = k_current k \<and> st_of k n = NX_TASK_RUNNING \<or> k_idle k = Some n"
proof (cases "\<exists>t. ready_task k t")
  case True
  then show ?thesis using pick_next_ready [OF pre] that by (metis ready_task_def)
next
  case False
  obtain i where i: "k_idle k = Some i" "i < 32" using pre by (auto simp: sched_pre_def)
  have "find (\<lambda>t. st_of k t = NX_TASK_READY \<and> Some t \<noteq> k_idle k)
      (map (\<lambda>i. (tk_slot (task k (k_current k)) + i) mod NX_TASK_MAX) [1..<NX_TASK_MAX + 1]) = None"
    unfolding find_None_iff using False by (auto simp: ready_task_def simp del: upt_rec_numeral)
  then have p: "pick_next k = (if st_of k (k_current k) = NX_TASK_RUNNING \<and> Some (k_current k) \<noteq> k_idle k
      then Some (k_current k) else k_idle k)" unfolding pick_next_def Let_def by (simp only: option.simps)
  have c: "k_current k < 32" using pre by (simp add: sched_pre_def)
  show ?thesis
  proof (cases "st_of k (k_current k) = NX_TASK_RUNNING \<and> Some (k_current k) \<noteq> k_idle k")
    case True
    then show ?thesis using that [of "k_current k"] p c by simp
  next
    case False
    then show ?thesis using that [of i] p i by (simp only: if_False simp_thms)
  qed
qed

section \<open>Switching\<close>

text \<open>
  How much is left until task \<open>t\<close> runs: three for each slot it is behind, and the ticks of the slice that
  is running.
\<close>

definition wait_of :: "kernel \<Rightarrow> nat \<Rightarrow> nat" where
  "wait_of k t = 3 * behind (k_current k) t + unat (tk_slice (task k (k_current k)))"

lemma schedule_effect:
  assumes pre: "sched_pre k" and p: "pick_next k = Some n" and n: "n < NX_TASK_MAX"
    and c: "ready_task k n \<or> n = k_current k \<and> st_of k n = NX_TASK_RUNNING \<or> k_idle k = Some n"
  shows "\<exists>k'. nx_schedule cont k = Some k' \<and> sched_inv k' \<and> k_current k' = n \<and> tk_slice (task k' n) = NX_SCHED_SLICE
    \<and> k_idle k' = k_idle k \<and> k_preempt k' = k_preempt k \<and> (\<forall>i. i \<noteq> n \<longrightarrow> i \<noteq> k_current k \<longrightarrow> task k' i = task k i)"
proof -
  define prev where "prev = k_current k"
  have h: "length (k_tasks k) = 32" "prev < 32" "st_of k prev \<noteq> NX_TASK_FREE" "st_of k prev \<noteq> NX_TASK_READY"
    "\<forall>i < 32. st_of k i \<noteq> NX_TASK_FREE \<longrightarrow> tk_slot (task k i) = i"
    "\<forall>i < 32. st_of k i = NX_TASK_RUNNING \<longrightarrow> i = prev"
    using pre by (simp_all add: sched_pre_def prev_def)
  obtain d where d: "k_idle k = Some d" "d < 32" "st_of k d = NX_TASK_READY \<or> st_of k d = NX_TASK_RUNNING"
    using pre by (auto simp: sched_pre_def)
  have np: "st_of k n = NX_TASK_RUNNING" if "n = prev"
    using that c d h(4) by (auto simp: ready_task_def prev_def)
  have nn: "st_of k n = NX_TASK_READY" if "n \<noteq> prev"
    using that c d h(6) by (auto simp: ready_task_def prev_def)
  show ?thesis
  proof (cases "n = prev")
    case True
    define k' where "k' = upd_task prev (\<lambda>t. t\<lparr>tk_slice := NX_SCHED_SLICE\<rparr>) (upd_task prev (\<lambda>t. t\<lparr>tk_cont := cont\<rparr>) k)"
    have "nx_schedule cont k = Some k'" using p True by (simp add: nx_schedule_def k'_def prev_def Let_def)
    moreover have f: "length (k_tasks k') = 32" "k_current k' = prev" "k_idle k' = k_idle k" "st_of k' i = st_of k i"
      "tk_slot (task k' i) = tk_slot (task k i)" for i
      using h(1,2) by (auto simp: k'_def prev_def)
    moreover have "sched_inv k'"
      unfolding sched_inv_def using pre np True unfolding sched_pre_def f prev_def [symmetric] by blast
    moreover have "tk_slice (task k' n) = NX_SCHED_SLICE" "k_preempt k' = k_preempt k" "i \<noteq> n \<longrightarrow> task k' i = task k i" for i
      using h(1,2) True by (auto simp: k'_def)
    ultimately show ?thesis using f(2,3) True by (intro exI [of _ k']) simp
  next
    case False
    define k1 where "k1 = upd_task prev (\<lambda>t. t\<lparr>tk_cont := cont\<rparr>) k"
    define k2 where "k2 = (if st_of k1 prev = NX_TASK_RUNNING then upd_task prev (\<lambda>t. t\<lparr>tk_state := NX_TASK_READY\<rparr>) k1 else k1)"
    define k3 where "k3 = upd_task n (\<lambda>t. t\<lparr>tk_state := NX_TASK_RUNNING, tk_slice := NX_SCHED_SLICE\<rparr>) k2"
    define k' where "k' = k3\<lparr>k_current := n, k_switches := k_switches k3 + 1\<rparr>"
    have e: "nx_schedule cont k = Some k'"
      using p False unfolding nx_schedule_def Let_def prev_def [symmetric] k1_def [symmetric] k2_def [symmetric]
        by (simp add: k'_def k3_def)
    have t2: "length (k_tasks k2) = 32" "k_idle k2 = k_idle k" "k_preempt k2 = k_preempt k"
      "i \<noteq> prev \<longrightarrow> task k2 i = task k i" "st_of k2 prev \<noteq> NX_TASK_RUNNING" "st_of k2 prev \<noteq> NX_TASK_FREE"
      "tk_slot (task k2 prev) = prev" "st_of k prev = NX_TASK_RUNNING \<longrightarrow> st_of k2 prev = NX_TASK_READY" for i
      using h(1-4) h(5) [rule_format, of prev] by (auto simp: k2_def k1_def)
    have t': "length (k_tasks k') = 32" "k_idle k' = k_idle k" "k_preempt k' = k_preempt k" "k_current k' = n"
      "i \<noteq> n \<longrightarrow> task k' i = task k2 i" "st_of k' n = NX_TASK_RUNNING" "tk_slice (task k' n) = NX_SCHED_SLICE"
      "tk_slot (task k' n) = tk_slot (task k2 n)" for i
      using t2(1-3) n by (auto simp: k'_def k3_def)
    have sl: "tk_slot (task k' i) = i" if "i < 32" "st_of k' i \<noteq> NX_TASK_FREE" for i
    proof -
      consider "i = n" | "i \<noteq> n" "i = prev" | "i \<noteq> n" "i \<noteq> prev" by blast
      then show ?thesis
      proof cases
        case 1
        then show ?thesis using t'(8) t2(4) [of n] h(5) [rule_format, of n] nn False n by simp
      next
        case 2
        then show ?thesis using t'(5) [of i] t2(7) by simp
      next
        case 3
        then show ?thesis using t'(5) [of i] t2(4) [of i] h(5) [rule_format, of i] that by simp
      qed
    qed
    have ru: "i = n" if "i < 32" "st_of k' i = NX_TASK_RUNNING" for i
    proof (rule ccontr)
      assume "i \<noteq> n"
      then have "st_of k2 i = NX_TASK_RUNNING" using that(2) t'(5) [of i] by simp
      moreover from this have "i \<noteq> prev" using t2(5) by blast
      ultimately show False using t2(4) [of i] h(6) [rule_format, OF that(1)] by simp
    qed
    have idle: "st_of k' d = NX_TASK_READY \<or> st_of k' d = NX_TASK_RUNNING"
    proof (cases "d = n \<or> d = prev")
      case True
      then show ?thesis using t'(5) [of prev] t'(6) t2(8) d(3) h(4) by (cases "d = n") auto
    next
      case False
      then show ?thesis using t'(5) [of d] t2(4) [of d] d(3) by simp
    qed
    have "sched_inv k'"
    proof (rule sched_invI)
      show "\<forall>i < NX_TASK_MAX. st_of k' i \<noteq> NX_TASK_FREE \<longrightarrow> tk_slot (task k' i) = i" using sl by blast
      show "\<forall>i < NX_TASK_MAX. st_of k' i = NX_TASK_RUNNING \<longrightarrow> i = k_current k'" unfolding t'(4) using ru by blast
      show "k_idle k' = Some d" by (simp only: t'(2) d(1))
      show "k_current k' < NX_TASK_MAX" "st_of k' (k_current k') = NX_TASK_RUNNING" unfolding t'(4) by (rule n, rule t'(6))
    qed (rule t'(1) d(2) idle)+
    moreover have "task k' i = task k i" if "i \<noteq> n" "i \<noteq> k_current k" for i
      using that t'(5) [of i] t2(4) [of i] by (simp add: prev_def)
    ultimately show ?thesis using e t'(2-4,7) by blast
  qed
qed

lemma schedule_total:
  assumes "sched_pre k"
  obtains k' where "nx_schedule cont k = Some k'" and "sched_inv k'" and "k_idle k' = k_idle k" and "k_preempt k' = k_preempt k"
proof -
  obtain n where "pick_next k = Some n" "n < NX_TASK_MAX"
    "ready_task k n \<or> n = k_current k \<and> st_of k n = NX_TASK_RUNNING \<or> k_idle k = Some n"
    using pick_next_total [OF assms] by metis
  then show thesis using schedule_effect [OF assms, of n cont] that by blast
qed

lemma schedule_progress:
  assumes pre: "sched_pre k" and r: "ready_task k t" and s: "nx_schedule cont k = Some k'"
  shows "k_current k' = t \<or> ready_task k' t \<and> wait_of k' t < wait_of k t"
proof -
  obtain n where n: "pick_next k = Some n" "ready_task k n" "n = t \<or> behind (k_current k) n < behind (k_current k) t"
    using pick_next_ready [OF pre r] by metis
  then have "n < NX_TASK_MAX" by (simp add: ready_task_def)
  then have e: "k_current k' = n" "tk_slice (task k' n) = NX_SCHED_SLICE" "k_idle k' = k_idle k"
    "\<forall>i. i \<noteq> n \<longrightarrow> i \<noteq> k_current k \<longrightarrow> task k' i = task k i"
    using schedule_effect [OF pre n(1), of cont] n(2) s by auto
  have c: "k_current k < 32" "t < 32" "n < 32" "t \<noteq> k_current k"
    using pre r n(2) by (auto simp: sched_pre_def ready_task_def)
  show ?thesis
  proof (cases "n = t")
    case True
    then show ?thesis using e(1) by simp
  next
    case False
    then have "task k' t = task k t" using e(4) [rule_format, of t] c(4) by simp
    then have "ready_task k' t" using r e(3) by (simp add: ready_task_def)
    moreover have "behind n t < behind (k_current k) t" using n(3) False c by (auto simp: behind_def split: if_splits)
    then have "wait_of k' t < wait_of k t" using e(1,2) by (simp add: wait_of_def)
    ultimately show ?thesis by blast
  qed
qed

section \<open>Changes between two switches\<close>

text \<open>
  What the code does between two switches: the tasks of \<open>E\<close> may stop being ready or running, no task
  starts running, and every other task that is ready or running stays so.
\<close>

definition quiet_at :: "nat set \<Rightarrow> kernel \<Rightarrow> kernel \<Rightarrow> nat \<Rightarrow> bool" where
  "quiet_at E k k' i \<longleftrightarrow> st_of k' i = st_of k i \<and> tk_slot (task k' i) = tk_slot (task k i)
     \<or> (st_of k i \<notin> {NX_TASK_READY, NX_TASK_RUNNING} \<or> i \<in> E) \<and> st_of k' i \<noteq> NX_TASK_RUNNING
       \<and> (st_of k' i \<noteq> NX_TASK_FREE \<longrightarrow> tk_slot (task k' i) = i \<or> st_of k i \<noteq> NX_TASK_FREE \<and> tk_slot (task k' i) = tk_slot (task k i))"

definition quiet :: "nat set \<Rightarrow> kernel \<Rightarrow> kernel \<Rightarrow> bool" where
  "quiet E k k' \<longleftrightarrow> length (k_tasks k') = length (k_tasks k) \<and> k_current k' = k_current k \<and> k_idle k' = k_idle k
     \<and> k_preempt k' = k_preempt k
     \<and> tk_slice (task k' (k_current k)) \<le> tk_slice (task k (k_current k))
     \<and> (st_of k (k_current k) \<notin> {NX_TASK_FREE, NX_TASK_READY} \<longrightarrow> st_of k' (k_current k) \<notin> {NX_TASK_FREE, NX_TASK_READY})
     \<and> (\<forall>i < NX_TASK_MAX. quiet_at E k k' i)"

lemma quiet_refl [simp]: "quiet E k k"
  by (simp add: quiet_def quiet_at_def)

lemma quiet_at_trans: "quiet_at E k k' i \<Longrightarrow> quiet_at E k' k'' i \<Longrightarrow> quiet_at E k k'' i"
  unfolding quiet_at_def by (elim disjE conjE) auto

lemma quiet_trans: "quiet E k k' \<Longrightarrow> quiet E k' k'' \<Longrightarrow> quiet E k k''"
  unfolding quiet_def using quiet_at_trans [of E k k' _ k''] by (auto intro: order_trans)

lemma quiet_tasks:
  "k_tasks k' = k_tasks k \<Longrightarrow> k_current k' = k_current k \<Longrightarrow> k_idle k' = k_idle k \<Longrightarrow> k_preempt k' = k_preempt k \<Longrightarrow> quiet E k k'"
  by (simp add: quiet_def quiet_at_def)

lemma quiet_mem: "mem_only k k' \<Longrightarrow> quiet E k k'"
  by (intro quiet_tasks) (auto dest: mem_only_fields)

text \<open>An update of one task that keeps its scheduling fields.\<close>

lemma quiet_upd:
  assumes "\<And>x. tk_state (f x) = tk_state x \<and> tk_slot (f x) = tk_slot x \<and> tk_slice (f x) \<le> tk_slice x"
  shows "quiet E k (upd_task i f k)"
proof (cases "i < length (k_tasks k)")
  case True
  then show ?thesis using assms [of "task k i"] by (auto simp: quiet_def quiet_at_def)
next
  case False
  then have "k_tasks (upd_task i f k) = k_tasks k" by (simp add: upd_task_def not_less list_update_beyond)
  then show ?thesis by (intro quiet_tasks) simp_all
qed

text \<open>An update of another task than the current one.\<close>

lemma quiet_other:
  assumes "t < length (k_tasks k)" and "t \<noteq> k_current k"
    and "st_of k t \<notin> {NX_TASK_READY, NX_TASK_RUNNING} \<or> t \<in> E" and "tk_state (f (task k t)) \<noteq> NX_TASK_RUNNING"
    and "tk_state (f (task k t)) \<noteq> NX_TASK_FREE \<Longrightarrow>
      tk_slot (f (task k t)) = t \<or> st_of k t \<noteq> NX_TASK_FREE \<and> tk_slot (f (task k t)) = tk_slot (task k t)"
  shows "quiet E k (upd_task t f k)"
proof -
  have "quiet_at E k (upd_task t f k) i" for i
    using assms by (cases "i = t") (simp_all add: quiet_at_def)
  moreover have "task (upd_task t f k) (k_current k) = task k (k_current k)" using assms(2) by simp
  ultimately show ?thesis by (simp add: quiet_def)
qed

lemma quiet_pre:
  assumes pre: "sched_pre k" and q: "quiet E k k'" and E: "\<forall>i \<in> E. k_idle k \<noteq> Some i"
  shows "sched_pre k'"
    and "k_current k \<notin> E \<Longrightarrow> sched_inv k \<Longrightarrow> sched_inv k'"
    and "ready_task k t \<Longrightarrow> t \<notin> E \<Longrightarrow> ready_task k' t \<and> wait_of k' t \<le> wait_of k t"
proof -
  have qa: "quiet_at E k k' i" if "i < 32" for i using q that by (simp add: quiet_def)
  have h: "length (k_tasks k) = 32" "k_current k < 32" "k_current k' = k_current k" "k_idle k' = k_idle k"
    using pre q by (simp_all add: sched_pre_def quiet_def)
  obtain d where d: "k_idle k = Some d" "d < 32" "st_of k d = NX_TASK_READY \<or> st_of k d = NX_TASK_RUNNING"
    using pre by (auto simp: sched_pre_def)
  have sd: "st_of k' d = st_of k d" using qa [OF d(2)] d(3) E d(1) by (auto simp: quiet_at_def)
  have sl: "tk_slot (task k' i) = i" if "i < 32" "st_of k' i \<noteq> NX_TASK_FREE" for i
    using qa [OF that(1)] that pre [unfolded sched_pre_def] by (auto simp: quiet_at_def)
  have ru: "i = k_current k" if "i < 32" "st_of k' i = NX_TASK_RUNNING" for i
  proof -
    have "st_of k i = NX_TASK_RUNNING" using qa [OF that(1)] that(2) by (auto simp: quiet_at_def)
    then show ?thesis using pre that(1) unfolding sched_pre_def by blast
  qed
  have "st_of k' (k_current k) \<notin> {NX_TASK_FREE, NX_TASK_READY}" "length (k_tasks k') = 32"
    using pre q h(1) by (simp_all add: sched_pre_def quiet_def)
  then show pre': "sched_pre k'"
    unfolding sched_pre_def h using sl ru h(2) d(1,2) d(3) [folded sd] by blast
  show "sched_inv k'" if "k_current k \<notin> E" "sched_inv k"
    using that pre' qa [OF h(2)] by (auto simp: sched_inv_def quiet_at_def h(3))
  show "ready_task k' t \<and> wait_of k' t \<le> wait_of k t" if "ready_task k t" "t \<notin> E"
    using that qa [of t] q by (auto simp: ready_task_def quiet_at_def quiet_def wait_of_def word_le_nat_alt)
qed

end
