(* ===== verification/Sched_Run.thy ===== *)
theory Sched_Run
  imports Sched_Inv
begin

text \<open>
  The scheduler's operations as steps of a transition system: the timer interrupt, yielding, blocking,
  sleeping, waking, starting, ending and creating tasks. Every step keeps the invariant of \<open>Sched_Inv\<close>
  and brings a ready task closer to running.
\<close>

section \<open>Operations that do not switch\<close>

lemma quiet_wake:
  assumes "st_of k (k_current k) \<noteq> NX_TASK_BLOCKED" and "length (k_tasks k) = NX_TASK_MAX"
  shows "quiet E k (nx_task_wake t k)" and "task (nx_task_wake t k) (k_current k) = task k (k_current k)"
proof -
  have ne: "k_current k \<noteq> t" if "st_of k t = NX_TASK_BLOCKED" using that assms(1) by auto
  then show "task (nx_task_wake t k) (k_current k) = task k (k_current k)" by (simp add: nx_task_wake_def)
  then show "quiet E k (nx_task_wake t k)"
  proof (cases "t < NX_TASK_MAX \<and> st_of k t = NX_TASK_BLOCKED")
    case True
    then have "nx_task_wake t k = upd_task t (\<lambda>x. x\<lparr>tk_state := NX_TASK_READY, tk_blocked_on := On_none\<rparr>) k"
      by (simp add: nx_task_wake_def)
    also have "quiet E k \<dots>" by (rule quiet_other) (use True ne assms(2) in auto)
    finally show ?thesis .
  next
    case False
    then have "k_tasks (nx_task_wake t k) = k_tasks k"
      using assms(2) by (auto simp: nx_task_wake_def upd_task_def list_update_beyond)
    then show ?thesis by (intro quiet_tasks) (simp_all add: nx_task_wake_def)
  qed
qed

lemma quiet_wake_sleepers:
  assumes "st_of k (k_current k) \<noteq> NX_TASK_BLOCKED" and "length (k_tasks k) = NX_TASK_MAX"
  shows "quiet E k (wake_sleepers k) \<and> task (wake_sleepers k) (k_current k) = task k (k_current k)
    \<and> k_ticks (wake_sleepers k) = k_ticks k \<and> k_wd_deadline (wake_sleepers k) = k_wd_deadline k"
proof -
  define f where "f = (\<lambda>s k. if st_of k s = NX_TASK_BLOCKED \<and> tk_blocked_on (task k s) = On_sleep
      \<and> k_ticks k \<ge> tk_wake_tick (task k s) then nx_task_wake s k else k)"
  have "quiet E k (fold f ss k) \<and> task (fold f ss k) (k_current k) = task k (k_current k)
      \<and> k_ticks (fold f ss k) = k_ticks k \<and> k_wd_deadline (fold f ss k) = k_wd_deadline k" for ss
    using assms
  proof (induction ss arbitrary: k)
    case (Cons s ss)
    have q: "quiet E k (f s k)" "task (f s k) (k_current k) = task k (k_current k)" "k_ticks (f s k) = k_ticks k"
      "k_wd_deadline (f s k) = k_wd_deadline k"
      using quiet_wake [OF Cons.prems] by (simp_all add: f_def) (simp_all add: nx_task_wake_def)
    then have "k_current (f s k) = k_current k" "length (k_tasks (f s k)) = 32"
      using Cons.prems by (simp_all add: quiet_def)
    then show ?case
      using Cons.IH [of "f s k"] q Cons.prems quiet_trans [OF q(1)] by simp
  qed simp
  then show ?thesis unfolding wake_sleepers_def f_def [symmetric] by blast
qed

lemma quiet_event: "quiet E k (task_event t type arg k)"
proof -
  define k1 where "k1 = upd_task t (\<lambda>x. x\<lparr>tk_rev := tk_rev x + 1\<rparr>) k"
  have "quiet E k k1" unfolding k1_def by (rule quiet_upd) simp
  moreover have "quiet E k1 (k1\<lparr>k_events := snd (nx_evlog_push (k_events k1) (k_ticks k1) type (tk_id (task k1 t)) arg)\<rparr>)"
    by (rule quiet_tasks) simp_all
  ultimately have "quiet E k (k1\<lparr>k_events := snd (nx_evlog_push (k_events k1) (k_ticks k1) type (tk_id (task k1 t)) arg)\<rparr>)"
    by (rule quiet_trans)
  then show ?thesis by (simp add: task_event_def Let_def k1_def)
qed

lemma event_fields:
  "tk_state (task (task_event t type arg k) i) = st_of k i"
  "length (k_tasks (task_event t type arg k)) = length (k_tasks k)" "k_current (task_event t type arg k) = k_current k"
proof -
  show "tk_state (task (task_event t type arg k) i) = st_of k i"
    by (cases "t < length (k_tasks k)") (auto simp: task_event_def Let_def upd_task_def list_update_beyond nth_list_update)
qed (simp_all add: task_event_def Let_def)

lemma quiet_start:
  assumes "st_of k (k_current k) = NX_TASK_RUNNING" and "t < NX_TASK_MAX" and "length (k_tasks k) = NX_TASK_MAX"
  shows "quiet E k (nx_task_start t k)"
proof (cases "st_of k t = NX_TASK_BLOCKED \<and> tk_blocked_on (task k t) = On_none \<and> \<not> tk_started (task k t)")
  case True
  have "quiet E k (upd_task t (\<lambda>x. x\<lparr>tk_state := NX_TASK_READY, tk_started := True\<rparr>) k)"
    by (rule quiet_other) (use True assms in auto)
  then show ?thesis using True quiet_trans [OF _ quiet_event] by (simp add: nx_task_start_def)
qed (auto simp: nx_task_start_def)

lemma quiet_end_task:
  assumes c: "st_of k (k_current k) \<noteq> NX_TASK_BLOCKED" and l: "length (k_tasks k) = NX_TASK_MAX" and t: "t < NX_TASK_MAX"
    and f: "st_of k t \<noteq> NX_TASK_FREE"
  shows "quiet {t} k (end_task t how k)"
proof -
  define k1 where "k1 = (case tk_blocked_on (task k t) of
      On_ep e \<Rightarrow> if st_of k t = NX_TASK_BLOCKED \<and> ep_waiter (es_ep (k_eps k ! e)) = Some t
                then upd_ep e (\<lambda>s. s\<lparr>es_ep := (es_ep s)\<lparr>ep_waiter := None\<rparr>\<rparr>) k else k
    | _ \<Rightarrow> k)"
  define k2 where "k2 = upd_task t (\<lambda>x. x\<lparr>tk_blocked_on := On_none, tk_end := how, tk_state := NX_TASK_DEAD,
                                tk_ended_tick := k_ticks k1\<rparr>) k1"
  define k3 where "k3 = (case how of
      NX_END_EXIT \<Rightarrow> task_event t NX_EV_TASK_EXITED (tk_exit_code (task k2 t)) k2
    | NX_END_FAULT \<Rightarrow> task_event t NX_EV_TASK_FAULTED (tk_fault_vector (task k2 t)) k2
    | _ \<Rightarrow> task_event t NX_EV_TASK_KILLED (ucast (tk_killer_id (task k2 t))) k2)"
  have k1: "k_tasks k1 = k_tasks k" "k_current k1 = k_current k" "k_idle k1 = k_idle k" "k_preempt k1 = k_preempt k"
    by (simp_all add: k1_def split: blocked_ptr.splits)
  have q2: "quiet {t} k1 k2"
  proof (cases "t = k_current k")
    case False
    show ?thesis unfolding k2_def by (rule quiet_other) (use False t l f k1 in auto)
  next
    case True
    have "quiet_at {t} k1 k2 i" for i using t l f k1 by (cases "i = t") (simp_all add: k2_def quiet_at_def)
    then show ?thesis using True t l k1 by (simp add: quiet_def k2_def)
  qed
  have "quiet {t} k k1" by (rule quiet_tasks) (rule k1)+
  moreover have "quiet {t} k2 k3" using quiet_event [of "{t}" k2] by (simp add: k3_def split: nx_task_end.splits)
  ultimately have q3: "quiet {t} k k3" using quiet_trans q2 by blast
  have k3: "length (k_tasks k3) = NX_TASK_MAX" "k_current k3 = k_current k" "st_of k3 i = st_of k2 i" for i
    using l k1 event_fields by (simp_all add: k3_def k2_def split: nx_task_end.splits)
  have "st_of k2 (k_current k) \<noteq> NX_TASK_BLOCKED" using c t l k1 by (auto simp: k2_def)
  then have "quiet {t} k (nx_task_wake w k3)" for w using quiet_wake(1) [of k3] k3 quiet_trans [OF q3] by simp
  then show ?thesis
    using q3 unfolding end_task_def Let_def k1_def [symmetric] k2_def [symmetric] k3_def [symmetric]
    by (auto split: option.splits)
qed

lemma wake_current: "k_current (nx_task_wake t k) = k_current k"
  by (simp add: nx_task_wake_def)

lemma end_task_current: "k_current (end_task t how k) = k_current k"
proof -
  define k1 where "k1 = (case tk_blocked_on (task k t) of
      On_ep e \<Rightarrow> if st_of k t = NX_TASK_BLOCKED \<and> ep_waiter (es_ep (k_eps k ! e)) = Some t
                then upd_ep e (\<lambda>s. s\<lparr>es_ep := (es_ep s)\<lparr>ep_waiter := None\<rparr>\<rparr>) k else k
    | _ \<Rightarrow> k)"
  define k2 where "k2 = upd_task t (\<lambda>x. x\<lparr>tk_blocked_on := On_none, tk_end := how, tk_state := NX_TASK_DEAD,
                                tk_ended_tick := k_ticks k1\<rparr>) k1"
  have "k_current k1 = k_current k" by (simp add: k1_def split: blocked_ptr.splits)
  then have "k_current k2 = k_current k" by (simp add: k2_def)
  then show ?thesis
    unfolding end_task_def Let_def k1_def [symmetric] k2_def [symmetric]
    by (cases how) (simp_all add: event_fields(3) wake_current split: option.splits)
qed

section \<open>Creating tasks\<close>

lemma alloc_task_quiet:
  assumes a: "alloc_task name k = (Some t, k')" and l: "length (k_tasks k) = NX_TASK_MAX"
    and c: "st_of k (k_current k) \<noteq> NX_TASK_FREE"
  shows "quiet E k k'" and "t < NX_TASK_MAX" and "st_of k' t = NX_TASK_BLOCKED" and "t \<noteq> k_current k"
    and "length (k_tasks k') = NX_TASK_MAX" and "k_current k' = k_current k"
proof -
  have f: "find (\<lambda>s. st_of k s = NX_TASK_FREE) [0..<NX_TASK_MAX] = Some t"
    and k': "k' = (upd_task t (\<lambda>_. fresh_task (k_next_id k) t name) k)\<lparr>k_next_id := k_next_id k + 1\<rparr>"
    using a unfolding alloc_task_def by (simp_all split: option.splits)
  have t: "t < 32" "st_of k t = NX_TASK_FREE" using f unfolding find_Some_iff by auto
  then show "t < NX_TASK_MAX" "t \<noteq> k_current k" using c by auto
  show "st_of k' t = NX_TASK_BLOCKED" "length (k_tasks k') = NX_TASK_MAX" "k_current k' = k_current k"
    using k' t l by (simp_all add: fresh_task_def)
  have "quiet E k (upd_task t (\<lambda>_. fresh_task (k_next_id k) t name) k)"
    by (rule quiet_other) (use t l c in \<open>auto simp: fresh_task_def\<close>)
  then show "quiet E k k'" unfolding k' by (rule quiet_trans) (rule quiet_tasks, simp_all)
qed

text \<open>
  What an operation on the new task \<open>t\<close> may do while the current task runs: it changes memory and fields
  of the new task other than its state and slot.
\<close>

definition building :: "nat \<Rightarrow> kernel \<Rightarrow> kernel \<Rightarrow> bool" where
  "building t k k' \<longleftrightarrow> length (k_tasks k') = length (k_tasks k) \<and> k_current k' = k_current k \<and> k_idle k' = k_idle k
     \<and> k_preempt k' = k_preempt k \<and> (\<forall>i. i \<noteq> t \<longrightarrow> task k' i = task k i) \<and> tk_slot (task k' t) = tk_slot (task k t)
     \<and> st_of k' t = st_of k t"

lemma building_refl [simp]: "building t k k"
  by (simp add: building_def)

lemma building_trans: "building t k k' \<Longrightarrow> building t k' k'' \<Longrightarrow> building t k k''"
  by (auto simp: building_def)

lemma building_mem: "mem_only k k' \<Longrightarrow> building t k k'"
  using mem_only_fields [of k k'] by (simp add: building_def)

lemma building_upd:
  assumes "\<And>x. tk_slot (f x) = tk_slot x \<and> tk_state (f x) = tk_state x"
  shows "building t k (upd_task t f k)"
proof (cases "t < length (k_tasks k)")
  case True
  then show ?thesis using assms by (simp add: building_def)
next
  case False
  then have "k_tasks (upd_task t f k) = k_tasks k" by (simp add: upd_task_def list_update_beyond not_less)
  then show ?thesis by (simp add: building_def)
qed

lemma building_quiet:
  assumes "building t k k'" and "t \<noteq> k_current k" and "st_of k t = NX_TASK_BLOCKED"
  shows "quiet E k k'"
proof -
  have "quiet_at E k k' i" for i using assms by (cases "i = t") (auto simp: quiet_at_def building_def)
  moreover have "task k' (k_current k) = task k (k_current k)" using assms by (auto simp: building_def)
  ultimately show ?thesis using assms(1) by (simp add: quiet_def building_def)
qed

lemma building_drop:
  assumes "building t k k'" and "t \<noteq> k_current k" and "st_of k t = NX_TASK_BLOCKED" and "t < length (k_tasks k)"
  shows "quiet E k (upd_task t (\<lambda>x. x\<lparr>tk_state := NX_TASK_FREE\<rparr>) k')"
proof (rule quiet_trans [OF building_quiet [OF assms(1-3)] quiet_other])
qed (use assms in \<open>auto simp: building_def\<close>)

lemma building_kstack_free: "kstack_free t k = Some k' \<Longrightarrow> building t k k'"
proof -
  assume "kstack_free t k = Some k'"
  then obtain k1 where k1: "kfor (\<lambda>i k. case nx_vmm_unmap_page (kstack_bottom (task k t) + of_nat i * NX_PAGE_4K) k of
                (Inr pa, k) \<Rightarrow> nx_page_free pa k | (Inl e, k) \<Rightarrow> Some k) [0..<NX_KSTACK_PAGES] k = Some k1"
    and k': "k' = upd_task t (\<lambda>x. x\<lparr>tk_kstack_top := 0\<rparr>) k1"
    unfolding kstack_free_def by (auto simp del: upt_rec_numeral split: Option.bind_splits)
  have "mem_only k k1"
    by (rule mem_only_kfor [OF _ k1]) (auto split: prod.splits sum.splits dest!: mem_only_unmap mem_only_page_free intro: mem_only_trans)
  then have "building t k k1" by (rule building_mem)
  moreover have "building t k1 k'" unfolding k' by (rule building_upd) simp
  ultimately show ?thesis by (rule building_trans)
qed

lemma building_kstack_fill:
  assumes "kstack_fill n i t k = Some (st, k')"
  shows "building t k k'"
  using assms
proof (induction n arbitrary: i k)
  case (Suc n)
  obtain pa k1 where a: "kpage_alloc k = (pa, k1)" by fastforce
  obtain ps k2 where m: "(if pa = 0 then (NX_PT_E_NOMEM, k1)
      else nx_vmm_map_page (kstack_bottom (task k1 t) + of_nat i * NX_PAGE_4K) pa (NX_PTE_W OR NX_PTE_NX OR NX_PTE_G) k1) = (ps, k2)"
    by fastforce
  have "mem_only k1 k2" using m by (auto split: if_splits dest: mem_only_map)
  then have b2: "building t k k2" using mem_only_kpage_alloc [OF a] building_mem mem_only_trans by blast
  show ?case
  proof (cases "ps = NX_PT_OK")
    case True
    then have "kstack_fill n (Suc i) t (k2\<lparr>k_mem := zero_page (k_mem k2) pa\<rparr>) = Some (st, k')"
      using Suc.prems a m by simp
    then have "building t (k2\<lparr>k_mem := zero_page (k_mem k2) pa\<rparr>) k'" by (rule Suc.IH)
    then show ?thesis using b2 building_mem mem_only_mem building_trans by blast
  next
    case False
    then obtain k3 where k3: "(if pa \<noteq> 0 then nx_page_free pa k2 else Some k2) = Some k3"
      "kstack_free t (upd_task t (\<lambda>x. x\<lparr>tk_kstack_top := 1\<rparr>) k3) = Some k'"
      using Suc.prems a m by (auto split: Option.bind_splits if_splits)
    have "mem_only k2 k3" using k3(1) by (auto split: if_splits dest: mem_only_page_free)
    then have "building t k k3" using b2 building_mem building_trans by blast
    moreover have "building t k3 (upd_task t (\<lambda>x. x\<lparr>tk_kstack_top := 1\<rparr>) k3)" by (rule building_upd) simp
    ultimately show ?thesis using building_kstack_free [OF k3(2)] building_trans by blast
  qed
qed simp

lemma building_kstack_alloc: "kstack_alloc t k = Some (st, k') \<Longrightarrow> building t k k'"
proof -
  assume "kstack_alloc t k = Some (st, k')"
  then obtain st1 k1 where k1: "kstack_fill NX_KSTACK_PAGES 0 t k = Some (st1, k1)"
    "k' = k1 \<or> k' = upd_task t (\<lambda>x. x\<lparr>tk_kstack_top := kstack_bottom x + of_nat NX_KSTACK_PAGES * NX_PAGE_4K\<rparr>) k1"
    by (auto simp: kstack_alloc_def simp del: kstack_fill.simps split: Option.bind_splits if_splits)
  have "building t k1 (upd_task t (\<lambda>x. x\<lparr>tk_kstack_top := kstack_bottom x + of_nat NX_KSTACK_PAGES * NX_PAGE_4K\<rparr>) k1)"
    by (rule building_upd) simp
  then show ?thesis using building_kstack_fill [OF k1(1)] k1(2) building_trans by blast
qed

lemma quiet_kthread:
  assumes "nx_kthread_create name fn k = Some (r, k')" and l: "length (k_tasks k) = NX_TASK_MAX"
    and c: "st_of k (k_current k) \<noteq> NX_TASK_FREE"
  shows "quiet E k k'"
proof (cases "alloc_task name k")
  case (Pair o1 k1)
  show ?thesis
  proof (cases o1)
    case None
    then have "k' = k1" "k1 = k" using assms(1) Pair by (auto simp: nx_kthread_create_def alloc_task_def split: option.splits)
    then show ?thesis by simp
  next
    case (Some t)
    note a = alloc_task_quiet [OF Pair [unfolded Some] l c]
    obtain st k2 where s: "kstack_alloc t k1 = Some (st, k2)"
      "k' = upd_task t (\<lambda>x. x\<lparr>tk_state := NX_TASK_FREE\<rparr>) k2 \<or> k' = upd_task t (\<lambda>x. x\<lparr>tk_cr3 := k_root k2, tk_cont := fn\<rparr>) k2"
      using assms(1) Pair Some by (auto simp: nx_kthread_create_def split: Option.bind_splits if_splits)
    have b: "building t k1 k2" by (rule building_kstack_alloc [OF s(1)])
    have "building t k2 (upd_task t (\<lambda>x. x\<lparr>tk_cr3 := k_root k2, tk_cont := fn\<rparr>) k2)" by (rule building_upd) simp
    then have "quiet E k1 (upd_task t (\<lambda>x. x\<lparr>tk_cr3 := k_root k2, tk_cont := fn\<rparr>) k2)"
      using building_quiet [OF building_trans [OF b]] a(3,4,6) by simp
    moreover have "quiet E k1 (upd_task t (\<lambda>x. x\<lparr>tk_state := NX_TASK_FREE\<rparr>) k2)"
      using building_drop [OF b] a(2-6) by simp
    ultimately show ?thesis using s(2) a(1) quiet_trans by blast
  qed
qed

lemma building_space:
  assumes "utask_space t elf sz k = Some (r, k')"
  shows "building t k k'"
proof -
  obtain cr3 k1 where a: "nx_as_create k = (cr3, k1)" by fastforce
  define k2 where "k2 = upd_task t (\<lambda>x. x\<lparr>tk_cr3 := cr3\<rparr>) k1"
  have "building t k1 k2" unfolding k2_def by (rule building_upd) simp
  then have b: "building t k k2" using building_mem [OF mem_only_as_create [OF a]] building_trans by blast
  have "mem_only k2 k'"
  proof (cases "cr3 = 0")
    case False
    then obtain st ent k3 where k3: "load_elf cr3 elf sz k2 = Some ((st, ent), k3)"
      "k' = k3 \<or> (\<exists>st'. kwhile_ok (map_stack_page cr3) [0..<unat NX_USER_STACK_PAGES] k3 = Some (st', k'))"
      using assms a unfolding utask_space_def k2_def by (auto simp del: upt_rec_numeral split: Option.bind_splits if_splits)
    have ms: "mem_only x y" if "map_stack_page cr3 i x = Some (st', y)" for i x st' y
      using that by (auto simp: map_stack_page_def split: Option.bind_splits dest: mem_only_new_page)
    have "mem_only x y" if "kwhile_ok (map_stack_page cr3) js x = Some (st', y)" for js x st' y
      by (rule mem_only_kwhile [OF _ that]) (rule ms)
    then have "mem_only k3 k'" using k3(2) by auto
    then show ?thesis using mem_only_load_elf [OF k3(1)] mem_only_trans by blast
  qed (use assms a in \<open>simp add: utask_space_def k2_def\<close>)
  then show ?thesis using b building_mem building_trans by blast
qed

lemma quiet_utask:
  assumes "nx_utask_create name elf sz args k = Some (r, k')" and l: "length (k_tasks k) = NX_TASK_MAX"
    and c: "st_of k (k_current k) \<noteq> NX_TASK_FREE"
  shows "quiet E k k'"
proof (cases "alloc_task name k")
  case (Pair o1 k1)
  show ?thesis
  proof (cases o1)
    case None
    then have "k' = k1" "k1 = k" using assms(1) Pair by (auto simp: nx_utask_create_def alloc_task_def split: option.splits)
    then show ?thesis by simp
  next
    case (Some t)
    note a = alloc_task_quiet [OF Pair [unfolded Some] l c]
    obtain st k2 where s: "kstack_alloc t k1 = Some (st, k2)"
      using assms(1) Pair Some by (auto simp: nx_utask_create_def split: Option.bind_splits)
    have b2: "building t k1 k2" by (rule building_kstack_alloc [OF s])
    have fin: "quiet E k x" if "building t k1 x" for x
      by (rule quiet_trans [OF a(1) building_quiet [OF that]]) (use a(3,4,6) in simp_all)
    have fr: "quiet E k (upd_task t (\<lambda>x. x\<lparr>tk_state := NX_TASK_FREE\<rparr>) x)" if "building t k1 x" for x
      by (rule quiet_trans [OF a(1) building_drop [OF that]]) (use a(2-6) in simp_all)
    show ?thesis
    proof (cases "st = NX_OK")
      case False
      then have "k' = upd_task t (\<lambda>x. x\<lparr>tk_state := NX_TASK_FREE\<rparr>) k2" using assms(1) Pair Some s by (simp add: nx_utask_create_def)
      then show ?thesis using fr [OF b2] by simp
    next
      case True
      define k3 where "k3 = upd_task t (\<lambda>x. x\<lparr>tk_user := True\<rparr>) k2"
      obtain st2 ent k4 where u: "utask_space t elf sz k3 = Some ((st2, ent), k4)"
        using assms(1) Pair Some s True by (auto simp: nx_utask_create_def k3_def split: Option.bind_splits)
      have "building t k2 k3" unfolding k3_def by (rule building_upd) simp
      then have b4: "building t k1 k4" using b2 building_space [OF u] building_trans by blast
      show ?thesis
      proof (cases "st2 = NX_OK")
        case True
        define k5 where "k5 = upd_task t (\<lambda>x. x\<lparr>tk_entry := ent, tk_frame := user_frame_init ent args, tk_cont := K_User,
                                 tk_created_tick := k_ticks k4\<rparr>) k4"
        have "building t k4 k5" unfolding k5_def by (rule building_upd) simp
        then have "quiet E k k5" using fin b4 building_trans by blast
        moreover have "k' = task_event t NX_EV_TASK_CREATED 0 k5"
          using assms(1) Pair Some s u True \<open>st = NX_OK\<close> by (simp add: nx_utask_create_def k3_def k5_def)
        ultimately show ?thesis using quiet_event quiet_trans by blast
      next
        case False
        then obtain k5 k6 where k5: "(if tk_cr3 (task k4 t) \<noteq> 0 then nx_as_destroy (tk_cr3 (task k4 t)) free_owned_leaf k4 else Some k4) = Some k5"
          and k6: "kstack_free t k5 = Some k6" and k': "k' = upd_task t (\<lambda>x. x\<lparr>tk_state := NX_TASK_FREE\<rparr>) k6"
          using assms(1) Pair Some s u \<open>st = NX_OK\<close> by (auto simp: nx_utask_create_def k3_def split: Option.bind_splits)
        have "mem_only k4 k5" using k5 by (auto split: if_splits dest: mem_only_as_destroy)
        then have "building t k1 k6" using b4 building_mem building_kstack_free [OF k6] building_trans by blast
        then show ?thesis unfolding k' by (rule fr)
      qed
    qed
  qed
qed

section \<open>Runs\<close>

text \<open>
  The steps of the scheduler. \<open>c\<close> is where the task that gives up the processor continues. A timer
  interrupt may come at any time; the calls of a task are made by the current task, which is not the idle
  thread; the idle thread only runs its loop, and nobody ends it.
\<close>

datatype sched_op =
    Op_tick kcont
  | Op_yield kcont
  | Op_block blocked_ptr kcont
  | Op_sleep u64 kcont
  | Op_idle
  | Op_wake nat
  | Op_start nat
  | Op_exit u64
  | Op_end nat nx_task_end u32
  | Op_trap nx_trap_frame u64
  | Op_kthread bytes kcont
  | Op_utask bytes bytes u64 "u64 list"

fun sched_do :: "sched_op \<Rightarrow> kernel \<Rightarrow> kernel option" where
  "sched_do (Op_tick c) k = on_periodic c k"
| "sched_do (Op_yield c) k = nx_yield c k"
| "sched_do (Op_block on c) k = nx_task_block on c k"
| "sched_do (Op_sleep ticks c) k = nx_task_sleep ticks c k"
| "sched_do Op_idle k = idle_round k"
| "sched_do (Op_wake t) k = Some (nx_task_wake t k)"
| "sched_do (Op_start t) k = Some (nx_task_start t k)"
| "sched_do (Op_exit code) k = nx_task_exit_current code k"
| "sched_do (Op_end t how killer) k = map_option snd (nx_task_terminate t how killer k)"
| "sched_do (Op_trap f cr2) k = nx_user_trap f cr2 k"
| "sched_do (Op_kthread name fn) k = map_option snd (nx_kthread_create name fn k)"
| "sched_do (Op_utask name elf sz args) k = map_option snd (nx_utask_create name elf sz args k)"

fun sched_may :: "sched_op \<Rightarrow> kernel \<Rightarrow> bool" where
  "sched_may (Op_yield c) k \<longleftrightarrow> Some (k_current k) \<noteq> k_idle k"
| "sched_may (Op_block on c) k \<longleftrightarrow> Some (k_current k) \<noteq> k_idle k"
| "sched_may (Op_sleep ticks c) k \<longleftrightarrow> Some (k_current k) \<noteq> k_idle k"
| "sched_may Op_idle k \<longleftrightarrow> Some (k_current k) = k_idle k"
| "sched_may (Op_start t) k \<longleftrightarrow> t < NX_TASK_MAX"
| "sched_may (Op_exit code) k \<longleftrightarrow> Some (k_current k) \<noteq> k_idle k"
| "sched_may (Op_end t how killer) k \<longleftrightarrow> t < NX_TASK_MAX \<and> Some t \<noteq> k_idle k"
| "sched_may (Op_trap f cr2) k \<longleftrightarrow> Some (k_current k) \<noteq> k_idle k"
| "sched_may _ k \<longleftrightarrow> True"

text \<open>The task that a step ends, other than the current one.\<close>

fun sched_ends :: "sched_op \<Rightarrow> nat set" where
  "sched_ends (Op_end t how killer) = {t}"
| "sched_ends _ = {}"

text \<open>A switch after changes that take nothing from the ready tasks outside \<open>E\<close>.\<close>

lemma quiet_schedule:
  assumes inv: "sched_inv k" and q: "quiet E k k1" and E: "\<forall>i \<in> E. k_idle k \<noteq> Some i" and s: "nx_schedule c k1 = Some k'"
  shows "sched_inv k'" and "k_preempt k' = k_preempt k"
    and "ready_task k t \<Longrightarrow> t \<notin> E \<Longrightarrow> k_current k' = t \<or> ready_task k' t \<and> wait_of k' t < wait_of k t"
proof -
  have pre: "sched_pre k" using inv by (simp add: sched_inv_def)
  note p1 = quiet_pre [OF pre q E]
  show "sched_inv k'" "k_preempt k' = k_preempt k"
    using schedule_total [OF p1(1), of c] s q by (auto simp: quiet_def)
  show "k_current k' = t \<or> ready_task k' t \<and> wait_of k' t < wait_of k t" if "ready_task k t" "t \<notin> E"
    using schedule_progress [OF p1(1) _ s, of t] p1(3) [OF that] by auto
qed

text \<open>The current task gives up the processor.\<close>

lemma quiet_current:
  assumes "sched_inv k" and "\<And>x. tk_state (f x) \<in> {tk_state x, NX_TASK_BLOCKED} \<and> tk_slot (f x) = tk_slot x \<and> tk_slice (f x) \<le> tk_slice x"
  shows "quiet {k_current k} k (upd_task (k_current k) f k)"
proof -
  have c: "k_current k < length (k_tasks k)" "st_of k (k_current k) = NX_TASK_RUNNING"
    using assms(1) by (simp_all add: sched_inv_def sched_pre_def)
  have "quiet_at {k_current k} k (upd_task (k_current k) f k) i" for i
    using c assms(2) [of "task k (k_current k)"] by (cases "i = k_current k") (auto simp: quiet_at_def)
  then show ?thesis using c assms(2) [of "task k (k_current k)"] by (auto simp: quiet_def)
qed

lemma tick_step:
  assumes inv: "sched_inv k" and s: "on_periodic c k = Some k'"
  shows "sched_inv k'" and "k_preempt k' = k_preempt k"
    and "ready_task k t \<Longrightarrow> k_current k' = t \<or> ready_task k' t \<and> wait_of k' t \<le> wait_of k t \<and> (k_preempt k \<longrightarrow> wait_of k' t < wait_of k t)"
proof -
  define cur where "cur = k_current k"
  define f :: "nx_task \<Rightarrow> nx_task" where "f = (\<lambda>t. t\<lparr>tk_ticks := tk_ticks t + 1, tk_slice := (if tk_slice t \<noteq> 0 then tk_slice t - 1 else 0)\<rparr>)"
  define k0 where "k0 = k\<lparr>k_ticks := k_ticks k + 1\<rparr>"
  define k1 where "k1 = upd_task cur f k0"
  define k2 where "k2 = wake_sleepers k1"
  define k3 where "k3 = (if Some cur \<noteq> k_idle k2
      then (upd_task cur (\<lambda>t. t\<lparr>tk_preempted := tk_preempted t + 1\<rparr>) k2)\<lparr>k_preemptions := k_preemptions k2 + 1\<rparr> else k2)"
  have h: "cur < 32" "length (k_tasks k) = 32" "st_of k cur = NX_TASK_RUNNING"
    using inv by (simp_all add: sched_inv_def sched_pre_def cur_def)
  have sl: "tk_slice (f x) \<le> tk_slice x" for x by (simp add: f_def word_le_nat_alt unat_sub word_unat_eq_iff)
  have "quiet {} k k0" unfolding k0_def by (rule quiet_tasks) simp_all
  moreover have "quiet {} k0 k1" unfolding k1_def by (rule quiet_upd) (use sl in \<open>simp add: f_def\<close>)
  ultimately have q1: "quiet {} k k1" by (rule quiet_trans)
  have c1: "length (k_tasks k1) = 32" "k_current k1 = cur" "task k1 cur = f (task k cur)" "st_of k1 cur = NX_TASK_RUNNING"
    using h by (simp_all add: k1_def k0_def cur_def f_def)
  have w: "quiet {} k1 k2" "task k2 cur = f (task k cur)"
    using quiet_wake_sleepers [of k1 "{}"] c1 by (simp_all add: k2_def)
  have q2: "quiet {} k k2" using q1 w(1) by (rule quiet_trans)
  have c2: "k_current k2 = cur" "k_idle k2 = k_idle k" "k_preempt k2 = k_preempt k"
    using q2 by (simp_all add: quiet_def cur_def)
  have q3: "quiet {} k k3"
  proof (rule quiet_trans [OF q2])
    show "quiet {} k2 k3"
    proof (cases "Some cur \<noteq> k_idle k2")
      case True
      then show ?thesis unfolding k3_def
        by (simp, intro quiet_trans [OF quiet_upd quiet_tasks]) simp_all
    qed (simp add: k3_def)
  qed
  define k4 where "k4 = upd_task cur (\<lambda>t. t\<lparr>tk_cont := c\<rparr>) k2"
  have q4: "quiet {} k k4" unfolding k4_def by (rule quiet_trans [OF q2 quiet_upd]) simp
  have e: "k' = k4 \<and> \<not> ((Some cur = k_idle k2 \<or> k_preempt k2) \<and> (Some cur = k_idle k2 \<or> tk_slice (task k2 cur) = 0) \<and> other_ready k2)
      \<or> nx_schedule c k3 = Some k'"
    using s unfolding on_periodic_def sched_tick_def Let_def k0_def [symmetric]
    by (auto simp: k0_def cur_def [symmetric] k4_def k3_def k2_def k1_def f_def split: if_splits)
  show "sched_inv k'" "k_preempt k' = k_preempt k"
    using e quiet_pre(2) [OF _ q4] quiet_schedule(1,2) [OF inv q3] inv q4 by (auto simp: sched_inv_def quiet_def)
  assume t: "ready_task k t"
  have pre: "sched_pre k" using inv by (simp add: sched_inv_def)
  have t4: "ready_task k4 t" "wait_of k4 t \<le> wait_of k t" using quiet_pre(3) [OF pre q4 _ t] by simp_all
  have "wait_of k4 t < wait_of k t"
    if "k' = k4" "\<not> ((Some cur = k_idle k2 \<or> k_preempt k2) \<and> (Some cur = k_idle k2 \<or> tk_slice (task k2 cur) = 0) \<and> other_ready k2)"
      "k_preempt k"
  proof -
    have "ready_task k2 t" using quiet_pre(3) [OF pre q2 _ t] by simp
    moreover have "t \<noteq> cur" using t h(3) by (auto simp: ready_task_def)
    ultimately have "other_ready k2" using c2(1) by (auto simp: other_ready_def list_ex_iff ready_task_def simp del: upt_rec_numeral)
    then have "tk_slice (f (task k cur)) \<noteq> 0" using that(2,3) c2(3) w(2) by auto
    then have "unat (tk_slice (f (task k cur))) < unat (tk_slice (task k cur))"
      by (auto simp: f_def intro: measure_unat split: if_splits)
    moreover have "tk_slice (task k4 cur) = tk_slice (f (task k cur))" "k_current k4 = cur"
      using w(2) c2(1) q2 h(1,2) by (simp_all add: k4_def quiet_def)
    ultimately show ?thesis by (simp add: wait_of_def cur_def)
  qed
  then show "k_current k' = t \<or> ready_task k' t \<and> wait_of k' t \<le> wait_of k t \<and> (k_preempt k \<longrightarrow> wait_of k' t < wait_of k t)"
    using e t4 quiet_schedule(3) [OF inv q3 _ _ t, of c k'] by (auto intro: less_imp_le)
qed

text \<open>A step of the current task that ends in a switch.\<close>

lemma exit_step:
  assumes inv: "sched_inv k" and s: "nx_schedule c (end_task (k_current k) how k1) = Some k'" and k1: "k1 = upd_task (k_current k) f k"
    and f: "\<And>x. tk_state (f x) = tk_state x \<and> tk_slot (f x) = tk_slot x \<and> tk_slice (f x) = tk_slice x"
    and idle: "Some (k_current k) \<noteq> k_idle k"
  shows "sched_inv k'" and "k_preempt k' = k_preempt k"
    and "ready_task k t \<Longrightarrow> k_current k' = t \<or> ready_task k' t \<and> wait_of k' t < wait_of k t"
proof -
  have h: "k_current k < 32" "length (k_tasks k) = 32" "st_of k (k_current k) = NX_TASK_RUNNING"
    using inv by (simp_all add: sched_inv_def sched_pre_def)
  have "quiet {k_current k} k k1" unfolding k1 by (rule quiet_upd) (simp add: f)
  moreover have "quiet {k_current k} k1 (end_task (k_current k) how k1)"
    by (rule quiet_end_task) (use h f in \<open>simp_all add: k1\<close>)
  ultimately have q: "quiet {k_current k} k (end_task (k_current k) how k1)" by (rule quiet_trans)
  have E: "\<forall>i \<in> {k_current k}. k_idle k \<noteq> Some i" using idle by auto
  show "sched_inv k'" "k_preempt k' = k_preempt k" by (rule quiet_schedule(1,2) [OF inv q E s])+
  show "k_current k' = t \<or> ready_task k' t \<and> wait_of k' t < wait_of k t" if "ready_task k t"
  proof -
    have "t \<noteq> k_current k" using that h(3) by (auto simp: ready_task_def)
    then show ?thesis using quiet_schedule(3) [OF inv q E s that] by simp
  qed
qed

lemma terminate_step:
  assumes inv: "sched_inv k" and s: "nx_task_terminate u how killer k0 = Some (gone, k')" and k0: "k0 = upd_task u f k"
    and f: "\<And>x. tk_state (f x) = tk_state x \<and> tk_slot (f x) = tk_slot x \<and> tk_slice (f x) = tk_slice x"
    and u: "u < NX_TASK_MAX" "Some u \<noteq> k_idle k"
  shows "sched_inv k'" and "k_preempt k' = k_preempt k"
    and "ready_task k t \<Longrightarrow> t \<noteq> u \<Longrightarrow> k_current k' = t \<or> ready_task k' t \<and> wait_of k' t \<le> wait_of k t"
proof -
  have h: "k_current k < 32" "length (k_tasks k) = 32" "st_of k (k_current k) = NX_TASK_RUNNING"
    using inv by (simp_all add: sched_inv_def sched_pre_def)
  define g where "g = (\<lambda>x. (f x)\<lparr>tk_killer_id := killer\<rparr>)"
  define k1 where "k1 = upd_task u g k"
  have k1: "upd_task u (\<lambda>x. x\<lparr>tk_killer_id := killer\<rparr>) k0 = k1" by (simp add: k0 k1_def g_def upd_task_def u h(2))
  have g: "tk_state (g x) = tk_state x \<and> tk_slot (g x) = tk_slot x \<and> tk_slice (g x) = tk_slice x" for x using f by (simp add: g_def)
  have s0: "st_of k0 u = st_of k u" using u h f by (simp add: k0)
  have q0: "quiet {u} k k0" unfolding k0 by (rule quiet_upd) (simp add: f)
  have E: "\<forall>i \<in> {u}. k_idle k \<noteq> Some i" "\<forall>i \<in> {}. k_idle k \<noteq> Some i" using u by auto
  have pre: "sched_pre k" using inv by (simp add: sched_inv_def)
  have e: "nx_task_terminate u how killer k0 =
      (if st_of k u \<in> {NX_TASK_FREE, NX_TASK_DEAD, NX_TASK_REAPED} then Some (False, k0)
       else if u = k_current k then do { k \<leftarrow> nx_schedule K_Dead (end_task u how k1); Some (True, k) }
       else Some (False, end_task u how k1))"
    unfolding nx_task_terminate_def Let_def k1 s0 end_task_current by (simp add: k1_def)
  consider (dead) "k' = k0" "st_of k u \<noteq> NX_TASK_RUNNING"
    | (self) "u = k_current k" "nx_schedule K_Dead (end_task (k_current k) how k1) = Some k'"
    | (other) "u \<noteq> k_current k" "k' = end_task u how k1" "st_of k u \<noteq> NX_TASK_FREE"
    using s unfolding e by (auto split: if_splits Option.bind_splits)
  then have "sched_inv k' \<and> k_preempt k' = k_preempt k
    \<and> (ready_task k t \<longrightarrow> t \<noteq> u \<longrightarrow> k_current k' = t \<or> ready_task k' t \<and> wait_of k' t \<le> wait_of k t)"
  proof cases
    case dead
    have "u \<noteq> k_current k" using dead(2) h(3) by auto
    then show ?thesis using quiet_pre [OF pre q0 E(1)] inv q0 dead(1) by (auto simp: quiet_def)
  next
    case self
    show ?thesis
      using exit_step [OF inv self(2) k1_def [unfolded self(1)] g] u(2) self(1) by (auto intro: less_imp_le)
  next
    case other
    have "quiet {u} k k1" unfolding k1_def by (rule quiet_upd) (simp add: g)
    moreover have "quiet {u} k1 (end_task u how k1)"
      by (rule quiet_end_task) (use h g u other in \<open>simp_all add: k1_def\<close>)
    ultimately have q: "quiet {u} k k'" unfolding other(2) by (rule quiet_trans)
    show ?thesis using quiet_pre [OF pre q E(1)] inv q other(1) by (auto simp: quiet_def)
  qed
  then show "sched_inv k'" "k_preempt k' = k_preempt k"
    "ready_task k t \<Longrightarrow> t \<noteq> u \<Longrightarrow> k_current k' = t \<or> ready_task k' t \<and> wait_of k' t \<le> wait_of k t" by blast+
qed

fun is_tick :: "sched_op \<Rightarrow> bool" where
  "is_tick (Op_tick c) \<longleftrightarrow> True"
| "is_tick _ \<longleftrightarrow> False"

definition good_step :: "sched_op \<Rightarrow> nat \<Rightarrow> kernel \<Rightarrow> kernel \<Rightarrow> bool" where
  "good_step op t k k' \<longleftrightarrow> sched_inv k' \<and> k_preempt k' = k_preempt k
     \<and> (ready_task k t \<longrightarrow> t \<notin> sched_ends op \<longrightarrow> k_current k' = t
        \<or> ready_task k' t \<and> wait_of k' t \<le> wait_of k t \<and> (is_tick op \<longrightarrow> k_preempt k \<longrightarrow> wait_of k' t < wait_of k t))"

lemma quiet_good:
  assumes "sched_inv k" and "quiet {} k k'" and "\<not> is_tick op"
  shows "good_step op t k k'"
proof -
  have pre: "sched_pre k" using assms(1) by (simp add: sched_inv_def)
  show ?thesis
    using quiet_pre(2,3) [OF pre assms(2)] assms by (simp add: good_step_def) (simp add: quiet_def)
qed

lemma switch_good:
  assumes inv: "sched_inv k" and q: "quiet {k_current k} k k1" and s: "nx_schedule c k1 = Some k'"
    and i: "Some (k_current k) \<noteq> k_idle k" and "\<not> is_tick op"
  shows "good_step op t k k'"
proof -
  have E: "\<forall>i \<in> {k_current k}. k_idle k \<noteq> Some i" using i by auto
  have "t \<noteq> k_current k" if "ready_task k t" using inv that by (auto simp: sched_inv_def ready_task_def)
  then show ?thesis
    using quiet_schedule [OF inv q E s] assms(5) by (auto simp: good_step_def intro: less_imp_le)
qed

lemma sched_step:
  assumes inv: "sched_inv k" and m: "sched_may op k" and d: "sched_do op k = Some k'"
  shows "good_step op t k k'"
proof -
  define cur where "cur = k_current k"
  have h: "cur < 32" "length (k_tasks k) = 32" "st_of k cur = NX_TASK_RUNNING"
    using inv by (simp_all add: sched_inv_def sched_pre_def cur_def)
  show ?thesis
  proof (cases op)
    case (Op_tick c)
    then show ?thesis using tick_step [OF inv, of c k'] d by (auto simp: good_step_def)
  next
    case (Op_yield c)
    have "quiet {k_current k} k (upd_task (k_current k) (\<lambda>t. t\<lparr>tk_slice := 0\<rparr>) k)" by (rule quiet_current [OF inv]) simp
    then show ?thesis using switch_good [OF inv] d m Op_yield by (simp add: nx_yield_def)
  next
    case (Op_block on c)
    have "quiet {k_current k} k (upd_task (k_current k) (\<lambda>t. t\<lparr>tk_state := NX_TASK_BLOCKED, tk_blocked_on := on\<rparr>) k)"
      by (rule quiet_current [OF inv]) simp
    then show ?thesis using switch_good [OF inv] d m Op_block by (simp add: nx_task_block_def)
  next
    case (Op_sleep ticks c)
    have "quiet {k_current k} k (upd_task (k_current k) (\<lambda>t. (t\<lparr>tk_wake_tick := k_ticks k + ticks\<rparr>)\<lparr>tk_state := NX_TASK_BLOCKED,
        tk_blocked_on := On_sleep\<rparr>) k)" by (rule quiet_current [OF inv]) simp
    then show ?thesis using switch_good [OF inv] d m Op_sleep h
      by (simp add: nx_task_block_def nx_task_sleep_def upd_task_def cur_def)
  next
    case Op_idle
    have "ready_task k t \<Longrightarrow> t \<notin> {} \<Longrightarrow> k_current k' = t \<or> ready_task k' t \<and> wait_of k' t < wait_of k t"
      "sched_inv k'" "k_preempt k' = k_preempt k"
      using quiet_schedule [OF inv quiet_refl [of "{}"], of K_Idle k'] d Op_idle by (simp_all add: idle_round_def)
    then show ?thesis using Op_idle by (auto simp: good_step_def intro: less_imp_le)
  next
    case (Op_wake u)
    moreover have "k' = nx_task_wake u k" using d Op_wake by simp
    ultimately show ?thesis using quiet_good [OF inv quiet_wake(1) [of k]] h by (simp add: cur_def)
  next
    case (Op_start u)
    moreover have "k' = nx_task_start u k" using d Op_start by simp
    ultimately show ?thesis using quiet_good [OF inv quiet_start [of k u]] m h by (simp add: cur_def)
  next
    case (Op_exit code)
    have d': "nx_schedule K_Dead (end_task (k_current k) NX_END_EXIT (upd_task (k_current k) (\<lambda>x. x\<lparr>tk_exit_code := code\<rparr>) k)) = Some k'"
      using d Op_exit by (simp add: nx_task_exit_current_def Let_def)
    have i: "Some (k_current k) \<noteq> k_idle k" using m Op_exit by simp
    note e = exit_step [OF inv d' refl _ i]
    have "sched_inv k'" "k_preempt k' = k_preempt k" by (rule e; simp)+
    moreover have "k_current k' = t \<or> ready_task k' t \<and> wait_of k' t < wait_of k t" if "ready_task k t"
      by (rule e(3)) (simp_all add: that)
    ultimately show ?thesis using Op_exit by (auto simp: good_step_def intro: less_imp_le)
  next
    case (Op_end u how killer)
    have "upd_task u (\<lambda>x. x) k = k" by (simp add: upd_task_def)
    then obtain gone where d': "nx_task_terminate u how killer (upd_task u (\<lambda>x. x) k) = Some (gone, k')"
      using d Op_end by auto
    have i: "u < NX_TASK_MAX" "Some u \<noteq> k_idle k" using m Op_end by simp_all
    note e = terminate_step [OF inv d' refl _ i]
    have "sched_inv k'" "k_preempt k' = k_preempt k" by (rule e; simp)+
    moreover have "k_current k' = t \<or> ready_task k' t \<and> wait_of k' t \<le> wait_of k t" if "ready_task k t" "t \<noteq> u"
      by (rule e(3)) (simp_all add: that)
    ultimately show ?thesis using Op_end by (simp add: good_step_def)
  next
    case (Op_trap f cr2)
    obtain gone where d': "nx_task_terminate (k_current k) NX_END_FAULT 0
       (upd_task (k_current k) (\<lambda>x. x\<lparr>tk_fault_vector := tf_vector f, tk_fault_error := tf_error f, tk_fault_rip := tf_rip f,
                          tk_fault_cr2 := cr2\<rparr>) k) = Some (gone, k')"
      using d unfolding Op_trap sched_do.simps nx_user_trap_def Let_def bind_eq_Some_conv by (auto split: if_splits)
    have i: "k_current k < NX_TASK_MAX" "Some (k_current k) \<noteq> k_idle k" using m Op_trap h by (simp_all add: cur_def)
    note e = terminate_step [OF inv d' refl _ i]
    have "sched_inv k'" "k_preempt k' = k_preempt k" by (rule e; simp)+
    moreover have "k_current k' = t \<or> ready_task k' t \<and> wait_of k' t \<le> wait_of k t" if "ready_task k t"
      by (rule e(3)) (use that h(3) in \<open>auto simp: ready_task_def cur_def\<close>)
    ultimately show ?thesis using Op_trap by (simp add: good_step_def)
  next
    case (Op_kthread name fn)
    then obtain r where "nx_kthread_create name fn k = Some (r, k')" using d by auto
    from quiet_good [OF inv quiet_kthread [OF this]] show ?thesis using Op_kthread h by (simp add: cur_def)
  next
    case (Op_utask name elf sz args)
    then obtain r where "nx_utask_create name elf sz args k = Some (r, k')" using d by auto
    from quiet_good [OF inv quiet_utask [OF this]] show ?thesis using Op_utask h by (simp add: cur_def)
  qed
qed

text \<open>A run: the steps that were taken and the states after them.\<close>

inductive sched_run :: "kernel \<Rightarrow> sched_op list \<Rightarrow> kernel list \<Rightarrow> bool" where
  run_nil: "sched_run k [] []"
| run_step: "sched_may op k \<Longrightarrow> sched_do op k = Some k' \<Longrightarrow> sched_run k' ops ks \<Longrightarrow> sched_run k (op # ops) (k' # ks)"

lemma run_inv: "sched_run k ops ks \<Longrightarrow> sched_inv k \<Longrightarrow> x \<in> set ks \<Longrightarrow> sched_inv x"
proof (induction rule: sched_run.induct)
  case (run_step op k k' ops ks)
  then show ?case using sched_step [OF run_step(5,1,2)] by (auto simp: good_step_def)
qed simp

lemma run_waits:
  assumes "sched_run k ops ks" and "sched_inv k" and "k_preempt k" and "ready_task k t" and "\<forall>op \<in> set ops. t \<notin> sched_ends op"
    and "\<forall>x \<in> set ks. k_current x \<noteq> t"
  shows "length (filter is_tick ops) + 3 \<le> wait_of k t"
  using assms
proof (induction rule: sched_run.induct)
  case (run_nil k)
  have "behind (k_current k) t \<ge> 1" using run_nil by (intro slot_behind(2)) (simp_all add: sched_inv_def sched_pre_def ready_task_def)
  then show ?case by (simp add: wait_of_def)
next
  case (run_step op k k' ops ks)
  have g: "sched_inv k'" "k_preempt k' = k_preempt k" "ready_task k' t" "wait_of k' t \<le> wait_of k t"
    "is_tick op \<Longrightarrow> wait_of k' t < wait_of k t"
    using sched_step [OF run_step(5,1,2), of t] run_step by (auto simp: good_step_def)
  then show ?case using run_step by auto
qed

section \<open>Start and ticks\<close>

lemma kthread_created:
  assumes "nx_kthread_create name fn k = Some (Some t, k')" and l: "length (k_tasks k) = NX_TASK_MAX"
    and c: "st_of k (k_current k) \<noteq> NX_TASK_FREE"
  shows "t < NX_TASK_MAX" and "t \<noteq> k_current k" and "st_of k' t = NX_TASK_BLOCKED" and "tk_slot (task k' t) = t"
proof -
  obtain o1 k1 where al: "alloc_task name k = (o1, k1)" by fastforce
  have o1: "o1 = Some t"
    using assms(1) al by (cases o1) (auto simp: nx_kthread_create_def split: Option.bind_splits if_splits)
  note a = alloc_task_quiet [OF al [unfolded o1] l c]
  obtain st k2 where s: "kstack_alloc t k1 = Some (st, k2)" "k' = upd_task t (\<lambda>x. x\<lparr>tk_cr3 := k_root k2, tk_cont := fn\<rparr>) k2"
    using assms(1) al o1 by (auto simp: nx_kthread_create_def split: Option.bind_splits if_splits)
  have "building t k2 k'" unfolding s(2) by (rule building_upd) simp
  then have b: "building t k1 k'" using building_kstack_alloc [OF s(1)] building_trans by blast
  have "tk_slot (task k1 t) = t"
    using al o1 a(2) l by (auto simp: alloc_task_def fresh_task_def split: option.splits)
  then show "t < NX_TASK_MAX" "t \<noteq> k_current k" "st_of k' t = NX_TASK_BLOCKED" "tk_slot (task k' t) = t"
    using b a(2,3,4) by (simp_all add: building_def)
qed

text \<open>\<open>nx_sched_init\<close> on the zeroed task table establishes the invariant.\<close>

lemma sched_init_inv:
  assumes i: "nx_sched_init top preempt k = Some k'" and l: "length (k_tasks k) = NX_TASK_MAX"
    and z: "\<forall>i < NX_TASK_MAX. st_of k i = NX_TASK_FREE"
  shows "sched_inv k'"
proof -
  have "find (\<lambda>s. st_of k s = NX_TASK_FREE) [0..<NX_TASK_MAX] = Some 0"
    using z by (subst upt_conv_Cons) simp_all
  then have a: "alloc_task (c_lit ''kmain'') k
      = (Some 0, (upd_task 0 (\<lambda>_. fresh_task (k_next_id k) 0 (c_lit ''kmain'')) k)\<lparr>k_next_id := k_next_id k + 1\<rparr>)"
    unfolding alloc_task_def by (simp only: option.simps)
  define k1 where "k1 = (upd_task 0 (\<lambda>x. x\<lparr>tk_state := NX_TASK_RUNNING, tk_cr3 := k_root k, tk_kstack_top := top,
      tk_slice := NX_SCHED_SLICE\<rparr>) ((upd_task 0 (\<lambda>_. fresh_task (k_next_id k) 0 (c_lit ''kmain'')) k)\<lparr>k_next_id := k_next_id k + 1\<rparr>))
      \<lparr>k_current := 0\<rparr>"
  have k1: "length (k_tasks k1) = 32" "k_current k1 = 0" "st_of k1 0 = NX_TASK_RUNNING" "tk_slot (task k1 0) = 0"
    "i \<noteq> 0 \<longrightarrow> task k1 i = task k i" for i
    using l by (auto simp: k1_def fresh_task_def)
  obtain d k2 where c: "nx_kthread_create (c_lit ''idle'') K_Idle k1 = Some (Some d, k2)"
    and k': "k_tasks k' = k_tasks (upd_task d (\<lambda>x. x\<lparr>tk_state := NX_TASK_READY\<rparr>) k2)" "k_idle k' = Some d" "k_current k' = k_current k2"
    using i a unfolding nx_sched_init_def k1_def
    by (auto simp: kprintf_def Let_def split: Option.bind_splits)
  have q: "quiet {} k1 k2" by (rule quiet_kthread [OF c]) (use k1 in simp_all)
  have d: "d < 32" "d \<noteq> 0" "tk_slot (task k2 d) = d" using kthread_created [OF c] k1 by simp_all
  have q0: "st_of k2 0 = NX_TASK_RUNNING" "tk_slot (task k2 0) = 0" "length (k_tasks k2) = 32" "k_current k2 = 0"
  proof -
    have "quiet_at {} k1 k2 0" using q by (simp add: quiet_def)
    then show "st_of k2 0 = NX_TASK_RUNNING" "tk_slot (task k2 0) = 0" using k1(3,4) by (auto simp: quiet_at_def)
  qed (use q k1 in \<open>simp_all add: quiet_def\<close>)
  have qi: "st_of k2 i \<noteq> NX_TASK_RUNNING \<and> (st_of k2 i \<noteq> NX_TASK_FREE \<longrightarrow> tk_slot (task k2 i) = i)" if "i < 32" "i \<noteq> 0" for i
  proof -
    have "quiet_at {} k1 k2 i" using q that by (simp add: quiet_def)
    then show ?thesis using that z k1(5) [of i] by (auto simp: quiet_at_def)
  qed
  have ts: "task k' j = (if j = d then (task k2 d)\<lparr>tk_state := NX_TASK_READY\<rparr> else task k2 j)" for j
    using k'(1) d q0(3) by simp
  show ?thesis
  proof (rule sched_invI)
    show "\<forall>i < NX_TASK_MAX. st_of k' i \<noteq> NX_TASK_FREE \<longrightarrow> tk_slot (task k' i) = i"
      using qi q0(2) d(3) by (simp add: ts) (metis neq0_conv)
    show "\<forall>i < NX_TASK_MAX. st_of k' i = NX_TASK_RUNNING \<longrightarrow> i = k_current k'"
      using qi by (simp add: ts k'(3) q0(4)) (metis neq0_conv)
    show "k_idle k' = Some d" "d < NX_TASK_MAX" by (rule k'(2), rule d(1))
    show "length (k_tasks k') = NX_TASK_MAX" "k_current k' < NX_TASK_MAX" "st_of k' (k_current k') = NX_TASK_RUNNING"
      "st_of k' d = NX_TASK_READY \<or> st_of k' d = NX_TASK_RUNNING"
      using k'(1,3) q0 d(1,2) by (simp_all add: ts)
  qed
qed

lemma schedule_wd: "nx_schedule c k = Some k' \<Longrightarrow> k_wd_deadline k' = k_wd_deadline k"
  by (auto simp: nx_schedule_def Let_def split: Option.bind_splits if_splits)

text \<open>With the watchdog off the timer interrupt always returns.\<close>

lemma tick_total:
  assumes inv: "sched_inv k" and w: "k_wd_deadline k = 0"
  shows "\<exists>k'. on_periodic c k = Some k' \<and> k_wd_deadline k' = 0"
proof -
  define f :: "nx_task \<Rightarrow> nx_task" where "f = (\<lambda>t. t\<lparr>tk_ticks := tk_ticks t + 1, tk_slice := (if tk_slice t \<noteq> 0 then tk_slice t - 1 else 0)\<rparr>)"
  define k1 where "k1 = upd_task (k_current k) f (k\<lparr>k_ticks := k_ticks k + 1\<rparr>)"
  define k2 where "k2 = wake_sleepers k1"
  define k3 where "k3 = (if Some (k_current k) \<noteq> k_idle k2
      then (upd_task (k_current k) (\<lambda>t. t\<lparr>tk_preempted := tk_preempted t + 1\<rparr>) k2)\<lparr>k_preemptions := k_preemptions k2 + 1\<rparr> else k2)"
  have h: "k_current k < 32" "length (k_tasks k) = 32" "st_of k (k_current k) = NX_TASK_RUNNING" and pre: "sched_pre k"
    using inv by (simp_all add: sched_inv_def sched_pre_def)
  have sl: "tk_slice (f x) \<le> tk_slice x" for x by (simp add: f_def word_le_nat_alt unat_sub word_unat_eq_iff)
  have "quiet {} k (k\<lparr>k_ticks := k_ticks k + 1\<rparr>)" by (rule quiet_tasks) simp_all
  then have q1: "quiet {} k k1" unfolding k1_def by (rule quiet_trans [OF _ quiet_upd]) (use sl in \<open>simp add: f_def\<close>)
  have c1: "length (k_tasks k1) = 32" "k_current k1 = k_current k" "st_of k1 (k_current k) = NX_TASK_RUNNING" "k_wd_deadline k1 = 0"
    using h w by (simp_all add: k1_def f_def)
  have w2: "quiet {} k1 k2" "k_wd_deadline k2 = 0" using quiet_wake_sleepers [of k1 "{}"] c1 by (simp_all add: k2_def)
  have "quiet {} k2 k3"
  proof (cases "Some (k_current k) \<noteq> k_idle k2")
    case True
    then show ?thesis unfolding k3_def by (simp, intro quiet_trans [OF quiet_upd quiet_tasks]) simp_all
  qed (simp add: k3_def)
  then have "quiet {} k k3" using q1 w2(1) quiet_trans by blast
  then obtain k' where k': "nx_schedule c k3 = Some k'" using quiet_pre(1) [OF pre] schedule_total by (metis empty_iff)
  have "k_wd_deadline k' = 0" using schedule_wd [OF k'] w2(2) by (simp add: k3_def)
  then show ?thesis
    using k' w2(2) unfolding on_periodic_def sched_tick_def Let_def
    by (cases "Some (k_current k) = k_idle k2") (simp_all add: k1_def [symmetric, unfolded f_def] k2_def [symmetric] k3_def)
qed

lemma tick_run:
  "sched_inv k \<Longrightarrow> k_wd_deadline k = 0 \<Longrightarrow> \<exists>ks. length ks = n \<and> sched_run k (replicate n (Op_tick K_User)) ks"
proof (induction n arbitrary: k)
  case 0
  show ?case using run_nil by auto
next
  case (Suc n)
  obtain k' where k': "on_periodic K_User k = Some k'" "k_wd_deadline k' = 0" using tick_total [OF Suc.prems] by blast
  have "sched_inv k'" by (rule tick_step(1) [OF Suc.prems(1) k'(1)])
  then obtain ks where "length ks = n" "sched_run k' (replicate n (Op_tick K_User)) ks" using Suc.IH k'(2) by blast
  then show ?case using run_step [of "Op_tick K_User" k k'] k'(1) by (intro exI [of _ "k' # ks"]) simp
qed

text \<open>A kernel with three tasks: \<open>kmain\<close> running, the idle thread and one ready task.\<close>

definition three_tasks :: kernel where
  "three_tasks =
     \<lparr>k_tasks = map (\<lambda>i. (fresh_task (of_nat i) i [])\<lparr>tk_state := (if i = 0 then NX_TASK_RUNNING else if i \<le> 2 then NX_TASK_READY
        else NX_TASK_FREE)\<rparr>) [0..<NX_TASK_MAX],
      k_vmos = [], k_eps = [], k_static = [],
      k_pmm = \<lparr>pm_used = [], pm_managed = [], pm_used_at = 0, pm_managed_at = 0, pm_npages = 0, pm_managed_pages = 0,
        pm_free_pages = 0, pm_next = 0, pm_storage_first = 0, pm_storage_last = 0\<rparr>,
      k_mem = (\<lambda>_. 0), k_root = 0, k_tables = 0, k_events = \<lparr>el_ev = [], el_next = 1, el_disabled = True\<rparr>, k_ticks = 0,
      k_current = 0, k_idle = Some 1, k_reaper = None, k_next_id = 3, k_preempt = True, k_wd_deadline = 0, k_wd_what = [],
      k_switches = 0, k_preemptions = 0, k_debug_seq = 0, k_boot_id = 0, k_serial = [], k_initramfs = None,
      k_inj_uaccess = False, k_inj_overgrant = False, k_inj_kill = False, k_trace_ipc = False\<rparr>"

lemma three_tasks_nth:
  "i < NX_TASK_MAX \<Longrightarrow> task three_tasks i = (fresh_task (of_nat i) i [])\<lparr>tk_state := (if i = 0 then NX_TASK_RUNNING
     else if i \<le> 2 then NX_TASK_READY else NX_TASK_FREE)\<rparr>"
  by (simp add: three_tasks_def del: upt_rec_numeral)

lemma three_tasks_inv: "sched_inv three_tasks" "ready_task three_tasks 2" "k_preempt three_tasks" "k_wd_deadline three_tasks = 0"
  "tk_slice (task three_tasks (k_current three_tasks)) \<le> NX_SCHED_SLICE"
proof -
  have f: "length (k_tasks three_tasks) = 32" "k_current three_tasks = 0" "k_idle three_tasks = Some 1"
    by (simp_all add: three_tasks_def del: upt_rec_numeral)
  show "sched_inv three_tasks"
    by (rule sched_invI [where d = 1]) (auto simp: f three_tasks_nth fresh_task_def split: if_splits)
  show "ready_task three_tasks 2" by (simp add: ready_task_def three_tasks_nth f)
  show "k_preempt three_tasks" "k_wd_deadline three_tasks = 0" by (simp_all add: three_tasks_def)
  show "tk_slice (task three_tasks (k_current three_tasks)) \<le> NX_SCHED_SLICE" by (simp add: f three_tasks_nth fresh_task_def)
qed

section \<open>What the scheduler promises\<close>

text \<open>
  C6. Exactly one task runs. In every state of every run of the scheduler the running task is the current
  one and no other, every task sits in its own slot, and the idle thread is ready or running.
\<close>

theorem sched_one_running:
  assumes "sched_inv k" and "sched_run k ops ks" and "x \<in> set ks" and "i < NX_TASK_MAX"
  shows "(tk_state (task x i) = NX_TASK_RUNNING) = (i = k_current x)
    \<and> (tk_state (task x i) = NX_TASK_FREE \<or> tk_slot (task x i) = i)
    \<and> (k_idle x = Some i \<longrightarrow> tk_state (task x i) = NX_TASK_READY \<or> tk_state (task x i) = NX_TASK_RUNNING)"
proof -
  have inv: "sched_inv x" by (rule run_inv [OF assms(2,1,3)])
  then have "st_of x i = NX_TASK_RUNNING \<Longrightarrow> i = k_current x" "st_of x (k_current x) = NX_TASK_RUNNING"
    "st_of x i \<noteq> NX_TASK_FREE \<Longrightarrow> tk_slot (task x i) = i"
    "k_idle x = Some i \<Longrightarrow> st_of x i = NX_TASK_READY \<or> st_of x i = NX_TASK_RUNNING"
    using assms(4) unfolding sched_inv_def sched_pre_def by (blast, blast, blast, auto)
  then show ?thesis by blast
qed

theorem sched_one_running_witness:
  "\<exists>ks x. sched_run three_tasks [Op_tick K_User] ks \<and> x \<in> set ks \<and> (tk_state (task x 2) = NX_TASK_RUNNING) = (2 = k_current x)"
proof -
  obtain ks where ks: "length ks = 1" "sched_run three_tasks [Op_tick K_User] ks"
    using tick_run [OF three_tasks_inv(1,4), of 1] by auto
  then have "hd ks \<in> set ks" by (cases ks) auto
  then show ?thesis using sched_one_running [OF three_tasks_inv(1) ks(2), of "hd ks" 2] ks(2) by auto
qed

text \<open>
  C5. No ready task starves. With preemption on, a ready task other than the idle thread becomes the
  current task within 93 timer ticks, whatever the tasks do in between (yield, block, sleep, wake, start,
  end, create), unless it is ended itself.
\<close>

theorem sched_no_starvation:
  assumes "sched_inv k" and "k_preempt k" and "tk_slice (task k (k_current k)) \<le> NX_SCHED_SLICE" and "ready_task k t"
    and "sched_run k ops ks" and "\<forall>op \<in> set ops. t \<notin> sched_ends op" and "93 \<le> length (filter is_tick ops)"
  shows "\<exists>x \<in> set ks. k_current x = t \<and> tk_state (task x t) = NX_TASK_RUNNING"
proof -
  have c: "k_current k < 32" "t < 32" "k_current k \<noteq> t" using assms(1,4) by (auto simp: sched_inv_def sched_pre_def ready_task_def)
  then have "behind (k_current k) t \<le> 31" by (auto simp: behind_def)
  moreover have "unat (tk_slice (task k (k_current k))) \<le> 2" using assms(3) by (simp add: word_le_nat_alt)
  ultimately have "wait_of k t \<le> 95" by (simp add: wait_of_def)
  then obtain x where x: "x \<in> set ks" "k_current x = t"
    using run_waits [OF assms(5,1,2,4,6)] assms(7) by fastforce
  moreover have "tk_state (task x t) = NX_TASK_RUNNING"
    using run_inv [OF assms(5,1) x(1)] x(2) by (auto simp: sched_inv_def)
  ultimately show ?thesis by blast
qed

theorem sched_no_starvation_witness:
  "\<exists>ks x. sched_run three_tasks (replicate 93 (Op_tick K_User)) ks \<and> x \<in> set ks \<and> k_current x = 2
     \<and> tk_state (task x 2) = NX_TASK_RUNNING"
proof -
  obtain ks where ks: "sched_run three_tasks (replicate 93 (Op_tick K_User)) ks"
    using tick_run [OF three_tasks_inv(1,4), of 93] by blast
  have "93 \<le> length (filter is_tick (replicate 93 (Op_tick K_User)))" by (simp only: filter_replicate is_tick.simps if_True length_replicate)
  moreover have "\<forall>op \<in> set (replicate 93 (Op_tick K_User)). 2 \<notin> sched_ends op" by (simp only: set_replicate_conv_if) simp
  ultimately show ?thesis
    using sched_no_starvation [OF three_tasks_inv(1,3,5,2) ks] ks by blast
qed

end
