(* ===== verification/Sys_Confined.thy ===== *)
theory Sys_Confined
  imports Confinement Sched_Run
begin

text \<open>
  Confinement by the system calls. A call adds authority only over a memory object that was free before, the
  one it creates, and over tasks if the caller holds the sovereign object.
\<close>

section \<open>The objects a call may add authority over\<close>

definition sovereign :: "kernel \<Rightarrow> nat \<Rightarrow> bool" where
  "sovereign k t \<longleftrightarrow> (\<exists>h. \<not> isl (nx_ht_lookup t h NX_OBJ_SOVEREIGN NX_RIGHT_SOVEREIGN k))"

definition may_gain :: "kernel \<Rightarrow> nat \<Rightarrow> optr set" where
  "may_gain k t = {Vmo_obj v | v. v < NX_VMO_POOL \<and> \<not> vm_used (k_vmos k ! v)} \<union> {Task_obj i | i. i < NX_TASK_MAX \<and> sovereign k t}"

text \<open>An object pointer that denotes a slot of its pool, or a static object.\<close>

fun ptr_ok :: "optr \<Rightarrow> bool" where
  "ptr_ok (Task_obj i) = (i < NX_TASK_MAX)"
| "ptr_ok (Ep_obj i) = (i < NX_EP_POOL)"
| "ptr_ok (Vmo_obj i) = (i < NX_VMO_POOL)"
| "ptr_ok (Static_obj i) = (i < 4)"

definition ptrs_ok :: "kernel \<Rightarrow> bool" where
  "ptrs_ok k \<longleftrightarrow> (\<forall>(p, r) \<in> authority k. ptr_ok p)"

lemma conf_ptrs: "conf (may_gain k0 t) k k' \<Longrightarrow> ptrs_ok k \<Longrightarrow> ptrs_ok k'"
  unfolding conf_def ptrs_ok_def may_gain_def by fastforce

lemma lookup64_authority:
  assumes "ht_lookup64 t h type need k = Inr (p, hv)" and "caps_wf k" and "t < NX_TASK_MAX"
  shows "(p, hv) \<in> authority k" and "nx_ht_lookup t (ucast h) type need k = Inr (p, hv)"
  using assms lookup_authority(1) [OF assms(2,3)] by (auto simp: ht_lookup64_def split: if_splits)

lemma lookup64_sovereign: "ht_lookup64 t h NX_OBJ_SOVEREIGN NX_RIGHT_SOVEREIGN k = Inr x \<Longrightarrow> i < NX_TASK_MAX \<Longrightarrow> Task_obj i \<in> may_gain k t"
  by (auto simp: may_gain_def sovereign_def ht_lookup64_def split: if_splits intro: exI [of _ "ucast h"])

section \<open>Calls that keep the view\<close>

lemma view_copy_out: "copy_out t va src k = Some (st, k') \<Longrightarrow> cap_view k' = cap_view k"
  by (auto simp: copy_out_def bind_eq_Some_conv intro!: view_mem)

lemma view_copy_struct: "copy_struct t va src k = Some (r, k') \<Longrightarrow> cap_view k' = cap_view k"
  by (auto simp: copy_struct_def bind_eq_Some_conv sys_ok_def sys_fail_def split: if_splits dest: view_copy_out)

lemma view_debug_write:
  assumes "sys_debug_write t buf len k = Some (r, k')"
  shows "cap_view k' = cap_view k"
proof -
  have v: "cap_view (upd_task t f (k\<lparr>k_serial := s, k_debug_seq := n\<rparr>)) = cap_view k" if "\<And>x. tk_handles (f x) = tk_handles x" for f s n
    using view_task [of f t "k\<lparr>k_serial := s, k_debug_seq := n\<rparr>", OF that] view_fields [of "k\<lparr>k_serial := s, k_debug_seq := n\<rparr>" k] by simp
  show ?thesis using assms
    by (auto simp: sys_debug_write_def Let_def sys_ok_def sys_fail_def bind_eq_Some_conv v
        simp del: debug_lines.simps split: if_splits)
qed

lemma mem_only_map_loop: "vmo_map_loop root va flags i pas k = (b, k') \<Longrightarrow> mem_only k k'"
proof (induction pas arbitrary: i k)
  case (Cons pa pas)
  obtain st k1 where m: "nx_vmm_map_page_in root (va + of_nat i * NX_PAGE_4K) pa flags k = (st, k1)" by fastforce
  have f: "mem_only k (fold (\<lambda>j k. snd (nx_vmm_unmap_page_in root (va + of_nat j * NX_PAGE_4K) k)) js k)" for js k
  proof (induction js arbitrary: k)
    case (Cons j js)
    have "mem_only k (snd (nx_vmm_unmap_page_in root (va + of_nat j * NX_PAGE_4K) k))"
      using mem_only_unmap_in by (metis prod.collapse)
    then show ?case using Cons.IH mem_only_trans by fastforce
  qed simp
  have "mem_only k1 k'" using Cons m f by (auto split: if_splits)
  then show ?case using mem_only_map_in [OF m] mem_only_trans by blast
qed simp

lemma vmo_map_cases:
  assumes "sys_vmo_map t h va prot k = Some (r, k')"
  shows "k' = k \<or> (\<exists>root fl pas b k1. vmo_map_loop root va fl 0 pas k = (b, k1)
     \<and> (k' = k1 \<or> (\<exists>slot m v. k' = upd_task t (\<lambda>x. x\<lparr>tk_maps := (tk_maps x)[slot := m]\<rparr>) (nx_obj_ref (Vmo_obj v) k1))))"
  using assms unfolding sys_vmo_map_def Let_def sys_ok_def sys_fail_def
  by (simp split: if_split_asm sum.split_asm prod.split_asm optr.split_asm option.split_asm bool.split_asm del: upt_rec_numeral) blast+

lemma view_vmo_map: "sys_vmo_map t h va prot k = Some (r, k') \<Longrightarrow> cap_view k' = cap_view k"
  using vmo_map_cases [of t h va prot k r k'] mem_only_map_loop view_mem by (fastforce simp: view_task)

lemma view_trace_send: "trace_send t len x rights k = Some k' \<Longrightarrow> cap_view k' = cap_view k"
  by (auto simp: trace_send_def split: if_splits option.splits prod.splits dest: view_kprintf)

section \<open>Memory objects\<close>

lemma view_vmo_fill: "vmo_fill n i k = (b, k') \<Longrightarrow> cap_view k' = cap_view k"
proof (induction n arbitrary: k)
  case (Suc n)
  obtain pa k1 where a: "kpage_alloc k = (pa, k1)" by fastforce
  have "cap_view (k1\<lparr>k_mem := zero_page (k_mem k1) pa\<rparr>) = cap_view k1" by (rule view_mem) simp
  then show ?case using Suc a view_mem [OF mem_only_kpage_alloc [OF a]] by (auto split: if_splits)
qed simp

lemma vmo_create_view:
  assumes c: "nx_vmo_create pages k = Some (r, k')"
  shows "cap_view k' = cap_view k" and "r = Inr v \<Longrightarrow> v < NX_VMO_POOL \<and> \<not> vm_used (k_vmos k ! v)"
proof -
  define f where "f = find (\<lambda>i. \<not> vm_used (k_vmos k ! i)) [0..<NX_VMO_POOL]"
  consider "k' = k" "isl r" | i k1 where "f = Some i" "vmo_fill (unat pages) i (upd_vmo i (\<lambda>_. \<lparr>vm_base = obj_header NX_OBJ_VMO Vmo_destroy,
      vm_used = True, vm_pages = 0, vm_phys = replicate (unat NX_VMO_MAX_PAGES) 0\<rparr>) k) = (True, k1)" "r = Inr i" "k' = k1"
    | i k1 where "f = Some i" "vmo_fill (unat pages) i (upd_vmo i (\<lambda>_. \<lparr>vm_base = obj_header NX_OBJ_VMO Vmo_destroy,
      vm_used = True, vm_pages = 0, vm_phys = replicate (unat NX_VMO_MAX_PAGES) 0\<rparr>) k) = (False, k1)" "vmo_destroy i k1 = Some k'" "isl r"
    using c unfolding nx_vmo_create_def f_def [symmetric]
    by (auto simp: bind_eq_Some_conv split: if_splits option.splits prod.splits bool.splits)
  note cs = this
  show "cap_view k' = cap_view k" using cs by cases (auto dest!: view_vmo_fill vmo_destroy_view)
  assume "r = Inr v"
  with cs have "f = Some v" by cases auto
  then obtain j where "j < NX_VMO_POOL" "v = [0..<NX_VMO_POOL] ! j" "\<not> vm_used (k_vmos k ! v)"
    unfolding f_def find_Some_iff by auto
  then show "v < NX_VMO_POOL \<and> \<not> vm_used (k_vmos k ! v)" by (simp del: upt_rec_numeral)
qed

lemma sys_vmo_create_conf:
  assumes c: "sys_vmo_create t pages k = Some (r, k')" and wf: "caps_wf k"
  shows "conf (may_gain k t) k k'"
proof (cases "pages = 0 \<or> pages > 64")
  case True
  then show ?thesis using c conf_view [OF wf] by (auto simp: sys_vmo_create_def sys_fail_def)
next
  case False
  then obtain st k1 where k1: "nx_vmo_create (ucast pages) k = Some (st, k1)"
    using c by (auto simp: sys_vmo_create_def bind_eq_Some_conv)
  have c1: "conf (may_gain k t) k k1" by (rule conf_view [OF wf vmo_create_view(1) [OF k1]])
  show ?thesis
  proof (cases st)
    case (Inl e)
    then show ?thesis using c c1 k1 False by (simp add: sys_vmo_create_def sys_fail_def)
  next
    case (Inr v)
    define rights where "rights = NX_RIGHT_READ OR NX_RIGHT_WRITE OR NX_RIGHT_MAP OR NX_RIGHT_TRANSFER OR NX_RIGHT_DUPLICATE"
    obtain h k2 where i: "nx_ht_install t (Vmo_obj v) rights k1 = (h, k2)" by fastforce
    have "Vmo_obj v \<in> may_gain k t" using vmo_create_view(2) [OF k1 Inr] by (simp add: may_gain_def)
    then have c2: "conf (may_gain k t) k k2" using conf_trans [OF c1] install_conf [OF conf_wf [OF c1] i] by blast
    have "nx_obj_unref (Vmo_obj v) k2 = Some k'"
      using c k1 Inr i False unfolding sys_vmo_create_def rights_def [symmetric]
      by (cases h) (auto simp: bind_eq_Some_conv sys_ok_def sys_fail_def)
    then show ?thesis using conf_trans [OF c2] unref_conf [OF conf_wf [OF c2]] by blast
  qed
qed

section \<open>Messages\<close>

lemma ipc_take_conf:
  assumes tk: "ipc_take t h rights k = (r, k')" and wf: "caps_wf k" and t: "t < NX_TASK_MAX"
  shows "conf S k k'" and "r = Inr (xo, hv, q) \<Longrightarrow> (xo, hv) \<in> authority k \<and> q AND NOT hv = 0"
proof -
  have g: "\<not> k_inj_overgrant k" using wf by (simp add: caps_wf_def)
  have cs: "k' = k \<and> isl r \<or> (\<exists>i xo hv. k' = upd_handle t i clear_entry k \<and> r = Inr (xo, hv, ucast rights)
      \<and> nx_ht_lookup t (ucast h) NX_OBJ_ANY NX_RIGHT_TRANSFER k = Inr (xo, hv) \<and> ucast rights AND NOT hv = 0)"
    using tk g unfolding ipc_take_def nx_ht_take_def
    by (auto simp: upd_handle_def split: if_splits sum.splits prod.splits option.splits)
  then show "conf S k k'" using conf_view [OF wf] clear_conf [OF wf] by auto
  assume "r = Inr (xo, hv, q)"
  then show "(xo, hv) \<in> authority k \<and> q AND NOT hv = 0" using cs lookup_authority(1) [OF wf t] by auto
qed

lemma deliver_conf:
  assumes c: "conf S k k1" and m: "\<And>p. im_obj m = Some p \<Longrightarrow> \<exists>r0. (p, r0) \<in> authority k \<and> im_rights m AND NOT r0 = 0"
  shows "conf S k (ipc_deliver e m k1)"
proof -
  define f where "f = (\<lambda>s. s\<lparr>es_ep := snd (nx_ep_push (es_ep s) m)\<rparr> :: nx_ep_slot)"
  have i: "ep_inv (es_ep (f s)) \<and> set (ep_msgs (es_ep (f s))) \<subseteq> set (ep_msgs (es_ep s)) \<union> {m}" if "ep_inv (es_ep s)" for s
  proof -
    obtain st ep' where p: "nx_ep_push (es_ep s) m = (st, ep')" by fastforce
    show ?thesis using ep_push_spec(1,5) [OF that p] by (auto simp: f_def p split: if_splits)
  qed
  note u = ep_update [OF conf_wf [OF c], of e f "{m}"]
  have "caps_wf (upd_ep e f k1)" and "authority (upd_ep e f k1) \<subseteq> authority k1 \<union> {(p, r). im_obj m = Some p \<and> im_rights m = r}"
    using u i by auto
  then have c2: "conf S k (upd_ep e f k1)" using c m unfolding conf_def by blast
  have "cap_view (ipc_deliver e m k1) = cap_view (upd_ep e f k1)"
    unfolding ipc_deliver_def Let_def f_def [symmetric] by (auto split: option.splits intro: view_ep simp: ring_def)
  then show ?thesis by (rule conf_keep [OF c2])
qed

lemma sys_ipc_send_cases:
  assumes "sys_ipc_send t eh buf len h rights k = Some (r, k')"
  shows "k' = k \<or> (\<exists>e m k1. im_obj m = None \<and> trace_send t (ucast len) None rights k = Some k1 \<and> k' = ipc_deliver e m k1)
     \<or> (\<exists>st. ipc_take t h rights k = (Inl st, k'))
     \<or> (\<exists>e m xo hv q k1 k2. ipc_take t h rights k = (Inr (xo, hv, q), k1) \<and> trace_send t (ucast len) (Some (xo, hv, q)) rights k1 = Some k2
         \<and> k' = ipc_deliver e (m\<lparr>im_obj := Some xo, im_rights := q\<rparr>) k2)"
proof (cases "k' = k")
  case False
  obtain e hv0 where e: "ht_lookup64 t eh NX_OBJ_ENDPOINT NX_RIGHT_SEND k = Inr (Ep_obj e, hv0)"
    using assms False unfolding sys_ipc_send_def sys_fail_def by (auto split: sum.split_asm optr.split_asm)
  obtain bs where b: "copy_in t buf len k = Some (NX_OK, bs)"
    using assms False e unfolding sys_ipc_send_def sys_fail_def by (auto simp: bind_eq_Some_conv split: if_split_asm)
  obtain x k1 where x: "ipc_take t h rights k = (x, k1)" by fastforce
  define m where "m = msg_zero\<lparr>im_len := ucast len, im_sender_task := tk_id (task k t),
                      im_data := bs @ replicate (unat NX_IPC_MSG_MAX - length bs) 0\<rparr>"
  have m: "im_obj m = None" by (simp add: m_def msg_zero_def)
  show ?thesis
  proof (cases "h = 0")
    case True
    then have "\<exists>k1. trace_send t (ucast len) None rights k = Some k1 \<and> k' = ipc_deliver e m k1"
      using assms False e b unfolding sys_ipc_send_def sys_fail_def sys_ok_def Let_def
      by (auto simp: bind_eq_Some_conv m_def split: if_split_asm)
    then show ?thesis using m by blast
  next
    case False
    then have "(isl x \<and> k' = k1) \<or> (\<exists>xo hv q k2. x = Inr (xo, hv, q) \<and> trace_send t (ucast len) (Some (xo, hv, q)) rights k1 = Some k2
        \<and> k' = ipc_deliver e (m\<lparr>im_obj := Some xo, im_rights := q\<rparr>) k2)"
      using assms \<open>k' \<noteq> k\<close> e b x unfolding sys_ipc_send_def sys_fail_def sys_ok_def Let_def
      by (cases x) (auto simp: bind_eq_Some_conv m_def split: if_split_asm)
    then show ?thesis using x by (cases x) (auto, blast)
  qed
qed simp

lemma sys_ipc_send_conf:
  assumes s: "sys_ipc_send t eh buf len h rights k = Some (r, k')" and wf: "caps_wf k" and t: "t < NX_TASK_MAX"
  shows "conf S k k'"
  using sys_ipc_send_cases [OF s]
proof (elim disjE exE conjE)
  fix e m k1 assume "im_obj m = None" "trace_send t (ucast len) None rights k = Some k1" "k' = ipc_deliver e m k1"
  then show ?thesis using deliver_conf [OF conf_view [OF wf view_trace_send], of t "ucast len" None rights k1 m S e] by simp
next
  fix st assume "ipc_take t h rights k = (Inl st, k')"
  then show ?thesis by (rule ipc_take_conf(1) [OF _ wf t])
next
  fix e m xo hv q k1 k2
  assume a: "ipc_take t h rights k = (Inr (xo, hv, q), k1)" and tr: "trace_send t (ucast len) (Some (xo, hv, q)) rights k1 = Some k2"
    and k': "k' = ipc_deliver e (m\<lparr>im_obj := Some xo, im_rights := q\<rparr>) k2"
  have "conf S k k2" by (rule conf_keep [OF ipc_take_conf(1) [OF a wf t] view_trace_send [OF tr]])
  then show ?thesis unfolding k' by (rule deliver_conf) (use ipc_take_conf(2) [OF a wf t] in auto)
qed (simp add: conf_view [OF wf])

lemma peek_authority:
  assumes wf: "caps_wf k" and m: "nx_ep_peek (es_ep (k_eps k ! e)) = Some m" and o: "im_obj m = Some p"
    and e: "e < NX_EP_POOL"
  shows "(p, im_rights m) \<in> authority k"
proof -
  have s: "k_eps k ! e \<in> set (k_eps k)" and i: "ep_inv (es_ep (k_eps k ! e))" using wf e by (auto simp: caps_wf_def)
  have "m \<in> set (ep_msgs (es_ep (k_eps k ! e)))" using m unfolding ep_peek_msgs [OF i] by (auto split: list.splits)
  then show ?thesis using s o by (auto simp: authority_def in_queues_def)
qed

lemma accept_conf:
  assumes a: "ipc_accept t e m buf info k = Some (r, k')" and wf: "caps_wf k"
    and m: "\<And>p. im_obj m = Some p \<Longrightarrow> (p, im_rights m) \<in> authority k"
  shows "conf S k k'"
proof -
  obtain x k1 where x: "(case im_obj m of None \<Rightarrow> Some (Inr (0, 0), k)
       | Some p \<Rightarrow>
           (case nx_ht_install t p (im_rights m) k of
              (Inl st, k) \<Rightarrow> Some (Inl st, k)
            | (Inr h, k) \<Rightarrow> do { k \<leftarrow> nx_obj_unref p k; Some (Inr (h, im_rights m), k) })) = Some (x, k1)"
    using a unfolding ipc_accept_def by (auto simp: bind_eq_Some_conv)
  have c1: "conf S k k1"
  proof (cases "im_obj m")
    case None
    then show ?thesis using x conf_view [OF wf] by simp
  next
    case (Some p)
    obtain h k2 where i: "nx_ht_install t p (im_rights m) k = (h, k2)" by fastforce
    have c2: "conf S k k2" using m [OF Some] sub_refl by (intro install_conf [OF wf i]) blast
    have "k1 = k2 \<or> nx_obj_unref p k2 = Some k1" using x Some i by (cases h) (auto simp: bind_eq_Some_conv)
    then show ?thesis using c2 conf_trans [OF c2 unref_conf [OF conf_wf [OF c2]]] by auto
  qed
  show ?thesis
  proof (cases x)
    case (Inl st)
    then show ?thesis using a x c1 unfolding ipc_accept_def by (simp add: sys_fail_def)
  next
    case (Inr hr)
    then obtain k2 k3 k4 st2 st3 fmt args where k: "copy_out t buf (take (unat (im_len m)) (im_data m)) k1 = Some (st2, k2)"
        "copy_out t info (le_enc 4 (im_len m) @ le_enc 4 (fst hr) @ le_enc 4 (snd hr) @ le_enc 4 (im_sender_task m)) k2 = Some (st3, k3)"
        "k4 = k3 \<or> kprintf fmt args k3 = Some k4" "k' = upd_ep e (\<lambda>s. s\<lparr>es_ep := nx_ep_pop (es_ep s)\<rparr>) k4"
      using a x unfolding ipc_accept_def
      by (cases hr) (auto simp: bind_eq_Some_conv sys_ok_def split: if_split_asm, blast+)
    have "cap_view k4 = cap_view k1" using k(3) view_copy_out [OF k(1)] view_copy_out [OF k(2)] view_kprintf by auto
    then have c4: "conf S k k4" by (rule conf_keep [OF c1])
    show ?thesis unfolding k(4) by (rule conf_trans [OF c4 pop_conf [OF conf_wf [OF c4]]])
  qed
qed

lemma sys_ipc_recv_cases:
  assumes "sys_ipc_recv t eh buf cap info k = Some (r, k')"
  shows "k' = k \<or> (\<exists>e hv. ht_lookup64 t eh NX_OBJ_ENDPOINT NX_RIGHT_RECV k = Inr (Ep_obj e, hv)
     \<and> ((\<exists>c. nx_task_block (On_ep e) c k = Some k')
       \<or> (\<exists>c. nx_task_block (On_ep e) c (upd_ep e (\<lambda>s. s\<lparr>es_ep := (es_ep s)\<lparr>ep_waiter := Some t\<rparr>\<rparr>) k) = Some k')
       \<or> (\<exists>m. nx_ep_peek (es_ep (k_eps k ! e)) = Some m \<and> ipc_accept t e m buf info k = Some (r, k'))))"
proof (cases "k' = k")
  case False
  obtain e hv where e: "ht_lookup64 t eh NX_OBJ_ENDPOINT NX_RIGHT_RECV k = Inr (Ep_obj e, hv)"
    using assms False unfolding sys_ipc_recv_def sys_fail_def by (auto split: sum.split_asm optr.split_asm)
  then show ?thesis using assms False unfolding sys_ipc_recv_def sys_fail_def
    by (cases "nx_ep_peek (es_ep (k_eps k ! e))") (auto simp: bind_eq_Some_conv split: option.split_asm if_split_asm)
qed simp

lemma sys_ipc_recv_conf:
  assumes s: "sys_ipc_recv t eh buf cap info k = Some (r, k')" and wf: "caps_wf k" and t: "t < NX_TASK_MAX" and p: "ptrs_ok k"
  shows "conf S k k'"
  using sys_ipc_recv_cases [OF s]
proof (elim disjE exE conjE)
  fix e hv m assume e: "ht_lookup64 t eh NX_OBJ_ENDPOINT NX_RIGHT_RECV k = Inr (Ep_obj e, hv)"
    and m: "nx_ep_peek (es_ep (k_eps k ! e)) = Some m" and a: "ipc_accept t e m buf info k = Some (r, k')"
  have "e < NX_EP_POOL" using lookup64_authority(1) [OF e wf t] p by (auto simp: ptrs_ok_def)
  then show ?thesis using peek_authority [OF wf m] by (intro accept_conf [OF a wf])
next
  fix e hv c assume b: "nx_task_block (On_ep e) c (upd_ep e (\<lambda>s. s\<lparr>es_ep := (es_ep s)\<lparr>ep_waiter := Some t\<rparr>\<rparr>) k) = Some k'"
  show ?thesis by (rule block_via [OF b wf]) (rule view_ep, simp add: ring_def)
qed (auto intro: conf_view block_via wf)

section \<open>Tasks\<close>

lemma task_by_id_slot: "nx_task_by_id tid k = Some i \<Longrightarrow> i < NX_TASK_MAX"
  unfolding nx_task_by_id_def find_Some_iff by (auto simp del: upt_rec_numeral)

lemma sys_sov_task_open_conf:
  assumes s: "sys_sov_task_open t sh tid k = Some (r, k')" and wf: "caps_wf k"
  shows "conf (may_gain k t) k k'"
proof (cases "k' = k")
  case False
  obtain x where x: "ht_lookup64 t sh NX_OBJ_SOVEREIGN NX_RIGHT_SOVEREIGN k = Inr x"
    using s False unfolding sys_sov_task_open_def sys_fail_def by (auto split: sum.split_asm)
  obtain i where i: "(if tid \<le> 0xFFFFFFFF then nx_task_by_id (ucast tid) k else None) = Some i"
    using s x False unfolding sys_sov_task_open_def sys_fail_def by (auto split: option.split_asm)
  then have "i < NX_TASK_MAX" using task_by_id_slot by (auto split: if_splits)
  then have g: "Task_obj i \<in> may_gain k t" by (rule lookup64_sovereign [OF x])
  obtain h k1 where h: "nx_ht_install t (Task_obj i) SOV_TASK_RIGHTS k = (h, k1)" by fastforce
  then have "k' = k1" using s x i False unfolding sys_sov_task_open_def sys_fail_def sys_ok_def
    by (cases h) (auto split: if_split_asm)
  then show ?thesis using install_conf [OF wf h] g by blast
qed (simp add: conf_view [OF wf])

lemma utask_create_slot: "nx_utask_create name elf sz args k = Some (Inr n, k') \<Longrightarrow> n < NX_TASK_MAX"
  unfolding nx_utask_create_def alloc_task_def
  by (auto simp: bind_eq_Some_conv find_Some_iff simp del: upt_rec_numeral split: option.split_asm if_split_asm)

lemma lookup64_not_ok: "ht_lookup64 t h type need k \<noteq> Inl NX_OK"
  by (auto simp: ht_lookup64_def nx_ht_lookup_def Let_def split: option.splits)

lemma spawn_cases:
  assumes s: "sys_sov_task_spawn t sh path_va path_len args_va k = Some (r, k')" and k': "k' \<noteq> k"
  obtains x name elf sz args u k1 where "ht_lookup64 t sh NX_OBJ_SOVEREIGN NX_RIGHT_SOVEREIGN k = Inr x"
    "nx_utask_create name elf sz args k = Some (u, k1)"
    "isl u \<and> k' = k1 \<or> (\<exists>n h k2. u = Inr n \<and> nx_ht_install t (Task_obj n) SOV_TASK_RIGHTS k1 = (Inr h, k2) \<and> k' = nx_task_start n k2)"
proof -
  have sc: "sovereign_check t sh k = NX_OK" using s k' unfolding sys_sov_task_spawn_def sys_fail_def Let_def by (auto split: if_split_asm)
  then obtain x where x: "ht_lookup64 t sh NX_OBJ_SOVEREIGN NX_RIGHT_SOVEREIGN k = Inr x"
    using lookup64_not_ok unfolding sovereign_check_def by (auto split: sum.split_asm)
  note s' = s [unfolded sys_sov_task_spawn_def Let_def sc sys_fail_def sys_ok_def, simplified k', simplified]
  obtain path st where p: "copy_in t path_va path_len k = Some (st, path)" using s' k' by (auto simp: bind_eq_Some_conv split: if_split_asm)
  obtain st2 args where a: "(if st = NX_OK \<and> args_va \<noteq> 0 then copy_in t args_va 32 k else Some (st, replicate 32 0)) = Some (st2, args)"
    using s' k' p by (auto simp: bind_eq_Some_conv split: if_split_asm)
  obtain elf where f: "spawn_find path k = Some (Some elf)"
    using s' k' p a by (auto simp: bind_eq_Some_conv split: if_split_asm option.split_asm)
  obtain u k1 where u: "nx_utask_create (drop 4 path @ [0]) elf (of_nat (length elf))
                      (map (\<lambda>i. le_dec (take 8 (drop (8 * i) args))) [0..<4]) k = Some (u, k1)"
    using s' k' p a f by (auto simp: bind_eq_Some_conv simp del: upt_rec_numeral split: if_split_asm)
  have "isl u \<and> k' = k1 \<or> (\<exists>n h k2. u = Inr n \<and> nx_ht_install t (Task_obj n) SOV_TASK_RIGHTS k1 = (Inr h, k2) \<and> k' = nx_task_start n k2)"
    using s' k' p a f u by (cases u) (auto simp del: upt_rec_numeral split: if_split_asm prod.split_asm sum.split_asm)
  then show ?thesis by (rule that [OF x u])
qed

lemma sys_sov_task_spawn_conf:
  assumes s: "sys_sov_task_spawn t sh path_va path_len args_va k = Some (r, k')" and wf: "caps_wf k"
  shows "conf (may_gain k t) k k'"
proof (cases "k' = k")
  case False
  obtain x name elf sz args u k1 where x: "ht_lookup64 t sh NX_OBJ_SOVEREIGN NX_RIGHT_SOVEREIGN k = Inr x"
    and u: "nx_utask_create name elf sz args k = Some (u, k1)"
    and k1: "isl u \<and> k' = k1 \<or> (\<exists>n h k2. u = Inr n \<and> nx_ht_install t (Task_obj n) SOV_TASK_RIGHTS k1 = (Inr h, k2) \<and> k' = nx_task_start n k2)"
    by (rule spawn_cases [OF s False])
  note c1 = utask_create_conf [OF u wf]
  show ?thesis using k1
  proof (elim disjE exE conjE)
    fix n h k2 assume a: "u = Inr n" "nx_ht_install t (Task_obj n) SOV_TASK_RIGHTS k1 = (Inr h, k2)" "k' = nx_task_start n k2"
    have "Task_obj n \<in> may_gain k t" using lookup64_sovereign [OF x utask_create_slot] u a(1) by blast
    then have c2: "conf (may_gain k t) k k2" using conf_trans [OF c1 install_conf [OF conf_wf [OF c1] a(2)]] by blast
    have "cap_view k' = cap_view k2" by (simp add: a(3) nx_task_start_def view_task)
    then show ?thesis by (rule conf_keep [OF c2])
  qed (simp add: c1)
qed (simp add: conf_view [OF wf])

lemma view_task_read:
  assumes r: "sys_task_read t th va buf len k = Some (r, k')"
  shows "cap_view k' = cap_view k"
proof -
  obtain x where x: "open_task t th NX_RIGHT_INSPECT k = Some x" using r by (auto simp: sys_task_read_def bind_eq_Some_conv)
  show ?thesis using r x unfolding sys_task_read_def sys_fail_def sys_ok_def
    by (cases x) (auto simp: bind_eq_Some_conv split: if_split_asm dest: view_copy_out)
qed

lemma sys_task_kill_conf:
  assumes r: "sys_task_kill t th k = Some (r, k')" and wf: "caps_wf k"
  shows "conf S k k'"
proof -
  obtain x where x: "open_task t th NX_RIGHT_MANAGE k = Some x" using r by (auto simp: sys_task_kill_def bind_eq_Some_conv)
  have "k' = k \<or> (\<exists>i g n. nx_task_terminate i NX_END_KILLED n k = Some (g, k'))"
    using r x unfolding sys_task_kill_def sys_fail_def sys_ok_def
    by (cases x) (auto simp: bind_eq_Some_conv split: if_split_asm)
  then show ?thesis using terminate_conf wf conf_view by blast
qed

lemma sys_sleep_conf: "sys_sleep ticks k = Some (r, k') \<Longrightarrow> caps_wf k \<Longrightarrow> conf S k k'"
  unfolding sys_sleep_def sys_fail_def
  by (auto simp: bind_eq_Some_conv split: if_split_asm intro: conf_view sleep_via yield_via)

lemma sys_yield_conf: "sys_yield t k = Some (r, k') \<Longrightarrow> caps_wf k \<Longrightarrow> conf S k k'"
  unfolding sys_yield_def by (auto simp: bind_eq_Some_conv view_task elim!: yield_via)

lemma sys_exit_conf: "sys_exit a k = Some (r, k') \<Longrightarrow> caps_wf k \<Longrightarrow> conf S k k'"
  unfolding sys_exit_def by (auto simp: bind_eq_Some_conv intro: exit_conf)

lemma sys_handle_close_conf: "sys_handle_close t a k = Some (r, k') \<Longrightarrow> caps_wf k \<Longrightarrow> conf S k k'"
  unfolding sys_handle_close_def sys_fail_def
  by (auto simp: bind_eq_Some_conv split: if_split_asm intro: close_conf conf_view)

lemma sys_handle_dup_conf:
  assumes "sys_handle_dup t a b k = Some (r, k')" and "caps_wf k" and "t < NX_TASK_MAX"
  shows "conf S k k'"
proof -
  obtain x k1 where x: "nx_ht_dup t (ucast a) (ucast b) k = (x, k1)" by fastforce
  then have "k' = k \<or> k' = k1" using assms(1) unfolding sys_handle_dup_def sys_fail_def sys_ok_def
    by (cases x) (auto split: if_split_asm)
  then show ?thesis using dup_conf [OF assms(2,3) x] conf_view [OF assms(2)] by auto
qed

lemma view_task_info: "sys_task_info t th va k = Some (r, k') \<Longrightarrow> cap_view k' = cap_view k"
  unfolding sys_task_info_def sys_fail_def
  by (auto split: sum.split_asm prod.split_asm optr.split_asm dest: view_copy_struct)

lemma view_sov_task_list: "sys_sov_task_list t sh va cap k = Some (r, k') \<Longrightarrow> cap_view k' = cap_view k"
  unfolding sys_sov_task_list_def sys_fail_def sys_ok_def Let_def
  by (auto simp: bind_eq_Some_conv split: if_split_asm dest: view_copy_out)

lemma view_sov_event_read: "sys_sov_event_read t sh since va cap k = Some (r, k') \<Longrightarrow> cap_view k' = cap_view k"
  unfolding sys_sov_event_read_def sys_fail_def sys_ok_def Let_def
  by (auto simp: bind_eq_Some_conv split: if_split_asm dest: view_copy_out)

section \<open>Devices\<close>

lemma on_kernel_Some: "on_kernel f s = Some (r, s') \<Longrightarrow> \<exists>k. f (mc_k s) = Some (r, k) \<and> mc_k s' = k"
  by (auto simp: on_kernel_def bind_eq_Some_conv)

lemma copy_ret_view: "copy_ret t va bs n s = Some (r, s') \<Longrightarrow> cap_view (mc_k s') = cap_view (mc_k s)"
  by (auto simp: copy_ret_def bind_eq_Some_conv dest: view_copy_out)

lemma chan_spin_kernel: "chan_spin hw n cap s = (bs, s') \<Longrightarrow> mc_k s' = mc_k s"
  by (induction n arbitrary: s) (auto simp: nx_chan_poll_def Let_def split: prod.split_asm if_split_asm)

lemma chan_read_round_conf:
  assumes r: "chan_read_round hw t ch va cap timeout waited s = Some (r, s')" and wf: "caps_wf (mc_k s)"
  shows "conf S (mc_k s) (mc_k s')"
proof -
  obtain bs s1 where c: "chan_spin hw CHAN_SPIN_POLLS (ucast cap) s = (bs, s1)" by fastforce
  note k1 = chan_spin_kernel [OF c]
  have "mc_k s' = mc_k s \<or> copy_ret t va bs (int (length bs)) s1 = Some (r, s')
      \<or> (\<exists>c. nx_task_sleep 1 c (mc_k s) = Some (mc_k s'))"
    using r c k1 unfolding chan_read_round_def dev_fail_def Let_def
    by (auto simp: bind_eq_Some_conv split: if_split_asm simp del: chan_spin.simps)
  then show ?thesis using copy_ret_view k1 sleep_via [OF _ wf refl] conf_view [OF wf] by metis
qed

lemma sys_chan_read_conf: "sys_chan_read hw t ch va cap timeout s = Some (r, s') \<Longrightarrow> caps_wf (mc_k s) \<Longrightarrow> conf S (mc_k s) (mc_k s')"
  unfolding sys_chan_read_def dev_fail_def Let_def
  by (auto simp: bind_eq_Some_conv split: if_split_asm intro: chan_read_round_conf conf_view)

lemma sys_chan_write_kernel: "sys_chan_write hw t ch va len s = Some (r, s') \<Longrightarrow> mc_k s' = mc_k s"
  unfolding sys_chan_write_def dev_fail_def Let_def nx_chan_write_def
  by (auto simp: bind_eq_Some_conv split: if_split_asm)

lemma net_recv_round_conf:
  assumes r: "net_recv_round hw t h va cap timeout waited s = Some (r, s')" and wf: "caps_wf (mc_k s)"
  shows "conf S (mc_k s) (mc_k s')"
proof -
  obtain bs d where c: "net_spin hw NET_SPIN_POLLS (mc_dev s) = (bs, d)" by fastforce
  have "mc_k s' = mc_k s \<or> copy_ret t va bs (int (length bs)) (s\<lparr>mc_dev := d\<rparr>) = Some (r, s')
      \<or> (\<exists>c. nx_task_sleep 1 c (mc_k s) = Some (mc_k s'))"
    using r c unfolding net_recv_round_def dev_fail_def Let_def
    by (auto simp: bind_eq_Some_conv split: if_split_asm simp del: net_spin.simps)
  then show ?thesis using copy_ret_view [of t va bs "int (length bs)" "s\<lparr>mc_dev := d\<rparr>" r s'] sleep_via [OF _ wf refl] conf_view [OF wf] by auto
qed

lemma sys_net_recv_conf: "sys_net_recv hw t h va cap timeout s = Some (r, s') \<Longrightarrow> caps_wf (mc_k s) \<Longrightarrow> conf S (mc_k s) (mc_k s')"
  unfolding sys_net_recv_def dev_fail_def Let_def
  by (auto simp: bind_eq_Some_conv split: if_split_asm intro: net_recv_round_conf conf_view)

lemma sys_net_info_view: "sys_net_info hw t h va s = Some (r, s') \<Longrightarrow> cap_view (mc_k s') = cap_view (mc_k s)"
  unfolding sys_net_info_def dev_fail_def Let_def
  by (auto split: if_split_asm prod.split_asm dest!: on_kernel_Some dest: view_copy_struct)

lemma sys_net_send_kernel: "sys_net_send hw t h va len s = Some (r, s') \<Longrightarrow> mc_k s' = mc_k s"
  unfolding sys_net_send_def dev_fail_def Let_def
  by (auto simp: bind_eq_Some_conv split: if_split_asm prod.split_asm)

lemma sys_entropy_view:
  assumes r: "sys_entropy hw t va len s = Some (r, s')"
  shows "cap_view (mc_k s') = cap_view (mc_k s)"
proof -
  obtain st bs d where h: "hw_rng_read hw (ucast len) (mc_dev s) = ((st, bs), d)" by (metis prod.collapse)
  have "mc_k s' = mc_k s \<or> copy_ret t va bs (int (unat len)) (s\<lparr>mc_dev := d\<rparr>) = Some (r, s')"
    using r h unfolding sys_entropy_def dev_fail_def Let_def by (auto simp: bind_eq_Some_conv split: if_split_asm)
  then show ?thesis using copy_ret_view [of t va bs "int (unat len)" "s\<lparr>mc_dev := d\<rparr>" r s'] by auto
qed

lemma sys_blk_info_view: "sys_blk_info t h va s = Some (r, s') \<Longrightarrow> cap_view (mc_k s') = cap_view (mc_k s)"
  unfolding sys_blk_info_def dev_fail_def Let_def
  by (auto split: if_split_asm dest!: on_kernel_Some dest: view_copy_struct)

lemma sys_clock_view: "sys_clock t va s = Some (r, s') \<Longrightarrow> cap_view (mc_k s') = cap_view (mc_k s)"
  unfolding sys_clock_def Let_def by (auto dest!: on_kernel_Some dest: view_copy_struct)

lemma blk_read_kernel: "nx_blk_read hw blk count (b, k, d) = (x, b', k', d') \<Longrightarrow> k' = k"
  by (auto simp: nx_blk_read_def split: if_split_asm prod.split_asm option.split_asm)

lemma sys_blk_read_view:
  assumes r: "sys_blk_read hw t h blk count va s = Some (r, s')"
  shows "cap_view (mc_k s') = cap_view (mc_k s)"
proof -
  obtain st bs b k d where h: "nx_blk_read (hw_vblk hw) blk (ucast count) (mc_blk s, mc_k s, mc_dev s) = ((st, bs), b, k, d)" by (metis prod.collapse)
  have k: "k = mc_k s" by (rule blk_read_kernel [OF h])
  have "mc_k s' = mc_k s \<or> copy_ret t va bs (int (unat count)) (s\<lparr>mc_blk := b, mc_k := mc_k s, mc_dev := d\<rparr>) = Some (r, s')"
    using r h k unfolding sys_blk_read_def dev_fail_def Let_def by (auto simp: bind_eq_Some_conv split: if_split_asm)
  then show ?thesis using copy_ret_view [of t va bs "int (unat count)" "s\<lparr>mc_blk := b, mc_k := mc_k s, mc_dev := d\<rparr>" r s'] by auto
qed

lemma count_op_view: "count_op hw op blk count (b, k, d) = Some (Inr (b', k', d')) \<Longrightarrow> cap_view k' = cap_view k"
  by (auto simp: count_op_def Let_def bind_eq_Some_conv split: if_split_asm dest: view_kprintf)

lemma cache_put_view: "cache_put hw blk xs (b, k, d) = (st, b', k', d') \<Longrightarrow> cap_view k' = cap_view k"
proof (induction xs arbitrary: blk b k d)
  case (Cons x xs)
  obtain st1 b1 k1 d1 where e: "(if bl_free b = [] then cache_evict_oldest hw (b, k, d) else (NX_OK, b, k, d)) = (st1, b1, k1, d1)"
    by (metis prod.collapse)
  then have "k1 = k" by (auto simp: cache_evict_oldest_def Let_def split: if_split_asm prod.split_asm)
  moreover have "cap_view (k\<lparr>k_mem := m\<rparr>) = cap_view k" for m by (rule view_mem) simp
  ultimately show ?case using Cons e by (auto simp: Let_def split: if_split_asm)
qed simp

lemma blk_done_kernel:
  "blk_done n x s = Some (r, s') \<Longrightarrow> \<exists>st b k d. x = Some (Inr (st, b, k, d)) \<and> mc_k s' = k"
  by (auto simp: blk_done_def split: option.split_asm sum.split_asm)

lemma sys_blk_write_view:
  assumes r: "sys_blk_write hw t h blk count va s = Some (r, s')"
  shows "cap_view (mc_k s') = cap_view (mc_k s)"
proof -
  have w: "cap_view k' = cap_view k" if w: "nx_blk_write v blk n src (b, k, d) = Some (Inr (st, b', k', d'))" for v n src b k d st b' k' d'
  proof -
    have "k' = k \<or> (\<exists>b1 k1 d1. count_op v ''write'' blk n (b, k, d) = Some (Inr (b1, k1, d1)) \<and> (k' = k1
        \<or> cache_put v blk (buf_blocks n src) (b1\<lparr>bl_writes := bl_writes b1 + 1\<rparr>, k1, d1) = (st, b', k', d')))"
      using w unfolding nx_blk_write_def Let_def
      by (auto split: if_split_asm sum.split_asm prod.split_asm Option.bind_split_asm)
    then show ?thesis using count_op_view cache_put_view by metis
  qed
  show ?thesis using r unfolding sys_blk_write_def dev_fail_def Let_def
    by (auto simp: bind_eq_Some_conv split: if_split_asm dest!: blk_done_kernel dest: w)
qed

lemma sys_blk_flush_view:
  assumes r: "sys_blk_flush hw t h s = Some (r, s')"
  shows "cap_view (mc_k s') = cap_view (mc_k s)"
proof -
  have w: "cap_view k' = cap_view k" if w: "nx_blk_flush v (b, k, d) = Some (Inr (st, b', k', d'))" for v b k d st b' k' d'
  proof -
    have "\<exists>b1 d1. count_op v ''flush'' 0 0 (b, k, d) = Some (Inr (b1, k', d1))"
      using w unfolding nx_blk_flush_def Let_def
      by (auto split: if_split_asm sum.split_asm prod.split_asm Option.bind_split_asm)
    then show ?thesis using count_op_view by metis
  qed
  show ?thesis using r unfolding sys_blk_flush_def dev_fail_def Let_def
    by (auto split: if_split_asm dest!: blk_done_kernel dest: w)
qed

section \<open>Steps of the machine\<close>

lemma dispatch_view:
  assumes "sys_dispatch hw t nr a b c d e s = Some (r, s')" and "nr \<notin> {2, 3, 5, 6, 7, 9, 10, 11, 13, 14, 16, 20, 28}"
  shows "cap_view (mc_k s') = cap_view (mc_k s)"
  using assms unfolding sys_dispatch_def
  by (auto simp: dev_fail_def sys_ok_def sys_sys_info_def split: if_split_asm dest!: on_kernel_Some
      dest: view_debug_write view_vmo_map view_task_read view_copy_struct view_task_info view_sov_task_list view_sov_event_read
        sys_chan_write_kernel sys_blk_info_view sys_blk_read_view sys_blk_write_view sys_blk_flush_view sys_net_info_view
        sys_net_send_kernel sys_entropy_view sys_clock_view)

lemma dispatch_conf:
  assumes d: "sys_dispatch hw t nr a b c d e s = Some (r, s')" and wf: "caps_wf (mc_k s)" and t: "t < NX_TASK_MAX" and p: "ptrs_ok (mc_k s)"
  shows "conf (may_gain (mc_k s) t) (mc_k s) (mc_k s')"
proof (cases "nr \<in> {2, 3, 5, 6, 7, 9, 10, 11, 13, 14, 16, 20, 28}")
  case True
  then show ?thesis using d wf t p unfolding sys_dispatch_def
    by (elim insertE emptyE) (simp_all, auto dest!: on_kernel_Some intro: sys_exit_conf sys_yield_conf sys_handle_close_conf sys_handle_dup_conf
        sys_vmo_create_conf sys_ipc_send_conf sys_ipc_recv_conf sys_sov_task_open_conf sys_task_kill_conf sys_sleep_conf
        sys_sov_task_spawn_conf sys_chan_read_conf sys_net_recv_conf)
next
  case False
  then show ?thesis using dispatch_view [OF d] conf_view [OF wf] by blast
qed

lemma finish_view: "sys_finish t x = Some s' \<Longrightarrow> \<exists>r s. x = Some (r, s) \<and> cap_view (mc_k s') = cap_view (mc_k s)"
  by (auto simp: sys_finish_def view_task split: sysres.split_asm Option.bind_split_asm)

lemma obj_upd_task:
  assumes "\<And>x. tk_base (f x) = tk_base x"
  shows "obj (upd_task t f k) p = obj k p"
proof (cases p)
  case (Task_obj i)
  then show ?thesis by (cases "t < length (k_tasks k)") (auto simp: assms upd_task_def nth_list_update list_update_beyond)
qed simp_all

lemma may_gain_upd:
  assumes f: "\<And>x. tk_base (f x) = tk_base x" "\<And>x. tk_handles (f x) = tk_handles x" and t: "t < length (k_tasks k)"
  shows "may_gain (upd_task t f k) t = may_gain k t"
proof -
  have "nx_ht_lookup t h type need (upd_task t f k) = nx_ht_lookup t h type need k" for h type need
    using t by (simp add: nx_ht_lookup_def obj_upd_task f Let_def split: option.splits)
  then show ?thesis by (simp add: may_gain_def sovereign_def)
qed

lemma view_ptrs: "cap_view k' = cap_view k \<Longrightarrow> ptrs_ok k' = ptrs_ok k"
  unfolding ptrs_ok_def using view_authority by metis

lemma syscall_conf:
  assumes s: "nx_syscall hw f s = Some s'" and wf: "caps_wf (mc_k s)" and p: "ptrs_ok (mc_k s)"
  shows "conf (may_gain (mc_k s) (k_current (mc_k s))) (mc_k s) (mc_k s')"
proof -
  define t where "t = k_current (mc_k s)"
  define s1 where "s1 = s\<lparr>mc_k := upd_task t (\<lambda>x. x\<lparr>tk_frame := f, tk_syscalls := tk_syscalls x + 1\<rparr>) (mc_k s)\<rparr>"
  have v1: "cap_view (mc_k s1) = cap_view (mc_k s)" by (simp add: s1_def view_task)
  have t: "t < NX_TASK_MAX" "t < length (k_tasks (mc_k s))" using wf by (simp_all add: t_def caps_wf_def)
  obtain r s2 where d: "sys_dispatch hw t (unat (tf_rax f)) (tf_rdi f) (tf_rsi f) (tf_rdx f) (tf_r10 f) (tf_r8 f) s1 = Some (r, s2)"
    and v2: "cap_view (mc_k s') = cap_view (mc_k s2)"
    using finish_view s unfolding nx_syscall_def Let_def t_def [symmetric] s1_def [symmetric] by blast
  have c1: "conf (may_gain (mc_k s) t) (mc_k s) (mc_k s1)" by (rule conf_view [OF wf v1])
  have "conf (may_gain (mc_k s1) t) (mc_k s1) (mc_k s2)"
    using dispatch_conf [OF d conf_wf [OF c1] t(1)] p view_ptrs [OF v1] by simp
  moreover have "may_gain (mc_k s1) t = may_gain (mc_k s) t" using t(2) by (simp add: s1_def may_gain_upd)
  ultimately have "conf (may_gain (mc_k s) t) (mc_k s1) (mc_k s')" using conf_keep [OF _ v2] by simp
  then show ?thesis unfolding t_def [symmetric] by (rule conf_trans [OF c1])
qed

lemma resume_conf:
  assumes s: "sys_resume hw s = Some s'" and wf: "caps_wf (mc_k s)" and p: "ptrs_ok (mc_k s)"
  shows "conf S (mc_k s) (mc_k s')"
proof -
  define t where "t = k_current (mc_k s)"
  have t: "t < NX_TASK_MAX" using wf by (simp add: t_def caps_wf_def)
  show ?thesis
  proof (cases "tk_cont (task (mc_k s) t)")
    case (K_Ret n)
    then show ?thesis using s finish_view conf_view [OF wf] unfolding sys_resume_def Let_def t_def by fastforce
  next
    case (K_Recv eh buf cap info)
    then show ?thesis using s sys_ipc_recv_conf [OF _ wf t p, of eh buf cap info] conf_keep unfolding sys_resume_def Let_def t_def
      by (auto dest!: finish_view on_kernel_Some) metis
  next
    case (K_Chan_read ch va cap timeout waited)
    then show ?thesis using s chan_read_round_conf [OF _ wf] conf_keep unfolding sys_resume_def Let_def t_def
      by (auto dest!: finish_view) metis
  next
    case (K_Net_recv h va cap timeout waited)
    then show ?thesis using s net_recv_round_conf [OF _ wf] conf_keep unfolding sys_resume_def Let_def t_def
      by (auto dest!: finish_view) metis
  next
    case K_Idle
    then show ?thesis using s schedule_conf [OF wf] unfolding sys_resume_def Let_def t_def idle_round_def
      by (auto simp: bind_eq_Some_conv)
  next
    case K_Reaper
    then show ?thesis using s reaper_conf [OF _ wf] unfolding sys_resume_def Let_def t_def
      by (auto simp: bind_eq_Some_conv)
  qed (use s in \<open>simp_all add: sys_resume_def Let_def t_def\<close>)
qed

text \<open>
  A step of the machine: a system call of the current task, the continuation of a call or of a kernel thread,
  a timer interrupt, a user fault.
\<close>

inductive mach_step :: "'d nx_hw \<Rightarrow> 'd machine \<Rightarrow> 'd machine \<Rightarrow> bool" for hw where
  syscall: "nx_syscall hw f s = Some s' \<Longrightarrow> mach_step hw s s'"
| resume: "sys_resume hw s = Some s' \<Longrightarrow> mach_step hw s s'"
| tick: "on_periodic c (mc_k s) = Some k \<Longrightarrow> mach_step hw s (s\<lparr>mc_k := k\<rparr>)"
| fault: "nx_user_trap f cr2 (mc_k s) = Some k \<Longrightarrow> mach_step hw s (s\<lparr>mc_k := k\<rparr>)"

inductive mach_run :: "'d nx_hw \<Rightarrow> 'd machine \<Rightarrow> 'd machine \<Rightarrow> bool" for hw s where
  start: "mach_run hw s s"
| step: "mach_run hw s s' \<Longrightarrow> mach_step hw s' s'' \<Longrightarrow> mach_run hw s s''"

lemma step_conf:
  assumes "mach_step hw s s'" and wf: "caps_wf (mc_k s)" and p: "ptrs_ok (mc_k s)"
  shows "conf (may_gain (mc_k s) (k_current (mc_k s))) (mc_k s) (mc_k s')"
  using assms(1)
proof cases
  case (syscall f)
  then show ?thesis by (rule syscall_conf [OF _ wf p])
next
  case resume
  then show ?thesis by (rule resume_conf [OF _ wf p])
next
  case (tick c k)
  then show ?thesis using periodic_conf [OF _ wf] by simp
next
  case (fault f cr2 k)
  then show ?thesis using user_trap_conf [OF _ wf] by simp
qed

lemma run_confined:
  assumes "mach_run hw s s'" and wf: "caps_wf (mc_k s)" and p: "ptrs_ok (mc_k s)"
  shows "conf (range Vmo_obj \<union> range Task_obj) (mc_k s) (mc_k s') \<and> ptrs_ok (mc_k s')"
  using assms(1)
proof (induction rule: mach_run.induct)
  case start
  show ?case using wf p conf_view [OF wf] by simp
next
  case (step s' s'')
  then have c: "conf (may_gain (mc_k s') (k_current (mc_k s'))) (mc_k s') (mc_k s'')" using step_conf conf_wf by blast
  have "conf (range Vmo_obj \<union> range Task_obj) (mc_k s') (mc_k s'')" by (rule conf_mono [OF c]) (auto simp: may_gain_def)
  then show ?case using step.IH conf_trans conf_ptrs [OF c] by blast
qed

section \<open>What the handles promise\<close>

text \<open>
  C4. A system call creates no authority. Rights over an object that some task or message holds after a call
  were held over the same object before it, except over a memory object whose slot was free before the call
  and, when the caller holds the sovereign object, over tasks.
\<close>

theorem syscall_confined:
  assumes "nx_syscall hw f s = Some s'" and "caps_wf (mc_k s)" and "ptrs_ok (mc_k s)" and "(p, r) \<in> authority (mc_k s')"
  shows "(\<exists>r0. (p, r0) \<in> authority (mc_k s) \<and> r AND NOT r0 = 0)
    \<or> (\<exists>v. p = Vmo_obj v \<and> \<not> vm_used (k_vmos (mc_k s) ! v))
    \<or> (\<exists>i. p = Task_obj i \<and> sovereign (mc_k s) (k_current (mc_k s)))"
  using syscall_conf [OF assms(1-3)] assms(4) unfolding conf_def may_gain_def by blast

text \<open>
  C3. Authority over the sovereign object, the devices and the endpoints never grows. In every run of the
  machine (system calls and their continuations, interrupts, faults, the reaper) the rights that tasks and
  messages hold over such an object are part of rights over it that were held at the start.
\<close>

theorem authority_never_grows:
  assumes "mach_run hw s s'" and "caps_wf (mc_k s)" and "ptrs_ok (mc_k s)"
    and "(p, r) \<in> authority (mc_k s')" and "p \<in> range Static_obj \<union> range Ep_obj"
  shows "\<exists>r0. (p, r0) \<in> authority (mc_k s) \<and> r AND NOT r0 = 0"
proof -
  have "conf (range Vmo_obj \<union> range Task_obj) (mc_k s) (mc_k s')" using run_confined [OF assms(1-3)] by simp
  then have "p \<in> range Vmo_obj \<union> range Task_obj \<or> (\<exists>r0. (p, r0) \<in> authority (mc_k s) \<and> r AND NOT r0 = 0)"
    using assms(4) unfolding conf_def by blast
  then show ?thesis using assms(5) by auto
qed

text \<open>
  C7. Handle tables and queues stay well-formed. In every run of the machine every task keeps a table of 32
  entries, every endpoint a ring of 8 messages with its head and count in range, the current task and the
  idle thread are slots of the task table, and every object that a handle or a message names is a slot of
  its pool or a static object.
\<close>

theorem handles_well_typed:
  assumes "mach_run hw s s'" and "caps_wf (mc_k s)" and "ptrs_ok (mc_k s)"
  shows "caps_wf (mc_k s') \<and> ptrs_ok (mc_k s')"
  using run_confined [OF assms] conf_wf by blast

subsection \<open>An example\<close>

text \<open>The running task holds one handle, on the channel, which it duplicates with the right to read only.\<close>

definition demo_table :: nx_handle_table where
  "demo_table = nx_ht_init[0 := \<lparr>he_obj = Some (Static_obj 1), he_rights = NX_RIGHT_READ OR NX_RIGHT_DUPLICATE, he_gen = 1\<rparr>]"

definition demo_kernel :: kernel where
  "demo_kernel = (upd_task 0 (\<lambda>t. t\<lparr>tk_handles := demo_table\<rparr>) three_tasks)
     \<lparr>k_eps := replicate NX_EP_POOL \<lparr>es_ep = \<lparr>ep_base = obj_header NX_OBJ_ENDPOINT Ep_destroy, ep_q = replicate 8 msg_zero,
        ep_head = 0, ep_count = 0, ep_waiter = None\<rparr>, es_used = False\<rparr>,
      k_static := [obj_header NX_OBJ_SOVEREIGN No_destroy, obj_header NX_OBJ_CHANNEL No_destroy,
        obj_header NX_OBJ_BLOCKDEV No_destroy, obj_header NX_OBJ_NETDEV No_destroy]\<rparr>"

definition demo :: "unit machine" where
  "demo = \<lparr>mc_k = demo_kernel, mc_chan_rx = 0, mc_chan_tx = 0,
     mc_blk = \<lparr>bl_blocks = 0, bl_reads = 0, bl_writes = 0, bl_flushes = 0, bl_read_only = False, bl_has_flush = False,
       bl_serial = [], bl_enabled = False, bl_volatile_cache = False, bl_flush_noop = False, bl_crash_at = 0,
       bl_lose = NX_LOSE_ALL, bl_ops = 0, bl_cache = [], bl_free = [], bl_pool_ready = False\<rparr>,
     mc_base_unix = 0, mc_base_ticks = 0, mc_dev = ()\<rparr>"

definition demo_hw :: "unit nx_hw" where
  "demo_hw = \<lparr>hw_inb = \<lambda>_ d. (0, d), hw_outb = \<lambda>_ _ d. d,
     hw_vblk = \<lparr>vb_read = \<lambda>_ _ d. (None, d), vb_write = \<lambda>_ _ d. (False, d), vb_flush = \<lambda>d. (False, d)\<rparr>,
     hw_net_info = \<lambda>d. ([], d), hw_net_send = \<lambda>_ d. (NX_EIO, d), hw_net_poll = \<lambda>d. ([], d), hw_rng_read = \<lambda>_ d. ((NX_EIO, []), d)\<rparr>"

definition demo_call :: nx_trap_frame where
  "demo_call = frame_zero\<lparr>tf_rax := 6, tf_rdi := 0x101, tf_rsi := 1\<rparr>"

lemma demo_tables: "in_tables demo_kernel = {(Static_obj 1, NX_RIGHT_READ OR NX_RIGHT_DUPLICATE)}"
proof -
  have "fst (cap_view demo_kernel) = (map tk_handles (k_tasks three_tasks))[0 := demo_table]"
    by (simp add: cap_view_def demo_kernel_def upd_task_def map_update)
  moreover have "map tk_handles (k_tasks three_tasks) = replicate 32 nx_ht_init"
    by (rule nth_equalityI) (simp_all add: three_tasks_def fresh_task_def del: upt_rec_numeral)
  ultimately have "set (fst (cap_view demo_kernel)) = {demo_table, nx_ht_init}" by (simp add: numeral_eq_Suc insert_commute)
  moreover have "set demo_table = {\<lparr>he_obj = Some (Static_obj 1), he_rights = NX_RIGHT_READ OR NX_RIGHT_DUPLICATE, he_gen = 1\<rparr>,
      \<lparr>he_obj = None, he_rights = 0, he_gen = 1\<rparr>}" by (simp add: demo_table_def nx_ht_init_def numeral_eq_Suc insert_commute)
  ultimately show ?thesis unfolding in_tables_def by (auto simp: nx_ht_init_def)
qed

lemma demo_authority: "authority demo_kernel = {(Static_obj 1, NX_RIGHT_READ OR NX_RIGHT_DUPLICATE)}"
  unfolding authority_def demo_tables by (auto simp: in_queues_def demo_kernel_def ep_msgs_def)

lemma demo_wf: "caps_wf (mc_k demo)"
proof -
  have "length (tk_handles t) = NX_HANDLE_SLOTS" if "t \<in> set (k_tasks three_tasks)" for t
    using that by (auto simp: three_tasks_def fresh_task_def nx_ht_init_def simp del: upt_rec_numeral)
  then have "length (tk_handles t) = NX_HANDLE_SLOTS" if "t \<in> set (k_tasks demo_kernel)" for t
    using that by (auto simp: demo_kernel_def upd_task_def demo_table_def nx_ht_init_def simp del: upt_rec_numeral dest!: set_update_cases)
  moreover have "length (k_tasks demo_kernel) = 32" "k_current demo_kernel = 0" "k_idle demo_kernel = Some 1" "\<not> k_inj_overgrant demo_kernel"
    by (simp_all add: demo_kernel_def three_tasks_def upd_task_def del: upt_rec_numeral)
  moreover have "length (k_eps demo_kernel) = NX_EP_POOL" "\<forall>s \<in> set (k_eps demo_kernel). ep_inv (es_ep s)"
    by (auto simp: demo_kernel_def ep_inv_def)
  ultimately show ?thesis by (simp add: caps_wf_def demo_def)
qed

lemma demo_ptrs: "ptrs_ok (mc_k demo)"
  by (simp add: ptrs_ok_def demo_def demo_authority)

lemma demo_dup: "\<exists>s'. nx_syscall demo_hw demo_call demo = Some s' \<and> (Static_obj 1, NX_RIGHT_READ) \<in> authority (mc_k s')"
proof -
  define k where "k = upd_task 0 (\<lambda>x. x\<lparr>tk_frame := demo_call, tk_syscalls := tk_syscalls x + 1\<rparr>) demo_kernel"
  have l: "length (k_tasks demo_kernel) = 32" "k_current demo_kernel = 0"
    by (simp_all add: demo_kernel_def three_tasks_def upd_task_def del: upt_rec_numeral)
  have h: "tk_handles (task demo_kernel 0) = demo_table"
    by (simp add: demo_kernel_def upd_task_def three_tasks_def del: upt_rec_numeral)
  have t: "tk_handles (task k 0) = demo_table" using l by (simp add: k_def h)
  have o: "obj k (Static_obj 1) = obj_header NX_OBJ_CHANNEL No_destroy" by (simp add: k_def demo_kernel_def)
  have e: "ht_entry demo_table 0x101 = Some 0" by (simp add: ht_entry_def demo_table_def nx_ht_init_def)
  have lk: "nx_ht_lookup 0 0x101 NX_OBJ_ANY NX_RIGHT_DUPLICATE k = Inr (Static_obj 1, 0x11)"
    by (simp add: nx_ht_lookup_def t e) (simp add: demo_table_def nx_ht_init_def)
  have f: "find (\<lambda>i. he_obj (demo_table ! i) = None) [0..<NX_HANDLE_SLOTS] = Some 1"
    using upt_conv_Cons [of 0 NX_HANDLE_SLOTS] upt_conv_Cons [of 1 NX_HANDLE_SLOTS] by (simp add: demo_table_def nx_ht_init_def del: upt_rec_numeral)
  define k1 where "k1 = upd_handle 0 1 (\<lambda>e. e\<lparr>he_obj := Some (Static_obj 1), he_rights := NX_RIGHT_READ\<rparr>) (nx_obj_ref (Static_obj 1) k)"
  have d: "nx_ht_dup 0 0x101 1 k = (Inr (encode 1 1), k1)"
    by (simp add: nx_ht_dup_def lk nx_ht_install_def t f k1_def del: upt_rec_numeral) (simp add: demo_table_def nx_ht_init_def)
  define s' where "s' = demo\<lparr>mc_k := upd_task 0 (\<lambda>x. x\<lparr>tk_frame := (tk_frame x)\<lparr>tf_rax := word_of_int (uint (encode 1 1))\<rparr>, tk_cont := K_User\<rparr>) k1\<rparr>"
  have "tf_rax demo_call = 6" "tf_rdi demo_call = 0x101" "tf_rsi demo_call = 1" by (simp_all add: demo_call_def)
  then have s: "nx_syscall demo_hw demo_call demo = Some s'"
    using d by (simp add: nx_syscall_def demo_def l k_def [symmetric] sys_dispatch_def on_kernel_def
        sys_handle_dup_def sys_ok_def sys_finish_def s'_def)
  have k1t: "tk_handles (task k1 0) ! 1 = \<lparr>he_obj = Some (Static_obj 1), he_rights = NX_RIGHT_READ, he_gen = 1\<rparr>" "length (k_tasks k1) = 32"
    "length (tk_handles (task k1 0)) = 32"
    using l by (simp_all add: k1_def upd_handle_def nx_obj_ref_def k_def h) (simp_all add: demo_table_def nx_ht_init_def)
  have "tk_handles (task k1 0) \<in> set (fst (cap_view k1))" using k1t(2) by (simp add: cap_view_def)
  moreover have "tk_handles (task k1 0) ! 1 \<in> set (tk_handles (task k1 0))" using k1t(3) by simp
  ultimately have "(Static_obj 1, NX_RIGHT_READ) \<in> authority k1" unfolding k1t(1) by (force simp: authority_def in_tables_def)
  moreover have "cap_view (mc_k s') = cap_view k1" by (simp add: s'_def view_task)
  ultimately show ?thesis using s view_authority by metis
qed

theorem syscall_confined_witness:
  "\<exists>s' r0. nx_syscall demo_hw demo_call demo = Some s' \<and> (Static_obj 1, NX_RIGHT_READ) \<in> authority (mc_k s')
     \<and> (Static_obj 1, r0) \<in> authority (mc_k demo) \<and> NX_RIGHT_READ AND NOT r0 = 0"
proof -
  obtain s' where s: "nx_syscall demo_hw demo_call demo = Some s'" "(Static_obj 1, NX_RIGHT_READ) \<in> authority (mc_k s')" using demo_dup by blast
  show ?thesis using syscall_confined [OF s(1) demo_wf demo_ptrs s(2)] s by auto
qed

theorem authority_never_grows_witness:
  "\<exists>s' r0. mach_run demo_hw demo s' \<and> (Static_obj 1, NX_RIGHT_READ) \<in> authority (mc_k s')
     \<and> (Static_obj 1, r0) \<in> authority (mc_k demo) \<and> NX_RIGHT_READ AND NOT r0 = 0"
proof -
  obtain s' where s: "nx_syscall demo_hw demo_call demo = Some s'" "(Static_obj 1, NX_RIGHT_READ) \<in> authority (mc_k s')" using demo_dup by blast
  have r: "mach_run demo_hw demo s'" using s(1) mach_run.intros mach_step.syscall by metis
  show ?thesis using authority_never_grows [OF r demo_wf demo_ptrs s(2)] r s(2) by auto
qed

theorem handles_well_typed_witness:
  "\<exists>s'. nx_syscall demo_hw demo_call demo = Some s' \<and> mach_run demo_hw demo s' \<and> caps_wf (mc_k s') \<and> ptrs_ok (mc_k s')"
proof -
  obtain s' where s: "nx_syscall demo_hw demo_call demo = Some s'" using demo_dup by blast
  have r: "mach_run demo_hw demo s'" using s mach_run.intros mach_step.syscall by metis
  show ?thesis using handles_well_typed [OF r demo_wf demo_ptrs] r s by blast
qed

end
