(* ===== verification/Handles.thy ===== *)
theory Handles
  imports Sys_Confined
begin

text \<open>
  A handle table (kernel/obj/handle.c) is a map from handle values to objects with rights: installing adds a
  new key, closing and moving out remove exactly that key, and a lookup is a lookup in the map.
\<close>

section \<open>Handle values\<close>

definition gen_ok :: "u32 \<Rightarrow> bool" where
  "gen_ok g \<longleftrightarrow> 1 \<le> g \<and> g \<le> NX_HANDLE_GEN_MAX"

definition ht_wf :: "nx_handle_table \<Rightarrow> bool" where
  "ht_wf hs \<longleftrightarrow> length hs = NX_HANDLE_SLOTS \<and> list_all (\<lambda>e. gen_ok (he_gen e)) hs"

lemma gen_ok_unat: "gen_ok g \<Longrightarrow> unat g \<le> 0x7FFFFF"
  by (simp add: gen_ok_def word_le_nat_alt)

lemma encode_unat:
  assumes "i < NX_HANDLE_SLOTS" and "gen_ok g"
  shows "unat (encode i g) = 256 * unat g + (i + 1)"
proof -
  have s: "unat (of_nat i + 1 :: u32) = i + 1"
    using assms(1) by (subst unat_add_small) (simp_all add: unat_of_nat take_bit_nat_eq_self)
  have "(of_nat i + 1 :: u32) = take_bit 8 (of_nat i + 1)"
    by (rule unsigned_word_eqI [where ?'a = nat]) (use s assms(1) in \<open>simp add: unsigned_take_bit_eq take_bit_nat_eq_self\<close>)
  then have b: "\<not> bit (of_nat i + 1 :: u32) n" if "8 \<le> n" for n
    using that by (metis bit_take_bit_iff not_less)
  have "encode i g = push_bit 8 g + (of_nat i + 1)"
    unfolding encode_def by (rule sym, rule disjunctive_add) (use b in \<open>auto simp: bit_simps\<close>)
  moreover have "unat (push_bit 8 g) = 256 * unat g"
    using gen_ok_unat [OF assms(2)] by (simp add: push_bit_eq_mult unat_word_ariths mult.commute)
  ultimately show ?thesis using s gen_ok_unat [OF assms(2)] assms(1) by (simp add: unat_add_small)
qed

lemma encode_parts:
  assumes "i < NX_HANDLE_SLOTS" and "gen_ok g"
  shows "unat (encode i g AND 0xFF) = i + 1" "drop_bit 8 (encode i g) = g" "drop_bit 31 (encode i g) = 0"
proof -
  note e = encode_unat [OF assms] gen_ok_unat [OF assms(2)] assms(1)
  have "encode i g AND 0xFF = encode i g AND mask 8" by (simp add: mask_eq_exp_minus_1)
  then show "unat (encode i g AND 0xFF) = i + 1" using e by (simp only: and_mask_mod unat_mod) (simp add: unat_mod)
  show "drop_bit 8 (encode i g) = g"
    by (rule unsigned_word_eqI [where ?'a = nat]) (use e in \<open>simp add: drop_bit_eq_div unat_div\<close>)
  show "drop_bit 31 (encode i g) = 0"
    by (rule unsigned_word_eqI [where ?'a = nat]) (use e in \<open>simp add: drop_bit_eq_div unat_div\<close>)
qed

section \<open>Tables as maps\<close>

definition hmap :: "nx_handle_table \<Rightarrow> u32 \<rightharpoonup> optr \<times> u32" where
  "hmap hs h = map_option (\<lambda>i. (the (he_obj (hs ! i)), he_rights (hs ! i))) (ht_entry hs h)"

lemma ht_entry_iff:
  assumes "ht_wf hs"
  shows "ht_entry hs h = Some i \<longleftrightarrow> i < NX_HANDLE_SLOTS \<and> he_obj (hs ! i) \<noteq> None \<and> h = encode i (he_gen (hs ! i))"
proof
  assume e: "ht_entry hs h = Some i"
  define s where "s = h AND 0xFF"
  have s: "s \<noteq> 0" "\<not> s > 32" "i = unat (s - 1)" "he_obj (hs ! i) \<noteq> None" "he_gen (hs ! i) = drop_bit 8 h"
    using e by (auto simp: ht_entry_def Let_def s_def split: if_splits)
  have u: "unat s = unat h mod 256"
  proof -
    have "s = h AND mask 8" by (simp add: s_def mask_eq_exp_minus_1)
    then show ?thesis by (simp only: and_mask_mod unat_mod) (simp add: unat_mod)
  qed
  have "1 \<le> s" using s(1) by (simp add: word_le_nat_alt unat_gt_0 Suc_le_eq)
  then have i: "i + 1 = unat s" using s(3) by (simp add: unat_sub_small word_le_nat_alt)
  then have lt: "i < NX_HANDLE_SLOTS" using s(2) by (simp add: word_less_nat_alt)
  have g: "gen_ok (drop_bit 8 h)" using assms lt s(5) by (auto simp: ht_wf_def list_all_length)
  have "unat (drop_bit 8 h) = unat h div 256" by (simp add: drop_bit_eq_div unat_div)
  moreover have "unat h = 256 * (unat h div 256) + unat h mod 256" by simp
  ultimately have "unat (encode i (drop_bit 8 h)) = unat h" using encode_unat [OF lt g] i u by linarith
  then have "encode i (drop_bit 8 h) = h" by (rule unsigned_word_eqI)
  then show "i < NX_HANDLE_SLOTS \<and> he_obj (hs ! i) \<noteq> None \<and> h = encode i (he_gen (hs ! i))" using lt s(4,5) by simp
next
  assume a: "i < NX_HANDLE_SLOTS \<and> he_obj (hs ! i) \<noteq> None \<and> h = encode i (he_gen (hs ! i))"
  then have g: "gen_ok (he_gen (hs ! i))" using assms by (auto simp: ht_wf_def list_all_length)
  note p = encode_parts [OF conjunct1 [OF a] g]
  have s: "h AND 0xFF \<noteq> 0" "\<not> h AND 0xFF > 32" "unat ((h AND 0xFF) - 1) = i"
    using a p(1) by (auto simp: word_less_nat_alt unat_sub_small word_le_nat_alt simp flip: unat_eq_zero)
  show "ht_entry hs h = Some i" using a p(2,3) s by (simp add: ht_entry_def Let_def)
qed

lemma hmap_iff:
  assumes "ht_wf hs"
  shows "hmap hs h = Some (p, r) \<longleftrightarrow>
    (\<exists>i < NX_HANDLE_SLOTS. he_obj (hs ! i) = Some p \<and> he_rights (hs ! i) = r \<and> h = encode i (he_gen (hs ! i)))"
  using ht_entry_iff [OF assms] by (auto simp: hmap_def)

lemma encode_inj:
  assumes "i < NX_HANDLE_SLOTS" and "gen_ok g" and "j < NX_HANDLE_SLOTS" and "gen_ok g'"
  shows "encode i g = encode j g' \<longleftrightarrow> i = j \<and> g = g'"
  using encode_parts [OF assms(1,2)] encode_parts [OF assms(3,4)] by auto

lemma ht_wf_update:
  assumes "ht_wf hs" and "i < NX_HANDLE_SLOTS" and "gen_ok (he_gen e)"
  shows "ht_wf (hs[i := e])"
proof -
  have "gen_ok (he_gen (hs[i := e] ! n))" if "n < NX_HANDLE_SLOTS" for n
    using assms that by (cases "n = i") (auto simp: ht_wf_def list_all_length)
  then show ?thesis using assms(1) by (simp add: ht_wf_def list_all_length)
qed

text \<open>A map is determined by its entries.\<close>

lemma hmap_eqI: "(\<And>h p r. f h = Some (p, r) \<longleftrightarrow> g h = Some (p, r)) \<Longrightarrow> f = (g :: u32 \<rightharpoonup> optr \<times> u32)"
  by (rule ext) (metis option.exhaust prod.exhaust)

lemma hmap_set:
  assumes "ht_wf hs" and "i < NX_HANDLE_SLOTS" and "he_obj (hs ! i) = None"
  shows "hmap (hs[i := (hs ! i)\<lparr>he_obj := Some p, he_rights := r\<rparr>]) = (hmap hs)(encode i (he_gen (hs ! i)) \<mapsto> (p, r))"
    and "hmap hs (encode i (he_gen (hs ! i))) = None" and "ht_wf (hs[i := (hs ! i)\<lparr>he_obj := Some p, he_rights := r\<rparr>])"
proof -
  have g: "\<And>j. j < NX_HANDLE_SLOTS \<Longrightarrow> gen_ok (he_gen (hs ! j))" and len: "length hs = NX_HANDLE_SLOTS"
    using assms(1) by (auto simp: ht_wf_def list_all_length)
  show wf: "ht_wf (hs[i := (hs ! i)\<lparr>he_obj := Some p, he_rights := r\<rparr>])"
    using ht_wf_update [OF assms(1,2)] g assms(2) by simp
  show "hmap hs (encode i (he_gen (hs ! i))) = None"
  proof (rule ccontr)
    assume "hmap hs (encode i (he_gen (hs ! i))) \<noteq> None"
    then obtain q s where "hmap hs (encode i (he_gen (hs ! i))) = Some (q, s)" by force
    then obtain j where j: "j < NX_HANDLE_SLOTS" "he_obj (hs ! j) = Some q" "encode i (he_gen (hs ! i)) = encode j (he_gen (hs ! j))"
      using hmap_iff [OF assms(1)] by blast
    then show False using encode_inj [OF assms(2) g [OF assms(2)] j(1) g [OF j(1)]] assms(3) by simp
  qed
  show "hmap (hs[i := (hs ! i)\<lparr>he_obj := Some p, he_rights := r\<rparr>]) = (hmap hs)(encode i (he_gen (hs ! i)) \<mapsto> (p, r))"
  proof (rule hmap_eqI)
    fix h q s
    show "hmap (hs[i := (hs ! i)\<lparr>he_obj := Some p, he_rights := r\<rparr>]) h = Some (q, s)
        \<longleftrightarrow> ((hmap hs)(encode i (he_gen (hs ! i)) \<mapsto> (p, r))) h = Some (q, s)"
      unfolding hmap_iff [OF wf] fun_upd_apply
      using assms len g encode_inj [OF assms(2) g [OF assms(2)]]
      by (cases "h = encode i (he_gen (hs ! i))") (auto simp: hmap_iff nth_list_update)
  qed
qed

lemma clear_gen: "gen_ok (he_gen e) \<Longrightarrow> gen_ok (he_gen (clear_entry e)) \<and> he_gen (clear_entry e) \<noteq> he_gen e"
  by (auto simp: clear_entry_def bump_def gen_ok_def word_le_nat_alt unat_word_ariths)

lemma hmap_clear:
  assumes "ht_wf hs" and "ht_entry hs h = Some i"
  shows "hmap (hs[i := clear_entry (hs ! i)]) = (hmap hs)(h := None)" and "ht_wf (hs[i := clear_entry (hs ! i)])"
proof -
  have i: "i < NX_HANDLE_SLOTS" and h: "h = encode i (he_gen (hs ! i))" using assms ht_entry_iff by blast+
  have g: "\<And>j. j < NX_HANDLE_SLOTS \<Longrightarrow> gen_ok (he_gen (hs ! j))" and len: "length hs = NX_HANDLE_SLOTS"
    using assms(1) by (auto simp: ht_wf_def list_all_length)
  show wf: "ht_wf (hs[i := clear_entry (hs ! i)])"
    using ht_wf_update [OF assms(1) i] clear_gen [OF g [OF i]] by simp
  have none: "he_obj (clear_entry (hs ! i)) = None" by (simp add: clear_entry_def bump_def)
  show "hmap (hs[i := clear_entry (hs ! i)]) = (hmap hs)(h := None)"
  proof (rule hmap_eqI)
    fix h' q s
    have "hmap (hs[i := clear_entry (hs ! i)]) h' = Some (q, s) \<longleftrightarrow> (\<exists>j < NX_HANDLE_SLOTS. j \<noteq> i \<and>
        he_obj (hs ! j) = Some q \<and> he_rights (hs ! j) = s \<and> h' = encode j (he_gen (hs ! j)))"
      unfolding hmap_iff [OF wf] using none len i by (auto simp: nth_list_update)
    also have "\<dots> \<longleftrightarrow> h' \<noteq> h \<and> hmap hs h' = Some (q, s)"
      unfolding hmap_iff [OF assms(1)] h using encode_inj [OF i g [OF i]] g i by (metis (no_types, lifting))
    finally show "hmap (hs[i := clear_entry (hs ! i)]) h' = Some (q, s) \<longleftrightarrow> ((hmap hs)(h := None)) h' = Some (q, s)"
      by auto
  qed
qed

section \<open>The operations of the kernel\<close>

abbreviation tables :: "kernel \<Rightarrow> nx_handle_table list" where
  "tables k \<equiv> map tk_handles (k_tasks k)"

lemma tables_view: "cap_view k' = cap_view k \<Longrightarrow> tables k' = tables k"
  by (simp add: cap_view_def)

lemma tables_ep: "tables (upd_ep e f k) = tables k"
  by (simp add: upd_ep_def)

text \<open>Dropping references changes no handle table.\<close>

lemma unref_loop_tables:
  "(\<forall>p k k'. unref_loop n p k = Some k' \<longrightarrow> tables k' = tables k)
   \<and> (\<forall>i k k'. drain_loop n i k = Some k' \<longrightarrow> tables k' = tables k)"
proof (induction n)
  case (Suc n)
  have "tables k' = tables k" if u: "unref_loop (Suc n) p k = Some k'" for p k k'
  proof -
    define k1 where "k1 = upd_obj p (\<lambda>b. b\<lparr>ob_refs := ob_refs b - 1\<rparr>) k"
    have v: "tables k1 = tables k" by (rule tables_view) (simp add: k1_def)
    have r: "tables (release_slot i k1) = tables k1" for i
      by (rule tables_view) (simp add: release_slot_def view_task)
    show ?thesis using unref_loop_cases [OF u k1_def]
    proof (elim disjE exE conjE)
      fix i assume "vmo_destroy i k1 = Some k'"
      then have "tables k' = tables k1" by (intro tables_view vmo_destroy_view)
      then show ?thesis by (simp only: v)
    next
      fix i k2 assume d: "drain_loop n i k1 = Some k2" and k': "k' = upd_ep i (\<lambda>s. s\<lparr>es_used := False\<rparr>) k2"
      have "tables k2 = tables k1" using Suc d by blast
      then show ?thesis unfolding k' tables_ep v by simp
    qed (simp_all add: v r)
  qed
  moreover have "tables k' = tables k" if d: "drain_loop (Suc n) i k = Some k'" for i k k'
    using drain_loop_cases [OF d]
  proof (elim disjE exE conjE)
    fix k1 assume k1: "k1 = k" and d: "drain_loop n i (upd_ep i (\<lambda>s. s\<lparr>es_ep := nx_ep_pop (es_ep s)\<rparr>) k1) = Some k'"
    have "tables k' = tables (upd_ep i (\<lambda>s. s\<lparr>es_ep := nx_ep_pop (es_ep s)\<rparr>) k1)" using Suc d by blast
    then show ?thesis unfolding tables_ep k1 .
  next
    fix k1 p assume u: "unref_loop n p k = Some k1"
      and d: "drain_loop n i (upd_ep i (\<lambda>s. s\<lparr>es_ep := nx_ep_pop (es_ep s)\<rparr>) k1) = Some k'"
    have "tables k' = tables (upd_ep i (\<lambda>s. s\<lparr>es_ep := nx_ep_pop (es_ep s)\<rparr>) k1)" "tables k1 = tables k"
      using Suc u d by blast+
    then show ?thesis unfolding tables_ep by simp
  qed simp
  ultimately show ?case by blast
qed simp

lemma unref_tables: "nx_obj_unref p k = Some k' \<Longrightarrow> tables k' = tables k"
  unfolding nx_obj_unref_def using unref_loop_tables by blast

lemma ref_tables: "tables (nx_obj_ref p k) = tables k"
  by (rule tables_view) (simp add: nx_obj_ref_def)

lemma tables_nth: "t < length (k_tasks k) \<Longrightarrow> tk_handles (task k t) = tables k ! t"
  by simp

lemma upd_handle_tables:
  assumes "t < length (k_tasks k)"
  shows "tables (upd_handle t i f k) = (tables k)[t := (tables k ! t)[i := f (tables k ! t ! i)]]"
  using assms by (simp add: upd_handle_def upd_task_def map_update)

text \<open>\<open>handles k t\<close> is the map of task \<open>t\<close>.\<close>

definition handles :: "kernel \<Rightarrow> nat \<Rightarrow> u32 \<rightharpoonup> optr \<times> u32" where
  "handles k t = hmap (tables k ! t)"

definition handles_ok :: "kernel \<Rightarrow> bool" where
  "handles_ok k \<longleftrightarrow> list_all ht_wf (tables k)"

lemma handles_okD: "handles_ok k \<Longrightarrow> t < length (k_tasks k) \<Longrightarrow> ht_wf (tables k ! t)"
  by (simp add: handles_ok_def list_all_length)

lemma handles_upd:
  assumes "handles_ok k" and "t < length (k_tasks k)" and "tables k' = (tables k)[t := hs]" and "ht_wf hs"
  shows "handles_ok k'" and "handles k' = (handles k)(t := hmap hs)"
proof -
  have len: "length (k_tasks k') = length (k_tasks k)" using arg_cong [OF assms(3), of length] by simp
  have "ht_wf (tables k' ! j)" if "j < length (k_tasks k)" for j
    unfolding assms(3) using that assms handles_okD [OF assms(1)] by (cases "j = t") simp_all
  then show "handles_ok k'" unfolding handles_ok_def list_all_length using len by simp
  show "handles k' = (handles k)(t := hmap hs)"
    unfolding handles_def assms(3) using assms(2) by (auto simp: fun_eq_iff nth_list_update)
qed

lemma install_map:
  assumes ok: "handles_ok k" and t: "t < length (k_tasks k)"
  shows "case nx_ht_install t p r k of
      (Inl e, k') \<Rightarrow> k' = k
    | (Inr h, k') \<Rightarrow> handles k t h = None \<and> handles k' = (handles k)(t := (handles k t)(h \<mapsto> (p, r))) \<and> handles_ok k'"
proof (cases "r AND NOT NX_RIGHTS_ALL \<noteq> 0 \<or> find (\<lambda>i. he_obj (tables k ! t ! i) = None) [0..<NX_HANDLE_SLOTS] = None")
  case True
  then show ?thesis by (auto simp: nx_ht_install_def tables_nth [OF t] simp del: nth_map upt_rec_numeral split: option.splits)
next
  case False
  then obtain i where f: "find (\<lambda>i. he_obj (tables k ! t ! i) = None) [0..<NX_HANDLE_SLOTS] = Some i" by blast
  then have i: "i < NX_HANDLE_SLOTS" "he_obj (tables k ! t ! i) = None" by (auto simp: find_Some_iff)
  define k' where "k' = upd_handle t i (\<lambda>e. e\<lparr>he_obj := Some p, he_rights := r\<rparr>) (nx_obj_ref p k)"
  define h where "h = encode i (he_gen (tables k ! t ! i))"
  have ins: "nx_ht_install t p r k = (Inr h, k')"
    using False f by (simp add: nx_ht_install_def tables_nth [OF t] h_def k'_def del: nth_map upt_rec_numeral)
  have t': "t < length (k_tasks (nx_obj_ref p k))" using t arg_cong [OF ref_tables [of p k], of length] by simp
  have "tables k' = (tables k)[t := (tables k ! t)[i := (tables k ! t ! i)\<lparr>he_obj := Some p, he_rights := r\<rparr>]]"
    unfolding k'_def upd_handle_tables [OF t'] ref_tables ..
  note upd = handles_upd [OF ok t this]
  note ins_map = hmap_set [OF handles_okD [OF ok t] i]
  show ?thesis using upd [OF ins_map(3)] ins_map(1) [of r p] ins_map(2) unfolding ins by (simp add: handles_def h_def del: nth_map)
qed

lemma clear_map:
  assumes ok: "handles_ok k" and t: "t < length (k_tasks k)" and e: "ht_entry (tables k ! t) h = Some i"
  shows "handles (upd_handle t i clear_entry k) = (handles k)(t := (handles k t)(h := None))"
    and "handles_ok (upd_handle t i clear_entry k)"
proof -
  note upd = handles_upd [OF ok t upd_handle_tables [OF t, of i clear_entry]]
  note clear = hmap_clear [OF handles_okD [OF ok t] e]
  show "handles (upd_handle t i clear_entry k) = (handles k)(t := (handles k t)(h := None))"
    using upd(2) [OF clear(2)] clear(1) by (simp add: handles_def del: nth_map)
  show "handles_ok (upd_handle t i clear_entry k)" by (rule upd(1) [OF clear(2)])
qed

text \<open>A handle that is gone is not the next one handed out: the generation of its slot has changed.\<close>

definition stale :: "kernel \<Rightarrow> nat \<Rightarrow> u32 \<Rightarrow> bool" where
  "stale k t h \<longleftrightarrow> (\<forall>p r k'. nx_ht_install t p r k \<noteq> (Inr h, k'))"

lemma stale_tables:
  assumes "t < length (k_tasks k)" and "\<forall>i < NX_HANDLE_SLOTS. h \<noteq> encode i (he_gen (tables k ! t ! i))"
  shows "stale k t h"
  unfolding stale_def
proof (intro allI notI)
  fix p r k' assume "nx_ht_install t p r k = (Inr h, k')"
  then obtain i where "find (\<lambda>i. he_obj (tables k ! t ! i) = None) [0..<NX_HANDLE_SLOTS] = Some i"
    "h = encode i (he_gen (tables k ! t ! i))"
    by (auto simp: nx_ht_install_def tables_nth [OF assms(1)] simp del: nth_map upt_rec_numeral split: if_splits option.splits)
  then show False using assms(2) by (auto simp: find_Some_iff)
qed

lemma clear_stale:
  assumes ok: "handles_ok k" and t: "t < length (k_tasks k)" and e: "ht_entry (tables k ! t) h = Some i"
    and k': "tables k' = tables (upd_handle t i clear_entry k)"
  shows "stale k' t h"
proof (rule stale_tables)
  show "t < length (k_tasks k')" using t arg_cong [OF k', of length] by (simp add: upd_handle_def upd_task_def)
  have wf: "ht_wf (tables k ! t)" by (rule handles_okD [OF ok t])
  then have g: "\<And>j. j < NX_HANDLE_SLOTS \<Longrightarrow> gen_ok (he_gen (tables k ! t ! j))" and len: "length (tables k ! t) = NX_HANDLE_SLOTS"
    by (simp_all add: ht_wf_def list_all_length)
  have i: "i < NX_HANDLE_SLOTS" and h: "h = encode i (he_gen (tables k ! t ! i))" using e ht_entry_iff [OF wf] by blast+
  have tb': "tables k' ! t = (tables k ! t)[i := clear_entry (tables k ! t ! i)]"
    unfolding k' upd_handle_tables [OF t] using t by simp
  have "encode i (he_gen (tables k ! t ! i)) \<noteq> encode j (he_gen (tables k' ! t ! j))" if "j < NX_HANDLE_SLOTS" for j
    using encode_inj [OF i g [OF i] that] g [OF that] clear_gen [OF g [OF i]] i len unfolding tb'
    by (cases "j = i") (auto simp del: nth_map)
  then show "\<forall>j < NX_HANDLE_SLOTS. h \<noteq> encode j (he_gen (tables k' ! t ! j))" unfolding h by blast
qed

lemma handles_tables: "tables k' = tables k \<Longrightarrow> handles k' = handles k \<and> handles_ok k' = handles_ok k"
  by (simp add: handles_def handles_ok_def fun_eq_iff del: nth_map)

lemma close_map:
  assumes ok: "handles_ok k" and t: "t < length (k_tasks k)"
  shows "case nx_ht_close t h k of
      None \<Rightarrow> handles k t h \<noteq> None
    | Some (st, k') \<Rightarrow>
        if handles k t h = None then st = NX_EBADHANDLE \<and> k' = k
        else st = NX_OK \<and> handles k' = (handles k)(t := (handles k t)(h := None)) \<and> handles_ok k' \<and> stale k' t h"
proof (cases "ht_entry (tables k ! t) h")
  case None
  then show ?thesis by (simp add: nx_ht_close_def tables_nth [OF t] handles_def hmap_def del: nth_map)
next
  case (Some i)
  then have some: "handles k t h \<noteq> None" by (simp add: handles_def hmap_def)
  define p where "p = the (he_obj (tables k ! t ! i))"
  have close: "nx_ht_close t h k = map_option (\<lambda>k. (NX_OK, k)) (nx_obj_unref p (upd_handle t i clear_entry k))"
    using Some by (simp add: nx_ht_close_def tables_nth [OF t] p_def map_conv_bind_option comp_def del: nth_map)
  show ?thesis
  proof (cases "nx_obj_unref p (upd_handle t i clear_entry k)")
    case None
    then show ?thesis using some by (simp add: close)
  next
    case u: (Some k')
    then show ?thesis using clear_map [OF ok t Some] handles_tables [OF unref_tables [OF u]] some
        clear_stale [OF ok t Some unref_tables [OF u]] by (simp add: close)
  qed
qed

lemma lookup_map:
  assumes "t < length (k_tasks k)"
  shows "nx_ht_lookup t h ty need k = (case handles k t h of
      None \<Rightarrow> Inl NX_EBADHANDLE
    | Some (q, have) \<Rightarrow> if ty \<noteq> NX_OBJ_ANY \<and> ob_type (obj k q) \<noteq> ty then Inl NX_EWRONGTYPE
        else if have AND need \<noteq> need then Inl NX_EACCESS else Inr (q, have))"
  by (simp add: nx_ht_lookup_def tables_nth [OF assms] handles_def hmap_def Let_def del: nth_map split: option.splits)

lemma take_map:
  assumes ok: "handles_ok k" and t: "t < length (k_tasks k)"
  shows "case nx_ht_take t h r k of
      (Inl e, k') \<Rightarrow> k' = k
    | (Inr q, k') \<Rightarrow> (\<exists>have. handles k t h = Some (q, have) \<and> r AND NOT have = 0)
        \<and> handles k' = (handles k)(t := (handles k t)(h := None)) \<and> handles_ok k' \<and> stale k' t h"
proof (cases "nx_ht_lookup t h NX_OBJ_ANY NX_RIGHT_TRANSFER k")
  case (Inl e)
  then show ?thesis by (simp add: nx_ht_take_def)
next
  case (Inr x)
  obtain q rights where x: "x = (q, rights)" by (cases x)
  then have q: "handles k t h = Some (q, rights)"
    using Inr lookup_map [OF t] by (auto split: option.splits if_splits)
  then obtain i where i: "ht_entry (tables k ! t) h = Some i" by (auto simp: handles_def hmap_def)
  then have "nx_ht_take t h r k = (if r AND NOT rights \<noteq> 0 then (Inl NX_EACCESS, k) else (Inr q, upd_handle t i clear_entry k))"
    using Inr x by (simp add: nx_ht_take_def tables_nth [OF t] del: nth_map)
  then show ?thesis using q clear_map [OF ok t i] clear_stale [OF ok t i refl] by simp
qed

text \<open>
  C8. A handle table is a map. For a task whose table is well-formed, installing an object either fails without
  a change or returns a handle that was not valid before and adds it with the object and the rights given;
  closing a valid handle removes exactly that handle, and an invalid one is refused without a change; moving
  a handle out removes exactly it and yields its object; a lookup succeeds exactly on the handles of the map
  whose object has the type and whose rights include those asked for. The value of a handle that was removed is
  not the next one handed out. Handles of other tasks are not affected,
  and all tables stay well-formed.
\<close>

theorem handle_table_is_map:
  assumes "handles_ok k" and "t < length (k_tasks k)"
  shows "(case nx_ht_install t p r k of
        (Inl e, k') \<Rightarrow> k' = k
      | (Inr h, k') \<Rightarrow> handles k t h = None \<and> handles k' = (handles k)(t := (handles k t)(h \<mapsto> (p, r))) \<and> handles_ok k')
    \<and> (case nx_ht_close t h k of
        None \<Rightarrow> handles k t h \<noteq> None
      | Some (st, k') \<Rightarrow>
          if handles k t h = None then st = NX_EBADHANDLE \<and> k' = k
          else st = NX_OK \<and> handles k' = (handles k)(t := (handles k t)(h := None)) \<and> handles_ok k' \<and> stale k' t h)
    \<and> (case nx_ht_take t h r k of
        (Inl e, k') \<Rightarrow> k' = k
      | (Inr q, k') \<Rightarrow> (\<exists>have. handles k t h = Some (q, have) \<and> r AND NOT have = 0)
          \<and> handles k' = (handles k)(t := (handles k t)(h := None)) \<and> handles_ok k' \<and> stale k' t h)
    \<and> nx_ht_lookup t h ty need k = (case handles k t h of
        None \<Rightarrow> Inl NX_EBADHANDLE
      | Some (q, have) \<Rightarrow> if ty \<noteq> NX_OBJ_ANY \<and> ob_type (obj k q) \<noteq> ty then Inl NX_EWRONGTYPE
          else if have AND need \<noteq> need then Inl NX_EACCESS else Inr (q, have))"
  using install_map [OF assms] close_map [OF assms] take_map [OF assms] lookup_map [OF assms(2)] by simp

lemma demo_table_wf: "ht_wf nx_ht_init" "ht_wf demo_table"
proof -
  show init: "ht_wf nx_ht_init" by (simp add: nx_ht_init_def ht_wf_def gen_ok_def word_le_nat_alt list_all_iff)
  show "ht_wf demo_table"
    unfolding demo_table_def by (rule ht_wf_update [OF init]) (simp_all add: gen_ok_def word_le_nat_alt)
qed

lemma demo_handles: "handles_ok demo_kernel" "0 < length (k_tasks demo_kernel)"
proof -
  have "tables demo_kernel = (tables three_tasks)[0 := demo_table]"
    by (simp add: demo_kernel_def upd_task_def map_update)
  moreover have "tables three_tasks = replicate 32 nx_ht_init"
    by (rule nth_equalityI) (simp_all add: three_tasks_def fresh_task_def del: upt_rec_numeral)
  ultimately have eq: "tables demo_kernel = demo_table # replicate 31 nx_ht_init" by (simp add: numeral_eq_Suc)
  show "handles_ok demo_kernel" unfolding handles_ok_def eq using demo_table_wf by (simp add: list_all_iff)
  show "0 < length (k_tasks demo_kernel)" using arg_cong [OF eq, of length] by (simp only: length_map) simp
qed

theorem handle_table_is_map_witness:
  "case nx_ht_install 0 (Static_obj 2) NX_RIGHT_READ demo_kernel of
      (Inl e, k') \<Rightarrow> k' = demo_kernel
    | (Inr h, k') \<Rightarrow> handles demo_kernel 0 h = None
        \<and> handles k' = (handles demo_kernel)(0 := (handles demo_kernel 0)(h \<mapsto> (Static_obj 2, NX_RIGHT_READ))) \<and> handles_ok k'"
  using handle_table_is_map [OF demo_handles, of "Static_obj 2" NX_RIGHT_READ] by simp

end
