(* ===== verification/Uaccess_Exact.thy ===== *)
theory Uaccess_Exact
  imports Uaccess
begin

text \<open>
  Access to user memory always returns, succeeds exactly when the range lies in user space and every page
  of it is accessible, and then copies the bytes the page tables lead to.
\<close>

section \<open>Addresses of one page\<close>

definition upage :: "u64 \<Rightarrow> u64" where
  "upage va = va AND NOT (NX_PAGE_4K - 1)"

definition uoff :: "u64 \<Rightarrow> u64" where
  "uoff va = va AND (NX_PAGE_4K - 1)"

lemma mask12: "(NX_PAGE_4K - 1 :: u64) = mask 12"
  by (simp add: mask_eq_exp_minus_1)

lemma upage_split: "upage va + uoff va = va"
proof -
  have "upage va + uoff va = upage va OR uoff va"
    unfolding upage_def uoff_def mask12 by (rule disjunctive_add) (auto simp: bit_simps)
  also have "\<dots> = va" unfolding upage_def uoff_def mask12 by (rule bit_word_eqI) (auto simp: bit_simps)
  finally show ?thesis .
qed

lemma drop_page: "12 \<le> n \<Longrightarrow> drop_bit n (upage va) = drop_bit n va"
  unfolding upage_def mask12 by (rule bit_word_eqI) (auto simp: bit_simps dest: bit_imp_le_length)

lemma find_leaf_from_page: "find_leaf_from m (upage va) l t = find_leaf_from m va l t"
  by (induction l arbitrary: t) (simp_all add: index_of_def drop_page Let_def)

lemma find_leaf_page: "find_leaf m root (upage va) = find_leaf m root va"
  by (simp add: find_leaf_def find_leaf_from_page nx_pt_is_canonical_def drop_page)

lemma size_mask: "(NX_PAGE_4K - 1 :: u64) = mask 12" "(NX_PAGE_2M - 1 :: u64) = mask 21" "(NX_PAGE_1G - 1 :: u64) = mask 30"
  by (simp_all add: mask_eq_exp_minus_1)

lemma leaf_size:
  "find_leaf_from m va l t = Inr (a, sz) \<Longrightarrow> l \<le> 3 \<Longrightarrow> sz = NX_PAGE_4K \<or> sz = NX_PAGE_2M \<or> sz = NX_PAGE_1G"
proof (induction l arbitrary: t)
  case 0
  then show ?case by (simp add: Let_def split: if_splits)
next
  case (Suc l)
  define e where "e = rdq m (pte t (index_of va (Suc l)))"
  show ?case
  proof (cases "e AND NX_PTE_P = 0 \<or> e AND NX_PTE_PS \<noteq> 0 \<and> (Suc l = 1 \<or> Suc l = 2)")
    case True
    then show ?thesis using Suc.prems by (auto simp: Let_def e_def split: if_splits)
  next
    case False
    then have "find_leaf_from m va l (e AND NX_PTE_ADDR) = Inr (a, sz)"
      using Suc.prems(1) by (auto simp: Let_def e_def split: if_splits)
    then show ?thesis using Suc.IH Suc.prems(2) by simp
  qed
qed

lemma leaf_mask: "find_leaf_from m va 3 t = Inr (a, sz) \<Longrightarrow> \<exists>n. 12 \<le> n \<and> sz - 1 = mask n"
proof -
  assume "find_leaf_from m va 3 t = Inr (a, sz)"
  then have "sz = NX_PAGE_4K \<or> sz = NX_PAGE_2M \<or> sz = NX_PAGE_1G" by (rule leaf_size) simp
  then show ?thesis using size_mask by (elim disjE) (rule exI [of _ 12] exI [of _ 21] exI [of _ 30], simp)+
qed

lemma mask_page: "12 \<le> n \<Longrightarrow> va AND mask n = (upage va AND mask n) + uoff va"
proof -
  assume n: "12 \<le> n"
  have "(upage va AND mask n) + uoff va = (upage va AND mask n) OR uoff va"
    unfolding upage_def uoff_def mask12 by (rule disjunctive_add) (auto simp: bit_simps)
  also have "\<dots> = va AND mask n"
    unfolding upage_def uoff_def mask12 by (rule bit_word_eqI) (use n in \<open>auto simp: bit_simps\<close>)
  finally show ?thesis by simp
qed

lemma query_page:
  "nx_pt_query root va m = (case nx_pt_query root (upage va) m of
     Inl st \<Rightarrow> Inl st | Inr (pa, flags, sz) \<Rightarrow> Inr (pa + uoff va, flags, sz))"
proof (cases "find_leaf m root va")
  case (Inl st)
  then show ?thesis by (simp add: nx_pt_query_def find_leaf_page)
next
  case (Inr x)
  obtain a sz where x: "x = (a, sz)" by (cases x)
  then have "find_leaf_from m va 3 root = Inr (a, sz)" using Inr by (simp add: find_leaf_def split: if_splits)
  then obtain n where "12 \<le> n" "sz - 1 = mask n" using leaf_mask by blast
  then show ?thesis using Inr x mask_page [of n va] by (simp add: nx_pt_query_def find_leaf_page)
qed

lemma user_page_off:
  assumes "user_page m root (upage va) write \<noteq> 0"
  shows "user_page m root va write = user_page m root (upage va) write + uoff va"
  using assms query_page [of root va m]
  by (auto simp: user_page_def split: sum.splits if_splits prod.splits)

section \<open>The check\<close>

text \<open>The loop over the pages of a range that ends below the top of user space.\<close>

lemma check_loop_exact:
  assumes "unat end' \<le> 2 ^ 47"
  shows "\<exists>st. check_loop m root write end' page = Some st
    \<and> (st = NX_OK \<or> st = NX_EFAULT)
    \<and> (st = NX_OK \<longleftrightarrow> (\<forall>k. unat page + 4096 * k < unat end' \<longrightarrow> user_page m root (page + of_nat (4096 * k)) write \<noteq> 0))"
proof (induction "unat end' - unat page" arbitrary: page rule: less_induct)
  case less
  show ?case
  proof (cases "page < end'")
    case False
    then have "\<not> unat page + 4096 * k < unat end'" for k by (simp add: word_less_nat_alt)
    then show ?thesis using False by (subst check_loop.simps) simp
  next
    case True
    then have lt: "unat page < unat end'" by (simp add: word_less_nat_alt)
    show ?thesis
    proof (cases "user_page m root page write = 0")
      case z: True
      then have "\<exists>k. unat page + 4096 * k < unat end' \<and> user_page m root (page + of_nat (4096 * k)) write = 0"
        using lt by (intro exI [of _ 0]) simp
      then show ?thesis using True z by (subst check_loop.simps) auto
    next
      case nz: False
      have n: "unat (page + NX_PAGE_4K) = unat page + 4096" using lt assms by (subst unat_add_small) simp_all
      have dec: "unat end' - unat (page + NX_PAGE_4K) < unat end' - unat page" unfolding n using lt by simp
      obtain st where st: "check_loop m root write end' (page + NX_PAGE_4K) = Some st" "st = NX_OK \<or> st = NX_EFAULT"
        "st = NX_OK \<longleftrightarrow> (\<forall>k. unat page + 4096 + 4096 * k < unat end'
            \<longrightarrow> user_page m root (page + NX_PAGE_4K + of_nat (4096 * k)) write \<noteq> 0)"
        using less.hyps [OF dec, unfolded n] by blast
      have "(\<forall>k. unat page + 4096 * k < unat end' \<longrightarrow> user_page m root (page + of_nat (4096 * k)) write \<noteq> 0) \<longleftrightarrow> st = NX_OK"
        unfolding st(3)
      proof (intro iffI allI impI)
        fix k assume "\<forall>k. unat page + 4096 * k < unat end' \<longrightarrow> user_page m root (page + of_nat (4096 * k)) write \<noteq> 0"
          "unat page + 4096 + 4096 * k < unat end'"
        then show "user_page m root (page + NX_PAGE_4K + of_nat (4096 * k)) write \<noteq> 0"
          by (auto dest!: spec [of _ "Suc k"] simp: algebra_simps)
      next
        fix k assume "\<forall>k. unat page + 4096 + 4096 * k < unat end'
            \<longrightarrow> user_page m root (page + NX_PAGE_4K + of_nat (4096 * k)) write \<noteq> 0" "unat page + 4096 * k < unat end'"
        then show "user_page m root (page + of_nat (4096 * k)) write \<noteq> 0"
          using nz by (cases k) (auto dest!: spec [of _ "k - 1"] simp: algebra_simps)
      qed
      then show ?thesis using True nz st(1,2) by (subst check_loop.simps) auto
    qed
  qed
qed

lemma unat_upage: "unat (upage x) = 4096 * (unat x div 4096)"
proof -
  have "unat (upage x) = unat x - unat x mod 4096" using unat_align_down_4096 [of x] by (simp add: upage_def)
  then show ?thesis by (simp add: minus_mod_eq_mult_div)
qed

lemma unat_add_of_nat: "unat va + i < 2 ^ 64 \<Longrightarrow> unat (va + of_nat i :: u64) = unat va + i"
  by (subst unat_add_small) (simp_all add: unat_of_nat take_bit_nat_eq_self)

text \<open>The pages the loop visits are those of the bytes of the range.\<close>

lemma range_pages:
  assumes "unat va + unat len \<le> 2 ^ 47" and "0 < unat len"
  shows "(\<forall>k. unat (upage va) + 4096 * k < unat va + unat len \<longrightarrow> P (upage va + of_nat (4096 * k)))
     \<longleftrightarrow> (\<forall>i < unat len. P (upage (va + of_nat i)))"
proof (intro iffI allI impI)
  fix i assume all: "\<forall>k. unat (upage va) + 4096 * k < unat va + unat len \<longrightarrow> P (upage va + of_nat (4096 * k))"
    and i: "i < unat len"
  have u: "unat (va + of_nat i) = unat va + i" using i assms(1) by (intro unat_add_of_nat) simp
  define k where "k = (unat va + i) div 4096 - unat va div 4096"
  have k: "unat (upage va) + 4096 * k = unat (upage (va + of_nat i))"
    unfolding unat_upage u k_def by (simp add: div_le_mono flip: distrib_left)
  have "unat (upage (va + of_nat i)) \<le> unat va + i" unfolding unat_upage u by simp
  then have "unat (upage va) + 4096 * k < unat va + unat len" using k i by simp
  moreover have "upage va + of_nat (4096 * k) = upage (va + of_nat i)"
  proof (rule unsigned_word_eqI [where ?'a = nat])
    show "unat (upage va + of_nat (4096 * k)) = unat (upage (va + of_nat i))"
      using k unat_u64_less [of "upage (va + of_nat i)"] by (subst unat_add_of_nat) simp_all
  qed
  ultimately show "P (upage (va + of_nat i))" using all by metis
next
  fix k assume all: "\<forall>i < unat len. P (upage (va + of_nat i))" and k: "unat (upage va) + 4096 * k < unat va + unat len"
  define i where "i = unat (upage va) + 4096 * k - unat va"
  have split: "unat va = 4096 * (unat va div 4096) + unat va mod 4096" "unat va mod 4096 < 4096" by simp_all
  have i: "i < unat len" using k assms(2) by (simp add: i_def)
  then have u: "unat (va + of_nat i) = unat va + i" using assms(1) by (intro unat_add_of_nat) simp
  have "(unat va + i) div 4096 = unat va div 4096 + k"
  proof (cases "k = 0")
    case True
    then show ?thesis using split(1) by (simp add: i_def unat_upage)
  next
    case False
    then have "unat va + i = 4096 * (unat va div 4096 + k)" using split by (simp add: i_def unat_upage)
    then show ?thesis by simp
  qed
  then have "unat (upage (va + of_nat i)) = unat (upage va) + 4096 * k" unfolding unat_upage u by simp
  then have "upage (va + of_nat i) = upage va + of_nat (4096 * k)"
    using k assms(1) by (intro unsigned_word_eqI [where ?'a = nat], subst unat_add_of_nat) simp_all
  then show "P (upage va + of_nat (4096 * k))" using all i by metis
qed

text \<open>
  What the check decides: the range is in user space and every page of it is mapped, accessible to the user,
  writable when it is written, and not the page at physical address 0. \<open>phys\<close> is where the tables lead.
\<close>

definition accessible :: "pmem \<Rightarrow> u64 \<Rightarrow> u64 \<Rightarrow> bool \<Rightarrow> bool" where
  "accessible m root va write \<longleftrightarrow> (case nx_pt_query root va m of
     Inl st \<Rightarrow> False
   | Inr (pa, flags, sz) \<Rightarrow> pa \<noteq> 0 \<and> flags AND NX_PTE_P \<noteq> 0 \<and> flags AND NX_PTE_U \<noteq> 0
       \<and> (write \<longrightarrow> flags AND NX_PTE_W \<noteq> 0))"

definition phys :: "pmem \<Rightarrow> u64 \<Rightarrow> u64 \<Rightarrow> u64" where
  "phys m root va = (case nx_pt_query root va m of Inl st \<Rightarrow> 0 | Inr (pa, flags, sz) \<Rightarrow> pa)"

lemma user_page_accessible: "user_page m root va write \<noteq> 0 \<longleftrightarrow> accessible m root va write"
  by (auto simp: user_page_def accessible_def split: sum.splits)

lemma user_page_phys:
  assumes "accessible m root (upage va) write"
  shows "user_page m root (upage va) write + uoff va = phys m root va"
  using assms query_page [of root va m]
  by (auto simp: user_page_def accessible_def phys_def split: sum.splits)

definition user_range :: "pmem \<Rightarrow> u64 \<Rightarrow> u64 \<Rightarrow> u64 \<Rightarrow> bool \<Rightarrow> bool" where
  "user_range m root va len write \<longleftrightarrow> len = 0 \<or> nx_user_range_ok va len
     \<and> (\<forall>i < unat len. accessible m root (upage (va + of_nat i)) write)"

lemma range_room:
  assumes "nx_user_range_ok va len"
  shows "unat va + unat len \<le> 2 ^ 47" "unat (va + len) = unat va + unat len"
proof -
  have "va \<le> NX_USER_TOP" "len \<le> NX_USER_TOP - va" using assms by (auto simp: nx_user_range_ok_def)
  then have "unat va + unat len \<le> unat NX_USER_TOP" by (simp add: word_le_nat_alt unat_sub_small)
  then show b: "unat va + unat len \<le> 2 ^ 47" by simp
  show "unat (va + len) = unat va + unat len" using b by (intro unat_add_small) simp
qed

lemma uaccess_check_exact:
  "\<exists>st. nx_uaccess_check root va len write m = Some st \<and> (st = NX_OK \<or> st = NX_EFAULT)
     \<and> (st = NX_OK \<longleftrightarrow> user_range m root va len write)"
proof (cases "len = 0 \<or> \<not> nx_user_range_ok va len")
  case True
  then show ?thesis by (auto simp: nx_uaccess_check_def user_range_def)
next
  case False
  then have r: "unat va + unat len \<le> 2 ^ 47" "unat (va + len) = unat va + unat len" and pos: "0 < unat len"
    using range_room by (auto simp: unat_gt_0)
  obtain st where st: "check_loop m root write (va + len) (upage va) = Some st" "st = NX_OK \<or> st = NX_EFAULT"
    "st = NX_OK \<longleftrightarrow> (\<forall>k. unat (upage va) + 4096 * k < unat va + unat len
        \<longrightarrow> user_page m root (upage va + of_nat (4096 * k)) write \<noteq> 0)"
    using check_loop_exact [where end' = "va + len" and page = "upage va", unfolded r(2)] r(1) by blast
  have "st = NX_OK \<longleftrightarrow> (\<forall>i < unat len. accessible m root (upage (va + of_nat i)) write)"
    unfolding st(3) user_page_accessible by (rule range_pages [OF r(1) pos])
  then show ?thesis using st(1,2) False by (auto simp: nx_uaccess_check_def user_range_def upage_def)
qed

section \<open>Copying\<close>

lemma unat_uoff: "unat (uoff va) = unat va mod 4096"
  using unat_and_4095 [of va] by (simp add: uoff_def)

lemma uoff_less: "unat (uoff va) < 4096"
  by (simp add: unat_uoff)

text \<open>Bytes of the same page are consecutive.\<close>

lemma same_page:
  assumes "unat (uoff va) + i < 4096" and "unat va + i < 2 ^ 64"
  shows "upage (va + of_nat i) = upage va" "uoff (va + of_nat i) = uoff va + of_nat i"
proof -
  have u: "unat (va + of_nat i) = unat va + i" by (rule unat_add_of_nat [OF assms(2)])
  define q r where "q = unat va div 4096" and "r = unat va mod 4096"
  have "unat va = 4096 * q + r" "r + i < 4096" using assms(1) by (simp_all add: q_def r_def unat_uoff)
  then have "(unat va + i) div 4096 = q" by (simp add: add.assoc)
  then have "unat (upage (va + of_nat i)) = unat (upage va)" unfolding unat_upage u by (simp add: q_def)
  then show up: "upage (va + of_nat i) = upage va" by (rule unsigned_word_eqI)
  have "uoff x = x - upage x" for x using upage_split [of x] by (simp add: eq_diff_eq add.commute)
  then show "uoff (va + of_nat i) = uoff va + of_nat i" using up by simp
qed

text \<open>One round of the copy: the bytes up to the end of the page or of the range.\<close>

definition copy_chunk :: "u64 \<Rightarrow> u64 \<Rightarrow> u64" where
  "copy_chunk va len = (if NX_PAGE_4K - (va AND (NX_PAGE_4K - 1)) > len then len else NX_PAGE_4K - (va AND (NX_PAGE_4K - 1)))"

lemma copy_chunk_unat: "unat (copy_chunk va len) = min (unat len) (4096 - unat (uoff va))"
proof -
  have "uoff va \<le> NX_PAGE_4K" using uoff_less [of va] by (simp add: word_le_nat_alt)
  then have "unat (NX_PAGE_4K - uoff va) = 4096 - unat (uoff va)" by (simp add: unat_sub_small)
  moreover have "va AND (NX_PAGE_4K - 1) = uoff va" by (simp add: uoff_def)
  ultimately show ?thesis unfolding copy_chunk_def by (auto simp: word_less_nat_alt min_def)
qed

lemma copy_in_step:
  assumes "len \<noteq> 0"
  shows "copy_in_loop m root va len = do {
     rest \<leftarrow> copy_in_loop m root (va + copy_chunk va len) (len - copy_chunk va len);
     Some (map (\<lambda>i. m (user_page m root va False + of_nat i)) [0..<unat (copy_chunk va len)] @ rest) }"
  using assms by (subst copy_in_loop.simps) (simp add: Let_def copy_chunk_def)

lemma copy_in_exact:
  assumes "\<forall>i < unat len. accessible m root (upage (va + of_nat i)) False" and "unat va + unat len \<le> 2 ^ 47"
  shows "copy_in_loop m root va len = Some (map (\<lambda>i. m (phys m root (va + of_nat i))) [0..<unat len])"
  using assms
proof (induction "unat len" arbitrary: va len rule: less_induct)
  case (less len va)
  show ?case
  proof (cases "len = 0")
    case True
    then show ?thesis by (subst copy_in_loop.simps) simp
  next
    case False
    define c where "c = copy_chunk va len"
    have pos: "0 < unat len" using False by (simp add: unat_gt_0)
    have c: "unat c = min (unat len) (4096 - unat (uoff va))" by (simp add: c_def copy_chunk_unat)
    then have c_pos: "0 < unat c" "unat c \<le> unat len" using pos uoff_less [of va] by simp_all
    have l: "unat (len - c) = unat len - unat c" using c_pos(2) by (simp add: unat_sub_small word_le_nat_alt)
    have v: "unat (va + c) = unat va + unat c" using less.prems(2) c_pos(2) by (intro unat_add_small) simp
    have shift: "va + c + of_nat i = va + of_nat (unat c + i)" for i by (simp add: add.assoc)
    have ih: "copy_in_loop m root (va + c) (len - c)
        = Some (map (\<lambda>i. m (phys m root (va + c + of_nat i))) [0..<unat (len - c)])"
    proof (rule less.hyps)
      show "\<forall>i < unat (len - c). accessible m root (upage (va + c + of_nat i)) False"
      proof (intro allI impI)
        fix i assume "i < unat (len - c)"
        then have "unat c + i < unat len" using l by simp
        then show "accessible m root (upage (va + c + of_nat i)) False" unfolding shift using less.prems(1) by blast
      qed
    qed (use l v c_pos less.prems(2) in simp_all)
    have "user_page m root va False + of_nat i = phys m root (va + of_nat i)" if "i < unat c" for i
    proof -
      have "unat (uoff va) + i < 4096" using that c by linarith
      moreover have "unat va + i < 2 ^ 64" using that c_pos(2) less.prems(2) by simp
      moreover have acc: "accessible m root (upage va) False" using less.prems(1) pos by (auto dest: spec [of _ 0])
      ultimately have "phys m root (va + of_nat i) = user_page m root (upage va) False + (uoff va + of_nat i)"
        using user_page_phys [of m root "va + of_nat i" False] same_page [of va i] by simp
      then show ?thesis using user_page_off [of m root va False] acc user_page_accessible by (simp add: add.assoc)
    qed
    then have first: "map (\<lambda>i. m (user_page m root va False + of_nat i)) [0..<unat c]
        = map (\<lambda>i. m (phys m root (va + of_nat i))) [0..<unat c]" by simp
    have "[0..<unat len] = [0..<unat c] @ map (\<lambda>i. i + unat c) [0..<unat len - unat c]"
      using upt_add_eq_append [of 0 "unat c" "unat len - unat c"] c_pos(2) by (simp add: map_add_upt)
    then show ?thesis using copy_in_step [OF False, of m root va] ih first
      by (simp add: l comp_def add_ac flip: c_def)
  qed
qed

lemma copy_out_step:
  assumes "len \<noteq> 0"
  shows "copy_out_loop root va kbuf len m = copy_out_loop root (va + copy_chunk va len)
     (drop (unat (copy_chunk va len)) kbuf) (len - copy_chunk va len)
     (fold (\<lambda>i m'. m'(user_page m root va True + of_nat i := kbuf ! i)) [0..<unat (copy_chunk va len)] m)"
  using assms by (subst copy_out_loop.simps) (simp add: Let_def copy_chunk_def)

lemma copy_out_returns: "\<exists>m'. copy_out_loop root va kbuf len m = Some m'"
proof (induction "unat len" arbitrary: va kbuf len m rule: less_induct)
  case (less len va kbuf m)
  show ?case
  proof (cases "len = 0")
    case True
    then show ?thesis by (subst copy_out_loop.simps) simp
  next
    case False
    define c where "c = copy_chunk va len"
    have "0 < unat len" using False by (simp add: unat_gt_0)
    then have "0 < unat c" "c \<le> len" using uoff_less [of va] by (simp_all add: c_def copy_chunk_unat word_le_nat_alt)
    then have "unat (len - c) < unat len" using \<open>0 < unat len\<close> by (simp add: unat_sub_small)
    then show ?thesis unfolding copy_out_step [OF False] c_def by (rule less.hyps)
  qed
qed

lemma uaccess_copy_out_returns:
  "\<exists>m'. nx_uaccess_copy_out root va src len m
     = Some (if user_range m root va len True then (NX_OK, m') else (NX_EFAULT, m))"
  using uaccess_check_exact [of root va len True m] copy_out_returns [of root va src len m]
  by (auto simp: nx_uaccess_copy_out_def)

text \<open>
  C25. Reading user memory is exact. Whatever the tables of the address space hold, the copy returns; it
  succeeds exactly when the range lies in user space and every page of it is mapped and accessible to the
  user, and then its result is, byte by byte, the memory the page tables lead to; otherwise it reports a fault
  and copies nothing.
\<close>

theorem uaccess_copy_in_exact:
  "nx_uaccess_copy_in root va len m = Some
     (if user_range m root va len False
      then (NX_OK, map (\<lambda>i. m (phys m root (va + of_nat i))) [0..<unat len])
      else (NX_EFAULT, []))"
proof -
  obtain st where st: "nx_uaccess_check root va len False m = Some st" "st = NX_OK \<or> st = NX_EFAULT"
    "st = NX_OK \<longleftrightarrow> user_range m root va len False"
    using uaccess_check_exact by blast
  show ?thesis
  proof (cases "user_range m root va len False")
    case False
    then show ?thesis using st by (auto simp: nx_uaccess_copy_in_def)
  next
    case True
    have "copy_in_loop m root va len = Some (map (\<lambda>i. m (phys m root (va + of_nat i))) [0..<unat len])"
    proof (cases "len = 0")
      case True
      then show ?thesis by (subst copy_in_loop.simps) simp
    next
      case False
      then show ?thesis using True range_room(1) by (intro copy_in_exact) (auto simp: user_range_def)
    qed
    then show ?thesis using st True by (simp add: nx_uaccess_copy_in_def)
  qed
qed

end
