(* ===== verification/Json.thy ===== *)
theory Json
  imports Nx_Prelude "HOL-Library.Monad_Syntax"
begin

text \<open>
  The JSON writer and reader of the provider client (lib/http/json.c). Texts are byte lists, positions are
  32-bit words as in the code. Reading outside the text and writing outside the buffer are None; the
  position after a failed skip is not used by any caller, so a failed skip is an inner None.
\<close>

abbreviation JSON_DEPTH_MAX :: u32 where "JSON_DEPTH_MAX \<equiv> 32"

definition cstrlen :: "bytes \<Rightarrow> u32" where
  "cstrlen s = of_nat (length (takeWhile (\<lambda>c. c \<noteq> 0) s))"

section \<open>Writer\<close>

record jw =
  jw_p :: bytes
  jw_cap :: u32
  jw_len :: u32
  jw_overflow :: bool

definition poke :: "bytes \<Rightarrow> nat \<Rightarrow> u8 \<Rightarrow> bytes option" where
  "poke p i c = (if i < length p then Some (p[i := c]) else None)"

definition jw_init :: "bytes \<Rightarrow> u32 \<Rightarrow> jw option" where
  "jw_init mem cap = do {
     mem \<leftarrow> (if cap \<noteq> 0 then poke mem 0 0 else Some mem);
     Some \<lparr>jw_p = mem, jw_cap = cap, jw_len = 0, jw_overflow = False\<rparr> }"

text \<open>The copy loop from index \<open>i\<close>.\<close>

fun jw_copy :: "bytes \<Rightarrow> u32 \<Rightarrow> nat \<Rightarrow> bytes \<Rightarrow> bytes option" where
  "jw_copy p len i [] = Some p"
| "jw_copy p len i (c # cs) = do { p \<leftarrow> poke p (unat (len + of_nat i)) c; jw_copy p len (Suc i) cs }"

text \<open>\<open>s\<close> holds the \<open>n\<close> bytes to write.\<close>

definition jw_raw :: "jw \<Rightarrow> bytes \<Rightarrow> jw option" where
  "jw_raw w s =
     (let n = of_nat (length s) in
      if jw_overflow w \<or> n > jw_cap w - jw_len w \<or> jw_cap w - jw_len w - n < 1 then Some (w\<lparr>jw_overflow := True\<rparr>)
      else do {
        p \<leftarrow> jw_copy (jw_p w) (jw_len w) 0 s;
        p \<leftarrow> poke p (unat (jw_len w + n)) 0;
        Some (w\<lparr>jw_p := p, jw_len := jw_len w + n\<rparr>) })"

definition jw_rawz :: "jw \<Rightarrow> bytes \<Rightarrow> jw option" where
  "jw_rawz w s = jw_raw w (take (unat (cstrlen s)) s)"

text \<open>Length of the valid UTF-8 sequence at the start of \<open>s\<close>, 0 if invalid; \<open>s\<close> is not empty.\<close>

fun utf8_cont :: "u32 \<Rightarrow> bytes \<Rightarrow> u32 option" where
  "utf8_cont cp [] = Some cp"
| "utf8_cont cp (c # cs) = (if c AND 0xC0 \<noteq> 0x80 then None else utf8_cont (push_bit 6 cp OR ucast (c AND 0x3F)) cs)"

definition utf8_seq :: "bytes \<Rightarrow> nat" where
  "utf8_seq s =
     (let c = hd s in
      if c < 0x80 then 1
      else let (len, cp) = (if c \<ge> 0xC2 \<and> c \<le> 0xDF then (2, ucast (c AND 0x1F))
                            else if c \<ge> 0xE0 \<and> c \<le> 0xEF then (3, ucast (c AND 0x0F))
                            else if c \<ge> 0xF0 \<and> c \<le> 0xF4 then (4, ucast (c AND 0x07)) else (0, 0)) in
      if len = 0 \<or> len > length s then 0
      else case utf8_cont cp (take (len - 1) (tl s)) of
        None \<Rightarrow> 0
      | Some cp \<Rightarrow>
          if len = 3 \<and> cp < 0x800 \<or> len = 4 \<and> (cp < 0x10000 \<or> cp > 0x10FFFF) \<or> cp \<ge> 0xD800 \<and> cp \<le> 0xDFFF then 0
          else len)"

definition jw_hex :: "u8 \<Rightarrow> u8" where
  "jw_hex d = (if d < 10 then 0x30 + d else 0x61 + (d - 10))"

text \<open>What one round of the loop of \<open>jw_str\<close> writes, and how many bytes of the string it takes.\<close>

definition jw_esc :: "bytes \<Rightarrow> bytes \<times> nat" where
  "jw_esc s =
     (let c = hd s in
      if c = 0x22 \<or> c = 0x5C then ([0x5C, c], 1)
      else if c = 0x0A then ([0x5C, 0x6E], 1)
      else if c = 0x0D then ([0x5C, 0x72], 1)
      else if c = 0x09 then ([0x5C, 0x74], 1)
      else if c < 0x20 \<or> c = 0x7F then ([0x5C, 0x75, 0x30, 0x30, jw_hex (drop_bit 4 c), jw_hex (c AND 15)], 1)
      else let k = utf8_seq s in
      if k = 0 then ([0x5C, 0x75, 0x66, 0x66, 0x66, 0x64], 1) else (take k s, k))"

lemma utf8_seq_bounds: "s \<noteq> [] \<Longrightarrow> utf8_seq s \<le> length s \<and> utf8_seq s \<le> 4"
proof -
  assume s: "s \<noteq> []"
  define x :: "nat \<times> u32" where "x = (if hd s \<ge> 0xC2 \<and> hd s \<le> 0xDF then (2, ucast (hd s AND 0x1F))
                            else if hd s \<ge> 0xE0 \<and> hd s \<le> 0xEF then (3, ucast (hd s AND 0x0F))
                            else if hd s \<ge> 0xF0 \<and> hd s \<le> 0xF4 then (4, ucast (hd s AND 0x07)) else (0, 0))"
  have l4: "fst x \<le> 4" unfolding x_def by simp
  have "Suc 0 \<le> length s" using s by (cases s) simp_all
  then show ?thesis using l4 unfolding utf8_seq_def Let_def x_def [symmetric] by (cases x) (simp split: option.split)
qed

lemma jw_esc_pos: "0 < snd (jw_esc s)"
  by (simp add: jw_esc_def Let_def)

function jw_str_loop :: "jw \<Rightarrow> bytes \<Rightarrow> jw option" where
  "jw_str_loop w s =
     (if s = [] \<or> jw_overflow w then Some w
      else do { w \<leftarrow> jw_raw w (fst (jw_esc s)); jw_str_loop w (drop (snd (jw_esc s)) s) })"
  by pat_completeness auto
termination by (relation "measure (\<lambda>(w, s). length s)") (simp_all add: jw_esc_pos)

definition jw_str :: "jw \<Rightarrow> bytes \<Rightarrow> jw option" where
  "jw_str w s = do { w \<leftarrow> jw_raw w [0x22]; w \<leftarrow> jw_str_loop w s; jw_raw w [0x22] }"

definition jw_strz :: "jw \<Rightarrow> bytes \<Rightarrow> jw option" where
  "jw_strz w s = jw_str w (take (unat (cstrlen s)) s)"

text \<open>The digits of the loop of \<open>jw_u64\<close>, last digit first.\<close>

function u64_digits :: "u64 \<Rightarrow> bytes" where
  "u64_digits v = (0x30 + ucast (v mod 10)) # (if v div 10 \<noteq> 0 then u64_digits (v div 10) else [])"
  by pat_completeness auto
termination
proof (relation "measure unat")
  fix v :: u64 assume "v div 10 \<noteq> 0"
  then have "unat v \<noteq> 0" by (metis div_0 unat_0 unat_eq_zero)
  then show "(v div 10, v) \<in> measure unat" by (simp add: unat_div)
qed simp

declare jw_str_loop.simps [simp del] u64_digits.simps [simp del]

definition jw_u64 :: "jw \<Rightarrow> u64 \<Rightarrow> jw option" where
  "jw_u64 w v = jw_raw w (rev (u64_digits v))"

section \<open>Reader\<close>

definition ch :: "bytes \<Rightarrow> u32 \<Rightarrow> u8 option" where
  "ch s i = (if unat i < length s then Some (s ! unat i) else None)"

definition is_ws :: "u8 \<Rightarrow> bool" where
  "is_ws c \<longleftrightarrow> c = 0x20 \<or> c = 0x09 \<or> c = 0x0A \<or> c = 0x0D"

lemma dec_wrap: "i < len \<Longrightarrow> unat (len - (i + 1)) < unat (len - i)" for i len :: u32
proof -
  assume "i < len"
  then have "len - i \<noteq> 0" by auto
  then show ?thesis using measure_unat [of "len - i"] by (simp add: algebra_simps)
qed

function ws :: "bytes \<Rightarrow> u32 \<Rightarrow> u32 \<Rightarrow> u32 option" where
  "ws s len i = (if i < len then do { c \<leftarrow> ch s i; if is_ws c then ws s len (i + 1) else Some i } else Some i)"
  by pat_completeness auto
termination by (relation "measure (\<lambda>(s, len, i). unat (len - i))") (simp_all add: dec_wrap)

definition hexval :: "u8 \<Rightarrow> int" where
  "hexval c =
     (if c \<ge> 0x30 \<and> c \<le> 0x39 then uint c - 0x30
      else if c \<ge> 0x61 \<and> c \<le> 0x66 then uint c - 0x61 + 10
      else if c \<ge> 0x41 \<and> c \<le> 0x46 then uint c - 0x41 + 10
      else - 1)"

text \<open>The check of the four digits after \<open>\u\<close> at position \<open>i\<close>.\<close>

definition hex4_ok :: "bytes \<Rightarrow> u32 \<Rightarrow> bool option" where
  "hex4_ok s i = do {
     a \<leftarrow> ch s (i + 1);
     if hexval a < 0 then Some False else do {
     b \<leftarrow> ch s (i + 2);
     if hexval b < 0 then Some False else do {
     c \<leftarrow> ch s (i + 3);
     if hexval c < 0 then Some False else do {
     d \<leftarrow> ch s (i + 4);
     Some (hexval d \<ge> 0) } } } }"

definition simple_esc :: "u8 \<Rightarrow> bool" where
  "simple_esc e \<longleftrightarrow> e = 0x22 \<or> e = 0x5C \<or> e = 0x2F \<or> e = 0x62 \<or> e = 0x66 \<or> e = 0x6E \<or> e = 0x72 \<or> e = 0x74"

partial_function (option) string_loop :: "bytes \<Rightarrow> u32 \<Rightarrow> u32 \<Rightarrow> u32 option option" where
  "string_loop s len i =
     (if i < len then do {
        c \<leftarrow> ch s i;
        if c = 0x22 then Some (Some (i + 1))
        else if c < 0x20 then Some None
        else if c = 0x5C then
          (if i + 1 \<ge> len then Some None else do {
           e \<leftarrow> ch s (i + 1);
           if e = 0x75 then
             (if i + 1 + 4 \<ge> len then Some None else do {
              ok \<leftarrow> hex4_ok s (i + 1);
              if \<not> ok then Some None else string_loop s len (i + 1 + 4 + 1) })
           else if \<not> simple_esc e then Some None
           else string_loop s len (i + 1 + 1) })
        else string_loop s len (i + 1) }
      else Some None)"

definition skip_string :: "bytes \<Rightarrow> u32 \<Rightarrow> u32 \<Rightarrow> u32 option option" where
  "skip_string s len i =
     (if i \<ge> len then Some None else do {
      c \<leftarrow> ch s i;
      if c \<noteq> 0x22 then Some None else string_loop s len (i + 1) })"

definition is_digit :: "u8 \<Rightarrow> bool" where
  "is_digit c \<longleftrightarrow> c \<ge> 0x30 \<and> c \<le> 0x39"

function digits_loop :: "bytes \<Rightarrow> u32 \<Rightarrow> u32 \<Rightarrow> u32 option" where
  "digits_loop s len i = (if i < len then do { c \<leftarrow> ch s i; if is_digit c then digits_loop s len (i + 1) else Some i } else Some i)"
  by pat_completeness auto
termination by (relation "measure (\<lambda>(s, len, i). unat (len - i))") (simp_all add: dec_wrap)

declare ws.simps [simp del] digits_loop.simps [simp del]

definition digits :: "bytes \<Rightarrow> u32 \<Rightarrow> u32 \<Rightarrow> u32 option option" where
  "digits s len i = do { j \<leftarrow> digits_loop s len i; Some (if j > i then Some j else None) }"

text \<open>The character at \<open>i\<close> is one of \<open>cs\<close>: \<open>*i < len && s[*i] == c\<close>.\<close>

definition at :: "bytes \<Rightarrow> u32 \<Rightarrow> u32 \<Rightarrow> u8 list \<Rightarrow> bool option" where
  "at s len i cs = (if i < len then do { c \<leftarrow> ch s i; Some (c \<in> set cs) } else Some False)"

text \<open>The optional fraction and exponent of a number.\<close>

definition skip_frac :: "bytes \<Rightarrow> u32 \<Rightarrow> u32 \<Rightarrow> u32 option option" where
  "skip_frac s len i = do {
     dot \<leftarrow> at s len i [0x2E];
     if dot then digits s len (i + 1) else Some (Some i) }"

definition skip_exp :: "bytes \<Rightarrow> u32 \<Rightarrow> u32 \<Rightarrow> u32 option option" where
  "skip_exp s len i = do {
     e \<leftarrow> at s len i [0x65, 0x45];
     if e then do {
       sign \<leftarrow> at s len (i + 1) [0x2B, 0x2D];
       digits s len (if sign then i + 1 + 1 else i + 1) }
     else Some (Some i) }"

definition skip_number :: "bytes \<Rightarrow> u32 \<Rightarrow> u32 \<Rightarrow> u32 option option" where
  "skip_number s len i = do {
     neg \<leftarrow> at s len i [0x2D];
     let i = (if neg then i + 1 else i);
     zero \<leftarrow> at s len i [0x30];
     r \<leftarrow> (if zero then Some (Some (i + 1)) else digits s len i);
     (case r of None \<Rightarrow> Some None | Some i \<Rightarrow> do {
     r \<leftarrow> skip_frac s len i;
     (case r of None \<Rightarrow> Some None | Some i \<Rightarrow> skip_exp s len i) }) }"

fun lit_eq :: "bytes \<Rightarrow> u32 \<Rightarrow> bytes \<Rightarrow> bool option" where
  "lit_eq s i [] = Some True"
| "lit_eq s i (l # ls) = do { c \<leftarrow> ch s i; if c \<noteq> l then Some False else lit_eq s (i + 1) ls }"

definition skip_lit :: "bytes \<Rightarrow> u32 \<Rightarrow> u32 \<Rightarrow> bytes \<Rightarrow> u32 option option" where
  "skip_lit s len i lit =
     (if len - i < of_nat (length lit) then Some None
      else do { ok \<leftarrow> lit_eq s i lit; Some (if ok then Some (i + of_nat (length lit)) else None) })"

abbreviation JTRUE :: bytes where "JTRUE \<equiv> [0x74, 0x72, 0x75, 0x65]"
abbreviation JFALSE :: bytes where "JFALSE \<equiv> [0x66, 0x61, 0x6C, 0x73, 0x65]"
abbreviation JNULL :: bytes where "JNULL \<equiv> [0x6E, 0x75, 0x6C, 0x6C]"

text \<open>
  \<open>skip_value\<close> and its loop over the members of an object or the elements of an array: the loop runs with the
  opening character \<open>c\<close>.
\<close>

datatype jpos = J_value | J_loop u8

definition jclose :: "u8 \<Rightarrow> u8" where
  "jclose c = (if c = 0x7B then 0x7D else 0x5D)"

text \<open>The member name, the colon and the space around it.\<close>

definition skip_key :: "bytes \<Rightarrow> u32 \<Rightarrow> u32 \<Rightarrow> u32 option option" where
  "skip_key s len i = do {
     r \<leftarrow> skip_string s len i;
     (case r of None \<Rightarrow> Some None | Some i \<Rightarrow> do {
     i \<leftarrow> ws s len i;
     colon \<leftarrow> at s len i [0x3A];
     if \<not> colon then Some None else do {
     i \<leftarrow> ws s len (i + 1);
     Some (Some i) } }) }"

definition skip_scalar :: "u8 \<Rightarrow> bytes \<Rightarrow> u32 \<Rightarrow> u32 \<Rightarrow> u32 option option" where
  "skip_scalar c s len i =
     (if c = 0x22 then skip_string s len i
      else if c = 0x2D \<or> is_digit c then skip_number s len i
      else if c = 0x74 then skip_lit s len i JTRUE
      else if c = 0x66 then skip_lit s len i JFALSE
      else if c = 0x6E then skip_lit s len i JNULL
      else Some None)"

partial_function (option) json_skip :: "jpos \<Rightarrow> bytes \<Rightarrow> u32 \<Rightarrow> u32 \<Rightarrow> u32 \<Rightarrow> u32 option option" where
  "json_skip m s len i depth =
     (case m of
        J_value \<Rightarrow>
          if i \<ge> len then Some None else do {
          c \<leftarrow> ch s i;
          if c \<noteq> 0x7B \<and> c \<noteq> 0x5B then skip_scalar c s len i
          else if depth \<ge> JSON_DEPTH_MAX then Some None else do {
          i \<leftarrow> ws s len (i + 1);
          empty \<leftarrow> at s len i [jclose c];
          if empty then Some (Some (i + 1)) else json_skip (J_loop c) s len i depth } }
      | J_loop c \<Rightarrow> do {
          r \<leftarrow> (if c = 0x7B then skip_key s len i else Some (Some i));
          (case r of None \<Rightarrow> Some None | Some i \<Rightarrow> do {
          r \<leftarrow> json_skip J_value s len i (depth + 1);
          (case r of None \<Rightarrow> Some None | Some i \<Rightarrow> do {
          i \<leftarrow> ws s len i;
          if i \<ge> len then Some None else do {
          x \<leftarrow> ch s i;
          if x = jclose c then Some (Some (i + 1))
          else if x \<noteq> 0x2C then Some None else do {
          i \<leftarrow> ws s len (i + 1);
          json_skip (J_loop c) s len i depth } } }) }) })"

definition skip_value :: "bytes \<Rightarrow> u32 \<Rightarrow> u32 \<Rightarrow> u32 \<Rightarrow> u32 option option" where
  "skip_value = json_skip J_value"

definition json_valid :: "bytes \<Rightarrow> u32 \<Rightarrow> bool option" where
  "json_valid s len = do {
     i \<leftarrow> ws s len 0;
     r \<leftarrow> skip_value s len i 0;
     (case r of None \<Rightarrow> Some False | Some i \<Rightarrow> do {
     i \<leftarrow> ws s len i;
     Some (i = len) }) }"

text \<open>A span is the list of its bytes.\<close>

definition trim :: "bytes \<Rightarrow> bytes" where
  "trim v = rev (dropWhile is_ws (rev (dropWhile is_ws v)))"

datatype json_type_enum = JSON_BAD | JSON_OBJECT | JSON_ARRAY | JSON_STRING | JSON_NUMBER | JSON_TRUE | JSON_FALSE | JSON_NULL

definition json_type :: "bytes \<Rightarrow> json_type_enum option" where
  "json_type v =
     (let v = trim v; len = of_nat (length v) in
      if v = [] then Some JSON_BAD else do {
      r \<leftarrow> skip_value v len 0 0;
      if r \<noteq> Some len then Some JSON_BAD else do {
      c \<leftarrow> ch v 0;
      Some (if c = 0x7B then JSON_OBJECT else if c = 0x5B then JSON_ARRAY else if c = 0x22 then JSON_STRING
            else if c = 0x74 then JSON_TRUE else if c = 0x66 then JSON_FALSE else if c = 0x6E then JSON_NULL
            else JSON_NUMBER) } })"

section \<open>Strings\<close>

definition hex4 :: "bytes \<Rightarrow> u32 \<Rightarrow> u32 option" where
  "hex4 s i = do {
     a \<leftarrow> ch s i; b \<leftarrow> ch s (i + 1); c \<leftarrow> ch s (i + 2); d \<leftarrow> ch s (i + 3);
     Some (word_of_int (push_bit 12 (hexval a) OR push_bit 8 (hexval b) OR push_bit 4 (hexval c) OR hexval d)) }"

text \<open>The code point of the escape \<open>e\<close> whose letter is before position \<open>i\<close>, and the position after it.\<close>

definition esc_cp :: "bytes \<Rightarrow> u32 \<Rightarrow> u8 \<Rightarrow> u32 \<Rightarrow> (u32 \<times> u32) option" where
  "esc_cp s len e i =
     (if e = 0x62 then Some (8, i) else if e = 0x66 then Some (12, i) else if e = 0x6E then Some (10, i)
      else if e = 0x72 then Some (13, i) else if e = 0x74 then Some (9, i)
      else if e = 0x75 then do {
        cp \<leftarrow> hex4 s i;
        let i = i + 4;
        (cp, i) \<leftarrow> (if cp \<ge> 0xD800 \<and> cp \<le> 0xDBFF \<and> i + 5 < len then do {
            x \<leftarrow> ch s i;
            y \<leftarrow> ch s (i + 1);
            if x = 0x5C \<and> y = 0x75 then do {
              lo \<leftarrow> hex4 s (i + 2);
              Some (if lo \<ge> 0xDC00 \<and> lo \<le> 0xDFFF then (0x10000 + push_bit 10 (cp - 0xD800) + (lo - 0xDC00), i + 6) else (cp, i)) }
            else Some (cp, i) }
          else Some (cp, i));
        Some (if cp \<ge> 0xD800 \<and> cp \<le> 0xDFFF then 0xFFFD else cp, i) }
      else Some (ucast e, i))"

definition utf8_enc :: "u32 \<Rightarrow> bytes" where
  "utf8_enc cp =
     (if cp < 0x80 then [ucast cp]
      else if cp < 0x800 then [ucast (0xC0 OR drop_bit 6 cp), ucast (0x80 OR (cp AND 0x3F))]
      else if cp < 0x10000 then
        [ucast (0xE0 OR drop_bit 12 cp), ucast (0x80 OR (drop_bit 6 cp AND 0x3F)), ucast (0x80 OR (cp AND 0x3F))]
      else [ucast (0xF0 OR drop_bit 18 cp), ucast (0x80 OR (drop_bit 12 cp AND 0x3F)),
            ucast (0x80 OR (drop_bit 6 cp AND 0x3F)), ucast (0x80 OR (cp AND 0x3F))])"

text \<open>The loop of \<open>decode_string\<close>: the bytes after the first \<open>out\<close> ones; an inner None is the result -1.\<close>

partial_function (option) decode_loop :: "bytes \<Rightarrow> u32 \<Rightarrow> u32 \<Rightarrow> u32 \<Rightarrow> bytes \<Rightarrow> bytes option option" where
  "decode_loop s len cap i out =
     (if i + 1 < len then do {
        c \<leftarrow> ch s i;
        if c \<noteq> 0x5C then
          (if of_nat (length out) + 1 \<ge> cap then Some None else decode_loop s len cap (i + 1) (out @ [c]))
        else do {
        e \<leftarrow> ch s (i + 1);
        (cp, i) \<leftarrow> esc_cp s len e (i + 2);
        if cp = 0 then Some None
        else if of_nat (length out) + of_nat (length (utf8_enc cp)) \<ge> cap then Some None
        else decode_loop s len cap i (out @ utf8_enc cp) } }
      else Some (Some out))"

text \<open>The decoded bytes; the code stores them with a terminating NUL in a buffer of \<open>cap\<close> bytes.\<close>

definition decode_string :: "bytes \<Rightarrow> u32 \<Rightarrow> bytes option option" where
  "decode_string s cap = do {
     let len = of_nat (length s);
     r \<leftarrow> skip_string s len 0;
     if r \<noteq> Some len \<or> cap = 0 then Some None else decode_loop s len cap 1 [] }"

definition json_string :: "bytes \<Rightarrow> u32 \<Rightarrow> bytes option option" where
  "json_string v cap = decode_string (trim v) cap"

section \<open>Members and elements\<close>

definition slice :: "bytes \<Rightarrow> u32 \<Rightarrow> u32 \<Rightarrow> bytes" where
  "slice s i j = take (unat (j - i)) (drop (unat i) s)"

text \<open>The results -1, 0 and 1 with the span that is found.\<close>

datatype 'a jfind = J_bad | J_absent | J_found 'a

text \<open>The value at \<open>i\<close> and the position after it.\<close>

definition take_value :: "bytes \<Rightarrow> u32 \<Rightarrow> u32 \<Rightarrow> (bytes \<times> u32) option option" where
  "take_value s len i = do { r \<leftarrow> skip_value s len i 1; Some (map_option (\<lambda>j. (slice s i j, j)) r) }"

text \<open>The step to the next member or element: J_absent at the closing character.\<close>

definition next_item :: "u8 \<Rightarrow> bytes \<Rightarrow> u32 \<Rightarrow> u32 \<Rightarrow> u32 jfind option" where
  "next_item close s len i = do {
     i \<leftarrow> ws s len i;
     if i \<ge> len then Some J_bad else do {
     x \<leftarrow> ch s i;
     if x = close then Some J_absent
     else if x \<noteq> 0x2C then Some J_bad
     else do { i \<leftarrow> ws s len (i + 1); Some (J_found i) } } }"

definition colon_value :: "bytes \<Rightarrow> u32 \<Rightarrow> u32 \<Rightarrow> (bytes \<times> u32) option option" where
  "colon_value s len i = do {
     i \<leftarrow> ws s len i;
     colon \<leftarrow> at s len i [0x3A];
     if \<not> colon then Some None else do { i \<leftarrow> ws s len (i + 1); take_value s len i } }"

partial_function (option) member_loop :: "bytes \<Rightarrow> u32 \<Rightarrow> bytes \<Rightarrow> u32 \<Rightarrow> bytes jfind option" where
  "member_loop s len key ks = do {
     r \<leftarrow> skip_string s len ks;
     (case r of None \<Rightarrow> Some J_bad | Some i \<Rightarrow> do {
     kb \<leftarrow> (if i - ks \<le> 128 then decode_string (slice s ks i) 64 else Some None);
     let match = (kb = Some (takeWhile (\<lambda>c. c \<noteq> 0) key));
     r \<leftarrow> colon_value s len i;
     (case r of None \<Rightarrow> Some J_bad | Some (v, i) \<Rightarrow>
       if match then Some (J_found v) else do {
       r \<leftarrow> next_item 0x7D s len i;
       (case r of J_bad \<Rightarrow> Some J_bad | J_absent \<Rightarrow> Some J_absent | J_found i \<Rightarrow> member_loop s len key i) }) }) }"

definition json_member :: "bytes \<Rightarrow> bytes \<Rightarrow> bytes jfind option" where
  "json_member v key =
     (let s = trim v; len = of_nat (length s) in
      if s = [] then Some J_bad else do {
      c \<leftarrow> ch s 0;
      if c \<noteq> 0x7B then Some J_bad else do {
      i \<leftarrow> ws s len 1;
      empty \<leftarrow> at s len i [0x7D];
      if empty then Some (if i + 1 = len then J_absent else J_bad) else member_loop s len key i } })"

text \<open>The number of elements and the wanted one; \<open>want\<close> says whether the caller passed a place for it.\<close>

partial_function (option) element_loop :: "bytes \<Rightarrow> u32 \<Rightarrow> u32 \<Rightarrow> bool \<Rightarrow> u32 \<Rightarrow> u32 \<Rightarrow> bytes option \<Rightarrow> (u32 \<times> bytes option) option option" where
  "element_loop s len index want i n found = do {
     r \<leftarrow> take_value s len i;
     (case r of None \<Rightarrow> Some None | Some (v, i) \<Rightarrow> do {
     let found = (if n = index \<and> want then Some v else found);
     r \<leftarrow> next_item 0x5D s len i;
     (case r of
        J_bad \<Rightarrow> Some None
      | J_absent \<Rightarrow> Some (Some (n + 1, found))
      | J_found i \<Rightarrow> element_loop s len index want i (n + 1) found) }) }"

definition json_element :: "bytes \<Rightarrow> u32 \<Rightarrow> bool \<Rightarrow> (u32 \<times> bytes option) option option" where
  "json_element v index want =
     (let s = trim v; len = of_nat (length s) in
      if s = [] then Some None else do {
      c \<leftarrow> ch s 0;
      if c \<noteq> 0x5B then Some None else do {
      i \<leftarrow> ws s len 1;
      empty \<leftarrow> at s len i [0x5D];
      if empty then Some (Some (0, None)) else element_loop s len index want i 0 None } })"

definition json_u64 :: "bytes \<Rightarrow> u64 option" where
  "json_u64 v =
     (let v = trim v in
      if v = [] \<or> length v > 19 then None
      else if \<not> list_all is_digit v then None
      else if length v > 1 \<and> hd v = 0x30 then None
      else Some (foldl (\<lambda>r c. r * 10 + ucast (c - 0x30)) 0 v))"

definition json_member_str :: "bytes \<Rightarrow> bytes \<Rightarrow> u32 \<Rightarrow> bytes option option" where
  "json_member_str v key cap = do {
     r \<leftarrow> json_member v key;
     (case r of J_found m \<Rightarrow> json_string m cap | _ \<Rightarrow> Some None) }"

text \<open>The start of the next member of the object, from the position \<open>pos\<close> after the last one.\<close>

definition member_start :: "bytes \<Rightarrow> u32 \<Rightarrow> u32 \<Rightarrow> u32 jfind option" where
  "member_start s len pos =
     (if pos = 0 then do {
        i \<leftarrow> ws s len 1;
        empty \<leftarrow> at s len i [0x7D];
        Some (if empty then if i + 1 = len then J_absent else J_bad else J_found i) }
      else next_item 0x7D s len pos)"

definition json_next_member :: "bytes \<Rightarrow> u32 \<Rightarrow> u32 \<Rightarrow> (bytes \<times> bytes \<times> u32) jfind option" where
  "json_next_member v pos kcap =
     (let s = trim v; len = of_nat (length s) in
      if s = [] then Some J_bad else do {
      c \<leftarrow> ch s 0;
      if c \<noteq> 0x7B then Some J_bad else do {
      r \<leftarrow> member_start s len pos;
      (case r of J_bad \<Rightarrow> Some J_bad | J_absent \<Rightarrow> Some J_absent | J_found ks \<Rightarrow> do {
      r \<leftarrow> skip_string s len ks;
      (case r of None \<Rightarrow> Some J_bad | Some i \<Rightarrow> do {
      key \<leftarrow> decode_string (slice s ks i) kcap;
      (case key of None \<Rightarrow> Some J_bad | Some key \<Rightarrow> do {
      r \<leftarrow> colon_value s len i;
      Some (case r of None \<Rightarrow> J_bad | Some (v, i) \<Rightarrow> J_found (key, v, i)) }) }) }) } })"

end
