(* ===== verification/Json_Exact.thy ===== *)
theory Json_Exact
  imports Json "HOL-Library.Sublist"
begin

text \<open>
  The reader of Json accepts exactly the texts of the JSON grammar (RFC 8259) with at most 32 nested
  containers, returns for every text and never reads outside it. Positions of the code are related to the
  suffixes of the text they stand at.
\<close>

section \<open>The grammar\<close>

inductive jchars :: "bytes \<Rightarrow> bool" where
  quote: "jchars [0x22]"
| char: "c \<ge> 0x20 \<Longrightarrow> c \<noteq> 0x22 \<Longrightarrow> c \<noteq> 0x5C \<Longrightarrow> jchars xs \<Longrightarrow> jchars (c # xs)"
| esc: "simple_esc e \<Longrightarrow> jchars xs \<Longrightarrow> jchars (0x5C # e # xs)"
| unicode: "\<forall>h \<in> {a, b, c, d}. hexval h \<ge> 0 \<Longrightarrow> jchars xs \<Longrightarrow> jchars (0x5C # 0x75 # a # b # c # d # xs)"

definition jstring :: "bytes \<Rightarrow> bool" where
  "jstring v \<longleftrightarrow> (\<exists>xs. v = 0x22 # xs \<and> jchars xs)"

definition jdigits :: "bytes \<Rightarrow> bool" where
  "jdigits ds \<longleftrightarrow> ds \<noteq> [] \<and> list_all is_digit ds"

definition jint :: "bytes \<Rightarrow> bool" where
  "jint v \<longleftrightarrow> v = [0x30] \<or> jdigits v \<and> hd v \<noteq> 0x30"

definition jfrac :: "bytes \<Rightarrow> bool" where
  "jfrac v \<longleftrightarrow> v = [] \<or> (\<exists>ds. v = 0x2E # ds \<and> jdigits ds)"

definition jexp :: "bytes \<Rightarrow> bool" where
  "jexp v \<longleftrightarrow> v = [] \<or> (\<exists>e sign ds. v = e # sign @ ds \<and> e \<in> {0x65, 0x45} \<and> sign \<in> {[], [0x2B], [0x2D]} \<and> jdigits ds)"

definition jnumber :: "bytes \<Rightarrow> bool" where
  "jnumber v \<longleftrightarrow> (\<exists>m i f e. v = m @ i @ f @ e \<and> m \<in> {[], [0x2D]} \<and> jint i \<and> jfrac f \<and> jexp e)"

abbreviation jspace :: "bytes \<Rightarrow> bool" where
  "jspace \<equiv> list_all is_ws"

text \<open>
  \<open>jval n\<close>: a value with at most \<open>n\<close> nested containers. \<open>jbody c n\<close>: the members or elements of a container
  with the opening character \<open>c\<close>, up to and including the closing character.
\<close>

definition jkey :: "u8 \<Rightarrow> bytes \<Rightarrow> bool" where
  "jkey c v \<longleftrightarrow> (if c = 0x7B then \<exists>k w w'. v = k @ w @ [0x3A] @ w' \<and> jstring k \<and> jspace w \<and> jspace w' else v = [])"

inductive jval :: "nat \<Rightarrow> bytes \<Rightarrow> bool" and jbody :: "u8 \<Rightarrow> nat \<Rightarrow> bytes \<Rightarrow> bool" where
  scalar: "jstring v \<or> jnumber v \<or> v \<in> {JTRUE, JFALSE, JNULL} \<Longrightarrow> jval n v"
| empty: "c \<in> {0x7B, 0x5B} \<Longrightarrow> jspace w \<Longrightarrow> jval (Suc n) (c # w @ [jclose c])"
| container: "c \<in> {0x7B, 0x5B} \<Longrightarrow> jspace w \<Longrightarrow> jbody c n v \<Longrightarrow> jval (Suc n) (c # w @ v)"
| last: "jkey c k \<Longrightarrow> jval n v \<Longrightarrow> jspace w \<Longrightarrow> jbody c n (k @ v @ w @ [jclose c])"
| more: "jkey c k \<Longrightarrow> jval n v \<Longrightarrow> jspace w \<Longrightarrow> jspace w' \<Longrightarrow> jbody c n xs \<Longrightarrow> jbody c n (k @ v @ w @ [0x2C] @ w' @ xs)"

section \<open>Positions\<close>

definition fits :: "bytes \<Rightarrow> bool" where
  "fits s \<longleftrightarrow> length s + 8 < 2 ^ 32"

definition pos :: "bytes \<Rightarrow> bytes \<Rightarrow> u32" where
  "pos s xs = of_nat (length s - length xs)"

definition slen :: "bytes \<Rightarrow> u32" where
  "slen s = of_nat (length s)"

lemma unat_pos: "fits s \<Longrightarrow> unat (pos s xs) = length s - length xs"
  by (simp add: pos_def unat_of_nat take_bit_nat_eq_self fits_def)

lemma unat_slen: "fits s \<Longrightarrow> unat (slen s) = length s"
  by (simp add: slen_def unat_of_nat take_bit_nat_eq_self fits_def)

lemma suffix_len: "suffix xs s \<Longrightarrow> length xs \<le> length s"
  by (rule suffix_length_le)

lemma pos_less: "fits s \<Longrightarrow> suffix xs s \<Longrightarrow> (pos s xs < slen s) = (xs \<noteq> [])"
  using suffix_len [of xs s] by (cases xs) (auto simp: word_less_nat_alt unat_pos unat_slen)

lemma pos_ch: "fits s \<Longrightarrow> suffix (c # xs) s \<Longrightarrow> ch s (pos s (c # xs)) = Some c"
  by (auto simp: ch_def unat_pos suffix_def)

lemma pos_step: "suffix (c # xs) s \<Longrightarrow> pos s (c # xs) + 1 = pos s xs"
proof -
  assume "suffix (c # xs) s"
  then have "length s - length xs = Suc (length s - length (c # xs))" using suffix_len [of "c # xs" s] by simp
  then show ?thesis by (simp add: pos_def add.commute)
qed

lemma pos_inj: "fits s \<Longrightarrow> suffix xs s \<Longrightarrow> suffix ys s \<Longrightarrow> (pos s xs = pos s ys) = (xs = ys)"
proof -
  assume f: "fits s" and x: "suffix xs s" and y: "suffix ys s"
  have "xs = ys" if "length xs = length ys" using x y that by (auto simp: suffix_def)
  then show ?thesis using unat_pos [OF f, of xs] unat_pos [OF f, of ys] suffix_len [OF x] suffix_len [OF y] by (metis diff_diff_cancel)
qed

lemma pos_nil: "pos s [] = slen s" "pos s s = 0"
  by (simp_all add: pos_def slen_def)

lemmas suf = pos_less pos_ch pos_step pos_inj

section \<open>Space and digits\<close>

lemma ws_pos:
  assumes f: "fits s"
  shows "suffix xs s \<Longrightarrow> ws s (slen s) (pos s xs) = Some (pos s (dropWhile is_ws xs))"
proof (induction xs)
  case Nil
  then show ?case using f by (subst ws.simps) (simp add: pos_nil)
next
  case (Cons c xs)
  have "ws s (slen s) (pos s (c # xs)) = (if is_ws c then ws s (slen s) (pos s xs) else Some (pos s (c # xs)))"
    using f Cons.prems by (subst ws.simps) (simp add: suf)
  then show ?case using Cons suffix_ConsD [of c xs s] by simp
qed

lemma digits_loop_pos:
  assumes f: "fits s"
  shows "suffix xs s \<Longrightarrow> digits_loop s (slen s) (pos s xs) = Some (pos s (dropWhile is_digit xs))"
proof (induction xs)
  case Nil
  then show ?case using f by (subst digits_loop.simps) (simp add: pos_nil)
next
  case (Cons c xs)
  have "digits_loop s (slen s) (pos s (c # xs)) = (if is_digit c then digits_loop s (slen s) (pos s xs) else Some (pos s (c # xs)))"
    using f Cons.prems by (subst digits_loop.simps) (simp add: suf)
  then show ?case using Cons suffix_ConsD [of c xs s] by simp
qed

lemma suffix_dropWhile': "suffix xs s \<Longrightarrow> suffix (dropWhile P xs) s"
  using suffix_dropWhile suffix_order.trans by blast

lemma pos_mono: "fits s \<Longrightarrow> suffix xs s \<Longrightarrow> suffix ys s \<Longrightarrow> (pos s xs < pos s ys) = (length ys < length xs)"
  using suffix_len [of xs s] suffix_len [of ys s] by (auto simp: word_less_nat_alt unat_pos)

lemma digits_pos:
  assumes f: "fits s" and x: "suffix xs s"
  shows "digits s (slen s) (pos s xs)
    = Some (if xs \<noteq> [] \<and> is_digit (hd xs) then Some (pos s (dropWhile is_digit xs)) else None)"
proof -
  have "length (dropWhile is_digit xs) < length xs \<longleftrightarrow> xs \<noteq> [] \<and> is_digit (hd xs)"
    using length_dropWhile_le [of is_digit "tl xs"] by (cases xs) (auto simp: less_Suc_eq_le)
  then show ?thesis by (simp add: digits_def digits_loop_pos [OF f x] pos_mono [OF f x suffix_dropWhile' [OF x]])
qed

lemma at_pos:
  assumes "fits s" and "suffix xs s"
  shows "at s (slen s) (pos s xs) cs = Some (xs \<noteq> [] \<and> hd xs \<in> set cs)"
  using assms by (cases xs) (simp_all add: at_def suf(1,2))

section \<open>Strings\<close>

lemma pos_add: "suffix (vs @ ys) s \<Longrightarrow> pos s (vs @ ys) + of_nat (length vs) = pos s ys"
proof -
  assume "suffix (vs @ ys) s"
  then have "length s - length ys = length s - length (vs @ ys) + length vs" using suffix_len [of "vs @ ys" s] by simp
  then show ?thesis unfolding pos_def by (metis of_nat_add)
qed

lemma pos_adds:
  "suffix (a # b # ys) s \<Longrightarrow> pos s (a # b # ys) + 2 = pos s ys"
  "suffix (a # b # c # ys) s \<Longrightarrow> pos s (a # b # c # ys) + 3 = pos s ys"
  "suffix (a # b # c # d # ys) s \<Longrightarrow> pos s (a # b # c # d # ys) + 4 = pos s ys"
  "suffix (a # b # c # d # e # ys) s \<Longrightarrow> pos s (a # b # c # d # e # ys) + 5 = pos s ys"
  "suffix (a # b # c # d # e # f # ys) s \<Longrightarrow> pos s (a # b # c # d # e # f # ys) + 6 = pos s ys"
  using pos_add [of "[a, b]" ys s] pos_add [of "[a, b, c]" ys s] pos_add [of "[a, b, c, d]" ys s]
    pos_add [of "[a, b, c, d, e]" ys s] pos_add [of "[a, b, c, d, e, f]" ys s] by simp_all

lemma unat_pos_add:
  assumes f: "fits s" and x: "suffix xs s" and n: "n \<le> 8"
  shows "unat (pos s xs + of_nat n) = length s - length xs + n"
proof -
  have "unat (of_nat n :: u32) = n" using n by (simp add: unat_of_nat take_bit_nat_eq_self)
  then show ?thesis using f n unat_pos [OF f, of xs] by (subst unat_add_small) (simp_all add: fits_def)
qed

lemma pos_add_less:
  assumes f: "fits s" and x: "suffix xs s" and n: "n \<le> 8"
  shows "(pos s xs + of_nat n < slen s) = (n < length xs)"
  using unat_pos_add [OF assms] suffix_len [OF x] by (auto simp: word_less_nat_alt unat_slen [OF f])

lemma suffix_drops: "suffix (a # xs) s \<Longrightarrow> suffix xs s" "suffix (vs @ xs) s \<Longrightarrow> suffix xs s"
  by (auto simp: suffix_def)

lemma length_ge4: "\<not> length ys < 4 \<Longrightarrow> \<exists>a b c d zs. ys = a # b # c # d # zs"
  by (cases ys; cases "tl ys"; cases "tl (tl ys)"; cases "tl (tl (tl ys))") auto

text \<open>What a string literal leaves, after its opening quote.\<close>

fun p_chars :: "bytes \<Rightarrow> bytes option" where
  "p_chars [] = None"
| "p_chars (c # xs) =
     (if c = 0x22 then Some xs
      else if c < 0x20 then None
      else if c = 0x5C then
        (case xs of
           [] \<Rightarrow> None
         | e # ys \<Rightarrow>
             if e = 0x75 then
               (case ys of
                  h1 # h2 # h3 # h4 # zs \<Rightarrow>
                    if hexval h1 \<ge> 0 \<and> hexval h2 \<ge> 0 \<and> hexval h3 \<ge> 0 \<and> hexval h4 \<ge> 0 then p_chars zs else None
                | _ \<Rightarrow> None)
             else if simple_esc e then p_chars ys else None)
      else p_chars xs)"

lemma hex4_ok_pos:
  assumes f: "fits s" and x: "suffix (u # h1 # h2 # h3 # h4 # zs) s"
  shows "hex4_ok s (pos s (u # h1 # h2 # h3 # h4 # zs))
    = Some (hexval h1 \<ge> 0 \<and> hexval h2 \<ge> 0 \<and> hexval h3 \<ge> 0 \<and> hexval h4 \<ge> 0)"
proof -
  note s1 = suffix_drops(1) [OF x]
  note s2 = suffix_drops(1) [OF s1]
  note s3 = suffix_drops(1) [OF s2]
  note s4 = suffix_drops(1) [OF s3]
  show ?thesis using f x s1 s2 s3 s4 unfolding hex4_ok_def
    by (simp add: suf(2,3) pos_adds(1-3))
qed

lemma string_loop_step:
  assumes f: "fits s" and x: "suffix (c # xs) s"
    and IH: "\<And>ys. length ys \<le> length xs \<Longrightarrow> suffix ys s \<Longrightarrow> string_loop s (slen s) (pos s ys) = Some (map_option (pos s) (p_chars ys))"
  shows "string_loop s (slen s) (pos s (c # xs)) = Some (map_option (pos s) (p_chars (c # xs)))"
proof -
  define i j where "i = pos s (c # xs)" and "j = pos s xs"
  note s1 = suffix_drops(1) [OF x]
  have i: "i < slen s" "ch s i = Some c" "i + 1 = j" "(j < slen s) = (xs \<noteq> [])" "(j + 4 < slen s) = (4 < length xs)"
    using pos_add_less [OF f s1, of 4] by (simp_all add: i_def j_def pos_less [OF f x] pos_ch [OF f x] pos_step [OF x] pos_less [OF f s1])
  have eq: "string_loop s (slen s) i =
     (if c = 0x22 then Some (Some j)
        else if c < 0x20 then Some None
        else if c = 0x5C then
          (if xs = [] then Some None else do {
           e \<leftarrow> ch s j;
           if e = 0x75 then
             (if length xs \<le> 4 then Some None else do {
              ok \<leftarrow> hex4_ok s j;
              if \<not> ok then Some None else string_loop s (slen s) (j + 4 + 1) })
           else if \<not> simple_esc e then Some None
           else string_loop s (slen s) (j + 1) })
        else string_loop s (slen s) j)"
    by (subst string_loop.simps, unfold i(3)) (simp add: i not_less [symmetric])
  have j: "string_loop s (slen s) j = Some (map_option (pos s) (p_chars xs))" using IH s1 by (simp add: j_def)
  show ?thesis
  proof (cases xs)
    case Nil
    then have "p_chars (c # xs) = (if c = 0x22 then Some xs else None)" by simp
    then show ?thesis unfolding i_def [symmetric] eq j using Nil by (simp add: j_def)
  next
    case (Cons e ys)
    note s2 = suffix_drops(1) [OF s1 [unfolded Cons]]
    have ce: "ch s j = Some e" "j + 1 = pos s ys" using f s1 by (simp_all add: j_def Cons suf(2,3))
    have k: "string_loop s (slen s) (pos s ys) = Some (map_option (pos s) (p_chars ys))" using IH s2 Cons by simp
    show ?thesis
    proof (cases "length ys < 4")
      case True
      have "(case ys of h1 # h2 # h3 # h4 # zs \<Rightarrow> q h1 h2 h3 h4 zs | _ \<Rightarrow> None) = None" for q :: "u8 \<Rightarrow> u8 \<Rightarrow> u8 \<Rightarrow> u8 \<Rightarrow> bytes \<Rightarrow> bytes option"
        using True by (auto split: list.split)
      then have p: "p_chars (c # xs) = (if c = 0x22 then Some xs else if c < 0x20 then None
          else if c = 0x5C then if e = 0x75 then None else if simple_esc e then p_chars ys else None else p_chars xs)"
        using Cons by simp
      have "length xs \<le> 4" "xs \<noteq> []" using True Cons by simp_all
      then show ?thesis unfolding i_def [symmetric] eq j ce k p by (simp add: ce k j_def)
    next
      case False
      then obtain a b c' d zs where ys: "ys = a # b # c' # d # zs" using length_ge4 by blast
      have s6: "suffix zs s" using s2 suffix_drops(2) [of "[a, b, c', d]" zs s] by (simp add: ys)
      have h: "j + 4 + 1 = pos s zs" using pos_adds(4) [of e a b c' d zs s] s1 by (simp add: j_def Cons ys add.assoc)
      have o: "hex4_ok s j = Some (hexval a \<ge> 0 \<and> hexval b \<ge> 0 \<and> hexval c' \<ge> 0 \<and> hexval d \<ge> 0)"
        using hex4_ok_pos [OF f, of e a b c' d zs] s1 by (simp add: j_def Cons ys)
      have z: "string_loop s (slen s) (pos s zs) = Some (map_option (pos s) (p_chars zs))" using IH s6 Cons ys by simp
      have p: "p_chars (c # xs) = (if c = 0x22 then Some xs else if c < 0x20 then None
          else if c = 0x5C then if e = 0x75 then if hexval a \<ge> 0 \<and> hexval b \<ge> 0 \<and> hexval c' \<ge> 0 \<and> hexval d \<ge> 0 then p_chars zs else None
            else if simple_esc e then p_chars ys else None else p_chars xs)"
        using Cons ys by simp
      have "\<not> length xs \<le> 4" "xs \<noteq> []" using Cons ys by simp_all
      then show ?thesis unfolding i_def [symmetric] eq j ce k p h o z by (simp add: ce k o h z) (simp add: j_def)
    qed
  qed
qed

lemma string_loop_pos:
  assumes f: "fits s"
  shows "suffix xs s \<Longrightarrow> string_loop s (slen s) (pos s xs) = Some (map_option (pos s) (p_chars xs))"
proof (induction "length xs" arbitrary: xs rule: less_induct)
  case (less zs)
  show ?case
  proof (cases zs)
    case Nil
    then show ?thesis using f by (subst string_loop.simps) (simp add: pos_nil)
  next
    case (Cons c xs)
    have x: "suffix (c # xs) s" using less.prems Cons by simp
    have IH: "string_loop s (slen s) (pos s ys) = Some (map_option (pos s) (p_chars ys))"
      if "length ys \<le> length xs" "suffix ys s" for ys using less.hyps [of ys] that Cons by simp
    show ?thesis unfolding Cons by (rule string_loop_step [OF f x IH])
  qed
qed

lemma skip_string_pos:
  assumes f: "fits s" and x: "suffix xs s"
  shows "skip_string s (slen s) (pos s xs)
    = Some (map_option (pos s) (case xs of [] \<Rightarrow> None | c # ys \<Rightarrow> if c = 0x22 then p_chars ys else None))"
proof (cases xs)
  case Nil
  then show ?thesis by (simp add: skip_string_def pos_nil)
next
  case (Cons c ys)
  define i where "i = pos s (c # ys)"
  have i: "i < slen s" "ch s i = Some c" "i + 1 = pos s ys" using f x Cons by (simp_all add: i_def suf(1-3))
  have "skip_string s (slen s) i = Some (map_option (pos s) (if c = 0x22 then p_chars ys else None))"
    using string_loop_pos [OF f, of ys] x Cons suffix_drops(1) [of c ys s] unfolding skip_string_def i(3) by (simp add: i not_less [symmetric])
  then show ?thesis by (simp add: Cons i_def)
qed

lemma p_chars_complete: "jchars v \<Longrightarrow> p_chars (v @ ys) = Some ys"
proof (induction rule: jchars.induct)
  case (char c xs)
  then show ?case by (simp add: not_less)
next
  case (esc e xs)
  then have "e \<noteq> 0x75" by (auto simp: simple_esc_def)
  then show ?case using esc by simp
qed simp_all

lemma p_chars_sound: "p_chars xs = Some ys \<Longrightarrow> \<exists>v. xs = v @ ys \<and> jchars v"
proof (induction "length xs" arbitrary: xs rule: less_induct)
  case (less xs)
  then obtain c zs where xs: "xs = c # zs" by (cases xs) auto
  have IH: "\<exists>v. us = v @ ys \<and> jchars v" if "p_chars us = Some ys" "length us \<le> length zs" for us
    using less.hyps [of us] that xs by simp
  consider "c = 0x22" | "c \<noteq> 0x22" "c \<ge> 0x20" "c \<noteq> 0x5C" "p_chars zs = Some ys"
    | e us where "c = 0x5C" "zs = e # us" "simple_esc e" "p_chars us = Some ys"
    | a b c' d us where "c = 0x5C" "zs = 0x75 # a # b # c' # d # us" "\<forall>h \<in> {a, b, c', d}. hexval h \<ge> 0" "p_chars us = Some ys"
    using less.prems xs by (auto split: if_split_asm list.split_asm simp: not_less)
  then show ?case
  proof cases
    case 1
    then show ?thesis using less.prems xs jchars.quote by auto
  next
    case 2
    then show ?thesis using IH [OF 2(4)] xs jchars.char [OF 2(2,1,3)] by fastforce
  next
    case (3 e us)
    then show ?thesis using IH [OF 3(4)] xs jchars.esc [OF 3(3)] by fastforce
  next
    case (4 a b c' d us)
    then show ?thesis using IH [OF 4(4)] xs jchars.unicode [OF 4(3)] by fastforce
  qed
qed

text \<open>
  A parser \<open>f\<close> of the code recognises the language \<open>L\<close> in the text \<open>s\<close>: it returns at every position, and
  where it succeeds it has passed a word of \<open>L\<close>.
\<close>

definition passes :: "bytes \<Rightarrow> u32 option option \<Rightarrow> bytes \<Rightarrow> (bytes \<Rightarrow> bool) \<Rightarrow> bool" where
  "passes s r xs L \<longleftrightarrow> (\<exists>x. r = Some x \<and> (\<forall>j. x = Some j \<longrightarrow> (\<exists>v ys. xs = v @ ys \<and> j = pos s ys \<and> L v)))"

lemma passesI: "r = Some (map_option (pos s) q) \<Longrightarrow> (\<And>ys. q = Some ys \<Longrightarrow> \<exists>v. xs = v @ ys \<and> L v) \<Longrightarrow> passes s r xs L"
  unfolding passes_def by (cases q) auto

lemma skip_string_sound:
  assumes "fits s" and "suffix xs s"
  shows "passes s (skip_string s (slen s) (pos s xs)) xs jstring"
proof (rule passesI [OF skip_string_pos [OF assms]])
  fix zs assume "(case xs of [] \<Rightarrow> None | c # ys \<Rightarrow> if c = 0x22 then p_chars ys else None) = Some zs"
  then obtain ys where ys: "xs = 0x22 # ys" "p_chars ys = Some zs" by (auto split: list.split_asm if_split_asm)
  then obtain v where "ys = v @ zs" "jchars v" using p_chars_sound by blast
  then show "\<exists>v. xs = v @ zs \<and> jstring v" using ys(1) by (intro exI [of _ "0x22 # v"]) (simp add: jstring_def)
qed

lemma skip_string_complete:
  assumes "fits s" and "suffix (v @ ys) s" and "jstring v"
  shows "skip_string s (slen s) (pos s (v @ ys)) = Some (Some (pos s ys))"
  using assms(3) p_chars_complete unfolding skip_string_pos [OF assms(1,2)] jstring_def by auto

section \<open>Numbers and literals\<close>

definition p_digits :: "bytes \<Rightarrow> bytes option" where
  "p_digits xs = (if xs \<noteq> [] \<and> is_digit (hd xs) then Some (dropWhile is_digit xs) else None)"

definition p_frac :: "bytes \<Rightarrow> bytes option" where
  "p_frac xs = (if xs \<noteq> [] \<and> hd xs = 0x2E then p_digits (tl xs) else Some xs)"

definition p_exp :: "bytes \<Rightarrow> bytes option" where
  "p_exp xs = (if xs \<noteq> [] \<and> hd xs \<in> {0x65, 0x45}
     then p_digits (if tl xs \<noteq> [] \<and> hd (tl xs) \<in> {0x2B, 0x2D} then tl (tl xs) else tl xs) else Some xs)"

definition p_int :: "bytes \<Rightarrow> bytes option" where
  "p_int xs = (if xs \<noteq> [] \<and> hd xs = 0x30 then Some (tl xs) else p_digits xs)"

definition p_number :: "bytes \<Rightarrow> bytes option" where
  "p_number xs = do { a \<leftarrow> p_int (if xs \<noteq> [] \<and> hd xs = 0x2D then tl xs else xs); b \<leftarrow> p_frac a; p_exp b }"

lemma pos_tl: "suffix xs s \<Longrightarrow> xs \<noteq> [] \<Longrightarrow> pos s xs + 1 = pos s (tl xs)"
  by (cases xs) (simp_all add: pos_step)

lemma suffix_tl': "suffix xs s \<Longrightarrow> suffix (tl xs) s"
  by (cases xs) (auto dest: suffix_drops(1))

lemma p_digits_pos: "fits s \<Longrightarrow> suffix xs s \<Longrightarrow> digits s (slen s) (pos s xs) = Some (map_option (pos s) (p_digits xs))"
  by (simp add: digits_pos p_digits_def)

lemma p_suffix:
  "p_digits xs = Some ys \<Longrightarrow> suffix xs s \<Longrightarrow> suffix ys s"
  "p_int xs = Some ys \<Longrightarrow> suffix xs s \<Longrightarrow> suffix ys s"
  "p_frac xs = Some ys \<Longrightarrow> suffix xs s \<Longrightarrow> suffix ys s"
  by (auto simp: p_digits_def p_int_def p_frac_def suffix_dropWhile' suffix_tl' split: if_split_asm)

lemma p_frac_pos: "fits s \<Longrightarrow> suffix xs s \<Longrightarrow> skip_frac s (slen s) (pos s xs) = Some (map_option (pos s) (p_frac xs))"
  by (cases "xs = []") (simp_all add: skip_frac_def at_pos p_frac_def pos_tl p_digits_pos suffix_tl')

lemma p_exp_pos:
  assumes f: "fits s" and x: "suffix xs s"
  shows "skip_exp s (slen s) (pos s xs) = Some (map_option (pos s) (p_exp xs))"
proof (cases "xs \<noteq> [] \<and> hd xs \<in> {0x65, 0x45}")
  case True
  then have t: "pos s xs + 1 = pos s (tl xs)" "suffix (tl xs) s" "suffix (tl (tl xs)) s" using x by (simp_all add: pos_tl suffix_tl')
  have "skip_exp s (slen s) (pos s xs) = digits s (slen s) (if tl xs \<noteq> [] \<and> hd (tl xs) \<in> {0x2B, 0x2D} then pos s (tl xs) + 1 else pos s (tl xs))"
    using True unfolding skip_exp_def t(1) by (simp add: at_pos [OF f x] at_pos [OF f t(2)])
  also have "\<dots> = digits s (slen s) (pos s (if tl xs \<noteq> [] \<and> hd (tl xs) \<in> {0x2B, 0x2D} then tl (tl xs) else tl xs))"
    using t(2) by (auto simp: pos_tl)
  finally show ?thesis using True t f by (auto simp: p_exp_def p_digits_pos)
next
  case False
  then show ?thesis unfolding skip_exp_def p_exp_def by (auto simp: at_pos [OF f x])
qed

lemma p_number_pos:
  assumes f: "fits s" and x: "suffix xs s"
  shows "skip_number s (slen s) (pos s xs) = Some (map_option (pos s) (p_number xs))"
proof -
  define ys where "ys = (if xs \<noteq> [] \<and> hd xs = 0x2D then tl xs else xs)"
  have y: "suffix ys s" using x by (simp add: ys_def suffix_tl')
  have p: "(if xs \<noteq> [] \<and> hd xs = 0x2D then pos s xs + 1 else pos s xs) = pos s ys" using x by (simp add: ys_def pos_tl)
  have i: "(if ys \<noteq> [] \<and> hd ys = 0x30 then Some (Some (pos s ys + 1)) else digits s (slen s) (pos s ys)) = Some (map_option (pos s) (p_int ys))"
    using y f by (simp add: p_int_def pos_tl p_digits_pos)
  have a: "at s (slen s) (pos s xs) [0x2D] = Some (xs \<noteq> [] \<and> hd xs = 0x2D)" "at s (slen s) (pos s ys) [0x30] = Some (ys \<noteq> [] \<and> hd ys = 0x30)"
    by (simp_all add: at_pos [OF f x] at_pos [OF f y])
  have "skip_number s (slen s) (pos s xs) = (case map_option (pos s) (p_int ys) of None \<Rightarrow> Some None | Some i \<Rightarrow> do {
     r \<leftarrow> skip_frac s (slen s) i; (case r of None \<Rightarrow> Some None | Some i \<Rightarrow> skip_exp s (slen s) i) })"
    unfolding skip_number_def a(1) Let_def by (simp only: Option.bind.bind_lunit p a(2) i)
  then show ?thesis using p_frac_pos [OF f p_suffix(2) [OF _ y]] p_exp_pos [OF f p_suffix(3) [OF _ p_suffix(2) [OF _ y]]]
    unfolding p_number_def ys_def [symmetric] by (auto split: option.splits Option.bind_splits)
qed

text \<open>What may follow a value: nothing, space, a comma or a closing character.\<close>

definition stops :: "bytes \<Rightarrow> bool" where
  "stops ys \<longleftrightarrow> ys = [] \<or> is_ws (hd ys) \<or> hd ys \<in> {0x2C, 0x5D, 0x7D}"

lemma stops_char: "stops ys \<Longrightarrow> ys \<noteq> [] \<Longrightarrow> \<not> is_digit (hd ys) \<and> hd ys \<notin> {0x2E, 0x65, 0x45}"
  unfolding stops_def is_ws_def is_digit_def by (elim disjE) (simp_all, auto)

lemma digits_complete: "jdigits ds \<Longrightarrow> (ys \<noteq> [] \<Longrightarrow> \<not> is_digit (hd ys)) \<Longrightarrow> p_digits (ds @ ys) = Some ys"
  by (cases ds; cases ys) (auto simp: p_digits_def jdigits_def dropWhile_append3 list_all_iff)

lemma digits_sound: "p_digits xs = Some ys \<Longrightarrow> \<exists>v. xs = v @ ys \<and> jdigits v"
  by (rule exI [of _ "takeWhile is_digit xs"])
    (cases xs, auto simp: p_digits_def jdigits_def list_all_iff dest: set_takeWhileD split: if_split_asm)

lemma int_sound: "p_int xs = Some ys \<Longrightarrow> \<exists>v. xs = v @ ys \<and> jint v"
proof (cases "xs \<noteq> [] \<and> hd xs = 0x30")
  case True
  assume "p_int xs = Some ys"
  then show ?thesis using True by (intro exI [of _ "[0x30]"]) (cases xs, auto simp: p_int_def jint_def)
next
  case False
  assume p: "p_int xs = Some ys"
  then obtain v where v: "xs = v @ ys" "jdigits v" using False digits_sound by (auto simp: p_int_def)
  then have "hd v \<noteq> 0x30" using False by (cases v) (auto simp: jdigits_def)
  then show ?thesis using v by (auto simp: jint_def)
qed

lemma frac_sound: "p_frac xs = Some ys \<Longrightarrow> \<exists>v. xs = v @ ys \<and> jfrac v"
proof (cases "xs \<noteq> [] \<and> hd xs = 0x2E")
  case True
  assume "p_frac xs = Some ys"
  then obtain v where "tl xs = v @ ys" "jdigits v" using True digits_sound by (auto simp: p_frac_def)
  then show ?thesis using True by (intro exI [of _ "0x2E # v"]) (cases xs, auto simp: jfrac_def)
qed (auto simp: p_frac_def jfrac_def)

lemma exp_sound: "p_exp xs = Some ys \<Longrightarrow> \<exists>v. xs = v @ ys \<and> jexp v"
proof (cases "xs \<noteq> [] \<and> hd xs \<in> {0x65, 0x45}")
  case True
  define b where "b \<longleftrightarrow> tl xs \<noteq> [] \<and> hd (tl xs) \<in> {0x2B, 0x2D}"
  define sign where "sign = (if b then [hd (tl xs)] else [])"
  assume "p_exp xs = Some ys"
  then obtain v where v: "(if b then tl (tl xs) else tl xs) = v @ ys" "jdigits v" using True digits_sound by (auto simp: p_exp_def b_def split: if_split_asm)
  have "xs = (hd xs # sign @ v) @ ys" using True v(1) by (cases xs; cases "tl xs") (auto simp: sign_def b_def split: if_split_asm)
  moreover have "sign \<in> {[], [0x2B], [0x2D]}" by (auto simp: sign_def b_def)
  ultimately show ?thesis using True v(2) by (intro exI [of _ "hd xs # sign @ v"]) (auto simp: jexp_def)
qed (auto simp: p_exp_def jexp_def)

lemma number_sound: "p_number xs = Some ys \<Longrightarrow> \<exists>v. xs = v @ ys \<and> jnumber v"
proof -
  assume "p_number xs = Some ys"
  then obtain a b where n: "p_int (if xs \<noteq> [] \<and> hd xs = 0x2D then tl xs else xs) = Some a" "p_frac a = Some b" "p_exp b = Some ys"
    by (auto simp: p_number_def bind_eq_Some_conv)
  define m where "m = (if xs \<noteq> [] \<and> hd xs = 0x2D then [0x2D] else [] :: bytes)"
  obtain i where i: "(if xs \<noteq> [] \<and> hd xs = 0x2D then tl xs else xs) = i @ a" "jint i" using int_sound [OF n(1)] by blast
  obtain f where f: "a = f @ b" "jfrac f" using frac_sound [OF n(2)] by blast
  obtain e where e: "b = e @ ys" "jexp e" using exp_sound [OF n(3)] by blast
  have "xs = (m @ i @ f @ e) @ ys" using i(1) f(1) e(1) by (cases xs) (auto simp: m_def split: if_split_asm)
  moreover have "m \<in> {[], [0x2D]}" by (simp add: m_def)
  then have "jnumber (m @ i @ f @ e)" unfolding jnumber_def using i(2) f(2) e(2) by blast
  ultimately show ?thesis by blast
qed

lemma exp_complete:
  assumes e: "jexp e" and y: "stops ys"
  shows "p_exp (e @ ys) = Some ys"
proof (cases "e = []")
  case True
  then show ?thesis using stops_char [OF y] by (auto simp: p_exp_def)
next
  case False
  then obtain x sign ds where v: "e = x # sign @ ds" "x \<in> {0x65, 0x45}" "sign \<in> {[], [0x2B], [0x2D]}" "jdigits ds" using e by (auto simp: jexp_def)
  have d: "p_digits (ds @ ys) = Some ys" using digits_complete [OF v(4)] stops_char [OF y] by blast
  have "is_digit (hd ds)" "ds \<noteq> []" using v(4) by (auto simp: jdigits_def list_all_iff)
  then have "hd ds \<notin> {0x2B, 0x2D}" by (auto simp: is_digit_def)
  then show ?thesis using v d \<open>ds \<noteq> []\<close> by (auto simp: p_exp_def)
qed

lemma exp_hd: "jexp e \<Longrightarrow> stops ys \<Longrightarrow> e @ ys \<noteq> [] \<Longrightarrow> \<not> is_digit (hd (e @ ys)) \<and> hd (e @ ys) \<noteq> 0x2E"
  using stops_char by (cases "e = []") (auto simp: jexp_def is_digit_def)

lemma frac_hd: "jfrac f \<Longrightarrow> jexp e \<Longrightarrow> stops ys \<Longrightarrow> f @ e @ ys \<noteq> [] \<Longrightarrow> \<not> is_digit (hd (f @ e @ ys))"
  using exp_hd [of e ys] by (cases "f = []") (auto simp: jfrac_def is_digit_def)

lemma number_complete:
  assumes n: "jnumber v" and y: "stops ys"
  shows "p_number (v @ ys) = Some ys"
proof -
  obtain m i f e where v: "v = m @ i @ f @ e" "m \<in> {[], [0x2D]}" "jint i" "jfrac f" "jexp e" using n by (auto simp: jnumber_def)
  have i: "i \<noteq> []" "is_digit (hd i)" using v(3) by (auto simp: jint_def jdigits_def list_all_iff is_digit_def)
  then have "hd i \<noteq> 0x2D" by (auto simp: is_digit_def)
  then have "(if v @ ys \<noteq> [] \<and> hd (v @ ys) = 0x2D then tl (v @ ys) else v @ ys) = i @ f @ e @ ys" using v(1,2) i(1) by auto
  moreover have "p_int (i @ f @ e @ ys) = Some (f @ e @ ys)"
    using v(3) digits_complete [of i "f @ e @ ys"] frac_hd [OF v(4,5) y] i(1) by (auto simp: jint_def p_int_def)
  moreover have "p_frac (f @ e @ ys) = Some (e @ ys)"
    using v(4) digits_complete [of "tl f" "e @ ys"] exp_hd [OF v(5) y] by (auto simp: jfrac_def p_frac_def)
  ultimately show ?thesis using exp_complete [OF v(5) y] by (simp add: p_number_def)
qed

lemma lit_eq_pos:
  assumes f: "fits s"
  shows "suffix xs s \<Longrightarrow> length lit \<le> length xs \<Longrightarrow> lit_eq s (pos s xs) lit = Some (prefix lit xs)"
proof (induction lit arbitrary: xs)
  case (Cons l ls)
  then obtain c ys where xs: "xs = c # ys" by (cases xs) auto
  then show ?case using Cons.IH [of ys] Cons.prems suffix_drops(1) [of c ys s] f by (auto simp: suf(2,3))
qed simp

lemma skip_lit_pos:
  assumes f: "fits s" and x: "suffix xs s" and l: "length lit \<le> 8"
  shows "skip_lit s (slen s) (pos s xs) lit = Some (map_option (pos s) (if prefix lit xs then Some (drop (length lit) xs) else None))"
proof -
  have "unat (slen s - pos s xs) = length xs"
    using suffix_len [OF x] pos_less [OF f x] unat_slen [OF f] unat_pos [OF f, of xs]
    by (subst unat_sub_small) (auto simp: word_le_nat_alt)
  moreover have "unat (of_nat (length lit) :: u32) = length lit" using l by (simp add: unat_of_nat take_bit_nat_eq_self)
  ultimately have lt: "slen s - pos s xs < of_nat (length lit) \<longleftrightarrow> length xs < length lit" by (simp add: word_less_nat_alt)
  show ?thesis
  proof (cases "length xs < length lit")
    case True
    then have "\<not> prefix lit xs" by (auto dest: prefix_length_le)
    then show ?thesis using True lt by (simp add: skip_lit_def)
  next
    case False
    have "pos s xs + of_nat (length lit) = pos s (drop (length lit) xs)"
      using pos_add [of "take (length lit) xs" "drop (length lit) xs" s] x False by simp
    then show ?thesis using False lt lit_eq_pos [OF f x, of lit] by (simp add: skip_lit_def)
  qed
qed

section \<open>Values\<close>

lemma passes_mono: "passes s r xs L \<Longrightarrow> (\<And>v. L v \<Longrightarrow> M v) \<Longrightarrow> passes s r xs M"
  unfolding passes_def by blast

lemma skip_lit_sound: "fits s \<Longrightarrow> suffix xs s \<Longrightarrow> length lit \<le> 8 \<Longrightarrow> passes s (skip_lit s (slen s) (pos s xs) lit) xs (\<lambda>v. v = lit)"
  by (rule passesI [OF skip_lit_pos]) (auto simp: prefix_def split: if_split_asm)

lemma skip_number_sound: "fits s \<Longrightarrow> suffix xs s \<Longrightarrow> passes s (skip_number s (slen s) (pos s xs)) xs jnumber"
  by (rule passesI [OF p_number_pos]) (auto dest: number_sound)

abbreviation jscalar :: "bytes \<Rightarrow> bool" where
  "jscalar v \<equiv> jstring v \<or> jnumber v \<or> v \<in> {JTRUE, JFALSE, JNULL}"

lemma skip_scalar_sound:
  assumes "fits s" and "suffix xs s"
  shows "passes s (skip_scalar c s (slen s) (pos s xs)) xs jscalar"
proof -
  have l: "passes s (skip_lit s (slen s) (pos s xs) lit) xs jscalar" if "lit \<in> {JTRUE, JFALSE, JNULL}" for lit
    using that by (intro passes_mono [OF skip_lit_sound [OF assms]]) auto
  have n: "passes s (skip_number s (slen s) (pos s xs)) xs jscalar" by (rule passes_mono [OF skip_number_sound [OF assms]]) simp
  have t: "passes s (skip_string s (slen s) (pos s xs)) xs jscalar" by (rule passes_mono [OF skip_string_sound [OF assms]]) simp
  have "passes s (Some None) xs jscalar" by (simp add: passes_def)
  then show ?thesis unfolding skip_scalar_def using l n t by simp
qed

lemma number_hd: "jnumber v \<Longrightarrow> v \<noteq> [] \<and> (hd v = 0x2D \<or> is_digit (hd v))"
proof -
  assume "jnumber v"
  then obtain m i f e where v: "v = m @ i @ f @ e" "m \<in> {[], [0x2D]}" "jint i" by (auto simp: jnumber_def)
  have "i \<noteq> []" "is_digit (hd i)" using v(3) by (auto simp: jint_def jdigits_def list_all_iff is_digit_def)
  then show ?thesis using v(1,2) by auto
qed

lemma scalar_complete:
  assumes f: "fits s" and x: "suffix (v @ ys) s" and v: "jscalar v" and y: "stops ys"
  shows "v \<noteq> [] \<and> hd v \<notin> {0x7B, 0x5B} \<and> skip_scalar (hd v) s (slen s) (pos s (v @ ys)) = Some (Some (pos s ys))"
proof -
  consider "jstring v" | "jnumber v" | "v = JTRUE" | "v = JFALSE" | "v = JNULL" using v by auto
  then show ?thesis
  proof cases
    case 1
    then have h: "v \<noteq> []" "hd v = 0x22" by (auto simp: jstring_def)
    then show ?thesis using skip_string_complete [OF f x 1] by (simp add: skip_scalar_def)
  next
    case 2
    have "hd v \<noteq> 0x22 \<and> hd v \<notin> {0x7B, 0x5B}" using number_hd [OF 2] by (auto simp: is_digit_def)
    then show ?thesis using number_hd [OF 2] p_number_pos [OF f x] number_complete [OF 2 y] by (auto simp: skip_scalar_def)
  qed (use skip_lit_pos [OF f x] in \<open>simp_all add: skip_scalar_def is_digit_def\<close>)
qed

lemma skip_key_sound:
  assumes f: "fits s" and x: "suffix xs s"
  shows "passes s (skip_key s (slen s) (pos s xs)) xs (jkey 0x7B)"
proof -
  obtain r where r: "skip_string s (slen s) (pos s xs) = Some r" "\<And>j. r = Some j \<Longrightarrow> \<exists>k ys. xs = k @ ys \<and> j = pos s ys \<and> jstring k"
    using skip_string_sound [OF assms] unfolding passes_def by blast
  show ?thesis
  proof (cases r)
    case None
    then show ?thesis using r(1) by (simp add: skip_key_def passes_def)
  next
    case (Some j)
    then obtain k ys where k: "xs = k @ ys" "j = pos s ys" "jstring k" using r(2) by blast
    have y: "suffix ys s" using x k(1) suffix_drops(2) by blast
    define zs where "zs = dropWhile is_ws ys"
    have z: "suffix zs s" using y by (simp add: zs_def suffix_dropWhile')
    have sk: "skip_key s (slen s) (pos s xs) = (if zs \<noteq> [] \<and> hd zs = 0x3A then Some (Some (pos s (dropWhile is_ws (tl zs)))) else Some None)"
      unfolding skip_key_def r(1) Some k(2)
      by (simp add: ws_pos [OF f y] zs_def [symmetric] at_pos [OF f z] pos_tl [OF z] ws_pos [OF f suffix_tl' [OF z]])
    have "\<exists>v us. xs = v @ us \<and> us = dropWhile is_ws (tl zs) \<and> jkey 0x7B v" if "zs \<noteq> [] \<and> hd zs = 0x3A"
    proof -
      have "ys = takeWhile is_ws ys @ [0x3A] @ takeWhile is_ws (tl zs) @ dropWhile is_ws (tl zs)"
        using that by (metis append.left_neutral append_Cons list.collapse takeWhile_dropWhile_id zs_def)
      moreover have "jkey 0x7B (k @ takeWhile is_ws ys @ [0x3A] @ takeWhile is_ws (tl zs))"
        using k(3) unfolding jkey_def by (auto simp: list_all_iff dest: set_takeWhileD)
      ultimately show ?thesis using k(1) by (metis append.assoc)
    qed
    then show ?thesis unfolding sk passes_def by auto
  qed
qed

lemma drop_space: "jspace w \<Longrightarrow> (ys \<noteq> [] \<Longrightarrow> \<not> is_ws (hd ys)) \<Longrightarrow> dropWhile is_ws (w @ ys) = ys"
  by (cases ys) (simp_all add: list_all_iff dropWhile_append2)

lemma stops_space: "jspace w \<Longrightarrow> c \<in> {0x2C, 0x5D, 0x7D} \<Longrightarrow> stops (w @ c # ys)"
  by (cases w) (auto simp: stops_def)

lemma key_complete:
  assumes f: "fits s" and x: "suffix (k @ ys) s" and k: "jkey 0x7B k" and y: "ys \<noteq> []" "\<not> is_ws (hd ys)"
  shows "skip_key s (slen s) (pos s (k @ ys)) = Some (Some (pos s ys))"
proof -
  obtain n w w' where n: "k = n @ w @ [0x3A] @ w'" "jstring n" "jspace w" "jspace w'" using k by (auto simp: jkey_def)
  define us where "us = [0x3A] @ w' @ ys"
  have x1: "suffix (n @ w @ us) s" using x by (simp add: n(1) us_def)
  then have x2: "suffix (w @ us) s" and x3: "suffix us s" using suffix_drops(2) by blast+
  have x4: "suffix (w' @ ys) s" using x3 suffix_drops(1) by (simp add: us_def)
  have d: "dropWhile is_ws (w @ us) = us" by (rule drop_space [OF n(3)]) (simp add: us_def is_ws_def)
  have "skip_string s (slen s) (pos s (n @ w @ us)) = Some (Some (pos s (w @ us)))" by (rule skip_string_complete [OF f x1 n(2)])
  moreover have "at s (slen s) (pos s us) [0x3A] = Some True" "pos s us + 1 = pos s (w' @ ys)"
    using at_pos [OF f x3] pos_tl [OF x3] by (simp_all add: us_def)
  moreover have "dropWhile is_ws (w' @ ys) = ys" using y by (intro drop_space [OF n(4)])
  moreover have "k @ ys = n @ w @ us" by (simp add: n(1) us_def)
  ultimately show ?thesis by (simp add: skip_key_def ws_pos [OF f x2] d ws_pos [OF f x4])
qed

lemma not_space: "c \<in> {0x22, 0x2D, 0x74, 0x66, 0x6E, 0x7B, 0x5B} \<or> is_digit c \<Longrightarrow> \<not> is_ws c \<and> c \<notin> {0x2C, 0x5D, 0x7D}"
  by (auto simp: is_ws_def is_digit_def)

lemma jval_hd: "jval n v \<Longrightarrow> v \<noteq> [] \<and> \<not> is_ws (hd v) \<and> hd v \<notin> {0x2C, 0x5D, 0x7D}"
proof (induction rule: jval.cases)
  case (scalar v n)
  consider "jstring v" | "jnumber v" | "v \<in> {JTRUE, JFALSE, JNULL}" using scalar by auto
  then have "v \<noteq> [] \<and> (hd v \<in> {0x22, 0x2D, 0x74, 0x66, 0x6E, 0x7B, 0x5B} \<or> is_digit (hd v))"
  proof cases
    case 2
    then show ?thesis using number_hd by blast
  qed (auto simp: jstring_def)
  then show ?thesis using not_space scalar by blast
qed (auto simp: is_ws_def)

lemma jbody_hd:
  assumes "jbody c n v" and "c \<in> {0x7B, 0x5B}"
  shows "v \<noteq> [] \<and> \<not> is_ws (hd v) \<and> hd v \<noteq> jclose c"
proof -
  obtain k u r where v: "v = k @ u @ r" "jkey c k" "jval n u" using assms(1) by (cases rule: jbody.cases) auto
  show ?thesis
  proof (cases "c = 0x7B")
    case True
    then have "k \<noteq> []" "hd k = 0x22" using v(2) by (auto simp: jkey_def jstring_def)
    then show ?thesis using v(1) True by (simp add: jclose_def is_ws_def)
  next
    case False
    then show ?thesis using v jval_hd [OF v(3)] by (simp add: jkey_def jclose_def)
  qed
qed

lemma jclose_in: "jclose c \<in> {0x5D, 0x7D}"
  by (simp add: jclose_def)

text \<open>The code passes every value of the grammar that is not nested too deeply.\<close>

lemma value_container:
  assumes f: "fits s" and x: "suffix (c # xs) s" and c: "c \<in> {0x7B, 0x5B}" and d: "d < JSON_DEPTH_MAX"
    and ys: "ys = dropWhile is_ws xs"
  shows "json_skip J_value s (slen s) (pos s (c # xs)) d = (if ys \<noteq> [] \<and> hd ys = jclose c then Some (Some (pos s (tl ys)))
     else json_skip (J_loop c) s (slen s) (pos s ys) d)"
proof -
  define i where "i = pos s (c # xs)"
  note x1 = suffix_drops(1) [OF x]
  have y: "suffix ys s" unfolding ys by (rule suffix_dropWhile' [OF x1])
  have i: "\<not> slen s \<le> i" "ch s i = Some c" "i + 1 = pos s xs" using f x by (simp_all add: i_def suf(1-3) not_le)
  have a: "at s (slen s) (pos s ys) [jclose c] = Some (ys \<noteq> [] \<and> hd ys = jclose c)" by (simp add: at_pos [OF f y])
  have n: "(c \<noteq> 0x7B \<and> c \<noteq> 0x5B) = False" "(JSON_DEPTH_MAX \<le> d) = False" using c d by auto
  have "json_skip J_value s (slen s) i d = (if ys \<noteq> [] \<and> hd ys = jclose c then Some (Some (pos s ys + 1))
     else json_skip (J_loop c) s (slen s) (pos s ys) d)"
    by (subst json_skip.simps) (simp only: jpos.case i n a ws_pos [OF f x1] ys [symmetric] if_False Option.bind.bind_lunit)
  then show ?thesis using pos_tl [OF y] by (simp add: i_def)
qed

lemma loop_step:
  assumes f: "fits s" and k: "(if c = 0x7B then skip_key s (slen s) i else Some (Some i)) = Some (Some j)"
    and v: "json_skip J_value s (slen s) j (d + 1) = Some (Some (pos s ys))" and y: "suffix ys s" and zs: "zs = dropWhile is_ws ys"
  shows "json_skip (J_loop c) s (slen s) i d = (if zs = [] then Some None else if hd zs = jclose c then Some (Some (pos s (tl zs)))
     else if hd zs \<noteq> 0x2C then Some None else json_skip (J_loop c) s (slen s) (pos s (dropWhile is_ws (tl zs))) d)"
proof -
  have z: "suffix zs s" unfolding zs by (rule suffix_dropWhile' [OF y])
  have "ch s (pos s zs) = Some (hd zs)" if "zs \<noteq> []" using that pos_ch [OF f, of "hd zs" "tl zs"] z by simp
  then show ?thesis by (subst json_skip.simps)
    (simp add: k v ws_pos [OF f y] zs [symmetric] not_less [symmetric] pos_less [OF f z] pos_tl [OF z] ws_pos [OF f suffix_tl' [OF z]])
qed

lemma depth_less: "unat d + Suc n \<le> 32 \<Longrightarrow> d < JSON_DEPTH_MAX \<and> unat (d + 1) = unat d + 1"
  by (auto simp: word_less_nat_alt unat_word_ariths)

lemma loop_complete:
  assumes f: "fits s" and x: "suffix (k @ v @ w @ e # ys) s" and k: "jkey c k" and v: "jval n v" and w: "jspace w"
    and e: "e \<in> {0x2C, jclose c}"
    and IH: "\<And>ys. suffix (v @ ys) s \<Longrightarrow> stops ys \<Longrightarrow> json_skip J_value s (slen s) (pos s (v @ ys)) (d + 1) = Some (Some (pos s ys))"
  shows "json_skip (J_loop c) s (slen s) (pos s (k @ v @ w @ e # ys)) d =
    (if e = jclose c then Some (Some (pos s ys)) else json_skip (J_loop c) s (slen s) (pos s (dropWhile is_ws ys)) d)"
proof -
  note h = jval_hd [OF v]
  have e': "e \<in> {0x2C, 0x5D, 0x7D}" using e jclose_in [of c] by auto
  have x1: "suffix (v @ w @ e # ys) s" and x2: "suffix (w @ e # ys) s" using x suffix_drops(2) by blast+
  have kk: "(if c = 0x7B then skip_key s (slen s) (pos s (k @ v @ w @ e # ys)) else Some (Some (pos s (k @ v @ w @ e # ys))))
     = Some (Some (pos s (v @ w @ e # ys)))"
    using key_complete [OF f x] k h by (auto simp: jkey_def)
  have vv: "json_skip J_value s (slen s) (pos s (v @ w @ e # ys)) (d + 1) = Some (Some (pos s (w @ e # ys)))"
    by (rule IH [OF x1 stops_space [OF w e']])
  have d: "dropWhile is_ws (w @ e # ys) = e # ys" by (rule drop_space [OF w]) (use e' in \<open>auto simp: is_ws_def\<close>)
  show ?thesis using e unfolding loop_step [OF f kk vv x2 d [symmetric]] by auto
qed

lemma skip_complete:
  "jval n v \<Longrightarrow> fits s \<Longrightarrow> suffix (v @ ys) s \<Longrightarrow> stops ys \<Longrightarrow> unat d + n \<le> 32
     \<Longrightarrow> json_skip J_value s (slen s) (pos s (v @ ys)) d = Some (Some (pos s ys))"
  "jbody c n v \<Longrightarrow> fits s \<Longrightarrow> suffix (v @ ys) s \<Longrightarrow> c \<in> {0x7B, 0x5B} \<Longrightarrow> unat d + Suc n \<le> 32
     \<Longrightarrow> json_skip (J_loop c) s (slen s) (pos s (v @ ys)) d = Some (Some (pos s ys))"
proof (induction arbitrary: s ys d and s ys d rule: jval_jbody.inducts)
  case (scalar v n)
  note h = scalar_complete [OF scalar.prems(1,2) scalar.hyps scalar.prems(3)]
  define i where "i = pos s (v @ ys)"
  have "v @ ys = hd v # tl v @ ys" using h by (metis append_Cons list.collapse)
  then have "i < slen s" "ch s i = Some (hd v)" using scalar.prems(1,2) by (metis i_def pos_less list.distinct(1), metis i_def pos_ch)
  then have "json_skip J_value s (slen s) i d = skip_scalar (hd v) s (slen s) i" using h by (subst json_skip.simps) (simp add: not_less [symmetric])
  then show ?case using h by (simp add: i_def)
next
  case (empty c w n)
  have "dropWhile is_ws (w @ jclose c # ys) = jclose c # ys" using empty.hyps(2) jclose_in [of c] by (intro drop_space) (auto simp: is_ws_def)
  then show ?case using value_container [OF empty.prems(1) _ empty.hyps(1), of "w @ jclose c # ys" d] empty.prems(2) depth_less [OF empty.prems(4)] by simp
next
  case (container c w n v)
  have "dropWhile is_ws (w @ v @ ys) = v @ ys" using jbody_hd [OF container.hyps(3,1)] by (intro drop_space [OF container.hyps(2)]) simp
  moreover have "suffix (v @ ys) s" using container.prems(2) suffix_drops(2) [of "c # w"] by simp
  ultimately show ?case using value_container [OF container.prems(1) _ container.hyps(1), of "w @ v @ ys" d] container.prems depth_less [OF container.prems(4)]
      container.IH [of s ys d] container.hyps(1) jbody_hd [OF container.hyps(3,1)] by simp
next
  case (last c k n v w)
  note d = depth_less [OF last.prems(4)]
  have "json_skip J_value s (slen s) (pos s (v @ ys)) (d + 1) = Some (Some (pos s ys))" if "suffix (v @ ys) s" "stops ys" for ys
    using last.IH [of s ys "d + 1"] that d last.prems by simp
  then show ?case using loop_complete [OF last.prems(1) _ last.hyps(1,2,3), of "jclose c" ys d] last.prems(2) by simp
next
  case (more c k n v w w' xs)
  note d = depth_less [OF more.prems(4)]
  have v: "json_skip J_value s (slen s) (pos s (v @ ys)) (d + 1) = Some (Some (pos s ys))" if "suffix (v @ ys) s" "stops ys" for ys
    using more.IH(1) [of s ys "d + 1"] that d more.prems by simp
  have "dropWhile is_ws (w' @ xs @ ys) = xs @ ys" using jbody_hd [OF more.hyps(5) more.prems(3)] by (intro drop_space [OF more.hyps(4)]) simp
  moreover have "suffix (xs @ ys) s" using more.prems(2) suffix_drops(2) [of "k @ v @ w @ 0x2C # w'"] by simp
  ultimately show ?case using loop_complete [OF more.prems(1) _ more.hyps(1,2,3), of "0x2C" "w' @ xs @ ys" d] v more.prems more.IH(2) [of s ys d] jclose_in [of c] by auto
qed

text \<open>The code returns at every position and passes only values of the grammar.\<close>

definition jgram :: "jpos \<Rightarrow> nat \<Rightarrow> bytes \<Rightarrow> bool" where
  "jgram m n v = (case m of J_value \<Rightarrow> jval n v | J_loop c \<Rightarrow> (\<exists>n'. n = Suc n' \<and> jbody c n' v))"

lemma jgram_simps: "jgram J_value n = jval n" "jgram (J_loop c) (Suc n) = jbody c n"
  by (auto simp: jgram_def fun_eq_iff)

lemma passes_fail: "r = Some None \<Longrightarrow> passes s r xs L"
  by (simp add: passes_def)

lemma passes_from:
  assumes "passes s r ys L" and "xs = u @ ys" and "\<And>v. L v \<Longrightarrow> M (u @ v)"
  shows "passes s r xs M"
  using assms unfolding passes_def by (metis append.assoc)

lemma value_sound:
  assumes f: "fits s" and x: "suffix xs s" and d: "unat d \<le> 32"
    and IH: "\<And>ys c. length ys < length xs \<Longrightarrow> suffix ys s \<Longrightarrow> d < JSON_DEPTH_MAX \<Longrightarrow> c \<in> {0x7B, 0x5B}
       \<Longrightarrow> passes s (json_skip (J_loop c) s (slen s) (pos s ys) d) ys (jgram (J_loop c) (32 - unat d))"
  shows "passes s (json_skip J_value s (slen s) (pos s xs) d) xs (jval (32 - unat d))"
proof (cases xs)
  case Nil
  have "json_skip J_value s (slen s) (pos s xs) d = Some None" by (subst json_skip.simps) (simp add: Nil pos_nil)
  then show ?thesis by (rule passes_fail)
next
  case (Cons c zs)
  define i where "i = pos s xs"
  have i: "\<not> slen s \<le> i" "ch s i = Some c" using f x by (simp_all add: i_def Cons suf(1,2) not_le)
  show ?thesis
  proof (cases "c \<in> {0x7B, 0x5B}")
    case False
    then have "json_skip J_value s (slen s) i d = skip_scalar c s (slen s) i" by (subst json_skip.simps) (simp add: i)
    then show ?thesis using passes_mono [OF skip_scalar_sound [OF f x]] jval_jbody.scalar unfolding i_def by metis
  next
    case c: True
    show ?thesis
    proof (cases "d < JSON_DEPTH_MAX")
      case False
      then have "json_skip J_value s (slen s) i d = Some None" using c by (subst json_skip.simps) (auto simp: i not_less)
      then show ?thesis unfolding i_def by (rule passes_fail)
    next
      case True
      define ys where "ys = dropWhile is_ws zs"
      define w where "w = takeWhile is_ws zs"
      have w: "jspace w" "zs = w @ ys" by (auto simp: w_def ys_def list_all_iff dest: set_takeWhileD)
      have y: "suffix ys s" using x suffix_drops(2) [of "c # w" ys s] by (simp add: Cons w(2))
      have "unat d < 32" using True by (simp add: word_less_nat_alt)
      then obtain n where n: "32 - unat d = Suc n" by (metis Suc_diff_Suc)
      have e: "json_skip J_value s (slen s) (pos s xs) d = (if ys \<noteq> [] \<and> hd ys = jclose c then Some (Some (pos s (tl ys)))
          else json_skip (J_loop c) s (slen s) (pos s ys) d)"
        using value_container [OF f _ c True, of zs ys] x by (simp add: Cons ys_def)
      show ?thesis
      proof (cases "ys \<noteq> [] \<and> hd ys = jclose c")
        case True
        then have "xs = (c # w @ [jclose c]) @ tl ys" using Cons w(2) by (cases ys) auto
        moreover have "jval (32 - unat d) (c # w @ [jclose c])" unfolding n by (rule jval_jbody.empty [OF c w(1)])
        ultimately show ?thesis using e True unfolding passes_def by (metis option.inject)
      next
        case False
        have "passes s (json_skip (J_loop c) s (slen s) (pos s ys) d) ys (jgram (J_loop c) (32 - unat d))"
          using IH [OF _ y True c] Cons w(2) by simp
        then show ?thesis unfolding e if_not_P [OF False]
          by (rule passes_from [where u = "c # w"]) (use Cons w c jval_jbody.container in \<open>auto simp: jgram_def\<close>)
      qed
    qed
  qed
qed

lemma loop_sound:
  assumes f: "fits s" and x: "suffix xs s" and c: "c \<in> {0x7B, 0x5B}" and d: "unat d + Suc n = 32"
    and IHv: "\<And>ys. length ys \<le> length xs \<Longrightarrow> suffix ys s \<Longrightarrow> passes s (json_skip J_value s (slen s) (pos s ys) (d + 1)) ys (jval n)"
    and IHl: "\<And>ys. length ys < length xs \<Longrightarrow> suffix ys s \<Longrightarrow> passes s (json_skip (J_loop c) s (slen s) (pos s ys) d) ys (jbody c n)"
  shows "passes s (json_skip (J_loop c) s (slen s) (pos s xs) d) xs (jbody c n)"
proof -
  obtain r where r: "(if c = 0x7B then skip_key s (slen s) (pos s xs) else Some (Some (pos s xs))) = Some r"
    and r': "\<And>j. r = Some j \<Longrightarrow> \<exists>k ys. xs = k @ ys \<and> j = pos s ys \<and> jkey c k"
    using skip_key_sound [OF f x] unfolding passes_def jkey_def by (cases "c = 0x7B") auto
  show ?thesis
  proof (cases r)
    case None
    then show ?thesis using r by (intro passes_fail) (subst json_skip.simps, simp)
  next
    case (Some j)
    then obtain k ys where k: "xs = k @ ys" "j = pos s ys" "jkey c k" using r' by blast
    have y: "suffix ys s" using x k(1) suffix_drops(2) by blast
    obtain q where q: "json_skip J_value s (slen s) (pos s ys) (d + 1) = Some q"
      and q': "\<And>j. q = Some j \<Longrightarrow> \<exists>v us. ys = v @ us \<and> j = pos s us \<and> jval n v"
      using IHv [OF _ y] k(1) unfolding passes_def by auto
    show ?thesis
    proof (cases q)
      case None
      then show ?thesis using r Some k(2) q by (intro passes_fail) (subst json_skip.simps, simp)
    next
      case (Some m)
      then obtain v us where v: "ys = v @ us" "m = pos s us" "jval n v" using q' by blast
      have u: "suffix us s" using y v(1) suffix_drops(2) by blast
      define w zs where "w = takeWhile is_ws us" and "zs = dropWhile is_ws us"
      have w: "jspace w" "us = w @ zs" by (auto simp: w_def zs_def list_all_iff dest: set_takeWhileD)
      have st: "json_skip (J_loop c) s (slen s) (pos s xs) d = (if zs = [] then Some None else if hd zs = jclose c then Some (Some (pos s (tl zs)))
          else if hd zs \<noteq> 0x2C then Some None else json_skip (J_loop c) s (slen s) (pos s (dropWhile is_ws (tl zs))) d)"
        using loop_step [OF f _ _ u zs_def, of c "pos s xs" "pos s ys" d] r \<open>r = Some j\<close> k(2) q Some v(2) by simp
      consider "zs = [] \<or> hd zs \<noteq> jclose c \<and> hd zs \<noteq> 0x2C" | "zs \<noteq> []" "hd zs = jclose c" | "zs \<noteq> []" "hd zs \<noteq> jclose c" "hd zs = 0x2C" by blast
      then show ?thesis
      proof cases
        case 1
        then show ?thesis using st by (intro passes_fail) auto
      next
        case 2
        have "xs = (k @ v @ w @ [jclose c]) @ tl zs" using k(1) v(1) w(2) 2 by (cases zs) auto
        moreover have "jbody c n (k @ v @ w @ [jclose c])" by (rule jval_jbody.last [OF k(3) v(3) w(1)])
        ultimately show ?thesis using st 2 unfolding passes_def by (metis option.inject)
      next
        case 3
        define w' where "w' = takeWhile is_ws (tl zs)"
        have w': "jspace w'" "zs = 0x2C # w' @ dropWhile is_ws (tl zs)"
          using 3 by (auto simp: w'_def list_all_iff dest: set_takeWhileD) (metis list.collapse)
        define us' where "us' = dropWhile is_ws (tl zs)"
        have xs: "xs = (k @ v @ w @ [0x2C] @ w') @ us'" using k(1) v(1) w(2) w'(2) unfolding us'_def by (metis append.assoc append_Cons append_Nil)
        then have "suffix us' s" "length us' < length xs" using x suffix_drops(2) by (metis, auto)
        then have p: "passes s (json_skip (J_loop c) s (slen s) (pos s us') d) us' (jbody c n)" by (intro IHl)
        have "json_skip (J_loop c) s (slen s) (pos s xs) d = json_skip (J_loop c) s (slen s) (pos s us') d" using st 3 by (simp add: us'_def)
        then show ?thesis using passes_from [OF p xs] jval_jbody.more [OF k(3) v(3) w(1) w'(1)] by simp
      qed
    qed
  qed
qed

lemma skip_sound:
  assumes f: "fits s"
  shows "suffix xs s \<Longrightarrow> (case m of J_value \<Rightarrow> unat d \<le> 32 | J_loop c \<Rightarrow> c \<in> {0x7B, 0x5B} \<and> d < JSON_DEPTH_MAX)
    \<Longrightarrow> passes s (json_skip m s (slen s) (pos s xs) d) xs (jgram m (32 - unat d))"
proof (induction "2 * length xs + (case m of J_value \<Rightarrow> 0 | J_loop c \<Rightarrow> 1)" arbitrary: m xs d rule: less_induct)
  case less
  show ?case
  proof (cases m)
    case J_value
    have "passes s (json_skip J_value s (slen s) (pos s xs) d) xs (jval (32 - unat d))"
    proof (rule value_sound [OF f less.prems(1)])
      show "unat d \<le> 32" using less.prems(2) J_value by simp
      show "passes s (json_skip (J_loop c) s (slen s) (pos s ys) d) ys (jgram (J_loop c) (32 - unat d))"
        if "length ys < length xs" "suffix ys s" "d < JSON_DEPTH_MAX" "c \<in> {0x7B, 0x5B}" for ys c
        using less.hyps [of ys "J_loop c" d] that J_value by simp
    qed
    then show ?thesis using J_value by (simp add: jgram_simps)
  next
    case (J_loop c)
    then have d: "d < JSON_DEPTH_MAX" and c: "c \<in> {0x7B, 0x5B}" using less.prems(2) by simp_all
    have "unat d < 32" using d by (simp add: word_less_nat_alt)
    then obtain n where n: "unat d + Suc n = 32" by (metis add_Suc_right less_imp_Suc_add)
    then have n': "32 - unat d = Suc n" "unat (d + 1) = unat d + 1" "32 - unat (d + 1) = n" using depth_less [of d n] by auto
    have "passes s (json_skip (J_loop c) s (slen s) (pos s xs) d) xs (jbody c n)"
    proof (rule loop_sound [OF f less.prems(1) c n])
      show "passes s (json_skip J_value s (slen s) (pos s ys) (d + 1)) ys (jval n)" if "length ys \<le> length xs" "suffix ys s" for ys
        using less.hyps [of ys J_value "d + 1"] that n n' J_loop by (simp add: jgram_simps)
      show "passes s (json_skip (J_loop c) s (slen s) (pos s ys) d) ys (jbody c n)" if "length ys < length xs" "suffix ys s" for ys
        using less.hyps [of ys "J_loop c" d] that n' J_loop d c by (simp add: jgram_simps)
    qed
    then show ?thesis using J_loop n' by (simp add: jgram_simps)
  qed
qed

text \<open>
  C28. The reader accepts exactly JSON. For every text of a length below 4 GiB the check of a JSON text
  returns without reading outside the text, and accepts it exactly when it is one value of the grammar with
  at most 32 nested containers, surrounded by white space.
\<close>

theorem json_valid_exact:
  assumes "length s + 8 < 2 ^ 32"
  shows "json_valid s (of_nat (length s)) = Some (\<exists>w v w'. s = w @ v @ w' \<and> jspace w \<and> jval 32 v \<and> jspace w')"
proof -
  have f: "fits s" using assms by (simp add: fits_def)
  define w xs where "w = takeWhile is_ws s" and "xs = dropWhile is_ws s"
  have w: "jspace w" "s = w @ xs" by (auto simp: w_def xs_def list_all_iff dest: set_takeWhileD)
  have x: "suffix xs s" unfolding w(2) by (rule suffixI) simp
  have ws0: "ws s (slen s) 0 = Some (pos s xs)" using ws_pos [OF f, of s] by (simp add: pos_nil xs_def)
  obtain r where r: "skip_value s (slen s) (pos s xs) 0 = Some r"
    and r': "\<And>j. r = Some j \<Longrightarrow> \<exists>v ys. xs = v @ ys \<and> j = pos s ys \<and> jval 32 v"
    using skip_sound [OF f x, where m = J_value and d = 0] unfolding skip_value_def passes_def by (auto simp: jgram_simps)
  have acc: "json_valid s (slen s) = Some (\<exists>ys. r = Some (pos s ys) \<and> suffix ys s \<and> jspace ys)"
  proof (cases r)
    case None
    then show ?thesis using r ws0 by (simp add: json_valid_def)
  next
    case (Some j)
    then obtain v ys where v: "xs = v @ ys" "j = pos s ys" using r' by blast
    have y: "suffix ys s" using x v(1) suffix_drops(2) by blast
    have "json_valid s (slen s) = Some (pos s (dropWhile is_ws ys) = slen s)" using r Some ws0 v(2) by (simp add: json_valid_def ws_pos [OF f y])
    moreover have "pos s (dropWhile is_ws ys) = slen s \<longleftrightarrow> dropWhile is_ws ys = []"
      using pos_inj [OF f suffix_dropWhile' [OF y], of "[]"] by (simp add: pos_nil)
    moreover have "dropWhile is_ws ys = [] \<longleftrightarrow> jspace ys" by (simp add: list_all_iff)
    moreover have "(\<exists>zs. r = Some (pos s zs) \<and> suffix zs s \<and> jspace zs) \<longleftrightarrow> jspace ys"
      unfolding Some v(2) using pos_inj [OF f _ y] y by (metis option.inject)
    ultimately show ?thesis by simp
  qed
  have "(\<exists>ys. r = Some (pos s ys) \<and> suffix ys s \<and> jspace ys) \<longleftrightarrow> (\<exists>w v w'. s = w @ v @ w' \<and> jspace w \<and> jval 32 v \<and> jspace w')"
  proof
    assume "\<exists>ys. r = Some (pos s ys) \<and> suffix ys s \<and> jspace ys"
    then obtain ys where ys: "r = Some (pos s ys)" "suffix ys s" "jspace ys" by blast
    then obtain v zs where v: "xs = v @ zs" "pos s ys = pos s zs" "jval 32 v" using r' by blast
    have "zs = ys" using v(1,2) ys(2) pos_inj [OF f ys(2)] x suffix_drops(2) by metis
    then show "\<exists>w v w'. s = w @ v @ w' \<and> jspace w \<and> jval 32 v \<and> jspace w'" using v w ys(3) by blast
  next
    assume "\<exists>w v w'. s = w @ v @ w' \<and> jspace w \<and> jval 32 v \<and> jspace w'"
    then obtain w0 v w1 where v: "s = w0 @ v @ w1" "jspace w0" "jval 32 v" "jspace w1" by blast
    have xs: "xs = v @ w1" unfolding xs_def v(1) using jval_hd [OF v(3)] by (intro drop_space [OF v(2)]) simp
    have "stops w1" using v(4) by (cases w1) (auto simp: stops_def)
    then have "r = Some (pos s w1)" using skip_complete(1) [OF v(3) f, of w1 0] x r unfolding xs skip_value_def by simp
    then show "\<exists>ys. r = Some (pos s ys) \<and> suffix ys s \<and> jspace ys" using v(4) x suffix_drops(2) xs by blast
  qed
  then show ?thesis using acc by (simp add: slen_def)
qed

lemma list_value: "jval 32 [0x5B, 0x31, 0x5D]"
proof -
  have "jint [0x31]" by (simp add: jint_def jdigits_def is_digit_def)
  then have "jnumber [0x31]" unfolding jnumber_def
    by (intro exI [of _ "[]"] exI [of _ "[0x31]"]) (simp add: jfrac_def jexp_def)
  then have v: "jval 31 [0x31]" by (simp add: jval_jbody.scalar)
  have "jbody 0x5B 31 ([] @ [0x31] @ [] @ [jclose 0x5B])" by (rule jval_jbody.last [OF _ v]) (simp_all add: jkey_def)
  then have "jval (Suc 31) (0x5B # [] @ [] @ [0x31] @ [] @ [jclose 0x5B])" by (intro jval_jbody.container) simp_all
  then show ?thesis by (simp add: jclose_def)
qed

theorem json_valid_exact_witness: "json_valid [0x5B, 0x31, 0x5D] 3 = Some True"
proof -
  have "\<exists>w v w'. [0x5B, 0x31, 0x5D] = w @ v @ w' \<and> jspace w \<and> jval 32 v \<and> jspace w'"
    using list_value by (intro exI [of _ "[]"] exI [of _ "[0x5B, 0x31, 0x5D]"]) simp
  then show ?thesis using json_valid_exact [of "[0x5B, 0x31, 0x5D]"] by simp
qed

end
