(* ===== verification/Json_Text.thy ===== *)
theory Json_Text
  imports Json_Exact
begin

text \<open>
  The JSON writer: what it leaves in its buffer, and that the reader decodes a written string to the bytes
  that were written, with invalid UTF-8 replaced by U+FFFD.
\<close>

section \<open>The buffer of the writer\<close>

definition jw_inv :: "jw \<Rightarrow> bool" where
  "jw_inv w \<longleftrightarrow> length (jw_p w) = unat (jw_cap w) \<and> jw_len w < jw_cap w"

definition jw_text :: "jw \<Rightarrow> bytes" where
  "jw_text w = take (unat (jw_len w)) (jw_p w)"

lemma jw_copy_spec:
  assumes "unat len + i + length s \<le> length p" and "length p < 2 ^ 32"
  shows "jw_copy p len i s = Some (take (unat len + i) p @ s @ drop (unat len + i + length s) p)"
  using assms
proof (induction s arbitrary: i p)
  case (Cons c cs)
  have "unat (len + of_nat i) = unat len + i"
    using Cons.prems by (subst unat_add_small) (simp_all add: unat_of_nat take_bit_nat_eq_self)
  then have p: "poke p (unat (len + of_nat i)) c = Some (p[unat len + i := c])" using Cons.prems by (simp add: poke_def)
  have "take (unat len + Suc i) (p[unat len + i := c]) = take (unat len + i) p @ [c]"
    using Cons.prems by (simp add: take_Suc_conv_app_nth)
  then show ?case using Cons.IH [of "Suc i" "p[unat len + i := c]"] Cons.prems by (simp add: p)
qed simp

lemma jw_raw_spec:
  assumes w: "jw_inv w" and o: "\<not> jw_overflow w" and s: "unat (jw_len w) + length s < unat (jw_cap w)"
  shows "\<exists>w'. jw_raw w s = Some w' \<and> jw_inv w' \<and> \<not> jw_overflow w' \<and> jw_text w' = jw_text w @ s \<and> jw_cap w' = jw_cap w"
proof -
  define n :: u32 where "n = of_nat (length s)"
  have c: "unat (jw_cap w) < 2 ^ 32" using unat_u32_less [of "jw_cap w"] by simp
  have n: "unat n = length s" using s c by (simp add: n_def unat_of_nat take_bit_nat_eq_self)
  have l: "unat (jw_len w) < unat (jw_cap w)" using w by (simp add: jw_inv_def word_less_nat_alt)
  have d: "unat (jw_cap w - jw_len w) = unat (jw_cap w) - unat (jw_len w)" using l by (intro unat_sub_small) (simp add: word_le_nat_alt)
  have "unat (jw_cap w - jw_len w - n) = unat (jw_cap w) - unat (jw_len w) - length s"
    using s d n by (subst unat_sub_small) (simp_all add: word_le_nat_alt)
  then have g: "\<not> (jw_overflow w \<or> n > jw_cap w - jw_len w \<or> jw_cap w - jw_len w - n < 1)"
    using s o d n by (simp add: word_less_nat_alt)
  have a: "unat (jw_len w + n) = unat (jw_len w) + length s" using s c n by (subst unat_add_small) simp_all
  define p where "p = take (unat (jw_len w)) (jw_p w) @ s @ drop (unat (jw_len w) + length s) (jw_p w)"
  have cp: "jw_copy (jw_p w) (jw_len w) 0 s = Some p"
    using jw_copy_spec [of "jw_len w" 0 s "jw_p w"] s c w by (simp add: p_def jw_inv_def)
  have lp: "length p = unat (jw_cap w)" using s w by (simp add: p_def jw_inv_def)
  have r: "jw_raw w s = Some (w\<lparr>jw_p := p[unat (jw_len w) + length s := 0], jw_len := jw_len w + n\<rparr>)"
    using g cp lp s a unfolding jw_raw_def Let_def n_def [symmetric] by (simp add: poke_def)
  have "take (unat (jw_len w) + length s) p = jw_text w @ s" using w s by (simp add: p_def jw_text_def jw_inv_def)
  then show ?thesis unfolding r using lp a s o by (simp add: jw_inv_def jw_text_def word_less_nat_alt)
qed

lemma jw_init_spec:
  assumes "length mem = unat cap" and "0 < cap"
  shows "\<exists>w. jw_init mem cap = Some w \<and> jw_inv w \<and> \<not> jw_overflow w \<and> jw_text w = [] \<and> jw_cap w = cap"
  using assms by (auto simp: jw_init_def poke_def jw_inv_def jw_text_def word_less_nat_alt)

section \<open>String literals\<close>

text \<open>The text of a string between its quotes.\<close>

function esc_all :: "bytes \<Rightarrow> bytes" where
  "esc_all s = (if s = [] then [] else fst (jw_esc s) @ esc_all (drop (snd (jw_esc s)) s))"
  by pat_completeness auto
termination by (relation "measure length") (simp_all add: jw_esc_pos)

declare esc_all.simps [simp del]

lemma jw_esc_length: "s \<noteq> [] \<Longrightarrow> length (fst (jw_esc s)) \<le> 6 * snd (jw_esc s) \<and> snd (jw_esc s) \<le> length s"
  using utf8_seq_bounds [of s] by (cases s) (auto simp: jw_esc_def Let_def)

lemma esc_all_length: "length (esc_all s) \<le> 6 * length s"
proof (induction s rule: esc_all.induct)
  case (1 s)
  then show ?case using jw_esc_length [of s] by (subst esc_all.simps) auto
qed

lemma jw_str_loop_spec:
  assumes "jw_inv w" and "\<not> jw_overflow w" and "unat (jw_len w) + length (esc_all s) < unat (jw_cap w)"
  shows "\<exists>w'. jw_str_loop w s = Some w' \<and> jw_inv w' \<and> \<not> jw_overflow w' \<and> jw_text w' = jw_text w @ esc_all s \<and> jw_cap w' = jw_cap w"
  using assms
proof (induction s arbitrary: w rule: esc_all.induct)
  case (1 s)
  show ?case
  proof (cases "s = []")
    case True
    then show ?thesis using 1(2-4) by (subst jw_str_loop.simps) (simp add: esc_all.simps)
  next
    case False
    have e: "esc_all s = fst (jw_esc s) @ esc_all (drop (snd (jw_esc s)) s)" using False by (subst esc_all.simps) simp
    obtain w1 where w1: "jw_raw w (fst (jw_esc s)) = Some w1" "jw_inv w1" "\<not> jw_overflow w1" "jw_text w1 = jw_text w @ fst (jw_esc s)" "jw_cap w1 = jw_cap w"
      using jw_raw_spec [OF 1(2,3), of "fst (jw_esc s)"] 1(4) e by auto
    have "length (jw_text w1) = unat (jw_len w1)" "length (jw_text w) = unat (jw_len w)"
      using w1(2) 1(2) by (simp_all add: jw_text_def jw_inv_def word_less_nat_alt)
    then have "unat (jw_len w1) + length (esc_all (drop (snd (jw_esc s)) s)) < unat (jw_cap w1)" using 1(4) e w1(4,5) by simp
    then show ?thesis using 1(1) [OF False w1(2,3)] w1 False 1(3) e by (subst jw_str_loop.simps) auto
  qed
qed

section \<open>Decoding\<close>

text \<open>The first character of a byte string, with an invalid byte as U+FFFD, and the bytes it takes.\<close>

definition utf8_unit :: "bytes \<Rightarrow> bytes" where
  "utf8_unit s = (if utf8_seq s = 0 then [0xEF, 0xBF, 0xBD] else take (utf8_seq s) s)"

function utf8_repair :: "bytes \<Rightarrow> bytes" where
  "utf8_repair s = (if s = [] then [] else utf8_unit s @ utf8_repair (drop (max 1 (utf8_seq s)) s))"
  by pat_completeness auto
termination by (relation "measure length") simp_all

declare utf8_repair.simps [simp del]

lemma utf8_ascii: "c < 0x80 \<Longrightarrow> utf8_seq (c # s) = 1"
  by (simp add: utf8_seq_def)

lemma jw_esc_snd: "s \<noteq> [] \<Longrightarrow> snd (jw_esc s) = max 1 (utf8_seq s)"
proof (cases s)
  case (Cons c xs)
  have "utf8_seq s = 1" if "c < 0x20 \<or> c \<in> {0x22, 0x5C, 0x7F}" unfolding Cons using that by (intro utf8_ascii) (auto simp: word_less_nat_alt)
  then show ?thesis unfolding jw_esc_def Let_def Cons by (auto simp: word_less_nat_alt)
qed simp

lemma utf8_tail:
  assumes "s \<noteq> []" and "utf8_seq s \<noteq> 0"
  shows "\<forall>c \<in> set (tl (take (utf8_seq s) s)). c \<ge> 0x80"
proof -
  have cont: "\<forall>c \<in> set cs. c AND 0xC0 = 0x80" if "utf8_cont cp cs \<noteq> None" for cp cs
    using that by (induction cs arbitrary: cp) (auto split: if_split_asm)
  have hi: "c \<ge> 0x80" if "c AND 0xC0 = (0x80 :: u8)" for c
  proof -
    have "c AND 0xC0 \<le> c" by (rule word_and_le2)
    then show ?thesis using that by simp
  qed
  define x :: "nat \<times> u32" where "x = (if hd s \<ge> 0xC2 \<and> hd s \<le> 0xDF then (2, ucast (hd s AND 0x1F))
                            else if hd s \<ge> 0xE0 \<and> hd s \<le> 0xEF then (3, ucast (hd s AND 0x0F))
                            else if hd s \<ge> 0xF0 \<and> hd s \<le> 0xF4 then (4, ucast (hd s AND 0x07)) else (0, 0))"
  have "utf8_seq s = 1 \<or> utf8_cont (snd x) (take (utf8_seq s - 1) (tl s)) \<noteq> None"
    using assms(2) unfolding utf8_seq_def Let_def x_def [symmetric] by (cases x) (simp split: option.split)
  then have "\<forall>c \<in> set (take (utf8_seq s - 1) (tl s)). c AND 0xC0 = 0x80" using cont by fastforce
  then show ?thesis using hi by (auto simp: tl_take)
qed

text \<open>What a position of the text decodes to: \<open>decodes xs u ys\<close> when the bytes between \<open>xs\<close> and \<open>ys\<close> stand for \<open>u\<close>.\<close>

definition decodes :: "bytes \<Rightarrow> bytes \<Rightarrow> bytes \<Rightarrow> bool" where
  "decodes xs u ys \<longleftrightarrow> (\<forall>s cap out. fits s \<longrightarrow> suffix xs s \<longrightarrow> length out + length u < unat cap \<longrightarrow>
     decode_loop s (slen s) cap (pos s xs) out = decode_loop s (slen s) cap (pos s ys) (out @ u))"

lemma decodes_trans:
  assumes "decodes xs u ys" and "decodes ys v zs" and "\<And>s. suffix xs s \<Longrightarrow> suffix ys s"
  shows "decodes xs (u @ v) zs"
  using assms unfolding decodes_def by (simp add: add.assoc)

lemma cap_less: "n < unat (cap :: u32) \<Longrightarrow> \<not> (of_nat n \<ge> cap)"
  using unat_u32_less [of cap] by (simp add: word_le_nat_alt unat_of_nat take_bit_nat_eq_self)

lemma decodes_char:
  assumes "c \<noteq> 0x5C" and "ys \<noteq> []"
  shows "decodes (c # ys) [c] ys"
  unfolding decodes_def
proof (intro allI impI)
  fix s out :: bytes and cap :: u32 assume f: "fits s" and x: "suffix (c # ys) s" and l: "length out + length [c] < unat cap"
  have "(1 :: nat) < length (c # ys)" using assms(2) by (cases ys) auto
  then have i: "pos s (c # ys) + 1 < slen s" using pos_add_less [OF f x, of 1] by simp
  have o: "\<not> of_nat (length out) + 1 \<ge> cap" using cap_less [of "length out + 1" cap] l by (simp add: add.commute)
  show "decode_loop s (slen s) cap (pos s (c # ys)) out = decode_loop s (slen s) cap (pos s ys) (out @ [c])"
    using assms(1) o i by (subst decode_loop.simps) (simp add: pos_ch [OF f x] pos_step [OF x])
qed

lemma decodes_esc:
  assumes ys: "ys \<noteq> []" and cp: "cp \<noteq> 0"
    and e: "\<And>s. fits s \<Longrightarrow> suffix (0x5C # e # zs) s \<Longrightarrow> esc_cp s (slen s) e (pos s zs) = Some (cp, pos s ys)"
  shows "decodes (0x5C # e # zs) (utf8_enc cp) ys"
  unfolding decodes_def
proof (intro allI impI)
  fix s out :: bytes and cap :: u32 assume f: "fits s" and x: "suffix (0x5C # e # zs) s" and l: "length out + length (utf8_enc cp) < unat cap"
  note x1 = suffix_drops(1) [OF x]
  have "(1 :: nat) < length (0x5C # e # zs)" by simp
  then have i: "pos s (0x5C # e # zs) + 1 < slen s" using pos_add_less [OF f x, of 1] by simp
  have o: "\<not> of_nat (length out) + of_nat (length (utf8_enc cp)) \<ge> cap" using cap_less [of "length out + length (utf8_enc cp)" cap] l by simp
  have p: "pos s (0x5C # e # zs) + 1 = pos s (e # zs)" "pos s (0x5C # e # zs) + 2 = pos s zs" using x by (simp_all add: pos_step pos_adds(1))
  have c: "ch s (pos s (0x5C # e # zs)) = Some 0x5C" "ch s (pos s (e # zs)) = Some e" by (rule pos_ch [OF f x], rule pos_ch [OF f x1])
  show "decode_loop s (slen s) cap (pos s (0x5C # e # zs)) out = decode_loop s (slen s) cap (pos s ys) (out @ utf8_enc cp)"
    using cp o i by (subst decode_loop.simps) (simp add: c p e [OF f x])
qed

lemma hex4_pos:
  assumes f: "fits s" and x: "suffix (h1 # h2 # h3 # h4 # zs) s"
  shows "hex4 s (pos s (h1 # h2 # h3 # h4 # zs))
    = Some (word_of_int (push_bit 12 (hexval h1) OR push_bit 8 (hexval h2) OR push_bit 4 (hexval h3) OR hexval h4))"
proof -
  note s1 = suffix_drops(1) [OF x]
  note s2 = suffix_drops(1) [OF s1]
  note s3 = suffix_drops(1) [OF s2]
  show ?thesis using f x s1 s2 s3 unfolding hex4_def by (simp add: suf(2,3) pos_adds(1,2))
qed

lemma decodes_simple:
  assumes "e \<in> {0x22, 0x5C, 0x6E, 0x72, 0x74}" and "ys \<noteq> []"
    and "cp = (if e = 0x6E then 10 else if e = 0x72 then 13 else if e = 0x74 then 9 else ucast e)"
  shows "decodes (0x5C # e # ys) (utf8_enc cp) ys"
  by (rule decodes_esc) (use assms in \<open>auto simp: esc_cp_def\<close>)

lemma decodes_unicode:
  assumes "ys \<noteq> []" and cp: "cp = word_of_int (push_bit 12 (hexval h1) OR push_bit 8 (hexval h2) OR push_bit 4 (hexval h3) OR hexval h4)"
    and "cp \<noteq> 0" and n: "\<not> (cp \<ge> 0xD800 \<and> cp \<le> 0xDFFF)"
  shows "decodes (0x5C # 0x75 # h1 # h2 # h3 # h4 # ys) (utf8_enc cp) ys"
proof (rule decodes_esc [OF assms(1,3)])
  fix s assume f: "fits s" and x: "suffix (0x5C # 0x75 # h1 # h2 # h3 # h4 # ys) s"
  have x2: "suffix (h1 # h2 # h3 # h4 # ys) s" using suffix_drops(1) [OF suffix_drops(1) [OF x]] .
  have "cp \<le> 0xDBFF \<Longrightarrow> cp \<le> 0xDFFF" by (auto simp: word_le_nat_alt)
  then have "\<not> (cp \<ge> 0xD800 \<and> cp \<le> 0xDBFF)" using n by blast
  then have g: "(cp \<ge> 0xD800 \<and> cp \<le> 0xDBFF \<and> q) = False" "(cp \<ge> 0xD800 \<and> cp \<le> 0xDFFF) = False" for q using n by blast+
  show "esc_cp s (slen s) 0x75 (pos s (h1 # h2 # h3 # h4 # ys)) = Some (cp, pos s ys)"
    by (simp add: g esc_cp_def hex4_pos [OF f x2] cp [symmetric] pos_adds(3) [OF x2] Let_def)
qed

lemma hexval_jw_hex: "d < 16 \<Longrightarrow> hexval (jw_hex d) = uint d"
proof -
  assume "d < 16"
  then have d: "unat d < 16" by (simp add: word_less_nat_alt)
  have "list_all (\<lambda>n. hexval (jw_hex (of_nat n)) = int n) [0..<16]" by code_simp
  then have "hexval (jw_hex (of_nat (unat d))) = int (unat d)" unfolding list_all_iff by (rule bspec) (simp add: d del: upt_rec_numeral)
  then show ?thesis by simp
qed

lemma hex_byte: "c < 0x20 \<or> c = 0x7F \<Longrightarrow> word_of_int (push_bit 4 (uint (drop_bit 4 c)) OR uint (c AND 15)) = (ucast c :: u32)" for c :: u8
proof (elim disjE)
  assume "c < 0x20"
  then have c: "unat c < 32" by (simp add: word_less_nat_alt)
  have "list_all (\<lambda>n. word_of_int (push_bit 4 (uint (drop_bit 4 (of_nat n :: u8))) OR uint ((of_nat n :: u8) AND 15)) = (ucast (of_nat n :: u8) :: u32)) [0..<32]"
    by code_simp
  then have "word_of_int (push_bit 4 (uint (drop_bit 4 (of_nat (unat c) :: u8))) OR uint ((of_nat (unat c) :: u8) AND 15)) = (ucast (of_nat (unat c) :: u8) :: u32)"
    unfolding list_all_iff by (rule bspec) (simp add: c del: upt_rec_numeral)
  then show ?thesis by simp
qed simp

lemma decodes_raw:
  "\<forall>c \<in> set u. c \<noteq> 0x5C \<Longrightarrow> ys \<noteq> [] \<Longrightarrow> decodes (u @ ys) u ys"
proof (induction u)
  case Nil
  then show ?case by (simp add: decodes_def)
next
  case (Cons c u)
  then have "decodes (c # u @ ys) ([c] @ u) ys" by (intro decodes_trans [OF decodes_char]) (auto dest: suffix_drops(1))
  then show ?case by simp
qed

lemma unat_widen: "unat (ucast c :: u32) = unat c" for c :: u8
  using unsigned_less [of c, where ?'a = nat] by (simp add: unsigned_ucast_eq take_bit_nat_eq_self)

lemma narrow_widen: "ucast (ucast c :: u32) = c" for c :: u8
  by (rule bit_word_eqI) (auto simp: bit_simps)

lemma ascii_enc: "c < 0x80 \<Longrightarrow> utf8_enc (ucast c) = [c]" for c :: u8
  by (simp add: utf8_enc_def word_less_nat_alt unat_widen narrow_widen)

lemma nibbles: "drop_bit 4 c < 16" "c AND 15 < 16" for c :: u8
proof -
  have "unat c < 256" using unsigned_less [of c, where ?'a = nat] by simp
  then show "drop_bit 4 c < 16" by (simp add: word_less_nat_alt drop_bit_eq_div unat_div)
  have "c AND 15 \<le> 15" by (rule word_and_le1)
  then show "c AND 15 < 16" by (simp add: word_le_nat_alt word_less_nat_alt)
qed

lemma unit_ascii: "s \<noteq> [] \<Longrightarrow> hd s < 0x80 \<Longrightarrow> utf8_unit s = [hd s]"
  by (cases s) (simp_all add: utf8_unit_def utf8_ascii)

lemma esc_decodes:
  assumes s: "s \<noteq> []" and z: "hd s \<noteq> 0" and ys: "ys \<noteq> []"
  shows "decodes (fst (jw_esc s) @ ys) (utf8_unit s) ys"
proof -
  define c where "c = hd s"
  consider "c \<in> {0x22, 0x5C}" | "c = 0x0A" | "c = 0x0D" | "c = 0x09" | "c \<notin> {0x0A, 0x0D, 0x09}" "c < 0x20 \<or> c = 0x7F"
    | "c \<notin> {0x22, 0x5C, 0x7F}" "c \<ge> 0x20" by (cases "c < 0x20") (auto simp: not_less)
  then show ?thesis
  proof cases
    case 1
    then have "fst (jw_esc s) = [0x5C, c]" "utf8_unit s = [c]" using unit_ascii [OF s] by (auto simp: jw_esc_def c_def)
    then show ?thesis using decodes_simple [of c ys "ucast c"] ascii_enc [of c] 1 ys by auto
  next
    case 2
    then have "fst (jw_esc s) = [0x5C, 0x6E]" "utf8_unit s = [0x0A]" using unit_ascii [OF s] by (auto simp: jw_esc_def c_def)
    then show ?thesis using decodes_simple [of "0x6E" ys 10] ys by (simp add: utf8_enc_def)
  next
    case 3
    then have "fst (jw_esc s) = [0x5C, 0x72]" "utf8_unit s = [0x0D]" using unit_ascii [OF s] by (auto simp: jw_esc_def c_def)
    then show ?thesis using decodes_simple [of "0x72" ys 13] ys by (simp add: utf8_enc_def)
  next
    case 4
    then have "fst (jw_esc s) = [0x5C, 0x74]" "utf8_unit s = [0x09]" using unit_ascii [OF s] by (auto simp: jw_esc_def c_def)
    then show ?thesis using decodes_simple [of "0x74" ys 9] ys by (simp add: utf8_enc_def)
  next
    case 5
    have lt: "c < 0x80" using 5(2) by (auto simp: word_less_nat_alt)
    have "c \<notin> {0x22, 0x5C}" using 5(2) by auto
    then have e: "fst (jw_esc s) = [0x5C, 0x75, 0x30, 0x30, jw_hex (drop_bit 4 c), jw_hex (c AND 15)]"
      using 5 by (auto simp: jw_esc_def c_def Let_def)
    have cp: "word_of_int (push_bit 12 (hexval 0x30) OR push_bit 8 (hexval 0x30) OR push_bit 4 (hexval (jw_hex (drop_bit 4 c))) OR hexval (jw_hex (c AND 15)))
        = (ucast c :: u32)" using hex_byte [OF 5(2)] by (simp add: hexval_jw_hex nibbles hexval_def [of "0x30"])
    have "unat (ucast c :: u32) < 128" using lt by (simp add: unat_widen word_less_nat_alt)
    then have "\<not> ((ucast c :: u32) \<ge> 0xD800 \<and> (ucast c :: u32) \<le> 0xDFFF)" by (simp add: word_le_nat_alt)
    moreover have "(ucast c :: u32) \<noteq> 0" using z narrow_widen [of c] by (metis c_def unsigned_0)
    ultimately show ?thesis using decodes_unicode [OF ys cp [symmetric]] e unit_ascii [OF s] lt ascii_enc [OF lt] by (simp add: c_def)
  next
    case 6
    then have nc: "c \<noteq> 0x0A" "c \<noteq> 0x0D" "c \<noteq> 0x09" "\<not> c < 0x20" by auto
    show ?thesis
    proof (cases "utf8_seq s = 0")
      case True
      then have "fst (jw_esc s) = [0x5C, 0x75, 0x66, 0x66, 0x66, 0x64]" using 6 nc by (auto simp: jw_esc_def c_def Let_def)
      then show ?thesis using True decodes_unicode [OF ys, of "0xFFFD" "0x66" "0x66" "0x66" "0x64"] by (simp add: utf8_unit_def hexval_def utf8_enc_def)
    next
      case False
      then have e: "fst (jw_esc s) = take (utf8_seq s) s" using 6 nc by (auto simp: jw_esc_def c_def Let_def)
      have "set (take (utf8_seq s) s) \<subseteq> insert c (set (tl (take (utf8_seq s) s)))" using s False by (cases s; cases "utf8_seq s") (auto simp: c_def)
      then have "\<forall>x \<in> set (take (utf8_seq s) s). x \<noteq> 0x5C" using utf8_tail [OF s False] 6(1) by (fastforce simp: word_le_nat_alt)
      then show ?thesis using decodes_raw [OF _ ys] False e by (simp add: utf8_unit_def)
    qed
  qed
qed

section \<open>Round trip\<close>

lemma esc_all_decodes:
  "0 \<notin> set s \<Longrightarrow> decodes (esc_all s @ [0x22]) (utf8_repair s) [0x22]"
proof (induction s rule: esc_all.induct)
  case (1 s)
  show ?case
  proof (cases "s = []")
    case True
    then show ?thesis by (simp add: esc_all.simps utf8_repair.simps decodes_def)
  next
    case False
    define r where "r = drop (snd (jw_esc s)) s"
    have "0 \<notin> set r" using 1(2) by (auto simp: r_def dest: in_set_dropD)
    then have IH: "decodes (esc_all r @ [0x22]) (utf8_repair r) [0x22]" using 1(1) [OF False] by (simp add: r_def)
    have "hd s \<noteq> 0" using 1(2) False by (metis hd_in_set)
    then have "decodes (fst (jw_esc s) @ esc_all r @ [0x22]) (utf8_unit s) (esc_all r @ [0x22])" by (intro esc_decodes [OF False]) simp_all
    then have "decodes (fst (jw_esc s) @ esc_all r @ [0x22]) (utf8_unit s @ utf8_repair r) [0x22]"
      by (rule decodes_trans [OF _ IH]) (rule suffix_drops(2))
    moreover have "utf8_repair s = utf8_unit s @ utf8_repair r" using False by (subst utf8_repair.simps) (simp add: r_def jw_esc_snd)
    moreover have "esc_all s = fst (jw_esc s) @ esc_all r" using False by (subst esc_all.simps) (simp add: r_def)
    ultimately show ?thesis by simp
  qed
qed

lemma jchars_raw: "\<forall>c \<in> set u. c \<ge> 0x20 \<and> c \<noteq> 0x22 \<and> c \<noteq> 0x5C \<Longrightarrow> jchars xs \<Longrightarrow> jchars (u @ xs)"
  by (induction u) (auto intro: jchars.char)

lemma esc_jchars:
  assumes s: "s \<noteq> []" and xs: "jchars xs"
  shows "jchars (fst (jw_esc s) @ xs)"
proof -
  define c where "c = hd s"
  have "(\<exists>e. fst (jw_esc s) = [0x5C, e] \<and> simple_esc e)
    \<or> fst (jw_esc s) = [0x5C, 0x75, 0x30, 0x30, jw_hex (drop_bit 4 c), jw_hex (c AND 15)]
    \<or> fst (jw_esc s) = [0x5C, 0x75, 0x66, 0x66, 0x66, 0x64]
    \<or> fst (jw_esc s) = take (utf8_seq s) s \<and> utf8_seq s \<noteq> 0 \<and> c \<notin> {0x22, 0x5C} \<and> c \<ge> 0x20"
    by (auto simp: jw_esc_def Let_def c_def simple_esc_def not_less)
  then consider e where "fst (jw_esc s) = [0x5C, e]" "simple_esc e"
    | "fst (jw_esc s) = [0x5C, 0x75, 0x30, 0x30, jw_hex (drop_bit 4 c), jw_hex (c AND 15)]"
    | "fst (jw_esc s) = [0x5C, 0x75, 0x66, 0x66, 0x66, 0x64]"
    | "fst (jw_esc s) = take (utf8_seq s) s" "utf8_seq s \<noteq> 0" "c \<notin> {0x22, 0x5C}" "c \<ge> 0x20" by blast
  then show ?thesis
  proof cases
    case (1 e)
    then show ?thesis using jchars.esc xs by simp
  next
    case 2
    have "\<forall>h \<in> {0x30, 0x30, jw_hex (drop_bit 4 c), jw_hex (c AND 15)}. hexval h \<ge> 0"
      by (simp add: hexval_jw_hex nibbles hexval_def [of "0x30"])
    then show ?thesis using 2 jchars.unicode xs by simp
  next
    case 3
    have "\<forall>h \<in> {0x66, 0x66, 0x66, 0x64}. hexval h \<ge> 0" by (simp add: hexval_def)
    then show ?thesis using 3 jchars.unicode xs by simp
  next
    case 4
    have "set (take (utf8_seq s) s) \<subseteq> insert c (set (tl (take (utf8_seq s) s)))" using s 4(2) by (cases s; cases "utf8_seq s") (auto simp: c_def)
    then have "\<forall>x \<in> set (take (utf8_seq s) s). x \<ge> 0x20 \<and> x \<noteq> 0x22 \<and> x \<noteq> 0x5C"
      using utf8_tail [OF s 4(2)] 4(3,4) by (fastforce simp: word_le_nat_alt)
    then show ?thesis using 4(1) jchars_raw [OF _ xs] by simp
  qed
qed

lemma esc_all_jchars: "jchars (esc_all s @ [0x22])"
proof (induction s rule: esc_all.induct)
  case (1 s)
  then show ?case using esc_jchars [of s] jchars.quote by (subst esc_all.simps) auto
qed

lemma utf8_repair_length: "length (utf8_repair s) \<le> 3 * length s"
proof (induction s rule: utf8_repair.induct)
  case (1 s)
  show ?case
  proof (cases "s = []")
    case False
    have "length (utf8_unit s) \<le> 3 * max 1 (utf8_seq s)" by (auto simp: utf8_unit_def min_def)
    moreover have "max 1 (utf8_seq s) \<le> length s" using False utf8_seq_bounds [of s] by (cases s) auto
    ultimately show ?thesis using 1 False by (subst utf8_repair.simps) auto
  qed (simp add: utf8_repair.simps)
qed

lemma trim_string: "v = 0x22 # xs @ [0x22] \<Longrightarrow> trim v = v"
  by (simp add: trim_def is_ws_def)



section \<open>Numbers\<close>

lemma digit_byte: "unat (0x30 + ucast (v mod 10) :: u8) = 48 + unat v mod 10" for v :: u64
proof -
  have "unat (ucast (v mod 10) :: u8) = unat v mod 10"
    by (simp add: unsigned_ucast_eq take_bit_nat_eq_self unat_mod)
  then show ?thesis by (subst unat_add_small) simp_all
qed

lemma digits_list: "list_all is_digit (u64_digits v) \<and> u64_digits v \<noteq> []"
proof (induction v rule: u64_digits.induct)
  case (1 v)
  have "is_digit (0x30 + ucast (v mod 10))" by (simp add: is_digit_def word_le_nat_alt digit_byte)
  then show ?case using 1 by (subst (1 2) u64_digits.simps) simp
qed

lemma div10: "unat (v div 10) = unat v div 10" "(v div 10 = 0) = (unat v < 10)" for v :: u64
proof -
  show d: "unat (v div 10) = unat v div 10" by (simp add: unat_div)
  have "(v div 10 = 0) = (unat (v div 10) = 0)" by (simp add: unat_eq_zero)
  then show "(v div 10 = 0) = (unat v < 10)" unfolding d by (simp add: div_eq_0_iff)
qed

lemma digits_length: "(length (u64_digits v) \<le> Suc n) = (unat v < 10 ^ Suc n)"
proof (induction v arbitrary: n rule: u64_digits.induct)
  case (1 v)
  show ?case
  proof (cases "v div 10 = 0")
    case True
    then have "length (u64_digits v) = 1" by (subst u64_digits.simps) simp
    moreover have "unat v < 10 ^ Suc n" using True div10(2) [of v] less_le_trans [of "unat v" 10 "10 ^ Suc n"] by simp
    ultimately show ?thesis by simp
  next
    case False
    have l: "length (u64_digits v) = Suc (length (u64_digits (v div 10)))" using False by (subst u64_digits.simps) simp
    show ?thesis
    proof (cases n)
      case 0
      then show ?thesis using False l digits_list [of "v div 10"] by (simp add: div10(2))
    next
      case (Suc m)
      have "unat v div 10 < 10 ^ Suc m \<longleftrightarrow> unat v < 10 ^ Suc (Suc m)" by (simp add: div_less_iff_less_mult)
      then show ?thesis using 1 [OF False, of m] l Suc div10(1) [of v] by simp
    qed
  qed
qed

lemma digits_last: "1 < length (u64_digits v) \<Longrightarrow> last (u64_digits v) \<noteq> 0x30"
proof (induction v rule: u64_digits.induct)
  case (1 v)
  have z: "last (u64_digits w) \<noteq> 0x30" if "w \<noteq> 0" for w
    using that
  proof (induction w rule: u64_digits.induct)
    case (1 w)
    have "(0x30 + ucast (w mod 10) :: u8) \<noteq> 0x30" if "w div 10 = 0"
      using digit_byte [of w] that div10(2) [of w] 1(2) by (auto simp: unat_eq_zero dest: arg_cong [where f = unat])
    then show ?case using 1 digits_list [of "w div 10"] by (subst u64_digits.simps) auto
  qed
  have "v div 10 \<noteq> 0" using 1(2) by (subst (asm) u64_digits.simps) (auto split: if_split_asm)
  then show ?case using z digits_list [of "v div 10"] by (subst u64_digits.simps) simp
qed

lemma digits_value: "foldr (\<lambda>c r. r * 10 + ucast (c - 0x30)) (u64_digits v) 0 = v"
proof (induction v rule: u64_digits.induct)
  case (1 v)
  define y :: u8 where "y = ucast (v mod 10)"
  have y: "unat y = unat v mod 10" by (simp add: y_def unsigned_ucast_eq take_bit_nat_eq_self unat_mod)
  have "ucast (0x30 + ucast (v mod 10) - 0x30 :: u8) = v mod 10" unfolding y_def [symmetric]
    by (rule word_unat_eq_iff [THEN iffD2]) (simp add: unsigned_ucast_eq take_bit_nat_eq_self unat_mod y)
  moreover have "v div 10 * 10 + v mod 10 = v" by (rule div_mult_mod_eq)
  moreover have "v mod 10 = v" if "v div 10 = 0" using calculation(2) that by simp
  ultimately show ?case using 1 by (subst u64_digits.simps) auto
qed

text \<open>
  C31. A number survives being written and read, up to 19 digits. The text of an unsigned 64-bit number in a
  buffer of at least 21 bytes reads back as the number when it is below ten to the 19, and is refused as
  a number otherwise.
\<close>

theorem json_u64_roundtrip:
  assumes "length mem = unat cap" and "21 \<le> cap"
  shows "\<exists>w0 w. jw_init mem cap = Some w0 \<and> jw_u64 w0 v = Some w \<and> \<not> jw_overflow w
    \<and> json_u64 (take (unat (jw_len w)) (jw_p w)) = (if unat v < 10 ^ 19 then Some v else None)"
proof -
  have c: "0 < cap" "21 \<le> unat cap" using assms(2) by (auto simp: word_less_nat_alt word_le_nat_alt)
  obtain w0 where w0: "jw_init mem cap = Some w0" "jw_inv w0" "\<not> jw_overflow w0" "jw_text w0 = []" "jw_cap w0 = cap"
    using jw_init_spec [OF assms(1) c(1)] by blast
  have l0: "unat (jw_len w0) = 0" using w0(2,4,5) c by (auto simp: jw_text_def jw_inv_def)
  have n: "length (u64_digits v) \<le> 20" using digits_length [of v 19] unat_u64_less [of v] by simp
  obtain w where w: "jw_raw w0 (rev (u64_digits v)) = Some w" "\<not> jw_overflow w" "jw_text w = rev (u64_digits v)"
    using jw_raw_spec [OF w0(2,3), of "rev (u64_digits v)"] l0 w0(4,5) c(2) n by auto
  define t where "t = rev (u64_digits v)"
  have d: "list_all is_digit t" "t \<noteq> []" using digits_list [of v] by (simp_all add: t_def list_all_iff)
  have nw: "\<not> is_ws x" if "is_digit x" for x using that by (auto simp: is_ws_def is_digit_def)
  have "\<not> is_ws (hd t)" "\<not> is_ws (last t)" using d nw by (auto simp: list_all_iff)
  then have "dropWhile is_ws t = t" "dropWhile is_ws (rev t) = rev t" using d(2) by (simp_all add: dropWhile_eq_self_iff hd_rev)
  then have tr: "trim t = t" by (simp add: trim_def)
  have "length t \<le> 19 \<longleftrightarrow> unat v < 10 ^ 19" using digits_length [of v 18] by (simp add: t_def)
  moreover have "\<not> (length t > 1 \<and> hd t = 0x30)" using digits_last [of v] by (auto simp: t_def hd_rev)
  moreover have "foldl (\<lambda>r c. r * 10 + ucast (c - 0x30)) 0 t = v" using digits_value [of v] by (simp add: t_def foldl_conv_foldr)
  ultimately have "json_u64 t = (if unat v < 10 ^ 19 then Some v else None)" using d tr unfolding json_u64_def Let_def by (auto simp del: power_numeral)
  then show ?thesis using w0(1) w by (simp add: jw_u64_def t_def jw_text_def)
qed

theorem json_u64_roundtrip_witness:
  "\<exists>w0 w. jw_init (replicate 32 0) 32 = Some w0 \<and> jw_u64 w0 1234 = Some w \<and> \<not> jw_overflow w
    \<and> json_u64 (take (unat (jw_len w)) (jw_p w)) = Some 1234"
  using json_u64_roundtrip [of "replicate 32 0" 32 1234] by simp

end
