(* ===== verification/Json_Object.thy ===== *)
theory Json_Object
  imports Json_Text
begin

text \<open>
  Looking up a member of an object: decoding a string literal always returns, and the lookup returns the
  value of the first member whose decoded name is the wanted one.
\<close>

section \<open>Objects\<close>

inductive jmembers :: "nat \<Rightarrow> (bytes \<times> bytes) list \<Rightarrow> bytes \<Rightarrow> bool" where
  one: "jstring k \<Longrightarrow> jspace w1 \<Longrightarrow> jspace w2 \<Longrightarrow> jval n v \<Longrightarrow> jspace w
    \<Longrightarrow> jmembers n [(k, v)] (k @ w1 @ [0x3A] @ w2 @ v @ w @ [0x7D])"
| more: "jstring k \<Longrightarrow> jspace w1 \<Longrightarrow> jspace w2 \<Longrightarrow> jval n v \<Longrightarrow> jspace w \<Longrightarrow> jspace w' \<Longrightarrow> jmembers n ms xs
    \<Longrightarrow> jmembers n ((k, v) # ms) (k @ w1 @ [0x3A] @ w2 @ v @ w @ [0x2C] @ w' @ xs)"

text \<open>An object with the given members, at most 32 containers deep.\<close>

definition jobject :: "(bytes \<times> bytes) list \<Rightarrow> bytes \<Rightarrow> bool" where
  "jobject ms t \<longleftrightarrow> (\<exists>w xs. t = 0x7B # w @ xs \<and> jspace w \<and> (if ms = [] then xs = [0x7D] else jmembers 31 ms xs))"

text \<open>The name of a member: its decoded literal, if it has at most 63 bytes and the literal at most 128.\<close>

definition key_is :: "bytes \<Rightarrow> bytes \<Rightarrow> bool" where
  "key_is key k \<longleftrightarrow> length k \<le> 128 \<and> decode_string k 64 = Some (Some key)"

section \<open>Decoding returns\<close>

inductive_cases jchars_unicode: "jchars (0x5C # 0x75 # xs)"
inductive_cases jchars_cons: "jchars (c # xs)"

lemma unicode_shape:
  assumes "jchars (0x5C # 0x75 # xs)"
  obtains a b c d ys where "xs = a # b # c # d # ys" "jchars ys"
  using assms by (cases rule: jchars.cases) (auto simp: simple_esc_def)

lemma esc_cp_unicode:
  assumes f: "fits s" and x: "suffix (a # b # c # d # ys) s" and j: "jchars ys"
  shows "\<exists>cp zs. esc_cp s (slen s) 0x75 (pos s (a # b # c # d # ys)) = Some (cp, pos s zs) \<and> suffix zs s \<and> jchars zs \<and> length zs \<le> length ys"
proof -
  obtain cp where cp: "hex4 s (pos s (a # b # c # d # ys)) = Some cp" using hex4_pos [OF f x] by blast
  have y: "suffix ys s" using x suffix_drops(2) [of "[a, b, c, d]" ys s] by simp
  define rest where "rest cp i = Some (if cp \<ge> 0xD800 \<and> cp \<le> 0xDFFF then 0xFFFD else cp, i :: u32)" for cp :: u32 and i
  define pair where "pair = (if cp \<ge> 0xD800 \<and> cp \<le> 0xDBFF \<and> pos s ys + 5 < slen s then do {
            x \<leftarrow> ch s (pos s ys);
            y \<leftarrow> ch s (pos s ys + 1);
            if x = 0x5C \<and> y = 0x75 then do {
              lo \<leftarrow> hex4 s (pos s ys + 2);
              Some (if lo \<ge> 0xDC00 \<and> lo \<le> 0xDFFF then (0x10000 + push_bit 10 (cp - 0xD800) + (lo - 0xDC00), pos s ys + 6) else (cp, pos s ys)) }
            else Some (cp, pos s ys) }
          else Some (cp, pos s ys))"
  have e: "esc_cp s (slen s) 0x75 (pos s (a # b # c # d # ys)) = do { (cp, i) \<leftarrow> pair; rest cp i }"
    by (simp add: esc_cp_def cp Let_def pair_def rest_def pos_adds(3) [OF x])
  have "\<exists>cp' zs. pair = Some (cp', pos s zs) \<and> suffix zs s \<and> jchars zs \<and> length zs \<le> length ys"
  proof (cases "pos s ys + 5 < slen s")
    case False
    then show ?thesis using y j by (auto simp: pair_def)
  next
    case True
    then have "5 < length ys" using pos_add_less [OF f y, of 5] by simp
    then obtain u v zs where ys: "ys = u # v # zs" by (cases ys; cases "tl ys") auto
    have y1: "suffix (v # zs) s" using suffix_drops(1) [OF y [unfolded ys]] .
    have y2: "suffix (v # zs) s" "suffix zs s" by (rule y1) (rule suffix_drops(1) [OF y1])
    have c: "ch s (pos s ys) = Some u" "ch s (pos s ys + 1) = Some v" "pos s ys + 2 = pos s zs"
      using f y y2 by (simp_all add: ys suf(2,3) pos_adds(1))
    show ?thesis
    proof (cases "u = 0x5C \<and> v = 0x75")
      case False
      then show ?thesis using y j c by (auto simp: pair_def)
    next
      case uv: True
      obtain h1 h2 h3 h4 rs where zs: "zs = h1 # h2 # h3 # h4 # rs" "jchars rs" using unicode_shape [of zs] j uv ys by blast
      have r: "suffix rs s" "pos s ys + 6 = pos s rs" using y suffix_drops(2) [of "[u, v, h1, h2, h3, h4]" rs s] by (simp_all add: ys zs pos_adds(5))
      obtain lo where "hex4 s (pos s zs) = Some lo" using hex4_pos [OF f, of h1 h2 h3 h4 rs] y2 zs by auto
      then show ?thesis using c uv r zs(2) y j ys zs(1) by (auto simp: pair_def)
    qed
  qed
  then show ?thesis unfolding e by (auto simp: rest_def)
qed

lemma esc_cp_simple:
  "simple_esc e \<Longrightarrow> \<exists>cp. esc_cp s len e i = Some (cp, i)"
  by (auto simp: esc_cp_def simple_esc_def)

lemma decode_loop_total:
  assumes f: "fits s"
  shows "suffix xs s \<Longrightarrow> jchars xs \<Longrightarrow> \<exists>r. decode_loop s (slen s) cap (pos s xs) out = Some r"
proof (induction "length xs" arbitrary: xs out rule: less_induct)
  case less
  obtain c ys where xs: "xs = c # ys" using less.prems(2) by (cases rule: jchars.cases) auto
  have x: "suffix (c # ys) s" using less.prems(1) xs by simp
  show ?case
  proof (cases "ys = []")
    case True
    then have "\<not> pos s xs + 1 < slen s" using pos_step [OF x] by (simp add: xs pos_nil)
    then show ?thesis by (subst decode_loop.simps) simp
  next
    case False
    then obtain e zs where ys: "ys = e # zs" by (cases ys) auto
    have x1: "suffix (e # zs) s" using suffix_drops(1) [OF x] ys by simp
    have c: "ch s (pos s xs) = Some c" "pos s xs + 1 = pos s ys" "ch s (pos s ys) = Some e" "pos s xs + 2 = pos s zs"
      using f x x1 by (simp_all add: xs ys suf(2,3) pos_adds(1))
    have lt: "pos s ys < slen s" using pos_less [OF f x1] by (simp add: ys)
    have IH: "\<exists>r. decode_loop s (slen s) cap (pos s us) out' = Some r" if "length us \<le> length ys" "suffix us s" "jchars us" for us out'
      using less.hyps [of us] that xs by simp
    show ?thesis
    proof (cases "c = 0x5C")
      case False
      have "jchars ys" using less.prems(2) unfolding xs by (rule jchars_cons) (use False ys in auto)
      then have "\<exists>r. decode_loop s (slen s) cap (pos s ys) (out @ [c]) = Some r" using IH suffix_drops(1) [OF x] by simp
      then show ?thesis using False lt c by (subst decode_loop.simps) auto
    next
      case True
      have "\<exists>cp us. esc_cp s (slen s) e (pos s zs) = Some (cp, pos s us) \<and> suffix us s \<and> jchars us \<and> length us \<le> length ys"
        using less.prems(2)
      proof (cases rule: jchars.cases)
        case (esc e' us)
        then have z: "simple_esc e" "zs = us" using xs ys by auto
        obtain cp where "esc_cp s (slen s) e (pos s zs) = Some (cp, pos s zs)" using esc_cp_simple [OF z(1)] by blast
        then show ?thesis using esc(3) z(2) ys suffix_drops(1) [OF x1] by (intro exI [of _ cp] exI [of _ us]) simp
      next
        case (unicode h1 h2 h3 h4 us)
        then have z: "e = 0x75" "zs = h1 # h2 # h3 # h4 # us" using xs ys by auto
        then show ?thesis using esc_cp_unicode [OF f, of h1 h2 h3 h4 us] unicode(3) suffix_drops(1) [OF x1] ys by fastforce
      qed (use True xs ys in auto)
      then obtain cp us where u: "esc_cp s (slen s) e (pos s zs) = Some (cp, pos s us)" "suffix us s" "jchars us" "length us \<le> length ys" by blast
      obtain r where "decode_loop s (slen s) cap (pos s us) (out @ utf8_enc cp) = Some r" using IH [OF u(4,2,3)] by blast
      then show ?thesis using True lt c u(1) by (subst decode_loop.simps) auto
    qed
  qed
qed

lemma decode_string_total: "fits s \<Longrightarrow> \<exists>r. decode_string s cap = Some r"
proof -
  assume f: "fits s"
  obtain q where q: "skip_string s (slen s) 0 = Some q" "\<And>j. q = Some j \<Longrightarrow> \<exists>v ys. s = v @ ys \<and> j = pos s ys \<and> jstring v"
    using skip_string_sound [OF f, of s] unfolding passes_def by (auto simp: pos_nil)
  show ?thesis
  proof (cases "q = Some (slen s) \<and> cap \<noteq> 0")
    case True
    then obtain v ys where v: "s = v @ ys" "slen s = pos s ys" "jstring v" using q(2) by blast
    have "suffix ys s" unfolding v(1) by (rule suffixI) simp
    then have "ys = []" using pos_inj [OF f, of ys "[]"] v(2) by (simp add: pos_nil)
    then obtain xs where xs: "s = 0x22 # xs" "jchars xs" using v by (auto simp: jstring_def)
    have "pos s xs = 1" using pos_step [of "0x22" xs s] pos_nil(2) [of s] by (simp add: xs)
    moreover have "suffix xs s" unfolding xs(1) by (rule suffix_ConsI) simp
    ultimately have "\<exists>r. decode_loop s (slen s) cap 1 [] = Some r" using decode_loop_total [OF f _ xs(2)] by metis
    then show ?thesis using True q(1) by (simp add: decode_string_def slen_def [symmetric])
  qed (use q(1) in \<open>auto simp: decode_string_def slen_def [symmetric]\<close>)
qed

section \<open>Lookup\<close>

lemma pos_diff: "fits s \<Longrightarrow> suffix (v @ r) s \<Longrightarrow> unat (pos s r - pos s (v @ r)) = length v"
proof -
  assume f: "fits s" and x: "suffix (v @ r) s"
  have "length (v @ r) \<le> length s" by (rule suffix_len [OF x])
  then show ?thesis using unat_pos [OF f, of r] unat_pos [OF f, of "v @ r"] by (subst unat_sub_small) (simp_all add: word_le_nat_alt)
qed

lemma slice_pos: "fits s \<Longrightarrow> suffix (v @ r) s \<Longrightarrow> slice s (pos s (v @ r)) (pos s r) = v"
  unfolding slice_def by (simp add: pos_diff unat_pos) (auto simp: suffix_def)

lemma take_value_complete:
  assumes "fits s" and "suffix (v @ r) s" and "jval 31 v" and "stops r"
  shows "take_value s (slen s) (pos s (v @ r)) = Some (Some (v, pos s r))"
  using skip_complete(1) [OF assms(3,1,2,4), of 1] slice_pos [OF assms(1,2)] by (simp add: take_value_def skip_value_def)

lemma colon_value_complete:
  assumes f: "fits s" and x: "suffix (w1 @ 0x3A # w2 @ v @ r) s" and w: "jspace w1" "jspace w2" and v: "jval 31 v" and r: "stops r"
  shows "colon_value s (slen s) (pos s (w1 @ 0x3A # w2 @ v @ r)) = Some (Some (v, pos s r))"
proof -
  have x1: "suffix (0x3A # w2 @ v @ r) s" by (rule suffix_drops(2) [OF x])
  have x2: "suffix (w2 @ v @ r) s" by (rule suffix_drops(1) [OF x1])
  have x3: "suffix (v @ r) s" by (rule suffix_drops(2) [OF x2])
  have "dropWhile is_ws (w1 @ 0x3A # w2 @ v @ r) = 0x3A # w2 @ v @ r" by (rule drop_space [OF w(1)]) (simp add: is_ws_def)
  moreover have "dropWhile is_ws (w2 @ v @ r) = v @ r" using jval_hd [OF v] by (intro drop_space [OF w(2)]) simp
  ultimately show ?thesis
    by (simp add: colon_value_def ws_pos [OF f x] at_pos [OF f x1] pos_step [OF x1] ws_pos [OF f x2] take_value_complete [OF f x3 v r])
qed

lemma next_item_complete:
  assumes f: "fits s" and x: "suffix (w @ e # r) s" and w: "jspace w" and e: "e \<in> {0x2C, close}" "close \<in> {0x5D, 0x7D}"
  shows "next_item close s (slen s) (pos s (w @ e # r)) = Some (if e = close then J_absent else J_found (pos s (dropWhile is_ws r)))"
proof -
  have x1: "suffix (e # r) s" by (rule suffix_drops(2) [OF x])
  have "dropWhile is_ws (w @ e # r) = e # r" by (rule drop_space [OF w]) (use e in \<open>auto simp: is_ws_def\<close>)
  moreover define i where "i = pos s (e # r)"
  ultimately have "ws s (slen s) (pos s (w @ e # r)) = Some i" by (simp add: ws_pos [OF f x])
  moreover have "\<not> slen s \<le> i" "ch s i = Some e" "ws s (slen s) (i + 1) = Some (pos s (dropWhile is_ws r))"
    using pos_less [OF f x1] by (simp_all add: i_def not_le pos_ch [OF f x1] pos_step [OF x1] ws_pos [OF f suffix_drops(1) [OF x1]])
  ultimately show ?thesis using e by (auto simp: next_item_def)
qed

lemma member_step:
  assumes f: "fits s" and x: "suffix (k @ w1 @ 0x3A # w2 @ v @ w @ e # r) s" and k: "jstring k" and w: "jspace w1" "jspace w2" "jspace w"
    and v: "jval 31 v" and e: "e \<in> {0x2C, 0x7D}" and key: "0 \<notin> set key"
  shows "member_loop s (slen s) key (pos s (k @ w1 @ 0x3A # w2 @ v @ w @ e # r)) =
    (if key_is key k then Some (J_found v) else if e = 0x7D then Some J_absent else member_loop s (slen s) key (pos s (dropWhile is_ws r)))"
proof -
  define r1 where "r1 = w1 @ 0x3A # w2 @ v @ w @ e # r"
  have x1: "suffix r1 s" using x suffix_drops(2) by (simp add: r1_def)
  have xk: "suffix (k @ r1) s" using x by (simp add: r1_def)
  have x4: "suffix (w @ e # r) s" using x suffix_drops(2) [of "k @ w1 @ 0x3A # w2 @ v"] by simp
  have "stops (w @ e # r)" using e by (intro stops_space [OF w(3)]) auto
  then have c: "colon_value s (slen s) (pos s r1) = Some (Some (v, pos s (w @ e # r)))"
    using colon_value_complete [OF f _ w(1,2) v] x1 by (simp add: r1_def)
  have n: "next_item 0x7D s (slen s) (pos s (w @ e # r)) = Some (if e = 0x7D then J_absent else J_found (pos s (dropWhile is_ws r)))"
    by (rule next_item_complete [OF f x4 w(3)]) (use e in auto)
  have "length k + 8 < 2 ^ 32" using suffix_len [OF xk] f by (simp add: fits_def)
  then obtain d where d: "decode_string k 64 = Some d" using decode_string_total [of k 64] by (auto simp: fits_def)
  have kb: "(if pos s r1 - pos s (k @ r1) \<le> 128 then decode_string (slice s (pos s (k @ r1)) (pos s r1)) 64 else Some None)
      = Some (if length k \<le> 128 then d else None)"
    by (simp add: word_le_nat_alt pos_diff [OF f xk] slice_pos [OF f xk] d)
  have tk: "takeWhile (\<lambda>c. c \<noteq> 0) key = key" using key by (auto simp: takeWhile_eq_all_conv)
  have m: "((if length k \<le> 128 then d else None) = Some (takeWhile (\<lambda>c. c \<noteq> 0) key)) = key_is key k" unfolding key_is_def d tk by simp
  have sk: "skip_string s (slen s) (pos s (k @ r1)) = Some (Some (pos s r1))" by (rule skip_string_complete [OF f xk k])
  have "member_loop s (slen s) key (pos s (k @ r1)) = (if key_is key k then Some (J_found v)
      else if e = 0x7D then Some J_absent else member_loop s (slen s) key (pos s (dropWhile is_ws r)))"
    by (subst member_loop.simps) (simp add: sk kb m c n Let_def)
  then show ?thesis by (simp add: r1_def)
qed

definition lookup_in :: "bytes \<Rightarrow> (bytes \<times> bytes) list \<Rightarrow> bytes jfind" where
  "lookup_in key ms = (case find (\<lambda>(k, v). key_is key k) ms of None \<Rightarrow> J_absent | Some (k, v) \<Rightarrow> J_found v)"

lemma members_hd: "jmembers n ms xs \<Longrightarrow> xs \<noteq> [] \<and> hd xs = 0x22"
  by (induction rule: jmembers.induct) (auto simp: jstring_def)

lemma member_loop_exact:
  assumes f: "fits s" and key: "0 \<notin> set key"
  shows "jmembers n ms xs \<Longrightarrow> n = 31 \<Longrightarrow> suffix xs s \<Longrightarrow> member_loop s (slen s) key (pos s xs) = Some (lookup_in key ms)"
proof (induction rule: jmembers.induct)
  case (one k w1 w2 n v w)
  then show ?case using member_step [OF f _ one(1-3) one(5) _ _ key, of v "0x7D" "[]"] by (simp add: lookup_in_def)
next
  case (more k w1 w2 n v w w' ms xs)
  have "dropWhile is_ws (w' @ xs) = xs" using members_hd [OF more(7)] by (intro drop_space [OF more(6)]) (simp add: is_ws_def)
  moreover have "suffix xs s" using more.prems(2) suffix_drops(2) [of "k @ w1 @ [0x3A] @ w2 @ v @ w @ [0x2C] @ w'" xs s] by simp
  ultimately show ?case using member_step [OF f _ more(1-3) more(5) _ _ key, of v "0x2C" "w' @ xs"] more by (simp add: lookup_in_def)
qed



end
