(* ===== verification/Nerr.thy ===== *)
theory Nerr
  imports Nx_Prelude
begin

text \<open>
  The error codes of the network and provider path (lib/include/nanox/nerr.h) and their classification
  (lib/net/nerr.c). Codes are integers as in the code: functions that return a slot or an error return the
  negated code.
\<close>

section \<open>Codes\<close>

abbreviation (input) NXE_OK :: int where "NXE_OK \<equiv> 0"
abbreviation (input) NXE_LINK_DOWN :: int where "NXE_LINK_DOWN \<equiv> 1"
abbreviation (input) NXE_ARP_TIMEOUT :: int where "NXE_ARP_TIMEOUT \<equiv> 2"
abbreviation (input) NXE_DNS_TIMEOUT :: int where "NXE_DNS_TIMEOUT \<equiv> 3"
abbreviation (input) NXE_DNS_NOTFOUND :: int where "NXE_DNS_NOTFOUND \<equiv> 4"
abbreviation (input) NXE_DNS_BAD_REPLY :: int where "NXE_DNS_BAD_REPLY \<equiv> 5"
abbreviation (input) NXE_CONN_REFUSED :: int where "NXE_CONN_REFUSED \<equiv> 6"
abbreviation (input) NXE_CONN_TIMEOUT :: int where "NXE_CONN_TIMEOUT \<equiv> 7"
abbreviation (input) NXE_CONN_RESET :: int where "NXE_CONN_RESET \<equiv> 8"
abbreviation (input) NXE_UNACKED_TIMEOUT :: int where "NXE_UNACKED_TIMEOUT \<equiv> 9"
abbreviation (input) NXE_PEER_CLOSED :: int where "NXE_PEER_CLOSED \<equiv> 10"
abbreviation (input) NXE_NET_IO :: int where "NXE_NET_IO \<equiv> 11"
abbreviation (input) NXE_NET_TIMEOUT :: int where "NXE_NET_TIMEOUT \<equiv> 12"
abbreviation (input) NXE_TLS_CERT_UNTRUSTED :: int where "NXE_TLS_CERT_UNTRUSTED \<equiv> 32"
abbreviation (input) NXE_TLS_CERT_EXPIRED :: int where "NXE_TLS_CERT_EXPIRED \<equiv> 33"
abbreviation (input) NXE_TLS_CERT_NAME :: int where "NXE_TLS_CERT_NAME \<equiv> 34"
abbreviation (input) NXE_TLS_CERT_BAD :: int where "NXE_TLS_CERT_BAD \<equiv> 35"
abbreviation (input) NXE_TLS_BAD_SIGNATURE :: int where "NXE_TLS_BAD_SIGNATURE \<equiv> 36"
abbreviation (input) NXE_TLS_ALERT :: int where "NXE_TLS_ALERT \<equiv> 37"
abbreviation (input) NXE_TLS_PROTOCOL :: int where "NXE_TLS_PROTOCOL \<equiv> 38"
abbreviation (input) NXE_TLS_DECRYPT :: int where "NXE_TLS_DECRYPT \<equiv> 39"
abbreviation (input) NXE_TLS_UNSUPPORTED :: int where "NXE_TLS_UNSUPPORTED \<equiv> 40"
abbreviation (input) NXE_PRV_BAD_REQUEST :: int where "NXE_PRV_BAD_REQUEST \<equiv> 64"
abbreviation (input) NXE_PRV_AUTH :: int where "NXE_PRV_AUTH \<equiv> 65"
abbreviation (input) NXE_PRV_NOT_FOUND :: int where "NXE_PRV_NOT_FOUND \<equiv> 66"
abbreviation (input) NXE_PRV_RATE_LIMIT :: int where "NXE_PRV_RATE_LIMIT \<equiv> 67"
abbreviation (input) NXE_PRV_OVERLOADED :: int where "NXE_PRV_OVERLOADED \<equiv> 68"
abbreviation (input) NXE_PRV_SERVER :: int where "NXE_PRV_SERVER \<equiv> 69"
abbreviation (input) NXE_PRV_MALFORMED_HTTP :: int where "NXE_PRV_MALFORMED_HTTP \<equiv> 70"
abbreviation (input) NXE_PRV_MALFORMED :: int where "NXE_PRV_MALFORMED \<equiv> 71"
abbreviation (input) NXE_PRV_STREAM_ERROR :: int where "NXE_PRV_STREAM_ERROR \<equiv> 72"
abbreviation (input) NXE_PRV_TIMEOUT :: int where "NXE_PRV_TIMEOUT \<equiv> 73"
abbreviation (input) NXE_PRV_TRUNCATED :: int where "NXE_PRV_TRUNCATED \<equiv> 74"
abbreviation (input) NXE_PRV_BAD_TOOL :: int where "NXE_PRV_BAD_TOOL \<equiv> 75"
abbreviation (input) NXE_PRV_NO_ANSWER :: int where "NXE_PRV_NO_ANSWER \<equiv> 76"
abbreviation (input) NXE_PRV_TOO_LARGE :: int where "NXE_PRV_TOO_LARGE \<equiv> 77"
abbreviation (input) NXE_ACT_FAILED :: int where "NXE_ACT_FAILED \<equiv> 96"
abbreviation (input) NXE_ACT_VERIFY_FAILED :: int where "NXE_ACT_VERIFY_FAILED \<equiv> 97"
abbreviation (input) NXE_ACT_REJECTED :: int where "NXE_ACT_REJECTED \<equiv> 98"
abbreviation (input) NXE_ACT_UNKNOWN :: int where "NXE_ACT_UNKNOWN \<equiv> 99"
abbreviation (input) NXE_LOC_CONFIG :: int where "NXE_LOC_CONFIG \<equiv> 128"
abbreviation (input) NXE_LOC_NO_KEY :: int where "NXE_LOC_NO_KEY \<equiv> 129"
abbreviation (input) NXE_LOC_ENTROPY :: int where "NXE_LOC_ENTROPY \<equiv> 130"
abbreviation (input) NXE_LOC_RESOURCES :: int where "NXE_LOC_RESOURCES \<equiv> 131"
abbreviation (input) NXE_LOC_INTERNAL :: int where "NXE_LOC_INTERNAL \<equiv> 132"
abbreviation (input) NXE_LOC_BAD_ARG :: int where "NXE_LOC_BAD_ARG \<equiv> 133"

abbreviation (input) NXC_OK :: int where "NXC_OK \<equiv> 0"
abbreviation (input) NXC_NET :: int where "NXC_NET \<equiv> 1"
abbreviation (input) NXC_TLS :: int where "NXC_TLS \<equiv> 2"
abbreviation (input) NXC_PROVIDER :: int where "NXC_PROVIDER \<equiv> 3"
abbreviation (input) NXC_ACTION :: int where "NXC_ACTION \<equiv> 4"
abbreviation (input) NXC_LOCAL :: int where "NXC_LOCAL \<equiv> 5"
abbreviation (input) NXC_UNCLASSIFIED :: int where "NXC_UNCLASSIFIED \<equiv> 6"

section \<open>Names and classes\<close>

definition nx_err_name :: "int \<Rightarrow> string" where
  "nx_err_name e =
    (if e = NXE_OK then ''ok''
     else if e = NXE_LINK_DOWN then ''link_down''
     else if e = NXE_ARP_TIMEOUT then ''arp_timeout''
     else if e = NXE_DNS_TIMEOUT then ''dns_timeout''
     else if e = NXE_DNS_NOTFOUND then ''dns_notfound''
     else if e = NXE_DNS_BAD_REPLY then ''dns_bad_reply''
     else if e = NXE_CONN_REFUSED then ''conn_refused''
     else if e = NXE_CONN_TIMEOUT then ''conn_timeout''
     else if e = NXE_CONN_RESET then ''conn_reset''
     else if e = NXE_UNACKED_TIMEOUT then ''unacked_timeout''
     else if e = NXE_PEER_CLOSED then ''peer_closed''
     else if e = NXE_NET_IO then ''net_io''
     else if e = NXE_NET_TIMEOUT then ''net_timeout''
     else if e = NXE_TLS_CERT_UNTRUSTED then ''cert_untrusted''
     else if e = NXE_TLS_CERT_EXPIRED then ''cert_expired''
     else if e = NXE_TLS_CERT_NAME then ''cert_name''
     else if e = NXE_TLS_CERT_BAD then ''cert_bad''
     else if e = NXE_TLS_BAD_SIGNATURE then ''bad_signature''
     else if e = NXE_TLS_ALERT then ''tls_alert''
     else if e = NXE_TLS_PROTOCOL then ''tls_protocol''
     else if e = NXE_TLS_DECRYPT then ''tls_decrypt''
     else if e = NXE_TLS_UNSUPPORTED then ''tls_unsupported''
     else if e = NXE_PRV_BAD_REQUEST then ''bad_request''
     else if e = NXE_PRV_AUTH then ''auth''
     else if e = NXE_PRV_NOT_FOUND then ''not_found''
     else if e = NXE_PRV_RATE_LIMIT then ''rate_limit''
     else if e = NXE_PRV_OVERLOADED then ''overloaded''
     else if e = NXE_PRV_SERVER then ''server_error''
     else if e = NXE_PRV_MALFORMED_HTTP then ''malformed_http''
     else if e = NXE_PRV_MALFORMED then ''malformed''
     else if e = NXE_PRV_STREAM_ERROR then ''stream_error''
     else if e = NXE_PRV_TIMEOUT then ''provider_timeout''
     else if e = NXE_PRV_TRUNCATED then ''truncated''
     else if e = NXE_PRV_BAD_TOOL then ''bad_tool''
     else if e = NXE_PRV_NO_ANSWER then ''no_answer''
     else if e = NXE_PRV_TOO_LARGE then ''too_large''
     else if e = NXE_ACT_FAILED then ''action_failed''
     else if e = NXE_ACT_VERIFY_FAILED then ''verify_failed''
     else if e = NXE_ACT_REJECTED then ''action_rejected''
     else if e = NXE_ACT_UNKNOWN then ''outcome_unknown''
     else if e = NXE_LOC_CONFIG then ''config''
     else if e = NXE_LOC_NO_KEY then ''no_key''
     else if e = NXE_LOC_ENTROPY then ''entropy''
     else if e = NXE_LOC_RESOURCES then ''resources''
     else if e = NXE_LOC_INTERNAL then ''internal''
     else if e = NXE_LOC_BAD_ARG then ''bad_arg''
     else ''unknown'')"

definition nx_err_class :: "int \<Rightarrow> int" where
  "nx_err_class e =
     (if e = NXE_OK then NXC_OK
      else if e \<ge> NXE_LINK_DOWN \<and> e \<le> NXE_NET_TIMEOUT then NXC_NET
      else if e \<ge> NXE_TLS_CERT_UNTRUSTED \<and> e \<le> NXE_TLS_UNSUPPORTED then NXC_TLS
      else if e \<ge> NXE_PRV_BAD_REQUEST \<and> e \<le> NXE_PRV_TOO_LARGE then NXC_PROVIDER
      else if e \<ge> NXE_ACT_FAILED \<and> e \<le> NXE_ACT_UNKNOWN then NXC_ACTION
      else NXC_LOCAL)"

definition nx_err_class_name :: "int \<Rightarrow> string" where
  "nx_err_class_name c =
     (if c = NXC_OK then ''ok''
      else if c = NXC_NET then ''net''
      else if c = NXC_TLS then ''tls''
      else if c = NXC_PROVIDER then ''provider''
      else if c = NXC_ACTION then ''action''
      else if c = NXC_LOCAL then ''local''
      else if c = NXC_UNCLASSIFIED then ''unclassified''
      else ''?'')"

definition nx_err_retryable :: "int \<Rightarrow> bool" where
  "nx_err_retryable e \<longleftrightarrow>
     e \<in> {NXE_LINK_DOWN, NXE_ARP_TIMEOUT, NXE_DNS_TIMEOUT, NXE_CONN_REFUSED, NXE_CONN_TIMEOUT, NXE_CONN_RESET,
       NXE_UNACKED_TIMEOUT, NXE_PEER_CLOSED, NXE_NET_TIMEOUT, NXE_PRV_RATE_LIMIT, NXE_PRV_OVERLOADED,
       NXE_PRV_SERVER, NXE_PRV_STREAM_ERROR, NXE_PRV_TIMEOUT, NXE_PRV_TRUNCATED}"

definition nx_err_from_http :: "u32 \<Rightarrow> int" where
  "nx_err_from_http status =
     (if status \<ge> 200 \<and> status < 300 then NXE_OK
      else if status = 401 \<or> status = 403 then NXE_PRV_AUTH
      else if status = 404 then NXE_PRV_NOT_FOUND
      else if status = 429 then NXE_PRV_RATE_LIMIT
      else if status = 529 then NXE_PRV_OVERLOADED
      else if status \<ge> 500 \<and> status < 600 then NXE_PRV_SERVER
      else if status \<ge> 400 \<and> status < 500 then NXE_PRV_BAD_REQUEST
      else NXE_PRV_MALFORMED_HTTP)"

section \<open>What the classes promise\<close>

lemma http_class: "nx_err_from_http status = NXE_OK \<or> nx_err_class (nx_err_from_http status) = NXC_PROVIDER"
  by (auto simp: nx_err_from_http_def nx_err_class_def)

lemma http_retryable:
  "nx_err_retryable (nx_err_from_http status) \<longleftrightarrow> status = 429 \<or> (500 \<le> status \<and> status < 600)"
  by (auto simp: nx_err_from_http_def nx_err_retryable_def word_le_nat_alt word_less_nat_alt)

lemma retryable_class: "nx_err_retryable e \<Longrightarrow> nx_err_class e \<in> {NXC_NET, NXC_PROVIDER}"
  by (auto simp: nx_err_retryable_def nx_err_class_def)

end
