(* ===== verification/Inet.thy ===== *)
theory Inet
  imports Nerr "HOL-Library.Monad_Syntax"
begin

text \<open>
  The pure part of the network stack (lib/net/inet.h, lib/net/net.c): big-endian fields, sequence numbers,
  the Internet checksum, dotted addresses and DNS messages. A pointer into a buffer is an offset into a
  byte list; reading or writing outside the list is None.
\<close>

section \<open>Buffers and big-endian fields\<close>

definition rd8 :: "bytes \<Rightarrow> nat \<Rightarrow> u8 option" where
  "rd8 b i = (if i < length b then Some (b ! i) else None)"

definition rd16 :: "bytes \<Rightarrow> nat \<Rightarrow> u16 option" where
  "rd16 b i = do { x \<leftarrow> rd8 b i; y \<leftarrow> rd8 b (i + 1); Some (push_bit 8 (ucast x) OR ucast y) }"

definition rd32 :: "bytes \<Rightarrow> nat \<Rightarrow> u32 option" where
  "rd32 b i = do { x \<leftarrow> rd8 b i; y \<leftarrow> rd8 b (i + 1); z \<leftarrow> rd8 b (i + 2); w \<leftarrow> rd8 b (i + 3);
     Some (push_bit 24 (ucast x) OR push_bit 16 (ucast y) OR push_bit 8 (ucast z) OR ucast w) }"

definition be16 :: "u16 \<Rightarrow> bytes" where
  "be16 v = [ucast (drop_bit 8 v), ucast v]"

definition be32 :: "u32 \<Rightarrow> bytes" where
  "be32 v = [ucast (drop_bit 24 v), ucast (drop_bit 16 v), ucast (drop_bit 8 v), ucast v]"

text \<open>\<open>memcpy\<close> out of a buffer and into a buffer.\<close>

definition bytes_at :: "bytes \<Rightarrow> nat \<Rightarrow> nat \<Rightarrow> bytes option" where
  "bytes_at b i n = (if i + n \<le> length b then Some (take n (drop i b)) else None)"

definition put_bytes :: "bytes \<Rightarrow> nat \<Rightarrow> bytes \<Rightarrow> bytes option" where
  "put_bytes b i xs = (if i + length xs \<le> length b then Some (take i b @ xs @ drop (i + length xs) b) else None)"

definition wr16 :: "bytes \<Rightarrow> nat \<Rightarrow> u16 \<Rightarrow> bytes option" where
  "wr16 b i v = put_bytes b i (be16 v)"

definition wr32 :: "bytes \<Rightarrow> nat \<Rightarrow> u32 \<Rightarrow> bytes option" where
  "wr32 b i v = put_bytes b i (be32 v)"

section \<open>Sequence numbers\<close>

definition seq_lt :: "u32 \<Rightarrow> u32 \<Rightarrow> bool" where
  "seq_lt a b \<longleftrightarrow> sint (a - b) < 0"

definition seq_le :: "u32 \<Rightarrow> u32 \<Rightarrow> bool" where
  "seq_le a b \<longleftrightarrow> sint (a - b) \<le> 0"

section \<open>The Internet checksum\<close>

definition pseudo_sum :: "u32 \<Rightarrow> u32 \<Rightarrow> u8 \<Rightarrow> u32 \<Rightarrow> u32" where
  "pseudo_sum src dst proto len =
     drop_bit 16 src + (src AND 0xFFFF) + drop_bit 16 dst + (dst AND 0xFFFF) + ucast proto + len"

fun sum_words :: "bytes \<Rightarrow> u64 \<Rightarrow> u64" where
  "sum_words (a # b # bs) s = sum_words bs (s + (push_bit 8 (ucast a) OR ucast b))"
| "sum_words [a] s = s + push_bit 8 (ucast a)"
| "sum_words [] s = s"

lemma fold_decreases:
  assumes "drop_bit 16 (s :: u64) \<noteq> 0"
  shows "unat ((s AND 0xFFFF) + drop_bit 16 s) < unat s"
proof -
  have a: "unat (s AND 0xFFFF) = unat s mod 65536"
    using and_mask_mod [of s 16] by (simp add: mask_eq_exp_minus_1 unat_mod)
  have d: "unat (drop_bit 16 s) = unat s div 65536"
    by (simp add: drop_bit_eq_div unat_div)
  have "0 < unat s div 65536" using assms d by (metis gr_zeroI unat_eq_zero)
  moreover have "unat s = 65536 * (unat s div 65536) + unat s mod 65536" by simp
  moreover have "unat ((s AND 0xFFFF) + drop_bit 16 s) = unat s mod 65536 + unat s div 65536"
    using a d unat_u64_less [of s] by (simp add: unat_add_small)
  ultimately show ?thesis by linarith
qed

function fold16 :: "u64 \<Rightarrow> u64" where
  "fold16 s = (if drop_bit 16 s = 0 then s else fold16 ((s AND 0xFFFF) + drop_bit 16 s))"
  by pat_completeness auto
termination
  by (relation "measure unat") (simp_all add: fold_decreases)

declare fold16.simps [simp del]

definition net_checksum :: "bytes \<Rightarrow> u32 \<Rightarrow> u16" where
  "net_checksum bs s = NOT (ucast (fold16 (sum_words bs (ucast s))))"

section \<open>Dotted addresses\<close>

text \<open>A C string is the list of its characters before the terminating NUL.\<close>

fun ip_digits :: "bytes \<Rightarrow> u32 \<Rightarrow> u32 \<Rightarrow> u32 \<times> u32 \<times> bytes" where
  "ip_digits (c # s) v n =
     (if 0x30 \<le> c \<and> c \<le> 0x39 \<and> n < 3 then ip_digits s (v * 10 + (ucast c - 0x30)) (n + 1)
      else (v, n, c # s))"
| "ip_digits [] v n = (v, n, [])"

fun ip_parts :: "nat \<Rightarrow> bytes \<Rightarrow> u32 \<Rightarrow> u32 option" where
  "ip_parts 0 s ip = (if s \<noteq> [] then None else Some ip)"
| "ip_parts (Suc n) s ip =
     (let (v, digits, s) = ip_digits s 0 0 in
      if digits = 0 \<or> v > 255 then None
      else let ip = push_bit 8 ip OR v in
      if n = 0 then ip_parts 0 s ip
      else case s of c # s \<Rightarrow> if c \<noteq> 0x2E then None else ip_parts n s ip | [] \<Rightarrow> None)"

definition net_parse_ip :: "bytes \<Rightarrow> u32 option" where
  "net_parse_ip s = ip_parts 4 s 0"

function dec_rev :: "u32 \<Rightarrow> bytes" where
  "dec_rev v = (0x30 + ucast (v mod 10)) # (if v div 10 = 0 then [] else dec_rev (v div 10))"
  by pat_completeness auto
termination
proof (relation "measure unat")
  fix v :: u32 assume "v div 10 \<noteq> 0"
  then have "unat (v div 10) \<noteq> 0" by (metis unat_eq_zero)
  then have "unat v div 10 \<noteq> 0" by (simp add: unat_div)
  then show "(v div 10, v) \<in> measure unat" by (simp add: unat_div)
qed simp

declare dec_rev.simps [simp del]

definition ip_part :: "u32 \<Rightarrow> nat \<Rightarrow> bytes" where
  "ip_part ip part = rev (dec_rev (drop_bit (part * 8) ip AND 0xFF))"

definition net_format_ip :: "u32 \<Rightarrow> bytes" where
  "net_format_ip ip = ip_part ip 3 @ 0x2E # ip_part ip 2 @ 0x2E # ip_part ip 1 @ 0x2E # ip_part ip 0"

end
