(* ===== verification/Dns.thy ===== *)
theory Dns
  imports Inet
begin

text \<open>
  DNS messages (dns_build_query, dns_skip_name and dns_parse_response of lib/net/net.c). Offsets are 32-bit
  words as in the code. The name is a C string, the list of the characters before the terminating NUL.
\<close>

section \<open>The query\<close>

definition dns_char :: "u8 \<Rightarrow> bool" where
  "dns_char c \<longleftrightarrow> (0x61 \<le> c \<and> c \<le> 0x7A) \<or> (0x41 \<le> c \<and> c \<le> 0x5A) \<or> (0x30 \<le> c \<and> c \<le> 0x39)
     \<or> c = 0x2D \<or> c = 0x5F"

text \<open>The copy of a label stops at the first character that is not allowed, which is an inner None.\<close>

fun dns_copy :: "bytes \<Rightarrow> u32 \<Rightarrow> bytes \<Rightarrow> (u32 option \<times> bytes) option" where
  "dns_copy [] n out = Some (Some n, out)"
| "dns_copy (c # cs) n out =
     (if \<not> dns_char c then Some (None, out)
      else do { out \<leftarrow> put_bytes out (unat n) [c]; dns_copy cs (n + 1) out })"

function dns_labels :: "bytes \<Rightarrow> u32 \<Rightarrow> bytes \<Rightarrow> (u32 option \<times> bytes) option" where
  "dns_labels p n out =
     (if p = [] then Some (Some n, out)
      else let lab = takeWhile (\<lambda>c. c \<noteq> 0x2E) p; dot = dropWhile (\<lambda>c. c \<noteq> 0x2E) p; l = of_nat (length lab) in
      if l = 0 \<or> l > 63 \<or> n + 1 + l + 1 + 4 > of_nat (length out) \<or> n + l > 12 + 253 then Some (None, out)
      else do {
        out \<leftarrow> put_bytes out (unat n) [ucast l];
        r \<leftarrow> dns_copy lab (n + 1) out;
        (case r of
           (None, out) \<Rightarrow> Some (None, out)
         | (Some n, out) \<Rightarrow> dns_labels (tl dot) n out) })"

  by pat_completeness auto
termination
proof (relation "measure (\<lambda>(p, n, out). length p)")
  fix p :: bytes and n l :: u32 and out x y lab dot and r :: "u32 option \<times> bytes" and m b
  assume "p \<noteq> []" "dot = dropWhile (\<lambda>c. c \<noteq> 0x2E) p"
  then show "((tl dot, m, b), p, n, out) \<in> measure (\<lambda>(p, n, out). length p)"
    using length_dropWhile_le [of "\<lambda>c. c \<noteq> 0x2E" p] by (cases "dropWhile (\<lambda>c. c \<noteq> 0x2E) p") simp_all
qed simp

declare dns_labels.simps [simp del]

text \<open>The result is the length of the query, 0 when the name is refused, and the buffer.\<close>

definition dns_build_query :: "u16 \<Rightarrow> bytes \<Rightarrow> bytes \<Rightarrow> (u32 \<times> bytes) option" where
  "dns_build_query qid name out =
     (if (of_nat (length out) :: u32) < 12 + 2 + 4 then Some (0, out)
      else do {
        out \<leftarrow> put_bytes out 0 (replicate 12 0);
        out \<leftarrow> wr16 out 0 qid;
        out \<leftarrow> put_bytes out 2 [0x01];
        out \<leftarrow> wr16 out 4 1;
        if name = [] then Some (0, out)
        else do {
        r \<leftarrow> dns_labels name 12 out;
        (case r of
           (None, out) \<Rightarrow> Some (0, out)
         | (Some n, out) \<Rightarrow> do {
             out \<leftarrow> put_bytes out (unat n) [0];
             out \<leftarrow> wr16 out (unat (n + 1)) 1;
             out \<leftarrow> wr16 out (unat (n + 1 + 2)) 1;
             Some (n + 1 + 4, out) }) } })"

section \<open>The response\<close>

text \<open>The offset after the name, 0 when it is malformed.\<close>

fun dns_skip :: "nat \<Rightarrow> bytes \<Rightarrow> u32 \<Rightarrow> u32 \<Rightarrow> u32 option" where
  "dns_skip 0 m len off = Some 0"
| "dns_skip (Suc guard) m len off =
     (if off \<ge> len then Some 0
      else do {
        l \<leftarrow> rd8 m (unat off);
        if l = 0 then Some (off + 1)
        else if l AND 0xC0 = 0xC0 then Some (if off + 2 \<le> len then off + 2 else 0)
        else if l AND 0xC0 \<noteq> 0 then Some 0
        else dns_skip guard m len (off + (1 + ucast l)) })"

definition dns_skip_name :: "bytes \<Rightarrow> u32 \<Rightarrow> u32 \<Rightarrow> u32 option" where
  "dns_skip_name = dns_skip 128"

text \<open>The offset after the questions, an inner None when one is malformed.\<close>

fun dns_questions :: "nat \<Rightarrow> bytes \<Rightarrow> u32 \<Rightarrow> u32 \<Rightarrow> u32 option option" where
  "dns_questions 0 m len off = Some (Some off)"
| "dns_questions (Suc q) m len off = do {
     off \<leftarrow> dns_skip_name m len off;
     if off = 0 \<or> off + 4 > len then Some None else dns_questions q m len (off + 4) }"

fun dns_answers :: "nat \<Rightarrow> bytes \<Rightarrow> u32 \<Rightarrow> u32 \<Rightarrow> (int \<times> u32 option) option" where
  "dns_answers 0 m len off = Some (NXE_DNS_NOTFOUND, None)"
| "dns_answers (Suc a) m len off = do {
     off \<leftarrow> dns_skip_name m len off;
     if off = 0 \<or> off + 10 > len then Some (NXE_DNS_BAD_REPLY, None)
     else do {
       type \<leftarrow> rd16 m (unat off);
       cls \<leftarrow> rd16 m (unat (off + 2));
       rdlen \<leftarrow> rd16 m (unat (off + 8));
       let off = off + 10;
       if off + ucast rdlen > len then Some (NXE_DNS_BAD_REPLY, None)
       else if type = 1 \<and> cls = 1 \<and> rdlen = 4 then do { ip \<leftarrow> rd32 m (unat off); Some (NXE_OK, Some ip) }
       else dns_answers a m len (off + ucast rdlen) } }"

definition dns_parse_response :: "bytes \<Rightarrow> u16 \<Rightarrow> (int \<times> u32 option) option" where
  "dns_parse_response m qid =
     (let len = of_nat (length m) in
      if len < 12 then Some (NXE_DNS_BAD_REPLY, None)
      else do {
        rid \<leftarrow> rd16 m 0;
        b2 \<leftarrow> rd8 m 2;
        if rid \<noteq> qid \<or> b2 AND 0x80 = 0 then Some (NXE_DNS_BAD_REPLY, None)
        else do {
        b3 \<leftarrow> rd8 m 3;
        let rcode = b3 AND 0x0F;
        if rcode = 3 then Some (NXE_DNS_NOTFOUND, None)
        else if rcode \<noteq> 0 \<or> b2 AND 0x02 \<noteq> 0 then Some (NXE_DNS_BAD_REPLY, None)
        else do {
        qd \<leftarrow> rd16 m 4;
        an \<leftarrow> rd16 m 6;
        r \<leftarrow> dns_questions (unat qd) m len 12;
        (case r of
           None \<Rightarrow> Some (NXE_DNS_BAD_REPLY, None)
         | Some off \<Rightarrow> dns_answers (unat an) m len off) } } })"

end
