(* ===== verification/Checksum.thy ===== *)
theory Checksum
  imports Inet
begin

text \<open>
  The Internet checksum (net_checksum of lib/net/net.c) as arithmetic modulo 65535 (RFC 1071): what the
  folded sum is, that a message with its checksum filled in is accepted, and which corruptions are noticed.
\<close>

section \<open>Buffers\<close>

lemma put_bytes_length: "put_bytes b i xs = Some b' \<Longrightarrow> length b' = length b"
  by (auto simp: put_bytes_def split: if_splits)

lemma put_bytes_nth:
  assumes "put_bytes b i xs = Some b'" and "j < length b"
  shows "b' ! j = (if i \<le> j \<and> j < i + length xs then xs ! (j - i) else b ! j)"
  using assms by (auto simp: put_bytes_def nth_append split: if_splits)

lemma put_bytes_some: "(\<exists>b'. put_bytes b i xs = Some b') \<longleftrightarrow> i + length xs \<le> length b"
  by (simp add: put_bytes_def)

lemma length_be16 [simp]: "length (be16 v) = 2"
  by (simp add: be16_def)

lemma length_be32 [simp]: "length (be32 v) = 4"
  by (simp add: be32_def)

lemma unat_byte_less: "unat (x :: u8) < 256"
  using unsigned_less [of x, where ?'a = nat] by simp

lemma unat_u16_less: "unat (x :: u16) < 65536"
  using unsigned_less [of x, where ?'a = nat] by simp

section \<open>The sum of the words of a message\<close>

definition word16 :: "u8 \<Rightarrow> u8 \<Rightarrow> nat" where
  "word16 a b = 256 * unat a + unat b"

fun wsum :: "bytes \<Rightarrow> nat" where
  "wsum (a # b # bs) = word16 a b + wsum bs"
| "wsum [a] = word16 a 0"
| "wsum [] = 0"

lemma word16_less: "word16 a b < 65536"
  using unat_byte_less [of a] unat_byte_less [of b] by (simp add: word16_def)

lemma word16_be16: "word16 (ucast (drop_bit 8 v)) (ucast (v :: u16)) = unat v"
proof -
  have "unat (ucast (drop_bit 8 v) :: u8) = unat v div 256"
    using unat_u16_less [of v]
    by (simp add: unsigned_ucast_eq unsigned_drop_bit_eq drop_bit_eq_div take_bit_nat_eq_self unat_div)
  moreover have "unat (ucast v :: u8) = unat v mod 256"
    by (simp add: unsigned_ucast_eq take_bit_eq_mod)
  ultimately show ?thesis by (simp add: word16_def)
qed

lemma wsum_le: "wsum bs \<le> 65535 * length bs"
proof (induction bs rule: wsum.induct)
  case (1 a b bs) then show ?case using word16_less [of a b] by simp
next
  case (2 a) then show ?case using word16_less [of a 0] by simp
qed simp

lemma unat_word16_u64: "unat (push_bit 8 (ucast a :: u64) OR ucast (b :: u8)) = word16 a b"
proof -
  have "push_bit 8 (ucast a :: u64) OR ucast b = push_bit 8 (ucast a) + ucast b"
    by (rule sym, rule disjunctive_add) (auto simp: bit_simps dest: bit_imp_le_length)
  moreover have "unat (push_bit 8 (ucast a :: u64)) = 256 * unat a"
    using unat_byte_less [of a]
    by (simp add: push_bit_eq_mult unat_word_ariths unsigned_ucast_eq take_bit_nat_eq_self)
  moreover have "unat (ucast b :: u64) = unat b"
    using unat_byte_less [of b] by (simp add: unsigned_ucast_eq take_bit_nat_eq_self)
  ultimately show ?thesis
    using unat_byte_less [of a] unat_byte_less [of b] by (simp add: word16_def unat_add_small)
qed

lemma sum_words_exact:
  assumes "wsum bs + unat s < 2 ^ 64"
  shows "unat (sum_words bs s) = wsum bs + unat s"
  using assms
proof (induction bs s rule: sum_words.induct)
  case (1 a b bs s)
  have "unat (s + (push_bit 8 (ucast a) OR ucast b)) = unat s + word16 a b"
    using 1(2) unat_word16_u64 [of a b] by (subst unat_add_small) simp_all
  then show ?case using 1 by simp
next
  case (2 a s)
  then show ?case using unat_word16_u64 [of a 0] by (subst sum_words.simps, subst unat_add_small) simp_all
qed simp

section \<open>Folding\<close>

definition ones :: "nat \<Rightarrow> nat" where
  "ones n = (if n = 0 then 0 else if n mod 65535 = 0 then 65535 else n mod 65535)"

lemma ones_less: "ones n < 65536"
proof -
  have "n mod 65535 < 65535" by (rule mod_less_divisor) simp
  then have "n mod 65535 < 65536" by linarith
  then show ?thesis unfolding ones_def by (simp only: if_distrib split: if_split) simp
qed

lemma ones_small: "n < 65536 \<Longrightarrow> ones n = n"
  by (cases "n = 65535") (auto simp: ones_def)

lemma ones_fold:
  assumes "n div 65536 \<noteq> 0"
  shows "ones (n mod 65536 + n div 65536) = ones n"
proof -
  have "n = 65535 * (n div 65536) + (n mod 65536 + n div 65536)" by simp
  then have "n mod 65535 = (n mod 65536 + n div 65536) mod 65535" by (metis mod_mult_self4 mult.commute)
  moreover have "n mod 65536 + n div 65536 \<noteq> 0" "n \<noteq> 0" using assms by (auto intro: Nat.gr0I)
  ultimately show ?thesis by (simp add: ones_def)
qed

lemma fold16_exact: "unat (fold16 s) = ones (unat s)"
proof (induction s rule: fold16.induct)
  case (1 s)
  have d: "unat (drop_bit 16 s) = unat s div 65536" by (simp add: drop_bit_eq_div unat_div)
  show ?case
  proof (cases "drop_bit 16 s = 0")
    case True
    then have "unat s div 65536 = 0" using d by simp
    then show ?thesis using True by (subst fold16.simps) (simp add: ones_small)
  next
    case False
    have a: "unat (s AND 0xFFFF) = unat s mod 65536"
      using and_mask_mod [of s 16] by (simp add: mask_eq_exp_minus_1 unat_mod)
    have "unat ((s AND 0xFFFF) + drop_bit 16 s) = unat s mod 65536 + unat s div 65536"
      using a d unat_u64_less [of s] by (simp add: unat_add_small)
    moreover have "unat s div 65536 \<noteq> 0" using False d by (metis unat_eq_zero)
    ultimately show ?thesis using 1 [OF False] False by (subst fold16.simps) (simp add: ones_fold)
  qed
qed

lemma unat_not_u16: "unat (NOT x :: u16) = 65535 - unat x"
proof -
  have "unat (- 1 :: u16) = 65535" by (simp add: unsigned_minus_1_eq_mask mask_eq_exp_minus_1)
  moreover have "NOT x = - 1 - x" by (simp add: not_eq_complement)
  ultimately show ?thesis by (simp add: unat_sub_small)
qed

lemma net_checksum_value:
  assumes "length bs < 2 ^ 32"
  shows "unat (net_checksum bs s) = 65535 - ones (wsum bs + unat s)"
proof -
  have "wsum bs + unat (ucast s :: u64) < 2 ^ 64"
    using wsum_le [of bs] assms unat_u32_less [of s] by (simp add: unsigned_ucast_eq take_bit_nat_eq_self)
  then have f: "unat (fold16 (sum_words bs (ucast s))) = ones (wsum bs + unat s)"
    using unat_u32_less [of s]
    by (simp add: fold16_exact sum_words_exact unsigned_ucast_eq take_bit_nat_eq_self)
  then have "unat (ucast (fold16 (sum_words bs (ucast s))) :: u16) = ones (wsum bs + unat s)"
    using ones_less [of "wsum bs + unat s"] by (simp add: unsigned_ucast_eq take_bit_nat_eq_self)
  then show ?thesis
    by (simp add: net_checksum_def unat_not_u16)
qed

lemma net_checksum_zero:
  assumes "length bs < 2 ^ 32"
  shows "net_checksum bs s = 0 \<longleftrightarrow> wsum bs + unat s \<noteq> 0 \<and> 65535 dvd (wsum bs + unat s)"
proof -
  have "net_checksum bs s = 0 \<longleftrightarrow> ones (wsum bs + unat s) = 65535"
    using net_checksum_value [OF assms, of s] ones_less [of "wsum bs + unat s"]
    by (auto simp flip: unat_eq_zero)
  then show ?thesis using mod_less_divisor [of 65535 "wsum bs + unat s"]
    by (auto simp: ones_def dvd_eq_mod_eq_0)
qed

section \<open>Filling in and corrupting a word\<close>

lemma wsum_append: "even (length xs) \<Longrightarrow> wsum (xs @ ys) = wsum xs + wsum ys"
  by (induction xs rule: wsum.induct) simp_all

lemma wsum_put16:
  assumes "put_bytes m k (be16 w) = Some m'" and "even k"
  shows "wsum m' + word16 (m ! k) (m ! (k + 1)) = wsum m + unat w"
proof -
  have k: "k + 2 \<le> length m" and m': "m' = take k m @ be16 w @ drop (k + 2) m"
    using assms(1) by (simp_all add: put_bytes_def split: if_splits)
  have "m = take k m @ [m ! k, m ! (k + 1)] @ drop (k + 2) m"
    using k id_take_nth_drop [of k m] Cons_nth_drop_Suc [of "Suc k" m] by simp
  then have "wsum m = wsum (take k m @ [m ! k, m ! (k + 1)] @ drop (k + 2) m)" by simp
  also have "\<dots> = wsum (take k m) + word16 (m ! k) (m ! (k + 1)) + wsum (drop (k + 2) m)"
    using k assms(2) by (subst wsum_append) simp_all
  finally have "wsum m = wsum (take k m) + word16 (m ! k) (m ! (k + 1)) + wsum (drop (k + 2) m)" .
  moreover have "wsum m' = wsum (take k m) + unat w + wsum (drop (k + 2) m)"
    unfolding m' using k assms(2) by (subst wsum_append) (simp_all add: be16_def word16_be16)
  ultimately show ?thesis by simp
qed

lemma checksum_fill:
  assumes "length m < 2 ^ 32" and "even k" and "m ! k = 0" and "m ! (k + 1) = 0"
    and "put_bytes m k (be16 (net_checksum m s)) = Some m'"
  shows "net_checksum m' s = 0"
proof -
  have "wsum m' = wsum m + unat (net_checksum m s)"
    using wsum_put16 [OF assms(5,2)] assms(3,4) by (simp add: word16_def)
  then have "wsum m' + unat s = (wsum m + unat s) + (65535 - ones (wsum m + unat s))"
    using net_checksum_value [OF assms(1), of s] by simp
  moreover have up: "0 < n + (65535 - ones n) \<and> 65535 dvd (n + (65535 - ones n))" for n
  proof (cases "n mod 65535 = 0")
    case False
    have "n = 65535 * (n div 65535) + n mod 65535" by simp
    moreover have "n mod 65535 < 65535" by (rule mod_less_divisor) simp
    ultimately have "n + (65535 - n mod 65535) = 65535 * (n div 65535) + 65535" by linarith
    then have "n + (65535 - ones n) = 65535 * (n div 65535 + 1)" using False by (simp add: ones_def)
    then show ?thesis by simp
  qed (auto simp: ones_def)
  ultimately have "0 < wsum m' + unat s \<and> 65535 dvd (wsum m' + unat s)"
    using up [of "wsum m + unat s"] by (simp only:)
  then show ?thesis
    using put_bytes_length [OF assms(5)] assms(1) by (simp add: net_checksum_zero)
qed

lemma checksum_detects:
  assumes "length m < 2 ^ 32" and "even j" and "net_checksum m s = 0" and "put_bytes m j (be16 w) = Some m'"
    and "net_checksum m' s = 0"
  shows "unat w = word16 (m ! j) (m ! (j + 1)) \<or> {unat w, word16 (m ! j) (m ! (j + 1))} = {0, 65535}"
proof -
  define v where "v = word16 (m ! j) (m ! (j + 1))"
  have eq: "wsum m' + unat s + v = wsum m + unat s + unat w"
    using wsum_put16 [OF assms(4,2)] by (simp add: v_def)
  have "65535 dvd (wsum m + unat s)" "65535 dvd (wsum m' + unat s)"
    using assms(1,3,5) put_bytes_length [OF assms(4)] by (simp_all add: net_checksum_zero)
  then obtain a b where "wsum m + unat s = 65535 * a" "wsum m' + unat s = 65535 * b" by (elim dvdE)
  then have "v mod 65535 = unat w mod 65535" using eq by (metis mod_mult_self4)
  moreover have "v < 65536" "unat w < 65536" using word16_less unat_u16_less by (auto simp: v_def)
  moreover have mod_eq: "x = y \<or> {x, y} = {0, 65535}"
    if "x mod 65535 = y mod 65535" "x < 65536" "y < 65536" for x y :: nat
    using that by (cases "x = 65535"; cases "y = 65535") auto
  ultimately show ?thesis unfolding v_def [symmetric] using mod_eq [of "unat w" v] by simp
qed

text \<open>
  C32. The checksum of a message protects it. When the checksum of a message, computed with the checksum
  field zero, is stored in that field, the message with any initial sum passes the check, and no change of
  one aligned 16-bit word passes it, apart from exchanging the two representations of zero.
\<close>

theorem internet_checksum_sound:
  assumes "length m < 2 ^ 32" and "even k" and "m ! k = 0" and "m ! (k + 1) = 0"
    and "put_bytes m k (be16 (net_checksum m s)) = Some m'"
  shows "net_checksum m' s = 0
    \<and> (\<forall>j w m''. even j \<longrightarrow> put_bytes m' j (be16 w) = Some m''
          \<longrightarrow> unat w \<noteq> word16 (m' ! j) (m' ! (j + 1)) \<longrightarrow> {unat w, word16 (m' ! j) (m' ! (j + 1))} \<noteq> {0, 65535}
          \<longrightarrow> net_checksum m'' s \<noteq> 0)"
proof -
  have ok: "net_checksum m' s = 0" by (rule checksum_fill [OF assms])
  have len: "length m' < 2 ^ 32" using put_bytes_length [OF assms(5)] assms(1) by simp
  show ?thesis
  proof (intro conjI allI impI notI)
    fix j w m''
    assume "even j" "put_bytes m' j (be16 w) = Some m''" and o: "unat w \<noteq> word16 (m' ! j) (m' ! (j + 1))"
      "{unat w, word16 (m' ! j) (m' ! (j + 1))} \<noteq> {0, 65535}" and "net_checksum m'' s = 0"
    then show False using checksum_detects [OF len _ ok, of j w m''] by simp
  qed (rule ok)
qed

lemma demo_checksum: "net_checksum [8, 0, 0, 0, 1, 2] 0 = 0xF6FD"
  by (simp add: net_checksum_def, subst fold16.simps, simp)

theorem internet_checksum_sound_witness:
  "put_bytes [8, 0, 0, 0, 1, 2] 2 (be16 (net_checksum [8, 0, 0, 0, 1, 2] 0)) = Some [8, 0, 0xF6, 0xFD, 1, 2]
   \<and> net_checksum [8, 0, 0xF6, 0xFD, 1, 2] 0 = 0 \<and> net_checksum [8, 0, 0xF6, 0xFD, 1, 3] 0 \<noteq> 0"
proof -
  have put: "put_bytes [8, 0, 0, 0, 1, 2] 2 (be16 (net_checksum [8, 0, 0, 0, 1, 2] 0)) = Some [8, 0, 0xF6, 0xFD, 1, 2]"
    by (simp add: demo_checksum put_bytes_def be16_def)
  have change: "put_bytes [8, 0, 0xF6, 0xFD, 1, 2] 4 (be16 (0x0103 :: u16)) = Some [8, 0, 0xF6, 0xFD, 1, 3]"
    by (simp add: put_bytes_def be16_def)
  have other: "unat (0x0103 :: u16) \<noteq> word16 1 2" "{unat (0x0103 :: u16), word16 1 2} \<noteq> {0, 65535}"
    by (auto simp: word16_def)
  note sound = internet_checksum_sound [OF _ _ _ _ put]
  have "net_checksum [8, 0, 0xF6, 0xFD, 1, 2] 0 = 0" by (rule sound [THEN conjunct1]) simp_all
  moreover have "net_checksum [8, 0, 0xF6, 0xFD, 1, 3] 0 \<noteq> 0"
    by (rule sound [THEN conjunct2, rule_format, OF _ _ _ _ _ change]) (use other in simp_all)
  ultimately show ?thesis using put by simp
qed

end
