(* ===== verification/Dns_Exact.thy ===== *)
theory Dns_Exact
  imports Dns Checksum
begin

text \<open>
  The DNS code of lib/net/net.c on hostile and on expected input: parsing a response returns for every
  message and reads only inside it, building a query writes only inside its buffer, and the answer of a
  server to a built query is understood.
\<close>

section \<open>Reading fields\<close>

lemma rd8_some: "i < length b \<Longrightarrow> rd8 b i = Some (b ! i)"
  by (simp add: Inet.rd8_def)

lemma rd16_total: "i + 2 \<le> length b \<Longrightarrow> \<exists>v. rd16 b i = Some v"
  by (simp add: Inet.rd16_def rd8_some)

lemma rd32_total: "i + 4 \<le> length b \<Longrightarrow> \<exists>v. rd32 b i = Some v"
  by (simp add: Inet.rd32_def rd8_some)

lemma rd8_append: "rd8 (pre @ x # post) (length pre) = Some x"
  by (simp add: Inet.rd8_def)

lemma rd16_join: "push_bit 8 (ucast (ucast (drop_bit 8 v) :: u8)) OR ucast (ucast v :: u8) = (v :: u16)"
  by (rule bit_word_eqI) (auto simp: bit_simps)

lemma rd32_join:
  "push_bit 24 (ucast (ucast (drop_bit 24 v) :: u8)) OR push_bit 16 (ucast (ucast (drop_bit 16 v) :: u8))
     OR push_bit 8 (ucast (ucast (drop_bit 8 v) :: u8)) OR ucast (ucast v :: u8) = (v :: u32)"
proof (rule bit_word_eqI)
  fix n assume "n < LENGTH(32)"
  then consider "n < 8" | "8 \<le> n \<and> n < 16" | "16 \<le> n \<and> n < 24" | "24 \<le> n \<and> n < 32" by force
  then show "bit (push_bit 24 (ucast (ucast (drop_bit 24 v) :: u8) :: u32) OR push_bit 16 (ucast (ucast (drop_bit 16 v) :: u8))
     OR push_bit 8 (ucast (ucast (drop_bit 8 v) :: u8)) OR ucast (ucast v :: u8)) n = bit v n"
    by cases (auto simp: bit_simps)
qed

lemma rd16_be16: "rd16 (pre @ be16 v @ post) (length pre) = Some v"
  by (simp add: Inet.rd16_def Inet.rd8_def be16_def nth_append rd16_join)

lemma rd32_be32: "rd32 (pre @ be32 v @ post) (length pre) = Some v"
  by (simp add: Inet.rd32_def Inet.rd8_def be32_def nth_append rd32_join)

section \<open>Parsing returns\<close>

lemma unat_len: "length m < 2 ^ 31 \<Longrightarrow> unat (of_nat (length m) :: u32) = length m"
  by (simp add: unat_of_nat take_bit_nat_eq_self)

text \<open>Adding a small number to an offset inside the message does not wrap.\<close>

lemma off_add:
  assumes "unat (off :: u32) \<le> length m" and "length m < 2 ^ 31" and "unat d < 2 ^ 17"
  shows "unat (off + d) = unat off + unat d"
  using assms by (intro unat_add_small) simp

lemma dns_skip_total:
  assumes "length m < 2 ^ 31"
  shows "\<exists>off'. dns_skip g m (of_nat (length m)) off = Some off' \<and> (off' \<noteq> 0 \<longrightarrow> unat off' \<le> length m)"
proof (induction g arbitrary: off)
  case (Suc g)
  show ?case
  proof (cases "of_nat (length m) \<le> off")
    case False
    then have o: "unat off < length m" using unat_len [OF assms] by (simp add: word_le_nat_alt)
    have "unat (off + 1) = unat off + 1" "unat (off + 2) = unat off + 2"
      using off_add [OF less_imp_le [OF o] assms, of 1] off_add [OF less_imp_le [OF o] assms, of 2] by simp_all
    then show ?thesis using o Suc [of "off + (1 + ucast (m ! unat off))"] unat_len [OF assms]
      by (auto simp: rd8_some word_le_nat_alt)
  qed simp
qed simp

lemma dns_questions_total:
  assumes "length m < 2 ^ 31" and "unat off \<le> length m"
  shows "\<exists>r. dns_questions q m (of_nat (length m)) off = Some r \<and> (\<forall>off'. r = Some off' \<longrightarrow> unat off' \<le> length m)"
  using assms(2)
proof (induction q arbitrary: off)
  case (Suc q)
  obtain o1 where o1: "dns_skip_name m (of_nat (length m)) off = Some o1" "o1 \<noteq> 0 \<longrightarrow> unat o1 \<le> length m"
    using dns_skip_total [OF assms(1)] by (auto simp: dns_skip_name_def)
  show ?case
  proof (cases "o1 = 0 \<or> o1 + 4 > of_nat (length m)")
    case False
    then have "unat (o1 + 4) \<le> length m" using unat_len [OF assms(1)] by (simp add: word_less_nat_alt)
    then show ?thesis using Suc.IH [of "o1 + 4"] o1 False by auto
  qed (use o1 in auto)
qed simp

text \<open>A message carries an address record at an offset: the fields before it and the address.\<close>

definition a_record :: "bytes \<Rightarrow> nat \<Rightarrow> u32 \<Rightarrow> bool" where
  "a_record m off ip \<longleftrightarrow> rd16 m off = Some 1 \<and> rd16 m (off + 2) = Some 1 \<and> rd16 m (off + 8) = Some 4
     \<and> rd32 m (off + 10) = Some ip"

lemma dns_answers_total:
  assumes "length m < 2 ^ 31" and "unat off \<le> length m"
  shows "\<exists>e r. dns_answers a m (of_nat (length m)) off = Some (e, r)
     \<and> (case r of None \<Rightarrow> e \<in> {NXE_DNS_NOTFOUND, NXE_DNS_BAD_REPLY} | Some ip \<Rightarrow> e = NXE_OK \<and> (\<exists>i. a_record m i ip))"
  using assms(2)
proof (induction a arbitrary: off)
  case (Suc a)
  obtain o1 where o1: "dns_skip_name m (of_nat (length m)) off = Some o1" "o1 \<noteq> 0 \<longrightarrow> unat o1 \<le> length m"
    using dns_skip_total [OF assms(1)] by (auto simp: dns_skip_name_def)
  show ?case
  proof (cases "o1 = 0 \<or> o1 + 10 > of_nat (length m)")
    case False
    then have le: "unat o1 \<le> length m" using o1 by simp
    have add: "unat (o1 + d) = unat o1 + unat d" if "unat d < 2 ^ 17" for d
      by (rule off_add [OF le assms(1) that])
    have o10: "unat (o1 + 10) = unat o1 + 10" "unat o1 + 10 \<le> length m"
      using add [of 10] False unat_len [OF assms(1)] by (auto simp: word_less_nat_alt)
    have o28: "unat (o1 + 2) = unat o1 + 2" "unat (o1 + 8) = unat o1 + 8" using add [of 2] add [of 8] by simp_all
    obtain ty cls rl where f: "rd16 m (unat o1) = Some ty" "rd16 m (unat o1 + 2) = Some cls" "rd16 m (unat o1 + 8) = Some rl"
      using o10 rd16_total [of "unat o1" m] rd16_total [of "unat o1 + 2" m] rd16_total [of "unat o1 + 8" m] by auto
    have rl: "unat (o1 + 10 + ucast rl) = unat o1 + 10 + unat rl"
      using off_add [of "o1 + 10" m "ucast rl"] o10 assms(1) unat_u16_less [of rl]
      by (simp add: unsigned_ucast_eq take_bit_nat_eq_self)
    show ?thesis
    proof (cases "o1 + 10 + ucast rl > of_nat (length m)")
      case True
      then show ?thesis using o1 False f o28 by simp
    next
      case fits: False
      then have bound: "unat o1 + 10 + unat rl \<le> length m"
        using rl unat_len [OF assms(1)] by (simp add: word_less_nat_alt)
      show ?thesis
      proof (cases "ty = 1 \<and> cls = 1 \<and> rl = 4")
        case True
        then obtain ip where "rd32 m (unat o1 + 10) = Some ip" using rd32_total [of "unat o1 + 10" m] bound by auto
        then show ?thesis using o1 False f o28 o10 fits True
          by (auto simp: a_record_def intro!: exI [of _ "unat o1"])
      next
        case other: False
        then show ?thesis using o1 False f o28 fits Suc.IH [of "o1 + 10 + ucast rl"] bound rl by auto
      qed
    qed
  qed (use o1 in auto)
qed simp

text \<open>
  C33. Parsing a DNS response is safe. For every message of less than two gigabytes, whatever it holds, the parser
  returns and reads only inside the message; when it reports success the address is that of an Internet
  address record the message carries, under the identifier of the query.
\<close>

theorem dns_parse_safe:
  assumes "length m < 2 ^ 31"
  shows "\<exists>e r. dns_parse_response m qid = Some (e, r)
     \<and> (case r of None \<Rightarrow> e \<in> {NXE_DNS_NOTFOUND, NXE_DNS_BAD_REPLY}
        | Some ip \<Rightarrow> e = NXE_OK \<and> rd16 m 0 = Some qid \<and> (\<exists>i. a_record m i ip))"
proof (cases "(of_nat (length m) :: u32) < 12")
  case False
  then have len: "12 \<le> length m" using unat_len [OF assms] by (simp add: word_less_nat_alt)
  obtain rid qd an where f: "rd16 m 0 = Some rid" "rd16 m 4 = Some qd" "rd16 m 6 = Some an"
    using rd16_total [of 0 m] rd16_total [of 4 m] rd16_total [of 6 m] len by auto
  have b: "rd8 m 2 = Some (m ! 2)" "rd8 m 3 = Some (m ! 3)" using len by (simp_all add: rd8_some)
  obtain q where q: "dns_questions (unat qd) m (of_nat (length m)) 12 = Some q" "\<forall>off. q = Some off \<longrightarrow> unat off \<le> length m"
    using dns_questions_total [OF assms, of 12] len by auto
  show ?thesis
  proof (cases q)
    case None
    then show ?thesis using False f b q by (simp add: dns_parse_response_def Let_def)
  next
    case (Some off)
    then obtain e r where "dns_answers (unat an) m (of_nat (length m)) off = Some (e, r)"
      "case r of None \<Rightarrow> e \<in> {NXE_DNS_NOTFOUND, NXE_DNS_BAD_REPLY} | Some ip \<Rightarrow> e = NXE_OK \<and> (\<exists>i. a_record m i ip)"
      using dns_answers_total [OF assms, of off] q by blast
    then show ?thesis using False f b q Some by (auto simp: dns_parse_response_def Let_def split: option.splits)
  qed
qed (simp add: dns_parse_response_def)

theorem dns_parse_safe_witness:
  "\<exists>e r. dns_parse_response [1, 2, 3] 7 = Some (e, r)
     \<and> (case r of None \<Rightarrow> e \<in> {NXE_DNS_NOTFOUND, NXE_DNS_BAD_REPLY}
        | Some ip \<Rightarrow> e = NXE_OK \<and> rd16 [1, 2, 3] 0 = Some 7 \<and> (\<exists>i. a_record [1, 2, 3] i ip))"
  by (rule dns_parse_safe) simp

section \<open>The labels of a built query\<close>

definition enc_labels :: "bytes list \<Rightarrow> bytes" where
  "enc_labels labs = concat (map (\<lambda>l. of_nat (length l) # l) labs)"

definition label_ok :: "bytes \<Rightarrow> bool" where
  "label_ok l \<longleftrightarrow> l \<noteq> [] \<and> length l \<le> 63"

lemma label_count: "list_all label_ok labs \<Longrightarrow> 2 * length labs \<le> length (enc_labels labs)"
proof (induction labs)
  case (Cons a labs)
  then have "1 \<le> length a" by (simp add: label_ok_def Suc_le_eq)
  moreover have "length (enc_labels (a # labs)) = 1 + length a + length (enc_labels labs)"
    by (simp add: enc_labels_def)
  ultimately show ?case using Cons by simp
qed simp

lemma dns_copy_effect:
  assumes "unat n + length cs \<le> length out" and "length out < 2 ^ 31"
  shows "\<exists>r out'. dns_copy cs n out = Some (r, out') \<and> length out' = length out
     \<and> (\<forall>n'. r = Some n' \<longrightarrow> unat n' = unat n + length cs
          \<and> out' = take (unat n) out @ cs @ drop (unat n + length cs) out)"
  using assms
proof (induction cs arbitrary: n out)
  case (Cons c cs)
  define out1 where "out1 = take (unat n) out @ c # drop (unat n + 1) out"
  have put: "put_bytes out (unat n) [c] = Some out1" using Cons.prems by (simp add: put_bytes_def out1_def)
  have len: "length out1 = length out" using put by (rule put_bytes_length)
  have n1: "unat (n + 1) = unat n + 1" using Cons.prems by (subst unat_add_small) simp_all
  have tk: "take (unat n + 1) out1 = take (unat n) out @ [c]" and dr: "drop (unat n + 1 + k) out1 = drop (unat n + 1 + k) out" for k
    using Cons.prems by (simp_all add: out1_def min_def ac_simps)
  show ?case
  proof (cases "dns_char c")
    case True
    then show ?thesis using Cons.IH [of "n + 1" out1] Cons.prems put len n1 tk dr [of "length cs"] by auto
  qed simp
qed simp

lemma put_byte_form:
  assumes "i < length out"
  shows "put_bytes out i [x] = Some (take i out @ x # drop (i + 1) out)"
  using assms by (simp add: put_bytes_def)

lemma ucast_of_nat_small: "k < 256 \<Longrightarrow> (ucast (of_nat k :: u32) :: u8) = of_nat k"
  by (rule unsigned_word_eqI [where ?'a = nat]) (simp add: unsigned_ucast_eq unat_of_nat take_bit_nat_eq_self)

text \<open>One round of the loop over the labels: the name is refused, or a label is appended with room left.\<close>

lemma dns_label_round:
  assumes "p \<noteq> []" and "length p < 2 ^ 31" and "unat n + 5 \<le> length out" and "length out < 2 ^ 31" and "unat n \<le> 266"
    and lab: "lab = takeWhile (\<lambda>c. c \<noteq> 0x2E) p" and dot: "dot = dropWhile (\<lambda>c. c \<noteq> 0x2E) p"
  shows "\<exists>r out'. dns_labels p n out = (case r of None \<Rightarrow> Some (None, out') | Some m \<Rightarrow> dns_labels (tl dot) m out')
     \<and> length out' = length out
     \<and> (\<forall>m. r = Some m \<longrightarrow> label_ok lab \<and> unat m = unat n + 1 + length lab \<and> unat m \<le> 266 \<and> unat m + 5 \<le> length out
          \<and> take (unat m) out' = take (unat n) out @ of_nat (length lab) # lab)"
proof -
  define l :: u32 where "l = of_nat (length lab)"
  note unfold = dns_labels.simps [of p n out, folded lab dot, unfolded Let_def, folded l_def]
  show ?thesis
  proof (cases "l = 0 \<or> l > 63 \<or> n + 1 + l + 1 + 4 > of_nat (length out) \<or> n + l > 12 + 253")
    case True
    then show ?thesis using assms(1) by (intro exI [of _ None]) (simp add: unfold)
  next
    case False
    have "length lab \<le> length p" by (simp add: lab length_takeWhile_le)
    then have l: "unat l = length lab" using assms(2) by (simp add: l_def unat_of_nat take_bit_nat_eq_self)
    have small: "length lab \<noteq> 0" "length lab \<le> 63"
      using False l by (auto simp: word_less_nat_alt simp flip: unat_eq_zero)
    have "unat (n + l) = unat n + length lab" using small assms(5) l by (simp add: unat_add_small)
    then have n265: "unat n + length lab \<le> 265" using False by (simp add: word_less_nat_alt)
    have n1: "unat (n + 1) = unat n + 1" using assms(5) by (simp add: unat_add_small)
    have "unat (n + 1 + l + 1 + 4) = unat n + length lab + 6" using small assms(5) l n1 by (simp add: unat_add_small)
    then have room: "unat n + length lab + 6 \<le> length out"
      using False unat_len [OF assms(4)] by (simp add: word_less_nat_alt)
    define out1 where "out1 = take (unat n) out @ ucast l # drop (unat n + 1) out"
    have put: "put_bytes out (unat n) [ucast l] = Some out1" and len1: "length out1 = length out"
      using room by (simp_all add: put_byte_form out1_def)
    obtain r out2 where copy: "dns_copy lab (n + 1) out1 = Some (r, out2)" "length out2 = length out"
      "\<forall>n'. r = Some n' \<longrightarrow> unat n' = unat n + 1 + length lab
         \<and> out2 = take (unat n + 1) out1 @ lab @ drop (unat n + 1 + length lab) out1"
      using dns_copy_effect [of "n + 1" lab out1] room len1 assms(4) n1 by auto
    have "dns_labels p n out = (case r of None \<Rightarrow> Some (None, out2) | Some m \<Rightarrow> dns_labels (tl dot) m out2)"
      using assms(1) False put copy(1) by (simp add: unfold split: option.split)
    moreover have "ucast l = (of_nat (length lab) :: u8)" using small by (simp add: l_def ucast_of_nat_small)
    ultimately show ?thesis using copy(2,3) small room n265
      by (intro exI [of _ r] exI [of _ out2]) (auto simp: out1_def min_def label_ok_def)
  qed
qed

text \<open>The loop leaves an encoded name with room for the trailer.\<close>

definition labels_done :: "u32 \<Rightarrow> bytes \<Rightarrow> u32 \<Rightarrow> bytes \<Rightarrow> bool" where
  "labels_done n out n' out' \<longleftrightarrow> (\<exists>labs. list_all label_ok labs \<and> unat n' = unat n + length (enc_labels labs)
     \<and> unat n' \<le> 266 \<and> unat n' + 5 \<le> length out \<and> take (unat n') out' = take (unat n) out @ enc_labels labs)"

lemma labels_done_Cons:
  assumes "label_ok lab" and "unat m = unat n + 1 + length lab" and "length out2 = length out"
    and "take (unat m) out2 = take (unat n) out @ of_nat (length lab) # lab" and "labels_done m out2 n' out'"
  shows "labels_done n out n' out'"
proof -
  obtain labs where "list_all label_ok labs" "unat n' = unat m + length (enc_labels labs)" "unat n' \<le> 266"
    "unat n' + 5 \<le> length out2" "take (unat n') out' = take (unat m) out2 @ enc_labels labs"
    using assms(5) by (auto simp: labels_done_def)
  then show ?thesis using assms(1-4) unfolding labels_done_def
    by (intro exI [of _ "lab # labs"]) (simp add: enc_labels_def)
qed

lemma dns_labels_effect:
  assumes "length p < 2 ^ 31" and "unat n + 5 \<le> length out" and "length out < 2 ^ 31" and "unat n \<le> 266"
  shows "\<exists>r out'. dns_labels p n out = Some (r, out') \<and> length out' = length out
     \<and> (\<forall>n'. r = Some n' \<longrightarrow> labels_done n out n' out')"
  using assms
proof (induction "length p" arbitrary: p n out rule: less_induct)
  case (less p n out)
  show ?case
  proof (cases "p = []")
    case True
    then have "dns_labels p n out = Some (Some n, out)" by (simp add: dns_labels.simps)
    then show ?thesis using less.prems by (auto simp: labels_done_def enc_labels_def intro!: exI [of _ "[]"])
  next
    case ne: False
    define dot where "dot = dropWhile (\<lambda>c. c \<noteq> 0x2E) p"
    obtain r out2 where step: "dns_labels p n out = (case r of None \<Rightarrow> Some (None, out2) | Some m \<Rightarrow> dns_labels (tl dot) m out2)"
      and len: "length out2 = length out" and some: "\<forall>m. r = Some m \<longrightarrow> label_ok (takeWhile (\<lambda>c. c \<noteq> 0x2E) p)
          \<and> unat m = unat n + 1 + length (takeWhile (\<lambda>c. c \<noteq> 0x2E) p) \<and> unat m \<le> 266 \<and> unat m + 5 \<le> length out
          \<and> take (unat m) out2 = take (unat n) out @ of_nat (length (takeWhile (\<lambda>c. c \<noteq> 0x2E) p)) # takeWhile (\<lambda>c. c \<noteq> 0x2E) p"
      using dns_label_round [OF ne less.prems refl dot_def] by auto
    show ?thesis
    proof (cases r)
      case None
      then show ?thesis using step len by simp
    next
      case (Some m)
      have "length dot \<le> length p" "0 < length p" using ne by (simp_all add: dot_def length_dropWhile_le)
      then have tl: "length (tl dot) < length p" by (simp only: length_tl)
      obtain r' out' where ih: "dns_labels (tl dot) m out2 = Some (r', out')" "length out' = length out"
        "\<forall>n'. r' = Some n' \<longrightarrow> labels_done m out2 n' out'"
        using less.hyps [OF tl, of m out2] tl less.prems some Some len by auto
      then show ?thesis using step Some some len by (auto intro: labels_done_Cons)
    qed
  qed
qed

section \<open>The whole query\<close>

definition query_bytes :: "u16 \<Rightarrow> bytes list \<Rightarrow> bytes" where
  "query_bytes qid labs = be16 qid @ [1, 0, 0, 1, 0, 0, 0, 0, 0, 0] @ enc_labels labs @ [0, 0, 1, 0, 1]"

lemma put_bytes_append: "put_bytes (xs @ ys) (length xs + k) zs = map_option (\<lambda>y. xs @ y) (put_bytes ys k zs)"
  by (simp add: put_bytes_def)

lemma be16_one: "be16 1 = [0, 1]"
  by (simp add: be16_def)

lemma dns_header:
  assumes "12 \<le> length out"
  shows "(do { out \<leftarrow> put_bytes out 0 (replicate 12 0); out \<leftarrow> wr16 out 0 qid; out \<leftarrow> put_bytes out 2 [0x01]; out \<leftarrow> wr16 out 4 1;
     f out }) = f (be16 qid @ [1, 0, 0, 1, 0, 0, 0, 0, 0, 0] @ drop 12 out)"
  using assms by (simp add: put_bytes_def wr16_def be16_def numeral_eq_Suc)

lemma dns_trailer:
  fixes n :: u32
  assumes "unat n + 5 \<le> length out" and "unat n \<le> 266"
  shows "(do { out \<leftarrow> put_bytes out (unat n) [0]; out \<leftarrow> wr16 out (unat (n + 1)) 1; out \<leftarrow> wr16 out (unat (n + 1 + 2)) 1; f out })
     = f (take (unat n) out @ [0, 0, 1, 0, 1] @ drop (unat n + 5) out)"
proof -
  have add: "unat (n + k) = unat n + unat k" if "unat k < 10" for k
    by (rule unat_add_small) (use assms(2) that in simp)
  have e: "n + 1 + 2 = n + 3" by simp
  have n: "unat (n + 1) = unat n + 1" "unat (n + 1 + 2) = unat n + 3"
    unfolding e using add [of 1] add [of 3] by simp_all
  define xs ys where "xs = take (unat n) out" and "ys = drop (unat n) out"
  have len: "length xs = unat n" "5 \<le> length ys" and out: "out = xs @ ys" and d: "drop (unat n + 5) out = drop 5 ys"
    using assms by (auto simp: xs_def ys_def add.commute)
  have "put_bytes out (unat n) [0] = Some (xs @ 0 # drop 1 ys)"
    using put_bytes_append [of xs ys 0] len by (simp add: out put_bytes_def)
  moreover have "wr16 (xs @ 0 # drop 1 ys) (unat n + 1) 1 = Some (xs @ [0, 0, 1] @ drop 3 ys)"
    using put_bytes_append [of xs "0 # drop 1 ys" 1] len by (simp add: wr16_def put_bytes_def be16_one numeral_eq_Suc)
  moreover have "wr16 (xs @ [0, 0, 1] @ drop 3 ys) (unat n + 3) 1 = Some (xs @ [0, 0, 1, 0, 1] @ drop 5 ys)"
    using put_bytes_append [of xs "[0, 0, 1] @ drop 3 ys" 3] len by (simp add: wr16_def put_bytes_def be16_one numeral_eq_Suc)
  ultimately show ?thesis unfolding n d xs_def [symmetric] by simp
qed

lemma dns_build_effect:
  assumes "length name < 2 ^ 31" and "length out < 2 ^ 31"
  shows "\<exists>n q. dns_build_query qid name out = Some (n, q) \<and> length q = length out
     \<and> (n \<noteq> 0 \<longrightarrow> (\<exists>labs. list_all label_ok labs \<and> length (enc_labels labs) \<le> 254 \<and> unat n \<le> length out
          \<and> take (unat n) q = query_bytes qid labs))"
proof (cases "(of_nat (length out) :: u32) < 12 + 2 + 4 \<or> name = []")
  case True
  then show ?thesis using unat_len [OF assms(2)]
    by (auto simp: dns_build_query_def dns_header word_less_nat_alt)
next
  case False
  then have len: "18 \<le> length out" using unat_len [OF assms(2)] by (simp add: word_less_nat_alt)
  define out1 where "out1 = be16 qid @ [1, 0, 0, 1, 0, 0, 0, 0, 0, 0] @ drop 12 out"
  have len1: "length out1 = length out" using len by (simp add: out1_def)
  have eq: "dns_build_query qid name out = do { r \<leftarrow> dns_labels name 12 out1;
      (case r of (None, out) \<Rightarrow> Some (0, out) | (Some n, out) \<Rightarrow> do { out \<leftarrow> put_bytes out (unat n) [0];
         out \<leftarrow> wr16 out (unat (n + 1)) 1; out \<leftarrow> wr16 out (unat (n + 1 + 2)) 1; Some (n + 1 + 4, out) }) }"
    using False len by (simp add: dns_build_query_def dns_header out1_def)
  obtain r out2 where lab: "dns_labels name 12 out1 = Some (r, out2)" "length out2 = length out"
    "\<forall>n'. r = Some n' \<longrightarrow> labels_done 12 out1 n' out2"
    using dns_labels_effect [OF assms(1), of 12 out1] len len1 assms(2) by auto
  show ?thesis
  proof (cases r)
    case None
    then show ?thesis using eq lab by simp
  next
    case (Some n)
    obtain labs where labs: "list_all label_ok labs" "unat n = 12 + length (enc_labels labs)" "unat n \<le> 266"
      "unat n + 5 \<le> length out" "take (unat n) out2 = take 12 out1 @ enc_labels labs"
      using lab(3) Some len1 by (auto simp: labels_done_def)
    define q where "q = take (unat n) out2 @ [0, 0, 1, 0, 1] @ drop (unat n + 5) out2"
    have "dns_build_query qid name out = Some (n + 1 + 4, q)"
      unfolding eq q_def using labs(3,4) lab(1,2) Some dns_trailer [of n out2 "\<lambda>out. Some (n + 1 + 4, out)"] by simp
    moreover have e: "n + 1 + 4 = n + 5" by simp
    have n5: "unat (n + 1 + 4) = unat n + 5" unfolding e using unat_add_small [of n 5] labs(3) by simp
    moreover have "length q = length out" and q: "take (unat n + 5) q = take (unat n) out2 @ [0, 0, 1, 0, 1]"
      using labs(4) lab(2) by (simp_all add: q_def)
    moreover have "take 12 out1 = be16 qid @ [1, 0, 0, 1, 0, 0, 0, 0, 0, 0]" by (simp add: out1_def be16_def)
    then have "take (unat (n + 1 + 4)) q = query_bytes qid labs" unfolding n5 q labs(5) by (simp add: query_bytes_def)
    moreover have "length (enc_labels labs) \<le> 254" using labs(2,3) by simp
    ultimately show ?thesis using labs(1,4) n5
      by (intro exI [of _ "n + 1 + 4"] exI [of _ q] conjI impI exI [of _ labs]) simp_all
  qed
qed

section \<open>The answer to a built query\<close>

text \<open>Skipping an encoded name: at most 127 labels and the end need at most 128 rounds.\<close>

lemma label_byte:
  assumes "label_ok l"
  shows "of_nat (length l) \<noteq> (0 :: u8)" "of_nat (length l) AND (0xC0 :: u8) = 0" "unat (of_nat (length l) :: u8) = length l"
proof -
  have len: "0 < length l" "length l < 64" using assms by (simp_all add: label_ok_def)
  show u: "unat (of_nat (length l) :: u8) = length l" using len by (simp add: unat_of_nat take_bit_nat_eq_self)
  then show "of_nat (length l) \<noteq> (0 :: u8)" using len by (metis less_irrefl unat_0)
  have h: "of_nat (length l) = take_bit 6 (of_nat (length l) :: u8)"
    using u len by (intro unsigned_word_eqI [where ?'a = nat]) (simp add: unsigned_take_bit_eq take_bit_nat_eq_self)
  have "of_nat (length l) AND (0xC0 :: u8) = take_bit 6 (of_nat (length l)) AND 0xC0"
    by (rule arg_cong [OF h])
  also have "\<dots> = of_nat (length l) AND (mask 6 AND 0xC0)" by (simp only: take_bit_eq_mask and.assoc)
  finally show "of_nat (length l) AND (0xC0 :: u8) = 0" by (simp add: mask_eq_exp_minus_1)
qed

lemma dns_skip_labels:
  assumes "list_all label_ok labs" and "length labs < g" and "unat off = length pre"
    and "m = pre @ enc_labels labs @ 0 # post" and "length m < 2 ^ 31"
  shows "\<exists>off'. dns_skip g m (of_nat (length m)) off = Some off' \<and> unat off' = length pre + length (enc_labels labs) + 1"
  using assms
proof (induction labs arbitrary: g off pre)
  case Nil
  then obtain g' where g: "g = Suc g'" by (cases g) auto
  have m: "m = pre @ 0 # post" using Nil.prems(4) by (simp add: enc_labels_def)
  have "unat (off + 1) = length pre + 1" using Nil.prems(3,5) m unat_add_small [of off 1] by simp
  moreover have "\<not> of_nat (length m) \<le> off" using Nil.prems(3) unat_len [OF Nil.prems(5)] m by (simp add: word_le_nat_alt)
  ultimately show ?case using rd8_append [of pre 0 post] Nil.prems(3) by (simp add: g m enc_labels_def)
next
  case (Cons l labs)
  then obtain g' where g: "g = Suc g'" by (cases g) auto
  define x :: u8 where "x = of_nat (length l)"
  have l: "label_ok l" using Cons.prems(1) by simp
  have x: "x \<noteq> 0" "x AND 0xC0 = 0" "unat x = length l" using label_byte [OF l] by (simp_all add: x_def)
  have m: "m = pre @ x # l @ enc_labels labs @ 0 # post" using Cons.prems(4) by (simp add: enc_labels_def x_def)
  have less: "\<not> of_nat (length m) \<le> off"
    using Cons.prems(3) unat_len [OF Cons.prems(5)] m by (simp add: word_le_nat_alt)
  have "unat (1 + ucast x :: u32) = 1 + length l"
    using x(3) l by (subst unat_add_small) (simp_all add: unsigned_ucast_eq take_bit_nat_eq_self label_ok_def)
  then have off: "unat (off + (1 + ucast x)) = length (pre @ x # l)"
    using Cons.prems(3,5) m by (subst unat_add_small) simp_all
  obtain off' where "dns_skip g' m (of_nat (length m)) (off + (1 + ucast x)) = Some off'"
    "unat off' = length (pre @ x # l) + length (enc_labels labs) + 1"
    using Cons.IH [OF _ _ off _ Cons.prems(5), of g'] Cons.prems(1,2) g m by auto
  moreover have "rd8 m (unat off) = Some x" using Cons.prems(3) rd8_append [of pre x] by (simp add: m)
  ultimately show ?case using less x by (simp add: g enc_labels_def)
qed

text \<open>What a server sends back: the query marked as a response with one answer, and the answer record.\<close>

definition response_to :: "bytes \<Rightarrow> u32 \<Rightarrow> u32 \<Rightarrow> bytes" where
  "response_to q ttl ip = take 2 q @ [0x81, 0x80, 0, 1, 0, 1] @ drop 8 q
     @ [0xC0, 0x0C] @ be16 1 @ be16 1 @ be32 ttl @ be16 4 @ be32 ip"

lemma response_form:
  "response_to (query_bytes qid labs) ttl ip =
     be16 qid @ [0x81, 0x80, 0, 1, 0, 1, 0, 0, 0, 0] @ enc_labels labs @ 0 # [0, 1, 0, 1, 0xC0, 0x0C, 0, 1, 0, 1]
       @ be32 ttl @ [0, 4] @ be32 ip"
  by (simp add: response_to_def query_bytes_def be16_def)

lemma dns_skip_pointer:
  assumes "off < len" and "rd8 m (unat off) = Some l" and "l AND 0xC0 = 0xC0" and "off + 2 \<le> len"
  shows "dns_skip_name m len off = Some (off + 2)"
proof -
  have eq: "dns_skip_name m len off = dns_skip (Suc 127) m len off" by (simp add: dns_skip_name_def)
  have "l \<noteq> 0" "\<not> len \<le> off" using assms(1,3) by auto
  then have "dns_skip (Suc g) m len off = Some (off + 2)" for g using assms(2-4) by simp
  then show ?thesis unfolding eq .
qed

lemma dns_answer_read:
  assumes "unat off = length pre" and "length pre < 2 ^ 30"
    and m: "m = pre @ [0xC0, 0x0C, 0, 1, 0, 1] @ be32 ttl @ [0, 4] @ be32 ip"
  shows "dns_answers (Suc 0) m (of_nat (length m)) off = Some (NXE_OK, Some ip)"
proof -
  have len: "length m = length pre + 16" by (simp add: m)
  then have l: "unat (of_nat (length m) :: u32) = length pre + 16"
    using assms(2) by (simp only: unat_of_nat) (simp add: take_bit_nat_eq_self)
  have add: "unat (off + d) = length pre + unat d" if "unat d < 100" for d
    using assms(1,2) that by (subst unat_add_small) simp_all
  have u: "unat (off + 2) = length pre + 2" "unat (off + 4) = length pre + 4" "unat (off + 10) = length pre + 10"
    "unat (off + 12) = length pre + 12" "unat (off + 16) = length pre + 16"
    using add [of 2] add [of 4] add [of 10] add [of 12] add [of 16] by simp_all
  have skip: "dns_skip_name m (of_nat (length m)) off = Some (off + 2)"
  proof (rule dns_skip_pointer)
    show "rd8 m (unat off) = Some 0xC0" using rd8_append [of pre "0xC0"] assms(1) by (simp add: m)
  qed (use l u(1) assms(1) in \<open>simp_all add: word_less_nat_alt word_le_nat_alt\<close>)
  have b: "be16 1 = [0, 1]" "be16 4 = [0, 4]" by (simp_all add: be16_def)
  have f4: "rd16 m (length (pre @ [0xC0, 0x0C, 0, 1])) = Some 1"
    using rd16_be16 [of "pre @ [0xC0, 0x0C, 0, 1]" 1] by (simp add: m b)
  have f2: "rd16 m (length (pre @ [0xC0, 0x0C])) = Some 1"
    using rd16_be16 [of "pre @ [0xC0, 0x0C]" 1] by (simp add: m b)
  have f10: "rd16 m (length (pre @ [0xC0, 0x0C, 0, 1, 0, 1] @ be32 ttl)) = Some 4"
    using rd16_be16 [of "pre @ [0xC0, 0x0C, 0, 1, 0, 1] @ be32 ttl" 4 "be32 ip"] by (simp add: m b)
  have f12: "rd32 m (length (pre @ [0xC0, 0x0C, 0, 1, 0, 1] @ be32 ttl @ [0, 4])) = Some ip"
    using rd32_be32 [of "pre @ [0xC0, 0x0C, 0, 1, 0, 1] @ be32 ttl @ [0, 4]" ip "[]"] by (simp add: m)
  have n: "length (pre @ [0xC0 :: u8, 0x0C]) = length pre + 2" "length (pre @ [0xC0 :: u8, 0x0C, 0, 1]) = length pre + 4"
    "length (pre @ [0xC0, 0x0C, 0, 1, 0, 1] @ be32 ttl) = length pre + 10"
    "length (pre @ [0xC0, 0x0C, 0, 1, 0, 1] @ be32 ttl @ [0, 4]) = length pre + 12" by simp_all
  note f = f2 [unfolded n] f4 [unfolded n] f10 [unfolded n] f12 [unfolded n]
  have e: "off + 2 + 10 = off + 12" "off + 2 + 2 = off + 4" "off + 2 + 8 = off + 10" "off + 2 + 10 + ucast (4 :: u16) = off + 16"
    by simp_all
  have g: "\<not> (off + 2 = 0 \<or> of_nat (length m) < off + 12)" "\<not> of_nat (length m) < off + 16"
    using u l by (auto simp: word_less_nat_alt simp flip: unat_eq_zero)
  then have "\<not> of_nat (length m) < 16 + off" by (simp only: add.commute not_False_eq_True)
  then show ?thesis
    by (subst dns_answers.simps, unfold skip Option.bind.bind_lunit Let_def e u)
      (use f g e u in \<open>simp\<close>)
qed

lemma dns_response_read:
  assumes "list_all label_ok labs" and "length (enc_labels labs) \<le> 254"
  shows "dns_parse_response (response_to (query_bytes qid labs) ttl ip) qid = Some (NXE_OK, Some ip)"
proof -
  define m where "m = response_to (query_bytes qid labs) ttl ip"
  define hd where "hd = be16 qid @ [0x81, 0x80, 0, 1, 0, 1, 0, 0, 0, 0]"
  define an where "an = [0xC0, 0x0C, 0, 1, 0, 1] @ be32 ttl @ [0, 4] @ be32 ip"
  define pre where "pre = hd @ enc_labels labs @ [0, 0, 1, 0, 1]"
  have m: "m = hd @ enc_labels labs @ 0 # [0, 1, 0, 1] @ an" "m = pre @ an"
    by (simp_all add: m_def response_form hd_def an_def pre_def)
  have hl: "length hd = 12" by (simp add: hd_def)
  have len: "length m = 33 + length (enc_labels labs)" by (simp add: m(1) hl an_def)
  then have "length m < 2 ^ 31" using assms(2) by simp
  then have l: "unat (of_nat (length m) :: u32) = 33 + length (enc_labels labs)" "length m < 2 ^ 31"
    using unat_len [of m] len by simp_all
  have f: "rd16 m 0 = Some qid" "rd8 m 2 = Some 0x81" "rd8 m 3 = Some 0x80" "rd16 m 4 = Some 1" "rd16 m 6 = Some 1"
    using rd16_be16 [of "[]" qid] by (simp_all add: m(1) hd_def Inet.rd8_def Inet.rd16_def be16_def nth_append)
  have "length labs < 128" using label_count [OF assms(1)] assms(2) by linarith
  then obtain o1 where o1: "dns_skip_name m (of_nat (length m)) 12 = Some o1" "unat o1 = 13 + length (enc_labels labs)"
    using dns_skip_labels [OF assms(1) _ _ m(1) l(2), of 128 12] hl by (auto simp: dns_skip_name_def)
  have o4: "unat (o1 + 4) = length pre" using o1(2) assms(2) by (subst unat_add_small) (simp_all add: pre_def hl)
  have "o1 \<noteq> 0" "\<not> of_nat (length m) < o1 + 4"
    using o1(2) o4 l(1) hl by (auto simp: word_less_nat_alt pre_def simp flip: unat_eq_zero)
  then have q: "dns_questions (Suc 0) m (of_nat (length m)) 12 = Some (Some (o1 + 4))" using o1(1) by simp
  have a: "dns_answers (Suc 0) m (of_nat (length m)) (o1 + 4) = Some (NXE_OK, Some ip)"
    by (rule dns_answer_read [OF o4]) (use assms(2) hl m(2) in \<open>simp_all add: pre_def an_def\<close>)
  have "\<not> (of_nat (length m) :: u32) < 12" using l(1) by (simp add: word_less_nat_alt)
  then have "dns_parse_response m qid = Some (NXE_OK, Some ip)"
    using f q a by (simp add: dns_parse_response_def Let_def del: dns_questions.simps dns_answers.simps)
  then show ?thesis by (simp add: m_def)
qed

text \<open>
  C34. A query and its answer fit together. Building a query for any name returns and writes only inside the
  buffer; when it accepts the name, the response a server makes of the query, marked as an answer and
  followed by one address record that points back to the name, is parsed to exactly that address.
\<close>

theorem dns_query_answered:
  assumes "length name < 2 ^ 31" and "length out < 2 ^ 31"
  shows "\<exists>n q. dns_build_query qid name out = Some (n, q) \<and> length q = length out \<and> unat n \<le> length out
     \<and> (n \<noteq> 0 \<longrightarrow> dns_parse_response (response_to (take (unat n) q) ttl ip) qid = Some (NXE_OK, Some ip))"
proof -
  obtain n q where b: "dns_build_query qid name out = Some (n, q)" "length q = length out"
    and some: "n \<noteq> 0 \<longrightarrow> (\<exists>labs. list_all label_ok labs \<and> length (enc_labels labs) \<le> 254 \<and> unat n \<le> length out
          \<and> take (unat n) q = query_bytes qid labs)"
    using dns_build_effect [OF assms] by blast
  have "unat n \<le> length out" using some by (cases "n = 0") auto
  moreover have "dns_parse_response (response_to (take (unat n) q) ttl ip) qid = Some (NXE_OK, Some ip)" if "n \<noteq> 0"
    using some that dns_response_read by auto
  ultimately show ?thesis using b by blast
qed

lemma demo_labels:
  "dns_labels [0x61, 0x2E, 0x62] 12 [0, 7, 1, 0, 0, 1, 0, 0, 0, 0, 0, 0, 0, 0, 0, 0, 0, 0, 0, 0, 0, 0, 0, 0]
     = Some (Some 16, [0, 7, 1, 0, 0, 1, 0, 0, 0, 0, 0, 0, 1, 0x61, 1, 0x62, 0, 0, 0, 0, 0, 0, 0, 0])"
proof -
  have nil: "dns_labels [] n out = Some (Some n, out)" for n out by (simp add: dns_labels.simps)
  show ?thesis
    by (subst dns_labels.simps, simp add: dns_char_def put_bytes_def, subst dns_labels.simps)
      (simp add: dns_char_def put_bytes_def nil)
qed

lemma demo_query:
  "dns_build_query 7 [0x61, 0x2E, 0x62] [0, 0, 0, 0, 0, 0, 0, 0, 0, 0, 0, 0, 0, 0, 0, 0, 0, 0, 0, 0, 0, 0, 0, 0]
     = Some (21, [0, 7, 1, 0, 0, 1, 0, 0, 0, 0, 0, 0, 1, 0x61, 1, 0x62, 0, 0, 1, 0, 1, 0, 0, 0])"
proof -
  have "replicate 6 (0 :: u8) = [0, 0, 0, 0, 0, 0]" by (simp add: numeral_eq_Suc)
  then show ?thesis by (simp add: dns_build_query_def be16_def demo_labels put_bytes_def wr16_def)
qed

theorem dns_query_answered_witness:
  "dns_parse_response (response_to [0, 7, 1, 0, 0, 1, 0, 0, 0, 0, 0, 0, 1, 0x61, 1, 0x62, 0, 0, 1, 0, 1] 60 0x0A000001) 7
     = Some (NXE_OK, Some 0x0A000001)"
  using dns_query_answered [of "[0x61, 0x2E, 0x62]"
    "[0, 0, 0, 0, 0, 0, 0, 0, 0, 0, 0, 0, 0, 0, 0, 0, 0, 0, 0, 0, 0, 0, 0, 0]" 7 60 "0x0A000001"] by (simp add: demo_query)

end
