(* ===== verification/Ip_Text.thy ===== *)
theory Ip_Text
  imports Checksum
begin

text \<open>
  Dotted addresses (net_format_ip and net_parse_ip of lib/net/net.c): a printed address reads back, and the
  text fits the buffer of 16 bytes.
\<close>

definition dig :: "u32 \<Rightarrow> u8" where
  "dig v = 0x30 + ucast (v mod 10)"

lemma dig_val: "unat (dig v) = 48 + unat v mod 10"
proof -
  have "unat (ucast (v mod 10) :: u8) = unat v mod 10"
    by (simp add: unsigned_ucast_eq unat_mod take_bit_nat_eq_self)
  then show ?thesis by (simp add: dig_def unat_add_small)
qed

lemma dig_range: "0x30 \<le> dig v" "dig v \<le> 0x39"
  using dig_val [of v] by (simp_all add: word_le_nat_alt)

lemma dig_back: "ucast (dig v) - 0x30 = v mod 10"
proof (rule unsigned_word_eqI [where ?'a = nat])
  have "unat (ucast (dig v) :: u32) = 48 + unat v mod 10"
    using dig_val [of v] by (simp add: unsigned_ucast_eq take_bit_nat_eq_self)
  then show "unat (ucast (dig v) - 0x30 :: u32) = unat (v mod 10)"
    by (subst unat_sub_small) (simp_all add: word_le_nat_alt unat_mod)
qed

lemma dec_rev_dig: "dec_rev v = dig v # (if v div 10 = 0 then [] else dec_rev (v div 10))"
  by (subst dec_rev.simps) (simp add: dig_def)

lemma dec_rev_small:
  assumes "unat v < 256"
  shows "rev (dec_rev v) = (if unat v < 10 then [dig v] else if unat v < 100 then [dig (v div 10), dig v]
           else [dig (v div 10 div 10), dig (v div 10), dig v])"
proof -
  have z: "(x div 10 = 0) = (unat x < 10)" for x :: u32
    by (simp add: word_eq_iff_unsigned [where ?'a = nat] unat_div div_eq_0_iff)
  have "unat (v div 10) < 10 \<longleftrightarrow> unat v < 100" by (simp add: unat_div) linarith
  moreover have "unat (v div 10 div 10) < 10" using assms by (simp add: unat_div)
  ultimately show ?thesis by (simp add: dec_rev_dig [of v] dec_rev_dig [of "v div 10"]
        dec_rev_dig [of "v div 10 div 10"] z)
qed

text \<open>Reading the digits of a part back, up to a character that is not a digit.\<close>

lemma ip_digits_part:
  assumes "unat v < 256" and "rest = [] \<or> \<not> (0x30 \<le> hd rest \<and> hd rest \<le> 0x39)"
  shows "\<exists>n. n \<noteq> 0 \<and> ip_digits (rev (dec_rev v) @ rest) 0 0 = (v, n, rest)"
proof -
  have stop: "ip_digits rest x n = (x, n, rest)" for x n using assms(2) by (cases rest) auto
  have val: "x div 10 * 10 + x mod 10 = x" for x :: u32
    by (rule div_mult_mod_eq)
  have small: "unat x < 10 \<Longrightarrow> x mod 10 = x" for x :: u32
    by (rule unsigned_word_eqI [where ?'a = nat]) (simp add: unat_mod)
  have h: "unat v < 100 \<Longrightarrow> unat (v div 10) < 10" "unat (v div 10 div 10) < 10" using assms(1)
    by (simp_all add: unat_div)
  show ?thesis
    unfolding dec_rev_small [OF assms(1)]
    using small [of v] small [of "v div 10"] small [of "v div 10 div 10"] h val [of v] val [of "v div 10"]
    by (auto simp: dig_range dig_back stop)
qed

lemma ip_part_unat: "unat (drop_bit (k * 8) ip AND 0xFF :: u32) < 256"
proof -
  have "drop_bit (k * 8) ip AND 0xFF = take_bit 8 (drop_bit (k * 8) ip)"
    by (simp add: take_bit_eq_mask mask_eq_exp_minus_1)
  then show ?thesis using take_bit_nat_less_exp [of 8 "unat (drop_bit (k * 8) ip)"]
    by (simp add: unsigned_take_bit_eq)
qed

lemma ip_parts_step:
  assumes "unat v < 256" and "n \<noteq> 0"
  shows "ip_parts (Suc n) (rev (dec_rev v) @ 0x2E # s) ip = ip_parts n s (push_bit 8 ip OR v)"
proof -
  obtain k where k: "k \<noteq> 0" "ip_digits (rev (dec_rev v) @ 0x2E # s) 0 0 = (v, k, 0x2E # s)"
    using ip_digits_part [OF assms(1), of "0x2E # s"] by auto
  have "\<not> v > 255" using assms(1) by (simp add: word_less_nat_alt)
  then show ?thesis using k assms(2) by simp
qed

lemma ip_parts_last:
  assumes "unat v < 256"
  shows "ip_parts (Suc 0) (rev (dec_rev v)) ip = Some (push_bit 8 ip OR v)"
proof -
  obtain k where k: "k \<noteq> 0" "ip_digits (rev (dec_rev v)) 0 0 = (v, k, [])"
    using ip_digits_part [OF assms(1), of "[]"] by auto
  have "\<not> v > 255" using assms(1) by (simp add: word_less_nat_alt)
  then show ?thesis using k by simp
qed

lemma ip_join:
  "push_bit 8 (push_bit 8 (push_bit 8 (push_bit 8 0 OR (drop_bit 24 ip AND 0xFF)) OR (drop_bit 16 ip AND 0xFF))
     OR (drop_bit 8 ip AND 0xFF)) OR (ip AND 0xFF) = (ip :: u32)"
proof -
  have m: "(0xFF :: u32) = mask 8" by (simp add: mask_eq_exp_minus_1)
  show ?thesis unfolding m
  proof (rule bit_word_eqI)
    fix n assume "n < LENGTH(32)"
    then consider "n < 8" | "8 \<le> n \<and> n < 16" | "16 \<le> n \<and> n < 24" | "24 \<le> n \<and> n < 32" by force
    then show "bit (push_bit 8 (push_bit 8 (push_bit 8 (push_bit 8 0 OR (drop_bit 24 ip AND mask 8))
        OR (drop_bit 16 ip AND mask 8)) OR (drop_bit 8 ip AND mask 8)) OR (ip AND mask 8)) n = bit ip n"
      by cases (auto simp: bit_simps)
  qed
qed

lemma format_length: "length (net_format_ip ip) \<le> 15"
proof -
  have "length (ip_part ip k) \<le> 3" for k
    using dec_rev_small [OF ip_part_unat [of k ip]] by (simp add: ip_part_def)
  from this [of 0] this [of 1] this [of 2] this [of 3] show ?thesis by (simp add: net_format_ip_def)
qed

text \<open>
  C35. Addresses read back. Every address prints as a text of at most 15 characters, which fits the
  buffer of net_format_ip with its NUL, and net_parse_ip reads that text as the same address.
\<close>

theorem ip_text_roundtrip:
  "net_parse_ip (net_format_ip ip) = Some ip \<and> length (net_format_ip ip) \<le> 15"
proof -
  have "net_parse_ip (net_format_ip ip) = Some (push_bit 8 (push_bit 8 (push_bit 8
      (push_bit 8 0 OR (drop_bit 24 ip AND 0xFF)) OR (drop_bit 16 ip AND 0xFF)) OR (drop_bit 8 ip AND 0xFF))
      OR (ip AND 0xFF))"
    using ip_part_unat [of 3 ip] ip_part_unat [of 2 ip] ip_part_unat [of 1 ip] ip_part_unat [of 0 ip]
    by (simp add: net_parse_ip_def net_format_ip_def ip_part_def numeral_eq_Suc ip_parts_step ip_parts_last
        del: ip_parts.simps)
  from this [unfolded ip_join] show ?thesis using format_length by simp
qed

end
