(* ===== verification/Spec2Isabelle.thy ===== *)
theory Spec2Isabelle
  imports Pmm Store_Read Bootinfo_Check Mmap_Convert Pt_Exact Handles Uaccess_Exact Json_Object Dns_Exact Ip_Text
begin

text \<open>
  NANOX: a verification of the C kernel and of the C libraries of NANOX-OS.

  \<^bold>\<open>The program.\<close> A UEFI loader converts the firmware's memory map and loads the kernel; the kernel checks the
  boot information, sets up the page allocator and the page tables, reads programs out of the initramfs, and
  then schedules user tasks that reach it through system calls on handles. The user program
  bin/core talks to a block store on disk and over the network to a provider with JSON messages; the store,
  the formatter, the ELF planner and the JSON library are plain C libraries.

  \<^bold>\<open>Conventions.\<close> A structure is a record whose fields carry the name of the C field, an enumeration a
  datatype or a set of word constants, an integer a word of its width, so that additions wrap. Pointers to
  pool objects are indices. An operation returns its result and the changed state; an option result is None
  when the code would panic, access memory outside an object or not return. Loops are structural recursions,
  or \<open>partial_function (option)\<close> together with a lemma that they return.

  \<^bold>\<open>Shared theories.\<close> \<open>Nx_Prelude\<close> has the integer types and the shared facts on words and lists, \<open>Codec\<close>
  little-endian layouts (locale \<open>byte_codec\<close>), \<open>Bitmap\<close> bit arrays (locale \<open>bit_array\<close>), \<open>Phys_Mem\<close> physical
  memory, \<open>Page_Source\<close> the contract between the page allocator and its clients (locale \<open>page_source\<close>).

  \<^bold>\<open>Boot.\<close> \<open>Boot_Abi\<close> (abi/nanox/bootinfo.h), \<open>Mmap_Convert\<close> (boot/uefi/mmap_convert.c), \<open>Bootinfo_Check\<close>
  (kernel/bootinfo_check.c), \<open>Elf_Plan\<close> (lib/elf_plan.c), \<open>Initramfs\<close> (kernel/initramfs.c). The validators
  return for every input, read only inside it, and accept exactly the inputs of a specification; the
  converted memory map covers what the firmware reported; the last section of this theory composes the
  validator with the page allocator.

  \<^bold>\<open>Memory.\<close> \<open>Pmm\<close> (kernel/mm/pmm.c) is an instance of \<open>page_source\<close>: no page is handed out twice. \<open>Page_Table\<close>
  has the operations of kernel/mm/pt.c, \<open>Pt_Tree\<close> (locale \<open>entry_store\<close>) and \<open>Pt_Map\<close> (locale \<open>table_source\<close>) view
  the tables as a tree, and \<open>Pt_Exact\<close> shows the exact effect of mapping and unmapping on the translation.
  \<open>Uaccess\<close> (kernel/mm/uaccess.c) and \<open>Vmm\<close> (kernel/mm/vmm.c) build on them; \<open>Uaccess_Exact\<close> shows that reading
  user memory returns exactly the bytes the tables lead to, or faults.

  \<^bold>\<open>Kernel.\<close> \<open>Kobj\<close>, \<open>Ipc\<close> (kernel/obj/ipc.c, an instance of the locale \<open>bounded_fifo\<close>), \<open>Evlog\<close>
  (kernel/obj/event.c) and \<open>Printf\<close> (lib/printf.c, lib/serial.c) are its small parts. \<open>Kernel_State\<close> is the
  record of the whole kernel. \<open>Kobjects\<close> (kernel/obj/handle.c, objects.c), \<open>Sched\<close> and \<open>Tasks\<close>
  (kernel/task.c), \<open>Syscalls\<close> and \<open>Devices\<close> (kernel/syscall.c, chan.c, dev/rtc.c), \<open>Blk\<close> (kernel/dev/blk.c)
  and \<open>Civil\<close> (civil.h) have its operations. A call that blocks stores its continuation in the task and
  ends in the scheduler; the resumption of a continuation is a step of its own. Dropping a reference may
  destroy an endpoint and drop the references in its queue: the recursion has fuel 16, which is enough since
  a queue holds at most eight messages and endpoints are never queued; running out of fuel is None.
  \<open>Kernel_Frame\<close> collects what the operations leave alone. \<open>Sched_Inv\<close> and \<open>Sched_Run\<close> prove the scheduler
  invariant for the steps of a transition system and that a ready task runs after a bounded number of ticks
  (freeing the slots of ended tasks is not a step of that system). \<open>Authority\<close>, \<open>Confinement\<close> and
  \<open>Sys_Confined\<close> prove that no system call, fault, timer tick or reaper pass, in any order and for all tasks
  together, adds rights over an object, apart from those the sovereign object grants. \<open>Handles\<close> shows that a
  handle table is a map from handle values to objects with rights.

  \<^bold>\<open>Block store.\<close> \<open>Crc32\<close> (lib/crc32.c), \<open>Store_Format\<close> and \<open>Store\<close> (lib/store.c) have the operations over an
  arbitrary device. \<open>Store_Disk\<close> is the device the crash theorems assume: a write-back cache that keeps
  unflushed writes in any order or not at all, fails at will and loses power at any moment; a superblock
  write is kept whole or not at all or leaves a block whose checksum does not match. \<open>Store_Verify\<close>,
  \<open>Store_Mount\<close>, \<open>Store_Tx\<close>, \<open>Store_Ops\<close>, \<open>Store_Edit\<close>, \<open>Store_Commit\<close> and \<open>Store_Crash\<close> show that every
  reachable state mounts to the last committed generation or the one being committed; mounting is a step on a
  device that answers. \<open>Store_Read\<close> shows that a read returns what was put.

  \<^bold>\<open>JSON.\<close> \<open>Json\<close> has all of lib/http/json.c. \<open>Json_Exact\<close> shows that the reader accepts exactly the grammar
  of RFC 8259 up to a nesting of 32, \<open>Json_Text\<close> that written strings and numbers read back, \<open>Json_Object\<close>
  that the lookup of a member finds the first one with the wanted name.

  \<^bold>\<open>Network code without state.\<close> \<open>Nerr\<close> has the error codes (lib/net/nerr.c), \<open>Inet\<close> the byte order, sequence
  number, checksum and address functions of lib/net/inet.h and lib/net/net.c, \<open>Dns\<close> the DNS messages of
  lib/net/net.c. \<open>Checksum\<close> shows what the Internet checksum guarantees, \<open>Ip_Text\<close> that printed addresses read
  back, \<open>Dns_Exact\<close> that parsing a response is safe for every message and that the answer to a query is understood.

  \<^bold>\<open>Not modelled.\<close> The virtio and PCI drivers (shared memory with hardware; their operations are parameters of
  \<open>Blk\<close> and \<open>Devices\<close>), descriptor tables, trap entry and the timer's calibration (assembly and device
  registers), the boot loader's firmware calls, start-up, panic and the in-kernel self tests; st_check of the
  store; the stateful network stack (ARP, IPv4, UDP, the resolver loop and TCP), HTTP, TLS, X.509 and the
  cryptographic primitives; the user program bin/core above the system calls
  and the library code named here; the Rust crates, which are separate implementations not linked with the C
  code; host tools and tests.
\<close>

section \<open>From the firmware map to the page allocator\<close>

lemma covers_unusable:
  assumes "regions_wf rg" and "range_covered rg (start, len, ty)" and "ty \<noteq> NX_MEM_USABLE"
    and "j \<in> usable_pages rg"
  shows "\<not> overlaps_page (unat start) (unat len) j"
proof
  assume o: "overlaps_page (unat start) (unat len) j"
  define a where "a = max (unat start) (j * 4096)"
  obtain r where r: "r \<in> set rg" "mr_type r = NX_MEM_USABLE" "page_in (mr_lo r) (mr_hi r) j"
    using assms(4) by (auto simp: usable_pages_def)
  have "in_region a r" using r(3) o by (auto simp: a_def in_region_def page_in_def overlaps_page_def)
  moreover have "unat start \<le> a" "a < unat start + unat len"
    using o assms(2) by (auto simp: a_def overlaps_page_def range_covered_def)
  ultimately show False
    using covers_disjoint [OF assms(1) _ r(1), of "unat start" "unat start + unat len" ty a] assms(2,3) r(2)
    by (simp add: range_covered_def)
qed

lemma reserved_types: "\<forall>x \<in> set (reserved_ranges c bi). snd (snd x) \<noteq> NX_MEM_USABLE"
  by (auto simp: reserved_ranges_def)

text \<open>
  C15. Start-up protects the boot data. When the kernel accepts the boot info and initialises the page
  allocator on the accepted memory map, then whatever sequence of allocations and releases follows,
  no page handed out touches the kernel image, the boot stack, the boot info, the memory map, the
  command line or the initrd, nor the allocator's own bitmaps, and no page is handed out twice.
\<close>

theorem boot_data_never_allocated:
  assumes "br_error (nx_bootinfo_check c) = NX_BI_OK" and "br_regions (nx_bootinfo_check c) = Some rg"
    and "br_bi (nx_bootinfo_check c) = Some bi" and "sb \<le> - 1 - 4096"
    and "nx_pmm_init p0 rg st sp sb = (p, NX_PMM_OK)"
    and "run_ops nx_pmm_alloc nx_pmm_free NX_PMM_OK ops (p, []) = (q, held)"
  shows "distinct held
    \<and> (\<forall>a \<in> set held. \<not> overlaps_page (unat sp) (unat sb) (unat a div 4096)
        \<and> (\<forall>(start, len, ty) \<in> set (reserved_ranges c bi).
              \<not> overlaps_page (unat start) (unat len) (unat a div 4096)))"
proof -
  have wf: "regions_wf rg" and cov: "list_all (range_covered rg) (reserved_ranges c bi)"
    by (rule bootinfo_check_ok [OF refl assms(1)], use assms(2,3) in simp)+
  have "\<forall>r \<in> set rg. region_wf r" using wf by (simp add: regions_wf_def)
  then have held: "distinct held" "\<And>a. a \<in> set held \<Longrightarrow> unat a div 4096 \<in> usable_pages rg
      \<and> \<not> overlaps_page (unat sp) (unat sb) (unat a div 4096)"
    using pmm_held_pages [OF _ assms(4-6)] by auto
  have "\<not> overlaps_page (unat s) (unat l) (unat a div 4096)"
    if "a \<in> set held" "(s, l, ty) \<in> set (reserved_ranges c bi)" for a s l ty
    using covers_unusable [OF wf, of s l ty "unat a div 4096"] held(2) [OF that(1)] cov that(2)
      reserved_types [of c bi] by (force simp: list_all_iff)
  then show ?thesis using held by auto
qed

lemma ex_boot_result:
  "br_regions (nx_bootinfo_check ex_boot_check) = Some (regions_at ex_boot_map 4)"
  "br_bi (nx_bootinfo_check ex_boot_check) = Some (boot_info_at ex_boot_info)"
  by (simp_all add: ex_boot_accepted)

lemma ex_boot_init: "nx_pmm_init pmm_blank (regions_at ex_boot_map 4) 0x100000 0x100000 0x1000 = (ex_pmm, NX_PMM_OK)"
  by (simp add: ex_pmm_def ex_regions pmm_blank_def pmm_eval)

theorem boot_data_never_allocated_witness:
  "\<exists>q a. run_ops nx_pmm_alloc nx_pmm_free NX_PMM_OK [Op_Alloc] (ex_pmm, []) = (q, [a])
     \<and> \<not> overlaps_page 0x2000 0x1000 (unat a div 4096)"
proof -
  obtain a q where aq: "nx_pmm_alloc ex_pmm = (a, q)" by fastforce
  have "pmm_avail ex_pmm \<noteq> {}" using card_pmm_avail [OF ex_pmm_inv] by (auto simp: ex_pmm_def)
  then have "a \<noteq> 0" using pmm.alloc_zero [OF ex_pmm_inv, of q] aq by auto
  then have r: "run_ops nx_pmm_alloc nx_pmm_free NX_PMM_OK [Op_Alloc] (ex_pmm, []) = (q, [a])" using aq by simp
  show ?thesis
    using boot_data_never_allocated [OF ex_boot_ok ex_boot_result _ ex_boot_init r] r
    by (auto simp: reserved_ranges_def ex_bi)
qed

end
